(* ===== verification/Media_Prelude.thy ===== *)
theory Media_Prelude
  imports Main "HOL-Library.Word"
begin

unbundle bit_operations_syntax

text \<open>
  What the theories of the development share: the fixed-width integers of the
  sources, the faults a C++ statement can end in, the result type that carries
  them, and the generic facts on words, lists and options that the component
  proofs use.

  A function of the sources that cannot fail is a HOL function. One that can
  fail a \<^verbatim>\<open>MOJO_DCHECK\<close>, overflow a signed integer, divide by zero,
  dereference a null pointer or loop forever returns \<open>fault + 'a\<close>, with the
  fault on the left. The build that is modelled is the one with DCHECKs enabled.
\<close>

section \<open>Integers of the sources\<close>

type_synonym u8 = "8 word"
type_synonym u32 = "32 word"
type_synonym u64 = "64 word"

text \<open>
  A signed \<^verbatim>\<open>int64_t\<close> is an \<open>int\<close> within its range: arithmetic that leaves
  the range is undefined behaviour in C++, so it is a fault of the model and
  not a wrap-around.
\<close>

definition int64_min :: int where
  "int64_min = - (2 ^ 63)"

definition int64_max :: int where
  "int64_max = 2 ^ 63 - 1"

definition in_int64 :: "int \<Rightarrow> bool" where
  "in_int64 x \<longleftrightarrow> int64_min \<le> x \<and> x \<le> int64_max"

lemma in_int64_iff: "in_int64 x \<longleftrightarrow> - (2 ^ 63) \<le> x \<and> x < 2 ^ 63"
  by (auto simp: in_int64_def int64_min_def int64_max_def)

definition in_int32 :: "int \<Rightarrow> bool" where
  "in_int32 x \<longleftrightarrow> - (2 ^ 31) \<le> x \<and> x < 2 ^ 31"

text \<open>The conversion of an integer to \<^verbatim>\<open>int32_t\<close>, which keeps the low 32 bits.\<close>

definition to_int32 :: "int \<Rightarrow> int" where
  "to_int32 x = (x + 2 ^ 31) mod 2 ^ 32 - 2 ^ 31"

lemma to_int32_id [simp]: "in_int32 x \<Longrightarrow> to_int32 x = x"
  by (simp add: in_int32_def to_int32_def)

lemma to_int32_range: "in_int32 (to_int32 x)"
  using pos_mod_bound [of "2 ^ 32" "x + 2 ^ 31"] pos_mod_sign [of "2 ^ 32" "x + 2 ^ 31"]
  by (simp add: in_int32_def to_int32_def)

section \<open>Faults and results\<close>

datatype fault =
    Dcheck_failed
  | Signed_overflow
  | Div_by_zero
  | Null_deref
  | Out_of_range
  | No_return

type_synonym 'a res = "fault + 'a"

definition rbind :: "'a res \<Rightarrow> ('a \<Rightarrow> 'b res) \<Rightarrow> 'b res" where
  "rbind m k = (case m of Inl e \<Rightarrow> Inl e | Inr x \<Rightarrow> k x)"

definition dcheck :: "bool \<Rightarrow> 'a res \<Rightarrow> 'a res" where
  "dcheck b k = (if b then k else Inl Dcheck_failed)"

definition s64 :: "int \<Rightarrow> int res" where
  "s64 x = (if in_int64 x then Inr x else Inl Signed_overflow)"

definition s32 :: "int \<Rightarrow> int res" where
  "s32 x = (if in_int32 x then Inr x else Inl Signed_overflow)"

text \<open>A loop modelled by \<^theory_text>\<open>partial_function\<close> gives \<open>None\<close> when it never ends.\<close>

definition of_loop :: "'a option \<Rightarrow> 'a res" where
  "of_loop l = (case l of None \<Rightarrow> Inl No_return | Some x \<Rightarrow> Inr x)"

lemma rbind_simps [simp]:
  "rbind (Inl e) k = Inl e"
  "rbind (Inr x) k = k x"
  by (simp_all add: rbind_def)

lemma rbind_eq_Inr_iff: "rbind m k = Inr y \<longleftrightarrow> (\<exists>x. m = Inr x \<and> k x = Inr y)"
  by (cases m) auto

lemma rbind_cong [fundef_cong]: "m = m' \<Longrightarrow> (\<And>x. m' = Inr x \<Longrightarrow> k x = k' x) \<Longrightarrow> rbind m k = rbind m' k'"
  by (cases m') simp_all

lemma rbind_assoc: "rbind (rbind m k) h = rbind m (\<lambda>x. rbind (k x) h)"
  by (cases m) auto

lemma dcheck_simps [simp]:
  "dcheck True k = k"
  "dcheck False k = Inl Dcheck_failed"
  by (simp_all add: dcheck_def)

lemma dcheck_eq_Inr_iff [simp]: "dcheck b k = Inr y \<longleftrightarrow> b \<and> k = Inr y"
  by (simp add: dcheck_def)

lemma dcheck_pass: "b \<Longrightarrow> dcheck b k = k"
  by (simp add: dcheck_def)

lemma dcheck_cong [fundef_cong]: "b = b' \<Longrightarrow> (b' \<Longrightarrow> k = k') \<Longrightarrow> dcheck b k = dcheck b' k'"
  by (simp add: dcheck_def)

lemma s64_eq_Inr_iff [simp]: "s64 x = Inr y \<longleftrightarrow> in_int64 x \<and> y = x"
  by (auto simp: s64_def)

lemma s64_pass: "in_int64 x \<Longrightarrow> s64 x = Inr x"
  by (simp add: s64_def)

lemma s32_pass [simp]: "in_int32 x \<Longrightarrow> s32 x = Inr x"
  by (simp add: s32_def)

lemma of_loop_simps [simp]:
  "of_loop (Some x) = Inr x"
  "of_loop None = Inl No_return"
  by (simp_all add: of_loop_def)

section \<open>Words\<close>

text \<open>How the word operations of the sources read as operations on naturals.\<close>

lemma word_and_1_eq_0_iff [simp]: "a AND 1 = 0 \<longleftrightarrow> even (unat a)" for a :: "'a::len word"
proof -
  have "a AND 1 = a mod 2" by (rule and_one_eq)
  moreover have "a mod 2 = 0 \<longleftrightarrow> even a" by (simp add: even_iff_mod_2_eq_zero)
  moreover have "even a \<longleftrightarrow> even (unat a)" by transfer (simp add: even_nat_iff)
  ultimately show ?thesis by simp
qed

lemma even_word_or_iff: "even (unat (a OR b)) \<longleftrightarrow> even (unat a) \<and> even (unat b)"
  for a :: "'a::len word"
  by (simp add: unsigned_or_eq even_or_iff)

lemma unat_drop_bit_div: "unat (drop_bit n a) = unat a div 2 ^ n" for a :: "'a::len word"
  by (subst unat_drop_bit_eq) (rule drop_bit_eq_div)

lemma unat_drop_1 [simp]: "unat (drop_bit (Suc 0) a) = unat a div 2" for a :: "'a::len word"
  using unat_drop_bit_div [of "Suc 0" a] by (simp only: power_Suc power_0 mult_1_right)

lemma unat_push_bit_mod: "unat (push_bit n a) = (unat a * 2 ^ n) mod 2 ^ LENGTH('a)"
  for a :: "'a::len word"
proof -
  have "unat (push_bit n a) = take_bit LENGTH('a) (push_bit n (unat a))"
    by (rule unsigned_push_bit_eq)
  then show ?thesis by (simp only: take_bit_eq_mod push_bit_eq_mult)
qed

lemma unat_ucast_up: "LENGTH('a) \<le> LENGTH('b::len) \<Longrightarrow> unat (ucast a :: 'b::len word) = unat a"
  for a :: "'a::len word"
proof -
  assume "LENGTH('a) \<le> LENGTH('b)"
  then have "(2::nat) ^ LENGTH('a) \<le> 2 ^ LENGTH('b)" by (rule power_increasing) simp
  with unsigned_less [of a] have "unat a < 2 ^ LENGTH('b)" by (rule less_le_trans)
  then show ?thesis by (simp add: unsigned_ucast_eq take_bit_nat_eq_self_iff)
qed

lemma unat_ucast_down: "unat a < 2 ^ LENGTH('b) \<Longrightarrow> unat (ucast a :: 'b::len word) = unat a"
  for a :: "'a::len word"
  by (simp add: unsigned_ucast_eq take_bit_nat_eq_self_iff)

lemma nat_or_disjoint:
  fixes l h :: nat
  assumes "l < 2 ^ n"
  shows "(h * 2 ^ n) OR l = h * 2 ^ n + l"
proof -
  have l: "take_bit n l = l" using assms by (simp add: take_bit_nat_eq_self_iff)
  have "push_bit n h AND take_bit n l = 0"
    by (rule bit_eqI) (auto simp: bit_simps)
  then have "push_bit n h + take_bit n l = push_bit n h OR take_bit n l"
    by (rule disjunctive_add_eq_or)
  then show ?thesis by (simp add: l push_bit_eq_mult)
qed

lemma word_halve:
  fixes a :: "'a::len word"
  assumes "even (unat a)" "a \<noteq> 0"
  shows "unat (drop_bit (Suc 0) a) < unat a" "drop_bit (Suc 0) a \<noteq> 0"
    "unat a = 2 * unat (drop_bit (Suc 0) a)"
proof -
  from assms(2) have "0 < unat a" by (simp add: unat_gt_0)
  moreover have u: "unat (drop_bit (Suc 0) a) = unat a div 2" by (rule unat_drop_1)
  ultimately show "unat (drop_bit (Suc 0) a) < unat a" by simp
  show eq: "unat a = 2 * unat (drop_bit (Suc 0) a)" using assms(1) u by simp
  show "drop_bit (Suc 0) a \<noteq> 0"
  proof
    assume "drop_bit (Suc 0) a = 0"
    then have "unat (drop_bit (Suc 0) a) = 0" by simp
    with eq \<open>0 < unat a\<close> show False by simp
  qed
qed

lemma unat_less_2p: "unat a < 2 ^ LENGTH('a)" for a :: "'a::len word"
  by (rule unsigned_less)

section \<open>Long division by 32-bit halves\<close>

text \<open>
  Both \<^verbatim>\<open>ScaleUInt64\<close> and \<^verbatim>\<open>scale_u64_to_u64\<close> multiply a 64-bit value by a 32-bit
  one and divide the 96-bit product by a 32-bit value, one 32-bit digit at a time.
\<close>

lemma mult_halves:
  fixes s v B :: nat
  assumes "0 < B"
  shows "s * (v div B) + (s * (v mod B)) div B = (s * v) div B"
    and "(s * (v mod B)) mod B = (s * v) mod B"
proof -
  have eq: "s * v = s * (v mod B) + s * (v div B) * B"
    by (metis add.commute distrib_left div_mult_mod_eq mult.assoc)
  have "(s * v) div B = (s * (v mod B) + s * (v div B) * B) div B"
    by (rule arg_cong [OF eq])
  then show "s * (v div B) + (s * (v mod B)) div B = (s * v) div B"
    using assms by simp
  show "(s * (v mod B)) mod B = (s * v) mod B"
    by (rule mod_mult_right_eq)
qed

lemma long_division_step:
  fixes H L R B :: nat
  assumes "0 < R" "L < B"
  shows "(H * B + L) div R = (H div R) * B + ((H mod R) * B + L) div R"
    and "(H * B + L) mod R = ((H mod R) * B + L) mod R"
    and "((H mod R) * B + L) div R < B"
proof -
  have "H * B = (H mod R + (H div R) * R) * B" by simp
  then have eq: "H * B + L = ((H mod R) * B + L) + (H div R) * B * R"
    by (simp only: distrib_right) (simp add: ac_simps)
  have "(H * B + L) div R = (((H mod R) * B + L) + (H div R) * B * R) div R"
    by (rule arg_cong [OF eq])
  then show "(H * B + L) div R = (H div R) * B + ((H mod R) * B + L) div R"
    using assms by simp
  have "(H * B + L) mod R = (((H mod R) * B + L) + (H div R) * B * R) mod R"
    by (rule arg_cong [OF eq])
  then show "(H * B + L) mod R = ((H mod R) * B + L) mod R" by simp
  have "H mod R + 1 \<le> R" using assms by (simp add: Suc_leI)
  then have "(H mod R + 1) * B \<le> R * B" by (rule mult_le_mono1)
  then have "(H mod R) * B + L < B * R" using assms by (simp add: algebra_simps)
  then show "((H mod R) * B + L) div R < B" by (rule less_mult_imp_div_less)
qed

lemma unat_and_low32: "unat (w AND 0xffffffff) = unat w mod 2 ^ 32" for w :: u64
proof -
  have "w AND 0xffffffff = take_bit 32 w" by (simp add: take_bit_eq_mask mask_eq_exp_minus_1)
  then have "unat (w AND 0xffffffff) = take_bit 32 (unat w)"
    by (simp only: unsigned_take_bit_eq)
  then show ?thesis by (simp only: take_bit_eq_mod)
qed

lemma and_high32_eq_0_iff:
  "w AND push_bit 32 0xffffffff = 0 \<longleftrightarrow> unat w < 2 ^ 32" for w :: u64
proof -
  have m: "(push_bit 32 0xffffffff :: u64) = NOT (mask 32)" by (simp add: mask_eq_exp_minus_1)
  have "w AND NOT (mask 32) = 0 \<longleftrightarrow> take_bit 32 w = w"
    by (auto simp: bit_eq_iff bit_simps)
  also have "\<dots> \<longleftrightarrow> take_bit 32 (unat w) = unat w"
    by (simp only: word_unat_eq_iff unsigned_take_bit_eq)
  also have "\<dots> \<longleftrightarrow> unat w < 2 ^ 32" by (rule take_bit_nat_eq_self_iff)
  finally show ?thesis unfolding m .
qed

lemma unat_or_halves:
  fixes h l :: u64
  assumes "unat h < 2 ^ 32" "unat l < 2 ^ 32"
  shows "unat (push_bit 32 h OR l) = unat h * 2 ^ 32 + unat l"
proof -
  have "unat (push_bit 32 h) = unat h * 2 ^ 32"
    using assms(1) by (simp only: unat_push_bit_mod) simp
  then have "unat (push_bit 32 h OR l) = (unat h * 2 ^ 32) OR unat l"
    by (simp only: unsigned_or_eq)
  then show ?thesis using nat_or_disjoint [OF assms(2)] by simp
qed

lemma unat_of_int_u64: "0 \<le> v \<Longrightarrow> v < 2 ^ 64 \<Longrightarrow> unat (of_int v :: u64) = nat v"
  by (simp add: unsigned_of_int take_bit_int_eq_self)

lemma int_unat_pos: "w \<noteq> 0 \<Longrightarrow> 0 < int (unat w)" for w :: "'a::len word"
  by (simp only: of_nat_0_less_iff unat_gt_0 not_False_eq_True)

lemma unat_mult_u32:
  fixes s :: u32 and x :: u64
  assumes "unat x < 2 ^ 32"
  shows "unat (ucast s * x) = unat s * unat x" "unat s * unat x \<le> (2 ^ 32 - 1) * (2 ^ 32 - 1)"
proof -
  have u: "unat (ucast s :: u64) = unat s" by (rule unat_ucast_up) simp
  have "unat s < 2 ^ 32" using unat_less_2p [of s] by simp
  then show b: "unat s * unat x \<le> (2 ^ 32 - 1) * (2 ^ 32 - 1)"
    using assms by (intro mult_le_mono) auto
  then have "unat s * unat x < 2 ^ 64" by simp
  then show "unat (ucast s * x) = unat s * unat x"
    using u by (simp add: unat_word_ariths)
qed

lemma mult_digits:
  fixes v :: u64 and s :: u32
  shows "unat (ucast s * drop_bit 32 v + drop_bit 32 (ucast s * (v AND 0xffffffff)))
       = (unat s * unat v) div 2 ^ 32"
    and "unat (ucast s * (v AND 0xffffffff) AND 0xffffffff) = (unat s * unat v) mod 2 ^ 32"
proof -
  let ?v = "unat v" and ?s = "unat s"
  have "?v < 2 ^ 64" using unat_less_2p [of v] by simp
  then have h: "unat (drop_bit 32 v) = ?v div 2 ^ 32" "unat (drop_bit 32 v) < 2 ^ 32"
    unfolding unat_drop_bit_div by simp_all
  have l: "unat (v AND 0xffffffff) = ?v mod 2 ^ 32" "unat (v AND 0xffffffff) < 2 ^ 32"
    unfolding unat_and_low32 by simp_all
  note mh = unat_mult_u32 [OF h(2), of s, unfolded h(1)]
  note ml = unat_mult_u32 [OF l(2), of s, unfolded l(1)]
  have "?s * (?v mod 2 ^ 32) div 2 ^ 32 < 2 ^ 32" using ml(2) by simp
  with mh(2) have bound: "?s * (?v div 2 ^ 32) + ?s * (?v mod 2 ^ 32) div 2 ^ 32 < 2 ^ 64" by simp
  have "unat (ucast s * drop_bit 32 v + drop_bit 32 (ucast s * (v AND 0xffffffff)))
      = (?s * (?v div 2 ^ 32) + ?s * (?v mod 2 ^ 32) div 2 ^ 32) mod 2 ^ 64"
    by (simp only: unat_word_ariths(1) mh(1) unat_drop_bit_div ml(1)) simp
  also have "\<dots> = ?s * (?v div 2 ^ 32) + ?s * (?v mod 2 ^ 32) div 2 ^ 32"
    using bound by (rule mod_less)
  also have "\<dots> = (?s * ?v) div 2 ^ 32" by (rule mult_halves) simp
  finally show "unat (ucast s * drop_bit 32 v + drop_bit 32 (ucast s * (v AND 0xffffffff)))
       = (?s * ?v) div 2 ^ 32" .
  show "unat (ucast s * (v AND 0xffffffff) AND 0xffffffff) = (?s * ?v) mod 2 ^ 32"
    by (simp only: unat_and_low32 ml(1)) (rule mod_mult_right_eq)
qed

end
