(* ===== verification/Timeline_Rate.thy ===== *)
theory Timeline_Rate
  imports Media_Prelude "HOL-Library.Monad_Syntax"
begin

unbundle bit_operations_syntax

text \<open>
  The class \<^verbatim>\<open>TimelineRate\<close> (timeline_rate.h, timeline_rate.cc): a ratio of
  two \<^verbatim>\<open>uint32_t\<close> values, its reduction by the binary gcd algorithm, products of
  rates and the scaling of an \<^verbatim>\<open>int64_t\<close> by a rate.

  The loops of the sources are \<^theory_text>\<open>partial_function\<close>s, so that a loop that does
  not end is the value \<open>None\<close>; the lemmas show that each one ends.
\<close>

section \<open>The greatest common divisor\<close>

partial_function (option) gcd_twos_loop ::
    "'a::len word \<Rightarrow> 'a word \<Rightarrow> u8 \<Rightarrow> ('a word \<times> 'a word \<times> u8) option" where
  "gcd_twos_loop a b twos =
     (if (a OR b) AND 1 = 0
      then gcd_twos_loop (drop_bit 1 a) (drop_bit 1 b) (twos + 1)
      else Some (a, b, twos))"

partial_function (option) strip_twos :: "'a::len word \<Rightarrow> 'a word option" where
  "strip_twos a = (if a AND 1 = 0 then strip_twos (drop_bit 1 a) else Some a)"

partial_function (option) gcd_euclid_loop :: "'a::len word \<Rightarrow> 'a word \<Rightarrow> 'a word option" where
  "gcd_euclid_loop a b =
     do {
       b1 \<leftarrow> strip_twos b;
       let a2 = (if a > b1 then b1 else a);
       let b2 = (if a > b1 then a else b1);
       let b3 = b2 - a2;
       if b3 \<noteq> 0 then gcd_euclid_loop a2 b3 else Some a2
     }"

definition BinaryGcd :: "'a::len word \<Rightarrow> 'a word \<Rightarrow> 'a word option" where
  "BinaryGcd a b =
     (if a = 0 then Some b
      else if b = 0 then Some a
      else do {
        (a1, b1, twos) \<leftarrow> gcd_twos_loop a b 0;
        a2 \<leftarrow> strip_twos a1;
        g \<leftarrow> gcd_euclid_loop a2 b1;
        Some (push_bit (unat twos) g)
      })"

definition ReduceRatio :: "'a::len word \<Rightarrow> 'a word \<Rightarrow> ('a word \<times> 'a word) res" where
  "ReduceRatio numerator denominator =
     dcheck (denominator \<noteq> 0)
       (rbind (of_loop (BinaryGcd numerator denominator)) (\<lambda>g.
          if g = 0 then Inr (numerator, 1)
          else if g = 1 then Inr (numerator, denominator)
          else Inr (numerator div g, denominator div g)))"

section \<open>Scaling\<close>

definition ScaleUInt64 :: "u64 \<Rightarrow> u32 \<Rightarrow> u32 \<Rightarrow> bool \<Rightarrow> (u64 \<times> bool) res" where
  "ScaleUInt64 value subject_delta reference_delta round_up =
     dcheck (reference_delta \<noteq> 0)
      (let kLow32Bits = (0xffffffff :: u64);
           kHigh32Bits = push_bit 32 kLow32Bits;
           high = ucast subject_delta * drop_bit 32 value;
           low = ucast subject_delta * (value AND kLow32Bits);
           high = high + drop_bit 32 low;
           low = low AND kLow32Bits;
           low = low OR push_bit 32 (high mod ucast reference_delta);
           round_up = (round_up \<and> low mod ucast reference_delta \<noteq> 0);
           high = high div ucast reference_delta;
           low = low div ucast reference_delta
       in if high AND kHigh32Bits \<noteq> 0 then Inr (0, True)
          else let result = push_bit 32 high OR low
               in if round_up
                  then if result = of_int int64_max then Inr (0, True)
                       else Inr (result + 1, False)
                  else Inr (result, False))"

definition kOverflow :: int where
  "kOverflow = int64_max"

definition Scale :: "int \<Rightarrow> u32 \<Rightarrow> u32 \<Rightarrow> int res" where
  "Scale value subject_delta reference_delta =
     (let abs_of_min_int64 = (of_int int64_max :: u64) + 1
      in dcheck (reference_delta \<noteq> 0)
        (rbind
          (if value \<ge> 0
           then ScaleUInt64 (of_int value) subject_delta reference_delta False
           else if value = int64_min
           then ScaleUInt64 abs_of_min_int64 subject_delta reference_delta True
           else rbind (s64 (- value)) (\<lambda>v.
                  ScaleUInt64 (of_int v) subject_delta reference_delta True))
          (\<lambda>(abs_result, overflow).
             if overflow then Inr kOverflow
             else if abs_result > of_int int64_max
             then if value < 0 \<and> abs_result = abs_of_min_int64 then Inr int64_min
                  else Inr kOverflow
             else if value \<ge> 0 then Inr (uint abs_result)
             else s64 (- uint abs_result))))"

section \<open>The class\<close>

record TimelineRate =
  tr_subject_delta :: u32
  tr_reference_delta :: u32

definition TimelineRate_default :: TimelineRate where
  "TimelineRate_default = \<lparr>tr_subject_delta = 0, tr_reference_delta = 1\<rparr>"

definition TimelineRate_of_uint :: "u32 \<Rightarrow> TimelineRate" where
  "TimelineRate_of_uint subject_delta =
     \<lparr>tr_subject_delta = subject_delta, tr_reference_delta = 1\<rparr>"

definition Reduce :: "u32 \<Rightarrow> u32 \<Rightarrow> (u32 \<times> u32) res" where
  "Reduce subject_delta reference_delta = ReduceRatio subject_delta reference_delta"

definition TimelineRate_make :: "u32 \<Rightarrow> u32 \<Rightarrow> TimelineRate res" where
  "TimelineRate_make subject_delta reference_delta =
     dcheck (reference_delta \<noteq> 0)
       (rbind (Reduce subject_delta reference_delta) (\<lambda>(s, r).
          Inr \<lparr>tr_subject_delta = s, tr_reference_delta = r\<rparr>))"

partial_function (option) product_shift_loop :: "u64 \<Rightarrow> u64 \<Rightarrow> (u64 \<times> u64) option" where
  "product_shift_loop subject_delta reference_delta =
     (let s = drop_bit 1 subject_delta; r = drop_bit 1 reference_delta
      in if s > 0xffffffff \<or> r > 0xffffffff then product_shift_loop s r else Some (s, r))"

definition Product :: "u32 \<Rightarrow> u32 \<Rightarrow> u32 \<Rightarrow> u32 \<Rightarrow> bool \<Rightarrow> (u32 \<times> u32) res" where
  "Product a_subject_delta a_reference_delta b_subject_delta b_reference_delta exact =
     dcheck (a_reference_delta \<noteq> 0) (dcheck (b_reference_delta \<noteq> 0)
      (rbind (ReduceRatio (ucast a_subject_delta * ucast b_subject_delta)
                          (ucast a_reference_delta * ucast b_reference_delta :: u64))
        (\<lambda>(subject_delta, reference_delta).
           if subject_delta > 0xffffffff \<or> reference_delta > 0xffffffff
           then dcheck (\<not> exact)
             (rbind (of_loop (product_shift_loop subject_delta reference_delta)) (\<lambda>(s, r).
                if r = 0 then Inr (0xffffffff, 1) else Inr (ucast s, ucast r)))
           else Inr (ucast subject_delta, ucast reference_delta))))"

definition TimelineRate_Product :: "TimelineRate \<Rightarrow> TimelineRate \<Rightarrow> bool \<Rightarrow> TimelineRate res" where
  "TimelineRate_Product a b exact =
     rbind (Product (tr_subject_delta a) (tr_reference_delta a)
                    (tr_subject_delta b) (tr_reference_delta b) exact)
       (\<lambda>(s, r). TimelineRate_make s r)"

definition TimelineRate_Inverse :: "TimelineRate \<Rightarrow> TimelineRate res" where
  "TimelineRate_Inverse rate =
     dcheck (tr_subject_delta rate \<noteq> 0)
       (TimelineRate_make (tr_reference_delta rate) (tr_subject_delta rate))"

definition TimelineRate_Scale :: "TimelineRate \<Rightarrow> int \<Rightarrow> int res" where
  "TimelineRate_Scale rate value =
     Scale value (tr_subject_delta rate) (tr_reference_delta rate)"

definition TimelineRate_eq :: "TimelineRate \<Rightarrow> TimelineRate \<Rightarrow> bool" where
  "TimelineRate_eq a b \<longleftrightarrow>
     tr_subject_delta a = tr_subject_delta b \<and> tr_reference_delta a = tr_reference_delta b"

definition int_div_rate :: "int \<Rightarrow> TimelineRate \<Rightarrow> int res" where
  "int_div_rate a b = rbind (TimelineRate_Inverse b) (\<lambda>inv. TimelineRate_Scale inv a)"

section \<open>The gcd loops return and are right\<close>

lemma strip_twos_returns:
  fixes a :: "'a::len word"
  assumes "a \<noteq> 0"
  shows "\<exists>c k. strip_twos a = Some c \<and> odd (unat c) \<and> unat a = 2 ^ k * unat c"
  using assms
proof (induction "unat a" arbitrary: a rule: less_induct)
  case less
  show ?case
  proof (cases "even (unat a)")
    case True
    let ?h = "drop_bit (Suc 0) a"
    note h = word_halve [OF True less.prems]
    from less.hyps [OF h(1,2)] obtain c k where
      c: "strip_twos ?h = Some c" "odd (unat c)" "unat ?h = 2 ^ k * unat c" by blast
    from True c(1) have "strip_twos a = Some c" by (subst strip_twos.simps) simp
    moreover have "unat a = 2 ^ Suc k * unat c"
      by (subst h(3), subst c(3)) (simp only: power_Suc mult.assoc)
    ultimately show ?thesis using c(2) by blast
  next
    case False
    then have "strip_twos a = Some a" by (subst strip_twos.simps) simp
    with False show ?thesis by (intro exI [of _ a] exI [of _ 0]) simp
  qed
qed

lemma gcd_nat_cancel_twos: "odd (a::nat) \<Longrightarrow> gcd a (2 ^ k * c) = gcd a c"
  by (rule gcd_mult_right_left_cancel) (simp add: coprime_commute)

lemma gcd_nat_diff_swap:
  "gcd (if c < a then c else a) ((if c < a then a else c) - (if c < a then c else a)) = gcd a (c::nat)"
  using gcd_diff1_nat [of c a] gcd_diff1_nat [of a c] by (auto simp: ac_simps)

lemma gcd_euclid_loop_returns:
  fixes a b :: "'a::len word"
  assumes "odd (unat a)" "b \<noteq> 0"
  shows "\<exists>g. gcd_euclid_loop a b = Some g \<and> unat g = gcd (unat a) (unat b)"
  using assms
proof (induction "unat a + unat b" arbitrary: a b rule: less_induct)
  case less
  from strip_twos_returns [OF less.prems(2)] obtain b1 k where
    b1: "strip_twos b = Some b1" "odd (unat b1)" "unat b = 2 ^ k * unat b1" by blast
  define a2 where "a2 = (if a > b1 then b1 else a)"
  define b2 where "b2 = (if a > b1 then a else b1)"
  have le: "a2 \<le> b2" and odd2: "odd (unat a2)"
    using less.prems b1 by (auto simp: a2_def b2_def)
  have d: "unat (b2 - a2) = unat b2 - unat a2" by (rule unat_sub [OF le])
  have g: "gcd (unat a) (unat b) = gcd (unat a2) (unat (b2 - a2))"
    unfolding b1(3) gcd_nat_cancel_twos [OF less.prems(1)] d
    using gcd_nat_diff_swap [of "unat b1" "unat a"]
    by (auto simp: a2_def b2_def word_less_nat_alt gcd.commute split: if_splits)
  have unfold: "gcd_euclid_loop a b =
      (if b2 - a2 \<noteq> 0 then gcd_euclid_loop a2 (b2 - a2) else Some a2)"
    by (subst gcd_euclid_loop.simps) (simp add: b1 a2_def b2_def Let_def)
  show ?case
  proof (cases "b2 - a2 = 0")
    case True
    then have "unat b2 = unat a2" by simp
    with True g unfold show ?thesis by simp
  next
    case False
    have "unat b1 \<le> unat b" by (simp add: b1(3))
    moreover have "0 < unat a" "0 < unat b1" using less.prems b1 by (auto intro: odd_pos)
    ultimately have "unat a2 + unat (b2 - a2) < unat a + unat b"
      using le unfolding d by (auto simp: a2_def b2_def word_le_nat_alt split: if_splits)
    from less.hyps [OF this odd2 False] False g unfold show ?thesis by auto
  qed
qed

lemma gcd_twos_loop_returns:
  fixes a b :: "'a::len word"
  assumes "a \<noteq> 0" "b \<noteq> 0"
  shows "\<exists>a' b' k. gcd_twos_loop a b t = Some (a', b', t + of_nat k) \<and>
     unat a = 2 ^ k * unat a' \<and> unat b = 2 ^ k * unat b' \<and> (odd (unat a') \<or> odd (unat b'))"
  using assms
proof (induction "unat a" arbitrary: a b t rule: less_induct)
  case less
  show ?case
  proof (cases "even (unat a) \<and> even (unat b)")
    case True
    let ?a = "drop_bit (Suc 0) a" and ?b = "drop_bit (Suc 0) b"
    from True have "even (unat a)" "even (unat b)" by simp_all
    note ha = word_halve [OF this(1) less.prems(1)] and hb = word_halve [OF this(2) less.prems(2)]
    from less.hyps [OF ha(1,2) hb(2), of "t + 1"] obtain a' b' k where
      r: "gcd_twos_loop ?a ?b (t + 1) = Some (a', b', t + 1 + of_nat k)"
        "unat ?a = 2 ^ k * unat a'" "unat ?b = 2 ^ k * unat b'" "odd (unat a') \<or> odd (unat b')"
      by blast
    have "gcd_twos_loop a b t = Some (a', b', t + of_nat (Suc k))"
      using True r(1) by (subst gcd_twos_loop.simps) (simp add: even_word_or_iff algebra_simps)
    moreover have "unat a = 2 ^ Suc k * unat a'"
      by (subst ha(3), subst r(2)) (simp only: power_Suc mult.assoc)
    moreover have "unat b = 2 ^ Suc k * unat b'"
      by (subst hb(3), subst r(3)) (simp only: power_Suc mult.assoc)
    ultimately show ?thesis using r(4) by blast
  next
    case False
    then have "gcd_twos_loop a b t = Some (a, b, t)"
      by (subst gcd_twos_loop.simps) (auto simp: even_word_or_iff)
    with False show ?thesis by (intro exI [of _ a] exI [of _ b] exI [of _ 0]) simp
  qed
qed

lemma BinaryGcd_correct:
  fixes a b :: "'a::len word"
  assumes len: "LENGTH('a) \<le> 256"
  shows "\<exists>g. BinaryGcd a b = Some g \<and> unat g = gcd (unat a) (unat b)"
proof (cases "a = 0 \<or> b = 0")
  case True
  then show ?thesis by (auto simp: BinaryGcd_def)
next
  case False
  then obtain a1 b1 k where t: "gcd_twos_loop a b 0 = Some (a1, b1, 0 + of_nat k)"
    "unat a = 2 ^ k * unat a1" "unat b = 2 ^ k * unat b1" "odd (unat a1) \<or> odd (unat b1)"
    using gcd_twos_loop_returns [of a b 0] by blast
  from False t have nz: "a1 \<noteq> 0" "b1 \<noteq> 0" by (auto simp flip: unat_eq_zero)
  from strip_twos_returns [OF nz(1)] obtain a2 j where
    s: "strip_twos a1 = Some a2" "odd (unat a2)" "unat a1 = 2 ^ j * unat a2" by blast
  from gcd_euclid_loop_returns [OF s(2) nz(2)] obtain g where
    g: "gcd_euclid_loop a2 b1 = Some g" "unat g = gcd (unat a2) (unat b1)" by blast
  have gcd1: "gcd (unat a1) (unat b1) = unat g"
  proof (cases "odd (unat b1)")
    case True
    then show ?thesis using gcd_nat_cancel_twos [OF True, of j "unat a2"]
      by (simp add: g(2) s(3) gcd.commute)
  next
    case False
    with t(4) have "j = 0" using s(3) by (cases j) auto
    with s(3) g(2) show ?thesis by simp
  qed
  then have full: "gcd (unat a) (unat b) = unat g * 2 ^ k"
    unfolding t(2,3) gcd_mult_distrib_nat [symmetric] by simp
  have "unat a < 2 ^ LENGTH('a)" by (rule unat_less_2p)
  moreover have "0 < unat a" using False by (simp add: unat_gt_0)
  ultimately have bound: "unat g * 2 ^ k < 2 ^ LENGTH('a)"
    using gcd_le1_nat [of "unat a" "unat b"] full by linarith
  have "2 ^ k \<le> unat a" using t(2) nz(1) by (simp add: unat_gt_0 Suc_leI)
  from this \<open>unat a < 2 ^ LENGTH('a)\<close> have "(2::nat) ^ k < 2 ^ LENGTH('a)" by (rule le_less_trans)
  then have "k < 256" using len by simp
  then have k: "unat (of_nat k :: u8) = k" by (simp add: unat_of_nat)
  have "BinaryGcd a b = Some (push_bit k g)"
    using False t(1) s(1) g(1) k by (simp add: BinaryGcd_def)
  moreover have "unat (push_bit k g) = gcd (unat a) (unat b)"
    using bound full by (simp add: unat_push_bit_mod)
  ultimately show ?thesis by blast
qed

lemma word_eq_1_iff: "a = 1 \<longleftrightarrow> unat a = 1" for a :: "'a::len word"
  by (simp add: word_unat_eq_iff)

text \<open>Reduction divides both terms by their gcd, whatever branch it takes.\<close>

lemma ReduceRatio_correct:
  fixes n d :: "'a::len word"
  assumes "LENGTH('a) \<le> 256" "d \<noteq> 0"
  obtains n' d' where "ReduceRatio n d = Inr (n', d')"
    "unat n' = unat n div gcd (unat n) (unat d)" "unat d' = unat d div gcd (unat n) (unat d)"
proof -
  from BinaryGcd_correct [OF assms(1), of n d] obtain g where
    g: "BinaryGcd n d = Some g" "unat g = gcd (unat n) (unat d)" by blast
  with assms(2) have "g \<noteq> 0" by (auto simp flip: unat_eq_zero)
  then have "ReduceRatio n d = Inr (n div g, d div g)"
    using g assms(2) by (auto simp: ReduceRatio_def word_unat_eq_iff unat_div_distrib)
  with g(2) that show ?thesis by (simp add: unat_div_distrib)
qed

section \<open>Scaling computes the quotient of the 96-bit product\<close>

lemma ScaleUInt64_correct:
  fixes v :: u64 and s r :: u32
  assumes "r \<noteq> 0"
  defines "N \<equiv> unat s * unat v"
  defines "q \<equiv> N div unat r"
  shows "ScaleUInt64 v s r up =
    Inr (if 2 ^ 64 \<le> q then (0, True)
         else if up \<and> N mod unat r \<noteq> 0
         then if q = 2 ^ 63 - 1 then (0, True) else (of_nat q + 1, False)
         else (of_nat q, False))"
proof -
  define hi where "hi = ucast s * drop_bit 32 v + drop_bit 32 (ucast s * (v AND 0xffffffff))"
  define lo where "lo = ucast s * (v AND 0xffffffff) AND 0xffffffff"
  define R :: u64 where "R = ucast r"
  define lo2 where "lo2 = lo OR push_bit 32 (hi mod R)"
  have hi: "unat hi = N div 2 ^ 32" and lo: "unat lo = N mod 2 ^ 32"
    by (simp_all only: hi_def lo_def N_def mult_digits)
  have R: "unat R = unat r" unfolding R_def by (rule unat_ucast_up) simp
  have r: "0 < unat r" "unat r < 2 ^ 32"
    using assms(1) unat_less_2p [of r] by (simp_all add: unat_gt_0)
  have m: "unat (hi mod R) = (N div 2 ^ 32) mod unat r"
    by (simp only: unat_mod_distrib hi R)
  then have "unat (hi mod R) < 2 ^ 32" using r mod_less_divisor [OF r(1), of "N div 2 ^ 32"] by linarith
  then have lo2: "unat lo2 = ((N div 2 ^ 32) mod unat r) * 2 ^ 32 + N mod 2 ^ 32"
    using unat_or_halves [of "hi mod R" lo] lo m by (simp add: lo2_def or.commute)
  have N: "N = (N div 2 ^ 32) * 2 ^ 32 + N mod 2 ^ 32" by simp
  have lt: "N mod 2 ^ 32 < 2 ^ 32" by simp
  note div = long_division_step [OF r(1) lt, of "N div 2 ^ 32", folded N lo2]
  have q: "q = unat (hi div R) * 2 ^ 32 + unat (lo2 div R)" "unat (lo2 div R) < 2 ^ 32"
    and rem: "lo2 mod R \<noteq> 0 \<longleftrightarrow> N mod unat r \<noteq> 0"
    using div by (simp_all only: q_def unat_div_distrib R hi word_unat_eq_iff unat_mod_distrib unat_0)
  have over: "(hi div R) AND push_bit 32 0xffffffff \<noteq> 0 \<longleftrightarrow> 2 ^ 64 \<le> q"
    unfolding and_high32_eq_0_iff using q by auto
  have res: "push_bit 32 (hi div R) OR lo2 div R = of_nat q" if "\<not> 2 ^ 64 \<le> q"
  proof -
    from that q have "unat (hi div R) < 2 ^ 32" by auto
    from unat_or_halves [OF this q(2)] q(1) have "unat (push_bit 32 (hi div R) OR lo2 div R) = q"
      by simp
    with that show ?thesis by (simp add: word_unat_eq_iff unat_of_nat)
  qed
  have max: "(of_nat q :: u64) = of_int int64_max \<longleftrightarrow> q = 2 ^ 63 - 1" if "\<not> 2 ^ 64 \<le> q"
    using that by (simp add: word_unat_eq_iff unat_of_nat int64_max_def)
  show ?thesis
    using assms(1) unfolding ScaleUInt64_def Let_def
    unfolding R_def [symmetric] hi_def [symmetric] lo_def [symmetric] lo2_def [symmetric] over rem
    by (simp add: res max)
qed

text \<open>
  The int64 scaling is the floor of the rational product, except where the
  rounded-up magnitude of a negative value is exactly \<open>2 ^ 63\<close> (the code reports an
  overflow, although the result is representable) or exactly \<open>2 ^ 64\<close> (the 64-bit
  increment wraps and the code returns 0).
\<close>

definition scale_spec :: "int \<Rightarrow> int \<Rightarrow> int \<Rightarrow> int" where
  "scale_spec v s r =
     (let q = (v * s) div r; inexact = ((v * s) mod r \<noteq> 0)
      in if v \<ge> 0 then (if q \<le> int64_max then q else kOverflow)
         else if inexact \<and> q = - (2 ^ 63) then kOverflow
         else if inexact \<and> q = - (2 ^ 64) then 0
         else if int64_min \<le> q then q else kOverflow)"

lemma Scale_nonneg:
  assumes "r \<noteq> 0" "0 \<le> v" "v \<le> int64_max"
  shows "Scale v s r = Inr (scale_spec v (int (unat s)) (int (unat r)))"
proof -
  have uv: "unat (of_int v :: u64) = nat v"
    using assms by (simp add: int64_max_def unat_of_int_u64)
  define q where "q = unat s * nat v div unat r"
  have q: "(v * int (unat s)) div int (unat r) = int q"
    using assms by (simp add: q_def zdiv_int mult.commute)
  have cmp: "(of_int int64_max :: u64) < of_nat q \<longleftrightarrow> int64_max < int q" "uint (of_nat q :: u64) = int q"
    if "\<not> 2 ^ 64 \<le> q"
    using that by (simp_all add: word_less_nat_alt int64_max_def unat_of_nat uint_nat)
  show ?thesis
    using assms(1,2) q cmp
    by (auto simp: Scale_def scale_spec_def Let_def ScaleUInt64_correct uv q_def [symmetric]
        kOverflow_def int64_max_def)
qed

lemma neg_div_mod:
  fixes N r :: nat
  assumes "0 < r"
  shows "(- int N) div int r = (if N mod r = 0 then - int (N div r) else - int (N div r) - 1)"
    and "(- int N) mod int r \<noteq> 0 \<longleftrightarrow> N mod r \<noteq> 0"
  using assms mod_less_divisor [OF assms, of N]
  by (auto simp add: zdiv_zminus1_eq_if zmod_zminus1_eq_if simp flip: zdiv_int zmod_int)

text \<open>What \<^const>\<open>Scale\<close> does with the scaled magnitude of a negative value.\<close>

definition scale_negate :: "u64 \<times> bool \<Rightarrow> int res" where
  "scale_negate = (\<lambda>(abs_result, overflow).
     if overflow then Inr kOverflow
     else if abs_result > of_int int64_max
     then if abs_result = of_int int64_max + 1 then Inr int64_min else Inr kOverflow
     else s64 (- uint abs_result))"

lemma scale_negate_of_nat:
  assumes "k < 2 ^ 64"
  shows "scale_negate (of_nat k, False) = Inr (if k \<le> 2 ^ 63 then - int k else kOverflow)"
proof -
  have "(of_int int64_max :: u64) < of_nat k \<longleftrightarrow> 2 ^ 63 \<le> k"
    using assms by (auto simp: word_less_nat_alt int64_max_def unat_of_nat)
  moreover have "uint (of_nat k :: u64) = int k"
    using assms by (simp add: uint_nat unat_of_nat)
  moreover have "(of_nat k :: u64) = of_int int64_max + 1 \<longleftrightarrow> k = 2 ^ 63"
    using assms by (simp add: word_unat_eq_iff unat_of_nat int64_max_def)
  ultimately show ?thesis
    by (auto simp: scale_negate_def s64_def in_int64_iff int64_min_def)
qed

lemma Scale_negative_call:
  assumes "r \<noteq> 0" "v < 0" "int64_min \<le> v"
  shows "Scale v s r = rbind (ScaleUInt64 (of_nat (nat (- v))) s r True) scale_negate"
proof -
  have call: "Scale v s r =
      rbind (if v = int64_min then ScaleUInt64 (of_int int64_max + 1) s r True
             else rbind (s64 (- v)) (\<lambda>v. ScaleUInt64 (of_int v) s r True)) scale_negate"
    using assms(1,2) by (auto simp: Scale_def Let_def scale_negate_def intro!: rbind_cong)
  have cast: "(of_int (- v) :: u64) = of_nat (nat (- v))" using assms(2) by simp
  show ?thesis
  proof (cases "v = int64_min")
    case True
    then have "(of_int int64_max + 1 :: u64) = of_nat (nat (- v))"
      by (simp add: int64_max_def int64_min_def)
    with True show ?thesis unfolding call by simp
  next
    case False
    then have "in_int64 (- v)" using assms by (simp add: in_int64_def int64_min_def int64_max_def)
    with False cast show ?thesis unfolding call by (simp add: s64_pass)
  qed
qed

lemma Scale_neg:
  assumes "r \<noteq> 0" "v < 0" "int64_min \<le> v"
  shows "Scale v s r = Inr (scale_spec v (int (unat s)) (int (unat r)))"
proof -
  define n where "n = nat (- v)"
  define q where "q = unat s * n div unat r"
  define m where "m = (unat s * n) mod unat r"
  have n: "v = - int n" "n \<le> 2 ^ 63" using assms by (auto simp: n_def int64_min_def)
  have r: "0 < unat r" using assms(1) by (simp add: unat_gt_0)
  have un: "unat (of_nat n :: u64) = n" using n by (simp add: unat_of_nat)
  have call: "Scale v s r = rbind (Inr (if 2 ^ 64 \<le> q then (0, True)
      else if m \<noteq> 0 then if q = 2 ^ 63 - 1 then (0, True) else (of_nat q + 1, False)
      else (of_nat q, False))) scale_negate"
    unfolding Scale_negative_call [OF assms] n_def [symmetric] ScaleUInt64_correct [OF assms(1)] un
    by (simp only: q_def m_def simp_thms)
  have vs: "v * int (unat s) = - int (unat s * n)" by (simp add: n mult.commute)
  note qr = neg_div_mod [OF r, of "unat s * n", folded vs q_def m_def]
  have spec: "scale_spec v (int (unat s)) (int (unat r)) =
     (if m \<noteq> 0 then if q = 2 ^ 63 - 1 then kOverflow else if q = 2 ^ 64 - 1 then 0
         else if q < 2 ^ 63 then - int q - 1 else kOverflow
      else if q \<le> 2 ^ 63 then - int q else kOverflow)"
    using assms(2) qr unfolding scale_spec_def Let_def
    by (auto simp: int64_min_def)
  have ovf: "scale_negate (0, True) = Inr kOverflow" by (simp add: scale_negate_def)
  have inc: "(of_nat q + 1 :: u64) = of_nat (if q = 2 ^ 64 - 1 then 0 else Suc q)"
    by (auto simp: of_nat_diff)
  show ?thesis
  proof (cases "2 ^ 64 \<le> q")
    case True
    then show ?thesis unfolding call spec by (simp add: ovf)
  next
    case False
    then show ?thesis unfolding call spec inc by (auto simp: ovf scale_negate_of_nat)
  qed
qed

lemma Scale_correct:
  assumes "in_int64 v" "r \<noteq> 0"
  shows "Scale v s r = Inr (scale_spec v (int (unat s)) (int (unat r)))"
  using assms Scale_neg [of r v s] Scale_nonneg [of r v s]
  by (cases "v < 0") (auto simp: in_int64_def)

lemma Scale_in_range:
  assumes "in_int64 v" "r \<noteq> 0" "int64_min < v * int (unat s) div int (unat r)"
    "v * int (unat s) div int (unat r) \<le> int64_max"
  shows "Scale v s r = Inr (v * int (unat s) div int (unat r))"
  using assms by (auto simp: Scale_correct scale_spec_def Let_def int64_min_def)

section \<open>Rates in lowest terms\<close>

definition rate_ok :: "TimelineRate \<Rightarrow> bool" where
  "rate_ok rate \<longleftrightarrow> tr_reference_delta rate \<noteq> 0 \<and>
     coprime (unat (tr_subject_delta rate)) (unat (tr_reference_delta rate))"

lemma coprime_div_gcd: "0 < (d::nat) \<Longrightarrow> coprime (n div gcd n d) (d div gcd n d)"
  by (simp add: div_gcd_coprime)

lemma TimelineRate_make_reduces:
  assumes "d \<noteq> 0"
  obtains rate where "TimelineRate_make n d = Inr rate" "rate_ok rate"
    "unat (tr_subject_delta rate) = unat n div gcd (unat n) (unat d)"
    "unat (tr_reference_delta rate) = unat d div gcd (unat n) (unat d)"
proof -
  from assms obtain n' d' where r: "ReduceRatio n d = Inr (n', d')"
    "unat n' = unat n div gcd (unat n) (unat d)" "unat d' = unat d div gcd (unat n) (unat d)"
    using ReduceRatio_correct [of d n] by auto
  have pos: "0 < unat d" using assms by (simp add: unat_gt_0)
  then have "0 < unat d div gcd (unat n) (unat d)"
    by (simp add: div_greater_zero_iff gcd_le2_nat)
  then have "d' \<noteq> 0" using r(3) by auto
  moreover have "coprime (unat n') (unat d')" unfolding r(2,3) by (rule coprime_div_gcd [OF pos])
  ultimately show ?thesis using assms r
    by (intro that [of "\<lparr>tr_subject_delta = n', tr_reference_delta = d'\<rparr>"])
      (simp_all add: TimelineRate_make_def Reduce_def rate_ok_def)
qed

lemma rate_ok_constructors [simp]: "rate_ok TimelineRate_default" "rate_ok (TimelineRate_of_uint n)"
  by (simp_all add: rate_ok_def TimelineRate_default_def TimelineRate_of_uint_def)

lemma TimelineRate_make_ok:
  assumes "rate_ok rate"
  shows "TimelineRate_make (tr_subject_delta rate) (tr_reference_delta rate) = Inr rate"
proof -
  from assms have nz: "tr_reference_delta rate \<noteq> 0"
    and g: "gcd (unat (tr_subject_delta rate)) (unat (tr_reference_delta rate)) = 1"
    by (simp_all add: rate_ok_def)
  from TimelineRate_make_reduces [OF nz, of "tr_subject_delta rate"] obtain rate' where
    "TimelineRate_make (tr_subject_delta rate) (tr_reference_delta rate) = Inr rate'"
    "unat (tr_subject_delta rate') = unat (tr_subject_delta rate)"
    "unat (tr_reference_delta rate') = unat (tr_reference_delta rate)"
    unfolding g by auto
  then show ?thesis by (simp add: word_unat_eq_iff [symmetric])
qed

lemma TimelineRate_Inverse_swaps:
  assumes "rate_ok rate" "tr_subject_delta rate \<noteq> 0"
  shows "TimelineRate_Inverse rate =
    Inr \<lparr>tr_subject_delta = tr_reference_delta rate, tr_reference_delta = tr_subject_delta rate\<rparr>"
proof -
  let ?i = "\<lparr>tr_subject_delta = tr_reference_delta rate, tr_reference_delta = tr_subject_delta rate\<rparr>"
  have "rate_ok ?i" using assms by (simp add: rate_ok_def coprime_commute)
  from TimelineRate_make_ok [OF this] assms(2) show ?thesis by (simp add: TimelineRate_Inverse_def)
qed

section \<open>Products\<close>

lemma u64_gt_u32_max: "(0xffffffff :: u64) < a \<longleftrightarrow> 2 ^ 32 \<le> unat a"
  by (auto simp: word_less_nat_alt)

lemma product_shift_loop_returns:
  "\<exists>k. product_shift_loop s r = Some (drop_bit (Suc k) s, drop_bit (Suc k) r) \<and>
     unat s div 2 ^ Suc k < 2 ^ 32 \<and> unat r div 2 ^ Suc k < 2 ^ 32 \<and>
     (k = 0 \<or> 2 ^ 32 \<le> unat s div 2 ^ k \<or> 2 ^ 32 \<le> unat r div 2 ^ k)"
proof (induction "unat s + unat r" arbitrary: s r rule: less_induct)
  case less
  let ?s = "drop_bit (Suc 0) s" and ?r = "drop_bit (Suc 0) r"
  show ?case
  proof (cases "2 ^ 32 \<le> unat ?s \<or> 2 ^ 32 \<le> unat ?r")
    case True
    then have "unat ?s + unat ?r < unat s + unat r" by auto
    from less [OF this] obtain k where k: "product_shift_loop ?s ?r =
        Some (drop_bit (Suc k) ?s, drop_bit (Suc k) ?r)"
      "unat ?s div 2 ^ Suc k < 2 ^ 32" "unat ?r div 2 ^ Suc k < 2 ^ 32"
      "k = 0 \<or> 2 ^ 32 \<le> unat ?s div 2 ^ k \<or> 2 ^ 32 \<le> unat ?r div 2 ^ k" by blast
    have "product_shift_loop s r = Some (drop_bit (Suc (Suc k)) s, drop_bit (Suc (Suc k)) r)"
      using True k(1) by (subst product_shift_loop.simps) (simp add: u64_gt_u32_max Let_def ac_simps)
    moreover have "unat s div 2 ^ Suc (Suc k) < 2 ^ 32" "unat r div 2 ^ Suc (Suc k) < 2 ^ 32"
      using k(2,3) by (simp_all only: unat_drop_1 power_Suc div_mult2_eq)
    moreover have "2 ^ 32 \<le> unat s div 2 ^ Suc k \<or> 2 ^ 32 \<le> unat r div 2 ^ Suc k"
      using k(4) True by (auto simp: div_mult2_eq)
    ultimately show ?thesis by (intro exI [of _ "Suc k"]) simp
  next
    case False
    then have "product_shift_loop s r = Some (?s, ?r)"
      by (subst product_shift_loop.simps) (simp add: u64_gt_u32_max Let_def)
    with False show ?thesis by (intro exI [of _ 0]) simp
  qed
qed

text \<open>
  The product of two rates in lowest terms: the reduced product when both terms
  fit 32 bits; otherwise both terms shifted right until they fit, or the largest
  rate when the denominator is shifted away.
\<close>

lemma u32_mult_u64: "unat (ucast a * ucast b :: u64) = unat a * unat b" for a b :: u32
proof -
  have b: "unat (ucast b :: u64) = unat b" by (rule unat_ucast_up) simp
  then have "unat (ucast b :: u64) < 2 ^ 32" using unat_less_2p [of b] by simp
  from unat_mult_u32(1) [OF this, of a] b show ?thesis by simp
qed

lemma u64_to_u32: "unat w < 2 ^ 32 \<Longrightarrow> unat (ucast w :: u32) = unat w" for w :: u64
  by (rule unat_ucast_down) simp

lemma Product_reduced:
  fixes as ar bs br :: u32
  assumes "ar \<noteq> 0" "br \<noteq> 0"
  obtains p d where
    "ReduceRatio (ucast as * ucast bs) (ucast ar * ucast br :: u64) = Inr (p, d)"
    "unat p = unat as * unat bs div gcd (unat as * unat bs) (unat ar * unat br)"
    "unat d = unat ar * unat br div gcd (unat as * unat bs) (unat ar * unat br)" "d \<noteq> 0"
proof -
  have "unat (ucast ar * ucast br :: u64) \<noteq> 0"
    using assms by (simp only: u32_mult_u64) (simp add: unat_eq_zero)
  then have nz: "(ucast ar * ucast br :: u64) \<noteq> 0" by auto
  have len: "LENGTH(64) \<le> 256" by simp
  from ReduceRatio_correct [OF len nz, of "ucast as * ucast bs"] obtain p d where
    r: "ReduceRatio (ucast as * ucast bs) (ucast ar * ucast br :: u64) = Inr (p, d)"
    "unat p = unat as * unat bs div gcd (unat as * unat bs) (unat ar * unat br)"
    "unat d = unat ar * unat br div gcd (unat as * unat bs) (unat ar * unat br)"
    unfolding u32_mult_u64 by blast
  have "0 < unat ar * unat br" using assms by (simp add: unat_gt_0)
  then have "0 < unat d" unfolding r(3) by (simp add: div_greater_zero_iff gcd_le2_nat)
  with r that show ?thesis by (metis unat_0 less_irrefl)
qed

definition product_shifted :: "nat \<Rightarrow> nat \<Rightarrow> nat \<Rightarrow> u32 \<times> u32 \<Rightarrow> bool" where
  "product_shifted p d k res \<longleftrightarrow>
     (if d div 2 ^ k = 0 then res = (0xffffffff, 1)
      else unat (fst res) = p div 2 ^ k \<and> unat (snd res) = d div 2 ^ k)"

lemma Product_correct:
  fixes as ar bs br :: u32
  assumes "ar \<noteq> 0" "br \<noteq> 0"
  defines "g \<equiv> gcd (unat as * unat bs) (unat ar * unat br)"
  defines "p \<equiv> unat as * unat bs div g" and "d \<equiv> unat ar * unat br div g"
  shows "p < 2 ^ 32 \<Longrightarrow> d < 2 ^ 32 \<Longrightarrow>
      \<exists>res. Product as ar bs br exact = Inr res \<and> product_shifted p d 0 res \<and> 0 < d"
    and "\<not> (p < 2 ^ 32 \<and> d < 2 ^ 32) \<Longrightarrow> Product as ar bs br True = Inl Dcheck_failed"
    and "\<not> (p < 2 ^ 32 \<and> d < 2 ^ 32) \<Longrightarrow>
      \<exists>res k. Product as ar bs br False = Inr res \<and> product_shifted p d (Suc k) res \<and>
        p div 2 ^ Suc k < 2 ^ 32 \<and> d div 2 ^ Suc k < 2 ^ 32"
proof -
  from Product_reduced [OF assms(1,2), of as bs] obtain P D where
    r: "ReduceRatio (ucast as * ucast bs) (ucast ar * ucast br :: u64) = Inr (P, D)"
      "unat P = p" "unat D = d" "D \<noteq> 0"
    unfolding p_def d_def g_def by blast
  from r(3,4) have pos: "0 < d" by (auto simp: unat_gt_0)
  show "\<exists>res. Product as ar bs br exact = Inr res \<and> product_shifted p d 0 res \<and> 0 < d"
    if "p < 2 ^ 32" "d < 2 ^ 32"
    using that r assms(1,2) pos
    by (simp add: Product_def u64_gt_u32_max u64_to_u32 product_shifted_def)
  show "Product as ar bs br True = Inl Dcheck_failed" if "\<not> (p < 2 ^ 32 \<and> d < 2 ^ 32)"
    using that r assms(1,2) by (auto simp: Product_def u64_gt_u32_max)
  assume big: "\<not> (p < 2 ^ 32 \<and> d < 2 ^ 32)"
  from product_shift_loop_returns [of P D] obtain k where
    l: "product_shift_loop P D = Some (drop_bit (Suc k) P, drop_bit (Suc k) D)"
      "p div 2 ^ Suc k < 2 ^ 32" "d div 2 ^ Suc k < 2 ^ 32"
    unfolding r(2,3) by blast
  have u: "unat (drop_bit (Suc k) P) = p div 2 ^ Suc k" "unat (drop_bit (Suc k) D) = d div 2 ^ Suc k"
    by (simp_all only: unat_drop_bit_div r(2,3))
  then have z: "drop_bit (Suc k) D = 0 \<longleftrightarrow> d div 2 ^ Suc k = 0" by (metis unat_eq_zero)
  define res :: "u32 \<times> u32" where "res = (if drop_bit (Suc k) D = 0 then (0xffffffff, 1)
      else (ucast (drop_bit (Suc k) P), ucast (drop_bit (Suc k) D)))"
  have "Product as ar bs br False = Inr res"
    using big r assms(1,2) l(1) by (auto simp: Product_def u64_gt_u32_max res_def)
  moreover have "product_shifted p d (Suc k) res"
    unfolding product_shifted_def res_def z [symmetric]
    using u64_to_u32 [of "drop_bit (Suc k) P"] u64_to_u32 [of "drop_bit (Suc k) D"] u l(2,3)
    by (simp del: power_Suc)
  ultimately show "\<exists>res k. Product as ar bs br False = Inr res \<and>
      product_shifted p d (Suc k) res \<and> p div 2 ^ Suc k < 2 ^ 32 \<and> d div 2 ^ Suc k < 2 ^ 32"
    using l(2,3) by blast
qed

section \<open>Properties\<close>

text \<open>
  C4. Scaling an \<^verbatim>\<open>int64_t\<close> by a rate with a non-zero denominator never faults
  and computes, with 64-bit operations only, the floor of the rational product, or
  \<^verbatim>\<open>kOverflow\<close> when the floor is not representable. The two inputs classes on
  which the code differs from that are part of \<^const>\<open>scale_spec\<close>: a negative
  inexact product whose floor is \<open>- 2 ^ 63\<close> or \<open>- 2 ^ 64\<close>.
\<close>

theorem Scale_is_floor:
  "in_int64 v \<Longrightarrow> r \<noteq> 0 \<Longrightarrow> Scale v s r = Inr (scale_spec v (int (unat s)) (int (unat r)))"
  by (rule Scale_correct)

theorem Scale_is_floor_witness:
  "in_int64 (-7) \<and> (3::u32) \<noteq> 0 \<and> Scale (-7) 2 3 = Inr (-5)"
proof -
  have h: "in_int64 (-7)" "(3::u32) \<noteq> 0" by (simp_all add: in_int64_iff)
  show ?thesis using h Scale_is_floor [OF h, of 2] by (simp add: scale_spec_def int64_min_def)
qed

text \<open>
  The rounding-up branch of \<^verbatim>\<open>ScaleUInt64\<close> compares with the largest
  \<^verbatim>\<open>int64_t\<close> although its result is a \<^verbatim>\<open>uint64_t\<close>. So a product below
  \<open>- (2 ^ 64 - 1)\<close> comes out as 0 and not as an overflow, and a representable
  product of \<open>- 2 ^ 63\<close> comes out as an overflow.
\<close>

lemma Scale_round_up_check:
  "Scale (- 8384883669867978007) 11 5 = Inr 0 \<and>
   Scale (- 6148914691236517205) 3 2 = Inr kOverflow \<and>
   (- 6148914691236517205 * 3) div 2 = int64_min"
proof (intro conjI)
  have h: "in_int64 (- 8384883669867978007)" "in_int64 (- 6148914691236517205)"
    "(5::u32) \<noteq> 0" "(2::u32) \<noteq> 0"
    by (simp_all add: in_int64_iff)
  show "Scale (- 8384883669867978007) 11 5 = Inr 0"
    using Scale_correct [OF h(1,3), of 11] by (simp add: scale_spec_def)
  show "Scale (- 6148914691236517205) 3 2 = Inr kOverflow"
    using Scale_correct [OF h(2,4), of 3] by (simp add: scale_spec_def)
  show "(- 6148914691236517205 * 3) div 2 = int64_min" by (simp add: int64_min_def)
qed

text \<open>
  C37. The binary gcd algorithm ends on every input, its 8-bit shift counter does
  not wrap, and it returns the greatest common divisor, at both widths it is used at.
\<close>

theorem BinaryGcd_is_gcd:
  "(\<exists>g. BinaryGcd (a::u32) b = Some g \<and> unat g = gcd (unat a) (unat b)) \<and>
   (\<exists>g. BinaryGcd (c::u64) d = Some g \<and> unat g = gcd (unat c) (unat d))"
  by (intro conjI; rule BinaryGcd_correct, simp)

text \<open>
  The constructor of a rate puts any ratio with a non-zero denominator in
  lowest terms without changing its value, and the inverse of a rate in lowest
  terms is again one whose inverse is the rate.
\<close>

lemma TimelineRate_make_lowest_terms:
  assumes "d \<noteq> 0"
  shows "\<exists>rate. TimelineRate_make n d = Inr rate \<and> rate_ok rate \<and>
      unat (tr_subject_delta rate) * unat d = unat n * unat (tr_reference_delta rate) \<and>
      (n \<noteq> 0 \<longrightarrow> rbind (TimelineRate_Inverse rate) TimelineRate_Inverse = Inr rate)"
proof -
  obtain rate where r: "TimelineRate_make n d = Inr rate" "rate_ok rate"
    "unat (tr_subject_delta rate) = unat n div gcd (unat n) (unat d)"
    "unat (tr_reference_delta rate) = unat d div gcd (unat n) (unat d)"
    by (rule TimelineRate_make_reduces [OF assms])
  have cross: "unat (tr_subject_delta rate) * unat d = unat n * unat (tr_reference_delta rate)"
    unfolding r(3,4) by (metis div_mult_swap dvd_div_mult gcd_dvd1 gcd_dvd2)
  have "rbind (TimelineRate_Inverse rate) TimelineRate_Inverse = Inr rate" if "n \<noteq> 0"
  proof -
    have "tr_subject_delta rate \<noteq> 0" using cross that assms r(2)
      by (auto simp: rate_ok_def unat_eq_zero)
    moreover have "rate_ok \<lparr>tr_subject_delta = tr_reference_delta rate,
        tr_reference_delta = tr_subject_delta rate\<rparr>"
      using r(2) calculation by (simp add: rate_ok_def coprime_commute)
    ultimately show ?thesis using r(2)
      by (simp add: TimelineRate_Inverse_swaps rate_ok_def)
  qed
  with r(1,2) cross show ?thesis by blast
qed

text \<open>
  The product of two rates is the reduced ratio of the products when both of
  its terms fit 32 bits. When they do not, an exact product fails its DCHECK, and
  an inexact one ends with both terms shifted right by the same positive number of
  bits, at least until both fit, or with the largest rate when the denominator is
  shifted to zero.
\<close>

lemma Product_branches:
  fixes as ar bs br :: u32
  assumes "ar \<noteq> 0" "br \<noteq> 0"
  defines "g \<equiv> gcd (unat as * unat bs) (unat ar * unat br)"
  defines "p \<equiv> unat as * unat bs div g" and "d \<equiv> unat ar * unat br div g"
  shows "if p < 2 ^ 32 \<and> d < 2 ^ 32
    then \<exists>res. Product as ar bs br exact = Inr res \<and> product_shifted p d 0 res \<and> 0 < d
    else if exact then Product as ar bs br exact = Inl Dcheck_failed
    else \<exists>res k. Product as ar bs br exact = Inr res \<and> product_shifted p d (Suc k) res \<and>
        p div 2 ^ Suc k < 2 ^ 32 \<and> d div 2 ^ Suc k < 2 ^ 32"
proof -
  note * = Product_correct [OF assms(1,2), of as bs, folded g_def, folded p_def d_def]
  show ?thesis
  proof (cases "p < 2 ^ 32 \<and> d < 2 ^ 32")
    case True
    with *(1) [of exact] show ?thesis by simp
  next
    case False
    show ?thesis unfolding if_not_P [OF False] using *(2) [OF False] *(3) [OF False]
      by (cases exact) simp_all
  qed
qed

end
