(* ===== verification/Timeline_Function.thy ===== *)
theory Timeline_Function
  imports Timeline_Rate
begin

text \<open>
  The class \<^verbatim>\<open>TimelineFunction\<close> (timeline_function.h, timeline_function.cc): a
  linear function between timelines in point-slope form, its application, its
  inverse and the composition of two of them.
\<close>

section \<open>The class\<close>

record TimelineFunction =
  tf_reference_time :: int
  tf_subject_time :: int
  tf_rate :: TimelineRate

definition TimelineFunction_default :: TimelineFunction where
  "TimelineFunction_default =
     \<lparr>tf_reference_time = 0, tf_subject_time = 0, tf_rate = TimelineRate_default\<rparr>"

definition TimelineFunction_of_deltas :: "int \<Rightarrow> int \<Rightarrow> u32 \<Rightarrow> u32 \<Rightarrow> TimelineFunction res" where
  "TimelineFunction_of_deltas reference_time subject_time reference_delta subject_delta =
     rbind (TimelineRate_make subject_delta reference_delta) (\<lambda>rate.
       Inr \<lparr>tf_reference_time = reference_time, tf_subject_time = subject_time, tf_rate = rate\<rparr>)"

definition TimelineFunction_make :: "int \<Rightarrow> int \<Rightarrow> TimelineRate \<Rightarrow> TimelineFunction" where
  "TimelineFunction_make reference_time subject_time rate =
     \<lparr>tf_reference_time = reference_time, tf_subject_time = subject_time, tf_rate = rate\<rparr>"

definition TimelineFunction_of_rate :: "TimelineRate \<Rightarrow> TimelineFunction" where
  "TimelineFunction_of_rate rate =
     \<lparr>tf_reference_time = 0, tf_subject_time = 0, tf_rate = rate\<rparr>"

definition Apply :: "int \<Rightarrow> int \<Rightarrow> TimelineRate \<Rightarrow> int \<Rightarrow> int res" where
  "Apply reference_time subject_time rate reference_input =
     rbind (s64 (reference_input - reference_time)) (\<lambda>delta.
       rbind (TimelineRate_Scale rate delta) (\<lambda>scaled. s64 (scaled + subject_time)))"

definition ApplyInverse :: "int \<Rightarrow> int \<Rightarrow> TimelineRate \<Rightarrow> int \<Rightarrow> int res" where
  "ApplyInverse reference_time subject_time rate subject_input =
     dcheck (tr_reference_delta rate \<noteq> 0)
       (rbind (TimelineRate_Inverse rate) (\<lambda>inv.
          Apply subject_time reference_time inv subject_input))"

definition tf_Apply :: "TimelineFunction \<Rightarrow> int \<Rightarrow> int res" where
  "tf_Apply f reference_input =
     Apply (tf_reference_time f) (tf_subject_time f) (tf_rate f) reference_input"

definition tf_ApplyInverse :: "TimelineFunction \<Rightarrow> int \<Rightarrow> int res" where
  "tf_ApplyInverse f subject_input =
     dcheck (tr_reference_delta (tf_rate f) \<noteq> 0)
       (ApplyInverse (tf_reference_time f) (tf_subject_time f) (tf_rate f) subject_input)"

definition tf_Inverse :: "TimelineFunction \<Rightarrow> TimelineFunction res" where
  "tf_Inverse f =
     dcheck (tr_reference_delta (tf_rate f) \<noteq> 0)
       (rbind (TimelineRate_Inverse (tf_rate f)) (\<lambda>inv.
          Inr (TimelineFunction_make (tf_subject_time f) (tf_reference_time f) inv)))"

definition tf_Compose :: "TimelineFunction \<Rightarrow> TimelineFunction \<Rightarrow> bool \<Rightarrow> TimelineFunction res" where
  "tf_Compose bc ab exact =
     rbind (tf_Apply bc (tf_subject_time ab)) (\<lambda>subject_time.
       rbind (TimelineRate_Product (tf_rate ab) (tf_rate bc) exact) (\<lambda>rate.
         Inr (TimelineFunction_make (tf_reference_time ab) subject_time rate)))"

definition tf_eq :: "TimelineFunction \<Rightarrow> TimelineFunction \<Rightarrow> bool" where
  "tf_eq a b \<longleftrightarrow> tf_reference_time a = tf_reference_time b \<and>
     tf_subject_time a = tf_subject_time b \<and> TimelineRate_eq (tf_rate a) (tf_rate b)"

section \<open>The line a function stands for\<close>

abbreviation sdelta :: "TimelineFunction \<Rightarrow> int" where
  "sdelta f \<equiv> int (unat (tr_subject_delta (tf_rate f)))"

abbreviation rdelta :: "TimelineFunction \<Rightarrow> int" where
  "rdelta f \<equiv> int (unat (tr_reference_delta (tf_rate f)))"

text \<open>The value of the line at \<open>x\<close>, over the unbounded integers.\<close>

definition line :: "TimelineFunction \<Rightarrow> int \<Rightarrow> int" where
  "line f x = ((x - tf_reference_time f) * sdelta f) div rdelta f + tf_subject_time f"

text \<open>No intermediate value of an application at \<open>x\<close> leaves its range.\<close>

definition applies_at :: "TimelineFunction \<Rightarrow> int \<Rightarrow> bool" where
  "applies_at f x \<longleftrightarrow> in_int64 (x - tf_reference_time f) \<and>
     int64_min < line f x - tf_subject_time f \<and> line f x - tf_subject_time f \<le> int64_max \<and>
     in_int64 (line f x)"

lemma tf_Apply_line:
  assumes "rate_ok (tf_rate f)" "applies_at f x"
  shows "tf_Apply f x = Inr (line f x)"
proof -
  have "Scale (x - tf_reference_time f) (tr_subject_delta (tf_rate f)) (tr_reference_delta (tf_rate f))
      = Inr (line f x - tf_subject_time f)"
    using assms by (subst Scale_in_range) (auto simp: applies_at_def line_def rate_ok_def)
  then show ?thesis using assms(2)
    by (simp add: tf_Apply_def Apply_def TimelineRate_Scale_def applies_at_def s64_pass)
qed

definition tf_swap :: "TimelineFunction \<Rightarrow> TimelineFunction" where
  "tf_swap f = TimelineFunction_make (tf_subject_time f) (tf_reference_time f)
     \<lparr>tr_subject_delta = tr_reference_delta (tf_rate f), tr_reference_delta = tr_subject_delta (tf_rate f)\<rparr>"

lemma tf_swap_ok:
  assumes "rate_ok (tf_rate f)" "tr_subject_delta (tf_rate f) \<noteq> 0"
  shows "rate_ok (tf_rate (tf_swap f))" "tf_Inverse f = Inr (tf_swap f)"
    "tf_ApplyInverse f y = tf_Apply (tf_swap f) y"
  using assms
  by (simp_all add: tf_swap_def TimelineFunction_make_def rate_ok_def coprime_commute tf_Inverse_def
      TimelineRate_Inverse_swaps tf_ApplyInverse_def ApplyInverse_def tf_Apply_def)

lemma div_there_and_back:
  fixes d s r :: int
  assumes "0 < s" "0 < r"
  shows "(d * s div r) * r div s \<le> d" and "(d - (d * s div r) * r div s) * s < r + s"
proof -
  let ?y = "d * s div r"
  have y: "?y * r \<le> d * s" "d * s < ?y * r + r"
    using assms(2) by (simp_all add: div_mult2_eq minus_mod_eq_div_mult [symmetric])
  have z: "?y * r div s * s \<le> ?y * r" "?y * r < ?y * r div s * s + s"
    using assms(1) by (simp_all add: minus_mod_eq_div_mult [symmetric])
  have "?y * r div s * s \<le> d * s" using y(1) z(1) by simp
  then show "?y * r div s \<le> d" using assms(1) by simp
  show "(d - ?y * r div s) * s < r + s" using y(2) z(2) by (simp add: left_diff_distrib)
qed

section \<open>Properties\<close>

text \<open>
  Applying a timeline function gives the value of its line rounded down, when
  no intermediate value leaves the \<^verbatim>\<open>int64_t\<close> range, and the inverse function
  takes that value back to the input, less an error below one step of the inverse
  rate plus one.
\<close>

lemma tf_Apply_there_and_back:
  assumes "rate_ok (tf_rate f)" "tr_subject_delta (tf_rate f) \<noteq> 0"
    "applies_at f x" "applies_at (tf_swap f) (line f x)"
  shows "\<exists>y x'. tf_Apply f x = Inr y \<and> y = line f x \<and> tf_ApplyInverse f y = Inr x' \<and>
    x' \<le> x \<and> (x - x') * sdelta f < rdelta f + sdelta f"
proof -
  have pos: "0 < sdelta f" "0 < rdelta f"
    using assms(1,2) by (simp_all only: rate_ok_def int_unat_pos simp_thms)
  let ?d = "x - tf_reference_time f"
  have bk: "line (tf_swap f) (line f x) = (?d * sdelta f div rdelta f) * rdelta f div sdelta f
      + tf_reference_time f"
    by (simp add: line_def tf_swap_def TimelineFunction_make_def)
  note db = div_there_and_back [OF pos, of ?d]
  have "tf_ApplyInverse f (line f x) = Inr (line (tf_swap f) (line f x))"
    using tf_swap_ok [OF assms(1,2)] assms(4) by (simp add: tf_Apply_line)
  moreover have "line (tf_swap f) (line f x) \<le> x"
    and "(x - line (tf_swap f) (line f x)) * sdelta f < rdelta f + sdelta f"
    unfolding bk using db by (simp_all add: algebra_simps)
  ultimately show ?thesis using tf_Apply_line [OF assms(1,3)] by blast
qed

definition example_tf :: TimelineFunction where
  "example_tf = TimelineFunction_make 1000 20 \<lparr>tr_subject_delta = 3, tr_reference_delta = 2\<rparr>"

text \<open>
  The header promises \<^verbatim>\<open>kOverflow\<close> when an application overflows. The code
  adds the subject time to the scaled value without looking at it: with subject
  time \<open>-1\<close> the overflow value is lost, and with subject time \<open>1\<close> the addition is a
  signed overflow.
\<close>

lemma Apply_loses_overflow:
  "Apply 0 (-1) (TimelineRate_of_uint 4) (2 ^ 62) = Inr (kOverflow - 1) \<and>
   Apply 0 1 (TimelineRate_of_uint 4) (2 ^ 62) = Inl Signed_overflow"
proof (intro conjI)
  have h: "in_int64 (2 ^ 62)" "(1::u32) \<noteq> 0" by (simp_all add: in_int64_iff)
  have s: "Scale (2 ^ 62) 4 1 = Inr kOverflow"
    using Scale_correct [OF h, of 4] by (simp add: scale_spec_def int64_max_def)
  show "Apply 0 (-1) (TimelineRate_of_uint 4) (2 ^ 62) = Inr (kOverflow - 1)"
    "Apply 0 1 (TimelineRate_of_uint 4) (2 ^ 62) = Inl Signed_overflow"
    using h(1) s by (simp_all add: Apply_def TimelineRate_Scale_def TimelineRate_of_uint_def s64_pass)
      (simp_all add: s64_def in_int64_iff kOverflow_def int64_max_def)
qed

end
