(* ===== verification/Linear_Transform.thy ===== *)
theory Linear_Transform
  imports Media_Prelude
begin

text \<open>
  The struct \<^verbatim>\<open>LinearTransform\<close> and its \<^verbatim>\<open>Ratio\<close> (linear_transform.h,
  linear_transform.cc): Euclid's reduction of a ratio, the composition of two
  ratios, and the transformation of a 64-bit value between two linear timelines.

  This file of the sources computes with the two's complement representation of
  \<^verbatim>\<open>int64_t\<close>: it converts between \<^verbatim>\<open>int64_t\<close> and \<^verbatim>\<open>uint64_t\<close> freely and its
  overflow test reads the sign bit of a sum that has already wrapped. An
  \<^verbatim>\<open>int64_t\<close> is therefore a 64-bit word here, read by \<^const>\<open>sint\<close>, and \<open>+\<close>, \<open>-\<close>
  and negation wrap. An \<^verbatim>\<open>int64_t*\<close> that may be null is an option: \<open>None\<close> is the
  null pointer and \<open>Some x\<close> a pointer to a cell that holds \<open>x\<close>.
\<close>

section \<open>The definitions\<close>

type_synonym i64 = "64 word"

definition INT64_MIN :: i64 where
  "INT64_MIN = 0x8000000000000000"

definition INT64_MAX :: i64 where
  "INT64_MAX = 0x7fffffffffffffff"

definition UINT64_MAX :: u64 where
  "UINT64_MAX = 0xffffffffffffffff"

definition ABS :: "i64 \<Rightarrow> i64" where
  "ABS x = (if sint x < 0 then - x else x)"

function reduce_loop :: "'a::len word \<Rightarrow> 'a word \<Rightarrow> 'a word res" where
  "reduce_loop a b =
     (if b = 0 then Inl Div_by_zero
      else let remainder = a mod b
           in if remainder = 0 then Inr b else reduce_loop b remainder)"
  by auto

termination reduce_loop
  by (relation "measure (\<lambda>(a, b). unat b)")
    (auto simp: unat_mod_distrib unat_gt_0 intro!: mod_less_divisor)

declare reduce_loop.simps [simp del]

definition internal_Reduce :: "'a::len word \<Rightarrow> 'a word \<Rightarrow> ('a word \<times> 'a word) res" where
  "internal_Reduce numerator denominator =
     (let a = numerator; b = denominator
      in if a = 0 then Inr (numerator, 1)
         else let (a, b) = (if a < b then (b, a) else (a, b))
              in rbind (reduce_loop a b) (\<lambda>g. Inr (numerator div g, denominator div g)))"

definition sum_check_ovfl :: "i64 \<Rightarrow> i64 \<Rightarrow> bool \<times> i64" where
  "sum_check_ovfl a b =
     (let out = a + b
      in if (a XOR b XOR INT64_MIN) AND (a XOR out) AND INT64_MIN \<noteq> 0 then (False, out)
         else (True, out))"

definition scale_u64_to_u64 :: "u64 \<Rightarrow> u32 \<Rightarrow> u32 \<Rightarrow> bool \<Rightarrow> (bool \<times> u64) res" where
  "scale_u64_to_u64 value numerator denominator round_up_not_down =
     dcheck (denominator \<noteq> 0)
      (let tmp2 = drop_bit 32 value * ucast numerator;
           tmp1 = (value AND 0xffffffff) * ucast numerator;
           tmp2 = tmp2 + drop_bit 32 tmp1
       in if drop_bit 32 tmp2 \<ge> ucast denominator then Inr (False, UINT64_MAX)
          else let r = (ucast (tmp2 mod ucast denominator) :: u32);
                   tmp2 = tmp2 div ucast denominator;
                   tmp1 = (tmp1 AND 0xffffffff) OR push_bit 32 (ucast r);
                   r = (ucast (tmp1 mod ucast denominator) :: u32);
                   tmp1 = tmp1 div ucast denominator;
                   out = push_bit 32 tmp2 OR tmp1
               in if r \<noteq> 0 \<and> round_up_not_down
                  then let out = out + 1
                       in if out = 0 then Inr (False, UINT64_MAX) else Inr (True, out)
                  else Inr (True, out))"

definition linear_transform_s64_to_s64 ::
  "i64 \<Rightarrow> i64 \<Rightarrow> u32 \<Rightarrow> u32 \<Rightarrow> bool \<Rightarrow> i64 \<Rightarrow> i64 option \<Rightarrow> (bool \<times> i64 option) res" where
  "linear_transform_s64_to_s64 val basis1 numerator denominator invert_frac basis2 out =
     (case out of
        None \<Rightarrow> Inr (False, None)
      | Some old \<Rightarrow>
         let (is_neg, abs_val) = (if sint val < sint basis1 then (True, basis1 - val)
                                  else (False, val - basis1))
         in rbind (scale_u64_to_u64 abs_val
               (if invert_frac then denominator else numerator)
               (if invert_frac then numerator else denominator) is_neg) (\<lambda>(ok, scaled).
             if \<not> ok then Inr (False, Some old)
             else if scaled AND INT64_MIN \<noteq> 0
             then if is_neg \<and> sint basis2 < 0 then Inr (False, Some old)
                  else if \<not> is_neg \<and> sint basis2 \<ge> 0 then Inr (False, Some old)
                  else if sint (ABS basis2) \<le> sint (scaled AND INT64_MAX) then Inr (False, Some old)
                  else Inr (True, Some ((if is_neg then - scaled else scaled) + basis2))
             else let scaled = (if is_neg then - scaled else scaled);
                      (ok, out) = sum_check_ovfl scaled basis2
                  in if \<not> ok then Inr (False, Some out) else Inr (True, Some out)))"

subsection \<open>\<^verbatim>\<open>Ratio\<close>\<close>

record Ratio =
  numerator :: u32
  denominator :: u32

definition Ratio_default :: Ratio where
  "Ratio_default = \<lparr>numerator = 1, denominator = 1\<rparr>"

definition Ratio_Reduce :: "u32 \<Rightarrow> u32 \<Rightarrow> (u32 \<times> u32) res" where
  "Ratio_Reduce n d =
     (if d \<noteq> 0 then internal_Reduce n d
      else Inr (if n \<noteq> 0 then 1 else 0, d))"

definition Ratio_make :: "u32 \<Rightarrow> u32 \<Rightarrow> Ratio res" where
  "Ratio_make n d =
     rbind (Ratio_Reduce n d) (\<lambda>(n, d). Inr \<lparr>numerator = n, denominator = d\<rparr>)"

text \<open>
  \<^verbatim>\<open>__builtin_clzl\<close> on a 64-bit \<^verbatim>\<open>unsigned long\<close>: the number of zero bits above the
  highest set bit. It is undefined at 0, which \<^verbatim>\<open>Compose\<close> never passes it.
\<close>

function clz_from :: "nat \<Rightarrow> u64 \<Rightarrow> nat" where
  "clz_from i w = (if i = 0 then 64 else if bit w (i - 1) then 64 - i else clz_from (i - 1) w)"
  by auto

termination clz_from
  by (relation "measure fst") auto

declare clz_from.simps [simp del]

definition builtin_clzl :: "u64 \<Rightarrow> nat" where
  "builtin_clzl w = clz_from 64 w"

definition Ratio_Compose :: "Ratio \<Rightarrow> Ratio \<Rightarrow> (bool \<times> Ratio) res" where
  "Ratio_Compose a b =
     (let n = (ucast (numerator a) :: u64) * ucast (numerator b);
          d = (ucast (denominator a) :: u64) * ucast (denominator b)
      in if n = 0 \<or> d = 0
         then Inr (True, \<lparr>numerator = (if n \<noteq> 0 then 1 else 0),
                          denominator = (if d \<noteq> 0 then 1 else 0)\<rparr>)
         else rbind (internal_Reduce n d) (\<lambda>(n, d).
           let leading_zeros = builtin_clzl (push_bit 1 n OR d);
               lossy = (leading_zeros < 32);
               (n, d) = (if lossy
                         then let shift = 32 - leading_zeros in (drop_bit shift n, drop_bit shift d)
                         else (n, d))
           in Inr (\<not> lossy, \<lparr>numerator = ucast n, denominator = ucast d\<rparr>)))"

subsection \<open>\<^verbatim>\<open>LinearTransform\<close>\<close>

record LinearTransform =
  scale :: Ratio
  a_zero :: i64
  b_zero :: i64

definition LinearTransform_make :: "i64 \<Rightarrow> u32 \<Rightarrow> u32 \<Rightarrow> i64 \<Rightarrow> LinearTransform res" where
  "LinearTransform_make az n d bz =
     rbind (Ratio_make n d) (\<lambda>s. Inr \<lparr>scale = s, a_zero = az, b_zero = bz\<rparr>)"

definition LinearTransform_of_ratio :: "i64 \<Rightarrow> Ratio \<Rightarrow> i64 \<Rightarrow> LinearTransform" where
  "LinearTransform_of_ratio az s bz = \<lparr>scale = s, a_zero = az, b_zero = bz\<rparr>"

definition DoForwardTransform ::
  "LinearTransform \<Rightarrow> i64 \<Rightarrow> i64 option \<Rightarrow> (bool \<times> i64 option) res" where
  "DoForwardTransform lt a_in b_out =
     (if denominator (scale lt) = 0 then Inr (False, b_out)
      else linear_transform_s64_to_s64 a_in (a_zero lt) (numerator (scale lt))
             (denominator (scale lt)) False (b_zero lt) b_out)"

definition DoReverseTransform ::
  "LinearTransform \<Rightarrow> i64 \<Rightarrow> i64 option \<Rightarrow> (bool \<times> i64 option) res" where
  "DoReverseTransform lt b_in a_out =
     (if numerator (scale lt) = 0 then Inr (False, a_out)
      else linear_transform_s64_to_s64 b_in (b_zero lt) (numerator (scale lt))
             (denominator (scale lt)) True (a_zero lt) a_out)"

section \<open>Reduction is division by the greatest common divisor\<close>

lemma reduce_loop_gcd:
  "b \<noteq> 0 \<Longrightarrow> \<exists>g. reduce_loop a b = Inr g \<and> unat g = gcd (unat a) (unat b)"
proof (induction a b rule: reduce_loop.induct)
  case (1 a b)
  show ?case
  proof (cases "a mod b = 0")
    case True
    then have "unat a mod unat b = 0" by (simp add: unat_mod_distrib [symmetric])
    then have "gcd (unat a) (unat b) = unat b" by (simp add: mod_eq_0_iff_dvd gcd_nat.absorb2)
    with True 1(2) show ?thesis by (subst reduce_loop.simps) (simp add: Let_def)
  next
    case False
    with 1 obtain g where "reduce_loop b (a mod b) = Inr g" "unat g = gcd (unat b) (unat (a mod b))"
      by blast
    moreover have "gcd (unat b) (unat (a mod b)) = gcd (unat a) (unat b)"
      by (simp add: unat_mod_distrib gcd_red_nat [of "unat a" "unat b"] gcd.commute)
    ultimately show ?thesis using False 1(2) by (subst reduce_loop.simps) (simp add: Let_def)
  qed
qed

lemma internal_Reduce_gcd:
  fixes n d :: "'a::len word"
  assumes "d \<noteq> 0"
  obtains n' d' where "internal_Reduce n d = Inr (n', d')"
    "unat n' = unat n div gcd (unat n) (unat d)" "unat d' = unat d div gcd (unat n) (unat d)"
proof (cases "n = 0")
  case True
  have "(0::nat) < unat d" using assms by (simp add: unat_gt_0)
  with True show ?thesis by (intro that [of 0 1]) (simp_all add: internal_Reduce_def)
next
  case False
  define a b where "a = (if n < d then d else n)" and "b = (if n < d then n else d)"
  have "b \<noteq> 0" using False assms by (simp add: b_def)
  then obtain g where g: "reduce_loop a b = Inr g" "unat g = gcd (unat a) (unat b)"
    using reduce_loop_gcd by blast
  have "gcd (unat a) (unat b) = gcd (unat n) (unat d)" by (simp add: a_def b_def gcd.commute)
  moreover have "internal_Reduce n d = Inr (n div g, d div g)"
    using False g(1) by (auto simp: internal_Reduce_def a_def b_def Let_def split: if_splits)
  ultimately show ?thesis using g(2)
    by (intro that [of "n div g" "d div g"]) (simp_all only: unat_div_distrib)
qed

lemma internal_Reduce_coprime:
  fixes n d n' d' :: "'a::len word"
  assumes "d \<noteq> 0" "internal_Reduce n d = Inr (n', d')"
  shows "coprime (unat n') (unat d')" "unat n' * unat d = unat n * unat d'" "0 < unat d'"
proof -
  let ?g = "gcd (unat n) (unat d)"
  obtain m e where *: "internal_Reduce n d = Inr (m, e)" "unat m = unat n div ?g" "unat e = unat d div ?g"
    using internal_Reduce_gcd [OF assms(1)] by metis
  with assms have n: "unat n' = unat n div ?g" and d: "unat d' = unat d div ?g" by simp_all
  have pos: "0 < unat d" using assms by (simp add: unat_gt_0)
  then show "coprime (unat n') (unat d')" unfolding n d by (intro div_gcd_coprime) simp
  have "unat n = unat n' * ?g" "unat d = unat d' * ?g" unfolding n d by simp_all
  then show "unat n' * unat d = unat n * unat d'" by (metis mult.assoc mult.commute)
  have "?g dvd unat d" by simp
  with pos show "0 < unat d'" unfolding d by (auto simp: div_greater_zero_iff intro: dvd_imp_le)
qed

section \<open>Scaling\<close>

lemma sint_of_int_eq: "in_int64 x \<Longrightarrow> sint (of_int x :: i64) = x"
  by (simp add: in_int64_iff signed_of_int signed_take_bit_int_eq_self)

lemma in_int64_sint [simp]: "in_int64 (sint w)" for w :: i64
  using sint_ge [of w] sint_lt [of w] by (simp add: in_int64_iff)

lemma bit63_iff: "bit w 63 \<longleftrightarrow> sint w < 0" for w :: i64
  using bit_last_iff [of w] by simp

lemma and_INT64_MIN: "w AND INT64_MIN = 0 \<longleftrightarrow> \<not> bit w 63"
proof -
  have "INT64_MIN = push_bit 63 1" by (simp add: INT64_MIN_def)
  then show ?thesis unfolding bit_iff_and_push_bit_not_eq_0 by simp
qed

lemma sum_check_ovfl_iff:
  "sum_check_ovfl a b = (in_int64 (sint a + sint b), of_int (sint a + sint b))"
proof -
  let ?s = "sint a + sint b"
  have ab: "a + b = of_int ?s" by simp
  have "bit INT64_MIN 63" by (simp add: INT64_MIN_def)
  then have 1: "(a XOR b XOR INT64_MIN) AND (a XOR (a + b)) AND INT64_MIN \<noteq> 0 \<longleftrightarrow>
      (sint a < 0 \<longleftrightarrow> sint b < 0) \<and> (sint a < 0 \<longleftrightarrow> \<not> sint (a + b) < 0)"
    unfolding and.assoc [symmetric] and_INT64_MIN bit63_iff [symmetric] by (auto simp: bit_simps)
  have a: "- (2 ^ 63) \<le> sint a" "sint a < 2 ^ 63" and b: "- (2 ^ 63) \<le> sint b" "sint b < 2 ^ 63"
    using in_int64_sint [of a] in_int64_sint [of b] by (simp_all add: in_int64_iff)
  have hi: "sint (a + b) = ?s - 2 ^ 64" if "2 ^ 63 \<le> ?s"
  proof -
    have "of_int (?s - 2 ^ 64) = (of_int ?s :: i64)" by simp
    moreover have "in_int64 (?s - 2 ^ 64)" using that a b by (simp add: in_int64_iff)
    ultimately show ?thesis unfolding ab using sint_of_int_eq by metis
  qed
  have lo: "sint (a + b) = ?s + 2 ^ 64" if "?s < - (2 ^ 63)"
  proof -
    have "of_int (?s + 2 ^ 64) = (of_int ?s :: i64)" by simp
    moreover have "in_int64 (?s + 2 ^ 64)" using that a b by (simp add: in_int64_iff)
    ultimately show ?thesis unfolding ab using sint_of_int_eq by metis
  qed
  have mid: "sint (a + b) = ?s" if "in_int64 ?s"
    unfolding ab using that by (rule sint_of_int_eq)
  have "(sint a < 0 \<longleftrightarrow> sint b < 0) \<and> (sint a < 0 \<longleftrightarrow> \<not> sint (a + b) < 0) \<longleftrightarrow> \<not> in_int64 ?s"
  proof (cases "?s < - (2 ^ 63)")
    case True
    with lo a b show ?thesis by (simp add: in_int64_iff)
  next
    case False
    show ?thesis
    proof (cases "2 ^ 63 \<le> ?s")
      case True
      with hi a b show ?thesis by (simp add: in_int64_iff)
    next
      case small: False
      with False mid show ?thesis by (auto simp: in_int64_iff)
    qed
  qed
  with 1 show ?thesis unfolding sum_check_ovfl_def Let_def by simp
qed

lemma scale_u64_to_u64_correct:
  fixes v :: u64 and n d :: u32 and up :: bool
  assumes "d \<noteq> 0"
  defines "N \<equiv> unat n * unat v"
  defines "q \<equiv> N div unat d"
  defines "q' \<equiv> (if up \<and> N mod unat d \<noteq> 0 then q + 1 else q)"
  shows "scale_u64_to_u64 v n d up = Inr (if q' < 2 ^ 64 then (True, of_nat q') else (False, UINT64_MAX))"
proof -
  define hi where "hi = ucast n * drop_bit 32 v + drop_bit 32 (ucast n * (v AND 0xffffffff))"
  define lo where "lo = ucast n * (v AND 0xffffffff) AND 0xffffffff"
  define D :: u64 where "D = ucast d"
  define lo2 where "lo2 = lo OR push_bit 32 (hi mod D)"
  have hi: "unat hi = N div 2 ^ 32" and lo: "unat lo = N mod 2 ^ 32"
    by (simp_all only: hi_def lo_def N_def mult_digits)
  have D: "unat D = unat d" unfolding D_def by (rule unat_ucast_up) simp
  have d: "0 < unat d" "unat d < 2 ^ 32"
    using assms(1) unat_less_2p [of d] by (simp_all add: unat_gt_0)
  have m: "unat (hi mod D) = (N div 2 ^ 32) mod unat d"
    by (simp only: unat_mod_distrib hi D)
  have small: "unat (x mod D) < 2 ^ 32" for x
    using d mod_less_divisor [OF d(1), of "unat x"] by (simp only: unat_mod_distrib D)
  have narrow: "ucast (ucast (x mod D) :: u32) = x mod D" for x :: u64
    using small [of x] by (simp add: word_unat_eq_iff unat_ucast_down unat_ucast_up)
  have narrow0: "(ucast (x mod D) :: u32) \<noteq> 0 \<longleftrightarrow> x mod D \<noteq> 0" for x :: u64
    using small [of x] by (simp add: word_unat_eq_iff unat_ucast_down)
  have lo2: "unat lo2 = ((N div 2 ^ 32) mod unat d) * 2 ^ 32 + N mod 2 ^ 32"
    using unat_or_halves [of "hi mod D" lo, OF small] lo m by (simp add: lo2_def or.commute)
  have N: "N = (N div 2 ^ 32) * 2 ^ 32 + N mod 2 ^ 32" by simp
  have lt: "N mod 2 ^ 32 < 2 ^ 32" by simp
  note div = long_division_step [OF d(1) lt, of "N div 2 ^ 32", folded N lo2]
  have q: "q = unat (hi div D) * 2 ^ 32 + unat (lo2 div D)" "unat (lo2 div D) < 2 ^ 32"
    and rem: "lo2 mod D \<noteq> 0 \<longleftrightarrow> N mod unat d \<noteq> 0"
    using div by (simp_all only: q_def unat_div_distrib D hi word_unat_eq_iff unat_mod_distrib unat_0)
  have over: "drop_bit 32 hi \<ge> D \<longleftrightarrow> 2 ^ 64 \<le> q"
  proof -
    have "drop_bit 32 hi \<ge> D \<longleftrightarrow> unat d * 2 ^ 32 \<le> unat hi"
      using d by (simp add: word_le_nat_alt D unat_drop_bit_div less_eq_div_iff_mult_less_eq)
    also have "\<dots> \<longleftrightarrow> 2 ^ 32 \<le> unat (hi div D)"
      using d by (simp add: unat_div_distrib D less_eq_div_iff_mult_less_eq mult.commute)
    also have "\<dots> \<longleftrightarrow> 2 ^ 64 \<le> q" using q by auto
    finally show ?thesis .
  qed
  have res: "push_bit 32 (hi div D) OR lo2 div D = of_nat q" if "\<not> 2 ^ 64 \<le> q"
  proof -
    from that q have "unat (hi div D) < 2 ^ 32" by auto
    from unat_or_halves [OF this q(2)] q(1) have "unat (push_bit 32 (hi div D) OR lo2 div D) = q"
      by simp
    with that show ?thesis by (simp add: word_unat_eq_iff unat_of_nat)
  qed
  have wrap: "(of_nat q + 1 :: u64) = 0 \<longleftrightarrow> q + 1 = 2 ^ 64" if "\<not> 2 ^ 64 \<le> q"
  proof -
    have "(of_nat q + 1 :: u64) = of_nat (q + 1)" by simp
    then have "unat (of_nat q + 1 :: u64) = (q + 1) mod 2 ^ 64" by (simp only: unat_of_nat) simp
    then show ?thesis using that
      by (cases "q = 2 ^ 64 - 1") (simp_all add: word_unat_eq_iff)
  qed
  have "scale_u64_to_u64 v n d up =
      (if D \<le> drop_bit 32 hi then Inr (False, UINT64_MAX)
       else if lo2 mod D \<noteq> 0 \<and> up
       then if (push_bit 32 (hi div D) OR lo2 div D) + 1 = 0 then Inr (False, UINT64_MAX)
            else Inr (True, (push_bit 32 (hi div D) OR lo2 div D) + 1)
       else Inr (True, push_bit 32 (hi div D) OR lo2 div D))"
    using assms(1) unfolding scale_u64_to_u64_def Let_def
    by (simp only: dcheck_simps mult.commute [of _ "ucast n"] D_def [symmetric] hi_def [symmetric]
        lo_def [symmetric] narrow lo2_def [symmetric] narrow0) simp
  then show ?thesis
    unfolding over rem using res wrap by (auto simp: q'_def)
qed

section \<open>The transformation\<close>

lemma bit63_of_nat: "k < 2 ^ 64 \<Longrightarrow> bit (of_nat k :: i64) 63 \<longleftrightarrow> 2 ^ 63 \<le> k"
proof -
  assume k: "k < 2 ^ 64"
  have "bit (of_nat k :: i64) 63 \<longleftrightarrow> odd (k div 2 ^ 63)"
    by (simp add: bit_of_nat_iff) (simp add: bit_iff_odd)
  moreover have "k div 2 ^ 63 < 2" using k by (simp add: div_less_iff_less_mult)
  moreover have "k div 2 ^ 63 = 0 \<longleftrightarrow> k < 2 ^ 63" by (simp add: div_eq_0_iff)
  ultimately show ?thesis by (auto simp: less_2_cases_iff)
qed

lemma sint_and_INT64_MAX:
  assumes "2 ^ 63 \<le> k" "k < 2 ^ 64"
  shows "sint (of_nat k AND INT64_MAX) = int k - 2 ^ 63"
proof -
  have "INT64_MAX = mask 63" by (simp add: INT64_MAX_def mask_eq_exp_minus_1)
  then have "of_nat k AND INT64_MAX = take_bit 63 (of_nat k :: i64)"
    by (simp only: take_bit_eq_mask)
  also have "\<dots> = of_nat (take_bit 63 k)" by (rule take_bit_of_nat)
  also have "take_bit 63 k = k - 2 ^ 63"
    using assms by (simp only: take_bit_eq_mod) (simp add: mod_if)
  finally have "of_nat k AND INT64_MAX = (of_int (int k - 2 ^ 63) :: i64)"
    using assms by (simp add: of_nat_diff)
  moreover have "in_int64 (int k - 2 ^ 63)" using assms by (simp add: in_int64_iff)
  ultimately show ?thesis by (simp only: sint_of_int_eq)
qed

lemma sint_ABS: "sint (ABS b) = (if sint b = int64_min then int64_min else \<bar>sint b\<bar>)"
proof -
  have eq: "- b = of_int (- sint b)" by simp
  show ?thesis
  proof (cases "sint b = int64_min")
    case True
    moreover have "b = of_int (sint b)" by simp
    ultimately have "b = of_int int64_min" by (simp only:)
    then show ?thesis by (simp add: ABS_def int64_min_def)
  next
    case False
    then have "in_int64 (- sint b)"
      using in_int64_sint [of b] by (simp add: in_int64_iff int64_min_def)
    then have "sint (- b) = - sint b" unfolding eq by (rule sint_of_int_eq)
    with False show ?thesis by (simp add: ABS_def)
  qed
qed

lemma scale_floor:
  fixes n d :: u32 and delta :: int
  assumes "d \<noteq> 0" "\<bar>delta\<bar> < 2 ^ 64"
  defines "k \<equiv> nat \<bar>(delta * uint n) div uint d\<bar>"
  shows "scale_u64_to_u64 (of_int \<bar>delta\<bar>) n d (delta < 0) =
    Inr (if k < 2 ^ 64 then (True, of_nat k) else (False, UINT64_MAX))"
proof -
  define N where "N = unat n * nat \<bar>delta\<bar>"
  have u: "unat (of_int \<bar>delta\<bar> :: u64) = nat \<bar>delta\<bar>" using assms(2) by (intro unat_of_int_u64) simp_all
  have D: "0 < int (unat d)" using assms(1) by (rule int_unat_pos)
  have "(if delta < 0 \<and> N mod unat d \<noteq> 0 then N div unat d + 1 else N div unat d) = k"
  proof (cases "delta < 0")
    case True
    then have eq: "delta * int (unat n) = - int N" by (simp add: N_def)
    have "int N mod int (unat d) = 0 \<longleftrightarrow> N mod unat d = 0"
      by (simp only: zmod_int [symmetric] of_nat_eq_0_iff)
    then have "(- int N) div int (unat d) =
        (if N mod unat d = 0 then - int (N div unat d) else - int (N div unat d) - 1)"
      using D by (subst zdiv_zminus1_eq_if) (simp, simp only: zdiv_int)
    with True show ?thesis unfolding k_def uint_nat eq by (simp add: nat_add_distrib)
  next
    case False
    then have eq: "delta * int (unat n) = int N" by (simp add: N_def)
    from False show ?thesis unfolding k_def uint_nat eq by (simp only: zdiv_int [symmetric]) simp
  qed
  then show ?thesis using scale_u64_to_u64_correct [OF assms(1), of "of_int \<bar>delta\<bar>" n "delta < 0"]
    unfolding u N_def by simp
qed

text \<open>
  The exact value of the transformation, rounded down, and the inputs whose exact
  value is representable but is nevertheless refused: the magnitude of the scaled
  difference needs 64 bits, and either the result is the least \<^verbatim>\<open>int64_t\<close>, or
  \<^verbatim>\<open>basis2\<close> is the least \<^verbatim>\<open>int64_t\<close>, whose absolute value is not representable.
\<close>

definition transformed :: "i64 \<Rightarrow> i64 \<Rightarrow> u32 \<Rightarrow> u32 \<Rightarrow> i64 \<Rightarrow> int" where
  "transformed val basis1 n d basis2 =
     ((sint val - sint basis1) * uint n) div uint d + sint basis2"

definition refused :: "i64 \<Rightarrow> i64 \<Rightarrow> u32 \<Rightarrow> u32 \<Rightarrow> i64 \<Rightarrow> bool" where
  "refused val basis1 n d basis2 \<longleftrightarrow>
     2 ^ 63 \<le> \<bar>((sint val - sint basis1) * uint n) div uint d\<bar> \<and>
     (sint val < sint basis1 \<and> transformed val basis1 n d basis2 = int64_min \<or>
      sint val \<ge> sint basis1 \<and> sint basis2 = int64_min)"

lemma linear_transform_step:
  fixes val basis1 basis2 old :: i64 and n d n' d' :: u32 and ivt :: bool
  assumes "d' \<noteq> 0" "n' = (if ivt then d else n)" "d' = (if ivt then n else d)"
  defines "Q \<equiv> ((sint val - sint basis1) * uint n') div uint d'"
  shows "linear_transform_s64_to_s64 val basis1 n d ivt basis2 (Some old) =
    (let is_neg = (sint val < sint basis1); k = nat \<bar>Q\<bar>
     in if 2 ^ 64 \<le> k then Inr (False, Some old)
        else if 2 ^ 63 \<le> k
        then if is_neg \<and> sint basis2 < 0 \<or> \<not> is_neg \<and> sint basis2 \<ge> 0 \<or>
                sint (ABS basis2) \<le> int k - 2 ^ 63 then Inr (False, Some old)
             else Inr (True, Some (of_int (Q + sint basis2)))
        else Inr (in_int64 (Q + sint basis2), Some (of_int (Q + sint basis2))))"
proof -
  let ?neg = "sint val < sint basis1" and ?k = "nat \<bar>Q\<bar>"
  define delta where "delta = sint val - sint basis1"
  have "in_int64 (sint val)" "in_int64 (sint basis1)" by simp_all
  then have small: "\<bar>delta\<bar> < 2 ^ 64" by (auto simp: delta_def in_int64_iff abs_if)
  have neg: "?neg \<longleftrightarrow> delta < 0" by (simp add: delta_def)
  have abs: "(if ?neg then (True, basis1 - val) else (False, val - basis1)) = (?neg, of_int \<bar>delta\<bar>)"
    by (simp add: delta_def)
  have Q0: "delta < 0 \<Longrightarrow> Q \<le> 0" "\<not> delta < 0 \<Longrightarrow> 0 \<le> Q"
    using int_unat_pos [OF assms(1)]
    by (simp_all add: Q_def delta_def [symmetric] div_nonpos_pos_le0 mult_nonpos_nonneg
        pos_imp_zdiv_nonneg_iff)
  have sg: "(if ?neg then - of_nat ?k else of_nat ?k) = (of_int Q :: i64)"
    using Q0 unfolding neg by (auto simp: of_nat_nat)
  have sq: "sint (of_int Q :: i64) = Q" if "?k < 2 ^ 63"
    using that by (intro sint_of_int_eq) (auto simp: in_int64_iff nat_less_iff abs_less_iff)
  note scale_floor [OF assms(1) small, of n', folded neg]
  then have sc: "scale_u64_to_u64 (of_int \<bar>delta\<bar>) n' d' ?neg =
      Inr (if ?k < 2 ^ 64 then (True, of_nat ?k) else (False, UINT64_MAX))"
    by (simp only: Q_def delta_def)
  have un: "linear_transform_s64_to_s64 val basis1 n d ivt basis2 (Some old) =
      rbind (scale_u64_to_u64 (of_int \<bar>delta\<bar>) n' d' ?neg) (\<lambda>(ok, scaled).
             if \<not> ok then Inr (False, Some old)
             else if scaled AND INT64_MIN \<noteq> 0
             then if ?neg \<and> sint basis2 < 0 then Inr (False, Some old)
                  else if \<not> ?neg \<and> sint basis2 \<ge> 0 then Inr (False, Some old)
                  else if sint (ABS basis2) \<le> sint (scaled AND INT64_MAX) then Inr (False, Some old)
                  else Inr (True, Some ((if ?neg then - scaled else scaled) + basis2))
             else let scaled = (if ?neg then - scaled else scaled);
                      (ok, out) = sum_check_ovfl scaled basis2
                  in if \<not> ok then Inr (False, Some out) else Inr (True, Some out))"
    unfolding linear_transform_s64_to_s64_def option.case(2) abs assms(2,3) Let_def
    by simp
  consider "2 ^ 64 \<le> ?k" | "2 ^ 63 \<le> ?k" "?k < 2 ^ 64" | "?k < 2 ^ 63" by linarith
  then show ?thesis
  proof cases
    case 1
    then show ?thesis unfolding un sc by simp
  next
    case 2
    then have "(of_nat ?k :: i64) AND INT64_MIN \<noteq> 0" by (simp only: and_INT64_MIN bit63_of_nat) simp
    moreover note sint_and_INT64_MAX [OF 2]
    ultimately show ?thesis using 2 sg unfolding un sc Let_def by auto
  next
    case 3
    then have "\<not> bit (of_nat ?k :: i64) 63" by (subst bit63_of_nat) simp_all
    then have "(of_nat ?k :: i64) AND INT64_MIN = 0" by (simp only: and_INT64_MIN) simp
    moreover have "sint ((if ?neg then - of_nat ?k else of_nat ?k) :: i64) = Q" unfolding sg using 3 by (rule sq)
    ultimately show ?thesis using 3 sg unfolding un sc Let_def sum_check_ovfl_iff by auto
  qed
qed

lemma linear_transform_correct:
  fixes val basis1 basis2 old :: i64 and n d n' d' :: u32 and ivt :: bool
  assumes "d' \<noteq> 0" "n' = (if ivt then d else n)" "d' = (if ivt then n else d)"
  defines "ok \<equiv> in_int64 (transformed val basis1 n' d' basis2) \<and> \<not> refused val basis1 n' d' basis2"
  shows "\<exists>b. linear_transform_s64_to_s64 val basis1 n d ivt basis2 (Some old) = Inr (ok, Some b) \<and>
    (ok \<longrightarrow> sint b = transformed val basis1 n' d' basis2)"
proof -
  let ?neg = "sint val < sint basis1"
  define Q where "Q = ((sint val - sint basis1) * uint n') div uint d'"
  note step = linear_transform_step [OF assms(1-3), of val basis1 basis2 old, folded Q_def, unfolded Let_def]
  have t: "transformed val basis1 n' d' basis2 = Q + sint basis2"
    by (simp add: transformed_def Q_def)
  have b2: "- (2 ^ 63) \<le> sint basis2" "sint basis2 < 2 ^ 63"
    using in_int64_sint [of basis2] by (simp_all add: in_int64_iff)
  have Q0: "?neg \<Longrightarrow> Q \<le> 0" "\<not> ?neg \<Longrightarrow> 0 \<le> Q"
    using int_unat_pos [OF assms(1)]
    by (simp_all add: Q_def div_nonpos_pos_le0 mult_nonpos_nonneg pos_imp_zdiv_nonneg_iff)
  have fit: "sint (of_int (Q + sint basis2) :: i64) = Q + sint basis2" if "in_int64 (Q + sint basis2)"
    using that by (rule sint_of_int_eq)
  consider "2 ^ 64 \<le> \<bar>Q\<bar>" | "2 ^ 63 \<le> \<bar>Q\<bar>" "\<bar>Q\<bar> < 2 ^ 64" | "\<bar>Q\<bar> < 2 ^ 63" by linarith
  then show ?thesis
  proof cases
    case 1
    then have "\<not> in_int64 (Q + sint basis2)" using b2 by (auto simp: in_int64_iff abs_if split: if_splits)
    with 1 show ?thesis unfolding step ok_def t by (simp add: le_nat_iff)
  next
    case 2
    have "ok \<longleftrightarrow> \<not> (?neg \<and> sint basis2 < 0 \<or> \<not> ?neg \<and> sint basis2 \<ge> 0 \<or>
                sint (ABS basis2) \<le> \<bar>Q\<bar> - 2 ^ 63)"
      using 2 b2 Q0 unfolding ok_def t refused_def Q_def [symmetric] sint_ABS
      by (cases ?neg) (auto simp: in_int64_iff int64_min_def abs_if split: if_splits)
    moreover have "ok \<Longrightarrow> in_int64 (Q + sint basis2)" unfolding ok_def t by simp
    ultimately show ?thesis using 2 fit unfolding step t
      by (auto simp: le_nat_iff nat_less_iff)
  next
    case 3
    then have "ok \<longleftrightarrow> in_int64 (Q + sint basis2)"
      unfolding ok_def t refused_def Q_def [symmetric] by simp
    with 3 fit show ?thesis unfolding step t by (simp add: le_nat_iff del: of_int_add)
  qed
qed

section \<open>Composition of ratios\<close>

lemma clz_from_bounds:
  "i \<le> 64 \<Longrightarrow> w \<noteq> 0 \<Longrightarrow> unat w < 2 ^ i \<Longrightarrow>
     clz_from i w < 64 \<and> 2 ^ (63 - clz_from i w) \<le> unat w \<and> unat w < 2 ^ (64 - clz_from i w)"
proof (induction i w rule: clz_from.induct)
  case (1 i w)
  show ?case
  proof (cases "i = 0")
    case True
    with 1 show ?thesis using unat_gt_0 [of w] by simp
  next
    case False
    then obtain j where j: "i = Suc j" by (cases i) auto
    have "unat w div 2 ^ j < 2" using 1(4) by (simp add: j less_mult_imp_div_less)
    moreover have "unat w div 2 ^ j = 0 \<longleftrightarrow> unat w < 2 ^ j" by (simp add: div_eq_0_iff)
    moreover have "bit w j \<longleftrightarrow> odd (unat w div 2 ^ j)"
      using bit_unsigned_iff [of w j, where 'a = nat] 1(2) j by (simp add: bit_iff_odd [of "unat w"])
    ultimately have b: "bit w j \<longleftrightarrow> 2 ^ j \<le> unat w" by (auto simp: less_2_cases_iff)
    show ?thesis
    proof (cases "bit w j")
      case True
      with b 1 j show ?thesis by (subst (1 2 3) clz_from.simps) (simp add: Suc_diff_le)
    next
      case bit: False
      with b 1 j show ?thesis by (subst (1 2 3) clz_from.simps) simp
    qed
  qed
qed

lemma builtin_clzl_bounds:
  assumes "w \<noteq> 0"
  shows "builtin_clzl w < 64" "2 ^ (63 - builtin_clzl w) \<le> unat w" "unat w < 2 ^ (64 - builtin_clzl w)"
  using clz_from_bounds [of 64 w] assms unat_less_2p [of w] by (simp_all add: builtin_clzl_def)

lemma unat_or_less: "unat (a OR b) < 2 ^ k \<longleftrightarrow> unat a < 2 ^ k \<and> unat b < 2 ^ k"
  for a b :: "'a::len word"
proof -
  have *: "unat w < 2 ^ k \<longleftrightarrow> drop_bit k w = 0" for w :: "'a word"
    by (simp add: word_unat_eq_iff unat_drop_bit_div div_eq_0_iff)
  show ?thesis unfolding * by (simp add: or_eq_0_iff)
qed

lemma builtin_clzl_less_32:
  assumes "w \<noteq> 0"
  shows "builtin_clzl w < 32 \<longleftrightarrow> 2 ^ 32 \<le> unat w"
proof
  assume "builtin_clzl w < 32"
  then have "(2::nat) ^ 32 \<le> 2 ^ (63 - builtin_clzl w)" by (intro power_increasing) simp_all
  with builtin_clzl_bounds(2) [OF assms] show "2 ^ 32 \<le> unat w" by simp
next
  assume "2 ^ 32 \<le> unat w"
  with builtin_clzl_bounds(3) [OF assms] have "(2::nat) ^ 32 < 2 ^ (64 - builtin_clzl w)" by simp
  then have "32 < 64 - builtin_clzl w" by (rule power_less_imp_less_exp [rotated]) simp
  then show "builtin_clzl w < 32" by simp
qed

text \<open>
  Once reduced, the two terms are kept if the doubled numerator and the denominator
  fit in 32 bits, and are otherwise shifted until they just do.
\<close>

definition shifted_to_fit :: "nat \<Rightarrow> nat \<Rightarrow> Ratio \<Rightarrow> bool" where
  "shifted_to_fit n d r \<longleftrightarrow>
     (\<exists>s. 0 < s \<and> s \<le> 32 \<and> unat (numerator r) = n div 2 ^ s \<and> unat (denominator r) = d div 2 ^ s \<and>
        (2 ^ 31 \<le> (2 * n) div 2 ^ s \<or> 2 ^ 31 \<le> d div 2 ^ s))"

lemma compose_shift:
  fixes n d :: u64
  assumes "unat n < 2 ^ 63" "d \<noteq> 0"
  defines "w \<equiv> push_bit 1 n OR d"
  shows "builtin_clzl w < 32 \<longleftrightarrow> \<not> (2 * unat n < 2 ^ 32 \<and> unat d < 2 ^ 32)"
    and "builtin_clzl w < 32 \<Longrightarrow>
      shifted_to_fit (unat n) (unat d)
        \<lparr>numerator = ucast (drop_bit (32 - builtin_clzl w) n),
         denominator = ucast (drop_bit (32 - builtin_clzl w) d)\<rparr>"
proof -
  have n2: "unat (push_bit 1 n) = 2 * unat n"
    using assms(1) by (simp only: unat_push_bit_mod) simp
  have w: "w \<noteq> 0" using assms(2) by (simp add: w_def or_eq_0_iff)
  have lt: "unat w < 2 ^ k \<longleftrightarrow> 2 * unat n < 2 ^ k \<and> unat d < 2 ^ k" for k
    unfolding w_def unat_or_less n2 ..
  show "builtin_clzl w < 32 \<longleftrightarrow> \<not> (2 * unat n < 2 ^ 32 \<and> unat d < 2 ^ 32)"
    unfolding builtin_clzl_less_32 [OF w] lt [symmetric] by auto
  assume c: "builtin_clzl w < 32"
  define s where "s = 32 - builtin_clzl w"
  have s: "64 - builtin_clzl w = 32 + s" "63 - builtin_clzl w = 31 + s" "0 < s" "s \<le> 32"
    using c by (simp_all add: s_def)
  note bd = builtin_clzl_bounds(2,3) [OF w, unfolded s]
  have d: "2 * unat n < 2 ^ (32 + s)" "unat d < 2 ^ (32 + s)" using bd(2) lt by auto
  then have "unat n div 2 ^ s < 2 ^ 32" "unat d div 2 ^ s < 2 ^ 32"
    by (simp_all add: power_add div_less_iff_less_mult)
  then have "unat (ucast (drop_bit s n) :: u32) = unat n div 2 ^ s"
    "unat (ucast (drop_bit s d) :: u32) = unat d div 2 ^ s"
    by (simp_all add: unat_ucast_down unat_drop_bit_div)
  moreover have "2 ^ 31 \<le> (2 * unat n) div 2 ^ s \<or> 2 ^ 31 \<le> unat d div 2 ^ s"
  proof -
    have "\<not> unat w < 2 ^ (31 + s)" using bd(1) by simp
    then show ?thesis unfolding lt
      by (auto simp: power_add less_eq_div_iff_mult_less_eq)
  qed
  ultimately show "shifted_to_fit (unat n) (unat d)
        \<lparr>numerator = ucast (drop_bit (32 - builtin_clzl w) n),
         denominator = ucast (drop_bit (32 - builtin_clzl w) d)\<rparr>"
    using s(3,4) unfolding shifted_to_fit_def s_def [symmetric] by auto
qed

lemma Ratio_Compose_reduced:
  fixes a b :: Ratio
  defines "N \<equiv> unat (numerator a) * unat (numerator b)"
    and "D \<equiv> unat (denominator a) * unat (denominator b)"
  assumes "D \<noteq> 0" "N < 2 ^ 63"
  shows "\<exists>ok r. Ratio_Compose a b = Inr (ok, r) \<and>
    (ok \<longleftrightarrow> 2 * (N div gcd N D) < 2 ^ 32 \<and> D div gcd N D < 2 ^ 32) \<and>
    (if ok then unat (numerator r) = N div gcd N D \<and> unat (denominator r) = D div gcd N D
     else shifted_to_fit (N div gcd N D) (D div gcd N D) r)"
proof -
  define n d :: u64 where "n = ucast (numerator a) * ucast (numerator b)"
    and "d = ucast (denominator a) * ucast (denominator b)"
  have prod: "unat (ucast x * ucast y :: u64) = unat x * unat y" for x y :: u32
  proof -
    have *: "unat (ucast z :: u64) = unat z" for z :: u32 by (rule unat_ucast_up) simp
    show ?thesis using unat_mult_u32 [of "ucast y" x] unat_less_2p [of y] by (simp add: *)
  qed
  have n: "unat n = N" and d: "unat d = D" by (simp_all only: n_def d_def prod N_def D_def)
  have d0: "d \<noteq> 0" using d assms(3) by auto
  show ?thesis
  proof (cases "n = 0")
    case True
    then have "N = 0" using n by simp
    moreover have "Ratio_Compose a b = Inr (True, \<lparr>numerator = 0, denominator = 1\<rparr>)"
      using True d0 unfolding Ratio_Compose_def n_def [symmetric] d_def [symmetric] by simp
    ultimately show ?thesis using assms(3) by auto
  next
    case False
    obtain n' d' where r: "internal_Reduce n d = Inr (n', d')" "unat n' = N div gcd N D"
      "unat d' = D div gcd N D"
      using internal_Reduce_gcd [OF d0, of n] n d by metis
    have d': "d' \<noteq> 0" using internal_Reduce_coprime(3) [OF d0 r(1)] by (simp add: unat_gt_0)
    have "unat n' \<le> N" unfolding r(2) by (rule div_le_dividend)
    then have n': "unat n' < 2 ^ 63" using assms(4) by simp
    define w where "w = push_bit 1 n' OR d'"
    note shift = compose_shift [OF n' d', folded w_def]
    have eq: "Ratio_Compose a b =
        (if builtin_clzl w < 32
         then Inr (False, \<lparr>numerator = ucast (drop_bit (32 - builtin_clzl w) n'),
                            denominator = ucast (drop_bit (32 - builtin_clzl w) d')\<rparr>)
         else Inr (True, \<lparr>numerator = ucast n', denominator = ucast d'\<rparr>))"
      using False d0 unfolding Ratio_Compose_def n_def [symmetric] d_def [symmetric] Let_def
      by (simp add: r(1) w_def)
    show ?thesis
    proof (cases "builtin_clzl w < 32")
      case True
      with eq shift(1) shift(2) [OF True] show ?thesis by (simp only: r if_True) auto
    next
      case False
      then have "unat (ucast n' :: u32) = unat n'" "unat (ucast d' :: u32) = unat d'"
        using shift(1) by (simp_all add: unat_ucast_down)
      with False eq shift(1) show ?thesis by (simp only: r if_False) auto
    qed
  qed
qed

lemma DoForwardTransform_spec:
  assumes "denominator (scale lt) \<noteq> 0"
  defines "exact a \<equiv> transformed a (a_zero lt) (numerator (scale lt)) (denominator (scale lt)) (b_zero lt)"
  defines "ok a \<equiv> in_int64 (exact a) \<and>
    \<not> refused a (a_zero lt) (numerator (scale lt)) (denominator (scale lt)) (b_zero lt)"
  shows "\<exists>b. DoForwardTransform lt a (Some old) = Inr (ok a, Some b) \<and> (ok a \<longrightarrow> sint b = exact a)"
  using linear_transform_correct [OF assms(1), of "numerator (scale lt)" False "denominator (scale lt)"
      "numerator (scale lt)" a "a_zero lt" "b_zero lt" old] assms(1)
  unfolding DoForwardTransform_def exact_def ok_def by simp

lemma DoReverseTransform_spec:
  assumes "numerator (scale lt) \<noteq> 0"
  defines "exact b \<equiv> transformed b (b_zero lt) (denominator (scale lt)) (numerator (scale lt)) (a_zero lt)"
  defines "ok b \<equiv> in_int64 (exact b) \<and>
    \<not> refused b (b_zero lt) (denominator (scale lt)) (numerator (scale lt)) (a_zero lt)"
  shows "\<exists>a. DoReverseTransform lt b (Some old) = Inr (ok b, Some a) \<and> (ok b \<longrightarrow> sint a = exact b)"
  using linear_transform_correct [OF assms(1), of "denominator (scale lt)" True "denominator (scale lt)"
      "numerator (scale lt)" b "b_zero lt" "a_zero lt" old] assms(1)
  unfolding DoReverseTransform_def exact_def ok_def by simp

lemma floor_there_and_back:
  fixes delta N D :: int
  assumes "0 < D" "D \<le> N"
  shows "(delta * N div D) * D div N \<in> {delta - 1, delta}"
proof -
  define q where "q = delta * N div D"
  have "delta * N = q * D + delta * N mod D" "0 \<le> delta * N mod D" "delta * N mod D < D"
    using assms(1) by (simp_all add: q_def)
  then have le: "q * D \<le> delta * N" and gt: "(delta - 1) * N \<le> q * D"
    using assms(2) by (simp_all add: left_diff_distrib)
  have N: "0 < N" using assms by simp
  have "q * D div N \<le> delta * N div N" using le N by (rule zdiv_mono1)
  moreover have "(delta - 1) * N div N \<le> q * D div N" using gt N by (rule zdiv_mono1)
  ultimately show ?thesis using N by (auto simp: q_def)
qed

section \<open>Properties\<close>

text \<open>
  C5. \<^verbatim>\<open>DoForwardTransform\<close> with a nonsingular scale returns, writes the exact value
  rounded towards minus infinity and reports success when that value is an
  \<^verbatim>\<open>int64_t\<close>, and reports failure when it is not; the only representable values it
  refuses are those of \<open>refused\<close>.
\<close>

theorem DoForwardTransform_exact:
  assumes "denominator (scale lt) \<noteq> 0"
  shows "\<exists>ok b. DoForwardTransform lt a (Some old) = Inr (ok, Some b) \<and>
    (let exact = transformed a (a_zero lt) (numerator (scale lt)) (denominator (scale lt)) (b_zero lt)
     in (ok \<longleftrightarrow> in_int64 exact \<and>
           \<not> refused a (a_zero lt) (numerator (scale lt)) (denominator (scale lt)) (b_zero lt)) \<and>
        (ok \<longrightarrow> sint b = exact))"
  using DoForwardTransform_spec [OF assms, of a old] unfolding Let_def by blast

definition example_transform :: LinearTransform where
  "example_transform =
     \<lparr>scale = \<lparr>numerator = 3, denominator = 2\<rparr>, a_zero = 10, b_zero = - 1\<rparr>"

lemma example_transform_forward:
  "transformed 5 (a_zero example_transform) (numerator (scale example_transform))
     (denominator (scale example_transform)) (b_zero example_transform) = - 9"
  "\<not> refused 5 (a_zero example_transform) (numerator (scale example_transform))
     (denominator (scale example_transform)) (b_zero example_transform)"
  by (simp_all add: example_transform_def transformed_def refused_def)

lemma sint_eq_imp: "sint b = x \<Longrightarrow> b = of_int x" for b :: i64
  by (drule sym) simp

theorem DoForwardTransform_exact_witness:
  "DoForwardTransform example_transform 5 (Some 0) = Inr (True, Some (- 9))"
proof -
  have "denominator (scale example_transform) \<noteq> 0" by (simp add: example_transform_def)
  from DoForwardTransform_exact [OF this, of 5 0]
  obtain b where *: "DoForwardTransform example_transform 5 (Some 0) = Inr (True, Some b)"
    "sint b = - 9"
    unfolding Let_def example_transform_forward(1)
    using example_transform_forward(2) by (auto simp: in_int64_iff)
  from sint_eq_imp [OF *(2)] * show ?thesis by simp
qed

text \<open>
  When the scale does not compress (its numerator is at least its denominator),
  transforming a value to the other timeline and back loses at most the rounding:
  the reverse transformation succeeds and gives the value or its predecessor, unless
  it hits one of the refused edge cases.
\<close>

lemma DoReverseTransform_after_forward:
  assumes "denominator (scale lt) \<noteq> 0" "denominator (scale lt) \<le> numerator (scale lt)"
    and "DoForwardTransform lt a (Some x) = Inr (True, Some b)"
    and "sint a \<noteq> int64_min"
    and "\<not> refused b (b_zero lt) (denominator (scale lt)) (numerator (scale lt)) (a_zero lt)"
  shows "\<exists>a'. DoReverseTransform lt b (Some y) = Inr (True, Some a') \<and> sint a' \<in> {sint a - 1, sint a}"
proof -
  let ?N = "uint (numerator (scale lt))" and ?D = "uint (denominator (scale lt))"
  have D: "0 < ?D" using int_unat_pos [OF assms(1)] by simp
  have ND: "?D \<le> ?N" using assms(2) by (simp add: word_le_def)
  have N: "numerator (scale lt) \<noteq> 0" using D ND by auto
  have b: "sint b - sint (b_zero lt) = ((sint a - sint (a_zero lt)) * ?N) div ?D"
    using DoForwardTransform_spec [OF assms(1), of a x] assms(3) by (auto simp: transformed_def)
  have bk: "transformed b (b_zero lt) (denominator (scale lt)) (numerator (scale lt)) (a_zero lt)
      \<in> {sint a - 1, sint a}"
    using floor_there_and_back [OF D ND, of "sint a - sint (a_zero lt)"]
    unfolding transformed_def b by auto
  moreover have "in_int64 (sint a - 1)"
    using in_int64_sint [of a] assms(4) by (simp add: in_int64_iff int64_min_def)
  ultimately show ?thesis
    using DoReverseTransform_spec [OF N, of b y] assms(5) in_int64_sint [of a] by auto
qed

text \<open>
  \<^verbatim>\<open>Ratio::Compose\<close>, on ratios with nonzero denominators whose numerators have a
  product below \<open>2 ^ 63\<close>: it returns the product in lowest terms and reports it
  lossless exactly when the doubled numerator and the denominator fit in 32 bits;
  otherwise it returns both terms shifted right by the least amount that makes them fit.
\<close>

lemma Ratio_Compose_correct:
  assumes "denominator a \<noteq> 0" "denominator b \<noteq> 0"
    and "unat (numerator a) * unat (numerator b) < 2 ^ 63"
  shows "\<exists>ok r. Ratio_Compose a b = Inr (ok, r) \<and>
    (let N = unat (numerator a) * unat (numerator b); D = unat (denominator a) * unat (denominator b);
         n = N div gcd N D; d = D div gcd N D
     in (ok \<longleftrightarrow> 2 * n < 2 ^ 32 \<and> d < 2 ^ 32) \<and>
        (if ok then unat (numerator r) = n \<and> unat (denominator r) = d else shifted_to_fit n d r))"
proof -
  have "unat (denominator a) * unat (denominator b) \<noteq> 0"
    using assms(1,2) by (simp add: unat_gt_0)
  from Ratio_Compose_reduced [OF this assms(3)] show ?thesis unfolding Let_def .
qed

text \<open>
  The bound on the numerators is needed: \<^verbatim>\<open>Compose\<close> finds the number of leading
  zeros of the doubled numerator, and doubling drops bit 63. For 3037000500/1 composed
  with itself the code reports a lossless result, 145474192/1, although the product is
  not representable.
\<close>

lemma Ratio_Compose_loses_top_bit:
  "Ratio_Compose \<lparr>numerator = 3037000500, denominator = 1\<rparr> \<lparr>numerator = 3037000500, denominator = 1\<rparr>
     = Inr (True, \<lparr>numerator = 145474192, denominator = 1\<rparr>)"
  by code_simp

end
