(* ===== verification/Rate_Control.thy ===== *)
theory Rate_Control
  imports Linear_Transform
begin

text \<open>
  The class \<^verbatim>\<open>RateControlBase\<close> (rate_control_base.h, rate_control_base.cc): the
  transformation from the target timeline (space A) to the reference timeline
  (space B) of a media stream, with rate changes that are scheduled for a time of
  either timeline.

  The local clock is an argument \<open>now\<close> of every operation that reads it. Each operation
  that touches the transformation holds \<^verbatim>\<open>transform_lock_\<close> for its whole body. Times are
  64-bit words, as in \<^verbatim>\<open>LinearTransform\<close>.
\<close>

section \<open>State and operations\<close>

record RateControl =
  rc_bound :: bool
  rc_current :: LinearTransform
  rc_reference_pending :: "LinearTransform list"
  rc_target_pending :: "LinearTransform list"
  rc_generation :: u32

record TimelineQuad =
  reference_offset :: i64
  target_offset :: i64
  reference_delta :: u32
  target_delta :: u32

record TimelineTransform =
  tt_quad :: TimelineQuad
  tt_reference_timeline_id :: u32
  tt_target_timeline_id :: u32

definition kLocalTimeID :: u32 where
  "kLocalTimeID = 0xFFFFFFFF"

definition kContextual :: u32 where
  "kContextual = 0xFFFFFFFE"

definition AdvanceGenerationLocked :: "RateControl \<Rightarrow> RateControl" where
  "AdvanceGenerationLocked s =
     (let g = rc_generation s + 1 in s\<lparr>rc_generation := (if g = 0 then g + 1 else g)\<rparr>)"

text \<open>
  One turn of the loop of \<^verbatim>\<open>ApplyPendingChangesLocked\<close> picks the scheduled change to
  apply next, if any is due: a change scheduled for a target time, or one scheduled for
  a reference time, with the target time it falls on.
\<close>

datatype change = Target_change LinearTransform | Reference_change LinearTransform i64

definition due_target :: "i64 \<Rightarrow> RateControl \<Rightarrow> LinearTransform option" where
  "due_target target_now s = (case rc_target_pending s of
     [] \<Rightarrow> None
   | t # _ \<Rightarrow> if sint target_now \<ge> sint (a_zero t) then Some t else None)"

definition due_reference :: "i64 \<Rightarrow> RateControl \<Rightarrow> (LinearTransform \<times> i64) option res" where
  "due_reference target_now s = (case rc_reference_pending s of
     [] \<Rightarrow> Inr None
   | r # _ \<Rightarrow>
       rbind (DoReverseTransform (rc_current s) (b_zero r) (Some 0)) (\<lambda>(ok, out).
         Inr (case out of
                Some at \<Rightarrow> if ok \<and> sint target_now \<ge> sint at then Some (r, at) else None
              | None \<Rightarrow> None)))"

text \<open>How long ago a change was due, as a signed difference.\<close>

definition age :: "i64 \<Rightarrow> i64 \<Rightarrow> int res" where
  "age target_now at = s64 (sint target_now - sint at)"

definition target_ages :: "i64 \<Rightarrow> RateControl \<Rightarrow> (LinearTransform \<times> int) option res" where
  "target_ages target_now s = (case due_target target_now s of None \<Rightarrow> Inr None
     | Some t \<Rightarrow> rbind (age target_now (a_zero t)) (\<lambda>target_age. Inr (Some (t, target_age))))"

definition next_change :: "i64 \<Rightarrow> RateControl \<Rightarrow> change option res" where
  "next_change target_now s =
     rbind (target_ages target_now s) (\<lambda>target_trans.
     rbind (due_reference target_now s) (\<lambda>reference_trans.
       case reference_trans of
         None \<Rightarrow> Inr (map_option (\<lambda>(t, _). Target_change t) target_trans)
       | Some (r, at) \<Rightarrow>
           rbind (age target_now at) (\<lambda>reference_age.
             Inr (Some (case target_trans of
               None \<Rightarrow> Reference_change r at
             | Some (t, target_age) \<Rightarrow> if reference_age \<le> target_age then Target_change t else Reference_change r at)))))"

fun apply_change :: "change \<Rightarrow> RateControl \<Rightarrow> RateControl res" where
  "apply_change (Target_change t) s =
     rbind (DoForwardTransform (rc_current s) (a_zero t) (Some 0)) (\<lambda>(ok, out).
       (case out of
          Some at \<Rightarrow>
            if ok
            then dcheck (denominator (scale t) \<noteq> 0)
              (Inr (s\<lparr>rc_current := \<lparr>scale = scale t, a_zero = a_zero t, b_zero = at\<rparr>,
                      rc_target_pending := tl (rc_target_pending s)\<rparr>))
            else Inr (s\<lparr>rc_target_pending := tl (rc_target_pending s)\<rparr>)
        | None \<Rightarrow> Inr (s\<lparr>rc_target_pending := tl (rc_target_pending s)\<rparr>)))"
| "apply_change (Reference_change r at) s =
     dcheck (denominator (scale r) \<noteq> 0)
       (Inr (s\<lparr>rc_current := \<lparr>scale = scale r, a_zero = at, b_zero = a_zero r\<rparr>,
               rc_reference_pending := tl (rc_reference_pending s)\<rparr>))"

definition rc_scheduled :: "RateControl \<Rightarrow> nat" where
  "rc_scheduled s = length (rc_reference_pending s) + length (rc_target_pending s)"

lemma due_target_Some:
  "due_target now s = Some t \<longleftrightarrow> (\<exists>ts. rc_target_pending s = t # ts \<and> sint (a_zero t) \<le> sint now)"
  by (auto simp: due_target_def split: list.splits)

lemma due_reference_Some:
  assumes "due_reference now s = Inr (Some (r, at))"
  shows "\<exists>rs. rc_reference_pending s = r # rs" "sint at \<le> sint now"
    "DoReverseTransform (rc_current s) (b_zero r) (Some 0) = Inr (True, Some at)"
proof -
  from assms obtain r' rs where rs: "rc_reference_pending s = r' # rs"
    by (cases "rc_reference_pending s") (simp_all add: due_reference_def)
  with assms obtain ok out where *: "DoReverseTransform (rc_current s) (b_zero r') (Some 0) = Inr (ok, out)"
    "(case out of Some at \<Rightarrow> if ok \<and> sint now \<ge> sint at then Some (r', at) else None | None \<Rightarrow> None) = Some (r, at)"
    by (auto simp: due_reference_def rbind_eq_Inr_iff)
  with rs show "\<exists>rs. rc_reference_pending s = r # rs" "sint at \<le> sint now"
    "DoReverseTransform (rc_current s) (b_zero r) (Some 0) = Inr (True, Some at)"
    by (auto split: option.splits if_splits)
qed

lemma target_ages_Some: "target_ages now s = Inr (Some (t, a)) \<Longrightarrow> due_target now s = Some t"
  by (auto simp: target_ages_def rbind_eq_Inr_iff split: option.splits)

lemma target_ages_None: "target_ages now s = Inr None \<Longrightarrow> due_target now s = None"
  by (auto simp: target_ages_def rbind_eq_Inr_iff split: option.splits)

lemma next_change_Some:
  assumes "next_change now s = Inr (Some c)"
  shows "(\<exists>t. c = Target_change t \<and> due_target now s = Some t) \<or>
    (\<exists>r at. c = Reference_change r at \<and> due_reference now s = Inr (Some (r, at)))"
proof -
  from assms obtain tt rt where "target_ages now s = Inr tt" "due_reference now s = Inr rt" by (auto simp: next_change_def rbind_eq_Inr_iff)
  with assms show ?thesis
    by (cases tt; cases rt) (auto simp: next_change_def rbind_eq_Inr_iff dest: target_ages_Some split: if_splits)
qed

lemma apply_change_decreases:
  assumes "next_change now s = Inr (Some c)" "apply_change c s = Inr s'"
  shows "rc_scheduled s' < rc_scheduled s"
  using next_change_Some [OF assms(1)]
proof (elim disjE exE conjE)
  fix t assume "c = Target_change t" "due_target now s = Some t"
  with assms(2) show ?thesis
    by (auto simp: due_target_Some rbind_eq_Inr_iff rc_scheduled_def split: option.splits if_splits)
next
  fix r at assume c: "c = Reference_change r at" and d: "due_reference now s = Inr (Some (r, at))"
  from due_reference_Some(1) [OF d] assms(2) c show ?thesis by (auto simp: rc_scheduled_def)
qed


function apply_loop :: "i64 \<Rightarrow> bool \<Rightarrow> RateControl \<Rightarrow> (bool \<times> RateControl) res" where
  "apply_loop target_now advance_generation s =
     rbind (next_change target_now s) (\<lambda>c. case c of
         None \<Rightarrow> Inr (advance_generation, s)
       | Some c \<Rightarrow> rbind (apply_change c s) (\<lambda>s. apply_loop target_now True s))"
  by pat_completeness auto

termination apply_loop
  by (relation "measure (\<lambda>(_, _, s). rc_scheduled s)") (auto intro: apply_change_decreases)

declare apply_loop.simps [simp del]

definition ApplyPendingChangesLocked :: "i64 \<Rightarrow> RateControl \<Rightarrow> RateControl res" where
  "ApplyPendingChangesLocked target_now s =
     rbind (apply_loop target_now False s) (\<lambda>(advance_generation, s).
       Inr (if advance_generation then AdvanceGenerationLocked s else s))"

definition RateControl_new :: "RateControl res" where
  "RateControl_new = rbind (LinearTransform_make 0 0 1 0) (\<lambda>t.
     Inr \<lparr>rc_bound = False, rc_current = t, rc_reference_pending = [], rc_target_pending = [],
          rc_generation = 1\<rparr>)"

definition CancelPendingChanges :: "RateControl \<Rightarrow> RateControl" where
  "CancelPendingChanges s = s\<lparr>rc_reference_pending := [], rc_target_pending := []\<rparr>"

definition SetRate_locked :: "i64 \<Rightarrow> u32 \<Rightarrow> u32 \<Rightarrow> RateControl \<Rightarrow> RateControl res" where
  "SetRate_locked now rdelta tdelta s =
     rbind (ApplyPendingChangesLocked now s) (\<lambda>s.
       dcheck (denominator (scale (rc_current s)) \<noteq> 0)
         (rbind (DoForwardTransform (rc_current s) now (Some 0)) (\<lambda>(ok, out).
            case out of
              None \<Rightarrow> Inr s
            | Some reference_now \<Rightarrow>
                if \<not> ok then Inr s
                else Inr (AdvanceGenerationLocked
                  (s\<lparr>rc_current := \<lparr>scale = \<lparr>numerator = rdelta, denominator = tdelta\<rparr>,
                                    a_zero = now, b_zero = reference_now\<rparr>\<rparr>)))))"

definition RateControl_Reset :: "i64 \<Rightarrow> RateControl \<Rightarrow> RateControl res" where
  "RateControl_Reset now s =
     rbind (SetRate_locked now 0 1 (CancelPendingChanges s)) (\<lambda>s. Inr (s\<lparr>rc_bound := False\<rparr>))"

definition OnIllegalRateChange :: "i64 \<Rightarrow> RateControl \<Rightarrow> RateControl res" where
  "OnIllegalRateChange now s = RateControl_Reset now s"

definition SetRate :: "i64 \<Rightarrow> u32 \<Rightarrow> u32 \<Rightarrow> RateControl \<Rightarrow> RateControl res" where
  "SetRate now rdelta tdelta s =
     (if tdelta = 0 then OnIllegalRateChange now s else SetRate_locked now rdelta tdelta s)"

definition Bind :: "i64 \<Rightarrow> RateControl \<Rightarrow> RateControl res" where
  "Bind now s = rbind (RateControl_Reset now s) (\<lambda>s. Inr (s\<lparr>rc_bound := True\<rparr>))"

definition SnapshotCurrentTransform :: "i64 \<Rightarrow> RateControl \<Rightarrow> (LinearTransform \<times> u32 \<times> RateControl) res" where
  "SnapshotCurrentTransform now s =
     rbind (ApplyPendingChangesLocked now s) (\<lambda>s. Inr (rc_current s, rc_generation s, s))"

definition GetCurrentTransform :: "i64 \<Rightarrow> RateControl \<Rightarrow> (TimelineTransform \<times> RateControl) res" where
  "GetCurrentTransform now s =
     rbind (SnapshotCurrentTransform now s) (\<lambda>(trans, _, s).
       Inr (\<lparr>tt_quad = \<lparr>reference_offset = b_zero trans, target_offset = a_zero trans,
                        reference_delta = numerator (scale trans),
                        target_delta = denominator (scale trans)\<rparr>,
             tt_reference_timeline_id = kContextual, tt_target_timeline_id = kLocalTimeID\<rparr>, s))"

definition SetTargetTimelineID :: "i64 \<Rightarrow> u32 \<Rightarrow> RateControl \<Rightarrow> RateControl res" where
  "SetTargetTimelineID now timeline_id s = (if timeline_id \<noteq> kLocalTimeID then RateControl_Reset now s else Inr s)"

definition SetCurrentQuad :: "i64 \<Rightarrow> TimelineQuad \<Rightarrow> RateControl \<Rightarrow> RateControl res" where
  "SetCurrentQuad now quad s =
     (if target_delta quad = 0 then OnIllegalRateChange now s
      else rbind (if reference_delta quad \<noteq> 0
                  then Ratio_make (reference_delta quad) (target_delta quad)
                  else Inr \<lparr>numerator = 0, denominator = 1\<rparr>) (\<lambda>sc.
             Inr (AdvanceGenerationLocked
               ((CancelPendingChanges s)\<lparr>rc_current :=
                  \<lparr>scale = sc, a_zero = target_offset quad, b_zero = reference_offset quad\<rparr>\<rparr>))))"

definition SetRateAtReferenceTime :: "i64 \<Rightarrow> u32 \<Rightarrow> u32 \<Rightarrow> i64 \<Rightarrow> RateControl \<Rightarrow> RateControl res" where
  "SetRateAtReferenceTime now rdelta tdelta reference_time s =
     (if tdelta = 0 then OnIllegalRateChange now s
      else if rc_reference_pending s \<noteq> [] \<and>
              sint (b_zero (last (rc_reference_pending s))) \<ge> sint reference_time then Inr s
      else rbind (LinearTransform_make 0 rdelta tdelta reference_time) (\<lambda>t.
             Inr (s\<lparr>rc_reference_pending := rc_reference_pending s @ [t]\<rparr>)))"

definition SetRateAtTargetTime :: "i64 \<Rightarrow> u32 \<Rightarrow> u32 \<Rightarrow> i64 \<Rightarrow> RateControl \<Rightarrow> RateControl res" where
  "SetRateAtTargetTime now rdelta tdelta target_time s =
     (if tdelta = 0 then OnIllegalRateChange now s
      else if rc_target_pending s \<noteq> [] \<and>
              sint (a_zero (last (rc_target_pending s))) \<ge> sint target_time then Inr s
      else rbind (LinearTransform_make target_time rdelta tdelta 0) (\<lambda>t.
             Inr (s\<lparr>rc_target_pending := rc_target_pending s @ [t]\<rparr>)))"

section \<open>The invariant\<close>

definition nonsingular :: "LinearTransform \<Rightarrow> bool" where
  "nonsingular t \<longleftrightarrow> denominator (scale t) \<noteq> 0"

definition rc_inv :: "RateControl \<Rightarrow> bool" where
  "rc_inv s \<longleftrightarrow> nonsingular (rc_current s) \<and> rc_generation s \<noteq> 0 \<and>
     (\<forall>t \<in> set (rc_reference_pending s @ rc_target_pending s). nonsingular t) \<and>
     sorted_wrt (<) (map (\<lambda>t. sint (b_zero t)) (rc_reference_pending s)) \<and>
     sorted_wrt (<) (map (\<lambda>t. sint (a_zero t)) (rc_target_pending s))"

lemma rc_inv_tl:
  assumes "rc_inv s"
  shows "rc_inv (s\<lparr>rc_reference_pending := tl (rc_reference_pending s)\<rparr>)"
    "rc_inv (s\<lparr>rc_target_pending := tl (rc_target_pending s)\<rparr>)"
  using assms by (cases "rc_reference_pending s"; cases "rc_target_pending s"; force simp: rc_inv_def)+

lemma rc_inv_current: "rc_inv s \<Longrightarrow> nonsingular t \<Longrightarrow> rc_inv (s\<lparr>rc_current := t\<rparr>)"
  by (simp add: rc_inv_def)

lemma AdvanceGenerationLocked_inv: "rc_inv s \<Longrightarrow> rc_inv (AdvanceGenerationLocked s)"
  by (auto simp: rc_inv_def AdvanceGenerationLocked_def Let_def)

lemma AdvanceGenerationLocked_frame [simp]:
  "rc_current (AdvanceGenerationLocked s) = rc_current s"
  "rc_target_pending (AdvanceGenerationLocked s) = rc_target_pending s"
  "rc_reference_pending (AdvanceGenerationLocked s) = rc_reference_pending s"
  "rc_bound (AdvanceGenerationLocked s) = rc_bound s"
  by (simp_all add: AdvanceGenerationLocked_def Let_def)

lemma Forward_total:
  assumes "nonsingular t"
  obtains ok b where "DoForwardTransform t a (Some x) = Inr (ok, Some b)"
  using DoForwardTransform_spec [of t a x] assms by (auto simp: nonsingular_def)

lemma Reverse_total:
  obtains ok b where "DoReverseTransform t a (Some x) = Inr (ok, Some b)"
  using DoReverseTransform_spec [of t a x] by (cases "numerator (scale t) = 0") (auto simp: DoReverseTransform_def)


text \<open>
  A computation gives a value with some property or, unless \<open>lim\<close>, fails because a signed subtraction overflows.
\<close>

definition ends :: "bool \<Rightarrow> ('a \<Rightarrow> bool) \<Rightarrow> 'a res \<Rightarrow> bool" where
  "ends lim Q r = (case r of Inl e \<Rightarrow> \<not> lim \<and> e = Signed_overflow | Inr x \<Rightarrow> Q x)"

lemma ends_Inr [simp]: "ends lim Q (Inr x) = Q x"
  by (simp add: ends_def)

lemma ends_rbind: "ends lim P m \<Longrightarrow> (\<And>x. m = Inr x \<Longrightarrow> P x \<Longrightarrow> ends lim Q (k x)) \<Longrightarrow> ends lim Q (rbind m k)"
  by (auto simp: ends_def split: sum.splits)

lemma ends_mono: "ends lim P m \<Longrightarrow> (\<And>x. m = Inr x \<Longrightarrow> P x \<Longrightarrow> Q x) \<Longrightarrow> ends lim Q m"
  by (auto simp: ends_def split: sum.splits)

text \<open>The states in which no difference of times overflows: there is nothing scheduled but for target times that are not negative.\<close>

definition rc_fine :: "bool \<Rightarrow> RateControl \<Rightarrow> bool" where
  "rc_fine lim s \<longleftrightarrow> rc_inv s \<and> (lim \<longrightarrow> rc_reference_pending s = [] \<and> (\<forall>t \<in> set (rc_target_pending s). 0 \<le> sint (a_zero t)))"

lemma age_ends: "(lim \<Longrightarrow> 0 \<le> sint at \<and> 0 \<le> sint now) \<Longrightarrow> ends lim (\<lambda>_. True) (age now at)"
  using sint_lt [of now] sint_lt [of at] by (auto simp: age_def s64_def ends_def in_int64_iff)

lemma next_change_ends:
  assumes "rc_fine lim s" "lim \<longrightarrow> 0 \<le> sint now"
  shows "ends lim (\<lambda>_. True) (next_change now s)"
proof -
  have t: "ends lim (\<lambda>_. True) (target_ages now s)"
  proof (cases "due_target now s")
    case (Some t)
    have "ends lim (\<lambda>_. True) (age now (a_zero t))" by (rule age_ends) (use Some assms in \<open>auto simp: due_target_Some rc_fine_def\<close>)
    then show ?thesis by (auto simp: target_ages_def Some intro: ends_rbind)
  qed (simp add: target_ages_def)
  have r: "ends lim (\<lambda>x. lim \<longrightarrow> x = None) (due_reference now s)"
  proof (cases "rc_reference_pending s")
    case (Cons r rs)
    obtain ok b where "DoReverseTransform (rc_current s) (b_zero r) (Some 0) = Inr (ok, Some b)" using Reverse_total .
    with Cons assms(1) show ?thesis by (simp add: due_reference_def rc_fine_def)
  qed (simp add: due_reference_def)
  show ?thesis unfolding next_change_def
  proof (rule ends_rbind [OF t], rule ends_rbind [OF r])
    fix tt and rt :: "(LinearTransform \<times> i64) option" assume "lim \<longrightarrow> rt = None"
    then show "ends lim (\<lambda>_. True) (case rt of None \<Rightarrow> Inr (map_option (\<lambda>(t, _). Target_change t) tt)
       | Some (r, at) \<Rightarrow> rbind (age now at) (\<lambda>reference_age. Inr (Some (case tt of None \<Rightarrow> Reference_change r at
             | Some (t, target_age) \<Rightarrow> if reference_age \<le> target_age then Target_change t else Reference_change r at))))"
      by (auto split: option.split intro!: ends_rbind [OF age_ends])
  qed
qed

lemma next_change_None:
  assumes "next_change now s = Inr None"
  shows "due_target now s = None" "due_reference now s = Inr None"
proof -
  from assms obtain tt rt where x: "target_ages now s = Inr tt" "due_reference now s = Inr rt" by (auto simp: next_change_def rbind_eq_Inr_iff)
  with assms have "tt = None" "rt = None" by (cases tt; cases rt; auto simp: next_change_def rbind_eq_Inr_iff)+
  with x target_ages_None show "due_target now s = None" "due_reference now s = Inr None" by simp_all
qed

lemma apply_change_inv:
  assumes "rc_inv s" "next_change now s = Inr (Some c)"
  obtains s' where "apply_change c s = Inr s'" "rc_inv s'" "rc_bound s' = rc_bound s"
    "rc_generation s' = rc_generation s"
  using next_change_Some [OF assms(2)]
proof (elim disjE exE conjE)
  fix t assume c: "c = Target_change t" and "due_target now s = Some t"
  then obtain ts where t: "rc_target_pending s = t # ts" by (auto simp: due_target_Some)
  have ns: "nonsingular t" "nonsingular (rc_current s)" using assms(1) t by (simp_all add: rc_inv_def)
  obtain ok b where fwd: "DoForwardTransform (rc_current s) (a_zero t) (Some 0) = Inr (ok, Some b)"
    using Forward_total [OF ns(2)] .
  let ?s = "s\<lparr>rc_current := \<lparr>scale = scale t, a_zero = a_zero t, b_zero = b\<rparr>\<rparr>"
  have "rc_inv ?s" using ns by (intro rc_inv_current [OF assms(1)]) (simp add: nonsingular_def)
  from rc_inv_tl(2) [OF this] rc_inv_tl(2) [OF assms(1)] fwd c ns(1) that show thesis
    by (cases ok) (simp_all add: nonsingular_def)
next
  fix r at assume c: "c = Reference_change r at" and d: "due_reference now s = Inr (Some (r, at))"
  from due_reference_Some(1) [OF d] have ns: "nonsingular r" using assms(1) by (auto simp: rc_inv_def)
  let ?s = "s\<lparr>rc_current := \<lparr>scale = scale r, a_zero = at, b_zero = a_zero r\<rparr>\<rparr>"
  have "rc_inv ?s" using ns by (intro rc_inv_current [OF assms(1)]) (simp add: nonsingular_def)
  from rc_inv_tl(1) [OF this] ns c that show thesis by (simp add: nonsingular_def)
qed

lemma apply_change_fine:
  assumes "rc_fine lim s" "next_change now s = Inr (Some c)"
  obtains s' where "apply_change c s = Inr s'" "rc_fine lim s'" "rc_bound s' = rc_bound s" "rc_generation s' = rc_generation s"
proof -
  have inv: "rc_inv s" using assms(1) by (simp add: rc_fine_def)
  obtain s' where s': "apply_change c s = Inr s'" "rc_inv s'" "rc_bound s' = rc_bound s" "rc_generation s' = rc_generation s"
    using apply_change_inv [OF inv assms(2)] .
  have "set (rc_reference_pending s') \<subseteq> set (rc_reference_pending s)" "set (rc_target_pending s') \<subseteq> set (rc_target_pending s)"
    using s'(1) list.set_sel(2) [of "rc_target_pending s"] list.set_sel(2) [of "rc_reference_pending s"]
    by (cases c; cases "rc_target_pending s"; cases "rc_reference_pending s";
      auto simp: rbind_eq_Inr_iff dcheck_def split: if_splits option.splits)+
  then have "rc_fine lim s'" using s'(2) assms(1) by (auto simp: rc_fine_def)
  with s' show thesis by (intro that)
qed

lemma apply_loop_ends:
  "rc_fine lim s \<Longrightarrow> lim \<longrightarrow> 0 \<le> sint now \<Longrightarrow>
   ends lim (\<lambda>(adv', s'). rc_fine lim s' \<and> rc_bound s' = rc_bound s \<and> rc_generation s' = rc_generation s \<and>
     next_change now s' = Inr None \<and> (adv' \<longleftrightarrow> adv \<or> next_change now s \<noteq> Inr None)) (apply_loop now adv s)"
proof (induction now adv s rule: apply_loop.induct)
  case (1 now adv s)
  show ?case
  proof (cases "next_change now s")
    case (Inl e)
    with next_change_ends [OF 1(2,3)] show ?thesis by (subst apply_loop.simps) (simp add: ends_def)
  next
    case (Inr c)
    show ?thesis
    proof (cases c)
      case None
      with Inr 1(2) show ?thesis by (subst apply_loop.simps) simp
    next
      case (Some d)
      with Inr have d: "next_change now s = Inr (Some d)" by simp
      obtain s' where s': "apply_change d s = Inr s'" "rc_fine lim s'" "rc_bound s' = rc_bound s"
          "rc_generation s' = rc_generation s"
        using apply_change_fine [OF 1(2) d] .
      have "apply_loop now adv s = apply_loop now True s'"
        by (subst apply_loop.simps) (simp add: d s')
      with ends_mono [OF 1(1) [OF d refl s'(1) s'(2) 1(3)]] s'(3,4) d show ?thesis by auto
    qed
  qed
qed

lemma AdvanceGenerationLocked_fine: "rc_fine lim s \<Longrightarrow> rc_fine lim (AdvanceGenerationLocked s)"
  by (simp add: rc_fine_def AdvanceGenerationLocked_inv)

lemma ApplyPendingChangesLocked_ends:
  assumes "rc_fine lim s" "lim \<longrightarrow> 0 \<le> sint now"
  shows "ends lim (\<lambda>s'. rc_fine lim s' \<and> rc_bound s' = rc_bound s \<and> next_change now s' = Inr None \<and>
    (rc_generation s' \<noteq> rc_generation s \<longleftrightarrow> next_change now s \<noteq> Inr None)) (ApplyPendingChangesLocked now s)"
  unfolding ApplyPendingChangesLocked_def
proof (rule ends_rbind [OF apply_loop_ends [OF assms, of False]])
  fix r assume r: "case r of (adv, s1) \<Rightarrow> rc_fine lim s1 \<and> rc_bound s1 = rc_bound s \<and> rc_generation s1 = rc_generation s \<and>
    next_change now s1 = Inr None \<and> (adv \<longleftrightarrow> False \<or> next_change now s \<noteq> Inr None)"
  obtain adv s1 where x: "r = (adv, s1)" by (cases r)
  have gen: "rc_generation (AdvanceGenerationLocked s1) \<noteq> rc_generation s1"
    by (auto simp: AdvanceGenerationLocked_def Let_def add_eq_0_iff)
  have nc: "next_change now (AdvanceGenerationLocked s1) = next_change now s1"
    unfolding next_change_def target_ages_def due_reference_def due_target_def AdvanceGenerationLocked_frame ..
  show "ends lim (\<lambda>s'. rc_fine lim s' \<and> rc_bound s' = rc_bound s \<and> next_change now s' = Inr None \<and>
    (rc_generation s' \<noteq> rc_generation s \<longleftrightarrow> next_change now s \<noteq> Inr None)) (case r of (advance_generation, s) \<Rightarrow> Inr (if advance_generation then AdvanceGenerationLocked s else s))"
    using r gen nc by (cases adv) (simp_all add: x AdvanceGenerationLocked_fine)
qed












section \<open>Runs\<close>

datatype rc_op =
    Op_Bind
  | Op_Reset
  | Op_GetCurrentTransform
  | Op_SetTargetTimelineID u32
  | Op_SetCurrentQuad TimelineQuad
  | Op_SetRate u32 u32
  | Op_SetRateAtReferenceTime u32 u32 i64
  | Op_SetRateAtTargetTime u32 u32 i64
  | Op_CancelPendingChanges

fun rc_perform :: "i64 \<Rightarrow> rc_op \<Rightarrow> RateControl \<Rightarrow> RateControl res" where
  "rc_perform now Op_Bind s = Bind now s"
| "rc_perform now Op_Reset s = RateControl_Reset now s"
| "rc_perform now Op_GetCurrentTransform s = rbind (GetCurrentTransform now s) (\<lambda>(_, s). Inr s)"
| "rc_perform now (Op_SetTargetTimelineID i) s = SetTargetTimelineID now i s"
| "rc_perform now (Op_SetCurrentQuad q) s = SetCurrentQuad now q s"
| "rc_perform now (Op_SetRate rd td) s = SetRate now rd td s"
| "rc_perform now (Op_SetRateAtReferenceTime rd td t) s = SetRateAtReferenceTime now rd td t s"
| "rc_perform now (Op_SetRateAtTargetTime rd td t) s = SetRateAtTargetTime now rd td t s"
| "rc_perform now Op_CancelPendingChanges s = Inr (CancelPendingChanges s)"

fun rc_run :: "(i64 \<times> rc_op) list \<Rightarrow> RateControl \<Rightarrow> RateControl res" where
  "rc_run [] s = Inr s"
| "rc_run ((now, op) # ops) s = rbind (rc_perform now op s) (rc_run ops)"





section \<open>Properties\<close>



text \<open>
  A client can make it overflow: a change scheduled for the least target time is due at once, and its age cannot be represented.
\<close>

lemma age_overflows:
  "rbind RateControl_new (rc_run [(5, Op_SetRateAtTargetTime 1 1 0x8000000000000000), (5, Op_GetCurrentTransform)]) = Inl Signed_overflow"
  by code_simp

text \<open>
  Applying the pending changes applies exactly those that are due: afterwards every
  change scheduled for a target time lies in the future, no change scheduled for a
  reference time is due, and the generation has moved if and only if a change was due.
\<close>

lemma ApplyPendingChangesLocked_complete:
  assumes "rc_inv s" "ApplyPendingChangesLocked now s = Inr s'"
  shows "(\<forall>t \<in> set (rc_target_pending s'). sint now < sint (a_zero t)) \<and>
    due_reference now s' = Inr None \<and>
    (rc_generation s' \<noteq> rc_generation s \<longleftrightarrow> next_change now s \<noteq> Inr None)"
proof -
  have "rc_fine False s" using assms(1) by (simp add: rc_fine_def)
  from ApplyPendingChangesLocked_ends [OF this, of now] assms(2)
  have s': "rc_inv s'" "next_change now s' = Inr None" "rc_generation s' \<noteq> rc_generation s \<longleftrightarrow> next_change now s \<noteq> Inr None"
    by (simp_all add: rc_fine_def)
  note none = next_change_None [OF s'(2)]
  have "sint now < sint (a_zero t)" if "t \<in> set (rc_target_pending s')" for t
    using none(1) s'(1) that by (cases "rc_target_pending s'") (auto simp: due_target_def rc_inv_def split: if_splits)
  with s' none(2) show ?thesis by blast
qed

text \<open>A stream at rate 1/1 from time 0, with two rate changes scheduled.\<close>

definition rc_example :: "rc_op list \<Rightarrow> RateControl res" where
  "rc_example ops = rbind RateControl_new (rc_run (map (Pair 0)
     (Op_SetCurrentQuad \<lparr>reference_offset = 0, target_offset = 0, reference_delta = 1, target_delta = 1\<rparr> # ops)))"

lemma Forward_at_zero:
  assumes "nonsingular t"
  shows "DoForwardTransform t (a_zero t) (Some x) = Inr (True, Some (b_zero t))"
proof -
  have "transformed (a_zero t) (a_zero t) n d (b_zero t) = sint (b_zero t)"
    "\<not> refused (a_zero t) (a_zero t) n d (b_zero t)" for n d
    by (simp_all add: transformed_def refused_def)
  then obtain b where "DoForwardTransform t (a_zero t) (Some x) = Inr (True, Some b)" "sint b = sint (b_zero t)"
    using DoForwardTransform_spec [of t "a_zero t" x] assms by (auto simp: nonsingular_def)
  then show ?thesis using sint_eq_imp by fastforce
qed

text \<open>
  A rate change does not make the reference timeline jump: after \<^verbatim>\<open>SetRate\<close> the
  transformation takes the present target time to the reference time it was taken to
  before, with the new rate from there on.
\<close>

lemma SetRate_continuous:
  assumes "td \<noteq> 0" "ApplyPendingChangesLocked now s = Inr s1" "nonsingular (rc_current s1)"
    and "DoForwardTransform (rc_current s1) now (Some 0) = Inr (True, Some v)"
  shows "\<exists>s'. SetRate now rd td s = Inr s' \<and> scale (rc_current s') = \<lparr>numerator = rd, denominator = td\<rparr> \<and>
    DoForwardTransform (rc_current s') now (Some x) = Inr (True, Some v)"
proof -
  let ?t = "\<lparr>scale = \<lparr>numerator = rd, denominator = td\<rparr>, a_zero = now, b_zero = v\<rparr> :: LinearTransform"
  have "SetRate now rd td s = Inr (AdvanceGenerationLocked (s1\<lparr>rc_current := ?t\<rparr>))"
    using assms by (simp add: SetRate_def SetRate_locked_def nonsingular_def)
  moreover have "DoForwardTransform ?t now (Some x) = Inr (True, Some v)"
    using Forward_at_zero [of ?t x] assms(1) by (simp add: nonsingular_def)
  ultimately show ?thesis by simp
qed

definition rc_steady :: RateControl where
  "rc_steady = \<lparr>rc_bound = True,
     rc_current = \<lparr>scale = \<lparr>numerator = 1, denominator = 1\<rparr>, a_zero = 0, b_zero = 0\<rparr>,
     rc_reference_pending = [], rc_target_pending = [], rc_generation = 1\<rparr>"

text \<open>
  A change that is scheduled for a reference time does make the timeline jump: when
  it is applied, the code takes the target-time zero of the scheduled change, which is
  always 0, for the reference time of the splice point. A stream at rate 1/1 with a
  change to 2/1 at reference time 100 is back at reference time 0 at target time 100.
\<close>

lemma reference_change_jumps:
  "rbind (rc_example [Op_SetRateAtReferenceTime 2 1 100]) (ApplyPendingChangesLocked 150) =
     Inr \<lparr>rc_bound = False,
       rc_current = \<lparr>scale = \<lparr>numerator = 2, denominator = 1\<rparr>, a_zero = 100, b_zero = 0\<rparr>,
       rc_reference_pending = [], rc_target_pending = [], rc_generation = 3\<rparr>"
  by code_simp

end
