(* ===== verification/Media_Transport.thy ===== *)
theory Media_Transport
  imports Media_Prelude
begin

text \<open>
  The data types of the media interfaces that the components exchange
  (media_common.mojom, media_transport.mojom): result codes, packets and the regions
  of the shared buffer that hold their payload.
\<close>

datatype MediaResult =
    OK
  | UNKNOWN_ERROR
  | INTERNAL_ERROR
  | NOT_IMPLEMENTED
  | UNSUPPORTED_OPERATION
  | UNSUPPORTED_CONFIG
  | INVALID_ARGUMENT
  | INSUFFICIENT_RESOURCES
  | BAD_STATE
  | BUF_OVERFLOW
  | FLUSHED
  | BUSY
  | PROTOCOL_ERROR
  | ALREADY_EXISTS
  | NOT_FOUND
  | SHUTTING_DOWN
  | CONNECTION_LOST

datatype SendResult = SR_CONSUMED | SR_FLUSHED

record MediaPacketRegion =
  rgn_offset :: u64
  rgn_length :: u64

text \<open>An absent \<^verbatim>\<open>extra_payload\<close> array is \<open>None\<close>.\<close>

record MediaPacket =
  pkt_pts :: int
  pkt_end_of_stream :: bool
  pkt_payload :: "MediaPacketRegion option"
  pkt_extra_payload :: "MediaPacketRegion list option"

definition kNoTimestamp :: int where
  "kNoTimestamp = int64_max"

definition kMaxBufferLen :: u64 where
  "kMaxBufferLen = 0x3FFFFFFFFFFFFFFF"

definition MediaPacket_New :: MediaPacket where
  "MediaPacket_New = \<lparr>pkt_pts = kNoTimestamp, pkt_end_of_stream = False, pkt_payload = None,
     pkt_extra_payload = None\<rparr>"

end
