(* ===== verification/Fifo_Allocator.thy ===== *)
theory Fifo_Allocator
  imports Media_Prelude
begin

text \<open>
  The class \<^verbatim>\<open>FifoAllocator\<close> (fifo_allocator.h, fifo_allocator.cc): the
  bookkeeping of a buffer that is cut into regions. The regions are the nodes of
  an intrusive doubly linked list, so the model keeps an explicit store from
  addresses to nodes and every operation follows and rewrites the links the way
  the code does. A node that \<^verbatim>\<open>new\<close> returns has an address that was never in use.
\<close>

section \<open>The store\<close>

type_synonym ptr = "nat option"

record Region =
  rg_allocated :: bool
  rg_size :: u64
  rg_offset :: u64
  rg_prev :: ptr
  rg_next :: ptr

record FifoAllocator =
  fa_size :: u64
  fa_front :: ptr
  fa_back :: ptr
  fa_free :: ptr
  fa_active :: ptr
  fa_heap :: "nat \<rightharpoonup> Region"
  fa_brk :: nat

definition kNullOffset :: u64 where
  "kNullOffset = 0xffffffffffffffff"

definition deref :: "FifoAllocator \<Rightarrow> ptr \<Rightarrow> Region res" where
  "deref s p =
     (case p of None \<Rightarrow> Inl Null_deref
      | Some a \<Rightarrow> (case fa_heap s a of None \<Rightarrow> Inl Null_deref | Some r \<Rightarrow> Inr r))"

definition store :: "ptr \<Rightarrow> (Region \<Rightarrow> Region) \<Rightarrow> FifoAllocator \<Rightarrow> FifoAllocator res" where
  "store p f s =
     (case p of None \<Rightarrow> Inl Null_deref
      | Some a \<Rightarrow> (case fa_heap s a of None \<Rightarrow> Inl Null_deref
          | Some r \<Rightarrow> Inr (s\<lparr>fa_heap := (fa_heap s)(a \<mapsto> f r)\<rparr>)))"

section \<open>List primitives\<close>

definition get_free :: "bool \<Rightarrow> u64 \<Rightarrow> u64 \<Rightarrow> FifoAllocator \<Rightarrow> (ptr \<times> FifoAllocator) res" where
  "get_free allocated sz offset s =
     dcheck (sz \<le> fa_size s) (dcheck (offset \<le> fa_size s - sz)
       (rbind
         (case fa_free s of
            None \<Rightarrow> Inr (Some (fa_brk s),
              s\<lparr>fa_heap := (fa_heap s)(fa_brk s \<mapsto>
                  \<lparr>rg_allocated = False, rg_size = 0, rg_offset = 0, rg_prev = None, rg_next = None\<rparr>),
                fa_brk := Suc (fa_brk s)\<rparr>)
          | Some a \<Rightarrow> rbind (deref s (Some a)) (\<lambda>r. Inr (Some a, s\<lparr>fa_free := rg_next r\<rparr>)))
         (\<lambda>(result, s).
            rbind (store result (\<lambda>r. r\<lparr>rg_allocated := allocated, rg_size := sz, rg_offset := offset\<rparr>) s)
              (\<lambda>s. Inr (result, s)))))"

definition put_free :: "ptr \<Rightarrow> FifoAllocator \<Rightarrow> FifoAllocator res" where
  "put_free region s =
     rbind (store region (\<lambda>r. r\<lparr>rg_next := fa_free s\<rparr>) s) (\<lambda>s. Inr (s\<lparr>fa_free := region\<rparr>))"

text \<open>The two halves of \<^verbatim>\<open>remove\<close>: the link from the left, then the link from the right.\<close>

definition unlink_prev :: "ptr \<Rightarrow> FifoAllocator \<Rightarrow> FifoAllocator res" where
  "unlink_prev region s =
     rbind (deref s region) (\<lambda>r.
       if fa_front s = region
       then dcheck (rg_prev r = None) (Inr (s\<lparr>fa_front := rg_next r\<rparr>))
       else dcheck (rg_prev r \<noteq> None)
         (rbind (deref s (rg_prev r)) (\<lambda>p.
            dcheck (rg_next p = region)
              (store (rg_prev r) (\<lambda>x. x\<lparr>rg_next := rg_next r\<rparr>) s))))"

definition unlink_next :: "ptr \<Rightarrow> FifoAllocator \<Rightarrow> FifoAllocator res" where
  "unlink_next region s =
     rbind (deref s region) (\<lambda>r.
       if fa_back s = region
       then dcheck (rg_next r = None) (Inr (s\<lparr>fa_back := rg_prev r\<rparr>))
       else dcheck (rg_next r \<noteq> None)
         (rbind (deref s (rg_next r)) (\<lambda>n.
            dcheck (rg_prev n = region)
              (store (rg_next r) (\<lambda>x. x\<lparr>rg_prev := rg_prev r\<rparr>) s))))"

definition remove :: "ptr \<Rightarrow> FifoAllocator \<Rightarrow> FifoAllocator res" where
  "remove region s =
     dcheck (region \<noteq> None) (rbind (unlink_prev region s) (unlink_next region))"

definition insert_before :: "ptr \<Rightarrow> ptr \<Rightarrow> FifoAllocator \<Rightarrow> FifoAllocator res" where
  "insert_before region before_this s =
     dcheck (region \<noteq> None) (dcheck (before_this \<noteq> None)
       (rbind (deref s before_this) (\<lambda>b.
        rbind (store region (\<lambda>r. r\<lparr>rg_prev := rg_prev b\<rparr>) s) (\<lambda>s.
        rbind (store before_this (\<lambda>b. b\<lparr>rg_prev := region\<rparr>) s) (\<lambda>s.
        rbind (store region (\<lambda>r. r\<lparr>rg_next := before_this\<rparr>) s) (\<lambda>s.
        rbind (deref s region) (\<lambda>r.
          if fa_front s = before_this
          then dcheck (rg_prev r = None) (Inr (s\<lparr>fa_front := region\<rparr>))
          else dcheck (rg_prev r \<noteq> None) (store (rg_prev r) (\<lambda>p. p\<lparr>rg_next := region\<rparr>) s))))))))"

partial_function (option) delete_loop :: "ptr \<Rightarrow> (nat \<rightharpoonup> Region) \<Rightarrow> (nat \<rightharpoonup> Region) res option" where
  "delete_loop region h =
     (case region of None \<Rightarrow> Some (Inr h)
      | Some a \<Rightarrow> (case h a of None \<Rightarrow> Some (Inl Null_deref)
          | Some r \<Rightarrow> delete_loop (rg_next r) (h(a := None))))"

definition DeleteFrontToBack :: "ptr \<Rightarrow> FifoAllocator \<Rightarrow> FifoAllocator res" where
  "DeleteFrontToBack region s =
     rbind (of_loop (delete_loop region (fa_heap s))) (\<lambda>r. rbind r (\<lambda>h. Inr (s\<lparr>fa_heap := h\<rparr>)))"

section \<open>Construction\<close>

definition Reset :: "u64 \<Rightarrow> FifoAllocator \<Rightarrow> FifoAllocator res" where
  "Reset sz s =
     dcheck (sz < kNullOffset)
       (rbind (DeleteFrontToBack (fa_front s) s) (\<lambda>s.
        rbind (DeleteFrontToBack (fa_free s) s) (\<lambda>s.
        rbind (get_free False sz 0 (s\<lparr>fa_size := sz, fa_free := None\<rparr>)) (\<lambda>(p, s).
        rbind (store p (\<lambda>r. r\<lparr>rg_prev := None\<rparr>) (s\<lparr>fa_front := p, fa_back := p, fa_active := p\<rparr>)) (\<lambda>s.
          store p (\<lambda>r. r\<lparr>rg_next := None\<rparr>) s)))))"

text \<open>
  The constructor sets \<^verbatim>\<open>front_\<close> and \<^verbatim>\<open>free_\<close> and leaves the other members to
  \<^verbatim>\<open>Reset\<close>, whatever they hold (\<open>junk\<close>).
\<close>

definition FifoAllocator_new :: "u64 \<Rightarrow> FifoAllocator \<Rightarrow> FifoAllocator res" where
  "FifoAllocator_new sz junk =
     Reset sz (junk\<lparr>fa_front := None, fa_free := None, fa_heap := Map.empty\<rparr>)"

definition FifoAllocator_delete :: "FifoAllocator \<Rightarrow> FifoAllocator res" where
  "FifoAllocator_delete s =
     rbind (DeleteFrontToBack (fa_front s) s) (\<lambda>s. DeleteFrontToBack (fa_free s) s)"

section \<open>Allocation\<close>

text \<open>
  The search loops of \<^verbatim>\<open>AdvanceActive\<close> and \<^verbatim>\<open>Release\<close>: follow the next
  pointers from \<open>region\<close> to \<open>last_excl\<close> for the first node that satisfies \<open>P\<close>.
\<close>

partial_function (option) find_region ::
    "FifoAllocator \<Rightarrow> (Region \<Rightarrow> bool) \<Rightarrow> ptr \<Rightarrow> ptr \<Rightarrow> ptr res option" where
  "find_region s P region last_excl =
     (if region = last_excl then Some (Inr None)
      else (case deref s region of Inl e \<Rightarrow> Some (Inl e)
        | Inr r \<Rightarrow> if P r then Some (Inr region) else find_region s P (rg_next r) last_excl))"

text \<open>What \<^verbatim>\<open>AdvanceActive\<close> does with the region it found.\<close>

definition activate :: "ptr \<Rightarrow> FifoAllocator \<Rightarrow> (bool \<times> FifoAllocator) res" where
  "activate region s =
     rbind (deref s (fa_active s)) (\<lambda>a.
       rbind (if rg_size a = 0
              then dcheck (\<not> rg_allocated a)
                (rbind (remove (fa_active s) s) (\<lambda>s. put_free (fa_active s) s))
              else Inr s)
         (\<lambda>s. Inr (True, s\<lparr>fa_active := region\<rparr>)))"

definition AdvanceActive_in :: "u64 \<Rightarrow> ptr \<Rightarrow> ptr \<Rightarrow> FifoAllocator \<Rightarrow> (bool \<times> FifoAllocator) res" where
  "AdvanceActive_in sz begin_p end_p s =
     rbind (of_loop (find_region s (\<lambda>r. \<not> rg_allocated r \<and> rg_size r \<ge> sz) begin_p end_p)) (\<lambda>f.
     rbind f (\<lambda>region. if region = None then Inr (False, s) else activate region s))"

definition AdvanceActive :: "u64 \<Rightarrow> FifoAllocator \<Rightarrow> (bool \<times> FifoAllocator) res" where
  "AdvanceActive sz s =
     dcheck (sz \<noteq> 0)
       (rbind (deref s (fa_active s)) (\<lambda>a.
        rbind (AdvanceActive_in sz (rg_next a) None s) (\<lambda>(ok, s).
          if ok then Inr (True, s)
          else AdvanceActive_in sz (fa_front s) (fa_active s) s)))"

definition MakeActivePlaceholder :: "FifoAllocator \<Rightarrow> FifoAllocator res" where
  "MakeActivePlaceholder s =
     rbind (deref s (fa_active s)) (\<lambda>a.
     rbind (get_free False 0 (if fa_active s = fa_back s then 0 else rg_offset a + rg_size a) s)
       (\<lambda>(new_active, s).
     rbind (deref s (fa_active s)) (\<lambda>a.
       dcheck ((fa_active s = fa_back s) = (rg_next a = None))
         (rbind (insert_before new_active
                   (if fa_active s = fa_back s then fa_front s else rg_next a) s)
           (\<lambda>s. Inr (s\<lparr>fa_active := new_active\<rparr>))))))"

text \<open>Taking an allocation from an active region that is large enough.\<close>

definition carve :: "u64 \<Rightarrow> FifoAllocator \<Rightarrow> (u64 \<times> FifoAllocator) res" where
  "carve sz s =
     rbind (deref s (fa_active s)) (\<lambda>a.
       if rg_size a = sz
       then rbind (store (fa_active s) (\<lambda>r. r\<lparr>rg_allocated := True\<rparr>) s) (\<lambda>s.
            rbind (deref s (fa_front s)) (\<lambda>f.
            rbind (if fa_active s = fa_back s \<and> \<not> rg_allocated f
                   then Inr (s\<lparr>fa_active := fa_front s\<rparr>)
                   else MakeActivePlaceholder s)
              (\<lambda>s. Inr (rg_offset a, s))))
       else dcheck (rg_size a > sz)
         (rbind (get_free True sz (rg_offset a) s) (\<lambda>(allocated, s).
          rbind (store (fa_active s) (\<lambda>r. r\<lparr>rg_size := rg_size r - sz\<rparr>) s) (\<lambda>s.
          rbind (store (fa_active s) (\<lambda>r. r\<lparr>rg_offset := rg_offset r + sz\<rparr>) s) (\<lambda>s.
          rbind (insert_before allocated (fa_active s) s) (\<lambda>s.
          rbind (deref s allocated) (\<lambda>r. Inr (rg_offset r, s))))))))"

definition AllocateRegion :: "u64 \<Rightarrow> FifoAllocator \<Rightarrow> (u64 \<times> FifoAllocator) res" where
  "AllocateRegion sz s =
     dcheck (sz \<noteq> 0)
       (rbind (deref s (fa_active s)) (\<lambda>a.
        rbind (if rg_size a < sz then AdvanceActive sz s else Inr (True, s)) (\<lambda>(ok, s).
          if \<not> ok then Inr (kNullOffset, s) else carve sz s)))"

section \<open>Release\<close>

text \<open>What \<^verbatim>\<open>Release\<close> does with the region it found: mark it free, merge it into a
  free left neighbour, then merge the result into a free right neighbour.\<close>

definition coalesce_prev :: "ptr \<Rightarrow> FifoAllocator \<Rightarrow> (ptr \<times> FifoAllocator) res" where
  "coalesce_prev region s =
     rbind (deref s region) (\<lambda>r.
       if rg_prev r = None then Inr (region, s)
       else rbind (deref s (rg_prev r)) (\<lambda>p.
         if rg_allocated p then Inr (region, s)
         else rbind (store (rg_prev r) (\<lambda>p. p\<lparr>rg_size := rg_size p + rg_size r\<rparr>) s) (\<lambda>s.
              rbind (remove region s) (\<lambda>s.
              rbind (put_free region s) (\<lambda>s. Inr (rg_prev r, s))))))"

definition coalesce_next :: "ptr \<Rightarrow> FifoAllocator \<Rightarrow> FifoAllocator res" where
  "coalesce_next region s =
     rbind (deref s region) (\<lambda>r.
       if rg_next r = None then Inr s
       else rbind (deref s (rg_next r)) (\<lambda>n.
         if rg_allocated n then Inr s
         else rbind (store (rg_next r)
                      (\<lambda>n. n\<lparr>rg_offset := rg_offset r, rg_size := rg_size n + rg_size r\<rparr>) s) (\<lambda>s.
              rbind (remove region
                      (if fa_active s = region then s\<lparr>fa_active := rg_next r\<rparr> else s)) (\<lambda>s.
              put_free region s))))"

definition release_found :: "u64 \<Rightarrow> ptr \<Rightarrow> FifoAllocator \<Rightarrow> FifoAllocator res" where
  "release_found sz region s =
     rbind (deref s region) (\<lambda>r.
       dcheck (rg_allocated r) (dcheck (rg_size r = sz)
        (rbind (store region (\<lambda>r. r\<lparr>rg_allocated := False\<rparr>) s) (\<lambda>s.
         rbind (coalesce_prev region s) (\<lambda>(region, s). coalesce_next region s)))))"

definition Release :: "u64 \<Rightarrow> u64 \<Rightarrow> ptr \<Rightarrow> ptr \<Rightarrow> FifoAllocator \<Rightarrow> (bool \<times> FifoAllocator) res" where
  "Release sz offset begin_p end_p s =
     dcheck (begin_p \<noteq> None \<or> end_p = None)
       (rbind (of_loop (find_region s (\<lambda>r. rg_offset r = offset) begin_p end_p)) (\<lambda>f.
        rbind f (\<lambda>region.
          if region = None then Inr (False, s)
          else rbind (release_found sz region s) (\<lambda>s. Inr (True, s)))))"

definition ReleaseRegion :: "u64 \<Rightarrow> u64 \<Rightarrow> FifoAllocator \<Rightarrow> FifoAllocator res" where
  "ReleaseRegion sz offset s =
     rbind (deref s (fa_active s)) (\<lambda>a.
     rbind (Release sz offset (rg_next a) None s) (\<lambda>(released, s).
     rbind (if released then Inr (True, s) else Release sz offset (fa_front s) (fa_active s) s)
       (\<lambda>(released, s). dcheck released (Inr s))))"

section \<open>Lists in the store\<close>

definition first_ptr :: "nat list \<Rightarrow> ptr \<Rightarrow> ptr" where
  "first_ptr ps nx = (case ps of [] \<Rightarrow> nx | p # _ \<Rightarrow> Some p)"

definition last_ptr :: "ptr \<Rightarrow> nat list \<Rightarrow> ptr" where
  "last_ptr pv ps = (if ps = [] then pv else Some (last ps))"

lemma first_ptr_simps [simp]:
  "first_ptr [] nx = nx" "first_ptr (p # ps) nx = Some p"
  "first_ptr (xs @ p # ys) nx = first_ptr xs (Some p)"
  by (auto simp: first_ptr_def split: list.splits)

lemma last_ptr_simps [simp]:
  "last_ptr pv [] = pv" "last_ptr pv (xs @ [p]) = Some p" "last_ptr pv (p # ps) = last_ptr (Some p) ps"
  by (auto simp: last_ptr_def)

lemma first_ptr_hd: "ps \<noteq> [] \<Longrightarrow> first_ptr ps nx = Some (hd ps)"
  by (cases ps) simp_all

fun dll :: "(nat \<rightharpoonup> Region) \<Rightarrow> ptr \<Rightarrow> nat list \<Rightarrow> ptr \<Rightarrow> bool" where
  "dll h pv [] nx \<longleftrightarrow> True"
| "dll h pv (p # ps) nx \<longleftrightarrow>
     (\<exists>r. h p = Some r \<and> rg_prev r = pv \<and> rg_next r = first_ptr ps nx \<and> dll h (Some p) ps nx)"

fun sll :: "(nat \<rightharpoonup> Region) \<Rightarrow> nat list \<Rightarrow> bool" where
  "sll h [] \<longleftrightarrow> True"
| "sll h (p # ps) \<longleftrightarrow> (\<exists>r. h p = Some r \<and> rg_next r = first_ptr ps None \<and> sll h ps)"

lemma dll_append:
  "dll h pv (xs @ ys) nx \<longleftrightarrow> dll h pv xs (first_ptr ys nx) \<and> dll h (last_ptr pv xs) ys nx"
proof (induction xs arbitrary: pv)
  case (Cons x xs)
  have "first_ptr (xs @ ys) nx = first_ptr xs (first_ptr ys nx)"
    by (cases xs) simp_all
  with Cons show ?case by auto
qed simp

lemma dll_frame: "dll h pv ps nx \<Longrightarrow> (\<And>a. a \<in> set ps \<Longrightarrow> h' a = h a) \<Longrightarrow> dll h' pv ps nx"
  by (induction ps arbitrary: pv) auto

lemma sll_frame: "sll h ps \<Longrightarrow> (\<And>a. a \<in> set ps \<Longrightarrow> h' a = h a) \<Longrightarrow> sll h' ps"
  by (induction ps) auto

lemma dll_dom: "dll h pv ps nx \<Longrightarrow> set ps \<subseteq> dom h"
  by (induction ps arbitrary: pv) auto

lemma sll_dom: "sll h ps \<Longrightarrow> set ps \<subseteq> dom h"
  by (induction ps) auto

lemma dll_set_next:
  assumes "dll h pv (xs @ [p]) nx" "p \<notin> set xs" "h p = Some r"
  shows "dll (h(p \<mapsto> r\<lparr>rg_next := nx'\<rparr>)) pv (xs @ [p]) nx'"
  using assms by (auto simp: dll_append intro: dll_frame)

lemma dll_set_prev:
  assumes "dll h pv (p # ys) nx" "p \<notin> set ys" "h p = Some r"
  shows "dll (h(p \<mapsto> r\<lparr>rg_prev := pv'\<rparr>)) pv' (p # ys) nx"
  using assms by (auto intro: dll_frame)

text \<open>What a node holds besides its links.\<close>

definition view :: "Region \<Rightarrow> bool \<times> u64 \<times> u64" where
  "view r = (rg_allocated r, rg_size r, rg_offset r)"

definition data :: "FifoAllocator \<Rightarrow> nat \<rightharpoonup> bool \<times> u64 \<times> u64" where
  "data s a = map_option view (fa_heap s a)"

text \<open>
  The shape of the store: the nodes \<open>ps\<close> form the list from front to back, the
  nodes \<open>fs\<close> the lookaside, and every address in use is below the next fresh one.
\<close>

definition links :: "FifoAllocator \<Rightarrow> nat list \<Rightarrow> nat list \<Rightarrow> bool" where
  "links s ps fs \<longleftrightarrow> ps \<noteq> [] \<and> distinct (ps @ fs) \<and>
     fa_front s = first_ptr ps None \<and> fa_back s = last_ptr None ps \<and>
     dll (fa_heap s) None ps None \<and>
     fa_free s = first_ptr fs None \<and> sll (fa_heap s) fs \<and> (\<forall>a \<in> dom (fa_heap s). a < fa_brk s)"

definition same_ends :: "FifoAllocator \<Rightarrow> FifoAllocator \<Rightarrow> bool" where
  "same_ends s s' \<longleftrightarrow> fa_size s' = fa_size s \<and> fa_active s' = fa_active s"

lemma links_data:
  assumes "links s ps fs" "p \<in> set ps \<union> set fs"
  obtains r where "fa_heap s p = Some r" "data s p = Some (view r)"
  using assms dll_dom [of "fa_heap s" None ps None] sll_dom [of "fa_heap s" fs]
  by (fastforce simp: links_def data_def)

lemma deref_some: "fa_heap s p = Some r \<Longrightarrow> deref s (Some p) = Inr r"
  by (simp add: deref_def)

lemma store_some:
  "fa_heap s p = Some r \<Longrightarrow> store (Some p) f s = Inr (s\<lparr>fa_heap := (fa_heap s)(p \<mapsto> f r)\<rparr>)"
  by (simp add: store_def)

lemma links_split:
  assumes "links s (xs @ p # ys) fs"
  obtains r where "fa_heap s p = Some r" "rg_prev r = last_ptr None xs" "rg_next r = first_ptr ys None"
    "dll (fa_heap s) None xs (Some p)" "dll (fa_heap s) (Some p) ys None"
    "p \<notin> set xs" "p \<notin> set ys" "p \<notin> set fs" "set xs \<inter> set ys = {}"
  using assms that by (auto simp: links_def dll_append)

text \<open>Writing the data of a node keeps the links.\<close>

lemma store_data_links:
  assumes "links s ps fs" "p \<in> set ps" "fa_heap s p = Some r"
    and "rg_prev (f r) = rg_prev r" "rg_next (f r) = rg_next r"
  shows "\<exists>s'. store (Some p) f s = Inr s' \<and> links s' ps fs \<and> same_ends s s' \<and>
    data s' = (data s)(p \<mapsto> view (f r)) \<and> fa_heap s' = (fa_heap s)(p \<mapsto> f r)"
proof -
  let ?h = "(fa_heap s)(p \<mapsto> f r)"
  from assms(2) obtain xs ys where ps: "ps = xs @ p # ys" by (meson split_list)
  from assms(1) have "dll ?h None ps None"
    using assms(3-5) unfolding ps by (auto simp: links_def dll_append intro: dll_frame)
  moreover have "sll ?h fs" using assms(1,2) by (auto simp: links_def intro!: sll_frame [of "fa_heap s"])
  ultimately show ?thesis using assms
    by (auto simp: store_some links_def same_ends_def data_def)
qed

text \<open>Two stores that differ in links only.\<close>

definition same_data :: "(nat \<rightharpoonup> Region) \<Rightarrow> (nat \<rightharpoonup> Region) \<Rightarrow> bool" where
  "same_data h h' \<longleftrightarrow> (\<forall>a. map_option view (h' a) = map_option view (h a))"

lemma same_data_refl [simp]: "same_data h h"
  by (simp add: same_data_def)

lemma same_data_trans: "same_data h h' \<Longrightarrow> same_data h' h'' \<Longrightarrow> same_data h h''"
  by (simp add: same_data_def)

lemma same_data_upd [simp]:
  "h a = Some r \<Longrightarrow> same_data h (h(a \<mapsto> r\<lparr>rg_next := n\<rparr>))"
  "h a = Some r \<Longrightarrow> same_data h (h(a \<mapsto> r\<lparr>rg_prev := n\<rparr>))"
  by (simp_all add: same_data_def view_def)

lemma same_data_dom: "same_data h h' \<Longrightarrow> dom h' = dom h"
  unfolding same_data_def dom_def by (metis option.map_disc_iff)

lemma same_data_iff: "same_data (fa_heap s) (fa_heap s') \<longleftrightarrow> data s' = data s"
  by (auto simp: same_data_def data_def fun_eq_iff)

lemma links_sll: "links s ps fs \<Longrightarrow> sll (fa_heap s) fs"
  by (simp add: links_def)

lemma links_fs_notin: "links s ps fs \<Longrightarrow> a \<in> set fs \<Longrightarrow> a \<notin> set ps"
  by (auto simp: links_def)

lemma unlink_prev_links:
  assumes "links s (xs @ p # ys) fs"
  shows "\<exists>s1. unlink_prev (Some p) s = Inr s1 \<and> fa_front s1 = first_ptr (xs @ ys) None \<and>
    fa_back s1 = fa_back s \<and> fa_free s1 = fa_free s \<and> fa_brk s1 = fa_brk s \<and> same_ends s s1 \<and>
    same_data (fa_heap s) (fa_heap s1) \<and> dll (fa_heap s1) None xs (first_ptr ys None) \<and>
    (\<forall>a. a \<notin> set xs \<longrightarrow> fa_heap s1 a = fa_heap s a)"
proof -
  from assms obtain r where r: "fa_heap s p = Some r" "rg_prev r = last_ptr None xs"
    "rg_next r = first_ptr ys None" "dll (fa_heap s) None xs (Some p)" "p \<notin> set xs"
    by (rule links_split)
  from assms have front: "fa_front s = first_ptr xs (Some p)" by (simp add: links_def)
  show ?thesis
  proof (cases xs rule: rev_cases)
    case Nil
    with r front show ?thesis by (simp add: unlink_prev_def deref_some same_ends_def)
  next
    case (snoc xs' q)
    from r(4) obtain rq where rq: "fa_heap s q = Some rq" "rg_next rq = Some p"
      by (auto simp: snoc dll_append)
    have "fa_front s \<noteq> Some p"
      using front r(5) by (metis append_is_Nil_conv first_ptr_hd hd_in_set list.discI option.inject snoc)
    moreover have "q \<notin> set xs'" using assms by (auto simp: links_def snoc)
    ultimately show ?thesis using r rq snoc front
      by (auto simp: unlink_prev_def deref_some store_some same_ends_def first_ptr_hd intro!: dll_set_next)
  qed
qed

lemma unlink_next_links:
  assumes "fa_heap s p = Some r" "rg_prev r = last_ptr None xs" "rg_next r = first_ptr ys None"
    "fa_back s = last_ptr (Some p) ys" "dll (fa_heap s) (Some p) ys None" "p \<notin> set ys" "distinct ys"
  shows "\<exists>s1. unlink_next (Some p) s = Inr s1 \<and> fa_front s1 = fa_front s \<and>
    fa_back s1 = last_ptr None (xs @ ys) \<and> fa_free s1 = fa_free s \<and> fa_brk s1 = fa_brk s \<and>
    same_ends s s1 \<and> same_data (fa_heap s) (fa_heap s1) \<and>
    dll (fa_heap s1) (last_ptr None xs) ys None \<and> (\<forall>a. a \<notin> set ys \<longrightarrow> fa_heap s1 a = fa_heap s a)"
proof (cases ys)
  case Nil
  with assms show ?thesis by (simp add: unlink_next_def deref_some same_ends_def)
next
  case (Cons q ys')
  from assms(5) obtain rq where rq: "fa_heap s q = Some rq" "rg_prev rq = Some p"
    by (auto simp: Cons)
  have "fa_back s \<noteq> Some p" using assms(4,6) Cons by (auto simp: last_ptr_def split: if_splits)
  then show ?thesis using assms rq Cons
    by (auto simp: unlink_next_def deref_some store_some same_ends_def last_ptr_def intro: dll_frame)
qed

lemma remove_links:
  assumes l: "links s (xs @ p # ys) fs" and ne: "xs @ ys \<noteq> []"
  shows "\<exists>s'. remove (Some p) s = Inr s' \<and> links s' (xs @ ys) fs \<and> same_ends s s' \<and>
    data s' = data s \<and> fa_heap s' p = fa_heap s p"
proof -
  from l obtain r where r: "fa_heap s p = Some r" "rg_prev r = last_ptr None xs"
    "rg_next r = first_ptr ys None" "dll (fa_heap s) None xs (Some p)"
    "dll (fa_heap s) (Some p) ys None" "p \<notin> set xs" "p \<notin> set ys" "p \<notin> set fs" "set xs \<inter> set ys = {}"
    by (rule links_split)
  from unlink_prev_links [OF l] obtain s1 where s1: "unlink_prev (Some p) s = Inr s1"
    "fa_front s1 = first_ptr (xs @ ys) None" "fa_back s1 = fa_back s" "fa_free s1 = fa_free s"
    "fa_brk s1 = fa_brk s" "same_ends s s1" "same_data (fa_heap s) (fa_heap s1)"
    "dll (fa_heap s1) None xs (first_ptr ys None)" "\<forall>a. a \<notin> set xs \<longrightarrow> fa_heap s1 a = fa_heap s a"
    by blast
  have "fa_heap s1 p = Some r" "fa_back s1 = last_ptr (Some p) ys" "distinct ys"
    using l r s1 by (auto simp: links_def last_ptr_def)
  moreover have "dll (fa_heap s1) (Some p) ys None"
    using r s1(9) by (auto intro!: dll_frame [OF r(5)])
  ultimately obtain s2 where s2: "unlink_next (Some p) s1 = Inr s2" "fa_front s2 = fa_front s1"
    "fa_back s2 = last_ptr None (xs @ ys)" "fa_free s2 = fa_free s1" "fa_brk s2 = fa_brk s1"
    "same_ends s1 s2" "same_data (fa_heap s1) (fa_heap s2)" "dll (fa_heap s2) (last_ptr None xs) ys None"
    "\<forall>a. a \<notin> set ys \<longrightarrow> fa_heap s2 a = fa_heap s1 a"
    using unlink_next_links [of s1 p r xs ys] r by blast
  have sd: "same_data (fa_heap s) (fa_heap s2)" using s1(7) s2(7) by (rule same_data_trans)
  have "dll (fa_heap s2) None xs (first_ptr ys None)"
    using r(9) s2(9) by (auto intro!: dll_frame [OF s1(8)])
  moreover have "sll (fa_heap s2) fs"
    by (rule sll_frame [OF links_sll [OF l]]) (use links_fs_notin [OF l] s1(9) s2(9) in simp)
  ultimately have "links s2 (xs @ ys) fs"
    using l ne s1 s2 same_data_dom [OF sd] by (auto simp: links_def dll_append)
  then show ?thesis using s1 s2 sd r
    by (auto simp: remove_def same_ends_def same_data_iff)
qed

lemma put_free_links:
  assumes "links s ps fs" "p \<notin> set ps" "p \<notin> set fs" "fa_heap s p = Some r"
  shows "\<exists>s'. put_free (Some p) s = Inr s' \<and> links s' ps (p # fs) \<and> same_ends s s' \<and> data s' = data s"
proof -
  let ?h = "(fa_heap s)(p \<mapsto> r\<lparr>rg_next := fa_free s\<rparr>)"
  have "dll ?h None ps None" "sll ?h fs"
    using assms by (auto simp: links_def intro: dll_frame sll_frame)
  moreover have "same_data (fa_heap s) ?h" using assms(4) by simp
  ultimately show ?thesis using assms
    by (auto simp: put_free_def store_some links_def same_ends_def same_data_iff [symmetric])
qed

lemma remove_put_free:
  assumes "links s (xs @ p # ys) fs" "xs @ ys \<noteq> []"
  shows "\<exists>s'. rbind (remove (Some p) s) (put_free (Some p)) = Inr s' \<and>
    links s' (xs @ ys) (p # fs) \<and> same_ends s s' \<and> data s' = data s"
proof -
  from assms(1) obtain r where r: "fa_heap s p = Some r" "p \<notin> set xs" "p \<notin> set ys" "p \<notin> set fs"
    by (rule links_split)
  from remove_links [OF assms] obtain s1 where s1: "remove (Some p) s = Inr s1"
    "links s1 (xs @ ys) fs" "same_ends s s1" "data s1 = data s" "fa_heap s1 p = Some r"
    using r by auto
  with put_free_links [OF s1(2) _ r(4) s1(5)] r(2,3) show ?thesis
    by (auto simp: same_ends_def)
qed

lemma get_free_links:
  assumes l: "links s ps fs" and "sz \<le> fa_size s" "off \<le> fa_size s - sz"
  shows "\<exists>p s' fs'. get_free al sz off s = Inr (Some p, s') \<and> links s' ps fs' \<and>
    p \<notin> set ps \<and> p \<notin> set fs' \<and> same_ends s s' \<and> data s' = (data s)(p \<mapsto> (al, sz, off)) \<and>
    (\<exists>r. fa_heap s' p = Some r) \<and> (fs = p # fs' \<or> fs = [] \<and> fs' = [] \<and> p \<notin> dom (data s))"
proof (cases fs)
  case Nil
  have "fa_brk s \<notin> dom (fa_heap s)" using l by (auto simp: links_def)
  then have "fa_brk s \<notin> dom (data s)" by (auto simp: data_def dom_def)
  moreover have "fa_brk s \<notin> set ps"
    using \<open>fa_brk s \<notin> dom (fa_heap s)\<close> l dll_dom [of "fa_heap s" None ps None] by (auto simp: links_def)
  ultimately show ?thesis using assms Nil
    by (intro exI [of _ "fa_brk s"] exI [of _ "s\<lparr>fa_heap := (fa_heap s)(fa_brk s \<mapsto>
        \<lparr>rg_allocated = al, rg_size = sz, rg_offset = off, rg_prev = None, rg_next = None\<rparr>),
        fa_brk := Suc (fa_brk s)\<rparr>"] exI [of _ "[]"])
      (auto simp: less_Suc_eq get_free_def links_def store_some same_ends_def data_def view_def fun_eq_iff
        intro!: dll_frame [of "fa_heap s"])
next
  case (Cons p fs')
  with l obtain r where r: "fa_heap s p = Some r" "rg_next r = first_ptr fs' None" "sll (fa_heap s) fs'"
    "p \<notin> set ps" "p \<notin> set fs'"
    by (auto simp: links_def)
  then show ?thesis using assms Cons
    by (intro exI [of _ p] exI [of _ "s\<lparr>fa_heap := (fa_heap s)(p \<mapsto>
        r\<lparr>rg_allocated := al, rg_size := sz, rg_offset := off\<rparr>), fa_free := rg_next r\<rparr>"] exI [of _ fs'])
      (auto simp: get_free_def links_def deref_some store_some same_ends_def data_def view_def fun_eq_iff
        intro!: dll_frame [of "fa_heap s"] sll_frame [of "fa_heap s"])
qed

lemma insert_before_links:
  assumes l: "links s (xs @ q # ys) fs" and p: "p \<notin> set (xs @ q # ys)" "p \<notin> set fs"
    "fa_heap s p = Some r"
  shows "\<exists>s'. insert_before (Some p) (Some q) s = Inr s' \<and> links s' (xs @ p # q # ys) fs \<and>
    same_ends s s' \<and> data s' = data s"
proof -
  from l obtain b where b: "fa_heap s q = Some b" "rg_prev b = last_ptr None xs"
    "rg_next b = first_ptr ys None" "dll (fa_heap s) None xs (Some q)"
    "dll (fa_heap s) (Some q) ys None" "q \<notin> set xs" "q \<notin> set ys" "set xs \<inter> set ys = {}"
    by (rule links_split)
  from l have front: "fa_front s = first_ptr xs (Some q)" by (simp add: links_def)
  define h where "h = (fa_heap s)(q \<mapsto> b\<lparr>rg_prev := Some p\<rparr>,
      p \<mapsto> r\<lparr>rg_prev := last_ptr None xs, rg_next := Some q\<rparr>)"
  have sd: "same_data (fa_heap s) h" using b(1) p(3) by (simp add: h_def same_data_def view_def)
  have dh: "dll h None xs (Some q)" "dll h (last_ptr None xs) (p # q # ys) None"
    using b p by (auto simp: h_def intro!: dll_frame [OF b(4)] dll_frame [OF b(5)])
  have fh: "sll h fs"
    by (rule sll_frame [OF links_sll [OF l]]) (use links_fs_notin [OF l] p in \<open>auto simp: h_def\<close>)
  have run: "insert_before (Some p) (Some q) s =
      (if fa_front s = Some q then dcheck (last_ptr None xs = None) (Inr (s\<lparr>fa_heap := h, fa_front := Some p\<rparr>))
       else dcheck (last_ptr None xs \<noteq> None)
         (store (last_ptr None xs) (\<lambda>p'. p'\<lparr>rg_next := Some p\<rparr>) (s\<lparr>fa_heap := h\<rparr>)))"
    using b p by (simp add: insert_before_def deref_some store_some h_def fun_upd_twist)
  show ?thesis
  proof (cases xs rule: rev_cases)
    case Nil
    let ?s = "s\<lparr>fa_heap := h, fa_front := Some p\<rparr>"
    have "links ?s (xs @ p # q # ys) fs"
      using l p dh fh Nil same_data_dom [OF sd] by (auto simp: links_def last_ptr_def)
    then show ?thesis using run front Nil sd by (auto simp: same_ends_def same_data_iff [symmetric])
  next
    case (snoc xs' w)
    from dh(1) obtain rw where rw: "h w = Some rw" "w \<notin> set xs'" "w \<noteq> p"
      using l p by (auto simp: snoc dll_append links_def)
    let ?h = "h(w \<mapsto> rw\<lparr>rg_next := Some p\<rparr>)"
    let ?s = "s\<lparr>fa_heap := ?h\<rparr>"
    have nf: "fa_front s \<noteq> Some q"
      using front b(6) by (metis append_is_Nil_conv first_ptr_hd hd_in_set list.discI option.inject snoc)
    have sd': "same_data (fa_heap s) ?h" using sd rw by (auto intro: same_data_trans)
    have "dll ?h None xs (Some p)" unfolding snoc
      using dh(1) rw by (intro dll_set_next) (simp_all add: snoc)
    moreover have "dll ?h (last_ptr None xs) (p # q # ys) None"
      using l p snoc by (intro dll_frame [OF dh(2)]) (auto simp: links_def)
    moreover have "sll ?h fs"
      by (rule sll_frame [OF fh]) (use links_fs_notin [OF l] snoc in auto)
    ultimately have "links ?s (xs @ p # q # ys) fs"
      using l p nf front snoc same_data_dom [OF sd'] by (auto simp: links_def dll_append last_ptr_def first_ptr_hd)
    then show ?thesis using run nf snoc rw sd'
      by (auto simp: same_ends_def same_data_iff [symmetric] store_some)
  qed
qed

text \<open>The search loop over a segment is the search of the list.\<close>

lemma find_region_dll:
  assumes "dll (fa_heap s) pv ps nx" "nx \<notin> Some ` set ps"
  shows "find_region s P (first_ptr ps nx) nx =
    Some (Inr (find (\<lambda>p. P (the (fa_heap s p))) ps))"
  using assms
proof (induction ps arbitrary: pv)
  case Nil
  then show ?case by (simp add: find_region.simps)
next
  case (Cons p ps)
  then obtain r where r: "fa_heap s p = Some r" "rg_next r = first_ptr ps nx"
    "dll (fa_heap s) (Some p) ps nx" by auto
  have "Some p \<noteq> nx" using Cons.prems(2) by auto
  then show ?case using r Cons.IH [OF r(3)] Cons.prems(2)
    by (subst find_region.simps) (simp add: deref_some)
qed

section \<open>Regions that tile the buffer\<close>

type_synonym region_view = "bool \<times> u64 \<times> u64"

fun tiles :: "nat \<Rightarrow> region_view list \<Rightarrow> nat \<Rightarrow> bool" where
  "tiles b [] e \<longleftrightarrow> b = e"
| "tiles b ((al, sz, off) # vs) e \<longleftrightarrow> unat off = b \<and> tiles (b + unat sz) vs e"

lemma tiles_append: "tiles b (xs @ ys) e \<longleftrightarrow> (\<exists>m. tiles b xs m \<and> tiles m ys e)"
  by (induction b xs e rule: tiles.induct) auto

lemma tiles_le: "tiles b vs e \<Longrightarrow> b \<le> e"
  by (induction b vs e rule: tiles.induct) auto

lemma tiles_mem: "tiles b vs e \<Longrightarrow> (al, sz, off) \<in> set vs \<Longrightarrow> b \<le> unat off \<and> unat off + unat sz \<le> e"
  by (induction b vs e rule: tiles.induct) (fastforce dest: tiles_le)+

lemma tiles_flag: "tiles b (xs @ (al, sz, off) # ys) e \<Longrightarrow> tiles b (xs @ (al', sz, off) # ys) e"
  by (auto simp: tiles_append)

lemma tiles_merge:
  assumes "tiles b (xs @ (al, s1, o1) # (al', s2, o2) # ys) e" "e < 2 ^ 64"
  shows "tiles b (xs @ (al'', s2 + s1, o1) # ys) e" "tiles b (xs @ (al'', s1 + s2, o1) # ys) e"
proof -
  from assms(1) obtain m where m: "tiles b xs m" "unat o1 = m"
    "tiles (m + unat s1 + unat s2) ys e" by (auto simp: tiles_append)
  with tiles_le [OF m(3)] assms(2) have "unat s1 + unat s2 < 2 ^ 64" by simp
  then have "unat (s2 + s1) = unat s1 + unat s2" "unat (s1 + s2) = unat s1 + unat s2"
    by (simp_all add: unat_word_ariths)
  with m show "tiles b (xs @ (al'', s2 + s1, o1) # ys) e" "tiles b (xs @ (al'', s1 + s2, o1) # ys) e"
    by (auto simp: tiles_append add.assoc)
qed

lemma tiles_cut:
  assumes "tiles b (xs @ (al, sz, off) # ys) e" "t \<le> sz" "e < 2 ^ 64"
  shows "tiles b (xs @ (al1, t, off) # (al2, sz - t, off + t) # ys) e"
proof -
  from assms(1) obtain m where m: "tiles b xs m" "unat off = m" "tiles (m + unat sz) ys e"
    by (auto simp: tiles_append)
  have "unat (sz - t) = unat sz - unat t" "unat t \<le> unat sz"
    using assms(2) by (simp_all add: unat_sub word_le_nat_alt)
  moreover have "unat (off + t) = unat off + unat t"
    using m tiles_le [OF m(3)] assms(3) calculation by (simp add: unat_word_ariths)
  ultimately show ?thesis using m by (auto simp: tiles_append)
qed

lemma tiles_drop_empty: "tiles b (xs @ (al, 0, off) # ys) e \<Longrightarrow> tiles b (xs @ ys) e"
  by (auto simp: tiles_append)

lemma tiles_add_empty:
  assumes "tiles b (xs @ (al, sz, off) # ys) e" "e < 2 ^ 64"
  shows "tiles b (xs @ (al, sz, off) # (al', 0, off + sz) # ys) e"
proof -
  from assms(1) obtain m where m: "tiles b xs m" "unat off = m" "tiles (m + unat sz) ys e"
    by (auto simp: tiles_append)
  then have "unat (off + sz) = unat off + unat sz"
    using tiles_le [OF m(3)] assms(2) by (simp add: unat_word_ariths)
  with m show ?thesis by (auto simp: tiles_append)
qed

text \<open>The order of the offsets.\<close>

lemma tiles_before:
  assumes "tiles b (xs @ (al, sz, off) # ys) e"
  shows "(al', sz', off') \<in> set xs \<Longrightarrow> unat off' + unat sz' \<le> unat off"
    and "(al', sz', off') \<in> set ys \<Longrightarrow> unat off + unat sz \<le> unat off'"
  using assms by (auto simp: tiles_append dest: tiles_mem)

section \<open>The invariant\<close>

definition node_views :: "(nat \<rightharpoonup> region_view) \<Rightarrow> nat list \<Rightarrow> region_view list" where
  "node_views d ps = map (\<lambda>p. the (d p)) ps"

lemma node_views_simps [simp]:
  "node_views d [] = []" "node_views d (p # ps) = the (d p) # node_views d ps"
  "node_views d (xs @ ys) = node_views d xs @ node_views d ys"
  "p \<notin> set ps \<Longrightarrow> node_views (d(p \<mapsto> v)) ps = node_views d ps"
  "node_views d ps = [] \<longleftrightarrow> ps = []" "set (node_views d ps) = (\<lambda>p. the (d p)) ` set ps"
  by (auto simp: node_views_def)

definition one_allocated :: "region_view \<Rightarrow> region_view \<Rightarrow> bool" where
  "one_allocated u v \<longleftrightarrow> fst u \<or> fst v"

text \<open>
  The nodes \<open>ps\<close> tile the buffer in order, no two adjacent regions are free, the
  active node is a free one of the list, and only the active one may be empty.
\<close>

definition regions_ok :: "nat \<Rightarrow> nat list \<Rightarrow> (nat \<rightharpoonup> region_view) \<Rightarrow> nat \<Rightarrow> bool" where
  "regions_ok N ps d a \<longleftrightarrow>
     tiles 0 (node_views d ps) N \<and> successively one_allocated (node_views d ps) \<and>
     a \<in> set ps \<and> \<not> fst (the (d a)) \<and> (\<forall>p \<in> set ps. p \<noteq> a \<longrightarrow> fst (snd (the (d p))) \<noteq> 0)"

definition fifo_rep :: "FifoAllocator \<Rightarrow> nat list \<Rightarrow> nat list \<Rightarrow> nat \<Rightarrow> bool" where
  "fifo_rep s ps fs a \<longleftrightarrow>
     links s ps fs \<and> fa_active s = Some a \<and> fa_size s < kNullOffset \<and>
     dom (data s) = set ps \<union> set fs \<and> (\<forall>f \<in> set fs. \<not> fst (the (data s f))) \<and>
     regions_ok (unat (fa_size s)) ps (data s) a"

definition fifo_inv :: "FifoAllocator \<Rightarrow> bool" where
  "fifo_inv s \<longleftrightarrow> (\<exists>ps fs a. fifo_rep s ps fs a)"

definition allocated_in :: "(nat \<rightharpoonup> region_view) \<Rightarrow> (u64 \<times> u64) set" where
  "allocated_in d = {(off, sz). \<exists>p. d p = Some (True, sz, off)}"

abbreviation allocated :: "FifoAllocator \<Rightarrow> (u64 \<times> u64) set" where
  "allocated s \<equiv> allocated_in (data s)"

definition not_allocated :: "(nat \<rightharpoonup> region_view) \<Rightarrow> nat \<Rightarrow> bool" where
  "not_allocated d p \<longleftrightarrow> (case d p of None \<Rightarrow> True | Some v \<Rightarrow> \<not> fst v)"

lemma allocated_in_upd:
  "not_allocated d p \<Longrightarrow> allocated_in (d(p \<mapsto> (True, sz, off))) = insert (off, sz) (allocated_in d)"
  "not_allocated d p \<Longrightarrow> allocated_in (d(p \<mapsto> (False, sz, off))) = allocated_in d"
proof -
  assume "not_allocated d p"
  then have np: "d p \<noteq> Some (True, x, y)" for x y by (auto simp: not_allocated_def)
  have upd: "(\<exists>q. (d(p \<mapsto> v)) q = Some t) \<longleftrightarrow> v = t \<or> (\<exists>q. q \<noteq> p \<and> d q = Some t)" for v t
    by (auto split: if_splits)
  have eq: "(\<exists>q. (d(p \<mapsto> (al, sz, off))) q = Some (True, sz', off')) \<longleftrightarrow>
      al \<and> sz' = sz \<and> off' = off \<or> (\<exists>q. d q = Some (True, sz', off'))" for al sz' off'
    unfolding upd prod.inject using np by (metis (full_types))
  show "allocated_in (d(p \<mapsto> (True, sz, off))) = insert (off, sz) (allocated_in d)"
    "allocated_in (d(p \<mapsto> (False, sz, off))) = allocated_in d"
    unfolding allocated_in_def eq by auto
qed

lemma not_allocated_upd [simp]:
  "not_allocated (d(q \<mapsto> v)) p \<longleftrightarrow> (if p = q then \<not> fst v else not_allocated d p)"
  by (simp add: not_allocated_def)

lemma neq_kNullOffset_size: "n < kNullOffset \<Longrightarrow> unat n < 2 ^ 64 - 1"
  by (simp add: kNullOffset_def word_less_nat_alt)

lemma data_node: "data s p = Some (al, sz, off) \<Longrightarrow>
    \<exists>r. fa_heap s p = Some r \<and> rg_allocated r = al \<and> rg_size r = sz \<and> rg_offset r = off"
  by (auto simp: data_def view_def)

lemma dom_data: "dom (data s) = dom (fa_heap s)"
  by (auto simp: data_def dom_def)

lemma fifo_rep_split:
  assumes "fifo_rep s ps fs a"
  obtains xs ys where "ps = xs @ a # ys" "links s (xs @ a # ys) fs" "a \<notin> set xs" "a \<notin> set ys"
    "set xs \<inter> set ys = {}"
proof -
  from assms have "a \<in> set ps" by (simp add: fifo_rep_def regions_ok_def)
  then obtain xs ys where ps: "ps = xs @ a # ys" by (meson split_list)
  moreover have "links s ps fs" using assms by (simp add: fifo_rep_def)
  ultimately show ?thesis by (intro that [of xs ys]) (auto simp: links_def)
qed

lemma fifo_rep_node:
  assumes "fifo_rep s ps fs a" "p \<in> set ps"
  obtains r where "fa_heap s p = Some r" "data s p = Some (view r)"
  using assms links_data [of s ps fs p] by (auto simp: fifo_rep_def)

lemma links_set_active [simp]: "links (s\<lparr>fa_active := p\<rparr>) ps fs = links s ps fs"
  by (simp add: links_def)

lemma data_set_active [simp]: "data (s\<lparr>fa_active := p\<rparr>) = data s"
  by (simp add: data_def fun_eq_iff)

lemma one_allocated_drop:
  assumes "successively one_allocated (xs @ v # ys)" "\<not> fst v"
  shows "successively one_allocated (xs @ ys)"
  using assms by (cases ys) (auto simp: successively_append_iff one_allocated_def successively_Cons)

lemma activate_rep:
  assumes rep: "fifo_rep s ps fs a" and p: "p \<in> set ps" "p \<noteq> a" "\<not> fst (the (data s p))"
  shows "\<exists>s' ps' fs'. activate (Some p) s = Inr (True, s') \<and> fifo_rep s' ps' fs' p \<and>
    data s' = data s \<and> fa_size s' = fa_size s"
proof -
  from fifo_rep_split [OF rep] obtain xs ys where ps: "ps = xs @ a # ys"
    "links s (xs @ a # ys) fs" "a \<notin> set xs" "a \<notin> set ys" .
  from rep have act: "fa_active s = Some a" "a \<in> set ps" by (auto simp: fifo_rep_def ps)
  from fifo_rep_node [OF rep act(2)] obtain r where r: "fa_heap s a = Some r" "data s a = Some (view r)" .
  show ?thesis
  proof (cases "rg_size r = 0")
    case True
    have ne: "xs @ ys \<noteq> []" using p by (auto simp: ps)
    from remove_put_free [OF ps(2) ne] obtain s1 where
      s1: "rbind (remove (Some a) s) (put_free (Some a)) = Inr s1" "links s1 (xs @ ys) (a # fs)"
        "same_ends s s1" "data s1 = data s" by blast
    have na: "\<not> rg_allocated r" using rep r by (simp add: fifo_rep_def regions_ok_def view_def)
    from s1(1) obtain s0 where s0: "remove (Some a) s = Inr s0" "put_free (Some a) s0 = Inr s1"
      by (auto simp: rbind_eq_Inr_iff)
    then have "fa_active s0 = Some a" using remove_links [OF ps(2) ne] act by (auto simp: same_ends_def)
    then have run: "activate (Some p) s = Inr (True, s1\<lparr>fa_active := Some p\<rparr>)"
      using r True na s0 by (simp add: activate_def deref_some act)
    have v: "the (data s a) = (False, 0, rg_offset r)" using r na True by (simp add: view_def)
    have "tiles 0 (node_views (data s) (xs @ ys)) (unat (fa_size s))"
      "successively one_allocated (node_views (data s) (xs @ ys))"
      using rep v unfolding fifo_rep_def regions_ok_def ps
      by (auto intro: tiles_drop_empty one_allocated_drop)
    then have "regions_ok (unat (fa_size s)) (xs @ ys) (data s) p"
      using rep p ps(3,4) by (auto simp: fifo_rep_def regions_ok_def ps(1))
    then have "fifo_rep (s1\<lparr>fa_active := Some p\<rparr>) (xs @ ys) (a # fs) p"
      using rep s1 v by (auto simp: fifo_rep_def ps same_ends_def)
    with run s1 show ?thesis by (intro exI) (auto simp: same_ends_def)
  next
    case False
    then have "activate (Some p) s = Inr (True, s\<lparr>fa_active := Some p\<rparr>)"
      using r by (simp add: activate_def deref_some act)
    moreover have "fifo_rep (s\<lparr>fa_active := Some p\<rparr>) ps fs p"
      using rep p r False by (auto simp: fifo_rep_def regions_ok_def view_def)
    ultimately show ?thesis by (intro exI) auto
  qed
qed

text \<open>Whether the node \<open>p\<close> can hold an allocation of \<open>sz\<close>.\<close>

definition fits :: "(nat \<rightharpoonup> region_view) \<Rightarrow> u64 \<Rightarrow> nat \<Rightarrow> bool" where
  "fits d sz p \<longleftrightarrow> \<not> fst (the (d p)) \<and> sz \<le> fst (snd (the (d p)))"

lemma fits_heap:
  "fa_heap s p = Some r \<Longrightarrow> fits (data s) sz p \<longleftrightarrow> \<not> rg_allocated r \<and> sz \<le> rg_size r"
  by (simp add: fits_def data_def view_def)

lemma AdvanceActive_in_rep:
  assumes rep: "fifo_rep s ps fs a" and seg: "dll (fa_heap s) pv qs nx" "nx \<notin> Some ` set qs"
    and sub: "set qs \<subseteq> set ps - {a}"
  shows "(AdvanceActive_in sz (first_ptr qs nx) nx s = Inr (False, s) \<and> (\<forall>p \<in> set qs. \<not> fits (data s) sz p)) \<or>
    (\<exists>s' ps' fs' p. AdvanceActive_in sz (first_ptr qs nx) nx s = Inr (True, s') \<and>
       fifo_rep s' ps' fs' p \<and> fits (data s') sz p \<and> data s' = data s \<and> fa_size s' = fa_size s)"
proof -
  have P: "(\<not> rg_allocated (the (fa_heap s p)) \<and> sz \<le> rg_size (the (fa_heap s p))) = fits (data s) sz p"
    if "p \<in> set qs" for p
  proof -
    from that sub have "p \<in> set ps" by auto
    from fifo_rep_node [OF rep this] show ?thesis by (metis fits_heap option.sel)
  qed
  have fnd: "find (\<lambda>p. \<not> rg_allocated (the (fa_heap s p)) \<and> sz \<le> rg_size (the (fa_heap s p))) qs
      = find (fits (data s) sz) qs"
    by (rule find_cong [OF refl]) (simp add: P)
  have run: "AdvanceActive_in sz (first_ptr qs nx) nx s =
      (case find (fits (data s) sz) qs of None \<Rightarrow> Inr (False, s) | Some p \<Rightarrow> activate (Some p) s)"
    by (simp add: AdvanceActive_in_def find_region_dll [OF seg] fnd split: option.splits)
  show ?thesis
  proof (cases "find (fits (data s) sz) qs")
    case None
    with run show ?thesis by (auto simp: find_None_iff)
  next
    case (Some p)
    then have p: "p \<in> set qs" "fits (data s) sz p" by (auto simp: find_Some_iff)
    with sub have "p \<in> set ps" "p \<noteq> a" "\<not> fst (the (data s p))" by (auto simp: fits_def)
    from activate_rep [OF rep this] obtain s' ps' fs' where
      "activate (Some p) s = Inr (True, s')" "fifo_rep s' ps' fs' p" "data s' = data s"
      "fa_size s' = fa_size s" by blast
    with p(2) run Some show ?thesis by auto
  qed
qed

lemma AdvanceActive_rep:
  assumes rep: "fifo_rep s ps fs a" and "sz \<noteq> 0"
  shows "(AdvanceActive sz s = Inr (False, s) \<and> (\<forall>p \<in> set ps. p \<noteq> a \<longrightarrow> \<not> fits (data s) sz p)) \<or>
    (\<exists>s' ps' fs' p. AdvanceActive sz s = Inr (True, s') \<and>
       fifo_rep s' ps' fs' p \<and> fits (data s') sz p \<and> data s' = data s \<and> fa_size s' = fa_size s)"
proof -
  from fifo_rep_split [OF rep] obtain xs ys where ps: "ps = xs @ a # ys"
    "links s (xs @ a # ys) fs" "a \<notin> set xs" "a \<notin> set ys" .
  from links_split [OF ps(2)] obtain r where r: "fa_heap s a = Some r" "rg_next r = first_ptr ys None"
    "dll (fa_heap s) None xs (Some a)" "dll (fa_heap s) (Some a) ys None" by metis
  from rep ps have act: "fa_active s = Some a" and front: "fa_front s = first_ptr xs (Some a)"
    by (auto simp: fifo_rep_def links_def)
  have sub: "set ys \<subseteq> set ps - {a}" "set xs \<subseteq> set ps - {a}" using ps by auto
  have "None \<notin> Some ` set ys" "Some a \<notin> Some ` set xs" using ps by auto
  note R = AdvanceActive_in_rep [OF rep r(4) this(1) sub(1), of sz]
    and L = AdvanceActive_in_rep [OF rep r(3) this(2) sub(2), of sz]
  have run: "AdvanceActive sz s = rbind (AdvanceActive_in sz (first_ptr ys None) None s)
      (\<lambda>(ok, s). if ok then Inr (True, s) else AdvanceActive_in sz (fa_front s) (fa_active s) s)"
    using assms(2) r by (simp add: AdvanceActive_def act deref_some)
  from R show ?thesis
  proof (elim disjE conjE exE, goal_cases)
    case 1
    then have "AdvanceActive sz s = AdvanceActive_in sz (first_ptr xs (Some a)) (Some a) s"
      by (simp add: run front act)
    with L 1 ps show ?case by auto
  next
    case (2 s' ps' fs' p)
    then have "AdvanceActive sz s = Inr (True, s')" by (simp add: run)
    with 2 show ?case by blast
  qed
qed

lemma node_views_mem:
  assumes "fifo_rep s ps fs a" "v \<in> set (node_views (data s) ps)"
  obtains p where "p \<in> set ps" "data s p = Some v"
proof -
  from assms(2) obtain p where p: "p \<in> set ps" "v = the (data s p)" by auto
  from fifo_rep_node [OF assms(1) p(1)] obtain r where "data s p = Some (view r)" .
  with p that show ?thesis by simp
qed

lemma fifo_rep_bounds:
  assumes "fifo_rep s ps fs a" "p \<in> set ps" "data s p = Some (al, sz, off)"
  shows "unat off + unat sz \<le> unat (fa_size s)" "unat (fa_size s) < 2 ^ 64" "fa_size s < kNullOffset"
proof -
  from assms have "tiles 0 (node_views (data s) ps) (unat (fa_size s))"
    and mem: "(al, sz, off) \<in> set (node_views (data s) ps)"
    by (auto simp: fifo_rep_def regions_ok_def intro!: image_eqI [of _ _ p])
  from tiles_mem [OF this] show "unat off + unat sz \<le> unat (fa_size s)" by simp
  show "unat (fa_size s) < 2 ^ 64" using unat_less_2p [of "fa_size s"] by simp
  show "fa_size s < kNullOffset" using assms(1) by (simp add: fifo_rep_def)
qed

lemma fifo_rep_offset_room:
  assumes "fifo_rep s ps fs a" "p \<in> set ps" "data s p = Some (al, sz, off)"
  shows "sz \<le> fa_size s" "off \<le> fa_size s - sz" "off + sz \<le> fa_size s" "off \<noteq> kNullOffset"
    "t \<le> sz \<Longrightarrow> t \<le> fa_size s \<and> off \<le> fa_size s - t"
proof -
  note b = fifo_rep_bounds [OF assms]
  have room: "t \<le> fa_size s \<and> off \<le> fa_size s - t" if "t \<le> sz" for t
  proof -
    have "unat t \<le> unat sz" using that by (simp add: word_le_nat_alt)
    with b(1) have t: "t \<le> fa_size s" by (simp add: word_le_nat_alt)
    with b(1) \<open>unat t \<le> unat sz\<close> show ?thesis by (simp add: word_le_nat_alt unat_sub)
  qed
  then show "sz \<le> fa_size s" "off \<le> fa_size s - sz" "t \<le> sz \<Longrightarrow> t \<le> fa_size s \<and> off \<le> fa_size s - t"
    by auto
  have "unat (off + sz) = unat off + unat sz" using b by (simp add: unat_word_ariths)
  then show "off + sz \<le> fa_size s" using b(1) by (simp add: word_le_nat_alt)
  have "off \<le> fa_size s" using b(1) by (simp add: word_le_nat_alt)
  with b(3) show "off \<noteq> kNullOffset" by auto
qed

text \<open>The state after the active region \<open>a\<close> has been taken as a whole, before a new one is chosen.\<close>

definition taken :: "FifoAllocator \<Rightarrow> nat list \<Rightarrow> nat list \<Rightarrow> nat \<Rightarrow> bool" where
  "taken s ps fs a \<longleftrightarrow> links s ps fs \<and> fa_active s = Some a \<and> fa_size s < kNullOffset \<and>
     dom (data s) = set ps \<union> set fs \<and> (\<forall>f \<in> set fs. \<not> fst (the (data s f))) \<and>
     tiles 0 (node_views (data s) ps) (unat (fa_size s)) \<and>
     successively one_allocated (node_views (data s) ps) \<and>
     a \<in> set ps \<and> fst (the (data s a)) \<and> (\<forall>p \<in> set ps. fst (snd (the (data s p))) \<noteq> 0)"

lemma one_allocated_mono:
  assumes "successively one_allocated (xs @ (al, v) # ys)"
  shows "successively one_allocated (xs @ (True, w) # ys)"
  using assms by (cases ys) (auto simp: successively_append_iff one_allocated_def successively_Cons)

lemma take_whole:
  assumes rep: "fifo_rep s ps fs a" and a: "data s a = Some (False, sz, off)" and "sz \<noteq> 0"
  shows "\<exists>s1. store (Some a) (\<lambda>r. r\<lparr>rg_allocated := True\<rparr>) s = Inr s1 \<and> taken s1 ps fs a \<and>
    data s1 = (data s)(a \<mapsto> (True, sz, off)) \<and> fa_size s1 = fa_size s"
proof -
  from fifo_rep_split [OF rep] obtain xs ys where ps: "ps = xs @ a # ys"
    "links s (xs @ a # ys) fs" "a \<notin> set xs" "a \<notin> set ys" .
  from data_node [OF a] obtain r where r: "fa_heap s a = Some r" "rg_size r = sz" "rg_offset r = off"
    by blast
  have "\<exists>s'. store (Some a) (\<lambda>r. r\<lparr>rg_allocated := True\<rparr>) s = Inr s' \<and> links s' ps fs \<and> same_ends s s' \<and>
    data s' = (data s)(a \<mapsto> view (r\<lparr>rg_allocated := True\<rparr>)) \<and>
    fa_heap s' = (fa_heap s)(a \<mapsto> r\<lparr>rg_allocated := True\<rparr>)"
    using rep r by (intro store_data_links) (auto simp: fifo_rep_def regions_ok_def)
  then obtain s1 where s1: "store (Some a) (\<lambda>r. r\<lparr>rg_allocated := True\<rparr>) s = Inr s1" "links s1 ps fs"
    "same_ends s s1" "data s1 = (data s)(a \<mapsto> (True, sz, off))"
    using r by (auto simp: view_def)
  have "taken s1 ps fs a"
    using rep s1 a \<open>sz \<noteq> 0\<close> links_fs_notin [OF s1(2)] ps(3,4)
    by (auto simp: taken_def fifo_rep_def regions_ok_def same_ends_def ps(1)
        intro: tiles_flag one_allocated_mono)
  with s1 show ?thesis by (auto simp: same_ends_def)
qed

lemma MakeActivePlaceholder_rep:
  assumes t: "taken s ps fs a"
    and hd: "fa_active s = fa_back s \<Longrightarrow> fst (the (data s (hd ps)))"
    and nx: "\<And>xs y ys. ps = xs @ a # y # ys \<Longrightarrow> fst (the (data s y))"
  shows "\<exists>s' ps' fs' n. MakeActivePlaceholder s = Inr s' \<and> fifo_rep s' ps' fs' n \<and>
    allocated s' = allocated s \<and> fa_size s' = fa_size s"
proof -
  from t have "a \<in> set ps" and l: "links s ps fs" and act: "fa_active s = Some a"
    by (auto simp: taken_def)
  then obtain xs ys where ps: "ps = xs @ a # ys" by (meson split_list)
  from l have dist: "distinct (xs @ a # ys)" by (auto simp: links_def ps)
  from links_split [OF l [unfolded ps]] obtain r where r: "fa_heap s a = Some r"
    "rg_next r = first_ptr ys None" by metis
  have bk: "fa_active s = fa_back s \<longleftrightarrow> ys = []"
    using l act dist by (cases ys rule: rev_cases) (auto simp: links_def ps last_ptr_def)
  define off where "off = (if ys = [] then 0 else rg_offset r + rg_size r)"
  have v: "data s a = Some (rg_allocated r, rg_size r, rg_offset r)" using r by (simp add: data_def view_def)
  have tl: "tiles 0 (node_views (data s) ps) (unat (fa_size s))" using t by (simp add: taken_def)
  have N: "unat (fa_size s) < 2 ^ 64" using unat_less_2p [of "fa_size s"] by simp
  have "off \<le> fa_size s"
  proof -
    have "unat (rg_offset r) + unat (rg_size r) \<le> unat (fa_size s)"
      using tiles_mem [OF tl, of "rg_allocated r" "rg_size r" "rg_offset r"] v
      by (auto simp: ps image_iff)
    with N show ?thesis by (auto simp: off_def word_le_nat_alt unat_word_ariths)
  qed
  then have "0 \<le> fa_size s" "off \<le> fa_size s - 0" by simp_all
  from get_free_links [OF l this, of False] obtain n s2 fs2 r' where g: "get_free False 0 off s = Inr (Some n, s2)" "links s2 ps fs2"
    "n \<notin> set ps" "n \<notin> set fs2" "same_ends s s2" "data s2 = (data s)(n \<mapsto> (False, 0, off))"
    "fa_heap s2 n = Some r'" "fs = n # fs2 \<or> fs = [] \<and> fs2 = [] \<and> n \<notin> dom (data s)"
    by blast
  from links_split [OF g(2) [unfolded ps]] obtain r2 where r2: "fa_heap s2 a = Some r2"
    "rg_next r2 = first_ptr ys None" by metis
  have fr2: "fa_front s2 = first_ptr ps None" using g(2) by (simp add: links_def)
  have bk2: "fa_active s2 = fa_back s2 \<longleftrightarrow> ys = []"
    using g(2,5) act dist by (cases ys rule: rev_cases) (auto simp: links_def ps last_ptr_def same_ends_def)
  define b where "b = (if ys = [] then hd ps else hd ys)"
  define ps' where "ps' = (if ys = [] then n # ps else xs @ a # n # ys)"
  have bptr: "(if fa_active s2 = fa_back s2 then fa_front s2 else rg_next r2) = Some b"
    unfolding bk2 fr2 by (cases xs) (simp_all add: b_def r2 first_ptr_hd ps)
  have run: "MakeActivePlaceholder s = rbind (insert_before (Some n) (Some b) s2)
      (\<lambda>s. Inr (s\<lparr>fa_active := Some n\<rparr>))"
    using g(1,5) r r2 act bk bk2 fr2 bptr
    by (auto simp: MakeActivePlaceholder_def deref_some off_def same_ends_def split: if_splits)
  have "\<exists>s3. insert_before (Some n) (Some b) s2 = Inr s3 \<and> links s3 ps' fs2 \<and> same_ends s2 s3 \<and>
      data s3 = data s2"
  proof (cases ys)
    case Nil
    have "ps = [] @ b # tl ps" using ps Nil by (simp add: b_def)
    with insert_before_links [of s2 "[]" b "tl ps" fs2 n r'] g(2-4) g(7) Nil
    show ?thesis by (metis append_Nil ps'_def)
  next
    case (Cons y ys')
    have "ps = (xs @ [a]) @ b # ys'" using ps Cons by (simp add: b_def)
    with insert_before_links [of s2 "xs @ [a]" b ys' fs2 n r'] g(2-4) g(7) Cons
    show ?thesis by (simp add: ps'_def b_def)
  qed
  then obtain s3 where s3: "insert_before (Some n) (Some b) s2 = Inr s3" "links s3 ps' fs2"
    "same_ends s2 s3" "data s3 = (data s)(n \<mapsto> (False, 0, off))" using g(6) by auto
  have "regions_ok (unat (fa_size s)) ps' (data s3) n"
  proof (cases ys)
    case Nil
    have "fst (hd (node_views (data s) ps))" using hd bk Nil
      by (cases xs) (simp_all add: ps node_views_def)
    then show ?thesis using t g(3) Nil
      by (auto simp: regions_ok_def taken_def ps'_def s3(4) off_def successively_Cons one_allocated_def)
  next
    case (Cons y ys')
    have y: "fst (the (data s y))" using nx ps Cons by blast
    have "tiles 0 (node_views (data s) xs @ the (data s a) # (False, 0, off) # node_views (data s) ys)
        (unat (fa_size s))"
      using tl N Cons unfolding ps off_def by (simp add: v tiles_add_empty)
    moreover have "successively one_allocated
        (node_views (data s) xs @ the (data s a) # (False, 0, off) # node_views (data s) ys)"
      using t y unfolding taken_def ps Cons
      by (auto simp: successively_append_iff one_allocated_def successively_Cons)
    ultimately show ?thesis using t g(3) Cons
      by (auto simp: regions_ok_def taken_def ps'_def s3(4) ps)
  qed
  then have "fifo_rep (s3\<lparr>fa_active := Some n\<rparr>) ps' fs2 n"
    using t s3 g(3-5,8) by (auto simp: fifo_rep_def taken_def same_ends_def ps'_def ps split: if_splits)
  moreover have "not_allocated (data s) n"
    using g(8) t by (auto simp: not_allocated_def taken_def split: option.splits)
  ultimately show ?thesis using run s3 g(5)
    by (intro exI [of _ "s3\<lparr>fa_active := Some n\<rparr>"] exI [of _ ps'] exI [of _ fs2] exI [of _ n])
      (simp add: allocated_in_upd same_ends_def)
qed

lemma carve_whole:
  assumes rep: "fifo_rep s ps fs a" and a: "data s a = Some (False, sz, off)" and "sz \<noteq> 0"
  shows "\<exists>s'. carve sz s = Inr (off, s') \<and> fifo_inv s' \<and>
    allocated s' = insert (off, sz) (allocated s) \<and> fa_size s' = fa_size s"
proof -
  from take_whole [OF assms] obtain s1 where s1:
    "store (Some a) (\<lambda>r. r\<lparr>rg_allocated := True\<rparr>) s = Inr s1" "taken s1 ps fs a"
    "data s1 = (data s)(a \<mapsto> (True, sz, off))" "fa_size s1 = fa_size s" by blast
  have act: "fa_active s = Some a" "fa_active s1 = Some a" using rep s1(2) by (auto simp: fifo_rep_def taken_def)
  from data_node [OF a] obtain r where r: "fa_heap s a = Some r" "rg_size r = sz" "rg_offset r = off" by blast
  have l1: "links s1 ps fs" and ne: "ps \<noteq> []" using s1(2) by (auto simp: taken_def links_def)
  then have front: "fa_front s1 = Some (hd ps)" by (simp add: links_def first_ptr_hd)
  from links_data [OF l1, of "hd ps"] ne obtain f where f: "fa_heap s1 (hd ps) = Some f"
    "data s1 (hd ps) = Some (view f)" by auto
  have alloc: "allocated s1 = insert (off, sz) (allocated s)"
    unfolding s1(3) by (rule allocated_in_upd) (simp add: not_allocated_def a)
  have run: "carve sz s = rbind (if Some a = fa_back s1 \<and> \<not> rg_allocated f
      then Inr (s1\<lparr>fa_active := Some (hd ps)\<rparr>) else MakeActivePlaceholder s1) (\<lambda>s. Inr (off, s))"
    using r s1(1) f front by (simp add: carve_def act deref_some)
  show ?thesis
  proof (cases "Some a = fa_back s1 \<and> \<not> rg_allocated f")
    case True
    have "fifo_rep (s1\<lparr>fa_active := Some (hd ps)\<rparr>) ps fs (hd ps)"
      using s1(2) True f ne by (auto simp: fifo_rep_def taken_def regions_ok_def view_def)
    with True run alloc s1(4) show ?thesis by (auto simp: fifo_inv_def)
  next
    case False
    have "fst (the (data s1 (hd ps)))" if "fa_active s1 = fa_back s1"
      using that False f act by (simp add: view_def)
    moreover have "fst (the (data s1 y))" if eq: "ps = xs @ a # y # ys" for xs y ys
    proof -
      have "successively one_allocated (node_views (data s) ps)" using rep by (simp add: fifo_rep_def regions_ok_def)
      then have "fst (the (data s y))"
        using a unfolding eq by (auto simp: successively_append_iff one_allocated_def)
      moreover have "y \<noteq> a" using l1 by (auto simp: links_def eq)
      ultimately show ?thesis by (simp add: s1(3))
    qed
    ultimately obtain s' ps' fs' n where "MakeActivePlaceholder s1 = Inr s'" "fifo_rep s' ps' fs' n"
      "allocated s' = allocated s1" "fa_size s' = fa_size s1"
      using MakeActivePlaceholder_rep [OF s1(2)] by blast
    moreover have "carve sz s = rbind (MakeActivePlaceholder s1) (\<lambda>s. Inr (off, s))"
      unfolding run using False by (simp only: if_False)
    ultimately show ?thesis using alloc s1(4) by (auto simp: fifo_inv_def)
  qed
qed

lemma carve_part:
  assumes rep: "fifo_rep s ps fs a" and a: "data s a = Some (False, asz, off)" and "sz \<noteq> 0" "sz < asz"
  shows "\<exists>s'. carve sz s = Inr (off, s') \<and> fifo_inv s' \<and>
    allocated s' = insert (off, sz) (allocated s) \<and> fa_size s' = fa_size s"
proof -
  from fifo_rep_split [OF rep] obtain xs ys where ps: "ps = xs @ a # ys"
    "links s (xs @ a # ys) fs" "a \<notin> set xs" "a \<notin> set ys" .
  from data_node [OF a] obtain r where r: "fa_heap s a = Some r" "rg_size r = asz" "rg_offset r = off"
    "\<not> rg_allocated r" by blast
  have act: "fa_active s = Some a" "a \<in> set ps" and l: "links s ps fs" using rep ps by (auto simp: fifo_rep_def)
  have room: "sz \<le> fa_size s" "off \<le> fa_size s - sz"
    using fifo_rep_offset_room(5) [OF rep act(2) a, of sz] \<open>sz < asz\<close> by auto
  from get_free_links [OF l room, of True] obtain n s2 fs2 r' where g:
    "get_free True sz off s = Inr (Some n, s2)" "links s2 ps fs2"
    "n \<notin> set ps" "n \<notin> set fs2" "same_ends s s2" "data s2 = (data s)(n \<mapsto> (True, sz, off))"
    "fa_heap s2 n = Some r'" "fs = n # fs2 \<or> fs = [] \<and> fs2 = [] \<and> n \<notin> dom (data s)"
    by blast
  have na: "n \<noteq> a" using g(3) act(2) by auto
  have "data s2 a = Some (False, asz, off)" using a na by (simp add: g(6))
  from data_node [OF this] obtain r2 where r2: "fa_heap s2 a = Some r2" "\<not> rg_allocated r2"
    "rg_size r2 = asz" "rg_offset r2 = off" by blast
  let ?f = "\<lambda>r. r\<lparr>rg_size := rg_size r - sz\<rparr>" and ?g = "\<lambda>r. r\<lparr>rg_offset := rg_offset r + sz\<rparr>"
  have "\<exists>s'. store (Some a) ?f s2 = Inr s' \<and> links s' ps fs2 \<and> same_ends s2 s' \<and>
      data s' = (data s2)(a \<mapsto> view (?f r2)) \<and> fa_heap s' = (fa_heap s2)(a \<mapsto> ?f r2)"
    using act(2) r2 by (intro store_data_links [OF g(2)]) auto
  then obtain s3 where s3: "store (Some a) ?f s2 = Inr s3" "links s3 ps fs2" "same_ends s2 s3"
      "data s3 = (data s2)(a \<mapsto> view (?f r2))" "fa_heap s3 = (fa_heap s2)(a \<mapsto> ?f r2)" by blast
  have "\<exists>s'. store (Some a) ?g s3 = Inr s' \<and> links s' ps fs2 \<and> same_ends s3 s' \<and>
      data s' = (data s3)(a \<mapsto> view (?g (?f r2))) \<and> fa_heap s' = (fa_heap s3)(a \<mapsto> ?g (?f r2))"
    using act(2) s3(5) by (intro store_data_links [OF s3(2)]) auto
  then obtain s4 where s4: "store (Some a) ?g s3 = Inr s4" "links s4 ps fs2" "same_ends s3 s4"
      "data s4 = (data s3)(a \<mapsto> view (?g (?f r2)))" "fa_heap s4 = (fa_heap s3)(a \<mapsto> ?g (?f r2))" by blast
  have n4: "fa_heap s4 n = Some r'" using s4(5) s3(5) g(7) na by simp
  from insert_before_links [OF s4(2) [unfolded ps] _ _ n4] g(3,4) obtain s5 where
    s5: "insert_before (Some n) (Some a) s4 = Inr s5" "links s5 (xs @ n # a # ys) fs2"
      "same_ends s4 s5" "data s5 = data s4"
    unfolding ps by blast
  have d5: "data s5 = (data s)(n \<mapsto> (True, sz, off), a \<mapsto> (False, asz - sz, off + sz))"
    using r2 by (simp add: s5(4) s4(4) s3(4) g(6) view_def)
  from data_node [of s5 n True sz off] na have n5: "\<exists>rn. fa_heap s5 n = Some rn \<and> rg_offset rn = off"
    by (auto simp: d5)
  have run: "carve sz s = Inr (off, s5)"
    using r \<open>sz < asz\<close> g(1,5) s3(1,3) s4(1,3) s5(1) n5 act(1)
    by (auto simp: carve_def deref_some same_ends_def)
  have N: "unat (fa_size s) < 2 ^ 64" using unat_less_2p [of "fa_size s"] by simp
  have old: "tiles 0 (node_views (data s) xs @ (False, asz, off) # node_views (data s) ys) (unat (fa_size s))"
    "successively one_allocated (node_views (data s) xs @ (False, asz, off) # node_views (data s) ys)"
    using rep a by (auto simp: fifo_rep_def regions_ok_def ps)
  have nin: "n \<notin> set xs" "n \<notin> set ys" using g(3) ps by auto
  have "tiles 0 (node_views (data s5) (xs @ n # a # ys)) (unat (fa_size s))"
    using tiles_cut [OF old(1) _ N, of sz] \<open>sz < asz\<close> na nin ps(3,4) by (simp add: d5)
  moreover have "successively one_allocated (node_views (data s5) (xs @ n # a # ys))"
    using old(2) na nin ps(3,4) by (auto simp: d5 successively_append_iff one_allocated_def successively_Cons)
  ultimately have "regions_ok (unat (fa_size s)) (xs @ n # a # ys) (data s5) a"
    using rep na nin ps(3,4) \<open>sz \<noteq> 0\<close> by (auto simp: regions_ok_def fifo_rep_def d5 ps(1))
  then have "fifo_rep s5 (xs @ n # a # ys) fs2 a"
    using rep s5(2) g(3,4,5,8) s3(3) s4(3) s5(3) na
    by (auto simp: fifo_rep_def same_ends_def d5 ps(1))
  moreover have "not_allocated (data s) n" "not_allocated (data s) a"
    using g(8) rep a by (auto simp: not_allocated_def fifo_rep_def split: option.splits)
  then have "allocated s5 = insert (off, sz) (allocated s)"
    using na by (simp add: d5 allocated_in_upd)
  ultimately show ?thesis using run g(5) s3(3) s4(3) s5(3) by (auto simp: fifo_inv_def same_ends_def)
qed


text \<open>Regions are maximal gaps: a gap that no allocation touches lies inside one free region.\<close>

lemma tiles_covers:
  assumes "tiles b vs e" "b \<le> x" "x < e"
  shows "\<exists>us al sz off ws. vs = us @ (al, sz, off) # ws \<and> unat off \<le> x \<and> x < unat off + unat sz"
  using assms
proof (induction b vs e rule: tiles.induct)
  case (2 b al sz off vs e)
  show ?case
  proof (cases "x < b + unat sz")
    case True
    with 2 show ?thesis by (intro exI [of _ "[]"]) auto
  next
    case False
    with 2 obtain us al' sz' off' ws where "vs = us @ (al', sz', off') # ws" "unat off' \<le> x"
      "x < unat off' + unat sz'" by auto
    then show ?thesis by (intro exI [of _ "(al, sz, off) # us"]) auto
  qed
qed simp

definition overlaps :: "u64 \<times> u64 \<Rightarrow> nat \<Rightarrow> nat \<Rightarrow> bool" where
  "overlaps = (\<lambda>(off, sz) b n. unat off < b + n \<and> b < unat off + unat sz)"

lemma gap_fits:
  assumes rep: "fifo_rep s ps fs a" and n: "0 < unat sz" "b + unat sz \<le> unat (fa_size s)"
    and free: "\<forall>r \<in> allocated s. \<not> overlaps r b (unat sz)"
  shows "\<exists>p \<in> set ps. fits (data s) sz p"
proof -
  have tl: "tiles 0 (node_views (data s) ps) (unat (fa_size s))"
    "successively one_allocated (node_views (data s) ps)"
    using rep by (auto simp: fifo_rep_def regions_ok_def)
  have node: "(off, z) \<in> allocated s" if "(True, z, off) \<in> set (node_views (data s) ps)" for z off
    using node_views_mem [OF rep that] by (auto simp: allocated_in_def)
  obtain us al z off ws where v: "node_views (data s) ps = us @ (al, z, off) # ws"
    "unat off \<le> b" "b < unat off + unat z"
    using tiles_covers [OF tl(1), of b] n by auto
  have "\<not> al" using node [of z off] free v n by (cases al) (auto simp: overlaps_def)
  have "sz \<le> z"
  proof (rule ccontr)
    assume "\<not> sz \<le> z"
    then have lt: "unat z < unat sz" by (simp add: word_le_nat_alt)
    show False
    proof (cases ws)
      case Nil
      with tl(1) v have "unat off + unat z = unat (fa_size s)" by (auto simp: tiles_append)
      with v n lt have "b + unat sz \<le> unat off + unat z" by simp
      with v(2) lt show False by simp
    next
      case (Cons w ws')
      obtain al' z' off' where w: "w = (al', z', off')" by (cases w)
      have al': "al'" using tl(2) \<open>\<not> al\<close> unfolding v Cons w
        by (auto simp: successively_append_iff one_allocated_def)
      have off': "unat off' = unat off + unat z" using tl(1) unfolding v Cons w by (auto simp: tiles_append)
      have mem: "(True, z', off') \<in> set (node_views (data s) ps)" using al' unfolding v Cons w by simp
      have "z' \<noteq> 0" using mem rep by (auto simp: fifo_rep_def regions_ok_def) (metis fst_conv snd_conv)
      then have "0 < unat z'" by (simp add: unat_gt_0)
      moreover have "\<not> overlaps (off', z') b (unat sz)" using free node [OF mem] by blast
      ultimately have "b + unat sz \<le> unat off'" using v(3) off' by (auto simp: overlaps_def)
      with off' v(2) lt show False by simp
    qed
  qed
  moreover have "(al, z, off) \<in> (\<lambda>p. the (data s p)) ` set ps"
    using v(1) by (metis in_set_conv_decomp node_views_simps(6))
  ultimately show ?thesis using \<open>\<not> al\<close> by (auto simp: fits_def image_iff) (metis fst_conv snd_conv)
qed

lemma AllocateRegion_cases:
  assumes "fifo_inv s" "sz \<noteq> 0"
  shows "(AllocateRegion sz s = Inr (kNullOffset, s) \<and>
      (\<forall>b. b + unat sz \<le> unat (fa_size s) \<longrightarrow> (\<exists>r \<in> allocated s. overlaps r b (unat sz)))) \<or>
    (\<exists>off s'. AllocateRegion sz s = Inr (off, s') \<and> off \<noteq> kNullOffset \<and> fifo_inv s' \<and>
      allocated s' = insert (off, sz) (allocated s) \<and> fa_size s' = fa_size s \<and>
      unat off + unat sz \<le> unat (fa_size s) \<and>
      (\<forall>r \<in> allocated s. \<not> overlaps r (unat off) (unat sz)))"
proof -
  have pos: "0 < unat sz" using assms(2) by (simp add: unat_gt_0)
  from assms(1) obtain ps fs a where rep: "fifo_rep s ps fs a" by (auto simp: fifo_inv_def)
  then have act: "fa_active s = Some a" "a \<in> set ps" by (auto simp: fifo_rep_def regions_ok_def)
  from fifo_rep_node [OF rep act(2)] obtain r where r: "fa_heap s a = Some r" "data s a = Some (view r)" .
  have carved: "\<exists>off s'. carve sz s1 = Inr (off, s') \<and> off \<noteq> kNullOffset \<and> fifo_inv s' \<and>
      allocated s' = insert (off, sz) (allocated s) \<and> fa_size s' = fa_size s \<and>
      unat off + unat sz \<le> unat (fa_size s) \<and> (\<forall>r \<in> allocated s. \<not> overlaps r (unat off) (unat sz))"
    if rep1: "fifo_rep s1 ps1 fs1 p" and p: "fits (data s1) sz p" and d: "data s1 = data s"
      and sz1: "fa_size s1 = fa_size s" for s1 ps1 fs1 p
  proof -
    have pin: "p \<in> set ps1" using rep1 by (simp add: fifo_rep_def regions_ok_def)
    from fifo_rep_node [OF rep1 pin] obtain q where q: "data s1 p = Some (view q)" .
    define z off where "z = rg_size q" and "off = rg_offset q"
    from q p have dp: "data s1 p = Some (False, z, off)" and z: "sz \<le> z"
      by (simp_all add: fits_def view_def z_def off_def)
    have "\<exists>s'. carve sz s1 = Inr (off, s') \<and> fifo_inv s' \<and>
        allocated s' = insert (off, sz) (allocated s1) \<and> fa_size s' = fa_size s1"
    proof (cases "sz = z")
      case True
      with carve_whole [OF rep1 dp] assms(2) show ?thesis by blast
    next
      case False
      with carve_part [OF rep1 dp assms(2)] z show ?thesis by auto
    qed
    then obtain s' where s': "carve sz s1 = Inr (off, s')" "fifo_inv s'"
      "allocated s' = insert (off, sz) (allocated s1)" "fa_size s' = fa_size s1" by blast
    note b = fifo_rep_bounds [OF rep1 pin dp] fifo_rep_offset_room [OF rep1 pin dp]
    have "unat sz \<le> unat z" using z by (simp add: word_le_nat_alt)
    have "\<not> overlaps (o', z') (unat off) (unat sz)" if "(o', z') \<in> allocated s" for o' z'
    proof -
      from that d obtain q where q: "data s1 q = Some (True, z', o')" by (auto simp: allocated_in_def)
      have "q \<in> set ps1 \<union> set fs1" using rep1 q by (auto simp: fifo_rep_def)
      moreover have "q \<notin> set fs1" using rep1 q by (auto simp: fifo_rep_def)
      moreover have "q \<noteq> p" using q dp by auto
      ultimately have "q \<in> set ps1" "q \<noteq> p" by auto
      from fifo_rep_split [OF rep1] obtain xs ys where ps1: "ps1 = xs @ p # ys" by metis
      have "tiles 0 (node_views (data s1) xs @ (False, z, off) # node_views (data s1) ys) (unat (fa_size s1))"
        using rep1 dp by (auto simp: fifo_rep_def regions_ok_def ps1)
      note tb = tiles_before [OF this, of True z' o']
      have "(True, z', o') \<in> set (node_views (data s1) xs) \<or> (True, z', o') \<in> set (node_views (data s1) ys)"
        using \<open>q \<in> set ps1\<close> \<open>q \<noteq> p\<close> q by (auto simp: ps1 image_iff) (metis option.sel)+
      with tb \<open>unat sz \<le> unat z\<close> show ?thesis by (auto simp: overlaps_def)
    qed
    then show ?thesis using s' b d sz1 \<open>unat sz \<le> unat z\<close> by auto
  qed
  show ?thesis
  proof (cases "rg_size r < sz")
    case False
    then have "fits (data s) sz a"
      using rep r by (auto simp: fits_def view_def fifo_rep_def regions_ok_def)
    moreover have "AllocateRegion sz s = carve sz s"
      using False assms(2) r by (simp add: AllocateRegion_def act deref_some)
    ultimately show ?thesis using carved [OF rep] by auto
  next
    case True
    then have run: "AllocateRegion sz s = rbind (AdvanceActive sz s) (\<lambda>(ok, s).
        if \<not> ok then Inr (kNullOffset, s) else carve sz s)"
      using assms(2) r by (simp add: AllocateRegion_def act deref_some)
    from AdvanceActive_rep [OF rep assms(2)] show ?thesis
    proof (elim disjE conjE exE)
      assume f: "AdvanceActive sz s = Inr (False, s)" "\<forall>p \<in> set ps. p \<noteq> a \<longrightarrow> \<not> fits (data s) sz p"
      have "\<not> fits (data s) sz a" using True r by (auto simp: fits_def view_def)
      with f(2) have "\<forall>p \<in> set ps. \<not> fits (data s) sz p" by metis
      with gap_fits [OF rep pos] f(1) show ?thesis by (auto simp: run)
    next
      fix s1 ps1 fs1 p
      assume "AdvanceActive sz s = Inr (True, s1)" "fifo_rep s1 ps1 fs1 p" "fits (data s1) sz p"
        "data s1 = data s" "fa_size s1 = fa_size s"
      with carved [of s1 ps1 fs1 p] show ?thesis by (auto simp: run)
    qed
  qed
qed

section \<open>Release keeps the invariant\<close>

text \<open>
  The states between the steps of a release: the free node \<open>c\<close> has no free left
  neighbour, and everything right of it is as in \<^const>\<open>fifo_rep\<close>.
\<close>

definition releasing :: "FifoAllocator \<Rightarrow> nat list \<Rightarrow> nat \<Rightarrow> nat list \<Rightarrow> nat list \<Rightarrow> nat \<Rightarrow> bool" where
  "releasing s L c R fs a \<longleftrightarrow>
     links s (L @ c # R) fs \<and> fa_active s = Some a \<and> fa_size s < kNullOffset \<and>
     dom (data s) = set (L @ c # R) \<union> set fs \<and> (\<forall>f \<in> set fs. \<not> fst (the (data s f))) \<and>
     tiles 0 (node_views (data s) (L @ c # R)) (unat (fa_size s)) \<and>
     a \<in> set (L @ c # R) \<and> \<not> fst (the (data s a)) \<and> \<not> fst (the (data s c)) \<and>
     (\<forall>p \<in> set (L @ c # R). p \<noteq> a \<or> p = c \<longrightarrow> fst (snd (the (data s p))) \<noteq> 0) \<and>
     successively one_allocated (node_views (data s) L) \<and>
     successively one_allocated (node_views (data s) R)"

lemma word_add_neq_0:
  fixes x y :: u64
  assumes "unat x + unat y < 2 ^ 64" "x \<noteq> 0 \<or> y \<noteq> 0"
  shows "x + y \<noteq> 0"
proof -
  have "unat (x + y) = unat x + unat y" using assms(1) by (simp add: unat_word_ariths)
  then show ?thesis using assms(2) by (auto simp flip: unat_eq_zero)
qed

lemma tiles_sum_less:
  assumes "tiles b (xs @ (al, s1, o1) # (al', s2, o2) # ys) e" "e < 2 ^ 64"
  shows "unat s1 + unat s2 < 2 ^ 64"
proof -
  from assms(1) obtain m where "unat o1 = m" "tiles (m + unat s1 + unat s2) ys e" by (auto simp: tiles_append)
  with tiles_le [OF this(2)] assms(2) show ?thesis by simp
qed

lemma coalesce_next_rep:
  assumes rel: "releasing s L c R fs a" and L: "L = [] \<or> fst (the (data s (last L)))"
  shows "\<exists>s' ps' fs' a'. coalesce_next (Some c) s = Inr s' \<and> fifo_rep s' ps' fs' a' \<and>
    allocated s' = allocated s \<and> fa_size s' = fa_size s"
proof -
  have l: "links s (L @ c # R) fs" and act: "fa_active s = Some a" using rel by (auto simp: releasing_def)
  from links_split [OF l] obtain r where r: "fa_heap s c = Some r" "rg_next r = first_ptr R None"
    "c \<notin> set L" "c \<notin> set R" "c \<notin> set fs" "set L \<inter> set R = {}" by metis
  have dc: "data s c = Some (False, rg_size r, rg_offset r)"
    using rel r by (auto simp: releasing_def data_def view_def)
  have N: "unat (fa_size s) < 2 ^ 64" using unat_less_2p [of "fa_size s"] by simp
  have Lc: "successively one_allocated (node_views (data s) L @ v # vs)"
    if "successively one_allocated (v # vs)" for v vs
    using that rel L by (cases L rule: rev_cases)
      (auto simp: releasing_def successively_append_iff one_allocated_def successively_Cons)
  show ?thesis
  proof (cases R)
    case Nil
    then have "coalesce_next (Some c) s = Inr s" using r by (simp add: coalesce_next_def deref_some)
    moreover have "fifo_rep s (L @ [c]) fs a"
      using rel Lc [of "the (data s c)" "[]"] by (auto simp: releasing_def fifo_rep_def regions_ok_def Nil)
    ultimately show ?thesis by blast
  next
    case (Cons n R')
    from links_data [OF l, of n] Cons obtain rn where rn: "fa_heap s n = Some rn" "data s n = Some (view rn)"
      by auto
    show ?thesis
    proof (cases "rg_allocated rn")
      case True
      then have "coalesce_next (Some c) s = Inr s" using r rn Cons by (simp add: coalesce_next_def deref_some)
      moreover have "fifo_rep s (L @ c # R) fs a"
        using rel Lc [of "the (data s c)" "node_views (data s) R"] True rn
        by (auto simp: releasing_def fifo_rep_def regions_ok_def Cons successively_Cons one_allocated_def view_def)
      ultimately show ?thesis by blast
    next
      case False
      let ?f = "\<lambda>n. n\<lparr>rg_offset := rg_offset r, rg_size := rg_size n + rg_size r\<rparr>"
      have "\<exists>s'. store (Some n) ?f s = Inr s' \<and> links s' (L @ c # R) fs \<and> same_ends s s' \<and>
          data s' = (data s)(n \<mapsto> view (?f rn)) \<and> fa_heap s' = (fa_heap s)(n \<mapsto> ?f rn)"
        using rn by (intro store_data_links [OF l]) (auto simp: Cons)
      then obtain s1 where s1: "store (Some n) ?f s = Inr s1" "links s1 (L @ c # R) fs" "same_ends s s1"
        "data s1 = (data s)(n \<mapsto> (False, rg_size rn + rg_size r, rg_offset r))"
        using False by (auto simp: view_def)
      define s2 where "s2 = (if fa_active s1 = Some c then s1\<lparr>fa_active := Some n\<rparr> else s1)"
      define a' where "a' = (if a = c then n else a)"
      have s2: "links s2 (L @ c # R) fs" "data s2 = data s1" "fa_active s2 = Some a'" "fa_size s2 = fa_size s"
        using s1 act by (auto simp: s2_def a'_def same_ends_def)
      have "L @ R \<noteq> []" by (simp add: Cons)
      from remove_put_free [OF s2(1) this] obtain s3 where
        s3: "rbind (remove (Some c) s2) (put_free (Some c)) = Inr s3" "links s3 (L @ R) (c # fs)"
          "same_ends s2 s3" "data s3 = data s2" by blast
      have run: "coalesce_next (Some c) s = Inr s3"
        using r rn Cons False s1(1) s3(1) by (auto simp: coalesce_next_def deref_some s2_def split: if_splits)
      have nin: "n \<noteq> c" "n \<notin> set L" "n \<notin> set R'" using l by (auto simp: links_def Cons)
      have dn: "data s n = Some (False, rg_size rn, rg_offset rn)" using rn False by (simp add: view_def)
      have t: "tiles 0 (node_views (data s) L @ (False, rg_size r, rg_offset r) #
          (False, rg_size rn, rg_offset rn) # node_views (data s) R') (unat (fa_size s))"
        using rel dc dn by (simp add: releasing_def Cons)
      have d3: "data s3 = (data s)(n \<mapsto> (False, rg_size rn + rg_size r, rg_offset r))"
        using s3(4) s2(2) s1(4) by simp
      have "rg_size r \<noteq> 0" using rel dc by (auto simp: releasing_def)
      with tiles_sum_less [OF t N] have nz: "rg_size rn + rg_size r \<noteq> 0"
        by (intro word_add_neq_0) simp_all
      have "successively one_allocated ((False, rg_size rn, rg_offset rn) # node_views (data s) R')"
        using rel dn by (auto simp: releasing_def Cons)
      then have "successively one_allocated ((False, rg_size rn + rg_size r, rg_offset r) # node_views (data s) R')"
        by (cases R') (auto simp: one_allocated_def)
      from Lc [OF this] tiles_merge(1) [OF t N, of False]
      have "regions_ok (unat (fa_size s)) (L @ R) (data s3) a'"
        using rel nin nz r(3,4) by (auto simp: releasing_def regions_ok_def Cons d3 a'_def)
      then have "fifo_rep s3 (L @ R) (c # fs) a'"
        using rel s2(3,4) s3(2,3) dc nin r(3-5) by (auto simp: fifo_rep_def releasing_def same_ends_def d3 Cons)
      moreover have "allocated s3 = allocated s"
        unfolding d3 by (rule allocated_in_upd) (simp add: not_allocated_def dn)
      ultimately show ?thesis using run s2(4) s3(3) by (auto simp: same_ends_def)
    qed
  qed
qed


lemma coalesce_prev_rep:
  assumes rel: "releasing s L p R fs a" and pa: "p \<noteq> a"
  shows "\<exists>c s' L' fs'. coalesce_prev (Some p) s = Inr (Some c, s') \<and> releasing s' L' c R fs' a \<and>
    (L' = [] \<or> fst (the (data s' (last L')))) \<and> allocated s' = allocated s \<and> fa_size s' = fa_size s"
proof -
  have l: "links s (L @ p # R) fs" and act: "fa_active s = Some a" using rel by (auto simp: releasing_def)
  from links_split [OF l] obtain r where r: "fa_heap s p = Some r" "rg_prev r = last_ptr None L"
    "p \<notin> set L" "p \<notin> set R" "p \<notin> set fs" "set L \<inter> set R = {}" by metis
  have dp: "data s p = Some (False, rg_size r, rg_offset r)"
    using rel r by (auto simp: releasing_def data_def view_def)
  have N: "unat (fa_size s) < 2 ^ 64" using unat_less_2p [of "fa_size s"] by simp
  show ?thesis
  proof (cases L rule: rev_cases)
    case Nil
    then have "coalesce_prev (Some p) s = Inr (Some p, s)" using r by (simp add: coalesce_prev_def deref_some)
    with rel Nil show ?thesis by blast
  next
    case (snoc K q)
    from links_data [OF l, of q] snoc obtain rq where rq: "fa_heap s q = Some rq" "data s q = Some (view rq)"
      by auto
    show ?thesis
    proof (cases "rg_allocated rq")
      case True
      then have "coalesce_prev (Some p) s = Inr (Some p, s)"
        using r rq snoc by (simp add: coalesce_prev_def deref_some)
      moreover have "fst (the (data s (last L)))" using True rq snoc by (simp add: view_def)
      ultimately show ?thesis using rel by blast
    next
      case False
      let ?f = "\<lambda>q. q\<lparr>rg_size := rg_size q + rg_size r\<rparr>"
      have "\<exists>s'. store (Some q) ?f s = Inr s' \<and> links s' (L @ p # R) fs \<and> same_ends s s' \<and>
          data s' = (data s)(q \<mapsto> view (?f rq)) \<and> fa_heap s' = (fa_heap s)(q \<mapsto> ?f rq)"
        using rq by (intro store_data_links [OF l]) (auto simp: snoc)
      then obtain s1 where s1: "store (Some q) ?f s = Inr s1" "links s1 (L @ p # R) fs" "same_ends s s1"
        "data s1 = (data s)(q \<mapsto> (False, rg_size rq + rg_size r, rg_offset rq))"
        using False by (auto simp: view_def)
      have "L @ R \<noteq> []" by (simp add: snoc)
      from remove_put_free [OF s1(2) this] obtain s2 where
        s2: "rbind (remove (Some p) s1) (put_free (Some p)) = Inr s2" "links s2 (L @ R) (p # fs)"
          "same_ends s1 s2" "data s2 = data s1" by blast
      have "coalesce_prev (Some p) s =
          rbind (rbind (remove (Some p) s1) (put_free (Some p))) (\<lambda>s. Inr (Some q, s))"
        using r rq snoc False s1(1) by (simp add: coalesce_prev_def deref_some rbind_assoc)
      then have run: "coalesce_prev (Some p) s = Inr (Some q, s2)" by (simp add: s2(1))
      have nin: "q \<noteq> p" "q \<notin> set K" "q \<notin> set R" "q \<notin> set fs" using l by (auto simp: links_def snoc)
      have dq: "data s q = Some (False, rg_size rq, rg_offset rq)" using rq False by (simp add: view_def)
      have t: "tiles 0 (node_views (data s) K @ (False, rg_size rq, rg_offset rq) #
          (False, rg_size r, rg_offset r) # node_views (data s) R) (unat (fa_size s))"
        using rel dp dq by (simp add: releasing_def snoc)
      have d2: "data s2 = (data s)(q \<mapsto> (False, rg_size rq + rg_size r, rg_offset rq))"
        using s2(4) s1(4) by simp
      have "rg_size r \<noteq> 0" using rel dp by (auto simp: releasing_def)
      with tiles_sum_less [OF t N] have nz: "rg_size rq + rg_size r \<noteq> 0"
        by (intro word_add_neq_0) simp_all
      have K: "successively one_allocated (node_views (data s) K)" "K = [] \<or> fst (the (data s (last K)))"
        using rel dq unfolding releasing_def snoc
        by (cases K rule: rev_cases; auto simp: successively_append_iff one_allocated_def)+
      have "releasing s2 K q R (p # fs) a"
        using rel s1(3) s2(2,3) nin nz r(3-5) K(1) dp pa tiles_merge(2) [OF t N, of False]
        by (auto simp: releasing_def same_ends_def d2 snoc)
      moreover have "K = [] \<or> fst (the (data s2 (last K)))"
        using K(2) nin(2) by (auto simp: d2) (metis last_in_set)
      moreover have "allocated s2 = allocated s"
        unfolding d2 by (rule allocated_in_upd) (simp add: not_allocated_def dq)
      ultimately show ?thesis using run s1(3) s2(3) by (auto simp: same_ends_def)
    qed
  qed
qed


lemma fifo_rep_order:
  assumes rep: "fifo_rep s ps fs a" and ps: "ps = L @ p # R" and p: "data s p = Some (al, sz, off)"
  shows "q \<in> set L \<Longrightarrow> data s q = Some (al', sz', off') \<Longrightarrow> unat off' + unat sz' \<le> unat off"
    and "q \<in> set R \<Longrightarrow> data s q = Some (al', sz', off') \<Longrightarrow> unat off + unat sz \<le> unat off'"
proof -
  have "tiles 0 (node_views (data s) L @ (al, sz, off) # node_views (data s) R) (unat (fa_size s))"
    using rep p by (simp add: fifo_rep_def regions_ok_def ps)
  note tb = tiles_before [OF this, of al' sz' off']
  show "unat off' + unat sz' \<le> unat off" if "q \<in> set L" "data s q = Some (al', sz', off')"
    using that by (intro tb(1)) (force simp: image_iff)
  show "unat off + unat sz \<le> unat off'" if "q \<in> set R" "data s q = Some (al', sz', off')"
    using that by (intro tb(2)) (force simp: image_iff)
qed

lemma allocated_node:
  assumes rep: "fifo_rep s ps fs a" and "(off, sz) \<in> allocated s"
  obtains p where "p \<in> set ps" "p \<noteq> a" "data s p = Some (True, sz, off)" "0 < unat sz"
proof -
  from assms(2) obtain p where p: "data s p = Some (True, sz, off)" by (auto simp: allocated_in_def)
  then have "p \<in> set ps \<union> set fs" "p \<notin> set fs" "p \<noteq> a"
    using rep by (auto simp: fifo_rep_def regions_ok_def)
  moreover from this have "sz \<noteq> 0" using rep p by (auto simp: fifo_rep_def regions_ok_def)
  ultimately show ?thesis using p that by (auto simp: unat_gt_0)
qed

lemma allocated_in_release:
  assumes "\<And>q. q \<noteq> p \<Longrightarrow> d q \<noteq> Some (True, sz, off)" "d p = Some (True, sz, off)"
  shows "allocated_in (d(p \<mapsto> (False, z, w))) = allocated_in d - {(off, sz)}"
proof -
  have "(\<exists>q. (d(p \<mapsto> (False, z, w))) q = Some (True, y, x)) \<longleftrightarrow>
      (\<exists>q. d q = Some (True, y, x)) \<and> (x, y) \<noteq> (off, sz)" for x y
  proof -
    have "(\<exists>q. (d(p \<mapsto> (False, z, w))) q = Some (True, y, x)) \<longleftrightarrow> (\<exists>q. q \<noteq> p \<and> d q = Some (True, y, x))"
      by (auto split: if_splits)
    also have "\<dots> \<longleftrightarrow> (\<exists>q. d q = Some (True, y, x)) \<and> (x, y) \<noteq> (off, sz)"
    proof (cases "(x, y) = (off, sz)")
      case True
      with assms(1) show ?thesis by auto
    next
      case False
      then have "q \<noteq> p" if "d q = Some (True, y, x)" for q using that assms(2) by auto
      with False show ?thesis by auto
    qed
    finally show ?thesis .
  qed
  then show ?thesis unfolding allocated_in_def by auto
qed

lemma release_mark:
  assumes rep: "fifo_rep s ps fs a" and p: "p \<in> set ps" "p \<noteq> a" "data s p = Some (True, sz, off)"
    "0 < unat sz"
  shows "\<exists>s1 L R. store (Some p) (\<lambda>r. r\<lparr>rg_allocated := False\<rparr>) s = Inr s1 \<and> releasing s1 L p R fs a \<and>
    allocated s1 = allocated s - {(off, sz)} \<and> fa_size s1 = fa_size s"
proof -
  from p(1) obtain L R where ps: "ps = L @ p # R" by (meson split_list)
  from rep have l: "links s ps fs" by (simp add: fifo_rep_def)
  then have nin: "p \<notin> set L" "p \<notin> set R" "p \<notin> set fs" by (auto simp: links_def ps)
  from data_node [OF p(3)] obtain r where r: "fa_heap s p = Some r" "rg_size r = sz" "rg_offset r = off" by blast
  have "\<exists>s'. store (Some p) (\<lambda>r. r\<lparr>rg_allocated := False\<rparr>) s = Inr s' \<and> links s' ps fs \<and> same_ends s s' \<and>
      data s' = (data s)(p \<mapsto> view (r\<lparr>rg_allocated := False\<rparr>)) \<and>
      fa_heap s' = (fa_heap s)(p \<mapsto> r\<lparr>rg_allocated := False\<rparr>)"
    using r p(1) by (intro store_data_links [OF l]) auto
  then obtain s1 where s1: "store (Some p) (\<lambda>r. r\<lparr>rg_allocated := False\<rparr>) s = Inr s1" "links s1 ps fs"
    "same_ends s s1" "data s1 = (data s)(p \<mapsto> (False, sz, off))"
    using r by (auto simp: view_def)
  have old: "tiles 0 (node_views (data s) L @ (True, sz, off) # node_views (data s) R) (unat (fa_size s))"
    "successively one_allocated (node_views (data s) L @ (True, sz, off) # node_views (data s) R)"
    using rep p(3) by (auto simp: fifo_rep_def regions_ok_def ps)
  have "releasing s1 L p R fs a"
    using rep s1 nin p old tiles_flag [OF old(1), of False]
    by (auto simp: releasing_def fifo_rep_def regions_ok_def same_ends_def ps successively_append_iff
        successively_Cons)
  moreover have "data s q \<noteq> Some (True, sz, off)" if "q \<noteq> p" for q
  proof
    assume q: "data s q = Some (True, sz, off)"
    then have "q \<in> set ps \<union> set fs" "q \<notin> set fs" using rep by (auto simp: fifo_rep_def)
    with that have "q \<in> set L \<or> q \<in> set R" by (auto simp: ps)
    with fifo_rep_order [OF rep ps p(3) _ q] p(4) show False by auto
  qed
  then have "allocated s1 = allocated s - {(off, sz)}"
    unfolding s1(4) using p(3) by (rule allocated_in_release)
  ultimately show ?thesis using s1 by (auto simp: same_ends_def)
qed

lemma release_found_rep:
  assumes rep: "fifo_rep s ps fs a" and p: "p \<in> set ps" "p \<noteq> a" "data s p = Some (True, sz, off)"
    "0 < unat sz"
  shows "\<exists>s'. release_found sz (Some p) s = Inr s' \<and> fifo_inv s' \<and>
    allocated s' = allocated s - {(off, sz)} \<and> fa_size s' = fa_size s"
proof -
  from release_mark [OF assms] obtain s1 L R where s1:
    "store (Some p) (\<lambda>r. r\<lparr>rg_allocated := False\<rparr>) s = Inr s1" "releasing s1 L p R fs a"
    "allocated s1 = allocated s - {(off, sz)}" "fa_size s1 = fa_size s" by blast
  from coalesce_prev_rep [OF s1(2) p(2)] obtain c s2 L2 fs2 where s2:
    "coalesce_prev (Some p) s1 = Inr (Some c, s2)" "releasing s2 L2 c R fs2 a"
    "L2 = [] \<or> fst (the (data s2 (last L2)))" "allocated s2 = allocated s1" "fa_size s2 = fa_size s1" by blast
  from coalesce_next_rep [OF s2(2,3)] obtain s3 ps3 fs3 a3 where s3:
    "coalesce_next (Some c) s2 = Inr s3" "fifo_rep s3 ps3 fs3 a3" "allocated s3 = allocated s2"
    "fa_size s3 = fa_size s2" by blast
  from data_node [OF p(3)] obtain r where "fa_heap s p = Some r" "rg_allocated r" "rg_size r = sz" by blast
  then have "release_found sz (Some p) s = Inr s3"
    using s1(1) s2(1) s3(1) by (simp add: release_found_def deref_some)
  with s1 s2 s3 show ?thesis by (auto simp: fifo_inv_def)
qed

lemma find_offset:
  assumes "\<And>q. q \<in> set A \<Longrightarrow> rg_offset (the (fa_heap s q)) \<noteq> off"
    "fa_heap s p = Some r" "rg_offset r = off"
  shows "find (\<lambda>p. rg_offset (the (fa_heap s p)) = off) (A @ p # B) = Some p"
  using assms by (induction A) auto

lemma ReleaseRegion_rep:
  assumes rep: "fifo_rep s ps fs a" and mem: "(off, sz) \<in> allocated s"
  shows "\<exists>s'. ReleaseRegion sz off s = Inr s' \<and> fifo_inv s' \<and>
    allocated s' = allocated s - {(off, sz)} \<and> fa_size s' = fa_size s"
proof -
  from allocated_node [OF assms] obtain p where p: "p \<in> set ps" "p \<noteq> a" "data s p = Some (True, sz, off)"
    "0 < unat sz" .
  from data_node [OF p(3)] obtain rp where rp: "fa_heap s p = Some rp" "rg_offset rp = off" by blast
  from fifo_rep_split [OF rep] obtain xs ys where ps: "ps = xs @ a # ys" "links s (xs @ a # ys) fs"
    "a \<notin> set xs" "a \<notin> set ys" .
  from links_split [OF ps(2)] obtain r where r: "fa_heap s a = Some r" "rg_next r = first_ptr ys None"
    "dll (fa_heap s) None xs (Some a)" "dll (fa_heap s) (Some a) ys None" by metis
  from rep ps have act: "fa_active s = Some a" and front: "fa_front s = first_ptr xs (Some a)"
    by (auto simp: fifo_rep_def links_def)
  let ?P = "\<lambda>r. rg_offset r = off"
  have segs: "None \<notin> Some ` set ys" "Some a \<notin> Some ` set xs" using ps by auto
  note fy = find_region_dll [OF r(4) segs(1), of ?P] and fx = find_region_dll [OF r(3) segs(2), of ?P]
  have other: "rg_offset (the (fa_heap s q)) \<noteq> off"
    if "ps = A @ p # B" "q \<in> set A \<union> set B" "q \<noteq> a" for A B q
  proof -
    from that(1,2) have qin: "q \<in> set ps" by auto
    from fifo_rep_node [OF rep qin] obtain rq where rq: "fa_heap s q = Some rq" "data s q = Some (view rq)" .
    have "rg_size rq \<noteq> 0" using rep rq qin that(3) by (auto simp: fifo_rep_def regions_ok_def view_def)
    then have "0 < unat (rg_size rq)" by (simp add: unat_gt_0)
    with that(2) fifo_rep_order [OF rep that(1) p(3), of q] rq p(4)
    have "unat (rg_offset rq) \<noteq> unat off" by (fastforce simp: view_def)
    with rq show ?thesis by auto
  qed
  note rel = release_found_rep [OF rep p]
  show ?thesis
  proof (cases "p \<in> set ys")
    case True
    then obtain A B where ys: "ys = A @ p # B" by (meson split_list)
    have "find (\<lambda>p. rg_offset (the (fa_heap s p)) = off) (A @ p # B) = Some p"
    proof (rule find_offset [OF _ rp])
      fix q assume "q \<in> set A"
      then show "rg_offset (the (fa_heap s q)) \<noteq> off"
        using ps(4) by (intro other [of "xs @ a # A" B]) (auto simp: ps(1) ys)
    qed
    then have "Release sz off (first_ptr ys None) None s =
        rbind (release_found sz (Some p) s) (\<lambda>s. Inr (True, s))"
      using fy by (simp add: Release_def ys)
    then show ?thesis using rel r(1,2) by (auto simp: ReleaseRegion_def act deref_some)
  next
    case False
    with p ps have "p \<in> set xs" by auto
    then obtain A B where xs: "xs = A @ p # B" by (meson split_list)
    have "find (\<lambda>p. rg_offset (the (fa_heap s p)) = off) (A @ p # B) = Some p"
    proof (rule find_offset [OF _ rp])
      fix q assume "q \<in> set A"
      then show "rg_offset (the (fa_heap s q)) \<noteq> off"
        using ps(3) by (intro other [of A "B @ a # ys"]) (auto simp: ps(1) xs)
    qed
    then have second: "Release sz off (fa_front s) (fa_active s) s =
        rbind (release_found sz (Some p) s) (\<lambda>s. Inr (True, s))"
      using fx by (cases A) (simp_all add: Release_def xs front act)
    have "find (\<lambda>p. rg_offset (the (fa_heap s p)) = off) ys = None"
    proof -
      have "rg_offset (the (fa_heap s q)) \<noteq> off" if "q \<in> set ys" for q
        using that ps(4) by (intro other [of A "B @ a # ys"]) (auto simp: ps(1) xs)
      then show ?thesis by (auto simp: find_None_iff)
    qed
    then have "Release sz off (first_ptr ys None) None s = Inr (False, s)"
      using fy by (simp add: Release_def)
    then show ?thesis using rel second r(1,2) by (auto simp: ReleaseRegion_def act deref_some)
  qed
qed

section \<open>Construction and destruction\<close>

lemma delete_loop_sll:
  "sll h ps \<Longrightarrow> distinct ps \<Longrightarrow>
     delete_loop (first_ptr ps None) h = Some (Inr (\<lambda>a. if a \<in> set ps then None else h a))"
proof (induction ps arbitrary: h)
  case Nil
  then show ?case by (simp add: delete_loop.simps)
next
  case (Cons p ps)
  then obtain r where r: "h p = Some r" "rg_next r = first_ptr ps None" "sll h ps" "p \<notin> set ps" by auto
  have "sll (h(p := None)) ps" using r by (intro sll_frame [OF r(3)]) auto
  then have "delete_loop (first_ptr ps None) (h(p := None)) =
      Some (Inr (\<lambda>a. if a \<in> set ps then None else (h(p := None)) a))"
    using Cons.IH Cons.prems(2) by simp
  moreover have "(\<lambda>a. if a \<in> set ps then None else (h(p := None)) a) =
      (\<lambda>a. if a \<in> set (p # ps) then None else h a)" by (auto simp: fun_eq_iff)
  ultimately show ?case using r by (subst delete_loop.simps) simp
qed

lemma dll_sll: "dll h pv ps None \<Longrightarrow> sll h ps"
  by (induction ps arbitrary: pv) auto

lemma delete_all:
  assumes "fifo_inv s"
  shows "rbind (DeleteFrontToBack (fa_front s) s) (\<lambda>s. DeleteFrontToBack (fa_free s) s) =
    Inr (s\<lparr>fa_heap := Map.empty\<rparr>)"
proof -
  from assms obtain ps fs a where "fifo_rep s ps fs a" by (auto simp: fifo_inv_def)
  then have l: "links s ps fs" and d: "dom (fa_heap s) = set ps \<union> set fs"
    by (simp_all add: fifo_rep_def dom_data)
  let ?h = "\<lambda>a. if a \<in> set ps then None else fa_heap s a"
  have "sll (fa_heap s) ps" "distinct ps" "distinct fs" using l by (auto simp: links_def intro: dll_sll)
  then have "delete_loop (fa_front s) (fa_heap s) = Some (Inr ?h)"
    using delete_loop_sll l by (simp add: links_def)
  moreover have "sll ?h fs" using links_fs_notin [OF l] by (intro sll_frame [OF links_sll [OF l]]) auto
  then have "delete_loop (fa_free s) ?h = Some (Inr (\<lambda>a. if a \<in> set fs then None else ?h a))"
    using delete_loop_sll \<open>distinct fs\<close> l by (simp add: links_def)
  moreover have "(\<lambda>a. if a \<in> set fs then None else ?h a) = Map.empty"
    using d by (auto simp: fun_eq_iff)
  ultimately show ?thesis by (simp add: DeleteFrontToBack_def)
qed

lemma initial_region:
  assumes "sz < kNullOffset" "fa_heap s = Map.empty"
  shows "\<exists>s'. rbind (get_free False sz 0 (s\<lparr>fa_size := sz, fa_free := None\<rparr>)) (\<lambda>(p, s).
        rbind (store p (\<lambda>r. r\<lparr>rg_prev := None\<rparr>) (s\<lparr>fa_front := p, fa_back := p, fa_active := p\<rparr>)) (\<lambda>s.
          store p (\<lambda>r. r\<lparr>rg_next := None\<rparr>) s)) = Inr s' \<and>
    fifo_inv s' \<and> allocated s' = {} \<and> fa_size s' = sz"
proof -
  define b where "b = fa_brk s"
  define r where "r = \<lparr>rg_allocated = False, rg_size = sz, rg_offset = 0, rg_prev = None, rg_next = None\<rparr>"
  define s' where "s' = s\<lparr>fa_size := sz, fa_front := Some b, fa_back := Some b, fa_free := None,
      fa_active := Some b, fa_heap := [b \<mapsto> r], fa_brk := Suc b\<rparr>"
  have "data s' = [b \<mapsto> (False, sz, 0)]" by (auto simp: s'_def data_def r_def view_def fun_eq_iff)
  moreover have "links s' [b] []" by (simp add: links_def s'_def r_def last_ptr_def)
  ultimately have "fifo_rep s' [b] [] b" "allocated s' = {}"
    using assms(1) by (auto simp: fifo_rep_def s'_def regions_ok_def allocated_in_def split: if_splits)
  then show ?thesis using assms(2)
    by (intro exI [of _ s']) (auto simp: get_free_def store_def s'_def r_def b_def fifo_inv_def)
qed

lemma FifoAllocator_new_inv:
  assumes "sz < kNullOffset"
  shows "\<exists>s. FifoAllocator_new sz junk = Inr s \<and> fifo_inv s \<and> allocated s = {} \<and> fa_size s = sz"
  using initial_region [OF assms, of "junk\<lparr>fa_front := None, fa_free := None, fa_heap := Map.empty\<rparr>"] assms
  by (simp add: FifoAllocator_new_def Reset_def DeleteFrontToBack_def delete_loop.simps)

lemma Reset_inv:
  assumes "fifo_inv s" "sz < kNullOffset"
  shows "\<exists>s'. Reset sz s = Inr s' \<and> fifo_inv s' \<and> allocated s' = {} \<and> fa_size s' = sz"
proof -
  have "Reset sz s = rbind (rbind (DeleteFrontToBack (fa_front s) s) (\<lambda>s. DeleteFrontToBack (fa_free s) s))
     (\<lambda>s. rbind (get_free False sz 0 (s\<lparr>fa_size := sz, fa_free := None\<rparr>)) (\<lambda>(p, s).
        rbind (store p (\<lambda>r. r\<lparr>rg_prev := None\<rparr>) (s\<lparr>fa_front := p, fa_back := p, fa_active := p\<rparr>)) (\<lambda>s.
          store p (\<lambda>r. r\<lparr>rg_next := None\<rparr>) s)))"
    using assms(2) by (simp add: Reset_def rbind_assoc)
  then show ?thesis
    using initial_region [OF assms(2), of "s\<lparr>fa_heap := Map.empty\<rparr>"] by (simp add: delete_all [OF assms(1)])
qed

section \<open>The interface of a region allocator\<close>

text \<open>
  What a client of an allocator of regions relies on: allocations are within the
  capacity and disjoint from every live region, they are refused only when there is no
  gap of the requested size, and a live region can be released.
\<close>

locale region_allocator =
  fixes alloc :: "u64 \<Rightarrow> 's \<Rightarrow> (u64 \<times> 's) res"
    and release :: "u64 \<Rightarrow> u64 \<Rightarrow> 's \<Rightarrow> 's res"
    and invar :: "'s \<Rightarrow> bool"
    and live :: "'s \<Rightarrow> (u64 \<times> u64) set"
    and capacity :: "'s \<Rightarrow> u64"
  assumes alloc_cases: "invar s \<Longrightarrow> n \<noteq> 0 \<Longrightarrow>
      (alloc n s = Inr (kNullOffset, s) \<and>
        (\<forall>b. b + unat n \<le> unat (capacity s) \<longrightarrow> (\<exists>r \<in> live s. overlaps r b (unat n)))) \<or>
      (\<exists>off s'. alloc n s = Inr (off, s') \<and> off \<noteq> kNullOffset \<and> invar s' \<and>
        live s' = insert (off, n) (live s) \<and> capacity s' = capacity s \<and>
        unat off + unat n \<le> unat (capacity s) \<and> (\<forall>r \<in> live s. \<not> overlaps r (unat off) (unat n)))"
    and release_live: "invar s \<Longrightarrow> (off, n) \<in> live s \<Longrightarrow>
      \<exists>s'. release n off s = Inr s' \<and> invar s' \<and> live s' = live s - {(off, n)} \<and> capacity s' = capacity s"
    and live_size: "invar s \<Longrightarrow> (off, n) \<in> live s \<Longrightarrow> n \<noteq> 0"
begin

lemma alloc_fresh:
  assumes "invar s" "n \<noteq> 0" "alloc n s = Inr (off, s')" "off \<noteq> kNullOffset"
  shows "(off, n) \<notin> live s"
proof
  assume mem: "(off, n) \<in> live s"
  then have "overlaps (off, n) (unat off) (unat n)"
    using assms(1,2) by (auto simp: overlaps_def unat_gt_0)
  with alloc_cases [OF assms(1,2)] assms(3,4) mem show False by auto
qed

text \<open>An allocation that is released again leaves the live regions as they were.\<close>

lemma alloc_release:
  assumes "invar s" "n \<noteq> 0" "alloc n s = Inr (off, s')" "off \<noteq> kNullOffset"
  shows "\<exists>s''. release n off s' = Inr s'' \<and> invar s'' \<and> live s'' = live s \<and> capacity s'' = capacity s"
proof -
  from alloc_cases [OF assms(1,2)] assms(3,4) have s': "invar s'" "live s' = insert (off, n) (live s)"
    "capacity s' = capacity s" by auto
  with release_live [of s' off n] alloc_fresh [OF assms] show ?thesis by auto
qed

text \<open>After a refusal, releasing does not lose capacity: a request is refused only for lack of a gap.\<close>

lemma alloc_empty_succeeds:
  assumes "invar s" "n \<noteq> 0" "live s = {}" "n \<le> capacity s"
  shows "\<exists>off s'. alloc n s = Inr (off, s') \<and> off \<noteq> kNullOffset \<and> live s' = {(off, n)}"
proof -
  have "0 + unat n \<le> unat (capacity s)" using assms(4) by (simp add: word_le_nat_alt)
  with alloc_cases [OF assms(1,2)] assms(3) show ?thesis by fastforce
qed

end

lemma fifo_live_size: "fifo_inv s \<Longrightarrow> (off, n) \<in> allocated s \<Longrightarrow> n \<noteq> 0"
  by (metis allocated_node fifo_inv_def less_irrefl unat_0)

interpretation fifo: region_allocator AllocateRegion ReleaseRegion fifo_inv allocated fa_size
proof unfold_locales
  show "\<exists>s'. ReleaseRegion n off s = Inr s' \<and> fifo_inv s' \<and> allocated s' = allocated s - {(off, n)} \<and>
      fa_size s' = fa_size s" if "fifo_inv s" "(off, n) \<in> allocated s" for s off n
    using that ReleaseRegion_rep unfolding fifo_inv_def by blast
qed (fact AllocateRegion_cases, fact fifo_live_size)

section \<open>Properties\<close>

text \<open>
  The constructor and \<^verbatim>\<open>Reset\<close> leave one free region and no allocation, and
  the destructor returns every node, of the list and of the lookaside, to the heap.
\<close>

lemma FifoAllocator_lifecycle:
  assumes "fifo_inv s" "sz < kNullOffset"
  shows "(\<exists>s0. FifoAllocator_new sz junk = Inr s0 \<and> fifo_inv s0 \<and> allocated s0 = {} \<and> fa_size s0 = sz) \<and>
    (\<exists>s'. Reset sz s = Inr s' \<and> fifo_inv s' \<and> allocated s' = {} \<and> fa_size s' = sz) \<and>
    (\<exists>s'. FifoAllocator_delete s = Inr s' \<and> fa_heap s' = Map.empty)"
  using FifoAllocator_new_inv [OF assms(2), of junk] Reset_inv [OF assms] delete_all [OF assms(1)]
  by (simp add: FifoAllocator_delete_def)


lemma live_disjoint:
  assumes "fifo_inv s" "(o1, n1) \<in> allocated s" "(o2, n2) \<in> allocated s" "(o1, n1) \<noteq> (o2, n2)"
  shows "\<not> overlaps (o1, n1) (unat o2) (unat n2)"
proof -
  from assms(1) obtain ps fs a where rep: "fifo_rep s ps fs a" by (auto simp: fifo_inv_def)
  from allocated_node [OF rep assms(2)] obtain p where p: "p \<in> set ps" "data s p = Some (True, n1, o1)" by metis
  from allocated_node [OF rep assms(3)] obtain q where q: "q \<in> set ps" "data s q = Some (True, n2, o2)" by metis
  from p(1) obtain L R where ps: "ps = L @ p # R" by (meson split_list)
  have "q \<noteq> p" using p(2) q(2) assms(4) by auto
  with q(1) have "q \<in> set L \<or> q \<in> set R" by (auto simp: ps)
  with fifo_rep_order [OF rep ps p(2) _ q(2)] show "\<not> overlaps (o1, n1) (unat o2) (unat n2)"
    by (auto simp: overlaps_def)
qed

lemma live_in_bounds:
  assumes "fifo_inv s" "(off, n) \<in> allocated s"
  shows "unat off + unat n \<le> unat (fa_size s)"
proof -
  from assms(1) obtain ps fs a where rep: "fifo_rep s ps fs a" by (auto simp: fifo_inv_def)
  from allocated_node [OF rep assms(2)] obtain p where "p \<in> set ps" "data s p = Some (True, n, off)" by metis
  then show ?thesis by (rule fifo_rep_bounds [OF rep])
qed

text \<open>
  The states of an allocator whose clients release only what they hold, in any
  order and with any interleaving of resets.
\<close>

inductive fifo_reachable :: "FifoAllocator \<Rightarrow> bool" where
  fifo_new: "sz < kNullOffset \<Longrightarrow> FifoAllocator_new sz junk = Inr s \<Longrightarrow> fifo_reachable s"
| fifo_reset: "fifo_reachable s \<Longrightarrow> sz < kNullOffset \<Longrightarrow> Reset sz s = Inr s' \<Longrightarrow> fifo_reachable s'"
| fifo_alloc: "fifo_reachable s \<Longrightarrow> sz \<noteq> 0 \<Longrightarrow> AllocateRegion sz s = Inr (off, s') \<Longrightarrow> fifo_reachable s'"
| fifo_release: "fifo_reachable s \<Longrightarrow> (off, sz) \<in> allocated s \<Longrightarrow> ReleaseRegion sz off s = Inr s' \<Longrightarrow>
    fifo_reachable s'"

lemma fifo_reachable_inv: "fifo_reachable s \<Longrightarrow> fifo_inv s"
proof (induction rule: fifo_reachable.induct)
  case (fifo_new sz junk s)
  with FifoAllocator_new_inv [of sz junk] show ?case by auto
next
  case (fifo_reset s sz s')
  with Reset_inv [of s sz] show ?case by auto
next
  case (fifo_alloc s sz off s')
  with fifo.alloc_cases [of s sz] show ?case by auto
next
  case (fifo_release s off sz s')
  with fifo.release_live [of s off sz] show ?case by auto
qed

text \<open>
  C1. Whatever sequence of allocations, releases of live regions and resets an
  allocator goes through, its regions tile the buffer without adjacent free ones
  (the invariant), and any two live regions are disjoint and inside the buffer.
\<close>

theorem fifo_reachable_safe:
  assumes "fifo_reachable s"
  shows "fifo_inv s \<and> (\<forall>(off, n) \<in> allocated s. unat off + unat n \<le> unat (fa_size s)) \<and>
    (\<forall>(off, n) \<in> allocated s. \<forall>(off', n') \<in> allocated s.
       (off, n) \<noteq> (off', n') \<longrightarrow> \<not> overlaps (off, n) (unat off') (unat n'))"
proof -
  have inv: "fifo_inv s" by (rule fifo_reachable_inv [OF assms])
  from inv live_in_bounds [OF inv] live_disjoint [OF inv] show ?thesis by blast
qed

definition fifo_junk :: FifoAllocator where
  "fifo_junk = \<lparr>fa_size = 7, fa_front = None, fa_back = None, fa_free = None, fa_active = None,
     fa_heap = Map.empty, fa_brk = 0\<rparr>"

definition fifo100 :: FifoAllocator where
  "fifo100 = \<lparr>fa_size = 100, fa_front = Some 0, fa_back = Some 0, fa_free = None, fa_active = Some 0,
     fa_heap = [0 \<mapsto> \<lparr>rg_allocated = False, rg_size = 100, rg_offset = 0, rg_prev = None, rg_next = None\<rparr>],
     fa_brk = 1\<rparr>"

lemma fifo100_new: "FifoAllocator_new 100 fifo_junk = Inr fifo100"
  by (simp add: FifoAllocator_new_def Reset_def kNullOffset_def DeleteFrontToBack_def delete_loop.simps
      get_free_def store_def fifo_junk_def fifo100_def)

lemma fifo100_inv: "fifo_reachable fifo100" "fifo_inv fifo100" "allocated fifo100 = {}"
proof -
  show "fifo_reachable fifo100" by (rule fifo_new [OF _ fifo100_new]) (simp add: kNullOffset_def)
  show "fifo_inv fifo100" "allocated fifo100 = {}"
    using FifoAllocator_new_inv [of 100 fifo_junk] fifo100_new by (auto simp: kNullOffset_def)
qed

theorem fifo_reachable_safe_witness: "fifo_reachable fifo100 \<and> fifo_inv fifo100"
  using fifo100_inv(1) fifo_reachable_safe [OF fifo100_inv(1)] by blast

text \<open>
  C2. An allocation of a non-zero size never faults. It is refused, with the state
  unchanged, exactly when no gap of that size is left; otherwise the returned region
  lies inside the buffer, overlaps no live region, becomes live, and the
  invariant is kept.
\<close>

theorem AllocateRegion_complete:
  assumes "fifo_inv s" "sz \<noteq> 0"
  shows "\<exists>off s'. AllocateRegion sz s = Inr (off, s') \<and> fifo_inv s' \<and>
    (if \<exists>b. b + unat sz \<le> unat (fa_size s) \<and> (\<forall>r \<in> allocated s. \<not> overlaps r b (unat sz))
     then off \<noteq> kNullOffset \<and> allocated s' = insert (off, sz) (allocated s) \<and>
       unat off + unat sz \<le> unat (fa_size s) \<and> (\<forall>r \<in> allocated s. \<not> overlaps r (unat off) (unat sz))
     else off = kNullOffset \<and> s' = s)"
  using fifo.alloc_cases [OF assms]
proof (elim disjE conjE exE)
  assume f: "AllocateRegion sz s = Inr (kNullOffset, s)"
    "\<forall>b. b + unat sz \<le> unat (fa_size s) \<longrightarrow> (\<exists>r \<in> allocated s. overlaps r b (unat sz))"
  then have "\<not> (\<exists>b. b + unat sz \<le> unat (fa_size s) \<and> (\<forall>r \<in> allocated s. \<not> overlaps r b (unat sz)))" by blast
  then show ?thesis using f(1) assms(1) by (simp only: if_False) blast
next
  fix off s'
  assume f: "AllocateRegion sz s = Inr (off, s')" "off \<noteq> kNullOffset" "fifo_inv s'"
    "allocated s' = insert (off, sz) (allocated s)" "unat off + unat sz \<le> unat (fa_size s)"
    "\<forall>r \<in> allocated s. \<not> overlaps r (unat off) (unat sz)"
  then have "\<exists>b. b + unat sz \<le> unat (fa_size s) \<and> (\<forall>r \<in> allocated s. \<not> overlaps r b (unat sz))" by blast
  then show ?thesis using f by (simp only: if_True) blast
qed

theorem AllocateRegion_complete_witness:
  "\<exists>off s'. AllocateRegion 30 fifo100 = Inr (off, s') \<and> off \<noteq> kNullOffset \<and> allocated s' = {(off, 30)}"
proof -
  have "0 + unat (30::u64) \<le> unat (fa_size fifo100)" by (simp add: fifo100_def)
  then have "\<exists>b. b + unat (30::u64) \<le> unat (fa_size fifo100) \<and>
      (\<forall>r \<in> allocated fifo100. \<not> overlaps r b (unat (30::u64)))"
    unfolding fifo100_inv(3) by blast
  with AllocateRegion_complete [OF fifo100_inv(2), of 30] show ?thesis
    unfolding fifo100_inv(3) by auto
qed

text \<open>
  C3. Releasing a live region never faults, removes exactly that region from the
  live ones, merges it with free neighbours so that the invariant is kept, and
  makes room for an allocation of the same size again.
\<close>

theorem ReleaseRegion_complete:
  assumes "fifo_inv s" "(off, sz) \<in> allocated s"
  shows "\<exists>s'. ReleaseRegion sz off s = Inr s' \<and> fifo_inv s' \<and> allocated s' = allocated s - {(off, sz)} \<and>
    (\<exists>off' s''. AllocateRegion sz s' = Inr (off', s'') \<and> off' \<noteq> kNullOffset)"
proof -
  from fifo.release_live [OF assms] obtain s' where s': "ReleaseRegion sz off s = Inr s'" "fifo_inv s'"
    "allocated s' = allocated s - {(off, sz)}" "fa_size s' = fa_size s" by blast
  have nz: "sz \<noteq> 0" using fifo_live_size [OF assms] .
  have "unat off + unat sz \<le> unat (fa_size s')" using live_in_bounds [OF assms] s'(4) by simp
  moreover have "\<forall>r \<in> allocated s'. \<not> overlaps r (unat off) (unat sz)"
    using live_disjoint [OF assms(1) _ assms(2)] s'(3) by auto
  ultimately have "\<exists>off' s''. AllocateRegion sz s' = Inr (off', s'') \<and> off' \<noteq> kNullOffset"
    using fifo.alloc_cases [OF s'(2) nz] by blast
  with s' show ?thesis by blast
qed

theorem ReleaseRegion_complete_witness:
  "\<exists>s off s'. (off, 30) \<in> allocated s \<and> ReleaseRegion 30 off s = Inr s' \<and> allocated s' = {}"
proof -
  obtain off s where s: "AllocateRegion 30 fifo100 = Inr (off, s)" "fifo_inv s" "allocated s = {(off, 30)}"
    using fifo.alloc_empty_succeeds [OF fifo100_inv(2), of 30] fifo.alloc_cases [OF fifo100_inv(2), of 30]
      fifo100_inv(3) by (auto simp: fifo100_def)
  then have "(off, 30) \<in> allocated s" by simp
  from ReleaseRegion_complete [OF s(2) this] s(3) show ?thesis by auto
qed

end
