(* ===== verification/Shared_Buffer.thy ===== *)
theory Shared_Buffer
  imports Fifo_Allocator
begin

text \<open>
  The classes \<^verbatim>\<open>MappedSharedBuffer\<close> (mapped_shared_buffer.h, mapped_shared_buffer.cc)
  and \<^verbatim>\<open>SharedMediaBufferAllocator\<close> (shared_media_buffer_allocator.h,
  shared_media_buffer_allocator.cc), which hands out regions of a mapped buffer
  as offsets or as pointers. The derived class is a record that extends the record of
  its base, and the virtual \<^verbatim>\<open>OnInit\<close> is an argument of the base's operations.

  The Mojo system calls are not part of the sources: they are the parameter \<open>sys\<close>, and
  what the classes rely on is the hypothesis \<open>maps_at\<close> below. An address is a natural
  number, and the null pointer is \<open>None\<close>.
\<close>

section \<open>\<^verbatim>\<open>MappedSharedBuffer\<close>\<close>

type_synonym addr = nat

record 'h mojo_buffers =
  MojoGetBufferInformation :: "'h \<Rightarrow> bool \<times> u64"
  MapBuffer :: "'h \<Rightarrow> u64 \<Rightarrow> u64 \<Rightarrow> bool \<times> addr option"
  UnmapBuffer :: "addr \<Rightarrow> bool"
  DuplicateBuffer :: "'h \<Rightarrow> 'h option"
  CreateSharedBuffer :: "u64 \<Rightarrow> 'h option"

text \<open>
  A handle is valid when it is \<open>Some h\<close>. \<^verbatim>\<open>buffer_\<close> is \<open>None\<close> when the pointer is null,
  and otherwise holds the handle of the \<^verbatim>\<open>SharedBuffer\<close> it points to.
\<close>

record 'h MappedSharedBuffer =
  mb_size :: u64
  mb_buffer :: "'h option option"
  mb_handle :: "'h option"
  mb_ptr :: "addr option"

definition InitInternal ::
  "'h mojo_buffers \<Rightarrow> (('h, 'm) MappedSharedBuffer_scheme \<Rightarrow> ('h, 'm) MappedSharedBuffer_scheme res) \<Rightarrow>
   'h option \<Rightarrow> ('h, 'm) MappedSharedBuffer_scheme \<Rightarrow> ('h, 'm) MappedSharedBuffer_scheme res" where
  "InitInternal sys OnInit handle s =
     (case handle of
        None \<Rightarrow> Inl Dcheck_failed
      | Some h \<Rightarrow>
          (let (res, sz) = MojoGetBufferInformation sys h
           in dcheck res (dcheck (sz > 0)
                (let s = s\<lparr>mb_size := sz, mb_ptr := None\<rparr>;
                     (res, p) = MapBuffer sys h 0 sz
                 in dcheck res (dcheck (p \<noteq> None) (OnInit (s\<lparr>mb_ptr := p\<rparr>)))))))"

definition InitNew ::
  "'h mojo_buffers \<Rightarrow> (('h, 'm) MappedSharedBuffer_scheme \<Rightarrow> ('h, 'm) MappedSharedBuffer_scheme res) \<Rightarrow>
   u64 \<Rightarrow> ('h, 'm) MappedSharedBuffer_scheme \<Rightarrow> ('h, 'm) MappedSharedBuffer_scheme res" where
  "InitNew sys OnInit sz s =
     dcheck (sz > 0)
       (let h = CreateSharedBuffer sys sz
        in InitInternal sys OnInit h (s\<lparr>mb_buffer := Some h, mb_handle := None\<rparr>))"

definition InitFromHandle ::
  "'h mojo_buffers \<Rightarrow> (('h, 'm) MappedSharedBuffer_scheme \<Rightarrow> ('h, 'm) MappedSharedBuffer_scheme res) \<Rightarrow>
   'h option \<Rightarrow> ('h, 'm) MappedSharedBuffer_scheme \<Rightarrow> ('h, 'm) MappedSharedBuffer_scheme res" where
  "InitFromHandle sys OnInit handle s =
     dcheck (handle \<noteq> None)
       (InitInternal sys OnInit handle (s\<lparr>mb_buffer := None, mb_handle := handle\<rparr>))"

definition OnInit_base :: "('h, 'm) MappedSharedBuffer_scheme \<Rightarrow> ('h, 'm) MappedSharedBuffer_scheme res" where
  "OnInit_base s = Inr s"

definition initialized :: "('h, 'm) MappedSharedBuffer_scheme \<Rightarrow> bool" where
  "initialized s \<longleftrightarrow> mb_ptr s \<noteq> None"

definition GetDuplicateHandle ::
  "'h mojo_buffers \<Rightarrow> ('h, 'm) MappedSharedBuffer_scheme \<Rightarrow> 'h option res" where
  "GetDuplicateHandle sys s =
     dcheck (initialized s)
       (case mb_buffer s of
          Some h \<Rightarrow> Inr (Option.bind h (DuplicateBuffer sys))
        | None \<Rightarrow> dcheck (mb_handle s \<noteq> None) (Inr (Option.bind (mb_handle s) (DuplicateBuffer sys))))"

definition PtrFromOffset :: "u64 \<Rightarrow> ('h, 'm) MappedSharedBuffer_scheme \<Rightarrow> addr option res" where
  "PtrFromOffset offset s =
     (case mb_ptr s of
        None \<Rightarrow> Inl Dcheck_failed
      | Some b \<Rightarrow>
          if offset = kNullOffset then Inr None
          else dcheck (offset < mb_size s) (Inr (Some (b + unat offset))))"

definition OffsetFromPtr :: "addr option \<Rightarrow> ('h, 'm) MappedSharedBuffer_scheme \<Rightarrow> u64 res" where
  "OffsetFromPtr p s =
     (case mb_ptr s of
        None \<Rightarrow> Inl Dcheck_failed
      | Some b \<Rightarrow>
          (case p of
             None \<Rightarrow> Inr kNullOffset
           | Some a \<Rightarrow>
               (let offset = of_int (int a - int b) in dcheck (offset < mb_size s) (Inr offset))))"

section \<open>\<^verbatim>\<open>SharedMediaBufferAllocator\<close>\<close>

text \<open>
  Each operation holds the allocator's mutex for its whole body, so the operations of
  different threads are a sequence of whole operations.
\<close>

record 'h SharedMediaBufferAllocator = "'h MappedSharedBuffer" +
  fifo_allocator :: FifoAllocator

definition OnInit :: "'h SharedMediaBufferAllocator \<Rightarrow> 'h SharedMediaBufferAllocator res" where
  "OnInit s =
     rbind (Reset (mb_size s) (fifo_allocator s)) (\<lambda>f. Inr (s\<lparr>fifo_allocator := f\<rparr>))"

definition AllocateRegionByOffset ::
  "u64 \<Rightarrow> 'h SharedMediaBufferAllocator \<Rightarrow> (u64 \<times> 'h SharedMediaBufferAllocator) res" where
  "AllocateRegionByOffset sz s =
     rbind (Fifo_Allocator.AllocateRegion sz (fifo_allocator s)) (\<lambda>(off, f).
       Inr (off, s\<lparr>fifo_allocator := f\<rparr>))"

definition ReleaseRegionByOffset ::
  "u64 \<Rightarrow> u64 \<Rightarrow> 'h SharedMediaBufferAllocator \<Rightarrow> 'h SharedMediaBufferAllocator res" where
  "ReleaseRegionByOffset sz offset s =
     rbind (Fifo_Allocator.ReleaseRegion sz offset (fifo_allocator s)) (\<lambda>f.
       Inr (s\<lparr>fifo_allocator := f\<rparr>))"

definition AllocateRegionPtr ::
  "u64 \<Rightarrow> 'h SharedMediaBufferAllocator \<Rightarrow> (addr option \<times> 'h SharedMediaBufferAllocator) res" where
  "AllocateRegionPtr sz s =
     rbind (AllocateRegionByOffset sz s) (\<lambda>(off, s).
       rbind (PtrFromOffset off s) (\<lambda>p. Inr (p, s)))"

definition ReleaseRegionPtr ::
  "u64 \<Rightarrow> addr option \<Rightarrow> 'h SharedMediaBufferAllocator \<Rightarrow> 'h SharedMediaBufferAllocator res" where
  "ReleaseRegionPtr sz p s =
     rbind (OffsetFromPtr p s) (\<lambda>off. ReleaseRegionByOffset sz off s)"

section \<open>The invariant and what the system calls promise\<close>

definition smba_inv :: "'h SharedMediaBufferAllocator \<Rightarrow> bool" where
  "smba_inv s \<longleftrightarrow> mb_ptr s \<noteq> None \<and> fifo_inv (fifo_allocator s) \<and>
     fa_size (fifo_allocator s) = mb_size s \<and> mb_size s < kNullOffset"

definition smba_regions :: "'h SharedMediaBufferAllocator \<Rightarrow> (u64 \<times> u64) set" where
  "smba_regions s = allocated (fifo_allocator s)"

text \<open>
  The documented behaviour of the system calls for a handle: the buffer's size is
  reported, and mapping all of it succeeds at an address.
\<close>

definition maps_at :: "'h mojo_buffers \<Rightarrow> 'h \<Rightarrow> u64 \<Rightarrow> addr \<Rightarrow> bool" where
  "maps_at sys h sz b \<longleftrightarrow>
     MojoGetBufferInformation sys h = (True, sz) \<and> MapBuffer sys h 0 sz = (True, Some b)"

lemma PtrFromOffset_back:
  assumes "mb_ptr s = Some b" "off < mb_size s" "mb_size s < kNullOffset"
  shows "PtrFromOffset off s = Inr (Some (b + unat off))"
    "OffsetFromPtr (Some (b + unat off)) s = Inr off"
  using assms by (auto simp: PtrFromOffset_def OffsetFromPtr_def kNullOffset_def Let_def)

lemma OffsetFromPtr_back:
  assumes "mb_ptr s = Some b" "OffsetFromPtr (Some a) s = Inr off" "b \<le> a" "a - b < 2 ^ 64"
    "mb_size s < kNullOffset"
  shows "a = b + unat off" "PtrFromOffset off s = Inr (Some a)"
proof -
  have "unat (of_int (int a - int b) :: u64) = a - b"
    using assms(3,4) by (subst unat_of_int_u64) (simp_all add: nat_diff_distrib)
  then show "a = b + unat off"
    using assms by (auto simp: OffsetFromPtr_def Let_def)
  with assms show "PtrFromOffset off s = Inr (Some a)"
    by (auto simp: OffsetFromPtr_def PtrFromOffset_def Let_def)
qed

section \<open>The interface: an allocator of pointers\<close>

text \<open>
  What a client of \<^verbatim>\<open>AllocateRegion\<close> and \<^verbatim>\<open>ReleaseRegion\<close> relies on: live regions of
  memory \<open>(address, size)\<close> that lie in the mapping and do not overlap.
\<close>

definition disjoint_from :: "addr \<Rightarrow> nat \<Rightarrow> addr \<times> nat \<Rightarrow> bool" where
  "disjoint_from a n r \<longleftrightarrow> a + n \<le> fst r \<or> fst r + snd r \<le> a"

locale pointer_allocator =
  fixes allocp :: "u64 \<Rightarrow> 's \<Rightarrow> (addr option \<times> 's) res"
    and releasep :: "u64 \<Rightarrow> addr option \<Rightarrow> 's \<Rightarrow> 's res"
    and pinvar :: "'s \<Rightarrow> bool"
    and plive :: "'s \<Rightarrow> (addr \<times> nat) set"
    and mapping :: "'s \<Rightarrow> addr \<times> nat"
  assumes allocp_cases: "pinvar s \<Longrightarrow> n \<noteq> 0 \<Longrightarrow>
      allocp n s = Inr (None, s) \<or>
      (\<exists>p s'. allocp n s = Inr (Some p, s') \<and> pinvar s' \<and> mapping s' = mapping s \<and>
         plive s' = insert (p, unat n) (plive s) \<and>
         fst (mapping s) \<le> p \<and> p + unat n \<le> fst (mapping s) + snd (mapping s) \<and>
         (\<forall>r \<in> plive s. disjoint_from p (unat n) r))"
    and releasep_live: "pinvar s \<Longrightarrow> (p, unat n) \<in> plive s \<Longrightarrow>
      \<exists>s'. releasep n (Some p) s = Inr s' \<and> pinvar s' \<and> mapping s' = mapping s \<and>
         plive s' = plive s - {(p, unat n)}"
begin

lemma allocp_releasep:
  assumes "pinvar s" "n \<noteq> 0" "allocp n s = Inr (Some p, s')"
  shows "\<exists>s''. releasep n (Some p) s' = Inr s'' \<and> pinvar s'' \<and> plive s'' = plive s \<and>
    mapping s'' = mapping s"
proof -
  from allocp_cases [OF assms(1,2)] assms(3)
  have s': "pinvar s'" "mapping s' = mapping s" "plive s' = insert (p, unat n) (plive s)"
    and dis: "\<forall>r \<in> plive s. disjoint_from p (unat n) r" by auto
  have "0 < unat n" using assms(2) by (simp add: unat_gt_0)
  with dis have "(p, unat n) \<notin> plive s" by (auto simp: disjoint_from_def)
  with releasep_live [of s' p n] s' show ?thesis by auto
qed

text \<open>A sequence of allocations gives pairwise disjoint regions.\<close>

lemma allocp_twice:
  assumes "pinvar s" "n \<noteq> 0" "m \<noteq> 0" "allocp n s = Inr (Some p, s')" "allocp m s' = Inr (Some q, s'')"
  shows "disjoint_from q (unat m) (p, unat n)"
proof -
  from allocp_cases [OF assms(1,2)] assms(4)
  have "pinvar s'" "plive s' = insert (p, unat n) (plive s)" by auto
  with allocp_cases [of s' m] assms(3,5) show ?thesis by auto
qed

end

section \<open>The allocator implements the interface\<close>

definition as_pointer :: "addr \<Rightarrow> u64 \<times> u64 \<Rightarrow> addr \<times> nat" where
  "as_pointer b = (\<lambda>(off, n). (b + unat off, unat n))"

definition smba_live :: "'h SharedMediaBufferAllocator \<Rightarrow> (addr \<times> nat) set" where
  "smba_live s = as_pointer (the (mb_ptr s)) ` smba_regions s"

definition smba_mapping :: "'h SharedMediaBufferAllocator \<Rightarrow> addr \<times> nat" where
  "smba_mapping s = (the (mb_ptr s), unat (mb_size s))"

lemma inj_as_pointer: "inj (as_pointer b)"
  by (auto simp: inj_def as_pointer_def word_unat_eq_iff)

lemma as_pointer_disjoint:
  "\<not> overlaps r (unat off) (unat n) \<longleftrightarrow> disjoint_from (b + unat off) (unat n) (as_pointer b r)"
  by (cases r) (auto simp: overlaps_def disjoint_from_def as_pointer_def)

lemma smba_region_bounds:
  assumes "smba_inv s" "(off, n) \<in> smba_regions s"
  shows "unat off + unat n \<le> unat (mb_size s)" "off < mb_size s"
proof -
  show le: "unat off + unat n \<le> unat (mb_size s)"
    using live_in_bounds [of "fifo_allocator s" off n] assms by (simp add: smba_inv_def smba_regions_def)
  have "n \<noteq> 0" using fifo_live_size [of "fifo_allocator s" off n] assms
    by (simp add: smba_inv_def smba_regions_def)
  with le show "off < mb_size s" by (simp add: word_less_nat_alt flip: unat_gt_0)
qed

lemma AllocateRegionByOffset_cases:
  assumes "smba_inv s" "n \<noteq> 0"
  shows "AllocateRegionByOffset n s = Inr (kNullOffset, s) \<and>
      (\<forall>b. b + unat n \<le> unat (mb_size s) \<longrightarrow> (\<exists>r \<in> smba_regions s. overlaps r b (unat n))) \<or>
    (\<exists>off s'. AllocateRegionByOffset n s = Inr (off, s') \<and> off \<noteq> kNullOffset \<and> smba_inv s' \<and>
       smba_regions s' = insert (off, n) (smba_regions s) \<and> smba_mapping s' = smba_mapping s \<and>
       mb_ptr s' = mb_ptr s \<and> mb_size s' = mb_size s \<and>
       unat off + unat n \<le> unat (mb_size s) \<and> (\<forall>r \<in> smba_regions s. \<not> overlaps r (unat off) (unat n)))"
  using fifo.alloc_cases [of "fifo_allocator s" n] assms
  by (auto simp: AllocateRegionByOffset_def smba_inv_def smba_regions_def smba_mapping_def)

lemma AllocateRegionPtr_cases:
  assumes "smba_inv s" "n \<noteq> 0"
  shows "AllocateRegionPtr n s = Inr (None, s) \<and>
      (\<forall>b. b + unat n \<le> unat (mb_size s) \<longrightarrow> (\<exists>r \<in> smba_regions s. overlaps r b (unat n))) \<or>
    (\<exists>p s'. AllocateRegionPtr n s = Inr (Some p, s') \<and> smba_inv s' \<and> smba_mapping s' = smba_mapping s \<and>
         smba_live s' = insert (p, unat n) (smba_live s) \<and>
         fst (smba_mapping s) \<le> p \<and> p + unat n \<le> fst (smba_mapping s) + snd (smba_mapping s) \<and>
         (\<forall>r \<in> smba_live s. disjoint_from p (unat n) r))"
proof -
  obtain b where b: "mb_ptr s = Some b" using assms(1) by (auto simp: smba_inv_def)
  from AllocateRegionByOffset_cases [OF assms] consider
      "AllocateRegionByOffset n s = Inr (kNullOffset, s)"
      "\<forall>b. b + unat n \<le> unat (mb_size s) \<longrightarrow> (\<exists>r \<in> smba_regions s. overlaps r b (unat n))"
    | off s' where "AllocateRegionByOffset n s = Inr (off, s')" "smba_inv s'"
       "smba_regions s' = insert (off, n) (smba_regions s)" "smba_mapping s' = smba_mapping s"
       "mb_ptr s' = mb_ptr s" "mb_size s' = mb_size s"
       "unat off + unat n \<le> unat (mb_size s)" "\<forall>r \<in> smba_regions s. \<not> overlaps r (unat off) (unat n)"
    by blast
  then show ?thesis
  proof cases
    case 1
    then show ?thesis by (simp add: AllocateRegionPtr_def PtrFromOffset_def b)
  next
    case (2 off s')
    have "off < mb_size s'" using smba_region_bounds(2) [OF 2(2), of off n] 2(3) by simp
    then have p: "PtrFromOffset off s' = Inr (Some (b + unat off))"
      using 2 b by (intro PtrFromOffset_back) (simp_all add: smba_inv_def)
    have "smba_live s' = insert (b + unat off, unat n) (smba_live s)"
      by (simp add: smba_live_def 2 b as_pointer_def)
    moreover have "\<forall>r \<in> smba_live s. disjoint_from (b + unat off) (unat n) r"
      using 2(8) by (auto simp: smba_live_def b as_pointer_disjoint [symmetric])
    ultimately show ?thesis using 2 p b
      by (auto simp: AllocateRegionPtr_def smba_mapping_def)
  qed
qed

lemma ReleaseRegionPtr_live:
  assumes "smba_inv s" "(p, unat n) \<in> smba_live s"
  shows "\<exists>s'. ReleaseRegionPtr n (Some p) s = Inr s' \<and> smba_inv s' \<and> smba_mapping s' = smba_mapping s \<and>
         smba_live s' = smba_live s - {(p, unat n)}"
proof -
  obtain b where b: "mb_ptr s = Some b" using assms(1) by (auto simp: smba_inv_def)
  from assms(2) obtain off where off: "(off, n) \<in> smba_regions s" "p = b + unat off"
    by (auto simp: smba_live_def b as_pointer_def word_unat_eq_iff [symmetric])
  have "OffsetFromPtr (Some p) s = Inr off"
    using PtrFromOffset_back(2) [OF b smba_region_bounds(2) [OF assms(1) off(1)]] assms(1) off(2)
    by (simp add: smba_inv_def)
  moreover obtain f where "ReleaseRegion n off (fifo_allocator s) = Inr f" "fifo_inv f"
    "allocated f = allocated (fifo_allocator s) - {(off, n)}" "fa_size f = fa_size (fifo_allocator s)"
    using fifo.release_live [of "fifo_allocator s" off n] assms(1) off(1)
    by (auto simp: smba_inv_def smba_regions_def)
  moreover have "as_pointer b ` (A - {(off, n)}) = as_pointer b ` A - {(p, unat n)}" for A
    using image_set_diff [OF inj_as_pointer, of b A "{(off, n)}"] off(2) by (simp add: as_pointer_def)
  ultimately show ?thesis using assms(1) b
    by (auto simp: ReleaseRegionPtr_def ReleaseRegionByOffset_def smba_inv_def smba_mapping_def
        smba_live_def smba_regions_def)
qed

interpretation smba: pointer_allocator AllocateRegionPtr ReleaseRegionPtr smba_inv smba_live smba_mapping
  by unfold_locales (use AllocateRegionPtr_cases in blast, fact ReleaseRegionPtr_live)

lemma InitInternal_smba:
  assumes "maps_at sys h sz b" "0 < sz" "sz < kNullOffset" "fifo_inv (fifo_allocator s)"
  shows "\<exists>s'. InitInternal sys OnInit (Some h) s = Inr s' \<and> smba_inv s' \<and> smba_live s' = {} \<and>
    smba_mapping s' = (b, unat sz) \<and> mb_buffer s' = mb_buffer s \<and> mb_handle s' = mb_handle s"
  using Reset_inv [OF assms(4,3)] assms(1-3)
  by (auto simp: InitInternal_def maps_at_def OnInit_def smba_inv_def smba_live_def smba_regions_def
      smba_mapping_def)

section \<open>Properties\<close>

text \<open>
  Initialising the allocator, on a buffer of its own or on the handle of another
  party, maps the whole buffer and leaves no live region, whatever was allocated from
  an earlier buffer; and \<^verbatim>\<open>GetDuplicateHandle\<close> then duplicates the handle of that buffer.
\<close>

lemma smba_Init:
  assumes "maps_at sys h sz b" "0 < sz" "sz < kNullOffset" "fifo_inv (fifo_allocator s)"
    and "CreateSharedBuffer sys n = Some h" "0 < n"
  shows "\<forall>init \<in> {InitNew sys OnInit n, InitFromHandle sys OnInit (Some h)}.
    \<exists>s'. init s = Inr s' \<and> smba_inv s' \<and> smba_live s' = {} \<and> smba_mapping s' = (b, unat sz) \<and>
      GetDuplicateHandle sys s' = Inr (DuplicateBuffer sys h)"
proof -
  have dup: "GetDuplicateHandle sys s' = Inr (DuplicateBuffer sys h)"
    if "smba_inv s'" "mb_buffer s' = Some (Some h) \<or> mb_buffer s' = None \<and> mb_handle s' = Some h" for s'
    using that by (auto simp: GetDuplicateHandle_def initialized_def smba_inv_def)
  have inv: "fifo_inv (fifo_allocator (s\<lparr>mb_buffer := x, mb_handle := y\<rparr>))" for x y
    using assms(4) by simp
  obtain s1 where "InitNew sys OnInit n s = Inr s1" "smba_inv s1" "smba_live s1 = {}"
    "smba_mapping s1 = (b, unat sz)" "mb_buffer s1 = Some (Some h)"
    using InitInternal_smba [OF assms(1-3) inv [where x = "Some (Some h)" and y = None]] assms(5,6)
    by (auto simp: InitNew_def)
  moreover obtain s2 where "InitFromHandle sys OnInit (Some h) s = Inr s2" "smba_inv s2" "smba_live s2 = {}"
    "smba_mapping s2 = (b, unat sz)" "mb_buffer s2 = None" "mb_handle s2 = Some h"
    using InitInternal_smba [OF assms(1-3) inv [where x = None and y = "Some h"]]
    by (auto simp: InitFromHandle_def)
  ultimately show ?thesis using dup [of s1] dup [of s2] by simp
qed

text \<open>A system with one buffer of 4096 bytes, mapped at address 65536.\<close>

definition one_page :: "unit mojo_buffers" where
  "one_page = \<lparr>MojoGetBufferInformation = \<lambda>_. (True, 4096),
     MapBuffer = \<lambda>_ offset sz. (offset + sz \<le> 4096, Some 65536),
     UnmapBuffer = \<lambda>_. True,
     DuplicateBuffer = Some, CreateSharedBuffer = \<lambda>sz. if sz \<le> 4096 then Some () else None\<rparr>"

definition smba0 :: "unit SharedMediaBufferAllocator" where
  "smba0 = \<lparr>mb_size = 0, mb_buffer = None, mb_handle = None, mb_ptr = None, fifo_allocator = fifo100\<rparr>"

lemma one_page_maps: "maps_at one_page () 4096 65536"
  by (simp add: maps_at_def one_page_def)

lemma smba0_fifo: "fifo_inv (fifo_allocator smba0)"
  by (simp add: smba0_def fifo100_inv)

text \<open>
  C26. \<^verbatim>\<open>AllocateRegion\<close> returns null only when no gap of the buffer has room for the
  request; otherwise it returns a pointer to a region inside the mapping that overlaps
  no live region, and releasing the region through that pointer succeeds and leaves
  the live regions as they were before the allocation.
\<close>

theorem AllocateRegionPtr_release:
  assumes "smba_inv s" "n \<noteq> 0"
  shows "AllocateRegionPtr n s = Inr (None, s) \<and>
      (\<forall>b. b + unat n \<le> unat (mb_size s) \<longrightarrow> (\<exists>r \<in> smba_regions s. overlaps r b (unat n))) \<or>
    (\<exists>p s' s''. AllocateRegionPtr n s = Inr (Some p, s') \<and>
       fst (smba_mapping s) \<le> p \<and> p + unat n \<le> fst (smba_mapping s) + snd (smba_mapping s) \<and>
       (\<forall>r \<in> smba_live s. disjoint_from p (unat n) r) \<and>
       ReleaseRegionPtr n (Some p) s' = Inr s'' \<and> smba_inv s'' \<and> smba_live s'' = smba_live s)"
proof (cases "\<exists>p s'. AllocateRegionPtr n s = Inr (Some p, s')")
  case True
  then obtain p s' where eq: "AllocateRegionPtr n s = Inr (Some p, s')" by blast
  from smba.allocp_releasep [OF assms eq] AllocateRegionPtr_cases [OF assms] eq show ?thesis by auto
next
  case False
  with AllocateRegionPtr_cases [OF assms] show ?thesis by auto
qed

theorem AllocateRegionPtr_release_witness:
  "\<exists>s p s'. InitNew one_page OnInit 4000 smba0 = Inr s \<and> AllocateRegionPtr 1000 s = Inr (Some p, s') \<and>
     65536 \<le> p \<and> p + 1000 \<le> 65536 + 4096"
proof -
  have "maps_at one_page () 4096 65536 \<and> (0::u64) < 4096 \<and> (4096::u64) < kNullOffset"
    using one_page_maps by (simp add: kNullOffset_def)
  then obtain s where s: "InitInternal one_page OnInit (Some ()) (smba0\<lparr>mb_buffer := Some (Some ()), mb_handle := None\<rparr>)
      = Inr s" "smba_inv s" "smba_live s = {}" "smba_mapping s = (65536, 4096)"
    using InitInternal_smba [of one_page "()" 4096 65536 "smba0\<lparr>mb_buffer := Some (Some ()), mb_handle := None\<rparr>"]
      smba0_fifo by auto
  have "InitNew one_page OnInit 4000 smba0 = Inr s" using s(1) by (simp add: InitNew_def one_page_def)
  moreover have "smba_regions s = {}" "unat (mb_size s) = 4096"
    using s(3,4) by (simp_all add: smba_live_def smba_mapping_def)
  ultimately show ?thesis using AllocateRegionPtr_release [OF s(2), of 1000] s(4) by fastforce
qed

text \<open>
  \<^verbatim>\<open>PtrFromOffset\<close> and \<^verbatim>\<open>OffsetFromPtr\<close> are inverse to each other between the offsets
  of the buffer and the addresses of the mapping, map the null offset and the null
  pointer to each other, and every other offset or pointer fails a DCHECK.
\<close>

lemma offset_ptr_bijection:
  assumes "mb_ptr s = Some b" "mb_size s < kNullOffset" "b \<le> a" "a - b < 2 ^ 64"
  shows "PtrFromOffset off s =
      (if off = kNullOffset then Inr None
       else if off < mb_size s then Inr (Some (b + unat off)) else Inl Dcheck_failed) \<and>
    OffsetFromPtr (Some a) s =
      (if a < b + unat (mb_size s) then Inr (of_nat (a - b)) else Inl Dcheck_failed) \<and>
    (off < mb_size s \<longrightarrow> OffsetFromPtr (Some (b + unat off)) s = Inr off) \<and>
    (a < b + unat (mb_size s) \<longrightarrow> rbind (OffsetFromPtr (Some a) s) (\<lambda>off. PtrFromOffset off s) = Inr (Some a)) \<and>
    OffsetFromPtr None s = Inr kNullOffset"
proof -
  have u: "unat (of_int (int a - int b) :: u64) = a - b"
    using assms(3,4) by (subst unat_of_int_u64) (simp_all add: nat_diff_distrib)
  then have eq: "(of_int (int a - int b) :: u64) = of_nat (a - b)"
    using assms(3) by simp
  have lt: "of_nat (a - b) < mb_size s \<longleftrightarrow> a < b + unat (mb_size s)"
    using u assms(3) unfolding eq word_less_nat_alt by auto
  have off: "OffsetFromPtr (Some a) s =
      (if a < b + unat (mb_size s) then Inr (of_nat (a - b)) else Inl Dcheck_failed)"
    unfolding OffsetFromPtr_def assms(1) eq Let_def lt option.case by simp
  have "rbind (OffsetFromPtr (Some a) s) (\<lambda>off. PtrFromOffset off s) = Inr (Some a)"
    if "a < b + unat (mb_size s)"
    using OffsetFromPtr_back(2) [OF assms(1) _ assms(3,4,2)] that off by simp
  moreover have "OffsetFromPtr (Some (b + unat off)) s = Inr off" if "off < mb_size s"
    using PtrFromOffset_back(2) [OF assms(1) that assms(2)] .
  ultimately show ?thesis using off assms(1) by (simp add: PtrFromOffset_def OffsetFromPtr_def)
qed

end
