(* ===== verification/Circular_Buffer.thy ===== *)
theory Circular_Buffer
  imports Media_Transport Shared_Buffer
begin

text \<open>
  The class \<^verbatim>\<open>CircularBufferMediaPipeAdapter\<close> (circular_buffer_media_pipe_adapter.h,
  circular_buffer_media_pipe_adapter.cc): a producer's side of a media pipe that uses
  the shared buffer as a ring, with a signal that tells the producer when there is room.

  The state is the class's data members and, in \<open>cb_events\<close>, the calls it has made on
  the outside world in their order: messages on the pipe, tasks posted on the run loop,
  and calls of the user's callbacks. A callback is known by a number. Every call of
  a callback is the last action of the function that makes it, so whatever the callback
  does is a later operation. The thread has a run loop, which the constructor checks.
\<close>

section \<open>State\<close>

record MappedPacket =
  mp_packet :: "MediaPacket option"
  mp_data0 :: "addr option"
  mp_data1 :: "addr option"
  mp_length0 :: u64
  mp_length1 :: u64
  mp_cancel_wr :: u64
  mp_flush_generation :: u32

record PacketState =
  ps_post_consume_rd :: u64
  ps_seq_num :: u32
  ps_cbk :: "nat option"

datatype 'h event =
    Post_signalled_callback
  | Pipe_SetBuffer 'h
  | Pipe_SendPacket MediaPacket u32
  | Pipe_Flush
  | Pipe_reset
  | Run_send_cbk nat SendResult
  | Run_signal_cbk nat MediaResult

record 'h Adapter =
  cb_pipe_bound :: bool
  cb_signal_cbk :: "nat option"
  cb_flush_in_progress :: bool
  cb_fault_cbk_made :: bool
  cb_cbk_scheduled :: bool
  cb_hi_water_mark :: u64
  cb_lo_water_mark :: u64
  cb_signalled :: bool
  cb_internal_state :: MediaResult
  cb_buffer_handle :: "'h option"
  cb_buffer :: "addr option"
  cb_buffer_size :: u64
  cb_rd :: u64
  cb_wr :: u64
  cb_flush_generation :: u32
  cb_seq_num_gen :: u32
  cb_in_flight_queue :: "PacketState list"
  cb_events :: "'h event list"

section \<open>Operations\<close>

definition MappedPacket_Reset :: "MappedPacket \<Rightarrow> MappedPacket" where
  "MappedPacket_Reset p = p\<lparr>mp_packet := None, mp_data0 := None, mp_data1 := None,
     mp_length0 := 0, mp_length1 := 0, mp_cancel_wr := 0\<rparr>"

definition Faulted :: "'h Adapter \<Rightarrow> bool" where
  "Faulted s \<longleftrightarrow> OK \<noteq> cb_internal_state s"

definition Busy :: "'h Adapter \<Rightarrow> bool" where
  "Busy s \<longleftrightarrow> cb_flush_in_progress s"

definition emit :: "'h event \<Rightarrow> 'h Adapter \<Rightarrow> 'h Adapter" where
  "emit e s = s\<lparr>cb_events := cb_events s @ [e]\<rparr>"

definition GetPending :: "'h Adapter \<Rightarrow> u64" where
  "GetPending s =
     (if cb_buffer s = None then 0
      else (cb_wr s - cb_rd s) + (if cb_wr s < cb_rd s then cb_buffer_size s else 0))"

definition GetBufferSize :: "'h Adapter \<Rightarrow> u64 res" where
  "GetBufferSize s =
     (if cb_buffer s = None then Inr 0
      else dcheck (cb_buffer_size s \<noteq> 0) (Inr (cb_buffer_size s - 1)))"

definition AboveHiWater :: "'h Adapter \<Rightarrow> bool" where
  "AboveHiWater s \<longleftrightarrow> GetPending s \<ge> cb_hi_water_mark s"

definition BelowLoWater :: "'h Adapter \<Rightarrow> bool" where
  "BelowLoWater s \<longleftrightarrow> GetPending s < cb_lo_water_mark s"

definition UpdateSignalled :: "'h Adapter \<Rightarrow> 'h Adapter" where
  "UpdateSignalled s =
     (let s = (if Faulted s then s\<lparr>cb_signalled := True\<rparr>
               else if Busy s then s\<lparr>cb_signalled := False\<rparr>
               else let pending = GetPending s
                    in if \<not> cb_signalled s \<and> pending < cb_lo_water_mark s then s\<lparr>cb_signalled := True\<rparr>
                       else if cb_signalled s \<and> pending \<ge> cb_hi_water_mark s then s\<lparr>cb_signalled := False\<rparr>
                       else s)
      in if cb_signalled s \<and> \<not> cb_cbk_scheduled s \<and> \<not> cb_fault_cbk_made s
         then (emit Post_signalled_callback s)\<lparr>cb_cbk_scheduled := True\<rparr>
         else s)"

definition Cleanup :: "'h mojo_buffers \<Rightarrow> 'h Adapter \<Rightarrow> 'h Adapter res" where
  "Cleanup sys s =
     (let s = (if cb_pipe_bound s then (emit Pipe_reset s)\<lparr>cb_pipe_bound := False\<rparr> else s)
      in dcheck (case cb_buffer s of None \<Rightarrow> True | Some a \<Rightarrow> UnmapBuffer sys a)
           (Inr (s\<lparr>cb_buffer := None, cb_buffer_handle := None, cb_rd := 0, cb_wr := 0,
                   cb_in_flight_queue := [], cb_signal_cbk := None,
                   cb_internal_state := SHUTTING_DOWN\<rparr>)))"

definition Fault :: "'h mojo_buffers \<Rightarrow> MediaResult \<Rightarrow> 'h Adapter \<Rightarrow> 'h Adapter res" where
  "Fault sys reason s =
     rbind (if OK = cb_internal_state s then Cleanup sys (s\<lparr>cb_internal_state := reason\<rparr>) else Inr s)
       (\<lambda>s. Inr (UpdateSignalled s))"

text \<open>
  The constructor initialises every member but \<^verbatim>\<open>rd_\<close>, \<^verbatim>\<open>wr_\<close> and the two generation
  counters, whose values it leaves indeterminate.
\<close>

definition Adapter_new :: "u64 \<Rightarrow> u64 \<Rightarrow> u32 \<Rightarrow> u32 \<Rightarrow> bool \<Rightarrow> 'h Adapter res" where
  "Adapter_new rd wr gen seq pipe =
     dcheck pipe
       (Inr \<lparr>cb_pipe_bound = True, cb_signal_cbk = None, cb_flush_in_progress = False,
             cb_fault_cbk_made = False, cb_cbk_scheduled = False, cb_hi_water_mark = 0,
             cb_lo_water_mark = 0, cb_signalled = False, cb_internal_state = OK,
             cb_buffer_handle = None, cb_buffer = None, cb_buffer_size = 0, cb_rd = rd, cb_wr = wr,
             cb_flush_generation = gen, cb_seq_num_gen = seq, cb_in_flight_queue = [],
             cb_events = []\<rparr>)"

definition Adapter_Init :: "'h mojo_buffers \<Rightarrow> u64 \<Rightarrow> 'h Adapter \<Rightarrow> 'h Adapter res" where
  "Adapter_Init sys sz s =
     (if cb_buffer_handle s \<noteq> None
      then if cb_buffer_size s \<noteq> sz then Fault sys BAD_STATE s else Inr s
      else case CreateSharedBuffer sys sz of
        None \<Rightarrow> Fault sys INSUFFICIENT_RESOURCES s
      | Some h \<Rightarrow>
          (let s = s\<lparr>cb_buffer_handle := Some h, cb_buffer_size := sz\<rparr>;
               (res, p) = MapBuffer sys h 0 sz
           in if \<not> res then Fault sys UNKNOWN_ERROR s
              else let s = s\<lparr>cb_buffer := p\<rparr>
                   in case DuplicateBuffer sys h of
                        None \<Rightarrow> Fault sys UNKNOWN_ERROR s
                      | Some d \<Rightarrow>
                          if cb_pipe_bound s then Inr (emit (Pipe_SetBuffer d) s)
                          else Inl Null_deref))"

definition SetSignalCallback :: "nat option \<Rightarrow> 'h Adapter \<Rightarrow> 'h Adapter" where
  "SetSignalCallback cbk s =
     (let s = s\<lparr>cb_signal_cbk := cbk\<rparr> in if cbk \<noteq> None then UpdateSignalled s else s)"

definition SetWatermarks :: "u64 \<Rightarrow> u64 \<Rightarrow> 'h Adapter \<Rightarrow> 'h Adapter res" where
  "SetWatermarks hi lo s =
     dcheck (hi \<ge> lo)
       (Inr (UpdateSignalled (s\<lparr>cb_hi_water_mark := hi, cb_lo_water_mark := lo\<rparr>)))"

text \<open>
  \<^verbatim>\<open>CreateMediaPacket\<close> returns the result code and, when it is \<open>OK\<close>, has filled in the
  caller's packet; the packet is unchanged otherwise.
\<close>

definition CreateMediaPacket ::
  "u64 \<Rightarrow> bool \<Rightarrow> MappedPacket \<Rightarrow> 'h Adapter \<Rightarrow> (MediaResult \<times> MappedPacket \<times> 'h Adapter) res" where
  "CreateMediaPacket sz no_wrap packet s =
     (if Faulted s then Inr (BAD_STATE, packet, s)
      else if Busy s then Inr (BUSY, packet, s)
      else dcheck (cb_buffer_size s \<noteq> 0)
       (if sz > cb_buffer_size s - 1 then Inr (INSUFFICIENT_RESOURCES, packet, s)
        else let alloc_start =
                   (if no_wrap \<and> cb_wr s > cb_rd s \<and> cb_buffer_size s - cb_wr s < sz then 0 else cb_wr s);
                 alloc_end = alloc_start + sz
             in dcheck (cb_wr s < cb_buffer_size s) (dcheck (cb_rd s < cb_buffer_size s)
                 (let non_mod_wr = cb_wr s + (if cb_rd s > cb_wr s then cb_buffer_size s else 0)
                  in dcheck (non_mod_wr \<ge> cb_rd s)
                   (if alloc_end \<ge> cb_rd s \<and> alloc_end < non_mod_wr
                    then Inr (INSUFFICIENT_RESOURCES, packet, s)
                    else let length1 = (if alloc_end > cb_buffer_size s
                                        then cb_buffer_size s - alloc_start else sz)
                         in dcheck (alloc_end > cb_buffer_size s \<longrightarrow> sz > length1)
                          (let extra = (if alloc_end > cb_buffer_size s
                                        then [\<lparr>rgn_offset = 0, rgn_length = sz - length1\<rparr>] else []);
                               at = (\<lambda>off. map_option (\<lambda>b. b + unat off) (cb_buffer s));
                               packet = packet
                                 \<lparr>mp_packet := Some (MediaPacket_New
                                    \<lparr>pkt_payload := Some \<lparr>rgn_offset = alloc_start, rgn_length = length1\<rparr>,
                                     pkt_extra_payload := Some extra\<rparr>),
                                  mp_data0 := at alloc_start,
                                  mp_length0 := length1,
                                  mp_cancel_wr := cb_wr s,
                                  mp_flush_generation := cb_flush_generation s,
                                  mp_data1 := (if extra \<noteq> [] then at 0 else None),
                                  mp_length1 := (if extra \<noteq> [] then sz - length1 else 0)\<rparr>
                           in Inr (OK, packet,
                                UpdateSignalled (s\<lparr>cb_wr := alloc_end mod cb_buffer_size s\<rparr>))))))))"

definition SendMediaPacket ::
  "'h mojo_buffers \<Rightarrow> MappedPacket \<Rightarrow> nat option \<Rightarrow> 'h Adapter \<Rightarrow> (MediaResult \<times> MappedPacket \<times> 'h Adapter) res"
  where
  "SendMediaPacket sys packet cbk s =
     (case mp_packet packet of
        None \<Rightarrow> Inl Dcheck_failed
      | Some p \<Rightarrow>
         (case pkt_extra_payload p of
            None \<Rightarrow> Inl Dcheck_failed
          | Some extra \<Rightarrow>
              dcheck (length extra \<le> 1)
               (rbind (case extra of
                   r2 # _ \<Rightarrow> Inr (rgn_offset r2 + rgn_length r2)
                 | [] \<Rightarrow> (case pkt_payload p of
                            None \<Rightarrow> Inl Null_deref
                          | Some r1 \<Rightarrow> Inr (rgn_offset r1 + rgn_length r1))) (\<lambda>post_consume_rd.
                rbind (if \<not> cb_pipe_bound s then Fault sys CONNECTION_LOST s else Inr s) (\<lambda>s.
                  if Faulted s \<or> mp_flush_generation packet \<noteq> cb_flush_generation s
                  then Inr (FLUSHED, MappedPacket_Reset packet, s)
                  else dcheck (\<not> Busy s) (dcheck (post_consume_rd \<le> cb_buffer_size s)
                    (let post_consume_rd = (if post_consume_rd = cb_buffer_size s then 0 else post_consume_rd);
                         seq_num = cb_seq_num_gen s;
                         s = s\<lparr>cb_seq_num_gen := seq_num + 1,
                               cb_in_flight_queue := cb_in_flight_queue s @
                                 [\<lparr>ps_post_consume_rd = post_consume_rd, ps_seq_num = seq_num, ps_cbk = cbk\<rparr>]\<rparr>
                     in Inr (OK, MappedPacket_Reset packet, emit (Pipe_SendPacket p seq_num) s))))))))"

definition CancelMediaPacket ::
  "MappedPacket \<Rightarrow> 'h Adapter \<Rightarrow> (MediaResult \<times> MappedPacket \<times> 'h Adapter) res" where
  "CancelMediaPacket packet s =
     dcheck (mp_packet packet \<noteq> None)
       (if Faulted s \<or> mp_flush_generation packet \<noteq> cb_flush_generation s
        then Inr (FLUSHED, MappedPacket_Reset packet, s)
        else dcheck (\<not> Busy s)
          (Inr (OK, MappedPacket_Reset packet, UpdateSignalled (s\<lparr>cb_wr := mp_cancel_wr packet\<rparr>))))"

definition Adapter_Flush :: "'h Adapter \<Rightarrow> (MediaResult \<times> 'h Adapter) res" where
  "Adapter_Flush s =
     (if Faulted s then Inr (INTERNAL_ERROR, s)
      else if Busy s then Inr (BUSY, s)
      else let s = s\<lparr>cb_in_flight_queue := [], cb_rd := 0, cb_wr := 0, cb_flush_in_progress := True,
                     cb_flush_generation := cb_flush_generation s + 1\<rparr>
           in if cb_pipe_bound s then Inr (OK, emit Pipe_Flush s) else Inl Null_deref)"

definition run_send_cbk :: "nat option \<Rightarrow> SendResult \<Rightarrow> 'h Adapter \<Rightarrow> 'h Adapter" where
  "run_send_cbk cbk result s = (case cbk of None \<Rightarrow> s | Some c \<Rightarrow> emit (Run_send_cbk c result) s)"

definition HandleSendPacket ::
  "'h mojo_buffers \<Rightarrow> u32 \<Rightarrow> SendResult \<Rightarrow> 'h Adapter \<Rightarrow> 'h Adapter res" where
  "HandleSendPacket sys seq_num result s =
     (case cb_in_flight_queue s of
        [] \<Rightarrow> Fault sys UNKNOWN_ERROR s
      | ps # rest \<Rightarrow>
         if ps_seq_num ps \<noteq> seq_num then Fault sys UNKNOWN_ERROR s
         else let new_rd = ps_post_consume_rd ps;
                  s = s\<lparr>cb_in_flight_queue := rest\<rparr>
              in rbind
                  (if \<not> cb_flush_in_progress s
                   then let new_rd_non_modulo = new_rd + (if new_rd < cb_rd s then cb_buffer_size s else 0);
                            wr_non_modulo = cb_wr s + (if cb_wr s < cb_rd s then cb_buffer_size s else 0)
                        in if \<not> (new_rd_non_modulo \<ge> cb_rd s \<and> new_rd_non_modulo \<le> wr_non_modulo)
                           then Fault sys UNKNOWN_ERROR s
                           else Inr (UpdateSignalled (s\<lparr>cb_rd := new_rd\<rparr>))
                   else Inr s)
                  (\<lambda>s. Inr (run_send_cbk (ps_cbk ps) result s)))"

text \<open>\<^verbatim>\<open>std::deque::pop_front\<close> has no defined behaviour on an empty queue.\<close>

definition HandleFlush :: "'h mojo_buffers \<Rightarrow> 'h Adapter \<Rightarrow> 'h Adapter res" where
  "HandleFlush sys s =
     (if Faulted s then Inr s
      else if \<not> cb_flush_in_progress s then Fault sys PROTOCOL_ERROR s
      else let s = s\<lparr>cb_rd := 0, cb_wr := 0\<rparr>
           in case cb_in_flight_queue s of
                [] \<Rightarrow> Inl Out_of_range
              | _ # rest \<Rightarrow>
                  Inr (UpdateSignalled (s\<lparr>cb_in_flight_queue := rest, cb_flush_in_progress := False\<rparr>)))"

definition HandleSignalCallback :: "'h Adapter \<Rightarrow> 'h Adapter res" where
  "HandleSignalCallback s =
     dcheck (cb_cbk_scheduled s)
       (let s = s\<lparr>cb_cbk_scheduled := False\<rparr>
        in if cb_fault_cbk_made s \<or> \<not> cb_signalled s then Inr s
           else case cb_signal_cbk s of
                  None \<Rightarrow> Inr s
                | Some c \<Rightarrow>
                    (let s = (if Faulted s then s\<lparr>cb_fault_cbk_made := True\<rparr> else s)
                     in Inr (emit (Run_signal_cbk c (cb_internal_state s)) s)))"

definition Adapter_connection_error :: "'h mojo_buffers \<Rightarrow> 'h Adapter \<Rightarrow> 'h Adapter res" where
  "Adapter_connection_error sys s = Fault sys CONNECTION_LOST s"

definition Adapter_delete :: "'h mojo_buffers \<Rightarrow> 'h Adapter \<Rightarrow> 'h Adapter res" where
  "Adapter_delete sys s = Cleanup sys s"

section \<open>The signal\<close>

text \<open>\<^verbatim>\<open>UpdateSignalled\<close> changes the signal and the scheduled callback only.\<close>

lemma UpdateSignalled_frame [simp]:
  "cb_pipe_bound (UpdateSignalled s) = cb_pipe_bound s"
  "cb_signal_cbk (UpdateSignalled s) = cb_signal_cbk s"
  "cb_flush_in_progress (UpdateSignalled s) = cb_flush_in_progress s"
  "cb_fault_cbk_made (UpdateSignalled s) = cb_fault_cbk_made s"
  "cb_hi_water_mark (UpdateSignalled s) = cb_hi_water_mark s"
  "cb_lo_water_mark (UpdateSignalled s) = cb_lo_water_mark s"
  "cb_internal_state (UpdateSignalled s) = cb_internal_state s"
  "cb_buffer_handle (UpdateSignalled s) = cb_buffer_handle s"
  "cb_buffer (UpdateSignalled s) = cb_buffer s"
  "cb_buffer_size (UpdateSignalled s) = cb_buffer_size s"
  "cb_rd (UpdateSignalled s) = cb_rd s"
  "cb_wr (UpdateSignalled s) = cb_wr s"
  "cb_flush_generation (UpdateSignalled s) = cb_flush_generation s"
  "cb_seq_num_gen (UpdateSignalled s) = cb_seq_num_gen s"
  "cb_in_flight_queue (UpdateSignalled s) = cb_in_flight_queue s"
  by (simp_all add: UpdateSignalled_def Let_def emit_def)

lemma emit_frame [simp]:
  "cb_pipe_bound (emit e s) = cb_pipe_bound s"
  "cb_signal_cbk (emit e s) = cb_signal_cbk s"
  "cb_flush_in_progress (emit e s) = cb_flush_in_progress s"
  "cb_fault_cbk_made (emit e s) = cb_fault_cbk_made s"
  "cb_cbk_scheduled (emit e s) = cb_cbk_scheduled s"
  "cb_hi_water_mark (emit e s) = cb_hi_water_mark s"
  "cb_lo_water_mark (emit e s) = cb_lo_water_mark s"
  "cb_signalled (emit e s) = cb_signalled s"
  "cb_internal_state (emit e s) = cb_internal_state s"
  "cb_buffer_handle (emit e s) = cb_buffer_handle s"
  "cb_buffer (emit e s) = cb_buffer s"
  "cb_buffer_size (emit e s) = cb_buffer_size s"
  "cb_rd (emit e s) = cb_rd s"
  "cb_wr (emit e s) = cb_wr s"
  "cb_flush_generation (emit e s) = cb_flush_generation s"
  "cb_seq_num_gen (emit e s) = cb_seq_num_gen s"
  "cb_in_flight_queue (emit e s) = cb_in_flight_queue s"
  "cb_events (emit e s) = cb_events s @ [e]"
  by (simp_all add: emit_def)

lemma run_send_cbk_frame [simp]:
  "cb_pipe_bound (run_send_cbk c r s) = cb_pipe_bound s"
  "cb_flush_in_progress (run_send_cbk c r s) = cb_flush_in_progress s"
  "cb_internal_state (run_send_cbk c r s) = cb_internal_state s"
  "cb_buffer (run_send_cbk c r s) = cb_buffer s"
  "cb_buffer_size (run_send_cbk c r s) = cb_buffer_size s"
  "cb_rd (run_send_cbk c r s) = cb_rd s"
  "cb_wr (run_send_cbk c r s) = cb_wr s"
  "cb_flush_generation (run_send_cbk c r s) = cb_flush_generation s"
  "cb_in_flight_queue (run_send_cbk c r s) = cb_in_flight_queue s"
  by (simp_all add: run_send_cbk_def split: option.splits)

section \<open>The ring\<close>

text \<open>
  The distance from one position of a ring of \<open>n\<close> bytes forward to another; the pending
  data is the distance from the read to the write position.
\<close>

definition ring_dist :: "nat \<Rightarrow> nat \<Rightarrow> nat \<Rightarrow> nat" where
  "ring_dist n a b = (if a \<le> b then b - a else b + n - a)"

lemma ring_dist_less: "a < n \<Longrightarrow> b < n \<Longrightarrow> ring_dist n a b < n"
  by (auto simp: ring_dist_def)

lemma ring_dist_self [simp]: "ring_dist n a a = 0"
  by (simp add: ring_dist_def)

lemma ring_dist_advance:
  "a < n \<Longrightarrow> b < n \<Longrightarrow> ring_dist n a b + k < n \<Longrightarrow> ring_dist n a ((b + k) mod n) = ring_dist n a b + k"
  by (cases "b + k < n") (auto simp: ring_dist_def mod_if split: if_splits)

lemma ring_dist_shift:
  assumes "a < n" "p < n" "q < n" "ring_dist n a p \<le> ring_dist n a q"
  shows "ring_dist n p q = ring_dist n a q - ring_dist n a p"
  using assms by (auto simp: ring_dist_def split: if_splits)

lemma ring_dist_iff_between:
  assumes "a < n" "p < n" "q < n"
  shows "ring_dist n a p \<le> ring_dist n a q \<longleftrightarrow>
    p + (if p < a then n else 0) \<le> q + (if q < a then n else 0)"
  using assms by (auto simp: ring_dist_def)

text \<open>
  An adapter that is operational: its buffer is mapped, and both positions are in it.
  The size is bounded by the largest buffer the media interfaces allow.
\<close>

definition cb_open :: "'h Adapter \<Rightarrow> bool" where
  "cb_open s \<longleftrightarrow> \<not> Faulted s \<and> \<not> Busy s \<and> cb_pipe_bound s \<and> cb_buffer s \<noteq> None \<and>
     cb_buffer_size s \<le> kMaxBufferLen \<and> cb_rd s < cb_buffer_size s \<and> cb_wr s < cb_buffer_size s"

definition cb_n :: "'h Adapter \<Rightarrow> nat" where
  "cb_n s = unat (cb_buffer_size s)"

definition cb_pending :: "'h Adapter \<Rightarrow> nat" where
  "cb_pending s = ring_dist (cb_n s) (unat (cb_rd s)) (unat (cb_wr s))"

lemma cb_open_bounds:
  assumes "cb_open s"
  shows "unat (cb_rd s) < cb_n s" "unat (cb_wr s) < cb_n s" "cb_n s < 2 ^ 62" "0 < cb_n s"
proof -
  show rd: "unat (cb_rd s) < cb_n s" and "unat (cb_wr s) < cb_n s"
    using assms by (simp_all add: cb_open_def cb_n_def word_less_nat_alt)
  have "cb_n s \<le> unat kMaxBufferLen"
    using assms by (simp add: cb_open_def cb_n_def word_le_nat_alt)
  then show "cb_n s < 2 ^ 62" by (simp add: kMaxBufferLen_def)
  show "0 < cb_n s" using rd by simp
qed

lemma unat_plus_small: "unat a + unat b < 2 ^ 64 \<Longrightarrow> unat (a + b) = unat a + unat b" for a b :: u64
  by (simp add: unat_word_ariths(1))

lemma unat_minus_le: "b \<le> a \<Longrightarrow> unat (a - b) = unat a - unat b" for a b :: u64
  by (rule unat_sub)

lemma GetPending_dist:
  assumes "cb_open s"
  shows "unat (GetPending s) = cb_pending s"
proof -
  note b = cb_open_bounds [OF assms]
  have nn: "cb_buffer s \<noteq> None" using assms by (simp add: cb_open_def)
  show ?thesis
  proof (cases "cb_wr s < cb_rd s")
    case True
    have "GetPending s = cb_buffer_size s + cb_wr s - cb_rd s"
      using True nn by (auto simp: GetPending_def)
    moreover have "unat (cb_buffer_size s + cb_wr s) = cb_n s + unat (cb_wr s)"
      using b by (subst unat_plus_small) (simp_all add: cb_n_def)
    ultimately show ?thesis using True b
      by (simp add: unat_sub word_le_nat_alt word_less_nat_alt cb_pending_def ring_dist_def)
  next
    case False
    then show ?thesis using nn
      by (auto simp: GetPending_def unat_sub word_le_nat_alt word_less_nat_alt cb_pending_def ring_dist_def)
  qed
qed

section \<open>Creating packets\<close>

text \<open>Whether a packet is moved to the start of the buffer, and what it then takes of the ring.\<close>

definition cb_padded :: "u64 \<Rightarrow> bool \<Rightarrow> 'h Adapter \<Rightarrow> bool" where
  "cb_padded sz no_wrap s \<longleftrightarrow>
     no_wrap \<and> cb_rd s < cb_wr s \<and> cb_n s - unat (cb_wr s) < unat sz"

definition cb_start :: "u64 \<Rightarrow> bool \<Rightarrow> 'h Adapter \<Rightarrow> nat" where
  "cb_start sz no_wrap s = (if cb_padded sz no_wrap s then 0 else unat (cb_wr s))"

definition cb_taken :: "u64 \<Rightarrow> bool \<Rightarrow> 'h Adapter \<Rightarrow> nat" where
  "cb_taken sz no_wrap s = (if cb_padded sz no_wrap s then cb_n s - unat (cb_wr s) else 0) + unat sz"

definition cb_room :: "u64 \<Rightarrow> bool \<Rightarrow> 'h Adapter \<Rightarrow> bool" where
  "cb_room sz no_wrap s \<longleftrightarrow> cb_pending s + cb_taken sz no_wrap s < cb_n s"

text \<open>The regions of the shared buffer that a packet consists of.\<close>

definition packet_regions :: "MappedPacket \<Rightarrow> (nat \<times> nat) list" where
  "packet_regions p = (case mp_packet p of
     None \<Rightarrow> []
   | Some m \<Rightarrow> map (\<lambda>r. (unat (rgn_offset r), unat (rgn_length r)))
       ((case pkt_payload m of None \<Rightarrow> [] | Some r \<Rightarrow> [r]) @
        (case pkt_extra_payload m of None \<Rightarrow> [] | Some rs \<Rightarrow> rs)))"

definition region_bytes :: "(nat \<times> nat) list \<Rightarrow> nat set" where
  "region_bytes rs = (\<Union>(off, len) \<in> set rs. {off ..< off + len})"

definition pending_bytes :: "'h Adapter \<Rightarrow> nat set" where
  "pending_bytes s = {x. x < cb_n s \<and> ring_dist (cb_n s) (unat (cb_rd s)) x < cb_pending s}"

text \<open>The packet that a successful call fills in.\<close>

definition created :: "u64 \<Rightarrow> bool \<Rightarrow> 'h Adapter \<Rightarrow> MappedPacket \<Rightarrow> MappedPacket" where
  "created sz no_wrap s packet =
    (let start = of_nat (cb_start sz no_wrap s); wraps = start + sz > cb_buffer_size s;
         len = (if wraps then cb_buffer_size s - start else sz)
     in packet\<lparr>mp_packet := Some (MediaPacket_New
           \<lparr>pkt_payload := Some \<lparr>rgn_offset = start, rgn_length = len\<rparr>,
            pkt_extra_payload := Some (if wraps then [\<lparr>rgn_offset = 0, rgn_length = sz - len\<rparr>] else [])\<rparr>),
         mp_data0 := map_option (\<lambda>b. b + unat start) (cb_buffer s),
         mp_length0 := len, mp_cancel_wr := cb_wr s, mp_flush_generation := cb_flush_generation s,
         mp_data1 := (if wraps then cb_buffer s else None),
         mp_length1 := (if wraps then sz - len else 0)\<rparr>)"

lemma cb_room_bounds:
  assumes "cb_open s" "cb_room sz no_wrap s"
  shows "unat sz < cb_n s" "cb_start sz no_wrap s + unat sz < 2 ^ 63"
    "cb_padded sz no_wrap s \<Longrightarrow> unat sz < unat (cb_rd s)"
    "\<not> cb_padded sz no_wrap s \<Longrightarrow> cb_pending s + unat sz < cb_n s"
  using cb_open_bounds [OF assms(1)] assms(2)
  by (auto simp: cb_room_def cb_taken_def cb_start_def cb_pending_def ring_dist_def cb_padded_def
      word_less_nat_alt split: if_splits)

text \<open>
  The code's test for room: whether the end of the packet lies in the pending data. The comparison is made with
  the end of the packet alone, and modulo the size only where the pending data wraps around.
\<close>

definition cb_refused :: "u64 \<Rightarrow> bool \<Rightarrow> 'h Adapter \<Rightarrow> bool" where
  "cb_refused sz no_wrap s \<longleftrightarrow> (let e = cb_start sz no_wrap s + unat sz
     in unat (cb_rd s) \<le> e \<and> e < unat (cb_wr s) + (if cb_wr s < cb_rd s then cb_n s else 0))"

lemma cb_refused_iff:
  assumes "cb_open s" "unat sz < cb_n s"
  shows "cb_refused sz no_wrap s \<longleftrightarrow> \<not> cb_room sz no_wrap s \<and>
    (cb_wr s < cb_rd s \<or> (cb_padded sz no_wrap s \<and> unat sz < unat (cb_wr s)))"
  using cb_open_bounds [OF assms(1)] assms(2)
  by (auto simp: cb_refused_def cb_room_def cb_taken_def cb_start_def cb_pending_def ring_dist_def cb_padded_def
      word_less_nat_alt Let_def split: if_splits)

lemma cb_start_bound: "cb_open s \<Longrightarrow> unat sz < cb_n s \<Longrightarrow> cb_start sz no_wrap s + unat sz < 2 ^ 63"
  using cb_open_bounds [of s] by (auto simp: cb_start_def)

lemma CreateMediaPacket_eq:
  assumes "cb_open s" and sz: "unat sz < cb_n s"
  shows "CreateMediaPacket sz no_wrap packet s = Inr (if cb_refused sz no_wrap s then (INSUFFICIENT_RESOURCES, packet, s)
    else (OK, created sz no_wrap s packet,
      UpdateSignalled (s\<lparr>cb_wr := of_nat ((unat (cb_wr s) + cb_taken sz no_wrap s) mod cb_n s)\<rparr>)))"
proof -
  note b = cb_open_bounds [OF assms(1)]
  define start where "start = (if cb_padded sz no_wrap s then 0 else cb_wr s)"
  have st: "unat start = cb_start sz no_wrap s" by (simp add: start_def cb_start_def)
  have st': "of_nat (cb_start sz no_wrap s) = start" by (simp add: start_def cb_start_def)
  have pad: "(no_wrap \<and> cb_wr s > cb_rd s \<and> cb_buffer_size s - cb_wr s < sz) = cb_padded sz no_wrap s"
    using b by (auto simp: cb_padded_def cb_n_def word_less_nat_alt unat_sub word_le_nat_alt)
  have e: "unat (start + sz) = cb_start sz no_wrap s + unat sz"
    using cb_start_bound [OF assms, of no_wrap] by (subst unat_plus_small) (simp_all add: st)
  have op: "\<not> Faulted s" "\<not> Busy s" "cb_buffer_size s \<noteq> 0" "cb_wr s < cb_buffer_size s"
    "cb_rd s < cb_buffer_size s"
    using assms(1) by (auto simp: cb_open_def)
  have fit: "\<not> sz > cb_buffer_size s - 1"
    using sz op(3) by (simp add: word_less_nat_alt cb_n_def unat_minus_one)
  define nonmod where "nonmod = cb_wr s + (if cb_rd s > cb_wr s then cb_buffer_size s else 0)"
  have nm: "unat nonmod = unat (cb_wr s) + (if cb_rd s > cb_wr s then cb_n s else 0)"
    using b unfolding nonmod_def by (auto simp: cb_n_def unat_plus_small)
  then have nm_rd: "nonmod \<ge> cb_rd s" using b by (auto simp: word_le_nat_alt word_less_nat_alt)
  have free: "(start + sz \<ge> cb_rd s \<and> start + sz < nonmod) = cb_refused sz no_wrap s"
    using e nm by (simp add: cb_refused_def Let_def word_le_nat_alt word_less_nat_alt)
  have "start + sz > cb_buffer_size s \<Longrightarrow> sz > cb_buffer_size s - start"
  proof -
    assume gt: "start + sz > cb_buffer_size s"
    have "start \<le> cb_buffer_size s" using op(4) by (auto simp: start_def intro: less_imp_le)
    with gt e st show ?thesis by (simp add: word_less_nat_alt word_le_nat_alt unat_sub)
  qed
  moreover have "(start + sz) mod cb_buffer_size s =
      of_nat ((unat (cb_wr s) + cb_taken sz no_wrap s) mod cb_n s)"
  proof -
    have "(cb_start sz no_wrap s + unat sz) mod cb_n s =
        (unat (cb_wr s) + cb_taken sz no_wrap s) mod cb_n s"
      using b(2) by (auto simp: cb_start_def cb_taken_def mod_if)
    then have "unat ((start + sz) mod cb_buffer_size s) = (unat (cb_wr s) + cb_taken sz no_wrap s) mod cb_n s"
      using e by (simp only: unat_mod_distrib cb_n_def)
    then have "of_nat (unat ((start + sz) mod cb_buffer_size s)) =
        (of_nat ((unat (cb_wr s) + cb_taken sz no_wrap s) mod cb_n s) :: u64)" by (rule arg_cong)
    then show ?thesis by simp
  qed
  ultimately show ?thesis
    unfolding CreateMediaPacket_def pad start_def [symmetric] Let_def nonmod_def [symmetric]
    using op fit nm_rd
    by (simp add: free created_def Let_def st' option.map_ident)
qed

lemma CreateMediaPacket_room:
  assumes "cb_open s" "cb_room sz no_wrap s"
  shows "CreateMediaPacket sz no_wrap packet s =
    Inr (OK, created sz no_wrap s packet,
      UpdateSignalled (s\<lparr>cb_wr := of_nat ((unat (cb_wr s) + cb_taken sz no_wrap s) mod cb_n s)\<rparr>))"
  using CreateMediaPacket_eq [OF assms(1) cb_room_bounds(1) [OF assms]] assms
  by (simp add: cb_refused_iff cb_room_bounds(1) [OF assms])

lemma CreateMediaPacket_too_large:
  assumes "cb_open s" "cb_n s \<le> unat sz"
  shows "CreateMediaPacket sz no_wrap packet s = Inr (INSUFFICIENT_RESOURCES, packet, s)"
proof -
  have "cb_buffer_size s \<noteq> 0" using assms(1) by (auto simp: cb_open_def)
  then have "sz > cb_buffer_size s - 1" "cb_buffer_size s \<noteq> 0" using assms(2) cb_open_bounds(4) [OF assms(1)]
    by (simp_all add: word_less_nat_alt unat_minus_one cb_n_def)
  then show ?thesis using assms(1) by (simp add: CreateMediaPacket_def cb_open_def)
qed

lemma created_regions:
  fixes no_wrap :: bool
  assumes "cb_open s" "unat sz < cb_n s"
  defines "st \<equiv> cb_start sz no_wrap s"
  shows "packet_regions (created sz no_wrap s packet) =
    (if st + unat sz \<le> cb_n s then [(st, unat sz)] else [(st, cb_n s - st), (0, st + unat sz - cb_n s)])"
proof -
  note b = cb_open_bounds [OF assms(1)]
  define start :: u64 where "start = of_nat st"
  have st_n: "st < cb_n s" using b by (simp add: st_def cb_start_def)
  then have st: "unat start = st" using b(3) by (simp add: start_def unat_of_nat)
  have e: "unat (start + sz) = st + unat sz"
    using cb_start_bound [OF assms(1,2), of no_wrap] by (subst unat_plus_small) (simp_all add: st st_def)
  have wraps: "start + sz > cb_buffer_size s \<longleftrightarrow> \<not> st + unat sz \<le> cb_n s"
    using e by (simp add: word_less_nat_alt cb_n_def not_le)
  have "unat (cb_buffer_size s - start) = cb_n s - st"
    using st_n st by (subst unat_sub) (simp_all add: word_le_nat_alt cb_n_def)
  moreover have "unat (sz - (cb_buffer_size s - start)) = st + unat sz - cb_n s"
    if "\<not> st + unat sz \<le> cb_n s"
    using that calculation st_n by (subst unat_sub) (simp_all add: word_le_nat_alt)
  ultimately show ?thesis
    unfolding created_def Let_def st_def [symmetric] start_def [symmetric] wraps
    by (simp add: packet_regions_def st)
qed

lemma created_bytes:
  assumes "cb_open s" "unat sz < cb_n s"
  shows "region_bytes (packet_regions (created sz no_wrap s packet)) =
    (\<lambda>i. (cb_start sz no_wrap s + i) mod cb_n s) ` {..< unat sz}" (is "?L = ?f ` _")
proof -
  let ?st = "cb_start sz no_wrap s"
  note b = cb_open_bounds [OF assms(1)]
  have st_n: "?st < cb_n s" using b by (simp add: cb_start_def)
  show ?thesis
  proof (cases "?st + unat sz \<le> cb_n s")
    case True
    then have "?f ` {..< unat sz} = (\<lambda>i. ?st + i) ` {..< unat sz}"
      by (intro image_cong) auto
    also have "\<dots> = {?st ..< ?st + unat sz}"
      by (simp add: image_add_atLeastLessThan lessThan_atLeast0 add.commute)
    finally show ?thesis using True by (simp add: created_regions [OF assms] region_bytes_def)
  next
    case False
    let ?k = "cb_n s - ?st"
    have "{..< unat sz} = {..< ?k} \<union> {?k ..< unat sz}" using False by auto
    moreover have "?f ` {..< ?k} = (\<lambda>i. ?st + i) ` {..< ?k}" by (intro image_cong) auto
    moreover have "(\<lambda>i. ?st + i) ` {..< ?k} = {?st ..< cb_n s}"
      using st_n by (simp add: image_add_atLeastLessThan lessThan_atLeast0)
    moreover have "?f ` {?k ..< unat sz} = (\<lambda>i. i - ?k) ` {?k ..< unat sz}"
      using st_n assms(2) by (intro image_cong) (auto simp: mod_if)
    moreover have "(\<lambda>i. i - ?k) ` {?k ..< unat sz} = {0 ..< unat sz - ?k}"
    proof -
      have "?k < unat sz" using False st_n by linarith
      then show ?thesis by (simp only: image_minus_const_atLeastLessThan_nat if_True diff_self_eq_0)
    qed
    ultimately have "?f ` {..< unat sz} = {?st ..< cb_n s} \<union> {0 ..< unat sz - ?k}"
      by (simp only: image_Un)
    then show ?thesis using False st_n
      by (simp add: created_regions [OF assms] region_bytes_def add.commute)
  qed
qed

lemma created_bytes_far:
  assumes "cb_open s" "cb_room sz no_wrap s" "i < unat sz"
  shows "cb_pending s \<le> ring_dist (cb_n s) (unat (cb_rd s)) ((cb_start sz no_wrap s + i) mod cb_n s)"
proof (cases "cb_padded sz no_wrap s")
  case True
  with cb_room_bounds(3) [OF assms(1,2)] cb_open_bounds [OF assms(1)] assms(3) show ?thesis
    by (auto simp: cb_start_def cb_pending_def ring_dist_def cb_padded_def word_less_nat_alt)
next
  case False
  with cb_room_bounds(4) [OF assms(1,2)] assms(3) have "cb_pending s + i < cb_n s" by simp
  with ring_dist_advance [of "unat (cb_rd s)" "cb_n s" "unat (cb_wr s)" i] cb_open_bounds [OF assms(1)] False
  show ?thesis by (simp add: cb_start_def cb_pending_def)
qed

lemma created_disjoint:
  assumes "cb_open s" "cb_room sz no_wrap s"
  shows "region_bytes (packet_regions (created sz no_wrap s packet)) \<inter> pending_bytes s = {}"
  using created_bytes_far [OF assms] unfolding created_bytes [OF assms(1) cb_room_bounds(1) [OF assms]] pending_bytes_def
  by fastforce

definition packet_end :: "nat \<Rightarrow> MappedPacket \<Rightarrow> nat" where
  "packet_end n p = (case last (packet_regions p) of (off, len) \<Rightarrow> (off + len) mod n)"

lemma created_end:
  assumes "cb_open s" "cb_room sz no_wrap s"
  shows "packet_end (cb_n s) (created sz no_wrap s packet) =
    (unat (cb_wr s) + cb_taken sz no_wrap s) mod cb_n s"
proof -
  let ?st = "cb_start sz no_wrap s"
  note b = cb_open_bounds [OF assms(1)] and r = cb_room_bounds [OF assms]
  have "packet_end (cb_n s) (created sz no_wrap s packet) = (?st + unat sz) mod cb_n s"
    using b r(1) by (auto simp: packet_end_def created_regions [OF assms(1) r(1)] mod_if)
  also have "\<dots> = (unat (cb_wr s) + cb_taken sz no_wrap s) mod cb_n s"
    using b(2) by (auto simp: cb_start_def cb_taken_def mod_if)
  finally show ?thesis .
qed

lemma cb_wr_advance:
  assumes "cb_open s" "cb_room sz no_wrap s"
  shows "ring_dist (cb_n s) (unat (cb_rd s)) ((unat (cb_wr s) + cb_taken sz no_wrap s) mod cb_n s) =
    cb_pending s + cb_taken sz no_wrap s"
  using cb_open_bounds [OF assms(1)] assms(2) ring_dist_advance
  by (simp add: cb_room_def cb_pending_def)

section \<open>A producer and a consumer that keep the protocol\<close>

text \<open>
  The packets that the producer has created and neither sent nor cancelled, in the order
  of their creation, are part of the state of the system. They are well formed, and the
  ends of the packets in flight, the bounds of the outstanding ones and the write
  position follow each other around the ring from the read position on.
\<close>

definition packet_wf :: "'h Adapter \<Rightarrow> MappedPacket \<Rightarrow> bool" where
  "packet_wf s p \<longleftrightarrow>
     (\<exists>m rs. mp_packet p = Some m \<and> pkt_payload m \<noteq> None \<and> pkt_extra_payload m = Some rs \<and> length rs \<le> 1) \<and>
     mp_flush_generation p = cb_flush_generation s \<and>
     (case last (packet_regions p) of (off, len) \<Rightarrow> off + len \<le> cb_n s)"

definition marks :: "'h Adapter \<Rightarrow> MappedPacket list \<Rightarrow> nat list" where
  "marks s out = map (\<lambda>ps. unat (ps_post_consume_rd ps)) (cb_in_flight_queue s) @
     concat (map (\<lambda>p. [unat (mp_cancel_wr p), packet_end (cb_n s) p]) out) @ [unat (cb_wr s)]"

definition cb_inv :: "'h Adapter \<times> MappedPacket list \<Rightarrow> bool" where
  "cb_inv = (\<lambda>(s, out). cb_open s \<and> (\<forall>p \<in> set out. packet_wf s p) \<and>
     (\<forall>m \<in> set (marks s out). m < cb_n s) \<and>
     sorted (map (ring_dist (cb_n s) (unat (cb_rd s))) (marks s out)))"

lemma SendMediaPacket_wf:
  assumes "cb_open s" "packet_wf s p"
  shows "\<exists>m. mp_packet p = Some m \<and>
    SendMediaPacket sys p cbk s = Inr (OK, MappedPacket_Reset p,
      emit (Pipe_SendPacket m (cb_seq_num_gen s))
        (s\<lparr>cb_seq_num_gen := cb_seq_num_gen s + 1,
           cb_in_flight_queue := cb_in_flight_queue s @
             [\<lparr>ps_post_consume_rd = of_nat (packet_end (cb_n s) p), ps_seq_num = cb_seq_num_gen s, ps_cbk = cbk\<rparr>]\<rparr>))"
proof -
  note b = cb_open_bounds [OF assms(1)]
  obtain m r1 rs where m: "mp_packet p = Some m" "pkt_payload m = Some r1" "pkt_extra_payload m = Some rs"
      "length rs \<le> 1" "mp_flush_generation p = cb_flush_generation s"
    and le: "case last (packet_regions p) of (off, len) \<Rightarrow> off + len \<le> cb_n s"
    using assms(2) by (auto simp: packet_wf_def)
  define r where "r = (case rs of [] \<Rightarrow> r1 | r2 # _ \<Rightarrow> r2)"
  have last: "last (packet_regions p) = (unat (rgn_offset r), unat (rgn_length r))"
    using m by (cases rs) (auto simp: packet_regions_def r_def)
  have post: "(case rs of r2 # _ \<Rightarrow> Inr (rgn_offset r2 + rgn_length r2)
      | [] \<Rightarrow> (case pkt_payload m of None \<Rightarrow> Inl Null_deref
               | Some r1 \<Rightarrow> Inr (rgn_offset r1 + rgn_length r1))) = Inr (rgn_offset r + rgn_length r)"
    using m(2) by (simp add: r_def split: list.splits)
  have u: "unat (rgn_offset r + rgn_length r) = unat (rgn_offset r) + unat (rgn_length r)"
    using le b(3) last by (intro unat_plus_small) simp
  then have bound: "rgn_offset r + rgn_length r \<le> cb_buffer_size s"
    using le last by (simp add: word_le_nat_alt cb_n_def)
  have eq: "(if rgn_offset r + rgn_length r = cb_buffer_size s then 0 else rgn_offset r + rgn_length r) =
      of_nat (packet_end (cb_n s) p)"
  proof (cases "unat (rgn_offset r + rgn_length r) = cb_n s")
    case True
    then have "rgn_offset r + rgn_length r = cb_buffer_size s" by (simp add: cb_n_def word_unat_eq_iff)
    moreover have "packet_end (cb_n s) p = 0" using True u last by (simp add: packet_end_def)
    ultimately show ?thesis by simp
  next
    case False
    then have ne: "rgn_offset r + rgn_length r \<noteq> cb_buffer_size s" by (auto simp: cb_n_def)
    have "packet_end (cb_n s) p = unat (rgn_offset r + rgn_length r)"
      using False u last le by (simp add: packet_end_def)
    then have "of_nat (packet_end (cb_n s) p) = rgn_offset r + rgn_length r" by (simp only:) simp
    with ne show ?thesis by simp
  qed
  have op: "\<not> Faulted s" "\<not> Busy s" "cb_pipe_bound s" using assms(1) by (simp_all add: cb_open_def)
  show ?thesis
    unfolding SendMediaPacket_def m(1,3) option.case post rbind_simps Let_def eq [symmetric]
    using m op bound by simp
qed

lemma cb_open_cong:
  "cb_internal_state s' = cb_internal_state s \<Longrightarrow> cb_flush_in_progress s' = cb_flush_in_progress s \<Longrightarrow>
   cb_pipe_bound s' = cb_pipe_bound s \<Longrightarrow> cb_buffer s' = cb_buffer s \<Longrightarrow>
   cb_buffer_size s' = cb_buffer_size s \<Longrightarrow> cb_rd s' < cb_buffer_size s \<Longrightarrow> cb_wr s' < cb_buffer_size s \<Longrightarrow>
   cb_open s \<Longrightarrow> cb_open s'"
  by (simp add: cb_open_def Faulted_def Busy_def)

lemma packet_wf_cong:
  "cb_flush_generation s' = cb_flush_generation s \<Longrightarrow> cb_buffer_size s' = cb_buffer_size s \<Longrightarrow>
   packet_wf s' = packet_wf s"
  by (simp add: packet_wf_def cb_n_def fun_eq_iff)

lemma cb_n_cong: "cb_buffer_size s' = cb_buffer_size s \<Longrightarrow> cb_n s' = cb_n s"
  by (simp add: cb_n_def)

text \<open>The front of the queue can always be consumed, and consuming it frees exactly its bytes.\<close>

lemma HandleSendPacket_inv:
  assumes "cb_inv (s, out)" "cb_in_flight_queue s = ps # rest"
  shows "\<exists>s'. HandleSendPacket sys (ps_seq_num ps) result s = Inr s' \<and> cb_inv (s', out) \<and>
    cb_in_flight_queue s' = rest \<and>
    cb_pending s' = cb_pending s - ring_dist (cb_n s) (unat (cb_rd s)) (unat (ps_post_consume_rd ps))"
proof -
  let ?rd = "unat (cb_rd s)" and ?p = "unat (ps_post_consume_rd ps)" and ?n = "cb_n s"
  have op: "cb_open s" using assms(1) by (simp add: cb_inv_def)
  note b = cb_open_bounds [OF op]
  have mk: "marks s out = ?p # marks (s\<lparr>cb_in_flight_queue := rest\<rparr>) out"
    using assms(2) by (simp add: marks_def cb_n_def)
  let ?ms = "marks (s\<lparr>cb_in_flight_queue := rest\<rparr>) out"
  have p: "?p < ?n" and ms: "\<forall>m \<in> set ?ms. m < ?n"
    and srt: "sorted (map (ring_dist ?n ?rd) ?ms)"
    and le: "\<forall>m \<in> set ?ms. ring_dist ?n ?rd ?p \<le> ring_dist ?n ?rd m"
    using assms(1) by (auto simp: cb_inv_def mk)
  have wr: "unat (cb_wr s) \<in> set ?ms" by (simp add: marks_def)
  define s2 where "s2 = UpdateSignalled (s\<lparr>cb_in_flight_queue := rest, cb_rd := ps_post_consume_rd ps\<rparr>)"
  have pw: "ps_post_consume_rd ps < cb_buffer_size s" using p by (simp add: word_less_nat_alt cb_n_def)
  have btw: "?p + (if ?p < ?rd then ?n else 0) \<le> unat (cb_wr s) + (if unat (cb_wr s) < ?rd then ?n else 0)"
    using le wr ring_dist_iff_between [OF b(1) p b(2)] by blast
  have w: "unat (x + (if x < cb_rd s then cb_buffer_size s else 0)) = unat x + (if unat x < ?rd then ?n else 0)"
    if "unat x < ?n" for x :: u64
    using that b(3) by (auto simp: word_less_nat_alt cb_n_def unat_plus_small)
  have "HandleSendPacket sys (ps_seq_num ps) result s = Inr (run_send_cbk (ps_cbk ps) result s2)"
  proof -
    have "ps_post_consume_rd ps + (if ps_post_consume_rd ps < cb_rd s then cb_buffer_size s else 0) \<ge> cb_rd s"
      using b(1) by (auto simp: word_le_nat_alt w [OF p])
    moreover have "ps_post_consume_rd ps + (if ps_post_consume_rd ps < cb_rd s then cb_buffer_size s else 0)
        \<le> cb_wr s + (if cb_wr s < cb_rd s then cb_buffer_size s else 0)"
      using btw by (simp only: word_le_nat_alt w [OF p] w [OF b(2)])
    moreover have "\<not> cb_flush_in_progress s" using op by (simp add: cb_open_def Busy_def)
    ultimately show ?thesis using assms(2)
      by (auto simp: HandleSendPacket_def Let_def s2_def split: if_splits)
  qed
  moreover have "cb_inv (run_send_cbk (ps_cbk ps) result s2, out)"
  proof -
    let ?s = "run_send_cbk (ps_cbk ps) result s2"
    have n: "cb_n ?s = ?n" by (rule cb_n_cong) (simp add: s2_def)
    have "cb_open ?s"
      by (rule cb_open_cong [OF _ _ _ _ _ _ _ op]) (use pw op in \<open>simp_all add: s2_def cb_open_def\<close>)
    moreover have "packet_wf ?s = packet_wf s" by (rule packet_wf_cong) (simp_all add: s2_def)
    moreover have m: "marks ?s out = ?ms" by (simp add: marks_def n s2_def cb_n_def)
    moreover have "sorted (map (ring_dist ?n ?p) ?ms)"
    proof -
      have "map (ring_dist ?n ?p) ?ms = map (\<lambda>d. d - ring_dist ?n ?rd ?p) (map (ring_dist ?n ?rd) ?ms)"
        using le ms ring_dist_shift [OF b(1) p] by simp
      moreover have "sorted (map (\<lambda>d. d - c) xs)" if "sorted xs" for xs :: "nat list" and c
        using that by (induction xs) (auto simp: diff_le_mono)
      ultimately show ?thesis using srt by (simp only:)
    qed
    ultimately show ?thesis using assms(1) ms n by (simp add: cb_inv_def s2_def)
  qed
  moreover have "cb_pending (run_send_cbk (ps_cbk ps) result s2) = cb_pending s - ring_dist ?n ?rd ?p"
    using ring_dist_shift [OF b(1) p b(2)] le wr by (simp add: cb_pending_def cb_n_def s2_def)
  ultimately show ?thesis by (simp add: s2_def)
qed

text \<open>The members that the invariant reads.\<close>

definition cb_view ::
  "'h Adapter \<Rightarrow> MediaResult \<times> bool \<times> bool \<times> addr option \<times> u64 \<times> u64 \<times> u64 \<times> u32 \<times> PacketState list" where
  "cb_view s = (cb_internal_state s, cb_flush_in_progress s, cb_pipe_bound s, cb_buffer s,
     cb_buffer_size s, cb_rd s, cb_wr s, cb_flush_generation s, cb_in_flight_queue s)"

lemma cb_inv_cong: "cb_view s' = cb_view s \<Longrightarrow> cb_inv (s', out) = cb_inv (s, out)"
  by (simp add: cb_view_def cb_inv_def cb_open_def Faulted_def Busy_def packet_wf_def marks_def cb_n_def)

lemma cb_inv_UpdateSignalled [simp]: "cb_inv (UpdateSignalled s, out) = cb_inv (s, out)"
  by (rule cb_inv_cong) (simp add: cb_view_def)

lemma CreateMediaPacket_inv:
  assumes "cb_inv (s, out)" "cb_room sz no_wrap s" "CreateMediaPacket sz no_wrap packet s = Inr (r, p, s')"
  shows "cb_inv (s', out @ [p])"
proof -
  have op: "cb_open s" using assms(1) by (simp add: cb_inv_def)
  note b = cb_open_bounds [OF op] and rb = cb_room_bounds [OF op assms(2)]
  let ?p = "created sz no_wrap s packet" and ?e = "(unat (cb_wr s) + cb_taken sz no_wrap s) mod cb_n s"
  let ?s = "s\<lparr>cb_wr := of_nat ?e\<rparr>"
  have p: "p = ?p" "s' = UpdateSignalled ?s"
    using assms(3) CreateMediaPacket_room [OF op assms(2), of packet] by simp_all
  have e: "?e < cb_n s" using b by simp
  then have ue: "unat (of_nat ?e :: u64) = ?e"
    using b(3) by (simp add: unat_of_nat)
  have n: "cb_n ?s = cb_n s" by (simp add: cb_n_def)
  have "cb_open ?s"
    by (rule cb_open_cong [OF _ _ _ _ _ _ _ op])
      (use op e ue in \<open>simp_all add: cb_open_def word_less_nat_alt cb_n_def\<close>)
  moreover have "packet_wf ?s = packet_wf s" by (rule packet_wf_cong) simp_all
  moreover have "packet_wf s ?p"
    using b rb by (auto simp: packet_wf_def created_regions [OF op rb(1)] cb_start_def)
      (simp_all add: created_def Let_def)
  moreover have mk: "marks ?s (out @ [?p]) = marks s out @ [?e, ?e]"
    using created_end [OF op assms(2), of packet] by (simp add: marks_def n ue created_def Let_def)
  moreover have "sorted (map (ring_dist (cb_n s) (unat (cb_rd s))) (marks s out @ [?e, ?e]))"
  proof -
    have "sorted (map (ring_dist (cb_n s) (unat (cb_rd s))) (marks s out))" using assms(1) by (simp add: cb_inv_def)
    moreover have "ring_dist (cb_n s) (unat (cb_rd s)) m \<le> cb_pending s" if "m \<in> set (marks s out)" for m
      using calculation that by (auto simp: marks_def sorted_append cb_pending_def)
    ultimately show ?thesis
      using cb_wr_advance [OF op assms(2)] by (fastforce simp: sorted_append)
  qed
  ultimately show ?thesis using assms(1) e unfolding p cb_inv_UpdateSignalled
    by (simp add: cb_inv_def n)
qed

lemma SendMediaPacket_inv:
  assumes "cb_inv (s, p # out)"
  shows "\<exists>p' s'. SendMediaPacket sys p cbk s = Inr (OK, p', s') \<and> cb_inv (s', out)"
proof -
  have op: "cb_open s" and wf: "packet_wf s p" using assms by (simp_all add: cb_inv_def)
  obtain m where m: "SendMediaPacket sys p cbk s = Inr (OK, MappedPacket_Reset p,
      emit (Pipe_SendPacket m (cb_seq_num_gen s))
        (s\<lparr>cb_seq_num_gen := cb_seq_num_gen s + 1,
           cb_in_flight_queue := cb_in_flight_queue s @
             [\<lparr>ps_post_consume_rd = of_nat (packet_end (cb_n s) p), ps_seq_num = cb_seq_num_gen s, ps_cbk = cbk\<rparr>]\<rparr>))"
    (is "_ = Inr (_, _, ?s)")
    using SendMediaPacket_wf [OF op wf] by blast
  have n: "cb_n ?s = cb_n s" by (simp add: cb_n_def)
  have "packet_end (cb_n s) p \<in> set (marks s (p # out))" by (simp add: marks_def)
  then have "packet_end (cb_n s) p < cb_n s" using assms by (auto simp: cb_inv_def)
  then have ue: "unat (of_nat (packet_end (cb_n s) p) :: u64) = packet_end (cb_n s) p"
    using cb_open_bounds(3) [OF op] by (simp add: unat_of_nat)
  have "cb_open ?s" using op by (simp add: cb_open_def Faulted_def Busy_def)
  moreover have "packet_wf ?s = packet_wf s" by (rule packet_wf_cong) simp_all
  moreover have "\<exists>xs ys c. marks s (p # out) = xs @ c # ys \<and> marks ?s out = xs @ ys"
    unfolding marks_def n
    by (intro exI [of _ "map (\<lambda>ps. unat (ps_post_consume_rd ps)) (cb_in_flight_queue s)"]
        exI [of _ "packet_end (cb_n s) p #
          concat (map (\<lambda>p. [unat (mp_cancel_wr p), packet_end (cb_n s) p]) out) @ [unat (cb_wr s)]"]
        exI [of _ "unat (mp_cancel_wr p)"]) (simp add: ue)
  ultimately have "cb_inv (?s, out)" using assms n
    by (auto simp: cb_inv_def sorted_append)
  with m show ?thesis by blast
qed

lemma CancelMediaPacket_inv:
  assumes "cb_inv (s, out @ [p])"
  shows "\<exists>p' s'. CancelMediaPacket p s = Inr (OK, p', s') \<and> cb_inv (s', out) \<and>
    cb_wr s' = mp_cancel_wr p"
proof -
  have op: "cb_open s" and wf: "packet_wf s p" using assms by (simp_all add: cb_inv_def)
  let ?s = "s\<lparr>cb_wr := mp_cancel_wr p\<rparr>"
  have n: "cb_n ?s = cb_n s" by (simp add: cb_n_def)
  have "unat (mp_cancel_wr p) \<in> set (marks s (out @ [p]))" by (simp add: marks_def)
  then have "unat (mp_cancel_wr p) < cb_n s" using assms by (auto simp: cb_inv_def)
  then have "cb_open ?s" using op by (simp add: cb_open_def Faulted_def Busy_def word_less_nat_alt cb_n_def)
  moreover have "packet_wf ?s = packet_wf s" by (rule packet_wf_cong) simp_all
  moreover have "\<exists>ys. marks s (out @ [p]) = marks ?s out @ ys" by (simp add: marks_def n)
  ultimately have "cb_inv (?s, out)" using assms n by (auto simp: cb_inv_def sorted_append)
  moreover have "CancelMediaPacket p s = Inr (OK, MappedPacket_Reset p, UpdateSignalled ?s)"
    using op wf by (auto simp: CancelMediaPacket_def packet_wf_def cb_open_def)
  ultimately show ?thesis by simp
qed

lemma HandleSignalCallback_inv:
  "cb_inv (s, out) \<Longrightarrow> HandleSignalCallback s = Inr s' \<Longrightarrow> cb_inv (s', out)"
  by (subst cb_inv_cong [of s' s])
    (auto simp: HandleSignalCallback_def Let_def cb_view_def split: if_splits option.splits)

text \<open>
  The cases in which the code's test decides whether there is room: the pending data wraps around the end
  of the buffer, or the packet is larger than the buffer. In the others it creates a packet whether there is
  room or not, so the producer has to know that there is.
\<close>

definition cb_decided :: "u64 \<Rightarrow> bool \<Rightarrow> 'h Adapter \<Rightarrow> bool" where
  "cb_decided sz no_wrap s \<longleftrightarrow> cb_wr s < cb_rd s \<or> cb_n s \<le> unat sz \<or> (cb_padded sz no_wrap s \<and> unat sz < unat (cb_wr s))"

lemma CreateMediaPacket_decided:
  assumes "cb_open s" "cb_decided sz no_wrap s" "\<not> cb_room sz no_wrap s"
  shows "CreateMediaPacket sz no_wrap packet s = Inr (INSUFFICIENT_RESOURCES, packet, s)"
proof (cases "unat sz < cb_n s")
  case True
  with assms have "cb_refused sz no_wrap s" by (auto simp: cb_refused_iff cb_decided_def)
  then show ?thesis using CreateMediaPacket_eq [OF assms(1) True] by simp
next
  case False
  then show ?thesis using CreateMediaPacket_too_large [OF assms(1)] by simp
qed

text \<open>
  The runs of a producer that sends packets in the order of their creation and cancels them in the inverse
  order, with a consumer that returns packets in the order they were sent. The producer asks for packets of any size
  where the code decides, and elsewhere only for packets there is room for.
\<close>

inductive cb_step :: "'h mojo_buffers \<Rightarrow> 'h Adapter \<times> MappedPacket list \<Rightarrow> 'h Adapter \<times> MappedPacket list \<Rightarrow> bool"
  for sys where
  create: "cb_decided sz no_wrap s \<or> cb_room sz no_wrap s \<Longrightarrow> CreateMediaPacket sz no_wrap blank s = Inr (r, p, s') \<Longrightarrow>
    cb_step sys (s, out) (s', if r = OK then out @ [p] else out)"
| send: "SendMediaPacket sys p cbk s = Inr (r, p', s') \<Longrightarrow> cb_step sys (s, p # out) (s', out)"
| cancel: "CancelMediaPacket p s = Inr (r, p', s') \<Longrightarrow> cb_step sys (s, out @ [p]) (s', out)"
| consume: "cb_in_flight_queue s = ps # rest \<Longrightarrow> HandleSendPacket sys (ps_seq_num ps) result s = Inr s' \<Longrightarrow>
    cb_step sys (s, out) (s', out)"
| watermarks: "SetWatermarks hi lo s = Inr s' \<Longrightarrow> cb_step sys (s, out) (s', out)"
| callback: "cb_step sys (s, out) (SetSignalCallback cbk s, out)"
| signal: "HandleSignalCallback s = Inr s' \<Longrightarrow> cb_step sys (s, out) (s', out)"

lemma cb_step_inv: "cb_step sys c c' \<Longrightarrow> cb_inv c \<Longrightarrow> cb_inv c'"
proof (induction rule: cb_step.induct)
  case (create sz no_wrap s blank r p s' out)
  have op: "cb_open s" using create(3) by (simp add: cb_inv_def)
  show ?case
  proof (cases "cb_room sz no_wrap s")
    case True
    then have "r = OK" using create(2) CreateMediaPacket_room [OF op] by simp
    with CreateMediaPacket_inv [OF create(3) True create(2)] show ?thesis by simp
  next
    case False
    with create CreateMediaPacket_decided [OF op] show ?thesis by auto
  qed
next
  case (send p cbk s r p' s' out)
  then show ?case using SendMediaPacket_inv [of s p out sys cbk] by auto
next
  case (cancel p s r p' s' out)
  then show ?case using CancelMediaPacket_inv [of s out p] by auto
next
  case (consume s ps rest result s' out)
  then show ?case using HandleSendPacket_inv [of s out ps rest sys result] by auto
next
  case (watermarks hi lo s s' out)
  from watermarks(1) have "cb_view s' = cb_view s" by (auto simp: SetWatermarks_def cb_view_def)
  with watermarks(2) show ?case using cb_inv_cong [of s' s out] by blast
next
  case (callback s out cbk)
  have "cb_view (SetSignalCallback cbk s) = cb_view s" by (simp add: SetSignalCallback_def Let_def cb_view_def)
  with callback show ?case using cb_inv_cong [of _ s out] by blast
next
  case (signal s s' out)
  from HandleSignalCallback_inv [OF signal(2,1)] show ?case .
qed

lemma cb_steps_inv: "(cb_step sys)\<^sup>*\<^sup>* c c' \<Longrightarrow> cb_inv c \<Longrightarrow> cb_inv c'"
  by (induction rule: rtranclp_induct) (auto intro: cb_step_inv)

section \<open>Properties\<close>

definition cb100 :: "u64 \<Rightarrow> u64 \<Rightarrow> unit Adapter" where
  "cb100 rd wr = \<lparr>cb_pipe_bound = True, cb_signal_cbk = Some 7, cb_flush_in_progress = False,
     cb_fault_cbk_made = False, cb_cbk_scheduled = False, cb_hi_water_mark = 50,
     cb_lo_water_mark = 20, cb_signalled = False, cb_internal_state = OK,
     cb_buffer_handle = Some (), cb_buffer = Some 1000, cb_buffer_size = 100, cb_rd = rd, cb_wr = wr,
     cb_flush_generation = 0, cb_seq_num_gen = 0, cb_in_flight_queue = [], cb_events = []\<rparr>"

definition blank_packet :: MappedPacket where
  "blank_packet = \<lparr>mp_packet = None, mp_data0 = None, mp_data1 = None, mp_length0 = 0, mp_length1 = 0,
     mp_cancel_wr = 0, mp_flush_generation = 0\<rparr>"

lemma cb100_open: "rd < 100 \<Longrightarrow> wr < 100 \<Longrightarrow> cb_open (cb100 rd wr)"
  by (simp add: cb_open_def cb100_def Faulted_def Busy_def kMaxBufferLen_def)

lemma cb100_inv: "rd < 100 \<Longrightarrow> wr < 100 \<Longrightarrow> cb_inv (cb100 rd wr, [])"
  using cb100_open [of rd wr] by (simp add: cb_inv_def marks_def cb_open_bounds) (simp add: cb100_def)

text \<open>
  When there is room in the ring, \<^verbatim>\<open>CreateMediaPacket\<close> succeeds: the packet's
  regions lie in the buffer, add up to the requested size and overlap no pending
  byte, the pending data grows by what the packet takes, and cancelling the packet
  puts the write position back.
\<close>

lemma CreateMediaPacket_correct:
  assumes "cb_open s" "cb_room sz no_wrap s"
  shows "\<exists>p s'. CreateMediaPacket sz no_wrap packet s = Inr (OK, p, s') \<and>
    sum_list (map snd (packet_regions p)) = unat sz \<and>
    region_bytes (packet_regions p) \<subseteq> {..< cb_n s} \<and>
    region_bytes (packet_regions p) \<inter> pending_bytes s = {} \<and>
    unat (GetPending s') = unat (GetPending s) + cb_taken sz no_wrap s \<and>
    (\<exists>p' s''. CancelMediaPacket p s' = Inr (OK, p', s'') \<and> cb_wr s'' = cb_wr s \<and> GetPending s'' = GetPending s)"
proof -
  note b = cb_open_bounds [OF assms(1)] and r = cb_room_bounds [OF assms]
  let ?p = "created sz no_wrap s packet" and ?e = "(unat (cb_wr s) + cb_taken sz no_wrap s) mod cb_n s"
  let ?s = "UpdateSignalled (s\<lparr>cb_wr := of_nat ?e\<rparr>)"
  have e: "unat (of_nat ?e :: u64) = ?e"
    using b(3,4) mod_less_divisor [OF b(4), of "unat (cb_wr s) + cb_taken sz no_wrap s"]
    by (simp add: unat_of_nat del: mod_less_divisor)
  have "of_nat ?e < cb_buffer_size s" using b(4) by (simp add: word_less_nat_alt e flip: cb_n_def)
  then have op: "cb_open ?s"
    by (intro cb_open_cong [OF _ _ _ _ _ _ _ assms(1)]) (use assms(1) in \<open>simp_all add: cb_open_def\<close>)
  have n: "cb_n ?s = cb_n s" by (rule cb_n_cong) simp
  have "cb_pending ?s = cb_pending s + cb_taken sz no_wrap s"
    using cb_wr_advance [OF assms] e unfolding cb_pending_def n by simp
  then have pend: "unat (GetPending ?s) = unat (GetPending s) + cb_taken sz no_wrap s"
    using GetPending_dist [OF op] GetPending_dist [OF assms(1)] by simp
  have sum: "sum_list (map snd (packet_regions ?p)) = unat sz"
    using b r(1) by (auto simp: created_regions [OF assms(1) r(1)] cb_start_def)
  have sub: "region_bytes (packet_regions ?p) \<subseteq> {..< cb_n s}"
    using b(4) unfolding created_bytes [OF assms(1) r(1)] by auto
  have cancel: "CancelMediaPacket ?p ?s = Inr (OK, MappedPacket_Reset ?p, UpdateSignalled (?s\<lparr>cb_wr := cb_wr s\<rparr>))"
    using assms(1) by (simp add: CancelMediaPacket_def created_def Let_def cb_open_def Faulted_def Busy_def)
  have "GetPending (UpdateSignalled (?s\<lparr>cb_wr := cb_wr s\<rparr>)) = GetPending s" by (simp add: GetPending_def)
  with CreateMediaPacket_room [OF assms, of packet] sum sub created_disjoint [OF assms, of packet] pend cancel
  show ?thesis by auto
qed



text \<open>
  C6. As long as the producer sends packets in order, cancels them in inverse order and the
  consumer returns them in order, the adapter never faults: every send succeeds, and every return of the oldest
  packet in flight advances the read position to its end. The producer may ask for more than there
  is room for while the pending data wraps around the end of the buffer, where \<^verbatim>\<open>CreateMediaPacket\<close> refuses it; otherwise it
  must itself make sure that there is room, since the code does not, although its interface promises it.
\<close>

theorem cb_run_never_faults:
  assumes "cb_open s0" "cb_in_flight_queue s0 = []" "(cb_step sys)\<^sup>*\<^sup>* (s0, []) (s, out)"
  shows "cb_open s \<and>
    (\<forall>p rest. out = p # rest \<longrightarrow> (\<exists>p' s'. SendMediaPacket sys p cbk s = Inr (OK, p', s') \<and> cb_open s')) \<and>
    (\<forall>ps rest. cb_in_flight_queue s = ps # rest \<longrightarrow>
      (\<exists>s'. HandleSendPacket sys (ps_seq_num ps) result s = Inr s' \<and> cb_open s' \<and>
         cb_rd s' = ps_post_consume_rd ps \<and> GetPending s' \<le> GetPending s))"
proof -
  have "cb_inv (s0, [])" using assms(1,2) by (simp add: cb_inv_def marks_def cb_open_bounds)
  then have inv: "cb_inv (s, out)" by (rule cb_steps_inv [OF assms(3)])
  then have op: "cb_open s" by (simp add: cb_inv_def)
  have "\<exists>s'. HandleSendPacket sys (ps_seq_num ps) result s = Inr s' \<and> cb_open s' \<and>
         cb_rd s' = ps_post_consume_rd ps \<and> GetPending s' \<le> GetPending s"
    if q: "cb_in_flight_queue s = ps # rest" for ps rest
  proof -
    obtain s' where s': "HandleSendPacket sys (ps_seq_num ps) result s = Inr s'" "cb_inv (s', out)"
      "cb_pending s' \<le> cb_pending s"
      using HandleSendPacket_inv [OF inv q, of sys result] by auto
    then have op': "cb_open s'" by (simp add: cb_inv_def)
    then have "\<not> Faulted s'" by (simp add: cb_open_def)
    then have "cb_rd s' = ps_post_consume_rd ps"
      using s'(1) q op by (auto simp: HandleSendPacket_def Let_def Faulted_def cb_open_def Busy_def rbind_eq_Inr_iff
          Fault_def Cleanup_def split: if_splits)
    moreover have "GetPending s' \<le> GetPending s"
      using s'(3) GetPending_dist [OF op] GetPending_dist [OF op'] by (simp add: word_le_nat_alt)
    ultimately show ?thesis using s' op' by blast
  qed
  moreover have "\<exists>p' s'. SendMediaPacket sys p cbk s = Inr (OK, p', s') \<and> cb_open s'"
    if "out = p # rest" for p rest
    using SendMediaPacket_inv [of s p rest sys cbk] inv that by (auto simp: cb_inv_def)
  ultimately show ?thesis using op by blast
qed

theorem cb_run_never_faults_witness:
  "\<exists>p s. CreateMediaPacket 20 False blank_packet (cb100 60 90) = Inr (OK, p, s) \<and>
     (\<exists>p' s'. SendMediaPacket one_page p None s = Inr (OK, p', s') \<and> cb_open s')"
proof -
  have room: "cb_room 20 False (cb100 60 90)" and op: "cb_open (cb100 60 90)"
    by (simp_all add: cb_room_def cb_taken_def cb_padded_def cb_pending_def ring_dist_def cb_n_def
        cb100_open) (simp_all add: cb100_def)
  obtain p s where c: "CreateMediaPacket 20 False blank_packet (cb100 60 90) = Inr (OK, p, s)"
    using CreateMediaPacket_room [OF op room] by blast
  have "cb_step one_page (cb100 60 90, []) (s, [] @ [p])" using create [OF disjI2 [OF room] c, of one_page "[]"] by simp
  then have "(cb_step one_page)\<^sup>*\<^sup>* (cb100 60 90, []) (s, [p])" by auto
  from cb_run_never_faults [OF op _ this, of None SR_CONSUMED] c show ?thesis
    by (auto simp: cb100_def)
qed

text \<open>
  The signal follows the water marks with hysteresis: an operational adapter
  becomes signalled when the pending data falls below the low mark and stays so until
  it reaches the high mark; a faulted adapter is signalled and a flushing one is not;
  and a signalled adapter always has a callback scheduled, at most one at a time, until
  its final fault callback has been made.
\<close>

lemma UpdateSignalled_hysteresis:
  "cb_signalled (UpdateSignalled s) =
     (if Faulted s then True else if Busy s then False
      else if cb_signalled s then \<not> AboveHiWater s else BelowLoWater s) \<and>
   (cb_signalled (UpdateSignalled s) \<and> \<not> cb_fault_cbk_made s \<longrightarrow> cb_cbk_scheduled (UpdateSignalled s)) \<and>
   cb_events (UpdateSignalled s) = cb_events s @
     (if cb_signalled (UpdateSignalled s) \<and> \<not> cb_cbk_scheduled s \<and> \<not> cb_fault_cbk_made s
      then [Post_signalled_callback] else [])"
proof -
  have "cb_signalled (UpdateSignalled s) =
     (if Faulted s then True else if Busy s then False
      else if cb_signalled s then \<not> AboveHiWater s else BelowLoWater s)"
    by (simp add: UpdateSignalled_def Let_def AboveHiWater_def BelowLoWater_def)
  moreover have "cb_signalled (UpdateSignalled s) \<and> \<not> cb_fault_cbk_made s \<longrightarrow>
      cb_cbk_scheduled (UpdateSignalled s)"
    by (simp add: UpdateSignalled_def Let_def) blast
  moreover have "cb_events (UpdateSignalled s) = cb_events s @
     (if cb_signalled (UpdateSignalled s) \<and> \<not> cb_cbk_scheduled s \<and> \<not> cb_fault_cbk_made s
      then [Post_signalled_callback] else [])"
    by (simp add: UpdateSignalled_def Let_def)
  ultimately show ?thesis by blast
qed

text \<open>
  Without the room condition, \<^verbatim>\<open>CreateMediaPacket\<close> hands out bytes that are still
  pending: on an empty ring of 100 bytes two packets of 80 bytes are both created, and
  the second overlaps the first. While the pending data does not wrap around the end of
  the buffer, the code's test for the end of the packet cannot be met.
\<close>

lemma CreateMediaPacket_overlap:
  "\<exists>p s p' s'. CreateMediaPacket 80 False blank_packet (cb100 0 0) = Inr (OK, p, s) \<and>
     CreateMediaPacket 80 False blank_packet s = Inr (OK, p', s') \<and>
     packet_regions p = [(0, 80)] \<and> packet_regions p' = [(80, 20), (0, 60)] \<and> GetPending s' = 60"
  by (simp add: CreateMediaPacket_def cb100_def Faulted_def Busy_def Let_def packet_regions_def
      MediaPacket_New_def GetPending_def)

text \<open>
  A packet requested with \<^verbatim>\<open>no_wrap\<close> can wrap around the end of the buffer: the
  padding is only considered when the write position is past the read position,
  which leaves out an empty ring whose positions are near the end.
\<close>

lemma CreateMediaPacket_no_wrap_wraps:
  "\<exists>p s. CreateMediaPacket 50 True blank_packet (cb100 90 90) = Inr (OK, p, s) \<and>
     packet_regions p = [(90, 10), (0, 40)]"
  by (simp add: CreateMediaPacket_def cb100_def Faulted_def Busy_def Let_def packet_regions_def
      MediaPacket_New_def)

text \<open>
  A flush cannot complete. \<^verbatim>\<open>Flush\<close> empties the queue of packets in flight, and the
  consumer's answer makes \<^verbatim>\<open>HandleFlush\<close> call \<^verbatim>\<open>pop_front\<close> on the empty queue;
  and when the consumer first returns a packet that was in flight, the adapter
  faults, since the packet is no longer in the queue.
\<close>

lemma Flush_cannot_complete:
  assumes "\<not> Faulted s" "\<not> Busy s" "cb_pipe_bound s"
  shows "\<exists>s'. Adapter_Flush s = Inr (OK, s') \<and> HandleFlush sys s' = Inl Out_of_range \<and>
    HandleSendPacket sys seq result s' = Fault sys UNKNOWN_ERROR s'"
  using assms by (simp add: Adapter_Flush_def Let_def HandleFlush_def HandleSendPacket_def Faulted_def Busy_def)

text \<open>
  A fault is permanent and silent. Whatever the reason, the adapter ends in the
  state SHUTTING_DOWN with its resources released, where it refuses to create packets
  and answers sends with FLUSHED; and since the cleanup drops the user's callback, the
  scheduled signal reports nothing, although the interface promises a call that tells
  the reason.
\<close>

lemma Fault_silent:
  assumes "\<not> Faulted s" "\<forall>a. cb_buffer s = Some a \<longrightarrow> UnmapBuffer sys a" "cb_events s = []"
    and "\<not> cb_fault_cbk_made s" "\<not> cb_cbk_scheduled s"
  shows "\<exists>s' s''. Fault sys reason s = Inr s' \<and> cb_internal_state s' = SHUTTING_DOWN \<and>
    cb_buffer s' = None \<and> cb_in_flight_queue s' = [] \<and> \<not> cb_pipe_bound s' \<and>
    CreateMediaPacket sz no_wrap packet s' = Inr (BAD_STATE, packet, s') \<and>
    Fault sys reason' s' = Inr s' \<and>
    HandleSignalCallback s' = Inr s'' \<and> (\<forall>c r. Run_signal_cbk c r \<notin> set (cb_events s''))"
proof -
  obtain s1 where s1: "Cleanup sys (s\<lparr>cb_internal_state := reason\<rparr>) = Inr s1"
    "cb_internal_state s1 = SHUTTING_DOWN" "cb_buffer s1 = None" "cb_in_flight_queue s1 = []"
    "\<not> cb_pipe_bound s1" "cb_signal_cbk s1 = None" "cb_fault_cbk_made s1 = cb_fault_cbk_made s"
    "set (cb_events s1) \<subseteq> {Pipe_reset}"
    using assms(2,3) by (cases "cb_pipe_bound s") (auto simp: Cleanup_def Let_def split: option.splits)
  let ?s = "UpdateSignalled s1"
  have f: "Faulted ?s" using s1(2) by (simp add: Faulted_def)
  then have sig: "cb_signalled ?s" "cb_cbk_scheduled ?s" "set (cb_events ?s) \<subseteq> {Pipe_reset, Post_signalled_callback}"
    using s1 assms(4) by (auto simp: UpdateSignalled_def Faulted_def Let_def)
  have "Fault sys reason s = Inr ?s" using assms(1) s1(1) by (simp add: Fault_def Faulted_def)
  moreover have "UpdateSignalled ?s = ?s"
    using f sig(1,2) unfolding UpdateSignalled_def [of ?s] Let_def by simp
  then have "Fault sys reason' ?s = Inr ?s" using s1(2) by (simp add: Fault_def)
  moreover have "HandleSignalCallback ?s = Inr (?s\<lparr>cb_cbk_scheduled := False\<rparr>)"
    using sig s1 by (simp add: HandleSignalCallback_def Let_def)
  moreover have "CreateMediaPacket sz no_wrap packet ?s = Inr (BAD_STATE, packet, ?s)"
    using f by (simp add: CreateMediaPacket_def)
  ultimately show ?thesis using s1 sig(3) by auto
qed

end
