(* ===== verification/Media_Pipe.thy ===== *)
theory Media_Pipe
  imports Media_Transport Shared_Buffer
begin

text \<open>
  The class \<^verbatim>\<open>MediaPipeBase\<close> (services/media/common/media_pipe_base.h, media_pipe_base.cc):
  the consumer's side of a media pipe. It maps the shared buffer a client provides,
  checks every packet the client sends against that buffer, and passes the valid
  ones on to a derived class.

  The virtual functions a derived class implements are entries of \<open>pb_calls\<close>, the
  trace of what the pipe has asked of it and answered to its client; the answer of
  \<^verbatim>\<open>OnFlushRequested\<close> is an argument. A callback is known by a number.
\<close>

section \<open>State and operations\<close>

record 'h PipeBuffer =
  bf_handle :: "'h option"
  bf_size :: u64
  bf_base :: "addr option"

record 'h MediaPacketState =
  ms_packet :: MediaPacket
  ms_buffer :: "'h PipeBuffer"
  ms_cbk :: nat
  ms_result :: SendResult

datatype 'h pipe_call =
    OnPacketReceived "'h MediaPacketState"
  | OnPrimeRequested nat
  | OnFlushRequested nat
  | SetBuffer_done nat
  | SendPacket_done nat SendResult

record 'h MediaPipe =
  pb_bound :: bool
  pb_buffer :: "'h PipeBuffer option"
  pb_calls :: "'h pipe_call list"

definition MediaPipe_new :: "'h MediaPipe" where
  "MediaPipe_new = \<lparr>pb_bound = False, pb_buffer = None, pb_calls = []\<rparr>"

definition IsInitialized :: "'h MediaPipe \<Rightarrow> bool" where
  "IsInitialized s \<longleftrightarrow> pb_bound s"

text \<open>\<^verbatim>\<open>Init\<close> returns \<open>False\<close> for \<^verbatim>\<open>MOJO_RESULT_ALREADY_EXISTS\<close>.\<close>

definition MediaPipe_Init :: "'h MediaPipe \<Rightarrow> bool \<times> 'h MediaPipe" where
  "MediaPipe_Init s = (if IsInitialized s then (False, s) else (True, s\<lparr>pb_bound := True\<rparr>))"

definition MediaPipe_Reset :: "'h MediaPipe \<Rightarrow> 'h MediaPipe" where
  "MediaPipe_Reset s = s\<lparr>pb_bound := False, pb_buffer := None\<rparr>"

definition pb_call :: "'h pipe_call \<Rightarrow> 'h MediaPipe \<Rightarrow> 'h MediaPipe" where
  "pb_call c s = s\<lparr>pb_calls := pb_calls s @ [c]\<rparr>"

definition PipeBuffer_make :: "'h mojo_buffers \<Rightarrow> 'h \<Rightarrow> u64 \<Rightarrow> 'h PipeBuffer res" where
  "PipeBuffer_make sys handle sz =
     (let (res, p) = MapBuffer sys handle 0 sz
      in if res then Inr \<lparr>bf_handle = Some handle, bf_size = sz, bf_base = p\<rparr>
         else dcheck (p = None) (Inr \<lparr>bf_handle = None, bf_size = sz, bf_base = None\<rparr>))"

definition PipeBuffer_Create :: "'h mojo_buffers \<Rightarrow> 'h \<Rightarrow> u64 \<Rightarrow> 'h PipeBuffer option res" where
  "PipeBuffer_Create sys handle sz =
     rbind (PipeBuffer_make sys handle sz) (\<lambda>ret. Inr (if bf_base ret \<noteq> None then Some ret else None))"

definition SetBuffer :: "'h mojo_buffers \<Rightarrow> 'h option \<Rightarrow> nat \<Rightarrow> 'h MediaPipe \<Rightarrow> 'h MediaPipe res" where
  "SetBuffer sys handle cbk s =
     (case handle of
        None \<Rightarrow> Inl Dcheck_failed
      | Some h \<Rightarrow>
          if pb_buffer s \<noteq> None then Inr (MediaPipe_Reset s)
          else let (res, sz) = MojoGetBufferInformation sys h
               in if \<not> res then Inr (MediaPipe_Reset s)
                  else if sz = 0 \<or> sz > kMaxBufferLen then Inr (MediaPipe_Reset s)
                  else rbind (PipeBuffer_Create sys h sz) (\<lambda>b.
                    let s = s\<lparr>pb_buffer := b\<rparr>
                    in if b = None then Inr (MediaPipe_Reset s)
                       else Inr (pb_call (SetBuffer_done cbk) s)))"

text \<open>
  The loop of \<^verbatim>\<open>SendPacket\<close> over the payload region and the extra regions; \<open>None\<close> is a
  missing region. It gives whether every region is in range.
\<close>

fun check_regions :: "u64 \<Rightarrow> MediaPacketRegion option list \<Rightarrow> bool" where
  "check_regions sz [] = True"
| "check_regions sz (r # rs) =
     (case r of
        None \<Rightarrow> False
      | Some r \<Rightarrow>
          if rgn_offset r > sz \<or> rgn_length r > sz - rgn_offset r then False
          else check_regions sz rs)"

definition MediaPacketState_make :: "MediaPacket \<Rightarrow> 'h PipeBuffer \<Rightarrow> nat \<Rightarrow> 'h MediaPacketState res" where
  "MediaPacketState_make packet buffer cbk =
     dcheck (pkt_payload packet \<noteq> None)
       (Inr \<lparr>ms_packet = packet, ms_buffer = buffer, ms_cbk = cbk, ms_result = SR_CONSUMED\<rparr>)"

definition SendPacket :: "MediaPacket \<Rightarrow> nat \<Rightarrow> 'h MediaPipe \<Rightarrow> 'h MediaPipe res" where
  "SendPacket packet cbk s =
     (case pb_buffer s of
        None \<Rightarrow> Inr (MediaPipe_Reset s)
      | Some b \<Rightarrow>
          dcheck (bf_size b \<noteq> 0)
            (let regions = pkt_payload packet #
                   (case pkt_extra_payload packet of None \<Rightarrow> [] | Some rs \<Rightarrow> map Some rs)
             in if \<not> check_regions (bf_size b) regions then Inr (MediaPipe_Reset s)
                else rbind (MediaPacketState_make packet b cbk) (\<lambda>st.
                  Inr (pb_call (OnPacketReceived st) s))))"

definition Prime :: "nat \<Rightarrow> 'h MediaPipe \<Rightarrow> 'h MediaPipe" where
  "Prime cbk s = pb_call (OnPrimeRequested cbk) s"

definition MediaPipe_Flush :: "bool \<Rightarrow> nat \<Rightarrow> 'h MediaPipe \<Rightarrow> 'h MediaPipe" where
  "MediaPipe_Flush answer cbk s =
     (case pb_buffer s of
        None \<Rightarrow> MediaPipe_Reset s
      | Some _ \<Rightarrow>
          (let s = pb_call (OnFlushRequested cbk) s
           in if \<not> answer then MediaPipe_Reset s else s))"

text \<open>
  \<^verbatim>\<open>SetResult\<close> exchanges the result only if it is still the initial one; the destructor
  answers the client.
\<close>

definition SetResult :: "SendResult \<Rightarrow> 'h MediaPacketState \<Rightarrow> 'h MediaPacketState" where
  "SetResult result st = (if ms_result st = SR_CONSUMED then st\<lparr>ms_result := result\<rparr> else st)"

definition MediaPacketState_delete :: "'h MediaPacketState \<Rightarrow> 'h MediaPipe \<Rightarrow> 'h MediaPipe" where
  "MediaPacketState_delete st s = pb_call (SendPacket_done (ms_cbk st) (ms_result st)) s"

section \<open>Which packets are passed on\<close>

definition regions_of :: "MediaPacket \<Rightarrow> MediaPacketRegion list" where
  "regions_of p = (case pkt_payload p of None \<Rightarrow> [] | Some r \<Rightarrow> [r]) @
     (case pkt_extra_payload p of None \<Rightarrow> [] | Some rs \<Rightarrow> rs)"

definition region_in :: "u64 \<Rightarrow> MediaPacketRegion \<Rightarrow> bool" where
  "region_in sz r \<longleftrightarrow> unat (rgn_offset r) + unat (rgn_length r) \<le> unat sz"

lemma check_region_iff:
  "\<not> (rgn_offset r > sz \<or> rgn_length r > sz - rgn_offset r) \<longleftrightarrow> region_in sz r"
proof (cases "rgn_offset r \<le> sz")
  case True
  then have "unat (sz - rgn_offset r) = unat sz - unat (rgn_offset r)" by (rule unat_sub)
  with True show ?thesis by (auto simp: region_in_def word_le_nat_alt word_less_nat_alt)
next
  case False
  then show ?thesis by (auto simp: region_in_def word_le_nat_alt word_less_nat_alt)
qed

lemma check_regions_iff:
  "check_regions sz rs \<longleftrightarrow> (\<forall>r \<in> set rs. \<exists>x. r = Some x \<and> region_in sz x)"
  by (induction rs) (auto simp: check_region_iff [symmetric] split: option.splits)

definition packet_in :: "u64 \<Rightarrow> MediaPacket \<Rightarrow> bool" where
  "packet_in sz p \<longleftrightarrow> pkt_payload p \<noteq> None \<and> (\<forall>r \<in> set (regions_of p). region_in sz r)"

lemma SendPacket_iff:
  assumes "pb_buffer s = Some b" "bf_size b \<noteq> 0"
  shows "SendPacket packet cbk s = Inr
    (if packet_in (bf_size b) packet
     then pb_call (OnPacketReceived \<lparr>ms_packet = packet, ms_buffer = b, ms_cbk = cbk, ms_result = SR_CONSUMED\<rparr>) s
     else MediaPipe_Reset s)"
proof -
  have "check_regions (bf_size b) (pkt_payload packet #
      (case pkt_extra_payload packet of None \<Rightarrow> [] | Some rs \<Rightarrow> map Some rs)) \<longleftrightarrow> packet_in (bf_size b) packet"
    unfolding check_regions_iff packet_in_def regions_of_def
    by (cases "pkt_payload packet"; cases "pkt_extra_payload packet") auto
  then show ?thesis using assms
    by (auto simp: SendPacket_def MediaPacketState_make_def packet_in_def simp del: check_regions.simps)
qed

section \<open>The invariant of a pipe\<close>

text \<open>
  The buffer is mapped and its size within the limit of the interface, and every packet
  that was handed to the derived class lies in the buffer that was handed over with it.
\<close>

definition buffer_ok :: "'h PipeBuffer \<Rightarrow> bool" where
  "buffer_ok b \<longleftrightarrow> bf_base b \<noteq> None \<and> bf_handle b \<noteq> None \<and> 0 < bf_size b \<and> bf_size b \<le> kMaxBufferLen"

definition pipe_inv :: "'h MediaPipe \<Rightarrow> bool" where
  "pipe_inv s \<longleftrightarrow> (\<forall>b. pb_buffer s = Some b \<longrightarrow> buffer_ok b) \<and>
     (\<forall>st. OnPacketReceived st \<in> set (pb_calls s) \<longrightarrow>
        buffer_ok (ms_buffer st) \<and> packet_in (bf_size (ms_buffer st)) (ms_packet st))"

text \<open>What a client, whatever it sends, and the derived class can do with a pipe.\<close>

inductive pipe_step :: "'h mojo_buffers \<Rightarrow> 'h MediaPipe \<Rightarrow> 'h MediaPipe \<Rightarrow> bool" for sys where
  pipe_init: "pipe_step sys s (snd (MediaPipe_Init s))"
| pipe_reset: "pipe_step sys s (MediaPipe_Reset s)"
| pipe_set_buffer: "SetBuffer sys (Some h) cbk s = Inr s' \<Longrightarrow> pipe_step sys s s'"
| pipe_send: "SendPacket packet cbk s = Inr s' \<Longrightarrow> pipe_step sys s s'"
| pipe_prime: "pipe_step sys s (Prime cbk s)"
| pipe_flush: "pipe_step sys s (MediaPipe_Flush answer cbk s)"
| pipe_done: "OnPacketReceived st \<in> set (pb_calls s) \<Longrightarrow>
    pipe_step sys s (MediaPacketState_delete (SetResult result st) s)"

lemma MediaPipe_Reset_inv: "pipe_inv s \<Longrightarrow> pipe_inv (MediaPipe_Reset s)"
  by (simp add: pipe_inv_def MediaPipe_Reset_def)

lemma pb_call_inv:
  "pipe_inv s \<Longrightarrow> (\<And>st. c = OnPacketReceived st \<Longrightarrow> buffer_ok (ms_buffer st) \<and>
     packet_in (bf_size (ms_buffer st)) (ms_packet st)) \<Longrightarrow> pipe_inv (pb_call c s)"
  by (auto simp: pipe_inv_def pb_call_def)

lemma PipeBuffer_Create_ok:
  assumes "PipeBuffer_Create sys h sz = Inr (Some b)" "0 < sz" "sz \<le> kMaxBufferLen"
  shows "buffer_ok b"
proof -
  obtain res p where m: "MapBuffer sys h 0 sz = (res, p)" by (cases "MapBuffer sys h 0 sz")
  with assms show ?thesis
    by (cases res) (auto simp: PipeBuffer_Create_def PipeBuffer_make_def buffer_ok_def rbind_eq_Inr_iff
        split: if_splits)
qed

lemma SetBuffer_inv:
  assumes "SetBuffer sys (Some h) cbk s = Inr s'" "pipe_inv s"
  shows "pipe_inv s'"
proof -
  obtain res sz where i: "MojoGetBufferInformation sys h = (res, sz)"
    by (cases "MojoGetBufferInformation sys h")
  show ?thesis
  proof (cases "pb_buffer s \<noteq> None \<or> \<not> res \<or> sz = 0 \<or> sz > kMaxBufferLen")
    case True
    then have "s' = MediaPipe_Reset s" using assms(1) i by (auto simp: SetBuffer_def split: if_splits)
    then show ?thesis using MediaPipe_Reset_inv [OF assms(2)] by simp
  next
    case False
    with assms(1) i obtain b where b: "PipeBuffer_Create sys h sz = Inr b"
      "s' = (if b = None then MediaPipe_Reset (s\<lparr>pb_buffer := b\<rparr>)
        else pb_call (SetBuffer_done cbk) (s\<lparr>pb_buffer := b\<rparr>))"
      by (fastforce simp: SetBuffer_def rbind_eq_Inr_iff Let_def split: if_splits)
    have "pipe_inv (s\<lparr>pb_buffer := b\<rparr>)"
      using assms(2) PipeBuffer_Create_ok [of sys h sz] b(1) False
      by (auto simp: pipe_inv_def word_gt_0 not_less)
    with b(2) show ?thesis
      by (auto simp: Let_def intro: MediaPipe_Reset_inv pb_call_inv split: if_splits)
  qed
qed

lemma SendPacket_inv:
  assumes "SendPacket packet cbk s = Inr s'" "pipe_inv s"
  shows "pipe_inv s'"
proof (cases "pb_buffer s")
  case None
  with assms show ?thesis by (auto simp: SendPacket_def intro: MediaPipe_Reset_inv)
next
  case (Some b)
  with assms(2) have ok: "buffer_ok b" by (simp add: pipe_inv_def)
  then have "bf_size b \<noteq> 0" by (auto simp: buffer_ok_def)
  from SendPacket_iff [OF Some this] assms ok show ?thesis
    by (auto intro!: MediaPipe_Reset_inv pb_call_inv split: if_splits)
qed

lemma MediaPipe_new_inv: "pipe_inv MediaPipe_new"
  by (simp add: pipe_inv_def MediaPipe_new_def)

lemma pipe_step_inv: "pipe_step sys s s' \<Longrightarrow> pipe_inv s \<Longrightarrow> pipe_inv s'"
proof (induction rule: pipe_step.induct)
  case (pipe_init s)
  then show ?case by (simp add: MediaPipe_Init_def pipe_inv_def)
next
  case (pipe_flush s answer cbk)
  then show ?case
    by (auto simp: MediaPipe_Flush_def Let_def intro!: MediaPipe_Reset_inv pb_call_inv split: option.splits)
next
  case (pipe_done st s result)
  then show ?case by (auto simp: MediaPacketState_delete_def intro: pb_call_inv)
qed (auto simp: Prime_def intro: MediaPipe_Reset_inv SetBuffer_inv SendPacket_inv pb_call_inv)

section \<open>Properties\<close>

text \<open>
  C27. Whatever buffers and packets a client sends, and in whatever order, every packet
  that reaches the implementation of a pipe lies, with all its regions, in a buffer
  that is mapped and no larger than the interface allows.
\<close>

theorem pipe_delivers_only_valid_packets:
  assumes "(pipe_step sys)\<^sup>*\<^sup>* MediaPipe_new s" "OnPacketReceived st \<in> set (pb_calls s)"
  shows "\<exists>base. bf_base (ms_buffer st) = Some base \<and> bf_size (ms_buffer st) \<le> kMaxBufferLen \<and>
    regions_of (ms_packet st) \<noteq> [] \<and>
    (\<forall>r \<in> set (regions_of (ms_packet st)).
       unat (rgn_offset r) + unat (rgn_length r) \<le> unat (bf_size (ms_buffer st)))"
proof -
  have "pipe_inv s" using assms(1)
    by (induction rule: rtranclp_induct) (simp_all add: MediaPipe_new_inv pipe_step_inv)
  with assms(2) show ?thesis
    by (auto simp: pipe_inv_def buffer_ok_def packet_in_def region_in_def regions_of_def)
qed

definition full_packet :: MediaPacket where
  "full_packet = MediaPacket_New\<lparr>pkt_payload := Some \<lparr>rgn_offset = 4000, rgn_length = 96\<rparr>\<rparr>"

definition page_pipe :: "unit MediaPipe" where
  "page_pipe = \<lparr>pb_bound = False,
     pb_buffer = Some \<lparr>bf_handle = Some (), bf_size = 4096, bf_base = Some 65536\<rparr>,
     pb_calls = [SetBuffer_done 1]\<rparr>"

lemma page_pipe_set: "SetBuffer one_page (Some ()) 1 MediaPipe_new = Inr page_pipe"
  by (simp add: SetBuffer_def MediaPipe_new_def one_page_def kMaxBufferLen_def PipeBuffer_Create_def
      PipeBuffer_make_def page_pipe_def pb_call_def)

theorem pipe_delivers_only_valid_packets_witness:
  "\<exists>s st. SendPacket full_packet 2 page_pipe = Inr s \<and> OnPacketReceived st \<in> set (pb_calls s) \<and>
     (\<exists>base. bf_base (ms_buffer st) = Some base)"
proof -
  let ?st = "\<lparr>ms_packet = full_packet, ms_buffer = \<lparr>bf_handle = Some (), bf_size = 4096, bf_base = Some 65536\<rparr>,
     ms_cbk = 2, ms_result = SR_CONSUMED\<rparr>"
  have send: "SendPacket full_packet 2 page_pipe = Inr (pb_call (OnPacketReceived ?st) page_pipe)"
    by (simp add: SendPacket_def page_pipe_def full_packet_def MediaPacket_New_def MediaPacketState_make_def)
  have "pipe_step one_page MediaPipe_new page_pipe" by (rule pipe_set_buffer [OF page_pipe_set])
  moreover have "pipe_step one_page page_pipe (pb_call (OnPacketReceived ?st) page_pipe)"
    by (rule pipe_send [OF send])
  ultimately have run: "(pipe_step one_page)\<^sup>*\<^sup>* MediaPipe_new (pb_call (OnPacketReceived ?st) page_pipe)"
    by auto
  have mem: "OnPacketReceived ?st \<in> set (pb_calls (pb_call (OnPacketReceived ?st) page_pipe))"
    by (simp add: pb_call_def)
  from pipe_delivers_only_valid_packets [OF run mem] send mem show ?thesis by blast
qed

text \<open>
  \<^verbatim>\<open>SendPacket\<close> passes a packet on exactly when it has a payload region and all its
  regions lie in the buffer, and closes the pipe otherwise; the test does not overflow
  for any offset and length.
\<close>

lemma SendPacket_exact:
  assumes "pb_buffer s = Some b" "bf_size b \<noteq> 0"
  shows "SendPacket packet cbk s = Inr
    (if pkt_payload packet \<noteq> None \<and>
        (\<forall>r \<in> set (regions_of packet). unat (rgn_offset r) + unat (rgn_length r) \<le> unat (bf_size b))
     then s\<lparr>pb_calls := pb_calls s @ [OnPacketReceived
            \<lparr>ms_packet = packet, ms_buffer = b, ms_cbk = cbk, ms_result = SR_CONSUMED\<rparr>]\<rparr>
     else s\<lparr>pb_bound := False, pb_buffer := None\<rparr>)"
  using SendPacket_iff [OF assms]
  by (simp add: packet_in_def region_in_def pb_call_def MediaPipe_Reset_def)

end
