(* ===== verification/Std_Map.thy ===== *)
theory Std_Map
  imports Media_Prelude
begin

text \<open>
  \<^verbatim>\<open>std::map\<close> with keys of type \<^verbatim>\<open>size_t\<close>, as the sources use it: an association list in
  strictly increasing order of its keys. An iterator is the key it points to, and
  \<open>None\<close> is \<^verbatim>\<open>end()\<close>; an iterator stays valid until its element is erased.
\<close>

type_synonym 'v omap = "(nat \<times> 'v) list"

definition om_wf :: "'v omap \<Rightarrow> bool" where
  "om_wf m \<longleftrightarrow> sorted_wrt (<) (map fst m)"

definition om_begin :: "'v omap \<Rightarrow> nat option" where
  "om_begin m = (case m of [] \<Rightarrow> None | (a, _) # _ \<Rightarrow> Some a)"

fun om_lower_bound :: "nat \<Rightarrow> 'v omap \<Rightarrow> nat option" where
  "om_lower_bound k [] = None"
| "om_lower_bound k ((a, v) # m) = (if a < k then om_lower_bound k m else Some a)"

definition om_next :: "nat \<Rightarrow> 'v omap \<Rightarrow> nat option" where
  "om_next k m = om_lower_bound (Suc k) m"

text \<open>Decrementing an iterator: the last key before it, or the last key at all from the end.\<close>

fun om_prev :: "nat option \<Rightarrow> 'v omap \<Rightarrow> nat option" where
  "om_prev it [] = None"
| "om_prev it ((a, v) # m) =
     (if it = None \<or> a < the it then (case om_prev it m of None \<Rightarrow> Some a | Some b \<Rightarrow> Some b) else None)"

text \<open>Inserting does not replace the value of a key that is already there.\<close>

fun om_insert :: "nat \<Rightarrow> 'v \<Rightarrow> 'v omap \<Rightarrow> 'v omap" where
  "om_insert k v [] = [(k, v)]"
| "om_insert k v ((a, w) # m) =
     (if k < a then (k, v) # (a, w) # m else if k = a then (a, w) # m else (a, w) # om_insert k v m)"

definition om_erase :: "nat \<Rightarrow> 'v omap \<Rightarrow> 'v omap" where
  "om_erase k m = filter (\<lambda>(a, _). a \<noteq> k) m"

definition om_assign :: "nat \<Rightarrow> 'v \<Rightarrow> 'v omap \<Rightarrow> 'v omap" where
  "om_assign k v m = map (\<lambda>(a, w). if a = k then (a, v) else (a, w)) m"

definition om_deref :: "nat option \<Rightarrow> 'v omap \<Rightarrow> (nat \<times> 'v) res" where
  "om_deref it m = (case it of
     None \<Rightarrow> Inl Out_of_range
   | Some k \<Rightarrow> (case map_of m k of None \<Rightarrow> Inl Out_of_range | Some v \<Rightarrow> Inr (k, v)))"

section \<open>Facts\<close>

abbreviation om_keys :: "'v omap \<Rightarrow> nat set" where
  "om_keys m \<equiv> fst ` set m"

lemma om_wf_Nil [simp]: "om_wf []"
  by (simp add: om_wf_def)

lemma om_wf_Cons [simp]: "om_wf (x # m) \<longleftrightarrow> (\<forall>b \<in> om_keys m. fst x < b) \<and> om_wf m"
  by (auto simp: om_wf_def)

lemma om_wf_distinct: "om_wf m \<Longrightarrow> distinct (map fst m)"
  by (simp add: om_wf_def strict_sorted_iff)

lemma om_mem_iff: "om_wf m \<Longrightarrow> map_of m k = Some v \<longleftrightarrow> (k, v) \<in> set m"
  by (rule map_of_eq_Some_iff [OF om_wf_distinct])

lemma om_unique: "om_wf m \<Longrightarrow> (k, v) \<in> set m \<Longrightarrow> (k, w) \<in> set m \<Longrightarrow> v = w"
  using om_mem_iff [of m k v] om_mem_iff [of m k w] by simp

lemma om_others:
  assumes "om_wf m" "(k, v) \<in> set m"
  shows "{x \<in> set m. fst x \<noteq> k} = set m - {(k, v)}"
proof -
  have "fst x \<noteq> k \<longleftrightarrow> x \<noteq> (k, v)" if "x \<in> set m" for x
    using om_unique [OF assms, of "snd x"] that by (cases x) auto
  then show ?thesis by blast
qed

lemma om_deref_in: "om_wf m \<Longrightarrow> (k, v) \<in> set m \<Longrightarrow> om_deref (Some k) m = Inr (k, v)"
  using om_mem_iff [of m k v] by (simp add: om_deref_def)

lemma om_lower_bound_None: "om_lower_bound k m = None \<longleftrightarrow> (\<forall>b \<in> om_keys m. b < k)"
  by (induction k m rule: om_lower_bound.induct) auto

lemma om_lower_bound_SomeD:
  "om_wf m \<Longrightarrow> om_lower_bound k m = Some a \<Longrightarrow>
     a \<in> om_keys m \<and> k \<le> a \<and> (\<forall>b \<in> om_keys m. k \<le> b \<longrightarrow> a \<le> b)"
proof (induction k m rule: om_lower_bound.induct)
  case (2 k c v m)
  show ?case
  proof (cases "c < k")
    case True
    with 2 show ?thesis by auto
  next
    case False
    with 2(2,3) show ?thesis by (auto intro: less_imp_le)
  qed
qed simp

lemma om_next_None: "om_next k m = None \<longleftrightarrow> (\<forall>b \<in> om_keys m. b \<le> k)"
  by (simp add: om_next_def om_lower_bound_None less_Suc_eq_le)

lemma om_next_SomeD:
  "om_wf m \<Longrightarrow> om_next k m = Some a \<Longrightarrow>
     a \<in> om_keys m \<and> k < a \<and> (\<forall>b \<in> om_keys m. k < b \<longrightarrow> a \<le> b)"
  using om_lower_bound_SomeD [of m "Suc k" a] by (auto simp: om_next_def Suc_le_eq)

lemma om_begin_None [simp]: "om_begin m = None \<longleftrightarrow> m = []"
  by (cases m) (auto simp: om_begin_def)

lemma om_begin_SomeD:
  "om_wf m \<Longrightarrow> om_begin m = Some a \<Longrightarrow> a \<in> om_keys m \<and> (\<forall>b \<in> om_keys m. a \<le> b)"
  by (cases m) (auto simp: om_begin_def intro: less_imp_le)

lemma om_lower_bound_begin:
  assumes "om_wf m" "om_lower_bound k m = om_begin m" "b \<in> om_keys m"
  shows "k \<le> b"
proof (cases "om_begin m")
  case (Some a)
  with assms om_begin_SomeD [OF assms(1) Some] om_lower_bound_SomeD [OF assms(1), of k a] show ?thesis
    by (auto dest: order_trans)
next
  case None
  with assms(3) show ?thesis by simp
qed

lemma om_prev_None: "om_wf m \<Longrightarrow> om_prev it m = None \<longleftrightarrow> (\<forall>b \<in> om_keys m. it \<noteq> None \<and> the it \<le> b)"
  by (induction it m rule: om_prev.induct) (auto split: option.splits dest: less_le_trans)

lemma om_prev_SomeD:
  "om_wf m \<Longrightarrow> om_prev it m = Some a \<Longrightarrow>
     a \<in> om_keys m \<and> (it = None \<or> a < the it) \<and>
     (\<forall>b \<in> om_keys m. (it = None \<or> b < the it) \<longrightarrow> b \<le> a)"
proof (induction it m rule: om_prev.induct)
  case (2 it c v m)
  show ?case
  proof (cases "om_prev it m")
    case None
    with om_prev_None [of m it] 2(2,3) show ?thesis by (auto split: if_splits)
  next
    case (Some b)
    with 2 have c: "it = None \<or> c < the it" "b = a" by (auto split: if_splits)
    with 2 Some have "a \<in> om_keys m \<and> (it = None \<or> a < the it) \<and>
        (\<forall>b \<in> om_keys m. (it = None \<or> b < the it) \<longrightarrow> b \<le> a)" by auto
    with 2(2) show ?thesis by (auto intro: less_imp_le)
  qed
qed simp

lemma om_insert_set:
  "om_wf m \<Longrightarrow> k \<notin> om_keys m \<Longrightarrow> set (om_insert k v m) = insert (k, v) (set m)"
  by (induction k v m rule: om_insert.induct) auto

lemma om_insert_wf: "om_wf m \<Longrightarrow> k \<notin> om_keys m \<Longrightarrow> om_wf (om_insert k v m)"
  by (induction k v m rule: om_insert.induct) (auto simp: om_insert_set dest: less_trans)

lemma om_erase_set: "set (om_erase k m) = {x \<in> set m. fst x \<noteq> k}"
  by (auto simp: om_erase_def)

lemma om_erase_wf: "om_wf m \<Longrightarrow> om_wf (om_erase k m)"
  by (induction m) (auto simp: om_erase_def)

lemma om_assign_set:
  "(k, w) \<in> set m \<Longrightarrow> set (om_assign k v m) = insert (k, v) {x \<in> set m. fst x \<noteq> k}"
  unfolding om_assign_def set_map by (auto simp: rev_image_eqI split: if_splits)

lemma om_assign_wf: "om_wf m \<Longrightarrow> om_wf (om_assign k v m)"
proof -
  assume "om_wf m"
  moreover have "map fst (om_assign k v m) = map fst m" by (auto simp: om_assign_def)
  ultimately show ?thesis by (simp add: om_wf_def)
qed

section \<open>As a function\<close>

lemma map_of_om_assign: "map_of (om_assign k v m) = (if k \<in> om_keys m then (map_of m)(k \<mapsto> v) else map_of m)"
  by (induction m) (auto simp: om_assign_def)

lemma map_of_om_erase: "map_of (om_erase k m) = (map_of m)(k := None)"
  by (induction m) (auto simp: om_erase_def)

lemma map_of_om_insert: "map_of (om_insert k v m) = (if k \<in> om_keys m then map_of m else (map_of m)(k \<mapsto> v))" if "om_wf m"
  using that by (induction k v m rule: om_insert.induct) (auto simp: fun_eq_iff)

lemma map_fst_om_assign [simp]: "map fst (om_assign k v m) = map fst m"
  by (auto simp: om_assign_def)

lemma om_keys_assign [simp]: "om_keys (om_assign k v m) = om_keys m"
  by (metis list.set_map map_fst_om_assign)

lemma om_keys_erase [simp]: "om_keys (om_erase k m) = om_keys m - {k}"
  by (auto simp: om_erase_def)

lemma om_keys_dom: "k \<in> om_keys m \<longleftrightarrow> map_of m k \<noteq> None"
  by (simp add: map_of_eq_None_iff)

lemma om_erase_insert: "om_wf m \<Longrightarrow> k \<notin> om_keys m \<Longrightarrow> om_erase k (om_insert k v m) = m"
proof (induction k v m rule: om_insert.induct)
  case (2 k v a w m)
  have "filter (\<lambda>(b, _). b \<noteq> k) m = m" using 2(3) by (auto simp: filter_id_conv image_iff)
  with 2 show ?case by (auto simp: om_erase_def)
qed (simp add: om_erase_def)

lemma list_ex_om: "om_wf m \<Longrightarrow> list_ex (\<lambda>(_, n). P n) m \<longleftrightarrow> (\<exists>k n. map_of m k = Some n \<and> P n)"
  by (auto simp: list_ex_iff om_mem_iff)

lemma om_keysI: "map_of m k = Some v \<Longrightarrow> k \<in> om_keys m"
  by (simp add: om_keys_dom)

lemma om_erase_assign: "om_erase k (om_assign k v m) = om_erase k m"
  by (induction m) (auto simp: om_erase_def om_assign_def)

lemma om_assign_same: "om_wf m \<Longrightarrow> map_of m k = Some v \<Longrightarrow> om_assign k v m = m"
  unfolding om_assign_def by (rule map_idI) (auto simp: om_mem_iff dest: om_unique)

lemma om_emptyI: "(\<And>k. map_of m k = None) \<Longrightarrow> m = []"
  by (metis map_of_eq_empty_iff ext)

lemma om_erase_absent: "map_of m k = None \<Longrightarrow> om_erase k m = m"
  by (auto simp: om_erase_def map_of_eq_None_iff filter_id_conv image_iff)

end
