(* ===== verification/Sparse_Buffer.thy ===== *)
theory Sparse_Buffer
  imports Std_Map
begin

text \<open>
  The class \<^verbatim>\<open>SparseByteBuffer\<close> (services/media/framework/parts/sparse_byte_buffer.h,
  sparse_byte_buffer.cc): a byte array of which some regions are filled and the rest
  are holes. A \<^verbatim>\<open>Hole\<close> or \<^verbatim>\<open>Region\<close> object wraps an iterator; the null hole and the null
  region are \<open>None\<close>. Positions and sizes are natural numbers: every sum the code
  forms is bounded by the size of the buffer, which is a \<^verbatim>\<open>size_t\<close>.
\<close>

section \<open>State and operations\<close>

record SparseByteBuffer =
  sb_size :: nat
  sb_holes :: "nat omap"
  sb_regions :: "u8 list omap"

definition SparseByteBuffer_new :: SparseByteBuffer where
  "SparseByteBuffer_new = \<lparr>sb_size = 0, sb_holes = [], sb_regions = []\<rparr>"

definition Initialize :: "nat \<Rightarrow> SparseByteBuffer \<Rightarrow> SparseByteBuffer" where
  "Initialize sz s = s\<lparr>sb_holes := [(0, sz)], sb_regions := [], sb_size := sz\<rparr>"

text \<open>The two positions where the hint is tried before a search.\<close>

definition try_hint :: "nat \<Rightarrow> nat option \<Rightarrow> SparseByteBuffer \<Rightarrow> nat option res" where
  "try_hint position hint s =
     (if hint = None then Inr None
      else rbind (om_deref hint (sb_regions s)) (\<lambda>(first, second).
        if first \<le> position
        then if first + length second \<le> position
             then (case om_next first (sb_regions s) of
                     None \<Rightarrow> Inr None
                   | Some k \<Rightarrow> rbind (om_deref (Some k) (sb_regions s)) (\<lambda>(first, second).
                       Inr (if first \<le> position \<and> position < first + length second
                            then Some first else None)))
             else if position < first + length second then Inr (Some first) else Inr None
        else Inr None))"

definition FindRegionContaining :: "nat \<Rightarrow> nat option \<Rightarrow> SparseByteBuffer \<Rightarrow> nat option res" where
  "FindRegionContaining position hint s =
     dcheck (sb_size s > 0) (dcheck (position < sb_size s)
      (rbind (try_hint position hint s) (\<lambda>found.
         if found \<noteq> None then Inr found
         else let iter = om_lower_bound position (sb_regions s)
              in if iter \<noteq> om_begin (sb_regions s) \<and> (iter = None \<or> the iter > position)
                 then rbind (om_deref (om_prev iter (sb_regions s)) (sb_regions s)) (\<lambda>(first, second).
                   dcheck (first \<le> position)
                     (Inr (if first + length second \<le> position then None else Some first)))
                 else Inr iter)))"

definition FindHoleContaining :: "nat \<Rightarrow> SparseByteBuffer \<Rightarrow> nat option res" where
  "FindHoleContaining position s =
     dcheck (sb_size s > 0)
      (let iter = om_lower_bound position (sb_holes s)
       in if iter \<noteq> om_begin (sb_holes s) \<and> (iter = None \<or> the iter > position)
          then rbind (om_deref (om_prev iter (sb_holes s)) (sb_holes s)) (\<lambda>(first, second).
            dcheck (first \<le> position)
              (Inr (if first + second < position then None else Some first)))
          else Inr iter)"

definition split_hole :: "nat \<Rightarrow> nat option \<Rightarrow> SparseByteBuffer \<Rightarrow> (nat option \<times> SparseByteBuffer) res" where
  "split_hole position result s =
     rbind (om_deref result (sb_holes s)) (\<lambda>(first, second).
       if first \<noteq> position
       then dcheck (position > first)
         (let front_size = position - first
          in dcheck (second > front_size)
            (let back_size = second - front_size;
                 holes = om_assign first front_size (sb_holes s)
             in Inr (Some position, s\<lparr>sb_holes := om_insert position back_size holes\<rparr>)))
       else Inr (result, s))"

definition FindOrCreateHole :: "nat \<Rightarrow> nat option \<Rightarrow> SparseByteBuffer \<Rightarrow> (nat option \<times> SparseByteBuffer) res" where
  "FindOrCreateHole position hint s =
     dcheck (sb_size s > 0) (dcheck (sb_holes s \<noteq> [])
      (let result = (if hint = None then om_begin (sb_holes s) else hint)
       in rbind (om_deref result (sb_holes s)) (\<lambda>(first, second).
         rbind (if first \<noteq> position
                then rbind (if first > position \<or> first + second \<le> position
                            then rbind (FindHoleContaining position s) (\<lambda>r. dcheck (r \<noteq> None) (Inr r))
                            else Inr result)
                       (\<lambda>result. split_hole position result s)
                else Inr (result, s))
           (\<lambda>(result, s). dcheck (result = Some position) (Inr (result, s))))))"

text \<open>The loop of \<^verbatim>\<open>Fill\<close>, which removes the filled bytes from the holes.\<close>

function fill_loop :: "nat \<Rightarrow> nat \<Rightarrow> nat option \<Rightarrow> nat omap \<Rightarrow> (nat option \<times> nat omap) res" where
  "fill_loop buffer_size position holes_iter holes =
     (if buffer_size = 0 then Inr (holes_iter, holes)
      else case om_deref holes_iter holes of
        Inl e \<Rightarrow> Inl Dcheck_failed
      | Inr (first, second) \<Rightarrow>
          dcheck (first = position)
           (if buffer_size < second
            then let holes = om_erase first (om_insert (first + buffer_size) (second - buffer_size) holes);
                     nxt = om_next first holes
                 in Inr (if nxt = None then om_begin holes else nxt, holes)
            else let holes' = om_erase first holes; nxt = om_next first holes'
                 in dcheck (nxt = None \<longrightarrow> buffer_size = second)
                     (fill_loop (buffer_size - second) (position + second)
                        (if nxt = None then om_begin holes' else nxt) holes')))"
  by pat_completeness auto

lemma om_erase_shorter: "om_deref it m = Inr (k, v) \<Longrightarrow> length (om_erase k m) < length m"
  by (auto simp: om_deref_def om_erase_def split: option.splits dest!: map_of_SomeD intro!: length_filter_less)

termination fill_loop
  by (relation "measure (\<lambda>(_, _, _, holes). length holes)") (auto intro: om_erase_shorter)

declare fill_loop.simps [simp del]

definition Fill :: "nat option \<Rightarrow> u8 list \<Rightarrow> SparseByteBuffer \<Rightarrow> (nat option \<times> SparseByteBuffer) res" where
  "Fill hole buffer s =
     dcheck (sb_size s > 0) (dcheck (hole \<noteq> None) (dcheck (length buffer \<noteq> 0)
      (rbind (om_deref hole (sb_holes s)) (\<lambda>(position, hole_size).
        dcheck (length buffer \<le> hole_size)
         (let s = s\<lparr>sb_regions := om_insert position buffer (sb_regions s)\<rparr>
          in rbind (fill_loop (length buffer) position hole (sb_holes s)) (\<lambda>(iter, holes).
               Inr (iter, s\<lparr>sb_holes := holes\<rparr>)))))))"

section \<open>Tilings\<close>

text \<open>A set of spans (start, length) that cuts the positions below \<open>sz\<close> into disjoint pieces.\<close>

definition covers :: "nat \<times> nat \<Rightarrow> nat \<Rightarrow> bool" where
  "covers x p \<longleftrightarrow> fst x \<le> p \<and> p < fst x + snd x"

definition tiling :: "(nat \<times> nat) set \<Rightarrow> nat \<Rightarrow> bool" where
  "tiling T sz \<longleftrightarrow>
     (\<forall>x \<in> T. 0 < snd x \<and> fst x + snd x \<le> sz) \<and>
     (\<forall>x \<in> T. \<forall>y \<in> T. \<forall>p. covers x p \<longrightarrow> covers y p \<longrightarrow> x = y) \<and>
     (\<forall>p < sz. \<exists>x \<in> T. covers x p)"

lemma tilingD:
  assumes "tiling T sz" "x \<in> T"
  shows "0 < snd x" "fst x + snd x \<le> sz"
    "y \<in> T \<Longrightarrow> covers x p \<Longrightarrow> covers y p \<Longrightarrow> x = y"
  using assms by (auto simp: tiling_def)

lemma tiling_key: "tiling T sz \<Longrightarrow> x \<in> T \<Longrightarrow> y \<in> T \<Longrightarrow> fst x = fst y \<Longrightarrow> x = y"
  using tilingD(1) [of T sz x] tilingD(1) [of T sz y] tilingD(3) [of T sz x y "fst x"]
  by (auto simp: covers_def)

lemma covers_split:
  "n \<le> z \<Longrightarrow> covers (k, z) p \<longleftrightarrow> covers (k, n) p \<or> covers (k + n, z - n) p"
  by (auto simp: covers_def)

lemma tiling_split:
  assumes t: "tiling T sz" and mem: "(k, z) \<in> T" and n: "0 < n" "n < z"
  shows "tiling (insert (k, n) (insert (k + n, z - n) (T - {(k, z)}))) sz" (is "tiling ?T sz")
proof -
  let ?a = "(k, n)" and ?b = "(k + n, z - n)" and ?o = "(k, z)"
  note d = tilingD [OF t mem]
  have part: "covers ?a p \<Longrightarrow> covers ?o p" "covers ?b p \<Longrightarrow> covers ?o p" "\<not> (covers ?a p \<and> covers ?b p)" for p
    using n by (auto simp: covers_def)
  have old: "x = ?o" if "x \<in> T" "covers x p" "covers ?o p" for x p
    using tilingD(3) [OF t that(1) mem that(2,3)] .
  have uniq: "x = y" if "x \<in> ?T" "y \<in> ?T" "covers x p" "covers y p" for x y p
  proof -
    from that(1) consider "x = ?a" | "x = ?b" | "x \<in> T" "x \<noteq> ?o" by auto
    then show ?thesis
    proof cases
      case 1
      with that part [of p] old [of y p] show ?thesis by auto
    next
      case 2
      with that part [of p] old [of y p] show ?thesis by auto
    next
      case 3
      with that(2,3,4) part [of p] old [of x p] tilingD(3) [OF t 3(1), of y p] show ?thesis by auto
    qed
  qed
  have cov: "\<exists>x \<in> ?T. covers x p" if "p < sz" for p
  proof -
    from t that obtain x where x: "x \<in> T" "covers x p" by (auto simp: tiling_def)
    show ?thesis
    proof (cases "x = ?o")
      case True
      with x(2) covers_split [of n z k p] n show ?thesis by auto
    next
      case False
      with x show ?thesis by auto
    qed
  qed
  have "\<forall>x \<in> ?T. 0 < snd x \<and> fst x + snd x \<le> sz"
    using t n d(1,2) by (auto simp: tiling_def)
  with uniq cov show ?thesis unfolding tiling_def by blast
qed

section \<open>The invariant\<close>

definition region_span :: "nat \<times> u8 list \<Rightarrow> nat \<times> nat" where
  "region_span x = (fst x, length (snd x))"

definition sb_regs :: "SparseByteBuffer \<Rightarrow> (nat \<times> nat) set" where
  "sb_regs s = region_span ` set (sb_regions s)"

definition sb_inv :: "SparseByteBuffer \<Rightarrow> bool" where
  "sb_inv s \<longleftrightarrow> om_wf (sb_holes s) \<and> om_wf (sb_regions s) \<and>
     set (sb_holes s) \<inter> sb_regs s = {} \<and> tiling (set (sb_holes s) \<union> sb_regs s) (sb_size s)"

lemma Initialize_inv: "0 < sz \<Longrightarrow> sb_inv (Initialize sz s)"
  by (simp add: sb_inv_def Initialize_def sb_regs_def tiling_def covers_def)

lemma sb_invD:
  assumes "sb_inv s"
  shows "om_wf (sb_holes s)" "om_wf (sb_regions s)" "tiling (set (sb_holes s) \<union> sb_regs s) (sb_size s)"
    "set (sb_holes s) \<inter> sb_regs s = {}"
  using assms by (auto simp: sb_inv_def)

lemma sb_regs_in: "(k, b) \<in> set (sb_regions s) \<Longrightarrow> (k, length b) \<in> sb_regs s"
  by (force simp: sb_regs_def region_span_def)

lemma sb_regs_cases: "x \<in> sb_regs s \<Longrightarrow> (\<And>k b. x = (k, length b) \<Longrightarrow> (k, b) \<in> set (sb_regions s) \<Longrightarrow> P) \<Longrightarrow> P"
  by (auto simp: sb_regs_def region_span_def)

lemma hole_key_not_region:
  assumes "sb_inv s" "(k, z) \<in> set (sb_holes s)"
  shows "k \<notin> om_keys (sb_regions s)"
proof
  assume "k \<in> om_keys (sb_regions s)"
  then obtain b where "(k, b) \<in> set (sb_regions s)" by auto
  then have r: "(k, length b) \<in> sb_regs s" by (force simp: sb_regs_def region_span_def)
  with tiling_key [OF sb_invD(3) [OF assms(1)], of "(k, z)" "(k, length b)"] assms(2) sb_invD(4) [OF assms(1)]
  show False by auto
qed

lemma hole_gap:
  assumes "sb_inv s" "(k, z) \<in> set (sb_holes s)" "0 < n" "n < z"
  shows "k + n \<notin> om_keys (sb_holes s)"
proof
  assume "k + n \<in> om_keys (sb_holes s)"
  then obtain w where w: "(k + n, w) \<in> set (sb_holes s)" by auto
  note t = sb_invD(3) [OF assms(1)]
  have "0 < w" using tilingD(1) [OF t, of "(k + n, w)"] w by simp
  then have "covers (k + n, w) (k + n)" "covers (k, z) (k + n)" using assms by (auto simp: covers_def)
  with tilingD(3) [OF t, of "(k, z)" "(k + n, w)" "k + n"] w assms show False by auto
qed

section \<open>Contents\<close>

text \<open>The byte at a position, if it has been filled.\<close>

definition sb_content :: "SparseByteBuffer \<Rightarrow> nat \<Rightarrow> u8 option" where
  "sb_content s p = (case find (\<lambda>x. covers (region_span x) p) (sb_regions s) of
     None \<Rightarrow> None | Some (k, b) \<Rightarrow> Some (b ! (p - k)))"

lemma find_region:
  assumes "sb_inv s" "(k, b) \<in> set (sb_regions s)" "covers (k, length b) p"
  shows "find (\<lambda>x. covers (region_span x) p) (sb_regions s) = Some (k, b)"
proof -
  let ?P = "\<lambda>x. covers (region_span x) p"
  have "find ?P (sb_regions s) \<noteq> None"
    using assms(2,3) by (auto simp: find_None_iff region_span_def intro!: exI [of _ k] exI [of _ b])
  then obtain k' b' where f: "find ?P (sb_regions s) = Some (k', b')" by auto
  then obtain i where i: "i < length (sb_regions s)" "?P (sb_regions s ! i)" "sb_regions s ! i = (k', b')"
    unfolding find_Some_iff by metis
  then have mem: "(k', b') \<in> set (sb_regions s)" and c: "covers (k', length b') p"
    using nth_mem [OF i(1)] by (simp_all add: region_span_def)
  have "(k', length b') = (k, length b)"
    using tilingD(3) [OF sb_invD(3) [OF assms(1)], of "(k', length b')" "(k, length b)" p]
      sb_regs_in [OF mem] sb_regs_in [OF assms(2)] c assms(3) by simp
  then have "k' = k" by simp
  with mem assms(2) om_unique [OF sb_invD(2) [OF assms(1)]] have "b' = b" by blast
  with f \<open>k' = k\<close> show ?thesis by simp
qed

lemma sb_content_in:
  "sb_inv s \<Longrightarrow> (k, b) \<in> set (sb_regions s) \<Longrightarrow> covers (k, length b) p \<Longrightarrow>
     sb_content s p = Some (b ! (p - k))"
  by (simp add: sb_content_def find_region)

lemma sb_content_none:
  assumes "\<And>k b. (k, b) \<in> set (sb_regions s) \<Longrightarrow> \<not> covers (k, length b) p"
  shows "sb_content s p = None"
proof -
  have "find (\<lambda>x. covers (region_span x) p) (sb_regions s) = None"
    using assms by (auto simp: find_None_iff region_span_def)
  then show ?thesis by (simp add: sb_content_def)
qed

lemma sb_content_Some_iff:
  assumes "sb_inv s"
  shows "sb_content s p = Some x \<longleftrightarrow>
    (\<exists>k b. (k, b) \<in> set (sb_regions s) \<and> covers (k, length b) p \<and> x = b ! (p - k))"
  using sb_content_in [OF assms] sb_content_none [of s p] by (cases "sb_content s p") fastforce+

section \<open>Filling a hole\<close>

lemma fill_loop_once:
  assumes "om_wf holes" "(k, z) \<in> set holes" "0 < n" "n \<le> z" "n < z \<Longrightarrow> k + n \<notin> om_keys holes"
  defines "rest \<equiv> (if n < z then om_erase k (om_insert (k + n) (z - n) holes) else om_erase k holes)"
  shows "fill_loop n k (Some k) holes =
    Inr (if om_next k rest = None then om_begin rest else om_next k rest, rest)"
proof (cases "n < z")
  case True
  then show ?thesis using assms(3) unfolding rest_def
    by (subst fill_loop.simps) (simp add: om_deref_in [OF assms(1,2)] Let_def)
next
  case False
  with assms(4) have z: "z = n" by simp
  have stop: "fill_loop 0 p it h = Inr (it, h)" for p it h by (subst fill_loop.simps) simp
  show ?thesis using assms(3) False unfolding rest_def
    by (subst fill_loop.simps) (simp add: om_deref_in [OF assms(1,2)] Let_def z stop)
qed

definition fill_holes :: "nat \<Rightarrow> nat \<Rightarrow> nat \<Rightarrow> nat omap \<Rightarrow> nat omap" where
  "fill_holes k z n holes =
     (if n < z then om_erase k (om_insert (k + n) (z - n) holes) else om_erase k holes)"

lemma fill_holes_set:
  assumes "om_wf holes" "(k, z) \<in> set holes" "0 < n" "n < z \<Longrightarrow> k + n \<notin> om_keys holes"
  shows "om_wf (fill_holes k z n holes)"
    "set (fill_holes k z n holes) = (set holes - {(k, z)}) \<union> (if n < z then {(k + n, z - n)} else {})"
proof -
  note only = om_others [OF assms(1,2)]
  show "om_wf (fill_holes k z n holes)"
  proof (cases "n < z")
    case True
    then show ?thesis using om_erase_wf [OF om_insert_wf [OF assms(1) assms(4) [OF True], of "z - n"], of k]
      by (simp add: fill_holes_def)
  next
    case False
    then show ?thesis using om_erase_wf [OF assms(1), of k] by (simp add: fill_holes_def)
  qed
  show "set (fill_holes k z n holes) = (set holes - {(k, z)}) \<union> (if n < z then {(k + n, z - n)} else {})"
  proof (cases "n < z")
    case True
    have "set (fill_holes k z n holes) = {x \<in> insert (k + n, z - n) (set holes). fst x \<noteq> k}"
      unfolding fill_holes_def if_P [OF True] om_erase_set om_insert_set [OF assms(1) assms(4) [OF True]] ..
    also have "\<dots> = insert (k + n, z - n) {x \<in> set holes. fst x \<noteq> k}" using assms(3) by auto
    finally show ?thesis unfolding only using True by simp
  next
    case False
    then show ?thesis unfolding fill_holes_def by (simp add: om_erase_set only)
  qed
qed

lemma Fill_eq:
  assumes "sb_inv s" "(k, z) \<in> set (sb_holes s)" "buffer \<noteq> []" "length buffer \<le> z"
  defines "holes \<equiv> fill_holes k z (length buffer) (sb_holes s)"
  shows "Fill (Some k) buffer s = Inr (if om_next k holes = None then om_begin holes else om_next k holes,
    s\<lparr>sb_holes := holes, sb_regions := om_insert k buffer (sb_regions s)\<rparr>)"
proof -
  have "tiling (set (sb_holes s) \<union> sb_regs s) (sb_size s)" using sb_invD(3) [OF assms(1)] .
  from tilingD(1,2) [OF this, of "(k, z)"] assms(2) have sz: "0 < sb_size s" by auto
  have n: "0 < length buffer" using assms(3) by simp
  from fill_loop_once [OF sb_invD(1) [OF assms(1)] assms(2) n assms(4)] hole_gap [OF assms(1,2) n]
  have "fill_loop (length buffer) k (Some k) (sb_holes s) =
      Inr (if om_next k holes = None then om_begin holes else om_next k holes, holes)"
    by (simp add: holes_def fill_holes_def)
  then show ?thesis using sz assms(3,4) om_deref_in [OF sb_invD(1) [OF assms(1)] assms(2)]
    by (simp add: Fill_def Let_def)
qed

lemma Fill_inv:
  assumes "sb_inv s" "(k, z) \<in> set (sb_holes s)" "buffer \<noteq> []" "length buffer \<le> z"
  shows "sb_inv (s\<lparr>sb_holes := fill_holes k z (length buffer) (sb_holes s),
    sb_regions := om_insert k buffer (sb_regions s)\<rparr>)" (is "sb_inv ?s")
proof -
  let ?n = "length buffer" and ?H = "set (sb_holes s)" and ?R = "sb_regs s"
  note t = sb_invD(3) [OF assms(1)]
  have n: "0 < ?n" using assms(3) by simp
  note fh = fill_holes_set [OF sb_invD(1) [OF assms(1)] assms(2) n hole_gap [OF assms(1,2) n]]
  note key = hole_key_not_region [OF assms(1,2)]
  note ri = om_insert_set [OF sb_invD(2) [OF assms(1)] key, of buffer]
  have R: "sb_regs ?s = insert (k, ?n) ?R" by (simp add: sb_regs_def ri region_span_def)
  have notR: "(k, z) \<notin> ?R" using sb_invD(4) [OF assms(1)] assms(2) by auto
  have T: "set (sb_holes ?s) \<union> sb_regs ?s =
      (if ?n < z then insert (k, ?n) (insert (k + ?n, z - ?n) (?H \<union> ?R - {(k, z)})) else ?H \<union> ?R)"
    using assms(2,4) notR by (auto simp: R fh)
  have "tiling (set (sb_holes ?s) \<union> sb_regs ?s) (sb_size ?s)"
    unfolding T using t tiling_split [OF t, of k z ?n] assms(2) n by simp
  moreover have "set (sb_holes ?s) \<inter> sb_regs ?s = {}"
  proof -
    have "(k + ?n, z - ?n) \<notin> ?R" if "?n < z"
    proof
      assume "(k + ?n, z - ?n) \<in> ?R"
      with tilingD(3) [OF t, of "(k, z)" "(k + ?n, z - ?n)" "k + ?n"] assms(2) that n show False
        by (auto simp: covers_def)
    qed
    moreover have "(k, ?n) \<notin> ?H - {(k, z)}"
      using om_unique [OF sb_invD(1) [OF assms(1)] assms(2)] by auto
    ultimately show ?thesis using sb_invD(4) [OF assms(1)] n by (auto simp: R fh split: if_splits)
  qed
  ultimately show ?thesis using fh(1) om_insert_wf [OF sb_invD(2) [OF assms(1)] key]
    by (simp add: sb_inv_def)
qed

lemma Fill_content:
  assumes "sb_inv s" "(k, z) \<in> set (sb_holes s)" "buffer \<noteq> []" "length buffer \<le> z"
  defines "s' \<equiv> s\<lparr>sb_holes := fill_holes k z (length buffer) (sb_holes s),
    sb_regions := om_insert k buffer (sb_regions s)\<rparr>"
  shows "sb_content s' p = (if k \<le> p \<and> p < k + length buffer then Some (buffer ! (p - k)) else sb_content s p)"
proof -
  note inv = Fill_inv [OF assms(1-4), folded s'_def]
  have regs: "set (sb_regions s') = insert (k, buffer) (set (sb_regions s))"
    using om_insert_set [OF sb_invD(2) [OF assms(1)] hole_key_not_region [OF assms(1,2)]] by (simp add: s'_def)
  show ?thesis
  proof (cases "k \<le> p \<and> p < k + length buffer")
    case True
    then show ?thesis using sb_content_in [OF inv, of k buffer p] regs by (simp add: covers_def)
  next
    case False
    have "sb_content s' p = Some x \<longleftrightarrow> sb_content s p = Some x" for x
      unfolding sb_content_Some_iff [OF inv] sb_content_Some_iff [OF assms(1)] regs
      using False by (auto simp: covers_def)
    then have "sb_content s' p = sb_content s p" by (cases "sb_content s p") (auto intro: option.expand)
    then show ?thesis unfolding if_not_P [OF False] .
  qed
qed

section \<open>Searching\<close>

text \<open>The region that holds a position.\<close>

definition region_at :: "nat \<Rightarrow> SparseByteBuffer \<Rightarrow> nat option" where
  "region_at p s = map_option fst (find (\<lambda>x. covers (region_span x) p) (sb_regions s))"

lemma region_at_in:
  "sb_inv s \<Longrightarrow> (k, b) \<in> set (sb_regions s) \<Longrightarrow> covers (k, length b) p \<Longrightarrow> region_at p s = Some k"
  by (simp add: region_at_def find_region)

lemma region_at_none:
  assumes "\<And>k b. (k, b) \<in> set (sb_regions s) \<Longrightarrow> \<not> covers (k, length b) p"
  shows "region_at p s = None"
proof -
  have "find (\<lambda>x. covers (region_span x) p) (sb_regions s) = None"
    using assms by (auto simp: find_None_iff region_span_def)
  then show ?thesis by (simp add: region_at_def)
qed

lemma region_at_SomeD:
  assumes "region_at p s = Some k"
  obtains b where "(k, b) \<in> set (sb_regions s)" "covers (k, length b) p"
proof -
  from assms obtain x where f: "find (\<lambda>x. covers (region_span x) p) (sb_regions s) = Some x" "k = fst x"
    by (auto simp: region_at_def)
  then have "x \<in> set (sb_regions s)" "covers (region_span x) p" by (auto simp: find_Some_iff)
  then show ?thesis using that [of "snd x"] f(2) by (simp add: region_span_def)
qed

lemma try_hint_sound:
  assumes "sb_inv s" "hint = None \<or> the hint \<in> om_keys (sb_regions s)"
  shows "try_hint p hint s = Inr None \<or> (try_hint p hint s = Inr (region_at p s))"
proof (cases hint)
  case None
  then show ?thesis by (simp add: try_hint_def)
next
  case (Some k)
  with assms(2) obtain b where b: "(k, b) \<in> set (sb_regions s)" by auto
  note wf = sb_invD(2) [OF assms(1)]
  note dr = om_deref_in [OF wf b]
  consider "k > p" | "covers (k, length b) p" | "k \<le> p" "k + length b \<le> p"
    unfolding covers_def by fastforce
  then show ?thesis
  proof cases
    case 1
    then show ?thesis by (simp add: try_hint_def Some dr)
  next
    case 2
    with region_at_in [OF assms(1) b 2] show ?thesis by (simp add: try_hint_def Some dr covers_def)
  next
    case 3
    show ?thesis
    proof (cases "om_next k (sb_regions s)")
      case None
      with 3 show ?thesis by (simp add: try_hint_def Some dr)
    next
      case (Some n)
      from om_next_SomeD [OF wf Some] obtain c where c: "(n, c) \<in> set (sb_regions s)" by auto
      note dn = om_deref_in [OF wf c]
      have e: "try_hint p hint s = Inr (if n \<le> p \<and> p < n + length c then Some n else None)"
        using 3 \<open>hint = Some k\<close> by (simp add: try_hint_def Some dr dn)
      show ?thesis
      proof (cases "n \<le> p \<and> p < n + length c")
        case True
        with region_at_in [OF assms(1) c, of p] e show ?thesis by (simp add: covers_def)
      next
        case False
        then show ?thesis unfolding e if_not_P [OF False] by simp
      qed
    qed
  qed
qed

lemma om_search_back:
  assumes "om_wf m" "om_lower_bound p m \<noteq> om_begin m" "om_lower_bound p m = None \<or> the (om_lower_bound p m) > p"
  obtains k v where "om_deref (om_prev (om_lower_bound p m) m) m = Inr (k, v)" "(k, v) \<in> set m" "k < p"
    "\<And>b. b \<in> om_keys m \<Longrightarrow> b \<le> p \<Longrightarrow> b \<le> k"
proof -
  let ?it = "om_lower_bound p m"
  have "om_prev ?it m \<noteq> None"
  proof
    assume none: "om_prev ?it m = None"
    show False
    proof (cases "om_begin m")
      case None
      then have "m = []" by simp
      then show False using assms(2) by (simp add: om_begin_def)
    next
      case (Some a)
      note a = om_begin_SomeD [OF assms(1) Some]
      with none om_prev_None [OF assms(1), of ?it] obtain l where l: "?it = Some l" "l \<le> a" by auto
      with om_lower_bound_SomeD [OF assms(1) l(1)] a have "l = a" by auto
      with l Some assms(2) show False by simp
    qed
  qed
  then obtain k where k: "om_prev ?it m = Some k" by auto
  note d = om_prev_SomeD [OF assms(1) k]
  then obtain v where v: "(k, v) \<in> set m" by auto
  have lt: "b \<le> k" if "b \<in> om_keys m" "b \<le> p" for b
    using that d assms(3) by (cases "om_lower_bound p m") auto
  have "k < p"
  proof (cases ?it)
    case None
    with d show ?thesis using om_lower_bound_None [of p m] by auto
  next
    case (Some l)
    with d om_lower_bound_SomeD [OF assms(1) Some] show ?thesis by (auto simp: not_le [symmetric])
  qed
  with that [of k v] k v om_deref_in [OF assms(1) v] lt show ?thesis by simp
qed


lemma FindRegionContaining_eq:
  assumes "sb_inv s" "position < sb_size s" "hint = None \<or> the hint \<in> om_keys (sb_regions s)"
  shows "FindRegionContaining position hint s =
    Inr (if region_at position s \<noteq> None then region_at position s
         else if \<forall>k \<in> om_keys (sb_regions s). position < k then om_begin (sb_regions s) else None)"
    (is "_ = Inr ?r")
proof -
  let ?m = "sb_regions s"
  let ?it = "om_lower_bound position ?m"
  note wf = sb_invD(2) [OF assms(1)]
  define behind where "behind \<longleftrightarrow> ?it \<noteq> om_begin ?m \<and> (?it = None \<or> the ?it > position)"
  have search: "(if behind then rbind (om_deref (om_prev ?it ?m) ?m) (\<lambda>(first, second).
        dcheck (first \<le> position) (Inr (if first + length second \<le> position then None else Some first)))
      else Inr ?it) = Inr ?r"
  proof (cases behind)
    case True
    with om_search_back [OF wf, of position] obtain k v where
      kv: "om_deref (om_prev ?it ?m) ?m = Inr (k, v)" "(k, v) \<in> set ?m" "k < position"
        "\<And>b. b \<in> om_keys ?m \<Longrightarrow> b \<le> position \<Longrightarrow> b \<le> k" unfolding behind_def by metis
    have ex: "\<not> (\<forall>k \<in> om_keys ?m. position < k)" using kv(2,3) by force
    have "region_at position s = (if k + length v \<le> position then None else Some k)"
    proof (cases "k + length v \<le> position")
      case True
      have "\<not> covers (a, length b) position" if "(a, b) \<in> set ?m" for a b
      proof
        assume c: "covers (a, length b) position"
        then have "a \<le> k" using kv(4) [of a] that by (force simp: covers_def)
        moreover have "a \<noteq> k" using c True om_unique [OF wf kv(2), of b] that by (auto simp: covers_def)
        ultimately have "covers (a, length b) k" using c kv(3) by (auto simp: covers_def)
        moreover have "covers (k, length v) k"
          using tilingD(1) [OF sb_invD(3) [OF assms(1)], of "(k, length v)"] sb_regs_in [OF kv(2)]
          by (auto simp: covers_def)
        ultimately show False
          using tilingD(3) [OF sb_invD(3) [OF assms(1)], of "(a, length b)" "(k, length v)" k]
            sb_regs_in [OF kv(2)] sb_regs_in [OF that] \<open>a \<noteq> k\<close> by auto
      qed
      with region_at_none [of s position] True show ?thesis by auto
    next
      case False
      with kv(3) region_at_in [OF assms(1) kv(2), of position] show ?thesis by (auto simp: covers_def)
    qed
    with kv True show ?thesis unfolding if_not_P [OF ex] by simp
  next
    case False
    show ?thesis
    proof (cases "?it = om_begin ?m \<and> ?it \<noteq> Some position")
      case True
      with om_lower_bound_begin [OF wf, of position] have ge: "\<And>b. b \<in> om_keys ?m \<Longrightarrow> position \<le> b" by auto
      have ne: "position \<notin> om_keys ?m"
      proof
        assume mem: "position \<in> om_keys ?m"
        then obtain l where "?it = Some l" using om_lower_bound_None [of position ?m] by fastforce
        with om_lower_bound_SomeD [OF wf this] mem True show False by auto
      qed
      have all: "\<forall>k \<in> om_keys ?m. position < k" using ge ne by (force simp: le_less)
      then have "region_at position s = None" by (intro region_at_none) (force simp: covers_def)
      with all False True show ?thesis by simp
    next
      case 2: False
      with False have it: "?it = Some position"
        unfolding behind_def using om_lower_bound_SomeD [OF wf, of position "the ?it"] by (cases ?it) auto
      with om_lower_bound_SomeD [OF wf it] obtain b where b: "(position, b) \<in> set ?m" by auto
      then have "covers (position, length b) position"
        using tilingD(1) [OF sb_invD(3) [OF assms(1)], of "(position, length b)"] sb_regs_in [OF b]
        by (auto simp: covers_def)
      with region_at_in [OF assms(1) b] False it show ?thesis by simp
    qed
  qed
  from assms(2) have sz: "0 < sb_size s" by simp
  from try_hint_sound [OF assms(1,3), of position]
  show ?thesis
  proof
    assume "try_hint position hint s = Inr None"
    with search sz assms(2) show ?thesis by (simp add: FindRegionContaining_def Let_def behind_def)
  next
    assume h: "try_hint position hint s = Inr (region_at position s)"
    show ?thesis
    proof (cases "region_at position s")
      case None
      with h search sz assms(2) show ?thesis by (simp add: FindRegionContaining_def Let_def behind_def)
    next
      case (Some k)
      with h sz assms(2) show ?thesis by (simp add: FindRegionContaining_def)
    qed
  qed
qed


lemma hole_at_unique:
  assumes "sb_inv s" "(k, z) \<in> set (sb_holes s)" "covers (k, z) p" "(a, w) \<in> set (sb_holes s)" "covers (a, w) p"
  shows "a = k" "w = z"
  using tilingD(3) [OF sb_invD(3) [OF assms(1)], of "(k, z)" "(a, w)" p] assms by auto

lemma FindHoleContaining_eq:
  assumes "sb_inv s" "(k, z) \<in> set (sb_holes s)" "covers (k, z) position"
  shows "FindHoleContaining position s = Inr (Some k)"
proof -
  let ?m = "sb_holes s"
  let ?it = "om_lower_bound position ?m"
  note wf = sb_invD(1) [OF assms(1)]
  note t = sb_invD(3) [OF assms(1)]
  have k: "k \<le> position" "position < k + z" "k \<in> om_keys ?m" using assms(2,3) by (force simp: covers_def)+
  have sz: "0 < sb_size s" using tilingD(2) [OF t, of "(k, z)"] assms(2) k by simp
  show ?thesis
  proof (cases "?it \<noteq> om_begin ?m \<and> (?it = None \<or> the ?it > position)")
    case True
    with om_search_back [OF wf, of position] obtain a w where
      aw: "om_deref (om_prev ?it ?m) ?m = Inr (a, w)" "(a, w) \<in> set ?m" "a < position"
        "\<And>b. b \<in> om_keys ?m \<Longrightarrow> b \<le> position \<Longrightarrow> b \<le> a" by metis
    have "covers (k, z) a" using aw(4) [OF k(3,1)] aw(3) k by (simp add: covers_def)
    moreover have "covers (a, w) a" using tilingD(1) [OF t, of "(a, w)"] aw(2) by (simp add: covers_def)
    ultimately have "a = k" "w = z" using hole_at_unique [OF assms(1,2) _ aw(2)] by auto
    with aw True k sz show ?thesis by (simp add: FindHoleContaining_def Let_def)
  next
    case False
    have "?it = Some k"
    proof (cases "?it")
      case None
      with False om_begin_None [of ?m] have "?m = []" by metis
      with assms(2) show ?thesis by simp
    next
      case (Some l)
      note l = om_lower_bound_SomeD [OF wf Some]
      show ?thesis
      proof (cases "?it = om_begin ?m")
        case True
        with om_begin_SomeD [OF wf, of l] Some have "l \<le> k" using k(3) by auto
        with l k show ?thesis using Some by simp
      next
        case 2: False
        with False Some l have "l = position" by auto
        moreover from l obtain w where w: "(l, w) \<in> set ?m" by auto
        moreover have "covers (l, w) l" using tilingD(1) [OF t, of "(l, w)"] w by (simp add: covers_def)
        ultimately have "l = k" using hole_at_unique(1) [OF assms w] by simp
        with Some show ?thesis by simp
      qed
    qed
    with False sz show ?thesis unfolding FindHoleContaining_def Let_def if_not_P [OF False] by simp
  qed
qed

definition carve_hole :: "nat \<Rightarrow> nat \<Rightarrow> nat \<Rightarrow> SparseByteBuffer \<Rightarrow> SparseByteBuffer" where
  "carve_hole k z p s = (if k = p then s
     else s\<lparr>sb_holes := om_insert p (z - (p - k)) (om_assign k (p - k) (sb_holes s))\<rparr>)"

lemma split_hole_eq:
  assumes "sb_inv s" "(k, z) \<in> set (sb_holes s)" "covers (k, z) position"
  shows "split_hole position (Some k) s = Inr (Some position, carve_hole k z position s)"
  using om_deref_in [OF sb_invD(1) [OF assms(1)] assms(2)] assms(3)
  by (auto simp: split_hole_def carve_hole_def covers_def Let_def)

lemma FindOrCreateHole_eq:
  assumes "sb_inv s" "(k, z) \<in> set (sb_holes s)" "covers (k, z) position"
    and "hint = None \<or> the hint \<in> om_keys (sb_holes s)"
  shows "FindOrCreateHole position hint s = Inr (Some position, carve_hole k z position s)"
proof -
  let ?m = "sb_holes s"
  define result where "result = (if hint = None then om_begin ?m else hint)"
  note wf = sb_invD(1) [OF assms(1)]
  have ne: "?m \<noteq> []" using assms(2) by auto
  then have "\<exists>a. result = Some a \<and> a \<in> om_keys ?m"
    using assms(4) om_begin_SomeD [OF wf] om_begin_None [of ?m] unfolding result_def by (cases "om_begin ?m") force+
  then obtain a w where a: "result = Some a" "(a, w) \<in> set ?m" by auto
  note d = om_deref_in [OF wf a(2)]
  have sz: "0 < sb_size s"
    using tilingD(2) [OF sb_invD(3) [OF assms(1)], of "(k, z)"] assms(2,3) by (auto simp: covers_def)
  have w: "0 < w" using tilingD(1) [OF sb_invD(3) [OF assms(1)], of "(a, w)"] a(2) by simp
  have main: "rbind (if a \<noteq> position
                then rbind (if a > position \<or> a + w \<le> position
                            then rbind (FindHoleContaining position s) (\<lambda>r. dcheck (r \<noteq> None) (Inr r))
                            else Inr result)
                       (\<lambda>result. split_hole position result s)
                else Inr (result, s)) (\<lambda>(result, s). dcheck (result = Some position) (Inr (result, s)))
      = Inr (Some position, carve_hole k z position s)"
  proof (cases "covers (a, w) position")
    case True
    with hole_at_unique [OF assms(1-3) a(2)] have "a = k" "w = z" by auto
    with True a(1) split_hole_eq [OF assms(1-3)] show ?thesis by (auto simp: covers_def carve_hole_def)
  next
    case False
    with w have "a \<noteq> position" "a > position \<or> a + w \<le> position" by (auto simp: covers_def)
    then show ?thesis using FindHoleContaining_eq [OF assms(1-3)] split_hole_eq [OF assms(1-3)] by simp
  qed
  then show ?thesis using sz ne d unfolding FindOrCreateHole_def Let_def result_def [symmetric] a(1)
    by (simp add: a(1))
qed


lemma carve_hole_set:
  assumes "sb_inv s" "(k, z) \<in> set (sb_holes s)" "covers (k, z) p" "k \<noteq> p"
  shows "om_wf (sb_holes (carve_hole k z p s))"
    "set (sb_holes (carve_hole k z p s)) =
      insert (k, p - k) (insert (p, z - (p - k)) (set (sb_holes s) - {(k, z)}))"
proof -
  let ?m = "om_assign k (p - k) (sb_holes s)"
  note wf = sb_invD(1) [OF assms(1)]
  have lt: "k < p" "p < k + z" using assms(3,4) by (auto simp: covers_def)
  have only: "{x \<in> set (sb_holes s). fst x \<noteq> k} = set (sb_holes s) - {(k, z)}"
    by (rule om_others [OF wf assms(2)])
  have "om_keys ?m = om_keys (sb_holes s)" by (force simp: om_assign_def)
  moreover have "p \<notin> om_keys (sb_holes s)"
    using hole_gap [OF assms(1,2), of "p - k"] lt by simp
  ultimately have ni: "p \<notin> om_keys ?m" by simp
  show "om_wf (sb_holes (carve_hole k z p s))"
    using assms(4) om_insert_wf [OF om_assign_wf [OF wf] ni] by (simp add: carve_hole_def)
  show "set (sb_holes (carve_hole k z p s)) =
      insert (k, p - k) (insert (p, z - (p - k)) (set (sb_holes s) - {(k, z)}))"
    using assms(4) om_insert_set [OF om_assign_wf [OF wf] ni] om_assign_set [OF assms(2), of "p - k"]
    by (simp add: carve_hole_def only insert_commute)
qed

lemma carve_hole_inv:
  assumes "sb_inv s" "(k, z) \<in> set (sb_holes s)" "covers (k, z) p"
  shows "sb_inv (carve_hole k z p s)" "(p, k + z - p) \<in> set (sb_holes (carve_hole k z p s))"
    "sb_regions (carve_hole k z p s) = sb_regions s" "sb_size (carve_hole k z p s) = sb_size s"
proof -
  let ?s = "carve_hole k z p s" and ?H = "set (sb_holes s)" and ?R = "sb_regs s"
  show reg: "sb_regions ?s = sb_regions s" "sb_size ?s = sb_size s" by (simp_all add: carve_hole_def)
  then have regs: "sb_regs ?s = ?R" by (simp add: sb_regs_def)
  have lt: "k \<le> p" "p < k + z" using assms(3) by (auto simp: covers_def)
  have "sb_inv ?s \<and> (p, k + z - p) \<in> set (sb_holes ?s)"
  proof (cases "k = p")
    case True
    with assms(1,2) show ?thesis by (simp add: carve_hole_def)
  next
    case False
    note c = carve_hole_set [OF assms False]
    note t = sb_invD(3) [OF assms(1)]
    have n: "0 < p - k" "p - k < z" "k + (p - k) = p" "z - (p - k) = k + z - p" using lt False by auto
    have kz: "(k, z) \<notin> ?R" using sb_invD(4) [OF assms(1)] assms(2) by auto
    have "set (sb_holes ?s) \<union> ?R = insert (k, p - k) (insert (k + (p - k), z - (p - k)) (?H \<union> ?R - {(k, z)}))"
      unfolding c(2) n(3) using kz by auto
    with tiling_split [OF t _ n(1,2)] assms(2) have tl: "tiling (set (sb_holes ?s) \<union> sb_regs ?s) (sb_size ?s)"
      by (simp add: reg regs)
    have "x \<noteq> (k, p - k) \<and> x \<noteq> (p, z - (p - k))" if "x \<in> ?R" for x
    proof -
      have "x \<noteq> (k, z)" using that kz by auto
      then have "\<not> covers x q" if "covers (k, z) q" for q
        using tilingD(3) [OF t, of x "(k, z)" q] \<open>x \<in> ?R\<close> assms(2) that by auto
      from this [of k] this [of p] show ?thesis using n lt by (auto simp: covers_def)
    qed
    then have "set (sb_holes ?s) \<inter> sb_regs ?s = {}"
      unfolding c(2) regs using sb_invD(4) [OF assms(1)] by auto
    with tl c(1) reg sb_invD(2) [OF assms(1)] show ?thesis unfolding sb_inv_def c(2) n(4) by auto
  qed
  then show "sb_inv ?s" "(p, k + z - p) \<in> set (sb_holes ?s)" by auto
qed

lemma sb_content_regions: "sb_regions s' = sb_regions s \<Longrightarrow> sb_content s' = sb_content s"
  by (simp add: sb_content_def fun_eq_iff)

section \<open>What the operations promise\<close>

text \<open>The first hole at or after a position, wrapping around at the end of the asset.\<close>

definition hole_after :: "nat \<Rightarrow> nat set \<Rightarrow> nat option" where
  "hole_after p H = (if H = {} then None
     else if \<exists>h \<in> H. p \<le> h then Some (Min {h \<in> H. p \<le> h}) else Some (Min H))"

lemma om_begin_Min: "om_wf m \<Longrightarrow> m \<noteq> [] \<Longrightarrow> om_begin m = Some (Min (om_keys m))"
  using om_begin_SomeD [of m] by (cases "om_begin m") (auto intro!: Min_eqI [symmetric])

lemma om_next_Min:
  assumes "om_wf m" "h \<in> om_keys m" "k < h"
  shows "om_next k m = Some (Min {h \<in> om_keys m. k < h})"
proof -
  have "om_next k m \<noteq> None" using assms(2,3) by (auto simp: om_next_None not_le)
  then obtain a where a: "om_next k m = Some a" by auto
  have "finite {h \<in> om_keys m. k < h}" by simp
  with om_next_SomeD [OF assms(1) a] have "Min {h \<in> om_keys m. k < h} = a" by (intro Min_eqI) auto
  with a show ?thesis by simp
qed

lemma hole_starts_later:
  assumes "sb_inv s" "(k, n) \<in> sb_regs s" "h \<in> om_keys (sb_holes s)"
  shows "h \<noteq> k" "k < h \<longleftrightarrow> k + n \<le> h"
proof -
  from assms(3) obtain w where w: "(h, w) \<in> set (sb_holes s)" by auto
  note t = sb_invD(3) [OF assms(1)]
  have pos: "0 < w" "0 < n" using tilingD(1) [OF t, of "(h, w)"] tilingD(1) [OF t, of "(k, n)"] w assms(2) by auto
  have "(k, n) \<noteq> (h, w)" using w assms(2) sb_invD(4) [OF assms(1)] by auto
  moreover have "covers (h, w) h" using pos by (simp add: covers_def)
  ultimately have "\<not> covers (k, n) h" using tilingD(3) [OF t, of "(k, n)" "(h, w)" h] w assms(2) by auto
  with pos show "h \<noteq> k" "k < h \<longleftrightarrow> k + n \<le> h" by (auto simp: covers_def)
qed

lemma Fill_next_hole:
  assumes "sb_inv s" "(k, n) \<in> sb_regs s"
  shows "(if om_next k (sb_holes s) = None then om_begin (sb_holes s) else om_next k (sb_holes s)) =
    hole_after (k + n) (om_keys (sb_holes s))"
proof -
  let ?m = "sb_holes s"
  note wf = sb_invD(1) [OF assms(1)] and later = hole_starts_later [OF assms]
  show ?thesis
  proof (cases "\<exists>h \<in> om_keys ?m. k + n \<le> h")
    case True
    then obtain h where h: "h \<in> om_keys ?m" "k + n \<le> h" by auto
    have "{h \<in> om_keys ?m. k < h} = {h \<in> om_keys ?m. k + n \<le> h}" using later(2) by auto
    moreover have "k < h" using later(2) [OF h(1)] h(2) by simp
    ultimately have "om_next k ?m = Some (Min {h \<in> om_keys ?m. k + n \<le> h})"
      using om_next_Min [OF wf h(1)] by simp
    moreover have "om_keys ?m \<noteq> {}" using h by auto
    ultimately show ?thesis using True by (simp add: hole_after_def)
  next
    case False
    then have "om_next k ?m = None" unfolding om_next_None using later by (metis not_le)
    with False om_begin_Min [OF wf] show ?thesis
      by (cases "?m = []") (auto simp: hole_after_def om_begin_def)
  qed
qed

abbreviation filled :: "nat \<Rightarrow> nat \<Rightarrow> u8 list \<Rightarrow> SparseByteBuffer \<Rightarrow> SparseByteBuffer" where
  "filled k z buffer s \<equiv> s\<lparr>sb_holes := fill_holes k z (length buffer) (sb_holes s),
     sb_regions := om_insert k buffer (sb_regions s)\<rparr>"

lemma Fill_returns:
  assumes "sb_inv s" "(k, z) \<in> set (sb_holes s)" "buffer \<noteq> []" "length buffer \<le> z"
  shows "Fill (Some k) buffer s =
    Inr (hole_after (k + length buffer) (om_keys (sb_holes (filled k z buffer s))), filled k z buffer s)"
proof -
  have "(k, buffer) \<in> set (sb_regions (filled k z buffer s))"
    using om_insert_set [OF sb_invD(2) [OF assms(1)] hole_key_not_region [OF assms(1,2)]] by simp
  from Fill_next_hole [OF Fill_inv [OF assms] sb_regs_in [OF this]] Fill_eq [OF assms]
  show ?thesis by (auto split: if_splits)
qed

lemma hole_after_in: "finite H \<Longrightarrow> hole_after p H = None \<or> the (hole_after p H) \<in> H"
  using Min_in [of H] Min_in [of "{h \<in> H. p \<le> h}"] by (auto simp: hole_after_def)

text \<open>
  C36. Filling a hole: whenever \<^verbatim>\<open>Fill\<close> is given a hole of a well-formed buffer and a
  non-empty block of bytes that fits it, it fails no DCHECK, keeps the buffer well
  formed, puts the bytes at the position of the hole, leaves every other position
  as it was, and returns the first hole after the new region in the wraparound
  sense, or the null hole exactly when the buffer is full.
\<close>

theorem Fill_correct:
  assumes "sb_inv s" "(k, z) \<in> set (sb_holes s)" "buffer \<noteq> []" "length buffer \<le> z"
  shows "\<exists>s'. Fill (Some k) buffer s = Inr (hole_after (k + length buffer) (om_keys (sb_holes s')), s') \<and>
    sb_inv s' \<and> sb_size s' = sb_size s \<and>
    (\<forall>p. sb_content s' p =
      (if k \<le> p \<and> p < k + length buffer then Some (buffer ! (p - k)) else sb_content s p))"
  using Fill_returns [OF assms] Fill_inv [OF assms] Fill_content [OF assms]
  by (intro exI [of _ "filled k z buffer s"]) simp

definition sb_example :: SparseByteBuffer where
  "sb_example = \<lparr>sb_size = 4, sb_holes = [(0, 1), (2, 2)], sb_regions = [(1, [7])]\<rparr>"

lemma sb_example_inv: "sb_inv sb_example"
proof -
  have "\<exists>x \<in> {(0, 1), (2, 2), (1, 1)}. covers x p" if "p < 4" for p :: nat
    using that by (auto simp: covers_def)
  then show ?thesis
    by (auto simp: sb_inv_def sb_example_def sb_regs_def region_span_def tiling_def covers_def)
qed

theorem Fill_correct_witness:
  "\<exists>s'. Fill (Some 2) [5] sb_example = Inr (hole_after 3 (om_keys (sb_holes s')), s') \<and> sb_inv s' \<and>
    sb_content s' 2 = Some 5"
  using Fill_correct [of sb_example 2 2 "[5]"] sb_example_inv by (auto simp: sb_example_def)

text \<open>
  Looking up a region: with any valid hint, \<^verbatim>\<open>FindRegionContaining\<close> returns the
  region that holds the position when there is one. When there is none it returns
  the null region, except for a position before every region, where it returns the
  first region although that one does not contain the position.
\<close>

lemma FindRegionContaining_exact:
  assumes "sb_inv s" "position < sb_size s" "hint = None \<or> the hint \<in> om_keys (sb_regions s)"
  shows "FindRegionContaining position hint s =
    Inr (if sb_content s position \<noteq> None then region_at position s
         else if \<forall>k \<in> om_keys (sb_regions s). position < k then om_begin (sb_regions s) else None)"
proof -
  have "sb_content s position \<noteq> None \<longleftrightarrow> region_at position s \<noteq> None"
    by (auto simp: sb_content_def region_at_def split: option.splits)
  then show ?thesis using FindRegionContaining_eq [OF assms] by presburger
qed

text \<open>
  Making a hole at a position: for a position inside a hole and any valid hint,
  \<^verbatim>\<open>FindOrCreateHole\<close> fails no DCHECK and returns the hole that starts exactly at the
  position and runs to the end of the hole it was in; the buffer stays well formed
  and no byte of it changes.
\<close>

lemma FindOrCreateHole_correct:
  assumes "sb_inv s" "(k, z) \<in> set (sb_holes s)" "k \<le> position" "position < k + z"
    and "hint = None \<or> the hint \<in> om_keys (sb_holes s)"
  shows "\<exists>s'. FindOrCreateHole position hint s = Inr (Some position, s') \<and> sb_inv s' \<and>
    (position, k + z - position) \<in> set (sb_holes s') \<and> sb_content s' = sb_content s \<and> sb_size s' = sb_size s"
proof -
  have c: "covers (k, z) position" using assms(3,4) by (simp add: covers_def)
  note inv = carve_hole_inv [OF assms(1,2) c]
  show ?thesis
    using FindOrCreateHole_eq [OF assms(1,2) c assms(5)] inv(1,2,4) sb_content_regions [OF inv(3)] by blast
qed

end
