(* ===== verification/Reader_Cache.thy ===== *)
theory Reader_Cache
  imports Sparse_Buffer
begin

text \<open>
  The class \<^verbatim>\<open>ReaderCache\<close> (services/media/framework/parts/reader_cache.h,
  reader_cache.cc): a reader that keeps the asset of an upstream reader in memory. It
  has a store, which holds the bytes read so far in a sparse buffer, an intake, which
  asks the upstream reader for the next missing bytes, and at most one read request.

  The upstream reader is not part of the class: a call of its \<^verbatim>\<open>ReadAt\<close> leaves the
  intake waiting, and the callback it is given is the operation \<open>ReadAt_done\<close>, with
  the bytes the reader has written into the buffer as its argument. The locks of the
  store are held for the whole of each operation, so an operation is one step; the
  intake's \<^verbatim>\<open>Continue\<close> is a step of its own, because a client may run between the
  end of \<^verbatim>\<open>PutIntakeBuffer\<close> and it.
\<close>

section \<open>Requests\<close>

datatype Result = kOk | kUnknownError | kInternalError | kUnsupportedOperation | kInvalidArgument | kNotFound

text \<open>
  The client's buffer is the list \<open>rq_memory\<close>, and the pointer \<^verbatim>\<open>buffer_\<close> into it is the
  offset \<open>rq_buffer\<close>.
\<close>

record ReadAtRequest =
  rq_in_progress :: bool
  rq_position :: nat
  rq_memory :: "u8 list"
  rq_buffer :: nat
  rq_original_bytes_to_read :: nat
  rq_remaining_bytes_to_read :: nat

definition ReadAtRequest_Start :: "nat \<Rightarrow> u8 list \<Rightarrow> ReadAtRequest \<Rightarrow> ReadAtRequest res" where
  "ReadAtRequest_Start position memory rq =
     dcheck (\<not> rq_in_progress rq)
      (Inr (rq\<lparr>rq_in_progress := True, rq_position := position, rq_memory := memory, rq_buffer := 0,
               rq_original_bytes_to_read := length memory, rq_remaining_bytes_to_read := length memory\<rparr>))"

definition CopyFrom :: "u8 list \<Rightarrow> nat \<Rightarrow> ReadAtRequest \<Rightarrow> ReadAtRequest res" where
  "CopyFrom source byte_count rq =
     dcheck (byte_count \<le> rq_remaining_bytes_to_read rq)
      (if length source < byte_count \<or> length (rq_memory rq) < rq_buffer rq + byte_count then Inl Out_of_range
       else Inr (rq\<lparr>rq_memory := take (rq_buffer rq) (rq_memory rq) @ take byte_count source @
                                    drop (rq_buffer rq + byte_count) (rq_memory rq),
                    rq_position := rq_position rq + byte_count,
                    rq_buffer := rq_buffer rq + byte_count,
                    rq_remaining_bytes_to_read := rq_remaining_bytes_to_read rq - byte_count\<rparr>))"

text \<open>\<^verbatim>\<open>Complete\<close> returns the arguments it passes to the callback of the request.\<close>

definition Complete :: "Result \<Rightarrow> ReadAtRequest \<Rightarrow> ((Result \<times> nat) \<times> ReadAtRequest) res" where
  "Complete result rq =
     dcheck (rq_original_bytes_to_read rq \<ge> rq_remaining_bytes_to_read rq)
      (let bytes_read = rq_original_bytes_to_read rq - rq_remaining_bytes_to_read rq
       in dcheck ((bytes_read = 0) = (result \<noteq> kOk))
            (Inr ((result, bytes_read), rq\<lparr>rq_in_progress := False\<rparr>)))"

section \<open>The store\<close>

text \<open>\<open>st_read_request\<close> is whether the pointer \<^verbatim>\<open>read_request_\<close> is set: there is only one request object.\<close>

record Store =
  st_size :: nat
  st_can_seek :: bool
  st_result :: Result
  st_sparse_byte_buffer :: SparseByteBuffer
  st_intake_hole :: "nat option"
  st_read_hole :: "nat option"
  st_read_region :: "nat option"
  st_read_request :: bool
  st_read_request_position :: nat
  st_read_request_remaining_bytes :: nat

definition kDefaultReadSize :: nat where
  "kDefaultReadSize = 32 * 1024"

definition Store_Initialize :: "Result \<Rightarrow> nat \<Rightarrow> bool \<Rightarrow> Store \<Rightarrow> Store res" where
  "Store_Initialize result sz can_seek st =
     (let b = Initialize sz (st_sparse_byte_buffer st)
      in rbind (FindHoleContaining 0 b) (\<lambda>h.
           Inr (st\<lparr>st_result := result, st_size := sz, st_can_seek := can_seek, st_sparse_byte_buffer := b,
                   st_intake_hole := h, st_read_hole := None, st_read_region := None\<rparr>)))"

definition Store_Describe :: "Store \<Rightarrow> Result \<times> nat \<times> bool" where
  "Store_Describe st = (st_result st, st_size st, st_can_seek st)"

text \<open>
  The loop of \<^verbatim>\<open>ServeRequest\<close>. The first component of the result is \<open>True\<close> when the loop
  ended and \<open>False\<close> when the function returned from inside it.
\<close>

function serve_loop :: "Store \<Rightarrow> ReadAtRequest \<Rightarrow> (bool \<times> Store \<times> ReadAtRequest) res" where
  "serve_loop st rq =
     (if st_result st = kOk \<and> st_read_request_remaining_bytes st \<noteq> 0
      then rbind (FindRegionContaining (st_read_request_position st) (st_read_region st) (st_sparse_byte_buffer st)) (\<lambda>region.
        if region = None
        then rbind (FindOrCreateHole (st_read_request_position st) (st_intake_hole st) (st_sparse_byte_buffer st)) (\<lambda>(hole, b).
          Inr (False, st\<lparr>st_read_region := region, st_read_hole := hole, st_sparse_byte_buffer := b\<rparr>, rq))
        else rbind (om_deref region (sb_regions (st_sparse_byte_buffer st))) (\<lambda>(position, data).
          dcheck (position \<le> st_read_request_position st)
           (dcheck (position + length data > st_read_request_position st)
             (let available = position + length data - st_read_request_position st;
                  bytes_to_copy = (if available > st_read_request_remaining_bytes st
                                   then st_read_request_remaining_bytes st else available)
              in dcheck (bytes_to_copy > 0)
                  (rbind (CopyFrom (drop (st_read_request_position st - position) data) bytes_to_copy rq) (\<lambda>rq.
                     serve_loop
                       (st\<lparr>st_read_region := region,
                           st_read_request_position := st_read_request_position st + bytes_to_copy,
                           st_read_request_remaining_bytes := st_read_request_remaining_bytes st - bytes_to_copy\<rparr>)
                       rq))))))
      else Inr (True, st, rq))"
  by pat_completeness auto

termination serve_loop
  by (relation "measure (\<lambda>(st, _). st_read_request_remaining_bytes st)") auto

declare serve_loop.simps [simp del]

definition ServeRequest :: "Store \<Rightarrow> ReadAtRequest \<Rightarrow> ((Result \<times> nat) option \<times> Store \<times> ReadAtRequest) res" where
  "ServeRequest st rq =
     rbind (serve_loop st rq) (\<lambda>(ended, st, rq).
       if ended
       then rbind (Complete (st_result st) rq) (\<lambda>(call, rq). Inr (Some call, st\<lparr>st_read_request := False\<rparr>, rq))
       else Inr (None, st, rq))"

definition SetReadAtRequest :: "Store \<Rightarrow> ReadAtRequest \<Rightarrow> ((Result \<times> nat) option \<times> Store \<times> ReadAtRequest) res" where
  "SetReadAtRequest st rq =
     dcheck (\<not> st_read_request st) (dcheck (rq_position rq < st_size st)
      (dcheck (rq_remaining_bytes_to_read rq > 0)
        (let position = rq_position rq; remaining = rq_remaining_bytes_to_read rq
         in ServeRequest
              (st\<lparr>st_read_request := True, st_read_request_position := position,
                  st_read_request_remaining_bytes :=
                    (if position + remaining > st_size st then st_size st - position else remaining)\<rparr>) rq)))"

text \<open>The returned position and size; \<open>None\<close> is \<^verbatim>\<open>kUnknownSize\<close>.\<close>

definition GetIntakePositionAndSize :: "Store \<Rightarrow> ((nat \<times> nat) option \<times> Store) res" where
  "GetIntakePositionAndSize st =
     rbind (if st_read_hole st \<noteq> None
            then dcheck (st_read_request st)
              (Inr (Some (st_read_request_remaining_bytes st),
                    st\<lparr>st_intake_hole := st_read_hole st, st_read_hole := None\<rparr>))
            else if st_intake_hole st = None then Inr (None, st) else Inr (Some kDefaultReadSize, st))
       (\<lambda>(wanted, st). case wanted of
          None \<Rightarrow> Inr (None, st)
        | Some sz \<Rightarrow> rbind (om_deref (st_intake_hole st) (sb_holes (st_sparse_byte_buffer st))) (\<lambda>(position, hole_size).
            Inr (Some (position, if sz > hole_size then hole_size else sz), st)))"

definition PutIntakeBuffer :: "nat \<Rightarrow> u8 list \<Rightarrow> Store \<Rightarrow> ReadAtRequest \<Rightarrow> ((Result \<times> nat) option \<times> Store \<times> ReadAtRequest) res" where
  "PutIntakeBuffer position buffer st rq =
     dcheck (st_intake_hole st \<noteq> None)
      (rbind (om_deref (st_intake_hole st) (sb_holes (st_sparse_byte_buffer st))) (\<lambda>(hole_position, hole_size).
        dcheck (position = hole_position) (dcheck (length buffer \<noteq> 0) (dcheck (length buffer \<le> hole_size)
         (let covered = (case st_read_hole st of None \<Rightarrow> False
                         | Some h \<Rightarrow> position \<le> h \<and> h < position + length buffer);
              st = (if covered then st\<lparr>st_read_hole := None\<rparr> else st)
          in rbind (Fill (st_intake_hole st) buffer (st_sparse_byte_buffer st)) (\<lambda>(hole, b).
               let st = st\<lparr>st_intake_hole := hole, st_sparse_byte_buffer := b\<rparr>
               in if st_read_request st then ServeRequest st rq else Inr (None, st, rq)))))))"

definition ReportIntakeError :: "Result \<Rightarrow> Store \<Rightarrow> ReadAtRequest \<Rightarrow> ((Result \<times> nat) option \<times> Store \<times> ReadAtRequest) res" where
  "ReportIntakeError result st rq =
     dcheck (result \<noteq> kOk)
      (let st = st\<lparr>st_result := result\<rparr>
       in if st_read_request st then ServeRequest st rq else Inr (None, st, rq))"

section \<open>The cache\<close>

text \<open>What the intake is doing: \<open>Reading p n\<close> is a call of the upstream \<^verbatim>\<open>ReadAt\<close> that has not called back.\<close>

datatype intake = Not_started | Reading nat nat | Continuing | Stopped

text \<open>The consequences that wait for the incident \<^verbatim>\<open>describe_is_complete_\<close>.\<close>

datatype consequence = Describe_consequence | Read_consequence

text \<open>
  The calls of the client's callbacks are recorded in the order they are made: those of
  \<^verbatim>\<open>Describe\<close> in \<open>ca_described\<close>, those of \<^verbatim>\<open>ReadAt\<close> in \<open>ca_completed\<close> with the position, the
  arguments of the call and the client's buffer at that moment.
\<close>

record ReaderCache =
  ca_read_at_request :: ReadAtRequest
  ca_store :: Store
  ca_intake :: intake
  ca_occurred :: bool
  ca_consequences :: "consequence list"
  ca_described :: "(Result \<times> nat \<times> bool) list"
  ca_completed :: "(nat \<times> (Result \<times> nat) \<times> u8 list) list"

definition deliver :: "(Result \<times> nat) option \<times> Store \<times> ReadAtRequest \<Rightarrow> ReaderCache \<Rightarrow> ReaderCache" where
  "deliver r s = (case r of (call, st, rq) \<Rightarrow>
     s\<lparr>ca_store := st, ca_read_at_request := rq,
       ca_completed := ca_completed s @
         (case call of None \<Rightarrow> [] | Some c \<Rightarrow> [(rq_position rq - snd c, c, rq_memory rq)])\<rparr>)"

definition run_consequence :: "consequence \<Rightarrow> ReaderCache \<Rightarrow> ReaderCache res" where
  "run_consequence c s = (case c of
     Describe_consequence \<Rightarrow> Inr (s\<lparr>ca_described := ca_described s @ [Store_Describe (ca_store s)]\<rparr>)
   | Read_consequence \<Rightarrow> rbind (SetReadAtRequest (ca_store s) (ca_read_at_request s)) (\<lambda>r. Inr (deliver r s)))"

fun run_consequences :: "consequence list \<Rightarrow> ReaderCache \<Rightarrow> ReaderCache res" where
  "run_consequences [] s = Inr s"
| "run_consequences (c # cs) s = rbind (run_consequence c s) (run_consequences cs)"

text \<open>\<^verbatim>\<open>ThreadsafeIncident::When\<close> and \<^verbatim>\<open>ThreadsafeIncident::Occur\<close> for \<^verbatim>\<open>describe_is_complete_\<close>.\<close>

definition When :: "consequence \<Rightarrow> ReaderCache \<Rightarrow> ReaderCache res" where
  "When c s = (if \<not> ca_occurred s then Inr (s\<lparr>ca_consequences := ca_consequences s @ [c]\<rparr>) else run_consequence c s)"

definition Occur :: "ReaderCache \<Rightarrow> ReaderCache res" where
  "Occur s = (if ca_occurred s then Inr s
     else run_consequences (ca_consequences s) (s\<lparr>ca_occurred := True, ca_consequences := []\<rparr>))"

definition Describe :: "ReaderCache \<Rightarrow> ReaderCache res" where
  "Describe s = When Describe_consequence s"

definition ReadAt :: "nat \<Rightarrow> u8 list \<Rightarrow> ReaderCache \<Rightarrow> ReaderCache res" where
  "ReadAt position memory s =
     dcheck (length memory > 0)
      (rbind (ReadAtRequest_Start position memory (ca_read_at_request s)) (\<lambda>rq.
         When Read_consequence (s\<lparr>ca_read_at_request := rq\<rparr>)))"

definition Continue :: "ReaderCache \<Rightarrow> ReaderCache res" where
  "Continue s = rbind (GetIntakePositionAndSize (ca_store s)) (\<lambda>(wanted, st).
     let s = s\<lparr>ca_store := st\<rparr>
     in case wanted of
          None \<Rightarrow> Inr (s\<lparr>ca_intake := Stopped\<rparr>)
        | Some (position, sz) \<Rightarrow> dcheck (sz > 0) (Inr (s\<lparr>ca_intake := Reading position sz\<rparr>)))"

text \<open>The callback the constructor passes to the upstream \<^verbatim>\<open>Describe\<close>.\<close>

definition Describe_done :: "Result \<Rightarrow> nat \<Rightarrow> bool \<Rightarrow> ReaderCache \<Rightarrow> ReaderCache res" where
  "Describe_done result sz can_seek s =
     rbind (Store_Initialize result sz can_seek (ca_store s)) (\<lambda>st.
       rbind (Occur (s\<lparr>ca_store := st\<rparr>)) (\<lambda>s.
         if result = kOk then Inr (s\<lparr>ca_intake := Continuing\<rparr>) else Inr s))"

text \<open>The callback \<^verbatim>\<open>Continue\<close> passes to the upstream \<^verbatim>\<open>ReadAt\<close>; \<open>buffer\<close> is the member \<^verbatim>\<open>buffer_\<close> then.\<close>

definition ReadAt_done :: "Result \<Rightarrow> nat \<Rightarrow> u8 list \<Rightarrow> nat \<Rightarrow> ReaderCache \<Rightarrow> ReaderCache res" where
  "ReadAt_done result bytes_read buffer position s =
     (if result \<noteq> kOk
      then rbind (ReportIntakeError result (ca_store s) (ca_read_at_request s)) (\<lambda>r.
             Inr ((deliver r s)\<lparr>ca_intake := Stopped\<rparr>))
      else dcheck (bytes_read \<noteq> 0)
        (rbind (PutIntakeBuffer position buffer (ca_store s) (ca_read_at_request s)) (\<lambda>r.
           Inr ((deliver r s)\<lparr>ca_intake := Continuing\<rparr>))))"

section \<open>The invariant of the store\<close>

definition agrees :: "u8 list \<Rightarrow> SparseByteBuffer \<Rightarrow> bool" where
  "agrees asset b \<longleftrightarrow> sb_inv b \<and> sb_size b = length asset \<and>
     (\<forall>p x. sb_content b p = Some x \<longrightarrow> x = asset ! p)"

abbreviation valid_iter :: "nat option \<Rightarrow> 'v omap \<Rightarrow> bool" where
  "valid_iter it m \<equiv> it = None \<or> the it \<in> om_keys m"

definition st_inv :: "u8 list \<Rightarrow> Store \<Rightarrow> bool" where
  "st_inv asset st \<longleftrightarrow> agrees asset (st_sparse_byte_buffer st) \<and> st_size st = length asset \<and>
     valid_iter (st_intake_hole st) (sb_holes (st_sparse_byte_buffer st)) \<and>
     valid_iter (st_read_hole st) (sb_holes (st_sparse_byte_buffer st)) \<and>
     valid_iter (st_read_region st) (sb_regions (st_sparse_byte_buffer st)) \<and>
     (st_intake_hole st = None \<longrightarrow> sb_holes (st_sparse_byte_buffer st) = [])"

text \<open>A request in service: what has been copied is the asset from the position where the request began.\<close>

definition rq_start :: "ReadAtRequest \<Rightarrow> nat" where
  "rq_start rq = rq_position rq - rq_buffer rq"

definition rq_inv :: "u8 list \<Rightarrow> Store \<Rightarrow> ReadAtRequest \<Rightarrow> bool" where
  "rq_inv asset st rq \<longleftrightarrow>
     rq_position rq = st_read_request_position st \<and> st_read_request_position st \<le> length asset \<and>
     rq_buffer rq \<le> rq_position rq \<and> length (rq_memory rq) = rq_original_bytes_to_read rq \<and>
     rq_buffer rq + rq_remaining_bytes_to_read rq = rq_original_bytes_to_read rq \<and>
     st_read_request_remaining_bytes st =
       min (rq_remaining_bytes_to_read rq) (length asset - st_read_request_position st) \<and>
     take (rq_buffer rq) (rq_memory rq) = take (rq_buffer rq) (drop (rq_start rq) asset)"

text \<open>The positions where \<^verbatim>\<open>FindRegionContaining\<close> can be trusted.\<close>

definition front_ok :: "Store \<Rightarrow> bool" where
  "front_ok st \<longleftrightarrow> sb_regions (st_sparse_byte_buffer st) = [] \<or>
     (\<exists>k \<in> om_keys (sb_regions (st_sparse_byte_buffer st)). k \<le> st_read_request_position st)"

lemma agreesD:
  assumes "agrees asset b"
  shows "sb_inv b" "sb_size b = length asset" "sb_content b p = Some x \<Longrightarrow> x = asset ! p"
  using assms by (auto simp: agrees_def)

lemma region_is_asset:
  assumes "agrees asset b" "(k, d) \<in> set (sb_regions b)"
  shows "k + length d \<le> length asset" "d = take (length d) (drop k asset)"
proof -
  note inv = agreesD(1) [OF assms(1)]
  show len: "k + length d \<le> length asset"
    using tilingD(2) [OF sb_invD(3) [OF inv], of "(k, length d)"] sb_regs_in [OF assms(2)] agreesD(2) [OF assms(1)]
    by simp
  show "d = take (length d) (drop k asset)"
  proof (rule nth_equalityI)
    fix i assume i: "i < length d"
    then have "sb_content b (k + i) = Some (d ! i)"
      using sb_content_in [OF inv assms(2), of "k + i"] by (simp add: covers_def)
    from agreesD(3) [OF assms(1) this] i len show "d ! i = take (length d) (drop k asset) ! i" by simp
  qed (use len in simp)
qed

lemma unfilled_in_hole:
  assumes "sb_inv b" "p < sb_size b" "region_at p b = None"
  obtains k z where "(k, z) \<in> set (sb_holes b)" "covers (k, z) p"
proof -
  from sb_invD(3) [OF assms(1)] assms(2) obtain x where
    x: "x \<in> set (sb_holes b) \<union> sb_regs b" "covers x p" unfolding tiling_def by blast
  have "x \<notin> sb_regs b"
  proof
    assume "x \<in> sb_regs b"
    then obtain k d where "x = (k, length d)" "(k, d) \<in> set (sb_regions b)" by (rule sb_regs_cases)
    with region_at_in [OF assms(1)] x(2) assms(3) show False by auto
  qed
  with x that [of "fst x" "snd x"] show ?thesis by simp
qed

section \<open>Copying one region\<close>

lemma CopyFrom_inv:
  assumes rq: "rq_inv asset st rq" and k: "k \<le> st_read_request_position st"
    and len: "k + length d \<le> length asset" and d: "d = take (length d) (drop k asset)"
    and n: "n \<le> k + length d - st_read_request_position st" "n \<le> st_read_request_remaining_bytes st"
  obtains rq' where "CopyFrom (drop (st_read_request_position st - k) d) n rq = Inr rq'"
    "rq_inv asset (st\<lparr>st_read_region := r, st_read_request_position := st_read_request_position st + n,
       st_read_request_remaining_bytes := st_read_request_remaining_bytes st - n\<rparr>) rq'"
    "rq_start rq' = rq_start rq" "rq_original_bytes_to_read rq' = rq_original_bytes_to_read rq"
    "rq_in_progress rq' = rq_in_progress rq"
proof -
  let ?p = "st_read_request_position st" and ?o = "rq_buffer rq"
  note r = rq [unfolded rq_inv_def]
  define src where "src = drop (?p - k) d"
  have src: "take n src = take n (drop ?p asset)"
  proof -
    have "src = drop (?p - k) (take (length d) (drop k asset))" unfolding src_def using d by simp
    also have "\<dots> = take (length d - (?p - k)) (drop ?p asset)" using k by (simp add: drop_take)
    finally show ?thesis using n(1) k by (simp add: min_def)
  qed
  have ls: "n \<le> length src" using n(1) k by (simp add: src_def)
  have fits: "?o + n \<le> length (rq_memory rq)" "n \<le> rq_remaining_bytes_to_read rq" using r n(2) by auto
  define rq' where "rq' = rq\<lparr>rq_memory := take ?o (rq_memory rq) @ take n src @ drop (?o + n) (rq_memory rq),
    rq_position := rq_position rq + n, rq_buffer := ?o + n,
    rq_remaining_bytes_to_read := rq_remaining_bytes_to_read rq - n\<rparr>"
  have copy: "CopyFrom src n rq = Inr rq'" using ls fits by (simp add: CopyFrom_def rq'_def)
  have start: "rq_start rq' = rq_start rq" by (simp add: rq_start_def rq'_def)
  have pos: "rq_start rq + ?o = ?p" using r by (simp add: rq_start_def)
  have "take (?o + n) (rq_memory rq') = take ?o (rq_memory rq) @ take n src"
    using fits ls by (simp add: rq'_def min_def)
  also have "\<dots> = take ?o (drop (rq_start rq) asset) @ take n (drop (rq_start rq + ?o) asset)"
    using r src pos by simp
  also have "\<dots> = take (?o + n) (drop (rq_start rq) asset)"
    unfolding take_add drop_drop by (simp only: add.commute)
  finally have mem: "take (?o + n) (rq_memory rq') = take (?o + n) (drop (rq_start rq) asset)" .
  have lm: "length (rq_memory rq') = rq_original_bytes_to_read rq"
  proof -
    have "length (rq_memory rq') = length (rq_memory rq)" using fits(1) ls by (simp add: rq'_def)
    with r show ?thesis by simp
  qed
  have "?p \<le> length asset" using r by simp
  then have room: "?p + n \<le> length asset" using n(1) len by linarith
  have rem: "st_read_request_remaining_bytes st - n =
      min (rq_remaining_bytes_to_read rq - n) (length asset - (?p + n))" using r by simp
  have sum: "?o + n + (rq_remaining_bytes_to_read rq - n) = rq_original_bytes_to_read rq" using r fits by simp
  have other: "rq_position rq' = ?p + n" "rq_buffer rq' = ?o + n" "?o + n \<le> ?p + n"
    "rq_remaining_bytes_to_read rq' = rq_remaining_bytes_to_read rq - n"
    "rq_original_bytes_to_read rq' = rq_original_bytes_to_read rq" using r by (simp_all add: rq'_def)
  have "rq_inv asset (st\<lparr>st_read_region := r, st_read_request_position := ?p + n,
       st_read_request_remaining_bytes := st_read_request_remaining_bytes st - n\<rparr>) rq'"
    unfolding rq_inv_def start other using lm room rem sum mem other(3) by simp
  with copy start show ?thesis using that by (simp add: rq'_def src_def)
qed

section \<open>Serving a request\<close>

text \<open>What a run of the loop of \<^verbatim>\<open>ServeRequest\<close> leaves, whichever way it ends.\<close>

definition served :: "u8 list \<Rightarrow> Store \<Rightarrow> ReadAtRequest \<Rightarrow> bool \<times> Store \<times> ReadAtRequest \<Rightarrow> bool" where
  "served asset st rq r = (case r of (ended, st', rq') \<Rightarrow>
     st_inv asset st' \<and> rq_inv asset st' rq' \<and> rq_start rq' = rq_start rq \<and>
     rq_original_bytes_to_read rq' = rq_original_bytes_to_read rq \<and> rq_in_progress rq' = rq_in_progress rq \<and>
     st_read_request_position st \<le> st_read_request_position st' \<and>
     {st_read_request_position st ..< st_read_request_position st'} \<subseteq> dom (sb_content (st_sparse_byte_buffer st)) \<and>
     st_result st' = st_result st \<and> st_read_request st' = st_read_request st \<and>
     st_intake_hole st' = st_intake_hole st \<and>
     sb_regions (st_sparse_byte_buffer st') = sb_regions (st_sparse_byte_buffer st) \<and>
     (if ended
      then st_sparse_byte_buffer st' = st_sparse_byte_buffer st \<and> st_read_hole st' = st_read_hole st \<and>
           (st_result st = kOk \<longrightarrow> st_read_request_remaining_bytes st' = 0)
      else st_result st = kOk \<and> st_read_request_remaining_bytes st' > 0 \<and>
           st_read_hole st' = Some (st_read_request_position st') \<and>
           (\<exists>k z. (k, z) \<in> set (sb_holes (st_sparse_byte_buffer st)) \<and> covers (k, z) (st_read_request_position st') \<and>
             st_sparse_byte_buffer st' = carve_hole k z (st_read_request_position st') (st_sparse_byte_buffer st))))"

lemma served_trans:
  assumes "served asset st1 rq1 r"
    and "rq_start rq1 = rq_start rq" "rq_original_bytes_to_read rq1 = rq_original_bytes_to_read rq"
      "rq_in_progress rq1 = rq_in_progress rq"
    and "st1 = st\<lparr>st_read_region := reg, st_read_request_position := st_read_request_position st + n,
       st_read_request_remaining_bytes := m\<rparr>"
    and "{st_read_request_position st ..< st_read_request_position st + n} \<subseteq> dom (sb_content (st_sparse_byte_buffer st))"
  shows "served asset st rq r"
proof -
  obtain ended st' rq' where r: "r = (ended, st', rq')" by (cases r) auto
  have "{st_read_request_position st ..< st_read_request_position st'} \<subseteq>
      {st_read_request_position st ..< st_read_request_position st + n} \<union>
      {st_read_request_position st1 ..< st_read_request_position st'}" unfolding assms(5) by auto
  moreover have "\<dots> \<subseteq> dom (sb_content (st_sparse_byte_buffer st))"
    using assms(1,6) unfolding assms(5) r served_def by simp
  ultimately show ?thesis using assms(1-4) unfolding assms(5) r served_def by auto
qed

lemma carve_hole_keys:
  assumes "sb_inv b" "(k, z) \<in> set (sb_holes b)" "covers (k, z) p"
  shows "om_keys (sb_holes (carve_hole k z p b)) = insert p (om_keys (sb_holes b))"
proof (cases "k = p")
  case True
  then show ?thesis using assms(2) by (force simp: carve_hole_def)
next
  case False
  have "om_keys (sb_holes b) = insert k (fst ` (set (sb_holes b) - {(k, z)}))" using assms(2) by force
  then show ?thesis unfolding carve_hole_set(2) [OF assms False] by auto
qed

lemma st_inv_carve:
  assumes "st_inv asset st" "(k, z) \<in> set (sb_holes (st_sparse_byte_buffer st))" "covers (k, z) p"
  shows "st_inv asset (st\<lparr>st_read_region := None, st_read_hole := Some p,
    st_sparse_byte_buffer := carve_hole k z p (st_sparse_byte_buffer st)\<rparr>)"
proof -
  let ?b = "st_sparse_byte_buffer st"
  from assms(1) have a: "agrees asset ?b" by (simp add: st_inv_def)
  note inv = carve_hole_inv [OF agreesD(1) [OF a] assms(2,3)]
  have "agrees asset (carve_hole k z p ?b)"
    using a inv sb_content_regions [OF inv(3)] by (simp add: agrees_def)
  with assms(1,2) carve_hole_keys [OF agreesD(1) [OF a] assms(2,3)] show ?thesis
    by (auto simp: st_inv_def)
qed

lemma serve_search:
  assumes "st_inv asset st" "rq_inv asset st rq" "st_read_request_remaining_bytes st \<noteq> 0"
  shows "FindRegionContaining (st_read_request_position st) (st_read_region st) (st_sparse_byte_buffer st) =
    Inr (if region_at (st_read_request_position st) (st_sparse_byte_buffer st) \<noteq> None
         then region_at (st_read_request_position st) (st_sparse_byte_buffer st)
         else if front_ok st then None else om_begin (sb_regions (st_sparse_byte_buffer st)))"
proof -
  let ?b = "st_sparse_byte_buffer st" and ?p = "st_read_request_position st"
  have a: "agrees asset ?b" using assms(1) by (simp add: st_inv_def)
  have "?p < sb_size ?b" using assms(2,3) agreesD(2) [OF a] by (auto simp: rq_inv_def)
  moreover have "valid_iter (st_read_region st) (sb_regions ?b)" using assms(1) by (simp add: st_inv_def)
  moreover have "(if \<forall>k \<in> om_keys (sb_regions ?b). ?p < k then om_begin (sb_regions ?b) else None) =
      (if front_ok st then None else om_begin (sb_regions ?b))"
    by (auto simp: front_ok_def om_begin_def not_less not_le split: list.splits)
  ultimately show ?thesis using FindRegionContaining_eq [OF agreesD(1) [OF a]] by simp
qed

lemma serve_loop_hit:
  assumes "st_inv asset st" "rq_inv asset st rq" "st_result st = kOk" "st_read_request_remaining_bytes st \<noteq> 0"
    and "region_at (st_read_request_position st) (st_sparse_byte_buffer st) = Some k"
  obtains n rq' where "n > 0" "n \<le> st_read_request_remaining_bytes st"
    "serve_loop st rq = serve_loop (st\<lparr>st_read_region := Some k,
       st_read_request_position := st_read_request_position st + n,
       st_read_request_remaining_bytes := st_read_request_remaining_bytes st - n\<rparr>) rq'"
    "rq_inv asset (st\<lparr>st_read_region := Some k, st_read_request_position := st_read_request_position st + n,
       st_read_request_remaining_bytes := st_read_request_remaining_bytes st - n\<rparr>) rq'"
    "st_inv asset (st\<lparr>st_read_region := Some k, st_read_request_position := st_read_request_position st + n,
       st_read_request_remaining_bytes := st_read_request_remaining_bytes st - n\<rparr>)"
    "rq_start rq' = rq_start rq" "rq_original_bytes_to_read rq' = rq_original_bytes_to_read rq"
    "rq_in_progress rq' = rq_in_progress rq"
    "{st_read_request_position st ..< st_read_request_position st + n} \<subseteq> dom (sb_content (st_sparse_byte_buffer st))"
proof -
  let ?b = "st_sparse_byte_buffer st" and ?p = "st_read_request_position st"
  have a: "agrees asset ?b" using assms(1) by (simp add: st_inv_def)
  obtain d where d: "(k, d) \<in> set (sb_regions ?b)" "covers (k, length d) ?p"
    using region_at_SomeD [OF assms(5)] .
  then have c: "k \<le> ?p" "?p < k + length d" by (auto simp: covers_def)
  define n where "n = (if k + length d - ?p > st_read_request_remaining_bytes st
    then st_read_request_remaining_bytes st else k + length d - ?p)"
  have n: "n > 0" "n \<le> k + length d - ?p" "n \<le> st_read_request_remaining_bytes st"
    using c assms(4) by (auto simp: n_def)
  note reg = region_is_asset [OF a d(1)]
  obtain rq' where rq': "CopyFrom (drop (?p - k) d) n rq = Inr rq'"
    "rq_inv asset (st\<lparr>st_read_region := Some k, st_read_request_position := ?p + n,
       st_read_request_remaining_bytes := st_read_request_remaining_bytes st - n\<rparr>) rq'"
    "rq_start rq' = rq_start rq" "rq_original_bytes_to_read rq' = rq_original_bytes_to_read rq"
    "rq_in_progress rq' = rq_in_progress rq"
    using CopyFrom_inv [OF assms(2) c(1) reg n(2,3), of "Some k"] .
  have "om_deref (Some k) (sb_regions ?b) = Inr (k, d)"
    by (rule om_deref_in [OF sb_invD(2) [OF agreesD(1) [OF a]] d(1)])
  then have "serve_loop st rq = serve_loop (st\<lparr>st_read_region := Some k, st_read_request_position := ?p + n,
       st_read_request_remaining_bytes := st_read_request_remaining_bytes st - n\<rparr>) rq'"
    using assms(3,4,5) serve_search [OF assms(1,2,4)] c n(1) rq'(1)
    by (subst serve_loop.simps) (simp add: Let_def n_def [symmetric])
  moreover have "st_inv asset (st\<lparr>st_read_region := Some k, st_read_request_position := ?p + n,
       st_read_request_remaining_bytes := st_read_request_remaining_bytes st - n\<rparr>)"
    using assms(1) d(1) by (force simp: st_inv_def)
  moreover have "i \<in> dom (sb_content ?b)" if "i \<in> {?p ..< ?p + n}" for i
  proof -
    have "covers (k, length d) i" using that c n(2) by (auto simp: covers_def)
    from sb_content_in [OF agreesD(1) [OF a] d(1) this] show ?thesis by blast
  qed
  ultimately show ?thesis using that n rq' by blast
qed

lemma serve_loop_miss:
  assumes "st_inv asset st" "rq_inv asset st rq" "st_result st = kOk" "st_read_request_remaining_bytes st \<noteq> 0"
    and "region_at (st_read_request_position st) (st_sparse_byte_buffer st) = None" "front_ok st"
  shows "\<exists>st'. serve_loop st rq = Inr (False, st', rq) \<and> served asset st rq (False, st', rq)"
proof -
  let ?b = "st_sparse_byte_buffer st" and ?p = "st_read_request_position st"
  have a: "agrees asset ?b" using assms(1) by (simp add: st_inv_def)
  note inv = agreesD(1) [OF a]
  have "?p < sb_size ?b" using assms(2,4) agreesD(2) [OF a] by (auto simp: rq_inv_def)
  then obtain k z where kz: "(k, z) \<in> set (sb_holes ?b)" "covers (k, z) ?p"
    using unfilled_in_hole [OF inv _ assms(5)] by blast
  have hint: "valid_iter (st_intake_hole st) (sb_holes ?b)" using assms(1) by (simp add: st_inv_def)
  have "serve_loop st rq = Inr (False, st\<lparr>st_read_region := None, st_read_hole := Some ?p,
      st_sparse_byte_buffer := carve_hole k z ?p ?b\<rparr>, rq)"
    using assms(3-6) serve_search [OF assms(1,2,4)] FindOrCreateHole_eq [OF inv kz hint]
    by (subst serve_loop.simps) simp
  then show ?thesis using st_inv_carve [OF assms(1) kz] assms(2,3,4) kz carve_hole_inv(3) [OF inv kz]
    by (auto simp: served_def rq_inv_def)
qed

lemma serve_loop_lost:
  assumes "st_inv asset st" "rq_inv asset st rq" "st_result st = kOk" "st_read_request_remaining_bytes st \<noteq> 0"
    and "region_at (st_read_request_position st) (st_sparse_byte_buffer st) = None" "\<not> front_ok st"
  shows "serve_loop st rq = Inl Dcheck_failed"
proof -
  let ?b = "st_sparse_byte_buffer st" and ?p = "st_read_request_position st"
  have inv: "sb_inv ?b" using assms(1) by (simp add: st_inv_def agrees_def)
  note wf = sb_invD(2) [OF inv]
  from assms(6) obtain k where k: "om_begin (sb_regions ?b) = Some k"
    by (cases "om_begin (sb_regions ?b)") (auto simp: front_ok_def)
  from om_begin_SomeD [OF wf k] obtain d where d: "(k, d) \<in> set (sb_regions ?b)" by auto
  with assms(6) have "\<not> k \<le> ?p" by (force simp: front_ok_def)
  then show ?thesis using assms(3-6) serve_search [OF assms(1,2,4)] k om_deref_in [OF wf d]
    by (subst serve_loop.simps) simp
qed

lemma serve_loop_served:
  assumes "st_inv asset st" "rq_inv asset st rq"
  shows "case serve_loop st rq of Inl e \<Rightarrow> st_result st = kOk \<and> \<not> front_ok st | Inr r \<Rightarrow> served asset st rq r"
  using assms
proof (induction "st_read_request_remaining_bytes st" arbitrary: st rq rule: less_induct)
  case less
  let ?p = "st_read_request_position st"
  let ?next = "\<lambda>k n. st\<lparr>st_read_region := Some k, st_read_request_position := ?p + n,
    st_read_request_remaining_bytes := st_read_request_remaining_bytes st - n\<rparr>"
  show ?case
  proof (cases "st_result st = kOk \<and> st_read_request_remaining_bytes st \<noteq> 0")
    case False
    then have "serve_loop st rq = Inr (True, st, rq)" by (subst serve_loop.simps) auto
    with False less.prems show ?thesis by (auto simp: served_def)
  next
    case True
    then have t: "st_result st = kOk" "st_read_request_remaining_bytes st \<noteq> 0" by auto
    show ?thesis
    proof (cases "region_at ?p (st_sparse_byte_buffer st)")
      case None
      show ?thesis
      proof (cases "front_ok st")
        case True
        from serve_loop_miss [OF less.prems t None True] obtain st'
          where "serve_loop st rq = Inr (False, st', rq)" "served asset st rq (False, st', rq)" by blast
        then show ?thesis by simp
      next
        case False
        with serve_loop_lost [OF less.prems t None False] t show ?thesis by simp
      qed
    next
      case (Some k)
      obtain n rq' where n: "n > 0" "n \<le> st_read_request_remaining_bytes st"
        and eq: "serve_loop st rq = serve_loop (?next k n) rq'"
        and rq': "rq_inv asset (?next k n) rq'" and st': "st_inv asset (?next k n)"
        and keep: "rq_start rq' = rq_start rq" "rq_original_bytes_to_read rq' = rq_original_bytes_to_read rq"
          "rq_in_progress rq' = rq_in_progress rq"
        and range: "{?p ..< ?p + n} \<subseteq> dom (sb_content (st_sparse_byte_buffer st))"
        using serve_loop_hit [OF less.prems t Some] .
      have "st_read_request_remaining_bytes (?next k n) < st_read_request_remaining_bytes st" using n t by simp
      note ih = less.hyps [OF this st' rq']
      have front: "front_ok (?next k n)" if "front_ok st" using that by (auto simp: front_ok_def intro: trans_le_add1)
      show ?thesis
      proof (cases "serve_loop (?next k n) rq'")
        case (Inl e)
        with ih front t eq show ?thesis by auto
      next
        case (Inr r)
        with ih have "served asset (?next k n) rq' r" by simp
        from served_trans [OF this keep refl range] show ?thesis using eq Inr by simp
      qed
    qed
  qed
qed

text \<open>A completed read is good when it reports an error or delivers exactly the bytes of the asset.\<close>

definition good_completion :: "u8 list \<Rightarrow> nat \<times> (Result \<times> nat) \<times> u8 list \<Rightarrow> bool" where
  "good_completion asset c = (case c of (position, (result, n), memory) \<Rightarrow>
     result = kOk \<longrightarrow> n = min (length memory) (length asset - position) \<and>
       take n memory = take n (drop position asset))"

abbreviation completion :: "Result \<times> nat \<Rightarrow> ReadAtRequest \<Rightarrow> nat \<times> (Result \<times> nat) \<times> u8 list" where
  "completion c rq \<equiv> (rq_position rq - snd c, c, rq_memory rq)"

lemma st_inv_read_request [simp]: "st_inv asset (st\<lparr>st_read_request := x\<rparr>) = st_inv asset st"
  by (simp add: st_inv_def)

text \<open>A request that waits for bytes the store does not have.\<close>

definition waiting :: "u8 list \<Rightarrow> Store \<Rightarrow> ReadAtRequest \<Rightarrow> bool" where
  "waiting asset st rq \<longleftrightarrow> rq_inv asset st rq \<and> st_result st = kOk \<and> st_read_request_remaining_bytes st > 0 \<and>
     st_read_request_position st \<notin> dom (sb_content (st_sparse_byte_buffer st))"

lemma hole_not_content:
  assumes "sb_inv b" "(k, z) \<in> set (sb_holes b)" "covers (k, z) p"
  shows "p \<notin> dom (sb_content b)"
proof
  assume "p \<in> dom (sb_content b)"
  then obtain x where "sb_content b p = Some x" by blast
  then obtain k' d where d: "(k', d) \<in> set (sb_regions b)" "covers (k', length d) p"
    using sb_content_Some_iff [OF assms(1)] by blast
  have "(k', length d) = (k, z)"
    using tilingD(3) [OF sb_invD(3) [OF assms(1)], of "(k', length d)" "(k, z)" p] sb_regs_in [OF d(1)] d(2) assms(2,3)
    by simp
  with sb_regs_in [OF d(1)] assms(2) sb_invD(4) [OF assms(1)] show False by auto
qed

definition serve_outcome ::
  "u8 list \<Rightarrow> Store \<Rightarrow> ReadAtRequest \<Rightarrow> (Result \<times> nat) option \<times> Store \<times> ReadAtRequest \<Rightarrow> bool" where
  "serve_outcome asset st rq r = (case r of (call, st', rq') \<Rightarrow>
     rq_position rq' - (case call of None \<Rightarrow> rq_buffer rq' | Some c \<Rightarrow> snd c) = rq_start rq \<and>
     length (rq_memory rq') = rq_original_bytes_to_read rq \<and>
     st_inv asset st' \<and> st_result st' = st_result st \<and> st_intake_hole st' = st_intake_hole st \<and>
     sb_regions (st_sparse_byte_buffer st') = sb_regions (st_sparse_byte_buffer st) \<and>
     (case call of
        None \<Rightarrow> st_read_request st' \<and> rq_in_progress rq' \<and> waiting asset st' rq' \<and>
          st_read_request_position st \<le> st_read_request_position st' \<and>
          {st_read_request_position st ..< st_read_request_position st'} \<subseteq> dom (sb_content (st_sparse_byte_buffer st)) \<and>
          st_read_hole st' = Some (st_read_request_position st') \<and>
          (\<exists>k z. (k, z) \<in> set (sb_holes (st_sparse_byte_buffer st)) \<and> covers (k, z) (st_read_request_position st') \<and>
             st_sparse_byte_buffer st' = carve_hole k z (st_read_request_position st') (st_sparse_byte_buffer st))
      | Some c \<Rightarrow> \<not> st_read_request st' \<and> \<not> rq_in_progress rq' \<and> fst c = st_result st \<and>
          st_sparse_byte_buffer st' = st_sparse_byte_buffer st \<and>
          st_read_hole st' = st_read_hole st \<and>
          (st_result st = kOk \<and> st_read_request_remaining_bytes st > 0 \<longrightarrow>
             st_read_request_position st \<in> dom (sb_content (st_sparse_byte_buffer st))) \<and>
          good_completion asset (completion c rq')))"

lemma served_completion:
  assumes "served asset st rq (True, st', rq')"
  shows "good_completion asset (completion (st_result st', rq_buffer rq') rq')"
proof -
  from assms have r: "rq_inv asset st' rq'" and z: "st_result st' = kOk \<longrightarrow> st_read_request_remaining_bytes st' = 0"
    by (auto simp: served_def)
  note i = r [unfolded rq_inv_def]
  have start: "rq_position rq' - rq_buffer rq' = rq_start rq'" by (simp add: rq_start_def)
  have "rq_buffer rq' = min (length (rq_memory rq')) (length asset - rq_start rq')" if "st_result st' = kOk"
  proof -
    have p: "rq_start rq' + rq_buffer rq' = st_read_request_position st'" using i by (simp add: rq_start_def)
    have "min (rq_remaining_bytes_to_read rq') (length asset - st_read_request_position st') = 0"
      using i z that by simp
    then have "rq_remaining_bytes_to_read rq' = 0 \<or> length asset \<le> st_read_request_position st'"
      by (simp add: min_def split: if_splits)
    with i p show ?thesis by (auto simp: min_def)
  qed
  with i show ?thesis unfolding good_completion_def prod.case snd_conv start by blast
qed

lemma served_moves:
  assumes "served asset st rq (True, st', rq')" "rq_inv asset st rq" "st_result st = kOk"
    "0 < st_read_request_remaining_bytes st"
  shows "st_read_request_position st \<in> dom (sb_content (st_sparse_byte_buffer st))"
proof -
  from assms(1,3) have s: "rq_inv asset st' rq'" "rq_start rq' = rq_start rq"
    "rq_original_bytes_to_read rq' = rq_original_bytes_to_read rq" "st_read_request_remaining_bytes st' = 0"
    "st_read_request_position st \<le> st_read_request_position st'"
    "{st_read_request_position st ..< st_read_request_position st'} \<subseteq> dom (sb_content (st_sparse_byte_buffer st))"
    by (auto simp: served_def)
  have "st_read_request_position st \<noteq> st_read_request_position st'"
  proof
    assume e: "st_read_request_position st = st_read_request_position st'"
    have "rq_start rq' + rq_buffer rq' = st_read_request_position st'"
      "rq_start rq + rq_buffer rq = st_read_request_position st"
      using s(1) assms(2) by (auto simp: rq_inv_def rq_start_def)
    then have "rq_buffer rq' = rq_buffer rq" using s(2) e by simp
    then have "rq_remaining_bytes_to_read rq' = rq_remaining_bytes_to_read rq"
      using s(1,3) assms(2) by (simp add: rq_inv_def)
    with e s(1,4) assms(2,4) show False by (simp add: rq_inv_def)
  qed
  with s(5) have "st_read_request_position st \<in> {st_read_request_position st ..< st_read_request_position st'}" by simp
  with s(6) show ?thesis by blast
qed

lemma ServeRequest_outcome:
  assumes "st_inv asset st" "rq_inv asset st rq" "st_read_request st" "rq_in_progress rq"
  shows "case ServeRequest st rq of Inr r \<Rightarrow> serve_outcome asset st rq r
    | Inl e \<Rightarrow> \<not> (st_result st = kOk \<and> front_ok st \<and> 0 < rq_buffer rq + st_read_request_remaining_bytes st)"
proof (cases "serve_loop st rq")
  case (Inl e)
  with serve_loop_served [OF assms(1,2)] show ?thesis by (simp add: ServeRequest_def)
next
  case (Inr r)
  obtain ended st' rq' where r: "r = (ended, st', rq')" by (cases r) auto
  from serve_loop_served [OF assms(1,2)] Inr r have s: "served asset st rq (ended, st', rq')" by simp
  then have i: "st_inv asset st'" "rq_inv asset st' rq'" by (auto simp: served_def)
  show ?thesis
  proof (cases ended)
    case False
    from s False obtain k z where kz: "(k, z) \<in> set (sb_holes (st_sparse_byte_buffer st))"
      "covers (k, z) (st_read_request_position st')"
      "st_sparse_byte_buffer st' = carve_hole k z (st_read_request_position st') (st_sparse_byte_buffer st)"
      by (auto simp: served_def)
    have "sb_inv (st_sparse_byte_buffer st)" using assms(1) by (simp add: st_inv_def agrees_def)
    then have "st_read_request_position st' \<notin> dom (sb_content (st_sparse_byte_buffer st'))"
      using hole_not_content [of "st_sparse_byte_buffer st"] kz carve_hole_inv(3) sb_content_regions by metis
    moreover have "rq_position rq' - rq_buffer rq' = rq_start rq" "length (rq_memory rq') = rq_original_bytes_to_read rq"
      using s by (auto simp: served_def rq_start_def rq_inv_def)
    ultimately have "serve_outcome asset st rq (None, st', rq')"
      using s False assms(3,4) by (simp add: served_def serve_outcome_def waiting_def)
    with False Inr r show ?thesis by (simp add: ServeRequest_def)
  next
    case True
    let ?n = "rq_original_bytes_to_read rq' - rq_remaining_bytes_to_read rq'"
    have n: "?n = rq_buffer rq'" using i(2) by (auto simp: rq_inv_def)
    show ?thesis
    proof (cases "Complete (st_result st') rq'")
      case c: (Inr cr)
      then have cr: "cr = ((st_result st', rq_buffer rq'), rq'\<lparr>rq_in_progress := False\<rparr>)"
        using n by (auto simp: Complete_def Let_def)
      have "rq_position rq' - rq_buffer rq' = rq_start rq" "length (rq_memory rq') = rq_original_bytes_to_read rq"
        using s by (auto simp: served_def rq_start_def rq_inv_def)
      then have "serve_outcome asset st rq (Some (st_result st', rq_buffer rq'), st'\<lparr>st_read_request := False\<rparr>,
          rq'\<lparr>rq_in_progress := False\<rparr>)"
        using s True served_completion [of asset st rq st' rq'] served_moves [of asset st rq st' rq'] assms(2)
        unfolding serve_outcome_def by (simp add: served_def)
      with True Inr r c cr show ?thesis by (simp add: ServeRequest_def)
    next
      case c: (Inl e)
      have le: "rq_remaining_bytes_to_read rq' \<le> rq_original_bytes_to_read rq'" using i(2) by (auto simp: rq_inv_def)
      have same: "st_result st' = st_result st" using s by (simp add: served_def)
      have "\<not> (st_result st = kOk \<and> 0 < rq_buffer rq + st_read_request_remaining_bytes st)"
      proof
        assume a: "st_result st = kOk \<and> 0 < rq_buffer rq + st_read_request_remaining_bytes st"
        have keep: "rq_start rq' = rq_start rq" "rq_original_bytes_to_read rq' = rq_original_bytes_to_read rq"
          "st_read_request_position st \<le> st_read_request_position st'" "st_read_request_remaining_bytes st' = 0"
          using s True a by (auto simp: served_def)
        have "rq_buffer rq' = 0" using c le n same a by (auto simp: Complete_def Let_def dcheck_def split: if_splits)
        with keep i(2) assms(2) a show False unfolding rq_inv_def rq_start_def by (auto simp: min_def split: if_splits)
      qed
      with True Inr r c same show ?thesis by (auto simp: ServeRequest_def)
    qed
  qed
qed

section \<open>The operations of the store\<close>

definition sr_inv :: "u8 list \<Rightarrow> Store \<Rightarrow> ReadAtRequest \<Rightarrow> bool" where
  "sr_inv asset st rq \<longleftrightarrow> st_inv asset st \<and> rq_in_progress rq = st_read_request st \<and>
     (st_read_request st \<longrightarrow> waiting asset st rq)"

definition sr_post :: "u8 list \<Rightarrow> (Result \<times> nat) option \<times> Store \<times> ReadAtRequest \<Rightarrow> bool" where
  "sr_post asset r = (case r of (call, st, rq) \<Rightarrow> sr_inv asset st rq \<and>
     (\<forall>c. call = Some c \<longrightarrow> good_completion asset (completion c rq)))"

definition fresh :: "ReadAtRequest \<Rightarrow> bool" where
  "fresh rq \<longleftrightarrow> rq_in_progress rq \<and> rq_buffer rq = 0 \<and> length (rq_memory rq) = rq_original_bytes_to_read rq \<and>
     rq_remaining_bytes_to_read rq = rq_original_bytes_to_read rq \<and> 0 < rq_original_bytes_to_read rq"

lemma serve_outcome_post: "serve_outcome asset st rq r \<Longrightarrow> sr_post asset r"
  by (auto simp: serve_outcome_def sr_post_def sr_inv_def split: option.splits)

lemma st_invD:
  assumes "st_inv asset st"
  shows "agrees asset (st_sparse_byte_buffer st)" "sb_inv (st_sparse_byte_buffer st)" "st_size st = length asset"
    "valid_iter (st_intake_hole st) (sb_holes (st_sparse_byte_buffer st))"
    "valid_iter (st_read_hole st) (sb_holes (st_sparse_byte_buffer st))"
    "valid_iter (st_read_region st) (sb_regions (st_sparse_byte_buffer st))"
  using assms by (auto simp: st_inv_def agrees_def)

lemma ServeRequest_post:
  assumes "ServeRequest st rq = Inr r" "st_inv asset st" "rq_inv asset st rq" "st_read_request st" "rq_in_progress rq"
  shows "serve_outcome asset st rq r"
  using ServeRequest_outcome [OF assms(2-5)] assms(1) by simp

text \<open>\<^verbatim>\<open>SetReadAtRequest\<close> puts the store into this state before it serves.\<close>

definition with_request :: "ReadAtRequest \<Rightarrow> Store \<Rightarrow> Store" where
  "with_request rq st = st\<lparr>st_read_request := True, st_read_request_position := rq_position rq,
     st_read_request_remaining_bytes :=
       (if rq_position rq + rq_remaining_bytes_to_read rq > st_size st then st_size st - rq_position rq
        else rq_remaining_bytes_to_read rq)\<rparr>"

lemma SetReadAtRequest_eq:
  "SetReadAtRequest st rq = dcheck (\<not> st_read_request st) (dcheck (rq_position rq < st_size st)
     (dcheck (rq_remaining_bytes_to_read rq > 0) (ServeRequest (with_request rq st) rq)))"
  by (simp add: SetReadAtRequest_def with_request_def Let_def)

lemma with_request_inv:
  assumes "st_inv asset st" "fresh rq" "rq_position rq < length asset"
  shows "st_inv asset (with_request rq st)" "rq_inv asset (with_request rq st) rq"
    "0 < st_read_request_remaining_bytes (with_request rq st)"
  using assms st_invD(3) [OF assms(1)]
  by (auto simp: with_request_def st_inv_def rq_inv_def fresh_def rq_start_def)

lemma SetReadAtRequest_post:
  assumes "SetReadAtRequest st rq = Inr r" "st_inv asset st" "fresh rq"
  shows "sr_post asset r"
proof -
  from assms(1) have s: "ServeRequest (with_request rq st) rq = Inr r" "rq_position rq < length asset"
    using st_invD(3) [OF assms(2)] by (auto simp: SetReadAtRequest_eq)
  from ServeRequest_post [OF s(1) with_request_inv(1,2) [OF assms(2,3) s(2)]] assms(3)
  have "serve_outcome asset (with_request rq st) rq r" by (simp add: with_request_def fresh_def)
  then show ?thesis by (rule serve_outcome_post)
qed

text \<open>The store after a block of the asset has been filled in, before the request is served again.\<close>

definition uncovered :: "nat \<Rightarrow> nat \<Rightarrow> nat option \<Rightarrow> nat option" where
  "uncovered p n h = (case h of None \<Rightarrow> None | Some q \<Rightarrow> if p \<le> q \<and> q < p + n then None else Some q)"

definition with_bytes :: "nat \<Rightarrow> nat \<Rightarrow> u8 list \<Rightarrow> Store \<Rightarrow> Store" where
  "with_bytes p z buffer st = (let b = filled p z buffer (st_sparse_byte_buffer st) in
     st\<lparr>st_read_hole := uncovered p (length buffer) (st_read_hole st),
        st_intake_hole := hole_after (p + length buffer) (om_keys (sb_holes b)), st_sparse_byte_buffer := b\<rparr>)"

lemma PutIntakeBuffer_eq:
  assumes "st_inv asset st" "st_intake_hole st = Some p" "(p, z) \<in> set (sb_holes (st_sparse_byte_buffer st))"
    "buffer \<noteq> []" "length buffer \<le> z"
  shows "PutIntakeBuffer p buffer st rq =
    (if st_read_request st then ServeRequest (with_bytes p z buffer st) rq else Inr (None, with_bytes p z buffer st, rq))"
proof -
  let ?b = "st_sparse_byte_buffer st"
  note inv = st_invD(2) [OF assms(1)]
  note d = om_deref_in [OF sb_invD(1) [OF inv] assms(3)]
  note f = Fill_returns [OF inv assms(3,4,5)]
  have u: "(if case st_read_hole st of None \<Rightarrow> False | Some h \<Rightarrow> p \<le> h \<and> h < p + length buffer
       then st\<lparr>st_read_hole := None\<rparr> else st) = st\<lparr>st_read_hole := uncovered p (length buffer) (st_read_hole st)\<rparr>"
    by (cases st) (auto simp: uncovered_def split: option.splits)
  show ?thesis using assms(2,4,5) d f
    unfolding PutIntakeBuffer_def Let_def by (simp add: u with_bytes_def Let_def)
qed

lemma PutIntakeBuffer_InrD:
  assumes "PutIntakeBuffer p buffer st rq = Inr r" "st_inv asset st"
  obtains z where "st_intake_hole st = Some p" "(p, z) \<in> set (sb_holes (st_sparse_byte_buffer st))"
    "buffer \<noteq> []" "length buffer \<le> z"
proof -
  note wf = sb_invD(1) [OF st_invD(2) [OF assms(2)]]
  from assms(1) obtain k where k: "st_intake_hole st = Some k" by (auto simp: PutIntakeBuffer_def)
  with st_invD(4) [OF assms(2)] obtain z where z: "(k, z) \<in> set (sb_holes (st_sparse_byte_buffer st))" by auto
  from assms(1) om_deref_in [OF wf z] k have "p = k" "buffer \<noteq> []" "length buffer \<le> z"
    by (auto simp: PutIntakeBuffer_def)
  with that k z show ?thesis by simp
qed

lemma fill_holes_keys:
  assumes "sb_inv b" "(p, z) \<in> set (sb_holes b)" "0 < n" "q \<in> om_keys (sb_holes b)" "q \<noteq> p"
  shows "q \<in> om_keys (fill_holes p z n (sb_holes b))"
proof -
  from assms(4) obtain w where "(q, w) \<in> set (sb_holes b)" by auto
  with assms(5) have "(q, w) \<in> set (fill_holes p z n (sb_holes b))"
    using fill_holes_set(2) [OF sb_invD(1) [OF assms(1)] assms(2,3) hole_gap [OF assms(1,2,3)]] by auto
  then show ?thesis by force
qed

lemma with_bytes_inv:
  assumes "st_inv asset st" "(p, z) \<in> set (sb_holes (st_sparse_byte_buffer st))" "buffer \<noteq> []" "length buffer \<le> z"
    "buffer = take (length buffer) (drop p asset)"
  shows "st_inv asset (with_bytes p z buffer st)"
proof -
  let ?b = "st_sparse_byte_buffer st" and ?n = "length buffer"
  let ?b' = "filled p z buffer ?b"
  note inv = st_invD(2) [OF assms(1)]
  have n: "0 < ?n" using assms(3) by simp
  have "x = asset ! q" if "sb_content ?b' q = Some x" for q x
  proof (cases "p \<le> q \<and> q < p + ?n")
    case True
    with that Fill_content [OF inv assms(2-4), of q] have x: "x = buffer ! (q - p)" by simp
    have "?n \<le> length asset - p" using arg_cong [OF assms(5), of length] by simp
    then have "p \<le> length asset" using n by linarith
    moreover have "buffer ! (q - p) = take ?n (drop p asset) ! (q - p)" using assms(5) by simp
    ultimately show ?thesis using x True by (simp add: less_diff_conv2)
  next
    case False
    with that Fill_content [OF inv assms(2-4), of q] agreesD(3) [OF st_invD(1) [OF assms(1)]] show ?thesis
      by (simp split: if_splits)
  qed
  then have a: "agrees asset ?b'"
    using Fill_inv [OF inv assms(2-4)] agreesD(2) [OF st_invD(1) [OF assms(1)]] by (simp add: agrees_def)
  have i: "valid_iter (hole_after (p + ?n) (om_keys (sb_holes ?b'))) (sb_holes ?b')"
    by (rule hole_after_in) simp
  have r: "valid_iter (uncovered p ?n (st_read_hole st)) (sb_holes ?b')"
  proof (cases "uncovered p ?n (st_read_hole st)")
    case (Some q)
    then have "st_read_hole st = Some q" "q \<noteq> p"
      using n by (auto simp: uncovered_def split: option.splits if_splits)
    with fill_holes_keys [OF inv assms(2) n, of q] st_invD(5) [OF assms(1)] Some show ?thesis by simp
  qed simp
  have g: "valid_iter (st_read_region st) (sb_regions ?b')"
    using st_invD(6) [OF assms(1)] om_insert_set [OF sb_invD(2) [OF inv] hole_key_not_region [OF inv assms(2)]] by auto
  have "hole_after (p + ?n) (om_keys (sb_holes ?b')) = None \<longrightarrow> sb_holes ?b' = []"
    by (auto simp: hole_after_def)
  with a i r g st_invD(3) [OF assms(1)] show ?thesis unfolding st_inv_def with_bytes_def Let_def by simp
qed

lemma with_bytes_keeps:
  "st_read_request (with_bytes p z buffer st) = st_read_request st"
  "st_result (with_bytes p z buffer st) = st_result st"
  "st_read_request_position (with_bytes p z buffer st) = st_read_request_position st"
  "st_read_request_remaining_bytes (with_bytes p z buffer st) = st_read_request_remaining_bytes st"
  "rq_inv asset (with_bytes p z buffer st) rq = rq_inv asset st rq"
  "st_sparse_byte_buffer (with_bytes p z buffer st) = filled p z buffer (st_sparse_byte_buffer st)"
  by (simp_all add: with_bytes_def rq_inv_def Let_def)

lemma PutIntakeBuffer_post:
  assumes "PutIntakeBuffer p buffer st rq = Inr r" "sr_inv asset st rq" "buffer = take (length buffer) (drop p asset)"
  shows "sr_post asset r"
proof -
  from assms(2) have st: "st_inv asset st" by (simp add: sr_inv_def)
  obtain z where z: "st_intake_hole st = Some p" "(p, z) \<in> set (sb_holes (st_sparse_byte_buffer st))"
    "buffer \<noteq> []" "length buffer \<le> z" using PutIntakeBuffer_InrD [OF assms(1) st] .
  note inv = with_bytes_inv [OF st z(2-4) assms(3)]
  show ?thesis
  proof (cases "st_read_request st")
    case True
    with assms(1) PutIntakeBuffer_eq [OF st z] have "ServeRequest (with_bytes p z buffer st) rq = Inr r" by simp
    from ServeRequest_post [OF this inv] True assms(2) have "serve_outcome asset (with_bytes p z buffer st) rq r"
      by (simp add: with_bytes_keeps sr_inv_def waiting_def)
    then show ?thesis by (rule serve_outcome_post)
  next
    case False
    with assms(1) PutIntakeBuffer_eq [OF st z] have "r = (None, with_bytes p z buffer st, rq)" by simp
    with inv False assms(2) show ?thesis by (simp add: sr_post_def sr_inv_def with_bytes_keeps)
  qed
qed

lemma ReportIntakeError_post:
  assumes "ReportIntakeError result st rq = Inr r" "sr_inv asset st rq"
  shows "sr_post asset r"
proof -
  let ?st = "st\<lparr>st_result := result\<rparr>"
  from assms(2) have st: "st_inv asset ?st" by (simp add: sr_inv_def st_inv_def)
  show ?thesis
  proof (cases "st_read_request st")
    case True
    with assms(1) have "ServeRequest ?st rq = Inr r" by (simp add: ReportIntakeError_def)
    from ServeRequest_post [OF this st] True assms(2) have "serve_outcome asset ?st rq r"
      by (simp add: sr_inv_def waiting_def rq_inv_def)
    then show ?thesis by (rule serve_outcome_post)
  next
    case False
    with assms(1) have "r = (None, ?st, rq)" by (simp add: ReportIntakeError_def)
    with st False assms(2) show ?thesis by (simp add: sr_post_def sr_inv_def)
  qed
qed

lemma GetIntakePositionAndSize_post:
  assumes "GetIntakePositionAndSize st = Inr (w, st')" "sr_inv asset st rq"
  shows "sr_inv asset st' rq"
proof (cases "st_read_hole st")
  case None
  with assms(1) have "st' = st"
    by (cases "st_intake_hole st") (auto simp: GetIntakePositionAndSize_def rbind_eq_Inr_iff)
  with assms(2) show ?thesis by simp
next
  case (Some h)
  with assms(1) have "st' = st\<lparr>st_intake_hole := Some h, st_read_hole := None\<rparr>"
    by (auto simp: GetIntakePositionAndSize_def rbind_eq_Inr_iff)
  moreover have "st_inv asset (st\<lparr>st_intake_hole := Some h, st_read_hole := None\<rparr>)"
    using assms(2) Some by (simp add: sr_inv_def st_inv_def)
  moreover have "waiting asset (st\<lparr>st_intake_hole := Some h, st_read_hole := None\<rparr>) rq = waiting asset st rq"
    by (simp add: waiting_def rq_inv_def)
  ultimately show ?thesis using assms(2) by (simp add: sr_inv_def)
qed

section \<open>Runs of the cache\<close>

definition ReaderCache_new :: ReaderCache where
  "ReaderCache_new = \<lparr>
     ca_read_at_request = \<lparr>rq_in_progress = False, rq_position = 0, rq_memory = [], rq_buffer = 0,
       rq_original_bytes_to_read = 0, rq_remaining_bytes_to_read = 0\<rparr>,
     ca_store = \<lparr>st_size = 2 ^ 64 - 1, st_can_seek = False, st_result = kOk,
       st_sparse_byte_buffer = SparseByteBuffer_new, st_intake_hole = None, st_read_hole = None,
       st_read_region = None, st_read_request = False, st_read_request_position = 0,
       st_read_request_remaining_bytes = 0\<rparr>,
     ca_intake = Not_started, ca_occurred = False, ca_consequences = [], ca_described = [], ca_completed = []\<rparr>"

text \<open>
  What can happen to a cache: the calls of a client, the callbacks of an upstream reader
  whose content is the list \<open>asset\<close>, and the intake going on. An upstream read either
  delivers all the bytes asked for or reports an error.
\<close>

datatype cache_op =
    Call_Describe
  | Call_ReadAt nat "u8 list"
  | On_Describe Result bool
  | On_Read
  | On_Read_error Result
  | Run_Continue

definition cache_step :: "u8 list \<Rightarrow> cache_op \<Rightarrow> ReaderCache \<Rightarrow> ReaderCache res" where
  "cache_step asset op s = (case op of
     Call_Describe \<Rightarrow> Describe s
   | Call_ReadAt position memory \<Rightarrow> ReadAt position memory s
   | On_Describe result can_seek \<Rightarrow>
       if ca_occurred s then Inr s else Describe_done result (length asset) can_seek s
   | On_Read \<Rightarrow> (case ca_intake s of
       Reading p n \<Rightarrow> ReadAt_done kOk n (take n (drop p asset)) p s | _ \<Rightarrow> Inr s)
   | On_Read_error result \<Rightarrow> (case ca_intake s of
       Reading p n \<Rightarrow> if result = kOk then Inr s else ReadAt_done result 0 [] p s | _ \<Rightarrow> Inr s)
   | Run_Continue \<Rightarrow> if ca_intake s = Continuing then Continue s else Inr s)"

fun cache_run :: "u8 list \<Rightarrow> cache_op list \<Rightarrow> ReaderCache \<Rightarrow> ReaderCache res" where
  "cache_run asset [] s = Inr s"
| "cache_run asset (op # ops) s = rbind (cache_step asset op s) (cache_run asset ops)"

text \<open>The invariant of every run, whatever the client does and in whatever order the callbacks arrive.\<close>

definition ca_inv :: "u8 list \<Rightarrow> ReaderCache \<Rightarrow> bool" where
  "ca_inv asset s \<longleftrightarrow> (\<forall>c \<in> set (ca_completed s). good_completion asset c) \<and>
     (if ca_occurred s
      then sr_inv asset (ca_store s) (ca_read_at_request s) \<and> ca_consequences s = []
      else ca_intake s = Not_started \<and> \<not> st_read_request (ca_store s) \<and>
           (if rq_in_progress (ca_read_at_request s)
            then fresh (ca_read_at_request s) \<and> length (filter (\<lambda>c. c = Read_consequence) (ca_consequences s)) = 1
            else Read_consequence \<notin> set (ca_consequences s)))"

lemma ReaderCache_new_inv: "ca_inv asset ReaderCache_new"
  by (simp add: ca_inv_def ReaderCache_new_def)

lemma deliver_inv:
  assumes "sr_post asset r" "ca_occurred s" "ca_consequences s = []" "\<forall>c \<in> set (ca_completed s). good_completion asset c"
  shows "ca_inv asset (deliver r s)" "ca_occurred (deliver r s)"
  using assms by (auto simp: ca_inv_def deliver_def sr_post_def split: prod.splits option.splits)

text \<open>The consequences that \<^verbatim>\<open>Occur\<close> still has to run.\<close>

definition running :: "u8 list \<Rightarrow> consequence list \<Rightarrow> ReaderCache \<Rightarrow> bool" where
  "running asset cs s \<longleftrightarrow> (\<forall>c \<in> set (ca_completed s). good_completion asset c) \<and> ca_occurred s \<and> ca_consequences s = [] \<and>
     (if Read_consequence \<in> set cs
      then st_inv asset (ca_store s) \<and> \<not> st_read_request (ca_store s) \<and> fresh (ca_read_at_request s) \<and>
           length (filter (\<lambda>c. c = Read_consequence) cs) = 1
      else sr_inv asset (ca_store s) (ca_read_at_request s))"

lemma run_read_running:
  assumes "run_consequence Read_consequence s = Inr s'" "running asset (Read_consequence # cs) s"
  shows "running asset cs s'"
proof -
  from assms(1) obtain r where r: "SetReadAtRequest (ca_store s) (ca_read_at_request s) = Inr r" "s' = deliver r s"
    by (auto simp: run_consequence_def rbind_eq_Inr_iff)
  have p: "sr_post asset r"
    by (rule SetReadAtRequest_post [OF r(1)]) (use assms(2) in \<open>auto simp: running_def\<close>)
  have "Read_consequence \<notin> set cs"
    using assms(2) by (auto simp: running_def filter_empty_conv)
  moreover have "\<forall>c \<in> set (ca_completed s). good_completion asset c" "ca_occurred s" "ca_consequences s = []"
    using assms(2) by (auto simp: running_def)
  ultimately show ?thesis using deliver_inv [OF p, of s] by (simp add: running_def ca_inv_def r(2) deliver_def split: prod.splits)
qed

lemma run_consequences_running:
  "run_consequences cs s = Inr s' \<Longrightarrow> running asset cs s \<Longrightarrow> running asset [] s'"
proof (induction cs arbitrary: s)
  case (Cons c cs)
  then obtain s1 where s1: "run_consequence c s = Inr s1" "run_consequences cs s1 = Inr s'"
    by (auto simp: rbind_eq_Inr_iff)
  have "running asset cs s1"
  proof (cases c)
    case Describe_consequence
    with s1(1) have "s1 = s\<lparr>ca_described := ca_described s @ [Store_Describe (ca_store s)]\<rparr>"
      by (simp add: run_consequence_def)
    with Cons.prems(2) Describe_consequence show ?thesis by (auto simp: running_def split: if_splits)
  next
    case Read_consequence
    with s1(1) Cons.prems(2) show ?thesis using run_read_running by simp
  qed
  with Cons.IH s1(2) show ?case by blast
qed simp

lemma running_inv: "running asset [] s \<Longrightarrow> ca_inv asset s"
  by (simp add: running_def ca_inv_def)

lemma Store_Initialize_eq:
  assumes "0 < sz"
  shows "Store_Initialize result sz can_seek st =
    Inr (st\<lparr>st_result := result, st_size := sz, st_can_seek := can_seek,
      st_sparse_byte_buffer := Initialize sz (st_sparse_byte_buffer st),
      st_intake_hole := Some 0, st_read_hole := None, st_read_region := None\<rparr>)"
proof -
  have "FindHoleContaining 0 (Initialize sz (st_sparse_byte_buffer st)) = Inr (Some 0)"
    by (rule FindHoleContaining_eq [OF Initialize_inv [OF assms], of 0 sz])
      (use assms in \<open>simp_all add: Initialize_def covers_def\<close>)
  then show ?thesis by (simp add: Store_Initialize_def Let_def)
qed

lemma initialized_inv:
  assumes "asset \<noteq> []"
  shows "st_inv asset (st\<lparr>st_result := result, st_size := length asset, st_can_seek := can_seek,
      st_sparse_byte_buffer := Initialize (length asset) (st_sparse_byte_buffer st),
      st_intake_hole := Some 0, st_read_hole := None, st_read_region := None\<rparr>)"
  using assms Initialize_inv [of "length asset" "st_sparse_byte_buffer st"]
  by (simp add: st_inv_def agrees_def Initialize_def sb_content_def)

lemma Store_Initialize_empty: "Store_Initialize result 0 can_seek st = Inl Dcheck_failed"
  by (simp add: Store_Initialize_def FindHoleContaining_def Initialize_def)

lemma once_in: "length (filter (\<lambda>c. c = x) xs) = Suc 0 \<Longrightarrow> x \<in> set xs"
  by (induction xs) (auto split: if_splits)

lemma Describe_done_inv:
  assumes "Describe_done result (length asset) can_seek s = Inr s'" "ca_inv asset s" "\<not> ca_occurred s"
  shows "ca_inv asset s'"
proof -
  have ne: "asset \<noteq> []" using assms(1) by (auto simp: Describe_done_def Store_Initialize_empty)
  let ?st = "(ca_store s)\<lparr>st_result := result, st_size := length asset, st_can_seek := can_seek,
      st_sparse_byte_buffer := Initialize (length asset) (st_sparse_byte_buffer (ca_store s)),
      st_intake_hole := Some 0, st_read_hole := None, st_read_region := None\<rparr>"
  let ?s = "s\<lparr>ca_store := ?st, ca_occurred := True, ca_consequences := []\<rparr>"
  obtain s1 where s1: "run_consequences (ca_consequences s) ?s = Inr s1"
    "(if result = kOk then Inr (s1\<lparr>ca_intake := Continuing\<rparr>) else Inr s1) = (Inr s' :: ReaderCache res)"
  proof -
    have "rbind (run_consequences (ca_consequences s) ?s)
        (\<lambda>s. if result = kOk then Inr (s\<lparr>ca_intake := Continuing\<rparr>) else Inr s) = Inr s'"
      using assms(1,3) ne by (simp add: Describe_done_def Store_Initialize_eq Occur_def)
    then show ?thesis unfolding rbind_eq_Inr_iff using that by blast
  qed
  have "running asset (ca_consequences s) ?s"
    using assms(2,3) initialized_inv [OF ne, where st = "ca_store s" and result = result and can_seek = can_seek]
    by (auto simp: running_def ca_inv_def sr_inv_def filter_empty_conv split: if_splits dest: once_in)
  from run_consequences_running [OF s1(1) this] have "running asset [] s1" .
  then show ?thesis using s1(2) by (auto simp: running_def ca_inv_def split: if_splits)
qed

lemma When_inv_read:
  assumes "When Read_consequence s = Inr s'" "\<forall>c \<in> set (ca_completed s). good_completion asset c"
    "fresh (ca_read_at_request s)" "\<not> st_read_request (ca_store s)"
    "if ca_occurred s then st_inv asset (ca_store s) \<and> ca_consequences s = []
     else ca_intake s = Not_started \<and> Read_consequence \<notin> set (ca_consequences s)"
  shows "ca_inv asset s'"
proof (cases "ca_occurred s")
  case True
  with assms have "running asset [Read_consequence] s" "run_consequence Read_consequence s = Inr s'"
    by (auto simp: running_def When_def)
  with run_read_running running_inv show ?thesis by blast
next
  case False
  with assms(1) have "s' = s\<lparr>ca_consequences := ca_consequences s @ [Read_consequence]\<rparr>" by (simp add: When_def)
  moreover have "filter (\<lambda>c. c = Read_consequence) (ca_consequences s) = []"
    using assms(5) False by (auto simp: filter_empty_conv)
  ultimately show ?thesis using False assms(2-5) by (simp add: ca_inv_def fresh_def)
qed

lemma ReadAt_inv:
  assumes "ReadAt p memory s = Inr s'" "ca_inv asset s"
  shows "ca_inv asset s'"
proof -
  let ?rq = "(ca_read_at_request s)\<lparr>rq_in_progress := True, rq_position := p, rq_memory := memory, rq_buffer := 0,
    rq_original_bytes_to_read := length memory, rq_remaining_bytes_to_read := length memory\<rparr>"
  from assms(1) have w: "memory \<noteq> []" "\<not> rq_in_progress (ca_read_at_request s)"
    "When Read_consequence (s\<lparr>ca_read_at_request := ?rq\<rparr>) = Inr s'"
    by (auto simp: ReadAt_def ReadAtRequest_Start_def rbind_eq_Inr_iff)
  show ?thesis
    by (rule When_inv_read [OF w(3)]) (use w(1,2) assms(2) in \<open>auto simp: ca_inv_def fresh_def sr_inv_def split: if_splits\<close>)
qed

lemma cache_step_inv:
  assumes "cache_step asset op s = Inr s'" "ca_inv asset s"
  shows "ca_inv asset s'"
proof (cases op)
  case Call_Describe
  with assms show ?thesis
    by (auto simp: cache_step_def Describe_def When_def run_consequence_def ca_inv_def split: if_splits)
next
  case (Call_ReadAt p memory)
  with assms ReadAt_inv show ?thesis by (simp add: cache_step_def)
next
  case (On_Describe r c)
  with assms Describe_done_inv show ?thesis by (auto simp: cache_step_def split: if_splits)
next
  case On_Read
  show ?thesis
  proof (cases "ca_intake s")
    case (Reading p n)
    let ?b = "take n (drop p asset)"
    from assms(2) Reading have occ: "ca_occurred s" "sr_inv asset (ca_store s) (ca_read_at_request s)"
      "ca_consequences s = []" "\<forall>c \<in> set (ca_completed s). good_completion asset c"
      by (auto simp: ca_inv_def split: if_splits)
    from assms(1) On_Read Reading obtain r where
      r: "PutIntakeBuffer p ?b (ca_store s) (ca_read_at_request s) = Inr r" "s' = (deliver r s)\<lparr>ca_intake := Continuing\<rparr>"
      by (auto simp: cache_step_def ReadAt_done_def rbind_eq_Inr_iff)
    have "?b = take (length ?b) (drop p asset)" by (simp add: min_def)
    from deliver_inv [OF PutIntakeBuffer_post [OF r(1) occ(2) this] occ(1,3,4)] show ?thesis
      unfolding r(2) by (simp add: ca_inv_def)
  qed (use assms On_Read in \<open>simp_all add: cache_step_def\<close>)
next
  case (On_Read_error e)
  show ?thesis
  proof (cases "ca_intake s")
    case (Reading p n)
    from assms(2) Reading have occ: "ca_occurred s" "sr_inv asset (ca_store s) (ca_read_at_request s)"
      "ca_consequences s = []" "\<forall>c \<in> set (ca_completed s). good_completion asset c"
      by (auto simp: ca_inv_def split: if_splits)
    show ?thesis
    proof (cases "e = kOk")
      case False
      with assms(1) On_Read_error Reading obtain r where
        r: "ReportIntakeError e (ca_store s) (ca_read_at_request s) = Inr r" "s' = (deliver r s)\<lparr>ca_intake := Stopped\<rparr>"
        by (auto simp: cache_step_def ReadAt_done_def rbind_eq_Inr_iff)
      from deliver_inv [OF ReportIntakeError_post [OF r(1) occ(2)] occ(1,3,4)] show ?thesis
        unfolding r(2) by (simp add: ca_inv_def)
    qed (use assms On_Read_error Reading in \<open>simp add: cache_step_def\<close>)
  qed (use assms On_Read_error in \<open>simp_all add: cache_step_def\<close>)
next
  case Run_Continue
  show ?thesis
  proof (cases "ca_intake s = Continuing")
    case True
    with assms(2) have occ: "ca_occurred s" by (auto simp: ca_inv_def split: if_splits)
    from assms(1) Run_Continue True have "Continue s = Inr s'" by (simp add: cache_step_def)
    then obtain w st where w: "GetIntakePositionAndSize (ca_store s) = Inr (w, st)"
      and e: "(case w of None \<Rightarrow> Inr (s\<lparr>ca_store := st, ca_intake := Stopped\<rparr>)
        | Some (position, sz) \<Rightarrow> dcheck (sz > 0) (Inr (s\<lparr>ca_store := st, ca_intake := Reading position sz\<rparr>))) = Inr s'"
      by (auto simp: Continue_def rbind_eq_Inr_iff Let_def)
    from e have "ca_store s' = st" "ca_completed s' = ca_completed s" "ca_occurred s' = ca_occurred s"
      "ca_consequences s' = ca_consequences s" "ca_read_at_request s' = ca_read_at_request s"
      by (auto split: option.splits)
    with GetIntakePositionAndSize_post [OF w] assms(2) occ show ?thesis by (simp add: ca_inv_def)
  qed (use assms Run_Continue in \<open>simp add: cache_step_def\<close>)
qed

lemma cache_run_inv: "cache_run asset ops s = Inr s' \<Longrightarrow> ca_inv asset s \<Longrightarrow> ca_inv asset s'"
  by (induction ops arbitrary: s) (auto simp: rbind_eq_Inr_iff intro: cache_step_inv)

end
