(* ===== verification/Reader_Cache_Live.thy ===== *)
theory Reader_Cache_Live
  imports Reader_Cache
begin

text \<open>
  Progress of the reader cache: when the client keeps the rules and the upstream reader
  delivers what it is asked for, no DCHECK fails, and every read completes once intake
  has gone on for long enough.
\<close>

section \<open>Runs that keep the rules\<close>

text \<open>
  When the client may call \<^verbatim>\<open>ReadAt\<close>: no other read is in progress, the position is inside
  the asset, it is not behind every region of the store, and it is not strictly inside
  the bytes that are being read from upstream.
\<close>

definition read_ok :: "u8 list \<Rightarrow> nat \<Rightarrow> u8 list \<Rightarrow> ReaderCache \<Rightarrow> bool" where
  "read_ok asset p memory s \<longleftrightarrow> memory \<noteq> [] \<and> p < length asset \<and> \<not> rq_in_progress (ca_read_at_request s) \<and>
     (let regions = sb_regions (st_sparse_byte_buffer (ca_store s))
      in regions = [] \<or> list_ex (\<lambda>(k, _). k \<le> p) regions) \<and>
     (case ca_intake s of Reading q n \<Rightarrow> \<not> (q < p \<and> p < q + n) | _ \<Rightarrow> True)"

definition op_ok :: "u8 list \<Rightarrow> cache_op \<Rightarrow> ReaderCache \<Rightarrow> bool" where
  "op_ok asset op s = (case op of Call_ReadAt p memory \<Rightarrow> read_ok asset p memory s
     | On_Read_error _ \<Rightarrow> False | _ \<Rightarrow> True)"

fun disciplined :: "u8 list \<Rightarrow> cache_op list \<Rightarrow> ReaderCache \<Rightarrow> bool" where
  "disciplined asset [] s = True"
| "disciplined asset (op # ops) s =
     (op_ok asset op s \<and> (case cache_step asset op s of Inl e \<Rightarrow> True | Inr s' \<Rightarrow> disciplined asset ops s'))"

definition live_hole :: "intake \<Rightarrow> Store \<Rightarrow> bool" where
  "live_hole i st = (case i of
     Not_started \<Rightarrow> False
   | Reading p n \<Rightarrow> st_intake_hole st = Some p \<and> 0 < n \<and> (\<exists>z \<ge> n. (p, z) \<in> set (sb_holes (st_sparse_byte_buffer st)))
   | Continuing \<Rightarrow> True
   | Stopped \<Rightarrow> sb_holes (st_sparse_byte_buffer st) = [])"

definition live_request :: "intake \<Rightarrow> Store \<Rightarrow> bool" where
  "live_request i st \<longleftrightarrow>
     (if st_read_request st
      then front_ok st \<and>
        (st_read_hole st = Some (st_read_request_position st) \<or>
         st_read_hole st = None \<and> (\<exists>p n. i = Reading p n \<and> p \<le> st_read_request_position st \<and>
           st_read_request_position st < p + n))
      else st_read_hole st = None)"

definition live_front :: "Store \<Rightarrow> bool" where
  "live_front st \<longleftrightarrow> (sb_regions (st_sparse_byte_buffer st) = [] \<longrightarrow>
     (\<exists>q. st_intake_hole st = Some q \<and> (if st_read_request st then q \<le> st_read_request_position st else q = 0)))"

definition live :: "u8 list \<Rightarrow> ReaderCache \<Rightarrow> bool" where
  "live asset s \<longleftrightarrow> ca_inv asset s \<and> ca_occurred s \<and> st_result (ca_store s) = kOk \<and>
     (\<forall>c \<in> set (ca_completed s). fst (fst (snd c)) = kOk) \<and> live_hole (ca_intake s) (ca_store s) \<and> live_request (ca_intake s) (ca_store s) \<and> live_front (ca_store s)"

text \<open>The reads that have been asked for, by position and number of bytes: those completed and the one in progress.\<close>

definition asked :: "ReaderCache \<Rightarrow> (nat \<times> nat) list" where
  "asked s = map (\<lambda>(p, _, memory). (p, length memory)) (ca_completed s) @
     (if rq_in_progress (ca_read_at_request s)
      then [(rq_start (ca_read_at_request s), rq_original_bytes_to_read (ca_read_at_request s))] else [])"

lemma liveD:
  assumes "live asset s"
  shows "sr_inv asset (ca_store s) (ca_read_at_request s)" "st_inv asset (ca_store s)"
    "rq_in_progress (ca_read_at_request s) = st_read_request (ca_store s)"
    "st_read_request (ca_store s) \<Longrightarrow> waiting asset (ca_store s) (ca_read_at_request s)"
    "\<forall>c \<in> set (ca_completed s). good_completion asset c" "ca_consequences s = []" "ca_occurred s"
    "st_result (ca_store s) = kOk" "live_hole (ca_intake s) (ca_store s)"
    "live_request (ca_intake s) (ca_store s)" "live_front (ca_store s)"
    "\<forall>c \<in> set (ca_completed s). fst (fst (snd c)) = kOk"
  using assms by (auto simp: live_def ca_inv_def sr_inv_def)

lemma liveI:
  assumes "sr_post asset r" "r = (call, st, rq)" "ca_occurred s" "ca_consequences s = []"
    "\<forall>c \<in> set (ca_completed s). good_completion asset c"
    "st_result st = kOk" "live_hole i st" "live_request i st" "live_front st"
    "\<forall>c \<in> set (ca_completed s). fst (fst (snd c)) = kOk" "\<forall>c. call = Some c \<longrightarrow> fst c = kOk"
  shows "live asset ((deliver r s)\<lparr>ca_intake := i\<rparr>)"
proof -
  have "ca_inv asset ((deliver r s)\<lparr>ca_intake := i\<rparr>)"
    using deliver_inv(1) [OF assms(1,3,4,5)] assms(3) by (simp add: ca_inv_def deliver_def assms(2))
  then show ?thesis using assms by (auto simp: live_def deliver_def split: option.splits)
qed

lemma asked_deliver:
  assumes "serve_outcome asset st rq (call, st', rq')"
  shows "asked ((deliver (call, st', rq') s)\<lparr>ca_intake := i\<rparr>) =
    map (\<lambda>(p, _, memory). (p, length memory)) (ca_completed s) @ [(rq_start rq, rq_original_bytes_to_read rq)]"
  using assms
  by (auto simp: serve_outcome_def asked_def deliver_def rq_start_def waiting_def rq_inv_def split: option.splits)

lemma hole_intact:
  assumes inv: "sb_inv b" and kz: "(k, z) \<in> set (sb_holes b)" "covers (k, z) p" and qw: "(q, w) \<in> set (sb_holes b)"
    and n: "n \<le> w" "\<not> (q < p \<and> p < q + n)"
  shows "\<exists>w' \<ge> n. (q, w') \<in> set (sb_holes (carve_hole k z p b))"
proof (cases "k = p")
  case True
  with qw n(1) show ?thesis by (auto simp: carve_hole_def)
next
  case False
  note c = carve_hole_set(2) [OF inv kz False]
  show ?thesis
  proof (cases "(q, w) = (k, z)")
    case True
    then have "n \<le> p - k" using n(2) False kz(2) by (auto simp: covers_def)
    with True c show ?thesis by auto
  next
    case 2: False
    with qw n(1) c show ?thesis by auto
  qed
qed

lemma live_hole_carve:
  assumes "sb_inv (st_sparse_byte_buffer st)" "(k, z) \<in> set (sb_holes (st_sparse_byte_buffer st))" "covers (k, z) p"
    "live_hole i st" "\<forall>q n. i = Reading q n \<longrightarrow> \<not> (q < p \<and> p < q + n)"
    "st_sparse_byte_buffer st' = carve_hole k z p (st_sparse_byte_buffer st)" "st_intake_hole st' = st_intake_hole st"
  shows "live_hole i st'"
proof (cases i)
  case (Reading q n)
  with assms(4) obtain w where "(q, w) \<in> set (sb_holes (st_sparse_byte_buffer st))" "n \<le> w" by (auto simp: live_hole_def)
  from hole_intact [OF assms(1-3) this] assms(4-7) Reading show ?thesis by (simp add: live_hole_def)
next
  case Stopped
  with assms(2,4) show ?thesis by (simp add: live_hole_def)
qed (use assms(4) in \<open>simp_all add: live_hole_def\<close>)

lemma ServeRequest_total:
  assumes "st_inv asset st" "rq_inv asset st rq" "st_read_request st" "rq_in_progress rq"
    "st_result st = kOk" "front_ok st" "0 < st_read_request_remaining_bytes st"
  obtains call st' rq' where "ServeRequest st rq = Inr (call, st', rq')" "serve_outcome asset st rq (call, st', rq')"
  using ServeRequest_outcome [OF assms(1-4)] assms(5-7) that
  by (cases "ServeRequest st rq") auto

lemma live_hole_same:
  "live_hole i st \<Longrightarrow> st_sparse_byte_buffer st' = st_sparse_byte_buffer st \<Longrightarrow> st_intake_hole st' = st_intake_hole st \<Longrightarrow>
   live_hole i st'"
  by (cases i) (simp_all add: live_hole_def)

lemma outcome_front:
  assumes "serve_outcome asset st rq (None, st', rq')" "front_ok st"
  shows "front_ok st'"
  using assms by (auto simp: serve_outcome_def front_ok_def intro: order_trans)

lemma outcome_live_request:
  assumes "serve_outcome asset st rq (call, st', rq')" "front_ok st" "call \<noteq> None \<Longrightarrow> st_read_hole st = None"
  shows "live_request i st'"
  using assms outcome_front [of asset st rq st' rq']
  by (cases call) (auto simp: live_request_def serve_outcome_def)

lemma read_position_free:
  assumes o: "serve_outcome asset st rq (None, st', rq')" and inv: "sb_inv (st_sparse_byte_buffer st)"
    and qw: "(q, w) \<in> set (sb_holes (st_sparse_byte_buffer st))" "n \<le> w"
    and p: "\<not> (q < st_read_request_position st \<and> st_read_request_position st < q + n)"
  shows "\<not> (q < st_read_request_position st' \<and> st_read_request_position st' < q + n)"
proof
  let ?p = "st_read_request_position st" and ?p' = "st_read_request_position st'"
  assume a: "q < ?p' \<and> ?p' < q + n"
  from o have le: "?p \<le> ?p'" "{?p ..< ?p'} \<subseteq> dom (sb_content (st_sparse_byte_buffer st))"
    by (auto simp: serve_outcome_def)
  with a p have "?p < ?p'" by (auto simp: le_less)
  then have "?p' - 1 \<in> {?p ..< ?p'}" by auto
  moreover have "covers (q, w) (?p' - 1)" using a qw(2) by (auto simp: covers_def)
  ultimately show False using hole_not_content [OF inv qw(1)] le(2) by blast
qed

lemma ReadAt_live:
  assumes "live asset s" "read_ok asset p memory s"
  shows "\<exists>s'. ReadAt p memory s = Inr s' \<and> live asset s' \<and> asked s' = asked s @ [(p, length memory)]"
proof -
  note l = liveD [OF assms(1)]
  let ?st = "ca_store s" and ?i = "ca_intake s"
  let ?rq = "(ca_read_at_request s)\<lparr>rq_in_progress := True, rq_position := p, rq_memory := memory, rq_buffer := 0,
    rq_original_bytes_to_read := length memory, rq_remaining_bytes_to_read := length memory\<rparr>"
  let ?s = "s\<lparr>ca_read_at_request := ?rq\<rparr>" and ?w = "with_request ?rq ?st"
  from assms(2) have ok: "memory \<noteq> []" "p < length asset" "\<not> st_read_request ?st"
    "\<forall>q n. ?i = Reading q n \<longrightarrow> \<not> (q < p \<and> p < q + n)"
    using l(3) by (auto simp: read_ok_def)
  have fr: "fresh ?rq" using ok by (simp add: fresh_def)
  have pos: "rq_position ?rq < length asset" using ok by simp
  note w = with_request_inv [OF l(2) fr pos]
  have front: "front_ok ?w"
    using assms(2) by (auto simp: read_ok_def front_ok_def with_request_def Let_def list_ex_iff Bex_def image_iff)
  have wk: "st_read_request ?w" "rq_in_progress ?rq" "st_result ?w = kOk" "st_read_request_position ?w = p"
    "st_sparse_byte_buffer ?w = st_sparse_byte_buffer ?st" "st_intake_hole ?w = st_intake_hole ?st"
    "st_read_hole ?w = None"
    using l(8,10) ok(3) by (simp_all add: with_request_def live_request_def)
  obtain call st' rq' where serve: "ServeRequest ?w ?rq = Inr (call, st', rq')"
    and out: "serve_outcome asset ?w ?rq (call, st', rq')"
    using ServeRequest_total [OF w(1,2) wk(1-3) front w(3)] .
  have run: "ReadAt p memory s = Inr (deliver (call, st', rq') ?s)"
    using ok serve l(2,3,7) st_invD(3) [OF l(2)]
    by (simp add: ReadAt_def ReadAtRequest_Start_def When_def run_consequence_def SetReadAtRequest_eq)
  have same: "(deliver (call, st', rq') ?s)\<lparr>ca_intake := ?i\<rparr> = deliver (call, st', rq') ?s"
    by (simp add: deliver_def)
  have st': "st_result st' = kOk" "st_intake_hole st' = st_intake_hole ?st"
    "sb_regions (st_sparse_byte_buffer st') = sb_regions (st_sparse_byte_buffer ?st)"
    using out wk by (auto simp: serve_outcome_def)
  have completed: "\<forall>c. call = Some c \<longrightarrow> fst c = kOk" using out wk(3) by (auto simp: serve_outcome_def)
  have inv: "sb_inv (st_sparse_byte_buffer ?w)" using st_invD(2) [OF l(2)] wk(5) by simp
  have "live_hole ?i st'"
  proof (cases call)
    case (Some c)
    then show ?thesis using live_hole_same [OF l(9)] out wk by (simp add: serve_outcome_def)
  next
    case None
    with out obtain k z where kz: "(k, z) \<in> set (sb_holes (st_sparse_byte_buffer ?w))"
      "covers (k, z) (st_read_request_position st')"
      "st_sparse_byte_buffer st' = carve_hole k z (st_read_request_position st') (st_sparse_byte_buffer ?w)"
      by (auto simp: serve_outcome_def)
    have h: "live_hole ?i ?w" by (rule live_hole_same [OF l(9) wk(5,6)])
    have "\<not> (q < st_read_request_position st' \<and> st_read_request_position st' < q + n)" if "?i = Reading q n" for q n
    proof -
      from h that obtain v where "(q, v) \<in> set (sb_holes (st_sparse_byte_buffer ?w))" "n \<le> v"
        by (auto simp: live_hole_def)
      from read_position_free [OF out [unfolded None] inv this, unfolded wk(4)] ok(4) that show ?thesis by blast
    qed
    with live_hole_carve [OF inv kz(1,2) h _ kz(3)] st'(2) wk(6) show ?thesis by simp
  qed
  moreover have "live_request ?i st'" using outcome_live_request [OF out front] wk(7) by simp
  moreover have "live_front st'"
    using l(11) ok(3) st'(2,3) by (auto simp: live_front_def)
  ultimately have "live asset ((deliver (call, st', rq') ?s)\<lparr>ca_intake := ?i\<rparr>)"
    using l st'(1) completed by (intro liveI [OF serve_outcome_post [OF out] refl]) simp_all
  moreover have "asked (deliver (call, st', rq') ?s) = asked s @ [(p, length memory)]"
    using asked_deliver [OF out, where s = ?s and i = ?i] l(3) ok(3) unfolding same
    by (simp add: asked_def rq_start_def)
  ultimately show ?thesis using run same by auto
qed

text \<open>The positions that have not been read yet.\<close>

definition unfilled :: "u8 list \<Rightarrow> ReaderCache \<Rightarrow> nat set" where
  "unfilled asset s = {p. p < length asset \<and> sb_content (st_sparse_byte_buffer (ca_store s)) p = None}"

lemma unfilled_finite [simp]: "finite (unfilled asset s)"
  by (simp add: unfilled_def)

lemma hole_bytes:
  assumes "st_inv asset st" "(p, z) \<in> set (sb_holes (st_sparse_byte_buffer st))" "n \<le> z"
  shows "length (take n (drop p asset)) = n"
proof -
  have "p + z \<le> length asset"
    using tilingD(2) [OF sb_invD(3) [OF st_invD(2) [OF assms(1)]], of "(p, z)"] assms(2)
      agreesD(2) [OF st_invD(1) [OF assms(1)]] by simp
  with assms(3) show ?thesis by simp
qed

lemma with_bytes_front:
  assumes "st_inv asset st" "(p, z) \<in> set (sb_holes (st_sparse_byte_buffer st))"
    "live_front st" "st_intake_hole st = Some p" "st_read_request st" "front_ok st"
  shows "front_ok (with_bytes p z buffer st)"
proof -
  have regs: "set (sb_regions (st_sparse_byte_buffer (with_bytes p z buffer st))) =
      insert (p, buffer) (set (sb_regions (st_sparse_byte_buffer st)))"
    using om_insert_set [OF sb_invD(2) [OF st_invD(2) [OF assms(1)]] hole_key_not_region [OF st_invD(2) [OF assms(1)] assms(2)]]
    by (simp add: with_bytes_keeps)
  show ?thesis
  proof (cases "sb_regions (st_sparse_byte_buffer st) = []")
    case True
    with assms(3-5) have "p \<le> st_read_request_position st" by (auto simp: live_front_def)
    then show ?thesis unfolding front_ok_def regs by (simp add: with_bytes_keeps)
  next
    case False
    with assms(6) show ?thesis unfolding front_ok_def regs by (auto simp: with_bytes_keeps)
  qed
qed

lemma On_Read_live:
  assumes "live asset s" "ca_intake s = Reading p n"
  shows "\<exists>s'. cache_step asset On_Read s = Inr s' \<and> live asset s' \<and> asked s' = asked s \<and>
    ca_intake s' = Continuing \<and> unfilled asset s' \<subset> unfilled asset s"
proof -
  note l = liveD [OF assms(1)]
  let ?st = "ca_store s" and ?rq = "ca_read_at_request s" and ?b = "take n (drop p asset)"
  from l(9) assms(2) obtain z where z: "st_intake_hole ?st = Some p" "0 < n"
    "(p, z) \<in> set (sb_holes (st_sparse_byte_buffer ?st))" "n \<le> z" by (auto simp: live_hole_def)
  note inv = st_invD(2) [OF l(2)]
  have len: "length ?b = n" by (rule hole_bytes [OF l(2) z(3,4)])
  then have b: "?b \<noteq> []" "length ?b \<le> z" "?b = take (length ?b) (drop p asset)" using z by auto
  let ?w = "with_bytes p z ?b ?st"
  have w: "st_inv asset ?w" by (rule with_bytes_inv [OF l(2) z(3) b])
  note put = PutIntakeBuffer_eq [OF l(2) z(1,3) b(1,2), of ?rq]
  have content: "sb_content (st_sparse_byte_buffer ?w) q =
      (if p \<le> q \<and> q < p + n then Some (?b ! (q - p)) else sb_content (st_sparse_byte_buffer ?st) q)" for q
    using Fill_content [OF inv z(3) b(1,2), of q] by (simp only: with_bytes_keeps len)
  have regs: "sb_regions (st_sparse_byte_buffer ?w) \<noteq> []"
    using om_insert_set [OF sb_invD(2) [OF inv] hole_key_not_region [OF inv z(3)], of ?b]
    by (auto simp: with_bytes_keeps)
  have "\<exists>call st' rq'. PutIntakeBuffer p ?b ?st ?rq = Inr (call, st', rq') \<and> sr_post asset (call, st', rq') \<and>
      st_result st' = kOk \<and> (\<forall>c. call = Some c \<longrightarrow> fst c = kOk) \<and> live_request Continuing st' \<and>
      sb_regions (st_sparse_byte_buffer st') = sb_regions (st_sparse_byte_buffer ?w) \<and>
      asked ((deliver (call, st', rq') s)\<lparr>ca_intake := Continuing\<rparr>) = asked s"
  proof (cases "st_read_request ?st")
    case False
    with put l(3) have p: "PutIntakeBuffer p ?b ?st ?rq = Inr (None, ?w, ?rq)" by simp
    moreover have "sr_post asset (None, ?w, ?rq)"
      using w False l(3) by (simp add: sr_post_def sr_inv_def with_bytes_keeps)
    moreover have "live_request Continuing ?w"
      using l(10) False by (simp add: live_request_def with_bytes_def uncovered_def Let_def)
    ultimately show ?thesis using l(8)
      by (intro exI [of _ None] exI [of _ ?w] exI [of _ ?rq]) (simp add: with_bytes_keeps asked_def deliver_def)
  next
    case True
    from l(4) [OF True] have wt: "waiting asset ?st ?rq" .
    have front: "front_ok ?w"
      by (rule with_bytes_front [OF l(2) z(3) l(11) z(1) True]) (use l(10) True in \<open>simp add: live_request_def\<close>)
    obtain call st' rq' where serve: "ServeRequest ?w ?rq = Inr (call, st', rq')"
      and out: "serve_outcome asset ?w ?rq (call, st', rq')"
      by (rule ServeRequest_total [OF w _ _ _ _ front, of ?rq])
        (use wt True l(3,8) in \<open>auto simp: with_bytes_keeps waiting_def\<close>)
    have "st_read_hole ?w = None" if "call \<noteq> None"
    proof (rule ccontr)
      assume "st_read_hole ?w \<noteq> None"
      then have "st_read_hole ?st \<noteq> None" "\<not> (p \<le> the (st_read_hole ?st) \<and> the (st_read_hole ?st) < p + n)"
        using len by (auto simp: with_bytes_def uncovered_def Let_def split: option.splits if_splits)
      with l(10) True have "\<not> (p \<le> st_read_request_position ?st \<and> st_read_request_position ?st < p + n)"
        by (auto simp: live_request_def)
      then have "st_read_request_position ?w \<notin> dom (sb_content (st_sparse_byte_buffer ?w))"
        using wt by (auto simp: content waiting_def with_bytes_keeps(3))
      moreover have "st_result ?w = kOk" "0 < st_read_request_remaining_bytes ?w"
        using wt by (auto simp: with_bytes_keeps waiting_def)
      ultimately show False using out that by (auto simp: serve_outcome_def)
    qed
    then have "live_request Continuing st'" by (rule outcome_live_request [OF out front])
    moreover have "asked ((deliver (call, st', rq') s)\<lparr>ca_intake := Continuing\<rparr>) = asked s"
      using asked_deliver [OF out, where s = s and i = Continuing] l(3) True by (simp add: asked_def)
    moreover have "st_result st' = kOk" "\<forall>c. call = Some c \<longrightarrow> fst c = kOk"
      "sb_regions (st_sparse_byte_buffer st') = sb_regions (st_sparse_byte_buffer ?w)"
      using out l(8) by (auto simp: serve_outcome_def with_bytes_keeps)
    ultimately show ?thesis using put True serve serve_outcome_post [OF out] by auto
  qed
  then obtain call st' rq' where r: "PutIntakeBuffer p ?b ?st ?rq = Inr (call, st', rq')" "sr_post asset (call, st', rq')"
    "st_result st' = kOk" "live_request Continuing st'"
    "sb_regions (st_sparse_byte_buffer st') = sb_regions (st_sparse_byte_buffer ?w)"
    "asked ((deliver (call, st', rq') s)\<lparr>ca_intake := Continuing\<rparr>) = asked s"
    "\<forall>c. call = Some c \<longrightarrow> fst c = kOk" by blast
  let ?s = "(deliver (call, st', rq') s)\<lparr>ca_intake := Continuing\<rparr>"
  have "live asset ?s"
    by (rule liveI [OF r(2) refl]) (use l r regs in \<open>simp_all add: live_hole_def live_front_def\<close>)
  moreover have "cache_step asset On_Read s = Inr ?s"
    using assms(2) r(1) z(2) by (simp add: cache_step_def ReadAt_done_def)
  moreover have "unfilled asset ?s \<subset> unfilled asset s"
  proof -
    have "unfilled asset ?s = {q \<in> unfilled asset s. \<not> (p \<le> q \<and> q < p + n)}"
      using sb_content_regions [OF r(5)] by (auto simp: unfilled_def deliver_def content)
    moreover have "p \<in> unfilled asset s"
    proof -
      have "p < length asset" using len z(2) by (cases "p < length asset") simp_all
      moreover have "p \<notin> dom (sb_content (st_sparse_byte_buffer ?st))"
        by (rule hole_not_content [OF inv z(3)]) (use z in \<open>simp add: covers_def\<close>)
      ultimately show ?thesis by (auto simp: unfilled_def)
    qed
    ultimately show ?thesis using z(2) by auto
  qed
  ultimately show ?thesis using r(6) by auto
qed

lemma Continue_live:
  assumes "live asset s" "ca_intake s = Continuing"
  shows "\<exists>s'. cache_step asset Run_Continue s = Inr s' \<and> live asset s' \<and> asked s' = asked s \<and>
    unfilled asset s' = unfilled asset s \<and> ca_intake s' \<noteq> Continuing"
proof -
  note l = liveD [OF assms(1)]
  let ?st = "ca_store s" and ?b = "st_sparse_byte_buffer (ca_store s)"
  note t = sb_invD(3) [OF st_invD(2) [OF l(2)]] and wf = sb_invD(1) [OF st_invD(2) [OF l(2)]]
  have step: "cache_step asset Run_Continue s = Continue s" using assms(2) by (simp add: cache_step_def)
  have build: ?thesis if st: "GetIntakePositionAndSize ?st = Inr (w, st)" "st_sparse_byte_buffer st = ?b"
      "st_result st = kOk" "live_request i st" "live_front st" "live_hole i st"
      and c: "Continue s = Inr (s\<lparr>ca_store := st, ca_intake := i\<rparr>)" "i \<noteq> Continuing" for w st i
  proof -
    have "ca_inv asset (s\<lparr>ca_store := st, ca_intake := i\<rparr>)"
      using GetIntakePositionAndSize_post [OF st(1) l(1)] l by (simp add: ca_inv_def)
    with st l have "live asset (s\<lparr>ca_store := st, ca_intake := i\<rparr>)" by (simp add: live_def)
    with c st(2) step show ?thesis by (auto simp: asked_def unfilled_def)
  qed
  show ?thesis
  proof (cases "st_read_hole ?st")
    case (Some h)
    with l(10) assms(2) have h: "st_read_request ?st" "h = st_read_request_position ?st"
      by (auto simp: live_request_def split: if_splits)
    from st_invD(5) [OF l(2)] Some obtain z where z: "(h, z) \<in> set (sb_holes ?b)" by auto
    have "0 < z" using tilingD(1) [OF t, of "(h, z)"] z by simp
    let ?m = "st_read_request_remaining_bytes ?st"
    let ?n = "if ?m > z then z else ?m"
    let ?w = "?st\<lparr>st_intake_hole := Some h, st_read_hole := None\<rparr>"
    have n: "0 < ?n" "?n \<le> z" using \<open>0 < z\<close> l(4) [OF h(1)] by (auto simp: waiting_def)
    have g: "GetIntakePositionAndSize ?st = Inr (Some (h, ?n), ?w)"
      using h(1) Some om_deref_in [OF wf z] by (simp add: GetIntakePositionAndSize_def)
    have c: "Continue s = Inr (s\<lparr>ca_store := ?w, ca_intake := Reading h ?n\<rparr>)"
      using n(1) by (simp add: Continue_def g Let_def)
    have r: "live_request (Reading h ?n) ?w"
      using l(10) h n(1) by (simp add: live_request_def front_ok_def)
    have f: "live_front ?w" using h by (simp add: live_front_def)
    have o: "live_hole (Reading h ?n) ?w" unfolding live_hole_def using n z by (auto intro!: exI [of _ z])
    show ?thesis by (rule build [OF g _ _ r f o c]) (use l in simp_all)
  next
    case None
    then have nr: "\<not> st_read_request ?st" using l(10) assms(2) by (auto simp: live_request_def split: if_splits)
    have r: "live_request i ?st" for i using nr None by (simp add: live_request_def)
    show ?thesis
    proof (cases "st_intake_hole ?st")
      case n: None
      have g: "GetIntakePositionAndSize ?st = Inr (None, ?st)" using None n by (simp add: GetIntakePositionAndSize_def)
      have c: "Continue s = Inr (s\<lparr>ca_store := ?st, ca_intake := Stopped\<rparr>)" by (simp add: Continue_def g)
      have o: "live_hole Stopped ?st" using l(2) n by (simp add: live_hole_def st_inv_def)
      show ?thesis by (rule build [OF g refl l(8) r l(11) o c]) simp
    next
      case (Some k)
      from st_invD(4) [OF l(2)] Some obtain z where z: "(k, z) \<in> set (sb_holes ?b)" by auto
      have "0 < z" using tilingD(1) [OF t, of "(k, z)"] z by simp
      let ?n = "if kDefaultReadSize > z then z else kDefaultReadSize"
      have n: "0 < ?n" "?n \<le> z" using \<open>0 < z\<close> by (auto simp: kDefaultReadSize_def)
      have g: "GetIntakePositionAndSize ?st = Inr (Some (k, ?n), ?st)"
        using None Some om_deref_in [OF wf z] by (simp add: GetIntakePositionAndSize_def)
      have c: "Continue s = Inr (s\<lparr>ca_store := ?st, ca_intake := Reading k ?n\<rparr>)"
        using n(1) by (simp add: Continue_def g Let_def)
      have o: "live_hole (Reading k ?n) ?st" unfolding live_hole_def using n z Some by (auto intro!: exI [of _ z])
      show ?thesis by (rule build [OF g refl l(8) r l(11) o c]) simp
    qed
  qed
qed

section \<open>No fault, and every read completes\<close>

fun requests :: "cache_op list \<Rightarrow> (nat \<times> nat) list" where
  "requests [] = []"
| "requests (Call_ReadAt p memory # ops) = (p, length memory) # requests ops"
| "requests (op # ops) = requests ops"

lemma cache_step_live:
  assumes "live asset s" "op_ok asset op s"
  shows "\<exists>s'. cache_step asset op s = Inr s' \<and> live asset s' \<and> asked s' = asked s @ requests [op]"
proof (cases op)
  case Call_Describe
  let ?s = "s\<lparr>ca_described := ca_described s @ [Store_Describe (ca_store s)]\<rparr>"
  have "cache_step asset op s = Inr ?s"
    using Call_Describe liveD(7) [OF assms(1)] by (simp add: cache_step_def Describe_def When_def run_consequence_def)
  moreover have "live asset ?s" "asked ?s = asked s" using assms(1) by (simp_all add: live_def ca_inv_def asked_def)
  ultimately show ?thesis using Call_Describe by simp
next
  case (Call_ReadAt p memory)
  with ReadAt_live [OF assms(1)] assms(2) show ?thesis by (simp add: cache_step_def op_ok_def)
next
  case (On_Describe r c)
  with assms liveD(7) [OF assms(1)] show ?thesis by (simp add: cache_step_def)
next
  case On_Read
  show ?thesis
  proof (cases "ca_intake s")
    case (Reading p n)
    from On_Read_live [OF assms(1) this] On_Read show ?thesis by auto
  qed (use assms On_Read in \<open>simp_all add: cache_step_def\<close>)
next
  case (On_Read_error e)
  with assms(2) show ?thesis by (simp add: op_ok_def)
next
  case Run_Continue
  show ?thesis
  proof (cases "ca_intake s = Continuing")
    case True
    from Continue_live [OF assms(1) this] Run_Continue show ?thesis by auto
  qed (use assms Run_Continue in \<open>simp add: cache_step_def\<close>)
qed

lemma requests_append: "requests (op # ops) = requests [op] @ requests ops"
  by (cases op) simp_all

lemma cache_run_live:
  "live asset s \<Longrightarrow> disciplined asset ops s \<Longrightarrow>
   \<exists>s'. cache_run asset ops s = Inr s' \<and> live asset s' \<and> asked s' = asked s @ requests ops"
proof (induction ops arbitrary: s)
  case (Cons op ops)
  from Cons.prems obtain s1 where s1: "cache_step asset op s = Inr s1" "live asset s1" "asked s1 = asked s @ requests [op]"
    using cache_step_live [of asset s op] by auto
  with Cons.IH [OF s1(2)] Cons.prems(2) obtain s' where
    "cache_run asset ops s1 = Inr s'" "live asset s'" "asked s' = asked s1 @ requests ops" by auto
  with s1 show ?case by (subst requests_append) simp
qed simp

text \<open>One round of the intake: it asks for bytes, and the upstream reader delivers them.\<close>

abbreviation round :: "cache_op list" where
  "round \<equiv> [Run_Continue, On_Read]"

lemma round_live:
  assumes "live asset s"
  shows "\<exists>s'. cache_run asset round s = Inr s' \<and> live asset s' \<and> asked s' = asked s \<and>
    (ca_intake s' = Stopped \<or> unfilled asset s' \<subset> unfilled asset s)"
proof -
  obtain s1 where s1: "cache_step asset Run_Continue s = Inr s1" "live asset s1" "asked s1 = asked s"
    "unfilled asset s1 = unfilled asset s" "ca_intake s1 \<noteq> Continuing"
  proof (cases "ca_intake s = Continuing")
    case True
    with Continue_live [OF assms] that show ?thesis by blast
  next
    case False
    with assms that [of s] show ?thesis by (simp add: cache_step_def)
  qed
  show ?thesis
  proof (cases "ca_intake s1")
    case (Reading p n)
    from On_Read_live [OF s1(2) this] s1 show ?thesis by auto
  next
    case Stopped
    then have "cache_step asset On_Read s1 = Inr s1" by (simp add: cache_step_def)
    with s1 Stopped show ?thesis by simp
  qed (use s1 liveD(9) [OF s1(2)] in \<open>simp_all add: live_hole_def\<close>)
qed

lemma stopped_round: "ca_intake s = Stopped \<Longrightarrow> cache_run asset round s = Inr s"
  by (simp add: cache_step_def)

lemma cache_run_append: "cache_run asset (xs @ ys) s = rbind (cache_run asset xs s) (cache_run asset ys)"
  by (induction xs arbitrary: s) (simp_all add: rbind_assoc cong: rbind_cong)

lemma rounds_live:
  "live asset s \<Longrightarrow> card (unfilled asset s) < k \<or> ca_intake s = Stopped \<Longrightarrow>
   \<exists>s'. cache_run asset (concat (replicate k round)) s = Inr s' \<and> live asset s' \<and> asked s' = asked s \<and> ca_intake s' = Stopped"
proof (induction k arbitrary: s)
  case (Suc k)
  have split: "cache_run asset (concat (replicate (Suc k) round)) s =
      rbind (cache_run asset round s) (cache_run asset (concat (replicate k round)))"
    using cache_run_append [of asset round "concat (replicate k round)" s] by (simp only: replicate_Suc concat.simps)
  from round_live [OF Suc.prems(1)] obtain s1 where s1: "cache_run asset round s = Inr s1" "live asset s1"
    "asked s1 = asked s" "ca_intake s1 = Stopped \<or> unfilled asset s1 \<subset> unfilled asset s" by blast
  then have stay: "ca_intake s = Stopped \<longrightarrow> s1 = s" using stopped_round [of s asset] by simp
  have "card (unfilled asset s1) < k \<or> ca_intake s1 = Stopped"
  proof (cases "ca_intake s1 = Stopped")
    case False
    with s1(4) have "unfilled asset s1 \<subset> unfilled asset s" by simp
    then have "card (unfilled asset s1) < card (unfilled asset s)" by (rule psubset_card_mono [OF unfilled_finite])
    with False stay Suc.prems(2) show ?thesis by auto
  qed simp
  from Suc.IH [OF s1(2) this] s1(1,3) show ?case unfolding split by auto
qed simp

lemma stopped_complete:
  assumes "live asset s" "ca_intake s = Stopped"
  shows "\<not> rq_in_progress (ca_read_at_request s)"
proof
  note l = liveD [OF assms(1)]
  let ?st = "ca_store s"
  assume "rq_in_progress (ca_read_at_request s)"
  with l(3,4) have w: "waiting asset ?st (ca_read_at_request s)" by simp
  let ?p = "st_read_request_position ?st" and ?b = "st_sparse_byte_buffer ?st"
  have "?p < sb_size ?b"
    using w agreesD(2) [OF st_invD(1) [OF l(2)]] by (auto simp: waiting_def rq_inv_def)
  moreover have "region_at ?p ?b = None"
    using w by (auto simp: waiting_def region_at_def sb_content_def split: option.splits)
  ultimately obtain k z where "(k, z) \<in> set (sb_holes ?b)"
    using unfilled_in_hole [OF st_invD(2) [OF l(2)]] by blast
  with l(9) assms(2) show False by (simp add: live_hole_def)
qed

lemma described_live:
  assumes "asset \<noteq> []" "Describe_done kOk (length asset) can_seek ReaderCache_new = Inr s"
  shows "live asset s" "asked s = []"
proof -
  have inv: "ca_inv asset s"
    by (rule Describe_done_inv [OF assms(2) ReaderCache_new_inv]) (simp add: ReaderCache_new_def)
  from assms have s: "s = ReaderCache_new\<lparr>ca_store := (ca_store ReaderCache_new)\<lparr>st_result := kOk, st_size := length asset,
      st_can_seek := can_seek, st_sparse_byte_buffer := Initialize (length asset) SparseByteBuffer_new,
      st_intake_hole := Some 0, st_read_hole := None, st_read_region := None\<rparr>, ca_occurred := True,
      ca_consequences := [], ca_intake := Continuing\<rparr>"
    by (simp add: Describe_done_def Store_Initialize_eq Occur_def ReaderCache_new_def)
  show "live asset s" using inv
    by (simp add: live_def s ReaderCache_new_def live_hole_def live_request_def live_front_def Initialize_def)
  show "asked s = []" by (simp add: s asked_def ReaderCache_new_def)
qed


text \<open>
  C17. Every read completes: after the upstream reader has described a non-empty asset,
  let the client make any reads within the rules (one at a time, inside the asset, not
  before the first region that is cached, not strictly inside the bytes in flight), in
  any interleaving with intake. Then no DCHECK fails, and once intake has gone on for
  one round more than the asset has bytes, it has stopped, the reads that have completed
  are exactly those that were asked for, in order, and each has succeeded and delivered
  the bytes of the asset from its position up to its size or the end of the asset.
\<close>

theorem cache_serves_every_read:
  assumes "asset \<noteq> []" "Describe_done kOk (length asset) can_seek ReaderCache_new = Inr s0"
    and "disciplined asset ops s0"
  shows "\<exists>s s'. cache_run asset ops s0 = Inr s \<and>
    cache_run asset (concat (replicate (Suc (length asset)) [Run_Continue, On_Read])) s = Inr s' \<and>
    ca_intake s' = Stopped \<and>
    map (\<lambda>(p, _, memory). (p, length memory)) (ca_completed s') = requests ops \<and>
    list_all (\<lambda>c. fst (fst (snd c)) = kOk \<and> good_completion asset c) (ca_completed s')"
proof -
  note d = described_live [OF assms(1,2)]
  obtain s where s: "cache_run asset ops s0 = Inr s" "live asset s" "asked s = requests ops"
    using cache_run_live [OF d(1) assms(3)] d(2) by auto
  have "unfilled asset s \<subseteq> {..< length asset}" by (auto simp: unfilled_def)
  then have "card (unfilled asset s) \<le> card {..< length asset}" by (intro card_mono) auto
  then have "card (unfilled asset s) < Suc (length asset)" by simp
  then obtain s' where s': "cache_run asset (concat (replicate (Suc (length asset)) round)) s = Inr s'"
    "live asset s'" "asked s' = asked s" "ca_intake s' = Stopped" using rounds_live [OF s(2)] by blast
  have "map (\<lambda>(p, _, memory). (p, length memory)) (ca_completed s') = requests ops"
    using s'(3) s(3) stopped_complete [OF s'(2,4)] by (simp add: asked_def)
  moreover have "list_all (\<lambda>c. fst (fst (snd c)) = kOk \<and> good_completion asset c) (ca_completed s')"
    using liveD(5,12) [OF s'(2)] by (simp add: list_all_iff)
  ultimately show ?thesis using s(1) s'(1,4) by blast
qed

definition example_asset :: "u8 list" where
  "example_asset = [10, 20, 30, 40, 50]"

lemmas cache_eval = cache_step_def Describe_done_def Store_Initialize_def Initialize_def FindHoleContaining_def
  om_begin_def om_next_def om_insert.simps om_erase_def om_assign_def om_deref_def Occur_def When_def
  ReaderCache_new_def SparseByteBuffer_new_def ReadAt_def ReadAtRequest_Start_def run_consequence_def
  SetReadAtRequest_def ServeRequest_def serve_loop.simps FindRegionContaining_def try_hint_def FindOrCreateHole_def
  split_hole_def CopyFrom_def Complete_def GetIntakePositionAndSize_def PutIntakeBuffer_def Fill_def fill_loop.simps
  ReportIntakeError_def deliver_def Continue_def ReadAt_done_def kDefaultReadSize_def Let_def

definition example_cache :: ReaderCache where
  "example_cache = ReaderCache_new\<lparr>ca_store := (ca_store ReaderCache_new)\<lparr>st_size := 5, st_can_seek := True,
     st_sparse_byte_buffer := Initialize 5 SparseByteBuffer_new, st_intake_hole := Some 0\<rparr>,
     ca_occurred := True, ca_intake := Continuing\<rparr>"

lemma example_cache_described: "Describe_done kOk (length example_asset) True ReaderCache_new = Inr example_cache"
  by (simp add: cache_eval example_asset_def example_cache_def)

lemma example_disciplined:
  "disciplined example_asset [Call_ReadAt 3 [0, 0, 0], Run_Continue, On_Read, Call_ReadAt 4 [0], Run_Continue] example_cache"
  by (simp add: cache_eval example_asset_def example_cache_def op_ok_def read_ok_def)

theorem cache_serves_every_read_witness:
  "\<exists>s s'. cache_run example_asset [Call_ReadAt 3 [0, 0, 0], Run_Continue, On_Read, Call_ReadAt 4 [0], Run_Continue]
      example_cache = Inr s \<and>
    cache_run example_asset (concat (replicate (Suc (length example_asset)) [Run_Continue, On_Read])) s = Inr s' \<and>
    ca_intake s' = Stopped \<and>
    map (\<lambda>(p, _, memory). (p, length memory)) (ca_completed s') = requests
      [Call_ReadAt 3 [0, 0, 0], Run_Continue, On_Read, Call_ReadAt 4 [0], Run_Continue]"
proof -
  have "example_asset \<noteq> []" by (simp add: example_asset_def)
  from cache_serves_every_read [OF this example_cache_described example_disciplined] show ?thesis by blast
qed

text \<open>
  C18. Whatever the client does and in whatever order the callbacks arrive, a read that
  completes without an error has delivered exactly the bytes of the asset: as many as
  the client asked for or as there are up to the end, and those at its position.
\<close>

theorem cache_reads_are_exact:
  assumes "cache_run asset ops ReaderCache_new = Inr s" "(position, (kOk, n), memory) \<in> set (ca_completed s)"
  shows "n = min (length memory) (length asset - position) \<and> take n memory = take n (drop position asset)"
  using cache_run_inv [OF assms(1) ReaderCache_new_inv] assms(2) by (auto simp: ca_inv_def good_completion_def)

theorem cache_reads_are_exact_witness:
  "\<exists>s. cache_run example_asset [On_Describe kOk True, Run_Continue, On_Read, Call_ReadAt 3 [0, 0, 0]] ReaderCache_new = Inr s \<and>
    (3, (kOk, 2), [40, 50, 0]) \<in> set (ca_completed s) \<and> take 2 [40, 50, 0] = take 2 (drop 3 example_asset)"
proof -
  have "\<exists>s. cache_run example_asset [On_Describe kOk True, Run_Continue, On_Read, Call_ReadAt 3 [0, 0, 0]] ReaderCache_new = Inr s \<and>
      (3, (kOk, 2), [40, 50, 0]) \<in> set (ca_completed s)"
    by (simp add: cache_eval example_asset_def)
  then show ?thesis using cache_reads_are_exact by blast
qed

text \<open>
  Ways to make the cache fail a DCHECK: a read strictly inside the bytes that are
  being read from upstream, which splits the hole they are meant for; a read before the
  first region of the store; an upstream error after a read has been served in part;
  and an empty asset.
\<close>

lemma cache_faults:
  "cache_run example_asset [On_Describe kOk True, Run_Continue, Call_ReadAt 1 [0], On_Read] ReaderCache_new = Inl Dcheck_failed \<and>
   cache_run example_asset [Call_ReadAt 3 [0], On_Describe kOk True, Run_Continue, On_Read, Call_ReadAt 0 [0]] ReaderCache_new =
     Inl Dcheck_failed \<and>
   cache_run example_asset [Call_ReadAt 3 [0], On_Describe kOk True, Run_Continue, On_Read, Run_Continue,
     Call_ReadAt 3 [0, 0], On_Read_error kUnknownError] ReaderCache_new = Inl Dcheck_failed \<and>
   cache_run [] [On_Describe kOk True] ReaderCache_new = Inl Dcheck_failed"
  by (simp add: cache_eval example_asset_def)

end
