(* ===== verification/Audio_Link.thy ===== *)
theory Audio_Link
  imports Media_Transport
begin

text \<open>
  The queue between an audio track and an output,
  services/media/audio/audio_track_to_output_link.h and audio_track_to_output_link.cc. The
  track pushes packets and flushes the queue from the main thread; the output locks the
  front of the queue, mixes it and unlocks it from a mixing thread.

  The operations are functions on the state of the link. A packet is known by the pointer
  to it. \<open>lk_returned\<close> records the packets whose reference the link has dropped, with the
  result their sender gets. \<^verbatim>\<open>FlushPendingQueue\<close> drops the locks between exchanging the
  queues and releasing the old one, so it is two operations here, and the queue it still
  has to release is \<open>lk_flushing\<close>. An operation that waits for the flush lock is \<open>None\<close>
  while the lock is taken.
\<close>

section \<open>Operations\<close>

record 'p Link =
  lk_pending :: "'p list"
  lk_flushed :: bool
  lk_flush_lock :: bool
  lk_flushing :: "'p list"
  lk_returned :: "('p \<times> SendResult) list"

definition Link_new :: "'p Link" where
  "Link_new = \<lparr> lk_pending = [], lk_flushed = True, lk_flush_lock = False, lk_flushing = [], lk_returned = [] \<rparr>"

definition PushToPendingQueue :: "'p \<Rightarrow> 'p Link \<Rightarrow> 'p Link" where
  "PushToPendingQueue pkt s = s\<lparr>lk_pending := lk_pending s @ [pkt]\<rparr>"

text \<open>The part of \<^verbatim>\<open>FlushPendingQueue\<close> under the locks.\<close>

definition FlushPendingQueue_swap :: "'p Link \<Rightarrow> 'p Link option" where
  "FlushPendingQueue_swap s =
     (if lk_flush_lock s then None
      else Some (s\<lparr>lk_flushing := lk_pending s, lk_pending := [], lk_flushed := True\<rparr>))"

text \<open>One round of the loop of \<^verbatim>\<open>ReleaseQueue\<close>, and the loop.\<close>

definition release_one :: "'p Link \<Rightarrow> 'p Link" where
  "release_one s = (case lk_flushing s of [] \<Rightarrow> s
     | p # ps \<Rightarrow> s\<lparr>lk_flushing := ps, lk_returned := lk_returned s @ [(p, SR_FLUSHED)]\<rparr>)"

definition ReleaseQueue :: "'p Link \<Rightarrow> 'p Link" where
  "ReleaseQueue s = (release_one ^^ length (lk_flushing s)) s"

definition FlushPendingQueue :: "'p Link \<Rightarrow> 'p Link option" where
  "FlushPendingQueue s = map_option ReleaseQueue (FlushPendingQueue_swap s)"

definition LockPendingQueueFront :: "'p Link \<Rightarrow> (bool \<times> 'p option \<times> 'p Link) res" where
  "LockPendingQueueFront s =
     dcheck (\<not> lk_flush_lock s)
       (Inr (lk_flushed s, (case lk_pending s of [] \<Rightarrow> None | p # _ \<Rightarrow> Some p),
          s\<lparr>lk_flush_lock := True, lk_flushed := False\<rparr>))"

definition UnlockPendingQueueFront :: "'p option \<Rightarrow> bool \<Rightarrow> 'p Link \<Rightarrow> 'p Link res" where
  "UnlockPendingQueueFront pkt release_packet s =
     dcheck (pkt = None \<or> (lk_pending s \<noteq> [] \<and> pkt = Some (hd (lk_pending s))))
       (let s = (case pkt of None \<Rightarrow> s
                 | Some p \<Rightarrow> if release_packet
                     then s\<lparr>lk_pending := tl (lk_pending s), lk_returned := lk_returned s @ [(p, SR_CONSUMED)]\<rparr> else s)
        in dcheck (lk_flush_lock s) (Inr (s\<lparr>lk_flush_lock := False\<rparr>)))"

section \<open>The two threads\<close>

text \<open>
  The track's thread flushes or pushes, and does not push while it flushes, as its calls
  are serialised on the main message loop. The output's thread locks and unlocks in turn,
  and gives back the packet it was given. \<open>ls_pushed\<close> and \<open>ls_resets\<close> only record what has
  happened: the packets in the order they were pushed, and for every call of
  \<^verbatim>\<open>LockPendingQueueFront\<close> what it reported and whether there was a flush since the last one.
\<close>

record 'p link_sys =
  ls_link :: "'p Link"
  ls_held :: "'p option option"
  ls_pushed :: "'p list"
  ls_flushed_since :: bool
  ls_resets :: "(bool \<times> bool) list"

definition link_start :: "'p link_sys" where
  "link_start = \<lparr> ls_link = Link_new, ls_held = None, ls_pushed = [], ls_flushed_since = True, ls_resets = [] \<rparr>"

inductive link_step :: "'p link_sys \<Rightarrow> 'p link_sys \<Rightarrow> bool" where
  push: "lk_flushing (ls_link s) = [] \<Longrightarrow>
    link_step s (s\<lparr>ls_link := PushToPendingQueue p (ls_link s), ls_pushed := ls_pushed s @ [p]\<rparr>)"
| flush: "lk_flushing (ls_link s) = [] \<Longrightarrow> FlushPendingQueue_swap (ls_link s) = Some l \<Longrightarrow>
    link_step s (s\<lparr>ls_link := l, ls_flushed_since := True\<rparr>)"
| release: "link_step s (s\<lparr>ls_link := release_one (ls_link s)\<rparr>)"
| lock: "ls_held s = None \<Longrightarrow> LockPendingQueueFront (ls_link s) = Inr (was_flushed, pkt, l) \<Longrightarrow>
    link_step s (s\<lparr>ls_link := l, ls_held := Some pkt, ls_flushed_since := False,
      ls_resets := ls_resets s @ [(was_flushed, ls_flushed_since s)]\<rparr>)"
| unlock: "ls_held s = Some pkt \<Longrightarrow> UnlockPendingQueueFront pkt b (ls_link s) = Inr l \<Longrightarrow>
    link_step s (s\<lparr>ls_link := l, ls_held := None\<rparr>)"

inductive link_reachable :: "'p link_sys \<Rightarrow> bool" where
  start: "link_reachable link_start"
| step: "link_reachable s \<Longrightarrow> link_step s t \<Longrightarrow> link_reachable t"

section \<open>Order\<close>

definition link_inv :: "'p link_sys \<Rightarrow> bool" where
  "link_inv s \<longleftrightarrow>
     map fst (lk_returned (ls_link s)) @ lk_flushing (ls_link s) @ lk_pending (ls_link s) = ls_pushed s \<and>
     (lk_flushing (ls_link s) = [] \<or> lk_pending (ls_link s) = []) \<and>
     lk_flush_lock (ls_link s) = (ls_held s \<noteq> None) \<and>
     lk_flushed (ls_link s) = ls_flushed_since s \<and>
     (\<forall>(w, f) \<in> set (ls_resets s). w = f) \<and>
     (\<forall>p. ls_held s = Some (Some p) \<longrightarrow> (\<exists>ps. lk_pending (ls_link s) = p # ps))"

lemmas link_defs = PushToPendingQueue_def FlushPendingQueue_swap_def release_one_def LockPendingQueueFront_def
  UnlockPendingQueueFront_def

lemma link_step_inv:
  assumes "link_step s t" "link_inv s"
  shows "link_inv t"
  using assms(1)
proof cases
  case (push p)
  with assms(2) show ?thesis by (auto simp: link_inv_def link_defs)
next
  case (flush l)
  with assms(2) show ?thesis by (auto simp: link_inv_def link_defs split: if_splits)
next
  case release
  with assms(2) show ?thesis by (auto simp: link_inv_def link_defs split: list.split)
next
  case (lock was_flushed pkt l)
  then have l: "l = (ls_link s)\<lparr>lk_flush_lock := True, lk_flushed := False\<rparr>" "was_flushed = lk_flushed (ls_link s)"
    "pkt = (case lk_pending (ls_link s) of [] \<Rightarrow> None | p # _ \<Rightarrow> Some p)"
    by (simp_all add: LockPendingQueueFront_def dcheck_def split: if_splits)
  have "\<exists>ps. lk_pending (ls_link s) = p # ps" if "pkt = Some p" for p
    using that by (cases "lk_pending (ls_link s)") (simp_all add: l)
  with assms(2) show ?thesis unfolding lock(1) by (simp add: link_inv_def l(1,2))
next
  case (unlock pkt b l)
  have inv: "map fst (lk_returned (ls_link s)) @ lk_flushing (ls_link s) @ lk_pending (ls_link s) = ls_pushed s"
    "lk_flushing (ls_link s) = [] \<or> lk_pending (ls_link s) = []" "lk_flushed (ls_link s) = ls_flushed_since s"
    "\<forall>(w, f) \<in> set (ls_resets s). w = f" using assms(2) by (simp_all add: link_inv_def)
  show ?thesis
  proof (cases "pkt = None \<or> \<not> b")
    case True
    with unlock have "l = (ls_link s)\<lparr>lk_flush_lock := False\<rparr>"
      by (auto simp: UnlockPendingQueueFront_def dcheck_def Let_def split: if_splits option.splits)
    with inv show ?thesis unfolding unlock(1) by (simp add: link_inv_def)
  next
    case False
    then obtain p ps where p: "pkt = Some p" "lk_pending (ls_link s) = p # ps" using assms(2) unlock(2) by (auto simp: link_inv_def)
    with unlock(3) False have "l = (ls_link s)\<lparr>lk_pending := ps, lk_returned := lk_returned (ls_link s) @ [(p, SR_CONSUMED)], lk_flush_lock := False\<rparr>"
      by (simp add: UnlockPendingQueueFront_def dcheck_def Let_def split: if_splits)
    with inv p show ?thesis unfolding unlock(1) by (simp add: link_inv_def)
  qed
qed

lemma link_reachable_inv: "link_reachable s \<Longrightarrow> link_inv s"
proof (induction rule: link_reachable.induct)
  case start
  show ?case by (simp add: link_inv_def link_start_def Link_new_def)
qed (rule link_step_inv)

text \<open>
  C23. Whatever the interleaving of the two threads, packets leave the link in the order
  they were pushed, whether they were mixed or flushed, and none is lost or returned
  twice. The output can always lock when it holds no lock, and giving back the front it
  was given never fails a DCHECK, although the track pushes and flushes at the same time;
  it is told of a flush exactly when there was one since it last locked the queue.
\<close>

theorem link_keeps_order:
  assumes "link_reachable s"
  shows "map fst (lk_returned (ls_link s)) @ lk_flushing (ls_link s) @ lk_pending (ls_link s) = ls_pushed s \<and>
    (\<forall>pkt b. ls_held s = Some pkt \<longrightarrow> (\<exists>l. UnlockPendingQueueFront pkt b (ls_link s) = Inr l)) \<and>
    (ls_held s = None \<longrightarrow> (\<exists>r. LockPendingQueueFront (ls_link s) = Inr r)) \<and>
    (\<forall>(was_flushed, f) \<in> set (ls_resets s). was_flushed = f)"
proof -
  have inv: "link_inv s" using assms by (rule link_reachable_inv)
  have "\<exists>l. UnlockPendingQueueFront pkt b (ls_link s) = Inr l" if "ls_held s = Some pkt" for pkt b
    using inv that by (cases pkt) (auto simp: link_inv_def UnlockPendingQueueFront_def)
  moreover have "ls_held s = None \<longrightarrow> (\<exists>r. LockPendingQueueFront (ls_link s) = Inr r)"
    using inv by (auto simp: link_inv_def LockPendingQueueFront_def)
  ultimately show ?thesis using inv by (simp add: link_inv_def)
qed

section \<open>What an output relies on\<close>

text \<open>
  The contract of the queue towards the thread that mixes, while no other thread
  interferes: locking shows the front, and unlocking keeps it or takes it off.
\<close>

locale packet_queue =
  fixes Lock :: "'q \<Rightarrow> (bool \<times> 'p option \<times> 'q) res"
    and Unlock :: "'p option \<Rightarrow> bool \<Rightarrow> 'q \<Rightarrow> 'q res"
    and pending :: "'q \<Rightarrow> 'p list"
    and locked :: "'q \<Rightarrow> bool"
    and returned :: "'q \<Rightarrow> 'p list"
  assumes Lock: "\<not> locked q \<Longrightarrow> \<exists>f q'. Lock q = Inr (f, if pending q = [] then None else Some (hd (pending q)), q') \<and>
      locked q' \<and> pending q' = pending q \<and> returned q' = returned q"
    and Unlock_none: "locked q \<Longrightarrow> \<exists>q'. Unlock None b q = Inr q' \<and> \<not> locked q' \<and> pending q' = pending q \<and> returned q' = returned q"
    and Unlock_keep: "locked q \<Longrightarrow> pending q = p # ps \<Longrightarrow>
      \<exists>q'. Unlock (Some p) False q = Inr q' \<and> \<not> locked q' \<and> pending q' = p # ps \<and> returned q' = returned q"
    and Unlock_take: "locked q \<Longrightarrow> pending q = p # ps \<Longrightarrow>
      \<exists>q'. Unlock (Some p) True q = Inr q' \<and> \<not> locked q' \<and> pending q' = ps \<and> returned q' = returned q @ [p]"
begin

lemma see_empty:
  assumes "\<not> locked q" "pending q = []"
  obtains f q1 q2 where "Lock q = Inr (f, None, q1)" "Unlock None b q1 = Inr q2" "\<not> locked q2" "pending q2 = []" "returned q2 = returned q"
  using Lock [OF assms(1)] Unlock_none assms(2) by fastforce

lemma see_front:
  assumes "\<not> locked q" "pending q = p # ps"
  obtains f q1 q2 q3 where "Lock q = Inr (f, Some p, q1)"
    "Unlock (Some p) False q1 = Inr q2" "\<not> locked q2" "pending q2 = p # ps" "returned q2 = returned q"
    "Unlock (Some p) True q1 = Inr q3" "\<not> locked q3" "pending q3 = ps" "returned q3 = returned q @ [p]"
proof -
  obtain f q1 where q1: "Lock q = Inr (f, Some p, q1)" "locked q1" "pending q1 = p # ps" "returned q1 = returned q"
    using Lock [OF assms(1)] assms(2) by auto
  from Unlock_keep [OF q1(2,3)] Unlock_take [OF q1(2,3)] q1(1,4) that show thesis by auto
qed

end

interpretation lk: packet_queue LockPendingQueueFront UnlockPendingQueueFront lk_pending lk_flush_lock "\<lambda>l. map fst (lk_returned l)"
proof (unfold_locales, goal_cases)
  case (1 q)
  then show ?case by (cases "lk_pending q") (simp_all add: LockPendingQueueFront_def)
qed (simp_all add: UnlockPendingQueueFront_def)

section \<open>An example\<close>

text \<open>A run in which the output is mixing the first packet while the second one is pushed.\<close>

definition link_example :: "nat link_sys" where
  "link_example = \<lparr> ls_link = \<lparr> lk_pending = [1, 2], lk_flushed = False, lk_flush_lock = True, lk_flushing = [], lk_returned = [] \<rparr>,
     ls_held = Some (Some 1), ls_pushed = [1, 2], ls_flushed_since = False, ls_resets = [(True, True)] \<rparr>"

lemma link_example_reachable: "link_reachable link_example"
proof -
  note start [where 'p = nat]
  from link_reachable.step [OF this link_step.push [where p = 1]]
  have "link_reachable (link_start\<lparr>ls_link := Link_new\<lparr>lk_pending := [1 :: nat]\<rparr>, ls_pushed := [1]\<rparr>)"
    by (simp add: link_start_def Link_new_def PushToPendingQueue_def)
  from link_reachable.step [OF this link_step.lock]
  have "link_reachable (link_example\<lparr>ls_link := (ls_link link_example)\<lparr>lk_pending := [1]\<rparr>, ls_pushed := [1]\<rparr>)"
    by (simp add: link_start_def Link_new_def LockPendingQueueFront_def link_example_def)
  from link_reachable.step [OF this link_step.push [where p = 2]]
  show ?thesis by (simp add: link_example_def PushToPendingQueue_def)
qed

theorem link_keeps_order_witness:
  "link_reachable link_example \<and> (\<exists>l. UnlockPendingQueueFront (Some 1) True (ls_link link_example) = Inr l)"
  using link_keeps_order [OF link_example_reachable] link_example_reachable by (simp add: link_example_def)

end
