(* ===== verification/Mixer_Utils.thy ===== *)
theory Mixer_Utils
  imports Media_Prelude
begin

text \<open>
  The building blocks of the audio mixers: the fixed-point gain of
  services/media/audio/gain.h, and the sample readers, scalers and mixers of
  services/media/audio/platform/generic/mixers/mixer_utils.h. The templates of the
  sources are functions of their template arguments.

  A source buffer is a list of bytes, and a 16-bit sample is read from it in
  little-endian order. Samples are \<^verbatim>\<open>int32_t\<close> values: an \<open>int\<close> within range, with the
  conversions and the one addition that can overflow written out.
\<close>

section \<open>Gain\<close>

type_synonym AScale = u32

definition FRACTIONAL_BITS :: nat where
  "FRACTIONAL_BITS = 28"

definition UNITY :: AScale where
  "UNITY = push_bit FRACTIONAL_BITS 1"

definition MuteThreshold :: "nat \<Rightarrow> AScale" where
  "MuteThreshold bit_count = push_bit (FRACTIONAL_BITS - bit_count) 1 - 1"

section \<open>Samples\<close>

datatype ScalerType = MUTED | LT_UNITY | EQ_UNITY | GT_UNITY

datatype AudioSampleFormat = ANY | UNSIGNED_8 | SIGNED_16 | SIGNED_24_IN_32 | FLOAT

definition SampleNormalizer_Read :: "AudioSampleFormat \<Rightarrow> u8 list \<Rightarrow> nat \<Rightarrow> int res" where
  "SampleNormalizer_Read fmt src i = (case fmt of
     UNSIGNED_8 \<Rightarrow> if i < length src then Inr (uint (src ! i) * 2 ^ 8 - 0x8000) else Inl Out_of_range
   | SIGNED_16 \<Rightarrow>
       if 2 * i + 1 < length src
       then Inr (sint (word_of_int (uint (src ! (2 * i)) + 2 ^ 8 * uint (src ! (2 * i + 1))) :: 16 word))
       else Inl Out_of_range
   | _ \<Rightarrow> Inl Out_of_range)"

definition SampleScaler_Scale :: "ScalerType \<Rightarrow> int \<Rightarrow> AScale \<Rightarrow> int" where
  "SampleScaler_Scale t val scale = (case t of
     MUTED \<Rightarrow> 0
   | LT_UNITY \<Rightarrow> to_int32 ((val * uint scale) div 2 ^ FRACTIONAL_BITS)
   | EQ_UNITY \<Rightarrow> val
   | GT_UNITY \<Rightarrow>
       let val = to_int32 ((val * uint scale) div 2 ^ FRACTIONAL_BITS)
       in if val > 32767 then 32767 else if val < - 32768 then - 32768 else val)"

definition DstPerSrc :: "nat \<Rightarrow> nat \<Rightarrow> nat" where
  "DstPerSrc SChCount DChCount = (if SChCount = 2 \<and> DChCount = 1 then 1 else DChCount div SChCount)"

definition SrcReader_Read :: "AudioSampleFormat \<Rightarrow> nat \<Rightarrow> nat \<Rightarrow> u8 list \<Rightarrow> nat \<Rightarrow> int res" where
  "SrcReader_Read fmt SChCount DChCount src i =
     (if SChCount = 2 \<and> DChCount = 1
      then rbind (SampleNormalizer_Read fmt src i) (\<lambda>a.
           rbind (SampleNormalizer_Read fmt src (i + 1)) (\<lambda>b. Inr ((a + b) div 2)))
      else SampleNormalizer_Read fmt src i)"

definition DstMixer_Mix :: "ScalerType \<Rightarrow> bool \<Rightarrow> int \<Rightarrow> int \<Rightarrow> AScale \<Rightarrow> int res" where
  "DstMixer_Mix t DoAccumulate dst sample scale =
     (if DoAccumulate then s32 (SampleScaler_Scale t sample scale + dst)
      else Inr (SampleScaler_Scale t sample scale))"

section \<open>Scaling\<close>

definition in_int16 :: "int \<Rightarrow> bool" where
  "in_int16 x \<longleftrightarrow> - 32768 \<le> x \<and> x \<le> 32767"

definition clip16 :: "int \<Rightarrow> int" where
  "clip16 x = max (- 32768) (min 32767 x)"

lemma clip16_range [simp]: "in_int16 (clip16 x)"
  by (simp add: in_int16_def clip16_def)

lemma clip16_id: "in_int16 x \<Longrightarrow> clip16 x = x"
  by (simp add: in_int16_def clip16_def)

lemma uint_less_u32: "uint (s :: u32) < 2 ^ 32"
  using uint_bounded [of s] by simp

lemma scale_mult_bounds:
  fixes u B :: int
  assumes "in_int16 v" "0 \<le> u" "u \<le> B"
  shows "- 32768 * B \<le> v * u" "v * u \<le> 32767 * B"
proof -
  have B: "0 \<le> B" using assms by simp
  have "(- v) * u \<le> 32768 * B" if "v < 0" using assms that by (intro mult_mono) (auto simp: in_int16_def)
  moreover have "0 \<le> v * u" if "0 \<le> v" using assms that by simp
  ultimately show "- 32768 * B \<le> v * u" using B by (cases "v < 0") auto
  have "v * u \<le> 32767 * B" if "0 \<le> v" using assms that B by (intro mult_mono) (auto simp: in_int16_def)
  moreover have "v * u \<le> 0" if "v < 0" using assms that by (intro mult_nonpos_nonneg) auto
  ultimately show "v * u \<le> 32767 * B" using B by (cases "v < 0") auto
qed

lemma div_bounds:
  fixes x d :: int
  assumes "0 < d" "a * d \<le> x" "x \<le> b * d"
  shows "a \<le> x div d" "x div d \<le> b"
  using zdiv_mono1 [OF assms(2,1)] zdiv_mono1 [OF assms(3,1)] assms(1) by simp_all

lemma scaled_bounds:
  assumes "in_int16 v"
  shows "in_int32 (v * uint (s :: u32) div 2 ^ 28)"
proof -
  have "uint s \<le> 2 ^ 32" using uint_less_u32 [of s] by simp
  note b = scale_mult_bounds [OF assms uint_ge_0 this]
  have "- 524288 * 2 ^ 28 \<le> v * uint s" "v * uint s \<le> 524288 * 2 ^ 28" using b by simp_all
  from div_bounds [OF _ this] show ?thesis by (simp add: in_int32_def)
qed

text \<open>The three ways to scale agree with one formula, whenever they are chosen.\<close>

definition scaled :: "int \<Rightarrow> AScale \<Rightarrow> int" where
  "scaled v s = clip16 (v * uint s div 2 ^ 28)"

lemma uint_UNITY: "uint UNITY = 2 ^ 28"
  by (simp add: UNITY_def FRACTIONAL_BITS_def)

lemma scale_lt_range:
  assumes "in_int16 v" "s \<le> UNITY"
  shows "in_int16 (v * uint s div 2 ^ 28)"
proof -
  have "uint s \<le> 2 ^ 28" using assms(2) uint_UNITY by (simp add: word_le_def)
  note b = scale_mult_bounds [OF assms(1) uint_ge_0 this]
  from div_bounds [OF _ b] show ?thesis by (simp add: in_int16_def)
qed

lemma SampleScaler_exact:
  assumes "in_int16 v"
  shows "s = UNITY \<Longrightarrow> SampleScaler_Scale EQ_UNITY v s = scaled v s"
    "s < UNITY \<Longrightarrow> SampleScaler_Scale LT_UNITY v s = scaled v s"
    "SampleScaler_Scale GT_UNITY v s = scaled v s"
proof -
  note i = scaled_bounds [OF assms, of s]
  show "s = UNITY \<Longrightarrow> SampleScaler_Scale EQ_UNITY v s = scaled v s"
    using assms by (simp add: SampleScaler_Scale_def scaled_def uint_UNITY clip16_id)
  show "s < UNITY \<Longrightarrow> SampleScaler_Scale LT_UNITY v s = scaled v s"
    using i scale_lt_range [OF assms, of s]
    by (simp add: SampleScaler_Scale_def scaled_def FRACTIONAL_BITS_def clip16_id)
  show "SampleScaler_Scale GT_UNITY v s = scaled v s"
    using i by (auto simp: SampleScaler_Scale_def scaled_def FRACTIONAL_BITS_def clip16_def Let_def)
qed

lemma muted_scaled:
  assumes "in_int16 v" "s < MuteThreshold 15"
  shows "scaled v s = (if v * uint s < 0 then - 1 else 0)"
proof -
  have "uint (MuteThreshold 15) = 2 ^ 13 - 1" by (simp add: MuteThreshold_def FRACTIONAL_BITS_def)
  with assms(2) have "uint s \<le> 2 ^ 13" by (simp add: word_less_def)
  note b = scale_mult_bounds [OF assms(1) uint_ge_0 this]
  have "v * uint s div 2 ^ 28 = (if v * uint s < 0 then - 1 else 0)"
  proof (cases "v * uint s < 0")
    case True
    have "(v * uint s + 2 ^ 28) div 2 ^ 28 = 0" using True b by simp
    with True show ?thesis by simp
  next
    case False
    with b show ?thesis by simp
  qed
  then show ?thesis by (simp add: scaled_def clip16_def)
qed

end
