(* ===== verification/Samplers.thy ===== *)
theory Samplers
  imports Mixer_Utils Linear_Transform
begin

text \<open>
  The mixers of services/media/audio/platform/generic: \<^verbatim>\<open>PointSampler\<close>, \<^verbatim>\<open>LinearSampler\<close> and
  \<^verbatim>\<open>NoOp\<close> (mixers/point_sampler.cc, mixers/linear_sampler.cc, mixers/no_op.cc) and the choice
  between them (mixer.h, mixer.cc).

  The destination buffer is a list of \<^verbatim>\<open>int32_t\<close> values, the source buffer a list of bytes.
  Positions in the source are in fractional frames, with 12 fractional bits. The
  sources keep the position in an \<^verbatim>\<open>int32_t\<close> and add an unsigned step to it, so the sum is
  converted back, which may wrap.
\<close>

section \<open>The loops\<close>

definition PTS_FRACTIONAL_BITS :: nat where
  "PTS_FRACTIONAL_BITS = 12"

definition FRAC_ONE :: int where
  "FRAC_ONE = 2 ^ PTS_FRACTIONAL_BITS"

definition FRAC_MASK :: int where
  "FRAC_MASK = FRAC_ONE - 1"

text \<open>The inner loop over the channels of one output frame, from channel \<open>D\<close> on.\<close>

fun mix_channels :: "(nat \<Rightarrow> int res) \<Rightarrow> ScalerType \<Rightarrow> bool \<Rightarrow> AScale \<Rightarrow> nat \<Rightarrow> nat \<Rightarrow> nat \<Rightarrow> int list \<Rightarrow> int list res" where
  "mix_channels rd t acc amp out D 0 dst = Inr dst"
| "mix_channels rd t acc amp out D (Suc n) dst =
     rbind (rd D) (\<lambda>sample.
       if out + D < length dst
       then rbind (DstMixer_Mix t acc (dst ! (out + D)) sample amp) (\<lambda>v.
              mix_channels rd t acc amp out (Suc D) n (dst[out + D := v]))
       else Inl Out_of_range)"

text \<open>
  The loop that all samplers have: one output frame per round while there is room in
  the destination and the position is below a limit. \<open>rd\<close> computes the sample of a channel
  at a position.
\<close>

function sample_loop :: "(int \<Rightarrow> nat \<Rightarrow> int res) \<Rightarrow> ScalerType \<Rightarrow> bool \<Rightarrow> AScale \<Rightarrow> nat \<Rightarrow> nat \<Rightarrow> int \<Rightarrow> nat \<Rightarrow>
    int list \<Rightarrow> nat \<Rightarrow> int \<Rightarrow> (int list \<times> nat \<times> int) res" where
  "sample_loop rd t acc amp DChCount dst_frames limit step dst doff soff =
     (if doff < dst_frames \<and> soff < limit
      then rbind (mix_channels (rd soff) t acc amp (doff * DChCount) 0 DChCount dst) (\<lambda>dst.
             sample_loop rd t acc amp DChCount dst_frames limit step dst (doff + 1) (to_int32 (soff + int step)))
      else Inr (dst, doff, soff))"
  by pat_completeness auto

termination sample_loop
  by (relation "measure (\<lambda>(_, _, _, _, _, dst_frames, _, _, _, doff, _). dst_frames - doff)") auto

declare sample_loop.simps [simp del]

text \<open>How far the muted samplers skip, in the unsigned 32-bit arithmetic of the sources.\<close>

definition skip_count :: "int \<Rightarrow> nat \<Rightarrow> nat \<Rightarrow> nat \<Rightarrow> nat res" where
  "skip_count distance step dst_frames doff =
     (if step = 0 then Inl Div_by_zero
      else let src_avail = nat ((distance + int step - 1) mod 2 ^ 32) div step;
               dst_avail = dst_frames - doff
           in Inr (min src_avail dst_avail))"

section \<open>The point sampler\<close>

definition PointSampler_read :: "AudioSampleFormat \<Rightarrow> nat \<Rightarrow> nat \<Rightarrow> u8 list \<Rightarrow> int \<Rightarrow> nat \<Rightarrow> int res" where
  "PointSampler_read fmt SChCount DChCount src soff D =
     SrcReader_Read fmt SChCount DChCount src
       (nat (soff div 2 ^ PTS_FRACTIONAL_BITS * int SChCount mod 2 ^ 32) + D div DstPerSrc SChCount DChCount)"

definition PointSampler_Mix_typed :: "ScalerType \<Rightarrow> bool \<Rightarrow> AudioSampleFormat \<Rightarrow> nat \<Rightarrow> nat \<Rightarrow> int list \<Rightarrow> nat \<Rightarrow> nat \<Rightarrow>
    u8 list \<Rightarrow> nat \<Rightarrow> int \<Rightarrow> nat \<Rightarrow> AScale \<Rightarrow> (bool \<times> int list \<times> nat \<times> int) res" where
  "PointSampler_Mix_typed t DoAccumulate fmt SChCount DChCount dst dst_frames dst_offset src frac_src_frames
       frac_src_offset frac_step_size amplitude_scale =
     dcheck (frac_src_frames \<le> 2 ^ 31 - 1) (dcheck (frac_src_offset < int frac_src_frames) (dcheck (frac_src_offset \<ge> 0)
      (rbind
        (if t \<noteq> MUTED
         then sample_loop (PointSampler_read fmt SChCount DChCount src) t DoAccumulate amplitude_scale DChCount dst_frames
                (int frac_src_frames) frac_step_size dst dst_offset frac_src_offset
         else if dst_offset < dst_frames
         then rbind (skip_count (int frac_src_frames - frac_src_offset) frac_step_size dst_frames dst_offset) (\<lambda>avail.
                Inr (dst, dst_offset + avail, to_int32 (frac_src_offset + int (avail * frac_step_size))))
         else Inr (dst, dst_offset, frac_src_offset))
        (\<lambda>(dst, doff, soff). Inr (soff \<ge> int frac_src_frames, dst, doff, soff)))))"

text \<open>Both samplers choose the scaler in the same way.\<close>

definition select_scaler :: "AScale \<Rightarrow> bool \<Rightarrow> ScalerType \<times> bool" where
  "select_scaler amplitude_scale accumulate =
     (if amplitude_scale = UNITY then (EQ_UNITY, accumulate)
      else if amplitude_scale < MuteThreshold 15 then (MUTED, False)
      else if amplitude_scale < UNITY then (LT_UNITY, accumulate)
      else (GT_UNITY, accumulate))"

definition PointSampler_Mix :: "AudioSampleFormat \<Rightarrow> nat \<Rightarrow> nat \<Rightarrow> int list \<Rightarrow> nat \<Rightarrow> nat \<Rightarrow>
    u8 list \<Rightarrow> nat \<Rightarrow> int \<Rightarrow> nat \<Rightarrow> AScale \<Rightarrow> bool \<Rightarrow> (bool \<times> int list \<times> nat \<times> int) res" where
  "PointSampler_Mix fmt SChCount DChCount dst dst_frames dst_offset src frac_src_frames
       frac_src_offset frac_step_size amplitude_scale accumulate =
     (case select_scaler amplitude_scale accumulate of (t, acc) \<Rightarrow>
        PointSampler_Mix_typed t acc fmt SChCount DChCount dst dst_frames dst_offset src frac_src_frames
          frac_src_offset frac_step_size amplitude_scale)"

section \<open>The linear sampler\<close>

definition Interpolate :: "int \<Rightarrow> int \<Rightarrow> int \<Rightarrow> int res" where
  "Interpolate A B alpha =
     rbind (s32 (A * (FRAC_ONE - alpha))) (\<lambda>x. rbind (s32 (B * alpha)) (\<lambda>y.
       rbind (s32 (x + y)) (\<lambda>z. Inr (z div 2 ^ PTS_FRACTIONAL_BITS))))"

text \<open>Reading one frame, channel by channel, into the filter data.\<close>

fun read_channels :: "(nat \<Rightarrow> int res) \<Rightarrow> nat \<Rightarrow> nat \<Rightarrow> int list \<Rightarrow> nat \<Rightarrow> int list res" where
  "read_channels rd D 0 filter_data base = Inr filter_data"
| "read_channels rd D (Suc n) filter_data base =
     rbind (rd D) (\<lambda>sample.
       if base + D < length filter_data
       then read_channels rd (Suc D) n (filter_data[base + D := sample]) base
       else Inl Out_of_range)"

definition frame_index :: "nat \<Rightarrow> int \<Rightarrow> nat" where
  "frame_index SChCount soff = nat (soff div 2 ^ PTS_FRACTIONAL_BITS * int SChCount mod 2 ^ 32)"

definition LinearSampler_read :: "AudioSampleFormat \<Rightarrow> nat \<Rightarrow> nat \<Rightarrow> u8 list \<Rightarrow> int \<Rightarrow> nat \<Rightarrow> int res" where
  "LinearSampler_read fmt SChCount DChCount src soff D =
     rbind (SrcReader_Read fmt SChCount DChCount src (frame_index SChCount soff + D div DstPerSrc SChCount DChCount)) (\<lambda>s1.
     rbind (SrcReader_Read fmt SChCount DChCount src (frame_index SChCount soff + D div DstPerSrc SChCount DChCount + SChCount)) (\<lambda>s2.
       Interpolate s1 s2 (soff mod (FRAC_MASK + 1))))"

definition LinearSampler_before :: "nat \<Rightarrow> int list \<Rightarrow> int \<Rightarrow> nat \<Rightarrow> int res" where
  "LinearSampler_before DChCount filter_data soff D =
     (if DChCount + D < length filter_data
      then Interpolate (filter_data ! (DChCount + D)) (filter_data ! D) (- soff) else Inl Out_of_range)"

text \<open>\<^verbatim>\<open>Mix\<close> up to the frames before the last one.\<close>

definition LinearSampler_produce :: "ScalerType \<Rightarrow> bool \<Rightarrow> AudioSampleFormat \<Rightarrow> nat \<Rightarrow> nat \<Rightarrow> int list \<Rightarrow> int list \<Rightarrow>
    nat \<Rightarrow> nat \<Rightarrow> u8 list \<Rightarrow> int \<Rightarrow> int \<Rightarrow> nat \<Rightarrow> AScale \<Rightarrow> (int list \<times> int list \<times> nat \<times> int) res" where
  "LinearSampler_produce t DoAccumulate fmt SChCount DChCount filter_data dst dst_frames doff src send soff
       frac_step_size amplitude_scale =
     (if t \<noteq> MUTED
      then rbind
        (if soff < 0
         then rbind (read_channels (\<lambda>D. SrcReader_Read fmt SChCount DChCount src (0 + D div DstPerSrc SChCount DChCount))
                0 DChCount filter_data DChCount) (\<lambda>filter_data.
              rbind (sample_loop (LinearSampler_before DChCount filter_data) t DoAccumulate amplitude_scale DChCount
                dst_frames 0 frac_step_size dst doff soff) (\<lambda>r. Inr (filter_data, r)))
         else Inr (filter_data, dst, doff, soff))
        (\<lambda>(filter_data, dst, doff, soff).
          rbind (sample_loop (LinearSampler_read fmt SChCount DChCount src) t DoAccumulate amplitude_scale DChCount
            dst_frames send frac_step_size dst doff soff) (\<lambda>r. Inr (filter_data, r)))
      else if doff < dst_frames \<and> soff < send
      then rbind (skip_count (send - soff) frac_step_size dst_frames doff) (\<lambda>avail.
             Inr (filter_data, dst, doff + avail, to_int32 (soff + int (avail * frac_step_size))))
      else Inr (filter_data, dst, doff, soff))"

text \<open>\<^verbatim>\<open>Mix\<close> from there on: the last frame, when the position hits it, and the filter data.\<close>

definition LinearSampler_finish :: "ScalerType \<Rightarrow> bool \<Rightarrow> AudioSampleFormat \<Rightarrow> nat \<Rightarrow> nat \<Rightarrow> nat \<Rightarrow> u8 list \<Rightarrow> int \<Rightarrow>
    nat \<Rightarrow> AScale \<Rightarrow> int list \<times> int list \<times> nat \<times> int \<Rightarrow> (bool \<times> int list \<times> int list \<times> nat \<times> int) res" where
  "LinearSampler_finish t DoAccumulate fmt SChCount DChCount dst_frames src send frac_step_size amplitude_scale = (\<lambda>(filter_data, dst, doff, soff).
     rbind
       (if doff < dst_frames \<and> soff = send
        then rbind (if t \<noteq> MUTED
                    then mix_channels
                           (\<lambda>D. SrcReader_Read fmt SChCount DChCount src (frame_index SChCount soff + D div DstPerSrc SChCount DChCount))
                           t DoAccumulate amplitude_scale (doff * DChCount) 0 DChCount dst
                    else Inr dst)
               (\<lambda>dst. Inr (dst, doff + 1, to_int32 (soff + int frac_step_size)))
        else Inr (dst, doff, soff))
       (\<lambda>(dst, doff, soff).
         if soff \<ge> send
         then rbind (read_channels
                  (\<lambda>D. SrcReader_Read fmt SChCount DChCount src (frame_index SChCount send + D div DstPerSrc SChCount DChCount))
                  0 DChCount filter_data 0) (\<lambda>filter_data.
                Inr (doff < dst_frames, filter_data, dst, doff, soff))
         else Inr (False, filter_data, dst, doff, soff)))"

definition LinearSampler_Mix_typed :: "ScalerType \<Rightarrow> bool \<Rightarrow> AudioSampleFormat \<Rightarrow> nat \<Rightarrow> nat \<Rightarrow> int list \<Rightarrow> int list \<Rightarrow>
    nat \<Rightarrow> nat \<Rightarrow> u8 list \<Rightarrow> nat \<Rightarrow> int \<Rightarrow> nat \<Rightarrow> AScale \<Rightarrow> (bool \<times> int list \<times> int list \<times> nat \<times> int) res" where
  "LinearSampler_Mix_typed t DoAccumulate fmt SChCount DChCount filter_data dst dst_frames dst_offset src
       frac_src_frames frac_src_offset frac_step_size amplitude_scale =
     (let send = to_int32 (int frac_src_frames - FRAC_ONE)
      in dcheck (dst_offset < dst_frames) (dcheck (int frac_src_frames \<ge> FRAC_ONE)
        (dcheck (frac_src_frames \<le> 2 ^ 31 - 1) (dcheck (frac_src_offset \<ge> 0 \<or> - frac_src_offset < FRAC_ONE)
          (rbind
            (LinearSampler_produce t DoAccumulate fmt SChCount DChCount filter_data dst dst_frames dst_offset src send
               frac_src_offset frac_step_size amplitude_scale)
            (LinearSampler_finish t DoAccumulate fmt SChCount DChCount dst_frames src send frac_step_size amplitude_scale))))))"

definition LinearSampler_Mix :: "AudioSampleFormat \<Rightarrow> nat \<Rightarrow> nat \<Rightarrow> int list \<Rightarrow> int list \<Rightarrow>
    nat \<Rightarrow> nat \<Rightarrow> u8 list \<Rightarrow> nat \<Rightarrow> int \<Rightarrow> nat \<Rightarrow> AScale \<Rightarrow> bool \<Rightarrow> (bool \<times> int list \<times> int list \<times> nat \<times> int) res" where
  "LinearSampler_Mix fmt SChCount DChCount filter_data dst dst_frames dst_offset src frac_src_frames
       frac_src_offset frac_step_size amplitude_scale accumulate =
     (case select_scaler amplitude_scale accumulate of (t, acc) \<Rightarrow>
        LinearSampler_Mix_typed t acc fmt SChCount DChCount filter_data dst dst_frames dst_offset src frac_src_frames
          frac_src_offset frac_step_size amplitude_scale)"

definition LinearSampler_Reset :: "nat \<Rightarrow> int list" where
  "LinearSampler_Reset DChCount = replicate (2 * DChCount) 0"

section \<open>Mixers\<close>

record AudioMediaTypeDetails =
  sample_format :: AudioSampleFormat
  channels :: u32
  frames_per_second :: u32

text \<open>A mixer object: its template arguments and, for the linear sampler, its filter data.\<close>

datatype Mixer =
    NoOp
  | PointSampler AudioSampleFormat nat nat
  | LinearSampler AudioSampleFormat nat nat "int list"

definition pos_filter_width :: "Mixer \<Rightarrow> int" where
  "pos_filter_width m = (case m of NoOp \<Rightarrow> 0 | PointSampler _ _ _ \<Rightarrow> 0 | LinearSampler _ _ _ _ \<Rightarrow> FRAC_ONE - 1)"

definition neg_filter_width :: "Mixer \<Rightarrow> int" where
  "neg_filter_width m = (case m of NoOp \<Rightarrow> 0 | PointSampler _ _ _ \<Rightarrow> FRAC_ONE - 1 | LinearSampler _ _ _ _ \<Rightarrow> FRAC_ONE - 1)"

definition Mixer_Mix :: "Mixer \<Rightarrow> int list \<Rightarrow> nat \<Rightarrow> nat \<Rightarrow> u8 list \<Rightarrow> nat \<Rightarrow> int \<Rightarrow> nat \<Rightarrow> AScale \<Rightarrow> bool \<Rightarrow>
    (bool \<times> Mixer \<times> int list \<times> nat \<times> int) res" where
  "Mixer_Mix m dst dst_frames dst_offset src frac_src_frames frac_src_offset frac_step_size amplitude_scale accumulate =
     (case m of
        NoOp \<Rightarrow> Inr (False, m, dst, dst_offset, frac_src_offset)
      | PointSampler fmt s d \<Rightarrow>
          rbind (PointSampler_Mix fmt s d dst dst_frames dst_offset src frac_src_frames frac_src_offset frac_step_size
            amplitude_scale accumulate) (\<lambda>(consumed, r). Inr (consumed, m, r))
      | LinearSampler fmt s d filter_data \<Rightarrow>
          rbind (LinearSampler_Mix fmt s d filter_data dst dst_frames dst_offset src frac_src_frames frac_src_offset
            frac_step_size amplitude_scale accumulate)
            (\<lambda>(consumed, filter_data, r). Inr (consumed, LinearSampler fmt s d filter_data, r)))"

definition Mixer_Reset :: "Mixer \<Rightarrow> Mixer" where
  "Mixer_Reset m = (case m of LinearSampler fmt s d _ \<Rightarrow> LinearSampler fmt s d (LinearSampler_Reset d) | _ \<Rightarrow> m)"

definition select_channels :: "AudioMediaTypeDetails \<Rightarrow> AudioMediaTypeDetails \<Rightarrow> (AudioSampleFormat \<times> nat \<times> nat) option" where
  "select_channels src_format dst_format =
     (if channels dst_format = 1 \<or> channels dst_format = 2
      then if sample_format src_format = UNSIGNED_8 \<or> sample_format src_format = SIGNED_16
           then if channels src_format = 1 \<or> channels src_format = 2
                then Some (sample_format src_format, unat (channels src_format), unat (channels dst_format))
                else None
           else None
      else None)"

definition PointSampler_Select :: "AudioMediaTypeDetails \<Rightarrow> AudioMediaTypeDetails \<Rightarrow> Mixer option" where
  "PointSampler_Select src_format dst_format =
     map_option (\<lambda>(fmt, s, d). PointSampler fmt s d) (select_channels src_format dst_format)"

definition LinearSampler_Select :: "AudioMediaTypeDetails \<Rightarrow> AudioMediaTypeDetails \<Rightarrow> Mixer option" where
  "LinearSampler_Select src_format dst_format =
     map_option (\<lambda>(fmt, s, d). LinearSampler fmt s d (LinearSampler_Reset d)) (select_channels src_format dst_format)"

definition Mixer_Select :: "AudioMediaTypeDetails \<Rightarrow> AudioMediaTypeDetails option \<Rightarrow> Mixer option res" where
  "Mixer_Select src_format optional_dst_format = (case optional_dst_format of
     None \<Rightarrow> Inr (Some NoOp)
   | Some dst_format \<Rightarrow>
       rbind (Ratio_make (frames_per_second src_format) (frames_per_second dst_format)) (\<lambda>src_to_dst.
         if numerator src_to_dst = 1 then Inr (PointSampler_Select src_format dst_format)
         else Inr (LinearSampler_Select src_format dst_format)))"

section \<open>What the loops compute\<close>

text \<open>Changing the elements of a list between two indices.\<close>

definition overlay :: "nat \<Rightarrow> nat \<Rightarrow> (nat \<Rightarrow> 'a \<Rightarrow> 'a) \<Rightarrow> 'a list \<Rightarrow> 'a list" where
  "overlay lo hi g xs = map (\<lambda>j. if lo \<le> j \<and> j < hi then g j (xs ! j) else xs ! j) [0..<length xs]"

lemma overlay_length [simp]: "length (overlay lo hi g xs) = length xs"
  by (simp add: overlay_def)

lemma overlay_nth: "j < length xs \<Longrightarrow> overlay lo hi g xs ! j = (if lo \<le> j \<and> j < hi then g j (xs ! j) else xs ! j)"
  by (simp add: overlay_def)

lemma overlay_empty [simp]: "overlay lo lo g xs = xs"
  by (auto simp: list_eq_iff_nth_eq overlay_nth)

lemma overlay_join: "a \<le> b \<Longrightarrow> b \<le> c \<Longrightarrow> overlay b c g (overlay a b g xs) = overlay a c g xs"
  by (auto simp: list_eq_iff_nth_eq overlay_nth)

lemma overlay_update:
  "k < length xs \<Longrightarrow> xs[k := g k (xs ! k)] = overlay k (Suc k) g xs"
  by (auto simp: list_eq_iff_nth_eq overlay_nth nth_list_update)

lemma overlay_cong:
  "(\<And>j x. lo \<le> j \<Longrightarrow> j < hi \<Longrightarrow> g j x = h j x) \<Longrightarrow> overlay lo hi g xs = overlay lo hi h xs"
  by (auto simp: overlay_def)

text \<open>The value a mixer writes over an old one.\<close>

definition mixed :: "ScalerType \<Rightarrow> bool \<Rightarrow> AScale \<Rightarrow> int \<Rightarrow> int \<Rightarrow> int" where
  "mixed t acc amp old sample = (if acc then SampleScaler_Scale t sample amp + old else SampleScaler_Scale t sample amp)"

text \<open>Values to which a scaled sample can be added.\<close>

definition roomy :: "int \<Rightarrow> bool" where
  "roomy x \<longleftrightarrow> - (2 ^ 31) + 2 ^ 15 \<le> x \<and> x < 2 ^ 31 - 2 ^ 15"

lemma DstMixer_Mix_eq:
  assumes "in_int16 (SampleScaler_Scale t sample amp)" "acc \<longrightarrow> roomy old"
  shows "DstMixer_Mix t acc old sample amp = Inr (mixed t acc amp old sample)"
proof -
  have "acc \<longrightarrow> in_int32 (SampleScaler_Scale t sample amp + old)"
    using assms by (auto simp: in_int16_def roomy_def in_int32_def)
  then show ?thesis by (simp add: DstMixer_Mix_def mixed_def)
qed

lemma mix_channels_eq:
  assumes "\<forall>i. D \<le> i \<and> i < D + n \<longrightarrow> rd i = Inr (f i) \<and> in_int16 (SampleScaler_Scale t (f i) amp)"
    and "out + D + n \<le> length dst"
    and "\<forall>j. out + D \<le> j \<and> j < out + D + n \<longrightarrow> acc \<longrightarrow> roomy (dst ! j)"
  shows "mix_channels rd t acc amp out D n dst =
    Inr (overlay (out + D) (out + D + n) (\<lambda>j old. mixed t acc amp old (f (j - out))) dst)"
  using assms
proof (induction n arbitrary: D dst)
  case (Suc n)
  let ?g = "\<lambda>j old. mixed t acc amp old (f (j - out))"
  have m: "DstMixer_Mix t acc (dst ! (out + D)) (f D) amp = Inr (?g (out + D) (dst ! (out + D)))"
    using Suc.prems by (simp add: DstMixer_Mix_eq)
  let ?dst = "dst[out + D := ?g (out + D) (dst ! (out + D))]"
  have upd: "?dst = overlay (out + D) (Suc (out + D)) ?g dst" using Suc.prems(2) by (intro overlay_update) simp
  have "mix_channels rd t acc amp out (Suc D) n ?dst = Inr (overlay (out + Suc D) (out + Suc D + n) ?g ?dst)"
    by (rule Suc.IH) (use Suc.prems in \<open>auto simp: nth_list_update\<close>)
  moreover have "overlay (out + Suc D) (out + Suc D + n) ?g ?dst = overlay (out + D) (out + D + Suc n) ?g dst"
    unfolding upd using overlay_join [of "out + D" "Suc (out + D)" "out + D + Suc n" ?g dst] by simp
  ultimately show ?case using Suc.prems(1,2) m by simp
qed simp

text \<open>The number of rounds until the position reaches the limit.\<close>

definition steps :: "int \<Rightarrow> nat \<Rightarrow> int \<Rightarrow> nat" where
  "steps limit step soff = nat ((limit - soff + int step - 1) div int step)"

lemma steps_zero: "0 < step \<Longrightarrow> limit \<le> soff \<Longrightarrow> steps limit step soff = 0"
proof -
  assume a: "0 < step" "limit \<le> soff"
  then have "(limit - soff + int step - 1) div int step \<le> (int step - 1) div int step"
    by (intro zdiv_mono1) auto
  also have "\<dots> = 0" using a by simp
  finally show ?thesis by (simp add: steps_def)
qed

lemma steps_Suc:
  assumes "0 < step" "soff < limit"
  shows "steps limit step soff = Suc (steps limit step (soff + int step))"
proof -
  let ?x = "limit - soff - 1"
  have "limit - soff + int step - 1 = ?x + int step" by simp
  then have a: "(limit - soff + int step - 1) div int step = ?x div int step + 1"
    using assms(1) div_add_self2 [of "int step" ?x] by (simp only:)
  have "limit - (soff + int step) + int step - 1 = ?x" by simp
  then have b: "(limit - (soff + int step) + int step - 1) div int step = ?x div int step" by simp
  have "0 \<le> ?x div int step" using assms by (simp add: pos_imp_zdiv_nonneg_iff)
  with a b show ?thesis by (simp add: steps_def Suc_nat_eq_nat_zadd1)
qed

lemma steps_reach:
  assumes "0 < step"
  shows "limit \<le> soff + int (steps limit step soff) * int step"
proof (cases "soff < limit")
  case True
  let ?x = "limit - soff + int step - 1"
  have "0 \<le> ?x div int step" using True assms by (simp add: pos_imp_zdiv_nonneg_iff)
  then have "int (steps limit step soff) * int step = ?x div int step * int step" by (simp add: steps_def)
  also have "\<dots> = ?x - ?x mod int step" by (simp add: minus_mod_eq_div_mult [symmetric])
  finally show ?thesis using pos_mod_bound [of "int step" ?x] assms by linarith
next
  case False
  then show ?thesis using assms by (simp add: steps_zero)
qed

lemma steps_before:
  assumes "0 < step" "i < steps limit step soff"
  shows "soff + int i * int step < limit"
proof -
  let ?x = "limit - soff + int step - 1"
  have "int i + 1 \<le> ?x div int step" using assms(2) by (simp add: steps_def zless_nat_eq_int_zless)
  then have "(int i + 1) * int step \<le> ?x div int step * int step" using assms(1) by (intro mult_right_mono) auto
  also have "\<dots> \<le> ?x" using minus_mod_eq_div_mult [of ?x "int step"] pos_mod_sign [of "int step" ?x] assms(1) by linarith
  finally show ?thesis by (simp add: distrib_right)
qed

section \<open>The sampling loop\<close>

definition rounds :: "nat \<Rightarrow> nat \<Rightarrow> int \<Rightarrow> nat \<Rightarrow> int \<Rightarrow> nat" where
  "rounds dst_frames doff limit step soff = min (dst_frames - doff) (steps limit step soff)"

definition mixed_frames :: "(int \<Rightarrow> nat \<Rightarrow> int) \<Rightarrow> ScalerType \<Rightarrow> bool \<Rightarrow> AScale \<Rightarrow> nat \<Rightarrow> nat \<Rightarrow> nat \<Rightarrow> int \<Rightarrow> nat \<Rightarrow> int list \<Rightarrow> int list" where
  "mixed_frames f t acc amp dch step n soff doff dst =
     overlay (doff * dch) ((doff + n) * dch)
       (\<lambda>j old. mixed t acc amp old (f (soff + (int (j div dch) - int doff) * int step) (j mod dch))) dst"

lemma mixed_frames_length [simp]: "length (mixed_frames f t acc amp dch step n soff doff dst) = length dst"
  by (simp add: mixed_frames_def)

lemma mixed_frames_0 [simp]: "mixed_frames f t acc amp dch step 0 soff doff dst = dst"
  by (simp add: mixed_frames_def)

lemma mixed_frames_join:
  "mixed_frames f t acc amp dch step m (soff + int n * int step) (doff + n) (mixed_frames f t acc amp dch step n soff doff dst)
   = mixed_frames f t acc amp dch step (n + m) soff doff dst"
proof -
  have p: "soff + int n * int step + (int (j div dch) - int (doff + n)) * int step =
      soff + (int (j div dch) - int doff) * int step" for j
    by (simp add: algebra_simps)
  show ?thesis unfolding mixed_frames_def p using overlay_join [of "doff * dch" "(doff + n) * dch" "(doff + n + m) * dch"]
    by (simp add: add.assoc)
qed

lemma mix_frame_eq:
  assumes "\<forall>D < dch. rd D = Inr (f soff D) \<and> in_int16 (SampleScaler_Scale t (f soff D) amp)"
    and "doff * dch + dch \<le> length dst"
    and "\<forall>j. doff * dch \<le> j \<and> j < doff * dch + dch \<longrightarrow> acc \<longrightarrow> roomy (dst ! j)"
  shows "mix_channels rd t acc amp (doff * dch) 0 dch dst = Inr (mixed_frames f t acc amp dch step 1 soff doff dst)"
proof -
  have "mix_channels rd t acc amp (doff * dch) 0 dch dst =
      Inr (overlay (doff * dch + 0) (doff * dch + 0 + dch) (\<lambda>j old. mixed t acc amp old (f soff (j - doff * dch))) dst)"
    by (rule mix_channels_eq) (use assms in simp_all)
  also have "overlay (doff * dch + 0) (doff * dch + 0 + dch) (\<lambda>j old. mixed t acc amp old (f soff (j - doff * dch))) dst =
      mixed_frames f t acc amp dch step 1 soff doff dst"
  proof -
    have jd: "j div dch = doff \<and> j mod dch = j - doff * dch" if "doff * dch \<le> j" "j < doff * dch + dch" for j
    proof -
      have "j div dch = doff" by (rule div_nat_eqI) (use that in \<open>simp_all add: mult.commute\<close>)
      then show ?thesis using minus_div_mult_eq_mod [of j dch] by simp
    qed
    show ?thesis unfolding mixed_frames_def by (rule trans [OF _ overlay_cong]) (auto simp: jd add.commute)
  qed
  finally show ?thesis .
qed

lemma sample_loop_exact:
  assumes "0 < step" "limit + int step \<le> 2 ^ 31" "- (2 ^ 31) \<le> soff" "0 < dch" "dst_frames * dch \<le> length dst"
    and "\<forall>i < rounds dst_frames doff limit step soff. \<forall>D < dch. rd (soff + int i * int step) D = Inr (f (soff + int i * int step) D) \<and>
      in_int16 (SampleScaler_Scale t (f (soff + int i * int step) D) amp)"
    and "\<forall>j. doff * dch \<le> j \<and> j < dst_frames * dch \<longrightarrow> acc \<longrightarrow> roomy (dst ! j)"
  shows "sample_loop rd t acc amp dch dst_frames limit step dst doff soff =
    Inr (mixed_frames f t acc amp dch step (rounds dst_frames doff limit step soff) soff doff dst,
      doff + rounds dst_frames doff limit step soff,
      soff + int (rounds dst_frames doff limit step soff) * int step)"
  using assms(3-)
proof (induction "dst_frames - doff" arbitrary: doff soff dst)
  case 0
  then show ?case by (subst sample_loop.simps) (simp add: rounds_def)
next
  case (Suc k)
  show ?case
  proof (cases "soff < limit")
    case False
    then show ?thesis using assms(1) by (subst sample_loop.simps) (simp add: rounds_def steps_zero)
  next
    case True
    have doff: "doff < dst_frames" using Suc.hyps(2) by simp
    let ?r = "rounds dst_frames doff limit step soff" and ?q = "rounds dst_frames (doff + 1) limit step (soff + int step)"
    have r: "?r = Suc ?q" using steps_Suc [OF assms(1) True] doff by (simp add: rounds_def)
    let ?dst = "mixed_frames f t acc amp dch step 1 soff doff dst"
    have le: "doff * dch + dch \<le> dst_frames * dch" using mult_le_mono1 [of "Suc doff" dst_frames dch] doff by simp
    have mc: "mix_channels (rd soff) t acc amp (doff * dch) 0 dch dst = Inr ?dst"
    proof (rule mix_frame_eq)
      show "\<forall>D < dch. rd soff D = Inr (f soff D) \<and> in_int16 (SampleScaler_Scale t (f soff D) amp)"
        using Suc.prems(4) r by (auto dest: spec [of _ 0])
      show "doff * dch + dch \<le> length dst" using le Suc.prems(3) by simp
      show "\<forall>j. doff * dch \<le> j \<and> j < doff * dch + dch \<longrightarrow> acc \<longrightarrow> roomy (dst ! j)"
        using Suc.prems(5) le by simp
    qed
    have fit: "to_int32 (soff + int step) = soff + int step"
      using assms(1,2) Suc.prems(1) True by (intro to_int32_id) (simp add: in_int32_def)
    have shift: "soff + int step + int i * int step = soff + int (Suc i) * int step" for i
      by (simp add: algebra_simps)
    have ih: "sample_loop rd t acc amp dch dst_frames limit step ?dst (doff + 1) (soff + int step) =
        Inr (mixed_frames f t acc amp dch step ?q (soff + int step) (doff + 1) ?dst, doff + 1 + ?q,
          soff + int step + int ?q * int step)"
    proof (rule Suc.hyps(1))
      show "k = dst_frames - (doff + 1)" using Suc.hyps(2) by simp
      show "\<forall>i < ?q. \<forall>D < dch. rd (soff + int step + int i * int step) D = Inr (f (soff + int step + int i * int step) D) \<and>
          in_int16 (SampleScaler_Scale t (f (soff + int step + int i * int step) D) amp)"
        unfolding shift using Suc.prems(4) r by auto
      show "\<forall>j. (doff + 1) * dch \<le> j \<and> j < dst_frames * dch \<longrightarrow> acc \<longrightarrow> roomy (?dst ! j)"
        using Suc.prems(3,5) by (auto simp: mixed_frames_def overlay_nth)
    qed (use Suc.prems in simp_all)
    have "sample_loop rd t acc amp dch dst_frames limit step dst doff soff =
        sample_loop rd t acc amp dch dst_frames limit step ?dst (doff + 1) (soff + int step)"
      using doff True mc fit by (subst sample_loop.simps) simp
    moreover have "soff + int step + int ?q * int step = soff + int ?r * int step" using r by (simp add: algebra_simps)
    ultimately show ?thesis
      using ih r mixed_frames_join [of f t acc amp dch step ?q soff 1 doff dst] by simp
  qed
qed

section \<open>Reading samples\<close>

definition sample_bytes :: "AudioSampleFormat \<Rightarrow> nat" where
  "sample_bytes fmt = (if fmt = UNSIGNED_8 then 1 else 2)"

definition supported :: "AudioSampleFormat \<Rightarrow> nat \<Rightarrow> nat \<Rightarrow> bool" where
  "supported fmt s d \<longleftrightarrow> (fmt = UNSIGNED_8 \<or> fmt = SIGNED_16) \<and> (s = 1 \<or> s = 2) \<and> (d = 1 \<or> d = 2)"

text \<open>A source buffer with at least \<open>n\<close> frames of \<open>s\<close> channels.\<close>

definition has_frames :: "AudioSampleFormat \<Rightarrow> nat \<Rightarrow> u8 list \<Rightarrow> nat \<Rightarrow> bool" where
  "has_frames fmt s src n \<longleftrightarrow> n * s * sample_bytes fmt \<le> length src"

text \<open>The normalised sample, 0 where the buffer has none, and what channel \<open>D\<close> of an output gets from a frame.\<close>

definition sample_at :: "AudioSampleFormat \<Rightarrow> u8 list \<Rightarrow> nat \<Rightarrow> int" where
  "sample_at fmt src i = (case SampleNormalizer_Read fmt src i of Inl _ \<Rightarrow> 0 | Inr v \<Rightarrow> v)"

definition frame_sample :: "AudioSampleFormat \<Rightarrow> nat \<Rightarrow> nat \<Rightarrow> u8 list \<Rightarrow> nat \<Rightarrow> nat \<Rightarrow> int" where
  "frame_sample fmt s d src k D =
     (if s = 1 then sample_at fmt src k
      else if d = 1 then (sample_at fmt src (2 * k) + sample_at fmt src (2 * k + 1)) div 2
      else sample_at fmt src (2 * k + D))"

lemma Read_ok:
  assumes "fmt = UNSIGNED_8 \<or> fmt = SIGNED_16" "(i + 1) * sample_bytes fmt \<le> length src"
  shows "SampleNormalizer_Read fmt src i = Inr (sample_at fmt src i)" "in_int16 (sample_at fmt src i)"
proof -
  have "\<exists>v. SampleNormalizer_Read fmt src i = Inr v \<and> in_int16 v"
  proof (cases "fmt = UNSIGNED_8")
    case True
    have "uint (src ! i) < 2 ^ 8" using uint_bounded [of "src ! i"] by simp
    with True assms(2) show ?thesis by (simp add: SampleNormalizer_Read_def sample_bytes_def in_int16_def)
  next
    case False
    let ?w = "word_of_int (uint (src ! (2 * i)) + 2 ^ 8 * uint (src ! (2 * i + 1))) :: 16 word"
    have "- 32768 \<le> sint ?w" "sint ?w \<le> 32767" using sint_greater_eq [of ?w] sint_less [of ?w] by simp_all
    with False assms show ?thesis by (simp add: SampleNormalizer_Read_def sample_bytes_def in_int16_def)
  qed
  then show "SampleNormalizer_Read fmt src i = Inr (sample_at fmt src i)" "in_int16 (sample_at fmt src i)"
    by (auto simp: sample_at_def)
qed

lemma in_int16_mean: "in_int16 a \<Longrightarrow> in_int16 b \<Longrightarrow> in_int16 ((a + b) div 2)"
  using div_bounds [of 2 "- 32768" "a + b" 32767] by (simp add: in_int16_def)

lemma SrcReader_ok:
  assumes "supported fmt s d" "has_frames fmt s src n" "k < n" "D < d"
  shows "SrcReader_Read fmt s d src (k * s + D div DstPerSrc s d) = Inr (frame_sample fmt s d src k D)"
    "in_int16 (frame_sample fmt s d src k D)"
proof -
  have fmt: "fmt = UNSIGNED_8 \<or> fmt = SIGNED_16" using assms(1) by (simp add: supported_def)
  have in_src: "(i + 1) * sample_bytes fmt \<le> length src" if "i < n * s" for i
    using mult_le_mono1 [of "i + 1" "n * s" "sample_bytes fmt"] that assms(2) by (simp add: has_frames_def)
  note rd = Read_ok [OF fmt in_src]
  consider "s = 1" | "s = 2" "d = 1" | "s = 2" "d = 2" using assms(1) by (auto simp: supported_def)
  then have "SrcReader_Read fmt s d src (k * s + D div DstPerSrc s d) = Inr (frame_sample fmt s d src k D) \<and>
    in_int16 (frame_sample fmt s d src k D)"
  proof cases
    case 1
    with assms(3,4) rd [of k] show ?thesis by (auto simp: SrcReader_Read_def frame_sample_def DstPerSrc_def)
  next
    case 2
    with assms(3,4) rd [of "2 * k"] rd [of "2 * k + 1"] show ?thesis
      by (auto simp: SrcReader_Read_def frame_sample_def DstPerSrc_def mult.commute intro: in_int16_mean)
  next
    case 3
    with assms(3,4) rd [of "2 * k + D"] show ?thesis
      by (auto simp: SrcReader_Read_def frame_sample_def DstPerSrc_def mult.commute)
  qed
  then show "SrcReader_Read fmt s d src (k * s + D div DstPerSrc s d) = Inr (frame_sample fmt s d src k D)"
    "in_int16 (frame_sample fmt s d src k D)" by auto
qed

lemma frame_index_eq:
  assumes "0 \<le> soff" "soff < 2 ^ 31" "s = 1 \<or> s = 2"
  shows "nat (soff div 2 ^ PTS_FRACTIONAL_BITS * int s mod 2 ^ 32) = nat (soff div 4096) * s"
proof -
  have "0 \<le> soff div 4096" "soff div 4096 < 2 ^ 19" using assms by (auto simp: pos_imp_zdiv_nonneg_iff)
  then have "soff div 4096 * int s mod 2 ^ 32 = soff div 4096 * int s" using assms(3) by (intro mod_pos_pos_trivial) auto
  then show ?thesis using \<open>0 \<le> soff div 4096\<close> by (simp add: PTS_FRACTIONAL_BITS_def nat_mult_distrib)
qed

section \<open>The value written to the destination\<close>

text \<open>
  The scaled sample is clipped, the sum that accumulates it is not: the intermediate buffer has
  32 bits and is clipped by the output formatter. mixer.h describes the sum as clipped.
\<close>

definition blend :: "bool \<Rightarrow> AScale \<Rightarrow> int \<Rightarrow> int \<Rightarrow> int" where
  "blend acc amp old sample = (if acc then scaled sample amp + old else scaled sample amp)"

definition muted :: "AScale \<Rightarrow> bool" where
  "muted amp \<longleftrightarrow> amp < MuteThreshold 15"

lemma blend_not_clipped: "in_int16 old \<Longrightarrow> in_int16 x \<Longrightarrow> 32767 < old + x \<Longrightarrow> \<not> in_int16 (blend True UNITY old x)"
  by (simp add: blend_def scaled_def uint_UNITY clip16_id in_int16_def)

lemma muted_not_UNITY: "muted amp \<Longrightarrow> amp \<noteq> UNITY"
  by (auto simp: muted_def MuteThreshold_def UNITY_def FRACTIONAL_BITS_def)

lemma select_scaler_cases:
  assumes "select_scaler amp acc = (t, acc')"
  shows "t = MUTED \<longleftrightarrow> muted amp"
    "\<not> muted amp \<Longrightarrow> acc' = acc"
    "\<not> muted amp \<Longrightarrow> in_int16 v \<Longrightarrow> SampleScaler_Scale t v amp = scaled v amp"
proof -
  show "t = MUTED \<longleftrightarrow> muted amp" using assms muted_not_UNITY [of amp]
    by (auto simp: select_scaler_def muted_def split: if_splits)
  show "\<not> muted amp \<Longrightarrow> acc' = acc" using assms by (auto simp: select_scaler_def muted_def split: if_splits)
  show "\<not> muted amp \<Longrightarrow> in_int16 v \<Longrightarrow> SampleScaler_Scale t v amp = scaled v amp"
    using assms SampleScaler_exact [of v amp] by (auto simp: select_scaler_def muted_def split: if_splits)
qed

definition blended_frames :: "(int \<Rightarrow> nat \<Rightarrow> int) \<Rightarrow> bool \<Rightarrow> AScale \<Rightarrow> nat \<Rightarrow> nat \<Rightarrow> nat \<Rightarrow> int \<Rightarrow> nat \<Rightarrow> int list \<Rightarrow> int list" where
  "blended_frames f acc amp d step n soff doff dst =
     overlay (doff * d) ((doff + n) * d)
       (\<lambda>j old. blend acc amp old (f (soff + (int (j div d) - int doff) * int step) (j mod d))) dst"

lemma scaled_in_int16 [simp]: "in_int16 (scaled v amp)"
  by (simp add: scaled_def)

lemma mixed_frames_blended:
  assumes "select_scaler amp acc = (t, acc')" "\<not> muted amp" "0 < d"
    and "\<forall>i < n. \<forall>D < d. in_int16 (f (soff + int i * int step) D)"
  shows "mixed_frames f t acc' amp d step n soff doff dst = blended_frames f acc amp d step n soff doff dst"
  unfolding mixed_frames_def blended_frames_def
proof (rule overlay_cong)
  fix j x assume j: "doff * d \<le> j" "j < (doff + n) * d"
  have lo: "doff \<le> j div d" using j(1) assms(3) by (simp add: less_eq_div_iff_mult_less_eq)
  have hi: "j div d < doff + n" using j(2) by (simp add: less_mult_imp_div_less)
  have e: "int (j div d) - int doff = int (j div d - doff)" using lo by simp
  have "j div d - doff < n" "j mod d < d" using lo hi assms(3) by auto
  then have "in_int16 (f (soff + (int (j div d) - int doff) * int step) (j mod d))" unfolding e using assms(4) by blast
  with select_scaler_cases [OF assms(1)] assms(2)
  show "mixed t acc' amp x (f (soff + (int (j div d) - int doff) * int step) (j mod d)) =
      blend acc amp x (f (soff + (int (j div d) - int doff) * int step) (j mod d))"
    by (simp add: mixed_def blend_def)
qed

lemma skip_count_eq:
  assumes "0 < step" "0 < distance" "distance + int step \<le> 2 ^ 32" "soff = limit - distance"
  shows "skip_count distance step dst_frames doff = Inr (rounds dst_frames doff limit step soff)"
proof -
  have "(distance + int step - 1) mod 2 ^ 32 = distance + int step - 1" using assms by (intro mod_pos_pos_trivial) auto
  moreover have "nat ((distance + int step - 1) div int step) = nat (distance + int step - 1) div step"
    using assms by (simp add: nat_div_distrib)
  ultimately show ?thesis using assms(1) by (simp add: skip_count_def rounds_def steps_def Let_def min.commute assms(4))
qed

section \<open>What the point sampler does\<close>

lemma rounds_le: "rounds dst_frames doff limit step soff \<le> dst_frames - doff"
  by (simp add: rounds_def)

lemma rounds_position:
  assumes "0 < step" "i < rounds dst_frames doff limit step soff"
  shows "soff + int i * int step < limit"
  using steps_before [OF assms(1), of i limit soff] assms(2) by (simp add: rounds_def)

lemma rounds_end:
  assumes "0 < step" "soff < limit" "limit + int step \<le> 2 ^ 31" "- (2 ^ 31) \<le> soff"
  shows "soff + int (rounds dst_frames doff limit step soff) * int step < limit + int step"
    "in_int32 (soff + int (rounds dst_frames doff limit step soff) * int step)"
proof -
  let ?r = "rounds dst_frames doff limit step soff"
  show lt: "soff + int ?r * int step < limit + int step"
  proof (cases ?r)
    case 0
    with assms(2) show ?thesis by simp
  next
    case (Suc k)
    then have "soff + int k * int step < limit" using rounds_position [OF assms(1), of k dst_frames doff limit soff] by simp
    then show ?thesis unfolding Suc by (simp add: distrib_right)
  qed
  have "soff \<le> soff + int ?r * int step" by simp
  with lt assms(3,4) show "in_int32 (soff + int ?r * int step)" unfolding in_int32_def by linarith
qed

abbreviation point_sample :: "AudioSampleFormat \<Rightarrow> nat \<Rightarrow> nat \<Rightarrow> u8 list \<Rightarrow> int \<Rightarrow> nat \<Rightarrow> int" where
  "point_sample fmt s d src pos D \<equiv> frame_sample fmt s d src (nat (pos div 4096)) D"

lemma point_read_ok:
  assumes "supported fmt s d" "has_frames fmt s src (nat ((int F + 4095) div 4096))" "F < 2 ^ 31"
    "0 \<le> pos" "pos < int F" "D < d"
  shows "PointSampler_read fmt s d src pos D = Inr (point_sample fmt s d src pos D)"
    "in_int16 (point_sample fmt s d src pos D)"
proof -
  have "pos div 4096 + 1 \<le> (int F + 4095) div 4096" using assms(5) by simp
  moreover have "0 \<le> pos div 4096" using assms(4) by (simp add: pos_imp_zdiv_nonneg_iff)
  ultimately have k: "nat (pos div 4096) < nat ((int F + 4095) div 4096)" by simp
  have "pos < 2 ^ 31" using assms(3,5) by simp
  moreover have "s = 1 \<or> s = 2" using assms(1) by (simp add: supported_def)
  ultimately have i: "nat (pos div 2 ^ PTS_FRACTIONAL_BITS * int s mod 2 ^ 32) = nat (pos div 4096) * s"
    using assms(4) by (intro frame_index_eq) auto
  from SrcReader_ok [OF assms(1,2) k assms(6)]
  show "PointSampler_read fmt s d src pos D = Inr (point_sample fmt s d src pos D)"
    "in_int16 (point_sample fmt s d src pos D)" unfolding PointSampler_read_def i by simp_all
qed

lemma PointSampler_Mix_spec:
  assumes "supported fmt s d" "has_frames fmt s src (nat ((int F + 4095) div 4096))"
    and "0 < step" "F + step \<le> 2 ^ 31" "0 \<le> soff" "soff < int F"
    and "dst_frames * d \<le> length dst" "list_all roomy dst"
  shows "let n = rounds dst_frames doff (int F) step soff; pos = soff + int n * int step in
    PointSampler_Mix fmt s d dst dst_frames doff src F soff step amp acc =
      Inr (int F \<le> pos,
        if muted amp then dst else blended_frames (point_sample fmt s d src) acc amp d step n soff doff dst,
        doff + n, pos)"
proof -
  let ?n = "rounds dst_frames doff (int F) step soff" and ?f = "point_sample fmt s d src"
  obtain t acc' where t: "select_scaler amp acc = (t, acc')" by (cases "select_scaler amp acc")
  note sel = select_scaler_cases [OF t]
  have F: "F < 2 ^ 31" and lim: "int F + int step \<le> 2 ^ 31" using assms(3,4) by auto
  have d: "0 < d" using assms(1) by (auto simp: supported_def)
  have e: "in_int32 (soff + int ?n * int step)" by (rule rounds_end) (use assms lim in auto)
  have roomy: "\<forall>j. doff * d \<le> j \<and> j < dst_frames * d \<longrightarrow> acc' \<longrightarrow> roomy (dst ! j)"
    using assms(7,8) by (auto simp: list_all_length)
  have vis: "0 \<le> soff + int i * int step \<and> soff + int i * int step < int F" if "i < ?n" for i
    using rounds_position [OF assms(3) that] assms(5) by simp
  have body: "(if t \<noteq> MUTED
         then sample_loop (PointSampler_read fmt s d src) t acc' amp d dst_frames (int F) step dst doff soff
         else if doff < dst_frames
         then rbind (skip_count (int F - soff) step dst_frames doff) (\<lambda>avail.
                Inr (dst, doff + avail, to_int32 (soff + int (avail * step))))
         else Inr (dst, doff, soff)) =
      Inr (if muted amp then dst else blended_frames ?f acc amp d step ?n soff doff dst, doff + ?n, soff + int ?n * int step)"
  proof (cases "muted amp")
    case True
    have "skip_count (int F - soff) step dst_frames doff = Inr ?n" by (rule skip_count_eq) (use assms lim in auto)
    then show ?thesis using True sel(1) e by (auto simp: rounds_def)
  next
    case False
    have ok: "PointSampler_read fmt s d src (soff + int i * int step) D = Inr (?f (soff + int i * int step) D) \<and>
        in_int16 (?f (soff + int i * int step) D)" if "i < ?n" "D < d" for i D
      using point_read_ok [OF assms(1,2) F _ _ that(2)] vis [OF that(1)] by simp
    have "sample_loop (PointSampler_read fmt s d src) t acc' amp d dst_frames (int F) step dst doff soff =
        Inr (mixed_frames ?f t acc' amp d step ?n soff doff dst, doff + ?n, soff + int ?n * int step)"
      by (rule sample_loop_exact [OF assms(3) lim _ d assms(7) _ roomy])
        (use assms(5) ok sel(3) [OF False] in \<open>auto\<close>)
    moreover have "mixed_frames ?f t acc' amp d step ?n soff doff dst = blended_frames ?f acc amp d step ?n soff doff dst"
      by (rule mixed_frames_blended [OF t False d]) (use ok in auto)
    ultimately show ?thesis using False sel(1) by simp
  qed
  show ?thesis using F assms(5,6) body by (simp add: PointSampler_Mix_def t PointSampler_Mix_typed_def Let_def)
qed

text \<open>
  C24. The point sampler computes what it is meant to: with a supported format, a
  position inside the source and room for the sums in the destination, \<^verbatim>\<open>Mix\<close> fails no
  DCHECK and overflows nowhere. It advances by as many output frames as fit both the
  destination and the source, however it does so; unless it is muted, each of these
  frames gets the scaled and clipped sample of the source frame at its position, added
  to the old value when accumulating; everything else is unchanged. It reports the
  source as consumed exactly when the position has reached its end. In two points the
  code differs from the description of \<^verbatim>\<open>Mix\<close> in mixer.h, and the claim is about the code: the
  accumulated sum is not clipped, and a muted mix leaves the destination as it is even when
  it is to be replaced.
\<close>

theorem PointSampler_Mix_correct:
  assumes "supported fmt s d" "has_frames fmt s src (nat ((int F + 4095) div 4096))"
    and "0 < step" "F + step \<le> 2 ^ 31" "0 \<le> soff" "soff < int F"
    and "dst_frames * d \<le> length dst" "list_all roomy dst"
  shows "let n = rounds dst_frames doff (int F) step soff; pos = soff + int n * int step in
    PointSampler_Mix fmt s d dst dst_frames doff src F soff step amp acc =
      Inr (int F \<le> pos,
        if muted amp then dst else blended_frames (point_sample fmt s d src) acc amp d step n soff doff dst,
        doff + n, pos)"
  by (rule PointSampler_Mix_spec [OF assms])

theorem PointSampler_Mix_correct_witness:
  "PointSampler_Mix UNSIGNED_8 1 2 [0, 0, 5, 5] 2 0 [0x90, 0x80] 8192 0 4096 UNITY True =
     Inr (True, [0x1000, 0x1000, 5, 5], 2, 8192)"
proof -
  have r: "rounds 2 0 8192 4096 0 = 2" by (simp add: rounds_def steps_def)
  have "\<not> muted UNITY" using muted_not_UNITY by blast
  moreover have "blended_frames (point_sample UNSIGNED_8 1 2 [0x90, 0x80]) True UNITY 2 4096 2 0 0 [0, 0, 5, 5] =
      [0x1000, 0x1000, 5, 5]"
    by (simp add: blended_frames_def overlay_def blend_def scaled_def clip16_def uint_UNITY frame_sample_def sample_at_def
        SampleNormalizer_Read_def upt_rec)
  ultimately show ?thesis
    using PointSampler_Mix_correct [of UNSIGNED_8 1 2 "[0x90, 0x80]" 8192 4096 0 2 "[0, 0, 5, 5]" 0 UNITY True]
    by (simp add: supported_def has_frames_def sample_bytes_def roomy_def r)
qed

end
