(* ===== verification/Output_Formatter.thy ===== *)
theory Output_Formatter
  imports Samplers
begin

text \<open>
  The last stage of mixing, services/media/audio/platform/generic/output_formatter.cc: the
  intermediate buffer of \<^verbatim>\<open>int32_t\<close> values is clipped and converted to the samples of the
  output. The output buffer is a list of bytes, 16-bit samples being stored in
  little-endian order, as \<^verbatim>\<open>SampleNormalizer\<close> reads them.
\<close>

section \<open>Definitions\<close>

text \<open>The bytes of a converted sample.\<close>

definition DstConverter_Convert :: "AudioSampleFormat \<Rightarrow> int \<Rightarrow> u8 list" where
  "DstConverter_Convert fmt sample = (case fmt of
     UNSIGNED_8 \<Rightarrow> [word_of_int (sample div 2 ^ 8 + 0x80)]
   | SIGNED_16 \<Rightarrow> [word_of_int sample, word_of_int (sample div 2 ^ 8)]
   | _ \<Rightarrow> [])"

definition sizeof_DType :: "AudioSampleFormat \<Rightarrow> nat" where
  "sizeof_DType fmt = (case fmt of UNSIGNED_8 \<Rightarrow> 1 | SIGNED_16 \<Rightarrow> 2 | _ \<Rightarrow> 0)"

definition SilenceMaker_Fill :: "AudioSampleFormat \<Rightarrow> u8 list \<Rightarrow> nat \<Rightarrow> u8 list res" where
  "SilenceMaker_Fill fmt dest samples =
     (let n = samples * sizeof_DType fmt
      in if n \<le> length dest then Inr (replicate n (if fmt = UNSIGNED_8 then 0x80 else 0) @ drop n dest)
         else Inl Out_of_range)"

record OutputFormatter =
  of_format :: AudioMediaTypeDetails
  of_channels :: nat
  of_bytes_per_sample :: nat
  of_bytes_per_frame :: nat

text \<open>Assigning to element \<open>i\<close> of the typed destination.\<close>

definition store_sample :: "nat \<Rightarrow> u8 list \<Rightarrow> u8 list \<Rightarrow> u8 list res" where
  "store_sample i bytes dest =
     (let n = length bytes
      in if (i + 1) * n \<le> length dest then Inr (take (i * n) dest @ bytes @ drop ((i + 1) * n) dest)
         else Inl Out_of_range)"

fun produce_loop :: "AudioSampleFormat \<Rightarrow> int list \<Rightarrow> nat \<Rightarrow> nat \<Rightarrow> u8 list \<Rightarrow> u8 list res" where
  "produce_loop fmt source i 0 dest = Inr dest"
| "produce_loop fmt source i (Suc n) dest =
     (if i < length source
      then let val = source ! i;
               v = (if val > 32767 then DstConverter_Convert fmt 32767
                    else if val < - 32768 then DstConverter_Convert fmt (- 32768)
                    else DstConverter_Convert fmt val)
           in rbind (store_sample i v dest) (produce_loop fmt source (Suc i) n)
      else Inl Out_of_range)"

definition ProduceOutput :: "OutputFormatter \<Rightarrow> int list \<Rightarrow> u8 list \<Rightarrow> nat \<Rightarrow> u8 list res" where
  "ProduceOutput F source dest frames =
     produce_loop (sample_format (of_format F)) source 0 (frames * of_channels F) dest"

definition FillWithSilence :: "OutputFormatter \<Rightarrow> u8 list \<Rightarrow> nat \<Rightarrow> u8 list res" where
  "FillWithSilence F dest frames =
     SilenceMaker_Fill (sample_format (of_format F)) dest (frames * of_channels F mod 2 ^ 32)"

definition OutputFormatter_new :: "AudioMediaTypeDetails \<Rightarrow> nat \<Rightarrow> nat \<Rightarrow> OutputFormatter" where
  "OutputFormatter_new format bytes_per_sample n =
     \<lparr> of_format = format, of_channels = n, of_bytes_per_sample = bytes_per_sample, of_bytes_per_frame = bytes_per_sample * n \<rparr>"

definition SelectOF :: "nat \<Rightarrow> AudioMediaTypeDetails \<Rightarrow> OutputFormatter option" where
  "SelectOF sizeof_type format =
     (if channels format = 1 then Some (OutputFormatter_new format sizeof_type 1)
      else if channels format = 2 then Some (OutputFormatter_new format sizeof_type 2)
      else None)"

definition OutputFormatter_Select :: "AudioMediaTypeDetails \<Rightarrow> OutputFormatter option" where
  "OutputFormatter_Select format = (case sample_format format of
     UNSIGNED_8 \<Rightarrow> SelectOF (sizeof_DType UNSIGNED_8) format
   | SIGNED_16 \<Rightarrow> SelectOF (sizeof_DType SIGNED_16) format
   | _ \<Rightarrow> None)"

section \<open>One sample\<close>

abbreviation out_format :: "AudioSampleFormat \<Rightarrow> bool" where
  "out_format fmt \<equiv> fmt = UNSIGNED_8 \<or> fmt = SIGNED_16"

text \<open>The value of an output sample: clipped, and without the low byte in an 8-bit format.\<close>

definition out_sample :: "AudioSampleFormat \<Rightarrow> int \<Rightarrow> int" where
  "out_sample fmt v = (if fmt = UNSIGNED_8 then clip16 v div 2 ^ 8 * 2 ^ 8 else clip16 v)"

lemma length_Convert: "out_format fmt \<Longrightarrow> length (DstConverter_Convert fmt v) = sizeof_DType fmt"
  by (auto simp: DstConverter_Convert_def sizeof_DType_def)

lemma clip_Convert:
  "(if val > 32767 then DstConverter_Convert fmt 32767 else if val < - 32768 then DstConverter_Convert fmt (- 32768)
    else DstConverter_Convert fmt val) = DstConverter_Convert fmt (clip16 val)"
  by (simp add: clip16_def)

lemma bytes_of_int16:
  assumes "in_int16 v"
  shows "sint (word_of_int (uint (word_of_int v :: u8) + 2 ^ 8 * uint (word_of_int (v div 2 ^ 8) :: u8)) :: 16 word) = v"
proof -
  have "v mod 2 ^ 8 + 2 ^ 8 * (v div 2 ^ 8 mod 2 ^ 8) = v mod 2 ^ 16"
    using zmod_zmult2_eq [of "2 ^ 8" v "2 ^ 8"] by simp
  then have "uint (word_of_int v :: u8) + 2 ^ 8 * uint (word_of_int (v div 2 ^ 8) :: u8) = take_bit 16 v"
    by (simp add: unsigned_of_int take_bit_eq_mod)
  then have "sint (word_of_int (uint (word_of_int v :: u8) + 2 ^ 8 * uint (word_of_int (v div 2 ^ 8) :: u8)) :: 16 word) =
      signed_take_bit 15 v" by (simp add: signed_of_int signed_take_bit_take_bit)
  also have "\<dots> = v" using assms by (simp add: signed_take_bit_int_eq_self in_int16_def)
  finally show ?thesis .
qed

lemma byte_of_int16:
  assumes "in_int16 v"
  shows "uint (word_of_int (v div 2 ^ 8 + 0x80) :: u8) * 2 ^ 8 - 0x8000 = v div 2 ^ 8 * 2 ^ 8"
proof -
  have "0 \<le> v div 2 ^ 8 + 0x80" "v div 2 ^ 8 + 0x80 < 2 ^ 8"
    using div_bounds [of "2 ^ 8" "- 128" v 127] assms by (auto simp: in_int16_def)
  then have "uint (word_of_int (v div 2 ^ 8 + 0x80) :: u8) = v div 2 ^ 8 + 0x80"
    unfolding uint_word_of_int_eq by (intro trans [OF take_bit_int_eq_self]) simp_all
  then show ?thesis by simp
qed

lemma Read_stored:
  assumes "out_format fmt" "(i + 1) * sizeof_DType fmt \<le> length dest" "\<forall>k < sizeof_DType fmt. dest ! (i * sizeof_DType fmt + k) = DstConverter_Convert fmt (clip16 v) ! k"
  shows "SampleNormalizer_Read fmt dest i = Inr (out_sample fmt v)"
proof (cases "fmt = UNSIGNED_8")
  case True
  with assms(2,3) byte_of_int16 [OF clip16_range, of v] show ?thesis
    by (simp add: SampleNormalizer_Read_def sizeof_DType_def DstConverter_Convert_def out_sample_def)
next
  case False
  with assms have fmt: "fmt = SIGNED_16" by simp
  have "dest ! (2 * i) = word_of_int (clip16 v)" "dest ! (2 * i + 1) = word_of_int (clip16 v div 2 ^ 8)"
    using assms(3) [rule_format, of 0] assms(3) [rule_format, of 1]
    by (simp_all add: fmt sizeof_DType_def DstConverter_Convert_def mult.commute)
  with assms(2) bytes_of_int16 [OF clip16_range, of v] show ?thesis
    by (simp add: fmt SampleNormalizer_Read_def sizeof_DType_def out_sample_def)
qed

lemma store_sample_nth:
  assumes "length bytes = b" "(i + 1) * b \<le> length dest"
  obtains dest' where "store_sample i bytes dest = Inr dest'" "length dest' = length dest"
    "\<And>k. k < b \<Longrightarrow> dest' ! (i * b + k) = bytes ! k"
    "\<And>k. k < i * b \<or> (i + 1) * b \<le> k \<Longrightarrow> k < length dest \<Longrightarrow> dest' ! k = dest ! k"
proof
  let ?d = "take (i * b) dest @ bytes @ drop ((i + 1) * b) dest"
  show "store_sample i bytes dest = Inr ?d" using assms by (simp add: store_sample_def Let_def)
  show len: "length ?d = length dest" using assms by simp
  have i: "i * b + b \<le> length dest" using assms(2) by (simp add: algebra_simps)
  show "?d ! (i * b + k) = bytes ! k" if "k < b" for k
    using that assms(1) i by (simp add: nth_append min_def)
  show "?d ! k = dest ! k" if "k < i * b \<or> (i + 1) * b \<le> k" "k < length dest" for k
  proof (cases "k < i * b")
    case True
    with i show ?thesis by (simp add: nth_append min_def)
  next
    case False
    then have "b + i * b \<le> k" using that(1) by simp
    then have "\<not> k - i * b < b" by linarith
    with \<open>b + i * b \<le> k\<close> i assms(1) that(2) show ?thesis by (simp add: nth_append min_def)
  qed
qed

section \<open>A whole buffer\<close>

lemma produce_loop_correct:
  assumes "out_format fmt" "i + n \<le> length source" "(i + n) * sizeof_DType fmt \<le> length dest"
  shows "\<exists>dest'. produce_loop fmt source i n dest = Inr dest' \<and> length dest' = length dest \<and>
    (\<forall>j. i \<le> j \<and> j < i + n \<longrightarrow> (\<forall>k < sizeof_DType fmt. dest' ! (j * sizeof_DType fmt + k) = DstConverter_Convert fmt (clip16 (source ! j)) ! k)) \<and>
    (\<forall>k < length dest. k < i * sizeof_DType fmt \<or> (i + n) * sizeof_DType fmt \<le> k \<longrightarrow> dest' ! k = dest ! k)"
  using assms(2,3)
proof (induction n arbitrary: i dest)
  case (Suc n)
  let ?b = "sizeof_DType fmt"
  have "(i + 1) * ?b \<le> (i + Suc n) * ?b" by (rule mult_le_mono1) simp
  with Suc.prems(2) have fits: "(i + 1) * ?b \<le> length dest" by linarith
  obtain d1 where d1: "store_sample i (DstConverter_Convert fmt (clip16 (source ! i))) dest = Inr d1" "length d1 = length dest"
    "\<And>k. k < ?b \<Longrightarrow> d1 ! (i * ?b + k) = DstConverter_Convert fmt (clip16 (source ! i)) ! k"
    "\<And>k. k < i * ?b \<or> (i + 1) * ?b \<le> k \<Longrightarrow> k < length dest \<Longrightarrow> d1 ! k = dest ! k"
    using store_sample_nth [OF length_Convert [OF assms(1)] fits] by blast
  obtain d2 where d2: "produce_loop fmt source (Suc i) n d1 = Inr d2" "length d2 = length dest"
    "\<And>j k. Suc i \<le> j \<Longrightarrow> j < Suc i + n \<Longrightarrow> k < ?b \<Longrightarrow> d2 ! (j * ?b + k) = DstConverter_Convert fmt (clip16 (source ! j)) ! k"
    "\<And>k. k < length dest \<Longrightarrow> k < Suc i * ?b \<or> (Suc i + n) * ?b \<le> k \<Longrightarrow> d2 ! k = d1 ! k"
    using Suc.IH [of "Suc i" d1] Suc.prems d1(2) by auto
  have eq: "produce_loop fmt source i (Suc n) dest = Inr d2"
    using Suc.prems(1) d1(1) d2(1) by (simp add: clip_Convert Let_def)
  have new: "d2 ! (j * ?b + k) = DstConverter_Convert fmt (clip16 (source ! j)) ! k"
    if "i \<le> j" "j < i + Suc n" "k < ?b" for j k
  proof (cases "j = i")
    case True
    have "i * ?b + k < length dest" using fits that(3) by simp
    with True d2(4) [of "i * ?b + k"] d1(3) [OF that(3)] that(3) show ?thesis by simp
  next
    case False
    with d2(3) [of j k] that show ?thesis by simp
  qed
  have old: "d2 ! k = dest ! k" if "k < length dest" "k < i * ?b \<or> (i + Suc n) * ?b \<le> k" for k
  proof -
    have "k < i * ?b \<or> (i + 1) * ?b \<le> k" using that(2) \<open>(i + 1) * ?b \<le> (i + Suc n) * ?b\<close> by linarith
    moreover have "k < Suc i * ?b \<or> (Suc i + n) * ?b \<le> k" using that(2) by auto
    ultimately show ?thesis using d1(4) [of k] d2(4) [of k] that(1) by simp
  qed
  show ?case using eq d2(2) new old by blast
qed auto

lemma Select_formatter:
  assumes "OutputFormatter_Select fmt = Some F"
  shows "of_format F = fmt" "out_format (sample_format fmt)" "of_channels F = unat (channels fmt)"
    "of_channels F = 1 \<or> of_channels F = 2" "of_bytes_per_sample F = sizeof_DType (sample_format fmt)"
    "of_bytes_per_frame F = sizeof_DType (sample_format fmt) * of_channels F"
  using assms by (auto simp: OutputFormatter_Select_def SelectOF_def OutputFormatter_new_def
      split: AudioSampleFormat.splits if_splits)

text \<open>
  C31. What a formatter writes is what a mixer would read: with a buffer of
  \<open>frames\<close> frames, \<^verbatim>\<open>ProduceOutput\<close> stays within it and leaves the bytes behind the frames
  alone, and every sample reads back as the intermediate value clipped to 16 bits,
  exactly in a 16-bit format and without its low byte in an 8-bit one.
\<close>

theorem ProduceOutput_reads_back:
  assumes "OutputFormatter_Select fmt = Some F" "frames * of_channels F \<le> length source"
    "frames * of_bytes_per_frame F \<le> length dest"
  shows "\<exists>dest'. ProduceOutput F source dest frames = Inr dest' \<and> length dest' = length dest \<and>
    (\<forall>i. i < frames * of_channels F \<longrightarrow>
       SampleNormalizer_Read (sample_format fmt) dest' i = Inr (out_sample (sample_format fmt) (source ! i))) \<and>
    drop (frames * of_bytes_per_frame F) dest' = drop (frames * of_bytes_per_frame F) dest"
proof -
  note F = Select_formatter [OF assms(1)]
  let ?n = "frames * of_channels F" and ?b = "sizeof_DType (sample_format fmt)"
  have b: "frames * of_bytes_per_frame F = ?n * ?b" by (simp add: F(6))
  obtain d where d: "produce_loop (sample_format fmt) source 0 ?n dest = Inr d" "length d = length dest"
    "\<forall>j. 0 \<le> j \<and> j < 0 + ?n \<longrightarrow> (\<forall>k < ?b. d ! (j * ?b + k) = DstConverter_Convert (sample_format fmt) (clip16 (source ! j)) ! k)"
    "\<forall>k < length dest. k < 0 * ?b \<or> (0 + ?n) * ?b \<le> k \<longrightarrow> d ! k = dest ! k"
    using produce_loop_correct [OF F(2), of 0 ?n source dest] assms(2,3) b by auto
  have "SampleNormalizer_Read (sample_format fmt) d i = Inr (out_sample (sample_format fmt) (source ! i))" if "i < ?n" for i
  proof (rule Read_stored [OF F(2)])
    have "(i + 1) * ?b \<le> ?n * ?b" by (rule mult_le_mono1) (use that in simp)
    then show "(i + 1) * ?b \<le> length d" using assms(3) b d(2) by simp
    show "\<forall>k < ?b. d ! (i * ?b + k) = DstConverter_Convert (sample_format fmt) (clip16 (source ! i)) ! k" using d(3) that by simp
  qed
  moreover have "drop (?n * ?b) d = drop (?n * ?b) dest"
    using d(2,4) by (intro nth_equalityI) auto
  ultimately show ?thesis using d(1,2) by (auto simp: ProduceOutput_def F(1) b)
qed

text \<open>
  \<^verbatim>\<open>FillWithSilence\<close> writes samples that read back as 0, in every format that \<^verbatim>\<open>Select\<close>
  accepts, and leaves the bytes behind them alone.
\<close>

lemma FillWithSilence_is_silent:
  assumes "OutputFormatter_Select fmt = Some F" "frames * of_channels F < 2 ^ 32"
    "frames * of_bytes_per_frame F \<le> length dest"
  shows "\<exists>dest'. FillWithSilence F dest frames = Inr dest' \<and> length dest' = length dest \<and>
    (\<forall>i. i < frames * of_channels F \<longrightarrow> SampleNormalizer_Read (sample_format fmt) dest' i = Inr 0) \<and>
    drop (frames * of_bytes_per_frame F) dest' = drop (frames * of_bytes_per_frame F) dest"
proof -
  note F = Select_formatter [OF assms(1)]
  let ?n = "frames * of_channels F" and ?b = "sizeof_DType (sample_format fmt)"
  have b: "frames * of_bytes_per_frame F = ?n * ?b" by (simp add: F(6))
  let ?d = "replicate (?n * ?b) (if sample_format fmt = UNSIGNED_8 then 0x80 else 0) @ drop (?n * ?b) dest"
  have "FillWithSilence F dest frames = Inr ?d"
    using assms(2,3) b by (simp add: FillWithSilence_def SilenceMaker_Fill_def F(1) Let_def)
  moreover have "SampleNormalizer_Read (sample_format fmt) ?d i = Inr 0" if "i < ?n" for i
    using F(2) that by (auto simp: SampleNormalizer_Read_def sizeof_DType_def nth_append)
  ultimately show ?thesis using assms(3) unfolding b by (intro exI [of _ ?d]) (simp add: mult.assoc)
qed

theorem ProduceOutput_reads_back_witness:
  "\<exists>dest'. ProduceOutput (OutputFormatter_new \<lparr> sample_format = SIGNED_16, channels = 2, frames_per_second = 48000 \<rparr> 2 2)
       [40000, - 5] [0, 0, 0, 0, 7] 1 = Inr dest' \<and> length dest' = 5 \<and> SampleNormalizer_Read SIGNED_16 dest' 0 = Inr 32767 \<and>
     SampleNormalizer_Read SIGNED_16 dest' 1 = Inr (- 5) \<and> drop 4 dest' = [7]"
proof -
  let ?fmt = "\<lparr> sample_format = SIGNED_16, channels = 2, frames_per_second = 48000 \<rparr>"
  let ?F = "OutputFormatter_new ?fmt 2 2"
  have "OutputFormatter_Select ?fmt = Some ?F" by (simp add: OutputFormatter_Select_def SelectOF_def sizeof_DType_def)
  moreover have "of_channels ?F = 2" "of_bytes_per_frame ?F = 4" by (simp_all add: OutputFormatter_new_def)
  ultimately obtain dest' where d: "ProduceOutput ?F [40000, - 5] [0, 0, 0, 0, 7] 1 = Inr dest'" "length dest' = 5"
    "\<forall>i. i < 2 \<longrightarrow> SampleNormalizer_Read SIGNED_16 dest' i = Inr (out_sample SIGNED_16 ([40000, - 5] ! i))" "drop 4 dest' = [7]"
    using ProduceOutput_reads_back [of ?fmt ?F 1 "[40000, - 5]" "[0, 0, 0, 0, 7]"] by auto
  from d(3) [rule_format, of 0] d(3) [rule_format, of 1] d(1,2,4) show ?thesis by (simp add: out_sample_def clip16_def)
qed

end
