(* ===== verification/Audio_Track.thy ===== *)
theory Audio_Track
  imports Media_Pipe Rate_Control Audio_Link Output_Formatter
begin

text \<open>
  The client side of the audio server: the class \<^verbatim>\<open>AudioPipe\<close>
  (services/media/audio/audio_pipe.h, audio_pipe.cc), which turns the packets of a media
  pipe into audio packets with time stamps in fractional frames, and \<^verbatim>\<open>AudioTrackImpl\<close>
  (audio_track_impl.h, audio_track_impl.cc), which configures the pipe and passes the
  packets on to the links of the track.

  Pointers into the mapped buffer are offsets from its base. What the pipe asks of the
  base class and its owner is a list of effects.
\<close>

section \<open>The pipe\<close>

record AudioRegion =
  ar_base :: u64
  ar_frac_frame_len :: u32

record 'h AudioPacketRef =
  ap_state :: "'h MediaPacketState"
  ap_regions :: "AudioRegion list"
  ap_start_pts :: int
  ap_end_pts :: int

record AudioPipe =
  next_pts_known :: bool
  next_pts :: int
  prime_callback :: "nat option"

datatype 'h audio_effect =
    Pipe_Reset
  | Packet_received "'h AudioPacketRef"
  | Run_callback nat

definition AudioPipe_new :: AudioPipe where
  "AudioPipe_new = \<lparr> next_pts_known = False, next_pts = 0, prime_callback = None \<rparr>"

definition kMaxFrames :: u32 where
  "kMaxFrames = drop_bit PTS_FRACTIONAL_BITS 0xFFFFFFFF"

text \<open>The loop over the regions; \<open>None\<close> when it resets the pipe.\<close>

fun scan_regions :: "u32 \<Rightarrow> u32 \<Rightarrow> MediaPacketRegion list \<Rightarrow> (u32 \<times> AudioRegion list) option" where
  "scan_regions frame_size frame_count [] = Some (frame_count, [])"
| "scan_regions frame_size frame_count (region # rs) =
     (if frame_size > 1 \<and> rgn_length region mod ucast frame_size \<noteq> 0 then None
      else let frame_count = frame_count + ucast (rgn_length region div ucast frame_size)
           in if frame_count > kMaxFrames then None
              else map_option
                     (\<lambda>(n, out). (n, \<lparr> ar_base = rgn_offset region,
                        ar_frac_frame_len = push_bit PTS_FRACTIONAL_BITS frame_count \<rparr> # out))
                     (scan_regions frame_size frame_count rs))"

text \<open>The time stamp of the first frame; \<open>None\<close> when the transformation overflows.\<close>

definition start_pts_of :: "Ratio \<Rightarrow> AudioPipe \<Rightarrow> MediaPacket \<Rightarrow> int option res" where
  "start_pts_of ratio s packet =
     (if pkt_pts packet \<noteq> kNoTimestamp
      then rbind (DoForwardTransform (LinearTransform_of_ratio 0 ratio 0) (word_of_int (pkt_pts packet)) (Some 0))
             (\<lambda>(ok, out). Inr (if ok then map_option sint out else None))
      else Inr (Some (if next_pts_known s then next_pts s else 0)))"

definition AudioPipe_OnPacketReceived :: "u32 \<Rightarrow> Ratio \<Rightarrow> 'h MediaPacketState \<Rightarrow> AudioPipe \<Rightarrow>
    (AudioPipe \<times> 'h audio_effect list) res" where
  "AudioPipe_OnPacketReceived frame_size ratio state s =
     (case pkt_payload (ms_packet state) of
        None \<Rightarrow> Inl Dcheck_failed
      | Some payload \<Rightarrow>
          dcheck (frame_size \<noteq> 0)
            (case scan_regions frame_size 0
                (payload # (case pkt_extra_payload (ms_packet state) of None \<Rightarrow> [] | Some rs \<Rightarrow> rs)) of
               None \<Rightarrow> Inr (s, [Pipe_Reset])
             | Some (frame_count, regions) \<Rightarrow>
                 rbind (start_pts_of ratio s (ms_packet state)) (\<lambda>start. case start of
                   None \<Rightarrow> Inr (s, [Pipe_Reset])
                 | Some start_pts \<Rightarrow>
                     rbind (s64 (start_pts + uint frame_count * 2 ^ PTS_FRACTIONAL_BITS)) (\<lambda>end_pts.
                       Inr (s\<lparr>next_pts := end_pts, next_pts_known := True, prime_callback := None\<rparr>,
                         Packet_received \<lparr> ap_state = state, ap_regions = regions, ap_start_pts = start_pts,
                           ap_end_pts = end_pts \<rparr> #
                         (case prime_callback s of None \<Rightarrow> [] | Some c \<Rightarrow> [Run_callback c]))))))"

definition AudioPipe_OnPrimeRequested :: "nat \<Rightarrow> AudioPipe \<Rightarrow> AudioPipe \<times> 'h audio_effect list" where
  "AudioPipe_OnPrimeRequested cbk s =
     (s\<lparr>prime_callback := Some cbk\<rparr>, (case prime_callback s of None \<Rightarrow> [] | Some c \<Rightarrow> [Run_callback c]))"

section \<open>The track\<close>

record supported_set =
  ss_sample_format :: AudioSampleFormat
  min_channels :: u32
  max_channels :: u32
  min_frames_per_second :: u32
  max_frames_per_second :: u32

definition kSupportedAudioTypeSets :: "supported_set list" where
  "kSupportedAudioTypeSets =
     [\<lparr> ss_sample_format = UNSIGNED_8, min_channels = 1, max_channels = 2, min_frames_per_second = 1000, max_frames_per_second = 48000 \<rparr>,
      \<lparr> ss_sample_format = SIGNED_16, min_channels = 1, max_channels = 2, min_frames_per_second = 1000, max_frames_per_second = 48000 \<rparr>]"

text \<open>A media type is reduced to what \<^verbatim>\<open>Configure\<close> asks of it: whether it is LPCM audio, and the audio details.\<close>

record AudioTrackConfiguration =
  medium_is_audio :: bool
  encoding_is_lpcm :: bool
  audio_details :: "AudioMediaTypeDetails option"
  audio_frame_ratio :: u32
  media_time_ratio :: u32

text \<open>
  A track: the connections it has, its pipe and rate control, and its links.
  \<open>at_selected\<close> counts the calls of \<^verbatim>\<open>SelectOutputsForTrack\<close>, \<open>at_removed\<close> whether the server has
  been told to forget the track.
\<close>

record 'h AudioTrack =
  at_bound :: bool
  at_media_pipe :: "'h MediaPipe"
  at_pipe :: AudioPipe
  at_rate_control :: RateControl
  at_ratio :: Ratio
  at_bytes_per_frame :: u32
  at_format :: "AudioMediaTypeDetails option"
  at_outputs :: "'h AudioPacketRef Link list"
  at_selected :: nat
  at_removed :: bool

definition AudioTrack_Shutdown :: "i64 \<Rightarrow> 'h AudioTrack \<Rightarrow> 'h AudioTrack res" where
  "AudioTrack_Shutdown now t =
     (if \<not> at_bound t
      then dcheck (\<not> IsInitialized (at_media_pipe t)) (dcheck (\<not> rc_bound (at_rate_control t))
             (dcheck (at_outputs t = []) (Inr t)))
      else rbind (RateControl_Reset now (at_rate_control t)) (\<lambda>rc.
        Inr (t\<lparr>at_bound := False, at_media_pipe := MediaPipe_Reset (at_media_pipe t), at_rate_control := rc,
               at_outputs := [], at_removed := True\<rparr>)))"

definition matches_set :: "AudioMediaTypeDetails \<Rightarrow> supported_set \<Rightarrow> bool" where
  "matches_set cfg cfg_set \<longleftrightarrow>
     sample_format cfg = ss_sample_format cfg_set \<and>
     channels cfg \<ge> min_channels cfg_set \<and> channels cfg \<le> max_channels cfg_set \<and>
     frames_per_second cfg \<ge> min_frames_per_second cfg_set \<and> frames_per_second cfg \<le> max_frames_per_second cfg_set"

definition bytes_of_format :: "AudioSampleFormat \<Rightarrow> u32 res" where
  "bytes_of_format fmt = (case fmt of UNSIGNED_8 \<Rightarrow> Inr 1 | SIGNED_16 \<Rightarrow> Inr 2 | SIGNED_24_IN_32 \<Rightarrow> Inr 4
     | _ \<Rightarrow> Inl Dcheck_failed)"

definition Configure :: "i64 \<Rightarrow> AudioTrackConfiguration \<Rightarrow> 'h AudioTrack \<Rightarrow> 'h AudioTrack res" where
  "Configure now configuration t =
     (if IsInitialized (at_media_pipe t) then AudioTrack_Shutdown now t
      else case audio_details configuration of
        None \<Rightarrow> AudioTrack_Shutdown now t
      | Some cfg \<Rightarrow>
          if \<not> medium_is_audio configuration \<or> \<not> encoding_is_lpcm configuration then AudioTrack_Shutdown now t
          else if \<not> list_ex (matches_set cfg) kSupportedAudioTypeSets then AudioTrack_Shutdown now t
          else if audio_frame_ratio configuration < 1 \<or> media_time_ratio configuration < 1 then AudioTrack_Shutdown now t
          else rbind (Ratio_make (push_bit PTS_FRACTIONAL_BITS 1) 1) (\<lambda>frac_scale.
               rbind (Ratio_make (audio_frame_ratio configuration) (media_time_ratio configuration)) (\<lambda>frame_scale.
               rbind (Ratio_Compose frac_scale frame_scale) (\<lambda>(no_loss, ratio).
                 let t = t\<lparr>at_ratio := ratio\<rparr>
                 in if \<not> no_loss then AudioTrack_Shutdown now t
                    else rbind (bytes_of_format (sample_format cfg)) (\<lambda>bytes.
                      let t = t\<lparr>at_bytes_per_frame := bytes * channels cfg\<rparr>;
                          (ok, pipe) = MediaPipe_Init (at_media_pipe t)
                      in if \<not> ok then AudioTrack_Shutdown now t
                         else Inr (t\<lparr>at_media_pipe := pipe, at_format := Some cfg, at_selected := at_selected t + 1\<rparr>))))))"

definition AudioTrack_OnPacketReceived :: "'h AudioPacketRef \<Rightarrow> 'h AudioTrack \<Rightarrow> 'h AudioTrack" where
  "AudioTrack_OnPacketReceived packet t = t\<lparr>at_outputs := map (PushToPendingQueue packet) (at_outputs t)\<rparr>"

text \<open>\<open>None\<close> while some output is mixing the front of its queue, which the flush waits for.\<close>

definition AudioTrack_OnFlushRequested :: "nat \<Rightarrow> 'h AudioTrack \<Rightarrow> ('h AudioTrack \<times> 'h audio_effect list) option" where
  "AudioTrack_OnFlushRequested cbk t =
     map_option (\<lambda>ls. (t\<lparr>at_outputs := ls\<rparr>, [Run_callback cbk])) (those (map FlushPendingQueue (at_outputs t)))"

definition AudioPipe_OnFlushRequested :: "nat \<Rightarrow> 'h AudioTrack \<Rightarrow> ('h AudioTrack \<times> 'h audio_effect list) option" where
  "AudioPipe_OnFlushRequested cbk t =
     AudioTrack_OnFlushRequested cbk (t\<lparr>at_pipe := (at_pipe t)\<lparr>next_pts_known := False\<rparr>\<rparr>)"

definition GetRateControl :: "i64 \<Rightarrow> 'h AudioTrack \<Rightarrow> 'h AudioTrack res" where
  "GetRateControl now t = rbind (Bind now (at_rate_control t)) (\<lambda>rc. Inr (t\<lparr>at_rate_control := rc\<rparr>))"

section \<open>What the pipe makes of a packet\<close>

definition region_frames :: "u32 \<Rightarrow> MediaPacketRegion \<Rightarrow> nat" where
  "region_frames frame_size r = unat (rgn_length r) div unat frame_size"

definition whole_frames :: "u32 \<Rightarrow> MediaPacketRegion \<Rightarrow> bool" where
  "whole_frames frame_size r \<longleftrightarrow> unat frame_size dvd unat (rgn_length r)"

lemma unat_ucast_u32_u64: "unat (ucast (x :: u32) :: u64) = unat x"
  by (rule unat_ucast_up) simp

lemma unat_kMaxFrames: "unat kMaxFrames = 0xFFFFF"
  by (simp add: kMaxFrames_def PTS_FRACTIONAL_BITS_def)

lemma whole_frames_iff:
  assumes "fs \<noteq> 0"
  shows "(fs > 1 \<and> rgn_length r mod ucast fs \<noteq> 0) \<longleftrightarrow> \<not> whole_frames fs r"
proof -
  have m: "rgn_length r mod ucast fs = 0 \<longleftrightarrow> whole_frames fs r"
    unfolding whole_frames_def dvd_eq_mod_eq_0 by (simp add: word_unat_eq_iff unat_mod_distrib unat_ucast_u32_u64)
  show ?thesis
  proof (cases "fs = 1")
    case True
    then show ?thesis by (simp add: whole_frames_def)
  next
    case False
    with assms have "unat fs \<noteq> 0" "unat fs \<noteq> 1" by (auto simp: word_unat_eq_iff)
    then have "fs > 1" by (simp add: word_less_nat_alt)
    with m show ?thesis by simp
  qed
qed

text \<open>The lengths of the regions of an audio packet: running totals of the frames, in fractional frames.\<close>

fun running_lengths :: "u32 \<Rightarrow> nat \<Rightarrow> MediaPacketRegion list \<Rightarrow> (u64 \<times> nat) list" where
  "running_lengths fs n [] = []"
| "running_lengths fs n (r # rs) =
     (rgn_offset r, (n + region_frames fs r) * 4096) # running_lengths fs (n + region_frames fs r) rs"

lemma scan_regions_spec:
  assumes "fs \<noteq> 0" "unat c + sum_list (map (region_frames fs) rs) < 2 ^ 32" "unat c \<le> 0xFFFFF"
  shows "if list_all (whole_frames fs) rs \<and> unat c + sum_list (map (region_frames fs) rs) \<le> 0xFFFFF
    then \<exists>n out. scan_regions fs c rs = Some (n, out) \<and> unat n = unat c + sum_list (map (region_frames fs) rs) \<and>
      map (\<lambda>r. (ar_base r, unat (ar_frac_frame_len r))) out = running_lengths fs (unat c) rs
    else scan_regions fs c rs = None"
  using assms(2,3)
proof (induction rs arbitrary: c)
  case Nil
  then show ?case by simp
next
  case (Cons r rs)
  let ?c = "c + ucast (rgn_length r div ucast fs)"
  have q: "unat (rgn_length r div ucast fs) = region_frames fs r"
    by (simp add: region_frames_def unat_div_distrib unat_ucast_u32_u64)
  have "region_frames fs r < 2 ^ 32" using Cons.prems(1) by simp
  then have "unat (ucast (rgn_length r div ucast fs) :: u32) = region_frames fs r"
    using q by (simp add: unat_ucast_down)
  then have c: "unat ?c = unat c + region_frames fs r"
    using Cons.prems(1) by (simp add: unat_word_ariths)
  have gt: "?c > kMaxFrames \<longleftrightarrow> \<not> unat c + region_frames fs r \<le> 0xFFFFF"
    unfolding word_less_nat_alt unat_kMaxFrames c by auto
  note w = whole_frames_iff [OF assms(1), of r]
  show ?case
  proof (cases "whole_frames fs r \<and> unat c + region_frames fs r \<le> 0xFFFFF")
    case False
    then have "scan_regions fs c (r # rs) = None" using w gt by (auto simp: Let_def)
    with False show ?thesis by auto
  next
    case True
    have "push_bit PTS_FRACTIONAL_BITS ?c = push_bit 12 ?c" by (simp add: PTS_FRACTIONAL_BITS_def)
    then have len: "unat (push_bit PTS_FRACTIONAL_BITS ?c) = (unat c + region_frames fs r) * 4096"
      using True c by (simp add: unat_push_bit_mod)
    have "\<not> (fs > 1 \<and> rgn_length r mod ucast fs \<noteq> 0)" "\<not> ?c > kMaxFrames" using True w gt by blast+
    then have eq: "scan_regions fs c (r # rs) = map_option
        (\<lambda>(n, out). (n, \<lparr> ar_base = rgn_offset r, ar_frac_frame_len = push_bit PTS_FRACTIONAL_BITS ?c \<rparr> # out)) (scan_regions fs ?c rs)"
      by (simp only: scan_regions.simps Let_def if_False)
    have IH: "if list_all (whole_frames fs) rs \<and> unat ?c + sum_list (map (region_frames fs) rs) \<le> 0xFFFFF
      then \<exists>n out. scan_regions fs ?c rs = Some (n, out) \<and> unat n = unat ?c + sum_list (map (region_frames fs) rs) \<and>
        map (\<lambda>r. (ar_base r, unat (ar_frac_frame_len r))) out = running_lengths fs (unat ?c) rs
      else scan_regions fs ?c rs = None"
      by (rule Cons.IH) (use Cons.prems(1) True c in auto)
    show ?thesis
    proof (cases "list_all (whole_frames fs) rs \<and> unat ?c + sum_list (map (region_frames fs) rs) \<le> 0xFFFFF")
      case ok: True
      with IH obtain n out where "scan_regions fs ?c rs = Some (n, out)" "unat n = unat ?c + sum_list (map (region_frames fs) rs)"
        "map (\<lambda>r. (ar_base r, unat (ar_frac_frame_len r))) out = running_lengths fs (unat ?c) rs" by auto
      with ok True eq c len show ?thesis by (auto simp del: scan_regions.simps)
    next
      case no: False
      with IH have "scan_regions fs ?c rs = None" by (simp only: if_False)
      with eq no True c show ?thesis by (auto simp del: scan_regions.simps)
    qed
  qed
qed

text \<open>When the first frame of a packet is to be presented, in fractional frames.\<close>

definition packet_start :: "Ratio \<Rightarrow> AudioPipe \<Rightarrow> MediaPacket \<Rightarrow> int" where
  "packet_start ratio s p =
     (if pkt_pts p \<noteq> kNoTimestamp then pkt_pts p * uint (numerator ratio) div uint (denominator ratio)
      else if next_pts_known s then next_pts s else 0)"

lemma start_pts_of_exact:
  assumes "denominator ratio \<noteq> 0" "in_int64 (pkt_pts p)" "in_int64 (packet_start ratio s p)" "packet_start ratio s p \<noteq> int64_min"
  shows "start_pts_of ratio s p = Inr (Some (packet_start ratio s p))"
proof (cases "pkt_pts p = kNoTimestamp")
  case True
  then show ?thesis by (simp add: start_pts_of_def packet_start_def)
next
  case False
  let ?lt = "LinearTransform_of_ratio 0 ratio 0" and ?a = "word_of_int (pkt_pts p) :: i64"
  have a: "sint ?a = pkt_pts p" using assms(2) by (simp add: signed_of_int signed_take_bit_int_eq_self in_int64_iff)
  have ex: "transformed ?a (a_zero ?lt) (numerator (scale ?lt)) (denominator (scale ?lt)) (b_zero ?lt) = packet_start ratio s p"
    using False by (simp add: transformed_def LinearTransform_of_ratio_def a packet_start_def)
  have "\<not> refused ?a (a_zero ?lt) (numerator (scale ?lt)) (denominator (scale ?lt)) (b_zero ?lt)"
    using assms(4) unfolding refused_def ex by (simp add: LinearTransform_of_ratio_def int64_min_def)
  moreover have "denominator (scale ?lt) \<noteq> 0" using assms(1) by (simp add: LinearTransform_of_ratio_def)
  ultimately obtain b where "DoForwardTransform ?lt ?a (Some 0) = Inr (True, Some b)" "sint b = packet_start ratio s p"
    using DoForwardTransform_spec [of ?lt ?a 0] assms(3) unfolding ex by auto
  with False show ?thesis by (simp add: start_pts_of_def)
qed

text \<open>
  C29. What the audio pipe makes of a packet that a media pipe has passed on. A packet
  with a region that is not a whole number of frames, or with more than \<open>2 ^ 20 - 1\<close>
  frames, resets the pipe and changes nothing else. From any other packet, the pipe makes
  an audio packet that starts at the time of the packet, rounded down to fractional
  frames, or where the previous packet ended; it lasts as long as it has frames, and the
  pipe remembers its end. A pending prime request is answered once. The length of each
  region is the number of frames from the beginning of the packet to the end of the
  region, which is the number of frames in the region for the first one only.
\<close>

theorem AudioPipe_OnPacketReceived_exact:
  assumes "pkt_payload (ms_packet st) \<noteq> None" "fs \<noteq> 0" "denominator ratio \<noteq> 0"
    and "sum_list (map (region_frames fs) (regions_of (ms_packet st))) < 2 ^ 32"
    and "in_int64 (pkt_pts (ms_packet st))" "in_int64 (packet_start ratio s (ms_packet st))" "packet_start ratio s (ms_packet st) \<noteq> int64_min"
    and "in_int64 (packet_start ratio s (ms_packet st) + int (sum_list (map (region_frames fs) (regions_of (ms_packet st)))) * 4096)"
  shows "let p = ms_packet st; n = sum_list (map (region_frames fs) (regions_of p));
      start = packet_start ratio s p; end = start + int n * 4096 in
    if list_all (whole_frames fs) (regions_of p) \<and> n \<le> 0xFFFFF
    then \<exists>out. AudioPipe_OnPacketReceived fs ratio st s =
        Inr (s\<lparr>next_pts := end, next_pts_known := True, prime_callback := None\<rparr>,
          Packet_received \<lparr> ap_state = st, ap_regions = out, ap_start_pts = start, ap_end_pts = end \<rparr> #
          map Run_callback (case prime_callback s of None \<Rightarrow> [] | Some c \<Rightarrow> [c])) \<and>
      map (\<lambda>r. (ar_base r, unat (ar_frac_frame_len r))) out = running_lengths fs 0 (regions_of p)
    else AudioPipe_OnPacketReceived fs ratio st s = Inr (s, [Pipe_Reset])"
proof -
  let ?p = "ms_packet st"
  let ?n = "sum_list (map (region_frames fs) (regions_of ?p))"
  obtain r where r: "pkt_payload ?p = Some r" using assms(1) by auto
  have rs: "r # (case pkt_extra_payload ?p of None \<Rightarrow> [] | Some rs \<Rightarrow> rs) = regions_of ?p"
    by (simp add: regions_of_def r)
  note scan = scan_regions_spec [OF assms(2), of 0 "regions_of ?p"]
  note start = start_pts_of_exact [OF assms(3,5,6,7)]
  show ?thesis
  proof (cases "list_all (whole_frames fs) (regions_of ?p) \<and> ?n \<le> 0xFFFFF")
    case True
    then obtain n out where out: "scan_regions fs 0 (regions_of ?p) = Some (n, out)" "unat n = ?n"
      "map (\<lambda>r. (ar_base r, unat (ar_frac_frame_len r))) out = running_lengths fs 0 (regions_of ?p)"
      using scan assms(4) by auto
    have "uint n = int (unat n)" by simp
    then have n: "uint n = int ?n" unfolding out(2) .
    have "AudioPipe_OnPacketReceived fs ratio st s =
        Inr (s\<lparr>next_pts := packet_start ratio s ?p + int ?n * 4096, next_pts_known := True, prime_callback := None\<rparr>,
          Packet_received \<lparr> ap_state = st, ap_regions = out, ap_start_pts = packet_start ratio s ?p,
            ap_end_pts = packet_start ratio s ?p + int ?n * 4096 \<rparr> #
          map Run_callback (case prime_callback s of None \<Rightarrow> [] | Some c \<Rightarrow> [c]))"
      unfolding AudioPipe_OnPacketReceived_def r option.case rs out(1) start prod.case rbind_simps n using assms(2,8)
      by (simp add: PTS_FRACTIONAL_BITS_def s64_def n split: option.split)
    then show ?thesis unfolding Let_def if_P [OF True] using out(3) by blast
  next
    case False
    then have "scan_regions fs 0 (regions_of ?p) = None" using scan assms(4) by simp
    then have "AudioPipe_OnPacketReceived fs ratio st s = Inr (s, [Pipe_Reset])"
      unfolding AudioPipe_OnPacketReceived_def r option.case rs using assms(2) by simp
    then show ?thesis unfolding Let_def if_not_P [OF False] .
  qed
qed

text \<open>A packet of two regions of ten mono 8-bit frames: the second region is given the length of both.\<close>

definition two_regions :: "unit MediaPacketState" where
  "two_regions = \<lparr> ms_packet = \<lparr> pkt_pts = 3, pkt_end_of_stream = False, pkt_payload = Some \<lparr> rgn_offset = 0, rgn_length = 10 \<rparr>,
     pkt_extra_payload = Some [\<lparr> rgn_offset = 10, rgn_length = 10 \<rparr>] \<rparr>,
     ms_buffer = \<lparr> bf_handle = None, bf_size = 20, bf_base = Some 0 \<rparr>, ms_cbk = 0, ms_result = SR_CONSUMED \<rparr>"

theorem AudioPipe_OnPacketReceived_exact_witness:
  "\<exists>out. AudioPipe_OnPacketReceived 1 \<lparr> numerator = 4096, denominator = 1 \<rparr> two_regions (AudioPipe_new\<lparr>prime_callback := Some 7\<rparr>) =
     Inr (\<lparr> next_pts_known = True, next_pts = 23 * 4096, prime_callback = None \<rparr>,
       [Packet_received \<lparr> ap_state = two_regions, ap_regions = out, ap_start_pts = 3 * 4096, ap_end_pts = 23 * 4096 \<rparr>, Run_callback 7]) \<and>
     map (\<lambda>r. (ar_base r, unat (ar_frac_frame_len r))) out = [(0, 10 * 4096), (10, 20 * 4096)]"
proof -
  let ?s = "AudioPipe_new\<lparr>prime_callback := Some 7\<rparr>" and ?q = "\<lparr> numerator = 4096, denominator = 1 \<rparr> :: Ratio"
  have p: "regions_of (ms_packet two_regions) = [\<lparr> rgn_offset = 0, rgn_length = 10 \<rparr>, \<lparr> rgn_offset = 10, rgn_length = 10 \<rparr>]"
    "pkt_payload (ms_packet two_regions) \<noteq> None" "pkt_pts (ms_packet two_regions) = 3" by (simp_all add: two_regions_def regions_of_def)
  have st: "packet_start ?q ?s (ms_packet two_regions) = 3 * 4096" unfolding packet_start_def p(3) by (simp add: kNoTimestamp_def int64_max_def)
  show ?thesis
    using AudioPipe_OnPacketReceived_exact [of two_regions 1 ?q ?s, OF p(2), unfolded Let_def p(1,3) st]
    by (simp add: region_frames_def whole_frames_def in_int64_iff int64_min_def Let_def AudioPipe_new_def)
qed

section \<open>Configuring a track\<close>

text \<open>The ratio of fractional frames to media time, in lowest terms.\<close>

definition frac_ratio :: "AudioTrackConfiguration \<Rightarrow> nat \<times> nat" where
  "frac_ratio c =
     (let n = 4096 * unat (audio_frame_ratio c); d = unat (media_time_ratio c)
      in (n div gcd n d, d div gcd n d))"

definition acceptable :: "AudioTrackConfiguration \<Rightarrow> bool" where
  "acceptable c \<longleftrightarrow> medium_is_audio c \<and> encoding_is_lpcm c \<and>
     (\<exists>cfg. audio_details c = Some cfg \<and> (sample_format cfg = UNSIGNED_8 \<or> sample_format cfg = SIGNED_16) \<and>
        (channels cfg = 1 \<or> channels cfg = 2) \<and> 1000 \<le> frames_per_second cfg \<and> frames_per_second cfg \<le> 48000) \<and>
     audio_frame_ratio c \<noteq> 0 \<and> media_time_ratio c \<noteq> 0 \<and> fst (frac_ratio c) < 2 ^ 31"

lemma supported_iff:
  "list_ex (matches_set cfg) kSupportedAudioTypeSets \<longleftrightarrow>
     (sample_format cfg = UNSIGNED_8 \<or> sample_format cfg = SIGNED_16) \<and> (channels cfg = 1 \<or> channels cfg = 2) \<and>
     1000 \<le> frames_per_second cfg \<and> frames_per_second cfg \<le> 48000"
proof -
  have "channels cfg \<ge> 1 \<and> channels cfg \<le> 2 \<longleftrightarrow> channels cfg = 1 \<or> channels cfg = 2"
    by (auto simp: word_le_nat_alt word_unat_eq_iff)
  then show ?thesis by (auto simp: kSupportedAudioTypeSets_def matches_set_def)
qed

lemma Ratio_make_reduced:
  assumes "d \<noteq> 0"
  obtains r where "Ratio_make n d = Inr r" "unat (numerator r) = unat n div gcd (unat n) (unat d)"
    "unat (denominator r) = unat d div gcd (unat n) (unat d)"
proof -
  obtain n' d' where r: "internal_Reduce n d = Inr (n', d')" "unat n' = unat n div gcd (unat n) (unat d)"
    "unat d' = unat d div gcd (unat n) (unat d)" using internal_Reduce_gcd [OF assms] by metis
  show ?thesis by (rule that [of "\<lparr>numerator = n', denominator = d'\<rparr>"]) (simp_all add: Ratio_make_def Ratio_Reduce_def assms r)
qed

lemma reduce_first:
  fixes a b k :: nat
  assumes "b \<noteq> 0"
  defines "g \<equiv> gcd a b"
  defines "N \<equiv> k * (a div g)" and "D \<equiv> b div g"
  shows "N div gcd N D = k * a div gcd (k * a) b" "D div gcd N D = b div gcd (k * a) b" "D \<noteq> 0"
proof -
  have g: "0 < g" using assms(1) by (simp add: g_def)
  have a: "k * a = g * N" and b: "b = g * D" by (simp_all add: N_def D_def g_def)
  show "D \<noteq> 0" using b assms(1) by auto
  have "gcd (k * a) b = g * gcd N D" unfolding a b by (rule gcd_mult_distrib_nat [symmetric])
  then show "N div gcd N D = k * a div gcd (k * a) b" "D div gcd N D = b div gcd (k * a) b"
    unfolding a using b g by (metis div_mult_mult1 not_gr_zero)+
qed

lemma frac_ratio_composed:
  assumes "media_time_ratio c \<noteq> 0"
  obtains fs gs ok r where "Ratio_make (push_bit PTS_FRACTIONAL_BITS 1) 1 = Inr fs"
    "Ratio_make (audio_frame_ratio c) (media_time_ratio c) = Inr gs" "Ratio_Compose fs gs = Inr (ok, r)"
    "ok \<longleftrightarrow> fst (frac_ratio c) < 2 ^ 31" "ok \<Longrightarrow> (unat (numerator r), unat (denominator r)) = frac_ratio c"
proof -
  let ?a = "unat (audio_frame_ratio c)" and ?b = "unat (media_time_ratio c)"
  let ?g = "gcd ?a ?b"
  have b: "?b \<noteq> 0" using assms by (simp add: word_unat_eq_iff)
  have "(1::u32) \<noteq> 0" by simp
  then obtain fs where "Ratio_make (push_bit PTS_FRACTIONAL_BITS 1) (1::u32) = Inr fs"
    "unat (numerator fs) = unat (push_bit PTS_FRACTIONAL_BITS (1::u32)) div gcd (unat (push_bit PTS_FRACTIONAL_BITS (1::u32))) (unat (1::u32))"
    "unat (denominator fs) = unat (1::u32) div gcd (unat (push_bit PTS_FRACTIONAL_BITS (1::u32))) (unat (1::u32))"
    using Ratio_make_reduced [of 1] by metis
  then have fs: "Ratio_make (push_bit PTS_FRACTIONAL_BITS 1) (1::u32) = Inr fs" "unat (numerator fs) = 4096" "unat (denominator fs) = 1"
    by (simp_all add: PTS_FRACTIONAL_BITS_def)
  obtain gs where gs: "Ratio_make (audio_frame_ratio c) (media_time_ratio c) = Inr gs" "unat (numerator gs) = ?a div ?g"
    "unat (denominator gs) = ?b div ?g" using Ratio_make_reduced [OF assms] by metis
  let ?N = "4096 * (?a div ?g)" and ?D = "?b div ?g"
  note red = reduce_first(1,2) [where a = ?a and k = 4096, OF b]
  have q: "?N div gcd ?N ?D = fst (frac_ratio c)" "?D div gcd ?N ?D = snd (frac_ratio c)"
    unfolding red(1,2) by (simp_all add: frac_ratio_def Let_def)
  have D0: "?D \<noteq> 0" by (rule reduce_first(3) [OF b])
  have a: "?a div ?g < 2 ^ 32" "?D < 2 ^ 32"
    using le_less_trans [OF div_le_dividend unat_less_2p [of "audio_frame_ratio c"]]
      le_less_trans [OF div_le_dividend unat_less_2p [of "media_time_ratio c"]] by simp_all
  then have "unat (numerator fs) * unat (numerator gs) < 2 ^ 63" "unat (denominator fs) * unat (denominator gs) \<noteq> 0"
    using D0 by (simp_all add: fs gs)
  from Ratio_Compose_reduced [OF this(2,1)] obtain ok r where r: "Ratio_Compose fs gs = Inr (ok, r)"
    "ok \<longleftrightarrow> 2 * fst (frac_ratio c) < 2 ^ 32 \<and> snd (frac_ratio c) < 2 ^ 32"
    "ok \<Longrightarrow> unat (numerator r) = fst (frac_ratio c) \<and> unat (denominator r) = snd (frac_ratio c)"
    unfolding fs(2,3) gs(2,3) q [symmetric] by (auto split: if_splits)
  have "snd (frac_ratio c) < 2 ^ 32" unfolding q(2) [symmetric] using le_less_trans [OF div_le_dividend a(2)] .
  then have "ok \<longleftrightarrow> fst (frac_ratio c) < 2 ^ 31" using r(2) by auto
  with r(3) show ?thesis by (intro that [OF fs(1) gs(1) r(1)]) (auto simp: prod_eq_iff)
qed

lemma Mixer_Select_supported:
  assumes "sample_format cfg = UNSIGNED_8 \<or> sample_format cfg = SIGNED_16" "channels cfg = 1 \<or> channels cfg = 2"
    "OutputFormatter_Select dst = Some F"
  shows "\<exists>m. Mixer_Select cfg (Some dst) = Inr (Some m)"
proof -
  have "channels dst = 1 \<or> channels dst = 2" using assms(3)
    by (auto simp: OutputFormatter_Select_def SelectOF_def split: AudioSampleFormat.splits if_splits)
  then have "select_channels cfg dst = Some (sample_format cfg, unat (channels cfg), unat (channels dst))"
    using assms(1,2) by (simp add: select_channels_def)
  moreover have "\<exists>r. Ratio_make (frames_per_second cfg) (frames_per_second dst) = Inr r"
  proof (cases "frames_per_second dst = 0")
    case True
    then show ?thesis by (simp add: Ratio_make_def Ratio_Reduce_def)
  next
    case False
    from Ratio_make_reduced [OF this] show ?thesis by metis
  qed
  ultimately show ?thesis by (auto simp: Mixer_Select_def PointSampler_Select_def LinearSampler_Select_def)
qed

text \<open>
  C30. A track that is not configured yet takes every acceptable configuration, and only
  these: LPCM audio in a supported format, with a ratio of frames to media time that is
  representable in fractional frames. Then the ratio of the track is exact and in lowest
  terms, the size of a frame is that of its samples, the track asks for outputs, and
  every output that could choose a formatter for its own format can choose a mixer for
  this track. Every other configuration shuts the track down.
\<close>

theorem Configure_exact:
  assumes "\<not> IsInitialized (at_media_pipe t)"
  shows "if acceptable c
    then \<exists>t' cfg. Configure now c t = Inr t' \<and> audio_details c = Some cfg \<and> at_format t' = Some cfg \<and>
      (unat (numerator (at_ratio t')), unat (denominator (at_ratio t'))) = frac_ratio c \<and>
      unat (at_bytes_per_frame t') = sizeof_DType (sample_format cfg) * unat (channels cfg) \<and>
      IsInitialized (at_media_pipe t') \<and> at_selected t' = at_selected t + 1 \<and>
      (\<forall>dst F. OutputFormatter_Select dst = Some F \<longrightarrow> (\<exists>m. Mixer_Select cfg (Some dst) = Inr (Some m)))
    else \<exists>r. Configure now c t = AudioTrack_Shutdown now (t\<lparr>at_ratio := r\<rparr>)"
proof -
  have shut: "\<exists>r. AudioTrack_Shutdown now t = AudioTrack_Shutdown now (t\<lparr>at_ratio := r\<rparr>)"
    by (intro exI [of _ "at_ratio t"]) simp
  have lt1: "x < 1 \<longleftrightarrow> x = 0" for x :: u32 by (simp add: word_less_nat_alt word_unat_eq_iff)
  show ?thesis
  proof (cases "medium_is_audio c \<and> encoding_is_lpcm c \<and> audio_frame_ratio c \<noteq> 0 \<and> media_time_ratio c \<noteq> 0 \<and>
      (\<exists>cfg. audio_details c = Some cfg \<and> list_ex (matches_set cfg) kSupportedAudioTypeSets)")
    case False
    then have "\<not> acceptable c" unfolding acceptable_def supported_iff by blast
    moreover have "Configure now c t = AudioTrack_Shutdown now t"
    proof (cases "audio_details c")
      case None
      with assms show ?thesis by (simp add: Configure_def)
    next
      case (Some cfg)
      obtain R where eq: "Configure now c t = (if \<not> medium_is_audio c \<or> \<not> encoding_is_lpcm c then AudioTrack_Shutdown now t
          else if \<not> list_ex (matches_set cfg) kSupportedAudioTypeSets then AudioTrack_Shutdown now t
          else if audio_frame_ratio c < 1 \<or> media_time_ratio c < 1 then AudioTrack_Shutdown now t else R)"
        unfolding Configure_def if_not_P [OF assms] Some option.case by blast
      from False Some consider "\<not> medium_is_audio c" | "\<not> encoding_is_lpcm c" | "\<not> list_ex (matches_set cfg) kSupportedAudioTypeSets"
        | "audio_frame_ratio c = 0" | "media_time_ratio c = 0" by blast
      then show ?thesis by cases (simp_all add: eq)
    qed
    ultimately show ?thesis using shut by simp
  next
    case True
    then obtain cfg where cfg: "audio_details c = Some cfg" "list_ex (matches_set cfg) kSupportedAudioTypeSets" by blast
    note sup = cfg(2) [unfolded supported_iff]
    have mt: "media_time_ratio c \<noteq> 0" using True by blast
    obtain fs gs ok r where cmp: "Ratio_make (push_bit PTS_FRACTIONAL_BITS 1) 1 = Inr fs"
      "Ratio_make (audio_frame_ratio c) (media_time_ratio c) = Inr gs" "Ratio_Compose fs gs = Inr (ok, r)"
      "ok \<longleftrightarrow> fst (frac_ratio c) < 2 ^ 31" "ok \<Longrightarrow> (unat (numerator r), unat (denominator r)) = frac_ratio c"
      using frac_ratio_composed [OF mt] by blast
    obtain bytes where bytes: "bytes_of_format (sample_format cfg) = Inr bytes" "unat bytes = sizeof_DType (sample_format cfg)"
      using sup by (auto simp: bytes_of_format_def sizeof_DType_def)
    have acc: "acceptable c \<longleftrightarrow> ok" using True cfg sup cmp(4) by (auto simp: acceptable_def)
    have cmp1: "Ratio_make (2 ^ PTS_FRACTIONAL_BITS) 1 = Inr fs" using cmp(1) by simp
    have eq: "Configure now c t = (if \<not> ok then AudioTrack_Shutdown now (t\<lparr>at_ratio := r\<rparr>)
      else Inr (t\<lparr>at_ratio := r, at_bytes_per_frame := bytes * channels cfg, at_media_pipe := (at_media_pipe t)\<lparr>pb_bound := True\<rparr>,
        at_format := Some cfg, at_selected := at_selected t + 1\<rparr>))"
      using True cfg assms by (simp add: Configure_def lt1 cmp1 cmp(2,3) bytes(1) MediaPipe_Init_def Let_def)
    have "unat (bytes * channels cfg) = unat bytes * unat (channels cfg)"
      using sup bytes(2) by (auto simp: unat_word_ariths sizeof_DType_def)
    then show ?thesis
      using Mixer_Select_supported [of cfg] sup cmp(5) bytes(2) cfg(1) by (simp add: acc eq IsInitialized_def) blast
  qed
qed

definition example_track :: "unit AudioTrack" where
  "example_track = \<lparr> at_bound = True, at_media_pipe = MediaPipe_new, at_pipe = AudioPipe_new, at_rate_control = rc_steady,
     at_ratio = Ratio_default, at_bytes_per_frame = 1, at_format = None, at_outputs = [], at_selected = 0, at_removed = False \<rparr>"

theorem Configure_exact_witness:
  "\<exists>t'. Configure 0 \<lparr> medium_is_audio = True, encoding_is_lpcm = True,
       audio_details = Some \<lparr> sample_format = SIGNED_16, channels = 2, frames_per_second = 48000 \<rparr>,
       audio_frame_ratio = 8, media_time_ratio = 15 \<rparr> example_track = Inr t' \<and>
     unat (at_bytes_per_frame t') = 4 \<and> (unat (numerator (at_ratio t')), unat (denominator (at_ratio t'))) = (32768, 15)"
proof -
  let ?c = "\<lparr> medium_is_audio = True, encoding_is_lpcm = True,
    audio_details = Some \<lparr> sample_format = SIGNED_16, channels = 2, frames_per_second = 48000 \<rparr>,
    audio_frame_ratio = 8, media_time_ratio = 15 \<rparr>"
  have "gcd (32768 :: nat) 15 = 1" by (simp add: gcd_non_0_nat)
  then have f: "frac_ratio ?c = (32768, 15)" by (simp add: frac_ratio_def)
  then have "acceptable ?c" unfolding acceptable_def by simp
  moreover have "\<not> IsInitialized (at_media_pipe example_track)"
    by (simp add: example_track_def MediaPipe_new_def IsInitialized_def)
  ultimately obtain t' cfg where "Configure 0 ?c example_track = Inr t'" "audio_details ?c = Some cfg"
    "(unat (numerator (at_ratio t')), unat (denominator (at_ratio t'))) = frac_ratio ?c"
    "unat (at_bytes_per_frame t') = sizeof_DType (sample_format cfg) * unat (channels cfg)"
    using Configure_exact [of example_track ?c 0] by (simp only: if_True) blast
  then show ?thesis unfolding f by (auto simp: sizeof_DType_def)
qed

end
