(* ===== verification/Linear_Sampling.thy ===== *)
theory Linear_Sampling
  imports Samplers
begin

text \<open>
  What the linear sampler of \<^verbatim>\<open>Samplers\<close> computes: the positions it visits, the interpolated
  sample at each of them and the frame it remembers for the next buffer.
\<close>

section \<open>What the linear sampler does\<close>

lemma steps_split:
  assumes "0 < step" "l1 \<le> l2"
  shows "steps l2 step soff = steps l1 step soff + steps l2 step (soff + int (steps l1 step soff) * int step)"
proof (induction "steps l1 step soff" arbitrary: soff)
  case 0
  then show ?case by simp
next
  case (Suc k)
  have lt: "soff < l1" using Suc.hyps(2) steps_zero [OF assms(1), of l1 soff] by (cases "soff < l1") auto
  have k: "steps l1 step (soff + int step) = k" using steps_Suc [OF assms(1) lt] Suc.hyps(2) by simp
  have "steps l2 step soff = Suc (steps l2 step (soff + int step))" using lt assms by (intro steps_Suc) auto
  also have "steps l2 step (soff + int step) = k + steps l2 step (soff + int step + int k * int step)"
    using Suc.hyps(1) [of "soff + int step"] k by simp
  also have "soff + int step + int k * int step = soff + int (Suc k) * int step" by (simp add: distrib_right)
  finally show ?case using Suc.hyps(2) [symmetric] by simp
qed

lemma rounds_split:
  assumes "0 < step" "l1 \<le> l2"
  shows "rounds dst_frames doff l1 step soff +
    rounds dst_frames (doff + rounds dst_frames doff l1 step soff) l2 step
      (soff + int (rounds dst_frames doff l1 step soff) * int step) = rounds dst_frames doff l2 step soff"
  using steps_split [OF assms, of soff]
  by (cases "dst_frames - doff \<le> steps l1 step soff") (auto simp: rounds_def min_def)

lemma rounds_final:
  assumes "0 < step"
  shows "rounds dst_frames doff (limit + 1) step soff =
    (let r = rounds dst_frames doff limit step soff
     in if doff + r < dst_frames \<and> soff + int r * int step = limit then Suc r else r)"
proof -
  let ?r = "rounds dst_frames doff limit step soff"
  let ?s = "soff + int ?r * int step"
  have split: "rounds dst_frames doff (limit + 1) step soff = ?r + rounds dst_frames (doff + ?r) (limit + 1) step ?s"
    using rounds_split [OF assms, of limit "limit + 1" dst_frames doff soff] by simp
  show ?thesis
  proof (cases "doff + ?r < dst_frames")
    case False
    then have "rounds dst_frames (doff + ?r) (limit + 1) step ?s = 0" by (simp add: rounds_def [of dst_frames "doff + ?r"])
    then show ?thesis using split False by (simp add: Let_def)
  next
    case True
    then have "?r = steps limit step soff" by (simp add: rounds_def min_def split: if_splits)
    then have ge: "limit \<le> ?s" using steps_reach [OF assms, of limit soff] by simp
    have "steps (limit + 1) step ?s = (if ?s = limit then 1 else 0)"
    proof (cases "?s = limit")
      case True
      then show ?thesis using steps_Suc [OF assms, of ?s "limit + 1"] steps_zero [OF assms, of "limit + 1" "?s + int step"] assms by simp
    next
      case False
      with ge steps_zero [OF assms, of "limit + 1" ?s] show ?thesis by simp
    qed
    with split True show ?thesis by (simp add: rounds_def Let_def)
  qed
qed

lemma Interpolate_ok:
  assumes "in_int16 A" "in_int16 B" "0 \<le> alpha" "alpha \<le> 4096"
  shows "Interpolate A B alpha = Inr ((A * (4096 - alpha) + B * alpha) div 4096)"
    "in_int16 ((A * (4096 - alpha) + B * alpha) div 4096)"
proof -
  have one: "FRAC_ONE = 4096" by (simp add: FRAC_ONE_def PTS_FRACTIONAL_BITS_def)
  have a: "- 32768 * (4096 - alpha) \<le> A * (4096 - alpha)" "A * (4096 - alpha) \<le> 32767 * (4096 - alpha)"
    using scale_mult_bounds [OF assms(1), of "4096 - alpha" "4096 - alpha"] assms by auto
  have b: "- 32768 * alpha \<le> B * alpha" "B * alpha \<le> 32767 * alpha"
    using scale_mult_bounds [OF assms(2,3) order_refl] by auto
  have r: "in_int32 (A * (4096 - alpha))" "in_int32 (B * alpha)" "in_int32 (A * (4096 - alpha) + B * alpha)"
    using a b assms(3,4) unfolding in_int32_def by auto
  then show "Interpolate A B alpha = Inr ((A * (4096 - alpha) + B * alpha) div 4096)"
    by (simp add: Interpolate_def one PTS_FRACTIONAL_BITS_def)
  have "- 32768 * 4096 \<le> A * (4096 - alpha) + B * alpha" "A * (4096 - alpha) + B * alpha \<le> 32767 * 4096"
    using a b by (simp_all add: algebra_simps)
  from div_bounds [OF _ this] show "in_int16 ((A * (4096 - alpha) + B * alpha) div 4096)" by (simp add: in_int16_def)
qed

text \<open>The sample at a position: before the first frame it is interpolated from the last frame of the previous buffer.\<close>

definition linear_sample :: "AudioSampleFormat \<Rightarrow> nat \<Rightarrow> nat \<Rightarrow> u8 list \<Rightarrow> int list \<Rightarrow> int \<Rightarrow> int \<Rightarrow> nat \<Rightarrow> int" where
  "linear_sample fmt s d src prev send pos D =
     (let x = (\<lambda>k. frame_sample fmt s d src (nat k) D)
      in if pos < 0 then (x 0 * (4096 + pos) + prev ! D * (- pos)) div 4096
         else if pos < send then (x (pos div 4096) * (4096 - pos mod 4096) + x (pos div 4096 + 1) * (pos mod 4096)) div 4096
         else x (pos div 4096))"

lemma read_channels_eq:
  assumes "\<forall>i. D \<le> i \<and> i < D + n \<longrightarrow> rd i = Inr (f i)" "base + D + n \<le> length fd"
  shows "read_channels rd D n fd base = Inr (overlay (base + D) (base + D + n) (\<lambda>j _. f (j - base)) fd)"
  using assms
proof (induction n arbitrary: D fd)
  case (Suc n)
  let ?g = "\<lambda>j (_::int). f (j - base)"
  have upd: "fd[base + D := f D] = overlay (base + D) (Suc (base + D)) ?g fd"
    using overlay_update [of "base + D" fd ?g] Suc.prems(2) by simp
  have "read_channels rd (Suc D) n (fd[base + D := f D]) base =
      Inr (overlay (base + Suc D) (base + Suc D + n) ?g (fd[base + D := f D]))"
    by (rule Suc.IH) (use Suc.prems in auto)
  moreover have "overlay (base + Suc D) (base + Suc D + n) ?g (fd[base + D := f D]) = overlay (base + D) (base + D + Suc n) ?g fd"
    unfolding upd using overlay_join [of "base + D" "Suc (base + D)" "base + D + Suc n" ?g fd] by simp
  ultimately show ?case using Suc.prems by simp
qed simp

text \<open>What the linear sampler is given.\<close>

definition linear_pre :: "AudioSampleFormat \<Rightarrow> nat \<Rightarrow> nat \<Rightarrow> int list \<Rightarrow> int list \<Rightarrow> nat \<Rightarrow> nat \<Rightarrow> u8 list \<Rightarrow> nat \<Rightarrow> int \<Rightarrow> nat \<Rightarrow> bool" where
  "linear_pre fmt s d fd dst dst_frames doff src F soff step \<longleftrightarrow>
     supported fmt s d \<and> has_frames fmt s src (nat ((int F + 4095) div 4096)) \<and> 4096 \<le> F \<and>
     0 < step \<and> F + step \<le> 2 ^ 31 \<and> - 4096 < soff \<and> soff < int F \<and>
     doff < dst_frames \<and> dst_frames * d \<le> length dst \<and> list_all roomy dst \<and>
     length fd = 2 * d \<and> list_all in_int16 fd"

lemma linear_preD:
  assumes "linear_pre fmt s d fd dst dst_frames doff src F soff step"
  shows "supported fmt s d" "has_frames fmt s src (nat ((int F + 4095) div 4096))" "4096 \<le> int F" "0 < step"
    "int F + int step \<le> 2 ^ 31" "- 4096 < soff" "soff < int F" "doff < dst_frames" "dst_frames * d \<le> length dst"
    "list_all roomy dst" "length fd = 2 * d" "list_all in_int16 fd" "0 < d" "F < 2 ^ 31" "s = 1 \<or> s = 2"
  using assms by (auto simp: linear_pre_def supported_def)

lemma frame_read:
  assumes "linear_pre fmt s d fd dst dst_frames doff src F soff step" "0 \<le> pos" "pos < int F" "D < d"
  shows "SrcReader_Read fmt s d src (frame_index s pos + D div DstPerSrc s d) = Inr (frame_sample fmt s d src (nat (pos div 4096)) D)"
    "in_int16 (frame_sample fmt s d src (nat (pos div 4096)) D)"
  using point_read_ok [OF linear_preD(1,2) [OF assms(1)] linear_preD(14) [OF assms(1)] assms(2-4)]
  by (simp_all only: PointSampler_read_def frame_index_def)

lemma linear_read_ok:
  assumes "linear_pre fmt s d fd dst dst_frames doff src F soff step" "0 \<le> pos" "pos < int F - 4096" "D < d"
  shows "LinearSampler_read fmt s d src pos D = Inr (linear_sample fmt s d src prev (int F - 4096) pos D)"
    "in_int16 (linear_sample fmt s d src prev (int F - 4096) pos D)"
proof -
  note p = linear_preD [OF assms(1)]
  let ?k = "pos div 4096"
  have r1: "SrcReader_Read fmt s d src (frame_index s pos + D div DstPerSrc s d) = Inr (frame_sample fmt s d src (nat ?k) D)"
    "in_int16 (frame_sample fmt s d src (nat ?k) D)"
    using frame_read [OF assms(1,2) _ assms(4)] assms(3) by auto
  have q: "(pos + 4096) div 4096 = ?k + 1" by simp
  have r2: "SrcReader_Read fmt s d src (frame_index s (pos + 4096) + D div DstPerSrc s d) = Inr (frame_sample fmt s d src (nat (?k + 1)) D)"
    "in_int16 (frame_sample fmt s d src (nat (?k + 1)) D)"
    using frame_read [OF assms(1) _ _ assms(4), of "pos + 4096"] assms(2,3) unfolding q by auto
  have k: "0 \<le> ?k" using assms(2) by (simp add: pos_imp_zdiv_nonneg_iff)
  have "frame_index s (pos + 4096) = nat (?k + 1) * s"
    using frame_index_eq [of "pos + 4096" s] assms(2,3) p(14,15) unfolding frame_index_def q by simp
  moreover have "frame_index s pos = nat ?k * s"
    using frame_index_eq [of pos s] assms(2,3) p(14,15) unfolding frame_index_def by simp
  ultimately have i: "frame_index s pos + D div DstPerSrc s d + s = frame_index s (pos + 4096) + D div DstPerSrc s d"
    using k by (simp add: nat_add_distrib)
  have mask: "FRAC_MASK + 1 = 4096" by (simp add: FRAC_MASK_def FRAC_ONE_def PTS_FRACTIONAL_BITS_def)
  have m: "0 \<le> pos mod 4096" "pos mod 4096 \<le> 4096" using pos_mod_bound [of 4096 pos] by auto
  note ip = Interpolate_ok [OF r1(2) r2(2) m]
  show "LinearSampler_read fmt s d src pos D = Inr (linear_sample fmt s d src prev (int F - 4096) pos D)"
    using ip(1) r1(1) r2(1) assms(2,3) unfolding LinearSampler_read_def i mask by (simp add: linear_sample_def Let_def)
  show "in_int16 (linear_sample fmt s d src prev (int F - 4096) pos D)"
    using ip(2) assms(2,3) by (simp add: linear_sample_def Let_def)
qed

text \<open>The filter data while positions before the first frame are sampled.\<close>

definition with_first :: "AudioSampleFormat \<Rightarrow> nat \<Rightarrow> nat \<Rightarrow> u8 list \<Rightarrow> int list \<Rightarrow> int list" where
  "with_first fmt s d src fd = overlay d (d + d) (\<lambda>j _. frame_sample fmt s d src 0 (j - d)) fd"

lemma with_first_read:
  assumes "linear_pre fmt s d fd dst dst_frames doff src F soff step"
  shows "read_channels (\<lambda>D. SrcReader_Read fmt s d src (0 + D div DstPerSrc s d)) 0 d fd d = Inr (with_first fmt s d src fd)"
proof -
  have "frame_index s 0 = 0" by (simp add: frame_index_def)
  then have "SrcReader_Read fmt s d src (0 + D div DstPerSrc s d) = Inr (frame_sample fmt s d src 0 D)" if "D < d" for D
    using frame_read(1) [OF assms, of 0 D] that linear_preD(3) [OF assms] by simp
  then show ?thesis using read_channels_eq [of 0 d _ "frame_sample fmt s d src 0" d fd] linear_preD(11) [OF assms]
    by (simp add: with_first_def)
qed

lemma linear_before_ok:
  assumes "linear_pre fmt s d fd dst dst_frames doff src F soff step" "- 4096 < pos" "pos < 0" "D < d"
  shows "LinearSampler_before d (with_first fmt s d src fd) pos D = Inr (linear_sample fmt s d src fd send pos D)"
    "in_int16 (linear_sample fmt s d src fd send pos D)"
proof -
  note p = linear_preD [OF assms(1)]
  have first: "in_int16 (frame_sample fmt s d src 0 D)" using frame_read(2) [OF assms(1), of 0 D] p(3) assms(4) by simp
  have prev: "in_int16 (fd ! D)" using p(11,12) assms(4) by (simp add: list_all_length)
  have m: "0 \<le> - pos" "- pos \<le> 4096" using assms by auto
  note ip = Interpolate_ok [OF first prev m]
  show "LinearSampler_before d (with_first fmt s d src fd) pos D = Inr (linear_sample fmt s d src fd send pos D)"
    using ip(1) p(11) assms(3,4) by (simp add: LinearSampler_before_def with_first_def overlay_nth linear_sample_def Let_def)
  show "in_int16 (linear_sample fmt s d src fd send pos D)" using ip(2) assms(3) by (simp add: linear_sample_def Let_def)
qed

lemma linear_last_ok:
  assumes "linear_pre fmt s d fd dst dst_frames doff src F soff step" "D < d"
  shows "SrcReader_Read fmt s d src (frame_index s (int F - 4096) + D div DstPerSrc s d) =
      Inr (linear_sample fmt s d src fd (int F - 4096) (int F - 4096) D)"
    "in_int16 (linear_sample fmt s d src fd (int F - 4096) (int F - 4096) D)"
  using frame_read [OF assms(1), of "int F - 4096" D] linear_preD(3) [OF assms(1)] assms(2)
  by (simp_all add: linear_sample_def Let_def)

lemma linear_visited:
  assumes "linear_pre fmt s d fd dst dst_frames doff src F soff step" "- 4096 < pos" "pos \<le> int F - 4096" "D < d"
  shows "in_int16 (linear_sample fmt s d src fd (int F - 4096) pos D)"
proof -
  consider "pos < 0" | "0 \<le> pos" "pos < int F - 4096" | "pos = int F - 4096" using assms(3) by linarith
  then show ?thesis
    by cases (use assms linear_before_ok(2) [OF assms(1,2) _ assms(4)] linear_read_ok(2) [OF assms(1) _ _ assms(4)]
      linear_last_ok(2) [OF assms(1,4)] in auto)
qed

text \<open>The part of \<^verbatim>\<open>Mix\<close> that samples: both loops together are one run up to the last frame.\<close>

lemma linear_sampling:
  assumes pre: "linear_pre fmt s d fd dst dst_frames doff src F soff step"
    and t: "select_scaler amp acc = (t, acc')" "\<not> muted amp"
  defines "send \<equiv> int F - 4096"
  defines "f \<equiv> linear_sample fmt s d src fd send" and "r \<equiv> rounds dst_frames doff send step soff"
  shows "\<exists>fd'. LinearSampler_produce t acc' fmt s d fd dst dst_frames doff src send soff step amp =
      Inr (fd', mixed_frames f t acc' amp d step r soff doff dst, doff + r, soff + int r * int step) \<and>
      length fd' = 2 * d \<and> (\<forall>D < d. fd' ! D = fd ! D)"
proof -
  note p = linear_preD [OF pre] and sc = select_scaler_cases(3) [OF t]
  have nm: "t \<noteq> MUTED" using select_scaler_cases(1) [OF t(1)] t(2) by simp
  have send: "0 \<le> send" "send + int step \<le> 2 ^ 31" using p(3,5) by (simp_all add: send_def)
  let ?n = "rounds dst_frames doff 0 step soff"
  define fd1 where "fd1 = (if soff < 0 then with_first fmt s d src fd else fd)"
  define dst1 where "dst1 = mixed_frames f t acc' amp d step ?n soff doff dst"
  have fd1: "length fd1 = 2 * d" "\<forall>D < d. fd1 ! D = fd ! D"
    using p(11) by (auto simp: fd1_def with_first_def overlay_nth)
  have roomy: "\<forall>j. k * d \<le> j \<and> j < dst_frames * d \<longrightarrow> acc' \<longrightarrow> roomy (dst ! j)" for k
    using p(9,10) by (auto simp: list_all_length)
  have first: "(if soff < 0
       then rbind (read_channels (\<lambda>D. SrcReader_Read fmt s d src (0 + D div DstPerSrc s d)) 0 d fd d) (\<lambda>fd.
            rbind (sample_loop (LinearSampler_before d fd) t acc' amp d dst_frames 0 step dst doff soff) (\<lambda>x. Inr (fd, x)))
       else Inr (fd, dst, doff, soff)) = Inr (fd1, dst1, doff + ?n, soff + int ?n * int step)"
  proof (cases "soff < 0")
    case False
    then have "?n = 0" using steps_zero [OF p(4), of 0 soff] by (simp add: rounds_def)
    with False show ?thesis by (simp add: fd1_def dst1_def)
  next
    case True
    have ok: "LinearSampler_before d fd1 (soff + int i * int step) D = Inr (f (soff + int i * int step) D) \<and>
        in_int16 (f (soff + int i * int step) D)" if "i < ?n" "D < d" for i D
    proof -
      have "soff + int i * int step < 0" by (rule rounds_position [OF p(4) that(1)])
      moreover have "- 4096 < soff + int i * int step" using p(6) by (rule less_le_trans) simp
      ultimately show ?thesis using linear_before_ok [OF pre _ _ that(2)] True by (simp add: fd1_def f_def)
    qed
    have "sample_loop (LinearSampler_before d fd1) t acc' amp d dst_frames 0 step dst doff soff =
        Inr (dst1, doff + ?n, soff + int ?n * int step)"
      unfolding dst1_def
      by (rule sample_loop_exact [OF p(4) _ _ p(13,9) _ roomy]) (use p(5,6) ok sc in auto)
    with True show ?thesis by (simp add: with_first_read [OF pre, simplified] fd1_def)
  qed
  let ?s1 = "soff + int ?n * int step"
  let ?m = "rounds dst_frames (doff + ?n) send step ?s1"
  have rm: "?n + ?m = r" unfolding r_def by (rule rounds_split [OF p(4) send(1)])
  have ok2: "LinearSampler_read fmt s d src (?s1 + int i * int step) D = Inr (f (?s1 + int i * int step) D) \<and>
      in_int16 (f (?s1 + int i * int step) D)" if "i < ?m" "D < d" for i D
  proof -
    have "doff + ?n < dst_frames" using that(1) rounds_le [of dst_frames "doff + ?n" send step ?s1] by linarith
    then have "?n = steps 0 step soff" by (simp add: rounds_def min_def split: if_splits)
    then have "0 \<le> ?s1" using steps_reach [OF p(4), of 0 soff] by simp
    then have "0 \<le> ?s1 + int i * int step" by simp
    moreover have "?s1 + int i * int step < int F - 4096"
      using rounds_position [OF p(4) that(1)] by (simp add: send_def)
    ultimately show ?thesis using linear_read_ok [OF pre _ _ that(2)] by (simp add: f_def send_def)
  qed
  have "sample_loop (LinearSampler_read fmt s d src) t acc' amp d dst_frames send step dst1 (doff + ?n) ?s1 =
      Inr (mixed_frames f t acc' amp d step ?m ?s1 (doff + ?n) dst1, doff + ?n + ?m, ?s1 + int ?m * int step)"
  proof (rule sample_loop_exact [OF p(4) send(2) _ p(13)])
    show "- (2 ^ 31) \<le> ?s1"
    proof -
      have "soff \<le> ?s1" "- (2 ^ 31) \<le> (- 4096 :: int)" by simp_all
      with p(6) show ?thesis by linarith
    qed
    show "\<forall>j. (doff + ?n) * d \<le> j \<and> j < dst_frames * d \<longrightarrow> acc' \<longrightarrow> roomy (dst1 ! j)"
      using roomy [of "doff + ?n"] p(9) by (auto simp: dst1_def mixed_frames_def overlay_nth)
  qed (use p(9) ok2 sc in \<open>auto simp: dst1_def\<close>)
  moreover have "mixed_frames f t acc' amp d step ?m ?s1 (doff + ?n) dst1 = mixed_frames f t acc' amp d step r soff doff dst"
    unfolding dst1_def mixed_frames_join rm ..
  moreover have "doff + ?n + ?m = doff + r" "?s1 + int ?m * int step = soff + int r * int step"
    using rm by (simp_all add: algebra_simps flip: rm)
  ultimately show ?thesis unfolding LinearSampler_produce_def if_P [OF nm] first using fd1 by (intro exI [of _ fd1]) simp
qed

text \<open>
  The rest of \<^verbatim>\<open>Mix\<close>, from the state the first part leaves: the last frame is sampled when
  the position hits it exactly, and the filter data remember it once it has been reached.
\<close>

lemma linear_finish:
  assumes pre: "linear_pre fmt s d fd dst dst_frames doff src F soff step"
    and t: "select_scaler amp acc = (t, acc')"
    and fd': "length fd' = 2 * d" "\<forall>D < d. fd' ! D = fd ! D"
  defines "send \<equiv> int F - 4096"
  defines "f \<equiv> linear_sample fmt s d src fd send" and "r \<equiv> rounds dst_frames doff send step soff"
    and "n \<equiv> rounds dst_frames doff (send + 1) step soff"
  defines "dst1 \<equiv> (if muted amp then dst else mixed_frames f t acc' amp d step r soff doff dst)"
    and "pos \<equiv> soff + int n * int step"
  shows "\<exists>fd''. LinearSampler_finish t acc' fmt s d dst_frames src send step amp (fd', dst1, doff + r, soff + int r * int step) =
      Inr (send \<le> pos \<and> doff + n < dst_frames, fd'',
        if muted amp then dst else mixed_frames f t acc' amp d step n soff doff dst, doff + n, pos) \<and>
      length fd'' = 2 * d \<and>
      (\<forall>D < d. fd'' ! D = (if send \<le> pos then frame_sample fmt s d src (nat (send div 4096)) D else fd ! D))"
proof -
  note p = linear_preD [OF pre] and sel = select_scaler_cases [OF t]
  have send: "0 \<le> send" "send + int step \<le> 2 ^ 31" using p(3,5) by (simp_all add: send_def)
  have rest: "(if doff + r < dst_frames \<and> soff + int r * int step = send
       then rbind (if t \<noteq> MUTED
                   then mix_channels (\<lambda>D. SrcReader_Read fmt s d src (frame_index s (soff + int r * int step) + D div DstPerSrc s d))
                          t acc' amp ((doff + r) * d) 0 d dst1
                   else Inr dst1)
              (\<lambda>dst. Inr (dst, doff + r + 1, to_int32 (soff + int r * int step + int step)))
       else Inr (dst1, doff + r, soff + int r * int step)) =
      Inr (if muted amp then dst else mixed_frames f t acc' amp d step n soff doff dst, doff + n, pos)"
  proof (cases "doff + r < dst_frames \<and> soff + int r * int step = send")
    case False
    then have "n = r" using rounds_final [OF p(4), of dst_frames doff send soff] by (auto simp: n_def r_def Let_def)
    then show ?thesis unfolding if_not_P [OF False] by (simp add: dst1_def pos_def)
  next
    case True
    then have n: "n = Suc r" using rounds_final [OF p(4), of dst_frames doff send soff] by (simp add: n_def r_def Let_def)
    have pos: "pos = send + int step" using True by (simp add: pos_def n distrib_right)
    have fit: "to_int32 (send + int step) = send + int step"
    proof (cases "send + int step = 2 ^ 31")
      case True
      with p(5) show ?thesis by (simp add: send_def)
    next
      case False
      with send show ?thesis by (intro to_int32_id) (simp add: in_int32_def)
    qed
    have mix: "mix_channels (\<lambda>D. SrcReader_Read fmt s d src (frame_index s send + D div DstPerSrc s d)) t acc' amp
        ((doff + r) * d) 0 d dst1 = Inr (mixed_frames f t acc' amp d step n soff doff dst)" if nm: "\<not> muted amp"
    proof -
      have "mix_channels (\<lambda>D. SrcReader_Read fmt s d src (frame_index s send + D div DstPerSrc s d)) t acc' amp
          ((doff + r) * d) 0 d dst1 = Inr (mixed_frames f t acc' amp d step 1 send (doff + r) dst1)"
      proof (rule mix_frame_eq)
        show "\<forall>D < d. SrcReader_Read fmt s d src (frame_index s send + D div DstPerSrc s d) = Inr (f send D) \<and>
            in_int16 (SampleScaler_Scale t (f send D) amp)"
          using linear_last_ok [OF pre] sel(3) [OF nm] by (simp add: f_def send_def)
        have le: "(doff + r) * d + d \<le> dst_frames * d" using mult_le_mono1 [of "Suc (doff + r)" dst_frames d] True by simp
        then show "(doff + r) * d + d \<le> length dst1" using p(9) by (simp add: dst1_def)
        show "\<forall>j. (doff + r) * d \<le> j \<and> j < (doff + r) * d + d \<longrightarrow> acc' \<longrightarrow> roomy (dst1 ! j)"
          using p(9,10) le nm by (auto simp: dst1_def mixed_frames_def overlay_nth list_all_length)
      qed
      also have "mixed_frames f t acc' amp d step 1 send (doff + r) dst1 = mixed_frames f t acc' amp d step n soff doff dst"
        using mixed_frames_join [of f t acc' amp d step 1 soff r doff dst] True nm by (simp add: dst1_def n)
      finally show ?thesis .
    qed
    show ?thesis
    proof (cases "muted amp")
      case m: True
      then show ?thesis using True fit sel(1) by (simp add: dst1_def n pos)
    next
      case m: False
      then show ?thesis using True fit mix sel(1) by (simp add: n pos)
    qed
  qed
  have last: "SrcReader_Read fmt s d src (frame_index s send + D div DstPerSrc s d) =
      Inr (frame_sample fmt s d src (nat (send div 4096)) D)" if "D < d" for D
    using frame_read(1) [OF pre _ _ that, of send] send p(3) by (simp add: send_def)
  let ?fd = "overlay 0 d (\<lambda>j _. frame_sample fmt s d src (nat (send div 4096)) j) fd'"
  have rd: "read_channels (\<lambda>D. SrcReader_Read fmt s d src (frame_index s send + D div DstPerSrc s d)) 0 d fd' 0 = Inr ?fd"
    using read_channels_eq [of 0 d _ "frame_sample fmt s d src (nat (send div 4096))" 0 fd'] last fd'(1) by simp
  show ?thesis
  proof (cases "send \<le> pos")
    case True
    have "\<forall>D < d. ?fd ! D = frame_sample fmt s d src (nat (send div 4096)) D" using fd'(1) by (simp add: overlay_nth)
    then show ?thesis unfolding LinearSampler_finish_def prod.case rest using True rd fd'(1) by (intro exI [of _ ?fd]) simp
  next
    case False
    then show ?thesis unfolding LinearSampler_finish_def prod.case rest using fd' by (intro exI [of _ fd']) simp
  qed
qed

lemma linear_skipping:
  assumes pre: "linear_pre fmt s d fd dst dst_frames doff src F soff step"
  defines "send \<equiv> int F - 4096"
  defines "r \<equiv> rounds dst_frames doff send step soff"
  shows "LinearSampler_produce MUTED acc' fmt s d fd dst dst_frames doff src send soff step amp =
    Inr (fd, dst, doff + r, soff + int r * int step)"
proof (cases "soff < send")
  case True
  note p = linear_preD [OF pre]
  have "skip_count (send - soff) step dst_frames doff = Inr r"
    unfolding r_def by (rule skip_count_eq) (use True p in \<open>auto simp: send_def\<close>)
  moreover have "to_int32 (soff + int r * int step) = soff + int r * int step"
    using rounds_end(2) [OF p(4) True, of dst_frames doff] p(5,6) by (intro to_int32_id) (simp add: r_def send_def)
  ultimately show ?thesis using True p(8) by (simp add: LinearSampler_produce_def)
next
  case False
  then have "r = 0" using steps_zero [OF linear_preD(4) [OF pre], of send soff] by (simp add: r_def rounds_def)
  with False show ?thesis by (simp add: LinearSampler_produce_def)
qed

lemma LinearSampler_Mix_spec:
  assumes "linear_pre fmt s d fd dst dst_frames doff src F soff step"
  shows "let send = int F - 4096; n = rounds dst_frames doff (send + 1) step soff; pos = soff + int n * int step in
    \<exists>fd'. LinearSampler_Mix fmt s d fd dst dst_frames doff src F soff step amp acc =
      Inr (send \<le> pos \<and> doff + n < dst_frames, fd',
        if muted amp then dst else blended_frames (linear_sample fmt s d src fd send) acc amp d step n soff doff dst,
        doff + n, pos) \<and> length fd' = 2 * d \<and>
      (\<forall>D. D < d \<longrightarrow> fd' ! D = (if send \<le> pos then frame_sample fmt s d src (nat (send div 4096)) D else fd ! D))"
proof -
  note p = linear_preD [OF assms]
  obtain t acc' where t: "select_scaler amp acc = (t, acc')" by (cases "select_scaler amp acc")
  note sel = select_scaler_cases [OF t]
  let ?send = "int F - 4096"
  let ?f = "linear_sample fmt s d src fd ?send" and ?r = "rounds dst_frames doff ?send step soff"
  let ?n = "rounds dst_frames doff (?send + 1) step soff"
  have one: "FRAC_ONE = 4096" by (simp add: FRAC_ONE_def PTS_FRACTIONAL_BITS_def)
  have send: "to_int32 (int F - FRAC_ONE) = ?send" using p(3,14) by (intro trans [OF to_int32_id]) (simp_all add: in_int32_def one)
  have blended: "mixed_frames ?f t acc' amp d step ?n soff doff dst = blended_frames ?f acc amp d step ?n soff doff dst"
    if "\<not> muted amp"
  proof (rule mixed_frames_blended [OF t that p(13)], intro allI impI)
    fix i D assume i: "i < ?n" "D < d"
    have "- 4096 < soff + int i * int step" using p(6) by (rule less_le_trans) simp
    then show "in_int16 (?f (soff + int i * int step) D)"
      using rounds_position [OF p(4) i(1)] by (intro linear_visited [OF assms _ _ i(2)]) auto
  qed
  obtain fd' where fd': "length fd' = 2 * d" "\<forall>D < d. fd' ! D = fd ! D"
    and first: "LinearSampler_produce t acc' fmt s d fd dst dst_frames doff src ?send soff step amp =
      Inr (fd', if muted amp then dst else mixed_frames ?f t acc' amp d step ?r soff doff dst, doff + ?r, soff + int ?r * int step)"
  proof (cases "muted amp")
    case True
    with that [of fd] linear_skipping [OF assms] sel(1) p(11) show ?thesis by simp
  next
    case False
    with that linear_sampling [OF assms t False] show ?thesis by auto
  qed
  have pre: "doff < dst_frames" "int F \<ge> FRAC_ONE" "F \<le> 2 ^ 31 - 1" "soff \<ge> 0 \<or> - soff < FRAC_ONE"
    using p by (auto simp: one)
  have eq: "(if muted amp then dst else blended_frames ?f acc amp d step ?n soff doff dst) =
      (if muted amp then dst else mixed_frames ?f t acc' amp d step ?n soff doff dst)" using blended by simp
  show ?thesis
    unfolding LinearSampler_Mix_def t prod.case LinearSampler_Mix_typed_def Let_def send first eq rbind_simps
      dcheck_pass [OF pre(1)] dcheck_pass [OF pre(2)] dcheck_pass [OF pre(3)] dcheck_pass [OF pre(4)]
    by (rule linear_finish [OF assms t fd'])
qed

text \<open>
  C25. The linear sampler computes what it is meant to, whatever the buffer it is in the
  middle of: it advances to the last frame of the source or the end of the destination,
  and it advances the same way when it is muted and only counts the frames it would have
  produced. Unless it is muted, the destination gets the scaled value interpolated
  between the two frames around each position, where positions before the first frame
  are interpolated from the frame the filter remembers. The filter remembers the last
  frame once the position has reached it, and the source is reported as consumed exactly
  when, besides, the destination has room left. As for the point sampler, and unlike in the
  description of \<^verbatim>\<open>Mix\<close> in mixer.h, accumulating adds without clipping the sum, and a muted mix
  leaves the destination as it is even when it is to be replaced.
\<close>

theorem LinearSampler_Mix_correct:
  assumes "linear_pre fmt s d fd dst dst_frames doff src F soff step"
  shows "let send = int F - 4096; n = rounds dst_frames doff (send + 1) step soff; pos = soff + int n * int step in
    \<exists>fd'. LinearSampler_Mix fmt s d fd dst dst_frames doff src F soff step amp acc =
      Inr (send \<le> pos \<and> doff + n < dst_frames, fd',
        if muted amp then dst else blended_frames (linear_sample fmt s d src fd send) acc amp d step n soff doff dst,
        doff + n, pos) \<and> length fd' = 2 * d \<and>
      (\<forall>D. D < d \<longrightarrow> fd' ! D = (if send \<le> pos then frame_sample fmt s d src (nat (send div 4096)) D else fd ! D))"
  by (rule LinearSampler_Mix_spec [OF assms])

theorem LinearSampler_Mix_correct_witness:
  "\<exists>fd'. LinearSampler_Mix UNSIGNED_8 1 1 [512, 0] [0, 0, 0, 0] 4 0 [0x80, 0x90, 0x80] 12288 (- 2048) 2048 UNITY False =
     Inr (False, fd', [256, 0, 0x800, 0x1000], 4, 6144) \<and> length fd' = 2 \<and> fd' ! 0 = 512"
proof -
  let ?f = "linear_sample UNSIGNED_8 1 1 [0x80, 0x90, 0x80] [512, 0] 8192"
  have r: "rounds 4 0 8193 2048 (- 2048) = 4" by (simp add: rounds_def steps_def)
  have "\<not> muted UNITY" using muted_not_UNITY by blast
  moreover have f: "?f (- 2048) 0 = 256" "?f 0 0 = 0" "?f 2048 0 = 0x800" "?f 4096 0 = 0x1000"
    by (simp_all add: linear_sample_def frame_sample_def sample_at_def SampleNormalizer_Read_def)
  have "blended_frames ?f False UNITY 1 2048 4 (- 2048) 0 [0, 0, 0, 0] = [256, 0, 0x800, 0x1000]"
    using f by (simp add: blended_frames_def overlay_def blend_def scaled_def clip16_def uint_UNITY upt_rec)
  ultimately show ?thesis
    using LinearSampler_Mix_correct [of UNSIGNED_8 1 1 "[512, 0]" "[0, 0, 0, 0]" 4 0 "[0x80, 0x90, 0x80]" 12288 "- 2048" 2048 UNITY False]
    by (simp add: linear_pre_def supported_def has_frames_def sample_bytes_def roomy_def in_int16_def r)
qed

end
