(* ===== verification/Mixer_Interface.thy ===== *)
theory Mixer_Interface
  imports Linear_Sampling
begin

text \<open>
  What an output relies on when it calls \<^verbatim>\<open>Mixer::Mix\<close>, whichever mixer it has: the
  contract that mixer.h states, as a locale, and its interpretation on the mixers of the
  sources. A mixer samples the source at equidistant positions below a limit, one output
  frame per position; it is not done with the source only if the destination is full.
\<close>

locale mixer_contract =
  fixes Mix :: "'m \<Rightarrow> int list \<Rightarrow> nat \<Rightarrow> nat \<Rightarrow> u8 list \<Rightarrow> nat \<Rightarrow> int \<Rightarrow> nat \<Rightarrow> AScale \<Rightarrow> bool \<Rightarrow>
      (bool \<times> 'm \<times> int list \<times> nat \<times> int) res"
    and pre :: "'m \<Rightarrow> int list \<Rightarrow> nat \<Rightarrow> nat \<Rightarrow> u8 list \<Rightarrow> nat \<Rightarrow> int \<Rightarrow> nat \<Rightarrow> bool"
    and limit :: "'m \<Rightarrow> nat \<Rightarrow> int"
    and sample :: "'m \<Rightarrow> u8 list \<Rightarrow> nat \<Rightarrow> int \<Rightarrow> nat \<Rightarrow> int"
    and chans :: "'m \<Rightarrow> nat"
  assumes chans: "pre m dst dst_frames doff src F soff step \<Longrightarrow> 0 < chans m"
    and step: "pre m dst dst_frames doff src F soff step \<Longrightarrow> 0 < step"
    and room: "pre m dst dst_frames doff src F soff step \<Longrightarrow> doff \<le> dst_frames"
    and Mix: "pre m dst dst_frames doff src F soff step \<Longrightarrow>
      \<exists>consumed m'. Mix m dst dst_frames doff src F soff step amp acc =
        Inr (consumed, m',
          if muted amp then dst
          else blended_frames (sample m src F) acc amp (chans m) step (rounds dst_frames doff (limit m F) step soff) soff doff dst,
          doff + rounds dst_frames doff (limit m F) step soff,
          soff + int (rounds dst_frames doff (limit m F) step soff) * int step) \<and>
        (consumed \<longrightarrow> limit m F \<le> soff + int (rounds dst_frames doff (limit m F) step soff) * int step) \<and>
        (\<not> consumed \<longrightarrow> doff + rounds dst_frames doff (limit m F) step soff = dst_frames)"
begin

lemma sampled_iff:
  assumes "pre m dst dst_frames doff src F soff step"
  shows "doff * chans m \<le> j \<and> j < (doff + rounds dst_frames doff (limit m F) step soff) * chans m \<longleftrightarrow>
    doff \<le> j div chans m \<and> j div chans m < dst_frames \<and> soff + (int (j div chans m) - int doff) * int step < limit m F"
proof -
  note s = step [OF assms] and c = chans [OF assms]
  let ?i = "j div chans m" and ?n = "rounds dst_frames doff (limit m F) step soff"
  have "doff * chans m \<le> j \<longleftrightarrow> doff \<le> ?i" using c by (simp add: less_eq_div_iff_mult_less_eq)
  moreover have "j < (doff + ?n) * chans m \<longleftrightarrow> ?i < doff + ?n" using c by (simp add: div_less_iff_less_mult)
  moreover have "?i < doff + ?n \<longleftrightarrow> ?i < dst_frames \<and> soff + (int ?i - int doff) * int step < limit m F" if "doff \<le> ?i"
  proof
    assume i: "?i < doff + ?n"
    then have "?i - doff < ?n" using that by simp
    from rounds_position [OF s this] have "soff + int (?i - doff) * int step < limit m F" .
    moreover have "?i < dst_frames" using i rounds_le [of dst_frames doff "limit m F" step soff] that by linarith
    ultimately show "?i < dst_frames \<and> soff + (int ?i - int doff) * int step < limit m F" using that by (simp add: of_nat_diff)
  next
    assume i: "?i < dst_frames \<and> soff + (int ?i - int doff) * int step < limit m F"
    show "?i < doff + ?n"
    proof (rule ccontr)
      assume "\<not> ?i < doff + ?n"
      then have ge: "?n \<le> ?i - doff" and "?n < dst_frames - doff" using i that by linarith+
      then have "?n = steps (limit m F) step soff" by (simp add: rounds_def)
      then have "limit m F \<le> soff + int ?n * int step" using steps_reach [OF s, of "limit m F" soff] by simp
      also have "int ?n * int step \<le> int (?i - doff) * int step" using ge by (intro mult_right_mono) auto
      finally show False using i that by (simp add: of_nat_diff)
    qed
  qed
  ultimately show ?thesis by auto
qed

text \<open>Every frame of the destination separately: it is sampled if its position is below the limit, and unchanged otherwise.\<close>

lemma frames:
  assumes "pre m dst dst_frames doff src F soff step"
  obtains consumed m' buf n where
    "Mix m dst dst_frames doff src F soff step amp acc = Inr (consumed, m', buf, doff + n, soff + int n * int step)"
    "length buf = length dst" "doff + n \<le> dst_frames"
    "\<And>j. j < length dst \<Longrightarrow> buf ! j =
       (if \<not> muted amp \<and> doff \<le> j div chans m \<and> j div chans m < dst_frames \<and>
           soff + (int (j div chans m) - int doff) * int step < limit m F
        then blend acc amp (dst ! j) (sample m src F (soff + (int (j div chans m) - int doff) * int step) (j mod chans m))
        else dst ! j)"
    "consumed \<Longrightarrow> limit m F \<le> soff + int n * int step" "\<not> consumed \<Longrightarrow> doff + n = dst_frames"
    "\<And>i. i < n \<Longrightarrow> soff + int i * int step < limit m F"
proof -
  let ?n = "rounds dst_frames doff (limit m F) step soff"
  let ?buf = "if muted amp then dst else blended_frames (sample m src F) acc amp (chans m) step ?n soff doff dst"
  obtain consumed m' where M: "Mix m dst dst_frames doff src F soff step amp acc = Inr (consumed, m', ?buf, doff + ?n, soff + int ?n * int step)"
    "consumed \<longrightarrow> limit m F \<le> soff + int ?n * int step" "\<not> consumed \<longrightarrow> doff + ?n = dst_frames" using Mix [OF assms] by blast
  show ?thesis
  proof (rule that [OF M(1)])
    show "length ?buf = length dst" by (simp add: blended_frames_def)
    show "doff + ?n \<le> dst_frames" using room [OF assms] rounds_le [of dst_frames doff "limit m F" step soff] by linarith
    show "?buf ! j = (if \<not> muted amp \<and> doff \<le> j div chans m \<and> j div chans m < dst_frames \<and>
           soff + (int (j div chans m) - int doff) * int step < limit m F
        then blend acc amp (dst ! j) (sample m src F (soff + (int (j div chans m) - int doff) * int step) (j mod chans m))
        else dst ! j)" if "j < length dst" for j
      using that sampled_iff [OF assms, of j] by (simp add: blended_frames_def overlay_nth)
    show "soff + int i * int step < limit m F" if "i < ?n" for i using rounds_position [OF step [OF assms] that] .
  qed (use M in auto)
qed

end

section \<open>The mixers of the sources\<close>

text \<open>How far a mixer samples a source, the sample at a position, and what it asks of its arguments.\<close>

definition mixer_limit :: "Mixer \<Rightarrow> nat \<Rightarrow> int" where
  "mixer_limit m F = (case m of NoOp \<Rightarrow> 0 | PointSampler _ _ _ \<Rightarrow> int F | LinearSampler _ _ _ _ \<Rightarrow> int F - 4096 + 1)"

definition mixer_sample :: "Mixer \<Rightarrow> u8 list \<Rightarrow> nat \<Rightarrow> int \<Rightarrow> nat \<Rightarrow> int" where
  "mixer_sample m src F = (case m of
     NoOp \<Rightarrow> (\<lambda>_ _. 0)
   | PointSampler fmt s d \<Rightarrow> point_sample fmt s d src
   | LinearSampler fmt s d fd \<Rightarrow> linear_sample fmt s d src fd (int F - 4096))"

definition mixer_channels :: "Mixer \<Rightarrow> nat" where
  "mixer_channels m = (case m of NoOp \<Rightarrow> 0 | PointSampler _ _ d \<Rightarrow> d | LinearSampler _ _ d _ \<Rightarrow> d)"

definition mixer_ready :: "Mixer \<Rightarrow> u8 list \<Rightarrow> nat \<Rightarrow> bool" where
  "mixer_ready m src F = (case m of
     NoOp \<Rightarrow> False
   | PointSampler fmt s d \<Rightarrow> supported fmt s d \<and> has_frames fmt s src (nat ((int F + 4095) div 4096))
   | LinearSampler fmt s d fd \<Rightarrow> supported fmt s d \<and> has_frames fmt s src (nat ((int F + 4095) div 4096)) \<and>
       length fd = 2 * d \<and> list_all in_int16 fd)"

definition mixer_pre :: "Mixer \<Rightarrow> int list \<Rightarrow> nat \<Rightarrow> nat \<Rightarrow> u8 list \<Rightarrow> nat \<Rightarrow> int \<Rightarrow> nat \<Rightarrow> bool" where
  "mixer_pre m dst dst_frames doff src F soff step \<longleftrightarrow>
     mixer_ready m src F \<and> 4096 \<le> F \<and> 0 < step \<and> F + step \<le> 2 ^ 31 \<and> - pos_filter_width m \<le> soff \<and> soff < int F \<and>
     doff < dst_frames \<and> dst_frames * mixer_channels m \<le> length dst \<and> list_all roomy dst"

lemma filter_width_eq:
  "pos_filter_width (PointSampler fmt s d) = 0" "pos_filter_width (LinearSampler fmt s d fd) = 4095"
  "neg_filter_width (PointSampler fmt s d) = 4095" "neg_filter_width (LinearSampler fmt s d fd) = 4095"
  by (simp_all add: pos_filter_width_def neg_filter_width_def FRAC_ONE_def PTS_FRACTIONAL_BITS_def)

lemma rounds_reach:
  assumes "0 < step" "doff + rounds dst_frames doff limit step soff < dst_frames"
  shows "limit \<le> soff + int (rounds dst_frames doff limit step soff) * int step"
proof -
  have "rounds dst_frames doff limit step soff = steps limit step soff" using assms(2) by (simp add: rounds_def)
  then show ?thesis using steps_reach [OF assms(1), of limit soff] by simp
qed

lemma Mixer_Mix_contract:
  fixes m dst dst_frames doff src F soff step
  assumes "mixer_pre m dst dst_frames doff src F soff step"
  defines "n \<equiv> rounds dst_frames doff (mixer_limit m F) step soff"
  shows "\<exists>consumed m'. Mixer_Mix m dst dst_frames doff src F soff step amp acc =
      Inr (consumed, m', if muted amp then dst
          else blended_frames (mixer_sample m src F) acc amp (mixer_channels m) step n soff doff dst,
        doff + n, soff + int n * int step) \<and>
      (consumed \<longrightarrow> mixer_limit m F \<le> soff + int n * int step) \<and> (\<not> consumed \<longrightarrow> doff + n = dst_frames)"
proof (cases m)
  case NoOp
  with assms show ?thesis by (simp add: mixer_pre_def mixer_ready_def)
next
  case (PointSampler fmt s d)
  have lim: "mixer_limit m F = int F" by (simp add: mixer_limit_def PointSampler)
  have pre: "supported fmt s d" "has_frames fmt s src (nat ((int F + 4095) div 4096))" "0 < step" "F + step \<le> 2 ^ 31"
    "0 \<le> soff" "soff < int F" "dst_frames * d \<le> length dst" "list_all roomy dst" "doff < dst_frames"
    using assms(1) by (simp_all add: mixer_pre_def mixer_ready_def PointSampler filter_width_eq mixer_channels_def)
  have "Mixer_Mix m dst dst_frames doff src F soff step amp acc = Inr (int F \<le> soff + int n * int step, m,
      if muted amp then dst else blended_frames (point_sample fmt s d src) acc amp d step n soff doff dst, doff + n, soff + int n * int step)"
    using PointSampler_Mix_spec [OF pre(1-8), of doff amp acc] unfolding n_def lim Let_def by (simp add: Mixer_Mix_def PointSampler)
  moreover have "doff + n = dst_frames" if "\<not> int F \<le> soff + int n * int step"
    using rounds_reach [OF pre(3), of doff dst_frames "int F" soff] rounds_le [of dst_frames doff "int F" step soff] pre(9) that
    unfolding n_def lim by linarith
  ultimately show ?thesis by (simp add: mixer_sample_def mixer_channels_def PointSampler lim mixer_limit_def)
next
  case (LinearSampler fmt s d fd)
  have lim: "mixer_limit m F = int F - 4096 + 1" by (simp add: mixer_limit_def LinearSampler)
  have pre: "linear_pre fmt s d fd dst dst_frames doff src F soff step"
    using assms(1) by (auto simp: linear_pre_def mixer_pre_def mixer_ready_def LinearSampler filter_width_eq mixer_channels_def)
  note p = linear_preD [OF pre]
  obtain fd' where "LinearSampler_Mix fmt s d fd dst dst_frames doff src F soff step amp acc =
      Inr (int F - 4096 \<le> soff + int n * int step \<and> doff + n < dst_frames, fd',
        if muted amp then dst else blended_frames (linear_sample fmt s d src fd (int F - 4096)) acc amp d step n soff doff dst,
        doff + n, soff + int n * int step)"
    using LinearSampler_Mix_spec [OF pre, of amp acc] unfolding n_def lim Let_def by blast
  then have "Mixer_Mix m dst dst_frames doff src F soff step amp acc =
      Inr (int F - 4096 \<le> soff + int n * int step \<and> doff + n < dst_frames, LinearSampler fmt s d fd',
        if muted amp then dst else blended_frames (linear_sample fmt s d src fd (int F - 4096)) acc amp d step n soff doff dst,
        doff + n, soff + int n * int step)" by (simp add: Mixer_Mix_def LinearSampler)
  moreover have full: "int F - 4096 + 1 \<le> soff + int n * int step" if "doff + n < dst_frames"
    using rounds_reach [OF p(4), of doff dst_frames "int F - 4096 + 1" soff] that unfolding n_def lim by simp
  moreover have "doff + n \<le> dst_frames"
    using rounds_le [of dst_frames doff "mixer_limit m F" step soff] p(8) unfolding n_def by linarith
  then have "doff + n < dst_frames \<or> doff + n = dst_frames" by linarith
  ultimately show ?thesis
    by (intro exI [of _ "int F - 4096 \<le> soff + int n * int step \<and> doff + n < dst_frames"] exI [of _ "LinearSampler fmt s d fd'"])
      (auto simp: mixer_sample_def mixer_channels_def mixer_limit_def LinearSampler)
qed

interpretation mx: mixer_contract Mixer_Mix mixer_pre mixer_limit mixer_sample mixer_channels
proof (unfold_locales, goal_cases)
  case (1 m dst dst_frames doff src F soff step)
  then show ?case by (cases m) (auto simp: mixer_pre_def mixer_ready_def mixer_channels_def supported_def)
next
  case (2 m dst dst_frames doff src F soff step)
  then show ?case by (simp add: mixer_pre_def)
next
  case (3 m dst dst_frames doff src F soff step)
  then show ?case by (simp add: mixer_pre_def)
next
  case (4 m dst dst_frames doff src F soff step amp acc)
  then show ?case by (rule Mixer_Mix_contract)
qed

end
