(* ===== verification/Standard_Output.thy ===== *)
theory Standard_Output
  imports Audio_Track Mixer_Interface
begin

text \<open>
  The mixing outputs of the audio server,
  services/media/audio/platform/generic/standard_output_base.h, standard_output_base.cc and
  throttle_output.cc: for every track linked to an output, the mixing thread keeps a
  transformation from output frames to fractional track frames up to date, samples the
  packets at the front of the queue into an intermediate buffer and returns the packets
  whose time has passed.

  Values of type \<^verbatim>\<open>int64_t\<close> that the code adds and subtracts are integers, with
  the overflow a fault. The contents of the shared buffer of a packet are an argument
  \<open>mem\<close>. The links of other threads can change the queue whenever it is not locked, so
  the loop over the packets of a track gets, for every round, the operations the track's
  thread performs before it.
\<close>

section \<open>State\<close>

record MixJob =
  mj_buf :: "u8 list"
  buf_frames :: u32
  job_start_pts_of :: int
  local_to_output_gen :: u32
  mj_accumulate :: bool
  local_to_output :: "LinearTransform option"
  frames_produced :: u32

definition INVALID_GENERATION :: u32 where
  "INVALID_GENERATION = 0"

record TrackBookkeeping =
  lt_to_track_frames :: LinearTransform
  out_frames_to_track_frames :: LinearTransform
  lt_to_track_frames_gen :: u32
  out_frames_to_track_frames_gen :: u32
  step_size :: u32
  amplitude_scale :: AScale
  bk_mixer :: "Mixer option"

text \<open>The state that the setup and process tasks share: the job, the intermediate buffer and the trim threshold.\<close>

record MixState =
  cur_mix_job :: MixJob
  mix_buf :: "int list"
  trim_threshold :: int

section \<open>Transformations\<close>

definition UpdateTrackTrans :: "i64 \<Rightarrow> RateControl \<Rightarrow> Ratio \<Rightarrow> TrackBookkeeping \<Rightarrow> (RateControl \<times> TrackBookkeeping) res" where
  "UpdateTrackTrans now rc ratio info =
     rbind (SnapshotCurrentTransform now rc) (\<lambda>(tmp, gen, rc).
       if lt_to_track_frames_gen info = gen then Inr (rc, info)
       else rbind (DoForwardTransform (LinearTransform_of_ratio 0 ratio 0) (b_zero tmp) (Some (b_zero (lt_to_track_frames info))))
         (\<lambda>(good, out). case out of
            None \<Rightarrow> Inl Null_deref
          | Some b \<Rightarrow>
              dcheck good (rbind (Ratio_Compose ratio (scale tmp)) (\<lambda>(good, r).
                dcheck good (Inr (rc, info\<lparr>lt_to_track_frames := \<lparr>scale = r, a_zero = a_zero tmp, b_zero = b\<rparr>,
                  lt_to_track_frames_gen := gen, out_frames_to_track_frames_gen := INVALID_GENERATION\<rparr>))))))"

text \<open>Scaling by a ratio, as a transformation without offsets.\<close>

definition scale_by :: "Ratio \<Rightarrow> int \<Rightarrow> int res" where
  "scale_by r x =
     rbind (DoForwardTransform (LinearTransform_of_ratio 0 r 0) (word_of_int x) (Some 0)) (\<lambda>(good, out).
       dcheck good (case out of None \<Rightarrow> Inl Null_deref | Some y \<Rightarrow> Inr (sint y)))"

definition UpdateOutputTrans :: "MixJob \<Rightarrow> TrackBookkeeping \<Rightarrow> TrackBookkeeping res" where
  "UpdateOutputTrans job info = (case local_to_output job of
     None \<Rightarrow> Inl Dcheck_failed
   | Some lto \<Rightarrow>
       dcheck (local_to_output_gen job \<noteq> INVALID_GENERATION)
        (if out_frames_to_track_frames_gen info = local_to_output_gen job then Inr info
         else dcheck (lt_to_track_frames_gen info \<noteq> 0)
          (rbind (s64 (sint (a_zero lto) - sint (a_zero (lt_to_track_frames info)))) (\<lambda>intermediate.
           rbind (scale_by (scale (lt_to_track_frames info)) intermediate) (\<lambda>track_frame_offset.
           rbind (s64 (sint (b_zero (lt_to_track_frames info)) + track_frame_offset)) (\<lambda>bz.
           rbind (Ratio_make (denominator (scale lto)) (numerator (scale lto))) (\<lambda>tmp_ratio.
           rbind (Ratio_Compose tmp_ratio (scale (lt_to_track_frames info))) (\<lambda>(good, sc).
             dcheck good (dcheck (denominator sc \<noteq> 0)
              (rbind (if numerator sc = 0 then Inr 0
                      else rbind (scale_by sc 1) (\<lambda>tmp_step_size.
                        dcheck (tmp_step_size \<ge> 0) (dcheck (tmp_step_size \<le> 2 ^ 32 - 1) (Inr (word_of_int tmp_step_size)))))
                (\<lambda>step. Inr (info\<lparr>out_frames_to_track_frames := \<lparr>scale = sc, a_zero = b_zero lto, b_zero = word_of_int bz\<rparr>,
                   step_size := step, out_frames_to_track_frames_gen := local_to_output_gen job\<rparr>))))))))))))"

section \<open>Mixing\<close>

definition SetupMix :: "MixState \<Rightarrow> TrackBookkeeping \<Rightarrow> (bool \<times> MixState \<times> TrackBookkeeping) res" where
  "SetupMix s info = rbind (UpdateOutputTrans (cur_mix_job s) info) (\<lambda>info.
     Inr (True, s\<lparr>cur_mix_job := (cur_mix_job s)\<lparr>frames_produced := 0\<rparr>\<rparr>, info))"

text \<open>Where in the output and in the packet mixing starts, unless the packet is skipped or held.\<close>

datatype window = Skip | Hold | Mix_at nat int

definition mix_window :: "Mixer \<Rightarrow> int \<Rightarrow> nat \<Rightarrow> nat \<Rightarrow> int \<Rightarrow> int \<Rightarrow> window res" where
  "mix_window mixer first_sample_ftf frames_left step start_pts end_pts =
     rbind (s64 (int (frames_left - 1) * int step)) (\<lambda>d.
     rbind (s64 (first_sample_ftf + d)) (\<lambda>final_sample_ftf.
       if end_pts = start_pts then Inr Skip
       else rbind (s64 (end_pts - start_pts)) (\<lambda>len. dcheck (len \<ge> FRAC_ONE)
        (rbind (s64 (end_pts - FRAC_ONE)) (\<lambda>final_pts.
         rbind (s64 (first_sample_ftf - neg_filter_width mixer)) (\<lambda>lo.
           if final_pts < lo then Inr Skip
           else rbind (s64 (final_sample_ftf + pos_filter_width mixer)) (\<lambda>hi.
             if start_pts > hi then Inr Hold
             else rbind (s64 (first_sample_ftf - start_pts)) (\<lambda>input_offset.
                  rbind (s64 (first_sample_ftf + pos_filter_width mixer)) (\<lambda>edge.
                  rbind (if start_pts > edge
                         then rbind (s64 (start_pts - edge)) (\<lambda>d. rbind (s64 (d + int step - 1)) (\<lambda>d.
                                let output_offset = d div int step
                                in rbind (s64 (output_offset * int step)) (\<lambda>x. rbind (s64 (input_offset + x)) (\<lambda>input_offset.
                                     Inr (output_offset, input_offset)))))
                         else Inr (0, input_offset)) (\<lambda>(output_offset, input_offset).
                    dcheck (output_offset \<ge> 0) (dcheck (output_offset < int frames_left)
                     (dcheck (input_offset \<le> 2 ^ 31 - 1) (dcheck (input_offset \<ge> - (2 ^ 31))
                       (Inr (Mix_at (nat output_offset) input_offset)))))))))))))))"

text \<open>
  The loop over the regions. It gives whether all of them were consumed, and the mixer,
  the buffer and the output offset it leaves.
\<close>

fun mix_regions :: "u8 list \<Rightarrow> nat \<Rightarrow> nat \<Rightarrow> AScale \<Rightarrow> bool \<Rightarrow> AudioRegion list \<Rightarrow> Mixer \<Rightarrow> int list \<Rightarrow> nat \<Rightarrow> int \<Rightarrow>
    (bool \<times> Mixer \<times> int list \<times> nat) res" where
  "mix_regions mem frames_left step amp acc [] mixer buf output_offset frac_input_offset = Inr (True, mixer, buf, output_offset)"
| "mix_regions mem frames_left step amp acc (region # rs) mixer buf output_offset frac_input_offset =
     dcheck (unat (ar_frac_frame_len region) \<le> 2 ^ 31 - 1)
      (if frac_input_offset \<ge> int (unat (ar_frac_frame_len region))
       then mix_regions mem frames_left step amp acc rs mixer buf output_offset
              (to_int32 (frac_input_offset - int (unat (ar_frac_frame_len region))))
       else rbind (Mixer_Mix mixer buf frames_left output_offset (drop (unat (ar_base region)) mem)
                     (unat (ar_frac_frame_len region)) frac_input_offset step amp acc)
              (\<lambda>(consumed_source, mixer, buf, output_offset, frac_input_offset).
                 dcheck (output_offset \<le> frames_left)
                  (if \<not> consumed_source
                   then dcheck (output_offset = frames_left) (Inr (False, mixer, buf, output_offset))
                   else mix_regions mem frames_left step amp acc rs mixer buf output_offset
                          (to_int32 (frac_input_offset - int (unat (ar_frac_frame_len region)))))))"

definition ProcessMix :: "(('h MediaPacketState) \<Rightarrow> u8 list) \<Rightarrow> nat \<Rightarrow> MixState \<Rightarrow> TrackBookkeeping \<Rightarrow> 'h AudioPacketRef \<Rightarrow>
    (bool \<times> MixState \<times> TrackBookkeeping) res" where
  "ProcessMix mem chans s info packet =
     (let job = cur_mix_job s
      in dcheck (buf_frames job \<noteq> 0) (dcheck (frames_produced job \<le> buf_frames job)
        (case bk_mixer info of
           None \<Rightarrow> Inl Dcheck_failed
         | Some mixer \<Rightarrow>
             if step_size info = 0 then Inr (False, s, info)
             else if frames_produced job \<ge> buf_frames job then Inr (False, s, info)
             else let frames_left = unat (buf_frames job) - unat (frames_produced job);
                      base = unat (frames_produced job * of_nat chans)
                  in rbind (s64 (job_start_pts_of job + int (unat (frames_produced job)))) (\<lambda>pts.
                     rbind (DoForwardTransform (out_frames_to_track_frames info) (word_of_int pts) (Some 0)) (\<lambda>(good, out).
                     dcheck good (case out of None \<Rightarrow> Inl Null_deref | Some first \<Rightarrow>
                     rbind (mix_window mixer (sint first) frames_left (unat (step_size info)) (ap_start_pts packet) (ap_end_pts packet)) (\<lambda>w.
                       case w of
                         Skip \<Rightarrow> Inr (True, s, info)
                       | Hold \<Rightarrow> Inr (False, s, info)
                       | Mix_at output_offset input_offset \<Rightarrow>
                           if base \<le> length (mix_buf s)
                           then rbind (mix_regions (mem (ap_state packet)) frames_left (unat (step_size info)) (amplitude_scale info)
                                        (mj_accumulate job) (ap_regions packet) mixer (drop base (mix_buf s)) output_offset input_offset)
                                  (\<lambda>(all_consumed, mixer, buf, output_offset).
                                     let s = s\<lparr>mix_buf := take base (mix_buf s) @ buf\<rparr>;
                                         info = info\<lparr>bk_mixer := Some mixer\<rparr>
                                     in if \<not> all_consumed then Inr (False, s, info)
                                        else let n = frames_produced job + of_nat output_offset
                                             in dcheck (n \<le> buf_frames job)
                                                  (Inr (True, s\<lparr>cur_mix_job := job\<lparr>frames_produced := n\<rparr>\<rparr>, info)))
                           else Inl Out_of_range)))))))"

section \<open>Trimming\<close>

definition SetupTrim :: "i64 \<Rightarrow> MixState \<Rightarrow> TrackBookkeeping \<Rightarrow> (bool \<times> MixState \<times> TrackBookkeeping) res" where
  "SetupTrim now s info =
     rbind (DoForwardTransform (lt_to_track_frames info) now (Some (word_of_int (trim_threshold s)))) (\<lambda>(good, out).
       case out of None \<Rightarrow> Inl Null_deref
       | Some x \<Rightarrow> Inr (good, s\<lparr>trim_threshold := sint x\<rparr>, info))"

definition ProcessTrim :: "MixState \<Rightarrow> TrackBookkeeping \<Rightarrow> 'h AudioPacketRef \<Rightarrow> (bool \<times> MixState \<times> TrackBookkeeping) res" where
  "ProcessTrim s info pkt_ref = Inr (\<not> ap_end_pts pkt_ref > trim_threshold s, s, info)"

section \<open>The passes over the tracks\<close>

text \<open>What the track's thread does to the link while the output does not hold the lock.\<close>

datatype 'h link_op = Push "'h AudioPacketRef" | Flush

definition link_op :: "'h link_op \<Rightarrow> 'h AudioPacketRef Link \<Rightarrow> 'h AudioPacketRef Link" where
  "link_op e l = (case e of Push p \<Rightarrow> PushToPendingQueue p l
     | Flush \<Rightarrow> (case FlushPendingQueue l of None \<Rightarrow> l | Some l \<Rightarrow> l))"

text \<open>
  The loop over the packets of one track, with one list of such operations per round; it
  has not ended yet when the list of rounds is exhausted, and the result is \<open>None\<close>.
\<close>

fun track_loop :: "(MixState \<Rightarrow> TrackBookkeeping \<Rightarrow> (bool \<times> MixState \<times> TrackBookkeeping) res) \<Rightarrow>
    (MixState \<Rightarrow> TrackBookkeeping \<Rightarrow> 'h AudioPacketRef \<Rightarrow> (bool \<times> MixState \<times> TrackBookkeeping) res) \<Rightarrow> AScale \<Rightarrow>
    'h link_op list list \<Rightarrow> bool \<Rightarrow> 'h AudioPacketRef Link \<Rightarrow> MixState \<Rightarrow> TrackBookkeeping \<Rightarrow>
    ('h AudioPacketRef Link \<times> MixState \<times> TrackBookkeeping) option res" where
  "track_loop setup process amp [] setup_done link s info = Inr None"
| "track_loop setup process amp (env # envs) setup_done link s info =
     rbind (LockPendingQueueFront (fold link_op env link)) (\<lambda>(was_flushed, pkt_ref, link).
     rbind (if \<not> was_flushed then Inr info
            else case bk_mixer info of None \<Rightarrow> Inl Null_deref
              | Some m \<Rightarrow> Inr (info\<lparr>bk_mixer := Some (Mixer_Reset m)\<rparr>)) (\<lambda>info.
       case pkt_ref of
         None \<Rightarrow> rbind (UnlockPendingQueueFront None False link) (\<lambda>link. Inr (Some (link, s, info)))
       | Some pkt \<Rightarrow>
           rbind (if setup_done then Inr (True, s, info) else setup s info) (\<lambda>(setup_done, s, info).
             if \<not> setup_done
             then rbind (UnlockPendingQueueFront (Some pkt) False link) (\<lambda>link. Inr (Some (link, s, info)))
             else rbind (process s (info\<lparr>amplitude_scale := amp\<rparr>) pkt) (\<lambda>(consumed, s, info).
               if \<not> consumed
               then rbind (UnlockPendingQueueFront (Some pkt) False link) (\<lambda>link. Inr (Some (link, s, info)))
               else rbind (UnlockPendingQueueFront (Some pkt) True link) (\<lambda>link.
                 track_loop setup process amp envs True link s info)))))"

text \<open>
  A link as the output sees it: the queue, the track while it is alive, the gain of the
  link and the bookkeeping of the output.
\<close>

record 'h LinkEntry =
  le_link :: "'h AudioPacketRef Link"
  le_track :: "'h AudioTrack option"
  le_amplitude :: AScale
  le_info :: "TrackBookkeeping option"

text \<open>
  \<^verbatim>\<open>ForeachTrack\<close>. Each entry comes with the rounds of its loop and with whether the output
  was told to shut down before its turn.
\<close>

fun ForeachTrack :: "i64 \<Rightarrow> (MixState \<Rightarrow> TrackBookkeeping \<Rightarrow> (bool \<times> MixState \<times> TrackBookkeeping) res) \<Rightarrow>
    (MixState \<Rightarrow> TrackBookkeeping \<Rightarrow> 'h AudioPacketRef \<Rightarrow> (bool \<times> MixState \<times> TrackBookkeeping) res) \<Rightarrow>
    (bool \<times> 'h link_op list list \<times> 'h LinkEntry) list \<Rightarrow> MixState \<Rightarrow> ('h LinkEntry list \<times> MixState) option res" where
  "ForeachTrack now setup process [] s = Inr (Some ([], s))"
| "ForeachTrack now setup process ((shutting_down, envs, e) # es) s =
     (if shutting_down then Inr (Some (e # map (snd \<circ> snd) es, s))
      else case le_track e of
        None \<Rightarrow> ForeachTrack now setup process es s
      | Some track \<Rightarrow>
          (case le_info e of
             None \<Rightarrow> Inl Dcheck_failed
           | Some info \<Rightarrow>
               rbind (UpdateTrackTrans now (at_rate_control track) (at_ratio track) info) (\<lambda>(rc, info).
               rbind (track_loop setup process (le_amplitude e) envs False (le_link e) s info) (\<lambda>r. case r of
                 None \<Rightarrow> Inr None
               | Some (link, s, info) \<Rightarrow>
                   rbind (ForeachTrack now setup process es (s\<lparr>cur_mix_job := (cur_mix_job s)\<lparr>mj_accumulate := True\<rparr>\<rparr>)) (\<lambda>r.
                     Inr (map_option (\<lambda>(done, s).
                       (e\<lparr>le_link := link, le_track := Some (track\<lparr>at_rate_control := rc\<rparr>), le_info := Some info\<rparr> # done, s)) r))))))"

definition InitializeLink :: "OutputFormatter option \<Rightarrow> TrackBookkeeping \<Rightarrow> 'h LinkEntry \<Rightarrow> (MediaResult \<times> 'h LinkEntry) res" where
  "InitializeLink output_formatter bk e = (case le_track e of
     None \<Rightarrow> Inr (INVALID_ARGUMENT, e)
   | Some track \<Rightarrow> (case at_format track of
       None \<Rightarrow> Inl Dcheck_failed
     | Some fmt \<Rightarrow> rbind (Mixer_Select fmt (map_option of_format output_formatter)) (\<lambda>m. case m of
         None \<Rightarrow> Inr (UNSUPPORTED_CONFIG, e)
       | Some mixer \<Rightarrow> Inr (OK, e\<lparr>le_info := Some (bk\<lparr>bk_mixer := Some mixer\<rparr>)\<rparr>))))"

definition SetupMixBuffer :: "OutputFormatter \<Rightarrow> nat \<Rightarrow> (nat \<times> nat) res" where
  "SetupMixBuffer F max_mix_frames =
     dcheck (of_channels F > 0) (dcheck (max_mix_frames > 0) (dcheck (max_mix_frames \<le> (2 ^ 32 - 1) div of_channels F)
       (Inr (max_mix_frames, max_mix_frames * of_channels F mod 2 ^ 32))))"

section \<open>Processing\<close>

text \<open>
  What a derived class provides: \<^verbatim>\<open>StartMixJob\<close>, which may start a job, and \<^verbatim>\<open>FinishMixJob\<close>,
  which says whether it wants to mix more. Both may call \<^verbatim>\<open>SetNextSchedTime\<close>.
\<close>

record 'd output_impl =
  StartMixJob :: "int \<Rightarrow> 'd \<Rightarrow> MixJob option \<times> int option \<times> 'd"
  FinishMixJob :: "MixJob \<Rightarrow> 'd \<Rightarrow> (bool \<times> int option \<times> 'd) res"

record ('h, 'd) StandardOutput =
  so_links :: "'h LinkEntry list"
  so_state :: MixState
  so_mix_buf_frames :: nat
  so_formatter :: "OutputFormatter option"
  next_sched_time :: int
  next_sched_time_known :: bool
  so_derived :: 'd

definition SetNextSchedTime :: "int option \<Rightarrow> ('h, 'd) StandardOutput \<Rightarrow> ('h, 'd) StandardOutput" where
  "SetNextSchedTime t o1 = (case t of None \<Rightarrow> o1 | Some t \<Rightarrow> o1\<lparr>next_sched_time := t, next_sched_time_known := True\<rparr>)"

text \<open>
  What the other threads do during one pass over the links, by the position of the link,
  and the reading of the local clock in that pass.
\<close>

type_synonym 'h pass_env = "i64 \<times> (nat \<Rightarrow> bool \<times> 'h link_op list list)"

definition with_env :: "'h pass_env \<Rightarrow> 'h LinkEntry list \<Rightarrow> (bool \<times> 'h link_op list list \<times> 'h LinkEntry) list" where
  "with_env env es = map (\<lambda>(i, e). (fst (snd env i), snd (snd env i), e)) (enumerate 0 es)"

text \<open>
  The loop of \<^verbatim>\<open>Process\<close>, with one environment per job; \<open>None\<close> when it has not ended yet.
  \<open>did_mix\<close> is whether a job has been mixed.
\<close>

fun mix_jobs :: "'d output_impl \<Rightarrow> ('h MediaPacketState \<Rightarrow> u8 list) \<Rightarrow> int \<Rightarrow> 'h pass_env list \<Rightarrow> bool \<Rightarrow>
    ('h, 'd) StandardOutput \<Rightarrow> (bool \<times> ('h, 'd) StandardOutput) option res" where
  "mix_jobs impl mem now [] did_mix o1 = Inr None"
| "mix_jobs impl mem now (env # envs) did_mix o1 =
     (case StartMixJob impl now (so_derived o1) of (start, sched, d) \<Rightarrow>
        let o2 = SetNextSchedTime sched (o1\<lparr>so_derived := d\<rparr>)
        in (case start of
             None \<Rightarrow> Inr (Some (did_mix, o2))
           | Some job \<Rightarrow> (case so_formatter o2 of
               None \<Rightarrow> Inl Dcheck_failed
             | Some F \<Rightarrow>
                 dcheck (so_mix_buf_frames o2 \<noteq> 0) (dcheck (unat (buf_frames job) \<le> so_mix_buf_frames o2)
                  (let n = unat (buf_frames job) * of_channels F; buf = mix_buf (so_state o2)
                   in if n > length buf then Inl Out_of_range
                      else rbind (ForeachTrack (fst env) SetupMix (ProcessMix mem (of_channels F)) (with_env env (so_links o2))
                             ((so_state o2)\<lparr>cur_mix_job := job, mix_buf := replicate n 0 @ drop n buf\<rparr>)) (\<lambda>r. case r of
                           None \<Rightarrow> Inr None
                         | Some (entries, s) \<Rightarrow>
                             rbind (ProduceOutput F (mix_buf s) (mj_buf (cur_mix_job s)) (unat (buf_frames (cur_mix_job s)))) (\<lambda>out.
                             let job = (cur_mix_job s)\<lparr>mj_buf := out\<rparr>;
                                 o3 = o2\<lparr>so_links := entries, so_state := s\<lparr>cur_mix_job := job\<rparr>\<rparr>
                             in rbind (FinishMixJob impl job (so_derived o3)) (\<lambda>(more, sched, d).
                                  let o4 = SetNextSchedTime sched (o3\<lparr>so_derived := d\<rparr>)
                                  in if more then mix_jobs impl mem now envs True o4 else Inr (Some (True, o4))))))))))"

definition MAX_TRIM_PERIOD :: int where
  "MAX_TRIM_PERIOD = 10000000"

text \<open>
  \<^verbatim>\<open>Process\<close>. The result is when the next callback is scheduled, or \<open>None\<close> if the output shuts
  itself down; the times are in nanoseconds.
\<close>

definition Process :: "'d output_impl \<Rightarrow> ('h MediaPacketState \<Rightarrow> u8 list) \<Rightarrow> int \<Rightarrow> 'h pass_env list \<Rightarrow> 'h pass_env \<Rightarrow>
    ('h, 'd) StandardOutput \<Rightarrow> (int option \<times> ('h, 'd) StandardOutput) option res" where
  "Process impl mem now envs trim_env o1 =
     dcheck (next_sched_time_known o1)
      (rbind (if now \<ge> next_sched_time o1 then mix_jobs impl mem now envs False (o1\<lparr>next_sched_time_known := False\<rparr>)
              else Inr (Some (False, o1))) (\<lambda>r. case r of
         None \<Rightarrow> Inr None
       | Some (did_mix, o2) \<Rightarrow>
           if \<not> next_sched_time_known o2 then Inr (Some (None, o2))
           else rbind (if did_mix then Inr (Some (so_links o2, so_state o2))
                       else ForeachTrack (fst trim_env) (SetupTrim (fst trim_env)) ProcessTrim (with_env trim_env (so_links o2)) (so_state o2))
                  (\<lambda>r. case r of
                     None \<Rightarrow> Inr None
                   | Some (entries, s) \<Rightarrow>
                       let max_sched_time = now + MAX_TRIM_PERIOD
                       in Inr (Some (Some (if next_sched_time o2 > max_sched_time then max_sched_time else next_sched_time o2),
                            o2\<lparr>so_links := entries, so_state := s\<rparr>)))))"

section \<open>The throttle output\<close>

definition TRIM_PERIOD :: int where
  "TRIM_PERIOD = 10000000"

text \<open>The state of a throttle output is \<^verbatim>\<open>last_sched_time_\<close>. It starts no jobs and only asks to be called again.\<close>

definition ThrottleOutput_StartMixJob :: "int \<Rightarrow> int \<Rightarrow> MixJob option \<times> int option \<times> int" where
  "ThrottleOutput_StartMixJob process_start last_sched_time =
     (let t = last_sched_time + TRIM_PERIOD;
          t = (if process_start > t then process_start + TRIM_PERIOD else t)
      in (None, Some t, t))"

definition ThrottleOutput_FinishMixJob :: "MixJob \<Rightarrow> int \<Rightarrow> (bool \<times> int option \<times> int) res" where
  "ThrottleOutput_FinishMixJob job last_sched_time = Inl Dcheck_failed"

definition ThrottleOutput :: "int output_impl" where
  "ThrottleOutput = \<lparr> StartMixJob = ThrottleOutput_StartMixJob, FinishMixJob = ThrottleOutput_FinishMixJob \<rparr>"

text \<open>
  A throttle output keeps itself running: whenever the pass over its links ends, it
  schedules a callback, not in the past and at most one trim period ahead.
\<close>

lemma throttle_schedules:
  assumes "next_sched_time_known o1" "next_sched_time o1 = so_derived o1"
    and "ForeachTrack (fst env) (SetupTrim (fst env)) ProcessTrim (with_env env (so_links o1)) (so_state o1) = Inr (Some (entries, s))"
  shows "\<exists>t o2. Process ThrottleOutput mem now [e] env o1 = Inr (Some (Some t, o2)) \<and> now \<le> t \<and> t \<le> now + TRIM_PERIOD \<and>
    next_sched_time_known o2 \<and> next_sched_time o2 = so_derived o2 \<and> so_links o2 = entries"
proof (cases "now \<ge> next_sched_time o1")
  case True
  then show ?thesis using assms
    by (auto simp: Process_def ThrottleOutput_def ThrottleOutput_StartMixJob_def SetNextSchedTime_def Let_def TRIM_PERIOD_def MAX_TRIM_PERIOD_def)
next
  case False
  then show ?thesis using assms by (auto simp: Process_def Let_def TRIM_PERIOD_def MAX_TRIM_PERIOD_def)
qed

end
