(* ===== verification/Mix_Pass.thy ===== *)
theory Mix_Pass
  imports Standard_Output
begin

text \<open>
  What the passes of \<^verbatim>\<open>Standard_Output\<close> do: which frames mixing a packet changes, and
  which packets trimming returns, and that every pass over a queue ends.
\<close>

section \<open>Where mixing starts\<close>

text \<open>The first output frame, counted from the next one to be produced, whose filter window reaches the packet.\<close>

definition first_frame :: "int \<Rightarrow> int \<Rightarrow> nat \<Rightarrow> int \<Rightarrow> int" where
  "first_frame P first step start = (if start > first + P then (start - first - P + int step - 1) div int step else 0)"

lemma first_frame_bounds:
  assumes "0 < step" "0 < left" "start \<le> first + int (left - 1) * int step + P"
  shows "0 \<le> first_frame P first step start" "first_frame P first step start < int left"
    "start - P \<le> first + first_frame P first step start * int step"
    "\<And>i. 0 \<le> i \<Longrightarrow> i < first_frame P first step start \<Longrightarrow> first + i * int step < start - P"
    "start > first + P \<Longrightarrow> first + first_frame P first step start * int step < start - P + int step"
proof -
  let ?k = "first_frame P first step start" and ?x = "start - first - P + int step - 1"
  have s: "0 < int step" using assms(1) by simp
  have "0 \<le> ?k \<and> ?k < int left \<and> start - P \<le> first + ?k * int step \<and>
    (\<forall>i. 0 \<le> i \<longrightarrow> i < ?k \<longrightarrow> first + i * int step < start - P) \<and>
    (start > first + P \<longrightarrow> first + ?k * int step < start - P + int step)"
  proof (cases "start > first + P")
    case False
    with assms(2) show ?thesis by (auto simp: first_frame_def)
  next
    case True
    then have k: "?k = ?x div int step" by (simp add: first_frame_def)
    have e: "?k * int step = ?x - ?x mod int step" "0 \<le> ?x mod int step" "?x mod int step < int step"
      unfolding k using s by (simp_all add: minus_mod_eq_div_mult)
    have "0 \<le> ?k" unfolding k using True s by (simp add: pos_imp_zdiv_nonneg_iff)
    moreover have "?k < int left"
    proof (rule ccontr)
      assume "\<not> ?k < int left"
      then have "int (left - 1) + 1 \<le> ?k" using assms(2) by linarith
      then have "(int (left - 1) + 1) * int step \<le> ?k * int step" using s by (intro mult_right_mono) auto
      with e assms(3) show False by (simp add: distrib_right)
    qed
    moreover have "first + i * int step < start - P" if "i < ?k" for i
    proof -
      have "(i + 1) * int step \<le> ?k * int step" using that s by (intro mult_right_mono) auto
      with e show ?thesis by (simp add: distrib_right)
    qed
    ultimately show ?thesis using e by auto
  qed
  then show "0 \<le> ?k" "?k < int left" "start - P \<le> first + ?k * int step"
    "\<And>i. 0 \<le> i \<Longrightarrow> i < ?k \<Longrightarrow> first + i * int step < start - P"
    "start > first + P \<Longrightarrow> first + ?k * int step < start - P + int step" by auto
qed

text \<open>Time stamps far from the limits of \<^verbatim>\<open>int64_t\<close>.\<close>

definition moderate :: "int \<Rightarrow> bool" where
  "moderate x \<longleftrightarrow> - (2 ^ 61) \<le> x \<and> x \<le> 2 ^ 61"

lemma mix_window_exact:
  assumes w: "pos_filter_width m = P" "neg_filter_width m = 4095" "0 \<le> P" "P \<le> 4095"
    and pos: "0 < step" "0 < left" and len: "end = start + int F" "4096 \<le> F" "F + step \<le> 2 ^ 31"
    and mod: "moderate first" "moderate start" "moderate (int left * int step)"
  shows "mix_window m first left step start end = Inr
    (if end \<le> first then Skip else if start > first + int (left - 1) * int step + P then Hold
     else Mix_at (nat (first_frame P first step start)) (first - start + first_frame P first step start * int step))"
proof -
  have one: "FRAC_ONE = 4096" by (simp add: FRAC_ONE_def PTS_FRACTIONAL_BITS_def)
  let ?d = "int (left - 1) * int step" and ?k = "first_frame P first step start"
  have d: "0 \<le> ?d" "?d \<le> int left * int step" using pos by (auto intro!: mult_right_mono)
  have F: "0 \<le> int F" "4096 \<le> int F" "int F + int step \<le> 2 ^ 31" using len by auto
  have nums: "(2::int) ^ 61 = 2305843009213693952" "(2::int) ^ 63 = 9223372036854775808" "(2::int) ^ 31 = 2147483648" by simp_all
  note m1 = mod [unfolded moderate_def nums] and F' = F [unfolded nums]
  have i: "in_int64 ?d" "in_int64 (first + ?d)" "in_int64 (int F)" "in_int64 (start + int F - 4096)" "in_int64 (first - 4095)"
    "in_int64 (first + ?d + P)" "in_int64 (first - start)" "in_int64 (first + P)"
    unfolding in_int64_iff nums using m1 d F' w(3,4) by linarith+
  have s: "s64 ?d = Inr ?d" "s64 (first + ?d) = Inr (first + ?d)" "s64 (end - start) = Inr (int F)"
    "s64 (end - FRAC_ONE) = Inr (start + int F - 4096)" "s64 (first - neg_filter_width m) = Inr (first - 4095)"
    "s64 (first + ?d + pos_filter_width m) = Inr (first + ?d + P)" "s64 (first - start) = Inr (first - start)"
    "s64 (first + pos_filter_width m) = Inr (first + P)"
    using i unfolding one w(1,2) len(1) by (simp_all add: s64_pass)
  have ne: "end \<noteq> start" using len by simp
  have past: "start + int F - 4096 < first - 4095 \<longleftrightarrow> end \<le> first" using len(1) by auto
  have F1: "int F \<ge> FRAC_ONE" using F by (simp add: one)
  let ?off = "if start > first + P
       then rbind (s64 (start - (first + P))) (\<lambda>d. rbind (s64 (d + int step - 1)) (\<lambda>d.
              let output_offset = d div int step
              in rbind (s64 (output_offset * int step)) (\<lambda>x. rbind (s64 (first - start + x)) (\<lambda>input_offset.
                   Inr (output_offset, input_offset)))))
       else Inr (0, first - start)"
  have eq: "mix_window m first left step start end =
      (if start + int F - 4096 < first - 4095 then Inr Skip else if start > first + ?d + P then Inr Hold
       else rbind ?off (\<lambda>(output_offset, input_offset).
              dcheck (output_offset \<ge> 0) (dcheck (output_offset < int left)
               (dcheck (input_offset \<le> 2 ^ 31 - 1) (dcheck (input_offset \<ge> - (2 ^ 31))
                 (Inr (Mix_at (nat output_offset) input_offset)))))))"
    unfolding mix_window_def s rbind_simps if_not_P [OF ne] dcheck_pass [OF F1] ..
  show ?thesis
  proof (cases "end \<le> first \<or> start > first + ?d + P")
    case True
    then show ?thesis unfolding eq past by (cases "end \<le> first") simp_all
  next
    case False
    then have st: "start \<le> first + ?d + P" and fe: "\<not> end \<le> first" by auto
    note b = first_frame_bounds [OF pos st]
    have k: "?k * int step \<le> ?d" using b(2) pos by (intro mult_right_mono) auto
    have k0: "0 \<le> ?k * int step" using b(1) by simp
    have off: "?off = Inr (?k, first - start + ?k * int step)"
    proof (cases "start > first + P")
      case c: True
      have e: "(start - (first + P) + int step - 1) div int step = ?k" using c by (simp add: first_frame_def algebra_simps)
      have s': "s64 (start - (first + P)) = Inr (start - (first + P))"
        "s64 (start - (first + P) + int step - 1) = Inr (start - (first + P) + int step - 1)"
        "s64 (?k * int step) = Inr (?k * int step)" "s64 (first - start + ?k * int step) = Inr (first - start + ?k * int step)"
        by (rule s64_pass; unfold in_int64_iff nums; use m1 d F' w(3,4) k k0 pos c in linarith)+
      show ?thesis unfolding if_P [OF c] s'(1) rbind_simps s'(2) Let_def e s'(3,4) ..
    next
      case c: False
      then show ?thesis by (simp add: first_frame_def)
    qed
    have le: "first - start + ?k * int step \<le> 2 ^ 31 - 1"
    proof (cases "start > first + P")
      case True
      from b(5) [OF this] F w show ?thesis by linarith
    next
      case c: False
      then have "?k = 0" by (simp add: first_frame_def)
      then show ?thesis using fe len(1) F pos by simp
    qed
    have ge: "first - start + ?k * int step \<ge> - (2 ^ 31)" using b(3) w by simp
    have no: "\<not> start > first + ?d + P" using st by simp
    show ?thesis
      unfolding eq past if_not_P [OF fe] if_not_P [OF no] off rbind_simps prod.case dcheck_pass [OF b(1)] dcheck_pass [OF b(2)]
        dcheck_pass [OF le] dcheck_pass [OF ge] ..
  qed
qed

section \<open>What mixing a packet does\<close>

text \<open>
  What \<^verbatim>\<open>ProcessMix\<close> is given: a job with frames left to produce, an intermediate buffer
  with room for it, a mixer that can read the one region of the packet, a transformation
  under which the next frame is sampled at \<open>first\<close>, and time stamps far from overflow.
\<close>

definition mixable :: "u8 list \<Rightarrow> nat \<Rightarrow> MixState \<Rightarrow> TrackBookkeeping \<Rightarrow> 'h AudioPacketRef \<Rightarrow> AudioRegion \<Rightarrow> Mixer \<Rightarrow> int \<Rightarrow> bool" where
  "mixable mem chans s info packet r m first \<longleftrightarrow>
     bk_mixer info = Some m \<and> chans = mixer_channels m \<and> ap_regions packet = [r] \<and>
     ap_end_pts packet = ap_start_pts packet + int (unat (ar_frac_frame_len r)) \<and>
     4096 \<le> unat (ar_frac_frame_len r) \<and> unat (ar_frac_frame_len r) + unat (step_size info) \<le> 2 ^ 31 \<and> step_size info \<noteq> 0 \<and>
     mixer_ready m (drop (unat (ar_base r)) mem) (unat (ar_frac_frame_len r)) \<and>
     unat (frames_produced (cur_mix_job s)) < unat (buf_frames (cur_mix_job s)) \<and>
     unat (buf_frames (cur_mix_job s)) * chans \<le> length (mix_buf s) \<and> unat (buf_frames (cur_mix_job s)) * chans < 2 ^ 32 \<and>
     list_all roomy (mix_buf s) \<and>
     in_int64 (job_start_pts_of (cur_mix_job s) + int (unat (frames_produced (cur_mix_job s)))) \<and>
     DoForwardTransform (out_frames_to_track_frames info)
       (word_of_int (job_start_pts_of (cur_mix_job s) + int (unat (frames_produced (cur_mix_job s))))) (Some 0) =
       Inr (True, Some (word_of_int first)) \<and>
     moderate first \<and> moderate (ap_start_pts packet) \<and> moderate (int (unat (buf_frames (cur_mix_job s))) * int (unat (step_size info)))"

lemma mixableD:
  assumes "mixable mem chans s info packet r m first"
  shows "bk_mixer info = Some m" "chans = mixer_channels m" "ap_regions packet = [r]"
    "ap_end_pts packet = ap_start_pts packet + int (unat (ar_frac_frame_len r))"
    "4096 \<le> unat (ar_frac_frame_len r)" "unat (ar_frac_frame_len r) + unat (step_size info) \<le> 2 ^ 31" "step_size info \<noteq> 0"
    "mixer_ready m (drop (unat (ar_base r)) mem) (unat (ar_frac_frame_len r))"
    "unat (frames_produced (cur_mix_job s)) < unat (buf_frames (cur_mix_job s))"
    "unat (buf_frames (cur_mix_job s)) * chans \<le> length (mix_buf s)" "unat (buf_frames (cur_mix_job s)) * chans < 2 ^ 32"
    "list_all roomy (mix_buf s)"
    "in_int64 (job_start_pts_of (cur_mix_job s) + int (unat (frames_produced (cur_mix_job s))))"
    "DoForwardTransform (out_frames_to_track_frames info)
       (word_of_int (job_start_pts_of (cur_mix_job s) + int (unat (frames_produced (cur_mix_job s))))) (Some 0) =
       Inr (True, Some (word_of_int first))"
    "moderate first" "moderate (ap_start_pts packet)"
    "moderate (int (unat (buf_frames (cur_mix_job s))) * int (unat (step_size info)))"
  using assms by (auto simp: mixable_def)

lemma mixer_ready_widths:
  assumes "mixer_ready m src F"
  shows "0 \<le> pos_filter_width m" "pos_filter_width m \<le> 4095" "neg_filter_width m = 4095" "0 < mixer_channels m"
    "mixer_limit m F \<le> int F" "int F - 4095 \<le> mixer_limit m F"
  using assms by (cases m; auto simp: mixer_ready_def filter_width_eq mixer_channels_def mixer_limit_def supported_def)+

lemma splice_nth:
  assumes "0 < d" "f * d \<le> length xs" "length buf = length xs - f * d"
    "\<And>j. j < length buf \<Longrightarrow> buf ! j = g (j div d) (j mod d) (drop (f * d) xs ! j)" "j < length xs"
  shows "(take (f * d) xs @ buf) ! j = (if f \<le> j div d then g (j div d - f) (j mod d) (xs ! j) else xs ! j)"
proof (cases "f \<le> j div d")
  case True
  then have ge: "f * d \<le> j" using assms(1) by (simp add: less_eq_div_iff_mult_less_eq)
  then have j: "j = (j - f * d) + f * d" by simp
  have "j div d = ((j - f * d) + f * d) div d" "j mod d = ((j - f * d) + f * d) mod d" using j by metis+
  then have "(j - f * d) div d = j div d - f" "(j - f * d) mod d = j mod d" using assms(1) by simp_all
  moreover have "(take (f * d) xs @ buf) ! j = buf ! (j - f * d)" using ge assms(2) by (simp add: nth_append min_def)
  moreover have "j - f * d < length buf" using assms(3,5) ge by simp
  ultimately show ?thesis using True assms(2) assms(4) [of "j - f * d"] ge by simp
next
  case False
  then have "j < f * d" using assms(1) by (metis less_eq_div_iff_mult_less_eq not_le)
  with False assms(2) show ?thesis by (simp add: nth_append min_def)
qed

text \<open>The loop over the one region, from where the window says.\<close>

lemma mix_one_region:
  fixes m r mem F k left step first start buf
  assumes ready: "mixer_ready m (drop (unat (ar_base r)) mem) F" and F: "F = unat (ar_frac_frame_len r)" "4096 \<le> F" "F + step \<le> 2 ^ 31"
    and step: "0 < step" and k: "0 \<le> k" "k < int left" "start - pos_filter_width m \<le> first + k * int step"
    and before: "\<And>i. 0 \<le> i \<Longrightarrow> i < k \<Longrightarrow> first + i * int step < start - pos_filter_width m"
    and buf: "left * mixer_channels m \<le> length buf" "list_all roomy buf"
  defines "lim \<equiv> start + mixer_limit m F"
  obtains res m' buf' n where
    "mix_regions mem left step amp acc [r] m buf (nat k) (first - start + k * int step) = Inr (res, m', buf', n)"
    "length buf' = length buf" "n \<le> left"
    "\<And>j. j < length buf \<Longrightarrow> buf' ! j =
       (let pos = first + int (j div mixer_channels m) * int step
        in if \<not> muted amp \<and> j div mixer_channels m < left \<and> start - pos_filter_width m \<le> pos \<and> pos < lim
           then blend acc amp (buf ! j) (mixer_sample m (drop (unat (ar_base r)) mem) F (pos - start) (j mod mixer_channels m))
           else buf ! j)"
    "res \<Longrightarrow> lim \<le> first + int n * int step" "\<not> res \<Longrightarrow> first + int (left - 1) * int step < lim"
proof -
  let ?d = "mixer_channels m" and ?src = "drop (unat (ar_base r)) mem"
  note w = mixer_ready_widths [OF ready]
  have F31: "unat (ar_frac_frame_len r) \<le> 2 ^ 31 - 1" using F step by simp
  have window: "start - pos_filter_width m \<le> first + i * int step \<longleftrightarrow> k \<le> i" if "0 \<le> i" for i
  proof
    assume "start - pos_filter_width m \<le> first + i * int step"
    with before [OF that] show "k \<le> i" by fastforce
  next
    assume "k \<le> i"
    then have "k * int step \<le> i * int step" by (intro mult_right_mono) auto
    with k(3) show "start - pos_filter_width m \<le> first + i * int step" by linarith
  qed
  show ?thesis
  proof (cases "first - start + k * int step \<ge> int F")
    case True
    have eq: "mix_regions mem left step amp acc [r] m buf (nat k) (first - start + k * int step) = Inr (True, m, buf, nat k)"
      using True F31 by (simp add: F(1))
    show ?thesis
    proof (rule that [OF eq])
      fix j
      have "\<not> first + int (j div ?d) * int step < lim" if "k \<le> int (j div ?d)"
      proof -
        have "k * int step \<le> int (j div ?d) * int step" using that by (intro mult_right_mono) auto
        with True w(5) show ?thesis unfolding lim_def by linarith
      qed
      then show "buf ! j = (let pos = first + int (j div ?d) * int step
          in if \<not> muted amp \<and> j div ?d < left \<and> start - pos_filter_width m \<le> pos \<and> pos < lim
             then blend acc amp (buf ! j) (mixer_sample m ?src F (pos - start) (j mod ?d)) else buf ! j)"
        using window [of "int (j div ?d)"] by (auto simp: Let_def)
    qed (use True w(5) k in \<open>auto simp: lim_def\<close>)
  next
    case False
    have pre: "mixer_pre m buf left (nat k) ?src F (first - start + k * int step) step"
      unfolding mixer_pre_def using ready F step k False buf by auto
    obtain consumed m' buf' n where M: "Mixer_Mix m buf left (nat k) ?src F (first - start + k * int step) step amp acc =
        Inr (consumed, m', buf', nat k + n, first - start + k * int step + int n * int step)" "length buf' = length buf" "nat k + n \<le> left"
      "\<And>j. j < length buf \<Longrightarrow> buf' ! j =
        (if \<not> muted amp \<and> nat k \<le> j div ?d \<and> j div ?d < left \<and> first - start + k * int step + (int (j div ?d) - int (nat k)) * int step < mixer_limit m F
         then blend acc amp (buf ! j) (mixer_sample m ?src F (first - start + k * int step + (int (j div ?d) - int (nat k)) * int step) (j mod ?d))
         else buf ! j)"
      "consumed \<Longrightarrow> mixer_limit m F \<le> first - start + k * int step + int n * int step" "\<not> consumed \<Longrightarrow> nat k + n = left"
      "\<And>i. i < n \<Longrightarrow> first - start + k * int step + int i * int step < mixer_limit m F"
      using mx.frames [OF pre] by blast
    have eq: "mix_regions mem left step amp acc [r] m buf (nat k) (first - start + k * int step) = Inr (consumed, m', buf', nat k + n)"
    proof -
      have F31': "F \<le> 2 ^ 31 - 1" using F31 F(1) by simp
      show ?thesis unfolding mix_regions.simps F(1) [symmetric] dcheck_pass [OF F31'] if_not_P [OF False] M(1) rbind_simps prod.case
          dcheck_pass [OF M(3)] using M(6) by (cases consumed) simp_all
    qed
    have pos: "first - start + k * int step + (int i - int (nat k)) * int step = first + int i * int step - start" for i
      using k(1) by (simp add: algebra_simps)
    show ?thesis
    proof (rule that [OF eq M(2,3)])
      fix j assume j: "j < length buf"
      have "nat k \<le> j div ?d \<longleftrightarrow> start - pos_filter_width m \<le> first + int (j div ?d) * int step"
        using window [of "int (j div ?d)"] k(1) by (simp add: nat_le_iff)
      moreover have "first + int (j div ?d) * int step - start < mixer_limit m F \<longleftrightarrow> first + int (j div ?d) * int step < lim"
        unfolding lim_def by auto
      ultimately show "buf' ! j = (let pos = first + int (j div ?d) * int step
          in if \<not> muted amp \<and> j div ?d < left \<and> start - pos_filter_width m \<le> pos \<and> pos < lim
             then blend acc amp (buf ! j) (mixer_sample m ?src F (pos - start) (j mod ?d)) else buf ! j)"
        unfolding M(4) [OF j] pos Let_def by auto
    next
      assume consumed
      from M(5) [OF this] show "lim \<le> first + int (nat k + n) * int step" using k(1) unfolding lim_def by (simp add: algebra_simps)
    next
      assume nc: "\<not> consumed"
      have n: "0 < n" using M(6) [OF nc] k by linarith
      have "first - start + k * int step + int (n - 1) * int step < mixer_limit m F" using M(7) [of "n - 1"] n by simp
      moreover have "int (left - 1) = k + int (n - 1)" using M(6) [OF nc] n k by linarith
      ultimately show "first + int (left - 1) * int step < lim" unfolding lim_def by (simp add: distrib_right)
    qed
  qed
qed

text \<open>The source positions of the frames of the output, counted from the start of the job.\<close>

abbreviation sampled_at :: "int \<Rightarrow> MixState \<Rightarrow> TrackBookkeeping \<Rightarrow> nat \<Rightarrow> int" where
  "sampled_at first s info i \<equiv>
     first + (int i - int (unat (frames_produced (cur_mix_job s)))) * int (unat (step_size info))"

definition mixed_into :: "(int \<Rightarrow> nat \<Rightarrow> int) \<Rightarrow> Mixer \<Rightarrow> int \<Rightarrow> int \<Rightarrow> nat \<Rightarrow> MixState \<Rightarrow> TrackBookkeeping \<Rightarrow> int list" where
  "mixed_into smp m start first F s info =
     map (\<lambda>j. let i = j div mixer_channels m; pos = sampled_at first s info i
              in if \<not> muted (amplitude_scale info) \<and> unat (frames_produced (cur_mix_job s)) \<le> i \<and> i < unat (buf_frames (cur_mix_job s)) \<and>
                    start - pos_filter_width m \<le> pos \<and> pos < start + mixer_limit m F
                 then blend (mj_accumulate (cur_mix_job s)) (amplitude_scale info) (mix_buf s ! j) (smp (pos - start) (j mod mixer_channels m))
                 else mix_buf s ! j) [0..<length (mix_buf s)]"

lemma mixed_into_none:
  assumes "\<And>i. unat (frames_produced (cur_mix_job s)) \<le> i \<Longrightarrow> i < unat (buf_frames (cur_mix_job s)) \<Longrightarrow>
    sampled_at first s info i < start - pos_filter_width m \<or> start + mixer_limit m F \<le> sampled_at first s info i"
  shows "mixed_into smp m start first F s info = mix_buf s"
proof (rule nth_equalityI)
  fix j assume "j < length (mixed_into smp m start first F s info)"
  with assms [of "j div mixer_channels m"] show "mixed_into smp m start first F s info ! j = mix_buf s ! j"
    by (auto simp: mixed_into_def Let_def)
qed (simp add: mixed_into_def)

lemma ProcessMix_window:
  assumes "mixable (mem (ap_state packet)) chans s info packet r m first"
  shows "ProcessMix mem chans s info packet =
    (case (if ap_end_pts packet \<le> first then Skip
           else if ap_start_pts packet > first + int (unat (buf_frames (cur_mix_job s)) - unat (frames_produced (cur_mix_job s)) - 1) *
              int (unat (step_size info)) + pos_filter_width m then Hold
           else Mix_at (nat (first_frame (pos_filter_width m) first (unat (step_size info)) (ap_start_pts packet)))
             (first - ap_start_pts packet + first_frame (pos_filter_width m) first (unat (step_size info)) (ap_start_pts packet) * int (unat (step_size info)))) of
       Skip \<Rightarrow> Inr (True, s, info)
     | Hold \<Rightarrow> Inr (False, s, info)
     | Mix_at output_offset input_offset \<Rightarrow>
         rbind (mix_regions (mem (ap_state packet)) (unat (buf_frames (cur_mix_job s)) - unat (frames_produced (cur_mix_job s)))
                  (unat (step_size info)) (amplitude_scale info) (mj_accumulate (cur_mix_job s)) [r] m
                  (drop (unat (frames_produced (cur_mix_job s)) * chans) (mix_buf s)) output_offset input_offset)
           (\<lambda>(all_consumed, mixer, buf, output_offset).
              let s' = s\<lparr>mix_buf := take (unat (frames_produced (cur_mix_job s)) * chans) (mix_buf s) @ buf\<rparr>;
                  info = info\<lparr>bk_mixer := Some mixer\<rparr>
              in if \<not> all_consumed then Inr (False, s', info)
                 else let n = frames_produced (cur_mix_job s) + of_nat output_offset
                      in dcheck (n \<le> buf_frames (cur_mix_job s))
                           (Inr (True, s'\<lparr>cur_mix_job := (cur_mix_job s)\<lparr>frames_produced := n\<rparr>\<rparr>, info))))"
proof -
  note a = mixableD [OF assms] and w = mixer_ready_widths [OF mixableD(8) [OF assms]]
  let ?job = "cur_mix_job s"
  let ?p = "unat (frames_produced ?job)" and ?b = "unat (buf_frames ?job)" and ?st = "unat (step_size info)"
  have st: "0 < ?st" using a(7) by (simp add: unat_gt_0)
  have "moderate (int (?b - ?p) * int ?st)"
  proof -
    have "int (?b - ?p) * int ?st \<le> int ?b * int ?st" by (intro mult_right_mono of_nat_mono) auto
    with a(17) show ?thesis unfolding moderate_def by (auto intro: order_trans [of _ 0])
  qed
  then have win: "mix_window m first (?b - ?p) ?st (ap_start_pts packet) (ap_end_pts packet) = Inr
      (if ap_end_pts packet \<le> first then Skip
       else if ap_start_pts packet > first + int (?b - ?p - 1) * int ?st + pos_filter_width m then Hold
       else Mix_at (nat (first_frame (pos_filter_width m) first ?st (ap_start_pts packet)))
         (first - ap_start_pts packet + first_frame (pos_filter_width m) first ?st (ap_start_pts packet) * int ?st))"
    by (intro mix_window_exact [OF refl w(3) w(1) w(2) st _ a(4) a(5) a(6) a(15) a(16)]) (use a(9) in auto)
  have sf: "sint (word_of_int first :: i64) = first"
    using a(15) by (simp add: moderate_def signed_of_int signed_take_bit_int_eq_self)
  have le: "?p * chans \<le> ?b * chans" using a(9) by (intro mult_le_mono1) simp
  have ch: "chans < 2 ^ 32"
  proof -
    have "1 * chans \<le> ?b * chans" using a(9) by (intro mult_le_mono1) linarith
    with a(11) show ?thesis by linarith
  qed
  then have base: "unat (frames_produced ?job * of_nat chans) = ?p * chans"
  proof -
    have "?p * chans < 2 ^ 32" using le a(11) by linarith
    then show ?thesis using ch by (simp add: unat_word_ariths unat_of_nat)
  qed
  have in_buf: "?p * chans \<le> length (mix_buf s)" using le a(10) by linarith
  have c: "buf_frames ?job \<noteq> 0" "frames_produced ?job \<le> buf_frames ?job" "\<not> frames_produced ?job \<ge> buf_frames ?job"
    using a(9) by (auto simp: word_le_nat_alt word_unat_eq_iff)
  show ?thesis
    unfolding ProcessMix_def Let_def [of "cur_mix_job s"] dcheck_pass [OF c(1)] dcheck_pass [OF c(2)] a(1,3) option.case
      if_not_P [OF a(7)] if_not_P [OF c(3)] Let_def [of "?b - ?p"] base Let_def [of "?p * chans"] s64_pass [OF a(13)] rbind_simps a(14)
      prod.case dcheck_pass [OF TrueI] sf win if_P [OF in_buf] ..
qed

lemma sampled_at_shift:
  assumes "unat (frames_produced (cur_mix_job s)) \<le> i"
  shows "sampled_at first s info i = first + int (i - unat (frames_produced (cur_mix_job s))) * int (unat (step_size info))"
  using assms by (simp add: of_nat_diff)

lemma sampled_at_mono: "i \<le> j \<Longrightarrow> sampled_at first s info i \<le> sampled_at first s info j"
  by (intro add_left_mono mult_right_mono) auto

text \<open>
  C22. Mixing a packet of one region, with any of the mixers, fails no DCHECK and
  overflows nowhere. Exactly the frames of the job that are still to be produced and
  whose sampling position the mixer can serve from this packet get the scaled sample at
  their position; all others keep their value. The packet is given back when the next
  frame to be produced lies beyond what it can serve, and then the job has advanced to
  that frame; it is held, and the job does not advance, when the last frame of the job
  does not. The samples are blended as the samplers do it: accumulating adds without
  clipping, and a muted track leaves the frames as they are, where mixer.h describes a clipped
  sum and a replacement. Packets of several regions are not covered, since the lengths that
  \<^verbatim>\<open>AudioPipe\<close> gives to later regions are wrong.
\<close>

theorem ProcessMix_correct:
  assumes "mixable (mem (ap_state packet)) chans s info packet r m first"
  shows "\<exists>res s' info'. ProcessMix mem chans s info packet = Inr (res, s', info') \<and>
    (let F = unat (ar_frac_frame_len r); start = ap_start_pts packet
     in mix_buf s' = mixed_into (mixer_sample m (drop (unat (ar_base r)) (mem (ap_state packet))) F) m start first F s info \<and>
        (if res then frames_produced (cur_mix_job s) \<le> frames_produced (cur_mix_job s') \<and>
             frames_produced (cur_mix_job s') \<le> buf_frames (cur_mix_job s) \<and>
             start + mixer_limit m F \<le> sampled_at first s info (unat (frames_produced (cur_mix_job s')))
         else cur_mix_job s' = cur_mix_job s \<and>
           sampled_at first s info (unat (buf_frames (cur_mix_job s)) - 1) < start + mixer_limit m F))"
proof -
  note a = mixableD [OF assms] and w = mixer_ready_widths [OF mixableD(8) [OF assms]] and pm = ProcessMix_window [of mem packet, OF assms]
  let ?job = "cur_mix_job s" and ?F = "unat (ar_frac_frame_len r)" and ?start = "ap_start_pts packet" and ?P = "pos_filter_width m"
  let ?p = "unat (frames_produced ?job)" and ?b = "unat (buf_frames ?job)" and ?st = "unat (step_size info)"
  let ?src = "drop (unat (ar_base r)) (mem (ap_state packet))" and ?d = "mixer_channels m"
  have st: "0 < ?st" using a(7) by (simp add: unat_gt_0)
  have lastpos: "sampled_at first s info (?b - 1) = first + int (?b - ?p - 1) * int ?st"
    using a(9) by (subst sampled_at_shift) (auto simp: diff_diff_eq add.commute)
  consider (skip) "ap_end_pts packet \<le> first" | (hold) "\<not> ap_end_pts packet \<le> first" "?start > first + int (?b - ?p - 1) * int ?st + ?P"
    | (mix) "\<not> ap_end_pts packet \<le> first" "\<not> ?start > first + int (?b - ?p - 1) * int ?st + ?P" by blast
  then show ?thesis
  proof cases
    case skip
    have "mixed_into (mixer_sample m ?src ?F) m ?start first ?F s info = mix_buf s"
    proof (rule mixed_into_none)
      fix i assume "?p \<le> i"
      from sampled_at_mono [OF this, of first s info] show "sampled_at first s info i < ?start - ?P \<or> ?start + mixer_limit m ?F \<le> sampled_at first s info i"
        using skip a(4) w(5) by simp
    qed
    moreover have "ProcessMix mem chans s info packet = Inr (True, s, info)" unfolding pm if_P [OF skip] by simp
    ultimately show ?thesis using skip a(4,9) w(5) by (auto simp: Let_def word_le_nat_alt)
  next
    case hold
    have "mixed_into (mixer_sample m ?src ?F) m ?start first ?F s info = mix_buf s"
    proof (rule mixed_into_none)
      fix i assume "i < ?b"
      then have "i \<le> ?b - 1" by simp
      from sampled_at_mono [OF this, of first s info] show "sampled_at first s info i < ?start - ?P \<or> ?start + mixer_limit m ?F \<le> sampled_at first s info i"
        using hold(2) lastpos by linarith
    qed
    moreover have "ProcessMix mem chans s info packet = Inr (False, s, info)" unfolding pm if_not_P [OF hold(1)] if_P [OF hold(2)] by simp
    moreover have "sampled_at first s info (?b - 1) < ?start + mixer_limit m ?F" unfolding lastpos using hold(2) w(1,6) a(5) by linarith
    ultimately show ?thesis by (intro exI [of _ False] exI [of _ s] exI [of _ info]) (simp add: Let_def)
  next
    case mix
    then have "?start \<le> first + int (?b - ?p - 1) * int ?st + ?P" by simp
    from first_frame_bounds [OF st _ this] a(9)
    have k: "0 \<le> first_frame ?P first ?st ?start" "first_frame ?P first ?st ?start < int (?b - ?p)"
      "?start - ?P \<le> first + first_frame ?P first ?st ?start * int ?st"
      "\<And>i. 0 \<le> i \<Longrightarrow> i < first_frame ?P first ?st ?start \<Longrightarrow> first + i * int ?st < ?start - ?P" by auto
    let ?k = "first_frame ?P first ?st ?start" and ?buf = "drop (?p * ?d) (mix_buf s)"
    have pb: "?p * ?d \<le> ?b * ?d" "?b * ?d \<le> length (mix_buf s)" using a(9,10) by (auto simp: a(2) intro: mult_le_mono1)
    then have in_buf: "?p * ?d \<le> length (mix_buf s)" "(?b - ?p) * ?d \<le> length ?buf"
      by (linarith, simp add: diff_mult_distrib)
    have roomy: "list_all roomy ?buf" using a(12) by (auto simp: list_all_iff dest: in_set_dropD)
    obtain res m' buf' n where M: "mix_regions (mem (ap_state packet)) (?b - ?p) ?st (amplitude_scale info) (mj_accumulate ?job) [r] m ?buf (nat ?k)
        (first - ?start + ?k * int ?st) = Inr (res, m', buf', n)" "length buf' = length ?buf" "n \<le> ?b - ?p"
      "\<And>j. j < length ?buf \<Longrightarrow> buf' ! j = (let pos = first + int (j div ?d) * int ?st
          in if \<not> muted (amplitude_scale info) \<and> j div ?d < ?b - ?p \<and> ?start - ?P \<le> pos \<and> pos < ?start + mixer_limit m ?F
             then blend (mj_accumulate ?job) (amplitude_scale info) (?buf ! j) (mixer_sample m ?src ?F (pos - ?start) (j mod ?d)) else ?buf ! j)"
      "res \<Longrightarrow> ?start + mixer_limit m ?F \<le> first + int n * int ?st" "\<not> res \<Longrightarrow> first + int (?b - ?p - 1) * int ?st < ?start + mixer_limit m ?F"
      by (rule mix_one_region [OF a(8) refl a(5) a(6) st k(1) k(2) k(3) k(4) in_buf(2) roomy]) (assumption | blast)+
    have buf: "take (?p * ?d) (mix_buf s) @ buf' = mixed_into (mixer_sample m ?src ?F) m ?start first ?F s info" (is "?new = ?spec")
    proof (rule nth_equalityI)
      show "length ?new = length ?spec" using M(2) in_buf(1) by (simp add: mixed_into_def)
      fix j assume "j < length ?new"
      then have j: "j < length (mix_buf s)" using M(2) in_buf(1) by simp
      let ?g = "\<lambda>i c old. let pos = first + int i * int ?st
          in if \<not> muted (amplitude_scale info) \<and> i < ?b - ?p \<and> ?start - ?P \<le> pos \<and> pos < ?start + mixer_limit m ?F
             then blend (mj_accumulate ?job) (amplitude_scale info) old (mixer_sample m ?src ?F (pos - ?start) c) else old"
      have new: "?new ! j = (if ?p \<le> j div ?d then ?g (j div ?d - ?p) (j mod ?d) (mix_buf s ! j) else mix_buf s ! j)"
        by (rule splice_nth [OF w(4) in_buf(1)]) (use M(2,4) j in simp_all)
      show "?new ! j = ?spec ! j"
      proof (cases "?p \<le> j div ?d")
        case True
        then have "j div ?d - ?p < ?b - ?p \<longleftrightarrow> j div ?d < ?b" by linarith
        with True j show ?thesis unfolding new sampled_at_shift [OF True, of first info, symmetric] by (simp add: mixed_into_def Let_def)
      next
        case False
        with j show ?thesis unfolding new by (simp add: mixed_into_def Let_def)
      qed
    qed
    have n: "unat (frames_produced ?job + of_nat n) = ?p + n"
    proof -
      have "?p + n \<le> ?b" using M(3) a(9) by linarith
      then have "?p + n < 2 ^ 32" using unat_less_2p [of "buf_frames ?job"] by simp
      then show ?thesis by (simp add: unat_word_ariths unat_of_nat)
    qed
    show ?thesis
    proof (cases res)
      case True
      have le: "frames_produced ?job + of_nat n \<le> buf_frames ?job" using n M(3) a(9) by (simp add: word_le_nat_alt)
      have "ProcessMix mem chans s info packet = Inr (True, s\<lparr>mix_buf := ?spec, cur_mix_job := ?job\<lparr>frames_produced := frames_produced ?job + of_nat n\<rparr>\<rparr>,
          info\<lparr>bk_mixer := Some m'\<rparr>)"
        unfolding pm if_not_P [OF mix(1)] if_not_P [OF mix(2)] window.case unfolding a(2) M(1) rbind_simps prod.case buf using True le by (simp add: Let_def)
      moreover have "?start + mixer_limit m ?F \<le> sampled_at first s info (unat (frames_produced ?job + of_nat n))"
        unfolding n using M(5) [OF True] by simp
      moreover have "frames_produced ?job \<le> frames_produced ?job + of_nat n" unfolding word_le_nat_alt n by simp
      ultimately show ?thesis using le
        by (intro exI [of _ True] exI [of _ "s\<lparr>mix_buf := ?spec, cur_mix_job := ?job\<lparr>frames_produced := frames_produced ?job + of_nat n\<rparr>\<rparr>"]
            exI [of _ "info\<lparr>bk_mixer := Some m'\<rparr>"]) (simp add: Let_def)
    next
      case False
      have "ProcessMix mem chans s info packet = Inr (False, s\<lparr>mix_buf := ?spec\<rparr>, info\<lparr>bk_mixer := Some m'\<rparr>)"
        unfolding pm if_not_P [OF mix(1)] if_not_P [OF mix(2)] window.case unfolding a(2) M(1) rbind_simps prod.case buf using False by (simp add: Let_def)
      then show ?thesis using M(6) [OF False] unfolding lastpos
        by (intro exI [of _ False] exI [of _ "s\<lparr>mix_buf := ?spec\<rparr>"] exI [of _ "info\<lparr>bk_mixer := Some m'\<rparr>"]) (simp add: Let_def)
    qed
  qed
qed

text \<open>A packet of two frames that starts one frame after the first frame of a job of two frames.\<close>

definition mix_example_state :: MixState where
  "mix_example_state = \<lparr> cur_mix_job = \<lparr> mj_buf = [], buf_frames = 2, job_start_pts_of = 0, local_to_output_gen = 1, mj_accumulate = True,
     local_to_output = None, frames_produced = 0 \<rparr>, mix_buf = [5, 5], trim_threshold = 0 \<rparr>"

definition mix_example_info :: TrackBookkeeping where
  "mix_example_info = \<lparr> lt_to_track_frames = LinearTransform_of_ratio 0 Ratio_default 0,
     out_frames_to_track_frames = LinearTransform_of_ratio 0 \<lparr> numerator = 4096, denominator = 1 \<rparr> 0,
     lt_to_track_frames_gen = 1, out_frames_to_track_frames_gen = 1, step_size = 4096, amplitude_scale = UNITY,
     bk_mixer = Some (PointSampler UNSIGNED_8 1 1) \<rparr>"

definition mix_example_packet :: "unit AudioPacketRef" where
  "mix_example_packet = \<lparr> ap_state = two_regions, ap_regions = [\<lparr> ar_base = 0, ar_frac_frame_len = 8192 \<rparr>],
     ap_start_pts = 4096, ap_end_pts = 12288 \<rparr>"

theorem ProcessMix_correct_witness:
  "\<exists>s' info'. ProcessMix (\<lambda>_. [0x90, 0x80]) 1 mix_example_state mix_example_info mix_example_packet = Inr (False, s', info') \<and>
     mix_buf s' = [5, 0x1005]"
proof -
  let ?s = mix_example_state and ?i = mix_example_info and ?p = mix_example_packet and ?r = "\<lparr> ar_base = 0, ar_frac_frame_len = 8192 \<rparr>"
  let ?m = "PointSampler UNSIGNED_8 1 1"
  have nm: "\<not> muted UNITY" using muted_not_UNITY by blast
  have fwd: "DoForwardTransform (LinearTransform_of_ratio 0 \<lparr> numerator = 4096, denominator = 1 \<rparr> 0) 0 (Some 0) = Inr (True, Some 0)"
    by code_simp
  have "mixable [0x90, 0x80] 1 ?s ?i ?p ?r ?m 0"
    by (simp add: mixable_def mix_example_state_def mix_example_info_def mix_example_packet_def mixer_channels_def mixer_ready_def
        supported_def has_frames_def sample_bytes_def roomy_def in_int64_iff moderate_def fwd)
  from ProcessMix_correct [of "\<lambda>_. [0x90, 0x80]" ?p 1 ?s ?i ?r ?m 0, OF this]
  obtain res s' info' where pm: "ProcessMix (\<lambda>_. [0x90, 0x80]) 1 ?s ?i ?p = Inr (res, s', info')"
    and buf: "mix_buf s' = mixed_into (mixer_sample ?m (drop (unat (ar_base ?r)) [0x90, 0x80]) (unat (ar_frac_frame_len ?r))) ?m
      (ap_start_pts ?p) 0 (unat (ar_frac_frame_len ?r)) ?s ?i"
    and fin: "if res then frames_produced (cur_mix_job ?s) \<le> frames_produced (cur_mix_job s') \<and>
             frames_produced (cur_mix_job s') \<le> buf_frames (cur_mix_job ?s) \<and>
             ap_start_pts ?p + mixer_limit ?m (unat (ar_frac_frame_len ?r)) \<le> sampled_at 0 ?s ?i (unat (frames_produced (cur_mix_job s')))
         else cur_mix_job s' = cur_mix_job ?s \<and>
           sampled_at 0 ?s ?i (unat (buf_frames (cur_mix_job ?s)) - 1) < ap_start_pts ?p + mixer_limit ?m (unat (ar_frac_frame_len ?r))"
    unfolding Let_def by blast
  have "\<not> res"
  proof
    assume res
    with fin have "frames_produced (cur_mix_job s') \<le> 2" "12288 \<le> int (unat (frames_produced (cur_mix_job s'))) * 4096"
      by (simp_all add: mix_example_state_def mix_example_info_def mix_example_packet_def mixer_limit_def)
    then show False by (simp add: word_le_def)
  qed
  moreover have "mixed_into (mixer_sample ?m [0x90, 0x80] 8192) ?m 4096 0 8192 ?s ?i = [5, 0x1005]"
    using nm
    by (simp add: mixed_into_def mix_example_state_def mix_example_info_def mixer_channels_def filter_width_eq mixer_limit_def
        mixer_sample_def upt_rec blend_def scaled_def clip16_def uint_UNITY frame_sample_def sample_at_def SampleNormalizer_Read_def)
  ultimately show ?thesis using pm buf by (simp add: mix_example_packet_def [symmetric]) (simp add: mix_example_packet_def)
qed

section \<open>What trimming does\<close>

abbreviation passed :: "int \<Rightarrow> 'h AudioPacketRef \<Rightarrow> bool" where
  "passed threshold p \<equiv> ap_end_pts p \<le> threshold"

definition trimmed :: "int \<Rightarrow> 'h AudioPacketRef Link \<Rightarrow> 'h AudioPacketRef Link" where
  "trimmed threshold l = l\<lparr>lk_flushed := False, lk_pending := dropWhile (passed threshold) (lk_pending l),
     lk_returned := lk_returned l @ map (\<lambda>p. (p, SR_CONSUMED)) (takeWhile (passed threshold) (lk_pending l))\<rparr>"

lemma trim_round:
  assumes "\<not> lk_flush_lock link" "lk_pending link = p # ps"
    and "if setup_done then trim_threshold s = T else DoForwardTransform (lt_to_track_frames info) now (Some (word_of_int (trim_threshold s))) = Inr (True, Some t) \<and> sint t = T"
    and "bk_mixer info = Some m"
  shows "\<exists>info'. bk_mixer info' \<noteq> None \<and> lt_to_track_frames info' = lt_to_track_frames info \<and>
    track_loop (SetupTrim now) ProcessTrim amp ([] # envs) setup_done link s info =
      (if passed T p
       then track_loop (SetupTrim now) ProcessTrim amp envs True
              (link\<lparr>lk_flushed := False, lk_pending := ps, lk_returned := lk_returned link @ [(p, SR_CONSUMED)]\<rparr>) (s\<lparr>trim_threshold := T\<rparr>) info'
       else Inr (Some (link\<lparr>lk_flushed := False\<rparr>, s\<lparr>trim_threshold := T\<rparr>, info')))"
proof -
  let ?i = "if lk_flushed link then info\<lparr>bk_mixer := Some (Mixer_Reset m)\<rparr> else info"
  have lock: "LockPendingQueueFront link = Inr (lk_flushed link, Some p, link\<lparr>lk_flush_lock := True, lk_flushed := False\<rparr>)"
    using assms(1,2) by (simp add: LockPendingQueueFront_def)
  have set: "(if setup_done then Inr (True, s, ?i) else SetupTrim now s ?i) = Inr (True, s\<lparr>trim_threshold := T\<rparr>, ?i)"
    using assms(3) by (auto simp: SetupTrim_def split: if_splits)
  have un: "UnlockPendingQueueFront (Some p) b (link\<lparr>lk_flush_lock := True, lk_flushed := False\<rparr>) =
      Inr (if b then link\<lparr>lk_flushed := False, lk_pending := ps, lk_returned := lk_returned link @ [(p, SR_CONSUMED)]\<rparr> else link\<lparr>lk_flushed := False\<rparr>)" for b
    using assms(1,2) by (cases link) (simp add: UnlockPendingQueueFront_def)
  have reset: "(if \<not> lk_flushed link then Inr info else case bk_mixer info of None \<Rightarrow> Inl Null_deref
      | Some m \<Rightarrow> Inr (info\<lparr>bk_mixer := Some (Mixer_Reset m)\<rparr>)) = Inr ?i" using assms(4) by simp
  show ?thesis
  proof (intro exI [of _ "?i\<lparr>amplitude_scale := amp\<rparr>"] conjI)
    show "track_loop (SetupTrim now) ProcessTrim amp ([] # envs) setup_done link s info =
      (if passed T p
       then track_loop (SetupTrim now) ProcessTrim amp envs True
              (link\<lparr>lk_flushed := False, lk_pending := ps, lk_returned := lk_returned link @ [(p, SR_CONSUMED)]\<rparr>) (s\<lparr>trim_threshold := T\<rparr>) (?i\<lparr>amplitude_scale := amp\<rparr>)
       else Inr (Some (link\<lparr>lk_flushed := False\<rparr>, s\<lparr>trim_threshold := T\<rparr>, ?i\<lparr>amplitude_scale := amp\<rparr>)))"
      unfolding track_loop.simps fold_simps(1) lock rbind_simps prod.case reset option.case set ProcessTrim_def un
      by (simp add: not_less)
  qed (use assms(4) in auto)
qed

lemma trim_empty:
  assumes "\<not> lk_flush_lock link" "lk_pending link = []" "bk_mixer info = Some m"
  shows "\<exists>info'. track_loop setup process amp ([] # envs) setup_done link s info = Inr (Some (trimmed T link, s, info'))"
proof -
  have "LockPendingQueueFront link = Inr (lk_flushed link, None, link\<lparr>lk_flush_lock := True, lk_flushed := False\<rparr>)"
    using assms(1,2) by (simp add: LockPendingQueueFront_def)
  moreover have "link\<lparr>lk_flushed := False, lk_flush_lock := False\<rparr> = trimmed T link"
    using assms(1,2) by (cases link) (simp add: trimmed_def)
  ultimately show ?thesis using assms(3) by (auto simp: UnlockPendingQueueFront_def)
qed

lemma trim_rounds:
  assumes "\<not> lk_flush_lock link" "length (lk_pending link) < n" "trim_threshold s = T" "bk_mixer info \<noteq> None"
  shows "\<exists>info'. track_loop (SetupTrim now) ProcessTrim amp (replicate n []) True link s info = Inr (Some (trimmed T link, s, info'))"
  using assms
proof (induction n arbitrary: link info)
  case (Suc n)
  obtain m where m: "bk_mixer info = Some m" using Suc.prems(4) by auto
  show ?case
  proof (cases "lk_pending link")
    case Nil
    from trim_empty [OF Suc.prems(1) this m] show ?thesis by simp
  next
    case (Cons p ps)
    obtain info' where i: "bk_mixer info' \<noteq> None" "track_loop (SetupTrim now) ProcessTrim amp ([] # replicate n []) True link s info =
      (if passed T p
       then track_loop (SetupTrim now) ProcessTrim amp (replicate n []) True
              (link\<lparr>lk_flushed := False, lk_pending := ps, lk_returned := lk_returned link @ [(p, SR_CONSUMED)]\<rparr>) (s\<lparr>trim_threshold := T\<rparr>) info'
       else Inr (Some (link\<lparr>lk_flushed := False\<rparr>, s\<lparr>trim_threshold := T\<rparr>, info')))"
      using trim_round [OF Suc.prems(1) Cons, of True s T info now _ m amp "replicate n []"] Suc.prems(3) m by auto
    have s: "s\<lparr>trim_threshold := T\<rparr> = s" using Suc.prems(3) by simp
    show ?thesis
    proof (cases "passed T p")
      case True
      let ?l = "link\<lparr>lk_flushed := False, lk_pending := ps, lk_returned := lk_returned link @ [(p, SR_CONSUMED)]\<rparr>"
      have "trimmed T ?l = trimmed T link" using True Cons by (simp add: trimmed_def)
      moreover have "\<exists>info''. track_loop (SetupTrim now) ProcessTrim amp (replicate n []) True ?l s info' = Inr (Some (trimmed T ?l, s, info''))"
        by (rule Suc.IH) (use Suc.prems i(1) Cons in auto)
      ultimately show ?thesis using True i(2) s by simp
    next
      case False
      then have "link\<lparr>lk_flushed := False\<rparr> = trimmed T link" using Cons by (simp add: trimmed_def)
      with False i(2) s show ?thesis by simp
    qed
  qed
qed simp

text \<open>
  C32. Trimming a track's queue returns exactly the packets at the front whose end has
  passed, in order and as consumed, and keeps the rest: the pass ends after at most one
  round more than there are packets, and releases the lock.
\<close>

theorem trim_pass_correct:
  assumes "\<not> lk_flush_lock link" "length (lk_pending link) < n" "bk_mixer info \<noteq> None"
    and "DoForwardTransform (lt_to_track_frames info) now (Some (word_of_int (trim_threshold s))) = Inr (True, Some t)"
  shows "\<exists>s' info'. track_loop (SetupTrim now) ProcessTrim amp (replicate n []) False link s info =
    Inr (Some (trimmed (sint t) link, s', info'))"
proof -
  obtain m where m: "bk_mixer info = Some m" using assms(3) by auto
  obtain k where n: "n = Suc k" using assms(2) by (cases n) auto
  show ?thesis
  proof (cases "lk_pending link")
    case Nil
    from trim_empty [OF assms(1) this m] show ?thesis unfolding n by (simp only: replicate_Suc) blast
  next
    case (Cons p ps)
    let ?l = "link\<lparr>lk_flushed := False, lk_pending := ps, lk_returned := lk_returned link @ [(p, SR_CONSUMED)]\<rparr>"
    obtain info' where i: "bk_mixer info' \<noteq> None" "track_loop (SetupTrim now) ProcessTrim amp ([] # replicate k []) False link s info =
      (if passed (sint t) p
       then track_loop (SetupTrim now) ProcessTrim amp (replicate k []) True ?l (s\<lparr>trim_threshold := sint t\<rparr>) info'
       else Inr (Some (link\<lparr>lk_flushed := False\<rparr>, s\<lparr>trim_threshold := sint t\<rparr>, info')))"
      using trim_round [OF assms(1) Cons, of False s "sint t" info now t m amp "replicate k []"] assms(4) m by auto
    show ?thesis
    proof (cases "passed (sint t) p")
      case True
      have "trimmed (sint t) ?l = trimmed (sint t) link" using True Cons by (simp add: trimmed_def)
      moreover have "\<exists>info''. track_loop (SetupTrim now) ProcessTrim amp (replicate k []) True ?l (s\<lparr>trim_threshold := sint t\<rparr>) info' =
          Inr (Some (trimmed (sint t) ?l, s\<lparr>trim_threshold := sint t\<rparr>, info''))"
        by (rule trim_rounds) (use assms i(1) Cons n in auto)
      ultimately show ?thesis using True i(2) by (auto simp: n)
    next
      case False
      then have "link\<lparr>lk_flushed := False\<rparr> = trimmed (sint t) link" using Cons by (simp add: trimmed_def)
      with False i(2) show ?thesis by (simp add: n)
    qed
  qed
qed

theorem trim_pass_correct_witness:
  "\<exists>s' info'. track_loop (SetupTrim 3) ProcessTrim UNITY (replicate 3 []) False
       (Link_new\<lparr>lk_pending := [mix_example_packet\<lparr>ap_end_pts := 2\<rparr>, mix_example_packet]\<rparr>) mix_example_state mix_example_info =
     Inr (Some (Link_new\<lparr>lk_flushed := False, lk_pending := [mix_example_packet],
       lk_returned := [(mix_example_packet\<lparr>ap_end_pts := 2\<rparr>, SR_CONSUMED)]\<rparr>, s', info'))"
proof -
  have "DoForwardTransform (LinearTransform_of_ratio 0 Ratio_default 0) 3 (Some 0) = Inr (True, Some 3)" by code_simp
  then show ?thesis
    using trim_pass_correct [of "Link_new\<lparr>lk_pending := [mix_example_packet\<lparr>ap_end_pts := 2\<rparr>, mix_example_packet]\<rparr>" 3 mix_example_info 3
        mix_example_state 3 UNITY]
    by (simp add: Link_new_def trimmed_def mix_example_state_def mix_example_info_def) (simp add: mix_example_packet_def)
qed

section \<open>Any pass ends\<close>

text \<open>
  Whatever the tasks are, as long as they do not fail, the loop over the packets of a
  track ends after at most one round more than there are packets, when nobody else
  touches the queue. It returns packets from the front only, keeps the others, and
  leaves the queue unlocked.
\<close>

lemma track_loop_ends:
  assumes "\<And>s info. bk_mixer info \<noteq> None \<Longrightarrow> \<exists>ok s' info'. setup s info = Inr (ok, s', info') \<and> bk_mixer info' \<noteq> None"
    and "\<And>s info p. bk_mixer info \<noteq> None \<Longrightarrow> \<exists>ok s' info'. process s info p = Inr (ok, s', info') \<and> bk_mixer info' \<noteq> None"
    and "\<not> lk_flush_lock link" "length (lk_pending link) < n" "bk_mixer info \<noteq> None"
  shows "\<exists>link' s' info' k. track_loop setup process amp (replicate n []) setup_done link s info = Inr (Some (link', s', info')) \<and>
    \<not> lk_flush_lock link' \<and> lk_pending link' = drop k (lk_pending link) \<and>
    map fst (lk_returned link') = map fst (lk_returned link) @ take k (lk_pending link)"
  using assms(3-5)
proof (induction n arbitrary: link s info setup_done)
  case (Suc n)
  obtain m where m: "bk_mixer info = Some m" using Suc.prems(3) by auto
  define info0 where "info0 f = (if f then info\<lparr>bk_mixer := Some (Mixer_Reset m)\<rparr> else info)" for f
  have reset: "(if \<not> f then Inr info else case bk_mixer info of None \<Rightarrow> Inl Null_deref
      | Some m \<Rightarrow> Inr (info\<lparr>bk_mixer := Some (Mixer_Reset m)\<rparr>)) = Inr (info0 f)" "bk_mixer (info0 f) \<noteq> None" for f
    using m by (auto simp: info0_def)
  show ?case
  proof (cases "lk_pending link")
    case Nil
    obtain f q1 q2 where q: "LockPendingQueueFront link = Inr (f, None, q1)" "UnlockPendingQueueFront None False q1 = Inr q2"
      "\<not> lk_flush_lock q2" "lk_pending q2 = []" "map fst (lk_returned q2) = map fst (lk_returned link)"
      using lk.see_empty [OF Suc.prems(1) Nil] by blast
    have "track_loop setup process amp (replicate (Suc n) []) setup_done link s info = Inr (Some (q2, s, info0 f))"
      by (simp add: q(1,2) reset(1) del: if_not_P)
    with q Nil show ?thesis by auto
  next
    case (Cons p ps)
    obtain f q1 q2 q3 where q: "LockPendingQueueFront link = Inr (f, Some p, q1)"
      "UnlockPendingQueueFront (Some p) False q1 = Inr q2" "\<not> lk_flush_lock q2" "lk_pending q2 = p # ps" "map fst (lk_returned q2) = map fst (lk_returned link)"
      "UnlockPendingQueueFront (Some p) True q1 = Inr q3" "\<not> lk_flush_lock q3" "lk_pending q3 = ps" "map fst (lk_returned q3) = map fst (lk_returned link) @ [p]"
      using lk.see_front [OF Suc.prems(1) Cons] by blast
    obtain ok s1 i1 where set: "(if setup_done then Inr (True, s, info0 f) else setup s (info0 f)) = Inr (ok, s1, i1)" "bk_mixer i1 \<noteq> None"
      using assms(1) [OF reset(2), of s f] reset(2) [of f] by (cases setup_done) auto
    obtain used s2 i2 where proc: "process s1 (i1\<lparr>amplitude_scale := amp\<rparr>) p = Inr (used, s2, i2)" "bk_mixer i2 \<noteq> None"
      using assms(2) [of "i1\<lparr>amplitude_scale := amp\<rparr>" s1 p] set(2) by auto
    have eq: "track_loop setup process amp (replicate (Suc n) []) setup_done link s info =
      (if \<not> ok then Inr (Some (q2, s1, i1)) else if \<not> used then Inr (Some (q2, s2, i2))
       else track_loop setup process amp (replicate n []) True q3 s2 i2)"
      unfolding replicate_Suc track_loop.simps fold_simps(1) q(1) rbind_simps prod.case reset(1) option.case set(1) q(2,6) proc(1) ..
    show ?thesis
    proof (cases "ok \<and> used")
      case True
      have "length (lk_pending q3) < n" using Suc.prems(2) Cons q(8) by simp
      from Suc.IH [OF q(7) this proc(2), of True s2] obtain link' s' info' k where
        IH: "track_loop setup process amp (replicate n []) True q3 s2 i2 = Inr (Some (link', s', info'))" "\<not> lk_flush_lock link'"
          "lk_pending link' = drop k ps" "map fst (lk_returned link') = map fst (lk_returned link) @ [p] @ take k ps"
        unfolding q(8,9) by auto
      with True eq show ?thesis unfolding Cons by (auto intro!: exI [of _ "Suc k"])
    next
      case False
      with eq q(3-5) Cons show ?thesis by (cases ok) (auto intro!: exI [of _ 0])
    qed
  qed
qed simp

end
