(* ===== verification/Audio_Server.thy ===== *)
theory Audio_Server
  imports Audio_Link Std_Map
begin

text \<open>
  The audio server (services/media/audio: audio_server_impl.h, audio_server_impl.cc,
  audio_output_manager.h, audio_output_manager.cc, audio_output.h, audio_output.cc, and the
  parts of audio_track_impl.cc and audio_track_to_output_link.cc that connect tracks and
  outputs): which objects there are, who refers to whom, and how packets go back to
  their senders.

  Objects are known by numbers. The server holds the only lasting reference to a track and
  the output manager the only one to an output, so their sets are also the stores of
  these objects. While an output processes a track, its thread holds a reference to the track as well
  (\<open>sv_held\<close>, pairs of an output and a track): a weak pointer to a track can be promoted while the number is a
  key or some thread holds the track, also when the track has been shut down. A link
  is referred to by the set of its track and by the set of its output and is destroyed
  when it has left both. A packet is referred to by the queues of the links it is
  in; when it has left the last of them it is put in the clean-up queue of the server.
  Sets of pointers are kept in the order of their elements.

  What a track does for its client (its pipe and its rate control) is modelled in
  Audio\<open>_\<close>Track, what an output does with its links in Standard\<open>_\<close>Output, and the queue in a link
  in Audio\<open>_\<close>Link. Gains are not modelled. \<open>sv_posted\<close> are the tasks posted to the main message
  loop; \<open>sv_returned\<close> and \<open>sv_cleaned\<close> only record the packets whose callbacks have been run
  and the outputs whose \<^verbatim>\<open>Cleanup\<close> has been called.
\<close>

section \<open>State\<close>

record Track_node =
  tn_bound :: bool
  tn_outputs :: "nat list"

record Output_node =
  on_links :: "nat list"
  on_task_runner :: bool
  on_weak_self :: bool
  on_shutting_down :: bool
  on_shut_down :: bool
  on_thunks :: nat

record 'p Link_node =
  ln_track :: nat
  ln_output :: nat
  ln_link :: "'p Link"

datatype task = DoPacketCleanup_task | FinishShutdownSelf_task "nat option"

record 'p Server =
  sv_tracks :: "Track_node omap"
  sv_outputs :: "Output_node omap"
  sv_links :: "'p Link_node omap"
  sv_thread_pool :: bool
  sv_task_runner :: bool
  sv_posted :: "task list"
  sv_cleanup_queue :: "'p list"
  sv_cleanup_scheduled :: bool
  sv_shutting_down :: bool
  sv_result :: "'p \<Rightarrow> SendResult"
  sv_returned :: "('p \<times> SendResult) list"
  sv_cleaned :: "nat list"
  sv_held :: "(nat \<times> nat) list"

definition new_Server :: "'p Server" where
  "new_Server = \<lparr>sv_tracks = [], sv_outputs = [], sv_links = [], sv_thread_pool = False, sv_task_runner = False, sv_posted = [],
     sv_cleanup_queue = [], sv_cleanup_scheduled = False, sv_shutting_down = False, sv_result = (\<lambda>_. SR_CONSUMED),
     sv_returned = [], sv_cleaned = [], sv_held = []\<rparr>"

definition new_Output_node :: Output_node where
  "new_Output_node = \<lparr>on_links = [], on_task_runner = False, on_weak_self = False, on_shutting_down = False, on_shut_down = False,
     on_thunks = 0\<rparr>"

definition track_at :: "nat \<Rightarrow> 'p Server \<Rightarrow> Track_node res" where
  "track_at t s = (case map_of (sv_tracks s) t of None \<Rightarrow> Inl Null_deref | Some n \<Rightarrow> Inr n)"

definition output_node :: "nat \<Rightarrow> 'p Server \<Rightarrow> Output_node res" where
  "output_node r s = (case map_of (sv_outputs s) r of None \<Rightarrow> Inl Null_deref | Some n \<Rightarrow> Inr n)"

definition link_at :: "nat \<Rightarrow> 'p Server \<Rightarrow> 'p Link_node res" where
  "link_at l s = (case map_of (sv_links s) l of None \<Rightarrow> Inl Null_deref | Some n \<Rightarrow> Inr n)"

definition put_track :: "nat \<Rightarrow> Track_node \<Rightarrow> 'p Server \<Rightarrow> 'p Server" where
  "put_track t n s = s\<lparr>sv_tracks := om_assign t n (sv_tracks s)\<rparr>"

definition put_output_node :: "nat \<Rightarrow> Output_node \<Rightarrow> 'p Server \<Rightarrow> 'p Server" where
  "put_output_node r n s = s\<lparr>sv_outputs := om_assign r n (sv_outputs s)\<rparr>"

definition put_link :: "nat \<Rightarrow> 'p Link_node \<Rightarrow> 'p Server \<Rightarrow> 'p Server" where
  "put_link l n s = s\<lparr>sv_links := om_assign l n (sv_links s)\<rparr>"

text \<open>\<^verbatim>\<open>std::set::emplace\<close>: whether the element is new, and the set with it.\<close>

definition set_emplace :: "nat \<Rightarrow> nat list \<Rightarrow> bool \<times> nat list" where
  "set_emplace x xs = (x \<notin> set xs, if x \<in> set xs then xs else insort x xs)"

section \<open>The message loop and the clean-up queue\<close>

definition ScheduleMessageLoopTask :: "task \<Rightarrow> 'p Server \<Rightarrow> 'p Server res" where
  "ScheduleMessageLoopTask task s = dcheck (sv_task_runner s) (Inr (s\<lparr>sv_posted := sv_posted s @ [task]\<rparr>))"

definition SchedulePacketCleanup :: "'p \<Rightarrow> 'p Server \<Rightarrow> 'p Server res" where
  "SchedulePacketCleanup p s =
     (let s = s\<lparr>sv_cleanup_queue := sv_cleanup_queue s @ [p]\<rparr>
      in if \<not> sv_cleanup_scheduled s \<and> \<not> sv_shutting_down s
         then dcheck (sv_task_runner s) (Inr (s\<lparr>sv_posted := sv_posted s @ [DoPacketCleanup_task], sv_cleanup_scheduled := True\<rparr>))
         else Inr s)"

definition DoPacketCleanup :: "'p Server \<Rightarrow> 'p Server" where
  "DoPacketCleanup s = s\<lparr>sv_cleanup_queue := [], sv_cleanup_scheduled := False,
     sv_returned := sv_returned s @ map (\<lambda>p. (p, sv_result s p)) (sv_cleanup_queue s)\<rparr>"

section \<open>References\<close>

definition referenced :: "'p \<Rightarrow> 'p Server \<Rightarrow> bool" where
  "referenced p s \<longleftrightarrow> list_ex (\<lambda>(_, n). p \<in> set (lk_pending (ln_link n))) (sv_links s)"

text \<open>A reference to a packet goes away; the destructor of \<^verbatim>\<open>AudioPacketRef\<close> runs with the last one.\<close>

definition drop_packet :: "'p \<Rightarrow> 'p Server \<Rightarrow> 'p Server res" where
  "drop_packet p s = (if referenced p s then Inr s else SchedulePacketCleanup p s)"

text \<open>\<^verbatim>\<open>ReleaseQueue\<close> on the packets of a queue.\<close>

fun release_packets :: "'p list \<Rightarrow> 'p Server \<Rightarrow> 'p Server res" where
  "release_packets [] s = Inr s"
| "release_packets (p # ps) s =
     rbind (drop_packet p (s\<lparr>sv_result := (sv_result s)(p := SR_FLUSHED)\<rparr>)) (release_packets ps)"

definition link_referenced :: "nat \<Rightarrow> 'p Server \<Rightarrow> bool" where
  "link_referenced l s \<longleftrightarrow> list_ex (\<lambda>(_, n). l \<in> set (tn_outputs n)) (sv_tracks s) \<or> list_ex (\<lambda>(_, n). l \<in> set (on_links n)) (sv_outputs s)"

definition destroy_link :: "nat \<Rightarrow> 'p Server \<Rightarrow> 'p Server res" where
  "destroy_link l s =
     rbind (link_at l s) (\<lambda>n. release_packets (lk_pending (ln_link n)) (s\<lparr>sv_links := om_erase l (sv_links s)\<rparr>))"

definition unref_link :: "nat \<Rightarrow> 'p Server \<Rightarrow> 'p Server res" where
  "unref_link l s = (if link_referenced l s then Inr s else destroy_link l s)"

fun unref_links :: "nat list \<Rightarrow> 'p Server \<Rightarrow> 'p Server res" where
  "unref_links [] s = Inr s"
| "unref_links (l # ls) s = rbind (unref_link l s) (unref_links ls)"

text \<open>Whether a weak pointer to a track can be promoted, and the end of what the thread of an output does with a track.\<close>

definition track_alive :: "nat \<Rightarrow> 'p Server \<Rightarrow> bool" where
  "track_alive t s \<longleftrightarrow> t \<in> om_keys (sv_tracks s) \<or> list_ex (\<lambda>(_, u). u = t) (sv_held s)"

definition let_go :: "nat \<Rightarrow> 'p Server \<Rightarrow> 'p Server" where
  "let_go r s = s\<lparr>sv_held := filter (\<lambda>(q, _). q \<noteq> r) (sv_held s)\<rparr>"

section \<open>Tracks\<close>

definition CreateTrack :: "nat \<Rightarrow> 'p Server \<Rightarrow> 'p Server" where
  "CreateTrack t s = s\<lparr>sv_tracks := om_insert t \<lparr>tn_bound = True, tn_outputs = []\<rparr> (sv_tracks s)\<rparr>"

definition RemoveTrack :: "nat \<Rightarrow> 'p Server \<Rightarrow> 'p Server res" where
  "RemoveTrack t s = dcheck (t \<in> om_keys (sv_tracks s)) (Inr (s\<lparr>sv_tracks := om_erase t (sv_tracks s)\<rparr>))"

definition Track_Shutdown :: "nat \<Rightarrow> 'p Server \<Rightarrow> 'p Server res" where
  "Track_Shutdown t s =
     rbind (track_at t s) (\<lambda>n.
       if \<not> tn_bound n then dcheck (tn_outputs n = []) (Inr s)
       else rbind (unref_links (tn_outputs n) (put_track t \<lparr>tn_bound = False, tn_outputs = []\<rparr> s)) (RemoveTrack t))"

definition AddOutput :: "nat \<Rightarrow> nat \<Rightarrow> 'p Server \<Rightarrow> 'p Server res" where
  "AddOutput t l s =
     rbind (track_at t s) (\<lambda>n. let (inserted, ls) = set_emplace l (tn_outputs n)
       in dcheck inserted (Inr (put_track t (n\<lparr>tn_outputs := ls\<rparr>) s)))"

definition RemoveOutput :: "nat \<Rightarrow> nat \<Rightarrow> 'p Server \<Rightarrow> 'p Server res" where
  "RemoveOutput t l s =
     rbind (track_at t s) (\<lambda>n. dcheck (l \<in> set (tn_outputs n)) (Inr (put_track t (n\<lparr>tn_outputs := remove1 l (tn_outputs n)\<rparr>) s)))"

fun push_packet :: "'p \<Rightarrow> nat list \<Rightarrow> 'p Server \<Rightarrow> 'p Server res" where
  "push_packet p [] s = Inr s"
| "push_packet p (l # ls) s =
     rbind (link_at l s) (\<lambda>n. push_packet p ls (put_link l (n\<lparr>ln_link := PushToPendingQueue p (ln_link n)\<rparr>) s))"

text \<open>The caller's own reference goes away at the end.\<close>

definition Track_OnPacketReceived :: "nat \<Rightarrow> 'p \<Rightarrow> 'p Server \<Rightarrow> 'p Server res" where
  "Track_OnPacketReceived t p s =
     rbind (track_at t s) (\<lambda>n. rbind (push_packet p (tn_outputs n) s) (drop_packet p))"

text \<open>No output is mixing from the link when it is flushed: \<open>FlushPendingQueue\<close> would wait.\<close>

fun flush_links :: "nat list \<Rightarrow> 'p Server \<Rightarrow> 'p Server res" where
  "flush_links [] s = Inr s"
| "flush_links (l # ls) s =
     rbind (link_at l s) (\<lambda>n. case FlushPendingQueue (ln_link n) of
        None \<Rightarrow> Inl No_return
      | Some link \<Rightarrow> rbind (release_packets (lk_pending (ln_link n)) (put_link l (n\<lparr>ln_link := link\<rparr>) s)) (flush_links ls))"

definition Track_OnFlushRequested :: "nat \<Rightarrow> 'p Server \<Rightarrow> 'p Server res" where
  "Track_OnFlushRequested t s = rbind (track_at t s) (\<lambda>n. flush_links (tn_outputs n) s)"

section \<open>Outputs\<close>

definition BeginShutdown :: "nat \<Rightarrow> 'p Server \<Rightarrow> (bool \<times> 'p Server) res" where
  "BeginShutdown r s =
     rbind (output_node r s) (\<lambda>n.
       if on_shutting_down n then Inr (True, s)
       else Inr (False, put_output_node r (n\<lparr>on_shutting_down := True, on_task_runner := False\<rparr>) s))"

definition ShutdownSelf :: "nat \<Rightarrow> 'p Server \<Rightarrow> 'p Server res" where
  "ShutdownSelf r s =
     rbind (output_node r s) (\<lambda>n.
     rbind (BeginShutdown r s) (\<lambda>(already, s1).
       if already then Inr s1
       else ScheduleMessageLoopTask (FinishShutdownSelf_task (if on_weak_self n then Some r else None)) s1))"

text \<open>\<open>res\<close> is what the \<^verbatim>\<open>Init\<close> of the derived class returns.\<close>

definition AudioOutput_Init :: "MediaResult \<Rightarrow> nat \<Rightarrow> 'p Server \<Rightarrow> (MediaResult \<times> 'p Server) res" where
  "AudioOutput_Init res r s =
     (if res \<noteq> OK then rbind (ShutdownSelf r s) (\<lambda>s1. Inr (res, s1))
      else rbind (output_node r s) (\<lambda>n.
        Inr (OK, put_output_node r (n\<lparr>on_task_runner := True, on_weak_self := True, on_thunks := on_thunks n + 1\<rparr>) s)))"

definition ScheduleCallback :: "nat \<Rightarrow> 'p Server \<Rightarrow> 'p Server res" where
  "ScheduleCallback r s =
     rbind (output_node r s) (\<lambda>n.
       if on_shutting_down n then dcheck (\<not> on_task_runner n) (Inr s)
       else dcheck (on_task_runner n) (Inr (put_output_node r (n\<lparr>on_thunks := on_thunks n + 1\<rparr>) s)))"

text \<open>\<open>init\<close> is what \<^verbatim>\<open>InitializeLink\<close> of the derived class returns.\<close>

definition AddTrackLink :: "MediaResult \<Rightarrow> nat \<Rightarrow> nat \<Rightarrow> 'p Server \<Rightarrow> (MediaResult \<times> 'p Server) res" where
  "AddTrackLink init r l s =
     (if init = OK then
        rbind (link_at l s) (\<lambda>k. rbind (output_node r s) (\<lambda>n.
          dcheck (ln_output k = r)
           (if on_shutting_down n then Inr (SHUTTING_DOWN, s)
            else let (inserted, ls) = set_emplace l (on_links n)
                 in dcheck inserted (Inr (OK, put_output_node r (n\<lparr>on_links := ls\<rparr>) s)))))
      else Inr (init, s))"

definition RemoveTrackLink :: "nat \<Rightarrow> nat \<Rightarrow> 'p Server \<Rightarrow> (MediaResult \<times> 'p Server) res" where
  "RemoveTrackLink r l s =
     rbind (output_node r s) (\<lambda>n.
       if on_shutting_down n then Inr (SHUTTING_DOWN, s)
       else if l \<notin> set (on_links n) then Inr (NOT_FOUND, s)
       else rbind (unref_link l (put_output_node r (n\<lparr>on_links := remove1 l (on_links n)\<rparr>) s)) (\<lambda>s1. Inr (OK, s1)))"

text \<open>
  The loop of \<^verbatim>\<open>Shutdown\<close> over the links. A track that has been shut down and is held by the thread of another
  output has no links left, so its \<^verbatim>\<open>RemoveOutput\<close> fails.
\<close>

fun unlink_tracks :: "nat list \<Rightarrow> 'p Server \<Rightarrow> 'p Server res" where
  "unlink_tracks [] s = Inr s"
| "unlink_tracks (l # ls) s =
     rbind (link_at l s) (\<lambda>k.
       rbind (if ln_track k \<in> om_keys (sv_tracks s) then RemoveOutput (ln_track k) l s
         else if track_alive (ln_track k) s then Inl Dcheck_failed else Inr s) (unlink_tracks ls))"

text \<open>Acquiring the processing lock waits until the callback of the output, if it is running, has ended.\<close>

definition AudioOutput_Shutdown :: "nat \<Rightarrow> 'p Server \<Rightarrow> 'p Server res" where
  "AudioOutput_Shutdown r s =
     rbind (output_node r s) (\<lambda>n.
       if on_shut_down n then Inr s
       else rbind (BeginShutdown r s) (\<lambda>(_, s1).
            rbind (unlink_tracks (on_links n) (let_go r s1)) (\<lambda>s2.
            rbind (output_node r s2) (\<lambda>n2.
            rbind (unref_links (on_links n) (put_output_node r (n2\<lparr>on_links := []\<rparr>) s2)) (\<lambda>s3.
            rbind (output_node r s3) (\<lambda>n3.
              Inr (put_output_node r (n3\<lparr>on_shut_down := True\<rparr>) (s3\<lparr>sv_cleaned := sv_cleaned s3 @ [r]\<rparr>))))))))"

text \<open>The last reference to an output goes away.\<close>

definition destroy_output :: "nat \<Rightarrow> 'p Server \<Rightarrow> 'p Server res" where
  "destroy_output r s =
     rbind (output_node r s) (\<lambda>n.
       dcheck (\<not> on_task_runner n \<and> on_shutting_down n)
         (rbind (unref_links (on_links n) (s\<lparr>sv_outputs := om_erase r (sv_outputs s)\<rparr>)) Inr))"

section \<open>Processing\<close>

text \<open>
  What a processing callback of an output does that others can see: it takes hold of the track of a link
  and lets go of it, it takes the packet
  at the front of a link from the queue, it forgets a link whose track is gone, it
  schedules the next callback or it starts to shut the output down.
\<close>

datatype action = Hold nat | Let_go | Consume nat | Forget nat | Schedule | Stop

definition hold_track :: "nat \<Rightarrow> nat \<Rightarrow> 'p Server \<Rightarrow> 'p Server res" where
  "hold_track r l s =
     rbind (link_at l s) (\<lambda>k. Inr (if track_alive (ln_track k) s then (let_go r s)\<lparr>sv_held := (r, ln_track k) # sv_held (let_go r s)\<rparr> else s))"

definition consume_front :: "nat \<Rightarrow> 'p Server \<Rightarrow> 'p Server res" where
  "consume_front l s =
     rbind (link_at l s) (\<lambda>k.
     rbind (LockPendingQueueFront (ln_link k)) (\<lambda>(_, pkt, link1).
     rbind (UnlockPendingQueueFront pkt True link1) (\<lambda>link2.
       let s1 = put_link l (k\<lparr>ln_link := link2\<rparr>) s
       in case pkt of None \<Rightarrow> Inr s1 | Some p \<Rightarrow> drop_packet p s1)))"

definition forget_link :: "nat \<Rightarrow> nat \<Rightarrow> 'p Server \<Rightarrow> 'p Server res" where
  "forget_link r l s =
     rbind (link_at l s) (\<lambda>k. rbind (output_node r s) (\<lambda>n.
       if track_alive (ln_track k) s then Inr s
       else unref_link l (put_output_node r (n\<lparr>on_links := remove1 l (on_links n)\<rparr>) s)))"

definition run_action :: "nat \<Rightarrow> action \<Rightarrow> 'p Server \<Rightarrow> 'p Server res" where
  "run_action r a s = (case a of Hold l \<Rightarrow> hold_track r l s | Let_go \<Rightarrow> Inr (let_go r s) | Consume l \<Rightarrow> consume_front l s | Forget l \<Rightarrow> forget_link r l s
     | Schedule \<Rightarrow> ScheduleCallback r s | Stop \<Rightarrow> ShutdownSelf r s)"

fun run_actions :: "nat \<Rightarrow> action list \<Rightarrow> 'p Server \<Rightarrow> 'p Server res" where
  "run_actions r [] s = Inr s"
| "run_actions r (a # as) s = rbind (run_action r a s) (run_actions r as)"

definition ProcessThunk :: "action list \<Rightarrow> nat \<Rightarrow> 'p Server \<Rightarrow> 'p Server res" where
  "ProcessThunk as r s =
     (case map_of (sv_outputs s) r of None \<Rightarrow> Inr s
      | Some n \<Rightarrow> if on_shutting_down n then Inr s else run_actions r as s)"

section \<open>The output manager\<close>

text \<open>Each output that cannot be initialised is erased, which destroys it.\<close>

fun init_outputs :: "(nat \<Rightarrow> MediaResult) \<Rightarrow> nat list \<Rightarrow> 'p Server \<Rightarrow> 'p Server res" where
  "init_outputs res [] s = Inr s"
| "init_outputs res (r # rs) s =
     rbind (AudioOutput_Init (res r) r s) (\<lambda>(x, s1).
       rbind (if x \<noteq> OK then destroy_output r s1 else Inr s1) (init_outputs res rs))"

definition AudioOutputManager_Init :: "nat \<Rightarrow> nat option \<Rightarrow> (nat \<Rightarrow> MediaResult) \<Rightarrow> 'p Server \<Rightarrow> 'p Server res" where
  "AudioOutputManager_Init throttle alsa res s =
     (let outputs = om_insert throttle new_Output_node (sv_outputs s);
          outputs = (case alsa of None \<Rightarrow> outputs | Some a \<Rightarrow> om_insert a new_Output_node outputs)
      in init_outputs res (map fst outputs) (s\<lparr>sv_thread_pool := True, sv_outputs := outputs\<rparr>))"

definition ShutdownOutput :: "nat \<Rightarrow> 'p Server \<Rightarrow> 'p Server res" where
  "ShutdownOutput r s = dcheck (sv_thread_pool s)
     (if r \<in> om_keys (sv_outputs s) then rbind (AudioOutput_Shutdown r s) (destroy_output r) else Inr s)"

definition FinishShutdownSelf :: "nat option \<Rightarrow> 'p Server \<Rightarrow> 'p Server res" where
  "FinishShutdownSelf weak_output s =
     (case weak_output of None \<Rightarrow> Inr s
      | Some r \<Rightarrow> if r \<in> om_keys (sv_outputs s) then ShutdownOutput r s else Inr s)"

fun shutdown_outputs :: "nat list \<Rightarrow> 'p Server \<Rightarrow> 'p Server res" where
  "shutdown_outputs [] s = Inr s"
| "shutdown_outputs (r # rs) s = rbind (AudioOutput_Shutdown r s) (shutdown_outputs rs)"

fun destroy_outputs :: "nat list \<Rightarrow> 'p Server \<Rightarrow> 'p Server res" where
  "destroy_outputs [] s = Inr s"
| "destroy_outputs (r # rs) s = rbind (destroy_output r s) (destroy_outputs rs)"

definition AudioOutputManager_Shutdown :: "'p Server \<Rightarrow> 'p Server res" where
  "AudioOutputManager_Shutdown s =
     (if \<not> sv_thread_pool s then dcheck (sv_outputs s = []) (Inr s)
      else rbind (shutdown_outputs (map fst (sv_outputs s)) s) (\<lambda>s1.
           rbind (destroy_outputs (map fst (sv_outputs s1)) s1) (\<lambda>s2. Inr (s2\<lparr>sv_thread_pool := False\<rparr>))))"

text \<open>
  \<open>new_link\<close> gives the number of the link to an output, \<open>init\<close> what \<^verbatim>\<open>InitializeLink\<close> returns
  for it. The link is destroyed at the end of the round if it has not been added.
\<close>

fun select_outputs :: "(nat \<Rightarrow> nat) \<Rightarrow> (nat \<Rightarrow> MediaResult) \<Rightarrow> nat \<Rightarrow> nat list \<Rightarrow> 'p Server \<Rightarrow> 'p Server res" where
  "select_outputs new_link init t [] s = Inr s"
| "select_outputs new_link init t (r # rs) s =
     (let l = new_link r;
          s = s\<lparr>sv_links := om_insert l \<lparr>ln_track = t, ln_output = r, ln_link = Link_new\<rparr> (sv_links s)\<rparr>
      in rbind (AddTrackLink (init r) r l s) (\<lambda>(x, s1).
           rbind (if x = OK then AddOutput t l s1 else Inr s1) (\<lambda>s2.
           rbind (unref_link l s2) (select_outputs new_link init t rs))))"

definition SelectOutputsForTrack :: "(nat \<Rightarrow> nat) \<Rightarrow> (nat \<Rightarrow> MediaResult) \<Rightarrow> nat \<Rightarrow> 'p Server \<Rightarrow> 'p Server res" where
  "SelectOutputsForTrack new_link init t s =
     rbind (track_at t s) (\<lambda>_. select_outputs new_link init t (map fst (sv_outputs s)) s)"

section \<open>The server\<close>

definition Server_Initialize :: "nat \<Rightarrow> nat option \<Rightarrow> (nat \<Rightarrow> MediaResult) \<Rightarrow> 'p Server \<Rightarrow> 'p Server res" where
  "Server_Initialize throttle alsa res s = AudioOutputManager_Init throttle alsa res (s\<lparr>sv_task_runner := True\<rparr>)"

text \<open>The check that the set of tracks gets smaller bounds the loop.\<close>

function shutdown_tracks :: "'p Server \<Rightarrow> 'p Server res" where
  "shutdown_tracks s =
     (case sv_tracks s of [] \<Rightarrow> Inr s
      | (t, _) # _ \<Rightarrow>
          (case Track_Shutdown t s of Inl e \<Rightarrow> Inl e
           | Inr s1 \<Rightarrow> if length (sv_tracks s1) < length (sv_tracks s) then shutdown_tracks s1 else Inl Dcheck_failed))"
  by pat_completeness auto
termination by (relation "measure (\<lambda>s. length (sv_tracks s))") auto

declare shutdown_tracks.simps [simp del]

definition Server_Shutdown :: "'p Server \<Rightarrow> 'p Server res" where
  "Server_Shutdown s =
     rbind (shutdown_tracks (s\<lparr>sv_shutting_down := True\<rparr>)) (\<lambda>s1.
     rbind (AudioOutputManager_Shutdown s1) (\<lambda>s2. Inr (DoPacketCleanup s2)))"

definition Server_delete :: "'p Server \<Rightarrow> 'p Server res" where
  "Server_delete s =
     rbind (Server_Shutdown s) (\<lambda>s1. dcheck (sv_cleanup_queue s1 = [])
       (rbind (AudioOutputManager_Shutdown s1) (\<lambda>s2. dcheck (sv_outputs s2 = []) (dcheck (\<not> sv_thread_pool s2) (Inr s2)))))"

definition run_task :: "task \<Rightarrow> 'p Server \<Rightarrow> 'p Server res" where
  "run_task task s = (case task of DoPacketCleanup_task \<Rightarrow> Inr (DoPacketCleanup s) | FinishShutdownSelf_task w \<Rightarrow> FinishShutdownSelf w s)"

definition run_posted :: "'p Server \<Rightarrow> 'p Server res" where
  "run_posted s = (case sv_posted s of [] \<Rightarrow> Inr s | task # tasks \<Rightarrow> run_task task (s\<lparr>sv_posted := tasks\<rparr>))"

end
