(* ===== verification/Server_Packets.thy ===== *)
theory Server_Packets
  imports Audio_Server "HOL-Library.Sublist"
begin

text \<open>
  How packets go back to their senders. Here a packet is a pair of its track and its number
  among the packets of the track.

  Every queue of a link of a track is a suffix of the packets of the track that have not
  gone back, and one of the queues is all of them (\<open>in_order\<close>). When the reference in a queue
  is dropped, the packet goes back exactly if no other queue has it, which keeps the
  order. \<open>packets_ok\<close> is the invariant; releasing packets, links and sets of links keeps it.
\<close>

section \<open>Order\<close>

definition in_order :: "'p list \<Rightarrow> 'p list \<Rightarrow> 'p list set \<Rightarrow> bool" where
  "in_order rec done QS \<longleftrightarrow> (\<exists>ws. rec = done @ ws \<and> (\<forall>q \<in> QS. suffix q ws) \<and> (ws = [] \<or> ws \<in> QS))"

lemma in_order_drop:
  assumes "in_order rec done (insert (p # ps) R)" "distinct rec"
  shows "in_order rec (if \<exists>q \<in> R. p \<in> set q then done else done @ [p]) (insert ps R)"
proof -
  obtain ws where ws: "rec = done @ ws" and R: "\<forall>q \<in> insert (p # ps) R. suffix q ws" and e: "ws = [] \<or> ws \<in> insert (p # ps) R"
    using assms(1) unfolding in_order_def by blast
  from R have pps: "suffix (p # ps) ws" and R: "\<forall>q \<in> R. suffix q ws" by (blast, blast)
  from pps have p: "p \<in> set ws" by (auto simp: suffix_def)
  with e have e: "ws = p # ps \<or> ws \<in> R" by auto
  have ps: "suffix ps ws" using pps by (rule suffix_ConsD)
  show ?thesis
  proof (cases "\<exists>q \<in> R. p \<in> set q")
    case True
    then obtain q where q: "q \<in> R" "p \<in> set q" by blast
    have "ws \<in> R"
    proof (cases "ws \<in> R")
      case False
      with e have e: "ws = p # ps" by simp
      have "suffix q (p # ps)" using R q(1) e by simp
      moreover have "p \<notin> set ps" using assms(2) ws e by simp
      ultimately have "q = p # ps" using q(2) by (auto simp: suffix_Cons dest: set_mono_suffix)
      with q(1) e show ?thesis by simp
    qed simp
    with True ws R ps show ?thesis unfolding in_order_def by (intro exI [of _ ws]) simp
  next
    case False
    with p have e: "ws = p # ps" using e by blast
    have "suffix q ps" if "q \<in> R" for q
      using bspec [OF R that] bspec [OF False [simplified] that] by (auto simp: e suffix_Cons)
    with False ws e show ?thesis unfolding in_order_def by (intro exI [of _ ps]) simp
  qed
qed

lemma in_order_Nil: "in_order rec done (insert [] R) \<longleftrightarrow> in_order rec done R"
  by (auto simp: in_order_def)

lemma in_order_push:
  assumes "in_order rec done R"
  shows "in_order (rec @ [p]) done (insert [p] ((\<lambda>q. q @ [p]) ` R))"
proof -
  obtain ws where "rec = done @ ws" "\<forall>q \<in> R. suffix q ws" "ws = [] \<or> ws \<in> R" using assms by (auto simp: in_order_def)
  then show ?thesis unfolding in_order_def by (intro exI [of _ "ws @ [p]"]) (auto simp: suffix_def)
qed

lemma in_order_empty: "in_order rec done {} \<longleftrightarrow> rec = done"
  by (auto simp: in_order_def)

section \<open>Packets\<close>

definition track_queues :: "nat \<Rightarrow> 'p Server \<Rightarrow> 'p list set" where
  "track_queues t s = {lk_pending (ln_link k) | l k. map_of (sv_links s) l = Some k \<and> ln_track k = t}"

definition finished :: "nat \<Rightarrow> (nat \<times> nat) Server \<Rightarrow> (nat \<times> nat) list" where
  "finished t s = filter (\<lambda>p. fst p = t) (map fst (sv_returned s) @ sv_cleanup_queue s)"

definition sent_by :: "nat \<Rightarrow> (nat \<Rightarrow> nat) \<Rightarrow> (nat \<times> nat) list" where
  "sent_by t sent = map (Pair t) [0..<sent t]"

text \<open>\<open>ps\<close> are packets of the track \<open>t0\<close> that are about to be released.\<close>

definition with_queue :: "nat \<Rightarrow> 'p list \<Rightarrow> nat \<Rightarrow> 'p list set \<Rightarrow> 'p list set" where
  "with_queue t0 ps t QS = (if t = t0 then insert ps QS else QS)"

definition ordered_with :: "nat \<Rightarrow> (nat \<times> nat) list \<Rightarrow> (nat \<Rightarrow> nat) \<Rightarrow> (nat \<times> nat) Server \<Rightarrow> bool" where
  "ordered_with t0 ps sent s \<longleftrightarrow>
     (\<forall>t. in_order (sent_by t sent) (finished t s) (with_queue t0 ps t (track_queues t s)))"

definition ordered :: "(nat \<Rightarrow> nat) \<Rightarrow> (nat \<times> nat) Server \<Rightarrow> bool" where
  "ordered sent s \<longleftrightarrow> (\<forall>t. in_order (sent_by t sent) (finished t s) (track_queues t s))"

definition own_packets :: "(nat \<times> nat) Server \<Rightarrow> bool" where
  "own_packets s \<longleftrightarrow> (\<forall>l k. map_of (sv_links s) l = Some k \<longrightarrow> (\<forall>p \<in> set (lk_pending (ln_link k)). fst p = ln_track k))"

definition clean_ok :: "'p Server \<Rightarrow> bool" where
  "clean_ok s \<longleftrightarrow> om_wf (sv_tracks s) \<and> om_wf (sv_outputs s) \<and> om_wf (sv_links s) \<and> sv_task_runner s \<and>
     (sv_shutting_down s \<or> (sv_cleanup_queue s \<noteq> [] \<longrightarrow> sv_cleanup_scheduled s) \<and>
       (sv_cleanup_scheduled s \<longrightarrow> DoPacketCleanup_task \<in> set (sv_posted s)))"

definition tidies :: "'p Server \<Rightarrow> 'p Server \<Rightarrow> bool" where
  "tidies s s' \<longleftrightarrow> sv_tracks s' = sv_tracks s \<and> sv_outputs s' = sv_outputs s \<and> sv_thread_pool s' = sv_thread_pool s \<and>
     sv_task_runner s' = sv_task_runner s \<and> sv_shutting_down s' = sv_shutting_down s \<and> sv_cleaned s' = sv_cleaned s \<and>
     sv_returned s' = sv_returned s \<and> sv_held s' = sv_held s \<and> (\<exists>n. sv_posted s' = sv_posted s @ replicate n DoPacketCleanup_task)"

lemma packets_update [simp]:
  "track_queues t (s\<lparr>sv_tracks := a\<rparr>) = track_queues t s" "finished t (s'\<lparr>sv_tracks := a\<rparr>) = finished t s'"
  "track_queues t (s\<lparr>sv_outputs := b\<rparr>) = track_queues t s" "finished t (s'\<lparr>sv_outputs := b\<rparr>) = finished t s'"
  "track_queues t (s\<lparr>sv_result := c\<rparr>) = track_queues t s" "finished t (s'\<lparr>sv_result := d\<rparr>) = finished t s'"
  "track_queues t (s\<lparr>sv_posted := e\<rparr>) = track_queues t s" "finished t (s'\<lparr>sv_posted := e\<rparr>) = finished t s'"
  "track_queues t (s\<lparr>sv_cleaned := f\<rparr>) = track_queues t s" "finished t (s'\<lparr>sv_cleaned := f\<rparr>) = finished t s'"
  "track_queues t (s\<lparr>sv_shutting_down := g\<rparr>) = track_queues t s" "finished t (s'\<lparr>sv_shutting_down := g\<rparr>) = finished t s'"
  "track_queues t (s\<lparr>sv_thread_pool := g\<rparr>) = track_queues t s" "finished t (s'\<lparr>sv_thread_pool := g\<rparr>) = finished t s'"
  "track_queues t (s\<lparr>sv_held := v\<rparr>) = track_queues t s" "finished t (s'\<lparr>sv_held := v\<rparr>) = finished t s'"
  "finished t (s'\<lparr>sv_links := h\<rparr>) = finished t s'"
  by (simp_all add: track_queues_def finished_def)

lemma ordered_update [simp]:
  "ordered sent (s\<lparr>sv_tracks := a\<rparr>) = ordered sent s" "ordered sent (s\<lparr>sv_outputs := b\<rparr>) = ordered sent s"
  "ordered sent (s\<lparr>sv_posted := e\<rparr>) = ordered sent s" "ordered sent (s\<lparr>sv_cleaned := f\<rparr>) = ordered sent s"
  "ordered sent (s\<lparr>sv_shutting_down := g\<rparr>) = ordered sent s" "ordered sent (s\<lparr>sv_thread_pool := g\<rparr>) = ordered sent s"
  "ordered sent (s\<lparr>sv_held := v\<rparr>) = ordered sent s"
  by (simp_all add: ordered_def)

lemma own_packets_update [simp]:
  "own_packets (s\<lparr>sv_tracks := a\<rparr>) = own_packets s" "own_packets (s\<lparr>sv_outputs := b\<rparr>) = own_packets s"
  "own_packets (s\<lparr>sv_posted := e\<rparr>) = own_packets s" "own_packets (s\<lparr>sv_cleaned := f\<rparr>) = own_packets s"
  "own_packets (s\<lparr>sv_shutting_down := g\<rparr>) = own_packets s" "own_packets (s\<lparr>sv_thread_pool := g\<rparr>) = own_packets s"
  "own_packets (s\<lparr>sv_held := v\<rparr>) = own_packets s"
  by (simp_all add: own_packets_def)

lemma tidies_refl: "tidies s s"
  by (simp add: tidies_def)

lemma tidies_trans: "tidies s s1 \<Longrightarrow> tidies s1 s2 \<Longrightarrow> tidies s s2"
  by (auto simp: tidies_def replicate_add [symmetric] intro: exI)

lemma with_queue_Nil: "in_order rec done (with_queue t0 [] t QS) \<longleftrightarrow> in_order rec done QS"
  by (simp add: with_queue_def in_order_Nil)

lemma ordered_with_Nil: "ordered_with t [] sent s \<longleftrightarrow> ordered sent s"
  by (simp add: ordered_with_def ordered_def with_queue_Nil)

lemma distinct_sent_by: "distinct (sent_by t sent)"
  by (simp add: sent_by_def distinct_map inj_on_def)

lemma referenced_iff: "clean_ok s \<Longrightarrow> referenced p s \<longleftrightarrow> (\<exists>t. \<exists>q \<in> track_queues t s. p \<in> set q)"
  unfolding referenced_def clean_ok_def track_queues_def by (simp add: list_ex_om) blast

lemma referenced_own:
  "clean_ok s \<Longrightarrow> own_packets s \<Longrightarrow> referenced p s \<longleftrightarrow> (\<exists>q \<in> track_queues (fst p) s. p \<in> set q)"
  unfolding own_packets_def track_queues_def referenced_iff by simp metis

lemma SchedulePacketCleanup_ok:
  assumes "clean_ok s"
  obtains s' where "SchedulePacketCleanup p s = Inr s'" "tidies s s'" "sv_links s' = sv_links s" "clean_ok s'"
    "sv_cleanup_queue s' = sv_cleanup_queue s @ [p]"
proof (cases "\<not> sv_cleanup_scheduled s \<and> \<not> sv_shutting_down s")
  case True
  show thesis
  proof (rule that)
    show "SchedulePacketCleanup p s = Inr (s\<lparr>sv_cleanup_queue := sv_cleanup_queue s @ [p],
      sv_posted := sv_posted s @ [DoPacketCleanup_task], sv_cleanup_scheduled := True\<rparr>)"
      using assms True by (simp add: SchedulePacketCleanup_def clean_ok_def)
  qed (use assms in \<open>auto simp: tidies_def clean_ok_def intro: exI [of _ 1]\<close>)
next
  case False
  show thesis
  proof (rule that)
    show "SchedulePacketCleanup p s = Inr (s\<lparr>sv_cleanup_queue := sv_cleanup_queue s @ [p]\<rparr>)"
      using False by (auto simp: SchedulePacketCleanup_def)
  qed (use assms False in \<open>auto simp: tidies_def clean_ok_def\<close>)
qed

lemma drop_packet_ok:
  assumes "clean_ok s" "own_packets s" "ordered_with t (p # ps) sent s" "fst p = t"
  obtains s' where "drop_packet p s = Inr s'" "tidies s s'" "sv_links s' = sv_links s" "clean_ok s'" "ordered_with t ps sent s'"
proof -
  have o: "in_order (sent_by u sent) (finished u s) (if u = t then insert (p # ps) (track_queues u s) else track_queues u s)" for u
    using assms(3) unfolding ordered_with_def with_queue_def by blast
  have d: "in_order (sent_by t sent) (if referenced p s then finished t s else finished t s @ [p]) (insert ps (track_queues t s))"
    using in_order_drop [OF _ distinct_sent_by, of t sent "finished t s" p ps "track_queues t s"] o [of t]
      referenced_own [OF assms(1,2), of p] assms(4) by simp
  show thesis
  proof (cases "referenced p s")
    case True
    have "ordered_with t ps sent s" unfolding ordered_with_def with_queue_def using o d True by (metis (full_types))
    with True assms(1) that [OF _ tidies_refl] show thesis by (simp add: drop_packet_def)
  next
    case False
    obtain s' where s': "SchedulePacketCleanup p s = Inr s'" "tidies s s'" "sv_links s' = sv_links s" "clean_ok s'"
      "sv_cleanup_queue s' = sv_cleanup_queue s @ [p]" using SchedulePacketCleanup_ok [OF assms(1)] .
    have q: "track_queues u s' = track_queues u s" for u by (simp add: track_queues_def s'(3))
    have f: "finished u s' = (if u = t then finished u s @ [p] else finished u s)" for u
      using s'(2) assms(4) by (simp add: finished_def s'(5) tidies_def)
    have "in_order (sent_by u sent) (finished u s') (with_queue t ps u (track_queues u s'))" for u
      using o [of u] d False by (cases "u = t") (simp_all add: with_queue_def q f)
    then have "ordered_with t ps sent s'" by (simp add: ordered_with_def)
    with False s' that show thesis by (simp add: drop_packet_def)
  qed
qed

lemma release_packets_ok:
  assumes "clean_ok s" "own_packets s" "ordered_with t ps sent s" "\<forall>p \<in> set ps. fst p = t"
  shows "\<exists>s'. release_packets ps s = Inr s' \<and> tidies s s' \<and> sv_links s' = sv_links s \<and> clean_ok s' \<and> ordered sent s'"
  using assms
proof (induction ps arbitrary: s)
  case Nil
  then show ?case by (simp add: ordered_with_Nil tidies_refl)
next
  case (Cons p ps)
  let ?s = "s\<lparr>sv_result := (sv_result s)(p := SR_FLUSHED)\<rparr>"
  have t: "tidies s ?s" by (simp add: tidies_def)
  have "clean_ok ?s" "own_packets ?s" "ordered_with t (p # ps) sent ?s"
    using Cons.prems by (simp_all add: clean_ok_def own_packets_def ordered_with_def)
  then obtain s1 where s1: "drop_packet p ?s = Inr s1" "tidies ?s s1" "sv_links s1 = sv_links ?s" "clean_ok s1" "ordered_with t ps sent s1"
    using drop_packet_ok Cons.prems(4) by (metis list.set_intros(1))
  have "own_packets s1" using s1(3) Cons.prems(2) by (simp add: own_packets_def)
  then obtain s2 where "release_packets ps s1 = Inr s2" "tidies s1 s2" "sv_links s2 = sv_links s1" "clean_ok s2" "ordered sent s2"
    using Cons.IH [OF s1(4) _ s1(5)] Cons.prems(4) by auto
  with s1 tidies_trans [OF t tidies_trans] show ?case by auto
qed

lemma in_order_mono:
  assumes "in_order rec done A" "A \<subseteq> B" "\<And>q. q \<in> B \<Longrightarrow> \<exists>q' \<in> A. suffix q q'"
  shows "in_order rec done B"
  using assms suffix_order.trans unfolding in_order_def by (metis (no_types, lifting) subsetD)

definition packets_ok :: "(nat \<Rightarrow> nat) \<Rightarrow> (nat \<times> nat) Server \<Rightarrow> bool" where
  "packets_ok sent s \<longleftrightarrow> clean_ok s \<and> own_packets s \<and> ordered sent s"

lemma track_queuesI: "map_of (sv_links s) l = Some k \<Longrightarrow> lk_pending (ln_link k) \<in> track_queues (ln_track k) s"
  by (auto simp: track_queues_def)

lemma link_change:
  assumes "packets_ok sent s" "map_of (sv_links s) l = Some k" "om_wf m"
    and other: "\<And>l'. l' \<noteq> l \<Longrightarrow> map_of m l' = map_of (sv_links s) l'"
    and self: "\<And>k'. map_of m l = Some k' \<Longrightarrow> ln_track k' = ln_track k \<and> suffix (lk_pending (ln_link k')) (lk_pending (ln_link k))"
  shows "ordered_with (ln_track k) (lk_pending (ln_link k)) sent (s\<lparr>sv_links := m\<rparr>) \<and> own_packets (s\<lparr>sv_links := m\<rparr>) \<and> clean_ok (s\<lparr>sv_links := m\<rparr>)"
proof (intro conjI)
  let ?s = "s\<lparr>sv_links := m\<rparr>" and ?q = "lk_pending (ln_link k)"
  have "in_order (sent_by t sent) (finished t ?s) (with_queue (ln_track k) ?q t (track_queues t ?s))" for t
  proof (rule in_order_mono)
    show "in_order (sent_by t sent) (finished t ?s) (track_queues t s)"
      using assms(1) by (simp add: packets_ok_def ordered_def)
    show "track_queues t s \<subseteq> with_queue (ln_track k) ?q t (track_queues t ?s)"
    proof
      fix q assume "q \<in> track_queues t s"
      then obtain l' k' where q: "map_of (sv_links s) l' = Some k'" "ln_track k' = t" "q = lk_pending (ln_link k')"
        by (auto simp: track_queues_def)
      then show "q \<in> with_queue (ln_track k) ?q t (track_queues t ?s)"
        using assms(2) other [of l'] by (cases "l' = l") (auto simp: with_queue_def track_queues_def)
    qed
    fix q assume q: "q \<in> with_queue (ln_track k) ?q t (track_queues t ?s)"
    show "\<exists>q' \<in> track_queues t s. suffix q q'"
    proof (cases "q \<in> track_queues t ?s")
      case True
      then obtain l' k' where q: "map_of m l' = Some k'" "ln_track k' = t" "q = lk_pending (ln_link k')"
        by (auto simp: track_queues_def)
      show ?thesis
      proof (cases "l' = l")
        case True
        with self [of k'] q assms(2) show ?thesis unfolding track_queues_def by (intro bexI [of _ ?q]) auto
      next
        case False
        with other [of l'] q track_queuesI [of s l' k'] show ?thesis by auto
      qed
    next
      case False
      with q have "t = ln_track k" "q = ?q" by (auto simp: with_queue_def split: if_splits)
      with assms(2) show ?thesis unfolding track_queues_def by (intro bexI [of _ ?q]) auto
    qed
  qed
  then show "ordered_with (ln_track k) ?q sent ?s" by (simp add: ordered_with_def)
  have "fst p = ln_track k'" if "map_of m l' = Some k'" "p \<in> set (lk_pending (ln_link k'))" for l' k' p
  proof (cases "l' = l")
    case True
    with self [of k'] that assms(1,2) show ?thesis
      using set_mono_suffix by (fastforce simp: packets_ok_def own_packets_def)
  next
    case False
    with other [of l'] that assms(1) show ?thesis by (auto simp: packets_ok_def own_packets_def)
  qed
  then show "own_packets ?s" by (simp add: own_packets_def)
  show "clean_ok ?s" using assms(1,3) by (simp add: packets_ok_def clean_ok_def)
qed

lemma own_packets_cong: "sv_links s' = sv_links s \<Longrightarrow> own_packets s' = own_packets s"
  by (simp add: own_packets_def)

lemma release_link_ok:
  assumes "packets_ok sent s" "map_of (sv_links s) l = Some k" "om_wf m"
    and "\<And>l'. l' \<noteq> l \<Longrightarrow> map_of m l' = map_of (sv_links s) l'"
    and "\<And>k'. map_of m l = Some k' \<Longrightarrow> ln_track k' = ln_track k \<and> suffix (lk_pending (ln_link k')) (lk_pending (ln_link k))"
  obtains s' where "release_packets (lk_pending (ln_link k)) (s\<lparr>sv_links := m\<rparr>) = Inr s'" "tidies s s'" "sv_links s' = m" "packets_ok sent s'"
proof -
  let ?s = "s\<lparr>sv_links := m\<rparr>"
  have s: "ordered_with (ln_track k) (lk_pending (ln_link k)) sent ?s" "own_packets ?s" "clean_ok ?s" using link_change [OF assms] by auto
  moreover have "\<forall>p \<in> set (lk_pending (ln_link k)). fst p = ln_track k"
    using assms(1,2) by (simp add: packets_ok_def own_packets_def)
  ultimately obtain s' where s': "release_packets (lk_pending (ln_link k)) ?s = Inr s'" "tidies ?s s'" "sv_links s' = sv_links ?s" "clean_ok s'" "ordered sent s'"
    using release_packets_ok by blast
  show thesis
    using that [OF s'(1)] s'(2-) s(2) own_packets_cong [OF s'(3)] by (simp add: tidies_def packets_ok_def)
qed

lemma destroy_link_ok:
  assumes "packets_ok sent s" "map_of (sv_links s) l = Some k"
  obtains s' where "destroy_link l s = Inr s'" "tidies s s'" "map_of (sv_links s') = (map_of (sv_links s))(l := None)" "packets_ok sent s'"
proof -
  have "om_wf (om_erase l (sv_links s))" using assms(1) by (simp add: packets_ok_def clean_ok_def om_erase_wf)
  then obtain s' where "release_packets (lk_pending (ln_link k)) (s\<lparr>sv_links := om_erase l (sv_links s)\<rparr>) = Inr s'" "tidies s s'"
    "sv_links s' = om_erase l (sv_links s)" "packets_ok sent s'"
    using release_link_ok [OF assms] by (metis fun_upd_apply map_of_om_erase option.distinct(1))
  with assms(2) show thesis by (intro that [of s']) (simp_all add: destroy_link_def link_at_def map_of_om_erase)
qed

lemma link_referenced_iff:
  assumes "clean_ok s"
  shows "link_referenced l s \<longleftrightarrow> (\<exists>t n. map_of (sv_tracks s) t = Some n \<and> l \<in> set (tn_outputs n)) \<or>
    (\<exists>r n. map_of (sv_outputs s) r = Some n \<and> l \<in> set (on_links n))"
  using assms by (simp add: link_referenced_def clean_ok_def list_ex_om)

lemma link_referenced_tidies: "tidies s s' \<Longrightarrow> link_referenced l s' \<longleftrightarrow> link_referenced l s"
  by (simp add: tidies_def link_referenced_def)

lemma unref_link_ok:
  assumes "packets_ok sent s" "map_of (sv_links s) l \<noteq> None"
  obtains s' where "unref_link l s = Inr s'" "tidies s s'"
    "map_of (sv_links s') = (if link_referenced l s then map_of (sv_links s) else (map_of (sv_links s))(l := None))" "packets_ok sent s'"
proof (cases "link_referenced l s")
  case True
  with assms(1) show thesis by (intro that [of s]) (simp_all add: unref_link_def tidies_refl)
next
  case False
  with assms(2) destroy_link_ok [OF assms(1)] that show thesis by (auto simp: unref_link_def)
qed

lemma unref_links_ok:
  assumes "packets_ok sent s" "distinct ls" "\<forall>l \<in> set ls. map_of (sv_links s) l \<noteq> None"
  shows "\<exists>s'. unref_links ls s = Inr s' \<and> tidies s s' \<and> packets_ok sent s' \<and>
    (\<forall>l. map_of (sv_links s') l = (if l \<in> set ls \<and> \<not> link_referenced l s then None else map_of (sv_links s) l))"
  using assms
proof (induction ls arbitrary: s)
  case Nil
  then show ?case by (simp add: tidies_refl)
next
  case (Cons l ls)
  then obtain s1 where s1: "unref_link l s = Inr s1" "tidies s s1"
    "map_of (sv_links s1) = (if link_referenced l s then map_of (sv_links s) else (map_of (sv_links s))(l := None))" "packets_ok sent s1"
    using unref_link_ok by (metis list.set_intros(1))
  have "\<forall>l' \<in> set ls. map_of (sv_links s1) l' \<noteq> None" using Cons.prems s1(3) by auto
  with Cons.IH [OF s1(4)] Cons.prems(2) obtain s2 where s2: "unref_links ls s1 = Inr s2" "tidies s1 s2" "packets_ok sent s2"
    "\<forall>l. map_of (sv_links s2) l = (if l \<in> set ls \<and> \<not> link_referenced l s1 then None else map_of (sv_links s1) l)" by auto
  have "map_of (sv_links s2) l' = (if l' \<in> set (l # ls) \<and> \<not> link_referenced l' s then None else map_of (sv_links s) l')" for l'
    using s2(4) s1(3) link_referenced_tidies [OF s1(2)] by auto
  with s1(1,2) s2(1-3) tidies_trans show ?case by auto
qed

end
