(* ===== verification/Server_Connections.thy ===== *)
theory Server_Connections
  imports Server_Packets
begin

text \<open>
  Who refers to whom in the audio server, and that each of its operations keeps it
  (\<open>connected\<close>): the links of a track are live and are links of the track, the links of an output
  are live and are links of the output, a live link is in the set of its output, which
  is live, and in the set of its track if that is live. An output has a task runner
  unless it is shutting down. \<open>server_inv\<close> adds the invariant on packets.
\<close>

lemma filter_neq_remove1: "distinct xs \<Longrightarrow> filter (\<lambda>x. x \<noteq> y) xs = remove1 y xs"
  by (induction xs) (auto simp: filter_id_conv)

section \<open>Who refers to whom\<close>

definition track_ok :: "nat \<Rightarrow> Track_node \<Rightarrow> 'p Server \<Rightarrow> bool" where
  "track_ok t n s \<longleftrightarrow> tn_bound n \<and> distinct (tn_outputs n) \<and>
     (\<forall>l \<in> set (tn_outputs n). \<exists>k. map_of (sv_links s) l = Some k \<and> ln_track k = t)"

definition output_ok :: "nat \<Rightarrow> Output_node \<Rightarrow> 'p Server \<Rightarrow> bool" where
  "output_ok r n s \<longleftrightarrow> distinct (on_links n) \<and> (on_task_runner n \<longleftrightarrow> \<not> on_shutting_down n) \<and> on_weak_self n \<and>
     (on_shut_down n \<longrightarrow> on_shutting_down n \<and> on_links n = []) \<and>
     (\<forall>l \<in> set (on_links n). \<exists>k. map_of (sv_links s) l = Some k \<and> ln_output k = r)"

definition link_ok :: "nat \<Rightarrow> 'p Link_node \<Rightarrow> 'p Server \<Rightarrow> bool" where
  "link_ok l k s \<longleftrightarrow> \<not> lk_flush_lock (ln_link k) \<and>
     (\<exists>n. map_of (sv_outputs s) (ln_output k) = Some n \<and> l \<in> set (on_links n)) \<and>
     (\<forall>n. map_of (sv_tracks s) (ln_track k) = Some n \<longrightarrow> l \<in> set (tn_outputs n))"

definition connected :: "'p Server \<Rightarrow> bool" where
  "connected s \<longleftrightarrow> (\<forall>t n. map_of (sv_tracks s) t = Some n \<longrightarrow> track_ok t n s) \<and>
     (\<forall>r n. map_of (sv_outputs s) r = Some n \<longrightarrow> output_ok r n s) \<and>
     (\<forall>l k. map_of (sv_links s) l = Some k \<longrightarrow> link_ok l k s)"

definition server_inv :: "(nat \<Rightarrow> nat) \<Rightarrow> (nat \<times> nat) Server \<Rightarrow> bool" where
  "server_inv sent s \<longleftrightarrow> packets_ok sent s \<and> connected s \<and> sv_thread_pool s"

lemma server_invD:
  assumes "server_inv sent s"
  shows "packets_ok sent s" "connected s" "sv_thread_pool s" "clean_ok s"
    "map_of (sv_tracks s) t = Some n \<Longrightarrow> track_ok t n s"
    "map_of (sv_outputs s) r = Some m \<Longrightarrow> output_ok r m s"
    "map_of (sv_links s) l = Some k \<Longrightarrow> link_ok l k s"
  using assms by (simp_all add: server_inv_def connected_def packets_ok_def)

lemma connectedI:
  assumes "\<And>t n. map_of (sv_tracks s) t = Some n \<Longrightarrow> track_ok t n s"
    "\<And>r n. map_of (sv_outputs s) r = Some n \<Longrightarrow> output_ok r n s"
    "\<And>l k. map_of (sv_links s) l = Some k \<Longrightarrow> link_ok l k s"
  shows "connected s"
  using assms by (simp add: connected_def)

lemma packets_ok_put [simp]:
  "packets_ok sent s \<Longrightarrow> packets_ok sent (put_track t n s)"
  "packets_ok sent s \<Longrightarrow> packets_ok sent (put_output_node r m s)"
  "packets_ok sent s \<Longrightarrow> packets_ok sent (s\<lparr>sv_tracks := om_erase t (sv_tracks s)\<rparr>)"
  "packets_ok sent s \<Longrightarrow> packets_ok sent (s\<lparr>sv_outputs := om_erase r (sv_outputs s)\<rparr>)"
  "packets_ok sent s \<Longrightarrow> packets_ok sent (s\<lparr>sv_cleaned := x\<rparr>)"
  "packets_ok sent s \<Longrightarrow> packets_ok sent (s\<lparr>sv_posted := sv_posted s @ ts\<rparr>)"
  by (auto simp: packets_ok_def put_track_def put_output_node_def clean_ok_def om_assign_wf om_erase_wf)

lemma put_select [simp]:
  "sv_links (put_track t n s) = sv_links s" "sv_outputs (put_track t n s) = sv_outputs s" "sv_thread_pool (put_track t n s) = sv_thread_pool s"
  "sv_links (put_output_node r m s) = sv_links s" "sv_tracks (put_output_node r m s) = sv_tracks s"
  "sv_thread_pool (put_output_node r m s) = sv_thread_pool s" "sv_posted (put_output_node r m s) = sv_posted s"
  "sv_posted (put_track t n s) = sv_posted s" "sv_shutting_down (put_track t n s) = sv_shutting_down s"
  "sv_shutting_down (put_output_node r m s) = sv_shutting_down s" "sv_cleaned (put_output_node r m s) = sv_cleaned s"
  "sv_cleaned (put_track t n s) = sv_cleaned s"
  "sv_returned (put_output_node r m s) = sv_returned s" "sv_returned (put_track t n s) = sv_returned s"
  "sv_task_runner (put_output_node r m s) = sv_task_runner s" "sv_task_runner (put_track t n s) = sv_task_runner s"
  "sv_held (put_output_node r m s) = sv_held s" "sv_held (put_track t n s) = sv_held s"
  by (simp_all add: put_track_def put_output_node_def)

lemma map_of_put:
  "map_of (sv_tracks s) t \<noteq> None \<Longrightarrow> map_of (sv_tracks (put_track t n s)) = (map_of (sv_tracks s))(t \<mapsto> n)"
  "map_of (sv_outputs s) r \<noteq> None \<Longrightarrow> map_of (sv_outputs (put_output_node r m s)) = (map_of (sv_outputs s))(r \<mapsto> m)"
  by (simp_all add: put_track_def put_output_node_def map_of_om_assign map_of_eq_None_iff)

lemma at_Some:
  "map_of (sv_tracks s) t = Some n \<Longrightarrow> track_at t s = Inr n"
  "map_of (sv_outputs s) r = Some m \<Longrightarrow> output_node r s = Inr m"
  "map_of (sv_links s) l = Some k \<Longrightarrow> link_at l s = Inr k"
  by (simp_all add: track_at_def output_node_def link_at_def)

lemma tidiesD:
  assumes "tidies s s'"
  shows "sv_tracks s' = sv_tracks s" "sv_outputs s' = sv_outputs s" "sv_thread_pool s' = sv_thread_pool s"
    "sv_shutting_down s' = sv_shutting_down s" "sv_cleaned s' = sv_cleaned s" "sv_returned s' = sv_returned s"
    "sv_task_runner s' = sv_task_runner s" "set (sv_posted s) \<subseteq> set (sv_posted s')" "sv_held s' = sv_held s"
  using assms by (auto simp: tidies_def)

lemma server_inv_held [simp]: "server_inv sent (s\<lparr>sv_held := v\<rparr>) = server_inv sent s"
  by (simp add: server_inv_def packets_ok_def clean_ok_def connected_def track_ok_def output_ok_def link_ok_def)

lemma packets_ok_held [simp]: "packets_ok sent (s\<lparr>sv_held := v\<rparr>) = packets_ok sent s"
  by (simp add: packets_ok_def clean_ok_def)

section \<open>Closing a track\<close>

lemma Track_Shutdown_ok:
  assumes inv: "server_inv sent s" and t: "map_of (sv_tracks s) t = Some n"
  obtains s' where "Track_Shutdown t s = Inr s'" "server_inv sent s'" "sv_tracks s' = om_erase t (sv_tracks s)"
    "sv_outputs s' = sv_outputs s" "sv_shutting_down s' = sv_shutting_down s" "set (sv_posted s) \<subseteq> set (sv_posted s')" "sv_held s' = sv_held s"
proof -
  let ?s = "put_track t \<lparr>tn_bound = False, tn_outputs = []\<rparr> s"
  have n: "track_ok t n s" using inv t by (rule server_invD)
  have "map_of (sv_links s) l \<noteq> None" if "l \<in> set (tn_outputs n)" for l using n that by (auto simp: track_ok_def)
  then obtain s1 where s1: "unref_links (tn_outputs n) ?s = Inr s1" "tidies ?s s1" "packets_ok sent s1"
    "\<forall>l. map_of (sv_links s1) l = (if l \<in> set (tn_outputs n) \<and> \<not> link_referenced l ?s then None else map_of (sv_links ?s) l)"
    using unref_links_ok [of sent ?s "tn_outputs n"] server_invD(1) [OF inv] n by (auto simp: track_ok_def)
  have "link_referenced l ?s" if l: "l \<in> set (tn_outputs n)" for l
  proof -
    obtain k where "map_of (sv_links s) l = Some k" using n l by (auto simp: track_ok_def)
    from server_invD(7) [OF inv this] obtain m where "map_of (sv_outputs s) (ln_output k) = Some m" "l \<in> set (on_links m)"
      by (auto simp: link_ok_def)
    moreover have "clean_ok ?s" using packets_ok_put(1) [OF server_invD(1) [OF inv]] by (simp add: packets_ok_def)
    ultimately show ?thesis by (auto simp: link_referenced_iff)
  qed
  with s1(4) have lk: "map_of (sv_links s1) = map_of (sv_links s)" by (intro ext) auto
  let ?s' = "s1\<lparr>sv_tracks := om_erase t (sv_tracks s1)\<rparr>"
  have tr: "sv_tracks ?s' = om_erase t (sv_tracks s)"
    using s1(2) by (simp add: tidies_def put_track_def om_erase_assign)
  show thesis
  proof (rule that [OF _ _ tr])
    have "t \<in> om_keys (sv_tracks s1)" using om_keysI [OF t] by (simp add: tidiesD(1) [OF s1(2)] put_track_def)
    with s1(1) n t show "Track_Shutdown t s = Inr ?s'"
      by (simp add: Track_Shutdown_def at_Some track_ok_def RemoveTrack_def)
    have "connected ?s'"
    proof (rule connectedI)
      fix u m assume "map_of (sv_tracks ?s') u = Some m"
      then have "map_of (sv_tracks s) u = Some m" unfolding tr by (auto simp: map_of_om_erase split: if_splits)
      with server_invD(5) [OF inv] lk show "track_ok u m ?s'" by (simp add: track_ok_def)
    next
      fix r m assume "map_of (sv_outputs ?s') r = Some m"
      with s1(2) server_invD(6) [OF inv] lk show "output_ok r m ?s'" by (simp add: output_ok_def tidies_def)
    next
      fix l k assume "map_of (sv_links ?s') l = Some k"
      with lk server_invD(7) [OF inv, of l k] s1(2) show "link_ok l k ?s'"
        unfolding link_ok_def tr by (auto simp: map_of_om_erase tidies_def)
    qed
    with packets_ok_put(3) [OF s1(3), of t] tidiesD(3) [OF s1(2)] server_invD(3) [OF inv] show "server_inv sent ?s'"
      by (simp add: server_inv_def)
  qed (use tidiesD [OF s1(2)] in simp_all)
qed

section \<open>Shutting an output down\<close>

definition remove_links :: "nat list \<Rightarrow> Track_node \<Rightarrow> Track_node" where
  "remove_links ls n = n\<lparr>tn_outputs := filter (\<lambda>l. l \<notin> set ls) (tn_outputs n)\<rparr>"

lemma remove_links_simps: "remove_links [] n = n" "remove_links ls (remove_links [l] n) = remove_links (l # ls) n"
  by (simp_all add: remove_links_def conj_commute)

text \<open>A link to a track that has been shut down but is held by some thread.\<close>

definition link_to_closed :: "'p Server \<Rightarrow> nat \<Rightarrow> bool" where
  "link_to_closed s l \<longleftrightarrow> (\<exists>k. map_of (sv_links s) l = Some k \<and> ln_track k \<notin> om_keys (sv_tracks s) \<and> track_alive (ln_track k) s)"

lemma unlink_tracks_ok:
  assumes "distinct ls" "om_wf (sv_tracks s)" "\<forall>l \<in> set ls. \<exists>k. map_of (sv_links s) l = Some k \<and>
      (\<forall>n. map_of (sv_tracks s) (ln_track k) = Some n \<longrightarrow> l \<in> set (tn_outputs n) )"
    "\<forall>t n. map_of (sv_tracks s) t = Some n \<longrightarrow> distinct (tn_outputs n) \<and> 
       (\<forall>l \<in> set (tn_outputs n). \<exists>k. map_of (sv_links s) l = Some k \<and> ln_track k = t)"
  shows "if \<exists>l \<in> set ls. link_to_closed s l then unlink_tracks ls s = Inl Dcheck_failed
    else \<exists>m. unlink_tracks ls s = Inr (s\<lparr>sv_tracks := m\<rparr>) \<and> om_wf m \<and>
      (\<forall>t. map_of m t = map_option (remove_links ls) (map_of (sv_tracks s) t))"
  using assms
proof (induction ls arbitrary: s)
  case Nil
  have "map_option (remove_links []) x = x" for x by (cases x) (simp_all add: remove_links_simps)
  with Nil show ?case by (simp, intro exI [of _ "sv_tracks s"]) simp
next
  case (Cons l ls)
  show ?case
  proof (cases "link_to_closed s l")
    case True
    then show ?thesis by (auto simp: link_to_closed_def at_Some)
  next
    case False
    from Cons.prems(3) obtain k where k: "map_of (sv_links s) l = Some k"
      "\<forall>n. map_of (sv_tracks s) (ln_track k) = Some n \<longrightarrow> l \<in> set (tn_outputs n)" by auto
    let ?m = "map_option (remove_links [l]) \<circ> map_of (sv_tracks s)"
    have other: "remove_links [l] u = u" if "map_of (sv_tracks s) t = Some u" "t \<noteq> ln_track k" for t u
    proof -
      have "l \<notin> set (tn_outputs u)" using Cons.prems(4) that k(1) by fastforce
      then have "filter (\<lambda>la. la \<noteq> l) (tn_outputs u) = tn_outputs u" by (auto intro: filter_True)
      then show ?thesis by (simp add: remove_links_def)
    qed
    obtain m1 where m1: "(if ln_track k \<in> om_keys (sv_tracks s) then RemoveOutput (ln_track k) l s
        else if track_alive (ln_track k) s then Inl Dcheck_failed else Inr s) = Inr (s\<lparr>sv_tracks := m1\<rparr>)"
      "om_wf m1" "map_of m1 = ?m"
    proof (cases "map_of (sv_tracks s) (ln_track k)")
      case None
      then have "?m t = map_of (sv_tracks s) t" for t using other [of t]
        by (cases "t = ln_track k"; cases "map_of (sv_tracks s) t") auto
      then show thesis using None Cons.prems(2) False k(1) by (intro that [of "sv_tracks s"]) (auto simp: om_keys_dom fun_eq_iff link_to_closed_def)
    next
      case (Some n)
      let ?n = "n\<lparr>tn_outputs := remove1 l (tn_outputs n)\<rparr>"
      have d: "distinct (tn_outputs n)" "l \<in> set (tn_outputs n)" using Cons.prems(4) Some k(2) by auto
      have "map_of (om_assign (ln_track k) ?n (sv_tracks s)) t = ?m t" for t
      proof (cases "t = ln_track k")
        case True
        with Some d show ?thesis by (simp add: map_of_om_assign om_keysI remove_links_def filter_neq_remove1)
      next
        case False
        with other [of t] show ?thesis by (cases "map_of (sv_tracks s) t") (simp_all add: map_of_om_assign)
      qed
      then show thesis using Some d(2) Cons.prems(2)
        by (intro that [of "om_assign (ln_track k) ?n (sv_tracks s)"])
          (auto simp: RemoveOutput_def at_Some om_keysI put_track_def om_assign_wf)
    qed
    let ?s = "s\<lparr>sv_tracks := m1\<rparr>"
    have keys: "om_keys m1 = om_keys (sv_tracks s)" using m1(3) by (auto simp: om_keys_dom set_eq_iff)
    have closed: "link_to_closed ?s q = link_to_closed s q" for q by (simp add: link_to_closed_def track_alive_def keys)
    have "if \<exists>l \<in> set ls. link_to_closed ?s l then unlink_tracks ls ?s = Inl Dcheck_failed
      else \<exists>m. unlink_tracks ls ?s = Inr (?s\<lparr>sv_tracks := m\<rparr>) \<and> om_wf m \<and>
        (\<forall>t. map_of m t = map_option (remove_links ls) (map_of (sv_tracks ?s) t))"
    proof (rule Cons.IH)
      show "\<forall>l \<in> set ls. \<exists>k. map_of (sv_links ?s) l = Some k \<and>
        (\<forall>n. map_of (sv_tracks ?s) (ln_track k) = Some n \<longrightarrow> l \<in> set (tn_outputs n))"
        using Cons.prems(1,3) by (fastforce simp: m1(3) remove_links_def)
      show "\<forall>t n. map_of (sv_tracks ?s) t = Some n \<longrightarrow> distinct (tn_outputs n) \<and>
         (\<forall>l \<in> set (tn_outputs n). \<exists>k. map_of (sv_links ?s) l = Some k \<and> ln_track k = t)"
        using Cons.prems(4) by (fastforce simp: m1(3) remove_links_def)
    qed (use Cons.prems(1) m1(2) in simp_all)
    moreover have "unlink_tracks (l # ls) s = unlink_tracks ls ?s" using k(1) m1(1) by (simp add: at_Some)
    ultimately show ?thesis using False
      by (auto simp: closed m1(3) option.map_comp o_def remove_links_simps)
  qed
qed

lemma put_output_node_same: "clean_ok s \<Longrightarrow> map_of (sv_outputs s) r = Some n \<Longrightarrow> put_output_node r n s = s"
  by (simp add: put_output_node_def clean_ok_def om_assign_same)

lemma BeginShutdown_ok:
  assumes "clean_ok s" "map_of (sv_outputs s) r = Some n" "output_ok r n s"
  shows "BeginShutdown r s = Inr (on_shutting_down n, put_output_node r (n\<lparr>on_shutting_down := True, on_task_runner := False\<rparr>) s)"
proof (cases "on_shutting_down n")
  case True
  then have "n\<lparr>on_shutting_down := True, on_task_runner := False\<rparr> = n" using assms(3) by (simp add: output_ok_def)
  with True put_output_node_same [OF assms(1,2)] show ?thesis by (simp add: BeginShutdown_def at_Some(2) [OF assms(2)])
next
  case False
  then show ?thesis by (simp add: BeginShutdown_def at_Some(2) [OF assms(2)])
qed

lemma output_links_ok:
  assumes "server_inv sent s" "map_of (sv_outputs s) r = Some n" "l \<in> set (on_links n)"
  obtains k where "map_of (sv_links s) l = Some k" "ln_output k = r" "link_ok l k s"
  using server_invD(6) [OF assms(1,2)] server_invD(7) [OF assms(1)] assms(3) by (auto simp: output_ok_def)

lemma connected_shut_down:
  assumes inv: "server_inv sent s" and r: "map_of (sv_outputs s) r = Some n"
    and T: "\<And>t. map_of (sv_tracks s') t = map_option (remove_links (on_links n)) (map_of (sv_tracks s) t)"
    and O: "map_of (sv_outputs s') = (map_of (sv_outputs s))(r \<mapsto> n')" and n': "output_ok r n' s'"
    and L: "\<And>l. map_of (sv_links s') l = (if l \<in> set (on_links n) then None else map_of (sv_links s) l)"
  shows "connected s'"
proof (rule connectedI)
  fix t u assume "map_of (sv_tracks s') t = Some u"
  then obtain v where v: "map_of (sv_tracks s) t = Some v" "u = remove_links (on_links n) v" by (auto simp: T)
  with server_invD(5) [OF inv v(1)] L show "track_ok t u s'" by (simp add: track_ok_def remove_links_def)
next
  fix q u assume q: "map_of (sv_outputs s') q = Some u"
  show "output_ok q u s'"
  proof (cases "q = r")
    case False
    with q have u: "map_of (sv_outputs s) q = Some u" by (simp add: O)
    have "l \<notin> set (on_links n)" if "l \<in> set (on_links u)" for l
      using output_links_ok [OF inv r] output_links_ok [OF inv u that] False by (metis option.inject)
    with server_invD(6) [OF inv u] L show ?thesis by (simp add: output_ok_def)
  qed (use q n' in \<open>simp add: O\<close>)
next
  fix l k assume "map_of (sv_links s') l = Some k"
  then have l: "map_of (sv_links s) l = Some k" "l \<notin> set (on_links n)" using L by (auto split: if_splits)
  from server_invD(7) [OF inv l(1)] have k: "link_ok l k s" .
  then have "ln_output k \<noteq> r" using r l(2) by (auto simp: link_ok_def)
  with k l(2) show "link_ok l k s'" unfolding link_ok_def O by (auto simp: T remove_links_def)
qed

text \<open>An output has a link to a track that has been shut down and is held by the thread of another output.\<close>

definition closed_track_held :: "nat \<Rightarrow> 'p Server \<Rightarrow> bool" where
  "closed_track_held r s \<longleftrightarrow> (\<exists>n l k q. map_of (sv_outputs s) r = Some n \<and> l \<in> set (on_links n) \<and> map_of (sv_links s) l = Some k \<and>
     ln_track k \<notin> om_keys (sv_tracks s) \<and> q \<noteq> r \<and> (q, ln_track k) \<in> set (sv_held s))"

lemma unlink_output_ok:
  assumes inv: "server_inv sent s" and r: "map_of (sv_outputs s) r = Some n"
  shows "if closed_track_held r s then unlink_tracks (on_links n) (let_go r (put_output_node r n' s)) = Inl Dcheck_failed
    else \<exists>m. unlink_tracks (on_links n) (let_go r (put_output_node r n' s)) = Inr ((let_go r (put_output_node r n' s))\<lparr>sv_tracks := m\<rparr>) \<and> om_wf m \<and>
      (\<forall>t. map_of m t = map_option (remove_links (on_links n)) (map_of (sv_tracks s) t))"
proof -
  let ?s = "let_go r (put_output_node r n' s)"
  have sel: "sv_links ?s = sv_links s" "sv_tracks ?s = sv_tracks s" by (simp_all add: let_go_def)
  have closed: "closed_track_held r s \<longleftrightarrow> (\<exists>l \<in> set (on_links n). link_to_closed ?s l)"
    using r by (auto simp: closed_track_held_def link_to_closed_def track_alive_def let_go_def list_ex_iff)
  have "if \<exists>l \<in> set (on_links n). link_to_closed ?s l then unlink_tracks (on_links n) ?s = Inl Dcheck_failed
    else \<exists>m. unlink_tracks (on_links n) ?s = Inr (?s\<lparr>sv_tracks := m\<rparr>) \<and> om_wf m \<and>
    (\<forall>t. map_of m t = map_option (remove_links (on_links n)) (map_of (sv_tracks ?s) t))"
  proof (rule unlink_tracks_ok)
    show "\<forall>l \<in> set (on_links n). \<exists>k. map_of (sv_links ?s) l = Some k \<and>
      (\<forall>n. map_of (sv_tracks ?s) (ln_track k) = Some n \<longrightarrow> l \<in> set (tn_outputs n))"
      unfolding sel using output_links_ok [OF inv r] by (metis link_ok_def)
    show "\<forall>t n. map_of (sv_tracks ?s) t = Some n \<longrightarrow> distinct (tn_outputs n) \<and>
       (\<forall>l \<in> set (tn_outputs n). \<exists>k. map_of (sv_links ?s) l = Some k \<and> ln_track k = t)"
      unfolding sel using server_invD(5) [OF inv] by (simp add: track_ok_def)
  qed (use server_invD(4,6) [OF inv] r in \<open>auto simp: output_ok_def clean_ok_def sel\<close>)
  then show ?thesis unfolding closed sel .
qed

lemma unref_output_links_ok:
  assumes inv: "server_inv sent s" and r: "map_of (sv_outputs s) r = Some n"
    and s': "packets_ok sent s'" and L: "sv_links s' = sv_links s"
    and T: "\<And>t. map_of (sv_tracks s') t = map_option (remove_links (on_links n)) (map_of (sv_tracks s) t)"
    and O: "map_of (sv_outputs s') = (map_of (sv_outputs s))(r \<mapsto> n'\<lparr>on_links := []\<rparr>)"
  shows "\<exists>s1. unref_links (on_links n) s' = Inr s1 \<and> tidies s' s1 \<and> packets_ok sent s1 \<and>
    (\<forall>l. map_of (sv_links s1) l = (if l \<in> set (on_links n) then None else map_of (sv_links s) l))"
proof -
  have n: "output_ok r n s" using inv r by (rule server_invD)
  have "\<not> link_referenced l s'" if l: "l \<in> set (on_links n)" for l
  proof -
    have "l \<notin> set (on_links u)" if "map_of (sv_outputs s') q = Some u" for q u
    proof (cases "q = r")
      case False
      with that have "map_of (sv_outputs s) q = Some u" by (simp add: O)
      with output_links_ok [OF inv r l] output_links_ok [OF inv this] False show ?thesis by (metis option.inject)
    qed (use that in \<open>auto simp: O\<close>)
    moreover have "l \<notin> set (tn_outputs u)" if "map_of (sv_tracks s') q = Some u" for q u
      using that l by (auto simp: T remove_links_def)
    ultimately show ?thesis using link_referenced_iff [of s' l] s' by (auto simp: packets_ok_def)
  qed
  moreover have "distinct (on_links n)" "\<forall>l \<in> set (on_links n). map_of (sv_links s') l \<noteq> None"
    using n by (auto simp: output_ok_def L)
  ultimately show ?thesis using unref_links_ok [OF s'] unfolding L by (metis (no_types, lifting))
qed

lemma AudioOutput_Shutdown_fails:
  assumes inv: "server_inv sent s" and r: "map_of (sv_outputs s) r = Some n" and c: "closed_track_held r s"
  shows "AudioOutput_Shutdown r s = Inl Dcheck_failed"
proof -
  have n: "output_ok r n s" using inv r by (rule server_invD)
  then have "\<not> on_shut_down n" using c r by (auto simp: output_ok_def closed_track_held_def)
  with BeginShutdown_ok [OF server_invD(4) [OF inv] r n] unlink_output_ok [OF inv r] c show ?thesis
    by (simp add: AudioOutput_Shutdown_def at_Some(2) [OF r])
qed

lemma AudioOutput_Shutdown_ok:
  assumes inv: "server_inv sent s" and r: "map_of (sv_outputs s) r = Some n" and c: "\<not> closed_track_held r s"
  obtains s' n' where "AudioOutput_Shutdown r s = Inr s'" "server_inv sent s'" "map_of (sv_outputs s') = (map_of (sv_outputs s))(r \<mapsto> n')"
    "on_shut_down n'" "map fst (sv_outputs s') = map fst (sv_outputs s)" "sv_shutting_down s' = sv_shutting_down s"
    "set (sv_posted s) \<subseteq> set (sv_posted s')" "\<forall>t. map_of (sv_tracks s') t = None \<longleftrightarrow> map_of (sv_tracks s) t = None"
    "\<not> on_shut_down n \<Longrightarrow> r \<in> set (sv_cleaned s')" "set (sv_held s') \<subseteq> set (sv_held s)"
proof (cases "on_shut_down n")
  case True
  with r inv that [of s n] show thesis by (auto simp: AudioOutput_Shutdown_def at_Some fun_upd_idem)
next
  case False
  define n1 where "n1 = n\<lparr>on_shutting_down := True, on_task_runner := False\<rparr>"
  define s1 where "s1 = let_go r (put_output_node r n1 s)"
  let ?ls = "on_links n"
  have n: "output_ok r n s" using inv r by (rule server_invD)
  have b: "BeginShutdown r s = Inr (on_shutting_down n, put_output_node r n1 s)"
    using BeginShutdown_ok [OF server_invD(4) [OF inv] r n] by (simp add: n1_def)
  have s1: "packets_ok sent s1" using server_invD(1) [OF inv] by (simp add: s1_def let_go_def)
  obtain m where m: "unlink_tracks ?ls s1 = Inr (s1\<lparr>sv_tracks := m\<rparr>)" "om_wf m"
    "\<And>t. map_of m t = map_option (remove_links ?ls) (map_of (sv_tracks s) t)"
    using unlink_output_ok [OF inv r, of n1] c unfolding s1_def by (auto simp only: if_False)
  define s2 where "s2 = s1\<lparr>sv_tracks := m\<rparr>"
  have r2: "map_of (sv_outputs s2) r = Some n1" using r map_of_put(2) [of s r n1] by (simp add: s2_def s1_def let_go_def)
  define s3 where "s3 = put_output_node r (n1\<lparr>on_links := []\<rparr>) s2"
  have s3: "packets_ok sent s3" using s1 m(2) by (auto simp: s3_def s2_def packets_ok_def clean_ok_def put_output_node_def om_assign_wf)
  have o3: "map_of (sv_outputs s3) = (map_of (sv_outputs s))(r \<mapsto> n1\<lparr>on_links := []\<rparr>)"
    using r r2 map_of_put(2) [of s2 r] map_of_put(2) [of s r n1] by (simp add: s3_def) (simp add: s2_def s1_def let_go_def)
  have t3: "map_of (sv_tracks s3) t = map_option (remove_links ?ls) (map_of (sv_tracks s) t)" for t
    using m(3) by (simp add: s3_def s2_def)
  have l3: "sv_links s3 = sv_links s" by (simp add: s3_def s2_def s1_def let_go_def)
  obtain s4 where s4: "unref_links ?ls s3 = Inr s4" "tidies s3 s4" "packets_ok sent s4"
    "\<forall>l. map_of (sv_links s4) l = (if l \<in> set ?ls then None else map_of (sv_links s) l)"
    using unref_output_links_ok [OF inv r s3 l3 t3 o3] by auto
  note t4 = tidiesD [OF s4(2)]
  define n5 where "n5 = n1\<lparr>on_links := [], on_shut_down := True\<rparr>"
  define s5 where "s5 = put_output_node r n5 (s4\<lparr>sv_cleaned := sv_cleaned s4 @ [r]\<rparr>)"
  have o4: "map_of (sv_outputs s4) r = Some (n1\<lparr>on_links := []\<rparr>)" by (simp add: t4 o3)
  have o5: "map_of (sv_outputs s5) = (map_of (sv_outputs s))(r \<mapsto> n5)"
    using map_of_put(2) [of "s4\<lparr>sv_cleaned := sv_cleaned s4 @ [r]\<rparr>" r n5] o4 by (simp add: s5_def t4 o3)
  have run: "AudioOutput_Shutdown r s = Inr s5"
    using False b m(1) s4(1) r2 o4
    by (simp add: AudioOutput_Shutdown_def at_Some(2) [OF r] at_Some(2) [OF o4] at_Some(2) [OF r2] s1_def [symmetric] s2_def [symmetric] s3_def [symmetric] s5_def n5_def)
  have "connected s5"
  proof (rule connected_shut_down [OF inv r _ o5])
    show "output_ok r n5 s5" using n by (simp add: output_ok_def n5_def n1_def)
  qed (use s4(4) in \<open>simp_all add: s5_def t4 t3\<close>)
  moreover have "packets_ok sent s5" using s4(3) by (simp add: s5_def)
  moreover have "sv_thread_pool s5" using server_invD(3) [OF inv] by (simp add: s5_def t4 s3_def s2_def s1_def let_go_def)
  ultimately have inv5: "server_inv sent s5" by (simp add: server_inv_def)
  show thesis
  proof (rule that [OF run inv5 o5])
    show "map fst (sv_outputs s5) = map fst (sv_outputs s)"
      using t4(2) by (simp add: s5_def s3_def s2_def s1_def let_go_def put_output_node_def)
    show "\<forall>t. map_of (sv_tracks s5) t = None \<longleftrightarrow> map_of (sv_tracks s) t = None" using t3 by (simp add: s5_def t4)
  qed (use t4(4,8,9) in \<open>auto simp: n5_def s5_def s3_def s2_def s1_def let_go_def\<close>)
qed

lemma destroy_output_ok:
  assumes inv: "server_inv sent s" and r: "map_of (sv_outputs s) r = Some n" and "on_shut_down n"
  shows "destroy_output r s = Inr (s\<lparr>sv_outputs := om_erase r (sv_outputs s)\<rparr>)"
    "server_inv sent (s\<lparr>sv_outputs := om_erase r (sv_outputs s)\<rparr>)"
proof -
  let ?s = "s\<lparr>sv_outputs := om_erase r (sv_outputs s)\<rparr>"
  have n: "on_links n = []" "on_shutting_down n" "\<not> on_task_runner n"
    using server_invD(6) [OF inv r] assms(3) by (auto simp: output_ok_def)
  with r show "destroy_output r s = Inr ?s" by (simp add: destroy_output_def at_Some)
  have "connected ?s"
  proof (rule connectedI)
    fix l k assume "map_of (sv_links ?s) l = Some k"
    then have k: "link_ok l k s" using server_invD(7) [OF inv] by simp
    then have "ln_output k \<noteq> r" using r n(1) by (auto simp: link_ok_def)
    with k show "link_ok l k ?s" by (simp add: link_ok_def map_of_om_erase)
  qed (use server_invD(5,6) [OF inv] in \<open>auto simp: track_ok_def output_ok_def map_of_om_erase split: if_splits\<close>)
  with server_invD [OF inv] show "server_inv sent ?s" by (simp add: server_inv_def)
qed

lemma ShutdownOutput_ok:
  assumes inv: "server_inv sent s" and r: "map_of (sv_outputs s) r = Some n" and c: "\<not> closed_track_held r s"
  obtains s' where "ShutdownOutput r s = Inr s'" "server_inv sent s'" "map_of (sv_outputs s') = (map_of (sv_outputs s))(r := None)"
    "sv_shutting_down s' = sv_shutting_down s" "set (sv_posted s) \<subseteq> set (sv_posted s')" "\<not> on_shut_down n \<Longrightarrow> r \<in> set (sv_cleaned s')"
proof -
  obtain s1 n1 where s1: "AudioOutput_Shutdown r s = Inr s1" "server_inv sent s1" "map_of (sv_outputs s1) = (map_of (sv_outputs s))(r \<mapsto> n1)"
    "on_shut_down n1" "sv_shutting_down s1 = sv_shutting_down s" "set (sv_posted s) \<subseteq> set (sv_posted s1)" "\<not> on_shut_down n \<longrightarrow> r \<in> set (sv_cleaned s1)"
    using AudioOutput_Shutdown_ok [OF inv r c] by metis
  have r1: "map_of (sv_outputs s1) r = Some n1" by (simp add: s1(3))
  show thesis
  proof (rule that)
    show "ShutdownOutput r s = Inr (s1\<lparr>sv_outputs := om_erase r (sv_outputs s1)\<rparr>)"
      using destroy_output_ok(1) [OF s1(2) r1 s1(4)] s1(1) server_invD(3) [OF inv] om_keysI [OF r] by (simp add: ShutdownOutput_def)
    show "server_inv sent (s1\<lparr>sv_outputs := om_erase r (sv_outputs s1)\<rparr>)" by (rule destroy_output_ok(2) [OF s1(2) r1 s1(4)])
  qed (use s1(3,5,6,7) in \<open>simp_all add: map_of_om_erase\<close>)
qed

section \<open>Processing\<close>

lemma put_link_select [simp]:
  "sv_tracks (put_link l k s) = sv_tracks s" "sv_outputs (put_link l k s) = sv_outputs s" "sv_posted (put_link l k s) = sv_posted s"
  "sv_thread_pool (put_link l k s) = sv_thread_pool s" "sv_shutting_down (put_link l k s) = sv_shutting_down s"
  by (simp_all add: put_link_def)

lemma map_of_put_link: "map_of (sv_links s) l \<noteq> None \<Longrightarrow> map_of (sv_links (put_link l k s)) = (map_of (sv_links s))(l \<mapsto> k)"
  by (simp add: put_link_def map_of_om_assign map_of_eq_None_iff)

text \<open>The queues in the links change.\<close>

lemma connected_relink:
  assumes "connected s" "sv_tracks s' = sv_tracks s" "sv_outputs s' = sv_outputs s"
    and L: "\<And>l. map_of (sv_links s') l = map_option (g l) (map_of (sv_links s) l)"
    and g: "\<And>l k. map_of (sv_links s) l = Some k \<Longrightarrow>
      ln_track (g l k) = ln_track k \<and> ln_output (g l k) = ln_output k \<and> (lk_flush_lock (ln_link (g l k)) \<longrightarrow> lk_flush_lock (ln_link k))"
  shows "connected s'"
proof (rule connectedI)
  fix t n assume "map_of (sv_tracks s') t = Some n"
  with assms(1,2) have n: "track_ok t n s" by (simp add: connected_def)
  with g show "track_ok t n s'" by (fastforce simp: track_ok_def L)
next
  fix r n assume "map_of (sv_outputs s') r = Some n"
  with assms(1,3) have n: "output_ok r n s" by (simp add: connected_def)
  with g show "output_ok r n s'" by (fastforce simp: output_ok_def L)
next
  fix l k' assume "map_of (sv_links s') l = Some k'"
  then obtain k where k: "map_of (sv_links s) l = Some k" "k' = g l k" by (auto simp: L)
  moreover have "link_ok l k s" using assms(1) k(1) by (simp add: connected_def)
  ultimately show "link_ok l k' s'" using g [of l k] by (simp add: link_ok_def assms(2,3))
qed

lemma connected_put_link:
  assumes "connected s" "map_of (sv_links s) l = Some k" "\<not> lk_flush_lock q"
    "sv_tracks s' = sv_tracks s" "sv_outputs s' = sv_outputs s" "map_of (sv_links s') = (map_of (sv_links s))(l \<mapsto> k\<lparr>ln_link := q\<rparr>)"
  shows "connected s'"
  by (rule connected_relink [OF assms(1,4,5), of "\<lambda>l' k'. if l' = l then k\<lparr>ln_link := q\<rparr> else k'"])
    (use assms(2,3,6) in \<open>auto simp: option.map_ident\<close>)

lemma put_link_change:
  assumes "server_inv sent s" "map_of (sv_links s) l = Some k" "suffix (lk_pending q) (lk_pending (ln_link k))"
  shows "ordered_with (ln_track k) (lk_pending (ln_link k)) sent (put_link l (k\<lparr>ln_link := q\<rparr>) s)"
    "own_packets (put_link l (k\<lparr>ln_link := q\<rparr>) s)" "clean_ok (put_link l (k\<lparr>ln_link := q\<rparr>) s)"
proof -
  have "om_wf (om_assign l (k\<lparr>ln_link := q\<rparr>) (sv_links s))" using server_invD(4) [OF assms(1)] by (simp add: clean_ok_def om_assign_wf)
  from link_change [OF server_invD(1) [OF assms(1)] assms(2) this] assms(3) om_keysI [OF assms(2)]
  show "ordered_with (ln_track k) (lk_pending (ln_link k)) sent (put_link l (k\<lparr>ln_link := q\<rparr>) s)"
    "own_packets (put_link l (k\<lparr>ln_link := q\<rparr>) s)" "clean_ok (put_link l (k\<lparr>ln_link := q\<rparr>) s)"
    by (auto simp: put_link_def map_of_om_assign)
qed

lemma consume_front_ok:
  assumes inv: "server_inv sent s" and l: "map_of (sv_links s) l = Some k"
  obtains s' where "consume_front l s = Inr s'" "server_inv sent s'" "sv_outputs s' = sv_outputs s"
    "sv_shutting_down s' = sv_shutting_down s" "set (sv_posted s) \<subseteq> set (sv_posted s')"
proof -
  have u: "\<not> lk_flush_lock (ln_link k)" using server_invD(7) [OF inv l] by (simp add: link_ok_def)
  note con = connected_put_link [OF server_invD(2) [OF inv] l]
  show thesis
  proof (cases "lk_pending (ln_link k)")
    case Nil
    obtain f q1 q2 where q: "LockPendingQueueFront (ln_link k) = Inr (f, None, q1)" "UnlockPendingQueueFront None True q1 = Inr q2"
      "\<not> lk_flush_lock q2" "lk_pending q2 = []" using lk.see_empty [OF u Nil] .
    let ?s = "put_link l (k\<lparr>ln_link := q2\<rparr>) s"
    have "packets_ok sent ?s"
      using put_link_change [OF inv l, of q2] q(4) Nil by (simp add: packets_ok_def ordered_with_Nil)
    with con [OF q(3), of ?s] l server_invD(3) [OF inv] have "server_inv sent ?s" by (simp add: server_inv_def map_of_put_link)
    with q(1,2) l show thesis by (intro that [of ?s]) (simp_all add: consume_front_def at_Some)
  next
    case (Cons p ps)
    obtain f q1 q2 where q: "LockPendingQueueFront (ln_link k) = Inr (f, Some p, q1)" "UnlockPendingQueueFront (Some p) True q1 = Inr q2"
      "\<not> lk_flush_lock q2" "lk_pending q2 = ps" using lk.see_front [OF u Cons] by blast
    let ?s = "put_link l (k\<lparr>ln_link := q2\<rparr>) s"
    have s: "ordered_with (ln_track k) (p # ps) sent ?s" "own_packets ?s" "clean_ok ?s"
      using put_link_change [OF inv l, of q2] q(4) Cons by (simp_all add: suffix_ConsI)
    have "fst p = ln_track k" using server_invD(1) [OF inv] l Cons by (simp add: packets_ok_def own_packets_def)
    then obtain s' where s': "drop_packet p ?s = Inr s'" "tidies ?s s'" "sv_links s' = sv_links ?s" "clean_ok s'" "ordered_with (ln_track k) ps sent s'"
      using drop_packet_ok [OF s(3,2,1)] by blast
    have l': "map_of (sv_links s') = (map_of (sv_links s))(l \<mapsto> k\<lparr>ln_link := q2\<rparr>)" using s'(3) l by (simp add: map_of_put_link)
    have "ps \<in> track_queues (ln_track k) s'" using track_queuesI [of s' l "k\<lparr>ln_link := q2\<rparr>"] q(4) by (simp add: l')
    then have "with_queue (ln_track k) ps t (track_queues t s') = track_queues t s'" for t by (auto simp: with_queue_def)
    with s'(4,5) s(2) own_packets_cong [OF s'(3)] have "packets_ok sent s'" by (simp add: packets_ok_def ordered_with_def ordered_def)
    with con [OF q(3), of s'] l' tidiesD [OF s'(2)] server_invD(3) [OF inv] have "server_inv sent s'" by (simp add: server_inv_def)
    with q(1,2) l s'(1) tidiesD [OF s'(2)] show thesis by (intro that [of s']) (simp_all add: consume_front_def at_Some)
  qed
qed

text \<open>An output that has begun to shut down will be shut down by a posted task.\<close>

definition stops_posted :: "'p Server \<Rightarrow> bool" where
  "stops_posted s \<longleftrightarrow> (\<forall>r n. map_of (sv_outputs s) r = Some n \<longrightarrow>
     \<not> on_shut_down n \<and> (on_shutting_down n \<longrightarrow> FinishShutdownSelf_task (Some r) \<in> set (sv_posted s)))"

lemma stops_posted_mono:
  assumes "stops_posted s" "set (sv_posted s) \<subseteq> set (sv_posted s')"
    "\<And>r n. map_of (sv_outputs s') r = Some n \<Longrightarrow> \<exists>n'. map_of (sv_outputs s) r = Some n' \<and> on_shut_down n = on_shut_down n' \<and>
       (on_shutting_down n \<longrightarrow> on_shutting_down n' \<or> FinishShutdownSelf_task (Some r) \<in> set (sv_posted s'))"
  shows "stops_posted s'"
  using assms unfolding stops_posted_def by (metis subsetD)

lemma forget_link_ok:
  assumes inv: "server_inv sent s" and r: "map_of (sv_outputs s) r = Some n" and l: "l \<in> set (on_links n)"
  obtains s' where "forget_link r l s = Inr s'" "server_inv sent s'" "sv_shutting_down s' = sv_shutting_down s"
    "stops_posted s \<Longrightarrow> stops_posted s'"
proof -
  obtain k where k: "map_of (sv_links s) l = Some k" "ln_output k = r" "link_ok l k s" using output_links_ok [OF inv r l] .
  show thesis
  proof (cases "track_alive (ln_track k) s")
    case True
    with inv k(1) r that [of s] show thesis by (simp add: forget_link_def at_Some)
  next
    case False
    then have None: "map_of (sv_tracks s) (ln_track k) = None" by (simp add: track_alive_def om_keys_dom)
    let ?n = "n\<lparr>on_links := remove1 l (on_links n)\<rparr>"
    let ?s = "put_output_node r ?n s"
    have n: "output_ok r n s" using inv r by (rule server_invD)
    have o: "map_of (sv_outputs ?s) = (map_of (sv_outputs s))(r \<mapsto> ?n)" using r by (simp add: map_of_put)
    have no_out: "l \<notin> set (on_links u)" if "map_of (sv_outputs ?s) q = Some u" for q u
    proof (cases "q = r")
      case False
      with that have "map_of (sv_outputs s) q = Some u" by (simp add: o)
      with output_links_ok [OF inv this, of l] k(1,2) False show ?thesis by force
    qed (use that n in \<open>auto simp: o output_ok_def\<close>)
    have no_track: "l \<notin> set (tn_outputs u)" if "map_of (sv_tracks s) q = Some u" for q u
      using server_invD(5) [OF inv that] that None k(1) by (auto simp: track_ok_def)
    have p: "packets_ok sent ?s" using server_invD(1) [OF inv] by simp
    then have "\<not> link_referenced l ?s" using no_out no_track link_referenced_iff [of ?s l] by (auto simp: packets_ok_def)
    then obtain s' where s': "unref_link l ?s = Inr s'" "tidies ?s s'" "map_of (sv_links s') = (map_of (sv_links s))(l := None)" "packets_ok sent s'"
      using unref_link_ok [OF p, of l] k(1) by auto
    note t = tidiesD [OF s'(2)]
    have "connected s'"
    proof (rule connectedI)
      fix q u assume "map_of (sv_tracks s') q = Some u"
      then have q: "map_of (sv_tracks s) q = Some u" by (simp add: t)
      with server_invD(5) [OF inv q] no_track [OF q] show "track_ok q u s'" by (auto simp: track_ok_def s'(3))
    next
      fix q u assume "map_of (sv_outputs s') q = Some u"
      then have q: "map_of (sv_outputs ?s) q = Some u" by (simp add: t)
      then have "output_ok q u s" using server_invD(6) [OF inv] n
        by (cases "q = r") (auto simp: o output_ok_def dest: in_set_remove1 [THEN iffD1, rotated] notin_set_remove1 intro: set_remove1_subset [THEN subsetD])
      with no_out [OF q] show "output_ok q u s'" by (auto simp: output_ok_def s'(3))
    next
      fix q u assume "map_of (sv_links s') q = Some u"
      then have q: "map_of (sv_links s) q = Some u" "q \<noteq> l" by (auto simp: s'(3) split: if_splits)
      with server_invD(7) [OF inv q(1)] r show "link_ok q u s'" by (auto simp: link_ok_def t o)
    qed
    with s'(4) server_invD(3) [OF inv] have "server_inv sent s'" by (simp add: server_inv_def t)
    moreover have "stops_posted s'" if "stops_posted s"
      using that t(8) r by (intro stops_posted_mono [OF that]) (auto simp: t(2) o split: if_splits)
    ultimately show thesis using False k(1) r s'(1) t
      by (intro that [of s']) (simp_all add: forget_link_def at_Some)
  qed
qed

lemma connected_put_output:
  assumes "connected s" "map_of (sv_outputs s) r = Some n" "output_ok r n' s" "on_links n' = on_links n"
  shows "connected (put_output_node r n' s)"
proof (rule connectedI)
  fix q u assume q: "map_of (sv_outputs (put_output_node r n' s)) q = Some u"
  show "output_ok q u (put_output_node r n' s)"
    using q assms by (cases "q = r") (auto simp: map_of_put connected_def output_ok_def)
next
  fix l k assume "map_of (sv_links (put_output_node r n' s)) l = Some k"
  then have "link_ok l k s" using assms(1) by (simp add: connected_def)
  then show "link_ok l k (put_output_node r n' s)" using assms(2,4) by (auto simp: link_ok_def map_of_put)
qed (use assms(1) in \<open>auto simp: connected_def track_ok_def\<close>)

lemma ScheduleCallback_ok:
  assumes inv: "server_inv sent s" and r: "map_of (sv_outputs s) r = Some n"
  obtains s' where "ScheduleCallback r s = Inr s'" "server_inv sent s'" "sv_shutting_down s' = sv_shutting_down s"
    "stops_posted s \<Longrightarrow> stops_posted s'"
proof (cases "on_shutting_down n")
  case True
  with server_invD(6) [OF inv r] inv r that [of s] show thesis by (simp add: ScheduleCallback_def at_Some output_ok_def)
next
  case False
  let ?n = "n\<lparr>on_thunks := on_thunks n + 1\<rparr>"
  have n: "output_ok r n s" using inv r by (rule server_invD)
  then have "connected (put_output_node r ?n s)"
    by (intro connected_put_output [OF server_invD(2) [OF inv] r]) (simp_all add: output_ok_def)
  with server_invD(1,3) [OF inv] have "server_inv sent (put_output_node r ?n s)" by (simp add: server_inv_def)
  moreover have "stops_posted (put_output_node r ?n s)" if "stops_posted s"
    using that r False by (intro stops_posted_mono [OF that]) (auto simp: map_of_put split: if_splits)
  ultimately show thesis using False n r
    by (intro that [of "put_output_node r ?n s"]) (simp_all add: ScheduleCallback_def at_Some output_ok_def)
qed

lemma ShutdownSelf_ok:
  assumes inv: "server_inv sent s" and r: "map_of (sv_outputs s) r = Some n"
  obtains s' where "ShutdownSelf r s = Inr s'" "server_inv sent s'" "sv_shutting_down s' = sv_shutting_down s"
    "stops_posted s \<Longrightarrow> stops_posted s'"
proof -
  let ?n = "n\<lparr>on_shutting_down := True, on_task_runner := False\<rparr>"
  let ?s = "put_output_node r ?n s"
  have n: "output_ok r n s" using inv r by (rule server_invD)
  have b: "BeginShutdown r s = Inr (on_shutting_down n, ?s)" using BeginShutdown_ok [OF server_invD(4) [OF inv] r n] .
  have "connected ?s" using n by (intro connected_put_output [OF server_invD(2) [OF inv] r]) (auto simp: output_ok_def)
  with server_invD(1,3) [OF inv] have inv': "server_inv sent ?s" by (simp add: server_inv_def)
  show thesis
  proof (cases "on_shutting_down n")
    case True
    have "stops_posted ?s" if "stops_posted s"
      using that r True by (intro stops_posted_mono [OF that]) (auto simp: map_of_put split: if_splits)
    with True b r inv' show thesis by (intro that [of ?s]) (simp_all add: ShutdownSelf_def at_Some)
  next
    case False
    let ?s' = "?s\<lparr>sv_posted := sv_posted s @ [FinishShutdownSelf_task (Some r)]\<rparr>"
    have "connected ?s'" using server_invD(2) [OF inv'] by (simp add: connected_def track_ok_def output_ok_def link_ok_def)
    with inv' packets_ok_put(6) [OF server_invD(1) [OF inv']] have "server_inv sent ?s'" by (simp add: server_inv_def)
    moreover have "stops_posted ?s'" if "stops_posted s"
      using that r by (intro stops_posted_mono [OF that]) (auto simp: map_of_put split: if_splits)
    moreover have "sv_task_runner s" using server_invD(4) [OF inv] by (simp add: clean_ok_def)
    ultimately show thesis using False b r n
      by (intro that [of ?s']) (simp_all add: ShutdownSelf_def at_Some output_ok_def ScheduleMessageLoopTask_def)
  qed
qed

section \<open>Tracks and their links\<close>

lemma CreateTrack_ok:
  assumes inv: "server_inv sent s" and t: "map_of (sv_tracks s) t = None" and "\<And>l k. map_of (sv_links s) l = Some k \<Longrightarrow> ln_track k \<noteq> t"
  shows "server_inv sent (CreateTrack t s)"
proof -
  let ?s = "CreateTrack t s" and ?n = "\<lparr>tn_bound = True, tn_outputs = []\<rparr>"
  have c: "clean_ok s" and nt: "t \<notin> om_keys (sv_tracks s)" using server_invD(4) [OF inv] t by (simp_all add: om_keys_dom)
  then have tr: "map_of (sv_tracks ?s) = (map_of (sv_tracks s))(t \<mapsto> ?n)" by (simp add: CreateTrack_def map_of_om_insert clean_ok_def)
  have sel: "sv_links ?s = sv_links s" "sv_outputs ?s = sv_outputs s" by (simp_all add: CreateTrack_def)
  have "connected ?s"
  proof (rule connectedI)
    fix q u assume q: "map_of (sv_tracks ?s) q = Some u"
    show "track_ok q u ?s"
      using q server_invD(5) [OF inv, of q u] by (cases "q = t") (auto simp: tr track_ok_def sel)
  next
    fix q u assume "map_of (sv_outputs ?s) q = Some u"
    with server_invD(6) [OF inv, of q u] show "output_ok q u ?s" by (simp add: sel output_ok_def)
  next
    fix l k assume "map_of (sv_links ?s) l = Some k"
    with server_invD(7) [OF inv, of l k] assms(3) [of l k] show "link_ok l k ?s" by (simp add: sel link_ok_def tr)
  qed
  moreover have "packets_ok sent ?s"
    using server_invD(1) [OF inv] nt by (auto simp: packets_ok_def CreateTrack_def clean_ok_def om_insert_wf)
  ultimately show ?thesis using server_invD(3) [OF inv] by (simp add: server_inv_def CreateTrack_def)
qed

lemma track_queues_ran: "track_queues t s = (\<lambda>k. lk_pending (ln_link k)) ` {k \<in> ran (map_of (sv_links s)). ln_track k = t}"
  unfolding track_queues_def ran_def by blast

lemma new_link_ok:
  assumes "packets_ok sent s" "l \<notin> om_keys (sv_links s)"
  shows "packets_ok sent (s\<lparr>sv_links := om_insert l \<lparr>ln_track = t, ln_output = r, ln_link = Link_new\<rparr> (sv_links s)\<rparr>)"
proof -
  let ?k = "\<lparr>ln_track = t, ln_output = r, ln_link = Link_new :: (nat \<times> nat) Link\<rparr>"
  let ?s = "s\<lparr>sv_links := om_insert l ?k (sv_links s)\<rparr>"
  have wf: "om_wf (sv_links s)" and l: "map_of (sv_links s) l = None" using assms by (simp_all add: packets_ok_def clean_ok_def map_of_eq_None_iff)
  have m: "map_of (sv_links ?s) = (map_of (sv_links s))(l \<mapsto> ?k)" using wf assms(2) by (simp add: map_of_om_insert)
  have "{k \<in> insert ?k A. ln_track k = u} = (if u = t then insert ?k {k \<in> A. ln_track k = u} else {k \<in> A. ln_track k = u})" for A u by auto
  then have q: "track_queues u ?s = (if u = t then insert [] (track_queues u s) else track_queues u s)" for u
    unfolding track_queues_ran m ran_map_upd [of "map_of (sv_links s)", OF l] by (simp add: Link_new_def)
  have "ordered sent ?s" unfolding ordered_def q using assms(1) by (auto simp: packets_ok_def ordered_def in_order_Nil)
  moreover have "own_packets ?s" using assms(1) unfolding own_packets_def m by (auto simp: packets_ok_def own_packets_def Link_new_def)
  moreover have "clean_ok ?s" using assms wf by (auto simp: packets_ok_def clean_ok_def om_insert_wf)
  ultimately show ?thesis by (simp add: packets_ok_def)
qed

lemma connected_new_link:
  assumes inv: "server_inv sent s" and t: "map_of (sv_tracks s) t = Some n" and r: "map_of (sv_outputs s) r = Some m"
    and l: "map_of (sv_links s) l = None" and "\<not> on_shutting_down m"
    and T: "map_of (sv_tracks s') = (map_of (sv_tracks s))(t \<mapsto> n\<lparr>tn_outputs := insort l (tn_outputs n)\<rparr>)"
    and O: "map_of (sv_outputs s') = (map_of (sv_outputs s))(r \<mapsto> m\<lparr>on_links := insort l (on_links m)\<rparr>)"
    and L: "map_of (sv_links s') = (map_of (sv_links s))(l \<mapsto> \<lparr>ln_track = t, ln_output = r, ln_link = Link_new\<rparr>)"
  shows "connected s'"
proof (rule connectedI)
  fix q u assume q: "map_of (sv_tracks s') q = Some u"
  have old: "track_ok q v s \<Longrightarrow> l \<notin> set (tn_outputs v) \<and> track_ok q v s'" for q v using l by (auto simp: track_ok_def L)
  show "track_ok q u s'"
  proof (cases "q = t")
    case True
    with q server_invD(5) [OF inv t] conjunct1 [OF old [OF server_invD(5) [OF inv t]]] show ?thesis by (auto simp: T track_ok_def L set_insort_key distinct_insort)
  next
    case False
    with q have "map_of (sv_tracks s) q = Some u" by (simp add: T)
    from old [OF server_invD(5) [OF inv this]] show ?thesis ..
  qed
next
  fix q u assume q: "map_of (sv_outputs s') q = Some u"
  have old: "output_ok q v s \<Longrightarrow> l \<notin> set (on_links v) \<and> output_ok q v s'" for q v using l by (auto simp: output_ok_def L)
  show "output_ok q u s'"
  proof (cases "q = r")
    case True
    with q assms(5) server_invD(6) [OF inv r] conjunct1 [OF old [OF server_invD(6) [OF inv r]]] show ?thesis by (auto simp: O output_ok_def L set_insort_key distinct_insort)
  next
    case False
    with q have "map_of (sv_outputs s) q = Some u" by (simp add: O)
    from old [OF server_invD(6) [OF inv this]] show ?thesis ..
  qed
next
  fix q u assume q: "map_of (sv_links s') q = Some u"
  show "link_ok q u s'"
    using q server_invD(7) [OF inv, of q u] t r by (cases "q = l") (auto simp: L link_ok_def T O Link_new_def set_insort_key)
qed

text \<open>One round of \<open>select_outputs\<close>.\<close>

lemma select_round_ok:
  assumes inv: "server_inv sent s" and t: "map_of (sv_tracks s) t \<noteq> None" and r: "map_of (sv_outputs s) r = Some m"
    and l: "l \<notin> om_keys (sv_links s)"
  defines "s0 \<equiv> s\<lparr>sv_links := om_insert l \<lparr>ln_track = t, ln_output = r, ln_link = Link_new\<rparr> (sv_links s)\<rparr>"
  obtains x s1 s2 s' where "AddTrackLink init r l s0 = Inr (x, s1)" "(if x = OK then AddOutput t l s1 else Inr s1) = Inr s2"
    "unref_link l s2 = Inr s'" "server_inv sent s'" "om_keys (sv_links s') \<subseteq> insert l (om_keys (sv_links s))"
    "map_of (sv_tracks s') t \<noteq> None" "sv_posted s' = sv_posted s" "sv_shutting_down s' = sv_shutting_down s"
    "\<forall>q. map_option (\<lambda>n. (on_shutting_down n, on_shut_down n)) (map_of (sv_outputs s') q) = map_option (\<lambda>n. (on_shutting_down n, on_shut_down n)) (map_of (sv_outputs s) q)"
proof -
  let ?k = "\<lparr>ln_track = t, ln_output = r, ln_link = Link_new :: (nat \<times> nat) Link\<rparr>"
  obtain n where n: "map_of (sv_tracks s) t = Some n" using t by blast
  have wf: "om_wf (sv_links s)" using server_invD(4) [OF inv] by (simp add: clean_ok_def)
  have l': "map_of (sv_links s) l = None" using l by (simp add: map_of_eq_None_iff)
  have l0: "map_of (sv_links s0) = (map_of (sv_links s))(l \<mapsto> ?k)" using wf l by (simp add: s0_def map_of_om_insert)
  have p0: "packets_ok sent s0" using new_link_ok [OF server_invD(1) [OF inv] l] by (simp add: s0_def)
  have no_track: "l \<notin> set (tn_outputs u)" if "map_of (sv_tracks s) q = Some u" for q u
    using server_invD(5) [OF inv that] l' by (auto simp: track_ok_def)
  have no_out: "l \<notin> set (on_links u)" if "map_of (sv_outputs s) q = Some u" for q u
    using server_invD(6) [OF inv that] l' by (auto simp: output_ok_def)
  have sel: "map_of (sv_links s0) l = Some ?k" "map_of (sv_outputs s0) r = Some m" "map_of (sv_tracks s0) t = Some n"
    using l0 r n by (simp_all add: s0_def)
  show thesis
  proof (cases "init = OK \<and> \<not> on_shutting_down m")
    case True
    let ?s1 = "put_output_node r (m\<lparr>on_links := insort l (on_links m)\<rparr>) s0"
    let ?s2 = "put_track t (n\<lparr>tn_outputs := insort l (tn_outputs n)\<rparr>) ?s1"
    have T: "map_of (sv_tracks ?s2) = (map_of (sv_tracks s))(t \<mapsto> n\<lparr>tn_outputs := insort l (tn_outputs n)\<rparr>)"
      using sel(3) by (simp add: map_of_put) (simp add: s0_def)
    have O: "map_of (sv_outputs ?s2) = (map_of (sv_outputs s))(r \<mapsto> m\<lparr>on_links := insort l (on_links m)\<rparr>)"
      using sel(2) by (simp add: map_of_put) (simp add: s0_def)
    have "connected ?s2" using connected_new_link [OF inv n r l' _ T O] True l0 by simp
    then have "server_inv sent ?s2" using p0 server_invD(3) [OF inv] by (simp add: server_inv_def s0_def)
    moreover have "AddTrackLink init r l s0 = Inr (OK, ?s1)"
      using True sel no_out [OF r] by (simp add: AddTrackLink_def at_Some set_emplace_def)
    moreover have "AddOutput t l ?s1 = Inr ?s2"
      using sel(3) no_track [OF n] by (simp add: AddOutput_def track_at_def set_emplace_def)
    moreover have c: "clean_ok ?s2" using packets_ok_put(1) [OF packets_ok_put(2) [OF p0]] unfolding packets_ok_def by blast
    moreover have "unref_link l ?s2 = Inr ?s2"
      unfolding unref_link_def link_referenced_iff [OF c] O by (auto simp: set_insort_key)
    moreover have "om_keys (sv_links ?s2) \<subseteq> insert l (om_keys (sv_links s))" using wf l by (simp add: s0_def om_insert_set)
    ultimately show thesis using T O r
      by (intro that [of OK ?s1 ?s2 ?s2]) (simp_all add: s0_def)
  next
    case False
    have x: "\<exists>x. x \<noteq> OK \<and> AddTrackLink init r l s0 = Inr (x, s0)" using False sel by (auto simp: AddTrackLink_def at_Some)
    have "\<not> link_referenced l s0"
      using no_track no_out link_referenced_iff [of s0 l] p0 by (auto simp: packets_ok_def s0_def)
    then have "unref_link l s0 = Inr s"
      using sel(1) om_erase_insert [OF wf l] by (simp add: unref_link_def destroy_link_def at_Some Link_new_def) (simp add: s0_def Link_new_def)
    with x inv n that [of _ s0 s0 s] subset_insertI [of "om_keys (sv_links s)" l] show thesis by (auto simp: s0_def)
  qed
qed

lemma select_outputs_ok:
  assumes "server_inv sent s" "map_of (sv_tracks s) t \<noteq> None" "\<forall>r \<in> set rs. map_of (sv_outputs s) r \<noteq> None"
    "distinct rs" "inj_on new_link (set rs)" "\<forall>r \<in> set rs. new_link r \<notin> om_keys (sv_links s)"
  shows "\<exists>s'. select_outputs new_link init t rs s = Inr s' \<and> server_inv sent s' \<and>
    sv_shutting_down s' = sv_shutting_down s \<and> (stops_posted s \<longrightarrow> stops_posted s')"
  using assms
proof (induction rs arbitrary: s)
  case (Cons r rs)
  let ?l = "new_link r"
  let ?s = "s\<lparr>sv_links := om_insert ?l \<lparr>ln_track = t, ln_output = r, ln_link = Link_new\<rparr> (sv_links s)\<rparr>"
  obtain m where m: "map_of (sv_outputs s) r = Some m" using Cons.prems(3) by auto
  have "?l \<notin> om_keys (sv_links s)" using Cons.prems(6) by simp
  then obtain x s1 s2 s' where s': "AddTrackLink (init r) r ?l ?s = Inr (x, s1)" "(if x = OK then AddOutput t ?l s1 else Inr s1) = Inr s2"
    "unref_link ?l s2 = Inr s'" "server_inv sent s'" "om_keys (sv_links s') \<subseteq> insert ?l (om_keys (sv_links s))"
    "map_of (sv_tracks s') t \<noteq> None" "sv_posted s' = sv_posted s" "sv_shutting_down s' = sv_shutting_down s"
    "\<forall>q. map_option (\<lambda>n. (on_shutting_down n, on_shut_down n)) (map_of (sv_outputs s') q) = map_option (\<lambda>n. (on_shutting_down n, on_shut_down n)) (map_of (sv_outputs s) q)"
    using select_round_ok [OF Cons.prems(1,2) m] by blast
  have "map_of (sv_outputs s') q = None \<longleftrightarrow> map_of (sv_outputs s) q = None" for q
    using spec [OF s'(9), of q] by (cases "map_of (sv_outputs s) q"; cases "map_of (sv_outputs s') q") simp_all
  then have "\<forall>q \<in> set rs. map_of (sv_outputs s') q \<noteq> None" using Cons.prems(3) by simp
  moreover have "\<forall>q \<in> set rs. new_link q \<notin> om_keys (sv_links s')"
  proof
    fix q assume q: "q \<in> set rs"
    then have "q \<noteq> r" using Cons.prems(4) by auto
    then have "new_link q \<noteq> ?l" using inj_onD [OF Cons.prems(5), of q r] q by auto
    moreover have "new_link q \<notin> om_keys (sv_links s)" using Cons.prems(6) q by simp
    ultimately show "new_link q \<notin> om_keys (sv_links s')" using s'(5) by blast
  qed
  ultimately obtain s'' where s'': "select_outputs new_link init t rs s' = Inr s''" "server_inv sent s''"
    "sv_shutting_down s'' = sv_shutting_down s'" "stops_posted s' \<longrightarrow> stops_posted s''"
    using Cons.IH [OF s'(4,6)] Cons.prems(4,5) by auto
  moreover have "stops_posted s'" if "stops_posted s"
  proof (rule stops_posted_mono [OF that])
    fix q u assume "map_of (sv_outputs s') q = Some u"
    with spec [OF s'(9), of q] show "\<exists>v. map_of (sv_outputs s) q = Some v \<and> on_shut_down u = on_shut_down v \<and>
      (on_shutting_down u \<longrightarrow> on_shutting_down v \<or> FinishShutdownSelf_task (Some q) \<in> set (sv_posted s'))"
      by (cases "map_of (sv_outputs s) q") simp_all
  qed (simp add: s'(7))
  ultimately show ?case using s'(1-3,8) by (simp add: Let_def)
qed simp

section \<open>Packets arrive and are flushed\<close>

lemma push_packet_ok:
  assumes "distinct ls" "om_wf (sv_links s)" "\<forall>l \<in> set ls. map_of (sv_links s) l \<noteq> None"
  shows "\<exists>m. push_packet p ls s = Inr (s\<lparr>sv_links := m\<rparr>) \<and> om_wf m \<and>
    (\<forall>l. map_of m l = (if l \<in> set ls then map_option (\<lambda>k. k\<lparr>ln_link := PushToPendingQueue p (ln_link k)\<rparr>) (map_of (sv_links s) l)
       else map_of (sv_links s) l))"
  using assms
proof (induction ls arbitrary: s)
  case Nil
  then show ?case by (intro exI [of _ "sv_links s"]) simp
next
  case (Cons l ls)
  then obtain k where k: "map_of (sv_links s) l = Some k" by auto
  let ?s = "put_link l (k\<lparr>ln_link := PushToPendingQueue p (ln_link k)\<rparr>) s"
  have m: "map_of (sv_links ?s) = (map_of (sv_links s))(l \<mapsto> k\<lparr>ln_link := PushToPendingQueue p (ln_link k)\<rparr>)"
    using k by (simp add: map_of_put_link)
  have wf: "om_wf (sv_links ?s)" using Cons.prems(2) by (simp add: put_link_def om_assign_wf)
  have "\<forall>q \<in> set ls. map_of (sv_links ?s) q \<noteq> None" using Cons.prems(3) by (simp add: m)
  with Cons.IH [OF _ wf] Cons.prems(1) obtain m' where m': "push_packet p ls ?s = Inr (?s\<lparr>sv_links := m'\<rparr>)" "om_wf m'"
    "\<forall>q. map_of m' q = (if q \<in> set ls then map_option (\<lambda>k. k\<lparr>ln_link := PushToPendingQueue p (ln_link k)\<rparr>) (map_of (sv_links ?s) q)
       else map_of (sv_links ?s) q)" by auto
  have "?s\<lparr>sv_links := m'\<rparr> = s\<lparr>sv_links := m'\<rparr>" by (simp add: put_link_def)
  moreover have "map_of m' q = (if q \<in> set (l # ls) then map_option (\<lambda>k. k\<lparr>ln_link := PushToPendingQueue p (ln_link k)\<rparr>) (map_of (sv_links s) q)
       else map_of (sv_links s) q)" for q using m'(3) Cons.prems(1) k by (auto simp: m)
  ultimately show ?case using m'(1,2) k by (intro exI [of _ m']) (simp add: at_Some)
qed

text \<open>What the links are after a packet of the track \<open>t\<close> has been pushed to them.\<close>

definition push_to :: "nat \<Rightarrow> 'p \<Rightarrow> 'p Link_node \<Rightarrow> 'p Link_node" where
  "push_to t p k = (if ln_track k = t then k\<lparr>ln_link := PushToPendingQueue p (ln_link k)\<rparr> else k)"

lemma push_to_simps [simp]:
  "ln_track (push_to t p k) = ln_track k" "ln_output (push_to t p k) = ln_output k"
  "lk_flush_lock (ln_link (push_to t p k)) = lk_flush_lock (ln_link k)"
  "lk_pending (ln_link (push_to t p k)) = (if ln_track k = t then lk_pending (ln_link k) @ [p] else lk_pending (ln_link k))"
  by (simp_all add: push_to_def PushToPendingQueue_def)

lemma pushed_ordered:
  assumes s: "packets_ok sent s" and m: "\<And>l. map_of m l = map_option (push_to t (t, sent t)) (map_of (sv_links s) l)"
  shows "ordered_with t [(t, sent t)] (sent(t := sent t + 1)) (s\<lparr>sv_links := m\<rparr>)"
proof -
  let ?p = "(t, sent t)" and ?s = "s\<lparr>sv_links := m\<rparr>"
  have q: "track_queues u ?s = (if u = t then (\<lambda>q. q @ [?p]) ` track_queues u s else track_queues u s)" for u
  proof -
    have "{k \<in> push_to t ?p ` A. ln_track k = u} = push_to t ?p ` {k \<in> A. ln_track k = u}" for A by auto
    moreover have "ran (map_of m) = push_to t ?p ` ran (map_of (sv_links s))" by (auto simp: ran_def m)
    ultimately show ?thesis by (auto simp: track_queues_ran image_image)
  qed
  have "in_order (sent_by u (sent(t := sent t + 1))) (finished u ?s) (with_queue t [?p] u (track_queues u ?s))" for u
    using in_order_push [of "sent_by u sent" "finished u s" "track_queues u s" ?p] s
    by (cases "u = t") (simp_all add: q with_queue_def sent_by_def packets_ok_def ordered_def)
  then show ?thesis by (simp add: ordered_with_def)
qed

lemma pushed_own:
  assumes "own_packets s" "\<And>l. map_of m l = map_option (push_to t (t, i)) (map_of (sv_links s) l)"
  shows "own_packets (s\<lparr>sv_links := m\<rparr>)"
proof -
  have "fst p = ln_track k" if k: "map_of (sv_links s) l = Some k" and p: "p \<in> set (lk_pending (ln_link (push_to t (t, i) k)))" for l k p
  proof (cases "p \<in> set (lk_pending (ln_link k))")
    case True
    with assms(1) k show ?thesis by (simp add: own_packets_def)
  qed (use p in \<open>auto split: if_splits\<close>)
  then show ?thesis by (fastforce simp: own_packets_def assms(2) simp del: push_to_simps(4))
qed

lemma Track_OnPacketReceived_ok:
  assumes inv: "server_inv sent s" and t: "map_of (sv_tracks s) t = Some n"
  obtains s' where "Track_OnPacketReceived t (t, sent t) s = Inr s'" "server_inv (sent(t := sent t + 1)) s'"
    "sv_shutting_down s' = sv_shutting_down s" "sv_outputs s' = sv_outputs s" "set (sv_posted s) \<subseteq> set (sv_posted s')"
proof -
  let ?p = "(t, sent t)" and ?sent = "sent(t := sent t + 1)"
  have n: "track_ok t n s" using inv t by (rule server_invD)
  have wf: "om_wf (sv_links s)" using server_invD(4) [OF inv] by (simp add: clean_ok_def)
  have "distinct (tn_outputs n)" "\<forall>l \<in> set (tn_outputs n). map_of (sv_links s) l \<noteq> None" using n by (auto simp: track_ok_def)
  from push_packet_ok [OF this(1) wf this(2), of ?p] obtain m where m: "push_packet ?p (tn_outputs n) s = Inr (s\<lparr>sv_links := m\<rparr>)" "om_wf m"
    "\<forall>l. map_of m l = (if l \<in> set (tn_outputs n) then map_option (\<lambda>k. k\<lparr>ln_link := PushToPendingQueue ?p (ln_link k)\<rparr>) (map_of (sv_links s) l)
       else map_of (sv_links s) l)" by blast
  let ?s = "s\<lparr>sv_links := m\<rparr>"
  have mem: "l \<in> set (tn_outputs n) \<longleftrightarrow> ln_track k = t" if "map_of (sv_links s) l = Some k" for l k
    using n server_invD(7) [OF inv that] t that by (auto simp: track_ok_def link_ok_def)
  have mg: "map_of m l = map_option (push_to t ?p) (map_of (sv_links s) l)" for l
    using m(3) mem [of l] by (cases "map_of (sv_links s) l") (simp_all add: push_to_def)
  have o: "ordered_with t [?p] ?sent ?s" using server_invD(1) [OF inv] mg by (rule pushed_ordered)
  have own: "own_packets ?s" using server_invD(1) [OF inv] by (intro pushed_own [OF _ mg]) (simp add: packets_ok_def)
  have c: "clean_ok ?s" using server_invD(4) [OF inv] m(2) by (simp add: clean_ok_def)
  obtain s' where s': "drop_packet ?p ?s = Inr s'" "tidies ?s s'" "sv_links s' = sv_links ?s" "clean_ok s'" "ordered_with t [] ?sent s'"
    using drop_packet_ok [OF c own o] by auto
  have "connected s'"
    by (rule connected_relink [OF server_invD(2) [OF inv], of _ "\<lambda>_. push_to t ?p"]) (simp_all add: tidiesD [OF s'(2)] s'(3) mg)
  moreover have "packets_ok ?sent s'" using s'(4,5) own own_packets_cong [OF s'(3)] by (simp add: packets_ok_def ordered_with_Nil)
  ultimately have "server_inv ?sent s'" using server_invD(3) [OF inv] tidiesD(3) [OF s'(2)] by (simp add: server_inv_def)
  with m(1) s'(1) t tidiesD [OF s'(2)] show thesis by (intro that [of s']) (simp_all add: Track_OnPacketReceived_def at_Some)
qed

lemma release_one_keeps:
  "lk_pending ((release_one ^^ n) x) = lk_pending x \<and> lk_flush_lock ((release_one ^^ n) x) = lk_flush_lock x"
  by (induction n) (simp_all add: release_one_def split: list.split)

lemma FlushPendingQueue_empties:
  assumes "\<not> lk_flush_lock x"
  obtains x' where "FlushPendingQueue x = Some x'" "lk_pending x' = []" "\<not> lk_flush_lock x'"
  using assms by (simp add: FlushPendingQueue_def FlushPendingQueue_swap_def ReleaseQueue_def release_one_keeps)

lemma flush_links_ok:
  assumes "server_inv sent s" "\<forall>l \<in> set ls. map_of (sv_links s) l \<noteq> None"
  shows "\<exists>s'. flush_links ls s = Inr s' \<and> server_inv sent s' \<and> sv_shutting_down s' = sv_shutting_down s \<and>
    sv_outputs s' = sv_outputs s \<and> set (sv_posted s) \<subseteq> set (sv_posted s')"
  using assms
proof (induction ls arbitrary: s)
  case (Cons l ls)
  then obtain k where k: "map_of (sv_links s) l = Some k" by auto
  have "\<not> lk_flush_lock (ln_link k)" using server_invD(7) [OF Cons.prems(1) k] by (simp add: link_ok_def)
  then obtain x where x: "FlushPendingQueue (ln_link k) = Some x" "lk_pending x = []" "\<not> lk_flush_lock x" by (rule FlushPendingQueue_empties)
  let ?m = "om_assign l (k\<lparr>ln_link := x\<rparr>) (sv_links s)"
  have "om_wf ?m" using server_invD(4) [OF Cons.prems(1)] by (simp add: clean_ok_def om_assign_wf)
  moreover have m: "map_of ?m = (map_of (sv_links s))(l \<mapsto> k\<lparr>ln_link := x\<rparr>)" using om_keysI [OF k] by (simp add: map_of_om_assign)
  ultimately obtain s1 where s1: "release_packets (lk_pending (ln_link k)) (s\<lparr>sv_links := ?m\<rparr>) = Inr s1" "tidies s s1" "sv_links s1 = ?m" "packets_ok sent s1"
    using release_link_ok [OF server_invD(1) [OF Cons.prems(1)] k, of ?m] x(2) by auto
  have "connected s1"
    using s1(3) m by (intro connected_put_link [OF server_invD(2) [OF Cons.prems(1)] k x(3)]) (simp_all add: tidiesD [OF s1(2)])
  with s1(4) server_invD(3) [OF Cons.prems(1)] have inv: "server_inv sent s1" by (simp add: server_inv_def tidiesD [OF s1(2)])
  have "\<forall>l' \<in> set ls. map_of (sv_links s1) l' \<noteq> None" using Cons.prems(2) by (simp add: s1(3) m)
  with Cons.IH [OF inv] obtain s2 where "flush_links ls s1 = Inr s2" "server_inv sent s2" "sv_shutting_down s2 = sv_shutting_down s1"
    "sv_outputs s2 = sv_outputs s1" "set (sv_posted s1) \<subseteq> set (sv_posted s2)" by auto
  with k x(1) s1(1) tidiesD [OF s1(2)] show ?case by (auto simp: at_Some put_link_def)
qed simp

end
