(* ===== verification/Server_Run.thy ===== *)
theory Server_Run
  imports Server_Connections
begin

text \<open>
  The audio server from its start to its end: the tasks of the message loop, the
  initialisation, the shutdown, and every run between them in which clients, outputs and the
  message loop do what they can in any order.
\<close>

section \<open>Tasks\<close>

lemma finished_DoPacketCleanup: "finished t (DoPacketCleanup s) = finished t s"
  by (simp add: finished_def DoPacketCleanup_def o_def)

lemma connected_cong:
  assumes "sv_tracks s' = sv_tracks s" "sv_outputs s' = sv_outputs s" "sv_links s' = sv_links s"
  shows "connected s' = connected s"
  by (simp add: connected_def track_ok_def output_ok_def link_ok_def assms)

lemma DoPacketCleanup_ok:
  assumes inv: "server_inv sent s"
  shows "server_inv sent (DoPacketCleanup (s\<lparr>sv_posted := ts\<rparr>))"
proof -
  let ?s = "DoPacketCleanup (s\<lparr>sv_posted := ts\<rparr>)"
  have sel: "sv_tracks ?s = sv_tracks s" "sv_outputs ?s = sv_outputs s" "sv_links ?s = sv_links s" by (simp_all add: DoPacketCleanup_def)
  have "track_queues t ?s = track_queues t s" for t by (simp add: track_queues_def sel)
  then have "ordered sent ?s" using server_invD(1) [OF inv] by (simp add: packets_ok_def ordered_def finished_DoPacketCleanup)
  moreover have "own_packets ?s" using server_invD(1) [OF inv] own_packets_cong [OF sel(3)] by (simp add: packets_ok_def)
  moreover have "clean_ok ?s" using server_invD(4) [OF inv] by (simp add: clean_ok_def DoPacketCleanup_def)
  moreover have "connected ?s" using server_invD(2) [OF inv] connected_cong [OF sel] by simp
  ultimately show ?thesis using server_invD(3) [OF inv] by (simp add: server_inv_def packets_ok_def DoPacketCleanup_def)
qed

text \<open>
  The next task is to finish the shutdown of an output that has a link to a track which has been shut down but is
  held by the thread of another output.
\<close>

definition shutdown_trips :: "'p Server \<Rightarrow> bool" where
  "shutdown_trips s \<longleftrightarrow> (\<exists>r ts. sv_posted s = FinishShutdownSelf_task (Some r) # ts \<and> closed_track_held r s)"

lemma closed_track_held_cong:
  "closed_track_held r (s\<lparr>sv_posted := ts\<rparr>) = closed_track_held r s"
  by (simp add: closed_track_held_def)

lemma FinishShutdownSelf_fails:
  assumes inv: "server_inv sent s" and c: "closed_track_held r s"
  shows "FinishShutdownSelf (Some r) s = Inl Dcheck_failed"
proof -
  obtain n where r: "map_of (sv_outputs s) r = Some n" using c by (auto simp: closed_track_held_def)
  from AudioOutput_Shutdown_fails [OF inv r c] om_keysI [OF r] server_invD(3) [OF inv] show ?thesis
    by (simp add: FinishShutdownSelf_def ShutdownOutput_def)
qed

lemma run_posted_fails:
  assumes inv: "server_inv sent s" and c: "shutdown_trips s"
  shows "run_posted s = Inl Dcheck_failed"
proof -
  obtain r ts where r: "sv_posted s = FinishShutdownSelf_task (Some r) # ts" "closed_track_held r (s\<lparr>sv_posted := ts\<rparr>)"
    using c by (auto simp: shutdown_trips_def closed_track_held_cong)
  have "packets_ok sent (s\<lparr>sv_posted := ts\<rparr>)" using server_invD(1) [OF inv] r(1) by (auto simp: packets_ok_def clean_ok_def)
  then have "server_inv sent (s\<lparr>sv_posted := ts\<rparr>)" using inv connected_cong [of "s\<lparr>sv_posted := ts\<rparr>" s] by (simp add: server_inv_def)
  from FinishShutdownSelf_fails [OF this r(2)] r(1) show ?thesis by (simp add: run_posted_def run_task_def)
qed

lemma run_posted_ok:
  assumes inv: "server_inv sent s" and st: "stops_posted s" and c: "\<not> shutdown_trips s"
  obtains s' where "run_posted s = Inr s'" "server_inv sent s'" "stops_posted s'" "sv_shutting_down s' = sv_shutting_down s"
proof (cases "sv_posted s")
  case Nil
  with inv st that [of s] show thesis by (simp add: run_posted_def)
next
  case (Cons task ts)
  let ?s = "s\<lparr>sv_posted := ts\<rparr>"
  show thesis
  proof (cases task)
    case DoPacketCleanup_task
    have "stops_posted (DoPacketCleanup ?s)" using st Cons DoPacketCleanup_task by (auto simp: stops_posted_def DoPacketCleanup_def)
    with Cons DoPacketCleanup_task DoPacketCleanup_ok [OF inv, of ts] show thesis
      by (intro that [of "DoPacketCleanup ?s"]) (simp_all add: run_posted_def run_task_def DoPacketCleanup_def)
  next
    case (FinishShutdownSelf_task w)
    have "packets_ok sent ?s"
      using server_invD(1) [OF inv] Cons FinishShutdownSelf_task by (auto simp: packets_ok_def clean_ok_def)
    then have inv': "server_inv sent ?s"
      using inv connected_cong [of ?s s] by (simp add: server_inv_def)
    have st': "\<not> on_shut_down n \<and> (on_shutting_down n \<longrightarrow> w = Some r \<or> FinishShutdownSelf_task (Some r) \<in> set ts)"
      if "map_of (sv_outputs s) r = Some n" for r n
      using st that Cons FinishShutdownSelf_task by (auto simp: stops_posted_def)
    show thesis
    proof (cases "\<exists>r n. w = Some r \<and> map_of (sv_outputs s) r = Some n")
      case False
      then have "FinishShutdownSelf w ?s = Inr ?s" by (auto simp: FinishShutdownSelf_def om_keys_dom split: option.split)
      moreover have "stops_posted ?s" using st' False by (fastforce simp: stops_posted_def)
      ultimately show thesis using Cons FinishShutdownSelf_task inv'
        by (intro that [of ?s]) (simp_all add: run_posted_def run_task_def)
    next
      case True
      then obtain r n where r: "w = Some r" "map_of (sv_outputs s) r = Some n" by blast
      obtain s' where s': "ShutdownOutput r ?s = Inr s'" "server_inv sent s'" "map_of (sv_outputs s') = (map_of (sv_outputs ?s))(r := None)"
        "sv_shutting_down s' = sv_shutting_down ?s" "set (sv_posted ?s) \<subseteq> set (sv_posted s')"
        using ShutdownOutput_ok [OF inv', of r n] r c Cons FinishShutdownSelf_task by (auto simp: shutdown_trips_def closed_track_held_cong)
      have "stops_posted s'" using st' s'(3,5) r(1) by (fastforce simp: stops_posted_def split: if_splits)
      with s' Cons FinishShutdownSelf_task r show thesis
        by (intro that [of s']) (simp_all add: run_posted_def run_task_def FinishShutdownSelf_def om_keysI)
    qed
  qed
qed

section \<open>Starting\<close>

definition init_inv :: "nat set \<Rightarrow> (nat \<times> nat) Server \<Rightarrow> bool" where
  "init_inv rs s \<longleftrightarrow> sv_tracks s = [] \<and> sv_links s = [] \<and> om_wf (sv_outputs s) \<and> sv_thread_pool s \<and> sv_task_runner s \<and>
     \<not> sv_shutting_down s \<and> sv_cleanup_queue s = [] \<and> \<not> sv_cleanup_scheduled s \<and> sv_returned s = [] \<and>
     (\<forall>r \<in> rs. map_of (sv_outputs s) r = Some new_Output_node) \<and>
     (\<forall>r n. map_of (sv_outputs s) r = Some n \<longrightarrow> r \<notin> rs \<longrightarrow>
        on_links n = [] \<and> on_task_runner n \<and> on_weak_self n \<and> \<not> on_shutting_down n \<and> \<not> on_shut_down n)"

lemma init_inv_done: "init_inv {} s \<Longrightarrow> server_inv (\<lambda>_. 0) s \<and> stops_posted s \<and> \<not> sv_shutting_down s"
  by (auto simp: init_inv_def server_inv_def packets_ok_def clean_ok_def own_packets_def ordered_def connected_def output_ok_def
    stops_posted_def track_queues_def finished_def sent_by_def in_order_def)

lemma AudioOutput_Init_ok:
  assumes "init_inv (insert r rs) s" "r \<notin> rs"
  shows "\<exists>x s1 s2. AudioOutput_Init res r s = Inr (x, s1) \<and> (if x \<noteq> OK then destroy_output r s1 else Inr s1) = Inr s2 \<and> init_inv rs s2"
proof (cases "res = OK")
  case True
  have r: "map_of (sv_outputs s) r = Some new_Output_node" using assms(1) by (simp add: init_inv_def)
  let ?n = "new_Output_node\<lparr>on_task_runner := True, on_weak_self := True, on_thunks := on_thunks new_Output_node + 1\<rparr>"
  have "init_inv rs (put_output_node r ?n s)" using assms r
    by (auto simp: init_inv_def map_of_put new_Output_node_def put_output_node_def om_assign_wf map_of_om_assign om_keysI split: if_splits)
  with True r show ?thesis by (simp add: AudioOutput_Init_def at_Some)
next
  case False
  have r: "map_of (sv_outputs s) r = Some new_Output_node" using assms(1) by (simp add: init_inv_def)
  let ?n = "new_Output_node\<lparr>on_shutting_down := True, on_task_runner := False\<rparr>"
  let ?s1 = "put_output_node r ?n s\<lparr>sv_posted := sv_posted s @ [FinishShutdownSelf_task None]\<rparr>"
  let ?s2 = "s\<lparr>sv_posted := sv_posted s @ [FinishShutdownSelf_task None], sv_outputs := om_erase r (sv_outputs s)\<rparr>"
  have "sv_task_runner s" using assms(1) by (simp add: init_inv_def)
  then have "ShutdownSelf r s = Inr ?s1"
    using r by (simp add: ShutdownSelf_def BeginShutdown_def at_Some ScheduleMessageLoopTask_def new_Output_node_def)
  moreover have "map_of (sv_outputs ?s1) r = Some ?n" using r map_of_put(2) [of s r ?n] by simp
  then have "destroy_output r ?s1 = Inr ?s2"
    by (simp add: destroy_output_def at_Some new_Output_node_def) (simp add: put_output_node_def om_erase_assign)
  moreover have "init_inv rs ?s2" using assms by (auto simp: init_inv_def om_erase_wf map_of_om_erase split: if_splits)
  ultimately show ?thesis using False by (auto simp: AudioOutput_Init_def)
qed

lemma init_outputs_ok:
  assumes "init_inv (set rs) s" "distinct rs"
  shows "\<exists>s'. init_outputs res rs s = Inr s' \<and> init_inv {} s'"
  using assms
proof (induction rs arbitrary: s)
  case (Cons r rs)
  then obtain x s1 s2 where "AudioOutput_Init (res r) r s = Inr (x, s1)" "(if x \<noteq> OK then destroy_output r s1 else Inr s1) = Inr s2" "init_inv (set rs) s2"
    using AudioOutput_Init_ok [of r "set rs" s "res r"] by auto
  with Cons show ?case by simp
qed simp

lemma Server_Initialize_ok:
  obtains s where "Server_Initialize throttle alsa res new_Server = Inr s" "server_inv (\<lambda>_. 0) s" "stops_posted s" "\<not> sv_shutting_down s"
proof -
  define outs where "outs = (case alsa of None \<Rightarrow> [(throttle, new_Output_node)] | Some a \<Rightarrow> om_insert a new_Output_node [(throttle, new_Output_node)])"
  let ?s = "new_Server\<lparr>sv_task_runner := True, sv_thread_pool := True, sv_outputs := outs\<rparr> :: (nat \<times> nat) Server"
  have wf: "om_wf outs" by (cases alsa) (auto simp: outs_def)
  have "map_of outs r = (if r \<in> om_keys outs then Some new_Output_node else None)" for r by (cases alsa) (auto simp: outs_def)
  then have "init_inv (set (map fst outs)) ?s" using wf by (simp add: init_inv_def new_Server_def)
  then obtain s where "init_outputs res (map fst outs) ?s = Inr s" "init_inv {} s" using init_outputs_ok om_wf_distinct [OF wf] by blast
  then show thesis using init_inv_done that by (simp add: Server_Initialize_def AudioOutputManager_Init_def new_Server_def Let_def outs_def)
qed

section \<open>Shutting the server down\<close>

lemma shutdown_tracks_ok:
  assumes "server_inv sent s"
  shows "\<exists>s'. shutdown_tracks s = Inr s' \<and> server_inv sent s' \<and> sv_tracks s' = [] \<and> sv_shutting_down s' = sv_shutting_down s \<and>
    sv_held s' = sv_held s"
  using assms
proof (induction s rule: shutdown_tracks.induct)
  case (1 s)
  show ?case
  proof (cases "sv_tracks s")
    case Nil
    with 1(2) show ?thesis by (subst shutdown_tracks.simps) simp
  next
    case (Cons x xs)
    obtain t n where x: "x = (t, n)" by (cases x)
    obtain s1 where s1: "Track_Shutdown t s = Inr s1" "server_inv sent s1" "sv_tracks s1 = om_erase t (sv_tracks s)" "sv_shutting_down s1 = sv_shutting_down s"
      "sv_held s1 = sv_held s" using Track_Shutdown_ok [OF 1(2), of t n] Cons x by auto
    have "length (sv_tracks s1) < length (sv_tracks s)"
      using length_filter_le [of "\<lambda>(a, _). a \<noteq> t" xs] by (simp add: s1(3) Cons x om_erase_def less_Suc_eq_le)
    with 1(1) [OF Cons x [symmetric] s1(1) _ s1(2)] s1 Cons x show ?thesis by (subst shutdown_tracks.simps) auto
  qed
qed

lemma not_held: "sv_held s = [] \<Longrightarrow> \<not> closed_track_held r s"
  by (simp add: closed_track_held_def)

lemma shutdown_outputs_ok:
  assumes "server_inv sent s" "\<forall>r \<in> set rs. map_of (sv_outputs s) r \<noteq> None" "sv_held s = []"
  shows "\<exists>s'. shutdown_outputs rs s = Inr s' \<and> server_inv sent s' \<and> map fst (sv_outputs s') = map fst (sv_outputs s) \<and>
    sv_shutting_down s' = sv_shutting_down s \<and> (sv_tracks s = [] \<longrightarrow> sv_tracks s' = []) \<and>
    (\<forall>r n. map_of (sv_outputs s') r = Some n \<longrightarrow> r \<in> set rs \<or> map_option on_shut_down (map_of (sv_outputs s) r) = Some True \<longrightarrow> on_shut_down n)"
  using assms
proof (induction rs arbitrary: s)
  case (Cons r rs)
  then obtain n where n: "map_of (sv_outputs s) r = Some n" by auto
  obtain s1 n1 where s1: "AudioOutput_Shutdown r s = Inr s1" "server_inv sent s1" "map_of (sv_outputs s1) = (map_of (sv_outputs s))(r \<mapsto> n1)"
    "on_shut_down n1" "map fst (sv_outputs s1) = map fst (sv_outputs s)" "sv_shutting_down s1 = sv_shutting_down s"
    "\<forall>t. map_of (sv_tracks s1) t = None \<longleftrightarrow> map_of (sv_tracks s) t = None" "set (sv_held s1) \<subseteq> set (sv_held s)"
    using AudioOutput_Shutdown_ok [OF Cons.prems(1) n] not_held [OF Cons.prems(3), of r] by metis
  have h: "sv_held s1 = []" using s1(8) Cons.prems(3) by simp
  have t: "sv_tracks s1 = []" if "sv_tracks s = []"
  proof -
    have "map_of (sv_tracks s1) q = None" for q using s1(7) that by simp
    then show ?thesis by (rule om_emptyI)
  qed
  have "\<forall>q \<in> set rs. map_of (sv_outputs s1) q \<noteq> None" using Cons.prems(2) by (simp add: s1(3))
  with Cons.IH [OF s1(2) _ h] obtain s2 where s2: "shutdown_outputs rs s1 = Inr s2" "server_inv sent s2" "map fst (sv_outputs s2) = map fst (sv_outputs s1)"
    "sv_shutting_down s2 = sv_shutting_down s1" "sv_tracks s1 = [] \<longrightarrow> sv_tracks s2 = []"
    "\<forall>q n. map_of (sv_outputs s2) q = Some n \<longrightarrow> q \<in> set rs \<or> map_option on_shut_down (map_of (sv_outputs s1) q) = Some True \<longrightarrow> on_shut_down n"
    by auto
  have "on_shut_down u" if "map_of (sv_outputs s2) q = Some u" "q \<in> set (r # rs) \<or> map_option on_shut_down (map_of (sv_outputs s) q) = Some True" for q u
  proof -
    have "q \<in> set rs \<or> map_option on_shut_down (map_of (sv_outputs s1) q) = Some True" using that(2) s1(4) by (auto simp: s1(3))
    with s2(6) that(1) show ?thesis by blast
  qed
  with s1(1,5,6) s2(1-5) t show ?case by auto
qed auto

lemma destroy_outputs_ok:
  assumes "server_inv sent s" "distinct rs" "\<forall>r \<in> set rs. \<exists>n. map_of (sv_outputs s) r = Some n \<and> on_shut_down n"
  shows "\<exists>s'. destroy_outputs rs s = Inr s' \<and> server_inv sent s' \<and> om_keys (sv_outputs s') = om_keys (sv_outputs s) - set rs \<and>
    sv_tracks s' = sv_tracks s \<and> sv_shutting_down s' = sv_shutting_down s"
  using assms
proof (induction rs arbitrary: s)
  case (Cons r rs)
  then obtain n where n: "map_of (sv_outputs s) r = Some n" "on_shut_down n" by auto
  let ?s = "s\<lparr>sv_outputs := om_erase r (sv_outputs s)\<rparr>"
  note d = destroy_output_ok [OF Cons.prems(1) n]
  have "\<forall>q \<in> set rs. \<exists>n. map_of (sv_outputs ?s) q = Some n \<and> on_shut_down n"
    using Cons.prems(2,3) by (auto simp: map_of_om_erase)
  with Cons.IH [OF d(2)] Cons.prems(2) obtain s' where "destroy_outputs rs ?s = Inr s'" "server_inv sent s'"
    "om_keys (sv_outputs s') = om_keys (sv_outputs s) - {r} - set rs" "sv_tracks s' = sv_tracks s" "sv_shutting_down s' = sv_shutting_down s" by auto
  with d(1) show ?case by auto
qed simp

lemma AudioOutputManager_Shutdown_ok:
  assumes inv: "server_inv sent s" and t: "sv_tracks s = []" and h: "sv_held s = []"
  obtains s' where "AudioOutputManager_Shutdown s = Inr (s'\<lparr>sv_thread_pool := False\<rparr>)" "server_inv sent s'" "sv_tracks s' = []"
    "sv_outputs s' = []" "sv_links s' = []" "sv_shutting_down s' = sv_shutting_down s"
proof -
  have wf: "distinct (map fst (sv_outputs s))" using server_invD(4) [OF inv] by (simp add: clean_ok_def om_wf_distinct)
  have "\<forall>r \<in> set (map fst (sv_outputs s)). map_of (sv_outputs s) r \<noteq> None" by (simp add: map_of_eq_None_iff)
  with shutdown_outputs_ok [OF inv _ h] obtain s1 where s1: "shutdown_outputs (map fst (sv_outputs s)) s = Inr s1" "server_inv sent s1"
    "map fst (sv_outputs s1) = map fst (sv_outputs s)" "sv_shutting_down s1 = sv_shutting_down s" "sv_tracks s1 = []"
    "\<forall>r n. map_of (sv_outputs s1) r = Some n \<longrightarrow> r \<in> set (map fst (sv_outputs s)) \<longrightarrow> on_shut_down n" using t by blast
  have "\<exists>n. map_of (sv_outputs s1) r = Some n \<and> on_shut_down n" if "r \<in> set (map fst (sv_outputs s1))" for r
  proof -
    have "set (map fst (sv_outputs s1)) = set (map fst (sv_outputs s))" by (simp only: s1(3))
    with that s1(6) show ?thesis by (cases "map_of (sv_outputs s1) r") (simp_all add: map_of_eq_None_iff)
  qed
  then obtain s2 where s2: "destroy_outputs (map fst (sv_outputs s1)) s1 = Inr s2" "server_inv sent s2"
    "om_keys (sv_outputs s2) = om_keys (sv_outputs s1) - set (map fst (sv_outputs s1))" "sv_tracks s2 = sv_tracks s1" "sv_shutting_down s2 = sv_shutting_down s1"
    using destroy_outputs_ok [OF s1(2)] wf s1(3) by metis
  have o: "sv_outputs s2 = []" using s2(3) by auto
  have "map_of (sv_links s2) l = None" for l using server_invD(7) [OF s2(2), of l] o by (cases "map_of (sv_links s2) l") (auto simp: link_ok_def)
  then have "sv_links s2 = []" by (rule om_emptyI)
  with o s1(1,4,5) s2(1,2,4,5) server_invD(3) [OF inv] show thesis
    by (intro that [of s2]) (simp_all add: AudioOutputManager_Shutdown_def)
qed

lemma Server_Shutdown_ok:
  assumes inv: "server_inv sent s" and h: "sv_held s = []"
  obtains s' where "Server_Shutdown s = Inr s'" "sv_tracks s' = []" "sv_outputs s' = []" "sv_links s' = []" "sv_cleanup_queue s' = []"
    "\<not> sv_thread_pool s'" "sv_shutting_down s'" "\<not> sv_cleanup_scheduled s'"
    "\<And>t. filter (\<lambda>p. fst p = t) (map fst (sv_returned s')) = map (Pair t) [0..<sent t]"
proof -
  let ?s = "s\<lparr>sv_shutting_down := True\<rparr>"
  have "clean_ok ?s" using server_invD(4) [OF inv] by (simp add: clean_ok_def)
  then have "server_inv sent ?s" using inv connected_cong [of ?s s] by (simp add: server_inv_def packets_ok_def)
  then obtain s1 where s1: "shutdown_tracks ?s = Inr s1" "server_inv sent s1" "sv_tracks s1 = []" "sv_shutting_down s1" "sv_held s1 = []"
    using shutdown_tracks_ok h by fastforce
  obtain s2 where s2: "AudioOutputManager_Shutdown s1 = Inr (s2\<lparr>sv_thread_pool := False\<rparr>)" "server_inv sent s2" "sv_tracks s2 = []"
    "sv_outputs s2 = []" "sv_links s2 = []" "sv_shutting_down s2 = sv_shutting_down s1" using AudioOutputManager_Shutdown_ok [OF s1(2,3,5)] .
  have "track_queues t s2 = {}" for t by (simp add: track_queues_def s2(5))
  then have "finished t s2 = sent_by t sent" for t using server_invD(1) [OF s2(2)] by (simp add: packets_ok_def ordered_def in_order_empty)
  with s1(1,4) s2(1,3-6) show thesis
    by (intro that [of "DoPacketCleanup (s2\<lparr>sv_thread_pool := False\<rparr>)"])
      (simp_all add: Server_Shutdown_def DoPacketCleanup_def finished_def sent_by_def o_def)
qed

section \<open>Runs\<close>

text \<open>
  What can happen to a server that is running: clients create tracks, configure them, send
  packets, flush and go away; the message loop runs its next task; a processing callback of
  an output acts on the output. The packets of a track are numbered in the order they are sent.
\<close>

datatype event = New_track nat | Configure_track nat "nat \<Rightarrow> nat" "nat \<Rightarrow> MediaResult" | Send_packet nat | Flush_track nat | Close_track nat
  | Run_task | Mix_action nat action

fun allowed :: "event \<Rightarrow> 'p Server \<Rightarrow> bool" where
  "allowed (New_track t) s \<longleftrightarrow> \<not> track_alive t s \<and> list_all (\<lambda>(_, k). ln_track k \<noteq> t) (sv_links s)"
| "allowed (Configure_track t new_link init) s \<longleftrightarrow> t \<in> om_keys (sv_tracks s) \<and> distinct (map new_link (map fst (sv_outputs s))) \<and>
     list_all (\<lambda>r. new_link r \<notin> om_keys (sv_links s)) (map fst (sv_outputs s))"
| "allowed (Send_packet t) s \<longleftrightarrow> t \<in> om_keys (sv_tracks s)"
| "allowed (Flush_track t) s \<longleftrightarrow> t \<in> om_keys (sv_tracks s)"
| "allowed (Close_track t) s \<longleftrightarrow> t \<in> om_keys (sv_tracks s)"
| "allowed Run_task s \<longleftrightarrow> True"
| "allowed (Mix_action r a) s \<longleftrightarrow> (case map_of (sv_outputs s) r of None \<Rightarrow> False
     | Some n \<Rightarrow> (case a of Hold l \<Rightarrow> l \<in> set (on_links n) | Consume l \<Rightarrow> l \<in> set (on_links n) | Forget l \<Rightarrow> l \<in> set (on_links n) | _ \<Rightarrow> True))"

fun happen :: "event \<Rightarrow> (nat \<Rightarrow> nat) \<Rightarrow> (nat \<times> nat) Server \<Rightarrow> (nat \<times> nat) Server res" where
  "happen (New_track t) sent s = Inr (CreateTrack t s)"
| "happen (Configure_track t new_link init) sent s = SelectOutputsForTrack new_link init t s"
| "happen (Send_packet t) sent s = Track_OnPacketReceived t (t, sent t) s"
| "happen (Flush_track t) sent s = Track_OnFlushRequested t s"
| "happen (Close_track t) sent s = Track_Shutdown t s"
| "happen Run_task sent s = run_posted s"
| "happen (Mix_action r a) sent s = run_action r a s"

fun count_sent :: "event \<Rightarrow> (nat \<Rightarrow> nat) \<Rightarrow> nat \<Rightarrow> nat" where
  "count_sent (Send_packet t) sent = sent(t := sent t + 1)"
| "count_sent _ sent = sent"

inductive served :: "(nat \<Rightarrow> nat) \<Rightarrow> (nat \<times> nat) Server \<Rightarrow> bool" where
  initialised: "Server_Initialize throttle alsa res new_Server = Inr s \<Longrightarrow> served (\<lambda>_. 0) s"
| happened: "served sent s \<Longrightarrow> allowed e s \<Longrightarrow> happen e sent s = Inr s' \<Longrightarrow> served (count_sent e sent) s'"

definition running :: "(nat \<Rightarrow> nat) \<Rightarrow> (nat \<times> nat) Server \<Rightarrow> bool" where
  "running sent s \<longleftrightarrow> server_inv sent s \<and> stops_posted s \<and> \<not> sv_shutting_down s"

lemma run_action_ok:
  assumes "running sent s" "allowed (Mix_action r a) s"
  shows "\<exists>s'. run_action r a s = Inr s' \<and> running sent s'"
proof -
  obtain n where n: "map_of (sv_outputs s) r = Some n" using assms(2) by (cases "map_of (sv_outputs s) r") simp_all
  have inv: "server_inv sent s" "stops_posted s" "\<not> sv_shutting_down s" using assms(1) by (simp_all add: running_def)
  show ?thesis
  proof (cases a)
    case (Hold l)
    with assms(2) n have "l \<in> set (on_links n)" by simp
    then obtain k where k: "map_of (sv_links s) l = Some k" using output_links_ok [OF inv(1) n] by blast
    with inv Hold show ?thesis by (simp add: run_action_def running_def hold_track_def at_Some let_go_def stops_posted_def)
  next
    case Let_go
    with inv show ?thesis by (simp add: run_action_def running_def let_go_def stops_posted_def)
  next
    case (Consume l)
    with assms(2) n have "l \<in> set (on_links n)" by simp
    then obtain k where k: "map_of (sv_links s) l = Some k" using output_links_ok [OF inv(1) n] by blast
    obtain s' where s': "consume_front l s = Inr s'" "server_inv sent s'" "sv_outputs s' = sv_outputs s" "sv_shutting_down s' = sv_shutting_down s"
      "set (sv_posted s) \<subseteq> set (sv_posted s')" using consume_front_ok [OF inv(1) k] .
    have "stops_posted s'" by (rule stops_posted_mono [OF inv(2) s'(5)]) (simp add: s'(3))
    with Consume inv(3) s' show ?thesis by (simp add: run_action_def running_def)
  next
    case (Forget l)
    with assms(2) n have "l \<in> set (on_links n)" by simp
    from forget_link_ok [OF inv(1) n this] inv(2,3) Forget show ?thesis by (auto simp: run_action_def running_def)
  next
    case Schedule
    from ScheduleCallback_ok [OF inv(1) n] inv(2,3) Schedule show ?thesis by (auto simp: run_action_def running_def)
  next
    case Stop
    from ShutdownSelf_ok [OF inv(1) n] inv(2,3) Stop show ?thesis by (auto simp: run_action_def running_def)
  qed
qed

lemma happen_ok:
  assumes "running sent s" "allowed e s" and c: "e = Run_task \<longrightarrow> \<not> shutdown_trips s"
  shows "\<exists>s'. happen e sent s = Inr s' \<and> running (count_sent e sent) s'"
proof -
  have inv: "server_inv sent s" "stops_posted s" "\<not> sv_shutting_down s" using assms(1) by (simp_all add: running_def)
  have track: "\<exists>n. map_of (sv_tracks s) t = Some n" if "t \<in> om_keys (sv_tracks s)" for t using that by (auto simp: om_keys_dom)
  have same: "stops_posted s'" if "sv_outputs s' = sv_outputs s" "set (sv_posted s) \<subseteq> set (sv_posted s')" for s' :: "(nat \<times> nat) Server"
    by (rule stops_posted_mono [OF inv(2) that(2)]) (simp add: that(1))
  show ?thesis
  proof (cases e)
    case (New_track t)
    with assms(2) have "server_inv sent (CreateTrack t s)"
      by (intro CreateTrack_ok [OF inv(1)]) (auto simp: track_alive_def om_keys_dom list_all_iff dest: map_of_SomeD)
    moreover have "stops_posted (CreateTrack t s)" by (rule same) (simp_all add: CreateTrack_def)
    ultimately show ?thesis using New_track inv(3) by (simp add: running_def CreateTrack_def)
  next
    case (Configure_track t new_link init)
    obtain n where n: "map_of (sv_tracks s) t = Some n" using track assms(2) Configure_track by auto
    have "distinct (map fst (sv_outputs s))" using server_invD(4) [OF inv(1)] by (simp add: clean_ok_def om_wf_distinct)
    moreover have "inj_on new_link (set (map fst (sv_outputs s)))" using assms(2) Configure_track by (simp only: allowed.simps distinct_map [of new_link])
    ultimately have "\<exists>s'. select_outputs new_link init t (map fst (sv_outputs s)) s = Inr s' \<and> server_inv sent s' \<and>
      sv_shutting_down s' = sv_shutting_down s \<and> (stops_posted s \<longrightarrow> stops_posted s')"
      using assms(2) Configure_track n
      by (intro select_outputs_ok [OF inv(1)]) (simp_all add: map_of_eq_None_iff list_all_iff)
    with inv(2,3) n Configure_track show ?thesis by (auto simp: running_def SelectOutputsForTrack_def at_Some)
  next
    case (Send_packet t)
    obtain n where n: "map_of (sv_tracks s) t = Some n" using track assms(2) Send_packet by auto
    obtain s' where "Track_OnPacketReceived t (t, sent t) s = Inr s'" "server_inv (sent(t := sent t + 1)) s'" "sv_shutting_down s' = sv_shutting_down s"
      "sv_outputs s' = sv_outputs s" "set (sv_posted s) \<subseteq> set (sv_posted s')" using Track_OnPacketReceived_ok [OF inv(1) n] .
    with inv(3) same [of s'] Send_packet show ?thesis by (simp add: running_def)
  next
    case (Flush_track t)
    obtain n where n: "map_of (sv_tracks s) t = Some n" using track assms(2) Flush_track by auto
    have "\<forall>l \<in> set (tn_outputs n). map_of (sv_links s) l \<noteq> None" using server_invD(5) [OF inv(1) n] by (auto simp: track_ok_def)
    from flush_links_ok [OF inv(1) this] inv(3) same n Flush_track show ?thesis by (auto simp: running_def Track_OnFlushRequested_def at_Some)
  next
    case (Close_track t)
    obtain n where n: "map_of (sv_tracks s) t = Some n" using track assms(2) Close_track by auto
    obtain s' where "Track_Shutdown t s = Inr s'" "server_inv sent s'" "sv_shutting_down s' = sv_shutting_down s"
      "sv_outputs s' = sv_outputs s" "set (sv_posted s) \<subseteq> set (sv_posted s')" using Track_Shutdown_ok [OF inv(1) n] by blast
    with inv(3) same [of s'] Close_track show ?thesis by (simp add: running_def)
  next
    case Run_task
    from run_posted_ok [OF inv(1,2)] c inv(3) Run_task show ?thesis by (auto simp: running_def)
  next
    case (Mix_action r a)
    with run_action_ok [OF assms(1)] assms(2) show ?thesis by simp
  qed
qed

lemma served_running: "served sent s \<Longrightarrow> running sent s"
proof (induction rule: served.induct)
  case (initialised throttle alsa res s)
  obtain s0 where "Server_Initialize throttle alsa res new_Server = Inr s0" "server_inv (\<lambda>_. 0) s0" "stops_posted s0" "\<not> sv_shutting_down s0"
    by (rule Server_Initialize_ok)
  with initialised show ?case by (simp add: running_def)
next
  case (happened sent s e s')
  have "\<not> shutdown_trips s" if "e = Run_task"
    using run_posted_fails [of sent s] happened(3,4) that by (auto simp: running_def)
  with happen_ok [OF happened(4,2)] happened(3) show ?case by auto
qed

section \<open>An example\<close>

text \<open>
  Runs as lists of events, and one of them: a server with two outputs, a track that has sent
  three packets, of which each output has mixed some, and an output that is stopping.
\<close>

fun run_events :: "event list \<Rightarrow> (nat \<Rightarrow> nat) \<Rightarrow> (nat \<times> nat) Server \<Rightarrow> ((nat \<Rightarrow> nat) \<times> (nat \<times> nat) Server) option" where
  "run_events [] sent s = Some (sent, s)"
| "run_events (e # es) sent s =
     (if allowed e s then (case happen e sent s of Inl _ \<Rightarrow> None | Inr s' \<Rightarrow> run_events es (count_sent e sent) s') else None)"

lemma run_events_served: "served sent s \<Longrightarrow> run_events es sent s = Some (sent', s') \<Longrightarrow> served sent' s'"
  by (induction es sent s rule: run_events.induct) (auto split: if_splits sum.splits intro: happened)

definition example_events :: "event list" where
  "example_events = [New_track 5, Configure_track 5 (\<lambda>r. r + 10) (\<lambda>_. OK), Send_packet 5, Send_packet 5, Send_packet 5,
     Mix_action 0 (Consume 10), Mix_action 1 (Consume 11), Mix_action 0 (Consume 10), Mix_action 1 Stop]"

definition server_run :: "event list \<Rightarrow> ((nat \<Rightarrow> nat) \<times> (nat \<times> nat) Server) option" where
  "server_run es = (case Server_Initialize 0 (Some 1) (\<lambda>_. OK) new_Server of Inl _ \<Rightarrow> None
     | Inr s \<Rightarrow> run_events es (\<lambda>_. 0) s)"

lemma server_run_served:
  assumes "server_run es \<noteq> None"
  shows "served (fst (the (server_run es))) (snd (the (server_run es)))"
proof -
  obtain sent s where e: "server_run es = Some (sent, s)" using assms by auto
  obtain s0 :: "(nat \<times> nat) Server" where s0: "Server_Initialize 0 (Some 1) (\<lambda>_. OK) new_Server = Inr s0"
    by (rule Server_Initialize_ok)
  with e have "run_events es (\<lambda>_. 0) s0 = Some (sent, s)" by (simp add: server_run_def)
  with initialised [OF s0] have "served sent s" by (rule run_events_served)
  then show ?thesis by (simp add: e)
qed

definition example_sent :: "nat \<Rightarrow> nat" where
  "example_sent = fst (the (server_run example_events))"

definition example_server :: "(nat \<times> nat) Server" where
  "example_server = snd (the (server_run example_events))"

lemma example_served: "served example_sent example_server"
  unfolding example_sent_def example_server_def by (rule server_run_served) code_simp

text \<open>
  Another run: while the first output mixes the track, the track is closed and the second output stops.
\<close>

definition held_events :: "event list" where
  "held_events = [New_track 5, Configure_track 5 (\<lambda>r. r + 10) (\<lambda>_. OK), Mix_action 0 (Hold 10), Close_track 5, Mix_action 1 Stop]"

definition held_server :: "(nat \<times> nat) Server" where
  "held_server = snd (the (server_run held_events))"

lemma held_served: "served (fst (the (server_run held_events))) held_server"
  unfolding held_server_def by (rule server_run_served) code_simp

lemma held_trips: "shutdown_trips held_server"
proof -
  let ?s = held_server
  have "sv_posted ?s = [FinishShutdownSelf_task (Some 1)]" "map_option on_links (map_of (sv_outputs ?s) 1) = Some [11]"
    "map_option ln_track (map_of (sv_links ?s) 11) = Some 5" "sv_tracks ?s = []" "sv_held ?s = [(0, 5)]" by code_simp+
  moreover from this obtain n k where "map_of (sv_outputs ?s) 1 = Some n" "on_links n = [11]" "map_of (sv_links ?s) 11 = Some k" "ln_track k = 5" by auto
  ultimately show ?thesis by (auto simp: shutdown_trips_def closed_track_held_def)
qed

section \<open>Properties\<close>

text \<open>
  C7. Whatever clients, outputs and the message loop do to a running server, and in whatever order, one step fails: the
  task that finishes the shutdown of an output which has a link to a track that has been shut down but is
  held by the thread of another output. There \<^verbatim>\<open>RemoveOutput\<close> does not find the link and hits its
  \<^verbatim>\<open>DCHECK(false)\<close>. Every other step succeeds: no other DCHECK is violated, no track, output or link is used after
  it has been destroyed, and no flush waits for ever.
\<close>

theorem server_never_fails:
  assumes "served sent s" "allowed e s"
  shows "if e = Run_task \<and> shutdown_trips s then happen e sent s = Inl Dcheck_failed
    else \<exists>s'. happen e sent s = Inr s' \<and> served (count_sent e sent) s'"
proof (cases "e = Run_task \<and> shutdown_trips s")
  case True
  moreover have "server_inv sent s" using served_running [OF assms(1)] by (simp add: running_def)
  ultimately show ?thesis using run_posted_fails by simp
next
  case False
  then obtain s' where "happen e sent s = Inr s'" using happen_ok [OF served_running [OF assms(1)] assms(2)] by blast
  with happened [OF assms] False show ?thesis by auto
qed

theorem server_never_fails_witness:
  "(\<exists>s'. happen (Flush_track 5) example_sent example_server = Inr s' \<and> served (count_sent (Flush_track 5) example_sent) s') \<and>
   happen Run_task (fst (the (server_run held_events))) held_server = Inl Dcheck_failed"
proof
  have "allowed (Flush_track 5) example_server" by code_simp
  from server_never_fails [OF example_served this]
  show "\<exists>s'. happen (Flush_track 5) example_sent example_server = Inr s' \<and> served (count_sent (Flush_track 5) example_sent) s'" by simp
  show "happen Run_task (fst (the (server_run held_events))) held_server = Inl Dcheck_failed"
    using server_never_fails [OF held_served, of Run_task] held_trips by simp
qed

text \<open>
  C8. The packets of a track go back to the client in the order it has sent them, each once:
  those that have gone back and those in the clean-up queue are the first ones sent, and the
  others are the queue of some link of the track, although every output mixes at its own pace,
  outputs stop, and tracks are flushed and closed. While the clean-up queue is not
  empty, the task that empties it is posted.
\<close>

theorem packets_return_in_order:
  assumes "served sent s"
  shows "(\<exists>ws. map (Pair t) [0..<sent t] = filter (\<lambda>p. fst p = t) (map fst (sv_returned s) @ sv_cleanup_queue s) @ ws \<and>
      (ws = [] \<or> (\<exists>l k. map_of (sv_links s) l = Some k \<and> ln_track k = t \<and> lk_pending (ln_link k) = ws))) \<and>
    (sv_cleanup_queue s \<noteq> [] \<longrightarrow> DoPacketCleanup_task \<in> set (sv_posted s))"
proof -
  have r: "server_inv sent s" "\<not> sv_shutting_down s" using served_running [OF assms] by (simp_all add: running_def)
  have "in_order (sent_by t sent) (finished t s) (track_queues t s)"
    using server_invD(1) [OF r(1)] by (simp add: packets_ok_def ordered_def)
  then have "\<exists>ws. sent_by t sent = finished t s @ ws \<and> (ws = [] \<or> ws \<in> track_queues t s)" unfolding in_order_def by blast
  then show ?thesis using server_invD(4) [OF r(1)] r(2)
    unfolding sent_by_def finished_def track_queues_def by (auto simp: clean_ok_def)
qed

theorem packets_return_in_order_witness:
  "(\<exists>ws. map (Pair 5) [0..<example_sent 5] =
      filter (\<lambda>p. fst p = 5) (map fst (sv_returned example_server) @ sv_cleanup_queue example_server) @ ws \<and>
      (ws = [] \<or> (\<exists>l k. map_of (sv_links example_server) l = Some k \<and> ln_track k = 5 \<and> lk_pending (ln_link k) = ws))) \<and>
    DoPacketCleanup_task \<in> set (sv_posted example_server) \<and> sv_cleanup_queue example_server = [(5, 0)] \<and> example_sent 5 = 3"
proof -
  have "sv_cleanup_queue example_server = [(5, 0)]" "example_sent 5 = 3" by code_simp+
  with packets_return_in_order [OF example_served, of 5] show ?thesis by auto
qed

text \<open>
  C9. Shutting a server down while no processing thread holds a track succeeds and leaves nothing behind: no track, no output and
  no link, the thread pool is gone, and every packet that was ever sent has gone back,
  in the order of its track. Shutting down again changes nothing, and the checks
  of the destructor hold.
\<close>

theorem Server_Shutdown_returns_all:
  assumes "served sent s" "sv_held s = []"
  shows "\<exists>s'. Server_Shutdown s = Inr s' \<and> sv_tracks s' = [] \<and> sv_outputs s' = [] \<and> sv_links s' = [] \<and> \<not> sv_thread_pool s' \<and>
    (\<forall>t. filter (\<lambda>p. fst p = t) (map fst (sv_returned s')) = map (Pair t) [0..<sent t]) \<and>
    Server_Shutdown s' = Inr s' \<and> Server_delete s = Inr s'"
proof -
  obtain s' where s': "Server_Shutdown s = Inr s'" "sv_tracks s' = []" "sv_outputs s' = []" "sv_links s' = []" "sv_cleanup_queue s' = []"
    "\<not> sv_thread_pool s'" "sv_shutting_down s'" "\<not> sv_cleanup_scheduled s'"
    "\<And>t. filter (\<lambda>p. fst p = t) (map fst (sv_returned s')) = map (Pair t) [0..<sent t]"
    using Server_Shutdown_ok [OF _ assms(2)] served_running [OF assms(1)] by (metis running_def)
  have a: "s'\<lparr>sv_shutting_down := True\<rparr> = s'" "DoPacketCleanup s' = s'" using s'(5,7,8) by (simp_all add: DoPacketCleanup_def)
  have b: "shutdown_tracks s' = Inr s'" using s'(2) by (subst shutdown_tracks.simps) simp
  have c: "AudioOutputManager_Shutdown s' = Inr s'" using s'(3,6) by (simp add: AudioOutputManager_Shutdown_def)
  have "Server_Shutdown s' = Inr s'" unfolding Server_Shutdown_def by (simp only: a b c rbind_simps)
  moreover have "Server_delete s = Inr s'" using s' c by (simp add: Server_delete_def)
  ultimately show ?thesis using s' by blast
qed

theorem Server_Shutdown_returns_all_witness:
  "\<exists>s'. Server_Shutdown example_server = Inr s' \<and> sv_tracks s' = [] \<and> sv_outputs s' = [] \<and> sv_links s' = [] \<and> \<not> sv_thread_pool s' \<and>
    (\<forall>t. filter (\<lambda>p. fst p = t) (map fst (sv_returned s')) = map (Pair t) [0..<example_sent t]) \<and>
    Server_Shutdown s' = Inr s' \<and> Server_delete example_server = Inr s'"
proof (rule Server_Shutdown_returns_all [OF example_served])
  show "sv_held example_server = []" by code_simp
qed

text \<open>
  C10. An output that stops by itself is removed: a task that does it is posted, and running it has \<^verbatim>\<open>Cleanup\<close> called
  and leaves no link to the output behind, neither in a track nor elsewhere. It fails exactly when the output has a
  link to a track that has been shut down but is held by the thread of another output.
\<close>

theorem stopped_output_is_removed:
  assumes "served sent s" "map_of (sv_outputs s) r = Some n" "on_shutting_down n"
  shows "FinishShutdownSelf_task (Some r) \<in> set (sv_posted s) \<and>
    (if closed_track_held r s then FinishShutdownSelf (Some r) s = Inl Dcheck_failed else
     \<exists>s'. FinishShutdownSelf (Some r) s = Inr s' \<and> r \<notin> om_keys (sv_outputs s') \<and> r \<in> set (sv_cleaned s') \<and>
      (\<forall>l k. map_of (sv_links s') l = Some k \<longrightarrow> ln_output k \<noteq> r) \<and>
      (\<forall>t m. map_of (sv_tracks s') t = Some m \<longrightarrow> (\<forall>l \<in> set (tn_outputs m). \<exists>k. map_of (sv_links s') l = Some k \<and> ln_output k \<noteq> r)))"
proof -
  have r: "server_inv sent s" "stops_posted s" using served_running [OF assms(1)] by (simp_all add: running_def)
  then have n: "FinishShutdownSelf_task (Some r) \<in> set (sv_posted s)" "\<not> on_shut_down n" using assms(2,3) by (auto simp: stops_posted_def)
  show ?thesis
  proof (cases "closed_track_held r s")
    case True
    with FinishShutdownSelf_fails [OF r(1)] n(1) show ?thesis by simp
  next
    case False
    obtain s' where s': "ShutdownOutput r s = Inr s'" "server_inv sent s'" "map_of (sv_outputs s') = (map_of (sv_outputs s))(r := None)" "r \<in> set (sv_cleaned s')"
      using ShutdownOutput_ok [OF r(1) assms(2) False] n(2) by blast
    have k: "ln_output k \<noteq> r" if "map_of (sv_links s') l = Some k" for l k
      using server_invD(7) [OF s'(2) that] s'(3) by (auto simp: link_ok_def)
    have "\<exists>k. map_of (sv_links s') l = Some k \<and> ln_output k \<noteq> r" if "map_of (sv_tracks s') t = Some m" "l \<in> set (tn_outputs m)" for t m l
      using server_invD(5) [OF s'(2) that(1)] that(2) k by (auto simp: track_ok_def)
    moreover have "FinishShutdownSelf (Some r) s = Inr s'" using s'(1) om_keysI [OF assms(2)] by (simp add: FinishShutdownSelf_def)
    moreover have "r \<notin> om_keys (sv_outputs s')" by (simp add: om_keys_dom s'(3))
    ultimately show ?thesis using False n(1) s'(4) k by auto
  qed
qed

theorem stopped_output_is_removed_witness:
  "FinishShutdownSelf_task (Some 1) \<in> set (sv_posted example_server) \<and>
    (\<exists>s'. FinishShutdownSelf (Some 1) example_server = Inr s' \<and> 1 \<notin> om_keys (sv_outputs s') \<and> 1 \<in> set (sv_cleaned s'))"
proof -
  have "map_option on_shutting_down (map_of (sv_outputs example_server) 1) = Some True" by code_simp
  then obtain n where n: "map_of (sv_outputs example_server) 1 = Some n" "on_shutting_down n"
    by (cases "map_of (sv_outputs example_server) 1") simp_all
  have "sv_held example_server = []" by code_simp
  then have "\<not> closed_track_held 1 example_server" by (rule not_held)
  with stopped_output_is_removed [OF example_served n] show ?thesis by (simp only: if_False) blast
qed

text \<open>
  An output that cannot be initialised is destroyed before the posted task runs, so that its
  \<^verbatim>\<open>Cleanup\<close> is never called by anybody but itself.
\<close>

lemma failed_output_not_cleaned_up:
  "(case Server_Initialize 0 None (\<lambda>_. INTERNAL_ERROR) (new_Server :: nat Server) of Inl _ \<Rightarrow> False
    | Inr s \<Rightarrow> sv_outputs s = [] \<and> sv_posted s = [FinishShutdownSelf_task None] \<and>
        (case run_posted s of Inl _ \<Rightarrow> False | Inr s' \<Rightarrow> sv_cleaned s' = []))"
  by code_simp

end
