(* ===== verification/Stage_Store.thy ===== *)
theory Stage_Store
  imports Media_Prelude
begin

text \<open>
  The data the media framework works on (services/media/framework): packets and their
  allocators (packet.h, packet.cc, payload_allocator.cc), the stages of a graph with
  their inputs and outputs (stages/stage.h, stages/input.cc, stages/output.cc), the
  references to them (refs.cc), and the two backlogs of the engine that the inputs and
  outputs push stages to (engine.cc).

  Stages refer to each other by pointers, so they live in a store: a stage pointer is
  a number, the store a map from numbers to stages, and deleting a stage takes its
  number out of the map. An \<^verbatim>\<open>InputRef\<close> or \<^verbatim>\<open>OutputRef\<close> is a pair of a stage pointer
  and an index, the null reference \<open>None\<close>.

  The parts the stages host (sources, sinks and transforms) and the allocators are not
  code of the framework: they are given by the record \<open>Part_ops\<close> of their virtual
  functions, which read and change a state \<open>'w\<close> of their own.

  The two laws at the heart of the theory are that of \<open>put_input\<close> and \<open>put_output\<close>:
  what is read at a reference after a write at another one. The proofs of the later
  theories read the store only through \<open>input_at\<close>, \<open>output_at\<close> and \<open>stage_at\<close>.
\<close>

section \<open>Packets and allocators\<close>

datatype Demand = kNegative | kNeutral | kPositive

text \<open>
  A packet owns its payload, so the bytes of the payload are part of the packet;
  \<open>payload\<close> is the pointer, \<open>None\<close> the null pointer.
\<close>

record Packet =
  pts :: int
  end_of_stream :: bool
  packet_size :: nat
  payload :: "nat option"
  payload_bytes :: "u8 list"
  packet_allocator :: "nat option"

definition kUnknownPts :: int where
  "kUnknownPts = int64_min"

definition new_Packet :: "int \<Rightarrow> bool \<Rightarrow> nat \<Rightarrow> nat option \<Rightarrow> u8 list \<Rightarrow> nat option \<Rightarrow> Packet res" where
  "new_Packet t eos n p bytes a =
     dcheck ((n = 0) = (p = None))
       (Inr \<lparr>pts = t, end_of_stream = eos, packet_size = n, payload = p, payload_bytes = bytes,
             packet_allocator = a\<rparr>)"

definition Packet_Create :: "int \<Rightarrow> bool \<Rightarrow> nat \<Rightarrow> nat option \<Rightarrow> u8 list \<Rightarrow> nat option \<Rightarrow> Packet res" where
  "Packet_Create t eos n p bytes a =
     dcheck (p = None \<or> a \<noteq> None) (new_Packet t eos n p bytes a)"

definition Packet_CreateNoAllocator :: "int \<Rightarrow> bool \<Rightarrow> nat \<Rightarrow> nat option \<Rightarrow> u8 list \<Rightarrow> Packet res" where
  "Packet_CreateNoAllocator t eos n p bytes = new_Packet t eos n p bytes None"

definition Packet_CreateEndOfStream :: "int \<Rightarrow> Packet res" where
  "Packet_CreateEndOfStream t = new_Packet t True 0 None [] None"

text \<open>
  The virtual functions of the parts (models/*.h) and of the allocators. The first
  argument of each is the part or the allocator it is called on.
\<close>

record 'w Part_ops =
  malloc :: "nat \<Rightarrow> 'w \<Rightarrow> nat option \<times> 'w"
  free :: "nat \<Rightarrow> 'w \<Rightarrow> 'w"
  allocate_from :: "nat \<Rightarrow> nat \<Rightarrow> 'w \<Rightarrow> nat option \<times> 'w"
  release_to :: "nat \<Rightarrow> nat \<Rightarrow> nat \<Rightarrow> 'w \<Rightarrow> 'w"
  part_Flush :: "nat \<Rightarrow> 'w \<Rightarrow> 'w"
  TransformPacket :: "nat \<Rightarrow> Packet \<Rightarrow> bool \<Rightarrow> nat \<Rightarrow> 'w \<Rightarrow> (bool \<times> Packet option) \<times> 'w"
  can_accept_allocator :: "nat \<Rightarrow> 'w \<Rightarrow> bool"
  set_allocator :: "nat \<Rightarrow> nat option \<Rightarrow> 'w \<Rightarrow> 'w"
  SetDownstreamDemand :: "nat \<Rightarrow> Demand \<Rightarrow> 'w \<Rightarrow> 'w"
  sink_allocator :: "nat \<Rightarrow> 'w \<Rightarrow> nat option"
  sink_SupplyPacket :: "nat \<Rightarrow> Packet \<Rightarrow> 'w \<Rightarrow> Demand \<times> 'w"
  stream_count :: "nat \<Rightarrow> 'w \<Rightarrow> nat"
  PullPacket :: "nat \<Rightarrow> 'w \<Rightarrow> (Packet option \<times> nat) \<times> 'w"
  RequestPacket :: "nat \<Rightarrow> 'w \<Rightarrow> 'w"
  multi_SupplyPacket :: "nat \<Rightarrow> nat \<Rightarrow> Packet \<Rightarrow> 'w \<Rightarrow> Demand \<times> 'w"

text \<open>The default allocator has the number 0; the others belong to the parts.\<close>

definition GetDefault :: nat where
  "GetDefault = 0"

definition AllocatePayloadBuffer :: "'w Part_ops \<Rightarrow> nat \<Rightarrow> nat \<Rightarrow> 'w \<Rightarrow> (nat option \<times> 'w) res" where
  "AllocatePayloadBuffer ops a n w =
     (if a = GetDefault then dcheck (n > 0) (Inr (malloc ops n w)) else Inr (allocate_from ops a n w))"

definition ReleasePayloadBuffer :: "'w Part_ops \<Rightarrow> nat \<Rightarrow> nat \<Rightarrow> nat \<Rightarrow> 'w \<Rightarrow> 'w res" where
  "ReleasePayloadBuffer ops a n buffer w =
     (if a = GetDefault then dcheck (n > 0) (Inr (free ops buffer w)) else Inr (release_to ops a n buffer w))"

definition Packet_Release :: "'w Part_ops \<Rightarrow> Packet \<Rightarrow> 'w \<Rightarrow> 'w res" where
  "Packet_Release ops p w =
     (case (payload p, packet_allocator p) of
        (Some buffer, Some a) \<Rightarrow> ReleasePayloadBuffer ops a (packet_size p) buffer w
      | _ \<Rightarrow> Inr w)"

text \<open>The invariant of the class: what the constructors establish.\<close>

definition packet_ok :: "Packet \<Rightarrow> bool" where
  "packet_ok p \<longleftrightarrow> (packet_size p = 0) = (payload p = None)"

lemma new_Packet_ok: "new_Packet t eos n q bytes a = Inr p \<Longrightarrow> packet_ok p"
  by (auto simp: new_Packet_def packet_ok_def)

lemma Packet_Create_ok: "Packet_Create t eos n q bytes a = Inr p \<Longrightarrow> packet_ok p"
  by (auto simp: Packet_Create_def dest: new_Packet_ok)

lemma Packet_Release_ok: "packet_ok p \<Longrightarrow> \<exists>w'. Packet_Release ops p w = Inr w'"
  by (auto simp: packet_ok_def Packet_Release_def ReleasePayloadBuffer_def split: option.split)

section \<open>Stages\<close>

type_synonym ref = "nat \<times> nat"

record Input =
  in_mate :: "ref option"
  prepared :: bool
  packet_from_upstream :: "Packet option"

record Output =
  out_mate :: "ref option"
  out_demand :: Demand
  copy_allocator :: "nat option"

definition new_Input :: Input where
  "new_Input = \<lparr>in_mate = None, prepared = False, packet_from_upstream = None\<rparr>"

definition new_Output :: Output where
  "new_Output = \<lparr>out_mate = None, out_demand = kNegative, copy_allocator = None\<rparr>"

text \<open>
  The private members of the six subclasses of \<^verbatim>\<open>Stage\<close>, apart from their inputs, outputs
  and part. The inputs of an \<^verbatim>\<open>ActiveMultistreamSinkStage\<close> are objects of its own
  \<^verbatim>\<open>StageInput\<close>: the \<^verbatim>\<open>Input\<close> in them is kept with the inputs of the stage, the rest in the
  list \<open>ams_inputs\<close> at the same index.
\<close>

record StageInput =
  si_index :: nat
  si_allocated :: bool
  si_demand :: Demand

record MultistreamSink =
  ams_inputs :: "StageInput list"
  ams_unallocated_inputs :: "nat set"
  ams_pending_inputs :: "nat list"

datatype impl =
    TransformStage (ts_allocator: "nat option") (ts_input_packet_is_new: bool)
  | ActiveSourceStage (as_prepared: bool) (as_packets: "Packet list")
  | ActiveSinkStage (sk_demand: Demand)
  | MultistreamSourceStage (ms_cached: "Packet option") (ms_index: nat) (ms_ended: nat)
  | ActiveMultistreamSourceStage (am_cached: "Packet option") (am_index: nat) (am_ended: nat) (am_outstanding: bool)
  | ActiveMultistreamSinkStage (ams: MultistreamSink)

record Stage =
  stg_inputs :: "Input list"
  stg_outputs :: "Output list"
  stg_impl :: impl
  stg_part :: nat
  update_callback :: bool
  in_supply_backlog :: bool
  in_demand_backlog :: bool

text \<open>
  The state of a graph and of its engine. \<open>demand_backlog\<close> is a stack, its head the top.
\<close>

record 'w Graph =
  store :: "nat \<Rightarrow> Stage option"
  stages :: "nat list"
  sources :: "nat list"
  sinks :: "nat list"
  supply_backlog :: "nat list"
  demand_backlog :: "nat list"
  packets_produced :: bool
  world :: 'w

section \<open>Reading and writing the store\<close>

text \<open>A pointer to a stage that has been deleted is a fault like a null pointer.\<close>

definition stage_at :: "nat \<Rightarrow> 'w Graph \<Rightarrow> Stage res" where
  "stage_at s g = (case store g s of None \<Rightarrow> Inl Null_deref | Some st \<Rightarrow> Inr st)"

definition input_at :: "ref \<Rightarrow> 'w Graph \<Rightarrow> Input res" where
  "input_at r g =
     rbind (stage_at (fst r) g) (\<lambda>st. dcheck (snd r < length (stg_inputs st)) (Inr (stg_inputs st ! snd r)))"

definition output_at :: "ref \<Rightarrow> 'w Graph \<Rightarrow> Output res" where
  "output_at r g =
     rbind (stage_at (fst r) g) (\<lambda>st. dcheck (snd r < length (stg_outputs st)) (Inr (stg_outputs st ! snd r)))"

definition put_stage :: "nat \<Rightarrow> (Stage \<Rightarrow> Stage) \<Rightarrow> 'w Graph \<Rightarrow> 'w Graph" where
  "put_stage s f g = g\<lparr>store := (store g)(s := map_option f (store g s))\<rparr>"

definition put_input :: "ref \<Rightarrow> (Input \<Rightarrow> Input) \<Rightarrow> 'w Graph \<Rightarrow> 'w Graph" where
  "put_input r f = put_stage (fst r) (\<lambda>st. st\<lparr>stg_inputs := (stg_inputs st)[snd r := f (stg_inputs st ! snd r)]\<rparr>)"

definition put_output :: "ref \<Rightarrow> (Output \<Rightarrow> Output) \<Rightarrow> 'w Graph \<Rightarrow> 'w Graph" where
  "put_output r f = put_stage (fst r) (\<lambda>st. st\<lparr>stg_outputs := (stg_outputs st)[snd r := f (stg_outputs st ! snd r)]\<rparr>)"

definition put_impl :: "nat \<Rightarrow> impl \<Rightarrow> 'w Graph \<Rightarrow> 'w Graph" where
  "put_impl s k = put_stage s (\<lambda>st. st\<lparr>stg_impl := k\<rparr>)"

text \<open>What the later proofs read of a stage besides its inputs and outputs.\<close>

definition live :: "'w Graph \<Rightarrow> nat \<Rightarrow> bool" where
  "live g s \<longleftrightarrow> store g s \<noteq> None"

definition impl_of :: "'w Graph \<Rightarrow> nat \<Rightarrow> impl option" where
  "impl_of g s = map_option stg_impl (store g s)"

definition part_of :: "'w Graph \<Rightarrow> nat \<Rightarrow> nat option" where
  "part_of g s = map_option stg_part (store g s)"

definition counts_of :: "'w Graph \<Rightarrow> nat \<Rightarrow> (nat \<times> nat) option" where
  "counts_of g s = map_option (\<lambda>st. (length (stg_inputs st), length (stg_outputs st))) (store g s)"

definition flags_of :: "'w Graph \<Rightarrow> nat \<Rightarrow> (bool \<times> bool) option" where
  "flags_of g s = map_option (\<lambda>st. (in_supply_backlog st, in_demand_backlog st)) (store g s)"

definition callback_of :: "'w Graph \<Rightarrow> nat \<Rightarrow> bool option" where
  "callback_of g s = map_option update_callback (store g s)"

definition InputRef_valid :: "ref option \<Rightarrow> 'w Graph \<Rightarrow> bool res" where
  "InputRef_valid r g =
     (case r of None \<Rightarrow> Inr False
      | Some (s, i) \<Rightarrow> rbind (stage_at s g) (\<lambda>st. Inr (i < length (stg_inputs st))))"

definition OutputRef_valid :: "ref option \<Rightarrow> 'w Graph \<Rightarrow> bool res" where
  "OutputRef_valid r g =
     (case r of None \<Rightarrow> Inr False
      | Some (s, i) \<Rightarrow> rbind (stage_at s g) (\<lambda>st. Inr (i < length (stg_outputs st))))"

named_theorems store_simps

lemma stage_at_put_stage [store_simps]:
  "stage_at s' (put_stage s f g) = (if s' = s then map_sum (\<lambda>e. e) f (stage_at s g) else stage_at s' g)"
  by (simp add: stage_at_def put_stage_def split: option.split)

lemma input_at_put_input [store_simps]:
  "input_at r' (put_input r f g) = (if r' = r then map_sum (\<lambda>e. e) f (input_at r g) else input_at r' g)"
  by (cases r; cases r') (auto simp: input_at_def put_input_def stage_at_def put_stage_def dcheck_def split: option.split)

lemma output_at_put_output [store_simps]:
  "output_at r' (put_output r f g) = (if r' = r then map_sum (\<lambda>e. e) f (output_at r g) else output_at r' g)"
  by (cases r; cases r') (auto simp: output_at_def put_output_def stage_at_def put_stage_def dcheck_def split: option.split)

lemma at_put_other [store_simps]:
  "output_at r' (put_input r f g) = output_at r' g"
  "input_at r' (put_output q h g) = input_at r' g"
  "input_at r' (put_impl s k g) = input_at r' g"
  "output_at r' (put_impl s k g) = output_at r' g"
  by (auto simp: input_at_def output_at_def put_input_def put_output_def put_impl_def stage_at_def put_stage_def
    dcheck_def split: option.split)

lemma of_put_input [store_simps]:
  "live (put_input r f g) = live g" "impl_of (put_input r f g) = impl_of g"
  "part_of (put_input r f g) = part_of g" "counts_of (put_input r f g) = counts_of g"
  "flags_of (put_input r f g) = flags_of g" "callback_of (put_input r f g) = callback_of g"
  by (auto simp: put_input_def put_stage_def live_def impl_of_def part_of_def counts_of_def flags_of_def
    callback_of_def option.map_comp comp_def intro!: ext split: if_splits)

lemma of_put_output [store_simps]:
  "live (put_output r f g) = live g" "impl_of (put_output r f g) = impl_of g"
  "part_of (put_output r f g) = part_of g" "counts_of (put_output r f g) = counts_of g"
  "flags_of (put_output r f g) = flags_of g" "callback_of (put_output r f g) = callback_of g"
  by (auto simp: put_output_def put_stage_def live_def impl_of_def part_of_def counts_of_def flags_of_def
    callback_of_def option.map_comp comp_def intro!: ext split: if_splits)

lemma of_put_impl [store_simps]:
  "live (put_impl s k g) = live g"
  "impl_of (put_impl s k g) = (if live g s then (impl_of g)(s := Some k) else impl_of g)"
  "part_of (put_impl s k g) = part_of g" "counts_of (put_impl s k g) = counts_of g"
  "flags_of (put_impl s k g) = flags_of g" "callback_of (put_impl s k g) = callback_of g"
  by (auto simp: put_impl_def put_stage_def live_def impl_of_def part_of_def counts_of_def flags_of_def
    callback_of_def option.map_comp comp_def intro!: ext split: if_splits)

lemma put_stage_other [store_simps]:
  "stages (put_stage s f g) = stages g" "sources (put_stage s f g) = sources g"
  "sinks (put_stage s f g) = sinks g" "supply_backlog (put_stage s f g) = supply_backlog g"
  "demand_backlog (put_stage s f g) = demand_backlog g" "packets_produced (put_stage s f g) = packets_produced g"
  "world (put_stage s f g) = world g"
  by (simp_all add: put_stage_def)

lemma put_input_other [store_simps]:
  "stages (put_input r f g) = stages g" "sources (put_input r f g) = sources g"
  "sinks (put_input r f g) = sinks g" "supply_backlog (put_input r f g) = supply_backlog g"
  "demand_backlog (put_input r f g) = demand_backlog g" "packets_produced (put_input r f g) = packets_produced g"
  "world (put_input r f g) = world g"
  by (simp_all add: put_input_def store_simps)

lemma put_output_other [store_simps]:
  "stages (put_output r f g) = stages g" "sources (put_output r f g) = sources g"
  "sinks (put_output r f g) = sinks g" "supply_backlog (put_output r f g) = supply_backlog g"
  "demand_backlog (put_output r f g) = demand_backlog g" "packets_produced (put_output r f g) = packets_produced g"
  "world (put_output r f g) = world g"
  by (simp_all add: put_output_def store_simps)

lemma put_impl_other [store_simps]:
  "stages (put_impl s k g) = stages g" "sources (put_impl s k g) = sources g"
  "sinks (put_impl s k g) = sinks g" "supply_backlog (put_impl s k g) = supply_backlog g"
  "demand_backlog (put_impl s k g) = demand_backlog g" "packets_produced (put_impl s k g) = packets_produced g"
  "world (put_impl s k g) = world g"
  by (simp_all add: put_impl_def store_simps)

text \<open>The store is not touched by a change of the state of the parts, of the backlogs or of the lists.\<close>

lemma at_store_cong:
  "store g' = store g \<Longrightarrow> stage_at s g' = stage_at s g"
  "store g' = store g \<Longrightarrow> input_at r g' = input_at r g"
  "store g' = store g \<Longrightarrow> output_at r g' = output_at r g"
  "store g' = store g \<Longrightarrow> live g' = live g"
  "store g' = store g \<Longrightarrow> impl_of g' = impl_of g"
  "store g' = store g \<Longrightarrow> part_of g' = part_of g"
  "store g' = store g \<Longrightarrow> counts_of g' = counts_of g"
  "store g' = store g \<Longrightarrow> flags_of g' = flags_of g"
  "store g' = store g \<Longrightarrow> callback_of g' = callback_of g"
  by (auto simp: stage_at_def input_at_def output_at_def live_def impl_of_def part_of_def counts_of_def
    flags_of_def callback_of_def intro!: ext)

lemma at_update [store_simps]:
  "input_at r (g\<lparr>world := w\<rparr>) = input_at r g" "output_at r (g\<lparr>world := w\<rparr>) = output_at r g"
  "input_at r (g\<lparr>supply_backlog := q\<rparr>) = input_at r g" "output_at r (g\<lparr>supply_backlog := q\<rparr>) = output_at r g"
  "input_at r (g\<lparr>demand_backlog := q\<rparr>) = input_at r g" "output_at r (g\<lparr>demand_backlog := q\<rparr>) = output_at r g"
  "input_at r (g\<lparr>packets_produced := b\<rparr>) = input_at r g" "output_at r (g\<lparr>packets_produced := b\<rparr>) = output_at r g"
  "stage_at s (g\<lparr>world := w\<rparr>) = stage_at s g" "stage_at s (g\<lparr>supply_backlog := q\<rparr>) = stage_at s g"
  "stage_at s (g\<lparr>demand_backlog := q\<rparr>) = stage_at s g" "stage_at s (g\<lparr>packets_produced := b\<rparr>) = stage_at s g"
  by (rule at_store_cong, simp)+

lemma of_update [store_simps]:
  "live (g\<lparr>world := w\<rparr>) = live g" "impl_of (g\<lparr>world := w\<rparr>) = impl_of g" "part_of (g\<lparr>world := w\<rparr>) = part_of g"
  "counts_of (g\<lparr>world := w\<rparr>) = counts_of g" "flags_of (g\<lparr>world := w\<rparr>) = flags_of g"
  "live (g\<lparr>supply_backlog := q\<rparr>) = live g" "impl_of (g\<lparr>supply_backlog := q\<rparr>) = impl_of g"
  "part_of (g\<lparr>supply_backlog := q\<rparr>) = part_of g" "counts_of (g\<lparr>supply_backlog := q\<rparr>) = counts_of g"
  "flags_of (g\<lparr>supply_backlog := q\<rparr>) = flags_of g"
  "live (g\<lparr>demand_backlog := q\<rparr>) = live g" "impl_of (g\<lparr>demand_backlog := q\<rparr>) = impl_of g"
  "part_of (g\<lparr>demand_backlog := q\<rparr>) = part_of g" "counts_of (g\<lparr>demand_backlog := q\<rparr>) = counts_of g"
  "flags_of (g\<lparr>demand_backlog := q\<rparr>) = flags_of g"
  "live (g\<lparr>packets_produced := b\<rparr>) = live g" "impl_of (g\<lparr>packets_produced := b\<rparr>) = impl_of g"
  "part_of (g\<lparr>packets_produced := b\<rparr>) = part_of g" "counts_of (g\<lparr>packets_produced := b\<rparr>) = counts_of g"
  "flags_of (g\<lparr>packets_produced := b\<rparr>) = flags_of g"
  by (rule at_store_cong, simp)+

section \<open>The backlogs\<close>

definition set_in_supply_backlog :: "nat \<Rightarrow> bool \<Rightarrow> 'w Graph \<Rightarrow> 'w Graph" where
  "set_in_supply_backlog s b = put_stage s (\<lambda>st. st\<lparr>in_supply_backlog := b\<rparr>)"

definition set_in_demand_backlog :: "nat \<Rightarrow> bool \<Rightarrow> 'w Graph \<Rightarrow> 'w Graph" where
  "set_in_demand_backlog s b = put_stage s (\<lambda>st. st\<lparr>in_demand_backlog := b\<rparr>)"

definition PushToSupplyBacklog :: "nat \<Rightarrow> 'w Graph \<Rightarrow> 'w Graph res" where
  "PushToSupplyBacklog s g =
     (let g1 = g\<lparr>packets_produced := True\<rparr>
      in rbind (stage_at s g1)
          (\<lambda>st. if in_supply_backlog st then Inr g1
                else Inr (set_in_supply_backlog s True (g1\<lparr>supply_backlog := supply_backlog g1 @ [s]\<rparr>))))"

definition PushToDemandBacklog :: "nat \<Rightarrow> 'w Graph \<Rightarrow> 'w Graph res" where
  "PushToDemandBacklog s g =
     rbind (stage_at s g)
      (\<lambda>st. if in_demand_backlog st then Inr g
            else Inr (set_in_demand_backlog s True (g\<lparr>demand_backlog := s # demand_backlog g\<rparr>)))"

definition PopFromSupplyBacklog :: "'w Graph \<Rightarrow> (nat option \<times> 'w Graph) res" where
  "PopFromSupplyBacklog g =
     (case supply_backlog g of [] \<Rightarrow> Inr (None, g)
      | s # q \<Rightarrow> rbind (stage_at s g)
          (\<lambda>st. dcheck (in_supply_backlog st)
             (Inr (Some s, set_in_supply_backlog s False (g\<lparr>supply_backlog := q\<rparr>)))))"

definition PopFromDemandBacklog :: "'w Graph \<Rightarrow> (nat option \<times> 'w Graph) res" where
  "PopFromDemandBacklog g =
     (case demand_backlog g of [] \<Rightarrow> Inr (None, g)
      | s # q \<Rightarrow> rbind (stage_at s g)
          (\<lambda>st. dcheck (in_demand_backlog st)
             (Inr (Some s, set_in_demand_backlog s False (g\<lparr>demand_backlog := q\<rparr>)))))"

section \<open>Inputs and outputs\<close>

definition Input_Connect :: "ref \<Rightarrow> ref \<Rightarrow> 'w Graph \<Rightarrow> 'w Graph res" where
  "Input_Connect r output g =
     rbind (OutputRef_valid (Some output) g) (\<lambda>v. dcheck v
      (rbind (input_at r g) (\<lambda>x. dcheck (in_mate x = None)
        (Inr (put_input r (\<lambda>x. x\<lparr>in_mate := Some output\<rparr>) g)))))"

definition Output_Connect :: "ref \<Rightarrow> ref \<Rightarrow> 'w Graph \<Rightarrow> 'w Graph res" where
  "Output_Connect r input g =
     rbind (InputRef_valid (Some input) g) (\<lambda>v. dcheck v
      (rbind (output_at r g) (\<lambda>y. dcheck (out_mate y = None)
        (Inr (put_output r (\<lambda>y. y\<lparr>out_mate := Some input\<rparr>) g)))))"

definition Input_Disconnect :: "ref \<Rightarrow> 'w Graph \<Rightarrow> 'w Graph res" where
  "Input_Disconnect r g =
     rbind (input_at r g) (\<lambda>x. dcheck (\<not> prepared x) (Inr (put_input r (\<lambda>x. x\<lparr>in_mate := None\<rparr>) g)))"

definition Output_Disconnect :: "ref \<Rightarrow> 'w Graph \<Rightarrow> 'w Graph res" where
  "Output_Disconnect r g = rbind (output_at r g) (\<lambda>y. Inr (put_output r (\<lambda>y. y\<lparr>out_mate := None\<rparr>) g))"

definition SetCopyAllocator :: "ref \<Rightarrow> nat option \<Rightarrow> 'w Graph \<Rightarrow> 'w Graph res" where
  "SetCopyAllocator r a g =
     rbind (output_at r g) (\<lambda>y. dcheck (out_mate y \<noteq> None)
      (Inr (put_output r (\<lambda>y. y\<lparr>copy_allocator := a\<rparr>) g)))"

text \<open>\<open>mate_input\<close> and \<open>mate_output\<close> are \<^verbatim>\<open>actual_mate()\<close>: the mate has to be valid.\<close>

definition mate_input :: "Output \<Rightarrow> 'w Graph \<Rightarrow> (ref \<times> Input) res" where
  "mate_input y g =
     (case out_mate y of None \<Rightarrow> Inl Dcheck_failed | Some m \<Rightarrow> rbind (input_at m g) (\<lambda>x. Inr (m, x)))"

definition mate_output :: "Input \<Rightarrow> 'w Graph \<Rightarrow> (ref \<times> Output) res" where
  "mate_output x g =
     (case in_mate x of None \<Rightarrow> Inl Dcheck_failed | Some m \<Rightarrow> rbind (output_at m g) (\<lambda>y. Inr (m, y)))"

definition UpdateDemandFromInput :: "ref \<Rightarrow> Demand \<Rightarrow> 'w Graph \<Rightarrow> (bool \<times> 'w Graph) res" where
  "UpdateDemandFromInput r d g =
     rbind (output_at r g) (\<lambda>y. if out_demand y = d then Inr (False, g)
       else Inr (True, put_output r (\<lambda>y. y\<lparr>out_demand := d\<rparr>) g))"

definition Input_SetDemand :: "ref \<Rightarrow> Demand \<Rightarrow> 'w Graph \<Rightarrow> 'w Graph res" where
  "Input_SetDemand r d g =
     rbind (input_at r g) (\<lambda>x. dcheck (in_mate x \<noteq> None)
      (rbind (mate_output x g) (\<lambda>(m, y).
        rbind (UpdateDemandFromInput m d g) (\<lambda>(changed, g1).
          if changed then PushToDemandBacklog (fst m) g1 else Inr g1))))"

definition Output_demand :: "ref \<Rightarrow> 'w Graph \<Rightarrow> Demand res" where
  "Output_demand r g =
     rbind (output_at r g) (\<lambda>y. dcheck (out_mate y \<noteq> None)
      (if out_demand y = kNegative then Inr kNegative
       else rbind (mate_input y g) (\<lambda>(m, x).
              Inr (if packet_from_upstream x \<noteq> None then kNegative else out_demand y))))"

definition SupplyPacketFromOutput :: "ref \<Rightarrow> Packet \<Rightarrow> 'w Graph \<Rightarrow> (bool \<times> 'w Graph) res" where
  "SupplyPacketFromOutput r p g =
     rbind (input_at r g) (\<lambda>x. dcheck (packet_from_upstream x = None)
      (Inr (True, put_input r (\<lambda>x. x\<lparr>packet_from_upstream := Some p\<rparr>) g)))"

definition release :: "'w Part_ops \<Rightarrow> Packet \<Rightarrow> 'w Graph \<Rightarrow> 'w Graph res" where
  "release ops p g = rbind (Packet_Release ops p (world g)) (\<lambda>w. Inr (g\<lparr>world := w\<rparr>))"

text \<open>
  The part of \<^verbatim>\<open>SupplyPacket\<close> that copies the packet when the output has an allocator of
  its own: the new packet, or \<open>None\<close> when the allocator has no memory left. The packet
  that is copied is released in both cases.
\<close>

definition copy_packet :: "'w Part_ops \<Rightarrow> nat option \<Rightarrow> Packet \<Rightarrow> 'w Graph \<Rightarrow> (Packet option \<times> 'w Graph) res" where
  "copy_packet ops alloc p g =
     (case alloc of None \<Rightarrow> Inr (Some p, g)
      | Some a \<Rightarrow>
          if packet_size p = 0 then
            rbind (Packet_Create (pts p) (end_of_stream p) 0 None [] (Some a))
              (\<lambda>q. rbind (release ops p g) (\<lambda>g1. Inr (Some q, g1)))
          else
            rbind (AllocatePayloadBuffer ops a (packet_size p) (world g)) (\<lambda>(buffer, w).
              (case buffer of
                 None \<Rightarrow> rbind (release ops p (g\<lparr>world := w\<rparr>)) (\<lambda>g1. Inr (None, g1))
               | Some b \<Rightarrow>
                   rbind (Packet_Create (pts p) (end_of_stream p) (packet_size p) (Some b) (payload_bytes p) (Some a))
                     (\<lambda>q. rbind (release ops p (g\<lparr>world := w\<rparr>)) (\<lambda>g1. Inr (Some q, g1))))))"

definition Output_SupplyPacket :: "'w Part_ops \<Rightarrow> ref \<Rightarrow> Packet \<Rightarrow> 'w Graph \<Rightarrow> 'w Graph res" where
  "Output_SupplyPacket ops r p g =
     rbind (output_at r g) (\<lambda>y. dcheck (out_mate y \<noteq> None)
      (rbind (copy_packet ops (copy_allocator y) p g) (\<lambda>(q, g1).
        (case q of None \<Rightarrow> Inr g1
         | Some q' \<Rightarrow>
             rbind (mate_input y g1) (\<lambda>(m, x).
               rbind (SupplyPacketFromOutput m q' g1) (\<lambda>(supplied, g2).
                 if supplied then PushToSupplyBacklog (fst m) g2 else Inr g2))))))"

definition Input_Flush :: "'w Part_ops \<Rightarrow> ref \<Rightarrow> 'w Graph \<Rightarrow> 'w Graph res" where
  "Input_Flush ops r g =
     rbind (input_at r g) (\<lambda>x.
       rbind (case packet_from_upstream x of None \<Rightarrow> Inr g | Some p \<Rightarrow> release ops p g) (\<lambda>g1.
         Inr (put_input r (\<lambda>x. x\<lparr>packet_from_upstream := None\<rparr>) g1)))"

definition Output_Flush :: "ref \<Rightarrow> 'w Graph \<Rightarrow> 'w Graph res" where
  "Output_Flush r g = rbind (output_at r g) (\<lambda>y. Inr (put_output r (\<lambda>y. y\<lparr>out_demand := kNegative\<rparr>) g))"

text \<open>\<^verbatim>\<open>HasPositiveDemand\<close> (stages/util.cc) looks at the outputs of stage \<open>s\<close> from the first on.\<close>

fun HasPositiveDemand_from :: "nat \<Rightarrow> nat list \<Rightarrow> 'w Graph \<Rightarrow> bool res" where
  "HasPositiveDemand_from s [] g = Inr False"
| "HasPositiveDemand_from s (i # is) g =
     rbind (Output_demand (s, i) g) (\<lambda>d. if d = kPositive then Inr True else HasPositiveDemand_from s is g)"

definition HasPositiveDemand :: "nat \<Rightarrow> 'w Graph \<Rightarrow> bool res" where
  "HasPositiveDemand s g =
     rbind (stage_at s g) (\<lambda>st. HasPositiveDemand_from s [0..<length (stg_outputs st)] g)"

section \<open>Laws of the flags of a stage\<close>

definition SetUpdateCallback :: "nat \<Rightarrow> bool \<Rightarrow> 'w Graph \<Rightarrow> 'w Graph" where
  "SetUpdateCallback s b = put_stage s (\<lambda>st. st\<lparr>update_callback := b\<rparr>)"

lemma put_stage_keeps:
  "live (put_stage s f g) = live g"
  "(\<And>st. stg_inputs (f st) = stg_inputs st) \<Longrightarrow> input_at r (put_stage s f g) = input_at r g"
  "(\<And>st. stg_outputs (f st) = stg_outputs st) \<Longrightarrow> output_at r (put_stage s f g) = output_at r g"
  "(\<And>st. stg_impl (f st) = stg_impl st) \<Longrightarrow> impl_of (put_stage s f g) = impl_of g"
  "(\<And>st. stg_part (f st) = stg_part st) \<Longrightarrow> part_of (put_stage s f g) = part_of g"
  "(\<And>st. stg_inputs (f st) = stg_inputs st) \<Longrightarrow> (\<And>st. stg_outputs (f st) = stg_outputs st) \<Longrightarrow>
     counts_of (put_stage s f g) = counts_of g"
  "(\<And>st. update_callback (f st) = update_callback st) \<Longrightarrow> callback_of (put_stage s f g) = callback_of g"
  "(\<And>st. in_supply_backlog (f st) = in_supply_backlog st) \<Longrightarrow> (\<And>st. in_demand_backlog (f st) = in_demand_backlog st) \<Longrightarrow>
     flags_of (put_stage s f g) = flags_of g"
  by (auto simp: put_stage_def live_def impl_of_def part_of_def counts_of_def flags_of_def callback_of_def input_at_def
    output_at_def stage_at_def fun_eq_iff option.map_comp comp_def split: option.split if_splits)

lemma set_flag_keeps [store_simps]:
  "live (set_in_supply_backlog s b g) = live g" "live (set_in_demand_backlog s b g) = live g"
  "live (SetUpdateCallback s b g) = live g"
  "input_at r (set_in_supply_backlog s b g) = input_at r g" "input_at r (set_in_demand_backlog s b g) = input_at r g"
  "input_at r (SetUpdateCallback s b g) = input_at r g"
  "output_at r (set_in_supply_backlog s b g) = output_at r g" "output_at r (set_in_demand_backlog s b g) = output_at r g"
  "output_at r (SetUpdateCallback s b g) = output_at r g"
  "impl_of (set_in_supply_backlog s b g) = impl_of g" "impl_of (set_in_demand_backlog s b g) = impl_of g"
  "impl_of (SetUpdateCallback s b g) = impl_of g"
  "part_of (set_in_supply_backlog s b g) = part_of g" "part_of (set_in_demand_backlog s b g) = part_of g"
  "part_of (SetUpdateCallback s b g) = part_of g"
  "counts_of (set_in_supply_backlog s b g) = counts_of g" "counts_of (set_in_demand_backlog s b g) = counts_of g"
  "counts_of (SetUpdateCallback s b g) = counts_of g"
  "callback_of (set_in_supply_backlog s b g) = callback_of g" "callback_of (set_in_demand_backlog s b g) = callback_of g"
  "flags_of (SetUpdateCallback s b g) = flags_of g"
  by (simp_all add: set_in_supply_backlog_def set_in_demand_backlog_def SetUpdateCallback_def put_stage_keeps)

lemma set_flag_other [store_simps]:
  "stages (set_in_supply_backlog s b g) = stages g" "stages (set_in_demand_backlog s b g) = stages g"
  "sources (set_in_supply_backlog s b g) = sources g" "sources (set_in_demand_backlog s b g) = sources g"
  "sinks (set_in_supply_backlog s b g) = sinks g" "sinks (set_in_demand_backlog s b g) = sinks g"
  "supply_backlog (set_in_supply_backlog s b g) = supply_backlog g"
  "supply_backlog (set_in_demand_backlog s b g) = supply_backlog g"
  "demand_backlog (set_in_supply_backlog s b g) = demand_backlog g"
  "demand_backlog (set_in_demand_backlog s b g) = demand_backlog g"
  "packets_produced (set_in_supply_backlog s b g) = packets_produced g"
  "packets_produced (set_in_demand_backlog s b g) = packets_produced g"
  "world (set_in_supply_backlog s b g) = world g" "world (set_in_demand_backlog s b g) = world g"
  by (simp_all add: set_in_supply_backlog_def set_in_demand_backlog_def put_stage_other)

lemma flags_set_flag [store_simps]:
  "flags_of (set_in_supply_backlog s b g) = (flags_of g)(s := map_option (\<lambda>f. (b, snd f)) (flags_of g s))"
  "flags_of (set_in_demand_backlog s b g) = (flags_of g)(s := map_option (\<lambda>f. (fst f, b)) (flags_of g s))"
  by (auto simp: set_in_supply_backlog_def set_in_demand_backlog_def put_stage_def flags_of_def option.map_comp
    comp_def fun_eq_iff)

end
