(* ===== verification/Graph_Build.thy ===== *)
theory Graph_Build
  imports Stage_Store
begin

text \<open>
  The class \<^verbatim>\<open>Graph\<close> (services/media/framework/graph.h, graph.cc) as a builder: adding
  stages, connecting and disconnecting their inputs and outputs, removing them. What
  the graph does through its engine (prepare, flush, update) is in \<open>Stage_Engine\<close>.

  The invariant \<open>graph_inv\<close> says that a connection is known at both its ends, that the
  lists of the graph name exactly the stages, the sources and the sinks of the store,
  and that the backlogs of the engine are empty, which they are outside an update.
\<close>

section \<open>References\<close>

text \<open>\<^verbatim>\<open>input()\<close> and \<^verbatim>\<open>output()\<close> of a part with exactly one of them.\<close>

definition PartRef_input :: "nat \<Rightarrow> 'w Graph \<Rightarrow> ref res" where
  "PartRef_input s g = rbind (stage_at s g) (\<lambda>st. dcheck (length (stg_inputs st) = 1) (Inr (s, 0)))"

definition PartRef_output :: "nat \<Rightarrow> 'w Graph \<Rightarrow> ref res" where
  "PartRef_output s g = rbind (stage_at s g) (\<lambda>st. dcheck (length (stg_outputs st) = 1) (Inr (s, 0)))"

section \<open>The operations of the graph\<close>

text \<open>\<open>s\<close> is the address of the new stage \<open>st\<close>: operator new gives one no stage has.\<close>

definition Graph_Add :: "nat \<Rightarrow> Stage \<Rightarrow> 'w Graph \<Rightarrow> 'w Graph" where
  "Graph_Add s st g =
     g\<lparr>store := (store g)(s \<mapsto> st\<lparr>update_callback := True\<rparr>),
       stages := stages g @ [s],
       sources := (if stg_inputs st = [] then sources g @ [s] else sources g),
       sinks := (if stg_outputs st = [] then sinks g @ [s] else sinks g)\<rparr>"

definition DisconnectOutput :: "ref \<Rightarrow> 'w Graph \<Rightarrow> 'w Graph res" where
  "DisconnectOutput r g =
     rbind (output_at r g) (\<lambda>y.
       (case out_mate y of None \<Rightarrow> Inr g
        | Some m \<Rightarrow> rbind (input_at m g) (\<lambda>x.
            if prepared x then Inl Dcheck_failed
            else rbind (Input_Disconnect m g) (Output_Disconnect r))))"

definition DisconnectInput :: "ref \<Rightarrow> 'w Graph \<Rightarrow> 'w Graph res" where
  "DisconnectInput r g =
     rbind (input_at r g) (\<lambda>x.
       (case in_mate x of None \<Rightarrow> Inr g
        | Some m \<Rightarrow> rbind (output_at m g) (\<lambda>y.
            if prepared x then Inl Dcheck_failed
            else rbind (Output_Disconnect m g) (Input_Disconnect r))))"

definition Graph_Connect :: "ref \<Rightarrow> ref \<Rightarrow> 'w Graph \<Rightarrow> (nat \<times> 'w Graph) res" where
  "Graph_Connect output input g =
     rbind (output_at output g) (\<lambda>y. rbind (input_at input g) (\<lambda>_.
       rbind (if out_mate y \<noteq> None then DisconnectOutput output g else Inr g) (\<lambda>g1.
       rbind (input_at input g1) (\<lambda>x.
       rbind (if in_mate x \<noteq> None then DisconnectInput input g1 else Inr g1) (\<lambda>g2.
       rbind (Output_Connect output input g2) (\<lambda>g3.
       rbind (Input_Connect input output g3) (\<lambda>g4. Inr (fst input, g4))))))))"

definition ConnectParts :: "nat \<Rightarrow> nat \<Rightarrow> 'w Graph \<Rightarrow> (nat \<times> 'w Graph) res" where
  "ConnectParts upstream downstream g =
     rbind (PartRef_output upstream g) (\<lambda>output. rbind (PartRef_input downstream g) (\<lambda>input.
       rbind (Graph_Connect output input g) (\<lambda>(_, g1). Inr (downstream, g1))))"

definition ConnectOutputToPart :: "ref \<Rightarrow> nat \<Rightarrow> 'w Graph \<Rightarrow> (nat \<times> 'w Graph) res" where
  "ConnectOutputToPart output downstream g =
     rbind (output_at output g) (\<lambda>_. rbind (PartRef_input downstream g) (\<lambda>input.
       rbind (Graph_Connect output input g) (\<lambda>(_, g1). Inr (downstream, g1))))"

definition ConnectPartToInput :: "nat \<Rightarrow> ref \<Rightarrow> 'w Graph \<Rightarrow> (nat \<times> 'w Graph) res" where
  "ConnectPartToInput upstream input g =
     rbind (input_at input g) (\<lambda>_. rbind (PartRef_output upstream g) (\<lambda>output.
       rbind (Graph_Connect output input g) (\<lambda>(_, g1). Inr (fst input, g1))))"

text \<open>The packets a stage owns, which its destructor releases.\<close>

fun impl_packets :: "impl \<Rightarrow> Packet list" where
  "impl_packets (TransformStage _ _) = []"
| "impl_packets (ActiveSourceStage _ ps) = ps"
| "impl_packets (ActiveSinkStage _) = []"
| "impl_packets (MultistreamSourceStage c _ _) = (case c of None \<Rightarrow> [] | Some p \<Rightarrow> [p])"
| "impl_packets (ActiveMultistreamSourceStage c _ _ _) = (case c of None \<Rightarrow> [] | Some p \<Rightarrow> [p])"
| "impl_packets (ActiveMultistreamSinkStage _) = []"

definition input_packets :: "Input list \<Rightarrow> Packet list" where
  "input_packets xs = List.map_filter packet_from_upstream xs"

definition stage_packets :: "Stage \<Rightarrow> Packet list" where
  "stage_packets st = impl_packets (stg_impl st) @ input_packets (stg_inputs st)"

fun release_all :: "'w Part_ops \<Rightarrow> Packet list \<Rightarrow> 'w Graph \<Rightarrow> 'w Graph res" where
  "release_all ops [] g = Inr g"
| "release_all ops (p # ps) g = rbind (release ops p g) (release_all ops ps)"

definition delete_stage :: "'w Part_ops \<Rightarrow> nat \<Rightarrow> 'w Graph \<Rightarrow> 'w Graph res" where
  "delete_stage ops s g =
     rbind (stage_at s g) (\<lambda>st. rbind (release_all ops (stage_packets st) g) (\<lambda>g1.
       Inr (g1\<lparr>store := (store g1)(s := None)\<rparr>)))"

text \<open>The loops of \<^verbatim>\<open>RemovePart\<close> over the inputs and over the outputs of the stage.\<close>

fun disconnect_inputs :: "nat \<Rightarrow> nat list \<Rightarrow> 'w Graph \<Rightarrow> 'w Graph res" where
  "disconnect_inputs s [] g = Inr g"
| "disconnect_inputs s (i # is) g =
     rbind (input_at (s, i) g) (\<lambda>x.
       rbind (if in_mate x \<noteq> None then DisconnectInput (s, i) g else Inr g) (disconnect_inputs s is))"

fun disconnect_outputs :: "nat \<Rightarrow> nat list \<Rightarrow> 'w Graph \<Rightarrow> 'w Graph res" where
  "disconnect_outputs s [] g = Inr g"
| "disconnect_outputs s (i # is) g =
     rbind (output_at (s, i) g) (\<lambda>y.
       rbind (if out_mate y \<noteq> None then DisconnectOutput (s, i) g else Inr g) (disconnect_outputs s is))"

definition RemovePart :: "'w Part_ops \<Rightarrow> nat \<Rightarrow> 'w Graph \<Rightarrow> 'w Graph res" where
  "RemovePart ops s g =
     rbind (stage_at s g) (\<lambda>st.
     rbind (disconnect_inputs s [0..<length (stg_inputs st)] g) (\<lambda>g1.
     rbind (stage_at s g1) (\<lambda>st1.
     rbind (disconnect_outputs s [0..<length (stg_outputs st1)] g1) (\<lambda>g2.
       (let g3 = SetUpdateCallback s False g2;
            g4 = g3\<lparr>sources := removeAll s (sources g3), sinks := removeAll s (sinks g3),
                    stages := removeAll s (stages g3)\<rparr>
        in delete_stage ops s g4)))))"

text \<open>
  The work list of \<^verbatim>\<open>RemovePartsConnectedToPart\<close>: \<^verbatim>\<open>part.input(i).part()\<close> is the part that
  owns the input, so what is pushed is \<open>s\<close> itself, once for each input and each output.
\<close>

partial_function (option) remove_parts_loop :: "'w Part_ops \<Rightarrow> nat list \<Rightarrow> 'w Graph \<Rightarrow> ('w Graph res) option" where
  "remove_parts_loop ops to_remove g =
     (case to_remove of [] \<Rightarrow> Some (Inr g)
      | s # rest \<Rightarrow>
          (case stage_at s g of Inl e \<Rightarrow> Some (Inl e)
           | Inr st \<Rightarrow>
               (case RemovePart ops s g of Inl e \<Rightarrow> Some (Inl e)
                | Inr g1 \<Rightarrow> remove_parts_loop ops
                    (rest @ replicate (length (stg_inputs st)) s @ replicate (length (stg_outputs st)) s) g1)))"

definition RemovePartsConnectedToPart :: "'w Part_ops \<Rightarrow> nat \<Rightarrow> 'w Graph \<Rightarrow> 'w Graph res" where
  "RemovePartsConnectedToPart ops s g = rbind (of_loop (remove_parts_loop ops [s] g)) (\<lambda>r. r)"

definition RemovePartsConnectedToOutput :: "'w Part_ops \<Rightarrow> ref \<Rightarrow> 'w Graph \<Rightarrow> 'w Graph res" where
  "RemovePartsConnectedToOutput ops r g =
     rbind (output_at r g) (\<lambda>y.
       (case out_mate y of None \<Rightarrow> Inr g
        | Some m \<Rightarrow> rbind (DisconnectOutput r g) (RemovePartsConnectedToPart ops (fst m))))"

definition RemovePartsConnectedToInput :: "'w Part_ops \<Rightarrow> ref \<Rightarrow> 'w Graph \<Rightarrow> 'w Graph res" where
  "RemovePartsConnectedToInput ops r g =
     rbind (input_at r g) (\<lambda>x.
       (case in_mate x of None \<Rightarrow> Inr g
        | Some m \<Rightarrow> rbind (DisconnectInput r g) (RemovePartsConnectedToPart ops (fst m))))"

fun delete_stages :: "'w Part_ops \<Rightarrow> nat list \<Rightarrow> 'w Graph \<Rightarrow> 'w Graph res" where
  "delete_stages ops [] g = Inr g"
| "delete_stages ops (s # ss) g = rbind (delete_stage ops s (g\<lparr>stages := ss\<rparr>)) (delete_stages ops ss)"

definition Graph_Reset :: "'w Part_ops \<Rightarrow> 'w Graph \<Rightarrow> 'w Graph res" where
  "Graph_Reset ops g = delete_stages ops (stages g) (g\<lparr>sources := [], sinks := []\<rparr>)"

definition new_Graph :: "'w \<Rightarrow> 'w Graph" where
  "new_Graph w = \<lparr>store = Map.empty, stages = [], sources = [], sinks = [], supply_backlog = [],
                  demand_backlog = [], packets_produced = False, world = w\<rparr>"

section \<open>The invariant\<close>

definition imate :: "'w Graph \<Rightarrow> ref \<Rightarrow> ref option" where
  "imate g r = (case input_at r g of Inl _ \<Rightarrow> None | Inr x \<Rightarrow> in_mate x)"

definition omate :: "'w Graph \<Rightarrow> ref \<Rightarrow> ref option" where
  "omate g r = (case output_at r g of Inl _ \<Rightarrow> None | Inr y \<Rightarrow> out_mate y)"

definition links_ok :: "'w Graph \<Rightarrow> bool" where
  "links_ok g \<longleftrightarrow> (\<forall>r q. omate g r = Some q \<longleftrightarrow> imate g q = Some r)"

definition no_inputs :: "'w Graph \<Rightarrow> nat \<Rightarrow> bool" where
  "no_inputs g s \<longleftrightarrow> map_option fst (counts_of g s) = Some 0"

definition no_outputs :: "'w Graph \<Rightarrow> nat \<Rightarrow> bool" where
  "no_outputs g s \<longleftrightarrow> map_option snd (counts_of g s) = Some 0"

definition lists_ok :: "'w Graph \<Rightarrow> bool" where
  "lists_ok g \<longleftrightarrow> distinct (stages g) \<and> set (stages g) = {s. live g s} \<and>
     sources g = filter (no_inputs g) (stages g) \<and> sinks g = filter (no_outputs g) (stages g)"

fun shape :: "impl \<Rightarrow> nat \<times> nat \<Rightarrow> bool" where
  "shape (TransformStage _ _) (i, j) \<longleftrightarrow> i = 1 \<and> j = 1"
| "shape (ActiveSourceStage _ _) (i, j) \<longleftrightarrow> i = 0 \<and> j = 1"
| "shape (ActiveSinkStage _) (i, j) \<longleftrightarrow> i = 1 \<and> j = 0"
| "shape (MultistreamSourceStage c k e) (i, j) \<longleftrightarrow> i = 0 \<and> (c \<noteq> None \<longrightarrow> k < j)"
| "shape (ActiveMultistreamSourceStage c k e b) (i, j) \<longleftrightarrow> i = 0 \<and> (c \<noteq> None \<longrightarrow> k < j)"
| "shape (ActiveMultistreamSinkStage a) (i, j) \<longleftrightarrow>
     0 < i \<and> i = length (ams_inputs a) \<and> (\<forall>n \<in> set (ams_pending_inputs a). n < i) \<and> j = 0"

definition packets_ok :: "'w Graph \<Rightarrow> bool" where
  "packets_ok g \<longleftrightarrow>
     (\<forall>s k p. impl_of g s = Some k \<and> p \<in> set (impl_packets k) \<longrightarrow> packet_ok p) \<and>
     (\<forall>r x p. input_at r g = Inr x \<and> packet_from_upstream x = Some p \<longrightarrow> packet_ok p)"

definition stages_ok :: "'w Graph \<Rightarrow> bool" where
  "stages_ok g \<longleftrightarrow> (\<forall>s k c. impl_of g s = Some k \<and> counts_of g s = Some c \<longrightarrow> shape k c) \<and>
     packets_ok g \<and> (\<forall>s. live g s \<longrightarrow> callback_of g s = Some True)"

definition at_rest :: "'w Graph \<Rightarrow> bool" where
  "at_rest g \<longleftrightarrow> supply_backlog g = [] \<and> demand_backlog g = [] \<and>
     (\<forall>s. live g s \<longrightarrow> flags_of g s = Some (False, False))"

definition graph_inv :: "'w Graph \<Rightarrow> bool" where
  "graph_inv g \<longleftrightarrow> links_ok g \<and> lists_ok g \<and> stages_ok g \<and> at_rest g"

lemma imate_put_input [store_simps]:
  "imate (put_input r (\<lambda>x. x\<lparr>in_mate := m\<rparr>) g) = (imate g)(r := (case input_at r g of Inl _ \<Rightarrow> None | Inr x \<Rightarrow> m))"
  by (auto simp: imate_def store_simps fun_eq_iff split: sum.splits)

lemma omate_put_output [store_simps]:
  "omate (put_output r (\<lambda>x. x\<lparr>out_mate := m\<rparr>) g) = (omate g)(r := (case output_at r g of Inl _ \<Rightarrow> None | Inr x \<Rightarrow> m))"
  by (auto simp: omate_def store_simps fun_eq_iff split: sum.splits)

lemma mate_put_other [store_simps]:
  "omate (put_input r f g) = omate g" "imate (put_output r h g) = imate g"
  by (auto simp: omate_def imate_def store_simps fun_eq_iff)

lemma no_put [store_simps]:
  "no_inputs (put_input r f g) = no_inputs g" "no_outputs (put_input r f g) = no_outputs g"
  "no_inputs (put_output r h g) = no_inputs g" "no_outputs (put_output r h g) = no_outputs g"
  by (auto simp: no_inputs_def no_outputs_def store_simps fun_eq_iff)

lemma input_at_live: "input_at r g = Inr x \<Longrightarrow> live g (fst r)"
  by (auto simp: input_at_def stage_at_def live_def split: option.splits)

lemma output_at_live: "output_at r g = Inr y \<Longrightarrow> live g (fst r)"
  by (auto simp: output_at_def stage_at_def live_def split: option.splits)

lemma imate_live: "imate g r = Some q \<Longrightarrow> live g (fst r)"
  by (auto simp: imate_def dest: input_at_live split: sum.splits)

lemma omate_live: "omate g r = Some q \<Longrightarrow> live g (fst r)"
  by (auto simp: omate_def dest: output_at_live split: sum.splits)

lemma links_iff: "links_ok g \<Longrightarrow> omate g r = Some q \<longleftrightarrow> imate g q = Some r"
  unfolding links_ok_def by blast

lemma links_live: "links_ok g \<Longrightarrow> imate g r = Some q \<Longrightarrow> live g (fst q)"
  "links_ok g \<Longrightarrow> omate g r = Some q \<Longrightarrow> live g (fst q)"
  using links_iff omate_live imate_live by blast+

lemma imate_Some: "input_at r g = Inr x \<Longrightarrow> imate g r = in_mate x"
  by (simp add: imate_def)

lemma omate_Some: "output_at r g = Inr y \<Longrightarrow> omate g r = out_mate y"
  by (simp add: omate_def)

lemma at_exists:
  "imate g r = Some q \<Longrightarrow> \<exists>x. input_at r g = Inr x \<and> in_mate x = Some q"
  "omate g r = Some q \<Longrightarrow> \<exists>y. output_at r g = Inr y \<and> out_mate y = Some q"
  by (auto simp: imate_def omate_def split: sum.splits)

text \<open>What a change of the mates leaves of the rest of the invariant.\<close>

lemma stages_ok_put:
  "stages_ok g \<Longrightarrow> (\<And>x. packet_from_upstream (f x) = packet_from_upstream x) \<Longrightarrow> stages_ok (put_input r f g)"
  "stages_ok g \<Longrightarrow> stages_ok (put_output q h g)"
  unfolding stages_ok_def packets_ok_def by (auto simp: store_simps split: if_splits sum.splits) (case_tac "input_at r g"; auto)+

lemma lists_ok_put: "lists_ok g \<Longrightarrow> lists_ok (put_input r f g)" "lists_ok g \<Longrightarrow> lists_ok (put_output q h g)"
  by (simp_all add: lists_ok_def store_simps)

lemma at_rest_put: "at_rest g \<Longrightarrow> at_rest (put_input r f g)" "at_rest g \<Longrightarrow> at_rest (put_output q h g)"
  by (simp_all add: at_rest_def store_simps)

section \<open>Connecting and disconnecting\<close>

text \<open>\<open>unlink r q\<close> is the effect of a successful disconnection of output \<open>r\<close> and input \<open>q\<close>.\<close>

definition unlink :: "ref \<Rightarrow> ref \<Rightarrow> 'w Graph \<Rightarrow> 'w Graph" where
  "unlink r q g = put_input q (\<lambda>x. x\<lparr>in_mate := None\<rparr>) (put_output r (\<lambda>y. y\<lparr>out_mate := None\<rparr>) g)"

lemma put_commute: "put_input q f (put_output r h g) = put_output r h (put_input q f g)"
  by (cases q; cases r) (auto simp: put_input_def put_output_def put_stage_def option.map_comp comp_def
    intro!: Graph.equality ext option.map_cong)

lemma DisconnectOutput_unlink:
  assumes "links_ok g" "output_at r g = Inr y"
  shows "DisconnectOutput r g =
    (case out_mate y of None \<Rightarrow> Inr g
     | Some q \<Rightarrow> if map_sum (\<lambda>e. e) prepared (input_at q g) = Inr True then Inl Dcheck_failed else Inr (unlink r q g))"
proof (cases "out_mate y")
  case None
  with assms show ?thesis by (simp add: DisconnectOutput_def)
next
  case (Some q)
  with assms have "imate g q = Some r" by (simp add: links_iff [symmetric] omate_Some)
  then obtain x where "input_at q g = Inr x" using at_exists(1) by blast
  with assms Some show ?thesis
    by (auto simp: DisconnectOutput_def Input_Disconnect_def Output_Disconnect_def unlink_def store_simps put_commute)
qed

lemma DisconnectInput_unlink:
  assumes "links_ok g" "input_at q g = Inr x"
  shows "DisconnectInput q g =
    (case in_mate x of None \<Rightarrow> Inr g
     | Some r \<Rightarrow> if prepared x then Inl Dcheck_failed else Inr (unlink r q g))"
proof (cases "in_mate x")
  case None
  with assms show ?thesis by (simp add: DisconnectInput_def)
next
  case (Some r)
  with assms have "omate g r = Some q" by (simp add: links_iff imate_Some)
  then obtain y where "output_at r g = Inr y" using at_exists(2) by blast
  with assms Some show ?thesis
    by (auto simp: DisconnectInput_def Input_Disconnect_def Output_Disconnect_def unlink_def store_simps put_commute)
qed

lemma mates_unlink [store_simps]:
  "imate (unlink r q g) = (imate g)(q := None)" "omate (unlink r q g) = (omate g)(r := None)"
  by (auto simp: unlink_def store_simps fun_eq_iff split: sum.splits)

lemma links_ok_unlink: "links_ok g \<Longrightarrow> omate g r = Some q \<Longrightarrow> links_ok (unlink r q g)"
  unfolding links_ok_def mates_unlink fun_upd_apply by (metis option.distinct(1) option.inject)

lemma graph_inv_unlink: "graph_inv g \<Longrightarrow> omate g r = Some q \<Longrightarrow> graph_inv (unlink r q g)"
  unfolding graph_inv_def
  by (simp add: links_ok_unlink) (simp add: unlink_def stages_ok_put lists_ok_put at_rest_put)

lemma at_unlink:
  "input_at q' (unlink r q g) = (if q' = q then map_sum (\<lambda>e. e) (\<lambda>x. x\<lparr>in_mate := None\<rparr>) (input_at q g) else input_at q' g)"
  "output_at r' (unlink r q g) = (if r' = r then map_sum (\<lambda>e. e) (\<lambda>y. y\<lparr>out_mate := None\<rparr>) (output_at r g) else output_at r' g)"
  by (simp_all add: unlink_def store_simps)

lemma of_unlink [store_simps]:
  "live (unlink r q g) = live g" "impl_of (unlink r q g) = impl_of g" "part_of (unlink r q g) = part_of g"
  "counts_of (unlink r q g) = counts_of g"
  by (simp_all add: unlink_def store_simps)

lemma DisconnectOutput_inv:
  assumes "graph_inv g" "DisconnectOutput r g = Inr g'"
  shows "graph_inv g'" "omate g' = (omate g)(r := None)" "live g' = live g" "counts_of g' = counts_of g"
    "imate g' = (case omate g r of None \<Rightarrow> imate g | Some q \<Rightarrow> (imate g)(q := None))"
proof -
  have l: "links_ok g" using assms(1) by (simp add: graph_inv_def)
  obtain y where y: "output_at r g = Inr y" using assms(2) by (auto simp: DisconnectOutput_def rbind_eq_Inr_iff)
  note eq = assms(2) [unfolded DisconnectOutput_unlink [OF l y]]
  have "graph_inv g' \<and> omate g' = (omate g)(r := None) \<and> live g' = live g \<and> counts_of g' = counts_of g \<and>
    imate g' = (case omate g r of None \<Rightarrow> imate g | Some q \<Rightarrow> (imate g)(q := None))"
    using eq assms(1) omate_Some [OF y]
    by (auto simp: store_simps fun_upd_idem split: option.splits if_splits intro: graph_inv_unlink)
  then show "graph_inv g'" "omate g' = (omate g)(r := None)" "live g' = live g" "counts_of g' = counts_of g"
    "imate g' = (case omate g r of None \<Rightarrow> imate g | Some q \<Rightarrow> (imate g)(q := None))" by blast+
qed

lemma graph_inv_unlink_input: "graph_inv g \<Longrightarrow> imate g q = Some r \<Longrightarrow> graph_inv (unlink r q g)"
  using graph_inv_unlink links_iff graph_inv_def by blast

lemma DisconnectInput_inv:
  assumes "graph_inv g" "DisconnectInput q g = Inr g'"
  shows "graph_inv g'" "imate g' = (imate g)(q := None)" "live g' = live g" "counts_of g' = counts_of g"
    "omate g' = (case imate g q of None \<Rightarrow> omate g | Some r \<Rightarrow> (omate g)(r := None))"
proof -
  have l: "links_ok g" using assms(1) by (simp add: graph_inv_def)
  obtain x where x: "input_at q g = Inr x" using assms(2) by (auto simp: DisconnectInput_def rbind_eq_Inr_iff)
  note eq = assms(2) [unfolded DisconnectInput_unlink [OF l x]]
  have "graph_inv g' \<and> imate g' = (imate g)(q := None) \<and> live g' = live g \<and> counts_of g' = counts_of g \<and>
    omate g' = (case imate g q of None \<Rightarrow> omate g | Some r \<Rightarrow> (omate g)(r := None))"
    using eq assms(1) imate_Some [OF x]
    by (auto simp: store_simps fun_upd_idem split: option.splits if_splits intro: graph_inv_unlink_input)
  then show "graph_inv g'" "imate g' = (imate g)(q := None)" "live g' = live g" "counts_of g' = counts_of g"
    "omate g' = (case imate g q of None \<Rightarrow> omate g | Some r \<Rightarrow> (omate g)(r := None))" by blast+
qed

text \<open>\<open>link r q\<close> is the effect of connecting output \<open>r\<close> and input \<open>q\<close>, both free.\<close>

definition link :: "ref \<Rightarrow> ref \<Rightarrow> 'w Graph \<Rightarrow> 'w Graph" where
  "link r q g = put_input q (\<lambda>x. x\<lparr>in_mate := Some r\<rparr>) (put_output r (\<lambda>y. y\<lparr>out_mate := Some q\<rparr>) g)"

lemma mates_link:
  assumes "output_at r g = Inr y" "input_at q g = Inr x"
  shows "imate (link r q g) = (imate g)(q \<mapsto> r)" "omate (link r q g) = (omate g)(r \<mapsto> q)"
  using assms by (auto simp: link_def store_simps fun_eq_iff split: sum.splits)

lemma graph_inv_link:
  assumes "graph_inv g" "output_at r g = Inr y" "input_at q g = Inr x" "out_mate y = None" "in_mate x = None"
  shows "graph_inv (link r q g)"
proof -
  have l: "links_ok g" using assms(1) by (simp add: graph_inv_def)
  have "links_ok (link r q g)"
    unfolding links_ok_def mates_link [OF assms(2,3)] fun_upd_apply
    using l [unfolded links_ok_def] assms(4,5) omate_Some [OF assms(2)] imate_Some [OF assms(3)]
    by (metis option.distinct(1) option.inject)
  then show ?thesis using assms(1)
    by (simp add: graph_inv_def link_def stages_ok_put lists_ok_put at_rest_put)
qed

lemma Connect_free:
  assumes "output_at r g = Inr y" "input_at q g = Inr x" "out_mate y = None" "in_mate x = None"
  shows "rbind (Output_Connect r q g) (\<lambda>g3. rbind (Input_Connect q r g3) (\<lambda>g4. Inr (fst q, g4))) = Inr (fst q, link r q g)"
proof -
  have "InputRef_valid (Some q) g = Inr True"
    using assms(2) by (cases q) (auto simp: InputRef_valid_def input_at_def rbind_eq_Inr_iff)
  moreover have "OutputRef_valid (Some r) (put_output r h g) = Inr True" for h
    using assms(1) by (cases r) (auto simp: OutputRef_valid_def output_at_def rbind_eq_Inr_iff put_output_def store_simps)
  ultimately show ?thesis
    using assms by (simp add: Output_Connect_def Input_Connect_def link_def store_simps)
qed

text \<open>The mates after a connection: \<open>r\<close> and \<open>q\<close> have each other and nobody else has them.\<close>

definition connected_mates :: "ref \<Rightarrow> ref \<Rightarrow> (ref \<Rightarrow> ref option) \<Rightarrow> ref \<Rightarrow> ref option" where
  "connected_mates r q m = (\<lambda>r'. if r' = r then Some q else if m r' = Some q then None else m r')"

lemma unlink_mate_free:
  "graph_inv g \<Longrightarrow> DisconnectOutput r g = Inr g' \<Longrightarrow> output_at r g' = Inr y \<Longrightarrow> out_mate y = None"
  using DisconnectOutput_inv(2) [of g r g'] by (simp add: omate_Some [symmetric])

lemma exists_counts:
  "(\<exists>x. input_at r g = Inr x) \<longleftrightarrow> (\<exists>c. counts_of g (fst r) = Some c \<and> snd r < fst c)"
  "(\<exists>y. output_at r g = Inr y) \<longleftrightarrow> (\<exists>c. counts_of g (fst r) = Some c \<and> snd r < snd c)"
  by (auto simp: input_at_def output_at_def counts_of_def stage_at_def rbind_eq_Inr_iff split: option.splits)

lemma Graph_Connect_inv:
  assumes inv: "graph_inv g" and ok: "Graph_Connect r q g = Inr (d, g')"
  shows "graph_inv g' \<and> d = fst q \<and> live g' = live g \<and> counts_of g' = counts_of g \<and>
    omate g' = connected_mates r q (omate g) \<and> imate g' = connected_mates q r (imate g)"
proof -
  from ok obtain y x0 g1 x g2 where y: "output_at r g = Inr y" and x0: "input_at q g = Inr x0"
    and g1: "(if out_mate y \<noteq> None then DisconnectOutput r g else Inr g) = Inr g1"
    and x: "input_at q g1 = Inr x"
    and g2: "(if in_mate x \<noteq> None then DisconnectInput q g1 else Inr g1) = Inr g2"
    and fin: "rbind (Output_Connect r q g2) (\<lambda>g3. rbind (Input_Connect q r g3) (\<lambda>g4. Inr (fst q, g4))) = Inr (d, g')"
    unfolding Graph_Connect_def rbind_eq_Inr_iff by blast
  have d1: "DisconnectOutput r g = Inr g1" using g1 y by (cases "out_mate y") (simp_all add: DisconnectOutput_def)
  have 1: "graph_inv g1" "omate g1 = (omate g)(r := None)" "live g1 = live g" "counts_of g1 = counts_of g"
    "imate g1 = (case omate g r of None \<Rightarrow> imate g | Some q \<Rightarrow> (imate g)(q := None))"
    by (rule DisconnectOutput_inv [OF inv d1])+
  have d2: "DisconnectInput q g1 = Inr g2" using g2 x by (cases "in_mate x") (simp_all add: DisconnectInput_def)
  have 2: "graph_inv g2" "imate g2 = (imate g1)(q := None)" "live g2 = live g" "counts_of g2 = counts_of g"
    "omate g2 = (case imate g1 q of None \<Rightarrow> omate g1 | Some r \<Rightarrow> (omate g1)(r := None))"
    unfolding 1(3,4) [symmetric] by (rule DisconnectInput_inv [OF 1(1) d2])+
  obtain y2 x2 where e: "output_at r g2 = Inr y2" "input_at q g2 = Inr x2"
    using exists_counts [of r g] exists_counts [of q g] exists_counts [of r g2] exists_counts [of q g2] y x0 2(4)
    by metis
  have f: "out_mate y2 = None" "in_mate x2 = None"
    using omate_Some [OF e(1)] imate_Some [OF e(2)] 2(2,5) 1(2) by (auto split: option.splits if_splits)
  have g': "d = fst q" "g' = link r q g2" using fin Connect_free [OF e f] by auto
  have l: "links_ok g" using inv by (simp add: graph_inv_def)
  have "omate g' = connected_mates r q (omate g)"
  proof (rule ext)
    fix r'
    show "omate g' r' = connected_mates r q (omate g) r'"
      unfolding g' mates_link(2) [OF e] connected_mates_def 2(5) 1(5) 1(2)
      using links_iff [OF l, of r' q] links_iff [OF l, of r q] by (cases "omate g r"; cases "imate g q") auto
  qed
  moreover have "imate g' = connected_mates q r (imate g)"
  proof (rule ext)
    fix q'
    show "imate g' q' = connected_mates q r (imate g) q'"
      unfolding g' mates_link(1) [OF e] connected_mates_def 2(2) 1(5)
      using links_iff [OF l, of r q'] by (cases "omate g r") auto
  qed
  moreover have "graph_inv g'" unfolding g' by (rule graph_inv_link [OF 2(1) e f])
  moreover have "live g' = live g" "counts_of g' = counts_of g"
    using 2(3,4) by (simp_all add: g' link_def store_simps)
  ultimately show ?thesis using g'(1) by blast
qed

text \<open>
  The operation succeeds unless one of the connections it would have to break first is
  prepared.
\<close>

definition is_prepared :: "'w Graph \<Rightarrow> ref \<Rightarrow> bool" where
  "is_prepared g q \<longleftrightarrow> map_sum (\<lambda>e. e) prepared (input_at q g) = Inr True"

lemma Graph_Connect_total:
  assumes inv: "graph_inv g" and y: "output_at r g = Inr y" and x: "input_at q g = Inr x"
    and free: "\<And>q'. omate g r = Some q' \<Longrightarrow> \<not> is_prepared g q'" "imate g q \<noteq> None \<Longrightarrow> \<not> is_prepared g q"
  shows "\<exists>g'. Graph_Connect r q g = Inr (fst q, g')"
proof -
  have l: "links_ok g" using inv by (simp add: graph_inv_def)
  have "\<exists>g1. (if out_mate y \<noteq> None then DisconnectOutput r g else Inr g) = Inr g1"
    using free(1) by (auto simp: DisconnectOutput_unlink [OF l y] is_prepared_def omate_Some [OF y])
  then obtain g1 where g1: "(if out_mate y \<noteq> None then DisconnectOutput r g else Inr g) = Inr g1" ..
  have d1: "DisconnectOutput r g = Inr g1" using g1 y by (cases "out_mate y") (simp_all add: DisconnectOutput_def)
  note 1 = DisconnectOutput_inv [OF inv d1]
  have l1: "links_ok g1" using 1(1) by (simp add: graph_inv_def)
  obtain x1 where x1: "input_at q g1 = Inr x1" and p: "prepared x1 = prepared x" "in_mate x1 = None \<or> in_mate x1 = in_mate x"
    using d1 x by (cases "out_mate y") (fastforce simp: DisconnectOutput_unlink [OF l y] at_unlink split: if_splits)+
  have "\<exists>g2. (if in_mate x1 \<noteq> None then DisconnectInput q g1 else Inr g1) = Inr g2"
    using free(2) p by (auto simp: DisconnectInput_unlink [OF l1 x1] is_prepared_def imate_Some [OF x] x)
  then obtain g2 where g2: "(if in_mate x1 \<noteq> None then DisconnectInput q g1 else Inr g1) = Inr g2" ..
  have d2: "DisconnectInput q g1 = Inr g2" using g2 x1 by (cases "in_mate x1") (simp_all add: DisconnectInput_def)
  note 2 = DisconnectInput_inv [OF 1(1) d2]
  obtain y2 x2 where e: "output_at r g2 = Inr y2" "input_at q g2 = Inr x2"
    using exists_counts [of r g] exists_counts [of q g] exists_counts [of r g2] exists_counts [of q g2] y x 2(4) 1(4)
    by metis
  have f: "out_mate y2 = None" "in_mate x2 = None"
    using omate_Some [OF e(1)] imate_Some [OF e(2)] 2(2,5) 1(2) by (auto split: option.splits if_splits)
  show ?thesis
    unfolding Graph_Connect_def y x rbind_simps g1 x1 g2 Connect_free [OF e f] by blast
qed

section \<open>Removing parts\<close>

text \<open>\<open>cut P m\<close> is the mate function \<open>m\<close> without the mates that satisfy \<open>P\<close>.\<close>

definition cut :: "(ref \<Rightarrow> bool) \<Rightarrow> (ref \<Rightarrow> ref option) \<Rightarrow> ref \<Rightarrow> ref option" where
  "cut P m = (\<lambda>r. case m r of None \<Rightarrow> None | Some q \<Rightarrow> if P q then None else Some q)"

definition drop_at :: "(ref \<Rightarrow> bool) \<Rightarrow> (ref \<Rightarrow> ref option) \<Rightarrow> ref \<Rightarrow> ref option" where
  "drop_at P m = (\<lambda>r. if P r then None else m r)"

lemma DisconnectInput_cut:
  assumes "graph_inv g" "DisconnectInput q g = Inr g'"
  shows "imate g' = drop_at (\<lambda>q'. q' = q) (imate g)" "omate g' = cut (\<lambda>q'. q' = q) (omate g)"
proof -
  have l: "links_ok g" using assms(1) by (simp add: graph_inv_def)
  show "imate g' = drop_at (\<lambda>q'. q' = q) (imate g)"
    using DisconnectInput_inv(2) [OF assms] by (auto simp: drop_at_def)
  have "omate g' r = cut (\<lambda>q'. q' = q) (omate g) r" for r
    using DisconnectInput_inv(5) [OF assms] links_iff [OF l, of r q]
    by (cases "imate g q"; cases "omate g r") (auto simp: cut_def)
  then show "omate g' = cut (\<lambda>q'. q' = q) (omate g)" by (rule ext)
qed

lemma DisconnectOutput_cut:
  assumes "graph_inv g" "DisconnectOutput r g = Inr g'"
  shows "omate g' = drop_at (\<lambda>r'. r' = r) (omate g)" "imate g' = cut (\<lambda>r'. r' = r) (imate g)"
proof -
  have l: "links_ok g" using assms(1) by (simp add: graph_inv_def)
  show "omate g' = drop_at (\<lambda>r'. r' = r) (omate g)"
    using DisconnectOutput_inv(2) [OF assms] by (auto simp: drop_at_def)
  have "imate g' q = cut (\<lambda>r'. r' = r) (imate g) q" for q
    using DisconnectOutput_inv(5) [OF assms] links_iff [OF l, of r q]
    by (cases "omate g r"; cases "imate g q") (auto simp: cut_def)
  then show "imate g' = cut (\<lambda>r'. r' = r) (imate g)" by (rule ext)
qed

lemma drop_at_drop_at: "drop_at P (drop_at Q m) = drop_at (\<lambda>r. P r \<or> Q r) m"
  by (auto simp: drop_at_def)

lemma cut_cut: "cut P (cut Q m) = cut (\<lambda>r. P r \<or> Q r) m"
  by (auto simp: cut_def fun_eq_iff split: option.split)

lemma drop_at_cut: "drop_at P (cut Q m) = cut Q (drop_at P m)"
  by (auto simp: cut_def drop_at_def fun_eq_iff split: option.split)

text \<open>What disconnecting leaves: everything but the mates.\<close>

definition same_stages :: "'w Graph \<Rightarrow> 'w Graph \<Rightarrow> bool" where
  "same_stages g g' \<longleftrightarrow> live g' = live g \<and> counts_of g' = counts_of g \<and> impl_of g' = impl_of g \<and>
     part_of g' = part_of g \<and> stages g' = stages g \<and> sources g' = sources g \<and> sinks g' = sinks g \<and>
     world g' = world g \<and> is_prepared g' = is_prepared g \<and>
     (\<forall>r. map_sum (\<lambda>e. e) packet_from_upstream (input_at r g') = map_sum (\<lambda>e. e) packet_from_upstream (input_at r g))"

lemma same_stages_refl: "same_stages g g"
  by (simp add: same_stages_def)

lemma same_stages_trans: "same_stages g g' \<Longrightarrow> same_stages g' g'' \<Longrightarrow> same_stages g g''"
  by (simp add: same_stages_def)

lemma same_stages_unlink: "same_stages g (unlink r q g)"
  unfolding same_stages_def is_prepared_def fun_eq_iff at_unlink
  by (auto simp: unlink_def store_simps sum.map_comp comp_def)

lemma DisconnectInput_same:
  assumes "graph_inv g" "DisconnectInput q g = Inr g'" shows "same_stages g g'"
proof -
  have l: "links_ok g" using assms(1) by (simp add: graph_inv_def)
  obtain x where x: "input_at q g = Inr x" using assms(2) by (auto simp: DisconnectInput_def rbind_eq_Inr_iff)
  show ?thesis using assms(2) unfolding DisconnectInput_unlink [OF l x]
    by (cases "in_mate x") (auto simp: same_stages_refl same_stages_unlink split: if_splits)
qed

lemma DisconnectOutput_same:
  assumes "graph_inv g" "DisconnectOutput r g = Inr g'" shows "same_stages g g'"
proof -
  have l: "links_ok g" using assms(1) by (simp add: graph_inv_def)
  obtain y where y: "output_at r g = Inr y" using assms(2) by (auto simp: DisconnectOutput_def rbind_eq_Inr_iff)
  show ?thesis using assms(2) unfolding DisconnectOutput_unlink [OF l y]
    by (cases "out_mate y") (auto simp: same_stages_refl same_stages_unlink split: if_splits)
qed

lemma disconnect_input_guard:
  "input_at q g = Inr x \<Longrightarrow> (if in_mate x \<noteq> None then DisconnectInput q g else Inr g) = DisconnectInput q g"
  by (cases "in_mate x") (simp_all add: DisconnectInput_def)

lemma disconnect_output_guard:
  "output_at r g = Inr y \<Longrightarrow> (if out_mate y \<noteq> None then DisconnectOutput r g else Inr g) = DisconnectOutput r g"
  by (cases "out_mate y") (simp_all add: DisconnectOutput_def)

lemma disconnect_inputs_inv:
  "graph_inv g \<Longrightarrow> disconnect_inputs s is g = Inr g' \<Longrightarrow>
     graph_inv g' \<and> same_stages g g' \<and>
     imate g' = drop_at (\<lambda>q. fst q = s \<and> snd q \<in> set is) (imate g) \<and>
     omate g' = cut (\<lambda>q. fst q = s \<and> snd q \<in> set is) (omate g)"
proof (induction "is" arbitrary: g)
  case Nil
  then show ?case by (auto simp: same_stages_refl drop_at_def cut_def fun_eq_iff split: option.split)
next
  case (Cons i is')
  from Cons.prems(2) obtain x g1 where x: "input_at (s, i) g = Inr x" and d: "DisconnectInput (s, i) g = Inr g1"
    and r: "disconnect_inputs s is' g1 = Inr g'"
    by (auto simp: rbind_eq_Inr_iff disconnect_input_guard simp del: not_None_eq)
  have 1: "graph_inv g1" by (rule DisconnectInput_inv(1) [OF Cons.prems(1) d])
  have e: "(\<lambda>q. fst q = s \<and> snd q \<in> set (i # is')) = (\<lambda>q. fst q = s \<and> snd q \<in> set is' \<or> q = (s, i))"
    by (auto simp: fun_eq_iff)
  show ?case
    using Cons.IH [OF 1 r] same_stages_trans [OF DisconnectInput_same [OF Cons.prems(1) d]]
    unfolding DisconnectInput_cut [OF Cons.prems(1) d] drop_at_drop_at cut_cut e by blast
qed

lemma disconnect_outputs_inv:
  "graph_inv g \<Longrightarrow> disconnect_outputs s is g = Inr g' \<Longrightarrow>
     graph_inv g' \<and> same_stages g g' \<and>
     omate g' = drop_at (\<lambda>q. fst q = s \<and> snd q \<in> set is) (omate g) \<and>
     imate g' = cut (\<lambda>q. fst q = s \<and> snd q \<in> set is) (imate g)"
proof (induction "is" arbitrary: g)
  case Nil
  then show ?case by (auto simp: same_stages_refl drop_at_def cut_def fun_eq_iff split: option.split)
next
  case (Cons i is')
  from Cons.prems(2) obtain x g1 where x: "output_at (s, i) g = Inr x" and d: "DisconnectOutput (s, i) g = Inr g1"
    and r: "disconnect_outputs s is' g1 = Inr g'"
    by (auto simp: rbind_eq_Inr_iff disconnect_output_guard simp del: not_None_eq)
  have 1: "graph_inv g1" by (rule DisconnectOutput_inv(1) [OF Cons.prems(1) d])
  have e: "(\<lambda>q. fst q = s \<and> snd q \<in> set (i # is')) = (\<lambda>q. fst q = s \<and> snd q \<in> set is' \<or> q = (s, i))"
    by (auto simp: fun_eq_iff)
  show ?case
    using Cons.IH [OF 1 r] same_stages_trans [OF DisconnectOutput_same [OF Cons.prems(1) d]]
    unfolding DisconnectOutput_cut [OF Cons.prems(1) d] drop_at_drop_at cut_cut e by blast
qed


lemma release_ok: "packet_ok p \<Longrightarrow> \<exists>w. release ops p g = Inr (g\<lparr>world := w\<rparr>)"
  using Packet_Release_ok [of p ops "world g"] by (auto simp: release_def)

lemma release_all_ok:
  "\<forall>p \<in> set ps. packet_ok p \<Longrightarrow> \<exists>w. release_all ops ps g = Inr (g\<lparr>world := w\<rparr>)"
proof (induction ps arbitrary: g)
  case Nil
  have "g = g\<lparr>world := world g\<rparr>" by simp
  then show ?case by (metis release_all.simps(1))
next
  case (Cons p ps)
  obtain w where "release ops p g = Inr (g\<lparr>world := w\<rparr>)" using Cons.prems release_ok by fastforce
  moreover obtain w' where "release_all ops ps (g\<lparr>world := w\<rparr>) = Inr (g\<lparr>world := w\<rparr>\<lparr>world := w'\<rparr>)"
    using Cons by fastforce
  ultimately show ?case by auto
qed

lemma stage_packets_ok:
  assumes "packets_ok g" "store g s = Some st" "p \<in> set (stage_packets st)" shows "packet_ok p"
proof -
  have i: "impl_of g s = Some (stg_impl st)" using assms(2) by (simp add: impl_of_def)
  have n: "i < length (stg_inputs st) \<Longrightarrow> input_at (s, i) g = Inr (stg_inputs st ! i)" for i
    using assms(2) by (simp add: input_at_def stage_at_def)
  from assms(3) consider "p \<in> set (impl_packets (stg_impl st))"
    | i where "i < length (stg_inputs st)" "packet_from_upstream (stg_inputs st ! i) = Some p"
    by (auto simp: stage_packets_def input_packets_def map_filter_def in_set_conv_nth)
  then show ?thesis
  proof cases
    case 1
    then show ?thesis using assms(1) i unfolding packets_ok_def by blast
  next
    case 2
    then show ?thesis using assms(1) n unfolding packets_ok_def by blast
  qed
qed

definition without :: "nat \<Rightarrow> 'w Graph \<Rightarrow> 'w Graph" where
  "without s g = g\<lparr>store := (store g)(s := None)\<rparr>"

lemma delete_stage_ok:
  assumes "packets_ok g" "live g s"
  shows "\<exists>w. delete_stage ops s g = Inr (without s (g\<lparr>world := w\<rparr>))"
proof -
  obtain st where st: "store g s = Some st" using assms(2) by (auto simp: live_def)
  obtain w where "release_all ops (stage_packets st) g = Inr (g\<lparr>world := w\<rparr>)"
    using release_all_ok [of "stage_packets st" ops g] stage_packets_ok [OF assms(1) st] by blast
  then show ?thesis using st by (auto simp: delete_stage_def stage_at_def without_def)
qed

lemma of_without:
  "live (without s g) = (live g)(s := False)" "impl_of (without s g) = (impl_of g)(s := None)"
  "part_of (without s g) = (part_of g)(s := None)"
  "counts_of (without s g) = (counts_of g)(s := None)" "flags_of (without s g) = (flags_of g)(s := None)"
  "callback_of (without s g) = (callback_of g)(s := None)"
  "imate (without s g) = drop_at (\<lambda>q. fst q = s) (imate g)" "omate (without s g) = drop_at (\<lambda>q. fst q = s) (omate g)"
  by (auto simp: without_def live_def impl_of_def part_of_def counts_of_def flags_of_def callback_of_def imate_def
    omate_def drop_at_def fun_eq_iff input_at_def output_at_def stage_at_def)

lemma at_without:
  "input_at r (without s g) = (if fst r = s then Inl Null_deref else input_at r g)"
  "output_at r (without s g) = (if fst r = s then Inl Null_deref else output_at r g)"
  by (auto simp: without_def input_at_def output_at_def stage_at_def)


lemma graph_inv_without:
  assumes inv: "graph_inv g" and alone: "\<And>r q. omate g r = Some q \<Longrightarrow> fst r \<noteq> s \<and> fst q \<noteq> s"
    and st: "store h = store (without s g)" and h: "sources h = removeAll s (sources g)"
      "sinks h = removeAll s (sinks g)" "stages h = removeAll s (stages g)"
      "supply_backlog h = supply_backlog g" "demand_backlog h = demand_backlog g"
  shows "graph_inv h"
proof -
  have l: "links_ok g" and ls: "lists_ok g" and so: "stages_ok g" and ar: "at_rest g"
    using inv by (simp_all add: graph_inv_def)
  have at: "input_at r h = input_at r (without s g)" "output_at r h = output_at r (without s g)" for r
    using at_store_cong(2,3) [OF st] by blast+
  have im: "imate h = drop_at (\<lambda>q. fst q = s) (imate g)" "omate h = drop_at (\<lambda>q. fst q = s) (omate g)"
    unfolding of_without(7,8) [symmetric] imate_def omate_def at by blast+
  note of = at_store_cong(4-) [OF st]
  have "links_ok h"
    unfolding links_ok_def im drop_at_def
  proof (intro allI)
    fix r q
    show "((if fst r = s then None else omate g r) = Some q) = ((if fst q = s then None else imate g q) = Some r)"
      using links_iff [OF l, of r q] alone [of r q] by auto
  qed
  moreover have "lists_ok h"
    using ls by (auto simp: lists_ok_def h of of_without no_inputs_def no_outputs_def removeAll_filter_not_eq
      distinct_filter intro!: filter_cong)
  moreover have "stages_ok h"
    using so unfolding stages_ok_def packets_ok_def of at at_without of_without by auto
  moreover have "at_rest h"
    using ar by (simp add: at_rest_def of of_without h)
  ultimately show ?thesis by (simp add: graph_inv_def)
qed


lemma stage_at_counts: "stage_at s g = Inr st \<Longrightarrow> counts_of g s = Some (length (stg_inputs st), length (stg_outputs st))"
  by (auto simp: stage_at_def counts_of_def split: option.splits)

lemma exists_range:
  "counts_of g s = Some (m, n) \<Longrightarrow> imate g (s, i) \<noteq> None \<Longrightarrow> i < m"
  "counts_of g s = Some (m, n) \<Longrightarrow> omate g (s, i) \<noteq> None \<Longrightarrow> i < n"
proof -
  assume c: "counts_of g s = Some (m, n)"
  show "imate g (s, i) \<noteq> None \<Longrightarrow> i < m" "omate g (s, i) \<noteq> None \<Longrightarrow> i < n"
    using c exists_counts [of "(s, i)" g] at_exists [of g "(s, i)"] by fastforce+
qed

lemma drop_at_range:
  assumes "\<And>i. m (s, i) \<noteq> None \<Longrightarrow> i < n"
  shows "drop_at (\<lambda>q. fst q = s \<and> snd q \<in> set [0..<n]) m = drop_at (\<lambda>q. fst q = s) m"
proof (rule ext)
  fix q
  show "drop_at (\<lambda>q. fst q = s \<and> snd q \<in> set [0..<n]) m q = drop_at (\<lambda>q. fst q = s) m q"
    using assms [of "snd q"] by (cases q; cases "m q") (auto simp: drop_at_def)
qed

lemma cut_range:
  assumes "\<And>r i. m r = Some (s, i) \<Longrightarrow> i < n"
  shows "cut (\<lambda>q. fst q = s \<and> snd q \<in> set [0..<n]) m = cut (\<lambda>q. fst q = s) m"
proof (rule ext)
  fix r
  show "cut (\<lambda>q. fst q = s \<and> snd q \<in> set [0..<n]) m r = cut (\<lambda>q. fst q = s) m r"
    using assms [of r] by (cases "m r") (auto simp: cut_def)
qed

lemma RemovePart_inv:
  assumes inv: "graph_inv g" and ok: "RemovePart ops s g = Inr g'"
  shows "graph_inv g' \<and> live g' = (live g)(s := False) \<and>
    imate g' = cut (\<lambda>r. fst r = s) (drop_at (\<lambda>q. fst q = s) (imate g)) \<and>
    omate g' = cut (\<lambda>q. fst q = s) (drop_at (\<lambda>r. fst r = s) (omate g)) \<and>
    impl_of g' = (impl_of g)(s := None)"
proof -
  from ok obtain st g1 st1 g2 where st: "stage_at s g = Inr st"
    and d1: "disconnect_inputs s [0..<length (stg_inputs st)] g = Inr g1" and st1: "stage_at s g1 = Inr st1"
    and d2: "disconnect_outputs s [0..<length (stg_outputs st1)] g1 = Inr g2"
    and del: "delete_stage ops s ((SetUpdateCallback s False g2)
      \<lparr>sources := removeAll s (sources g2), sinks := removeAll s (sinks g2), stages := removeAll s (stages g2)\<rparr>) = Inr g'"
    unfolding RemovePart_def Let_def by (auto simp: rbind_eq_Inr_iff SetUpdateCallback_def put_stage_other)
  note i1 = disconnect_inputs_inv [OF inv d1]
  have inv1: "graph_inv g1" and s1: "same_stages g g1" using i1 by blast+
  note i2 = disconnect_outputs_inv [OF inv1 d2]
  have inv2: "graph_inv g2" and s2: "same_stages g g2" using i2 same_stages_trans [OF s1] by blast+
  have c: "counts_of g s = Some (length (stg_inputs st), length (stg_outputs st1))"
    using stage_at_counts [OF st] stage_at_counts [OF st1] s1 by (simp add: same_stages_def)
  have in_s: "drop_at (\<lambda>q. fst q = s \<and> snd q \<in> set [0..<length (stg_inputs st)]) (imate g) = drop_at (\<lambda>q. fst q = s) (imate g)"
    by (rule drop_at_range) (rule exists_range(1) [OF c])
  have out_s: "drop_at (\<lambda>q. fst q = s \<and> snd q \<in> set [0..<length (stg_outputs st1)]) (omate g) = drop_at (\<lambda>q. fst q = s) (omate g)"
    by (rule drop_at_range) (rule exists_range(2) [OF c])
  have l: "links_ok g" using inv by (simp add: graph_inv_def)
  have in_c: "cut (\<lambda>q. fst q = s \<and> snd q \<in> set [0..<length (stg_outputs st1)]) (imate g) = cut (\<lambda>q. fst q = s) (imate g)"
    by (rule cut_range) (use exists_range(2) [OF c] links_iff [OF l] in \<open>metis option.distinct(1)\<close>)
  have out_c: "cut (\<lambda>q. fst q = s \<and> snd q \<in> set [0..<length (stg_inputs st)]) (omate g) = cut (\<lambda>q. fst q = s) (omate g)"
    by (rule cut_range) (use exists_range(1) [OF c] links_iff [OF l] in \<open>metis option.distinct(1)\<close>)
  have im2: "imate g2 = cut (\<lambda>r. fst r = s) (drop_at (\<lambda>q. fst q = s) (imate g))"
    using i1 i2 unfolding in_s [symmetric] drop_at_cut [symmetric] in_c [symmetric] by (simp add: drop_at_cut)
  have om2: "omate g2 = cut (\<lambda>q. fst q = s) (drop_at (\<lambda>r. fst r = s) (omate g))"
    using i1 i2 unfolding out_s [symmetric] drop_at_cut [symmetric] out_c [symmetric] by (simp add: drop_at_cut)
  have alone: "omate g2 r = Some q \<Longrightarrow> fst r \<noteq> s \<and> fst q \<noteq> s" for r q
    unfolding om2 by (auto simp: cut_def drop_at_def split: option.splits if_splits)
  let ?g4 = "(SetUpdateCallback s False g2)
      \<lparr>sources := removeAll s (sources g2), sinks := removeAll s (sinks g2), stages := removeAll s (stages g2)\<rparr>"
  have lv: "live g2 s" using st s2 by (auto simp: same_stages_def live_def stage_at_def split: option.splits)
  have so2: "stages_ok g2" using inv2 by (simp add: graph_inv_def)
  have "store ?g4 = store (SetUpdateCallback s False g2)" by simp
  note k = at_store_cong [OF this]
  have "live ?g4 s" "packets_ok ?g4"
    using lv so2 unfolding packets_ok_def stages_ok_def k by (simp_all add: store_simps)
  then obtain w where g': "g' = without s (?g4\<lparr>world := w\<rparr>)"
    using delete_stage_ok [of ?g4 s ops] del by auto
  have st': "store g' = store (without s g2)" by (simp add: g' without_def SetUpdateCallback_def put_stage_def)
  have "graph_inv g'"
    by (rule graph_inv_without [OF inv2 alone st']) (simp_all add: g' without_def SetUpdateCallback_def put_stage_def)
  moreover have "imate g' = imate (without s g2)" "omate g' = omate (without s g2)"
    unfolding imate_def omate_def fun_eq_iff at_store_cong(2,3) [OF st'] by blast+
  ultimately show ?thesis
    using s2 unfolding at_store_cong(4,5) [OF st'] of_without im2 om2
    by (auto simp: same_stages_def drop_at_cut [symmetric] drop_at_drop_at)
qed

lemma live_iff_stage_at: "live g s \<longleftrightarrow> (\<exists>st. stage_at s g = Inr st)"
  by (auto simp: live_def stage_at_def split: option.splits)

lemma DisconnectInput_total:
  "graph_inv g \<Longrightarrow> input_at q g = Inr x \<Longrightarrow> \<not> is_prepared g q \<Longrightarrow> \<exists>g'. DisconnectInput q g = Inr g'"
  using DisconnectInput_unlink [of g q x]
  by (cases "in_mate x") (auto simp: graph_inv_def is_prepared_def)

lemma DisconnectOutput_total:
  assumes "graph_inv g" "output_at r g = Inr y" "\<And>q. omate g r = Some q \<Longrightarrow> \<not> is_prepared g q"
  shows "\<exists>g'. DisconnectOutput r g = Inr g'"
proof -
  have l: "links_ok g" using assms(1) by (simp add: graph_inv_def)
  show ?thesis using assms(3) unfolding DisconnectOutput_unlink [OF l assms(2)] omate_Some [OF assms(2)] is_prepared_def
    by (cases "out_mate y") auto
qed

lemma disconnect_inputs_total:
  "graph_inv g \<Longrightarrow> counts_of g s = Some (m, n) \<Longrightarrow> \<forall>i \<in> set is. i < m \<and> \<not> is_prepared g (s, i) \<Longrightarrow>
     \<exists>g'. disconnect_inputs s is g = Inr g'"
proof (induction "is" arbitrary: g)
  case Nil
  then show ?case by simp
next
  case (Cons i is')
  obtain x where x: "input_at (s, i) g = Inr x"
    using exists_counts(1) [of "(s, i)" g] Cons.prems(2,3) by auto
  obtain g1 where d: "DisconnectInput (s, i) g = Inr g1"
    using DisconnectInput_total [OF Cons.prems(1) x] Cons.prems(3) by auto
  have "same_stages g g1" by (rule DisconnectInput_same [OF Cons.prems(1) d])
  then have "\<exists>g'. disconnect_inputs s is' g1 = Inr g'"
    using Cons.IH [OF DisconnectInput_inv(1) [OF Cons.prems(1) d]] Cons.prems(2,3) by (simp add: same_stages_def)
  then show ?case unfolding disconnect_inputs.simps x rbind_simps disconnect_input_guard [OF x] unfolding d by simp
qed

lemma disconnect_outputs_total:
  "graph_inv g \<Longrightarrow> counts_of g s = Some (m, n) \<Longrightarrow>
     \<forall>i \<in> set is. i < n \<and> (\<forall>q. omate g (s, i) = Some q \<longrightarrow> \<not> is_prepared g q) \<Longrightarrow>
     \<exists>g'. disconnect_outputs s is g = Inr g'"
proof (induction "is" arbitrary: g)
  case Nil
  then show ?case by simp
next
  case (Cons i is')
  obtain y where y: "output_at (s, i) g = Inr y"
    using exists_counts(2) [of "(s, i)" g] Cons.prems(2,3) by auto
  obtain g1 where d: "DisconnectOutput (s, i) g = Inr g1"
    using DisconnectOutput_total [OF Cons.prems(1) y] Cons.prems(3) by auto
  have "same_stages g g1" by (rule DisconnectOutput_same [OF Cons.prems(1) d])
  moreover have "omate g1 r = Some q \<Longrightarrow> omate g r = Some q" for r q
    unfolding DisconnectOutput_cut(1) [OF Cons.prems(1) d] by (auto simp: drop_at_def split: if_splits)
  ultimately have "\<exists>g'. disconnect_outputs s is' g1 = Inr g'"
    using Cons.IH [OF DisconnectOutput_inv(1) [OF Cons.prems(1) d]] Cons.prems(2,3) by (simp add: same_stages_def)
  then show ?case unfolding disconnect_outputs.simps y rbind_simps disconnect_output_guard [OF y] unfolding d by simp
qed

text \<open>\<open>unprepared g s\<close>: no connection of \<open>s\<close> is prepared, so the graph may remove it.\<close>

definition unprepared :: "'w Graph \<Rightarrow> nat \<Rightarrow> bool" where
  "unprepared g s \<longleftrightarrow> (\<forall>i. \<not> is_prepared g (s, i)) \<and> (\<forall>i q. omate g (s, i) = Some q \<longrightarrow> \<not> is_prepared g q)"

lemma RemovePart_total:
  assumes inv: "graph_inv g" and lv: "live g s" and up: "unprepared g s"
  shows "\<exists>g'. RemovePart ops s g = Inr g'"
proof -
  obtain st where st: "stage_at s g = Inr st" using lv by (auto simp: live_def stage_at_def)
  note c = stage_at_counts [OF st]
  obtain g1 where d1: "disconnect_inputs s [0..<length (stg_inputs st)] g = Inr g1"
    using disconnect_inputs_total [OF inv c, of "[0..<length (stg_inputs st)]"] up by (auto simp: unprepared_def)
  note i1 = disconnect_inputs_inv [OF inv d1]
  have inv1: "graph_inv g1" and s1: "same_stages g g1" using i1 by blast+
  obtain st1 where st1: "stage_at s g1 = Inr st1"
    using lv s1 live_iff_stage_at [of g1 s] by (auto simp: same_stages_def)
  note c1 = stage_at_counts [OF st1]
  have "omate g1 r = Some q \<Longrightarrow> omate g r = Some q" for r q
    using i1 by (auto simp: cut_def split: option.splits if_splits)
  then obtain g2 where d2: "disconnect_outputs s [0..<length (stg_outputs st1)] g1 = Inr g2"
    using disconnect_outputs_total [OF inv1 c1, of "[0..<length (stg_outputs st1)]"] up s1
    by (fastforce simp: unprepared_def same_stages_def)
  have inv2: "graph_inv g2" "live g2 s"
    using disconnect_outputs_inv [OF inv1 d2] s1 lv by (simp_all add: same_stages_def)
  let ?g4 = "(SetUpdateCallback s False g2)
      \<lparr>sources := removeAll s (sources g2), sinks := removeAll s (sinks g2), stages := removeAll s (stages g2)\<rparr>"
  have "store ?g4 = store (SetUpdateCallback s False g2)" by simp
  note k = at_store_cong [OF this]
  have "live ?g4 s" "packets_ok ?g4"
    using inv2 unfolding packets_ok_def graph_inv_def stages_ok_def k by (simp_all add: store_simps)
  then obtain w where "delete_stage ops s ?g4 = Inr (without s (?g4\<lparr>world := w\<rparr>))"
    using delete_stage_ok by blast
  then show ?thesis
    unfolding RemovePart_def st rbind_simps d1 st1 d2 Let_def
    by (simp add: SetUpdateCallback_def put_stage_other)
qed

section \<open>Adding a stage and emptying the graph\<close>

text \<open>A stage as its constructor leaves it.\<close>

definition fresh_stage :: "Stage \<Rightarrow> bool" where
  "fresh_stage st \<longleftrightarrow> shape (stg_impl st) (length (stg_inputs st), length (stg_outputs st)) \<and>
     impl_packets (stg_impl st) = [] \<and> \<not> in_supply_backlog st \<and> \<not> in_demand_backlog st \<and>
     (\<forall>x \<in> set (stg_inputs st). x = new_Input) \<and> (\<forall>y \<in> set (stg_outputs st). y = new_Output)"

lemma Graph_Add_inv:
  assumes inv: "graph_inv g" and s: "\<not> live g s" and st: "fresh_stage st"
  shows "graph_inv (Graph_Add s st g) \<and> live (Graph_Add s st g) = (live g)(s := True) \<and>
    imate (Graph_Add s st g) = imate g \<and> omate (Graph_Add s st g) = omate g"
proof -
  let ?g = "Graph_Add s st g"
  have l: "links_ok g" and ls: "lists_ok g" and so: "stages_ok g" and ar: "at_rest g"
    using inv by (simp_all add: graph_inv_def)
  have none: "store g s = None" using s by (simp add: live_def)
  have ia: "input_at r ?g = (if fst r = s then dcheck (snd r < length (stg_inputs st)) (Inr (stg_inputs st ! snd r)) else input_at r g)" for r
    by (simp add: Graph_Add_def input_at_def stage_at_def)
  have oa: "output_at r ?g = (if fst r = s then dcheck (snd r < length (stg_outputs st)) (Inr (stg_outputs st ! snd r)) else output_at r g)" for r
    by (simp add: Graph_Add_def output_at_def stage_at_def)
  have old: "input_at r g = Inl Null_deref" "output_at r g = Inl Null_deref" if "fst r = s" for r
    using none that by (simp_all add: input_at_def output_at_def stage_at_def)
  have n: "i < length (stg_inputs st) \<Longrightarrow> stg_inputs st ! i = new_Input" "i < length (stg_outputs st) \<Longrightarrow> stg_outputs st ! i = new_Output" for i
    using st by (simp_all add: fresh_stage_def)
  have im: "imate ?g = imate g"
    using n old by (auto simp: imate_def ia dcheck_def new_Input_def fun_eq_iff)
  have om: "omate ?g = omate g"
    using n old by (auto simp: omate_def oa dcheck_def new_Output_def fun_eq_iff)
  have of: "live ?g = (live g)(s := True)" "impl_of ?g = (impl_of g)(s \<mapsto> stg_impl st)"
    "counts_of ?g = (counts_of g)(s \<mapsto> (length (stg_inputs st), length (stg_outputs st)))"
    "flags_of ?g = (flags_of g)(s \<mapsto> (in_supply_backlog st, in_demand_backlog st))"
    "callback_of ?g = (callback_of g)(s \<mapsto> True)"
    by (auto simp: Graph_Add_def live_def impl_of_def counts_of_def flags_of_def callback_of_def fun_eq_iff)
  have "links_ok ?g" using l by (simp add: links_ok_def im om)
  moreover have "lists_ok ?g"
  proof -
    have nin: "s \<notin> set (stages g)" using ls s by (simp add: lists_ok_def)
    have fl: "filter (no_inputs ?g) (stages g) = filter (no_inputs g) (stages g)"
      "filter (no_outputs ?g) (stages g) = filter (no_outputs g) (stages g)"
      using nin by (auto simp: no_inputs_def no_outputs_def of intro!: filter_cong split: if_splits)
    have no: "no_inputs ?g s \<longleftrightarrow> stg_inputs st = []" "no_outputs ?g s \<longleftrightarrow> stg_outputs st = []"
      by (simp_all add: no_inputs_def no_outputs_def of)
    have sg: "stages ?g = stages g @ [s]" "sources ?g = (if stg_inputs st = [] then sources g @ [s] else sources g)"
      "sinks ?g = (if stg_outputs st = [] then sinks g @ [s] else sinks g)" by (simp_all add: Graph_Add_def)
    have "distinct (stages ?g)" unfolding sg using ls nin by (simp add: lists_ok_def)
    moreover have "set (stages ?g) = {x. live ?g x}" unfolding sg of using ls by (auto simp: lists_ok_def)
    moreover have "sources ?g = filter (no_inputs ?g) (stages ?g)"
      using ls no fl unfolding sg lists_ok_def filter_append by simp
    moreover have "sinks ?g = filter (no_outputs ?g) (stages ?g)"
      using ls no fl unfolding sg lists_ok_def filter_append by simp
    ultimately show ?thesis unfolding lists_ok_def by blast
  qed
  moreover have "stages_ok ?g"
  proof -
    have "input_at r ?g = Inr x \<Longrightarrow> packet_from_upstream x = Some p \<Longrightarrow> input_at r g = Inr x" for r x p
      using n by (auto simp: ia dcheck_def new_Input_def split: if_splits)
    then show ?thesis using so st
      unfolding stages_ok_def packets_ok_def of fresh_stage_def by (auto split: if_splits) blast
  qed
  moreover have "at_rest ?g" using ar st by (auto simp: at_rest_def of fresh_stage_def) (simp_all add: Graph_Add_def)
  ultimately show ?thesis using of im om by (simp add: graph_inv_def)
qed

lemma graph_inv_new [simp]: "graph_inv (new_Graph w)"
  by (simp add: graph_inv_def links_ok_def lists_ok_def stages_ok_def packets_ok_def at_rest_def new_Graph_def
    imate_def omate_def input_at_def output_at_def stage_at_def live_def impl_of_def)

lemma delete_stages_ok:
  "packets_ok g \<Longrightarrow> distinct ss \<Longrightarrow> \<forall>s \<in> set ss. live g s \<Longrightarrow>
     \<exists>w. delete_stages ops ss (g\<lparr>stages := ss\<rparr>) =
       Inr (g\<lparr>stages := [], world := w, store := (\<lambda>s. if s \<in> set ss then None else store g s)\<rparr>)"
proof (induction ss arbitrary: g)
  case Nil
  show ?case by (rule exI [of _ "world g"]) simp
next
  case (Cons s ss)
  have "packets_ok (g\<lparr>stages := ss\<rparr>)" "live (g\<lparr>stages := ss\<rparr>) s"
    using Cons.prems by (simp_all add: packets_ok_def live_def impl_of_def input_at_def stage_at_def)
  then obtain w where d: "delete_stage ops s (g\<lparr>stages := ss\<rparr>) = Inr (without s (g\<lparr>stages := ss, world := w\<rparr>))"
    using delete_stage_ok by fastforce
  let ?h = "without s (g\<lparr>world := w\<rparr>)"
  have h: "without s (g\<lparr>stages := ss, world := w\<rparr>) = ?h\<lparr>stages := ss\<rparr>" by (simp add: without_def)
  have "packets_ok ?h" "\<forall>s' \<in> set ss. live ?h s'"
    using Cons.prems unfolding packets_ok_def at_without of_without by (auto simp: store_simps split: if_splits)
  then obtain w' where "delete_stages ops ss (?h\<lparr>stages := ss\<rparr>) =
       Inr (?h\<lparr>stages := [], world := w', store := (\<lambda>s'. if s' \<in> set ss then None else store ?h s')\<rparr>)"
    using Cons.IH [of ?h] Cons.prems(2) by auto
  moreover have "(\<lambda>s'. if s' \<in> set ss then None else store ?h s') = (\<lambda>s'. if s' \<in> set (s # ss) then None else store g s')"
    by (auto simp: without_def)
  ultimately have "delete_stages ops (s # ss) (g\<lparr>stages := s # ss\<rparr>) =
       Inr (?h\<lparr>stages := [], world := w', store := (\<lambda>s'. if s' \<in> set (s # ss) then None else store g s')\<rparr>)"
    using d h by simp
  then show ?case by (auto simp: without_def)
qed

lemma Graph_Reset_spec:
  assumes "graph_inv g"
  shows "\<exists>w. Graph_Reset ops g = Inr ((new_Graph w)\<lparr>packets_produced := packets_produced g\<rparr>)"
proof -
  let ?g = "g\<lparr>sources := [], sinks := []\<rparr>"
  have "store ?g = store g" by simp
  note k = at_store_cong [OF this]
  have "packets_ok ?g" "distinct (stages g)" "\<forall>s \<in> set (stages g). live ?g s"
    using assms unfolding graph_inv_def stages_ok_def lists_ok_def packets_ok_def k by auto
  from delete_stages_ok [OF this, of ops] obtain w where
    w: "delete_stages ops (stages g) ?g = Inr (?g\<lparr>stages := [], world := w,
          store := (\<lambda>s. if s \<in> set (stages g) then None else store ?g s)\<rparr>)" by auto
  have "(\<lambda>s. if s \<in> set (stages g) then None else store ?g s) = Map.empty"
    using assms by (auto simp: graph_inv_def lists_ok_def live_def fun_eq_iff)
  moreover have "supply_backlog g = []" "demand_backlog g = []" using assms by (simp_all add: graph_inv_def at_rest_def)
  ultimately show ?thesis using w unfolding Graph_Reset_def new_Graph_def
    by (intro exI [of _ w]) (simp add: Graph.equality)
qed

lemma RemovePartsConnectedToPart_spec:
  assumes inv: "graph_inv g" and up: "unprepared g s" and c: "counts_of g s = Some (m, n)"
  shows "if 0 < m + n then RemovePartsConnectedToPart ops s g = Inl Null_deref
         else RemovePartsConnectedToPart ops s g = RemovePart ops s g"
proof -
  have lv: "live g s" using c by (auto simp: counts_of_def live_def)
  then obtain st where st: "stage_at s g = Inr st" using live_iff_stage_at by blast
  have mn: "m = length (stg_inputs st)" "n = length (stg_outputs st)" using stage_at_counts [OF st] c by auto
  obtain g1 where g1: "RemovePart ops s g = Inr g1" using RemovePart_total [OF inv lv up] by blast
  have "live g1 = (live g)(s := False)" using RemovePart_inv [OF inv g1] by blast
  then have "\<not> live g1 s" by simp
  then have dead: "stage_at s g1 = Inl Null_deref" by (simp add: live_def stage_at_def)
  have step: "remove_parts_loop ops [s] g = remove_parts_loop ops (replicate m s @ replicate n s) g1"
    using st g1 mn by (simp add: remove_parts_loop.simps [of ops "[s]"])
  show ?thesis
  proof (cases "replicate m s @ replicate n s")
    case Nil
    then have "m + n = 0" by simp
    moreover have "remove_parts_loop ops [] g1 = Some (Inr g1)" by (simp add: remove_parts_loop.simps)
    ultimately show ?thesis using step Nil g1 by (simp add: RemovePartsConnectedToPart_def)
  next
    case (Cons s' rest)
    then have "s' = s" by (cases m; cases n) auto
    moreover have "0 < m + n" using Cons by (cases m; cases n) auto
    moreover have "remove_parts_loop ops (s # rest) g1 = Some (Inl Null_deref)"
      using dead by (simp add: remove_parts_loop.simps [of ops "s # rest"])
    ultimately show ?thesis using step Cons by (simp add: RemovePartsConnectedToPart_def)
  qed
qed

end
