(* ===== verification/Framework_Stages.thy ===== *)
theory Framework_Stages
  imports Graph_Build
begin

text \<open>
  The six subclasses of \<^verbatim>\<open>Stage\<close> (services/media/framework/stages): their constructors,
  the preparation, flushing and updating of their inputs and outputs, and the inputs an
  \<^verbatim>\<open>ActiveMultistreamSinkStage\<close> allocates for its sink.

  The callbacks that \<^verbatim>\<open>PrepareOutput\<close>, \<^verbatim>\<open>UnprepareOutput\<close> and \<^verbatim>\<open>FlushInput\<close> are given are only
  used to name the inputs or outputs to go on with, so these operations return the list
  of the indices they call the callback with. A \<^verbatim>\<open>CHECK(false)\<close> is a failed check.
\<close>

section \<open>Constructors\<close>

definition new_Stage :: "Input list \<Rightarrow> Output list \<Rightarrow> impl \<Rightarrow> nat \<Rightarrow> Stage" where
  "new_Stage inputs outputs k part =
     \<lparr>stg_inputs = inputs, stg_outputs = outputs, stg_impl = k, stg_part = part, update_callback = False,
      in_supply_backlog = False, in_demand_backlog = False\<rparr>"

definition new_TransformStage :: "nat \<Rightarrow> Stage" where
  "new_TransformStage part = new_Stage [new_Input] [new_Output] (TransformStage None True) part"

definition new_ActiveSourceStage :: "nat \<Rightarrow> Stage" where
  "new_ActiveSourceStage part = new_Stage [] [new_Output] (ActiveSourceStage False []) part"

definition new_ActiveSinkStage :: "nat \<Rightarrow> Stage" where
  "new_ActiveSinkStage part = new_Stage [new_Input] [] (ActiveSinkStage kNegative) part"

text \<open>The index of the cached packet has no value until there is a packet; 0 stands for it.\<close>

definition new_MultistreamSourceStage :: "'w Part_ops \<Rightarrow> nat \<Rightarrow> 'w \<Rightarrow> Stage" where
  "new_MultistreamSourceStage ops part w =
     new_Stage [] (replicate (stream_count ops part w) new_Output) (MultistreamSourceStage None 0 0) part"

definition new_ActiveMultistreamSourceStage :: "'w Part_ops \<Rightarrow> nat \<Rightarrow> 'w \<Rightarrow> Stage" where
  "new_ActiveMultistreamSourceStage ops part w =
     new_Stage [] (replicate (stream_count ops part w) new_Output) (ActiveMultistreamSourceStage None 0 0 False) part"

section \<open>The inputs of a multistream sink\<close>

text \<open>
  \<^verbatim>\<open>AllocateInput\<close> and \<^verbatim>\<open>ReleaseInput\<close> on the inputs \<open>xs\<close> of the stage and its private members
  \<open>a\<close>. The inputs that \<^verbatim>\<open>ReleaseInput\<close> pops are the last part of its result, for the caller
  to destroy.
\<close>

definition new_StageInput :: "nat \<Rightarrow> StageInput" where
  "new_StageInput n = \<lparr>si_index = n, si_allocated = False, si_demand = kNegative\<rparr>"

definition AllocateInput :: "Input list \<Rightarrow> MultistreamSink \<Rightarrow> (nat \<times> Input list \<times> MultistreamSink) res" where
  "AllocateInput xs a =
     (if ams_unallocated_inputs a = {} then
        let n = length (ams_inputs a)
        in Inr (n, xs @ [new_Input], a\<lparr>ams_inputs := ams_inputs a @ [(new_StageInput n)\<lparr>si_allocated := True\<rparr>]\<rparr>)
      else
        let i = Min (ams_unallocated_inputs a)
        in if i < length (ams_inputs a) then
             dcheck (\<not> si_allocated (ams_inputs a ! i))
               (Inr (si_index (ams_inputs a ! i), xs,
                     a\<lparr>ams_unallocated_inputs := ams_unallocated_inputs a - {i},
                       ams_inputs := (ams_inputs a)[i := (ams_inputs a ! i)\<lparr>si_allocated := True\<rparr>]\<rparr>))
           else Inl Out_of_range)"

text \<open>The loop that pops the unallocated inputs from the end, all but the first input.\<close>

function pop_inputs :: "StageInput list \<Rightarrow> Input list \<Rightarrow> nat set \<Rightarrow> (StageInput list \<times> Input list \<times> nat set) \<times> Input list" where
  "pop_inputs si xs un =
     (if length si > 1 \<and> \<not> si_allocated (last si) then
        (let (r, popped) = pop_inputs (butlast si) (butlast xs) (un - {length si - 1})
         in (r, last xs # popped))
      else ((si, xs, un), []))"
  by pat_completeness auto
termination by (relation "measure (\<lambda>(si, _, _). length si)") auto

declare pop_inputs.simps [simp del]

definition ReleaseInput ::
  "nat \<Rightarrow> Input list \<Rightarrow> MultistreamSink \<Rightarrow> (nat \<times> (Input list \<times> MultistreamSink) \<times> Input list) res" where
  "ReleaseInput index xs a =
     dcheck (index < length (ams_inputs a))
      (dcheck (si_allocated (ams_inputs a ! index))
        (dcheck (in_mate (xs ! index) = None)
          (let si = (ams_inputs a)[index := (ams_inputs a ! index)\<lparr>si_allocated := False\<rparr>]
           in if index \<noteq> 0 \<and> index = length si - 1 then
                (let ((si', xs', un'), popped) = pop_inputs si xs (ams_unallocated_inputs a)
                 in Inr (length si', (xs', a\<lparr>ams_inputs := si', ams_unallocated_inputs := un'\<rparr>), popped))
              else Inr (length si,
                        (xs, a\<lparr>ams_inputs := si,
                               ams_unallocated_inputs := insert (si_index (ams_inputs a ! index)) (ams_unallocated_inputs a)\<rparr>),
                        []))))"

definition new_ActiveMultistreamSinkStage :: "nat \<Rightarrow> Stage res" where
  "new_ActiveMultistreamSinkStage part =
     rbind (AllocateInput [] \<lparr>ams_inputs = [], ams_unallocated_inputs = {}, ams_pending_inputs = []\<rparr>) (\<lambda>(i, xs, a).
       rbind (ReleaseInput i xs a) (\<lambda>(_, (xs', a'), _).
         Inr (new_Stage xs' [] (ActiveMultistreamSinkStage a') part)))"

text \<open>The two operations on a stage of the graph.\<close>

definition sink_of :: "nat \<Rightarrow> 'w Graph \<Rightarrow> (Stage \<times> MultistreamSink) res" where
  "sink_of s g =
     rbind (stage_at s g) (\<lambda>st. (case stg_impl st of ActiveMultistreamSinkStage a \<Rightarrow> Inr (st, a) | _ \<Rightarrow> Inl Dcheck_failed))"

definition put_sink :: "nat \<Rightarrow> Input list \<Rightarrow> MultistreamSink \<Rightarrow> 'w Graph \<Rightarrow> 'w Graph" where
  "put_sink s xs a = put_stage s (\<lambda>st. st\<lparr>stg_inputs := xs, stg_impl := ActiveMultistreamSinkStage a\<rparr>)"

definition Host_AllocateInput :: "nat \<Rightarrow> 'w Graph \<Rightarrow> (nat \<times> 'w Graph) res" where
  "Host_AllocateInput s g =
     rbind (sink_of s g) (\<lambda>(st, a). rbind (AllocateInput (stg_inputs st) a) (\<lambda>(i, xs, a'). Inr (i, put_sink s xs a' g)))"

definition Host_ReleaseInput :: "'w Part_ops \<Rightarrow> nat \<Rightarrow> nat \<Rightarrow> 'w Graph \<Rightarrow> (nat \<times> 'w Graph) res" where
  "Host_ReleaseInput ops s index g =
     rbind (sink_of s g) (\<lambda>(st, a). rbind (ReleaseInput index (stg_inputs st) a) (\<lambda>(n, (xs, a'), popped).
       rbind (release_all ops (input_packets popped) (put_sink s xs a' g)) (\<lambda>g1. Inr (n, g1))))"

section \<open>Preparing\<close>

definition TransformStage_PrepareInput :: "nat \<Rightarrow> nat option res" where
  "TransformStage_PrepareInput i = dcheck (i = 0) (Inr None)"

definition ActiveSinkStage_PrepareInput :: "'w Part_ops \<Rightarrow> nat \<Rightarrow> nat \<Rightarrow> 'w Graph \<Rightarrow> nat option res" where
  "ActiveSinkStage_PrepareInput ops part i g = dcheck (i = 0) (Inr (sink_allocator ops part (world g)))"

definition Stage_PrepareInput :: "'w Part_ops \<Rightarrow> nat \<Rightarrow> nat \<Rightarrow> 'w Graph \<Rightarrow> nat option res" where
  "Stage_PrepareInput ops s i g =
     rbind (stage_at s g) (\<lambda>st. (case stg_impl st of
        TransformStage _ _ \<Rightarrow> TransformStage_PrepareInput i
      | ActiveSinkStage _ \<Rightarrow> ActiveSinkStage_PrepareInput ops (stg_part st) i g
      | ActiveMultistreamSinkStage _ \<Rightarrow> Inr None
      | _ \<Rightarrow> Inl Dcheck_failed))"

lemma Stage_PrepareInput_cases:
  "Stage_PrepareInput ops s i g =
     rbind (stage_at s g) (\<lambda>st. (case stg_impl st of
        TransformStage _ _ \<Rightarrow> dcheck (i = 0) (Inr None)
      | ActiveSinkStage _ \<Rightarrow> dcheck (i = 0) (Inr (sink_allocator ops (stg_part st) (world g)))
      | ActiveMultistreamSinkStage _ \<Rightarrow> Inr None
      | _ \<Rightarrow> Inl Dcheck_failed))"
  unfolding Stage_PrepareInput_def TransformStage_PrepareInput_def ActiveSinkStage_PrepareInput_def ..

definition TransformStage_PrepareOutput :: "nat \<Rightarrow> nat \<Rightarrow> nat option \<Rightarrow> bool \<Rightarrow> 'w Graph \<Rightarrow> (nat list \<times> 'w Graph) res" where
  "TransformStage_PrepareOutput s i alloc is_new g =
     dcheck (i = 0)
      (Inr ([0], put_impl s (TransformStage (Some (case alloc of None \<Rightarrow> GetDefault | Some a \<Rightarrow> a)) is_new) g))"

definition ActiveSourceStage_PrepareOutput ::
  "'w Part_ops \<Rightarrow> nat \<Rightarrow> nat \<Rightarrow> nat \<Rightarrow> nat option \<Rightarrow> Packet list \<Rightarrow> 'w Graph \<Rightarrow> (nat list \<times> 'w Graph) res" where
  "ActiveSourceStage_PrepareOutput ops s part i alloc packets g =
     dcheck (i = 0)
      (rbind
        (if can_accept_allocator ops part (world g) then
           Inr (g\<lparr>world := set_allocator ops part (Some (case alloc of None \<Rightarrow> GetDefault | Some a \<Rightarrow> a)) (world g)\<rparr>)
         else if alloc \<noteq> None then SetCopyAllocator (s, 0) alloc g
         else Inr g)
        (\<lambda>g1. Inr ([], put_impl s (ActiveSourceStage True packets) g1)))"

definition MultistreamSourceStage_PrepareOutput :: "nat \<Rightarrow> nat \<Rightarrow> nat \<Rightarrow> nat option \<Rightarrow> 'w Graph \<Rightarrow> (nat list \<times> 'w Graph) res" where
  "MultistreamSourceStage_PrepareOutput s n i alloc g = dcheck (i < n)
     (if alloc \<noteq> None then rbind (SetCopyAllocator (s, i) alloc g) (\<lambda>g1. Inr ([], g1)) else Inr ([], g))"

definition ActiveMultistreamSourceStage_PrepareOutput :: "nat \<Rightarrow> nat \<Rightarrow> nat \<Rightarrow> nat option \<Rightarrow> 'w Graph \<Rightarrow> (nat list \<times> 'w Graph) res" where
  "ActiveMultistreamSourceStage_PrepareOutput s n i alloc g = dcheck (i < n)
     (if alloc \<noteq> None then rbind (SetCopyAllocator (s, i) alloc g) (\<lambda>g1. Inr ([], g1)) else Inr ([], g))"

definition Stage_PrepareOutput ::
  "'w Part_ops \<Rightarrow> nat \<Rightarrow> nat \<Rightarrow> nat option \<Rightarrow> 'w Graph \<Rightarrow> (nat list \<times> 'w Graph) res" where
  "Stage_PrepareOutput ops s i alloc g =
     rbind (stage_at s g) (\<lambda>st. (case stg_impl st of
        TransformStage _ is_new \<Rightarrow> TransformStage_PrepareOutput s i alloc is_new g
      | ActiveSourceStage _ packets \<Rightarrow> ActiveSourceStage_PrepareOutput ops s (stg_part st) i alloc packets g
      | MultistreamSourceStage _ _ _ \<Rightarrow> MultistreamSourceStage_PrepareOutput s (length (stg_outputs st)) i alloc g
      | ActiveMultistreamSourceStage _ _ _ _ \<Rightarrow> ActiveMultistreamSourceStage_PrepareOutput s (length (stg_outputs st)) i alloc g
      | _ \<Rightarrow> Inl Dcheck_failed))"

lemma Stage_PrepareOutput_cases:
  "Stage_PrepareOutput ops s i alloc g =
     rbind (stage_at s g) (\<lambda>st. (case stg_impl st of
        TransformStage _ is_new \<Rightarrow> TransformStage_PrepareOutput s i alloc is_new g
      | ActiveSourceStage _ packets \<Rightarrow> ActiveSourceStage_PrepareOutput ops s (stg_part st) i alloc packets g
      | MultistreamSourceStage _ _ _ \<Rightarrow> dcheck (i < length (stg_outputs st))
          (if alloc \<noteq> None then rbind (SetCopyAllocator (s, i) alloc g) (\<lambda>g1. Inr ([], g1)) else Inr ([], g))
      | ActiveMultistreamSourceStage _ _ _ _ \<Rightarrow> dcheck (i < length (stg_outputs st))
          (if alloc \<noteq> None then rbind (SetCopyAllocator (s, i) alloc g) (\<lambda>g1. Inr ([], g1)) else Inr ([], g))
      | _ \<Rightarrow> Inl Dcheck_failed))"
  unfolding Stage_PrepareOutput_def MultistreamSourceStage_PrepareOutput_def ActiveMultistreamSourceStage_PrepareOutput_def ..

text \<open>\<^verbatim>\<open>UnprepareInput\<close> does nothing in any class; the sinks inherit an \<^verbatim>\<open>UnprepareOutput\<close> that does nothing either.\<close>

definition Stage_UnprepareInput :: "nat \<Rightarrow> nat \<Rightarrow> 'w Graph \<Rightarrow> 'w Graph" where
  "Stage_UnprepareInput s i g = g"

definition TransformStage_UnprepareOutput :: "nat \<Rightarrow> bool \<Rightarrow> 'w Graph \<Rightarrow> (nat list \<times> 'w Graph) res" where
  "TransformStage_UnprepareOutput s is_new g = Inr ([0], put_impl s (TransformStage None is_new) g)"

definition ActiveSourceStage_UnprepareOutput :: "'w Part_ops \<Rightarrow> nat \<Rightarrow> nat \<Rightarrow> nat \<Rightarrow> 'w Graph \<Rightarrow> (nat list \<times> 'w Graph) res" where
  "ActiveSourceStage_UnprepareOutput ops s part i g = dcheck (i = 0)
     (rbind (SetCopyAllocator (s, 0) None (g\<lparr>world := set_allocator ops part None (world g)\<rparr>))
       (\<lambda>g1. Inr ([], g1)))"

definition MultistreamSourceStage_UnprepareOutput :: "nat \<Rightarrow> nat \<Rightarrow> nat \<Rightarrow> 'w Graph \<Rightarrow> (nat list \<times> 'w Graph) res" where
  "MultistreamSourceStage_UnprepareOutput s n i g = dcheck (i < n)
     (rbind (SetCopyAllocator (s, i) None g) (\<lambda>g1. Inr ([], g1)))"

definition ActiveMultistreamSourceStage_UnprepareOutput :: "nat \<Rightarrow> nat \<Rightarrow> nat \<Rightarrow> 'w Graph \<Rightarrow> (nat list \<times> 'w Graph) res" where
  "ActiveMultistreamSourceStage_UnprepareOutput s n i g = dcheck (i < n)
     (rbind (SetCopyAllocator (s, i) None g) (\<lambda>g1. Inr ([], g1)))"

definition Stage_UnprepareOutput :: "'w Part_ops \<Rightarrow> nat \<Rightarrow> nat \<Rightarrow> 'w Graph \<Rightarrow> (nat list \<times> 'w Graph) res" where
  "Stage_UnprepareOutput ops s i g =
     rbind (stage_at s g) (\<lambda>st. (case stg_impl st of
        TransformStage _ is_new \<Rightarrow> TransformStage_UnprepareOutput s is_new g
      | ActiveSourceStage _ _ \<Rightarrow> ActiveSourceStage_UnprepareOutput ops s (stg_part st) i g
      | MultistreamSourceStage _ _ _ \<Rightarrow> MultistreamSourceStage_UnprepareOutput s (length (stg_outputs st)) i g
      | ActiveMultistreamSourceStage _ _ _ _ \<Rightarrow> ActiveMultistreamSourceStage_UnprepareOutput s (length (stg_outputs st)) i g
      | _ \<Rightarrow> Inr ([], g)))"

lemma Stage_UnprepareOutput_cases:
  "Stage_UnprepareOutput ops s i g =
     rbind (stage_at s g) (\<lambda>st. (case stg_impl st of
        TransformStage _ is_new \<Rightarrow> Inr ([0], put_impl s (TransformStage None is_new) g)
      | ActiveSourceStage _ _ \<Rightarrow> dcheck (i = 0)
          (rbind (SetCopyAllocator (s, 0) None (g\<lparr>world := set_allocator ops (stg_part st) None (world g)\<rparr>))
            (\<lambda>g1. Inr ([], g1)))
      | MultistreamSourceStage _ _ _ \<Rightarrow> dcheck (i < length (stg_outputs st))
          (rbind (SetCopyAllocator (s, i) None g) (\<lambda>g1. Inr ([], g1)))
      | ActiveMultistreamSourceStage _ _ _ _ \<Rightarrow> dcheck (i < length (stg_outputs st))
          (rbind (SetCopyAllocator (s, i) None g) (\<lambda>g1. Inr ([], g1)))
      | _ \<Rightarrow> Inr ([], g)))"
  unfolding Stage_UnprepareOutput_def TransformStage_UnprepareOutput_def ActiveSourceStage_UnprepareOutput_def
    MultistreamSourceStage_UnprepareOutput_def ActiveMultistreamSourceStage_UnprepareOutput_def ..

section \<open>Flushing\<close>

definition flush_part :: "'w Part_ops \<Rightarrow> nat \<Rightarrow> 'w Graph \<Rightarrow> 'w Graph" where
  "flush_part ops part g = g\<lparr>world := part_Flush ops part (world g)\<rparr>"

definition MultistreamSink_FlushInput ::
  "'w Part_ops \<Rightarrow> nat \<Rightarrow> nat \<Rightarrow> nat \<Rightarrow> MultistreamSink \<Rightarrow> 'w Graph \<Rightarrow> (nat list \<times> 'w Graph) res" where
  "MultistreamSink_FlushInput ops s part i a g =
     (if i < length (ams_inputs a) then
        rbind (Input_Flush ops (s, i)
                (put_impl s (ActiveMultistreamSinkStage (a\<lparr>ams_inputs := (ams_inputs a)[i := (ams_inputs a ! i)\<lparr>si_demand := kNegative\<rparr>]\<rparr>))
                  (flush_part ops part g)))
          (\<lambda>g1. Inr ([], put_impl s (ActiveMultistreamSinkStage
                   (a\<lparr>ams_inputs := (ams_inputs a)[i := (ams_inputs a ! i)\<lparr>si_demand := kNegative\<rparr>],
                      ams_pending_inputs := removeAll i (ams_pending_inputs a)\<rparr>)) g1))
      else Inl Out_of_range)"

definition TransformStage_FlushInput :: "'w Part_ops \<Rightarrow> nat \<Rightarrow> nat \<Rightarrow> 'w Graph \<Rightarrow> (nat list \<times> 'w Graph) res" where
  "TransformStage_FlushInput ops s i g = dcheck (i = 0) (rbind (Input_Flush ops (s, 0) g) (\<lambda>g1. Inr ([0], g1)))"

definition ActiveSinkStage_FlushInput :: "'w Part_ops \<Rightarrow> nat \<Rightarrow> nat \<Rightarrow> 'w Graph \<Rightarrow> (nat list \<times> 'w Graph) res" where
  "ActiveSinkStage_FlushInput ops s part g = rbind (Input_Flush ops (s, 0) g)
     (\<lambda>g1. Inr ([], put_impl s (ActiveSinkStage kNegative) (flush_part ops part g1)))"

definition Stage_FlushInput :: "'w Part_ops \<Rightarrow> nat \<Rightarrow> nat \<Rightarrow> 'w Graph \<Rightarrow> (nat list \<times> 'w Graph) res" where
  "Stage_FlushInput ops s i g =
     rbind (stage_at s g) (\<lambda>st. (case stg_impl st of
        TransformStage _ _ \<Rightarrow> TransformStage_FlushInput ops s i g
      | ActiveSinkStage _ \<Rightarrow> ActiveSinkStage_FlushInput ops s (stg_part st) g
      | ActiveMultistreamSinkStage a \<Rightarrow> MultistreamSink_FlushInput ops s (stg_part st) i a g
      | _ \<Rightarrow> Inl Dcheck_failed))"

lemma Stage_FlushInput_cases:
  "Stage_FlushInput ops s i g =
     rbind (stage_at s g) (\<lambda>st. (case stg_impl st of
        TransformStage _ _ \<Rightarrow> dcheck (i = 0) (rbind (Input_Flush ops (s, 0) g) (\<lambda>g1. Inr ([0], g1)))
      | ActiveSinkStage _ \<Rightarrow> rbind (Input_Flush ops (s, 0) g)
          (\<lambda>g1. Inr ([], put_impl s (ActiveSinkStage kNegative) (flush_part ops (stg_part st) g1)))
      | ActiveMultistreamSinkStage a \<Rightarrow> MultistreamSink_FlushInput ops s (stg_part st) i a g
      | _ \<Rightarrow> Inl Dcheck_failed))"
  unfolding Stage_FlushInput_def TransformStage_FlushInput_def ActiveSinkStage_FlushInput_def ..

definition TransformStage_FlushOutput :: "'w Part_ops \<Rightarrow> nat \<Rightarrow> nat \<Rightarrow> nat \<Rightarrow> nat option \<Rightarrow> 'w Graph \<Rightarrow> 'w Graph res" where
  "TransformStage_FlushOutput ops s part i a g = dcheck (i = 0) (rbind (Output_Flush (s, 0) g)
     (\<lambda>g1. Inr (put_impl s (TransformStage a True) (flush_part ops part g1))))"

definition ActiveSourceStage_FlushOutput :: "'w Part_ops \<Rightarrow> nat \<Rightarrow> nat \<Rightarrow> bool \<Rightarrow> Packet list \<Rightarrow> 'w Graph \<Rightarrow> 'w Graph res" where
  "ActiveSourceStage_FlushOutput ops s part b packets g = rbind (Output_Flush (s, 0) g)
     (\<lambda>g1. rbind (release_all ops packets (flush_part ops part g1))
        (\<lambda>g2. Inr (put_impl s (ActiveSourceStage b []) g2)))"

definition MultistreamSourceStage_FlushOutput ::
  "'w Part_ops \<Rightarrow> nat \<Rightarrow> nat \<Rightarrow> nat \<Rightarrow> nat \<Rightarrow> Packet option \<Rightarrow> 'w Graph \<Rightarrow> 'w Graph res" where
  "MultistreamSourceStage_FlushOutput ops s part n i c g = dcheck (i < n) (rbind (Output_Flush (s, i) g)
     (\<lambda>g1. rbind (release_all ops (case c of None \<Rightarrow> [] | Some p \<Rightarrow> [p]) (flush_part ops part g1))
        (\<lambda>g2. Inr (put_impl s (MultistreamSourceStage None 0 0) g2))))"

definition ActiveMultistreamSourceStage_FlushOutput ::
  "'w Part_ops \<Rightarrow> nat \<Rightarrow> nat \<Rightarrow> nat \<Rightarrow> Packet option \<Rightarrow> 'w Graph \<Rightarrow> 'w Graph res" where
  "ActiveMultistreamSourceStage_FlushOutput ops s n i c g = dcheck (i < n) (rbind (Output_Flush (s, i) g)
     (\<lambda>g1. rbind (release_all ops (case c of None \<Rightarrow> [] | Some p \<Rightarrow> [p]) g1)
        (\<lambda>g2. Inr (put_impl s (ActiveMultistreamSourceStage None 0 0 False) g2))))"

definition Stage_FlushOutput :: "'w Part_ops \<Rightarrow> nat \<Rightarrow> nat \<Rightarrow> 'w Graph \<Rightarrow> 'w Graph res" where
  "Stage_FlushOutput ops s i g =
     rbind (stage_at s g) (\<lambda>st. (case stg_impl st of
        TransformStage a _ \<Rightarrow> TransformStage_FlushOutput ops s (stg_part st) i a g
      | ActiveSourceStage b packets \<Rightarrow> ActiveSourceStage_FlushOutput ops s (stg_part st) b packets g
      | MultistreamSourceStage c _ _ \<Rightarrow> MultistreamSourceStage_FlushOutput ops s (stg_part st) (length (stg_outputs st)) i c g
      | ActiveMultistreamSourceStage c _ _ _ \<Rightarrow> ActiveMultistreamSourceStage_FlushOutput ops s (length (stg_outputs st)) i c g
      | _ \<Rightarrow> Inl Dcheck_failed))"

lemma Stage_FlushOutput_cases:
  "Stage_FlushOutput ops s i g =
     rbind (stage_at s g) (\<lambda>st. (case stg_impl st of
        TransformStage a _ \<Rightarrow> dcheck (i = 0) (rbind (Output_Flush (s, 0) g)
          (\<lambda>g1. Inr (put_impl s (TransformStage a True) (flush_part ops (stg_part st) g1))))
      | ActiveSourceStage b packets \<Rightarrow> rbind (Output_Flush (s, 0) g)
          (\<lambda>g1. rbind (release_all ops packets (flush_part ops (stg_part st) g1))
             (\<lambda>g2. Inr (put_impl s (ActiveSourceStage b []) g2)))
      | MultistreamSourceStage c _ _ \<Rightarrow> dcheck (i < length (stg_outputs st)) (rbind (Output_Flush (s, i) g)
          (\<lambda>g1. rbind (release_all ops (case c of None \<Rightarrow> [] | Some p \<Rightarrow> [p]) (flush_part ops (stg_part st) g1))
             (\<lambda>g2. Inr (put_impl s (MultistreamSourceStage None 0 0) g2))))
      | ActiveMultistreamSourceStage c _ _ _ \<Rightarrow> dcheck (i < length (stg_outputs st)) (rbind (Output_Flush (s, i) g)
          (\<lambda>g1. rbind (release_all ops (case c of None \<Rightarrow> [] | Some p \<Rightarrow> [p]) g1)
             (\<lambda>g2. Inr (put_impl s (ActiveMultistreamSourceStage None 0 0 False) g2))))
      | _ \<Rightarrow> Inl Dcheck_failed))"
  unfolding Stage_FlushOutput_def TransformStage_FlushOutput_def ActiveSourceStage_FlushOutput_def
    MultistreamSourceStage_FlushOutput_def ActiveMultistreamSourceStage_FlushOutput_def ..

section \<open>Updating\<close>

text \<open>A transform is given its input packet when the output can take what comes of it.\<close>

definition transform_packet ::
  "'w Part_ops \<Rightarrow> nat \<Rightarrow> nat \<Rightarrow> nat \<Rightarrow> bool \<Rightarrow> Packet \<Rightarrow> 'w Graph \<Rightarrow> 'w Graph res" where
  "transform_packet ops s part a is_new p g =
     (let ((finished, output_packet), w) = TransformPacket ops part p is_new a (world g);
          g1 = g\<lparr>world := w\<rparr>
      in rbind
          (if finished then
             rbind (release ops p g1)
               (\<lambda>g2. Inr (put_impl s (TransformStage (Some a) True)
                            (put_input (s, 0) (\<lambda>x. x\<lparr>packet_from_upstream := None\<rparr>) g2)))
           else Inr (put_impl s (TransformStage (Some a) False) g1))
          (\<lambda>g3. (case output_packet of None \<Rightarrow> Inr g3 | Some q \<Rightarrow> Output_SupplyPacket ops (s, 0) q g3)))"

definition TransformStage_Update :: "'w Part_ops \<Rightarrow> nat \<Rightarrow> nat \<Rightarrow> nat option \<Rightarrow> bool \<Rightarrow> 'w Graph \<Rightarrow> 'w Graph res" where
  "TransformStage_Update ops s part alloc is_new g =
     (case alloc of None \<Rightarrow> Inl Dcheck_failed
      | Some a \<Rightarrow>
          rbind (input_at (s, 0) g) (\<lambda>x.
          rbind (case packet_from_upstream x of None \<Rightarrow> Inr g
                 | Some p \<Rightarrow> rbind (Output_demand (s, 0) g) (\<lambda>d.
                     if d \<noteq> kNegative then transform_packet ops s part a is_new p g else Inr g))
            (\<lambda>g1. rbind (Output_demand (s, 0) g1) (\<lambda>d. Input_SetDemand (s, 0) d g1))))"

definition ActiveSourceStage_Update ::
  "'w Part_ops \<Rightarrow> nat \<Rightarrow> nat \<Rightarrow> bool \<Rightarrow> Packet list \<Rightarrow> 'w Graph \<Rightarrow> 'w Graph res" where
  "ActiveSourceStage_Update ops s part b packets g =
     rbind (Output_demand (s, 0) g) (\<lambda>d.
       (let g1 = g\<lparr>world := SetDownstreamDemand ops part d (world g)\<rparr>
        in case packets of
             p # ps \<Rightarrow> if d \<noteq> kNegative then
                 rbind (Output_SupplyPacket ops (s, 0) p g1) (\<lambda>g2. Inr (put_impl s (ActiveSourceStage b ps) g2))
               else Inr g1
           | [] \<Rightarrow> Inr g1))"

definition ActiveSinkStage_Update :: "'w Part_ops \<Rightarrow> nat \<Rightarrow> nat \<Rightarrow> Demand \<Rightarrow> 'w Graph \<Rightarrow> 'w Graph res" where
  "ActiveSinkStage_Update ops s part demand g =
     rbind (input_at (s, 0) g) (\<lambda>x.
       (case packet_from_upstream x of None \<Rightarrow> Input_SetDemand (s, 0) demand g
        | Some p \<Rightarrow>
            (let (d, w) = sink_SupplyPacket ops part p (world g)
             in Input_SetDemand (s, 0) d
                  (put_impl s (ActiveSinkStage d)
                    (put_input (s, 0) (\<lambda>x. x\<lparr>packet_from_upstream := None\<rparr>) (g\<lparr>world := w\<rparr>))))))"

text \<open>One round of the loop of \<^verbatim>\<open>MultistreamSourceStage::Update\<close>; \<open>True\<close> is for another round.\<close>

definition supply_cached :: "'w Part_ops \<Rightarrow> nat \<Rightarrow> nat \<Rightarrow> Packet \<Rightarrow> 'w Graph \<Rightarrow> (Packet option \<times> 'w Graph) res" where
  "supply_cached ops s i p g =
     rbind (Output_demand (s, i) g) (\<lambda>d.
       if d \<noteq> kNegative then rbind (Output_SupplyPacket ops (s, i) p g) (\<lambda>g1. Inr (None, g1))
       else Inr (Some p, g))"

definition multistream_round ::
  "'w Part_ops \<Rightarrow> nat \<Rightarrow> nat \<Rightarrow> nat \<Rightarrow> Packet option \<Rightarrow> nat \<Rightarrow> nat \<Rightarrow> 'w Graph \<Rightarrow> (bool \<times> 'w Graph) res" where
  "multistream_round ops s part n cached index ended g =
     rbind (case cached of None \<Rightarrow> Inr (None, g)
            | Some p \<Rightarrow> rbind (HasPositiveDemand s g) (\<lambda>b.
                if b then dcheck (index < n) (supply_cached ops s index p g) else Inr (Some p, g)))
      (\<lambda>(cached1, g1).
        if cached1 \<noteq> None then Inr (False, g1)
        else if ended = n then Inr (False, put_impl s (MultistreamSourceStage None index ended) g1)
        else (let ((pulled, index1), w) = PullPacket ops part (world g1)
              in case pulled of None \<Rightarrow> Inl Dcheck_failed
                 | Some p \<Rightarrow> dcheck (index1 < n)
                     (Inr (True, put_impl s (MultistreamSourceStage (Some p) index1
                                               (if end_of_stream p then ended + 1 else ended)) (g1\<lparr>world := w\<rparr>)))))"

partial_function (option) MultistreamSourceStage_Update :: "'w Part_ops \<Rightarrow> nat \<Rightarrow> 'w Graph \<Rightarrow> ('w Graph res) option" where
  "MultistreamSourceStage_Update ops s g =
     (case stage_at s g of Inl e \<Rightarrow> Some (Inl e)
      | Inr st \<Rightarrow>
          (case stg_impl st of
             MultistreamSourceStage cached index ended \<Rightarrow>
               (case multistream_round ops s (stg_part st) (length (stg_outputs st)) cached index ended g of
                  Inl e \<Rightarrow> Some (Inl e)
                | Inr (again, g1) \<Rightarrow> if again then MultistreamSourceStage_Update ops s g1 else Some (Inr g1))
           | _ \<Rightarrow> Some (Inl Dcheck_failed)))"

definition ActiveMultistreamSourceStage_Update ::
  "'w Part_ops \<Rightarrow> nat \<Rightarrow> nat \<Rightarrow> Packet option \<Rightarrow> nat \<Rightarrow> nat \<Rightarrow> bool \<Rightarrow> 'w Graph \<Rightarrow> 'w Graph res" where
  "ActiveMultistreamSourceStage_Update ops s part cached index ended outstanding g =
     rbind (case cached of None \<Rightarrow> Inr (None, g) | Some p \<Rightarrow> supply_cached ops s index p g) (\<lambda>(cached1, g1).
       (let g2 = put_impl s (ActiveMultistreamSourceStage cached1 index ended outstanding) g1
        in if cached1 = None then
             rbind (HasPositiveDemand s g2) (\<lambda>b.
               if b \<and> \<not> outstanding then
                 Inr (put_impl s (ActiveMultistreamSourceStage None index ended True)
                        (g2\<lparr>world := RequestPacket ops part (world g2)\<rparr>))
               else Inr g2)
           else Inr g2))"

text \<open>
  One visit of the loop of \<^verbatim>\<open>ActiveMultistreamSinkStage::Update\<close> over the pending inputs.
  An input is taken off the list when its demand has become negative; it is visited
  again when it has just been given a packet and still has demand.
\<close>

datatype visit = Erase | Stay | Advance

definition sink_visit :: "'w Part_ops \<Rightarrow> nat \<Rightarrow> nat \<Rightarrow> MultistreamSink \<Rightarrow> nat \<Rightarrow> 'w Graph \<Rightarrow> (visit \<times> MultistreamSink \<times> 'w Graph) res" where
  "sink_visit ops s part a n g =
     dcheck (n < length (ams_inputs a))
      (rbind (input_at (s, n) g) (\<lambda>x.
        (case packet_from_upstream x of
           None \<Rightarrow> rbind (Input_SetDemand (s, n) (si_demand (ams_inputs a ! n)) g) (\<lambda>g1. Inr (Advance, a, g1))
         | Some p \<Rightarrow>
             (let (d, w) = multi_SupplyPacket ops part (si_index (ams_inputs a ! n)) p (world g);
                  a1 = a\<lparr>ams_inputs := (ams_inputs a)[n := (ams_inputs a ! n)\<lparr>si_demand := d\<rparr>]\<rparr>;
                  g1 = put_input (s, n) (\<lambda>x. x\<lparr>packet_from_upstream := None\<rparr>) (g\<lparr>world := w\<rparr>)
              in rbind (Input_SetDemand (s, n) d (put_impl s (ActiveMultistreamSinkStage a1) g1))
                   (\<lambda>g2. Inr (if d = kNegative then Erase else Stay, a1, g2))))))"

partial_function (option) sink_visits ::
  "'w Part_ops \<Rightarrow> nat \<Rightarrow> nat \<Rightarrow> nat list \<Rightarrow> nat list \<Rightarrow> MultistreamSink \<Rightarrow> 'w Graph \<Rightarrow> ('w Graph res) option" where
  "sink_visits ops s part kept rest a g =
     (case rest of [] \<Rightarrow> Some (Inr g)
      | n # rest' \<Rightarrow>
          (case sink_visit ops s part a n g of Inl e \<Rightarrow> Some (Inl e)
           | Inr (v, a1, g1) \<Rightarrow>
               (case v of
                  Advance \<Rightarrow> sink_visits ops s part (kept @ [n]) rest' a1 g1
                | Stay \<Rightarrow> sink_visits ops s part kept rest a1 g1
                | Erase \<Rightarrow>
                    (let a2 = a1\<lparr>ams_pending_inputs := kept @ rest'\<rparr>
                     in sink_visits ops s part kept rest' a2 (put_impl s (ActiveMultistreamSinkStage a2) g1)))))"

definition Stage_Update :: "'w Part_ops \<Rightarrow> nat \<Rightarrow> 'w Graph \<Rightarrow> 'w Graph res" where
  "Stage_Update ops s g =
     rbind (stage_at s g) (\<lambda>st. (case stg_impl st of
        TransformStage alloc is_new \<Rightarrow> TransformStage_Update ops s (stg_part st) alloc is_new g
      | ActiveSourceStage b packets \<Rightarrow> ActiveSourceStage_Update ops s (stg_part st) b packets g
      | ActiveSinkStage d \<Rightarrow> ActiveSinkStage_Update ops s (stg_part st) d g
      | MultistreamSourceStage _ _ _ \<Rightarrow> rbind (of_loop (MultistreamSourceStage_Update ops s g)) (\<lambda>r. r)
      | ActiveMultistreamSourceStage c i e b \<Rightarrow> ActiveMultistreamSourceStage_Update ops s (stg_part st) c i e b g
      | ActiveMultistreamSinkStage a \<Rightarrow>
          rbind (of_loop (sink_visits ops s (stg_part st) [] (ams_pending_inputs a) a g)) (\<lambda>r. r)))"

end
