(* ===== verification/Stage_Engine.thy ===== *)
theory Stage_Engine
  imports Framework_Stages
begin

text \<open>
  The class \<^verbatim>\<open>Engine\<close> (services/media/framework/engine.h, engine.cc), which drives the
  stages of a graph: it walks upstream to prepare and downstream to flush, and it keeps
  two backlogs of stages to update, a queue of those that were supplied and a stack of
  those that were asked for packets. Also here are the operations of \<^verbatim>\<open>Graph\<close> that only
  call the engine, and the callbacks by which the parts wake their stages up.

  The lock of the engine is held for the whole of each operation, so an operation is
  one step. The loops end only when the parts allow it; each is a partial function
  whose value is \<open>None\<close> when it does not end.
\<close>

section \<open>Walking the graph\<close>

partial_function (option) visit_loop ::
  "(ref \<Rightarrow> 'w Graph \<Rightarrow> (ref list \<times> 'w Graph) res) \<Rightarrow> ref list \<Rightarrow> 'w Graph \<Rightarrow> ('w Graph res) option" where
  "visit_loop visitor backlog g =
     (case backlog of [] \<Rightarrow> Some (Inr g)
      | r # rest \<Rightarrow>
          (case visitor r g of Inl e \<Rightarrow> Some (Inl e)
           | Inr (rs, g1) \<Rightarrow> visit_loop visitor (rest @ rs) g1))"

text \<open>
  The references the callbacks of \<^verbatim>\<open>VisitUpstream\<close> and \<^verbatim>\<open>VisitDownstream\<close> push: their constructor
  checks that they are valid.
\<close>

definition input_refs :: "nat \<Rightarrow> nat list \<Rightarrow> 'w Graph \<Rightarrow> ref list res" where
  "input_refs s is g = rbind (stage_at s g) (\<lambda>st. dcheck (\<forall>i \<in> set is. i < length (stg_inputs st)) (Inr (map (Pair s) is)))"

definition output_refs :: "nat \<Rightarrow> nat list \<Rightarrow> 'w Graph \<Rightarrow> ref list res" where
  "output_refs s is g = rbind (stage_at s g) (\<lambda>st. dcheck (\<forall>i \<in> set is. i < length (stg_outputs st)) (Inr (map (Pair s) is)))"

definition VisitUpstream ::
  "(ref \<Rightarrow> ref \<Rightarrow> 'w Graph \<Rightarrow> (nat list \<times> 'w Graph) res) \<Rightarrow> ref \<Rightarrow> 'w Graph \<Rightarrow> (ref list \<times> 'w Graph) res" where
  "VisitUpstream visitor input g =
     rbind (input_at input g) (\<lambda>x. (case in_mate x of None \<Rightarrow> Inl Dcheck_failed
      | Some output \<Rightarrow>
          rbind (visitor input output g) (\<lambda>(is, g1). rbind (input_refs (fst output) is g1) (\<lambda>rs. Inr (rs, g1)))))"

definition VisitDownstream ::
  "(ref \<Rightarrow> ref \<Rightarrow> 'w Graph \<Rightarrow> (nat list \<times> 'w Graph) res) \<Rightarrow> ref \<Rightarrow> 'w Graph \<Rightarrow> (ref list \<times> 'w Graph) res" where
  "VisitDownstream visitor output g =
     rbind (output_at output g) (\<lambda>y. (case out_mate y of None \<Rightarrow> Inl Dcheck_failed
      | Some input \<Rightarrow>
          rbind (visitor output input g) (\<lambda>(is, g1). rbind (output_refs (fst input) is g1) (\<lambda>rs. Inr (rs, g1)))))"

definition prepare_visitor :: "'w Part_ops \<Rightarrow> ref \<Rightarrow> ref \<Rightarrow> 'w Graph \<Rightarrow> (nat list \<times> 'w Graph) res" where
  "prepare_visitor ops input output g =
     rbind (input_at input g) (\<lambda>x. dcheck (\<not> prepared x)
      (rbind (Stage_PrepareInput ops (fst input) (snd input) g) (\<lambda>allocator.
        Stage_PrepareOutput ops (fst output) (snd output) allocator
          (put_input input (\<lambda>x. x\<lparr>prepared := True\<rparr>) g))))"

definition unprepare_visitor :: "'w Part_ops \<Rightarrow> ref \<Rightarrow> ref \<Rightarrow> 'w Graph \<Rightarrow> (nat list \<times> 'w Graph) res" where
  "unprepare_visitor ops input output g =
     rbind (input_at input g) (\<lambda>x. dcheck (prepared x)
      (Stage_UnprepareOutput ops (fst output) (snd output) (Stage_UnprepareInput (fst input) (snd input) g)))"

definition flush_visitor :: "'w Part_ops \<Rightarrow> ref \<Rightarrow> ref \<Rightarrow> 'w Graph \<Rightarrow> (nat list \<times> 'w Graph) res" where
  "flush_visitor ops output input g =
     rbind (input_at input g) (\<lambda>x. dcheck (prepared x)
      (rbind (Stage_FlushOutput ops (fst output) (snd output) g) (\<lambda>g1.
        Stage_FlushInput ops (fst input) (snd input) g1)))"

definition run_loop :: "('a res) option \<Rightarrow> 'a res" where
  "run_loop l = rbind (of_loop l) (\<lambda>r. r)"

definition Engine_PrepareInput :: "'w Part_ops \<Rightarrow> ref \<Rightarrow> 'w Graph \<Rightarrow> 'w Graph res" where
  "Engine_PrepareInput ops input g = run_loop (visit_loop (VisitUpstream (prepare_visitor ops)) [input] g)"

definition Engine_UnprepareInput :: "'w Part_ops \<Rightarrow> ref \<Rightarrow> 'w Graph \<Rightarrow> 'w Graph res" where
  "Engine_UnprepareInput ops input g = run_loop (visit_loop (VisitUpstream (unprepare_visitor ops)) [input] g)"

definition Engine_FlushOutput :: "'w Part_ops \<Rightarrow> ref \<Rightarrow> 'w Graph \<Rightarrow> 'w Graph res" where
  "Engine_FlushOutput ops output g =
     rbind (output_at output g) (\<lambda>y. if out_mate y = None then Inr g
       else run_loop (visit_loop (VisitDownstream (flush_visitor ops)) [output] g))"

section \<open>Updating\<close>

definition Engine_UpdateStage :: "'w Part_ops \<Rightarrow> nat \<Rightarrow> 'w Graph \<Rightarrow> 'w Graph res" where
  "Engine_UpdateStage ops s g =
     rbind (Stage_Update ops s (g\<lparr>packets_produced := False\<rparr>)) (\<lambda>g1.
       if packets_produced g1 then PushToDemandBacklog s g1 else Inr g1)"

text \<open>The next stage to update: one that was supplied if there is one, else one that was asked.\<close>

definition Engine_Pop :: "'w Graph \<Rightarrow> (nat option \<times> 'w Graph) res" where
  "Engine_Pop g =
     rbind (PopFromSupplyBacklog g) (\<lambda>(s, g1). if s \<noteq> None then Inr (s, g1) else PopFromDemandBacklog g1)"

partial_function (option) Engine_Update :: "'w Part_ops \<Rightarrow> 'w Graph \<Rightarrow> ('w Graph res) option" where
  "Engine_Update ops g =
     (case Engine_Pop g of Inl e \<Rightarrow> Some (Inl e)
      | Inr (popped, g1) \<Rightarrow>
          (case popped of None \<Rightarrow> Some (Inr g1)
           | Some s \<Rightarrow>
               (case Engine_UpdateStage ops s g1 of Inl e \<Rightarrow> Some (Inl e)
                | Inr g2 \<Rightarrow> Engine_Update ops g2)))"

definition RequestUpdate :: "'w Part_ops \<Rightarrow> nat \<Rightarrow> 'w Graph \<Rightarrow> 'w Graph res" where
  "RequestUpdate ops s g = rbind (Engine_UpdateStage ops s g) (\<lambda>g1. run_loop (Engine_Update ops g1))"

definition Stage_RequestUpdate :: "'w Part_ops \<Rightarrow> nat \<Rightarrow> 'w Graph \<Rightarrow> 'w Graph res" where
  "Stage_RequestUpdate ops s g = rbind (stage_at s g) (\<lambda>st. dcheck (update_callback st) (RequestUpdate ops s g))"

section \<open>The graph's use of the engine\<close>

fun prepare_refs :: "'w Part_ops \<Rightarrow> ref list \<Rightarrow> 'w Graph \<Rightarrow> 'w Graph res" where
  "prepare_refs ops [] g = Inr g"
| "prepare_refs ops (r # rs) g = rbind (Engine_PrepareInput ops r g) (prepare_refs ops rs)"

fun prepare_sinks :: "'w Part_ops \<Rightarrow> nat list \<Rightarrow> 'w Graph \<Rightarrow> 'w Graph res" where
  "prepare_sinks ops [] g = Inr g"
| "prepare_sinks ops (s # ss) g =
     rbind (stage_at s g) (\<lambda>st. rbind (prepare_refs ops (map (Pair s) [0..<length (stg_inputs st)]) g)
       (prepare_sinks ops ss))"

definition Graph_Prepare :: "'w Part_ops \<Rightarrow> 'w Graph \<Rightarrow> 'w Graph res" where
  "Graph_Prepare ops g = prepare_sinks ops (sinks g) g"

definition Graph_PrepareInput :: "'w Part_ops \<Rightarrow> ref \<Rightarrow> 'w Graph \<Rightarrow> 'w Graph res" where
  "Graph_PrepareInput ops input g =
     rbind (InputRef_valid (Some input) g) (\<lambda>v. dcheck v (Engine_PrepareInput ops input g))"

definition Graph_FlushOutput :: "'w Part_ops \<Rightarrow> ref \<Rightarrow> 'w Graph \<Rightarrow> 'w Graph res" where
  "Graph_FlushOutput ops output g = Engine_FlushOutput ops output g"

fun flush_refs :: "'w Part_ops \<Rightarrow> ref list \<Rightarrow> 'w Graph \<Rightarrow> 'w Graph res" where
  "flush_refs ops [] g = Inr g"
| "flush_refs ops (r # rs) g = rbind (Graph_FlushOutput ops r g) (flush_refs ops rs)"

definition FlushAllOutputs :: "'w Part_ops \<Rightarrow> nat \<Rightarrow> 'w Graph \<Rightarrow> 'w Graph res" where
  "FlushAllOutputs ops s g =
     rbind (stage_at s g) (\<lambda>st. flush_refs ops (map (Pair s) [0..<length (stg_outputs st)]) g)"

section \<open>Callbacks of the parts\<close>

text \<open>A source supplies a packet; a sink signals demand.\<close>

definition ActiveSource_supply :: "'w Part_ops \<Rightarrow> nat \<Rightarrow> Packet \<Rightarrow> 'w Graph \<Rightarrow> 'w Graph res" where
  "ActiveSource_supply ops s p g =
     rbind (stage_at s g) (\<lambda>st. (case stg_impl st of
        ActiveSourceStage b packets \<Rightarrow>
          (let g1 = put_impl s (ActiveSourceStage b (packets @ [p])) g
           in if packets = [] \<and> b then Stage_RequestUpdate ops s g1 else Inr g1)
      | _ \<Rightarrow> Inl Dcheck_failed))"

definition ActiveSink_demand :: "'w Part_ops \<Rightarrow> nat \<Rightarrow> Demand \<Rightarrow> 'w Graph \<Rightarrow> 'w Graph res" where
  "ActiveSink_demand ops s d g =
     rbind (stage_at s g) (\<lambda>st. (case stg_impl st of
        ActiveSinkStage d0 \<Rightarrow>
          if d0 \<noteq> d then Stage_RequestUpdate ops s (put_impl s (ActiveSinkStage d) g) else Inr g
      | _ \<Rightarrow> Inl Dcheck_failed))"

definition ActiveMultistreamSource_supply :: "'w Part_ops \<Rightarrow> nat \<Rightarrow> nat \<Rightarrow> Packet \<Rightarrow> 'w Graph \<Rightarrow> 'w Graph res" where
  "ActiveMultistreamSource_supply ops s i p g =
     rbind (stage_at s g) (\<lambda>st. (case stg_impl st of
        ActiveMultistreamSourceStage cached _ ended outstanding \<Rightarrow>
          dcheck (cached = None) (dcheck (i < length (stg_outputs st)) (dcheck outstanding
            (let g1 = put_impl s (ActiveMultistreamSourceStage (Some p) i
                        (if end_of_stream p then ended + 1 else ended) False) g
             in rbind (Output_demand (s, i) g1) (\<lambda>d.
                  if d \<noteq> kNegative then Stage_RequestUpdate ops s g1 else Inr g1))))
      | _ \<Rightarrow> Inl Dcheck_failed))"

definition Host_UpdateDemand :: "'w Part_ops \<Rightarrow> nat \<Rightarrow> nat \<Rightarrow> Demand \<Rightarrow> 'w Graph \<Rightarrow> 'w Graph res" where
  "Host_UpdateDemand ops s i d g =
     rbind (sink_of s g) (\<lambda>(st, a).
       dcheck (i < length (ams_inputs a)) (dcheck (d \<noteq> kNegative)
         (Stage_RequestUpdate ops s
           (put_impl s (ActiveMultistreamSinkStage
              (a\<lparr>ams_inputs := (ams_inputs a)[i := (ams_inputs a ! i)\<lparr>si_demand := d\<rparr>],
                 ams_pending_inputs := ams_pending_inputs a @ [i]\<rparr>)) g))))"

end
