(* ===== verification/Engine_Invariant.thy ===== *)
theory Engine_Invariant
  imports Stage_Engine
begin

text \<open>
  What the engine keeps while it runs, and that it never fails a check on a graph that
  is connected and prepared.

  The proofs look at a graph through a few functions of it: the packets its inputs hold,
  the demand its outputs have been given, the private members of its stages and the two
  backlogs. Each operation of an input or an output is first shown to be an update of
  these functions.
\<close>

section \<open>What the proofs see of a graph\<close>

definition pkt :: "'w Graph \<Rightarrow> ref \<Rightarrow> Packet option" where
  "pkt g q = (case input_at q g of Inl _ \<Rightarrow> None | Inr x \<Rightarrow> packet_from_upstream x)"

definition dem :: "'w Graph \<Rightarrow> ref \<Rightarrow> Demand" where
  "dem g r = (case output_at r g of Inl _ \<Rightarrow> kNegative | Inr y \<Rightarrow> out_demand y)"

definition copier :: "'w Graph \<Rightarrow> ref \<Rightarrow> nat option" where
  "copier g r = (case output_at r g of Inl _ \<Rightarrow> None | Inr y \<Rightarrow> copy_allocator y)"

text \<open>The demand an output reports: negative while the input it is connected to holds a packet.\<close>

definition edem :: "'w Graph \<Rightarrow> ref \<Rightarrow> Demand" where
  "edem g r = (case omate g r of None \<Rightarrow> kNegative | Some q \<Rightarrow> if pkt g q \<noteq> None then kNegative else dem g r)"

text \<open>An update changes neither the stages nor the connections of a graph.\<close>

definition steady :: "'w Graph \<Rightarrow> 'w Graph \<Rightarrow> bool" where
  "steady g g' \<longleftrightarrow> live g' = live g \<and> counts_of g' = counts_of g \<and> part_of g' = part_of g \<and>
     callback_of g' = callback_of g \<and> stages g' = stages g \<and> sources g' = sources g \<and> sinks g' = sinks g \<and>
     imate g' = imate g \<and> omate g' = omate g \<and> is_prepared g' = is_prepared g \<and> copier g' = copier g"

lemma steady_refl [simp]: "steady g g"
  by (simp add: steady_def)

lemma steady_trans: "steady g g' \<Longrightarrow> steady g' g'' \<Longrightarrow> steady g g''"
  by (simp add: steady_def)

lemma seen_cong:
  assumes "\<And>r. input_at r g' = input_at r g" "\<And>r. output_at r g' = output_at r g"
  shows "pkt g' = pkt g" "dem g' = dem g" "imate g' = imate g" "omate g' = omate g" "copier g' = copier g"
    "is_prepared g' = is_prepared g" "edem g' = edem g"
proof -
  show p: "pkt g' = pkt g" and d: "dem g' = dem g" and o: "omate g' = omate g"
    and "imate g' = imate g" "copier g' = copier g" "is_prepared g' = is_prepared g"
    by (rule ext, simp add: pkt_def dem_def imate_def omate_def copier_def is_prepared_def assms)+
  show "edem g' = edem g" unfolding edem_def p d o ..
qed

lemma steady_store:
  assumes "store g' = store g" "stages g' = stages g" "sources g' = sources g" "sinks g' = sinks g"
  shows "steady g g'"
  using assms(2-) seen_cong [OF at_store_cong(2) [OF assms(1)] at_store_cong(3) [OF assms(1)]]
  unfolding steady_def at_store_cong(4-9) [OF assms(1)] by simp

lemma steady_world [simp]: "steady g (g\<lparr>world := w\<rparr>)"
  and steady_produced [simp]: "steady g (g\<lparr>packets_produced := b\<rparr>)"
  by (simp_all add: steady_store)

lemma seen_world [simp]:
  "pkt (g\<lparr>world := w\<rparr>) = pkt g" "dem (g\<lparr>world := w\<rparr>) = dem g" "edem (g\<lparr>world := w\<rparr>) = edem g"
  "imate (g\<lparr>world := w\<rparr>) = imate g" "omate (g\<lparr>world := w\<rparr>) = omate g" "copier (g\<lparr>world := w\<rparr>) = copier g"
  by (rule seen_cong; simp add: store_simps)+

lemma seen_produced [simp]:
  "pkt (g\<lparr>packets_produced := w\<rparr>) = pkt g" "dem (g\<lparr>packets_produced := w\<rparr>) = dem g"
  "edem (g\<lparr>packets_produced := w\<rparr>) = edem g" "imate (g\<lparr>packets_produced := w\<rparr>) = imate g"
  "omate (g\<lparr>packets_produced := w\<rparr>) = omate g" "copier (g\<lparr>packets_produced := w\<rparr>) = copier g"
  by (rule seen_cong; simp add: store_simps)+

lemma seen_put_impl [simp]:
  "pkt (put_impl s k g) = pkt g" "dem (put_impl s k g) = dem g" "imate (put_impl s k g) = imate g"
  "omate (put_impl s k g) = omate g" "copier (put_impl s k g) = copier g" "edem (put_impl s k g) = edem g"
  by (rule seen_cong; simp add: store_simps)+

lemma steady_put_impl [simp]: "steady g (put_impl s k g)"
  unfolding steady_def using seen_cong(6) [of "put_impl s k g" g] by (simp add: store_simps)

lemma put_packet [simp]:
  "pkt (put_input q (\<lambda>x. x\<lparr>packet_from_upstream := p\<rparr>) g) =
     (pkt g)(q := (case input_at q g of Inl _ \<Rightarrow> None | Inr _ \<Rightarrow> p))"
  "dem (put_input q (\<lambda>x. x\<lparr>packet_from_upstream := p\<rparr>) g) = dem g"
  by (auto simp: pkt_def dem_def store_simps fun_eq_iff split: sum.split)

lemma steady_put_packet [simp]: "steady g (put_input q (\<lambda>x. x\<lparr>packet_from_upstream := p\<rparr>) g)"
  by (auto simp: steady_def store_simps imate_def copier_def is_prepared_def fun_eq_iff sum.map_comp comp_def split: sum.split)

lemma put_demand [simp]:
  "dem (put_output r (\<lambda>y. y\<lparr>out_demand := d\<rparr>) g) =
     (dem g)(r := (case output_at r g of Inl _ \<Rightarrow> kNegative | Inr _ \<Rightarrow> d))"
  "pkt (put_output r (\<lambda>y. y\<lparr>out_demand := d\<rparr>) g) = pkt g"
  by (auto simp: pkt_def dem_def store_simps fun_eq_iff split: sum.split)

lemma steady_put_demand [simp]: "steady g (put_output r (\<lambda>y. y\<lparr>out_demand := d\<rparr>) g)"
  by (auto simp: steady_def store_simps omate_def copier_def is_prepared_def fun_eq_iff split: sum.split)

section \<open>The backlogs\<close>

definition backlog_ok :: "'w Graph \<Rightarrow> bool" where
  "backlog_ok g \<longleftrightarrow> distinct (supply_backlog g) \<and> distinct (demand_backlog g) \<and>
     (\<forall>s \<in> set (supply_backlog g) \<union> set (demand_backlog g). live g s) \<and>
     (\<forall>s. live g s \<longrightarrow> flags_of g s = Some (s \<in> set (supply_backlog g), s \<in> set (demand_backlog g)))"

lemma at_rest_iff: "at_rest g \<longleftrightarrow> backlog_ok g \<and> supply_backlog g = [] \<and> demand_backlog g = []"
  by (auto simp: at_rest_def backlog_ok_def)

lemma flags_stage: "stage_at s g = Inr st \<Longrightarrow> flags_of g s = Some (in_supply_backlog st, in_demand_backlog st)"
  by (auto simp: stage_at_def flags_of_def split: option.splits)

text \<open>What the backlogs do not touch.\<close>

definition same_data :: "'w Graph \<Rightarrow> 'w Graph \<Rightarrow> bool" where
  "same_data g g' \<longleftrightarrow> steady g g' \<and> pkt g' = pkt g \<and> dem g' = dem g \<and> impl_of g' = impl_of g \<and> world g' = world g"

lemma same_data_at:
  assumes "\<And>r. input_at r g' = input_at r g" "\<And>r. output_at r g' = output_at r g" "live g' = live g"
    "counts_of g' = counts_of g" "part_of g' = part_of g" "callback_of g' = callback_of g" "stages g' = stages g"
    "sources g' = sources g" "sinks g' = sinks g" "impl_of g' = impl_of g" "world g' = world g"
  shows "same_data g g'"
  using assms(3-) seen_cong [OF assms(1,2)] by (simp add: same_data_def steady_def)

lemma PushToSupplyBacklog_eval:
  assumes b: "backlog_ok g" and lv: "live g s"
  shows "\<exists>g'. PushToSupplyBacklog s g = Inr g' \<and> same_data g g' \<and> backlog_ok g' \<and> packets_produced g' \<and>
    demand_backlog g' = demand_backlog g \<and>
    supply_backlog g' = (if s \<in> set (supply_backlog g) then supply_backlog g else supply_backlog g @ [s])"
proof -
  let ?g1 = "g\<lparr>packets_produced := True\<rparr>"
  have "live ?g1 s" using lv by (simp add: store_simps)
  then obtain st where st: "stage_at s ?g1 = Inr st" using live_iff_stage_at by blast
  have fl: "flags_of g s = Some (in_supply_backlog st, in_demand_backlog st)"
    using flags_stage [OF st] by (simp add: store_simps)
  show ?thesis
  proof (cases "in_supply_backlog st")
    case True
    have "callback_of ?g1 = callback_of g" by (rule at_store_cong) simp
    then have "same_data g ?g1" by (intro same_data_at) (simp_all add: store_simps)
    moreover have "backlog_ok ?g1" using b by (simp add: backlog_ok_def store_simps)
    moreover have "s \<in> set (supply_backlog g)" using b fl lv True by (simp add: backlog_ok_def)
    ultimately show ?thesis using st True by (simp add: PushToSupplyBacklog_def)
  next
    case False
    let ?g' = "set_in_supply_backlog s True (?g1\<lparr>supply_backlog := supply_backlog ?g1 @ [s]\<rparr>)"
    have n: "s \<notin> set (supply_backlog g)" using b fl lv False by (simp add: backlog_ok_def)
    have c: "callback_of (?g1\<lparr>supply_backlog := q\<rparr>) = callback_of g" for q by (rule at_store_cong) simp
    have "same_data g ?g'" by (rule same_data_at) (simp_all add: store_simps c)
    moreover have "backlog_ok ?g'" using b lv n by (auto simp: backlog_ok_def store_simps)
    ultimately show ?thesis using st False n by (simp add: PushToSupplyBacklog_def store_simps)
  qed
qed

lemma PushToDemandBacklog_eval:
  assumes b: "backlog_ok g" and lv: "live g s"
  shows "\<exists>g'. PushToDemandBacklog s g = Inr g' \<and> same_data g g' \<and> backlog_ok g' \<and>
    packets_produced g' = packets_produced g \<and> supply_backlog g' = supply_backlog g \<and>
    demand_backlog g' = (if s \<in> set (demand_backlog g) then demand_backlog g else s # demand_backlog g)"
proof -
  obtain st where st: "stage_at s g = Inr st" using lv live_iff_stage_at by blast
  note fl = flags_stage [OF st]
  show ?thesis
  proof (cases "in_demand_backlog st")
    case True
    moreover have "s \<in> set (demand_backlog g)" using b fl lv True by (simp add: backlog_ok_def)
    ultimately show ?thesis using st b by (simp add: PushToDemandBacklog_def same_data_def)
  next
    case False
    let ?g' = "set_in_demand_backlog s True (g\<lparr>demand_backlog := s # demand_backlog g\<rparr>)"
    have n: "s \<notin> set (demand_backlog g)" using b fl lv False by (simp add: backlog_ok_def)
    have c: "callback_of (g\<lparr>demand_backlog := q\<rparr>) = callback_of g" for q by (rule at_store_cong) simp
    have "same_data g ?g'" by (rule same_data_at) (simp_all add: store_simps c)
    moreover have "backlog_ok ?g'" using b lv n by (auto simp: backlog_ok_def store_simps)
    ultimately show ?thesis using st False n by (simp add: PushToDemandBacklog_def store_simps)
  qed
qed

text \<open>\<open>popped g s g'\<close>: the engine takes \<open>s\<close> off the backlog it has to.\<close>

definition popped :: "'w Graph \<Rightarrow> nat \<Rightarrow> 'w Graph \<Rightarrow> bool" where
  "popped g s g' \<longleftrightarrow> same_data g g' \<and> backlog_ok g' \<and> live g s \<and> packets_produced g' = packets_produced g \<and>
     (supply_backlog g = s # supply_backlog g' \<and> demand_backlog g' = demand_backlog g \<or>
      supply_backlog g = [] \<and> supply_backlog g' = [] \<and> demand_backlog g = s # demand_backlog g')"

lemma Engine_Pop_eval:
  assumes b: "backlog_ok g"
  shows "if supply_backlog g = [] \<and> demand_backlog g = [] then Engine_Pop g = Inr (None, g)
    else \<exists>s g'. Engine_Pop g = Inr (Some s, g') \<and> popped g s g'"
proof -
  have c: "callback_of (g\<lparr>demand_backlog := q\<rparr>) = callback_of g" "callback_of (g\<lparr>supply_backlog := q\<rparr>) = callback_of g" for q
    by (rule at_store_cong, simp)+
  show ?thesis
  proof (cases "supply_backlog g")
    case (Cons s q)
    have lv: "live g s" using b Cons by (simp add: backlog_ok_def)
    then obtain st where st: "stage_at s g = Inr st" using live_iff_stage_at by blast
    have "in_supply_backlog st" using b Cons lv flags_stage [OF st] by (simp add: backlog_ok_def)
    moreover have "same_data g (set_in_supply_backlog s False (g\<lparr>supply_backlog := q\<rparr>))"
      by (rule same_data_at) (simp_all add: store_simps c)
    moreover have "backlog_ok (set_in_supply_backlog s False (g\<lparr>supply_backlog := q\<rparr>))"
      using b Cons by (auto simp: backlog_ok_def store_simps)
    ultimately show ?thesis using Cons st lv
      by (auto simp: Engine_Pop_def PopFromSupplyBacklog_def popped_def store_simps)
  next
    case Nil
    note sup = this
    show ?thesis
    proof (cases "demand_backlog g")
      case Nil
      then show ?thesis using sup by (simp add: Engine_Pop_def PopFromSupplyBacklog_def PopFromDemandBacklog_def)
    next
      case (Cons s q)
      have lv: "live g s" using b Cons by (simp add: backlog_ok_def)
      then obtain st where st: "stage_at s g = Inr st" using live_iff_stage_at by blast
      have "in_demand_backlog st" using b Cons lv flags_stage [OF st] by (simp add: backlog_ok_def)
      moreover have "same_data g (set_in_demand_backlog s False (g\<lparr>demand_backlog := q\<rparr>))"
        by (rule same_data_at) (simp_all add: store_simps c)
      moreover have "backlog_ok (set_in_demand_backlog s False (g\<lparr>demand_backlog := q\<rparr>))"
        using b Cons by (auto simp: backlog_ok_def store_simps)
      ultimately show ?thesis using sup Cons st lv
        by (auto simp: Engine_Pop_def PopFromSupplyBacklog_def PopFromDemandBacklog_def popped_def store_simps)
    qed
  qed
qed

section \<open>The operations of inputs and outputs as updates\<close>

lemma dem_at: "output_at r g = Inr y \<Longrightarrow> dem g r = out_demand y"
  by (simp add: dem_def)

lemma pkt_at: "input_at q g = Inr x \<Longrightarrow> pkt g q = packet_from_upstream x"
  by (simp add: pkt_def)

lemma mate_input_eval: "links_ok g \<Longrightarrow> output_at r g = Inr y \<Longrightarrow> out_mate y = Some q \<Longrightarrow>
    \<exists>x. input_at q g = Inr x \<and> in_mate x = Some r \<and> mate_input y g = Inr (q, x)"
  using at_exists(1) [of g q r] links_iff [of g r q] by (auto simp: mate_input_def omate_Some)

lemma mate_output_eval: "links_ok g \<Longrightarrow> input_at q g = Inr x \<Longrightarrow> in_mate x = Some r \<Longrightarrow>
    \<exists>y. output_at r g = Inr y \<and> out_mate y = Some q \<and> mate_output x g = Inr (r, y)"
  using at_exists(2) [of g r q] links_iff [of g r q] by (auto simp: mate_output_def imate_Some)

lemma Output_demand_eval:
  assumes l: "links_ok g" and m: "omate g r = Some q"
  shows "Output_demand r g = Inr (edem g r)"
proof -
  obtain y where y: "output_at r g = Inr y" "out_mate y = Some q" using at_exists(2) [OF m] by blast
  obtain x where x: "input_at q g = Inr x" "mate_input y g = Inr (q, x)" using mate_input_eval [OF l y] by blast
  show ?thesis
    using y x m by (simp add: Output_demand_def edem_def dem_at [OF y(1)] pkt_at [OF x(1)])
qed

text \<open>How the demand backlog grows when stage \<open>s\<close> is pushed to it.\<close>

definition pushed :: "nat \<Rightarrow> nat list \<Rightarrow> nat list" where
  "pushed s q = (if s \<in> set q then q else s # q)"

lemma set_pushed [simp]: "set (pushed s q) = insert s (set q)"
  by (auto simp: pushed_def)

definition demand_set :: "ref \<Rightarrow> Demand \<Rightarrow> 'w Graph \<Rightarrow> 'w Graph \<Rightarrow> bool" where
  "demand_set r d g g' \<longleftrightarrow> steady g g' \<and> pkt g' = pkt g \<and> dem g' = (dem g)(r := d) \<and> impl_of g' = impl_of g \<and>
     world g' = world g \<and> supply_backlog g' = supply_backlog g \<and> packets_produced g' = packets_produced g \<and>
     demand_backlog g' = (if dem g r = d then demand_backlog g else pushed (fst r) (demand_backlog g))"

lemma Input_SetDemand_eval:
  assumes l: "links_ok g" and b: "backlog_ok g" and m: "imate g q = Some r"
  shows "\<exists>g'. Input_SetDemand q d g = Inr g' \<and> demand_set r d g g' \<and> backlog_ok g'"
proof -
  obtain x where x: "input_at q g = Inr x" "in_mate x = Some r" using at_exists(1) [OF m] by blast
  obtain y where y: "output_at r g = Inr y" "mate_output x g = Inr (r, y)" using mate_output_eval [OF l x] by blast
  show ?thesis
  proof (cases "out_demand y = d")
    case True
    then have "(dem g)(r := d) = dem g" using dem_at [OF y(1)] by auto
    then show ?thesis using x y True b
      by (simp add: Input_SetDemand_def UpdateDemandFromInput_def demand_set_def dem_at [OF y(1)])
  next
    case False
    let ?g1 = "put_output r (\<lambda>y. y\<lparr>out_demand := d\<rparr>) g"
    have b1: "backlog_ok ?g1" using b by (simp add: backlog_ok_def store_simps)
    have "live ?g1 (fst r)" using output_at_live [OF y(1)] by (simp add: store_simps)
    from PushToDemandBacklog_eval [OF b1 this] obtain g' where
      g': "PushToDemandBacklog (fst r) ?g1 = Inr g'" "same_data ?g1 g'" "backlog_ok g'"
        "packets_produced g' = packets_produced ?g1" "supply_backlog g' = supply_backlog ?g1"
        "demand_backlog g' = pushed (fst r) (demand_backlog ?g1)" unfolding pushed_def by blast
    have "steady g g'" using g'(2) steady_trans [OF steady_put_demand [of g r d]] by (simp add: same_data_def)
    then have "demand_set r d g g'"
      using g' False y(1) dem_at [OF y(1)] by (auto simp: demand_set_def same_data_def store_simps)
    then show ?thesis using x y False g'(1,3) by (simp add: Input_SetDemand_def UpdateDemandFromInput_def)
  qed
qed

text \<open>
  A packet is supplied to \<open>q\<close> as \<open>p'\<close>, a copy of \<open>p\<close> when the output has an allocator; it
  is dropped when that allocator has no memory.
\<close>

definition same_content :: "Packet \<Rightarrow> Packet \<Rightarrow> bool" where
  "same_content p p' \<longleftrightarrow> pts p' = pts p \<and> end_of_stream p' = end_of_stream p \<and> packet_size p' = packet_size p \<and>
     (packet_size p = 0 \<or> payload_bytes p' = payload_bytes p)"

definition supplied :: "ref \<Rightarrow> Packet \<Rightarrow> 'w Graph \<Rightarrow> 'w Graph \<Rightarrow> bool" where
  "supplied q p' g g' \<longleftrightarrow> steady g g' \<and> pkt g' = (pkt g)(q \<mapsto> p') \<and> dem g' = dem g \<and> impl_of g' = impl_of g \<and>
     demand_backlog g' = demand_backlog g \<and> packets_produced g' \<and>
     supply_backlog g' = (if fst q \<in> set (supply_backlog g) then supply_backlog g else supply_backlog g @ [fst q])"

definition dropped :: "'w Graph \<Rightarrow> 'w Graph \<Rightarrow> bool" where
  "dropped g g' \<longleftrightarrow> steady g g' \<and> pkt g' = pkt g \<and> dem g' = dem g \<and> impl_of g' = impl_of g \<and>
     demand_backlog g' = demand_backlog g \<and> packets_produced g' = packets_produced g \<and>
     supply_backlog g' = supply_backlog g"

lemma copy_packet_eval:
  assumes p: "packet_ok p"
  shows "\<exists>q w. copy_packet ops a p g = Inr (q, g\<lparr>world := w\<rparr>) \<and>
    (case q of None \<Rightarrow> a \<noteq> None | Some p' \<Rightarrow> packet_ok p' \<and> same_content p p' \<and> (a = None \<longrightarrow> p' = p \<and> w = world g))"
proof (cases a)
  case None
  then show ?thesis using p
    by (intro exI [of _ "Some p"] exI [of _ "world g"]) (simp add: copy_packet_def same_content_def)
next
  case (Some b)
  show ?thesis
  proof (cases "packet_size p = 0")
    case True
    obtain w where "release ops p g = Inr (g\<lparr>world := w\<rparr>)" using release_ok [OF p, of ops g] by auto
    then show ?thesis using Some True
      by (auto simp: copy_packet_def Packet_Create_def new_Packet_def packet_ok_def same_content_def)
  next
    case False
    have "\<exists>bw. AllocatePayloadBuffer ops b (packet_size p) (world g) = Inr bw"
      using False by (simp add: AllocatePayloadBuffer_def)
    then obtain buffer w where al: "AllocatePayloadBuffer ops b (packet_size p) (world g) = Inr (buffer, w)" by fast
    obtain w' where "release ops p (g\<lparr>world := w\<rparr>) = Inr (g\<lparr>world := w, world := w'\<rparr>)"
      using release_ok [OF p, of ops "g\<lparr>world := w\<rparr>"] by auto
    then show ?thesis using Some False al
      by (cases buffer) (auto simp: copy_packet_def Packet_Create_def new_Packet_def packet_ok_def same_content_def)
  qed
qed

lemma Output_SupplyPacket_eval:
  assumes l: "links_ok g" and b: "backlog_ok g" and m: "omate g r = Some q" and e: "pkt g q = None" and p: "packet_ok p"
  shows "\<exists>g'. Output_SupplyPacket ops r p g = Inr g' \<and> backlog_ok g' \<and>
    ((\<exists>p'. packet_ok p' \<and> same_content p p' \<and> (copier g r = None \<longrightarrow> p' = p) \<and> supplied q p' g g') \<or>
     copier g r \<noteq> None \<and> dropped g g')"
proof -
  obtain y where y: "output_at r g = Inr y" "out_mate y = Some q" using at_exists(2) [OF m] by blast
  obtain p1 w where cp: "copy_packet ops (copy_allocator y) p g = Inr (p1, g\<lparr>world := w\<rparr>)"
    and p1: "case p1 of None \<Rightarrow> copy_allocator y \<noteq> None
      | Some p' \<Rightarrow> packet_ok p' \<and> same_content p p' \<and> (copy_allocator y = None \<longrightarrow> p' = p \<and> w = world g)"
    using copy_packet_eval [OF p, of ops "copy_allocator y" g] by blast
  have cy: "copier g r = copy_allocator y" using y by (simp add: copier_def)
  let ?g1 = "g\<lparr>world := w\<rparr>"
  have b1: "backlog_ok ?g1" using b by (simp add: backlog_ok_def store_simps)
  show ?thesis
  proof (cases p1)
    case None
    have "dropped g ?g1" by (simp add: dropped_def store_simps)
    then show ?thesis using None cp y p1 cy b1 by (auto simp: Output_SupplyPacket_def)
  next
    case (Some p')
    have l1: "links_ok ?g1" using l by (simp add: links_ok_def)
    have y1: "output_at r ?g1 = Inr y" using y by (simp add: store_simps)
    obtain x where x: "input_at q ?g1 = Inr x" "mate_input y ?g1 = Inr (q, x)" using mate_input_eval [OF l1 y1 y(2)] by blast
    have xe: "packet_from_upstream x = None" using e pkt_at [OF x(1)] by simp
    let ?g2 = "put_input q (\<lambda>x. x\<lparr>packet_from_upstream := Some p'\<rparr>) ?g1"
    have b2: "backlog_ok ?g2" using b1 by (simp add: backlog_ok_def store_simps)
    have "live ?g2 (fst q)" using input_at_live [OF x(1)] by (simp add: store_simps)
    from PushToSupplyBacklog_eval [OF b2 this] obtain g' where
      g': "PushToSupplyBacklog (fst q) ?g2 = Inr g'" "same_data ?g2 g'" "backlog_ok g'" "packets_produced g'"
        "demand_backlog g' = demand_backlog ?g2"
        "supply_backlog g' = (if fst q \<in> set (supply_backlog ?g2) then supply_backlog ?g2 else supply_backlog ?g2 @ [fst q])"
      by blast
    have "steady g ?g2" by (rule steady_trans [OF steady_world steady_put_packet])
    then have "supplied q p' g g'"
      using g' x(1) steady_trans [of g ?g2 g'] by (simp add: supplied_def same_data_def store_simps)
    moreover have "Output_SupplyPacket ops r p g = Inr g'"
      using y cp Some x xe g'(1) by (simp add: Output_SupplyPacket_def SupplyPacketFromOutput_def)
    ultimately show ?thesis using Some p1 cy g'(3) by auto
  qed
qed

lemma HasPositiveDemand_from_eval:
  assumes l: "links_ok g" and m: "\<forall>i \<in> set is. omate g (s, i) \<noteq> None"
  shows "HasPositiveDemand_from s is g = Inr (\<exists>i \<in> set is. edem g (s, i) = kPositive)"
  using m
proof (induction "is")
  case Nil
  then show ?case by simp
next
  case (Cons i is')
  then obtain q where "omate g (s, i) = Some q" by auto
  with Cons show ?case by (auto simp: Output_demand_eval [OF l])
qed

lemma HasPositiveDemand_eval:
  assumes "links_ok g" "counts_of g s = Some (m, n)" "\<forall>i < n. omate g (s, i) \<noteq> None"
  shows "HasPositiveDemand s g = Inr (\<exists>i < n. edem g (s, i) = kPositive)"
proof -
  obtain st where st: "stage_at s g = Inr st" "length (stg_outputs st) = n"
    using assms(2) by (auto simp: counts_of_def stage_at_def)
  then show ?thesis
    using HasPositiveDemand_from_eval [OF assms(1), of "[0..<n]" s] assms(3) by (auto simp: HasPositiveDemand_def)
qed

section \<open>The updates of the stages with one input and one output\<close>

text \<open>The packet \<open>p\<close> leaves output \<open>r\<close>: input \<open>q\<close> holds it, or a copy of it, or it is lost.\<close>

definition emitted :: "ref \<Rightarrow> ref \<Rightarrow> Packet \<Rightarrow> 'w Graph \<Rightarrow> 'w Graph \<Rightarrow> bool" where
  "emitted r q p g g' \<longleftrightarrow>
     (\<exists>p'. packet_ok p' \<and> same_content p p' \<and> (copier g r = None \<longrightarrow> p' = p) \<and> supplied q p' g g') \<or>
     copier g r \<noteq> None \<and> dropped g g'"

lemmas Output_SupplyPacket_emitted = Output_SupplyPacket_eval [folded emitted_def]

text \<open>Stage \<open>s\<close> changes its private members to \<open>k\<close>, and takes the packet off its input if \<open>c\<close>.\<close>

definition local_step :: "nat \<Rightarrow> impl \<Rightarrow> bool \<Rightarrow> 'w Graph \<Rightarrow> 'w Graph \<Rightarrow> bool" where
  "local_step s k c g g' \<longleftrightarrow> steady g g' \<and> dem g' = dem g \<and> impl_of g' = (impl_of g)(s \<mapsto> k) \<and>
     pkt g' = (if c then (pkt g)((s, 0) := None) else pkt g) \<and> supply_backlog g' = supply_backlog g \<and>
     demand_backlog g' = demand_backlog g \<and> packets_produced g' = packets_produced g"

lemma local_step_put_impl: "live g s \<Longrightarrow> local_step s k False g (put_impl s k g)"
  by (simp add: local_step_def store_simps)

lemma local_step_world: "local_step s k c (g\<lparr>world := w\<rparr>) g' \<Longrightarrow> local_step s k c g g'"
  using steady_trans [OF steady_world [of g w], of g'] by (simp add: local_step_def store_simps split: if_splits)

lemma local_step_take: "live g s \<Longrightarrow>
    local_step s k True g (put_impl s k (put_input (s, 0) (\<lambda>x. x\<lparr>packet_from_upstream := None\<rparr>) g))"
  using steady_trans [OF steady_put_packet steady_put_impl]
  by (auto simp: local_step_def store_simps split: sum.split)

lemma emitted_world: "emitted r q p (g\<lparr>world := w\<rparr>) g' \<longleftrightarrow> emitted r q p g g'"
proof -
  have "steady (g\<lparr>world := w\<rparr>) g' \<longleftrightarrow> steady g g'"
    by (simp add: steady_def store_simps) (simp add: is_prepared_def store_simps callback_of_def fun_eq_iff)
  then show ?thesis by (simp add: emitted_def supplied_def dropped_def store_simps)
qed

lemma impl_live: "impl_of g s = Some k \<Longrightarrow> live g s"
  by (auto simp: impl_of_def live_def)

lemma backlog_ok_steady:
  "backlog_ok g \<Longrightarrow> live g' = live g \<Longrightarrow> flags_of g' = flags_of g \<Longrightarrow> supply_backlog g' = supply_backlog g \<Longrightarrow>
     demand_backlog g' = demand_backlog g \<Longrightarrow> backlog_ok g'"
  by (simp add: backlog_ok_def)

lemma backlog_ok_puts:
  "backlog_ok (put_impl s k g) = backlog_ok g" "backlog_ok (put_input q f g) = backlog_ok g"
  "backlog_ok (g\<lparr>world := w\<rparr>) = backlog_ok g" "backlog_ok (g\<lparr>packets_produced := b\<rparr>) = backlog_ok g"
  by (simp_all add: backlog_ok_def store_simps)

lemma links_ok_steady: "links_ok g \<Longrightarrow> steady g g' \<Longrightarrow> links_ok g'"
  by (simp add: links_ok_def steady_def)

lemma edem_accepts: "omate g r = Some q \<Longrightarrow> edem g r \<noteq> kNegative \<Longrightarrow> pkt g q = None \<and> edem g r = dem g r"
  by (auto simp: edem_def split: if_splits)

lemma edem_world_fold: "edem (g\<lparr>world := w\<rparr>) r = edem g r" by simp

lemma ActiveSourceStage_Update_eval:
  assumes l: "links_ok g" and b: "backlog_ok g" and k: "impl_of g s = Some (ActiveSourceStage pr ps)"
    and m: "omate g (s, 0) = Some q" and pk: "\<forall>p \<in> set ps. packet_ok p"
  shows "\<exists>g'. ActiveSourceStage_Update ops s part pr ps g = Inr g' \<and> backlog_ok g' \<and>
    (if ps = [] \<or> edem g (s, 0) = kNegative then local_step s (ActiveSourceStage pr ps) False g g'
     else \<exists>g1. emitted (s, 0) q (hd ps) g g1 \<and> local_step s (ActiveSourceStage pr (tl ps)) False g1 g')"
proof -
  let ?d = "edem g (s, 0)" and ?g1 = "g\<lparr>world := SetDownstreamDemand ops part (edem g (s, 0)) (world g)\<rparr>"
  have d: "Output_demand (s, 0) g = Inr ?d" by (rule Output_demand_eval [OF l m])
  have idle: "local_step s (ActiveSourceStage pr ps) False g ?g1" "backlog_ok ?g1"
    using k b by (simp_all add: local_step_def store_simps backlog_ok_puts fun_upd_idem)
  show ?thesis
  proof (cases "ps = [] \<or> ?d = kNegative")
    case True
    then show ?thesis using idle d unfolding ActiveSourceStage_Update_def d rbind_simps Let_def
      by (cases ps) auto
  next
    case False
    then obtain p ps' where ps: "ps = p # ps'" and dn: "?d \<noteq> kNegative" by (cases ps) auto
    have "links_ok ?g1" using l by (simp add: links_ok_def)
    moreover have "omate ?g1 (s, 0) = Some q" "pkt ?g1 q = None" using m edem_accepts [OF m dn] by simp_all
    ultimately obtain g2 where g2: "Output_SupplyPacket ops (s, 0) p ?g1 = Inr g2" "backlog_ok g2" "emitted (s, 0) q p ?g1 g2"
      using Output_SupplyPacket_emitted [OF _ idle(2), of "(s, 0)" q p ops] pk ps by (metis list.set_intros(1))
    then have e: "emitted (s, 0) q p g g2" by (simp add: emitted_world)
    then have "live g2 s" using impl_live [OF k] by (auto simp: emitted_def supplied_def dropped_def steady_def)
    then have "local_step s (ActiveSourceStage pr ps') False g2 (put_impl s (ActiveSourceStage pr ps') g2)"
      by (rule local_step_put_impl)
    moreover have "ActiveSourceStage_Update ops s part pr ps g = Inr (put_impl s (ActiveSourceStage pr ps') g2)"
      unfolding ActiveSourceStage_Update_def d rbind_simps Let_def ps using dn g2(1) by simp
    ultimately show ?thesis using False e g2(2) ps by (auto simp: backlog_ok_puts)
  qed
qed

lemma ActiveSinkStage_Update_eval:
  assumes l: "links_ok g" and b: "backlog_ok g" and k: "impl_of g s = Some (ActiveSinkStage d0)"
    and m: "imate g (s, 0) = Some r"
  shows "\<exists>g'. ActiveSinkStage_Update ops s part d0 g = Inr g' \<and> backlog_ok g' \<and>
    (case pkt g (s, 0) of None \<Rightarrow> demand_set r d0 g g'
     | Some p \<Rightarrow> \<exists>g1 d. d = fst (sink_SupplyPacket ops part p (world g)) \<and>
         local_step s (ActiveSinkStage d) True g g1 \<and> world g1 = snd (sink_SupplyPacket ops part p (world g)) \<and>
         demand_set r d g1 g')"
proof -
  obtain x where x: "input_at (s, 0) g = Inr x" "in_mate x = Some r" using at_exists(1) [OF m] by blast
  show ?thesis
  proof (cases "packet_from_upstream x")
    case None
    obtain g' where "Input_SetDemand (s, 0) d0 g = Inr g'" "demand_set r d0 g g'" "backlog_ok g'"
      using Input_SetDemand_eval [OF l b m] by blast
    then show ?thesis using None x pkt_at [OF x(1)] by (simp add: ActiveSinkStage_Update_def)
  next
    case (Some p)
    obtain d w where dw: "sink_SupplyPacket ops part p (world g) = (d, w)" by fastforce
    let ?g1 = "put_impl s (ActiveSinkStage d) (put_input (s, 0) (\<lambda>x. x\<lparr>packet_from_upstream := None\<rparr>) (g\<lparr>world := w\<rparr>))"
    have lv: "live (g\<lparr>world := w\<rparr>) s" using impl_live [OF k] by (simp add: store_simps)
    have ls: "local_step s (ActiveSinkStage d) True g ?g1" by (rule local_step_world [OF local_step_take [OF lv]])
    then have "links_ok ?g1" "imate ?g1 (s, 0) = Some r" "backlog_ok ?g1"
      using links_ok_steady [OF l] m b by (auto simp: local_step_def backlog_ok_puts steady_def)
    then obtain g' where "Input_SetDemand (s, 0) d ?g1 = Inr g'" "demand_set r d ?g1 g'" "backlog_ok g'"
      using Input_SetDemand_eval [of ?g1 "(s, 0)" r d] by blast
    moreover have "world ?g1 = w" by (simp add: store_simps)
    ultimately show ?thesis using Some x pkt_at [OF x(1)] dw ls
      by (auto simp: ActiveSinkStage_Update_def)
  qed
qed

text \<open>What the framework relies on of a transform: the packets it puts out are well formed.\<close>

definition transforms_ok :: "'w Part_ops \<Rightarrow> bool" where
  "transforms_ok ops \<longleftrightarrow> (\<forall>part p is_new a w f q w'.
     packet_ok p \<and> TransformPacket ops part p is_new a w = ((f, Some q), w') \<longrightarrow> packet_ok q)"

lemma transform_packet_eval:
  assumes l: "links_ok g" and b: "backlog_ok g" and k: "impl_of g s = Some (TransformStage (Some a) is_new)"
    and m: "omate g (s, 0) = Some q" and p: "pkt g (s, 0) = Some p" "packet_ok p" and e: "edem g (s, 0) \<noteq> kNegative"
    and t: "TransformPacket ops part p is_new a (world g) = ((f, out), w)" and out: "\<And>q. out = Some q \<Longrightarrow> packet_ok q"
  shows "\<exists>g3 g4. transform_packet ops s part a is_new p g = Inr g4 \<and> backlog_ok g4 \<and>
    local_step s (TransformStage (Some a) f) f g g3 \<and>
    (case out of None \<Rightarrow> g4 = g3 | Some p' \<Rightarrow> emitted (s, 0) q p' g3 g4)"
proof -
  have qe: "pkt g q = None" using edem_accepts [OF m e] by blast
  have lv: "live (g\<lparr>world := v\<rparr>) s" for v using impl_live [OF k] by (simp add: store_simps)
  obtain w2 where w2: "release ops p (g\<lparr>world := w\<rparr>) = Inr (g\<lparr>world := w, world := w2\<rparr>)"
    using release_ok [OF p(2), of ops "g\<lparr>world := w\<rparr>"] by auto
  let ?g3 = "if f then put_impl s (TransformStage (Some a) True)
               (put_input (s, 0) (\<lambda>x. x\<lparr>packet_from_upstream := None\<rparr>) (g\<lparr>world := w2\<rparr>))
             else put_impl s (TransformStage (Some a) False) (g\<lparr>world := w\<rparr>)"
  have ls: "local_step s (TransformStage (Some a) f) f g ?g3"
    using local_step_world [OF local_step_take [OF lv]] local_step_world [OF local_step_put_impl [OF lv]] by simp
  have b3: "backlog_ok ?g3" using b by (simp add: backlog_ok_puts)
  have t3: "transform_packet ops s part a is_new p g =
      (case out of None \<Rightarrow> Inr ?g3 | Some q \<Rightarrow> Output_SupplyPacket ops (s, 0) q ?g3)"
    unfolding transform_packet_def t Let_def prod.case using w2 by simp
  show ?thesis
  proof (cases out)
    case None
    then show ?thesis using t3 ls b3 by (intro exI [of _ ?g3] exI [of _ ?g3]) simp
  next
    case (Some p')
    have st: "steady g ?g3" using ls by (simp add: local_step_def)
    have "pkt ?g3 q = None" using ls qe by (auto simp: local_step_def)
    moreover have "omate ?g3 (s, 0) = Some q" using st m by (simp add: steady_def)
    ultimately obtain g4 where "Output_SupplyPacket ops (s, 0) p' ?g3 = Inr g4" "backlog_ok g4" "emitted (s, 0) q p' ?g3 g4"
      using Output_SupplyPacket_emitted [OF links_ok_steady [OF l st] b3 _ _ out [OF Some]] by blast
    then show ?thesis using t3 Some ls by (intro exI [of _ ?g3] exI [of _ g4]) simp
  qed
qed

lemma emitted_steady: "emitted r q p g g' \<Longrightarrow> steady g g'"
  by (auto simp: emitted_def supplied_def dropped_def)

lemma local_step_steady: "local_step s k c g g' \<Longrightarrow> steady g g'"
  by (simp add: local_step_def)

lemma demand_set_steady: "demand_set r d g g' \<Longrightarrow> steady g g'"
  by (simp add: demand_set_def)

lemma TransformStage_Update_eval:
  assumes l: "links_ok g" and b: "backlog_ok g" and k: "impl_of g s = Some (TransformStage (Some a) is_new)"
    and m: "omate g (s, 0) = Some q" and i: "imate g (s, 0) = Some r" and p: "\<And>p. pkt g (s, 0) = Some p \<Longrightarrow> packet_ok p"
    and t: "transforms_ok ops"
  shows "\<exists>g'. TransformStage_Update ops s part (Some a) is_new g = Inr g' \<and> backlog_ok g' \<and>
    (if pkt g (s, 0) = None \<or> edem g (s, 0) = kNegative then demand_set r (edem g (s, 0)) g g'
     else \<exists>f out w g3 g4. TransformPacket ops part (the (pkt g (s, 0))) is_new a (world g) = ((f, out), w) \<and>
       local_step s (TransformStage (Some a) f) f g g3 \<and>
       (case out of None \<Rightarrow> g4 = g3 | Some p' \<Rightarrow> emitted (s, 0) q p' g3 g4) \<and>
       demand_set r (edem g4 (s, 0)) g4 g')"
proof -
  obtain x where x: "input_at (s, 0) g = Inr x" using at_exists(1) [OF i] by blast
  note d = Output_demand_eval [OF l m]
  show ?thesis
  proof (cases "pkt g (s, 0) = None \<or> edem g (s, 0) = kNegative")
    case True
    obtain g' where "Input_SetDemand (s, 0) (edem g (s, 0)) g = Inr g'" "demand_set r (edem g (s, 0)) g g'" "backlog_ok g'"
      using Input_SetDemand_eval [OF l b i] by blast
    then show ?thesis using True x pkt_at [OF x] d by (cases "packet_from_upstream x") (auto simp: TransformStage_Update_def)
  next
    case False
    then obtain pk where pk: "pkt g (s, 0) = Some pk" and e: "edem g (s, 0) \<noteq> kNegative" by auto
    obtain f out w where tp: "TransformPacket ops part pk is_new a (world g) = ((f, out), w)"
      by (metis prod.collapse)
    have "out = Some q' \<Longrightarrow> packet_ok q'" for q' using t tp p [OF pk] unfolding transforms_ok_def by blast
    from transform_packet_eval [OF l b k m pk p [OF pk] e tp this] obtain g3 g4 where
      g4: "transform_packet ops s part a is_new pk g = Inr g4" "backlog_ok g4"
        "local_step s (TransformStage (Some a) f) f g g3" "case out of None \<Rightarrow> g4 = g3 | Some p' \<Rightarrow> emitted (s, 0) q p' g3 g4"
      by blast
    have "steady g3 g4" using g4(4) by (cases out) (auto dest: emitted_steady)
    then have st: "steady g g4" using local_step_steady [OF g4(3)] steady_trans by blast
    have o4: "omate g4 (s, 0) = Some q" "imate g4 (s, 0) = Some r" using st m i by (simp_all add: steady_def)
    note l4 = links_ok_steady [OF l st]
    obtain g' where g': "Input_SetDemand (s, 0) (edem g4 (s, 0)) g4 = Inr g'" "demand_set r (edem g4 (s, 0)) g4 g'" "backlog_ok g'"
      using Input_SetDemand_eval [OF l4 g4(2) o4(2)] by blast
    have px: "packet_from_upstream x = Some pk" using pkt_at [OF x] pk by simp
    have "TransformStage_Update ops s part (Some a) is_new g = Inr g'"
      using x px d e g4(1) Output_demand_eval [OF l4 o4(1)] g'(1) by (simp add: TransformStage_Update_def)
    then show ?thesis using False pk tp g4(3,4) g'(2,3) by auto
  qed
qed

section \<open>Graphs the engine may run\<close>

definition run_inv :: "'w Graph \<Rightarrow> bool" where
  "run_inv g \<longleftrightarrow> links_ok g \<and> lists_ok g \<and> stages_ok g \<and> backlog_ok g"

lemma graph_inv_iff: "graph_inv g \<longleftrightarrow> run_inv g \<and> supply_backlog g = [] \<and> demand_backlog g = []"
  by (auto simp: graph_inv_def run_inv_def at_rest_iff)

text \<open>
  What is asked of a multistream source here: it always has a packet for one of its streams.
  This is more than models/multistream\<open>_\<close>source.h promises, which is a packet until the end of
  the streams; graphs of one-stream stages, to which the claims about running pipelines are
  confined, do not use it.
\<close>

definition source_ok :: "'w Part_ops \<Rightarrow> nat \<Rightarrow> nat \<Rightarrow> bool" where
  "source_ok ops part n \<longleftrightarrow> (\<forall>w r i w'. PullPacket ops part w = ((r, i), w') \<longrightarrow> i < n \<and> (\<exists>p. r = Some p \<and> packet_ok p))"

text \<open>A stage is operable when what its update uses is connected, and a transform when it is prepared.\<close>

fun stage_operable :: "'w Part_ops \<Rightarrow> 'w Graph \<Rightarrow> nat \<Rightarrow> nat \<Rightarrow> nat \<Rightarrow> impl \<Rightarrow> bool" where
  "stage_operable ops g s part n (TransformStage a _) \<longleftrightarrow> a \<noteq> None \<and> imate g (s, 0) \<noteq> None \<and> omate g (s, 0) \<noteq> None"
| "stage_operable ops g s part n (ActiveSourceStage _ _) \<longleftrightarrow> omate g (s, 0) \<noteq> None"
| "stage_operable ops g s part n (ActiveSinkStage _) \<longleftrightarrow> imate g (s, 0) \<noteq> None"
| "stage_operable ops g s part n (MultistreamSourceStage _ _ _) \<longleftrightarrow> source_ok ops part n \<and> (\<forall>i < n. omate g (s, i) \<noteq> None)"
| "stage_operable ops g s part n (ActiveMultistreamSourceStage _ _ _ _) \<longleftrightarrow> (\<forall>i < n. omate g (s, i) \<noteq> None)"
| "stage_operable ops g s part n (ActiveMultistreamSinkStage a) \<longleftrightarrow> (\<forall>i \<in> set (ams_pending_inputs a). imate g (s, i) \<noteq> None)"

definition operable :: "'w Part_ops \<Rightarrow> 'w Graph \<Rightarrow> bool" where
  "operable ops g \<longleftrightarrow> transforms_ok ops \<and> (\<forall>s k m n part. impl_of g s = Some k \<and> counts_of g s = Some (m, n) \<and>
     part_of g s = Some part \<longrightarrow> stage_operable ops g s part n k)"

text \<open>How an update may change the private members of a stage with \<open>n\<close> outputs.\<close>

fun becomes :: "nat \<Rightarrow> impl \<Rightarrow> impl \<Rightarrow> bool" where
  "becomes n (TransformStage a _) (TransformStage a' _) \<longleftrightarrow> a' = a"
| "becomes n (ActiveSourceStage b _) (ActiveSourceStage b' _) \<longleftrightarrow> b' = b"
| "becomes n (ActiveSinkStage _) (ActiveSinkStage _) \<longleftrightarrow> True"
| "becomes n (MultistreamSourceStage _ _ _) (MultistreamSourceStage c i _) \<longleftrightarrow> (c \<noteq> None \<longrightarrow> i < n)"
| "becomes n (ActiveMultistreamSourceStage _ _ _ _) (ActiveMultistreamSourceStage c i _ _) \<longleftrightarrow> (c \<noteq> None \<longrightarrow> i < n)"
| "becomes n (ActiveMultistreamSinkStage a) (ActiveMultistreamSinkStage a') \<longleftrightarrow>
     length (ams_inputs a') = length (ams_inputs a) \<and> set (ams_pending_inputs a') \<subseteq> set (ams_pending_inputs a)"
| "becomes n _ _ \<longleftrightarrow> False"

lemma becomes_trans: "becomes n k k' \<Longrightarrow> becomes n k' k'' \<Longrightarrow> becomes n k k''"
  by (cases k; cases k'; cases k'') auto

lemma becomes_shape: "becomes n k k' \<Longrightarrow> shape k (m, n) \<Longrightarrow> shape k' (m, n)"
  by (cases k; cases k') auto

lemma becomes_operable: "becomes n k k' \<Longrightarrow> stage_operable ops g s part n k \<Longrightarrow> stage_operable ops g s part n k'"
  by (cases k; cases k') auto

lemma packets_ok_pkt:
  "packets_ok g \<longleftrightarrow> (\<forall>s k p. impl_of g s = Some k \<and> p \<in> set (impl_packets k) \<longrightarrow> packet_ok p) \<and>
     (\<forall>q p. pkt g q = Some p \<longrightarrow> packet_ok p)"
proof -
  have "(\<exists>x. input_at q g = Inr x \<and> packet_from_upstream x = Some p) \<longleftrightarrow> pkt g q = Some p" for q p
    by (auto simp: pkt_def split: sum.splits)
  then show ?thesis unfolding packets_ok_def by blast
qed

lemma packets_ok_step:
  assumes "packets_ok g" "\<And>s k p. impl_of g' s = Some k \<Longrightarrow> p \<in> set (impl_packets k) \<Longrightarrow> impl_of g s = Some k \<or> packet_ok p"
    "\<And>q p. pkt g' q = Some p \<Longrightarrow> pkt g q = Some p \<or> packet_ok p"
  shows "packets_ok g'"
  using assms unfolding packets_ok_pkt by blast

definition tame :: "'w Graph \<Rightarrow> 'w Graph \<Rightarrow> bool" where
  "tame g g' \<longleftrightarrow> steady g g' \<and> (packets_ok g \<longrightarrow> packets_ok g') \<and>
     (\<forall>s k' m n. impl_of g' s = Some k' \<and> counts_of g s = Some (m, n) \<longrightarrow>
        (\<exists>k. impl_of g s = Some k \<and> (k' = k \<or> becomes n k k')))"

lemma tame_refl [simp]: "tame g g"
  by (simp add: tame_def)

lemma tame_trans: "tame g g' \<Longrightarrow> tame g' g'' \<Longrightarrow> tame g g''"
  unfolding tame_def using steady_trans becomes_trans by (smt (verit) steady_def)

lemma tame_dem: "steady g g' \<Longrightarrow> impl_of g' = impl_of g \<Longrightarrow> pkt g' = pkt g \<Longrightarrow> tame g g'"
  by (simp add: tame_def packets_ok_pkt)

lemma tame_demand_set: "demand_set r d g g' \<Longrightarrow> tame g g'"
  by (simp add: demand_set_def tame_dem)

lemma tame_emitted: "emitted r q p g g' \<Longrightarrow> tame g g'"
proof -
  assume e: "emitted r q p g g'"
  have i: "impl_of g' = impl_of g" using e by (auto simp: emitted_def supplied_def dropped_def)
  have "pkt g' q' = Some p'' \<Longrightarrow> pkt g q' = Some p'' \<or> packet_ok p''" for q' p''
    using e by (auto simp: emitted_def supplied_def dropped_def split: if_splits)
  then have "packets_ok g \<Longrightarrow> packets_ok g'" using packets_ok_step [of g g'] i by auto
  then show ?thesis using emitted_steady [OF e] i by (simp add: tame_def)
qed

lemma tame_local_step:
  assumes ls: "local_step s k' c g g'" and k: "impl_of g s = Some k"
    and b: "\<And>m n. counts_of g s = Some (m, n) \<Longrightarrow> k' = k \<or> becomes n k k'"
    and p: "\<And>p. packets_ok g \<Longrightarrow> p \<in> set (impl_packets k') \<Longrightarrow> packet_ok p"
  shows "tame g g'"
proof -
  have i: "impl_of g' = (impl_of g)(s \<mapsto> k')" using ls by (simp add: local_step_def)
  have q: "pkt g' q = Some p' \<Longrightarrow> pkt g q = Some p'" for q p'
    using ls by (auto simp: local_step_def split: if_splits)
  have "packets_ok g'" if "packets_ok g"
    using packets_ok_step [OF that, of g'] p [OF that] q unfolding i fun_upd_apply by (metis option.inject)
  then show ?thesis using local_step_steady [OF ls] k b i unfolding tame_def by (auto split: if_splits)
qed

text \<open>The invariant of the running engine, and that tame steps keep it.\<close>

definition ready :: "'w Part_ops \<Rightarrow> 'w Graph \<Rightarrow> bool" where
  "ready ops g \<longleftrightarrow> run_inv g \<and> operable ops g"

lemma stage_operable_steady: "steady g g' \<Longrightarrow> stage_operable ops g s part n k \<Longrightarrow> stage_operable ops g' s part n k"
  by (cases k) (auto simp: steady_def)

lemma ready_tame:
  assumes r: "ready ops g" and t: "tame g g'" and b: "backlog_ok g'"
  shows "ready ops g'"
proof -
  have st: "steady g g'" using t by (simp add: tame_def)
  have "links_ok g'" using r st links_ok_steady by (auto simp: ready_def run_inv_def)
  moreover have "lists_ok g'" using r st
    by (simp add: ready_def run_inv_def lists_ok_def steady_def no_inputs_def no_outputs_def fun_eq_iff cong: filter_cong)
  moreover have "shape k' (m, n)" if k': "impl_of g' s = Some k'" "counts_of g' s = Some (m, n)" for s k' m n
  proof -
    obtain k where "impl_of g s = Some k" "k' = k \<or> becomes n k k'"
      using t k' st unfolding tame_def steady_def by metis
    moreover have "counts_of g s = Some (m, n)" using k' st by (simp add: steady_def)
    ultimately show ?thesis using r becomes_shape unfolding ready_def run_inv_def stages_ok_def by blast
  qed
  moreover have "packets_ok g'" using r t by (simp add: ready_def run_inv_def stages_ok_def tame_def)
  moreover have "\<forall>s. live g' s \<longrightarrow> callback_of g' s = Some True"
    using r st by (simp add: ready_def run_inv_def stages_ok_def steady_def)
  moreover have "stage_operable ops g' s part n k'"
    if k': "impl_of g' s = Some k'" "counts_of g' s = Some (m, n)" "part_of g' s = Some part" for s k' m n part
  proof -
    obtain k where "impl_of g s = Some k" "k' = k \<or> becomes n k k'"
      using t k' st unfolding tame_def steady_def by metis
    moreover have "counts_of g s = Some (m, n)" "part_of g s = Some part" using k' st by (simp_all add: steady_def)
    ultimately show ?thesis
      using r becomes_operable stage_operable_steady [OF st] unfolding ready_def operable_def by blast
  qed
  ultimately show ?thesis using r b unfolding ready_def run_inv_def operable_def stages_ok_def by auto
qed

section \<open>The updates of the stages with several inputs or outputs\<close>

lemma supply_cached_eval:
  assumes l: "links_ok g" and b: "backlog_ok g" and m: "omate g (s, i) = Some q" and p: "packet_ok p"
  shows "\<exists>c g'. supply_cached ops s i p g = Inr (c, g') \<and> backlog_ok g' \<and> tame g g' \<and> impl_of g' = impl_of g \<and>
    (if edem g (s, i) = kNegative then c = Some p \<and> g' = g else c = None \<and> emitted (s, i) q p g g')"
proof (cases "edem g (s, i) = kNegative")
  case True
  then show ?thesis using b Output_demand_eval [OF l m] by (simp add: supply_cached_def)
next
  case False
  have "pkt g q = None" using edem_accepts [OF m False] by blast
  then obtain g' where g': "Output_SupplyPacket ops (s, i) p g = Inr g'" "backlog_ok g'" "emitted (s, i) q p g g'"
    using Output_SupplyPacket_emitted [OF l b m _ p] by blast
  moreover have "impl_of g' = impl_of g" using g'(3) by (auto simp: emitted_def supplied_def dropped_def)
  ultimately show ?thesis using False Output_demand_eval [OF l m] tame_emitted [OF g'(3)] by (auto simp: supply_cached_def)
qed

lemma tame_put_impl:
  assumes "impl_of g s = Some k" "\<And>m n. counts_of g s = Some (m, n) \<Longrightarrow> k' = k \<or> becomes n k k'"
    "\<And>p. packets_ok g \<Longrightarrow> p \<in> set (impl_packets k') \<Longrightarrow> packet_ok p"
  shows "tame g (put_impl s k' g)"
  by (rule tame_local_step [OF local_step_put_impl [OF impl_live [OF assms(1)]] assms(1)]) (use assms(2,3) in auto)

lemma tame_world: "tame g (g\<lparr>world := w\<rparr>)"
  by (rule tame_dem) (simp_all add: store_simps)

text \<open>One round of a multistream source.\<close>

lemma multistream_round_eval:
  assumes l: "links_ok g" and b: "backlog_ok g" and k: "impl_of g s = Some (MultistreamSourceStage c i e)"
    and cn: "counts_of g s = Some (m, n)" and om: "\<forall>j < n. omate g (s, j) \<noteq> None" and so: "source_ok ops part n"
    and c: "\<And>p. c = Some p \<Longrightarrow> i < n \<and> packet_ok p"
  shows "\<exists>again g' c1 i1 e1 g1. multistream_round ops s part n c i e g = Inr (again, g') \<and> backlog_ok g' \<and> tame g g' \<and>
    impl_of g' s = Some (MultistreamSourceStage c1 i1 e1) \<and> (\<forall>p. c1 = Some p \<longrightarrow> i1 < n \<and> packet_ok p) \<and>
    pkt g' = pkt g1 \<and> dem g' = dem g1 \<and> (again \<longrightarrow> c1 \<noteq> None) \<and>
    (if again \<and> c \<noteq> None then edem g (s, i) \<noteq> kNegative \<and> emitted (s, i) (the (omate g (s, i))) (the c) g g1
     else c = None \<longrightarrow> g1 = g)"
proof -
  have hp: "HasPositiveDemand s g = Inr (\<exists>j < n. edem g (s, j) = kPositive)"
    by (rule HasPositiveDemand_eval [OF l cn om])
  obtain c1 g1 where
    first: "(case c of None \<Rightarrow> Inr (None, g)
        | Some p \<Rightarrow> rbind (HasPositiveDemand s g) (\<lambda>b. if b then dcheck (i < n) (supply_cached ops s i p g) else Inr (Some p, g)))
      = Inr (c1, g1)"
    and 1: "backlog_ok g1" "tame g g1" "impl_of g1 = impl_of g" "c1 \<noteq> None \<Longrightarrow> c1 = c \<and> g1 = g"
      "c1 = None \<Longrightarrow> c \<noteq> None \<Longrightarrow> edem g (s, i) \<noteq> kNegative \<and> emitted (s, i) (the (omate g (s, i))) (the c) g g1"
      "c = None \<Longrightarrow> g1 = g"
  proof (cases c)
    case None
    then show thesis using that [of None g] b by simp
  next
    case (Some p)
    then have i: "i < n" "packet_ok p" using c by blast+
    then obtain q where q: "omate g (s, i) = Some q" using om by auto
    show thesis
    proof (cases "\<exists>j < n. edem g (s, j) = kPositive")
      case True
      obtain c' g' where sc: "supply_cached ops s i p g = Inr (c', g')" "backlog_ok g'" "tame g g'" "impl_of g' = impl_of g"
        "if edem g (s, i) = kNegative then c' = Some p \<and> g' = g else c' = None \<and> emitted (s, i) q p g g'"
        using supply_cached_eval [OF l b q i(2)] by blast
      show thesis
      proof (rule that [OF _ sc(2-4)])
        show "(case c of None \<Rightarrow> Inr (None, g) | Some p \<Rightarrow> rbind (HasPositiveDemand s g)
            (\<lambda>b. if b then dcheck (i < n) (supply_cached ops s i p g) else Inr (Some p, g))) = Inr (c', g')"
          unfolding Some option.case hp rbind_simps if_P [OF True] dcheck_pass [OF i(1)] by (rule sc(1))
        show "c' \<noteq> None \<Longrightarrow> c' = c \<and> g' = g" using sc(5) Some by (auto split: if_splits)
        show "c' = None \<Longrightarrow> c \<noteq> None \<Longrightarrow> edem g (s, i) \<noteq> kNegative \<and> emitted (s, i) (the (omate g (s, i))) (the c) g g'"
          using sc(5) Some q by (auto split: if_splits)
        show "c = None \<Longrightarrow> g' = g" using Some by simp
      qed
    next
      case False
      show thesis
        by (rule that [of "Some p" g], unfold Some option.case hp rbind_simps if_not_P [OF False]) (use Some b in simp_all)
    qed
  qed
  have k1: "impl_of g1 s = Some (MultistreamSourceStage c i e)" using k 1(3) by simp
  show ?thesis
  proof (cases "c1 = None")
    case False
    then have "multistream_round ops s part n c i e g = Inr (False, g)"
      unfolding multistream_round_def first using 1(4) by auto
    then show ?thesis using k c b by (intro exI [of _ False] exI [of _ g] exI [of _ c] exI [of _ i] exI [of _ e] exI [of _ g]) auto
  next
    case None: True
    show ?thesis
    proof (cases "e = n")
      case True
      have "multistream_round ops s part n c i e g = Inr (False, put_impl s (MultistreamSourceStage None i e) g1)"
        unfolding multistream_round_def first using None True by simp
      moreover have "tame g (put_impl s (MultistreamSourceStage None i e) g1)"
        by (rule tame_trans [OF 1(2) tame_put_impl [OF k1]]) auto
      ultimately show ?thesis using 1(1,6) impl_live [OF k1]
        by (intro exI [of _ False] exI [of _ "put_impl s (MultistreamSourceStage None i e) g1"] exI [of _ None] exI [of _ i]
            exI [of _ e] exI [of _ g1]) (simp add: store_simps backlog_ok_puts)
    next
      case False
      obtain r i1 w where pull: "PullPacket ops part (world g1) = ((r, i1), w)" by (metis prod.collapse)
      then obtain p where r: "r = Some p" "i1 < n" "packet_ok p" using so unfolding source_ok_def by blast
      let ?k = "MultistreamSourceStage (Some p) i1 (if end_of_stream p then e + 1 else e)"
      let ?g = "put_impl s ?k (g1\<lparr>world := w\<rparr>)"
      have "multistream_round ops s part n c i e g = Inr (True, ?g)"
        unfolding multistream_round_def first rbind_simps prod.case using None False pull r by simp
      moreover have "tame g ?g"
      proof (rule tame_trans [OF tame_trans [OF 1(2) tame_world] tame_put_impl])
        show "impl_of (g1\<lparr>world := w\<rparr>) s = Some (MultistreamSourceStage c i e)" using k1 by (simp add: store_simps)
      next
        fix m' n' assume "counts_of (g1\<lparr>world := w\<rparr>) s = Some (m', n')"
        then have "n' = n" using cn 1(2) by (simp add: store_simps tame_def steady_def)
        then show "?k = MultistreamSourceStage c i e \<or> becomes n' (MultistreamSourceStage c i e) ?k" using r by simp
      qed (use r in auto)
      ultimately show ?thesis using 1 r impl_live [OF k1] None
        by (intro exI [of _ True] exI [of _ ?g] exI [of _ "Some p"] exI [of _ i1]
            exI [of _ "if end_of_stream p then e + 1 else e"] exI [of _ g1]) (auto simp: store_simps backlog_ok_puts)
    qed
  qed
qed

lemma ready_stage:
  assumes r: "ready ops g" and st: "stage_at s g = Inr st"
  shows "impl_of g s = Some (stg_impl st)" "part_of g s = Some (stg_part st)"
    "counts_of g s = Some (length (stg_inputs st), length (stg_outputs st))"
    "stage_operable ops g s (stg_part st) (length (stg_outputs st)) (stg_impl st)"
    "shape (stg_impl st) (length (stg_inputs st), length (stg_outputs st))"
    "\<And>p. p \<in> set (impl_packets (stg_impl st)) \<Longrightarrow> packet_ok p"
proof -
  show k: "impl_of g s = Some (stg_impl st)" and p: "part_of g s = Some (stg_part st)"
    using st by (auto simp: impl_of_def part_of_def stage_at_def split: option.splits)
  show c: "counts_of g s = Some (length (stg_inputs st), length (stg_outputs st))" by (rule stage_at_counts [OF st])
  show "stage_operable ops g s (stg_part st) (length (stg_outputs st)) (stg_impl st)"
    using r k p c unfolding ready_def operable_def by blast
  show "shape (stg_impl st) (length (stg_inputs st), length (stg_outputs st))"
    using r k c unfolding ready_def run_inv_def stages_ok_def by blast
  show "packet_ok p" if "p \<in> set (impl_packets (stg_impl st))" for p
    using r k that unfolding ready_def run_inv_def stages_ok_def packets_ok_def by blast
qed

lemma ready_inv: "ready ops g \<Longrightarrow> links_ok g" "ready ops g \<Longrightarrow> backlog_ok g"
  "ready ops g \<Longrightarrow> transforms_ok ops" "ready ops g \<Longrightarrow> pkt g q = Some p \<Longrightarrow> packet_ok p"
  unfolding ready_def run_inv_def operable_def stages_ok_def packets_ok_pkt by blast+

lemma MultistreamSourceStage_Update_safe:
  assumes r: "ready ops g" and k: "impl_of g s = Some (MultistreamSourceStage c i e)"
    and ret: "MultistreamSourceStage_Update ops s g = Some res"
  shows "\<exists>g'. res = Inr g' \<and> tame g g' \<and> backlog_ok g'"
proof -
  have "ready ops g \<longrightarrow> (\<exists>c i e. impl_of g s = Some (MultistreamSourceStage c i e)) \<longrightarrow>
    (\<exists>g'. res = Inr g' \<and> tame g g' \<and> backlog_ok g')"
  proof (induction rule: MultistreamSourceStage_Update.raw_induct [OF _ ret])
    case (1 update ops s g res)
    show ?case
    proof (intro impI)
      assume r: "ready ops g" and "\<exists>c i e. impl_of g s = Some (MultistreamSourceStage c i e)"
      then obtain c i e where k: "impl_of g s = Some (MultistreamSourceStage c i e)" by blast
      then obtain st where st: "stage_at s g = Inr st" "stg_impl st = MultistreamSourceStage c i e"
        by (auto simp: impl_of_def stage_at_def)
      note rs = ready_stage [OF r st(1), unfolded st(2)]
      have op: "source_ok ops (stg_part st) (length (stg_outputs st))" "\<forall>j < length (stg_outputs st). omate g (s, j) \<noteq> None"
        using rs(4) by simp_all
      have cok: "c = Some p \<Longrightarrow> i < length (stg_outputs st) \<and> packet_ok p" for p
        using rs(5) rs(6) [of p] by simp
      have inv: "links_ok g" "backlog_ok g" using ready_inv r by blast+
      from multistream_round_eval [OF inv k rs(3) op(2,1) cok] obtain again g1 c1 i1 e1 where
        rd: "multistream_round ops s (stg_part st) (length (stg_outputs st)) c i e g = Inr (again, g1)" "backlog_ok g1" "tame g g1"
          "impl_of g1 s = Some (MultistreamSourceStage c1 i1 e1)" by blast
      show "\<exists>g'. res = Inr g' \<and> tame g g' \<and> backlog_ok g'"
      proof (cases again)
        case True
        then have "update ops s g1 = Some res" using 1(2) st rd(1) by simp
        from 1(1) [OF this] show ?thesis using ready_tame [OF r rd(3,2)] rd(4) tame_trans [OF rd(3)] by blast
      next
        case False
        then show ?thesis using 1(2) st rd by auto
      qed
    qed
  qed
  then show ?thesis using r k by blast
qed

text \<open>One visit of a multistream sink to a pending input.\<close>

lemma sink_visit_eval:
  assumes l: "links_ok g" and b: "backlog_ok g" and k: "impl_of g s = Some (ActiveMultistreamSinkStage a)"
    and n: "n < length (ams_inputs a)" and m: "imate g (s, n) \<noteq> None"
  shows "\<exists>v a1 g1. sink_visit ops s part a n g = Inr (v, a1, g1) \<and> tame g g1 \<and> backlog_ok g1 \<and>
    impl_of g1 s = Some (ActiveMultistreamSinkStage a1) \<and> length (ams_inputs a1) = length (ams_inputs a) \<and>
    ams_pending_inputs a1 = ams_pending_inputs a \<and>
    (pkt g (s, n) = None \<longrightarrow> v = Advance) \<and> (v = Stay \<longrightarrow> pkt g1 (s, n) = None)"
proof -
  obtain r where r: "imate g (s, n) = Some r" using m by auto
  obtain x where x: "input_at (s, n) g = Inr x" using at_exists(1) [OF r] by blast
  show ?thesis
  proof (cases "packet_from_upstream x")
    case None
    obtain g1 where "Input_SetDemand (s, n) (si_demand (ams_inputs a ! n)) g = Inr g1"
      "demand_set r (si_demand (ams_inputs a ! n)) g g1" "backlog_ok g1" using Input_SetDemand_eval [OF l b r] by blast
    moreover from this(2) have "tame g g1" "impl_of g1 = impl_of g" by (simp_all add: tame_demand_set demand_set_def)
    ultimately show ?thesis using None n x k by (simp add: sink_visit_def)
  next
    case (Some p)
    obtain d w where dw: "multi_SupplyPacket ops part (si_index (ams_inputs a ! n)) p (world g) = (d, w)" by fastforce
    let ?a1 = "a\<lparr>ams_inputs := (ams_inputs a)[n := (ams_inputs a ! n)\<lparr>si_demand := d\<rparr>]\<rparr>"
    let ?h = "put_input (s, n) (\<lambda>x. x\<lparr>packet_from_upstream := None\<rparr>) (g\<lparr>world := w\<rparr>)"
    let ?g1 = "put_impl s (ActiveMultistreamSinkStage ?a1) ?h"
    have th: "tame g ?h"
    proof (rule tame_trans [OF tame_world])
      have "packets_ok (g\<lparr>world := w\<rparr>) \<Longrightarrow> packets_ok ?h"
        by (erule packets_ok_step) (auto simp: store_simps split: if_splits sum.splits)
      then show "tame (g\<lparr>world := w\<rparr>) ?h" unfolding tame_def using steady_put_packet by (simp add: store_simps)
    qed
    have kh: "impl_of ?h s = Some (ActiveMultistreamSinkStage a)" using k by (simp add: store_simps)
    have t1: "tame g ?g1" by (rule tame_trans [OF th tame_put_impl [OF kh]]) auto
    have l1: "links_ok ?g1" using links_ok_steady [OF l] t1 by (simp add: tame_def)
    have b1: "backlog_ok ?g1" using b by (simp add: backlog_ok_puts)
    have r1: "imate ?g1 (s, n) = Some r" using t1 r by (simp add: tame_def steady_def)
    obtain g2 where g2: "Input_SetDemand (s, n) d ?g1 = Inr g2" "demand_set r d ?g1 g2" "backlog_ok g2"
      using Input_SetDemand_eval [OF l1 b1 r1] by blast
    have "tame g g2" by (rule tame_trans [OF t1 tame_demand_set [OF g2(2)]])
    moreover have "impl_of g2 s = Some (ActiveMultistreamSinkStage ?a1)"
      using g2(2) impl_live [OF kh] by (simp add: demand_set_def store_simps)
    moreover have "pkt g2 (s, n) = None" using g2(2) x by (simp add: demand_set_def store_simps)
    moreover have "sink_visit ops s part a n g = Inr (if d = kNegative then Erase else Stay, ?a1, g2)"
      using n x Some dw g2(1) by (simp add: sink_visit_def)
    ultimately show ?thesis using g2(3) Some pkt_at [OF x] by auto
  qed
qed

lemma sink_visits_total:
  "links_ok g \<Longrightarrow> backlog_ok g \<Longrightarrow> impl_of g s = Some (ActiveMultistreamSinkStage a) \<Longrightarrow>
   \<forall>n \<in> set rest. n < length (ams_inputs a) \<and> imate g (s, n) \<noteq> None \<Longrightarrow>
   set kept \<union> set rest \<subseteq> set (ams_pending_inputs a) \<Longrightarrow>
   \<exists>g'. sink_visits ops s part kept rest a g = Some (Inr g') \<and> tame g g' \<and> backlog_ok g'"
proof (induction rest arbitrary: kept a g)
  case Nil
  then show ?case by (simp add: sink_visits.simps)
next
  case (Cons n rest)
  note IH = Cons.IH
  have step: "\<exists>g'. sink_visits ops s part kept (n # rest) a g = Some (Inr g') \<and> tame g g' \<and> backlog_ok g'"
    if pre: "links_ok g" "backlog_ok g" "impl_of g s = Some (ActiveMultistreamSinkStage a)"
      "\<forall>n \<in> set (n # rest). n < length (ams_inputs a) \<and> imate g (s, n) \<noteq> None"
      "set kept \<union> set (n # rest) \<subseteq> set (ams_pending_inputs a)"
      and vis: "sink_visit ops s part a n g = Inr (v, a1, g1)" "tame g g1" "backlog_ok g1"
      "impl_of g1 s = Some (ActiveMultistreamSinkStage a1)" "length (ams_inputs a1) = length (ams_inputs a)"
      "ams_pending_inputs a1 = ams_pending_inputs a" and v: "v \<noteq> Stay" for kept a g v a1 g1
  proof -
    have st: "steady g g1" using vis(2) by (simp add: tame_def)
    have l1: "links_ok g1" by (rule links_ok_steady [OF pre(1) st])
    show ?thesis
    proof (cases v)
      case Advance
      have "\<exists>g'. sink_visits ops s part (kept @ [n]) rest a1 g1 = Some (Inr g') \<and> tame g1 g' \<and> backlog_ok g'"
        using IH [OF l1 vis(3,4), of "kept @ [n]"] pre(4,5) vis(5,6) st by (simp add: steady_def)
      then show ?thesis using Advance vis(1) tame_trans [OF vis(2)]
        by (auto simp: sink_visits.simps [of ops s part kept "n # rest"])
    next
      case Erase
      let ?a2 = "a1\<lparr>ams_pending_inputs := kept @ rest\<rparr>"
      let ?g2 = "put_impl s (ActiveMultistreamSinkStage ?a2) g1"
      have t2: "tame g1 ?g2" by (rule tame_put_impl [OF vis(4)]) (use pre(5) vis(6) in auto)
      then have "\<exists>g'. sink_visits ops s part kept rest ?a2 ?g2 = Some (Inr g') \<and> tame ?g2 g' \<and> backlog_ok g'"
        using IH [of ?g2 ?a2 kept] links_ok_steady [OF l1] pre(4,5) vis(3,5,6) st impl_live [OF vis(4)]
        by (simp add: steady_def backlog_ok_puts store_simps tame_def)
      then show ?thesis using Erase vis(1) tame_trans [OF tame_trans [OF vis(2) t2]]
        by (auto simp: sink_visits.simps [of ops s part kept "n # rest"] Let_def)
    qed (use v in simp)
  qed
  have n: "n < length (ams_inputs a)" "imate g (s, n) \<noteq> None" using Cons.prems(4) by auto
  obtain v a1 g1 where vis: "sink_visit ops s part a n g = Inr (v, a1, g1)" "tame g g1" "backlog_ok g1"
      "impl_of g1 s = Some (ActiveMultistreamSinkStage a1)" "length (ams_inputs a1) = length (ams_inputs a)"
      "ams_pending_inputs a1 = ams_pending_inputs a" and vs: "v = Stay \<longrightarrow> pkt g1 (s, n) = None"
    using sink_visit_eval [OF Cons.prems(1-3) n] by blast
  show ?case
  proof (cases "v = Stay")
    case False
    then show ?thesis using step [OF Cons.prems vis] by blast
  next
    case True
    have st: "steady g g1" using vis(2) by (simp add: tame_def)
    have p1: "links_ok g1" "\<forall>n \<in> set (n # rest). n < length (ams_inputs a1) \<and> imate g1 (s, n) \<noteq> None"
      "set kept \<union> set (n # rest) \<subseteq> set (ams_pending_inputs a1)"
      using links_ok_steady [OF Cons.prems(1) st] Cons.prems(4,5) st vis(5,6) by (simp_all add: steady_def)
    obtain v' a2 g2 where vis': "sink_visit ops s part a1 n g1 = Inr (v', a2, g2)" "tame g1 g2" "backlog_ok g2"
      "impl_of g2 s = Some (ActiveMultistreamSinkStage a2)" "length (ams_inputs a2) = length (ams_inputs a1)"
      "ams_pending_inputs a2 = ams_pending_inputs a1" and "v' = Advance"
      using sink_visit_eval [OF p1(1) vis(3,4), of n ops part] p1(2) vs True by auto
    then obtain g' where "sink_visits ops s part kept (n # rest) a1 g1 = Some (Inr g')" "tame g1 g'" "backlog_ok g'"
      using step [OF p1(1) vis(3,4) p1(2,3) vis'] by auto
    then show ?thesis using True vis(1) tame_trans [OF vis(2)]
      by (auto simp: sink_visits.simps [of ops s part kept "n # rest" a g])
  qed
qed

section \<open>The engine never fails a check\<close>

text \<open>
  The effect of an update of a stage with at most one input and one output, in terms of
  the packets, the demand, the private members and the backlogs.
\<close>

fun one_stream :: "impl \<Rightarrow> bool" where
  "one_stream (TransformStage _ _) \<longleftrightarrow> True"
| "one_stream (ActiveSourceStage _ _) \<longleftrightarrow> True"
| "one_stream (ActiveSinkStage _) \<longleftrightarrow> True"
| "one_stream _ \<longleftrightarrow> False"

definition transform_effect :: "'w Part_ops \<Rightarrow> nat \<Rightarrow> nat \<Rightarrow> nat \<Rightarrow> bool \<Rightarrow> ref \<Rightarrow> ref \<Rightarrow> 'w Graph \<Rightarrow> 'w Graph \<Rightarrow> bool" where
  "transform_effect ops s part a is_new r q g g' \<longleftrightarrow>
     (if pkt g (s, 0) = None \<or> edem g (s, 0) = kNegative then demand_set r (edem g (s, 0)) g g'
      else \<exists>f out w g3 g4. TransformPacket ops part (the (pkt g (s, 0))) is_new a (world g) = ((f, out), w) \<and>
        local_step s (TransformStage (Some a) f) f g g3 \<and>
        (case out of None \<Rightarrow> g4 = g3 | Some p' \<Rightarrow> emitted (s, 0) q p' g3 g4) \<and>
        demand_set r (edem g4 (s, 0)) g4 g')"

definition source_effect :: "nat \<Rightarrow> bool \<Rightarrow> Packet list \<Rightarrow> ref \<Rightarrow> 'w Graph \<Rightarrow> 'w Graph \<Rightarrow> bool" where
  "source_effect s b ps q g g' \<longleftrightarrow>
     (if ps = [] \<or> edem g (s, 0) = kNegative then local_step s (ActiveSourceStage b ps) False g g'
      else \<exists>g1. emitted (s, 0) q (hd ps) g g1 \<and> local_step s (ActiveSourceStage b (tl ps)) False g1 g')"

definition sink_effect :: "'w Part_ops \<Rightarrow> nat \<Rightarrow> nat \<Rightarrow> Demand \<Rightarrow> ref \<Rightarrow> 'w Graph \<Rightarrow> 'w Graph \<Rightarrow> bool" where
  "sink_effect ops s part d0 r g g' \<longleftrightarrow>
     (case pkt g (s, 0) of None \<Rightarrow> demand_set r d0 g g'
      | Some p \<Rightarrow> \<exists>g1 d. d = fst (sink_SupplyPacket ops part p (world g)) \<and>
          local_step s (ActiveSinkStage d) True g g1 \<and> world g1 = snd (sink_SupplyPacket ops part p (world g)) \<and>
          demand_set r d g1 g')"

definition update_effect :: "'w Part_ops \<Rightarrow> nat \<Rightarrow> 'w Graph \<Rightarrow> 'w Graph \<Rightarrow> bool" where
  "update_effect ops s g g' \<longleftrightarrow> (\<exists>part. part_of g s = Some part \<and>
     ((\<exists>a is_new r q. impl_of g s = Some (TransformStage (Some a) is_new) \<and> imate g (s, 0) = Some r \<and>
         omate g (s, 0) = Some q \<and> transform_effect ops s part a is_new r q g g') \<or>
      (\<exists>b ps q. impl_of g s = Some (ActiveSourceStage b ps) \<and> omate g (s, 0) = Some q \<and> source_effect s b ps q g g') \<or>
      (\<exists>d0 r. impl_of g s = Some (ActiveSinkStage d0) \<and> imate g (s, 0) = Some r \<and> sink_effect ops s part d0 r g g')))"

lemma Stage_Update_effect:
  assumes r: "ready ops g" and k: "impl_of g s = Some k" and one: "one_stream k"
  shows "\<exists>g'. Stage_Update ops s g = Inr g' \<and> backlog_ok g' \<and> update_effect ops s g g'"
proof -
  obtain st where st: "stage_at s g = Inr st" using impl_live [OF k] live_iff_stage_at by blast
  note rs = ready_stage [OF r st] and inv = ready_inv [OF r]
  have sk: "stg_impl st = k" using rs(1) k by simp
  have pin: "pkt g (s, 0) = Some p \<Longrightarrow> packet_ok p" for p using inv(4) by blast
  show ?thesis
  proof (cases k)
    case (TransformStage alloc is_new)
    then obtain a q u where a: "alloc = Some a" "omate g (s, 0) = Some q" "imate g (s, 0) = Some u" using rs(4) sk by auto
    have i: "impl_of g s = Some (TransformStage (Some a) is_new)" using k TransformStage a by simp
    show ?thesis
      using TransformStage_Update_eval [where part = "stg_part st", OF inv(1,2) i a(2,3) pin inv(3), folded transform_effect_def]
        st sk TransformStage a i rs(2) unfolding Stage_Update_def update_effect_def by auto
  next
    case (ActiveSourceStage b ps)
    then obtain q where q: "omate g (s, 0) = Some q" using rs(4) sk by auto
    have i: "impl_of g s = Some (ActiveSourceStage b ps)" and ok: "\<forall>p \<in> set ps. packet_ok p"
      using k ActiveSourceStage rs(6) sk by simp_all
    show ?thesis
      using ActiveSourceStage_Update_eval [OF inv(1,2) i q ok, of ops "stg_part st", folded source_effect_def]
        st sk ActiveSourceStage q i rs(2) unfolding Stage_Update_def update_effect_def by auto
  next
    case (ActiveSinkStage d0)
    then obtain u where u: "imate g (s, 0) = Some u" using rs(4) sk by auto
    have i: "impl_of g s = Some (ActiveSinkStage d0)" using k ActiveSinkStage by simp
    show ?thesis
      using ActiveSinkStage_Update_eval [OF inv(1,2) i u, of ops "stg_part st", folded sink_effect_def]
        st sk ActiveSinkStage u i rs(2) unfolding Stage_Update_def update_effect_def by auto
  qed (use one in simp_all)
qed

lemma update_effect_tame:
  assumes r: "ready ops g" and e: "update_effect ops s g g'"
  shows "tame g g'"
proof -
  from e consider
    (tr) part a is_new u q where "impl_of g s = Some (TransformStage (Some a) is_new)" "transform_effect ops s part a is_new u q g g'"
    | (so) b ps q where "impl_of g s = Some (ActiveSourceStage b ps)" "source_effect s b ps q g g'"
    | (si) part d0 u where "impl_of g s = Some (ActiveSinkStage d0)" "sink_effect ops s part d0 u g g'"
    unfolding update_effect_def by blast
  then show ?thesis
  proof cases
    case tr
    show ?thesis
    proof (cases "pkt g (s, 0) = None \<or> edem g (s, 0) = kNegative")
      case True
      then show ?thesis using tr(2) by (auto simp: transform_effect_def dest: tame_demand_set)
    next
      case False
      then obtain f out g3 g4 where ls: "local_step s (TransformStage (Some a) f) f g g3"
        and em: "case out of None \<Rightarrow> g4 = g3 | Some p' \<Rightarrow> emitted (s, 0) q p' g3 g4"
        and ds: "demand_set u (edem g4 (s, 0)) g4 g'" using tr(2) by (auto simp: transform_effect_def)
      have "tame g g3" by (rule tame_local_step [OF ls tr(1)]) auto
      moreover have "tame g3 g4" using em by (cases out) (auto dest: tame_emitted)
      ultimately show ?thesis using tame_trans tame_demand_set [OF ds] by blast
    qed
  next
    case so
    have ok: "packets_ok g \<Longrightarrow> p \<in> set ps \<Longrightarrow> packet_ok p" for p
      using so(1) unfolding packets_ok_def by (metis impl_packets.simps(2))
    show ?thesis
    proof (cases "ps = [] \<or> edem g (s, 0) = kNegative")
      case True
      then have "local_step s (ActiveSourceStage b ps) False g g'" using so(2) by (simp add: source_effect_def)
      then show ?thesis by (rule tame_local_step [OF _ so(1)]) (use ok in auto)
    next
      case False
      then obtain g1 where em: "emitted (s, 0) q (hd ps) g g1" and ls: "local_step s (ActiveSourceStage b (tl ps)) False g1 g'"
        using so(2) by (auto simp: source_effect_def)
      have i1: "impl_of g1 = impl_of g" using em by (auto simp: emitted_def supplied_def dropped_def)
      have tl: "p \<in> set (tl ps) \<Longrightarrow> p \<in> set ps" for p by (cases ps) auto
      have "packets_ok g" using r by (simp add: ready_def run_inv_def stages_ok_def)
      then have "tame g1 g'" by (intro tame_local_step [OF ls]) (use i1 so(1) ok in \<open>auto dest: tl\<close>)
      then show ?thesis using tame_trans tame_emitted [OF em] by blast
    qed
  next
    case si
    show ?thesis
    proof (cases "pkt g (s, 0)")
      case None
      then show ?thesis using si(2) by (auto simp: sink_effect_def dest: tame_demand_set)
    next
      case (Some p)
      then obtain g1 d where ls: "local_step s (ActiveSinkStage d) True g g1" and ds: "demand_set u d g1 g'"
        using si(2) by (auto simp: sink_effect_def)
      have "tame g g1" by (rule tame_local_step [OF ls si(1)]) auto
      then show ?thesis using tame_trans tame_demand_set [OF ds] by blast
    qed
  qed
qed

lemma Stage_Update_safe:
  assumes r: "ready ops g" and lv: "live g s"
  shows "(\<exists>g'. Stage_Update ops s g = Inr g' \<and> tame g g' \<and> backlog_ok g') \<or>
    Stage_Update ops s g = Inl No_return \<and> (\<exists>c i e. impl_of g s = Some (MultistreamSourceStage c i e))"
proof -
  obtain st where st: "stage_at s g = Inr st" using lv live_iff_stage_at by blast
  note rs = ready_stage [OF r st] and inv = ready_inv [OF r]
  have one: ?thesis if "one_stream (stg_impl st)"
    using Stage_Update_effect [OF r rs(1) that] update_effect_tame [OF r] by blast
  show ?thesis
  proof (cases "stg_impl st")
    case k: (MultistreamSourceStage c i e)
    show ?thesis
    proof (cases "MultistreamSourceStage_Update ops s g")
      case None
      then show ?thesis using st k rs(1) by (simp add: Stage_Update_def)
    next
      case (Some res)
      then show ?thesis using MultistreamSourceStage_Update_safe [OF r _ Some] rs(1) k st by (auto simp: Stage_Update_def)
    qed
  next
    case k: (ActiveMultistreamSourceStage c i e out)
    have im: "impl_of g s = Some (ActiveMultistreamSourceStage c i e out)" using rs(1) k by simp
    have om: "\<forall>j < length (stg_outputs st). omate g (s, j) \<noteq> None" using rs(4) k by simp
    obtain c1 g1 where fst1: "(case c of None \<Rightarrow> Inr (None, g) | Some p \<Rightarrow> supply_cached ops s i p g) = Inr (c1, g1)"
      and 1: "backlog_ok g1" "tame g g1" "impl_of g1 = impl_of g" and c1: "c1 = None \<or> c1 = c"
    proof (cases c)
      case None
      then show thesis using that [of None g] inv(2) by simp
    next
      case (Some p)
      have ip: "i < length (stg_outputs st)" "packet_ok p" using rs(5) rs(6) [of p] k Some by simp_all
      then obtain q where q: "omate g (s, i) = Some q" using om by auto
      obtain c' g' where sc: "supply_cached ops s i p g = Inr (c', g')" "backlog_ok g'" "tame g g'" "impl_of g' = impl_of g"
        and "if edem g (s, i) = kNegative then c' = Some p \<and> g' = g else c' = None \<and> emitted (s, i) q p g g'"
        using supply_cached_eval [OF inv(1,2) q ip(2)] by blast
      from this(5) have "c' = None \<or> c' = c" using Some by (auto split: if_splits)
      then show thesis using that [OF _ sc(2-4)] sc(1) Some by simp
    qed
    let ?k2 = "ActiveMultistreamSourceStage c1 i e out" and ?k3 = "ActiveMultistreamSourceStage None i e True"
    let ?g2 = "put_impl s ?k2 g1"
    have i1: "impl_of g1 s = Some (ActiveMultistreamSourceStage c i e out)" using im 1(3) by simp
    have "tame g1 ?g2"
    proof (rule tame_put_impl [OF i1])
      fix m n assume "counts_of g1 s = Some (m, n)"
      then have "n = length (stg_outputs st)" using rs(3) 1(2) by (simp add: tame_def steady_def)
      then show "?k2 = ActiveMultistreamSourceStage c i e out \<or> becomes n (ActiveMultistreamSourceStage c i e out) ?k2"
        using c1 rs(5) k by auto
    qed (use c1 rs(6) k in auto)
    then have t2: "tame g ?g2" by (rule tame_trans [OF 1(2)])
    have i2: "impl_of ?g2 s = Some ?k2" using impl_live [OF i1] by (simp add: store_simps)
    have l2: "links_ok ?g2" using links_ok_steady [OF inv(1)] t2 by (simp add: tame_def)
    have "counts_of ?g2 s = Some (length (stg_inputs st), length (stg_outputs st))" "\<forall>j < length (stg_outputs st). omate ?g2 (s, j) \<noteq> None"
      using t2 rs(3) om by (simp_all add: tame_def steady_def)
    note hp = HasPositiveDemand_eval [OF l2 this]
    have t3: "tame ?g2 (put_impl s ?k3 (?g2\<lparr>world := w\<rparr>))" for w
      by (rule tame_trans [OF tame_world tame_put_impl]) (use i2 in \<open>auto simp: store_simps\<close>)
    have "\<exists>g'. ActiveMultistreamSourceStage_Update ops s (stg_part st) c i e out g = Inr g' \<and> tame g g' \<and> backlog_ok g'"
      unfolding ActiveMultistreamSourceStage_Update_def fst1 rbind_simps prod.case Let_def hp
      using t2 tame_trans [OF t2 t3] 1(1) by (auto simp: backlog_ok_puts)
    then show ?thesis using st k by (simp add: Stage_Update_def)
  next
    case k: (ActiveMultistreamSinkStage a)
    have ka: "impl_of g s = Some (ActiveMultistreamSinkStage a)" using rs(1) k by simp
    have "\<forall>n \<in> set (ams_pending_inputs a). n < length (ams_inputs a) \<and> imate g (s, n) \<noteq> None"
      using rs(4,5) k by auto
    from sink_visits_total [OF inv(1,2) ka this, of "[]" ops "stg_part st"] show ?thesis
      using k st by (auto simp: Stage_Update_def)
  qed (use one in simp_all)
qed

lemma ready_same_data:
  "ready ops g \<Longrightarrow> same_data g g' \<Longrightarrow> backlog_ok g' \<Longrightarrow> ready ops g'"
  using ready_tame tame_dem unfolding same_data_def by blast

lemma Engine_UpdateStage_safe:
  assumes r: "ready ops g" and lv: "live g s"
  shows "(\<exists>g'. Engine_UpdateStage ops s g = Inr g' \<and> ready ops g' \<and> steady g g') \<or>
    Engine_UpdateStage ops s g = Inl No_return \<and> (\<exists>c i e. impl_of g s = Some (MultistreamSourceStage c i e))"
proof -
  let ?g0 = "g\<lparr>packets_produced := False\<rparr>"
  have b0: "backlog_ok ?g0" using ready_inv(2) [OF r] by (simp add: backlog_ok_puts)
  have t0: "tame g ?g0" by (rule tame_dem) (simp_all add: store_simps)
  have r0: "ready ops ?g0" by (rule ready_tame [OF r t0 b0])
  have "live ?g0 s" using lv by (simp add: store_simps)
  from Stage_Update_safe [OF r0 this] show ?thesis
  proof
    assume "\<exists>g'. Stage_Update ops s ?g0 = Inr g' \<and> tame ?g0 g' \<and> backlog_ok g'"
    then obtain g1 where g1: "Stage_Update ops s ?g0 = Inr g1" "tame ?g0 g1" "backlog_ok g1" by blast
    have r1: "ready ops g1" by (rule ready_tame [OF r0 g1(2,3)])
    have s1: "steady g g1" using tame_trans [OF t0 g1(2)] by (simp add: tame_def)
    show ?thesis
    proof (cases "packets_produced g1")
      case False
      then show ?thesis using g1(1) r1 s1 by (simp add: Engine_UpdateStage_def)
    next
      case True
      have "live g1 s" using lv s1 by (simp add: steady_def)
      then obtain g2 where "PushToDemandBacklog s g1 = Inr g2" "same_data g1 g2" "backlog_ok g2"
        using PushToDemandBacklog_eval [OF g1(3)] by blast
      then show ?thesis using True g1(1) ready_same_data [OF r1] steady_trans [OF s1]
        by (auto simp: Engine_UpdateStage_def same_data_def)
    qed
  next
    assume "Stage_Update ops s ?g0 = Inl No_return \<and> (\<exists>c i e. impl_of ?g0 s = Some (MultistreamSourceStage c i e))"
    then show ?thesis by (simp add: Engine_UpdateStage_def store_simps)
  qed
qed

lemma ready_pop: "ready ops g \<Longrightarrow> popped g s g' \<Longrightarrow> ready ops g' \<and> steady g g' \<and> live g' s"
  using ready_same_data [of ops g g'] by (auto simp: popped_def same_data_def steady_def)

lemma Engine_Update_safe:
  assumes r: "ready ops g" and ret: "Engine_Update ops g = Some res"
  shows "res = Inl No_return \<or> (\<exists>g'. res = Inr g' \<and> ready ops g' \<and> steady g g' \<and> supply_backlog g' = [] \<and> demand_backlog g' = [])"
proof -
  have "ready ops g \<longrightarrow> res = Inl No_return \<or>
    (\<exists>g'. res = Inr g' \<and> ready ops g' \<and> steady g g' \<and> supply_backlog g' = [] \<and> demand_backlog g' = [])"
  proof (induction rule: Engine_Update.raw_induct [OF _ ret])
    case (1 update ops g res)
    show ?case
    proof
      assume r: "ready ops g"
      note b = ready_inv(2) [OF r]
      show "res = Inl No_return \<or>
        (\<exists>g'. res = Inr g' \<and> ready ops g' \<and> steady g g' \<and> supply_backlog g' = [] \<and> demand_backlog g' = [])"
      proof (cases "supply_backlog g = [] \<and> demand_backlog g = []")
        case True
        then show ?thesis using 1(2) Engine_Pop_eval [OF b] r by auto
      next
        case False
        then obtain s g1 where pop: "Engine_Pop g = Inr (Some s, g1)" "popped g s g1"
          using Engine_Pop_eval [OF b] by auto
        have r1: "ready ops g1" "steady g g1" "live g1 s" using ready_pop [OF r pop(2)] by blast+
        from Engine_UpdateStage_safe [OF r1(1,3)] show ?thesis
        proof
          assume "\<exists>g'. Engine_UpdateStage ops s g1 = Inr g' \<and> ready ops g' \<and> steady g1 g'"
          then obtain g2 where g2: "Engine_UpdateStage ops s g1 = Inr g2" "ready ops g2" "steady g1 g2" by blast
          then have "update ops g2 = Some res" using 1(2) pop(1) by simp
          from 1(1) [OF this] g2(2) show ?thesis using steady_trans [OF steady_trans [OF r1(2) g2(3)]] by blast
        next
          assume "Engine_UpdateStage ops s g1 = Inl No_return \<and> (\<exists>c i e. impl_of g1 s = Some (MultistreamSourceStage c i e))"
          then show ?thesis using 1(2) pop(1) by simp
        qed
      qed
    qed
  qed
  then show ?thesis using r by blast
qed

text \<open>A request of an update fails no check, dereferences no dangling pointer, and leaves the graph at rest.\<close>

lemma RequestUpdate_ready:
  assumes r: "ready ops g" and lv: "live g s"
  shows "RequestUpdate ops s g = Inl No_return \<or>
    (\<exists>g'. RequestUpdate ops s g = Inr g' \<and> ready ops g' \<and> steady g g' \<and> supply_backlog g' = [] \<and> demand_backlog g' = [])"
  using Engine_UpdateStage_safe [OF r lv]
proof
  assume "\<exists>g'. Engine_UpdateStage ops s g = Inr g' \<and> ready ops g' \<and> steady g g'"
  then obtain g1 where g1: "Engine_UpdateStage ops s g = Inr g1" "ready ops g1" "steady g g1" by blast
  show ?thesis
  proof (cases "Engine_Update ops g1")
    case None
    then show ?thesis using g1(1) by (simp add: RequestUpdate_def run_loop_def)
  next
    case (Some res)
    then show ?thesis using Engine_Update_safe [OF g1(2) Some] g1(1) steady_trans [OF g1(3)]
      by (auto simp: RequestUpdate_def run_loop_def)
  qed
qed (simp add: RequestUpdate_def)

end
