(* ===== verification/Engine_Run.thy ===== *)
theory Engine_Run
  imports Engine_Invariant
begin

text \<open>
  The engine on pipelines: graphs of sources, transforms and sinks with one stream,
  without cycles, whose transforms finish each packet they are given. An update
  requested by a part ends, and it ends with every stage settled: no source keeps a
  packet its output would take, no transform keeps a packet it could pass on, no sink
  input holds a packet, and the demand of each stage has reached the stage upstream.

  Termination is by a lexicographic measure: the packets, each weighted by how far it is
  from the sinks, and then the backlogs, each stage weighted by how far it is from the
  sources.
\<close>

section \<open>Pipelines\<close>

definition one_shot :: "'w Part_ops \<Rightarrow> bool" where
  "one_shot ops \<longleftrightarrow> (\<forall>part p is_new a w. fst (fst (TransformPacket ops part p is_new a w)))"

definition downhill :: "(nat \<Rightarrow> nat) \<Rightarrow> 'w Graph \<Rightarrow> bool" where
  "downhill rank g \<longleftrightarrow> (\<forall>r q. omate g r = Some q \<longrightarrow> rank (fst q) < rank (fst r))"

definition pipeline :: "'w Part_ops \<Rightarrow> (nat \<Rightarrow> nat) \<Rightarrow> 'w Graph \<Rightarrow> bool" where
  "pipeline ops rank g \<longleftrightarrow> ready ops g \<and> one_shot ops \<and> downhill rank g \<and>
     (\<forall>s k. impl_of g s = Some k \<longrightarrow> one_stream k)"

lemma becomes_one_stream: "becomes n k k' \<Longrightarrow> one_stream k' = one_stream k"
  by (cases k; cases k') auto

lemma pipeline_tame:
  assumes p: "pipeline ops rank g" and t: "tame g g'" and b: "backlog_ok g'"
  shows "pipeline ops rank g'"
proof -
  have "one_stream k'" if k': "impl_of g' s = Some k'" for s k'
  proof -
    have "live g s" using impl_live [OF k'] t by (simp add: tame_def steady_def)
    then obtain m n where c: "counts_of g s = Some (m, n)" by (auto simp: live_def counts_of_def)
    then obtain k where "impl_of g s = Some k" "k' = k \<or> becomes n k k'" using t k' unfolding tame_def by blast
    then show ?thesis using p becomes_one_stream unfolding pipeline_def by blast
  qed
  then show ?thesis
    using p ready_tame [OF _ t b] t by (simp add: pipeline_def downhill_def tame_def steady_def)
qed

lemma pipeline_inputs:
  assumes p: "pipeline ops rank g" and m: "imate g q = Some r"
  shows "snd q = 0"
proof -
  obtain st where st: "stage_at (fst q) g = Inr st" using imate_live [OF m] live_iff_stage_at by blast
  have r: "ready ops g" using p by (simp add: pipeline_def)
  note rs = ready_stage [OF r st]
  have "one_stream (stg_impl st)" using p rs(1) by (simp add: pipeline_def)
  then have "length (stg_inputs st) \<le> 1" using rs(5) by (cases "stg_impl st") auto
  moreover have "snd q < length (stg_inputs st)"
    using exists_range(1) [OF rs(3), of "snd q"] m by (cases q) auto
  ultimately show ?thesis by simp
qed

section \<open>Termination\<close>

text \<open>The packets a stage holds: the one at its input and those a source has queued.\<close>

definition load :: "'w Graph \<Rightarrow> nat \<Rightarrow> nat" where
  "load g s = (if pkt g (s, 0) = None then 0 else 1) +
     (case impl_of g s of Some (ActiveSourceStage _ ps) \<Rightarrow> length ps | _ \<Rightarrow> 0)"

definition weight :: "(nat \<Rightarrow> nat) \<Rightarrow> 'w Graph \<Rightarrow> nat" where
  "weight rank g = (\<Sum>s \<in> set (stages g). (rank s + 1) * load g s)"

lemma weight_change:
  assumes st: "steady g g'" and off: "\<And>s'. s' \<noteq> s \<Longrightarrow> load g' s' = load g s'" and lv: "s \<in> set (stages g)"
  shows "weight rank g' + (rank s + 1) * load g s = weight rank g + (rank s + 1) * load g' s"
proof -
  let ?S = "set (stages g) - {s}"
  have "weight rank g' = (rank s + 1) * load g' s + (\<Sum>s \<in> ?S. (rank s + 1) * load g' s)"
    using st lv by (simp add: weight_def steady_def sum.remove)
  moreover have "(\<Sum>s \<in> ?S. (rank s + 1) * load g' s) = (\<Sum>s \<in> ?S. (rank s + 1) * load g s)"
    by (rule sum.cong) (use off in auto)
  moreover have "weight rank g = (rank s + 1) * load g s + (\<Sum>s \<in> ?S. (rank s + 1) * load g s)"
    using lv by (simp add: weight_def sum.remove)
  ultimately show ?thesis by simp
qed

lemma weight_same: "steady g g' \<Longrightarrow> pkt g' = pkt g \<Longrightarrow> impl_of g' = impl_of g \<Longrightarrow> weight rank g' = weight rank g"
  by (simp add: weight_def load_def steady_def)

lemma weight_emitted:
  assumes e: "emitted r q p g g'" and q: "snd q = 0" "pkt g q = None" and lv: "fst q \<in> set (stages g)"
  shows "weight rank g' \<le> weight rank g + (rank (fst q) + 1)"
proof -
  from e consider (d) "dropped g g'" | (s) p' where "supplied q p' g g'" unfolding emitted_def by blast
  then show ?thesis
  proof cases
    case d
    then show ?thesis using weight_same [of g g' rank] by (simp add: dropped_def)
  next
    case s
    have q0: "q = (fst q, 0)" using q(1) by (cases q) simp
    have "load g' s' = load g s'" if "s' \<noteq> fst q" for s'
      using s that q0 by (cases q) (auto simp: supplied_def load_def)
    moreover have "load g' (fst q) = load g (fst q) + 1"
      using s q by (cases q) (auto simp: supplied_def load_def)
    moreover have "steady g g'" using s by (simp add: supplied_def)
    ultimately show ?thesis using weight_change [of g g' "fst q" rank] lv by simp
  qed
qed

lemma weight_local_step:
  assumes ls: "local_step s k c g g'" and lv: "s \<in> set (stages g)" and l: "load g' s < load g s"
  shows "weight rank g' + (rank s + 1) \<le> weight rank g"
proof -
  have "load g' s' = load g s'" if "s' \<noteq> s" for s'
    using ls that by (auto simp: local_step_def load_def)
  then have "weight rank g' + (rank s + 1) * load g s = weight rank g + (rank s + 1) * load g' s"
    using weight_change [of g g' s rank] lv local_step_steady [OF ls] by simp
  moreover have "(rank s + 1) * (load g' s + 1) \<le> (rank s + 1) * load g s" using l by (intro mult_le_mono2) simp
  ultimately show ?thesis by (simp add: algebra_simps)
qed

lemma pipeline_stage_listed: "pipeline ops rank g \<Longrightarrow> live g s \<Longrightarrow> s \<in> set (stages g)"
  by (simp add: pipeline_def ready_def run_inv_def lists_ok_def)

lemma update_effect_progress:
  assumes p: "pipeline ops rank g" and e: "update_effect ops s g g'"
  shows "weight rank g' < weight rank g \<or>
    weight rank g' = weight rank g \<and> packets_produced g' = packets_produced g \<and> supply_backlog g' = supply_backlog g \<and>
    (demand_backlog g' = demand_backlog g \<or>
     (\<exists>u. demand_backlog g' = pushed u (demand_backlog g) \<and> rank s < rank u \<and> live g u))"
proof -
  have r: "ready ops g" and os: "one_shot ops" and dh: "downhill rank g" using p by (simp_all add: pipeline_def)
  note l = ready_inv(1) [OF r]
  have down: "omate g (s, 0) = Some q \<Longrightarrow> rank (fst q) < rank s \<and> snd q = 0 \<and> fst q \<in> set (stages g)" for q
    using dh links_iff [OF l] pipeline_inputs [OF p] links_live(2) [OF l] pipeline_stage_listed [OF p]
    unfolding downhill_def by (metis fst_conv)
  have up: "imate g (s, 0) = Some u \<Longrightarrow> rank s < rank (fst u) \<and> live g (fst u)" for u
    using dh links_iff [OF l] links_live(1) [OF l] unfolding downhill_def by (metis fst_conv)
  have idle: ?thesis if "demand_set u d g g'" "imate g (s, 0) = Some u" for u d
    using that up weight_same [of g g' rank] unfolding demand_set_def by (metis (no_types))
  from e consider
    (tr) part a is_new u q where "impl_of g s = Some (TransformStage (Some a) is_new)" "imate g (s, 0) = Some u"
        "omate g (s, 0) = Some q" "transform_effect ops s part a is_new u q g g'"
    | (so) b ps q where "impl_of g s = Some (ActiveSourceStage b ps)" "omate g (s, 0) = Some q" "source_effect s b ps q g g'"
    | (si) part d0 u where "impl_of g s = Some (ActiveSinkStage d0)" "imate g (s, 0) = Some u" "sink_effect ops s part d0 u g g'"
    unfolding update_effect_def by blast
  then show ?thesis
  proof cases
    case tr
    have ls: "s \<in> set (stages g)" using impl_live [OF tr(1)] pipeline_stage_listed [OF p] by blast
    show ?thesis
    proof (cases "pkt g (s, 0) = None \<or> edem g (s, 0) = kNegative")
      case True
      then show ?thesis using tr(4) idle [OF _ tr(2)] by (auto simp: transform_effect_def)
    next
      case False
      then obtain f out w g3 g4 where tp: "TransformPacket ops part (the (pkt g (s, 0))) is_new a (world g) = ((f, out), w)"
        and st: "local_step s (TransformStage (Some a) f) f g g3"
        and em: "case out of None \<Rightarrow> g4 = g3 | Some p' \<Rightarrow> emitted (s, 0) q p' g3 g4"
        and ds: "demand_set u (edem g4 (s, 0)) g4 g'" using tr(4) unfolding transform_effect_def by (metis (no_types))
      have f: "f" using os tp unfolding one_shot_def by (metis fst_conv)
      have qe: "pkt g q = None" using edem_accepts [OF tr(3)] False by blast
      have "load g3 s < load g s" using st f tr(1) False by (simp add: local_step_def load_def)
      then have w3: "weight rank g3 + (rank s + 1) \<le> weight rank g" by (rule weight_local_step [OF st ls])
      have "weight rank g4 \<le> weight rank g3 + (rank (fst q) + 1)"
      proof (cases out)
        case None
        then show ?thesis using em by simp
      next
        case (Some p')
        have "fst q \<in> set (stages g3)" "pkt g3 q = None"
          using down [OF tr(3)] local_step_steady [OF st] st qe by (auto simp: steady_def local_step_def)
        then show ?thesis using em Some weight_emitted [of "(s, 0)" q p' g3 g4 rank] down [OF tr(3)] by simp
      qed
      moreover have "weight rank g' = weight rank g4" using ds by (simp add: demand_set_def weight_same)
      ultimately show ?thesis using w3 down [OF tr(3)] by simp
    qed
  next
    case so
    have ls: "s \<in> set (stages g)" using impl_live [OF so(1)] pipeline_stage_listed [OF p] by blast
    show ?thesis
    proof (cases "ps = [] \<or> edem g (s, 0) = kNegative")
      case True
      then have st: "local_step s (ActiveSourceStage b ps) False g g'" using so(3) by (simp add: source_effect_def)
      then have "impl_of g' = impl_of g" using so(1) by (auto simp: local_step_def)
      then show ?thesis using st weight_same [of g g' rank] by (simp add: local_step_def)
    next
      case False
      then obtain g1 where em: "emitted (s, 0) q (hd ps) g g1" and st: "local_step s (ActiveSourceStage b (tl ps)) False g1 g'"
        using so(3) by (auto simp: source_effect_def)
      have "weight rank g1 \<le> weight rank g + (rank (fst q) + 1)"
        using weight_emitted [OF em] down [OF so(2)] edem_accepts [OF so(2)] False by blast
      moreover have "impl_of g1 s = Some (ActiveSourceStage b ps)" "s \<in> set (stages g1)"
        using em so(1) ls emitted_steady [OF em] by (auto simp: emitted_def supplied_def dropped_def steady_def)
      moreover have "load g' s < load g1 s" using st False calculation(2) by (simp add: local_step_def load_def)
      ultimately show ?thesis using weight_local_step [OF st, of rank] down [OF so(2)] by simp
    qed
  next
    case si
    have ls: "s \<in> set (stages g)" using impl_live [OF si(1)] pipeline_stage_listed [OF p] by blast
    show ?thesis
    proof (cases "pkt g (s, 0)")
      case None
      then show ?thesis using si(3) idle [OF _ si(2)] by (auto simp: sink_effect_def)
    next
      case (Some pk)
      then obtain g1 d where st: "local_step s (ActiveSinkStage d) True g g1" and ds: "demand_set u d g1 g'"
        using si(3) by (auto simp: sink_effect_def)
      have "load g1 s < load g s" using st si(1) Some by (simp add: local_step_def load_def)
      then have "weight rank g1 + (rank s + 1) \<le> weight rank g" by (rule weight_local_step [OF st ls])
      moreover have "weight rank g' = weight rank g1" using ds by (simp add: demand_set_def weight_same)
      ultimately show ?thesis by simp
    qed
  qed
qed

text \<open>The backlogs, each stage weighted by how far it is below the highest rank.\<close>

definition top_rank :: "(nat \<Rightarrow> nat) \<Rightarrow> 'w Graph \<Rightarrow> nat" where
  "top_rank rank g = (\<Sum>s \<in> set (stages g). rank s)"

definition backlog_weight :: "(nat \<Rightarrow> nat) \<Rightarrow> nat \<Rightarrow> 'w Graph \<Rightarrow> nat" where
  "backlog_weight rank m g = (\<Sum>s \<leftarrow> supply_backlog g @ demand_backlog g. m - rank s + 1)"

lemma rank_le_top: "s \<in> set (stages g) \<Longrightarrow> rank s \<le> top_rank rank g"
  by (simp add: top_rank_def member_le_sum)

lemma backlog_weight_pop:
  "popped g s g' \<Longrightarrow> backlog_weight rank m g = backlog_weight rank m g' + (m - rank s + 1)"
  by (auto simp: popped_def backlog_weight_def)

lemma sum_list_pushed: "(\<Sum>s \<leftarrow> pushed u q. f s) \<le> f u + (\<Sum>s \<leftarrow> q. f s)" for f :: "nat \<Rightarrow> nat"
  by (simp add: pushed_def)

text \<open>One step of the engine on a pipeline: less weight, or the same and less in the backlogs.\<close>

lemma pipeline_produced: "pipeline ops rank g \<Longrightarrow> pipeline ops rank (g\<lparr>packets_produced := b\<rparr>)"
  by (rule pipeline_tame) (auto simp: pipeline_def backlog_ok_puts store_simps intro!: tame_dem dest: ready_inv)

lemma pipeline_popped: "pipeline ops rank g \<Longrightarrow> popped g s g' \<Longrightarrow> pipeline ops rank g'"
  using pipeline_tame [of ops rank g g'] tame_dem [of g g'] by (auto simp: popped_def same_data_def)

lemma Engine_UpdateStage_effect:
  assumes p: "pipeline ops rank g" and lv: "live g s"
  shows "\<exists>g' g1. Engine_UpdateStage ops s g = Inr g' \<and> pipeline ops rank g' \<and>
    update_effect ops s (g\<lparr>packets_produced := False\<rparr>) g1 \<and> same_data g1 g' \<and> supply_backlog g' = supply_backlog g1 \<and>
    demand_backlog g' = (if packets_produced g1 then pushed s (demand_backlog g1) else demand_backlog g1)"
proof -
  let ?g0 = "g\<lparr>packets_produced := False\<rparr>"
  have p0: "pipeline ops rank ?g0" by (rule pipeline_produced [OF p])
  then have r0: "ready ops ?g0" by (simp add: pipeline_def)
  obtain k where k: "impl_of ?g0 s = Some k" using lv by (auto simp: store_simps impl_of_def live_def)
  then have one: "one_stream k" using p0 by (simp add: pipeline_def)
  obtain g1 where g1: "Stage_Update ops s ?g0 = Inr g1" "backlog_ok g1" "update_effect ops s ?g0 g1"
    using Stage_Update_effect [OF r0 k one] by blast
  have t: "tame ?g0 g1" by (rule update_effect_tame [OF r0 g1(3)])
  have p1: "pipeline ops rank g1" by (rule pipeline_tame [OF p0 t g1(2)])
  show ?thesis
  proof (cases "packets_produced g1")
    case False
    then show ?thesis using g1 p1
      by (intro exI [of _ g1] exI [of _ g1]) (simp add: Engine_UpdateStage_def same_data_def)
  next
    case True
    have "live g1 s" using t lv by (simp add: tame_def steady_def store_simps)
    then obtain g2 where g2: "PushToDemandBacklog s g1 = Inr g2" "same_data g1 g2" "backlog_ok g2"
      "supply_backlog g2 = supply_backlog g1" "demand_backlog g2 = pushed s (demand_backlog g1)"
      using PushToDemandBacklog_eval [OF g1(2)] unfolding pushed_def by blast
    have "pipeline ops rank g2"
      by (rule pipeline_tame [OF p1 _ g2(3)]) (use g2(2) in \<open>simp add: same_data_def tame_dem\<close>)
    then show ?thesis using g1 g2 True by (intro exI [of _ g2] exI [of _ g1]) (simp add: Engine_UpdateStage_def)
  qed
qed

lemma Engine_step_decreases:
  assumes p: "pipeline ops rank g" and pop: "popped g s g0" and u: "Engine_UpdateStage ops s g0 = Inr g'"
  shows "pipeline ops rank g' \<and> stages g' = stages g \<and>
    (weight rank g' < weight rank g \<or>
     weight rank g' = weight rank g \<and> backlog_weight rank (top_rank rank g) g' < backlog_weight rank (top_rank rank g) g)"
proof -
  let ?h = "g0\<lparr>packets_produced := False\<rparr>" and ?top = "top_rank rank g"
  have p0: "pipeline ops rank g0" by (rule pipeline_popped [OF p pop])
  have s0: "same_data g g0" and lv: "live g s" using pop by (simp_all add: popped_def)
  then have lv0: "live g0 s" by (simp add: same_data_def steady_def)
  obtain g1 where p': "pipeline ops rank g'" and e: "update_effect ops s ?h g1" and sd: "same_data g1 g'"
    and b: "supply_backlog g' = supply_backlog g1"
      "demand_backlog g' = (if packets_produced g1 then pushed s (demand_backlog g1) else demand_backlog g1)"
    using Engine_UpdateStage_effect [OF p0 lv0] u by auto
  have ph: "pipeline ops rank ?h" by (rule pipeline_produced [OF p0])
  have "steady ?h g1" using update_effect_tame [OF _ e] ph by (simp add: pipeline_def tame_def)
  then have sg: "stages g' = stages g" using sd s0 by (simp add: same_data_def steady_def)
  have w: "weight rank ?h = weight rank g" "weight rank g' = weight rank g1"
    using s0 sd weight_same [of g ?h rank] weight_same [of g1 g' rank] steady_trans [of g g0 ?h]
    by (simp_all add: same_data_def store_simps)
  have pw: "backlog_weight rank ?top g = backlog_weight rank ?top g0 + (?top - rank s + 1)"
    by (rule backlog_weight_pop [OF pop])
  from update_effect_progress [OF ph e] show ?thesis
  proof
    assume "weight rank g1 < weight rank ?h"
    then show ?thesis using w p' sg by simp
  next
    assume c: "weight rank g1 = weight rank ?h \<and> packets_produced g1 = packets_produced ?h \<and>
      supply_backlog g1 = supply_backlog ?h \<and> (demand_backlog g1 = demand_backlog ?h \<or>
       (\<exists>u. demand_backlog g1 = pushed u (demand_backlog ?h) \<and> rank s < rank u \<and> live ?h u))"
    then have s1: "supply_backlog g' = supply_backlog g0" "demand_backlog g' = demand_backlog g1" using b by simp_all
    from c have "demand_backlog g1 = demand_backlog g0 \<or>
       (\<exists>u. demand_backlog g1 = pushed u (demand_backlog g0) \<and> rank s < rank u \<and> live g0 u)" by (simp add: store_simps)
    then have "backlog_weight rank ?top g' < backlog_weight rank ?top g"
    proof
      assume "demand_backlog g1 = demand_backlog g0"
      then show ?thesis using s1 pw by (simp add: backlog_weight_def)
    next
      assume "\<exists>u. demand_backlog g1 = pushed u (demand_backlog g0) \<and> rank s < rank u \<and> live g0 u"
      then obtain u where u: "demand_backlog g1 = pushed u (demand_backlog g0)" "rank s < rank u" "live g0 u" by blast
      have "live g u" using u(3) s0 by (simp add: same_data_def steady_def)
      then have "rank u \<le> ?top" using rank_le_top pipeline_stage_listed [OF p] by blast
      then have "?top - rank u + 1 < ?top - rank s + 1" using u(2) by simp
      then show ?thesis
        using s1 pw u(1) sum_list_pushed [of "\<lambda>s. ?top - rank s + 1" u "demand_backlog g0"]
        by (simp add: backlog_weight_def)
    qed
    then show ?thesis using c w p' sg by simp
  qed
qed

lemma Engine_Update_terminates:
  "pipeline ops rank g \<Longrightarrow> \<exists>g'. Engine_Update ops g = Some (Inr g') \<and> pipeline ops rank g' \<and>
     supply_backlog g' = [] \<and> demand_backlog g' = []"
proof (induction g rule: wf_induct_rule [OF wf_inv_image [OF wf_lex_prod [OF wf_less_than wf_less_than],
      of "\<lambda>g. (weight rank g, backlog_weight rank (top_rank rank g) g)"]])
  case (1 g)
  note p = 1(2)
  have b: "backlog_ok g" using p ready_inv(2) by (auto simp: pipeline_def)
  show ?case
  proof (cases "supply_backlog g = [] \<and> demand_backlog g = []")
    case True
    then have "Engine_Pop g = Inr (None, g)" using Engine_Pop_eval [OF b] by simp
    then show ?thesis using True p by (simp add: Engine_Update.simps [of ops g])
  next
    case False
    then obtain s g0 where pop: "Engine_Pop g = Inr (Some s, g0)" "popped g s g0" using Engine_Pop_eval [OF b] by auto
    have p0: "pipeline ops rank g0" by (rule pipeline_popped [OF p pop(2)])
    have lv0: "live g0 s" using pop(2) by (simp add: popped_def same_data_def steady_def)
    obtain g1 where g1: "Engine_UpdateStage ops s g0 = Inr g1" using Engine_UpdateStage_effect [OF p0 lv0] by blast
    note d = Engine_step_decreases [OF p pop(2) g1]
    have "top_rank rank g1 = top_rank rank g" using d by (simp add: top_rank_def)
    then have "\<exists>g'. Engine_Update ops g1 = Some (Inr g') \<and> pipeline ops rank g' \<and> supply_backlog g' = [] \<and> demand_backlog g' = []"
      using 1(1) [of g1] d by auto
    then show ?thesis using pop(1) g1 by (simp add: Engine_Update.simps [of ops g])
  qed
qed

section \<open>Settled stages\<close>

text \<open>A stage is settled when an update of it would have nothing to do.\<close>

definition settled :: "'w Graph \<Rightarrow> nat \<Rightarrow> bool" where
  "settled g s \<longleftrightarrow> (case impl_of g s of
      Some (TransformStage _ _) \<Rightarrow> (pkt g (s, 0) = None \<or> edem g (s, 0) = kNegative) \<and>
        (\<forall>r. imate g (s, 0) = Some r \<longrightarrow> dem g r = edem g (s, 0))
    | Some (ActiveSourceStage _ ps) \<Rightarrow> ps = [] \<or> edem g (s, 0) = kNegative
    | Some (ActiveSinkStage d) \<Rightarrow> pkt g (s, 0) = None \<and> (\<forall>r. imate g (s, 0) = Some r \<longrightarrow> dem g r = d)
    | _ \<Rightarrow> True)"

text \<open>
  The invariant of the work list, with stage \<open>x\<close> being updated: every other stage is
  settled or in a backlog, and an input that holds a packet for which its stage asked
  is about to be updated, and so is the stage the packet came from.
\<close>

definition waiting :: "nat option \<Rightarrow> 'w Graph \<Rightarrow> bool" where
  "waiting x g \<longleftrightarrow>
     (\<forall>s. live g s \<and> Some s \<noteq> x \<and> s \<notin> set (supply_backlog g) \<union> set (demand_backlog g) \<longrightarrow> settled g s) \<and>
     (\<forall>r q. omate g r = Some q \<and> pkt g q \<noteq> None \<and> dem g r \<noteq> kNegative \<longrightarrow>
        (fst q \<in> set (supply_backlog g) \<or> Some (fst q) = x) \<and> fst r \<in> set (demand_backlog g))"

definition no_copy :: "'w Graph \<Rightarrow> bool" where
  "no_copy g \<longleftrightarrow> (\<forall>r. copier g r = None)"

lemma settled_cong:
  assumes "impl_of g' s = impl_of g s" "pkt g' (s, 0) = pkt g (s, 0)" "edem g' (s, 0) = edem g (s, 0)"
    "imate g' = imate g" "\<And>r. imate g (s, 0) = Some r \<Longrightarrow> dem g' r = dem g r"
  shows "settled g' s = settled g s"
  using assms by (auto simp: settled_def split: option.split impl.split)

text \<open>
  What an update changes: the packet at the input of \<open>s\<close>, the demand at the output upstream
  of \<open>s\<close>, and the packet at the input downstream of \<open>s\<close>. A stage that sees none of this
  stays settled.
\<close>

lemma edem_same: "omate g' = omate g \<Longrightarrow> dem g' r = dem g r \<Longrightarrow> (\<And>q. omate g r = Some q \<Longrightarrow> pkt g' q = pkt g q) \<Longrightarrow> edem g' r = edem g r"
  by (simp add: edem_def split: option.split)

lemma waiting_link: "waiting x g \<Longrightarrow> omate g r = Some q \<Longrightarrow> pkt g q \<noteq> None \<Longrightarrow> dem g r \<noteq> kNegative \<Longrightarrow>
    (fst q \<in> set (supply_backlog g) \<or> Some (fst q) = x) \<and> fst r \<in> set (demand_backlog g)"
  unfolding waiting_def by blast

lemma waiting_step:
  assumes l: "links_ok g" and w: "waiting (Some s) g" and st: "steady g g'"
    and im: "\<And>s'. s' \<noteq> s \<Longrightarrow> impl_of g' s' = impl_of g s'"
    and sup: "set (supply_backlog g) \<subseteq> set (supply_backlog g')" and dmd: "set (demand_backlog g) \<subseteq> set (demand_backlog g')"
    and pk: "\<And>q. pkt g' q \<noteq> pkt g q \<Longrightarrow> q = (s, 0) \<or>
      omate g (s, 0) = Some q \<and> fst q \<in> set (supply_backlog g') \<and> s \<in> set (demand_backlog g')"
    and dm: "\<And>r. dem g' r \<noteq> dem g r \<Longrightarrow> imate g (s, 0) = Some r"
    and ins: "\<And>q r. imate g q = Some r \<Longrightarrow> snd q = 0"
    and here: "s \<in> set (demand_backlog g') \<or> settled g' s"
    and up: "\<And>r. imate g (s, 0) = Some r \<Longrightarrow> fst r \<in> set (demand_backlog g') \<or> edem g' r = edem g r \<and> dem g' r = dem g r"
    and inp: "\<And>r. imate g (s, 0) = Some r \<Longrightarrow> pkt g' (s, 0) = None \<or> dem g' r = kNegative"
  shows "waiting None g'"
  unfolding waiting_def
proof (intro conjI allI impI)
  fix s' assume a: "live g' s' \<and> Some s' \<noteq> None \<and> s' \<notin> set (supply_backlog g') \<union> set (demand_backlog g')"
  show "settled g' s'"
  proof (cases "s' = s")
    case True
    then show ?thesis using here a by blast
  next
    case False
    have old: "settled g s'" using w a False sup dmd st by (auto simp: waiting_def steady_def)
    have mates: "imate g' = imate g" "omate g' = omate g" using st by (simp_all add: steady_def)
    have p': "pkt g' (s', 0) = pkt g (s', 0)" using pk [of "(s', 0)"] False a by fastforce
    have d': "imate g (s', 0) = Some r \<Longrightarrow> dem g' r = dem g r" for r
      using dm [of r] links_iff [OF l, of r] False by (metis option.inject prod.inject)
    have e': "edem g' (s', 0) = edem g (s', 0)"
    proof (cases "imate g (s, 0) = Some (s', 0)")
      case True
      then show ?thesis using up [OF True] a by auto
    next
      case no: False
      show ?thesis
      proof (rule edem_same [OF mates(2)])
        show "dem g' (s', 0) = dem g (s', 0)" using dm [of "(s', 0)"] no by blast
        fix q assume q: "omate g (s', 0) = Some q"
        then have qi: "imate g q = Some (s', 0)" using links_iff [OF l] by blast
        have "q \<noteq> (s, 0)" using qi no by auto
        moreover have "omate g (s, 0) \<noteq> Some q" using qi links_iff [OF l, of "(s, 0)" q] False by auto
        ultimately show "pkt g' q = pkt g q" using pk by blast
      qed
    qed
    show ?thesis using settled_cong [OF im [OF False] p' e' mates(1) d'] old by simp
  qed
next
  fix r q assume a: "omate g' r = Some q \<and> pkt g' q \<noteq> None \<and> dem g' r \<noteq> kNegative"
  have m: "omate g r = Some q" "imate g q = Some r" using a st links_iff [OF l] by (auto simp: steady_def)
  have q: "q \<noteq> (s, 0)" using a inp [of r] m(2) by auto
  have d: "dem g r \<noteq> kNegative" using a dm [of r] q m links_iff [OF l] by (metis option.inject)
  have "(fst q \<in> set (supply_backlog g') \<or> Some (fst q) = None) \<and> fst r \<in> set (demand_backlog g')"
  proof (cases "pkt g' q = pkt g q")
    case True
    then have "(fst q \<in> set (supply_backlog g) \<or> fst q = s) \<and> fst r \<in> set (demand_backlog g)"
      using waiting_link [OF w m(1) _ d] a by auto
    moreover have "fst q \<noteq> s" using ins [OF m(2)] q by (cases q) auto
    ultimately show ?thesis using sup dmd by blast
  next
    case False
    then have "omate g (s, 0) = Some q" "fst q \<in> set (supply_backlog g')" "s \<in> set (demand_backlog g')" using pk q by blast+
    moreover have "r = (s, 0)" using m(2) links_iff [OF l] calculation(1) by (metis option.inject)
    ultimately show ?thesis by simp
  qed
  then show "fst q \<in> set (supply_backlog g') \<or> Some (fst q) = None" "fst r \<in> set (demand_backlog g')" by blast+
qed

lemma emitted_no_copy: "no_copy g \<Longrightarrow> emitted r q p g g' \<Longrightarrow> supplied q p g g'"
  unfolding emitted_def no_copy_def by metis

text \<open>The three kinds of stages: after an update of \<open>s\<close> and the push of \<open>s\<close> if it produced a packet.\<close>

definition pushed_if_produced :: "nat \<Rightarrow> 'w Graph \<Rightarrow> 'w Graph \<Rightarrow> bool" where
  "pushed_if_produced s g1 g' \<longleftrightarrow> same_data g1 g' \<and> supply_backlog g' = supply_backlog g1 \<and>
     demand_backlog g' = (if packets_produced g1 then pushed s (demand_backlog g1) else demand_backlog g1)"

lemma edem_demand_elsewhere:
  "demand_set r d g g' \<Longrightarrow> r' \<noteq> r \<Longrightarrow> edem g' r' = edem g r'"
  by (rule edem_same) (auto simp: demand_set_def steady_def)

lemma waiting_idle:
  assumes p: "pipeline ops rank g" and w: "waiting (Some s) g" and np: "\<not> packets_produced g"
    and m: "imate g (s, 0) = Some r" and ds: "demand_set r d g g1" and push: "pushed_if_produced s g1 g'"
    and neg: "pkt g (s, 0) = None \<or> d = kNegative" and here: "settled g1 s"
  shows "waiting None g'"
proof -
  have l: "links_ok g" using p ready_inv(1) by (auto simp: pipeline_def)
  have sd: "same_data g1 g'" and sup: "supply_backlog g' = supply_backlog g" and np1: "\<not> packets_produced g1"
    and dmd: "demand_backlog g' = (if dem g r = d then demand_backlog g else pushed (fst r) (demand_backlog g))"
    using ds push np by (auto simp: demand_set_def pushed_if_produced_def)
  have st: "steady g g'" using steady_trans demand_set_steady [OF ds] sd by (auto simp: same_data_def)
  have seen: "pkt g' = pkt g" "dem g' = (dem g)(r := d)" "impl_of g' = impl_of g" "omate g' = omate g"
    using sd ds by (simp_all add: same_data_def demand_set_def steady_def)
  show ?thesis
  proof (rule waiting_step [OF l w st])
    show "set (supply_backlog g) \<subseteq> set (supply_backlog g')" "set (demand_backlog g) \<subseteq> set (demand_backlog g')"
      using sup dmd by auto
    show "dem g' r' \<noteq> dem g r' \<Longrightarrow> imate g (s, 0) = Some r'" for r' using seen m by (auto split: if_splits)
    show "s \<in> set (demand_backlog g') \<or> settled g' s"
    proof -
      have "settled g' s = settled g1 s"
        by (rule settled_cong) (use sd in \<open>auto simp: same_data_def steady_def intro!: edem_same\<close>)
      then show ?thesis using here by blast
    qed
    show "fst u \<in> set (demand_backlog g') \<or> edem g' u = edem g u \<and> dem g' u = dem g u" if "imate g (s, 0) = Some u" for u
    proof (cases "dem g r = d")
      case True
      then have "dem g' u = dem g u" using seen that m by simp
      moreover have "edem g' u = edem g u" by (rule edem_same) (use seen calculation in auto)
      ultimately show ?thesis by blast
    next
      case False
      then show ?thesis using dmd that m by simp
    qed
    show "pkt g' (s, 0) = None \<or> dem g' u = kNegative" if "imate g (s, 0) = Some u" for u using seen neg that m by auto
  qed (use seen pipeline_inputs [OF p] in auto)
qed

lemma waiting_busy_end:
  assumes p: "pipeline ops rank g" and w: "waiting (Some s) g" and m: "imate g (s, 0) = Some r"
    and has: "pkt g (s, 0) \<noteq> None" and ls: "local_step s k True g g3" and ds: "demand_set r d g3 g1"
    and np: "\<not> packets_produced g" and push: "pushed_if_produced s g1 g'" and here: "settled g1 s"
  shows "waiting None g'"
proof -
  have l: "links_ok g" using p ready_inv(1) by (auto simp: pipeline_def)
  have om: "omate g r = Some (s, 0)" using m links_iff [OF l] by blast
  have sd: "same_data g1 g'" and sup: "supply_backlog g' = supply_backlog g"
    and dmd: "demand_backlog g' = (if dem g r = d then demand_backlog g else pushed (fst r) (demand_backlog g))"
    using ls ds push np by (auto simp: demand_set_def pushed_if_produced_def local_step_def)
  have st: "steady g g'" using steady_trans [OF local_step_steady [OF ls]] steady_trans [OF demand_set_steady [OF ds]] sd
    by (auto simp: same_data_def)
  have seen: "pkt g' = (pkt g)((s, 0) := None)" "dem g' = (dem g)(r := d)" "impl_of g' = (impl_of g)(s \<mapsto> k)" "omate g' = omate g"
    using sd ds ls st by (simp_all add: same_data_def demand_set_def steady_def local_step_def)
  show ?thesis
  proof (rule waiting_step [OF l w st])
    show "set (supply_backlog g) \<subseteq> set (supply_backlog g')" "set (demand_backlog g) \<subseteq> set (demand_backlog g')"
      using sup dmd by auto
    show "dem g' r' \<noteq> dem g r' \<Longrightarrow> imate g (s, 0) = Some r'" for r' using seen m by (auto split: if_splits)
    show "s \<in> set (demand_backlog g') \<or> settled g' s"
    proof -
      have "settled g' s = settled g1 s"
        by (rule settled_cong) (use sd in \<open>auto simp: same_data_def steady_def intro!: edem_same\<close>)
      then show ?thesis using here by blast
    qed
    show "fst u \<in> set (demand_backlog g') \<or> edem g' u = edem g u \<and> dem g' u = dem g u" if u: "imate g (s, 0) = Some u" for u
    proof (cases "dem g r = d")
      case True
      have ur: "u = r" using u m by simp
      show ?thesis
      proof (cases "d = kNegative")
        case True
        then have "edem g' r = kNegative" "edem g r = kNegative" using seen om has by (simp_all add: edem_def)
        then show ?thesis using seen ur \<open>dem g r = d\<close> by simp
      next
        case False
        then have "fst r \<in> set (demand_backlog g)" using waiting_link [OF w om has] True by simp
        then show ?thesis using dmd True ur by simp
      qed
    next
      case False
      then show ?thesis using dmd u m by simp
    qed
  qed (use seen pipeline_inputs [OF p] in \<open>auto split: if_splits\<close>)
qed

lemma waiting_busy_supply:
  assumes p: "pipeline ops rank g" and w: "waiting (Some s) g" and m: "omate g (s, 0) = Some q" and np: "\<not> packets_produced g"
    and seen: "steady g g'" "pkt g' = (if c then (pkt g)((s, 0) := None) else pkt g)(q \<mapsto> p')"
      "\<And>s'. s' \<noteq> s \<Longrightarrow> impl_of g' s' = impl_of g s'"
    and sup: "set (supply_backlog g') = insert (fst q) (set (supply_backlog g))"
    and dmd: "insert s (set (demand_backlog g)) \<subseteq> set (demand_backlog g')"
    and src: "imate g (s, 0) = None \<Longrightarrow> dem g' = dem g"
    and up: "\<And>r. imate g (s, 0) = Some r \<Longrightarrow> c \<and> pkt g (s, 0) \<noteq> None \<and> dem g' = (dem g)(r := kNegative) \<and>
      (dem g r = kNegative \<or> fst r \<in> set (demand_backlog g'))"
  shows "waiting None g'"
proof -
  have l: "links_ok g" using p ready_inv(1) by (auto simp: pipeline_def)
  have om: "omate g' = omate g" using seen(1) by (simp add: steady_def)
  have qs: "q \<noteq> (s, 0)" using p m by (auto simp: pipeline_def downhill_def)
  show ?thesis
  proof (rule waiting_step [OF l w seen(1,3)])
    show "set (supply_backlog g) \<subseteq> set (supply_backlog g')" "set (demand_backlog g) \<subseteq> set (demand_backlog g')"
      using sup dmd by auto
    show "q' = (s, 0) \<or> omate g (s, 0) = Some q' \<and> fst q' \<in> set (supply_backlog g') \<and> s \<in> set (demand_backlog g')"
      if "pkt g' q' \<noteq> pkt g q'" for q' using that seen(2) sup dmd m by (auto split: if_splits)
    show "imate g (s, 0) = Some r'" if "dem g' r' \<noteq> dem g r'" for r'
      using that src up by (cases "imate g (s, 0)") (auto split: if_splits)
    show "s \<in> set (demand_backlog g') \<or> settled g' s" using dmd by blast
    show "fst u \<in> set (demand_backlog g') \<or> edem g' u = edem g u \<and> dem g' u = dem g u" if u: "imate g (s, 0) = Some u" for u
    proof (cases "dem g u = kNegative")
      case True
      have ou: "omate g u = Some (s, 0)" using u links_iff [OF l] by blast
      have "edem g u = kNegative" "edem g' u = kNegative" using ou om up [OF u] True by (simp_all add: edem_def)
      then show ?thesis using up [OF u] True by simp
    next
      case False
      then show ?thesis using up [OF u] by blast
    qed
    show "pkt g' (s, 0) = None \<or> dem g' u = kNegative" if "imate g (s, 0) = Some u" for u using up [OF that] by simp
  qed (use pipeline_inputs [OF p] in auto)
qed

lemma no_copy_steady: "no_copy g \<Longrightarrow> steady g g' \<Longrightarrow> no_copy g'"
  by (simp add: no_copy_def steady_def)

lemma update_effect_waiting:
  assumes p: "pipeline ops rank g" and nc: "no_copy g" and w: "waiting (Some s) g" and np: "\<not> packets_produced g"
    and e: "update_effect ops s g g1" and push: "pushed_if_produced s g1 g'"
  shows "waiting None g'"
proof -
  have l: "links_ok g" and os: "one_shot ops" using p ready_inv(1) by (auto simp: pipeline_def)
  have acyc: "omate g r = Some q \<Longrightarrow> fst q \<noteq> fst r" for r q
    using p unfolding pipeline_def downhill_def by (metis less_irrefl)
  have upn: "u \<noteq> (s, 0)" if "imate g (s, 0) = Some u" for u
    using acyc [of u "(s, 0)"] links_iff [OF l] that by auto
  have sd: "same_data g1 g'" using push by (simp add: pushed_if_produced_def)
  from e consider
    (tr) part a is_new u q where "impl_of g s = Some (TransformStage (Some a) is_new)" "imate g (s, 0) = Some u"
        "omate g (s, 0) = Some q" "transform_effect ops s part a is_new u q g g1"
    | (so) b ps q where "impl_of g s = Some (ActiveSourceStage b ps)" "omate g (s, 0) = Some q" "source_effect s b ps q g g1"
    | (si) part d0 u where "impl_of g s = Some (ActiveSinkStage d0)" "imate g (s, 0) = Some u" "sink_effect ops s part d0 u g g1"
    unfolding update_effect_def by blast
  then show ?thesis
  proof cases
    case tr
    note un = upn [OF tr(2)]
    show ?thesis
    proof (cases "pkt g (s, 0) = None \<or> edem g (s, 0) = kNegative")
      case True
      then have ds: "demand_set u (edem g (s, 0)) g g1" using tr(4) by (simp add: transform_effect_def)
      have "settled g1 s"
        using True tr ds edem_demand_elsewhere [OF ds, of "(s, 0)"] un
        by (auto simp: settled_def demand_set_def steady_def)
      then show ?thesis using waiting_idle [OF p w np tr(2) ds push] True by auto
    next
      case False
      then obtain f out w3 g3 g4 where tp: "TransformPacket ops part (the (pkt g (s, 0))) is_new a (world g) = ((f, out), w3)"
        and ls: "local_step s (TransformStage (Some a) f) f g g3"
        and em: "case out of None \<Rightarrow> g4 = g3 | Some p' \<Rightarrow> emitted (s, 0) q p' g3 g4"
        and ds: "demand_set u (edem g4 (s, 0)) g4 g1" using tr(4) unfolding transform_effect_def by (metis (no_types))
      have "f" using os tp unfolding one_shot_def by (metis fst_conv)
      then have ls: "local_step s (TransformStage (Some a) True) True g g3" using ls by simp
      show ?thesis
      proof (cases out)
        case None
        then have ds3: "demand_set u (edem g3 (s, 0)) g3 g1" using em ds by simp
        have "settled g1 s"
          using ls ds3 edem_demand_elsewhere [OF ds3, of "(s, 0)"] un tr(2)
          by (auto simp: settled_def demand_set_def steady_def local_step_def)
        then show ?thesis using waiting_busy_end [OF p w tr(2) _ ls ds3 np push] False by simp
      next
        case (Some p')
        have sp: "supplied q p' g3 g4"
          using emitted_no_copy [OF no_copy_steady [OF nc local_step_steady [OF ls]]] em Some by simp
        have "pkt g4 q \<noteq> None" "omate g4 (s, 0) = Some q"
          using sp tr(3) ls by (auto simp: supplied_def steady_def local_step_def)
        then have e4: "edem g4 (s, 0) = kNegative" by (simp add: edem_def)
        show ?thesis
        proof (rule waiting_busy_supply [OF p w tr(3) np, of _ True p'])
          show "steady g g'" using ls sp ds sd by (simp add: local_step_def supplied_def demand_set_def same_data_def steady_def)
          show "pkt g' = (if True then (pkt g)((s, 0) := None) else pkt g)(q \<mapsto> p')"
            using ls sp ds sd by (simp add: local_step_def supplied_def demand_set_def same_data_def)
          show "impl_of g' s' = impl_of g s'" if "s' \<noteq> s" for s'
            using ls sp ds sd that by (simp add: local_step_def supplied_def demand_set_def same_data_def)
          show "set (supply_backlog g') = insert (fst q) (set (supply_backlog g))"
            using ls sp ds push by (auto simp: local_step_def supplied_def demand_set_def pushed_if_produced_def)
          show "insert s (set (demand_backlog g)) \<subseteq> set (demand_backlog g')"
            using ls sp ds push by (auto simp: local_step_def supplied_def demand_set_def pushed_if_produced_def)
          show "True \<and> pkt g (s, 0) \<noteq> None \<and> dem g' = (dem g)(r := kNegative) \<and>
              (dem g r = kNegative \<or> fst r \<in> set (demand_backlog g'))" if "imate g (s, 0) = Some r" for r
            using that tr(2) False ls sp ds sd push e4
            by (auto simp: local_step_def supplied_def demand_set_def same_data_def pushed_if_produced_def)
        qed (use tr(2) in simp)
      qed
    qed
  next
    case so
    have ni: "imate g (s, 0) = None"
    proof -
      obtain st where st: "stage_at s g = Inr st" using impl_live [OF so(1)] live_iff_stage_at by blast
      have r: "ready ops g" using p by (simp add: pipeline_def)
      note rs = ready_stage [OF r st]
      have "stg_impl st = ActiveSourceStage b ps" using rs(1) so(1) by simp
      then have "length (stg_inputs st) = 0" using rs(5) by simp
      then show ?thesis using exists_range(1) [OF rs(3), of 0] by (cases "imate g (s, 0)") auto
    qed
    show ?thesis
    proof (cases "ps = [] \<or> edem g (s, 0) = kNegative")
      case True
      then have ls: "local_step s (ActiveSourceStage b ps) False g g1" using so(3) by (simp add: source_effect_def)
      have g1: "steady g g1" "pkt g1 = pkt g" "dem g1 = dem g" "supply_backlog g1 = supply_backlog g"
        "demand_backlog g1 = demand_backlog g" "\<not> packets_produced g1" and "impl_of g1 = impl_of g"
        using ls np so(1) by (auto simp: local_step_def)
      then have g': "steady g g'" "pkt g' = pkt g" "dem g' = dem g" "supply_backlog g' = supply_backlog g"
        "demand_backlog g' = demand_backlog g" "impl_of g' = impl_of g"
        using push sd steady_trans [OF g1(1)] by (simp_all add: pushed_if_produced_def same_data_def)
      have ee: "edem g' r = edem g r" for r by (rule edem_same) (use g' in \<open>simp_all add: steady_def\<close>)
      show ?thesis
      proof (rule waiting_step [OF l w g'(1)])
        show "s \<in> set (demand_backlog g') \<or> settled g' s" using True so(1) g' ee by (simp add: settled_def)
      qed (use g' ni pipeline_inputs [OF p] in auto)
    next
      case False
      then obtain g2 where em: "emitted (s, 0) q (hd ps) g g2" and ls: "local_step s (ActiveSourceStage b (tl ps)) False g2 g1"
        using so(3) by (auto simp: source_effect_def)
      have sp: "supplied q (hd ps) g g2" by (rule emitted_no_copy [OF nc em])
      show ?thesis
      proof (rule waiting_busy_supply [OF p w so(2) np, of _ False "hd ps"])
        show "steady g g'" using ls sp sd by (simp add: local_step_def supplied_def same_data_def steady_def)
        show "pkt g' = (if False then (pkt g)((s, 0) := None) else pkt g)(q \<mapsto> hd ps)"
          using ls sp sd by (simp add: local_step_def supplied_def same_data_def)
        show "impl_of g' s' = impl_of g s'" if "s' \<noteq> s" for s'
          using ls sp sd that by (simp add: local_step_def supplied_def same_data_def)
        show "set (supply_backlog g') = insert (fst q) (set (supply_backlog g))"
          using ls sp push by (auto simp: local_step_def supplied_def pushed_if_produced_def)
        show "insert s (set (demand_backlog g)) \<subseteq> set (demand_backlog g')"
          using ls sp push by (auto simp: local_step_def supplied_def pushed_if_produced_def)
        show "dem g' = dem g" using ls sp sd by (simp add: local_step_def supplied_def same_data_def)
      qed (use ni in simp)
    qed
  next
    case si
    note un = upn [OF si(2)]
    show ?thesis
    proof (cases "pkt g (s, 0)")
      case None
      then have ds: "demand_set u d0 g g1" using si(3) by (simp add: sink_effect_def)
      have "settled g1 s" using None si ds by (auto simp: settled_def demand_set_def steady_def)
      then show ?thesis using waiting_idle [OF p w np si(2) ds push] None by auto
    next
      case (Some pk)
      then obtain g3 d where ls: "local_step s (ActiveSinkStage d) True g g3" and ds: "demand_set u d g3 g1"
        using si(3) by (auto simp: sink_effect_def)
      have "settled g1 s" using ls ds si(2) by (auto simp: settled_def demand_set_def steady_def local_step_def)
      then show ?thesis using waiting_busy_end [OF p w si(2) _ ls ds np push] Some by auto
    qed
  qed
qed

section \<open>An update ends with every stage settled\<close>

lemma waiting_produced: "waiting x (g\<lparr>packets_produced := b\<rparr>) = waiting x g"
proof -
  have "settled (g\<lparr>packets_produced := b\<rparr>) s = settled g s" for s
    by (rule settled_cong) (simp_all add: store_simps)
  then show ?thesis by (simp add: waiting_def store_simps)
qed

lemma Engine_UpdateStage_waiting:
  assumes p: "pipeline ops rank g" and nc: "no_copy g" and lv: "live g s" and w: "waiting (Some s) g"
  shows "\<exists>g'. Engine_UpdateStage ops s g = Inr g' \<and> pipeline ops rank g' \<and> no_copy g' \<and> waiting None g' \<and> tame g g'"
proof -
  let ?g0 = "g\<lparr>packets_produced := False\<rparr>"
  obtain g' g1 where u: "Engine_UpdateStage ops s g = Inr g'" and p': "pipeline ops rank g'"
    and e: "update_effect ops s ?g0 g1" and sd: "same_data g1 g'" and b: "supply_backlog g' = supply_backlog g1"
      "demand_backlog g' = (if packets_produced g1 then pushed s (demand_backlog g1) else demand_backlog g1)"
    using Engine_UpdateStage_effect [OF p lv] by blast
  have p0: "pipeline ops rank ?g0" by (rule pipeline_produced [OF p])
  have nc0: "no_copy ?g0" using nc by (simp add: no_copy_def)
  have w0: "waiting (Some s) ?g0" using w by (simp add: waiting_produced)
  have "tame ?g0 g1" using update_effect_tame [OF _ e] p0 by (simp add: pipeline_def)
  moreover have "tame g ?g0" "tame g1 g'" using sd by (auto intro!: tame_dem simp: store_simps same_data_def)
  ultimately have tm: "tame g g'" using tame_trans by blast
  then have st: "steady g g'" by (simp add: tame_def)
  have "waiting None g'"
    by (rule update_effect_waiting [OF p0 nc0 w0 _ e]) (use sd b in \<open>simp_all add: pushed_if_produced_def\<close>)
  then show ?thesis using u p' tm no_copy_steady [OF nc st] by blast
qed

lemma waiting_popped:
  assumes w: "waiting None g" and pop: "popped g s g'"
  shows "waiting (Some s) g'"
proof -
  have sd: "same_data g g'" using pop by (simp add: popped_def)
  have st: "settled g' s' = settled g s'" for s'
    by (rule settled_cong) (use sd in \<open>auto simp: same_data_def steady_def intro!: edem_same\<close>)
  have d: "demand_backlog g' = demand_backlog g" if "supply_backlog g \<noteq> []" using pop that by (auto simp: popped_def)
  have s: "x \<in> set (supply_backlog g) \<Longrightarrow> x \<in> set (supply_backlog g') \<or> x = s"
    "x \<in> set (demand_backlog g) \<Longrightarrow> x \<in> set (demand_backlog g') \<or> x = s" for x
    using pop by (auto simp: popped_def)
  have 1: "settled g' s'" if "live g' s'" "Some s' \<noteq> Some s" "s' \<notin> set (supply_backlog g') \<union> set (demand_backlog g')" for s'
    using that w s [of s'] st sd by (auto simp: waiting_def same_data_def steady_def)
  have 2: "(fst q \<in> set (supply_backlog g') \<or> Some (fst q) = Some s) \<and> fst r \<in> set (demand_backlog g')"
    if "omate g' r = Some q" "pkt g' q \<noteq> None" "dem g' r \<noteq> kNegative" for r q
  proof -
    have "fst q \<in> set (supply_backlog g)" "fst r \<in> set (demand_backlog g)"
      using waiting_link [OF w, of r q] that sd by (auto simp: same_data_def steady_def)
    moreover from this have "supply_backlog g \<noteq> []" by auto
    ultimately show ?thesis using d s(1) by auto
  qed
  show ?thesis unfolding waiting_def using 1 2 by blast
qed

text \<open>At rest with every stage settled.\<close>

definition quiescent :: "'w Graph \<Rightarrow> bool" where
  "quiescent g \<longleftrightarrow> supply_backlog g = [] \<and> demand_backlog g = [] \<and> (\<forall>s. live g s \<longrightarrow> settled g s) \<and>
     (\<forall>r q. omate g r = Some q \<and> pkt g q \<noteq> None \<longrightarrow> dem g r = kNegative)"

lemma quiescent_iff: "quiescent g \<longleftrightarrow> supply_backlog g = [] \<and> demand_backlog g = [] \<and> waiting None g"
proof (cases "supply_backlog g = [] \<and> demand_backlog g = []")
  case True
  then have "supply_backlog g = []" "demand_backlog g = []" by simp_all
  then show ?thesis unfolding quiescent_def waiting_def by (simp del: split_paired_All split_paired_Ex not_None_eq) metis
qed (auto simp: quiescent_def)

lemma Engine_Update_settles:
  assumes ret: "Engine_Update ops g = Some res" and p: "pipeline ops rank g" and nc: "no_copy g" and w: "waiting None g"
  shows "\<exists>g'. res = Inr g' \<and> pipeline ops rank g' \<and> no_copy g' \<and> quiescent g' \<and> tame g g'"
proof -
  have "pipeline ops rank g \<longrightarrow> no_copy g \<longrightarrow> waiting None g \<longrightarrow>
    (\<exists>g'. res = Inr g' \<and> pipeline ops rank g' \<and> no_copy g' \<and> quiescent g' \<and> tame g g')"
  proof (induction rule: Engine_Update.raw_induct [OF _ ret])
    case (1 update ops g res)
    show ?case
    proof (intro impI)
      assume p: "pipeline ops rank g" and nc: "no_copy g" and w: "waiting None g"
      have b: "backlog_ok g" using p ready_inv(2) by (auto simp: pipeline_def)
      show "\<exists>g'. res = Inr g' \<and> pipeline ops rank g' \<and> no_copy g' \<and> quiescent g' \<and> tame g g'"
      proof (cases "supply_backlog g = [] \<and> demand_backlog g = []")
        case True
        then have "Engine_Pop g = Inr (None, g)" using Engine_Pop_eval [OF b] by simp
        then have "res = Inr g" using 1(2) by auto
        then show ?thesis using True p nc w by (simp add: quiescent_iff)
      next
        case False
        then obtain s g0 where pop: "Engine_Pop g = Inr (Some s, g0)" "popped g s g0" using Engine_Pop_eval [OF b] by auto
        have p0: "pipeline ops rank g0" by (rule pipeline_popped [OF p pop(2)])
        have t0: "tame g g0" and s0: "steady g g0" and lv0: "live g0 s"
          using pop(2) by (auto simp: popped_def same_data_def steady_def intro!: tame_dem)
        obtain g1 where g1: "Engine_UpdateStage ops s g0 = Inr g1" "pipeline ops rank g1" "no_copy g1" "waiting None g1" "tame g0 g1"
          using Engine_UpdateStage_waiting [OF p0 no_copy_steady [OF nc s0] lv0 waiting_popped [OF w pop(2)]] by blast
        have "update ops g1 = Some res" using 1(2) pop(1) g1(1) by simp
        from 1(1) [OF this] show ?thesis using g1 tame_trans [OF tame_trans [OF t0 g1(5)]] by blast
      qed
    qed
  qed
  then show ?thesis using p nc w by blast
qed

lemma RequestUpdate_settles:
  assumes p: "pipeline ops rank g" and nc: "no_copy g" and lv: "live g s" and w: "waiting (Some s) g"
  shows "\<exists>g'. RequestUpdate ops s g = Inr g' \<and> pipeline ops rank g' \<and> no_copy g' \<and> quiescent g' \<and> tame g g'"
proof -
  obtain g1 where g1: "Engine_UpdateStage ops s g = Inr g1" "pipeline ops rank g1" "no_copy g1" "waiting None g1" "tame g g1"
    using Engine_UpdateStage_waiting [OF p nc lv w] by blast
  obtain g2 where g2: "Engine_Update ops g1 = Some (Inr g2)" using Engine_Update_terminates [OF g1(2)] by blast
  show ?thesis
    using Engine_Update_settles [OF g2 g1(2-4)] g1(1,5) g2 tame_trans [OF g1(5)]
    by (auto simp: RequestUpdate_def run_loop_def)
qed

section \<open>The callbacks of the parts\<close>

text \<open>A pipeline at rest with nothing left to do, all of whose sources have been prepared.\<close>

definition running :: "'w Part_ops \<Rightarrow> (nat \<Rightarrow> nat) \<Rightarrow> 'w Graph \<Rightarrow> bool" where
  "running ops rank g \<longleftrightarrow> pipeline ops rank g \<and> no_copy g \<and> quiescent g \<and>
     (\<forall>s b ps. impl_of g s = Some (ActiveSourceStage b ps) \<longrightarrow> b)"

lemma settled_put_impl_other: "s' \<noteq> s \<Longrightarrow> settled (put_impl s k g) s' = settled g s'"
  by (rule settled_cong) (simp_all add: store_simps)

lemma waiting_put_impl:
  assumes "quiescent g" shows "waiting (Some s) (put_impl s k g)"
proof -
  have "settled (put_impl s k g) s'" if "live g s'" "s' \<noteq> s" for s'
    using assms that settled_put_impl_other [OF that(2), of k g] by (simp add: quiescent_def)
  moreover have "omate g r = Some q \<Longrightarrow> pkt g q \<noteq> None \<Longrightarrow> dem g r = kNegative" for r q
    using assms unfolding quiescent_def by blast
  ultimately show ?thesis unfolding waiting_def by (simp add: store_simps del: split_paired_All split_paired_Ex not_None_eq) metis
qed

lemma pipeline_put_impl:
  assumes p: "pipeline ops rank g" and k: "impl_of g s = Some k" and b: "\<And>n. becomes n k k'"
    and ok: "\<And>p. p \<in> set (impl_packets k') \<Longrightarrow> p \<in> set (impl_packets k) \<or> packet_ok p"
  shows "pipeline ops rank (put_impl s k' g)"
proof (rule pipeline_tame [OF p])
  have "packets_ok g \<Longrightarrow> p \<in> set (impl_packets k') \<Longrightarrow> packet_ok p" for p
    using ok k unfolding packets_ok_def by blast
  then show "tame g (put_impl s k' g)" by (intro tame_put_impl [OF k]) (use b in auto)
  show "backlog_ok (put_impl s k' g)" using p ready_inv(2) by (auto simp: pipeline_def backlog_ok_puts)
qed

lemma Stage_RequestUpdate_eval:
  assumes p: "pipeline ops rank g" and lv: "live g s"
  shows "Stage_RequestUpdate ops s g = RequestUpdate ops s g"
proof -
  obtain st where st: "stage_at s g = Inr st" using lv live_iff_stage_at by blast
  have "callback_of g s = Some True" using p lv unfolding pipeline_def ready_def run_inv_def stages_ok_def by blast
  then have "update_callback st" using st by (auto simp: callback_of_def stage_at_def split: option.splits)
  then show ?thesis using st by (simp add: Stage_RequestUpdate_def)
qed

text \<open>Private members of a source only change in the queue, so a prepared source stays prepared.\<close>

lemma prepared_tame:
  assumes t: "tame g g'" and a: "\<forall>s b ps. impl_of g s = Some (ActiveSourceStage b ps) \<longrightarrow> b"
  shows "\<forall>s b ps. impl_of g' s = Some (ActiveSourceStage b ps) \<longrightarrow> b"
proof (intro allI impI)
  fix s b ps assume k': "impl_of g' s = Some (ActiveSourceStage b ps)"
  have "live g s" using impl_live [OF k'] t by (simp add: tame_def steady_def)
  then obtain m n where "counts_of g s = Some (m, n)" by (auto simp: live_def counts_of_def)
  then obtain k where k: "impl_of g s = Some k" "ActiveSourceStage b ps = k \<or> becomes n k (ActiveSourceStage b ps)"
    using t k' unfolding tame_def by blast
  then show b using a by (cases k) auto
qed


lemma ActiveSource_supply_running:
  assumes run: "running ops rank g" and k: "impl_of g s = Some (ActiveSourceStage b ps)" and p: "packet_ok p"
  shows "\<exists>g'. ActiveSource_supply ops s p g = Inr g' \<and> running ops rank g'"
proof -
  let ?k = "ActiveSourceStage b (ps @ [p])"
  let ?g = "put_impl s ?k g"
  have pl: "pipeline ops rank g" and nc: "no_copy g" and qu: "quiescent g" and bt: "b"
    and pre: "\<forall>s b ps. impl_of g s = Some (ActiveSourceStage b ps) \<longrightarrow> b"
    using run k unfolding running_def by blast+
  have pl1: "pipeline ops rank ?g" by (rule pipeline_put_impl [OF pl k]) (use p in auto)
  have nc1: "no_copy ?g" using nc by (simp add: no_copy_def)
  have lv: "live g s" "live ?g s" using impl_live [OF k] by (simp_all add: store_simps)
  have pre1: "\<forall>s b ps. impl_of ?g s = Some (ActiveSourceStage b ps) \<longrightarrow> b"
    using pre lv bt by (auto simp: store_simps split: if_splits)
  obtain st where st: "stage_at s g = Inr st" "stg_impl st = ActiveSourceStage b ps"
    using k by (auto simp: impl_of_def stage_at_def)
  show ?thesis
  proof (cases "ps = []")
    case True
    obtain g' where g': "RequestUpdate ops s ?g = Inr g'" "pipeline ops rank g'" "no_copy g'" "quiescent g'" "tame ?g g'"
      using RequestUpdate_settles [OF pl1 nc1 lv(2) waiting_put_impl [OF qu]] by blast
    have "ActiveSource_supply ops s p g = Inr g'"
      using st True bt g'(1) Stage_RequestUpdate_eval [OF pl1 lv(2)] by (simp add: ActiveSource_supply_def)
    then show ?thesis using g' prepared_tame [OF g'(5) pre1] by (simp add: running_def)
  next
    case False
    have "settled g s" using qu lv by (simp add: quiescent_def)
    then have "edem g (s, 0) = kNegative" using k False by (simp add: settled_def)
    then have "settled ?g s" using lv by (simp add: settled_def store_simps)
    then have "quiescent ?g"
      using qu settled_put_impl_other [of _ s ?k g] unfolding quiescent_def by (metis (no_types) of_put_impl(1) put_impl_other(4,5) seen_put_impl(1,2,4))
    then show ?thesis using st False pl1 nc1 pre1 by (simp add: ActiveSource_supply_def running_def)
  qed
qed

lemma ActiveSink_demand_running:
  assumes run: "running ops rank g" and k: "impl_of g s = Some (ActiveSinkStage d0)"
  shows "\<exists>g'. ActiveSink_demand ops s d g = Inr g' \<and> running ops rank g'"
proof -
  let ?g = "put_impl s (ActiveSinkStage d) g"
  have pl: "pipeline ops rank g" and nc: "no_copy g" and qu: "quiescent g"
    and pre: "\<forall>s b ps. impl_of g s = Some (ActiveSourceStage b ps) \<longrightarrow> b"
    using run unfolding running_def by blast+
  have pl1: "pipeline ops rank ?g" by (rule pipeline_put_impl [OF pl k]) auto
  have nc1: "no_copy ?g" using nc by (simp add: no_copy_def)
  have lv: "live g s" "live ?g s" using impl_live [OF k] by (simp_all add: store_simps)
  have pre1: "\<forall>s b ps. impl_of ?g s = Some (ActiveSourceStage b ps) \<longrightarrow> b"
    using pre lv by (auto simp: store_simps split: if_splits)
  obtain st where st: "stage_at s g = Inr st" "stg_impl st = ActiveSinkStage d0"
    using k by (auto simp: impl_of_def stage_at_def)
  obtain g' where g': "RequestUpdate ops s ?g = Inr g'" "pipeline ops rank g'" "no_copy g'" "quiescent g'" "tame ?g g'"
    using RequestUpdate_settles [OF pl1 nc1 lv(2) waiting_put_impl [OF qu]] by blast
  have "running ops rank g'" using g' prepared_tame [OF g'(5) pre1] by (simp add: running_def)
  then show ?thesis
    using run st g'(1) Stage_RequestUpdate_eval [OF pl1 lv(2)] by (cases "d0 = d") (simp_all add: ActiveSink_demand_def)
qed

end
