(* ===== verification/Engine_Walk.thy ===== *)
theory Engine_Walk
  imports Engine_Run
begin

text \<open>
  The walks of the engine (services/media/framework/engine.cc, \<^verbatim>\<open>PrepareInput\<close> and
  \<^verbatim>\<open>FlushOutput\<close>): that they end, and what they leave.
\<close>

section \<open>Preparing always ends\<close>

text \<open>
  Each visit of \<^verbatim>\<open>PrepareInput\<close> prepares an input that was not prepared, and none is made
  unprepared, so the walk ends on every graph: on a cycle it comes back to a prepared
  input and fails the check there.
\<close>

definition unprepared_inputs :: "'w Graph \<Rightarrow> ref set" where
  "unprepared_inputs g = {q. \<exists>x. input_at q g = Inr x \<and> \<not> prepared x}"

lemma finite_unprepared_inputs:
  assumes "graph_inv g" shows "finite (unprepared_inputs g)"
proof -
  have "unprepared_inputs g \<subseteq> (\<Union>s \<in> set (stages g). (Pair s) ` {..<fst (the (counts_of g s))})"
  proof
    fix q assume "q \<in> unprepared_inputs g"
    then obtain x where x: "input_at q g = Inr x" by (auto simp: unprepared_inputs_def)
    then obtain c where "counts_of g (fst q) = Some c" "snd q < fst c" using exists_counts(1) [of q g] by blast
    moreover have "fst q \<in> set (stages g)" using input_at_live [OF x] assms by (simp add: graph_inv_def lists_ok_def)
    ultimately show "q \<in> (\<Union>s \<in> set (stages g). (Pair s) ` {..<fst (the (counts_of g s))})"
      by (intro UN_I [of "fst q"]) (auto intro: image_eqI [of _ _ "snd q"])
  qed
  then show ?thesis by (rule finite_subset) simp
qed

text \<open>What preparing changes: the flags, the allocators and the state of the parts.\<close>

definition preparing :: "'w Graph \<Rightarrow> 'w Graph \<Rightarrow> bool" where
  "preparing g g' \<longleftrightarrow> live g' = live g \<and> counts_of g' = counts_of g \<and> imate g' = imate g \<and> omate g' = omate g \<and>
     pkt g' = pkt g \<and> flags_of g' = flags_of g \<and> callback_of g' = callback_of g \<and> stages g' = stages g \<and>
     sources g' = sources g \<and> sinks g' = sinks g \<and> supply_backlog g' = supply_backlog g \<and>
     demand_backlog g' = demand_backlog g \<and>
     (\<forall>s k'. impl_of g' s = Some k' \<longrightarrow> (\<exists>k. impl_of g s = Some k \<and> impl_packets k' = impl_packets k \<and>
        (\<forall>c. shape k c \<longrightarrow> shape k' c)))"

lemma preparing_refl: "preparing g g"
  by (simp add: preparing_def)

lemma preparing_trans: "preparing g g' \<Longrightarrow> preparing g' g'' \<Longrightarrow> preparing g g''"
  unfolding preparing_def by (smt (verit))

lemma preparing_graph_inv:
  assumes "graph_inv g" "preparing g g'" shows "graph_inv g'"
proof -
  have "links_ok g'" using assms by (simp add: graph_inv_def preparing_def links_ok_def)
  moreover have "lists_ok g'" using assms
    by (simp add: graph_inv_def preparing_def lists_ok_def no_inputs_def no_outputs_def cong: filter_cong)
  moreover have "at_rest g'" using assms by (simp add: graph_inv_def preparing_def at_rest_def)
  moreover have "stages_ok g'" using assms unfolding graph_inv_def preparing_def stages_ok_def packets_ok_pkt
    by (smt (verit))
  ultimately show ?thesis by (simp add: graph_inv_def)
qed

lemma preparing_puts:
  "preparing g (put_input q (\<lambda>x. x\<lparr>prepared := b\<rparr>) g)" "preparing g (put_output r (\<lambda>y. y\<lparr>copy_allocator := a\<rparr>) g)"
  "preparing g (g\<lparr>world := w\<rparr>)"
  "impl_of g s = Some k \<Longrightarrow> impl_packets k' = impl_packets k \<Longrightarrow> (\<And>c. shape k c \<Longrightarrow> shape k' c) \<Longrightarrow> preparing g (put_impl s k' g)"
proof -
  have "imate (put_input q (\<lambda>x. x\<lparr>prepared := b\<rparr>) g) = imate g" "pkt (put_input q (\<lambda>x. x\<lparr>prepared := b\<rparr>) g) = pkt g"
    by (auto simp: imate_def pkt_def store_simps fun_eq_iff split: sum.split)
  then show "preparing g (put_input q (\<lambda>x. x\<lparr>prepared := b\<rparr>) g)" by (simp add: preparing_def store_simps)
  have "omate (put_output r (\<lambda>y. y\<lparr>copy_allocator := a\<rparr>) g) = omate g" "pkt (put_output r (\<lambda>y. y\<lparr>copy_allocator := a\<rparr>) g) = pkt g"
    by (auto simp: omate_def pkt_def store_simps fun_eq_iff split: sum.split)
  then show "preparing g (put_output r (\<lambda>y. y\<lparr>copy_allocator := a\<rparr>) g)" by (simp add: preparing_def store_simps)
  show "preparing g (g\<lparr>world := w\<rparr>)" by (simp add: preparing_def store_simps fun_eq_iff callback_of_def pkt_def)
  show "preparing g (put_impl s k' g)" if "impl_of g s = Some k" "impl_packets k' = impl_packets k" "\<And>c. shape k c \<Longrightarrow> shape k' c"
    using that by (auto simp: preparing_def store_simps dest: impl_live)
qed

lemma inputs_other:
  "input_at q (put_output r h g) = input_at q g" "input_at q (put_impl s k g) = input_at q g" "input_at q (g\<lparr>world := w\<rparr>) = input_at q g"
  by (simp_all add: store_simps)

lemma SetCopyAllocator_preparing:
  "SetCopyAllocator r a g = Inr g' \<Longrightarrow> preparing g g' \<and> (\<forall>q. input_at q g' = input_at q g)"
  by (auto simp: SetCopyAllocator_def rbind_eq_Inr_iff preparing_puts inputs_other)

lemma Stage_PrepareOutput_preparing:
  assumes "Stage_PrepareOutput ops s i alloc g = Inr (is, g')"
  shows "preparing g g' \<and> (\<forall>q. input_at q g' = input_at q g)"
proof -
  obtain st where st: "stage_at s g = Inr st" using assms by (auto simp: Stage_PrepareOutput_cases rbind_eq_Inr_iff)
  have k: "impl_of g s = Some (stg_impl st)" using st by (auto simp: impl_of_def stage_at_def split: option.splits)
  note a = assms [unfolded Stage_PrepareOutput_cases st rbind_simps]
  show ?thesis
  proof (cases "stg_impl st")
    case (TransformStage x1 x2)
    then show ?thesis using a k
      by (auto simp: TransformStage_PrepareOutput_def inputs_other intro!: preparing_puts(4))
  next
    case (ActiveSourceStage b ps)
    note a = a [unfolded ActiveSourceStage ActiveSourceStage_PrepareOutput_def impl.case]
    let ?w = "set_allocator ops (stg_part st) (Some (case alloc of None \<Rightarrow> GetDefault | Some a \<Rightarrow> a)) (world g)"
    have "\<exists>g1. preparing g g1 \<and> (\<forall>q. input_at q g1 = input_at q g) \<and> impl_of g1 = impl_of g \<and>
      g' = put_impl s (ActiveSourceStage True ps) g1"
    proof (cases "can_accept_allocator ops (stg_part st) (world g)")
      case True
      then have "g' = put_impl s (ActiveSourceStage True ps) (g\<lparr>world := ?w\<rparr>)" using a by auto
      then show ?thesis by (intro exI [of _ "g\<lparr>world := ?w\<rparr>"] conjI allI preparing_puts(3)) (simp_all add: store_simps)
    next
      case False
      show ?thesis
      proof (cases "alloc = None")
        case True
        then have "g' = put_impl s (ActiveSourceStage True ps) g" using a False by auto
        then show ?thesis by (intro exI [of _ g]) (simp add: preparing_refl)
      next
        case some: False
        then have "g' = put_impl s (ActiveSourceStage True ps) (put_output (s, 0) (\<lambda>y. y\<lparr>copy_allocator := alloc\<rparr>) g)"
          using a False by (auto simp: rbind_eq_Inr_iff SetCopyAllocator_def)
        then show ?thesis
          by (intro exI [of _ "put_output (s, 0) (\<lambda>y. y\<lparr>copy_allocator := alloc\<rparr>) g"] conjI allI preparing_puts(2))
            (simp_all add: store_simps)
      qed
    qed
    then obtain g1 where g1: "preparing g g1" "\<forall>q. input_at q g1 = input_at q g" "impl_of g1 = impl_of g"
      and g': "g' = put_impl s (ActiveSourceStage True ps) g1" by blast
    have "preparing g1 g'" unfolding g'
      by (rule preparing_puts(4) [of _ _ "ActiveSourceStage b ps"]) (use k g1(3) ActiveSourceStage in auto)
    then show ?thesis using preparing_trans [OF g1(1)] g1(2) by (simp add: g' inputs_other)
  next
    case MultistreamSourceStage
    then show ?thesis using a by (auto simp: preparing_refl rbind_eq_Inr_iff dest: SetCopyAllocator_preparing split: if_splits)
  next
    case ActiveMultistreamSourceStage
    then show ?thesis using a by (auto simp: preparing_refl rbind_eq_Inr_iff dest: SetCopyAllocator_preparing split: if_splits)
  qed (use a in simp_all)
qed

lemma prepare_visit:
  assumes "VisitUpstream (prepare_visitor ops) q g = Inr (rs, g')"
  shows "preparing g g' \<and> q \<in> unprepared_inputs g \<and> unprepared_inputs g' = unprepared_inputs g - {q}"
proof -
  obtain x r "is" where x: "input_at q g = Inr x" "in_mate x = Some r"
    and v: "prepare_visitor ops q r g = Inr (is, g')"
    using assms by (auto simp: VisitUpstream_def rbind_eq_Inr_iff split: option.splits)
  let ?h = "put_input q (\<lambda>x. x\<lparr>prepared := True\<rparr>) g"
  have np: "\<not> prepared x" and "\<exists>a. Stage_PrepareOutput ops (fst r) (snd r) a ?h = Inr (is, g')"
    using v x(1) by (auto simp: prepare_visitor_def rbind_eq_Inr_iff)
  then obtain a where "Stage_PrepareOutput ops (fst r) (snd r) a ?h = Inr (is, g')" by blast
  then have h: "preparing ?h g'" "\<And>q'. input_at q' g' = input_at q' ?h" using Stage_PrepareOutput_preparing by blast+
  have "unprepared_inputs g' = unprepared_inputs g - {q}"
    unfolding unprepared_inputs_def h(2) using x(1) by (auto simp: store_simps split: if_splits)
  moreover have "q \<in> unprepared_inputs g" using x(1) np by (auto simp: unprepared_inputs_def)
  moreover have "preparing g g'" by (rule preparing_trans [OF preparing_puts(1) h(1)])
  ultimately show ?thesis by blast
qed

lemma prepare_loop_ends:
  "finite (unprepared_inputs g) \<Longrightarrow> \<exists>res. visit_loop (VisitUpstream (prepare_visitor ops)) rs g = Some res \<and>
     (\<forall>g'. res = Inr g' \<longrightarrow> preparing g g' \<and> unprepared_inputs g' \<subseteq> unprepared_inputs g - set rs)"
proof (induction "card (unprepared_inputs g)" arbitrary: g rs rule: less_induct)
  case less
  show ?case
  proof (cases rs)
    case Nil
    then show ?thesis by (simp add: visit_loop.simps preparing_refl)
  next
    case (Cons q rest)
    show ?thesis
    proof (cases "VisitUpstream (prepare_visitor ops) q g")
      case (Inl e)
      then show ?thesis using Cons by (simp add: visit_loop.simps [of _ "q # rest"])
    next
      case (Inr v)
      then obtain new g1 where v: "VisitUpstream (prepare_visitor ops) q g = Inr (new, g1)" by (cases v) auto
      note pv = prepare_visit [OF v]
      have "card (unprepared_inputs g1) < card (unprepared_inputs g)" using pv less.prems using card_Diff1_less [of "unprepared_inputs g" q] by simp
      moreover have "finite (unprepared_inputs g1)" using pv less.prems by simp
      ultimately obtain res where res: "visit_loop (VisitUpstream (prepare_visitor ops)) (rest @ new) g1 = Some res"
        "\<forall>g'. res = Inr g' \<longrightarrow> preparing g1 g' \<and> unprepared_inputs g' \<subseteq> unprepared_inputs g1 - set (rest @ new)"
        using less.hyps by blast
      then show ?thesis using v Cons pv preparing_trans
        by (fastforce simp: visit_loop.simps [of _ "q # rest"])
    qed
  qed
qed

lemma Engine_PrepareInput_ends:
  assumes "graph_inv g"
  shows "\<exists>res. visit_loop (VisitUpstream (prepare_visitor ops)) [q] g = Some res"
    and "Engine_PrepareInput ops q g = Inr g' \<Longrightarrow> graph_inv g' \<and> q \<notin> unprepared_inputs g'"
proof -
  obtain res where res: "visit_loop (VisitUpstream (prepare_visitor ops)) [q] g = Some res"
    "\<forall>g'. res = Inr g' \<longrightarrow> preparing g g' \<and> unprepared_inputs g' \<subseteq> unprepared_inputs g - set [q]"
    using prepare_loop_ends [OF finite_unprepared_inputs [OF assms], of ops "[q]"] by blast
  then show "\<exists>res. visit_loop (VisitUpstream (prepare_visitor ops)) [q] g = Some res" by blast
  assume "Engine_PrepareInput ops q g = Inr g'"
  then have "res = Inr g'" using res(1) by (simp add: Engine_PrepareInput_def run_loop_def of_loop_def)
  then show "graph_inv g' \<and> q \<notin> unprepared_inputs g'" using res(2) preparing_graph_inv [OF assms, of g'] by auto
qed

section \<open>Flushing a running pipeline\<close>

text \<open>
  What flushing leaves of the private members of a stage: a source drops its queue, a
  transform starts on the next packet afresh, and a sink has no demand.
\<close>

fun flushed_output :: "impl \<Rightarrow> impl" where
  "flushed_output (TransformStage a _) = TransformStage a True"
| "flushed_output (ActiveSourceStage b _) = ActiveSourceStage b []"
| "flushed_output k = k"

fun flushed_input :: "impl \<Rightarrow> impl" where
  "flushed_input (ActiveSinkStage _) = ActiveSinkStage kNegative"
| "flushed_input k = k"

definition flush_step :: "nat \<Rightarrow> impl \<Rightarrow> 'w Graph \<Rightarrow> 'w Graph \<Rightarrow> bool" where
  "flush_step s k g g' \<longleftrightarrow> steady g g' \<and> impl_of g' = (impl_of g)(s \<mapsto> k) \<and> flags_of g' = flags_of g \<and>
     supply_backlog g' = supply_backlog g \<and> demand_backlog g' = demand_backlog g"

lemma flush_step_backlog: "flush_step s k g g' \<Longrightarrow> backlog_ok g' = backlog_ok g"
  by (simp add: flush_step_def backlog_ok_def steady_def)

lemma Stage_FlushOutput_eval:
  assumes r: "ready ops g" and k: "impl_of g s = Some k" and one: "one_stream k" and m: "omate g (s, 0) = Some q"
  shows "\<exists>g'. Stage_FlushOutput ops s 0 g = Inr g' \<and> flush_step s (flushed_output k) g g' \<and>
    dem g' = (dem g)((s, 0) := kNegative) \<and> pkt g' = pkt g"
proof -
  obtain st where st: "stage_at s g = Inr st" using impl_live [OF k] live_iff_stage_at by blast
  note rs = ready_stage [OF r st]
  have ki: "stg_impl st = k" using rs(1) k by simp
  obtain y where y: "output_at (s, 0) g = Inr y" using m by (auto simp: omate_def split: sum.splits)
  let ?g = "put_output (s, 0) (\<lambda>y. y\<lparr>out_demand := kNegative\<rparr>) g"
  have lv: "live g s" using impl_live [OF k] .
  have step: "flush_step s k' g (put_impl s k' (?g\<lparr>world := w\<rparr>))" for k' w
    unfolding flush_step_def
    using steady_trans [OF steady_put_demand steady_trans [OF steady_world steady_put_impl]] lv by (auto simp: store_simps)
  show ?thesis
  proof (cases k)
    case (TransformStage a b)
    then show ?thesis using st ki y step by (simp add: Stage_FlushOutput_cases Output_Flush_def flush_part_def store_simps)
  next
    case (ActiveSourceStage b ps)
    let ?h = "flush_part ops (stg_part st) ?g"
    obtain w where "release_all ops ps ?h = Inr (?h\<lparr>world := w\<rparr>)"
      using release_all_ok [of ps ops ?h] rs(6) ki ActiveSourceStage by auto
    then show ?thesis using st ki y step ActiveSourceStage
      by (simp add: Stage_FlushOutput_cases Output_Flush_def flush_part_def)
  next
    case (ActiveSinkStage d)
    then have "\<not> 0 < length (stg_outputs st)" using rs(5) ki by simp
    then show ?thesis using y st by (auto simp: output_at_def split: if_splits)
  qed (use one in simp_all)
qed

lemma Input_Flush_eval:
  assumes r: "ready ops g" and m: "imate g q = Some r"
  shows "\<exists>w. Input_Flush ops q g = Inr (put_input q (\<lambda>x. x\<lparr>packet_from_upstream := None\<rparr>) (g\<lparr>world := w\<rparr>))"
proof -
  obtain x where x: "input_at q g = Inr x" using m by (auto simp: imate_def split: sum.splits)
  show ?thesis
  proof (cases "packet_from_upstream x")
    case None
    then show ?thesis using x by (intro exI [of _ "world g"]) (simp add: Input_Flush_def)
  next
    case (Some p)
    then have "pkt g q = Some p" using x by (simp add: pkt_def)
    then obtain w where "release ops p g = Inr (g\<lparr>world := w\<rparr>)"
      using release_ok [OF ready_inv(4) [OF r], of q p ops g] by auto
    then show ?thesis using x Some by (auto simp: Input_Flush_def)
  qed
qed

definition onward :: "impl \<Rightarrow> nat list" where
  "onward k = (case k of TransformStage _ _ \<Rightarrow> [0] | _ \<Rightarrow> [])"

lemma Stage_FlushInput_eval:
  assumes r: "ready ops g" and k: "impl_of g s = Some k" and one: "one_stream k" and m: "imate g (s, 0) = Some q"
  shows "\<exists>g'. Stage_FlushInput ops s 0 g = Inr (onward k, g') \<and> flush_step s (flushed_input k) g g' \<and>
    dem g' = dem g \<and> pkt g' = (pkt g)((s, 0) := None)"
proof -
  obtain st where st: "stage_at s g = Inr st" using impl_live [OF k] live_iff_stage_at by blast
  note rs = ready_stage [OF r st]
  have ki: "stg_impl st = k" using rs(1) k by simp
  obtain x where x: "input_at (s, 0) g = Inr x" using m by (auto simp: imate_def split: sum.splits)
  obtain w where f: "Input_Flush ops (s, 0) g = Inr (put_input (s, 0) (\<lambda>x. x\<lparr>packet_from_upstream := None\<rparr>) (g\<lparr>world := w\<rparr>))"
    using Input_Flush_eval [OF r m] by blast
  let ?g = "put_input (s, 0) (\<lambda>x. x\<lparr>packet_from_upstream := None\<rparr>) (g\<lparr>world := w\<rparr>)"
  have lv: "live g s" using impl_live [OF k] .
  have sg: "steady g ?g" by (rule steady_trans [OF steady_world steady_put_packet])
  have step: "flush_step s k' g (put_impl s k' (?g\<lparr>world := w'\<rparr>))" for k' w'
    unfolding flush_step_def using steady_trans [OF sg steady_trans [OF steady_world steady_put_impl]] lv by (auto simp: store_simps)
  show ?thesis
  proof (cases k)
    case (TransformStage a b)
    then have "flush_step s k g ?g" using sg k by (auto simp: flush_step_def store_simps)
    then show ?thesis using TransformStage st ki f x
      by (auto simp: Stage_FlushInput_cases onward_def store_simps)
  next
    case (ActiveSinkStage d)
    then show ?thesis using st ki f x step
      by (simp add: Stage_FlushInput_cases onward_def flush_part_def store_simps)
  next
    case (ActiveSourceStage b ps)
    then have "\<not> 0 < length (stg_inputs st)" using rs(5) ki by simp
    then show ?thesis using x st by (auto simp: input_at_def split: if_splits)
  qed (use one in simp_all)
qed

lemma pipeline_outputs:
  assumes p: "pipeline ops rank g" and m: "omate g r = Some q"
  shows "snd r = 0"
proof -
  obtain st where st: "stage_at (fst r) g = Inr st" using omate_live [OF m] live_iff_stage_at by blast
  have r: "ready ops g" using p by (simp add: pipeline_def)
  note rs = ready_stage [OF r st]
  have "one_stream (stg_impl st)" using p rs(1) by (simp add: pipeline_def)
  then have "length (stg_outputs st) \<le> 1" using rs(5) by (cases "stg_impl st") auto
  moreover have "snd r < length (stg_outputs st)"
    using exists_range(2) [OF rs(3), of "snd r"] m by (cases r) auto
  ultimately show ?thesis by simp
qed

lemma tame_flush_step:
  assumes f: "flush_step s k' g g'" and k: "impl_of g s = Some k" and b: "\<And>n. becomes n k k'"
    and p: "set (impl_packets k') \<subseteq> set (impl_packets k)" and q: "\<And>q. pkt g' q = pkt g q \<or> pkt g' q = None"
  shows "tame g g'"
proof -
  have i: "impl_of g' = (impl_of g)(s \<mapsto> k')" and st: "steady g g'" using f by (simp_all add: flush_step_def)
  have "packets_ok g'" if "packets_ok g"
  proof (rule packets_ok_step [OF that])
    have "p' \<in> set (impl_packets k') \<Longrightarrow> packet_ok p'" for p' using that k p unfolding packets_ok_def by blast
    then show "impl_of g' s' = Some k'' \<Longrightarrow> p' \<in> set (impl_packets k'') \<Longrightarrow> impl_of g s' = Some k'' \<or> packet_ok p'" for s' k'' p'
      unfolding i by (auto split: if_splits)
    show "pkt g' q' = Some p' \<Longrightarrow> pkt g q' = Some p' \<or> packet_ok p'" for q' p' using q [of q'] by auto
  qed
  then show ?thesis using st k b i unfolding tame_def by (auto split: if_splits)
qed

lemma becomes_flushed:
  "one_stream k \<Longrightarrow> becomes n k (flushed_output k)" "one_stream k \<Longrightarrow> becomes n k (flushed_input k)"
  "set (impl_packets (flushed_output k)) \<subseteq> set (impl_packets k)" "set (impl_packets (flushed_input k)) \<subseteq> set (impl_packets k)"
  by (cases k; simp)+

definition flush_visited :: "ref \<Rightarrow> ref \<Rightarrow> impl \<Rightarrow> impl \<Rightarrow> 'w Graph \<Rightarrow> 'w Graph \<Rightarrow> bool" where
  "flush_visited r q kr kq g g' \<longleftrightarrow> tame g g' \<and> backlog_ok g' \<and> dem g' = (dem g)(r := kNegative) \<and>
     pkt g' = (pkt g)(q := None) \<and> impl_of g' = (impl_of g)(fst r \<mapsto> flushed_output kr, fst q \<mapsto> flushed_input kq) \<and>
     supply_backlog g' = supply_backlog g \<and> demand_backlog g' = demand_backlog g"

lemma flush_visit:
  assumes p: "pipeline ops rank g" and m: "omate g r = Some q" and pr: "is_prepared g q"
    and k: "impl_of g (fst r) = Some kr" "impl_of g (fst q) = Some kq"
  shows "\<exists>g'. VisitDownstream (flush_visitor ops) r g = Inr (map (Pair (fst q)) (onward kq), g') \<and>
    flush_visited r q kr kq g g'"
proof -
  have rd: "ready ops g" and one: "one_stream kr" "one_stream kq" and l: "links_ok g" and dh: "rank (fst q) < rank (fst r)"
    using p k m ready_inv(1) unfolding pipeline_def downhill_def by blast+
  have m': "imate g q = Some r" using links_iff [OF l, of r q] m by simp
  have r0: "r = (fst r, 0)" and q0: "q = (fst q, 0)"
    using pipeline_outputs [OF p m] pipeline_inputs [OF p m'] by (simp_all add: prod_eq_iff)
  have mr: "omate g (fst r, 0) = Some q" using m r0 by simp
  obtain g1 where g1: "Stage_FlushOutput ops (fst r) 0 g = Inr g1" "flush_step (fst r) (flushed_output kr) g g1"
    "dem g1 = (dem g)(r := kNegative)" "pkt g1 = pkt g"
    using Stage_FlushOutput_eval [OF rd k(1) one(1) mr] r0 by auto
  have t1: "tame g g1" by (rule tame_flush_step [OF g1(2) k(1) becomes_flushed(1) [OF one(1)] becomes_flushed(3)]) (simp add: g1(4))
  have b1: "backlog_ok g1" using flush_step_backlog [OF g1(2)] ready_inv(2) [OF rd] by simp
  note rd1 = ready_tame [OF rd t1 b1]
  have k1: "impl_of g1 (fst q) = Some kq" using g1(2) k(2) dh by (auto simp: flush_step_def)
  have "imate g1 q = Some r" using m' t1 by (simp add: tame_def steady_def)
  then have m1: "imate g1 (fst q, 0) = Some r" using q0 by simp
  obtain g2 where g2: "Stage_FlushInput ops (fst q) 0 g1 = Inr (onward kq, g2)" "flush_step (fst q) (flushed_input kq) g1 g2"
    "dem g2 = dem g1" "pkt g2 = (pkt g1)(q := None)"
    using Stage_FlushInput_eval [OF rd1 k1 one(2) m1] q0 by auto
  have t2: "tame g1 g2" by (rule tame_flush_step [OF g2(2) k1 becomes_flushed(2) [OF one(2)] becomes_flushed(4)]) (simp add: g2(4))
  have b2: "backlog_ok g2" using flush_step_backlog [OF g2(2)] b1 by simp
  have fv: "flush_visited r q kr kq g g2" unfolding flush_visited_def
    using tame_trans [OF t1 t2] b2 g1 g2 by (simp add: flush_step_def)
  obtain y where y: "output_at r g = Inr y" "out_mate y = Some q" using m by (auto simp: omate_def split: sum.splits)
  obtain x where x: "input_at q g = Inr x" "prepared x" using pr by (cases "input_at q g") (auto simp: is_prepared_def)
  have s: "snd r = 0" "snd q = 0" using r0 q0 by (metis snd_conv)+
  have visit: "flush_visitor ops r q g = Inr (onward kq, g2)"
    using x g1(1) g2(1) s by (simp add: flush_visitor_def)
  obtain st2 where st2: "stage_at (fst q) g2 = Inr st2"
    using k1 t2 impl_live live_iff_stage_at by (metis tame_def steady_def)
  note rs2 = ready_stage [OF ready_tame [OF rd1 t2 b2] st2]
  have "stg_impl st2 = flushed_input kq" using rs2(1) g2(2) by (simp add: flush_step_def)
  then have "\<forall>i \<in> set (onward kq). i < length (stg_outputs st2)" using rs2(5) by (cases kq) (auto simp: onward_def)
  then have "output_refs (fst q) (onward kq) g2 = Inr (map (Pair (fst q)) (onward kq))"
    using st2 by (simp add: output_refs_def)
  then show ?thesis using y visit fv by (auto simp: VisitDownstream_def)
qed

text \<open>
  The outputs downstream of \<open>r\<close>: the walk goes on through transforms and stops at sinks.
\<close>

definition transform_at :: "'w Graph \<Rightarrow> nat \<Rightarrow> bool" where
  "transform_at g s \<longleftrightarrow> (\<exists>a b. impl_of g s = Some (TransformStage a b))"

inductive downstream :: "'w Graph \<Rightarrow> ref \<Rightarrow> ref \<Rightarrow> bool" for g where
  here: "downstream g r r"
| onward: "omate g r = Some q \<Longrightarrow> transform_at g (fst q) \<Longrightarrow> downstream g (fst q, 0) r' \<Longrightarrow> downstream g r r'"

lemma downstream_mono:
  "downstream g r r' \<Longrightarrow> omate g' = omate g \<Longrightarrow> transform_at g' = transform_at g \<Longrightarrow> downstream g' r r'"
  by (induction rule: downstream.induct) (auto intro: downstream.intros)

text \<open>While output \<open>r\<close> is to be flushed next, its stage is the only one that need not be settled.\<close>

definition flushing :: "'w Part_ops \<Rightarrow> (nat \<Rightarrow> nat) \<Rightarrow> nat option \<Rightarrow> 'w Graph \<Rightarrow> bool" where
  "flushing ops rank x g \<longleftrightarrow> pipeline ops rank g \<and> no_copy g \<and> supply_backlog g = [] \<and> demand_backlog g = [] \<and>
     (\<forall>s b ps. impl_of g s = Some (ActiveSourceStage b ps) \<longrightarrow> b) \<and>
     (\<forall>s. live g s \<and> Some s \<noteq> x \<longrightarrow> settled g s) \<and>
     (\<forall>r q. omate g r = Some q \<and> pkt g q \<noteq> None \<longrightarrow> dem g r = kNegative) \<and>
     (\<forall>s. x = Some s \<and> transform_at g s \<longrightarrow> pkt g (s, 0) = None \<and> (\<forall>r. imate g (s, 0) = Some r \<longrightarrow> dem g r = kNegative))"

lemma flushing_None: "flushing ops rank None g \<longleftrightarrow> running ops rank g"
  by (auto simp: flushing_def running_def quiescent_def)

lemma running_flushing: "running ops rank g \<Longrightarrow> \<not> transform_at g s \<Longrightarrow> flushing ops rank (Some s) g"
  unfolding flushing_def running_def quiescent_def by blast

lemma one_sided:
  assumes p: "pipeline ops rank g"
  shows sink_no_output: "omate g r = Some q \<Longrightarrow> impl_of g (fst r) \<noteq> Some (ActiveSinkStage d)"
    and source_no_input: "imate g q = Some r \<Longrightarrow> impl_of g (fst q) \<noteq> Some (ActiveSourceStage b ps)"
proof -
  have rd: "ready ops g" using p by (simp add: pipeline_def)
  have sh: "impl_of g s = Some k \<Longrightarrow> \<exists>c. counts_of g s = Some c \<and> shape k c" for s k
    using rd impl_live [of g s k] unfolding ready_def run_inv_def stages_ok_def by (force simp: live_def counts_of_def)
  show "impl_of g (fst r) \<noteq> Some (ActiveSinkStage d)" if "omate g r = Some q"
    using exists_range(2) [of g "fst r" _ _ "snd r"] sh [of "fst r" "ActiveSinkStage d"] that by (cases r) auto
  show "impl_of g (fst q) \<noteq> Some (ActiveSourceStage b ps)" if "imate g q = Some r"
    using exists_range(1) [of g "fst q" _ _ "snd q"] sh [of "fst q" "ActiveSourceStage b ps"] that by (cases q) auto
qed

lemma flush_visited_settled:
  assumes f: "flushing ops rank (Some (fst r)) g" and m: "omate g r = Some q"
    and k: "impl_of g (fst r) = Some kr" "impl_of g (fst q) = Some kq" and v: "flush_visited r q kr kq g g'"
  shows "live g s \<Longrightarrow> \<not> (s = fst q \<and> transform_at g s) \<Longrightarrow> settled g' s"
proof -
  assume lv: "live g s" and s: "\<not> (s = fst q \<and> transform_at g s)"
  have p: "pipeline ops rank g" and l: "links_ok g" and dh: "rank (fst q) < rank (fst r)"
    using f m ready_inv(1) unfolding flushing_def pipeline_def downhill_def by blast+
  have m': "imate g q = Some r" using links_iff [OF l, of r q] m by simp
  have r0: "r = (fst r, 0)" and q0: "q = (fst q, 0)"
    using pipeline_outputs [OF p m] pipeline_inputs [OF p m'] by (simp_all add: prod_eq_iff)
  have st: "imate g' = imate g" "omate g' = omate g" using v by (simp_all add: flush_visited_def tame_def steady_def)
  have d: "dem g' = (dem g)(r := kNegative)" and pk: "pkt g' = (pkt g)(q := None)"
    and i: "impl_of g' = (impl_of g)(fst r \<mapsto> flushed_output kr, fst q \<mapsto> flushed_input kq)"
    using v by (simp_all add: flush_visited_def)
  have one: "one_stream kr" "one_stream kq" using p k unfolding pipeline_def by blast+
  have e: "edem g' r = kNegative" using m st by (simp add: edem_def d pk)
  consider "s = fst r" | "s = fst q" | "s \<noteq> fst r" "s \<noteq> fst q" by blast
  then show "settled g' s"
  proof cases
    case 1
    have ki: "impl_of g' s = Some (flushed_output kr)" using i 1 dh by auto
    have e': "edem g' (s, 0) = kNegative" using e r0 1 by simp
    have "\<lbrakk>kr = TransformStage a b\<rbrakk> \<Longrightarrow> pkt g (s, 0) = None \<and> (\<forall>r. imate g (s, 0) = Some r \<longrightarrow> dem g r = kNegative)" for a b
      using f k(1) 1 unfolding flushing_def transform_at_def by metis
    moreover have "kr \<noteq> ActiveSinkStage d" for d using sink_no_output [OF p m] k(1) by blast
    ultimately show ?thesis using ki e' one(1) unfolding settled_def st d pk by (cases kr) auto
  next
    case 2
    have ki: "impl_of g' s = Some (flushed_input kq)" using i 2 by auto
    have "\<forall>r'. imate g (s, 0) = Some r' \<longrightarrow> r' = r" "pkt g' (s, 0) = None" using m' q0 2 pk by (metis option.inject, simp)
    moreover have "\<not> transform_at g s" "kq \<noteq> ActiveSourceStage b ps" for b ps
      using s 2 source_no_input [OF p m'] k(2) by auto
    ultimately show ?thesis using ki one(2) k(2) 2 unfolding settled_def st d
      by (cases kq) (auto simp: transform_at_def)
  next
    case 3
    have "settled g s" using f lv 3 by (simp add: flushing_def)
    moreover have "settled g' s = settled g s"
    proof (rule settled_cong)
      show "impl_of g' s = impl_of g s" using 3 i by simp
      show "pkt g' (s, 0) = pkt g (s, 0)" using 3 q0 pk by (metis fst_conv fun_upd_other)
      have "(s, 0) \<noteq> r" using 3 by auto
      moreover have "omate g (s, 0) \<noteq> Some q" using links_iff [OF l, of "(s, 0)" q] m' 3 by auto
      ultimately show "edem g' (s, 0) = edem g (s, 0)"
        using st by (cases "omate g (s, 0)") (auto simp: edem_def d pk)
      show "imate g' = imate g" by (rule st)
      show "dem g' r' = dem g r'" if "imate g (s, 0) = Some r'" for r'
      proof -
        have "r' \<noteq> r" using links_iff [OF l, of r "(s, 0)"] that m 3 by auto
        then show ?thesis by (simp add: d)
      qed
    qed
    ultimately show ?thesis by simp
  qed
qed

lemma flush_visited_flushing:
  assumes f: "flushing ops rank (Some (fst r)) g" and m: "omate g r = Some q"
    and k: "impl_of g (fst r) = Some kr" "impl_of g (fst q) = Some kq" and v: "flush_visited r q kr kq g g'"
  shows "flushing ops rank (if transform_at g (fst q) then Some (fst q) else None) g'" "transform_at g' = transform_at g"
proof -
  have p: "pipeline ops rank g" and l: "links_ok g" and dh: "rank (fst q) < rank (fst r)"
    using f m ready_inv(1) unfolding flushing_def pipeline_def downhill_def by blast+
  have m': "imate g q = Some r" using links_iff [OF l, of r q] m by simp
  have q0: "q = (fst q, 0)" using pipeline_inputs [OF p m'] by (simp add: prod_eq_iff)
  have t: "tame g g'" and b: "backlog_ok g'" and bl: "supply_backlog g' = supply_backlog g" "demand_backlog g' = demand_backlog g"
    and d: "dem g' = (dem g)(r := kNegative)" and pk: "pkt g' = (pkt g)(q := None)"
    and i: "impl_of g' = (impl_of g)(fst r \<mapsto> flushed_output kr, fst q \<mapsto> flushed_input kq)"
    using v by (simp_all add: flush_visited_def)
  have st: "imate g' = imate g" "omate g' = omate g" "copier g' = copier g" "live g' = live g" using t by (simp_all add: tame_def steady_def)
  have "(\<exists>a b. flushed_output kr = TransformStage a b) \<longleftrightarrow> (\<exists>a b. kr = TransformStage a b)"
    "(\<exists>a b. flushed_input kq = TransformStage a b) \<longleftrightarrow> (\<exists>a b. kq = TransformStage a b)"
    by (cases kr; auto) (cases kq; auto)
  then show tr: "transform_at g' = transform_at g" using k by (auto simp: transform_at_def i fun_eq_iff)
  have pl: "pipeline ops rank g'" by (rule pipeline_tame [OF p t b])
  have nc: "no_copy g'" using f st by (simp add: flushing_def no_copy_def)
  have pre: "\<forall>s b ps. impl_of g' s = Some (ActiveSourceStage b ps) \<longrightarrow> b"
    using prepared_tame [OF t] f unfolding flushing_def by blast
  have pd: "dem g' r' = kNegative" if "omate g' r' = Some q'" "pkt g' q' \<noteq> None" for r' q'
  proof -
    have "pkt g q' \<noteq> None" using that(2) pk by (auto split: if_splits)
    then have "dem g r' = kNegative" using f that(1) st unfolding flushing_def by metis
    then show ?thesis by (simp add: d)
  qed
  have nxt: "pkt g' (fst q, 0) = None" "imate g' (fst q, 0) = Some r" "dem g' r = kNegative"
    using q0 m' st pk d by auto
  show "flushing ops rank (if transform_at g (fst q) then Some (fst q) else None) g'"
  proof -
    let ?x = "if transform_at g (fst q) then Some (fst q) else None"
    have "settled g' s" if "live g' s" "Some s \<noteq> ?x" for s
      using flush_visited_settled [OF f m k v, of s] that st(4) by (auto split: if_splits)
    moreover have "pkt g' (s, 0) = None \<and> (\<forall>r. imate g' (s, 0) = Some r \<longrightarrow> dem g' r = kNegative)"
      if "?x = Some s" for s using nxt that by (auto split: if_splits)
    moreover have "supply_backlog g' = []" "demand_backlog g' = []" using f bl by (simp_all add: flushing_def)
    ultimately show ?thesis using pl nc pre pd unfolding flushing_def by blast
  qed
qed

text \<open>What a walk from \<open>r\<close> leaves: an empty path downstream of \<open>r\<close>, and no stage upstream touched.\<close>

definition drained :: "ref \<Rightarrow> 'w Graph \<Rightarrow> 'w Graph \<Rightarrow> bool" where
  "drained r g g' \<longleftrightarrow> (\<forall>r'. dem g' r' = dem g r' \<or> dem g' r' = kNegative) \<and> (\<forall>q. pkt g' q = pkt g q \<or> pkt g' q = None) \<and>
     (\<forall>r' q. downstream g r r' \<and> omate g r' = Some q \<longrightarrow> dem g' r' = kNegative \<and> pkt g' q = None)"

lemma drained_step:
  assumes m: "omate g r = Some q" and d: "dem g1 = (dem g)(r := kNegative)" and p: "pkt g1 = (pkt g)(q := None)"
    and o: "omate g1 = omate g" "transform_at g1 = transform_at g"
    and rest: "if transform_at g (fst q) then drained (fst q, 0) g1 g' else g' = g1"
  shows "drained r g g'"
proof -
  have mono: "\<forall>r'. dem g' r' = dem g1 r' \<or> dem g' r' = kNegative" "\<forall>q. pkt g' q = pkt g1 q \<or> pkt g' q = None"
    using rest by (auto simp: drained_def split: if_splits)
  have "dem g' r' = kNegative \<and> pkt g' q' = None" if ds: "downstream g r r'" and q': "omate g r' = Some q'" for r' q'
    using ds
  proof (cases rule: downstream.cases)
    case here
    then have "r' = r" "q' = q" using m q' by auto
    then show ?thesis using spec [OF mono(1), of r] spec [OF mono(2), of q] d p by auto
  next
    case (onward q'')
    then have tr: "transform_at g (fst q)" "downstream g (fst q, 0) r'" using m by auto
    then have "downstream g1 (fst q, 0) r'" using downstream_mono o by blast
    then show ?thesis using rest [unfolded if_P [OF tr(1)]] q' o(1) unfolding drained_def by metis
  qed
  moreover have "dem g' r' = dem g r' \<or> dem g' r' = kNegative" for r' using spec [OF mono(1), of r'] d by (auto split: if_splits)
  moreover have "pkt g' q' = pkt g q' \<or> pkt g' q' = None" for q' using spec [OF mono(2), of q'] p by (auto split: if_splits)
  ultimately show ?thesis unfolding drained_def by blast
qed

lemma flush_loop_drains:
  assumes "flushing ops rank (Some (fst r)) g" "omate g r = Some q" "\<And>r q. omate g r = Some q \<Longrightarrow> is_prepared g q"
  shows "\<exists>g'. visit_loop (VisitDownstream (flush_visitor ops)) [r] g = Some (Inr g') \<and> running ops rank g' \<and> tame g g' \<and>
    drained r g g' \<and> impl_of g' (fst r) = map_option flushed_output (impl_of g (fst r)) \<and>
    (\<forall>s. rank (fst r) < rank s \<longrightarrow> impl_of g' s = impl_of g s)"
  using assms
proof (induction "rank (fst r)" arbitrary: r g q rule: less_induct)
  case less
  have p: "pipeline ops rank g" and l: "links_ok g" and dh: "rank (fst q) < rank (fst r)"
    using less.prems(1,2) ready_inv(1) unfolding flushing_def pipeline_def downhill_def by blast+
  obtain kr kq where k: "impl_of g (fst r) = Some kr" "impl_of g (fst q) = Some kq"
    using omate_live [OF less.prems(2)] links_live(2) [OF l less.prems(2)] by (auto simp: live_def impl_of_def)
  obtain g1 where v: "VisitDownstream (flush_visitor ops) r g = Inr (map (Pair (fst q)) (onward kq), g1)"
    "flush_visited r q kr kq g g1"
    using flush_visit [OF p less.prems(2) less.prems(3) [OF less.prems(2)] k] by blast
  note f1 = flush_visited_flushing [OF less.prems(1,2) k v(2)]
  have t: "tame g g1" and d: "dem g1 = (dem g)(r := kNegative)" "pkt g1 = (pkt g)(q := None)"
    and i: "impl_of g1 = (impl_of g)(fst r \<mapsto> flushed_output kr, fst q \<mapsto> flushed_input kq)"
    using v(2) by (simp_all add: flush_visited_def)
  have st: "omate g1 = omate g" "is_prepared g1 = is_prepared g" using t by (simp_all add: tame_def steady_def)
  note step = drained_step [OF less.prems(2) d st(1) f1(2)]
  have loop: "visit_loop (VisitDownstream (flush_visitor ops)) [r] g =
      visit_loop (VisitDownstream (flush_visitor ops)) (map (Pair (fst q)) (onward kq)) g1"
    by (subst visit_loop.simps) (simp add: v(1))
  show ?case
  proof (cases "transform_at g (fst q)")
    case True
    then have kq: "onward kq = [0]" using k(2) by (auto simp: transform_at_def onward_def)
    have "pipeline ops rank g1" using f1(1) by (simp add: flushing_def)
    then have "stage_operable ops g1 (fst q) part n k'"
      if "impl_of g1 (fst q) = Some k'" "counts_of g1 (fst q) = Some (m, n)" "part_of g1 (fst q) = Some part" for k' m n part
      using that unfolding pipeline_def ready_def operable_def by blast
    moreover obtain a b where "impl_of g1 (fst q) = Some (TransformStage a b)"
      using True [folded f1(2)] by (auto simp: transform_at_def)
    moreover obtain m n part where "counts_of g1 (fst q) = Some (m, n)" "part_of g1 (fst q) = Some part"
      using impl_live [OF calculation(2)] by (auto simp: live_def counts_of_def part_of_def)
    ultimately obtain q1 where q1: "omate g1 (fst q, 0) = Some q1" by fastforce
    have f1': "flushing ops rank (Some (fst (fst q, 0))) g1" using f1(1) True by simp
    obtain g' where g': "visit_loop (VisitDownstream (flush_visitor ops)) [(fst q, 0)] g1 = Some (Inr g')"
      "running ops rank g'" "tame g1 g'" "drained (fst q, 0) g1 g'" "\<forall>s. rank (fst q) < rank s \<longrightarrow> impl_of g' s = impl_of g1 s"
      using less.hyps [OF _ f1' q1] dh less.prems(3) st by auto
    have "impl_of g' s = impl_of g1 s" if "rank (fst r) \<le> rank s" for s using g'(5) dh that by auto
    then have "impl_of g' (fst r) = Some (flushed_output kr)" "\<forall>s. rank (fst r) < rank s \<longrightarrow> impl_of g' s = impl_of g s"
      using i dh by auto
    then show ?thesis using loop kq g' step [of g'] True tame_trans [OF t g'(3)] k by simp
  next
    case False
    then have "onward kq = []" using k(2) by (auto simp: transform_at_def onward_def split: impl.split)
    moreover have "running ops rank g1" using f1(1) unfolding if_not_P [OF False] by (simp only: flushing_None)
    ultimately show ?thesis using loop step [of g1] False t k i dh by (auto simp: visit_loop.simps)
  qed
qed

lemma Engine_FlushOutput_running:
  assumes run: "running ops rank g" and k: "impl_of g s = Some (ActiveSourceStage b ps)"
    and pr: "\<And>r q. omate g r = Some q \<Longrightarrow> is_prepared g q"
  shows "\<exists>g'. Engine_FlushOutput ops (s, 0) g = Inr g' \<and> running ops rank g' \<and>
    impl_of g' s = Some (ActiveSourceStage b []) \<and> drained (s, 0) g g'"
proof -
  have nt: "\<not> transform_at g (fst (s, 0))" using k by (auto simp: transform_at_def)
  have "stage_operable ops g s part n (ActiveSourceStage b ps)"
    if "counts_of g s = Some (m, n)" "part_of g s = Some part" for m n part
    using that k run unfolding running_def pipeline_def ready_def operable_def by blast
  moreover obtain m n part where "counts_of g s = Some (m, n)" "part_of g s = Some part"
    using impl_live [OF k] by (auto simp: live_def counts_of_def part_of_def)
  ultimately obtain q where q: "omate g (s, 0) = Some q" by fastforce
  then obtain y where y: "output_at (s, 0) g = Inr y" "out_mate y = Some q" by (auto simp: omate_def split: sum.splits)
  obtain g' where "visit_loop (VisitDownstream (flush_visitor ops)) [(s, 0)] g = Some (Inr g')" "running ops rank g'"
    "drained (s, 0) g g'" "impl_of g' s = map_option flushed_output (impl_of g s)"
    using flush_loop_drains [OF running_flushing [OF run nt] q] pr by auto
  then show ?thesis using y k by (simp add: Engine_FlushOutput_def run_loop_def)
qed

section \<open>Unpreparing\<close>

text \<open>\<^verbatim>\<open>UnprepareInput\<close> leaves every input as it was, the flag that says it is prepared included.\<close>

lemma SetCopyAllocator_inputs: "SetCopyAllocator r a g = Inr g' \<Longrightarrow> input_at q g' = input_at q g"
  using SetCopyAllocator_preparing by blast

lemma Stage_UnprepareOutput_inputs:
  assumes "Stage_UnprepareOutput ops s i g = Inr (is, g')"
  shows "input_at q g' = input_at q g"
proof -
  obtain st where st: "stage_at s g = Inr st" using assms by (auto simp: Stage_UnprepareOutput_cases rbind_eq_Inr_iff)
  note a = assms [unfolded Stage_UnprepareOutput_cases st rbind_simps]
  show ?thesis
    by (cases "stg_impl st")
      (use a in \<open>auto simp: rbind_eq_Inr_iff inputs_other dest!: SetCopyAllocator_inputs [where q = q] split: if_splits\<close>)
qed

lemma unprepare_visit_inputs:
  "VisitUpstream (unprepare_visitor ops) q0 g = Inr (rs, g') \<Longrightarrow> input_at q g' = input_at q g"
  by (auto simp: VisitUpstream_def unprepare_visitor_def Stage_UnprepareInput_def rbind_eq_Inr_iff
      dest: Stage_UnprepareOutput_inputs [where q = q] split: option.splits if_splits)

lemma unprepare_loop_inputs:
  assumes ret: "visit_loop (VisitUpstream (unprepare_visitor ops)) rs g = Some res"
  shows "res = Inr g' \<Longrightarrow> input_at q g' = input_at q g"
proof -
  have "\<forall>g'. res = Inr g' \<longrightarrow> input_at q g' = input_at q g"
    if "visitor = VisitUpstream (unprepare_visitor ops)" "visit_loop visitor rs g = Some res" for visitor
    using that(1)
  proof (induction rule: visit_loop.raw_induct [OF _ that(2)])
    case (1 f visitor rs g res)
    show ?case
    proof (cases rs)
      case Nil
      then show ?thesis using 1(2) by auto
    next
      case (Cons r rest)
      then show ?thesis using 1 unprepare_visit_inputs [of ops r g _ _ q]
        by (auto split: sum.splits)
    qed
  qed
  then show "res = Inr g' \<Longrightarrow> input_at q g' = input_at q g" using ret by blast
qed

lemma Engine_UnprepareInput_keeps:
  assumes "Engine_UnprepareInput ops q g = Inr g'"
  shows "input_at q' g' = input_at q' g" "DisconnectInput q g' \<noteq> Inr g''"
proof -
  obtain res where ret: "visit_loop (VisitUpstream (unprepare_visitor ops)) [q] g = Some res" "res = Inr g'"
    using assms by (auto simp: Engine_UnprepareInput_def run_loop_def of_loop_def rbind_eq_Inr_iff split: option.splits)
  show same: "input_at q' g' = input_at q' g" for q' using unprepare_loop_inputs ret by blast
  obtain v where v: "VisitUpstream (unprepare_visitor ops) q g = Inr v"
    using ret by (subst (asm) visit_loop.simps) (auto split: sum.splits)
  then obtain x r where "input_at q g = Inr x" "in_mate x = Some r" "prepared x"
    by (auto simp: VisitUpstream_def unprepare_visitor_def rbind_eq_Inr_iff split: option.splits if_splits)
  then show "DisconnectInput q g' \<noteq> Inr g''" using same [of q] by (auto simp: DisconnectInput_def rbind_eq_Inr_iff)
qed

section \<open>The loop of a multistream source ends\<close>

text \<open>
  Each further round of \<^verbatim>\<open>MultistreamSourceStage::Update\<close> has filled the input of an output that
  was willing, so when no output copies (and so none drops) the loop runs at most once
  more than there are willing outputs.
\<close>

definition willing :: "'w Graph \<Rightarrow> nat \<Rightarrow> nat \<Rightarrow> nat set" where
  "willing g s n = {j. j < n \<and> edem g (s, j) \<noteq> kNegative}"

lemma willing_emitted:
  assumes l: "links_ok g" and m: "omate g (s, i) = Some q" and e: "emitted (s, i) q p g g1" and c: "copier g (s, i) = None"
    and g': "pkt g' = pkt g1" "dem g' = dem g1" "omate g' = omate g"
  shows "willing g' s n = willing g s n - {i}"
proof -
  have pk: "pkt g' = (pkt g)(q \<mapsto> p)" and d: "dem g' = dem g" using e c g' by (auto simp: emitted_def supplied_def)
  have "edem g' (s, j) = (if j = i then kNegative else edem g (s, j))" for j
  proof (cases "j = i")
    case True
    then show ?thesis using m g'(3) by (simp add: edem_def pk)
  next
    case False
    have "q' \<noteq> q" if "omate g (s, j) = Some q'" for q'
      using links_iff [OF l, of "(s, j)" q'] links_iff [OF l, of "(s, i)" q] m that False by auto
    then show ?thesis using False g'(3) by (cases "omate g (s, j)") (auto simp: edem_def pk d)
  qed
  then show ?thesis by (auto simp: willing_def split: if_splits)
qed

lemma MultistreamSourceStage_Update_returns:
  assumes "ready ops g" "no_copy g" "impl_of g s = Some (MultistreamSourceStage c i e)"
  shows "\<exists>g'. MultistreamSourceStage_Update ops s g = Some (Inr g') \<and> tame g g' \<and> backlog_ok g'"
proof -
  have "\<exists>res. MultistreamSourceStage_Update ops s g = Some res"
    if "ready ops g" "no_copy g" "impl_of g s = Some (MultistreamSourceStage c i e)" "counts_of g s = Some (m, n)" for m n
    using that
  proof (induction "2 * card (willing g s n) + (if c = None then 1 else 0 :: nat)" arbitrary: g c i e rule: less_induct)
    case less
    obtain st where st: "stage_at s g = Inr st" "stg_impl st = MultistreamSourceStage c i e"
      using less.prems(3) by (auto simp: impl_of_def stage_at_def)
    note rs = ready_stage [OF less.prems(1) st(1), unfolded st(2)]
    have n: "length (stg_outputs st) = n" using rs(3) less.prems(4) by simp
    have op: "source_ok ops (stg_part st) n" "\<forall>j < n. omate g (s, j) \<noteq> None" using rs(4) n by simp_all
    have cok: "c = Some p \<Longrightarrow> i < n \<and> packet_ok p" for p using rs(5) rs(6) [of p] n by simp
    have inv: "links_ok g" "backlog_ok g" using ready_inv less.prems(1) by blast+
    from multistream_round_eval [OF inv less.prems(3,4) op(2,1) cok] obtain again g1 c1 i1 e1 g2 where
      rd: "multistream_round ops s (stg_part st) n c i e g = Inr (again, g1)" "backlog_ok g1" "tame g g1"
        "impl_of g1 s = Some (MultistreamSourceStage c1 i1 e1)" "pkt g1 = pkt g2" "dem g1 = dem g2" "again \<longrightarrow> c1 \<noteq> None"
        "if again \<and> c \<noteq> None then edem g (s, i) \<noteq> kNegative \<and> emitted (s, i) (the (omate g (s, i))) (the c) g g2 else c = None \<longrightarrow> g2 = g"
      by blast
    show ?case
    proof (cases again)
      case True
      have nc: "no_copy g1" and cn: "counts_of g1 s = Some (m, n)" and om: "omate g1 = omate g"
        using rd(3) less.prems(2,4) by (simp_all add: no_copy_def tame_def steady_def)
      have fin: "finite (willing h s n)" for h by (simp add: willing_def)
      have "2 * card (willing g1 s n) < 2 * card (willing g s n) + (if c = None then 1 else 0)"
      proof (cases c)
        case None
        then have "pkt g1 = pkt g" "dem g1 = dem g" using rd(5,6,8) by simp_all
        then have "edem g1 r = edem g r" for r unfolding edem_def om by (cases "omate g r") simp_all
        then show ?thesis using None by (simp add: willing_def)
      next
        case (Some p)
        obtain q where q: "omate g (s, i) = Some q" "i < n" using op(2) cok Some by auto
        have e: "emitted (s, i) q p g g2" "edem g (s, i) \<noteq> kNegative" using rd(8) True Some q by simp_all
        have "willing g1 s n = willing g s n - {i}"
          by (rule willing_emitted [OF inv(1) q(1) e(1) _ rd(5,6) om]) (use less.prems(2) in \<open>simp add: no_copy_def\<close>)
        moreover have "i \<in> willing g s n" using q(2) e(2) by (simp add: willing_def)
        ultimately show ?thesis using card_Diff1_less [OF fin, of i g] Some by simp
      qed
      then have "\<exists>res. MultistreamSourceStage_Update ops s g1 = Some res"
        using less.hyps [of g1 c1 i1 e1] rd(7) True ready_tame [OF less.prems(1) rd(3,2)] nc rd(4) cn by auto
      then show ?thesis using st rd(1) True n by (subst MultistreamSourceStage_Update.simps) simp
    next
      case False
      then show ?thesis using st rd(1) n by (subst MultistreamSourceStage_Update.simps) simp
    qed
  qed
  moreover obtain m n where "counts_of g s = Some (m, n)"
    using impl_live [OF assms(3)] by (auto simp: live_def counts_of_def)
  ultimately obtain res where "MultistreamSourceStage_Update ops s g = Some res" using assms by blast
  then show ?thesis using MultistreamSourceStage_Update_safe [OF assms(1,3)] by blast
qed

end
