(* ===== verification/Sink_Inputs.thy ===== *)
theory Sink_Inputs
  imports Framework_Stages
begin

text \<open>
  The inputs of \<^verbatim>\<open>ActiveMultistreamSinkStage\<close> (services/media/framework/stages) as a pool of
  indices: \<^verbatim>\<open>AllocateInput\<close> hands out the lowest index that is free and \<^verbatim>\<open>ReleaseInput\<close> takes
  one back, however the stage stores them.
\<close>

section \<open>Index pools\<close>

locale index_pool =
  fixes ok :: "'s \<Rightarrow> bool" and used :: "'s \<Rightarrow> nat set"
    and take_index :: "'s \<Rightarrow> (nat \<times> 's) res" and give_back :: "nat \<Rightarrow> 's \<Rightarrow> 's res" and may_release :: "'s \<Rightarrow> nat \<Rightarrow> bool"
  assumes take: "ok s \<Longrightarrow> \<exists>i s'. take_index s = Inr (i, s') \<and> ok s' \<and> i \<notin> used s \<and> {..<i} \<subseteq> used s \<and> used s' = insert i (used s)"
    and give: "ok s \<Longrightarrow> i \<in> used s \<Longrightarrow> may_release s i \<Longrightarrow> \<exists>s'. give_back i s = Inr s' \<and> ok s' \<and> used s' = used s - {i}"
begin

fun take_many :: "nat \<Rightarrow> 's \<Rightarrow> (nat list \<times> 's) res" where
  "take_many 0 s = Inr ([], s)"
| "take_many (Suc n) s = rbind (take_index s) (\<lambda>(i, s1). rbind (take_many n s1) (\<lambda>(is, s2). Inr (i # is, s2)))"

lemma take_unique: "ok s \<Longrightarrow> used s = {..<n} \<Longrightarrow> \<exists>s'. take_index s = Inr (n, s') \<and> ok s' \<and> used s' = {..<Suc n}"
proof -
  assume s: "ok s" "used s = {..<n}"
  then obtain i s' where i: "take_index s = Inr (i, s')" "ok s'" "i \<notin> used s" "{..<i} \<subseteq> used s" "used s' = insert i (used s)"
    using take by blast
  then have "i = n" using s(2) by (metis lessThan_iff lessThan_subset_iff not_less_iff_gr_or_eq linorder_not_le order_le_less)
  then show ?thesis using i s(2) by (auto simp: lessThan_Suc)
qed

lemma take_many_fresh:
  "ok s \<Longrightarrow> used s = {..<m} \<Longrightarrow> \<exists>s'. take_many n s = Inr ([m..<m + n], s') \<and> ok s' \<and> used s' = {..<m + n}"
proof (induction n arbitrary: s m)
  case (Suc n)
  obtain s1 where s1: "take_index s = Inr (m, s1)" "ok s1" "used s1 = {..<Suc m}" using take_unique Suc.prems by blast
  obtain s' where "take_many n s1 = Inr ([Suc m..<Suc m + n], s')" "ok s'" "used s' = {..<Suc m + n}" using Suc.IH s1 by blast
  then show ?case using s1(1) by (simp add: upt_conv_Cons [of m])
qed simp

text \<open>An index that is given back below all others in use is the next one handed out.\<close>

lemma take_again:
  assumes s: "ok s" "i \<in> used s" "may_release s i" "{..<i} \<subseteq> used s" and g: "give_back i s = Inr s1"
  shows "\<exists>s2. take_index s1 = Inr (i, s2) \<and> ok s2 \<and> used s2 = used s"
proof -
  have s1: "ok s1" "used s1 = used s - {i}" using give [OF s(1-3)] g by auto
  then obtain j s2 where j: "take_index s1 = Inr (j, s2)" "ok s2" "j \<notin> used s1" "{..<j} \<subseteq> used s1" "used s2 = insert j (used s1)"
    using take by blast
  have "\<not> i < j" using j(4) s1(2) by auto
  moreover have "\<not> j < i" using j(3) s1(2) s(4) by auto
  ultimately show ?thesis using j s1 s(2) by auto
qed

end

section \<open>The inputs of the stage\<close>

definition allocated :: "Input list \<times> MultistreamSink \<Rightarrow> nat set" where
  "allocated st = {i. i < length (ams_inputs (snd st)) \<and> si_allocated (ams_inputs (snd st) ! i)}"

definition inputs_ok :: "Input list \<times> MultistreamSink \<Rightarrow> bool" where
  "inputs_ok st \<longleftrightarrow> (let si = ams_inputs (snd st) in
     si \<noteq> [] \<and> length (fst st) = length si \<and> map si_index si = [0..<length si] \<and>
     ams_unallocated_inputs (snd st) = {i. i < length si \<and> \<not> si_allocated (si ! i)} \<and>
     (1 < length si \<longrightarrow> si_allocated (last si)))"

lemma index_nth: "map si_index si = [0..<length si] \<Longrightarrow> i < length si \<Longrightarrow> si_index (si ! i) = i"
  by (metis add_0 nth_map nth_upt)

lemma nth_update: "xs[i := x] ! j = (if i = j \<and> i < length xs then x else xs ! j)"
  by (cases "i < length xs") (auto simp: list_update_beyond)

lemma index_update: "map si_index (si[i := (si ! i)\<lparr>si_allocated := b\<rparr>]) = map si_index si"
  by (rule nth_equalityI) (simp_all add: nth_update)

lemma AllocateInput_pool:
  assumes inv: "inputs_ok (xs, a)"
  shows "\<exists>i xs' a'. AllocateInput xs a = Inr (i, xs', a') \<and> inputs_ok (xs', a') \<and> i \<notin> allocated (xs, a) \<and>
    {..<i} \<subseteq> allocated (xs, a) \<and> allocated (xs', a') = insert i (allocated (xs, a)) \<and> ams_pending_inputs a' = ams_pending_inputs a"
proof (cases "ams_unallocated_inputs a = {}")
  case True
  let ?n = "length (ams_inputs a)" and ?si = "ams_inputs a @ [(new_StageInput (length (ams_inputs a)))\<lparr>si_allocated := True\<rparr>]"
  have all: "{..<?n} \<subseteq> allocated (xs, a)" using inv True by (auto simp: inputs_ok_def allocated_def Let_def)
  have "{i. i < Suc ?n \<and> \<not> si_allocated (?si ! i)} = {}"
    using inv True by (auto simp: inputs_ok_def Let_def nth_append less_Suc_eq)
  then have "inputs_ok (xs @ [new_Input], a\<lparr>ams_inputs := ?si\<rparr>)"
    using inv True by (auto simp: inputs_ok_def Let_def new_StageInput_def)
  moreover have "allocated (xs @ [new_Input], a\<lparr>ams_inputs := ?si\<rparr>) = insert ?n (allocated (xs, a))"
    by (auto simp: allocated_def nth_append less_Suc_eq)
  ultimately show ?thesis using True all by (auto simp: AllocateInput_def Let_def allocated_def)
next
  case False
  let ?un = "ams_unallocated_inputs a" and ?si = "ams_inputs a"
  define i where "i = Min ?un"
  have un: "?un = {i. i < length ?si \<and> \<not> si_allocated (?si ! i)}" and idx: "map si_index ?si = [0..<length ?si]"
    using inv by (simp_all add: inputs_ok_def Let_def)
  have fin: "finite ?un" by (simp add: un)
  have i: "i \<in> ?un" "\<And>j. j < i \<Longrightarrow> j \<notin> ?un" using Min_in [OF fin False] Min_le [OF fin] by (auto simp: i_def leD)
  have il: "i < length ?si" "\<not> si_allocated (?si ! i)" using i(1) un by auto
  let ?si' = "?si[i := (?si ! i)\<lparr>si_allocated := True\<rparr>]"
  let ?a = "a\<lparr>ams_unallocated_inputs := ?un - {i}, ams_inputs := ?si'\<rparr>"
  have "AllocateInput xs a = Inr (i, xs, ?a)"
    using False il index_nth [OF idx il(1)] by (simp add: AllocateInput_def Let_def i_def)
  moreover have "inputs_ok (xs, ?a)"
  proof -
    have "?un - {i} = {j. j < length ?si' \<and> \<not> si_allocated (?si' ! j)}" by (auto simp: un nth_update)
    moreover have "si_allocated (last ?si)  \<Longrightarrow> si_allocated (last ?si')"
      using il by (cases "?si = []") (simp_all add: last_list_update)
    ultimately show ?thesis using inv by (simp add: inputs_ok_def Let_def index_update)
  qed
  moreover have "{..<i} \<subseteq> allocated (xs, a)" using i(2) il(1) un by (auto simp: allocated_def)
  moreover have "allocated (xs, ?a) = insert i (allocated (xs, a))" "i \<notin> allocated (xs, a)"
    using il by (auto simp: allocated_def nth_update)
  ultimately show ?thesis by auto
qed


text \<open>What \<^verbatim>\<open>ReleaseInput\<close> pops: the free inputs at the end, all but the first input.\<close>

lemma pop_inputs_spec:
  assumes "si \<noteq> []" "length xs = length si" "un = {i. i < length si - d \<and> \<not> si_allocated (si ! i)}" "d \<le> 1"
    "d = 1 \<Longrightarrow> \<not> si_allocated (last si) \<and> 1 < length si" "pop_inputs si xs un = ((si', xs', un'), popped)"
  shows "\<exists>n. 0 < n \<and> n \<le> length si \<and> si' = take n si \<and> xs' = take n xs \<and> xs = xs' @ rev popped \<and>
    (\<forall>i. n \<le> i \<and> i < length si \<longrightarrow> \<not> si_allocated (si ! i)) \<and> (1 < n \<longrightarrow> si_allocated (si ! (n - 1))) \<and>
    un' = {i. i < n \<and> \<not> si_allocated (si ! i)}"
  using assms
proof (induction si xs un arbitrary: d si' xs' un' popped rule: pop_inputs.induct)
  case (1 si xs un)
  show ?case
  proof (cases "length si > 1 \<and> \<not> si_allocated (last si)")
    case True
    obtain popped' where p: "pop_inputs (butlast si) (butlast xs) (un - {length si - 1}) = ((si', xs', un'), popped')"
      "popped = last xs # popped'"
      using 1(7) True by (subst (asm) pop_inputs.simps) (auto split: prod.splits)
    have ne: "xs \<noteq> []" "butlast si \<noteq> []" using 1(2,3) True by (auto simp: butlast_conv_take)
    have un: "un - {length si - 1} = {i. i < length (butlast si) - 0 \<and> \<not> si_allocated (butlast si ! i)}"
      using 1(4,5) True by (auto simp: nth_butlast)
    obtain n where n: "0 < n" "n \<le> length (butlast si)" "si' = take n (butlast si)" "xs' = take n (butlast xs)"
      "butlast xs = xs' @ rev popped'" "\<forall>i. n \<le> i \<and> i < length (butlast si) \<longrightarrow> \<not> si_allocated (butlast si ! i)"
      "1 < n \<longrightarrow> si_allocated (butlast si ! (n - 1))" "un' = {i. i < n \<and> \<not> si_allocated (butlast si ! i)}"
      using 1(1) [OF True ne(2) _ un _ _ p(1)] 1(3) by auto
    have "xs = xs' @ rev popped" using n(5) p(2) append_butlast_last_id [OF ne(1)] by simp
    moreover have "\<not> si_allocated (si ! i)" if "n \<le> i" "i < length si" for i
      using n(6) that True last_conv_nth [OF 1(2)] by (cases "i = length si - 1") (auto simp: nth_butlast)
    moreover have "si' = take n si" "xs' = take n xs" using n(2-4) 1(3) by (simp_all add: butlast_conv_take)
    moreover have "1 < n \<longrightarrow> si_allocated (si ! (n - 1))" "un' = {i. i < n \<and> \<not> si_allocated (si ! i)}"
      using n(2,7,8) by (auto simp: nth_butlast)
    ultimately show ?thesis using n(1,2) by (intro exI [of _ n]) auto
  next
    case False
    have "pop_inputs si xs un = ((si, xs, un), [])" by (subst pop_inputs.simps) (simp only: if_not_P [OF False])
    then have "si' = si" "xs' = xs" "un' = un" "popped = []" using 1(7) by simp_all
    moreover have "d = 0" using False 1(5,6) by (cases d) auto
    ultimately show ?thesis using 1(2-4) False last_conv_nth [OF 1(2)] by (intro exI [of _ "length si"]) (simp, meson leD)
  qed
qed


lemma ReleaseInput_pool:
  assumes inv: "inputs_ok (xs, a)" and i: "i \<in> allocated (xs, a)" and m: "in_mate (xs ! i) = None"
  shows "\<exists>xs' a' popped. ReleaseInput i xs a = Inr (length xs', (xs', a'), popped) \<and> inputs_ok (xs', a') \<and>
    allocated (xs', a') = allocated (xs, a) - {i} \<and> xs = xs' @ rev popped \<and> ams_pending_inputs a' = ams_pending_inputs a"
proof -
  let ?si = "ams_inputs a" and ?un = "ams_unallocated_inputs a"
  let ?s = "?si[i := (?si ! i)\<lparr>si_allocated := False\<rparr>]"
  have un: "?un = {i. i < length ?si \<and> \<not> si_allocated (?si ! i)}" and idx: "map si_index ?si = [0..<length ?si]"
    and ne: "?si \<noteq> []" and lx: "length xs = length ?si" and lst: "1 < length ?si \<longrightarrow> si_allocated (last ?si)"
    using inv by (simp_all add: inputs_ok_def Let_def)
  have il: "i < length ?si" "si_allocated (?si ! i)" using i by (simp_all add: allocated_def)
  have al: "j < length ?si \<Longrightarrow> si_allocated (?s ! j) \<longleftrightarrow> j \<noteq> i \<and> si_allocated (?si ! j)" for j by (simp add: nth_update)
  show ?thesis
  proof (cases "i \<noteq> 0 \<and> i = length ?s - 1")
    case True
    obtain si' xs' un' popped where p: "pop_inputs ?s xs ?un = ((si', xs', un'), popped)" by (cases "pop_inputs ?s xs ?un") auto
    have "j \<in> ?un \<longleftrightarrow> j < length ?s - 1 \<and> \<not> si_allocated (?s ! j)" for j
      using il True al [of j] by (cases "j = i") (auto simp: un)
    then have un1: "?un = {j. j < length ?s - 1 \<and> \<not> si_allocated (?s ! j)}" by blast
    have "\<not> si_allocated (last ?s)" using True il al [of i] last_conv_nth [of ?s] ne by auto
    then obtain n where n: "0 < n" "n \<le> length ?si" "si' = take n ?s" "xs' = take n xs" "xs = xs' @ rev popped"
      "\<forall>i. n \<le> i \<and> i < length ?s \<longrightarrow> \<not> si_allocated (?s ! i)" "1 < n \<longrightarrow> si_allocated (?s ! (n - 1))"
      "un' = {i. i < n \<and> \<not> si_allocated (?s ! i)}"
      using pop_inputs_spec [OF _ _ un1 _ _ p] ne lx il True by auto
    let ?a = "a\<lparr>ams_inputs := si', ams_unallocated_inputs := un'\<rparr>"
    have len: "length si' = n" "length xs' = n" using n(2-4) lx by auto
    have "ReleaseInput i xs a = Inr (length xs', (xs', ?a), popped)"
      using il m True p len by (simp add: ReleaseInput_def)
    moreover have "map si_index si' = [0..<length si']"
      using n(2,3) idx index_update [of ?si i False] by (simp add: take_map [symmetric] take_upt)
    then have "inputs_ok (xs', ?a)"
      using n(1,2,7) len ne last_conv_nth [of si'] unfolding inputs_ok_def Let_def n(8) by (auto simp: n(3))
    moreover have "allocated (xs', ?a) = allocated (xs, a) - {i}"
    proof -
      have "j < n \<and> si_allocated (si' ! j) \<longleftrightarrow> j < length ?si \<and> si_allocated (?s ! j)" for j
        using n(2,3,6) by (cases "j < n") auto
      then show ?thesis using al len unfolding allocated_def by auto
    qed
    ultimately show ?thesis using n(5) by auto
  next
    case False
    let ?a = "a\<lparr>ams_inputs := ?s, ams_unallocated_inputs := insert i ?un\<rparr>"
    have rel: "ReleaseInput i xs a = Inr (length xs, (xs, ?a), [])"
      using il m lx index_nth [OF idx il(1)] unfolding ReleaseInput_def Let_def if_not_P [OF False] by simp
    have "insert i ?un = {j. j < length ?s \<and> \<not> si_allocated (?s ! j)}" using un al il by auto
    moreover have "1 < length ?s \<longrightarrow> si_allocated (last ?s)" using False lst ne by (auto simp: last_list_update)
    ultimately have "inputs_ok (xs, ?a)" using ne lx idx by (simp add: inputs_ok_def Let_def index_update)
    moreover have "allocated (xs, ?a) = allocated (xs, a) - {i}" using al by (auto simp: allocated_def)
    ultimately show ?thesis using rel by (intro exI [of _ xs] exI [of _ ?a] exI [of _ "[]"]) simp
  qed
qed


text \<open>The stage is such a pool; an index may be given back once its input is disconnected.\<close>

definition take_input :: "Input list \<times> MultistreamSink \<Rightarrow> (nat \<times> Input list \<times> MultistreamSink) res" where
  "take_input st = AllocateInput (fst st) (snd st)"

definition give_input :: "nat \<Rightarrow> Input list \<times> MultistreamSink \<Rightarrow> (Input list \<times> MultistreamSink) res" where
  "give_input i st = rbind (ReleaseInput i (fst st) (snd st)) (\<lambda>(_, st', _). Inr st')"

interpretation inputs: index_pool inputs_ok allocated take_input give_input "\<lambda>st i. in_mate (fst st ! i) = None"
proof
  show "\<exists>i s'. take_input s = Inr (i, s') \<and> inputs_ok s' \<and> i \<notin> allocated s \<and> {..<i} \<subseteq> allocated s \<and> allocated s' = insert i (allocated s)"
    if "inputs_ok s" for s
    using AllocateInput_pool [of "fst s" "snd s"] that unfolding take_input_def prod.collapse by blast
  show "\<exists>s'. give_input i s = Inr s' \<and> inputs_ok s' \<and> allocated s' = allocated s - {i}"
    if s: "inputs_ok s" "i \<in> allocated s" "in_mate (fst s ! i) = None" for s i
  proof -
    obtain xs' a' popped where "ReleaseInput i (fst s) (snd s) = Inr (length xs', (xs', a'), popped)" "inputs_ok (xs', a')"
      "allocated (xs', a') = allocated s - {i}"
      using ReleaseInput_pool [of "fst s" "snd s" i] s by auto
    then show ?thesis by (simp add: give_input_def)
  qed
qed

text \<open>The constructor: one input, not allocated.\<close>

lemma new_sink_pool:
  "new_ActiveMultistreamSinkStage part =
     Inr (new_Stage [new_Input] [] (ActiveMultistreamSinkStage
       \<lparr>ams_inputs = [new_StageInput 0], ams_unallocated_inputs = {0}, ams_pending_inputs = []\<rparr>) part)"
  by (simp add: new_ActiveMultistreamSinkStage_def AllocateInput_def ReleaseInput_def new_StageInput_def new_Input_def Let_def)

lemma new_sink_ok:
  "inputs_ok ([new_Input], \<lparr>ams_inputs = [new_StageInput 0], ams_unallocated_inputs = {0}, ams_pending_inputs = []\<rparr>)"
  "allocated ([new_Input], \<lparr>ams_inputs = [new_StageInput 0], ams_unallocated_inputs = {0}, ams_pending_inputs = []\<rparr>) = {}"
  by (auto simp: inputs_ok_def allocated_def new_StageInput_def)

text \<open>
  \<^verbatim>\<open>ReleaseInput\<close> leaves the index in the list of pending inputs. When the stage shrinks below
  it, the next update fails its check of the index.
\<close>

lemma release_pending_fails:
  assumes st: "stage_at s g = Inr st" "stg_impl st = ActiveMultistreamSinkStage a" and ok: "inputs_ok (stg_inputs st, a)"
    and i: "i \<in> allocated (stg_inputs st, a)" "i \<noteq> 0" "i = length (ams_inputs a) - 1" "in_mate (stg_inputs st ! i) = None"
    and pending: "ams_pending_inputs a = [i]" and pk: "packets_ok g"
  shows "\<exists>n g'. Host_ReleaseInput ops s i g = Inr (n, g') \<and> Stage_Update ops s g' = Inl Dcheck_failed"
proof -
  obtain xs' a' popped where r: "ReleaseInput i (stg_inputs st) a = Inr (length xs', (xs', a'), popped)" "inputs_ok (xs', a')"
    "allocated (xs', a') = allocated (stg_inputs st, a) - {i}" "stg_inputs st = xs' @ rev popped" "ams_pending_inputs a' = [i]"
    using ReleaseInput_pool [OF ok i(1,4)] pending by auto
  have len: "length (ams_inputs a') = length xs'" "length (ams_inputs a) = length (stg_inputs st)"
    using r(2) ok by (simp_all add: inputs_ok_def Let_def)
  have "popped \<noteq> []"
  proof
    assume "popped = []"
    then have "length (ams_inputs a') = Suc i" using r(4) len i by (simp add: allocated_def)
    then have "si_allocated (last (ams_inputs a'))" "last (ams_inputs a') = ams_inputs a' ! i"
      using r(2) i(2) last_conv_nth [of "ams_inputs a'"] by (auto simp: inputs_ok_def Let_def)
    then have "i \<in> allocated (xs', a')" using \<open>length (ams_inputs a') = Suc i\<close> by (simp add: allocated_def)
    then show False using r(3) by simp
  qed
  then have small: "\<not> i < length (ams_inputs a')" using len r(4) i(3) by (cases popped) auto
  let ?g = "put_sink s xs' a' g"
  have "\<forall>p \<in> set (input_packets popped). packet_ok p"
    using stage_packets_ok [OF pk, of s st] st(1) r(4)
    by (auto simp: stage_packets_def input_packets_def map_filter_def stage_at_def split: option.splits)
  then obtain w where w: "release_all ops (input_packets popped) ?g = Inr (?g\<lparr>world := w\<rparr>)"
    using release_all_ok [of "input_packets popped" ops ?g] by blast
  have h: "Host_ReleaseInput ops s i g = Inr (length xs', ?g\<lparr>world := w\<rparr>)"
    using st r(1) w by (simp add: Host_ReleaseInput_def sink_of_def)
  have "\<exists>st'. stage_at s (?g\<lparr>world := w\<rparr>) = Inr st' \<and> stg_impl st' = ActiveMultistreamSinkStage a'"
    using st(1) by (auto simp: put_sink_def store_simps)
  then have "Stage_Update ops s (?g\<lparr>world := w\<rparr>) = Inl Dcheck_failed"
    using small by (auto simp: Stage_Update_def r(5) sink_visits.simps [of _ _ _ _ "[i]"] sink_visit_def)
  then show ?thesis using h by blast
qed

end
