(* ===== verification/Sample_Pipeline.thy ===== *)
theory Sample_Pipeline
  imports Engine_Walk Sink_Inputs
begin

text \<open>
  A pipeline built by the operations of the graph: a source (stage 2), a transform that
  passes its packets on (stage 3) and a sink that keeps the packets in the world (stage 4)
  and takes as many as it is given.
\<close>

definition relay_ops :: "Packet list Part_ops" where
  "relay_ops =
     \<lparr>malloc = (\<lambda>n w. (Some 0, w)), free = (\<lambda>b w. w), allocate_from = (\<lambda>a n w. (Some 0, w)),
      release_to = (\<lambda>a n b w. w), part_Flush = (\<lambda>part w. w),
      TransformPacket = (\<lambda>part p is_new a w. ((True, Some p), w)), can_accept_allocator = (\<lambda>part w. True),
      set_allocator = (\<lambda>part a w. w), SetDownstreamDemand = (\<lambda>part d w. w), sink_allocator = (\<lambda>part w. None),
      sink_SupplyPacket = (\<lambda>part p w. (kPositive, if part = 4 then w @ [p] else w)), stream_count = (\<lambda>part w. 0),
      PullPacket = (\<lambda>part w. ((None, 0), w)), RequestPacket = (\<lambda>part w. w),
      multi_SupplyPacket = (\<lambda>part i p w. (kNegative, w))\<rparr>"

definition parts_graph :: "Packet list Graph" where
  "parts_graph = Graph_Add 4 (new_ActiveSinkStage 4) (Graph_Add 3 (new_TransformStage 3)
     (Graph_Add 2 (new_ActiveSourceStage 2) (new_Graph [])))"

definition relay_graph :: "Packet list Graph" where
  "relay_graph = (case rbind (Graph_Connect (2, 0) (3, 0) parts_graph) (\<lambda>(_, g1).
     rbind (Graph_Connect (3, 0) (4, 0) g1) (\<lambda>(_, g2). Graph_Prepare relay_ops g2)) of Inr g \<Rightarrow> g | Inl _ \<Rightarrow> parts_graph)"

definition relay_stage :: "nat \<Rightarrow> Stage option" where
  "relay_stage = Map.empty(
     2 \<mapsto> \<lparr>stg_inputs = [], stg_outputs = [\<lparr>out_mate = Some (3, 0), out_demand = kNegative, copy_allocator = None\<rparr>],
        stg_impl = ActiveSourceStage True [], stg_part = 2, update_callback = True, in_supply_backlog = False,
        in_demand_backlog = False\<rparr>,
     3 \<mapsto> \<lparr>stg_inputs = [\<lparr>in_mate = Some (2, 0), prepared = True, packet_from_upstream = None\<rparr>],
        stg_outputs = [\<lparr>out_mate = Some (4, 0), out_demand = kNegative, copy_allocator = None\<rparr>],
        stg_impl = TransformStage (Some 0) True, stg_part = 3, update_callback = True, in_supply_backlog = False,
        in_demand_backlog = False\<rparr>,
     4 \<mapsto> \<lparr>stg_inputs = [\<lparr>in_mate = Some (3, 0), prepared = True, packet_from_upstream = None\<rparr>], stg_outputs = [],
        stg_impl = ActiveSinkStage kNegative, stg_part = 4, update_callback = True, in_supply_backlog = False,
        in_demand_backlog = False\<rparr>)"

lemma parts_store: "store parts_graph = Map.empty(2 \<mapsto> (new_ActiveSourceStage 2)\<lparr>update_callback := True\<rparr>,
   3 \<mapsto> (new_TransformStage 3)\<lparr>update_callback := True\<rparr>, 4 \<mapsto> (new_ActiveSinkStage 4)\<lparr>update_callback := True\<rparr>)"
  by (simp add: parts_graph_def Graph_Add_def new_Graph_def)

lemmas build_defs = Graph_Connect_def InputRef_valid_def OutputRef_valid_def Input_Connect_def Output_Connect_def
  stage_at_def input_at_def output_at_def put_stage_def put_input_def put_output_def put_impl_def
  new_ActiveSourceStage_def new_TransformStage_def new_ActiveSinkStage_def new_Stage_def new_Input_def new_Output_def

lemmas prepare_defs = Graph_Prepare_def Engine_PrepareInput_def run_loop_def VisitUpstream_def prepare_visitor_def
  Stage_PrepareInput_cases Stage_PrepareOutput_cases TransformStage_PrepareOutput_def ActiveSourceStage_PrepareOutput_def
  input_refs_def relay_ops_def GetDefault_def

lemma parts_connected:
  "Graph_Connect (2, 0) (3, 0) parts_graph = Inr (3, parts_graph\<lparr>store := Map.empty(
     2 \<mapsto> (new_ActiveSourceStage 2)\<lparr>stg_outputs := [new_Output\<lparr>out_mate := Some (3, 0)\<rparr>], update_callback := True\<rparr>,
     3 \<mapsto> (new_TransformStage 3)\<lparr>stg_inputs := [new_Input\<lparr>in_mate := Some (2, 0)\<rparr>], update_callback := True\<rparr>,
     4 \<mapsto> (new_ActiveSinkStage 4)\<lparr>update_callback := True\<rparr>)\<rparr>)"
  by (simp add: build_defs parts_store fun_upd_twist)

lemma parts_chained:
  "rbind (Graph_Connect (2, 0) (3, 0) parts_graph) (\<lambda>(_, g1). Graph_Connect (3, 0) (4, 0) g1) = Inr (4, parts_graph\<lparr>store := Map.empty(
     2 \<mapsto> (new_ActiveSourceStage 2)\<lparr>stg_outputs := [new_Output\<lparr>out_mate := Some (3, 0)\<rparr>], update_callback := True\<rparr>,
     3 \<mapsto> (new_TransformStage 3)\<lparr>stg_inputs := [new_Input\<lparr>in_mate := Some (2, 0)\<rparr>],
        stg_outputs := [new_Output\<lparr>out_mate := Some (4, 0)\<rparr>], update_callback := True\<rparr>,
     4 \<mapsto> (new_ActiveSinkStage 4)\<lparr>stg_inputs := [new_Input\<lparr>in_mate := Some (3, 0)\<rparr>], update_callback := True\<rparr>)\<rparr>)"
  by (simp add: parts_connected, simp add: build_defs fun_upd_twist)

text \<open>The connected graph before it is prepared.\<close>

definition chained_graph :: "Packet list Graph" where
  "chained_graph = parts_graph\<lparr>store := Map.empty(
     2 \<mapsto> (new_ActiveSourceStage 2)\<lparr>stg_outputs := [new_Output\<lparr>out_mate := Some (3, 0)\<rparr>], update_callback := True\<rparr>,
     3 \<mapsto> (new_TransformStage 3)\<lparr>stg_inputs := [new_Input\<lparr>in_mate := Some (2, 0)\<rparr>],
        stg_outputs := [new_Output\<lparr>out_mate := Some (4, 0)\<rparr>], update_callback := True\<rparr>,
     4 \<mapsto> (new_ActiveSinkStage 4)\<lparr>stg_inputs := [new_Input\<lparr>in_mate := Some (3, 0)\<rparr>], update_callback := True\<rparr>)\<rparr>"

lemma fresh_parts: "fresh_stage (new_ActiveSourceStage s)" "fresh_stage (new_TransformStage s)" "fresh_stage (new_ActiveSinkStage s)"
  by (simp_all add: fresh_stage_def new_ActiveSourceStage_def new_TransformStage_def new_ActiveSinkStage_def new_Stage_def)

lemma parts_inv: "graph_inv parts_graph"
proof -
  have 1: "graph_inv (Graph_Add 2 (new_ActiveSourceStage 2) (new_Graph ([] :: Packet list)))"
    by (rule Graph_Add_inv [OF graph_inv_new, THEN conjunct1]) (simp_all add: live_def new_Graph_def fresh_parts)
  have 2: "graph_inv (Graph_Add 3 (new_TransformStage 3) (Graph_Add 2 (new_ActiveSourceStage 2) (new_Graph ([] :: Packet list))))"
    by (rule Graph_Add_inv [OF 1, THEN conjunct1]) (simp_all add: live_def new_Graph_def Graph_Add_def fresh_parts)
  show ?thesis unfolding parts_graph_def
    by (rule Graph_Add_inv [OF 2, THEN conjunct1]) (simp_all add: live_def new_Graph_def Graph_Add_def fresh_parts)
qed

lemma chained_inv: "graph_inv chained_graph"
proof -
  obtain d g1 where g1: "Graph_Connect (2, 0) (3, 0) parts_graph = Inr (d, g1)" "Graph_Connect (3, 0) (4, 0) g1 = Inr (4, chained_graph)"
    using parts_chained unfolding chained_graph_def by (auto simp: rbind_eq_Inr_iff)
  have "graph_inv g1" using Graph_Connect_inv [OF parts_inv g1(1)] by blast
  then show ?thesis using Graph_Connect_inv [OF _ g1(2)] by blast
qed

lemma chained_unprepared: "(4, 0) \<in> unprepared_inputs chained_graph" "(3, 0) \<in> unprepared_inputs chained_graph"
  by (simp_all add: unprepared_inputs_def chained_graph_def build_defs dcheck_def)

lemma chained_prepares: "\<exists>g'. Engine_PrepareInput relay_ops (4, 0) chained_graph = Inr g'"
  by (simp add: prepare_defs parts_graph_def Graph_Add_def new_Graph_def build_defs visit_loop.simps chained_graph_def)

lemma relay_graph_eq:
  "relay_graph = \<lparr>store = relay_stage, stages = [2, 3, 4], sources = [2], sinks = [4], supply_backlog = [],
     demand_backlog = [], packets_produced = False, world = []\<rparr>"
proof -
  have "rbind (Graph_Connect (2, 0) (3, 0) parts_graph) (\<lambda>(_, g1).
      rbind (Graph_Connect (3, 0) (4, 0) g1) (\<lambda>(_, g2). Graph_Prepare relay_ops g2)) =
    rbind (rbind (Graph_Connect (2, 0) (3, 0) parts_graph) (\<lambda>(_, g1). Graph_Connect (3, 0) (4, 0) g1))
      (\<lambda>(_, g2). Graph_Prepare relay_ops g2)"
    by (simp add: parts_connected)
  then show ?thesis unfolding relay_graph_def
    by (simp add: parts_chained, simp add: prepare_defs parts_graph_def Graph_Add_def new_Graph_def build_defs visit_loop.simps
        relay_stage_def fun_upd_twist)
qed

lemma relay_at:
  "store relay_graph s = relay_stage s" "live relay_graph s \<longleftrightarrow> s \<in> {2, 3, 4}"
  "imate relay_graph = Map.empty((3, 0) \<mapsto> (2, 0), (4, 0) \<mapsto> (3, 0))"
  "omate relay_graph = Map.empty((2, 0) \<mapsto> (3, 0), (3, 0) \<mapsto> (4, 0))"
  "pkt relay_graph = Map.empty" "dem relay_graph = (\<lambda>_. kNegative)" "copier relay_graph = Map.empty"
  by (auto simp: relay_graph_eq relay_stage_def live_def imate_def omate_def pkt_def dem_def copier_def input_at_def output_at_def
      stage_at_def dcheck_def fun_eq_iff split: if_splits)

lemma relay_lists:
  "stages relay_graph = [2, 3, 4]" "sources relay_graph = [2]" "sinks relay_graph = [4]"
  "supply_backlog relay_graph = []" "demand_backlog relay_graph = []"
  by (simp_all add: relay_graph_eq)

lemma relay_views:
  "impl_of relay_graph = Map.empty(2 \<mapsto> ActiveSourceStage True [], 3 \<mapsto> TransformStage (Some 0) True, 4 \<mapsto> ActiveSinkStage kNegative)"
  "counts_of relay_graph = Map.empty(2 \<mapsto> (0, 1), 3 \<mapsto> (1, 1), 4 \<mapsto> (1, 0))"
  "part_of relay_graph = Map.empty(2 \<mapsto> 2, 3 \<mapsto> 3, 4 \<mapsto> 4)"
  "flags_of relay_graph = Map.empty(2 \<mapsto> (False, False), 3 \<mapsto> (False, False), 4 \<mapsto> (False, False))"
  "callback_of relay_graph = Map.empty(2 \<mapsto> True, 3 \<mapsto> True, 4 \<mapsto> True)"
  by (auto simp: relay_graph_eq relay_stage_def impl_of_def counts_of_def part_of_def flags_of_def callback_of_def fun_eq_iff)

lemma relay_inv: "graph_inv relay_graph"
proof -
  have "links_ok relay_graph" by (auto simp: links_ok_def relay_at split: if_splits)
  moreover have "lists_ok relay_graph"
    unfolding lists_ok_def relay_at(2) by (auto simp: no_inputs_def no_outputs_def relay_views relay_lists)
  moreover have "stages_ok relay_graph"
    unfolding stages_ok_def packets_ok_pkt relay_at by (auto simp: relay_views split: if_splits)
  moreover have "at_rest relay_graph" unfolding at_rest_def relay_at(2) by (auto simp: relay_views relay_lists)
  ultimately show ?thesis by (simp add: graph_inv_def)
qed

definition relay_rank :: "nat \<Rightarrow> nat" where
  "relay_rank s = 4 - s"

lemma relay_running: "running relay_ops relay_rank relay_graph"
proof -
  have "transforms_ok relay_ops" "one_shot relay_ops" by (auto simp: transforms_ok_def one_shot_def relay_ops_def)
  then have "operable relay_ops relay_graph" by (auto simp: operable_def relay_views relay_at split: if_splits)
  then have "ready relay_ops relay_graph" using relay_inv by (simp add: ready_def graph_inv_iff)
  moreover have "downhill relay_rank relay_graph" by (auto simp: downhill_def relay_at relay_rank_def split: if_splits)
  moreover have "\<forall>s k. impl_of relay_graph s = Some k \<longrightarrow> one_stream k" by (auto simp: relay_views split: if_splits)
  ultimately have "pipeline relay_ops relay_rank relay_graph" using \<open>one_shot relay_ops\<close> by (simp add: pipeline_def)
  moreover have "no_copy relay_graph" by (simp add: no_copy_def relay_at)
  moreover have "quiescent relay_graph"
    unfolding quiescent_def relay_at(2) by (auto simp: settled_def relay_views relay_at relay_lists edem_def)
  moreover have "\<forall>s b ps. impl_of relay_graph s = Some (ActiveSourceStage b ps) \<longrightarrow> b" by (auto simp: relay_views split: if_splits)
  ultimately show ?thesis by (simp add: running_def)
qed

lemma relay_prepared: "omate relay_graph r = Some q \<Longrightarrow> is_prepared relay_graph q"
  by (auto simp: relay_at is_prepared_def input_at_def stage_at_def relay_stage_def split: if_splits)

end
