(* ===== verification/Engine_Delivery.thy ===== *)
theory Engine_Delivery
  imports Engine_Walk
begin

text \<open>
  What a pipeline delivers (services/media/framework): every packet a source supplies
  reaches the sink at the other end exactly once, in the order of supply, transformed by
  the parts on the way.
\<close>

section \<open>What is on its way\<close>

text \<open>
  A chain of stages, the last one first: \<open>P s\<close> is the packet at the input of stage \<open>s\<close>, \<open>Q s\<close>
  what a source has queued, \<open>F s\<close> what stage \<open>s\<close> makes of a packet. \<open>flow\<close> is what the first
  stage of the chain is going to emit, in order.
\<close>

definition through :: "('a \<Rightarrow> 'b option) \<Rightarrow> 'a list \<Rightarrow> 'b list" where
  "through f xs = List.map_filter f xs"

lemma through_simps [simp]:
  "through f [] = []" "through f (x # xs) = (case f x of None \<Rightarrow> through f xs | Some y \<Rightarrow> y # through f xs)"
  "through f (xs @ ys) = through f xs @ through f ys" "through Some xs = xs"
  by (auto simp: through_def map_filter_def comp_def split: option.split)

definition opt_list :: "'a option \<Rightarrow> 'a list" where
  "opt_list x = (case x of None \<Rightarrow> [] | Some y \<Rightarrow> [y])"

lemma opt_list_simps [simp]: "opt_list None = []" "opt_list (Some x) = [x]"
  by (simp_all add: opt_list_def)

fun flow :: "(nat \<Rightarrow> 'p option) \<Rightarrow> (nat \<Rightarrow> 'p list) \<Rightarrow> (nat \<Rightarrow> 'p \<Rightarrow> 'p option) \<Rightarrow> nat list \<Rightarrow> 'p list" where
  "flow P Q F [] = []"
| "flow P Q F [s] = Q s"
| "flow P Q F (s # u # us) = through (F s) (opt_list (P s) @ flow P Q F (u # us))"

lemma flow_cong:
  "(\<And>s. s \<in> set cs \<Longrightarrow> P' s = P s \<and> Q' s = Q s) \<Longrightarrow> flow P' Q' F cs = flow P Q F cs"
  by (induction P Q F cs rule: flow.induct) auto

lemma flow_below:
  assumes "\<And>s. s \<in> set ds \<Longrightarrow> P' s = P s" "flow P' Q' F cs = flow P Q F cs" "cs \<noteq> []"
  shows "flow P' Q' F (ds @ cs) = flow P Q F (ds @ cs)"
  using assms
proof (induction ds)
  case (Cons d ds)
  then obtain x xs where "ds @ cs = x # xs" by (cases "ds @ cs") auto
  then show ?case using Cons by simp
qed simp

text \<open>A packet that moves on to an empty input changes nothing of what is going to arrive.\<close>

lemma flow_source_step:
  assumes "distinct (ds @ [d, s])" "P d = None" "Q s = p # ps"
  shows "flow (P(d \<mapsto> p)) (Q(s := ps)) F (ds @ [d, s]) = flow P Q F (ds @ [d, s])"
  by (rule flow_below) (use assms in auto)

lemma flow_transform_step:
  assumes "distinct (ds @ d # s # u # us)" "P d = None" "P s = Some p"
  shows "flow (P(s := None, d := F s p)) Q F (ds @ d # s # u # us) = flow P Q F (ds @ d # s # u # us)"
proof (rule flow_below)
  have "flow (P(s := None, d := F s p)) Q F (u # us) = flow P Q F (u # us)" by (rule flow_cong) (use assms(1) in auto)
  then show "flow (P(s := None, d := F s p)) Q F (d # s # u # us) = flow P Q F (d # s # u # us)"
    using assms by (cases "F s p") auto
qed (use assms in auto)

lemma flow_supply:
  "cs \<noteq> [] \<Longrightarrow> distinct cs \<Longrightarrow> flow P (Q(last cs := Q (last cs) @ [p])) F cs =
     flow P Q F cs @ foldr (\<lambda>s. through (F s)) (butlast cs) [p]"
proof (induction P Q F cs rule: flow.induct)
  case (3 P Q F s u us)
  then show ?case by (simp split del: if_split)
qed auto

section \<open>A chain of stages of a graph\<close>

definition queue :: "'w Graph \<Rightarrow> nat \<Rightarrow> Packet list" where
  "queue g s = (case impl_of g s of Some (ActiveSourceStage _ ps) \<Rightarrow> ps | _ \<Rightarrow> [])"

definition held :: "'w Graph \<Rightarrow> nat \<Rightarrow> Packet option" where
  "held g s = pkt g (s, 0)"

definition stage_map :: "(nat \<Rightarrow> Packet \<Rightarrow> Packet option) \<Rightarrow> 'w Graph \<Rightarrow> nat \<Rightarrow> Packet \<Rightarrow> Packet option" where
  "stage_map f g s = (if transform_at g s then f (the (part_of g s)) else Some)"

fun fed_from :: "'w Graph \<Rightarrow> nat list \<Rightarrow> bool" where
  "fed_from g [] \<longleftrightarrow> False"
| "fed_from g [s] \<longleftrightarrow> (\<exists>b ps. impl_of g s = Some (ActiveSourceStage b ps))"
| "fed_from g (s # u # us) \<longleftrightarrow> imate g (s, 0) = Some (u, 0) \<and> fed_from g (u # us)"

definition chain :: "'w Graph \<Rightarrow> nat list \<Rightarrow> bool" where
  "chain g cs \<longleftrightarrow> fed_from g cs \<and> (\<exists>d. impl_of g (hd cs) = Some (ActiveSinkStage d))"

definition coming :: "(nat \<Rightarrow> Packet \<Rightarrow> Packet option) \<Rightarrow> 'w Graph \<Rightarrow> nat list \<Rightarrow> Packet list" where
  "coming f g cs = flow (held g) (queue g) (stage_map f g) cs"

lemma fed_from_ranks:
  "fed_from g cs \<Longrightarrow> links_ok g \<Longrightarrow> downhill rank g \<Longrightarrow> sorted_wrt (\<lambda>s u. rank s < rank u) cs"
proof (induction g cs rule: fed_from.induct)
  case (3 g s u us)
  have "omate g (u, 0) = Some (s, 0)" using 3 links_iff [of g "(u, 0)" "(s, 0)"] by simp
  then have "rank s < rank u" using 3(4) unfolding downhill_def by fastforce
  then show ?case using 3 by auto
qed auto

lemma fed_from_distinct: "fed_from g cs \<Longrightarrow> links_ok g \<Longrightarrow> downhill rank g \<Longrightarrow> distinct cs"
proof -
  assume "fed_from g cs" "links_ok g" "downhill rank g"
  then have "sorted_wrt (\<lambda>s u. rank s < rank u) cs" by (rule fed_from_ranks)
  then show "distinct cs" by (induction cs) auto
qed

text \<open>A stage of the chain is its head, or feeds the one before it.\<close>

lemma fed_from_split:
  "fed_from g cs \<Longrightarrow> s \<in> set cs \<Longrightarrow> s \<noteq> hd cs \<Longrightarrow> \<exists>ds d us. cs = ds @ d # s # us \<and> imate g (d, 0) = Some (s, 0) \<and> fed_from g (s # us)"
proof (induction g cs rule: fed_from.induct)
  case (3 g x u us)
  show ?case
  proof (cases "s = u")
    case True
    then show ?thesis using 3 by (intro exI [of _ "[]"] exI [of _ x] exI [of _ us]) simp
  next
    case False
    then obtain ds d vs where "u # us = ds @ d # s # vs" "imate g (d, 0) = Some (s, 0)" "fed_from g (s # vs)" using 3 by auto
    then show ?thesis by (intro exI [of _ "x # ds"] exI [of _ d] exI [of _ vs]) simp
  qed
qed auto

lemma fed_from_closed:
  "fed_from g cs \<Longrightarrow> d \<in> set cs \<Longrightarrow> imate g (d, 0) = Some (s, 0) \<Longrightarrow>
     (\<And>b ps. impl_of g d \<noteq> Some (ActiveSourceStage b ps)) \<Longrightarrow> s \<in> set cs"
  by (induction g cs rule: fed_from.induct) auto

lemma tame_kinds:
  assumes t: "tame g g'"
  shows "transform_at g' = transform_at g"
    and "(\<exists>b ps. impl_of g' s = Some (ActiveSourceStage b ps)) \<longleftrightarrow> (\<exists>b ps. impl_of g s = Some (ActiveSourceStage b ps))"
    and "(\<exists>d. impl_of g' s = Some (ActiveSinkStage d)) \<longleftrightarrow> (\<exists>d. impl_of g s = Some (ActiveSinkStage d))"
proof -
  have kind: "(impl_of g s = None \<and> impl_of g' s = None) \<or>
    (\<exists>k k' n. impl_of g s = Some k \<and> impl_of g' s = Some k' \<and> (k' = k \<or> becomes n k k'))" for s
  proof (cases "live g s")
    case True
    then have "live g' s" using t by (simp add: tame_def steady_def)
    then obtain k' where k': "impl_of g' s = Some k'" by (auto simp: live_def impl_of_def)
    obtain m n where "counts_of g s = Some (m, n)" using True by (auto simp: live_def counts_of_def)
    then show ?thesis using t k' unfolding tame_def by blast
  next
    case False
    then have "\<not> live g' s" using t by (simp add: tame_def steady_def)
    then show ?thesis using False by (simp add: live_def impl_of_def)
  qed
  show "transform_at g' = transform_at g"
  proof
    fix s show "transform_at g' s = transform_at g s" using kind [of s] by (auto simp: transform_at_def elim: becomes.elims)
  qed
  show "(\<exists>b ps. impl_of g' s = Some (ActiveSourceStage b ps)) \<longleftrightarrow> (\<exists>b ps. impl_of g s = Some (ActiveSourceStage b ps))"
    "(\<exists>d. impl_of g' s = Some (ActiveSinkStage d)) \<longleftrightarrow> (\<exists>d. impl_of g s = Some (ActiveSinkStage d))"
    using kind [of s] by (auto elim: becomes.elims)
qed

lemma stage_map_tame: "tame g g' \<Longrightarrow> stage_map f g' = stage_map f g"
  using tame_kinds(1) [of g g'] by (simp add: stage_map_def tame_def steady_def fun_eq_iff)

lemma chain_tame: "tame g g' \<Longrightarrow> chain g' cs = chain g cs"
proof -
  assume t: "tame g g'"
  have "imate g' = imate g" using t by (simp add: tame_def steady_def)
  then have "fed_from g' cs = fed_from g cs"
    using tame_kinds(2) [OF t] by (induction cs rule: induct_list012) simp_all
  then show ?thesis using tame_kinds(3) [OF t] by (simp add: chain_def)
qed

lemma off_chain:
  assumes p: "pipeline ops rank g" and c: "chain g cs" and s: "s \<notin> set cs" and m: "omate g (s, 0) = Some q"
  shows "q = (fst q, 0)" "fst q \<notin> set cs"
proof -
  have l: "links_ok g" using p ready_inv(1) by (auto simp: pipeline_def)
  have m': "imate g q = Some (s, 0)" using links_iff [OF l, of "(s, 0)" q] m by simp
  show q: "q = (fst q, 0)" using pipeline_inputs [OF p m'] by (simp add: prod_eq_iff)
  have "imate g (fst q, 0) = Some (s, 0)" using m' q by simp
  then show "fst q \<notin> set cs" using fed_from_closed [of g cs "fst q" s] source_no_input [OF p m'] c s by (auto simp: chain_def)
qed

lemma chain_next:
  assumes p: "pipeline ops rank g" and c: "chain g cs" and s: "s \<in> set cs" and m: "omate g (s, 0) = Some q"
  shows "\<exists>ds us. cs = ds @ fst q # s # us \<and> q = (fst q, 0) \<and> distinct cs \<and> fed_from g (s # us)"
proof -
  have l: "links_ok g" and dh: "downhill rank g" using p ready_inv(1) by (auto simp: pipeline_def)
  have "s \<noteq> hd cs" using sink_no_output [OF p m] c by (auto simp: chain_def)
  then obtain ds d us where d: "cs = ds @ d # s # us" "imate g (d, 0) = Some (s, 0)" "fed_from g (s # us)"
    using fed_from_split [of g cs s] c s by (auto simp: chain_def)
  have "q = (d, 0)" using links_iff [OF l, of "(s, 0)" "(d, 0)"] d(2) m by simp
  moreover have "distinct cs" using fed_from_distinct [OF _ l dh] c unfolding chain_def by blast
  ultimately show ?thesis using d by (intro exI [of _ ds] exI [of _ us]) simp
qed

lemma coming_eq:
  "tame g g' \<Longrightarrow> (\<And>s. s \<in> set cs \<Longrightarrow> held g' s = held g s \<and> queue g' s = queue g s) \<Longrightarrow> coming f g' cs = coming f g cs"
  unfolding coming_def stage_map_tame [of g g' f] by (rule flow_cong)

lemma emitted_pkt:
  assumes "emitted r q p g g'" "copier g r = None"
  shows "pkt g' = (pkt g)(q \<mapsto> p)" "impl_of g' = impl_of g"
  using assms by (auto simp: emitted_def supplied_def)

lemma queue_cong: "impl_of g' = impl_of g \<Longrightarrow> queue g' = queue g"
  by (simp add: queue_def fun_eq_iff)

lemma held_upd: "pkt g' = (pkt g)((s, 0) := x) \<Longrightarrow> held g' = (held g)(s := x)"
  by (simp add: held_def fun_eq_iff)

text \<open>A source moves the head of its queue.\<close>

lemma source_effect_coming:
  assumes p: "pipeline ops rank g" and nc: "no_copy g" and c: "chain g cs" and t: "tame g g'"
    and k: "impl_of g s = Some (ActiveSourceStage b ps)" and m: "omate g (s, 0) = Some q" and e: "source_effect s b ps q g g'"
  shows "coming f g' cs = coming f g cs"
proof (cases "ps = [] \<or> edem g (s, 0) = kNegative")
  case True
  then have "local_step s (ActiveSourceStage b ps) False g g'" using e by (simp add: source_effect_def)
  then have "impl_of g' = impl_of g" "pkt g' = pkt g" using k by (auto simp: local_step_def)
  then show ?thesis by (intro coming_eq [OF t]) (simp add: held_def queue_def)
next
  case False
  then obtain g1 where g1: "emitted (s, 0) q (hd ps) g g1" "local_step s (ActiveSourceStage b (tl ps)) False g1 g'"
    using e by (auto simp: source_effect_def)
  have cp: "copier g (s, 0) = None" using nc by (simp add: no_copy_def)
  have pk: "pkt g' = (pkt g)(q \<mapsto> hd ps)" and im: "impl_of g' = (impl_of g)(s \<mapsto> ActiveSourceStage b (tl ps))"
    using emitted_pkt [OF g1(1) cp] g1(2) by (simp_all add: local_step_def)
  have qe: "queue g' = (queue g)(s := tl ps)" by (auto simp: queue_def im)
  show ?thesis
  proof (cases "s \<in> set cs")
    case True
    obtain ds us where cs: "cs = ds @ fst q # s # us" "q = (fst q, 0)" "distinct cs" "fed_from g (s # us)"
      using chain_next [OF p c True m] by blast
    have us: "us = []"
    proof (cases us)
      case (Cons u vs)
      then show ?thesis using cs(4) source_no_input [OF p, of "(s, 0)"] k by auto
    qed simp
    have he: "held g' = (held g)(fst q \<mapsto> hd ps)" by (rule held_upd) (use pk cs(2) in metis)
    have "held g (fst q) = None" using False m cs(2) edem_accepts [OF m] by (metis held_def)
    moreover have "queue g s = hd ps # tl ps" using k False by (simp add: queue_def)
    ultimately show ?thesis unfolding coming_def stage_map_tame [OF t] he qe cs(1) us
      by (intro flow_source_step) (use cs us in auto)
  next
    case off: False
    note oc = off_chain [OF p c off m]
    have he: "held g' = (held g)(fst q \<mapsto> hd ps)" by (rule held_upd) (use pk oc(1) in metis)
    show ?thesis by (rule coming_eq [OF t]) (use off oc(2) he qe in auto)
  qed
qed

text \<open>A transform moves the packet at its input on, as what the part makes of it.\<close>

lemma transform_effect_coming:
  assumes p: "pipeline ops rank g" and nc: "no_copy g" and c: "chain g cs" and t: "tame g g'"
    and k: "impl_of g s = Some (TransformStage (Some a) is_new)" and m: "omate g (s, 0) = Some q" and pt: "part_of g s = Some part"
    and e: "transform_effect ops s part a is_new r q g g'"
    and fn: "\<And>p is_new a w. fst (TransformPacket ops part p is_new a w) = (True, f part p)"
  shows "coming f g' cs = coming f g cs"
proof (cases "pkt g (s, 0) = None \<or> edem g (s, 0) = kNegative")
  case True
  then have "demand_set r (edem g (s, 0)) g g'" using e by (simp add: transform_effect_def)
  then have "impl_of g' = impl_of g" "pkt g' = pkt g" by (simp_all add: demand_set_def)
  then show ?thesis by (intro coming_eq [OF t]) (simp add: held_def queue_def)
next
  case False
  then obtain pk where pk: "pkt g (s, 0) = Some pk" by auto
  obtain fin out w g3 g4 where tp: "TransformPacket ops part pk is_new a (world g) = ((fin, out), w)"
    and g3: "local_step s (TransformStage (Some a) fin) fin g g3"
    and g4: "case out of None \<Rightarrow> g4 = g3 | Some p' \<Rightarrow> emitted (s, 0) q p' g3 g4" and d: "demand_set r (edem g4 (s, 0)) g4 g'"
    using e False pk unfolding transform_effect_def by auto
  have out: "fin" "out = f part pk" using fn [of pk is_new a "world g"] tp by simp_all
  have cp: "copier g3 (s, 0) = None" using nc g3 by (simp add: no_copy_def local_step_def steady_def)
  have l: "links_ok g" using p ready_inv(1) by (auto simp: pipeline_def)
  have ne: "fst q \<noteq> s" using p m unfolding pipeline_def downhill_def by fastforce
  have none: "pkt g q = None" using edem_accepts [OF m] False by blast
  have p3: "pkt g3 = (pkt g)((s, 0) := None)" "impl_of g3 = (impl_of g)(s \<mapsto> TransformStage (Some a) True)"
    using g3 out(1) by (simp_all add: local_step_def)
  have "pkt g4 = (pkt g3)(q := out) \<and> impl_of g4 = impl_of g3"
  proof (cases out)
    case None
    have "(pkt g3)(q := None) = pkt g3" using none ne p3 by (simp add: fun_upd_idem)
    then show ?thesis using None g4 by simp
  next
    case (Some p')
    then show ?thesis using emitted_pkt [OF _ cp] g4 by simp
  qed
  then have pk': "pkt g' = (pkt g)((s, 0) := None, q := f part pk)" and im: "impl_of g' = (impl_of g)(s \<mapsto> TransformStage (Some a) True)"
    using d p3 out by (simp_all add: demand_set_def)
  have qe: "queue g' = queue g" using k by (auto simp: queue_def im)
  show ?thesis
  proof (cases "s \<in> set cs")
    case True
    obtain ds us where cs: "cs = ds @ fst q # s # us" "q = (fst q, 0)" "distinct cs" "fed_from g (s # us)"
      using chain_next [OF p c True m] by blast
    obtain u vs where us: "us = u # vs" using cs(4) k by (cases us) auto
    have "pkt g' = (pkt g)((s, 0) := None, (fst q, 0) := f part pk)" using pk' cs(2) by metis
    then have he: "held g' = (held g)(s := None, fst q := f part pk)" by (auto simp: held_def)
    have "held g (fst q) = None" using none cs(2) by (metis held_def)
    moreover have "held g s = Some pk" using pk by (simp add: held_def)
    moreover have "stage_map f g s pk = f part pk" using k pt by (simp add: stage_map_def transform_at_def)
    ultimately show ?thesis unfolding coming_def stage_map_tame [OF t] he qe cs(1) us
      using flow_transform_step [of ds "fst q" s u vs "held g" pk "stage_map f g" "queue g"] cs us by simp
  next
    case off: False
    note oc = off_chain [OF p c off m]
    have "pkt g' = (pkt g)((s, 0) := None, (fst q, 0) := f part pk)" using pk' oc(1) by metis
    then have he: "held g' = (held g)(s := None, fst q := f part pk)" by (auto simp: held_def)
    show ?thesis by (rule coming_eq [OF t]) (use off oc(2) he qe in auto)
  qed
qed

text \<open>A sink takes the packet at its input; only the one at the head of the chain takes from it.\<close>

lemma sink_effect_coming:
  assumes p: "pipeline ops rank g" and c: "chain g cs" and t: "tame g g'"
    and k: "impl_of g s = Some (ActiveSinkStage d)" and m: "imate g (s, 0) = Some r" and e: "sink_effect ops s part d r g g'"
  shows "coming f g cs = (if s = hd cs then opt_list (held g s) else []) @ coming f g' cs"
proof -
  have im: "queue g' = queue g" and pk: "pkt g' = (pkt g)((s, 0) := None)"
  proof -
    have "impl_of g' = impl_of g \<or> (\<exists>d'. impl_of g' = (impl_of g)(s \<mapsto> ActiveSinkStage d'))"
      using e by (cases "pkt g (s, 0)") (auto simp: sink_effect_def local_step_def demand_set_def)
    then show "queue g' = queue g" using k by (auto simp: queue_def)
    show "pkt g' = (pkt g)((s, 0) := None)"
      using e by (cases "pkt g (s, 0)") (auto simp: sink_effect_def local_step_def demand_set_def fun_upd_idem)
  qed
  have he: "held g' = (held g)(s := None)" using pk by (auto simp: held_def)
  show ?thesis
  proof (cases "s = hd cs")
    case True
    have l: "links_ok g" and dh: "downhill rank g" using p ready_inv(1) by (auto simp: pipeline_def)
    have "distinct cs" using fed_from_distinct [OF _ l dh] c unfolding chain_def by blast
    moreover obtain u us where cs: "cs = s # u # us" using c k True by (cases cs rule: remdups_adj.cases) (auto simp: chain_def)
    ultimately have "flow (held g') (queue g') (stage_map f g) (u # us) = flow (held g) (queue g) (stage_map f g) (u # us)"
      by (intro flow_cong) (auto simp: he im)
    moreover have "stage_map f g s = Some" using k by (simp add: stage_map_def transform_at_def)
    ultimately show ?thesis using cs he unfolding coming_def stage_map_tame [OF t] by simp
  next
    case False
    have "s \<notin> set cs"
    proof
      assume "s \<in> set cs"
      then obtain ds x us where "cs = ds @ x # s # us" "imate g (x, 0) = Some (s, 0)"
        using fed_from_split [of g cs s] c False by (auto simp: chain_def)
      then have "omate g (s, 0) = Some (x, 0)" using links_iff [of g "(s, 0)" "(x, 0)"] p ready_inv(1) by (auto simp: pipeline_def)
      then show False using sink_no_output [OF p, of "(s, 0)"] k by auto
    qed
    then have "coming f g' cs = coming f g cs" by (intro coming_eq [OF t]) (auto simp: he im)
    then show ?thesis using False by simp
  qed
qed

lemma update_effect_coming:
  assumes p: "pipeline ops rank g" and nc: "no_copy g" and c: "chain g cs" and e: "update_effect ops s g g'"
    and fn: "\<And>part p is_new a w. fst (TransformPacket ops part p is_new a w) = (True, f part p)"
  shows "coming f g cs = (if s = hd cs then opt_list (held g s) else []) @ coming f g' cs"
proof -
  have t: "tame g g'" using update_effect_tame [OF _ e] p by (simp add: pipeline_def)
  have hd: "s \<noteq> hd cs" if "omate g (s, 0) = Some q" for q using sink_no_output [OF p that] c by (auto simp: chain_def)
  from e obtain part where pt: "part_of g s = Some part"
    and "(\<exists>a is_new r q. impl_of g s = Some (TransformStage (Some a) is_new) \<and> imate g (s, 0) = Some r \<and>
         omate g (s, 0) = Some q \<and> transform_effect ops s part a is_new r q g g') \<or>
      (\<exists>b ps q. impl_of g s = Some (ActiveSourceStage b ps) \<and> omate g (s, 0) = Some q \<and> source_effect s b ps q g g') \<or>
      (\<exists>d0 r. impl_of g s = Some (ActiveSinkStage d0) \<and> imate g (s, 0) = Some r \<and> sink_effect ops s part d0 r g g')"
    unfolding update_effect_def by blast
  then show ?thesis
  proof (elim disjE exE conjE)
    fix a is_new r q assume "impl_of g s = Some (TransformStage (Some a) is_new)" "omate g (s, 0) = Some q"
      "transform_effect ops s part a is_new r q g g'"
    then show ?thesis using transform_effect_coming [where part = part and f = f, OF p nc c t _ _ pt] fn hd by simp
  next
    fix b ps q assume "impl_of g s = Some (ActiveSourceStage b ps)" "omate g (s, 0) = Some q" "source_effect s b ps q g g'"
    then show ?thesis using source_effect_coming [OF p nc c t] hd by simp
  next
    fix d0 r assume "impl_of g s = Some (ActiveSinkStage d0)" "imate g (s, 0) = Some r" "sink_effect ops s part d0 r g g'"
    then show ?thesis by (rule sink_effect_coming [OF p c t])
  qed
qed

section \<open>What the sink has received\<close>

text \<open>
  What is asked of the parts: \<open>log\<close> reads what the sink \<open>part\<close> has been given off the world, and
  nothing else the framework calls changes it; a transform makes of a packet at most one
  other, \<open>f part p\<close>, at once.
\<close>

definition records :: "'w Part_ops \<Rightarrow> ('w \<Rightarrow> Packet list) \<Rightarrow> nat \<Rightarrow> (nat \<Rightarrow> Packet \<Rightarrow> Packet option) \<Rightarrow> bool" where
  "records ops log part f \<longleftrightarrow>
     (\<forall>p w. log (snd (sink_SupplyPacket ops part p w)) = log w @ [p]) \<and>
     (\<forall>part' p w. part' \<noteq> part \<longrightarrow> log (snd (sink_SupplyPacket ops part' p w)) = log w) \<and>
     (\<forall>part' p is_new a w. fst (TransformPacket ops part' p is_new a w) = (True, f part' p) \<and>
        log (snd (TransformPacket ops part' p is_new a w)) = log w) \<and>
     (\<forall>part' d w. log (SetDownstreamDemand ops part' d w) = log w) \<and>
     (\<forall>n w. log (snd (malloc ops n w)) = log w) \<and> (\<forall>b w. log (free ops b w) = log w) \<and>
     (\<forall>a n w. log (snd (allocate_from ops a n w)) = log w) \<and> (\<forall>a n b w. log (release_to ops a n b w) = log w)"

lemma recordsD:
  assumes "records ops log part f"
  shows "log (snd (sink_SupplyPacket ops part p w)) = log w @ [p]"
    "part' \<noteq> part \<Longrightarrow> log (snd (sink_SupplyPacket ops part' p w)) = log w"
    "fst (TransformPacket ops part' p is_new a w) = (True, f part' p)" "log (snd (TransformPacket ops part' p is_new a w)) = log w"
    "log (SetDownstreamDemand ops part' d w) = log w" "log (snd (malloc ops n w)) = log w" "log (free ops b w) = log w"
    "log (snd (allocate_from ops a n w)) = log w" "log (release_to ops a n b w) = log w"
  using assms by (simp_all add: records_def)

lemma world_put [simp]:
  "world (put_stage s h g) = world g" "world (put_input q hi g) = world g" "world (put_output r ho g) = world g"
  "world (put_impl s k g) = world g"
  by (simp_all add: put_stage_def put_input_def put_output_def put_impl_def)

lemma world_push:
  "PushToSupplyBacklog s g = Inr g' \<Longrightarrow> world g' = world g" "PushToDemandBacklog s g = Inr g' \<Longrightarrow> world g' = world g"
  by (auto simp: PushToSupplyBacklog_def PushToDemandBacklog_def set_in_supply_backlog_def set_in_demand_backlog_def
      rbind_eq_Inr_iff Let_def split: if_splits)

lemma world_SetDemand: "Input_SetDemand q d g = Inr g' \<Longrightarrow> world g' = world g"
  by (auto simp: Input_SetDemand_def UpdateDemandFromInput_def rbind_eq_Inr_iff split: if_splits dest: world_push)

lemma release_log: "records ops log part f \<Longrightarrow> release ops p g = Inr g' \<Longrightarrow> log (world g') = log (world g)"
  by (auto simp: release_def Packet_Release_def ReleasePayloadBuffer_def rbind_eq_Inr_iff recordsD split: option.splits if_splits)

lemma allocate_log:
  "records ops log part f \<Longrightarrow> AllocatePayloadBuffer ops a n w = Inr (b, w') \<Longrightarrow> log w' = log w"
  by (auto simp: AllocatePayloadBuffer_def dest: recordsD(6,8) split: if_splits) (metis recordsD(6,8) snd_conv)+

lemma copy_packet_log:
  assumes r: "records ops log part f" and c: "copy_packet ops a p g = Inr (q, g')"
  shows "log (world g') = log (world g)"
proof (cases a)
  case (Some al)
  show ?thesis
  proof (cases "packet_size p = 0")
    case True
    then show ?thesis using c Some by (auto simp: copy_packet_def rbind_eq_Inr_iff dest: release_log [OF r])
  next
    case False
    then obtain b w where b: "AllocatePayloadBuffer ops al (packet_size p) (world g) = Inr (b, w)"
      using c Some by (auto simp: copy_packet_def rbind_eq_Inr_iff)
    have "release ops p (g\<lparr>world := w\<rparr>) = Inr g'" using c Some False b
      by (cases b) (auto simp: copy_packet_def rbind_eq_Inr_iff)
    then show ?thesis using release_log [OF r] allocate_log [OF r b] by fastforce
  qed
qed (use c in \<open>simp add: copy_packet_def\<close>)

lemma Output_SupplyPacket_log:
  assumes r: "records ops log part f" and o: "Output_SupplyPacket ops q p g = Inr g'"
  shows "log (world g') = log (world g)"
proof -
  obtain y pq g1 where y: "output_at q g = Inr y" and c: "copy_packet ops (copy_allocator y) p g = Inr (pq, g1)"
    using o by (auto simp: Output_SupplyPacket_def rbind_eq_Inr_iff)
  have "world g' = world g1"
    using o y c by (cases pq) (auto simp: Output_SupplyPacket_def SupplyPacketFromOutput_def rbind_eq_Inr_iff split: if_splits dest!: world_push(1))
  then show ?thesis using copy_packet_log [OF r c] by simp
qed

lemma transform_packet_log:
  assumes r: "records ops log part f" and t: "transform_packet ops s pt a is_new p g = Inr g'"
  shows "log (world g') = log (world g)"
proof -
  obtain w where tp: "TransformPacket ops pt p is_new a (world g) = ((True, f pt p), w)" "log w = log (world g)"
    using recordsD(3,4) [OF r] by (metis prod.collapse)
  obtain g2 where g2: "release ops p (g\<lparr>world := w\<rparr>) = Inr g2"
    and o: "(case f pt p of None \<Rightarrow> Inr (put_impl s (TransformStage (Some a) True) (put_input (s, 0) (\<lambda>x. x\<lparr>packet_from_upstream := None\<rparr>) g2))
      | Some q \<Rightarrow> Output_SupplyPacket ops (s, 0) q (put_impl s (TransformStage (Some a) True) (put_input (s, 0) (\<lambda>x. x\<lparr>packet_from_upstream := None\<rparr>) g2))) = Inr g'"
    using t tp(1) by (auto simp: transform_packet_def rbind_eq_Inr_iff)
  have "log (world g2) = log (world g)" using release_log [OF r g2] tp(2) by simp
  then show ?thesis using o by (cases "f pt p") (auto dest!: Output_SupplyPacket_log [OF r])
qed


lemma TransformStage_Update_log:
  assumes r: "records ops log part f" and u: "TransformStage_Update ops s pt a is_new g = Inr g'"
  shows "log (world g') = log (world g)"
proof -
  obtain al where a: "a = Some al" using u by (cases a) (auto simp: TransformStage_Update_def)
  obtain x where x: "input_at (s, 0) g = Inr x" using u a by (auto simp: TransformStage_Update_def rbind_eq_Inr_iff)
  obtain g1 where g1: "(case packet_from_upstream x of None \<Rightarrow> Inr g
      | Some p \<Rightarrow> rbind (Output_demand (s, 0) g) (\<lambda>d. if d \<noteq> kNegative then transform_packet ops s pt al is_new p g else Inr g)) = Inr g1"
    and "rbind (Output_demand (s, 0) g1) (\<lambda>d. Input_SetDemand (s, 0) d g1) = Inr g'"
    using u [unfolded TransformStage_Update_def a option.case x rbind_simps] unfolding rbind_eq_Inr_iff by blast
  then have "world g' = world g1" by (auto simp: rbind_eq_Inr_iff dest: world_SetDemand)
  moreover have "log (world g1) = log (world g)"
  proof (cases "packet_from_upstream x")
    case None
    then show ?thesis using g1 by simp
  next
    case (Some p)
    then have "g1 = g \<or> transform_packet ops s pt al is_new p g = Inr g1" using g1 by (auto simp: rbind_eq_Inr_iff split: if_splits)
    then show ?thesis using transform_packet_log [OF r] by metis
  qed
  ultimately show ?thesis by simp
qed

lemma ActiveSourceStage_Update_log:
  assumes r: "records ops log part f" and u: "ActiveSourceStage_Update ops s pt b ps g = Inr g'"
  shows "log (world g') = log (world g)"
proof -
  obtain d where d: "Output_demand (s, 0) g = Inr d" using u by (auto simp: ActiveSourceStage_Update_def rbind_eq_Inr_iff)
  let ?g = "g\<lparr>world := SetDownstreamDemand ops pt d (world g)\<rparr>"
  have w: "log (world ?g) = log (world g)" using recordsD(5) [OF r] by simp
  show ?thesis
  proof (cases "ps = [] \<or> d = kNegative")
    case True
    then have "g' = ?g" using u d by (cases ps) (auto simp: ActiveSourceStage_Update_def)
    then show ?thesis using w by simp
  next
    case False
    then obtain g2 where "Output_SupplyPacket ops (s, 0) (hd ps) ?g = Inr g2" "g' = put_impl s (ActiveSourceStage b (tl ps)) g2"
      using u d by (cases ps) (auto simp: ActiveSourceStage_Update_def rbind_eq_Inr_iff)
    then show ?thesis using Output_SupplyPacket_log [OF r] w by simp
  qed
qed

lemma Stage_Update_log:
  assumes r: "records ops log part f" and p: "pipeline ops rank g" and k: "impl_of g s = Some k"
    and only: "\<And>s'. part_of g s' = Some part \<Longrightarrow> s' = k0" and at: "part_of g k0 = Some part" "\<exists>d. impl_of g k0 = Some (ActiveSinkStage d)"
    and u: "Stage_Update ops s g = Inr g'"
  shows "log (world g') = log (world g) @ (if s = k0 then opt_list (held g s) else [])"
proof -
  have rd: "ready ops g" and one: "one_stream k" using p k by (auto simp: pipeline_def)
  obtain st where st: "stage_at s g = Inr st" using impl_live [OF k] live_iff_stage_at by blast
  note rs = ready_stage [OF rd st]
  have sk: "stg_impl st = k" using rs(1) k by simp
  note u' = u [unfolded Stage_Update_def st rbind_simps sk]
  show ?thesis
  proof (cases k)
    case (TransformStage a is_new)
    then have "s \<noteq> k0" using k at(2) by auto
    moreover have "log (world g') = log (world g)"
      using u' TransformStage by (auto intro: TransformStage_Update_log [OF r])
    ultimately show ?thesis by simp
  next
    case (ActiveSourceStage b ps)
    then have "s \<noteq> k0" using k at(2) by auto
    moreover have "log (world g') = log (world g)"
      using u' ActiveSourceStage by (auto intro: ActiveSourceStage_Update_log [OF r])
    ultimately show ?thesis by simp
  next
    case (ActiveSinkStage d)
    have pt: "stg_part st = part \<longleftrightarrow> s = k0" using rs(2) only [of s] at(1) by (metis option.inject)
    obtain x where x: "input_at (s, 0) g = Inr x" using u' ActiveSinkStage by (auto simp: ActiveSinkStage_Update_def rbind_eq_Inr_iff)
    have h: "held g s = packet_from_upstream x" using x by (simp add: held_def pkt_def)
    show ?thesis
    proof (cases "packet_from_upstream x")
      case None
      then show ?thesis using u' ActiveSinkStage x h by (auto simp: ActiveSinkStage_Update_def dest!: world_SetDemand)
    next
      case (Some pk)
      then have "world g' = snd (sink_SupplyPacket ops (stg_part st) pk (world g))"
        using u' ActiveSinkStage x by (auto simp: ActiveSinkStage_Update_def split: prod.splits dest!: world_SetDemand)
      then show ?thesis using recordsD(1) [OF r, of pk "world g"] recordsD(2) [OF r, of "stg_part st" pk "world g"] pt h Some
        by (cases "s = k0") simp_all
    qed
  qed (use one in simp_all)
qed


section \<open>Nothing is lost, nothing overtakes\<close>

text \<open>A line: a chain whose sink part belongs to that sink alone, in a pipeline that copies nothing.\<close>

definition line :: "'w Part_ops \<Rightarrow> (nat \<Rightarrow> nat) \<Rightarrow> nat \<Rightarrow> nat list \<Rightarrow> 'w Graph \<Rightarrow> bool" where
  "line ops rank part cs g \<longleftrightarrow> pipeline ops rank g \<and> no_copy g \<and> chain g cs \<and> part_of g (hd cs) = Some part \<and>
     (\<forall>s. part_of g s = Some part \<longrightarrow> s = hd cs)"

lemma line_tame: "line ops rank part cs g \<Longrightarrow> tame g g' \<Longrightarrow> backlog_ok g' \<Longrightarrow> line ops rank part cs g'"
  using pipeline_tame [of ops rank g g'] chain_tame [of g g' cs]
  by (simp add: line_def no_copy_def tame_def steady_def)

definition total :: "('w \<Rightarrow> Packet list) \<Rightarrow> (nat \<Rightarrow> Packet \<Rightarrow> Packet option) \<Rightarrow> nat list \<Rightarrow> 'w Graph \<Rightarrow> Packet list" where
  "total log f cs g = log (world g) @ coming f g cs"

lemma total_same_data: "same_data g g' \<Longrightarrow> total log f cs g' = total log f cs g"
  unfolding total_def using coming_eq [of g g' cs f] tame_dem [of g g']
  by (simp add: same_data_def held_def queue_def)

lemma Engine_UpdateStage_total:
  assumes r: "records ops log part f" and ln: "line ops rank part cs g" and lv: "live g s"
  shows "\<exists>g'. Engine_UpdateStage ops s g = Inr g' \<and> line ops rank part cs g' \<and> total log f cs g' = total log f cs g \<and> tame g g'"
proof -
  let ?g = "g\<lparr>packets_produced := False\<rparr>"
  have p: "pipeline ops rank g" and b: "backlog_ok g" using ln ready_inv(2) by (auto simp: line_def pipeline_def)
  have sd: "same_data g ?g" by (simp add: same_data_def store_simps)
  have t: "tame g ?g" using sd by (simp add: same_data_def tame_dem)
  have l0: "line ops rank part cs ?g" by (rule line_tame [OF ln t]) (use b in \<open>simp add: backlog_ok_puts\<close>)
  then have p0: "pipeline ops rank ?g" "ready ops ?g" "no_copy ?g" "chain ?g cs" by (simp_all add: line_def pipeline_def)
  obtain k where k: "impl_of ?g s = Some k" using lv by (auto simp: live_def impl_of_def)
  have one: "one_stream k" using p0(1) k by (simp add: pipeline_def)
  obtain g1 where g1: "Stage_Update ops s ?g = Inr g1" "backlog_ok g1" "update_effect ops s ?g g1"
    using Stage_Update_effect [OF p0(2) k one] by blast
  have t1: "tame ?g g1" by (rule update_effect_tame [OF p0(2) g1(3)])
  have l1: "line ops rank part cs g1" by (rule line_tame [OF l0 t1 g1(2)])
  have "log (world g1) = log (world ?g) @ (if s = hd cs then opt_list (held ?g s) else [])"
    by (rule Stage_Update_log [OF r p0(1) k _ _ _ g1(1)]) (use l0 in \<open>simp_all add: line_def chain_def\<close>)
  moreover have "coming f ?g cs = (if s = hd cs then opt_list (held ?g s) else []) @ coming f g1 cs"
    by (rule update_effect_coming [OF p0(1,3,4) g1(3)]) (rule recordsD(3) [OF r])
  ultimately have e: "total log f cs g1 = total log f cs g" using total_same_data [OF sd, of log f cs] by (simp add: total_def)
  show ?thesis
  proof (cases "packets_produced g1")
    case False
    then show ?thesis using g1(1) l1 e tame_trans [OF t t1] by (simp add: Engine_UpdateStage_def)
  next
    case True
    have "live g1 s" using t1 lv by (simp add: tame_def steady_def store_simps)
    then obtain g2 where g2: "PushToDemandBacklog s g1 = Inr g2" "same_data g1 g2" "backlog_ok g2"
      using PushToDemandBacklog_eval [OF g1(2)] by blast
    have t2: "tame g1 g2" using g2(2) by (simp add: same_data_def tame_dem)
    have "line ops rank part cs g2" by (rule line_tame [OF l1 t2 g2(3)])
    then show ?thesis using g1(1) g2 True e total_same_data [OF g2(2), of log f cs] tame_trans [OF tame_trans [OF t t1] t2]
      by (simp add: Engine_UpdateStage_def)
  qed
qed

lemma Engine_Update_total:
  assumes r: "records ops log part f" and ret: "Engine_Update ops g = Some res" and ln: "line ops rank part cs g"
  shows "\<exists>g'. res = Inr g' \<and> line ops rank part cs g' \<and> total log f cs g' = total log f cs g \<and> tame g g'"
proof -
  have "records ops log part f \<longrightarrow> line ops rank part cs g \<longrightarrow>
    (\<exists>g'. res = Inr g' \<and> line ops rank part cs g' \<and> total log f cs g' = total log f cs g \<and> tame g g')"
  proof (induction rule: Engine_Update.raw_induct [OF _ ret])
    case (1 update ops g res)
    show ?case
    proof (intro impI)
      assume r: "records ops log part f" and ln: "line ops rank part cs g"
      have b: "backlog_ok g" using ln ready_inv(2) by (auto simp: line_def pipeline_def)
      show "\<exists>g'. res = Inr g' \<and> line ops rank part cs g' \<and> total log f cs g' = total log f cs g \<and> tame g g'"
      proof (cases "supply_backlog g = [] \<and> demand_backlog g = []")
        case True
        then have "Engine_Pop g = Inr (None, g)" using Engine_Pop_eval [OF b] by simp
        then show ?thesis using 1(2) ln by auto
      next
        case False
        then obtain s g0 where pop: "Engine_Pop g = Inr (Some s, g0)" "popped g s g0" using Engine_Pop_eval [OF b] by auto
        have sd: "same_data g g0" "backlog_ok g0" "live g0 s" using pop(2) by (simp_all add: popped_def same_data_def steady_def)
        have t0: "tame g g0" using sd(1) by (simp add: same_data_def tame_dem)
        have l0: "line ops rank part cs g0" by (rule line_tame [OF ln t0 sd(2)])
        obtain g1 where g1: "Engine_UpdateStage ops s g0 = Inr g1" "line ops rank part cs g1" "total log f cs g1 = total log f cs g0"
          "tame g0 g1"
          using Engine_UpdateStage_total [OF r l0 sd(3)] by blast
        have "update ops g1 = Some res" using 1(2) pop(1) g1(1) by simp
        from 1(1) [OF this] show ?thesis
          using r g1 total_same_data [OF sd(1), of log f cs] tame_trans [OF tame_trans [OF t0 g1(4)]] by auto
      qed
    qed
  qed
  then show ?thesis using r ln by blast
qed

lemma RequestUpdate_total:
  assumes r: "records ops log part f" and ln: "line ops rank part cs g" and lv: "live g s"
    and u: "RequestUpdate ops s g = Inr g'"
  shows "line ops rank part cs g' \<and> total log f cs g' = total log f cs g \<and> tame g g'"
proof -
  obtain g1 where g1: "Engine_UpdateStage ops s g = Inr g1" "line ops rank part cs g1" "total log f cs g1 = total log f cs g" "tame g g1"
    using Engine_UpdateStage_total [OF r ln lv] by blast
  obtain g2 where g2: "Engine_Update ops g1 = Some (Inr g2)" using Engine_Update_terminates g1(2) unfolding line_def by blast
  then have "g' = g2" using u g1(1) by (simp add: RequestUpdate_def run_loop_def)
  then show ?thesis using Engine_Update_total [OF r g2 g1(2)] g1(3) tame_trans [OF g1(4)] by auto
qed

text \<open>What a chain makes of a packet of its source.\<close>

definition route :: "(nat \<Rightarrow> Packet \<Rightarrow> Packet option) \<Rightarrow> 'w Graph \<Rightarrow> nat list \<Rightarrow> Packet \<Rightarrow> Packet list" where
  "route f g cs p = foldr (\<lambda>s. through (stage_map f g s)) (butlast cs) [p]"

lemma fed_from_last: "fed_from g cs \<Longrightarrow> \<exists>b ps. impl_of g (last cs) = Some (ActiveSourceStage b ps)"
  by (induction g cs rule: fed_from.induct) auto

lemma line_distinct: "line ops rank part cs g \<Longrightarrow> distinct cs"
  using fed_from_distinct [of g cs rank] ready_inv(1) by (auto simp: line_def chain_def pipeline_def)

lemma line_put_impl:
  assumes ln: "line ops rank part cs g" and k: "impl_of g s = Some k" and b: "\<And>n. becomes n k k'"
    and ok: "\<And>p. p \<in> set (impl_packets k') \<Longrightarrow> p \<in> set (impl_packets k) \<or> packet_ok p"
  shows "line ops rank part cs (put_impl s k' g)" "tame g (put_impl s k' g)"
proof -
  have p: "pipeline ops rank g" using ln by (simp add: line_def)
  have "packets_ok g \<Longrightarrow> p \<in> set (impl_packets k') \<Longrightarrow> packet_ok p" for p
    using ok k unfolding packets_ok_def by blast
  then show t: "tame g (put_impl s k' g)" by (intro tame_put_impl [OF k]) (use b in auto)
  show "line ops rank part cs (put_impl s k' g)"
    by (rule line_tame [OF ln t]) (use p ready_inv(2) in \<open>auto simp: pipeline_def backlog_ok_puts\<close>)
qed

lemma ActiveSource_supply_delivers:
  assumes r: "records ops log part f" and run: "running ops rank g" and ln: "line ops rank part cs g" and p: "packet_ok p"
  shows "\<exists>g'. ActiveSource_supply ops (last cs) p g = Inr g' \<and> running ops rank g' \<and> line ops rank part cs g' \<and>
    total log f cs g' = total log f cs g @ route f g cs p \<and> stage_map f g' = stage_map f g"
proof -
  let ?s = "last cs"
  obtain b ps where k: "impl_of g ?s = Some (ActiveSourceStage b ps)" using fed_from_last ln unfolding line_def chain_def by blast
  obtain g' where g': "ActiveSource_supply ops ?s p g = Inr g'" "running ops rank g'"
    using ActiveSource_supply_running [OF run k p] by blast
  let ?g = "put_impl ?s (ActiveSourceStage b (ps @ [p])) g"
  have "becomes n (ActiveSourceStage b ps) (ActiveSourceStage b (ps @ [p]))"
    "p' \<in> set (impl_packets (ActiveSourceStage b (ps @ [p]))) \<Longrightarrow> p' \<in> set (impl_packets (ActiveSourceStage b ps)) \<or> packet_ok p'"
    for n p' using p by auto
  note l1 = line_put_impl [OF ln k this]
  have lv: "live ?g ?s" using impl_live [OF k] by (simp add: store_simps)
  have q: "queue ?g = (queue g)(?s := queue g ?s @ [p])" "held ?g = held g"
    using k impl_live [OF k] by (auto simp: queue_def held_def store_simps)
  have sm: "stage_map f ?g = stage_map f g" by (rule stage_map_tame [OF l1(2)])
  have "fed_from g cs" using ln unfolding line_def chain_def by blast
  then have "cs \<noteq> []" by auto
  then have c: "coming f ?g cs = coming f g cs @ route f g cs p"
    unfolding coming_def route_def sm q by (rule flow_supply [OF _ line_distinct [OF ln]])
  then have tot: "total log f cs ?g = total log f cs g @ route f g cs p" by (simp add: total_def)
  obtain st where st: "stage_at ?s g = Inr st" "stg_impl st = ActiveSourceStage b ps" using k by (auto simp: impl_of_def stage_at_def)
  have pl: "pipeline ops rank ?g" using l1(1) by (simp add: line_def)
  have "g' = ?g \<or> RequestUpdate ops ?s ?g = Inr g'"
    using g'(1) st Stage_RequestUpdate_eval [OF pl lv] by (auto simp: ActiveSource_supply_def Let_def split: if_splits)
  then have "line ops rank part cs g' \<and> total log f cs g' = total log f cs ?g \<and> tame ?g g'"
    using RequestUpdate_total [OF r l1(1) lv] l1(1) by auto
  then show ?thesis using g' tot stage_map_tame [OF tame_trans [OF l1(2)], of g' f] by auto
qed

lemma ActiveSink_demand_delivers:
  assumes r: "records ops log part f" and run: "running ops rank g" and ln: "line ops rank part cs g"
  shows "\<exists>g'. ActiveSink_demand ops (hd cs) d g = Inr g' \<and> running ops rank g' \<and> line ops rank part cs g' \<and>
    total log f cs g' = total log f cs g"
proof -
  let ?s = "hd cs"
  obtain d0 where k: "impl_of g ?s = Some (ActiveSinkStage d0)" using ln unfolding line_def chain_def by blast
  obtain g' where g': "ActiveSink_demand ops ?s d g = Inr g'" "running ops rank g'"
    using ActiveSink_demand_running [OF run k] by blast
  let ?g = "put_impl ?s (ActiveSinkStage d) g"
  have "becomes n (ActiveSinkStage d0) (ActiveSinkStage d)"
    "p' \<in> set (impl_packets (ActiveSinkStage d)) \<Longrightarrow> p' \<in> set (impl_packets (ActiveSinkStage d0)) \<or> packet_ok p'" for n p' by auto
  note l1 = line_put_impl [OF ln k this]
  have lv: "live ?g ?s" using impl_live [OF k] by (simp add: store_simps)
  have q: "queue ?g = queue g" "held ?g = held g" using k impl_live [OF k] by (auto simp: queue_def held_def store_simps)
  have tot: "total log f cs ?g = total log f cs g"
    using coming_eq [OF l1(2), of cs f] q by (simp add: total_def)
  obtain st where st: "stage_at ?s g = Inr st" "stg_impl st = ActiveSinkStage d0" using k by (auto simp: impl_of_def stage_at_def)
  have pl: "pipeline ops rank ?g" using l1(1) by (simp add: line_def)
  have "g' = g \<or> RequestUpdate ops ?s ?g = Inr g'"
    using g'(1) st Stage_RequestUpdate_eval [OF pl lv] by (auto simp: ActiveSink_demand_def split: if_splits)
  then show ?thesis
  proof
    assume "g' = g"
    then show ?thesis using g' ln by simp
  next
    assume "RequestUpdate ops ?s ?g = Inr g'"
    then show ?thesis using RequestUpdate_total [OF r l1(1) lv] g' tot by auto
  qed
qed

text \<open>When the sink has demand, a pipeline that has settled has nothing on the way to it.\<close>

lemma settled_upstream:
  assumes p: "pipeline ops rank g" and q: "\<And>s. live g s \<Longrightarrow> settled g s"
  shows "fed_from g (u # us) \<Longrightarrow> edem g (u, 0) \<noteq> kNegative \<Longrightarrow>
    flow (held g) (queue g) F (u # us) = []"
proof (induction us arbitrary: u)
  case Nil
  then obtain b ps where k: "impl_of g u = Some (ActiveSourceStage b ps)" by auto
  then have "settled g u" using q impl_live by blast
  then show ?case using k Nil by (simp add: settled_def queue_def)
next
  case (Cons v vs)
  have m: "imate g (u, 0) = Some (v, 0)" "fed_from g (v # vs)" using Cons.prems by simp_all
  have l: "links_ok g" using p ready_inv(1) by (auto simp: pipeline_def)
  have mv: "omate g (v, 0) = Some (u, 0)" using links_iff [OF l, of "(v, 0)" "(u, 0)"] m(1) by simp
  obtain q' where mu: "omate g (u, 0) = Some q'" using Cons.prems(2) by (cases "omate g (u, 0)") (auto simp: edem_def)
  obtain k where k: "impl_of g u = Some k" using imate_live [OF m(1)] by (auto simp: live_def impl_of_def)
  have "one_stream k" using p k by (simp add: pipeline_def)
  then obtain a b where tk: "k = TransformStage a b"
    using k source_no_input [OF p m(1)] sink_no_output [OF p mu] by (cases k) auto
  have "settled g u" using q impl_live [OF k] by blast
  then have h: "held g u = None" "dem g (v, 0) = edem g (u, 0)"
    using k tk Cons.prems(2) m(1) by (auto simp: settled_def held_def)
  have "edem g (v, 0) \<noteq> kNegative" using h mv Cons.prems(2) by (simp add: edem_def [of g "(v, 0)"] held_def)
  then have "flow (held g) (queue g) F (v # vs) = []"
    using Cons.IH [OF m(2)] by blast
  then show ?case using h by simp
qed


lemma willing_sink_drained:
  assumes run: "running ops rank g" and ln: "line ops rank part cs g"
    and k: "impl_of g (hd cs) = Some (ActiveSinkStage d)" "d \<noteq> kNegative"
  shows "coming f g cs = []"
proof -
  have p: "pipeline ops rank g" and q: "\<And>s. live g s \<Longrightarrow> settled g s" using run by (auto simp: running_def quiescent_def)
  have c: "fed_from g cs" using ln unfolding line_def chain_def by blast
  then obtain u us where cs: "cs = hd cs # u # us" using k by (cases cs rule: remdups_adj.cases) auto
  have m: "imate g (hd cs, 0) = Some (u, 0)" "fed_from g (u # us)" using c by (subst (asm) cs, simp)+
  have l: "links_ok g" using p ready_inv(1) by (auto simp: pipeline_def)
  have mu: "omate g (u, 0) = Some (hd cs, 0)" using links_iff [OF l, of "(u, 0)" "(hd cs, 0)"] m(1) by simp
  have "settled g (hd cs)" using q impl_live [OF k(1)] by blast
  then have h: "pkt g (hd cs, 0) = None" "dem g (u, 0) = d" using k(1) m(1) by (auto simp: settled_def)
  then have "edem g (u, 0) \<noteq> kNegative" using mu k(2) by (simp add: edem_def)
  then have "flow (held g) (queue g) (stage_map f g) (u # us) = []" using settled_upstream [OF p q m(2)] by blast
  then show ?thesis unfolding coming_def by (subst cs) (use h in \<open>simp add: held_def\<close>)
qed

text \<open>A source that supplies a sequence of packets, one callback each.\<close>

fun supply_all :: "'w Part_ops \<Rightarrow> nat \<Rightarrow> Packet list \<Rightarrow> 'w Graph \<Rightarrow> 'w Graph res" where
  "supply_all ops s [] g = Inr g"
| "supply_all ops s (p # ps) g = rbind (ActiveSource_supply ops s p g) (supply_all ops s ps)"

lemma supply_all_delivers:
  assumes r: "records ops log part f"
  shows "running ops rank g \<Longrightarrow> line ops rank part cs g \<Longrightarrow> \<forall>p \<in> set ps. packet_ok p \<Longrightarrow>
    \<exists>g'. supply_all ops (last cs) ps g = Inr g' \<and> running ops rank g' \<and> line ops rank part cs g' \<and>
      total log f cs g' = total log f cs g @ concat (map (route f g cs) ps)"
proof (induction ps arbitrary: g)
  case (Cons p ps)
  obtain g1 where g1: "ActiveSource_supply ops (last cs) p g = Inr g1" "running ops rank g1" "line ops rank part cs g1"
    "total log f cs g1 = total log f cs g @ route f g cs p" "stage_map f g1 = stage_map f g"
    using ActiveSource_supply_delivers [OF r Cons.prems(1,2)] Cons.prems(3) by auto
  have ok: "\<forall>p \<in> set ps. packet_ok p" using Cons.prems(3) by simp
  obtain g' where "supply_all ops (last cs) ps g1 = Inr g'" "running ops rank g'" "line ops rank part cs g'"
    "total log f cs g' = total log f cs g1 @ concat (map (route f g1 cs) ps)" using Cons.IH [OF g1(2,3) ok] by blast
  moreover have "route f g1 cs = route f g cs" unfolding route_def g1(5) ..
  ultimately show ?case using g1 by simp
qed simp

end
