(* ===== verification/Stream_Types.thy ===== *)
theory Stream_Types
  imports Media_Prelude
begin

text \<open>
  Stream types of the framework (services/media/framework/types: stream_type.h,
  stream_type.cc, audio_stream_type.h, audio_stream_type.cc, bytes.h). Of the subclasses of
  \<^verbatim>\<open>StreamType\<close> the audio one is modelled; an object of any other class is a plain stream, on
  which \<^verbatim>\<open>audio()\<close> is a null pointer. Sizes are machine words, as in the sources.

  \<^verbatim>\<open>NOTREACHED\<close> and \<^verbatim>\<open>abort\<close> are failed checks.
\<close>

datatype Medium = kAudio | kVideo | kText | kSubpicture

datatype SampleFormat = kAny | kUnsigned8 | kSigned16 | kSigned24In32 | kFloat

record AudioStreamType =
  ast_encoding :: string
  ast_encoding_parameters :: "u8 list option"
  ast_sample_format :: SampleFormat
  ast_channels :: u32
  ast_frames_per_second :: u32
  ast_sample_size :: u32

datatype StreamType = AudioStream AudioStreamType | PlainStream Medium string "u8 list option"

definition kAudioEncodingLpcm :: string where
  "kAudioEncodingLpcm = ''lpcm''"

definition medium :: "StreamType \<Rightarrow> Medium" where
  "medium t = (case t of AudioStream _ \<Rightarrow> kAudio | PlainStream m _ _ \<Rightarrow> m)"

definition encoding :: "StreamType \<Rightarrow> string" where
  "encoding t = (case t of AudioStream a \<Rightarrow> ast_encoding a | PlainStream _ e _ \<Rightarrow> e)"

definition StreamType_audio :: "StreamType \<Rightarrow> AudioStreamType option" where
  "StreamType_audio t = (case t of AudioStream a \<Rightarrow> Some a | PlainStream _ _ _ \<Rightarrow> None)"

definition SampleSizeFromFormat :: "SampleFormat \<Rightarrow> u32 res" where
  "SampleSizeFromFormat f = (case f of kAny \<Rightarrow> Inl Dcheck_failed | kUnsigned8 \<Rightarrow> Inr 1 | kSigned16 \<Rightarrow> Inr 2
     | kSigned24In32 \<Rightarrow> Inr 4 | kFloat \<Rightarrow> Inr 4)"

definition new_AudioStreamType :: "string \<Rightarrow> u8 list option \<Rightarrow> SampleFormat \<Rightarrow> u32 \<Rightarrow> u32 \<Rightarrow> AudioStreamType res" where
  "new_AudioStreamType e params f ch fps =
     rbind (SampleSizeFromFormat f) (\<lambda>n.
       Inr \<lparr>ast_encoding = e, ast_encoding_parameters = params, ast_sample_format = f, ast_channels = ch,
            ast_frames_per_second = fps, ast_sample_size = n\<rparr>)"

definition AudioStreamType_Clone :: "AudioStreamType \<Rightarrow> AudioStreamType res" where
  "AudioStreamType_Clone t =
     new_AudioStreamType (ast_encoding t) (ast_encoding_parameters t) (ast_sample_format t) (ast_channels t)
       (ast_frames_per_second t)"

text \<open>The product of two \<^verbatim>\<open>uint32_t\<close> wraps; that of the \<^verbatim>\<open>uint64_t\<close> is taken after the conversion.\<close>

definition bytes_per_frame :: "AudioStreamType \<Rightarrow> u32" where
  "bytes_per_frame t = ast_sample_size t * ast_channels t"

definition min_buffer_size :: "AudioStreamType \<Rightarrow> u64 \<Rightarrow> u64" where
  "min_buffer_size t n = n * ucast (bytes_per_frame t)"

definition frame_count :: "AudioStreamType \<Rightarrow> u64 \<Rightarrow> u64 res" where
  "frame_count t n =
     dcheck (bytes_per_frame t \<noteq> 0) (dcheck (n mod ucast (bytes_per_frame t) = 0) (Inr (n div ucast (bytes_per_frame t))))"

record uint32_range =
  range_min :: u32
  range_max :: u32

definition new_Range :: "u32 \<Rightarrow> u32 \<Rightarrow> uint32_range res" where
  "new_Range lo hi = dcheck (lo \<le> hi) (Inr \<lparr>range_min = lo, range_max = hi\<rparr>)"

definition Range_contains :: "uint32_range \<Rightarrow> u32 \<Rightarrow> bool" where
  "Range_contains r t \<longleftrightarrow> range_min r \<le> t \<and> t \<le> range_max r"

record AudioStreamTypeSet =
  set_encodings :: "string list"
  set_sample_format :: SampleFormat
  set_channels :: uint32_range
  set_frames_per_second :: uint32_range

datatype StreamTypeSet = AudioSet AudioStreamTypeSet | PlainSet Medium "string list"

definition set_medium :: "StreamTypeSet \<Rightarrow> Medium" where
  "set_medium s = (case s of AudioSet _ \<Rightarrow> kAudio | PlainSet m _ \<Rightarrow> m)"

definition StreamTypeSet_audio :: "StreamTypeSet \<Rightarrow> AudioStreamTypeSet option" where
  "StreamTypeSet_audio s = (case s of AudioSet a \<Rightarrow> Some a | PlainSet _ _ \<Rightarrow> None)"

fun IncludesEncoding_in :: "string list \<Rightarrow> string \<Rightarrow> bool" where
  "IncludesEncoding_in [] e = False"
| "IncludesEncoding_in (x # xs) e = (if x = e then True else IncludesEncoding_in xs e)"

definition IncludesEncoding :: "StreamTypeSet \<Rightarrow> string \<Rightarrow> bool" where
  "IncludesEncoding s e = IncludesEncoding_in (case s of AudioSet a \<Rightarrow> set_encodings a | PlainSet _ es \<Rightarrow> es) e"

text \<open>\<^verbatim>\<open>contains\<close> looks the frame rate up in both ranges, as the source has it.\<close>

definition AudioStreamTypeSet_contains :: "AudioStreamTypeSet \<Rightarrow> AudioStreamType \<Rightarrow> bool" where
  "AudioStreamTypeSet_contains s t \<longleftrightarrow>
     (set_sample_format s = ast_sample_format t \<or> set_sample_format s = kAny) \<and>
     Range_contains (set_channels s) (ast_frames_per_second t) \<and>
     Range_contains (set_frames_per_second s) (ast_frames_per_second t)"

section \<open>Sizes\<close>

text \<open>What the constructor gives, with a frame that fits a \<^verbatim>\<open>uint32_t\<close>.\<close>

definition type_ok :: "AudioStreamType \<Rightarrow> bool" where
  "type_ok t \<longleftrightarrow> SampleSizeFromFormat (ast_sample_format t) = Inr (ast_sample_size t) \<and> 0 < ast_channels t \<and>
     unat (ast_sample_size t) * unat (ast_channels t) < 2 ^ 32"

lemma sample_size_pos: "SampleSizeFromFormat f = Inr n \<Longrightarrow> 0 < unat n \<and> unat n \<le> 4"
  by (cases f) (auto simp: SampleSizeFromFormat_def)

lemma bytes_per_frame_nat: "type_ok t \<Longrightarrow> unat (bytes_per_frame t) = unat (ast_sample_size t) * unat (ast_channels t)"
  by (simp add: type_ok_def bytes_per_frame_def unat_mult_lem [THEN iffD1])

lemma bytes_per_frame_pos: "type_ok t \<Longrightarrow> 0 < unat (bytes_per_frame t)"
  using sample_size_pos [of "ast_sample_format t" "ast_sample_size t"] bytes_per_frame_nat [of t]
  by (auto simp: type_ok_def unat_gt_0 word_gt_0)

lemma unat_ucast_frame: "unat (ucast (bytes_per_frame t) :: u64) = unat (bytes_per_frame t)"
proof -
  have "unat (bytes_per_frame t) < 2 ^ LENGTH(32)" by (rule unsigned_less)
  then show ?thesis by (simp add: unsigned_ucast_eq take_bit_nat_eq_self)
qed

lemma min_buffer_size_nat:
  "unat n * unat (bytes_per_frame t) < 2 ^ 64 \<Longrightarrow> unat (min_buffer_size t n) = unat n * unat (bytes_per_frame t)"
  by (simp add: min_buffer_size_def unat_mult_lem [THEN iffD1] unat_ucast_frame)

text \<open>The number of frames of a buffer that is as large as \<open>n\<close> frames need is \<open>n\<close>.\<close>

lemma frame_count_min_buffer_size:
  assumes t: "type_ok t" and n: "unat n * unat (bytes_per_frame t) < 2 ^ 64"
  shows "frame_count t (min_buffer_size t n) = Inr n"
proof -
  let ?b = "ucast (bytes_per_frame t) :: u64"
  have b: "unat ?b = unat (bytes_per_frame t)" by (rule unat_ucast_frame)
  have "bytes_per_frame t \<noteq> 0" using bytes_per_frame_pos [OF t] by auto
  moreover have "unat (min_buffer_size t n mod ?b) = 0" "unat (min_buffer_size t n div ?b) = unat n"
    using bytes_per_frame_pos [OF t] by (simp_all add: unat_mod unat_div b min_buffer_size_nat [OF n])
  then have "min_buffer_size t n mod ?b = 0" "min_buffer_size t n div ?b = n"
    by (simp only: unat_eq_0, simp only: word_unat_eq_iff)
  ultimately show ?thesis by (simp add: frame_count_def)
qed

end
