(* ===== verification/Lpcm.thy ===== *)
theory Lpcm
  imports Stream_Types Stage_Store
begin

text \<open>
  LPCM processing: \<^verbatim>\<open>LpcmUtil\<close> (services/media/framework/util/lpcm_util.cc) and the transform
  \<^verbatim>\<open>LpcmReformatter\<close> (services/media/framework/parts/lpcm_reformatter.cc), for the integer
  sample formats. A buffer that is read or written through a pointer to samples is the
  list of its samples; the bytes of a packet are viewed as samples in little-endian order.
  An access beyond the buffer is the fault \<open>Out_of_range\<close>.
\<close>

section \<open>Sample types\<close>

datatype Sample_type = U8 | S16 | S32

definition type_bytes :: "Sample_type \<Rightarrow> nat" where
  "type_bytes T = (case T of U8 \<Rightarrow> 1 | S16 \<Rightarrow> 2 | S32 \<Rightarrow> 4)"

definition to_signed :: "nat \<Rightarrow> int \<Rightarrow> int" where
  "to_signed w x = (x + 2 ^ (w - 1)) mod 2 ^ w - 2 ^ (w - 1)"

text \<open>The conversion of an integer to the type.\<close>

definition to_type :: "Sample_type \<Rightarrow> int \<Rightarrow> int" where
  "to_type T x = (case T of U8 \<Rightarrow> x mod 256 | S16 \<Rightarrow> to_signed 16 x | S32 \<Rightarrow> to_signed 32 x)"

text \<open>The values of the C++ type.\<close>

definition in_type_range :: "Sample_type \<Rightarrow> int \<Rightarrow> bool" where
  "in_type_range T x \<longleftrightarrow> (case T of U8 \<Rightarrow> 0 \<le> x \<and> x < 256 | S16 \<Rightarrow> - (2 ^ 15) \<le> x \<and> x < 2 ^ 15 | S32 \<Rightarrow> - (2 ^ 31) \<le> x \<and> x < 2 ^ 31)"

text \<open>
  The values of the sample format: 32-bit integers carry samples of 24 bits
  (\<^verbatim>\<open>kSigned24In32\<close>), so most values of the type are not samples.
\<close>

definition in_sample_range :: "Sample_type \<Rightarrow> int \<Rightarrow> bool" where
  "in_sample_range T x \<longleftrightarrow> (case T of U8 \<Rightarrow> 0 \<le> x \<and> x < 256 | S16 \<Rightarrow> - (2 ^ 15) \<le> x \<and> x < 2 ^ 15 | S32 \<Rightarrow> - (2 ^ 23) \<le> x \<and> x < 2 ^ 23)"

lemma in_sample_type_range: "in_sample_range T x \<Longrightarrow> in_type_range T x"
  by (cases T) (simp_all add: in_sample_range_def in_type_range_def)

lemma to_type_range: "in_type_range T (to_type T x)"
  by (cases T) (auto simp: in_type_range_def to_type_def to_signed_def)

lemma to_type_id: "in_type_range T x \<Longrightarrow> to_type T x = x"
  by (cases T) (auto simp: in_type_range_def to_type_def to_signed_def)

section \<open>Samples in bytes\<close>

fun le_int :: "u8 list \<Rightarrow> int" where
  "le_int [] = 0"
| "le_int (b # bs) = uint b + 256 * le_int bs"

fun le_bytes :: "nat \<Rightarrow> int \<Rightarrow> u8 list" where
  "le_bytes 0 x = []"
| "le_bytes (Suc n) x = word_of_int x # le_bytes n (x div 256)"

fun samples_of :: "Sample_type \<Rightarrow> nat \<Rightarrow> u8 list \<Rightarrow> int list" where
  "samples_of T 0 bs = []"
| "samples_of T (Suc n) bs = to_type T (le_int (take (type_bytes T) bs)) # samples_of T n (drop (type_bytes T) bs)"

definition bytes_of :: "Sample_type \<Rightarrow> int list \<Rightarrow> u8 list" where
  "bytes_of T xs = concat (map (le_bytes (type_bytes T)) xs)"

lemma length_le_bytes [simp]: "length (le_bytes n x) = n"
  by (induction n arbitrary: x) auto

lemma length_samples_of [simp]: "length (samples_of T n bs) = n"
  by (induction n arbitrary: bs) auto

lemma length_bytes_of: "length (bytes_of T xs) = length xs * type_bytes T"
  by (simp add: bytes_of_def length_concat comp_def sum_list_triv)

lemma le_int_bytes: "le_int (le_bytes n x) = x mod 256 ^ n"
proof (induction n arbitrary: x)
  case (Suc n)
  have "x mod (256 * 256 ^ n) = x mod 256 + 256 * (x div 256 mod 256 ^ n)" by (simp add: zmod_zmult2_eq)
  then show ?case using Suc by (simp add: unsigned_of_int take_bit_eq_mod)
qed simp

lemma to_type_mod: "to_type T (x mod 256 ^ type_bytes T) = to_type T x"
  by (cases T) (simp_all add: to_type_def to_signed_def type_bytes_def mod_add_left_eq)

text \<open>Writing samples to bytes and reading them back.\<close>

lemma samples_of_bytes_of:
  "\<forall>x \<in> set xs. in_type_range T x \<Longrightarrow> samples_of T (length xs) (bytes_of T xs) = xs"
  by (induction xs) (simp_all add: bytes_of_def le_int_bytes to_type_mod to_type_id)


section \<open>Strided copies\<close>

text \<open>
  The two loops that \<^verbatim>\<open>Interleave\<close> and \<^verbatim>\<open>TransformPacket\<close> share: for each channel, \<open>n\<close> samples are
  taken from every \<open>di\<close>-th place of the source, converted by \<open>f\<close> and put in every \<open>ch\<close>-th place
  of the destination; the next channel starts \<open>ci\<close> places further in the source and one
  place further in the destination.
\<close>

fun copy_samples :: "(int \<Rightarrow> int) \<Rightarrow> nat \<Rightarrow> nat \<Rightarrow> nat \<Rightarrow> nat \<Rightarrow> nat \<Rightarrow> int list \<Rightarrow> int list \<Rightarrow> int list res" where
  "copy_samples f 0 di ch i j src dst = Inr dst"
| "copy_samples f (Suc n) di ch i j src dst =
     (if i < length src \<and> j < length dst then copy_samples f n di ch (i + di) (j + ch) src (dst[j := f (src ! i)])
      else Inl Out_of_range)"

fun copy_channels :: "(int \<Rightarrow> int) \<Rightarrow> nat \<Rightarrow> nat \<Rightarrow> nat \<Rightarrow> nat \<Rightarrow> nat \<Rightarrow> nat \<Rightarrow> nat \<Rightarrow> int list \<Rightarrow> int list \<Rightarrow> int list res" where
  "copy_channels f 0 n di ci ch i j src dst = Inr dst"
| "copy_channels f (Suc c) n di ci ch i j src dst =
     rbind (copy_samples f n di ch i j src dst) (copy_channels f c n di ci ch (i + ci) (j + 1) src)"

lemma copy_samples_spec:
  assumes "0 < ch" "n = 0 \<or> i + (n - 1) * di < length src" "n = 0 \<or> j + (n - 1) * ch < length dst"
  shows "\<exists>dst'. copy_samples f n di ch i j src dst = Inr dst' \<and> length dst' = length dst \<and>
    (\<forall>k < n. dst' ! (j + k * ch) = f (src ! (i + k * di))) \<and>
    (\<forall>x. (\<forall>k < n. x \<noteq> j + k * ch) \<longrightarrow> dst' ! x = dst ! x)"
  using assms(2,3)
proof (induction n arbitrary: i j dst)
  case (Suc n)
  have ij: "i < length src" "j < length dst" using Suc.prems by auto
  let ?d = "dst[j := f (src ! i)]"
  have "n = 0 \<or> (i + di) + (n - 1) * di < length src" "n = 0 \<or> (j + ch) + (n - 1) * ch < length ?d"
    using Suc.prems by (cases n; simp add: algebra_simps)+
  then obtain dst' where d: "copy_samples f n di ch (i + di) (j + ch) src ?d = Inr dst'" "length dst' = length dst"
    "\<forall>k < n. dst' ! (j + ch + k * ch) = f (src ! (i + di + k * di))"
    "\<forall>x. (\<forall>k < n. x \<noteq> j + ch + k * ch) \<longrightarrow> dst' ! x = ?d ! x"
    using Suc.IH [of "i + di" "j + ch" ?d] by auto
  have "dst' ! (j + k * ch) = f (src ! (i + k * di))" if "k < Suc n" for k
  proof (cases k)
    case 0
    have "dst' ! j = ?d ! j" using d(4) assms(1) by simp
    then show ?thesis using 0 ij by simp
  next
    case (Suc l)
    then have "l < n" using that by simp
    then show ?thesis using d(3) Suc by (simp add: add.assoc)
  qed
  moreover have "dst' ! x = dst ! x" if x: "\<forall>k < Suc n. x \<noteq> j + k * ch" for x
  proof -
    have "\<forall>k < n. x \<noteq> j + ch + k * ch"
    proof (intro allI impI)
      fix k assume "k < n"
      then have "Suc k < Suc n" by simp
      then show "x \<noteq> j + ch + k * ch" using x by fastforce
    qed
    moreover have "x \<noteq> j" using x by fastforce
    ultimately show ?thesis using d(4) by simp
  qed
  ultimately show ?case using d(1,2) ij by auto
qed simp


lemma column_unique: "m < ch \<Longrightarrow> m' < (ch::nat) \<Longrightarrow> m + k * ch = m' + k' * ch \<Longrightarrow> m = m' \<and> k = k'"
proof -
  assume m: "m < ch" "m' < ch" and e: "m + k * ch = m' + k' * ch"
  have "(m + k * ch) mod ch = m" "(m' + k' * ch) mod ch = m'" using m by simp_all
  then have "m = m'" using e by metis
  then show ?thesis using e m by auto
qed

lemma copy_channels_spec:
  assumes "j + c \<le> ch" "n * ch \<le> length dst" "\<And>m k. m < c \<Longrightarrow> k < n \<Longrightarrow> i + m * ci + k * di < length src"
  shows "\<exists>dst'. copy_channels f c n di ci ch i j src dst = Inr dst' \<and> length dst' = length dst \<and>
    (\<forall>m < c. \<forall>k < n. dst' ! (j + m + k * ch) = f (src ! (i + m * ci + k * di))) \<and>
    (\<forall>x. (\<forall>m < c. \<forall>k < n. x \<noteq> j + m + k * ch) \<longrightarrow> dst' ! x = dst ! x)"
  using assms
proof (induction c arbitrary: i j dst)
  case (Suc c)
  have ch: "0 < ch" "j < ch" using Suc.prems(1) by simp_all
  have "n = 0 \<or> j + (n - 1) * ch < length dst"
  proof (cases n)
    case (Suc l)
    then show ?thesis using Suc.prems(2) ch(2) by simp
  qed simp
  moreover have "n = 0 \<or> i + (n - 1) * di < length src" using Suc.prems(3) [of 0 "n - 1"] by (cases n) auto
  ultimately obtain d1 where d1: "copy_samples f n di ch i j src dst = Inr d1" "length d1 = length dst"
    "\<forall>k < n. d1 ! (j + k * ch) = f (src ! (i + k * di))" "\<forall>x. (\<forall>k < n. x \<noteq> j + k * ch) \<longrightarrow> d1 ! x = dst ! x"
    using copy_samples_spec [OF ch(1)] by blast
  have rd: "i + ci + m * ci + k * di < length src" if "m < c" "k < n" for m k
    using Suc.prems(3) [of "Suc m" k] that by (simp add: algebra_simps)
  have "j + 1 + c \<le> ch" "n * ch \<le> length d1" using Suc.prems(1,2) d1(2) by simp_all
  from Suc.IH [OF this rd] obtain d2 where d2: "copy_channels f c n di ci ch (i + ci) (j + 1) src d1 = Inr d2" "length d2 = length d1"
    "\<forall>m < c. \<forall>k < n. d2 ! (j + 1 + m + k * ch) = f (src ! (i + ci + m * ci + k * di))"
    "\<forall>x. (\<forall>m < c. \<forall>k < n. x \<noteq> j + 1 + m + k * ch) \<longrightarrow> d2 ! x = d1 ! x" by blast
  have "d2 ! (j + m + k * ch) = f (src ! (i + m * ci + k * di))" if "m < Suc c" "k < n" for m k
  proof (cases m)
    case 0
    have "j + k * ch \<noteq> j + 1 + m' + k' * ch" if "m' < c" for m' k'
      using column_unique [of j ch "j + 1 + m'" k k'] ch(2) that Suc.prems(1) by auto
    then have "d2 ! (j + k * ch) = d1 ! (j + k * ch)" using d2(4) by blast
    then show ?thesis using 0 d1(3) that(2) by simp
  next
    case (Suc m')
    then have "d2 ! (j + 1 + m' + k * ch) = f (src ! (i + ci + m' * ci + k * di))" using d2(3) that by simp
    then show ?thesis using Suc by (simp add: add.assoc)
  qed
  moreover have "d2 ! x = dst ! x" if x: "\<forall>m < Suc c. \<forall>k < n. x \<noteq> j + m + k * ch" for x
  proof -
    have "\<forall>m < c. \<forall>k < n. x \<noteq> j + 1 + m + k * ch"
    proof (intro allI impI)
      fix m k assume "m < c" "k < n"
      then show "x \<noteq> j + 1 + m + k * ch" using x [rule_format, of "Suc m" k] by simp
    qed
    moreover have "\<forall>k < n. x \<noteq> j + k * ch" using x [rule_format, of 0] by simp
    ultimately show ?thesis using d2(4) d1(4) by simp
  qed
  ultimately show ?case using d1(1,2) d2(1,2) by auto
qed simp

text \<open>Every position below \<open>n * ch\<close> is one channel of one frame.\<close>

lemma position_split: "x < n * ch \<Longrightarrow> x mod ch < (ch::nat) \<and> x div ch < n \<and> x = x mod ch + x div ch * ch"
  by (cases "ch = 0") (simp_all add: less_mult_imp_div_less mod_div_mult_eq)

lemma copy_channels_positions:
  assumes "0 < ch" "length dst = n * ch" "\<And>m k. m < ch \<Longrightarrow> k < n \<Longrightarrow> m * ci + k * di < length src"
  shows "copy_channels f ch n di ci ch 0 0 src dst = Inr (map (\<lambda>x. f (src ! (x mod ch * ci + x div ch * di))) [0..<n * ch])"
proof -
  obtain dst' where d: "copy_channels f ch n di ci ch 0 0 src dst = Inr dst'" "length dst' = length dst"
    "\<forall>m < ch. \<forall>k < n. dst' ! (m + k * ch) = f (src ! (m * ci + k * di))"
    using copy_channels_spec [of 0 ch ch n dst 0 ci di src f] assms by auto
  have "dst' ! x = f (src ! (x mod ch * ci + x div ch * di))" if "x < n * ch" for x
    using position_split [OF that] d(3) by metis
  then have "dst' = map (\<lambda>x. f (src ! (x mod ch * ci + x div ch * di))) [0..<n * ch]"
    using d(2) assms(2) by (intro nth_equalityI) auto
  then show ?thesis using d(1) by simp
qed


section \<open>LpcmUtil\<close>

text \<open>The template argument that goes with a sample format; \<^verbatim>\<open>float\<close> is not modelled.\<close>

definition sample_type_of :: "SampleFormat \<Rightarrow> Sample_type option" where
  "sample_type_of f = (case f of kUnsigned8 \<Rightarrow> Some U8 | kSigned16 \<Rightarrow> Some S16 | kSigned24In32 \<Rightarrow> Some S32 | _ \<Rightarrow> None)"

text \<open>The choice of the implementation; \<open>None\<close> is the one for \<^verbatim>\<open>float\<close>.\<close>

definition LpcmUtil_Create :: "AudioStreamType \<Rightarrow> Sample_type option res" where
  "LpcmUtil_Create t = (if ast_sample_format t = kAny then Inl Dcheck_failed else Inr (sample_type_of (ast_sample_format t)))"

definition LpcmUtil_Silence :: "Sample_type \<Rightarrow> AudioStreamType \<Rightarrow> u8 list \<Rightarrow> u64 \<Rightarrow> u8 list res" where
  "LpcmUtil_Silence T t buffer frames =
     (let n = unat (frames * ucast (bytes_per_frame t))
      in if n \<le> length buffer then Inr (replicate n (if T = U8 then 0x80 else 0) @ drop n buffer) else Inl Out_of_range)"

definition LpcmUtil_Copy :: "AudioStreamType \<Rightarrow> u8 list \<Rightarrow> u8 list \<Rightarrow> u64 \<Rightarrow> u8 list res" where
  "LpcmUtil_Copy t src dst frames =
     (let n = unat (min_buffer_size t frames)
      in if n \<le> length src \<and> n \<le> length dst then Inr (take n src @ drop n dst) else Inl Out_of_range)"

text \<open>The sum of two \<^verbatim>\<open>int32_t\<close> may overflow; the smaller types are added as \<^verbatim>\<open>int\<close> and converted back.\<close>

definition mix_sample :: "Sample_type \<Rightarrow> int \<Rightarrow> int \<Rightarrow> int res" where
  "mix_sample T x y = (case T of U8 \<Rightarrow> Inr (to_type U8 (x + y - 0x80)) | S16 \<Rightarrow> Inr (to_type S16 (x + y)) | S32 \<Rightarrow> s32 (x + y))"

fun mix_loop :: "Sample_type \<Rightarrow> nat \<Rightarrow> nat \<Rightarrow> int list \<Rightarrow> int list \<Rightarrow> int list res" where
  "mix_loop T 0 i src dst = Inr dst"
| "mix_loop T (Suc n) i src dst =
     (if i < length src \<and> i < length dst then
        rbind (mix_sample T (dst ! i) (src ! i)) (\<lambda>v. mix_loop T n (i + 1) src (dst[i := v]))
      else Inl Out_of_range)"

definition LpcmUtil_Mix :: "Sample_type \<Rightarrow> AudioStreamType \<Rightarrow> int list \<Rightarrow> int list \<Rightarrow> u64 \<Rightarrow> int list res" where
  "LpcmUtil_Mix T t src dst frames = mix_loop T (unat (frames * ucast (ast_channels t))) 0 src dst"

definition LpcmUtil_Interleave :: "AudioStreamType \<Rightarrow> int list \<Rightarrow> u64 \<Rightarrow> int list \<Rightarrow> u64 \<Rightarrow> int list res" where
  "LpcmUtil_Interleave t src in_byte_count dst frames =
     dcheck (in_byte_count \<noteq> 0) (dcheck (frames \<noteq> 0) (dcheck (ast_channels t \<noteq> 0)
      (if bytes_per_frame t = 0 then Inl Div_by_zero
       else dcheck (in_byte_count mod ucast (bytes_per_frame t) = 0)
        (dcheck (frames * ucast (bytes_per_frame t) \<le> in_byte_count)
          (copy_channels (\<lambda>x. x) (unat (ast_channels t)) (unat frames) 1
             (unat (in_byte_count div ucast (bytes_per_frame t))) (unat (ast_channels t)) 0 0 src dst)))))"

lemma mix_loop_spec:
  assumes "T \<noteq> S32 \<or> (\<forall>k < n. in_int32 (dst ! (i + k) + src ! (i + k)))" "i + n \<le> length src" "i + n \<le> length dst"
  shows "\<exists>dst'. mix_loop T n i src dst = Inr dst' \<and> length dst' = length dst \<and>
    (\<forall>x < length dst. if i \<le> x \<and> x < i + n then mix_sample T (dst ! x) (src ! x) = Inr (dst' ! x) else dst' ! x = dst ! x)"
  using assms
proof (induction n arbitrary: i dst)
  case (Suc n)
  obtain v where v: "mix_sample T (dst ! i) (src ! i) = Inr v"
  proof (cases T)
    case S32
    then have "in_int32 (dst ! (i + 0) + src ! (i + 0))" using Suc.prems(1) by blast
    then show thesis using that S32 by (simp add: mix_sample_def)
  qed (use that in \<open>simp_all add: mix_sample_def\<close>)
  let ?d = "dst[i := v]"
  have "T \<noteq> S32 \<or> (\<forall>k < n. in_int32 (?d ! (i + 1 + k) + src ! (i + 1 + k)))"
  proof (cases "T = S32")
    case True
    have "in_int32 (?d ! (i + 1 + k) + src ! (i + 1 + k))" if "k < n" for k
      using Suc.prems(1) [simplified True, simplified, rule_format, of "Suc k"] that by simp
    then show ?thesis by blast
  qed simp
  from Suc.IH [OF this] Suc.prems(2,3) obtain dst' where
    d: "mix_loop T n (i + 1) src ?d = Inr dst'" "length dst' = length dst"
      "\<forall>x < length dst. if i + 1 \<le> x \<and> x < i + 1 + n then mix_sample T (?d ! x) (src ! x) = Inr (dst' ! x) else dst' ! x = ?d ! x"
    by auto
  have "if i \<le> x \<and> x < i + Suc n then mix_sample T (dst ! x) (src ! x) = Inr (dst' ! x) else dst' ! x = dst ! x" if "x < length dst" for x
    using d(3) [rule_format, OF that] v that by (cases "x = i") (auto split: if_splits)
  then show ?case using d(1,2) v Suc.prems(2,3) by auto
qed auto

lemma LpcmUtil_Interleave_spec:
  assumes t: "type_ok t" and n: "0 < frames" "unat frames * unat (bytes_per_frame t) \<le> unat in_byte_count"
    and b: "unat (bytes_per_frame t) dvd unat in_byte_count"
    and src: "length src * unat (ast_sample_size t) = unat in_byte_count"
    and dst: "length dst = unat frames * unat (ast_channels t)"
  defines "stride \<equiv> unat in_byte_count div unat (bytes_per_frame t)" and "ch \<equiv> unat (ast_channels t)"
  shows "LpcmUtil_Interleave t src in_byte_count dst frames =
    Inr (map (\<lambda>x. src ! (x mod ch * stride + x div ch)) [0..<unat frames * ch])"
proof -
  let ?b = "ucast (bytes_per_frame t) :: u64"
  have bn: "unat ?b = unat (bytes_per_frame t)" by (rule unat_ucast_frame)
  have bp: "0 < unat (bytes_per_frame t)" by (rule bytes_per_frame_pos [OF t])
  have lt: "unat frames * unat (bytes_per_frame t) < 2 ^ LENGTH(64)" by (rule le_less_trans [OF n(2) unsigned_less])
  have fr: "unat (frames * ?b) = unat frames * unat (bytes_per_frame t)"
    using lt by (simp add: unat_mult_lem [THEN iffD1] bn)
  have fp: "0 < unat frames" using n(1) by (simp add: unat_gt_0 word_gt_0)
  then have "0 < unat in_byte_count" using n(2) bp by (meson less_le_trans nat_0_less_mult_iff)
  then have pos: "in_byte_count \<noteq> 0" "frames \<noteq> 0" "ast_channels t \<noteq> 0" "bytes_per_frame t \<noteq> 0" "0 < ch"
    using n(1) bp t by (auto simp: type_ok_def word_gt_0 ch_def unat_gt_0)
  have "unat (in_byte_count mod ?b) = 0" using b by (simp add: unat_mod bn)
  then have md: "in_byte_count mod ?b = 0" by (simp only: unat_eq_0)
  have le: "frames * ?b \<le> in_byte_count" using n(2) fr by (simp add: word_le_nat_alt)
  have sd: "unat (in_byte_count div ?b) = stride" by (simp add: unat_div bn stride_def)
  have len: "length src = ch * stride"
  proof -
    have "unat in_byte_count = stride * unat (bytes_per_frame t)" using b by (simp add: stride_def)
    also have "\<dots> = ch * stride * unat (ast_sample_size t)" by (simp add: bytes_per_frame_nat [OF t] ch_def)
    finally show ?thesis using src bp bytes_per_frame_nat [OF t] by (metis mult_0 mult_right_cancel neq0_conv)
  qed
  have st: "unat frames \<le> stride" unfolding stride_def using n(2) bp by (simp add: less_eq_div_iff_mult_less_eq)
  have rd: "m * stride + k * 1 < length src" if "m < ch" "k < unat frames" for m k
  proof -
    have "m * stride + k < (m + 1) * stride" using that(2) st by simp
    also have "\<dots> \<le> ch * stride" using that(1) by (intro mult_right_mono) auto
    finally show ?thesis using len by simp
  qed
  show ?thesis
    using copy_channels_positions [OF pos(5), of dst "unat frames" stride 1 src "\<lambda>x. x"] rd dst pos md le sd
    by (simp add: LpcmUtil_Interleave_def ch_def)
qed

section \<open>LpcmReformatter\<close>

text \<open>
  \<^verbatim>\<open>Clamp(int32_t)\<close> passes \<^verbatim>\<open>1 << 23\<close> as the minimum and \<^verbatim>\<open>-(1 << 23)\<close> as the maximum, as the
  source has it.
\<close>

definition Clamp :: "int \<Rightarrow> int \<Rightarrow> int \<Rightarrow> int" where
  "Clamp val lo hi = (if val > hi then hi else if val < lo then lo else val)"

definition Clamp_int32 :: "int \<Rightarrow> int" where
  "Clamp_int32 val = Clamp val (2 ^ 23) (- (2 ^ 23))"

definition CopySample :: "Sample_type \<Rightarrow> Sample_type \<Rightarrow> int \<Rightarrow> int" where
  "CopySample TOut TIn x = (case (TOut, TIn) of
     (U8, S16) \<Rightarrow> to_type U8 ((x div 2 ^ 8) XOR 0x80)
   | (U8, S32) \<Rightarrow> to_type U8 ((Clamp_int32 x div 2 ^ 16) XOR 0x80)
   | (S16, U8) \<Rightarrow> to_type S16 (to_type S16 (x XOR 0x80) * 2 ^ 8)
   | (S16, S32) \<Rightarrow> to_type S16 (Clamp_int32 x div 2 ^ 8)
   | (S32, U8) \<Rightarrow> to_type S32 (x XOR 0x80) * 2 ^ 16
   | (S32, S16) \<Rightarrow> to_type S32 (x * 2 ^ 8)
   | _ \<Rightarrow> to_type TOut x)"

record LpcmReformatter =
  rf_in_type :: AudioStreamType
  rf_out_type :: AudioStreamType

definition new_LpcmReformatter :: "AudioStreamType \<Rightarrow> AudioStreamTypeSet \<Rightarrow> LpcmReformatter res" where
  "new_LpcmReformatter in_type out_type =
     rbind (AudioStreamType_Clone in_type) (\<lambda>i.
     rbind (new_AudioStreamType (ast_encoding in_type) None
       (if set_sample_format out_type = kAny then ast_sample_format in_type else set_sample_format out_type)
       (ast_channels in_type) (ast_frames_per_second in_type)) (\<lambda>t.
       dcheck (ast_encoding in_type = kAudioEncodingLpcm) (dcheck (ast_encoding_parameters in_type = None)
         (Inr \<lparr>rf_in_type = i, rf_out_type = t\<rparr>))))"

text \<open>The two template arguments that \<^verbatim>\<open>Create\<close> chooses, and the object.\<close>

definition LpcmReformatter_Create ::
  "AudioStreamType \<Rightarrow> AudioStreamTypeSet \<Rightarrow> (Sample_type option \<times> Sample_type option \<times> LpcmReformatter) res" where
  "LpcmReformatter_Create in_type out_type =
     (if ast_sample_format in_type = kAny then Inl Dcheck_failed
      else rbind (new_LpcmReformatter in_type out_type) (\<lambda>r.
        Inr (sample_type_of (ast_sample_format in_type),
             sample_type_of (if set_sample_format out_type = kAny then ast_sample_format in_type else set_sample_format out_type), r)))"

text \<open>The memory that is allocated has no particular content; it is written before it is read.\<close>

definition LpcmReformatter_TransformPacket ::
  "Sample_type \<Rightarrow> Sample_type \<Rightarrow> LpcmReformatter \<Rightarrow> 'w Part_ops \<Rightarrow> Packet \<Rightarrow> nat \<Rightarrow> 'w \<Rightarrow> ((bool \<times> Packet option) \<times> 'w) res" where
  "LpcmReformatter_TransformPacket TIn TOut r ops input a w =
     (if packet_size input = 0 then
        rbind (Packet_Create (pts input) (end_of_stream input) 0 None [] None) (\<lambda>q. Inr ((True, Some q), w))
      else
        rbind (frame_count (rf_in_type r) (of_nat (packet_size input))) (\<lambda>n.
        let out_size = unat (min_buffer_size (rf_out_type r) n);
            ch = unat (ast_channels (rf_in_type r))
        in rbind (AllocatePayloadBuffer ops a out_size w) (\<lambda>(buffer, w1).
          (case buffer of None \<Rightarrow> Inr ((False, None), w1)
           | Some b \<Rightarrow>
               rbind (copy_channels (CopySample TOut TIn) ch (unat n) ch 1 (unat (ast_channels (rf_out_type r))) 0 0
                        (samples_of TIn (length (payload_bytes input) div type_bytes TIn) (payload_bytes input))
                        (replicate (out_size div type_bytes TOut) 0)) (\<lambda>out_samples.
               rbind (Packet_Create (pts input) (end_of_stream input) out_size (Some b) (bytes_of TOut out_samples) (Some a))
                 (\<lambda>q. Inr ((True, Some q), w1)))))))"

section \<open>The conversions\<close>

text \<open>Flipping the top bit of a byte changes between the unsigned and the signed reading of it.\<close>

lemma flip_unsigned: "0 \<le> x \<Longrightarrow> x < 256 \<Longrightarrow> x XOR 128 = (if x < 128 then x + 128 else x - 128 :: int)"
proof -
  assume "0 \<le> x" "x < 256"
  then have "x \<in> set [0..255]" unfolding set_upto atLeastAtMost_iff by simp
  moreover have "list_all (\<lambda>x. x XOR 128 = (if x < 128 then x + 128 else x - 128 :: int)) [0..255]" by code_simp
  ultimately show ?thesis unfolding list_all_iff by blast
qed

lemma flip_signed: "- 128 \<le> x \<Longrightarrow> x < 128 \<Longrightarrow> (x XOR 128) mod 256 = x + 128" for x :: int
proof -
  assume "- 128 \<le> x" "x < 128"
  then have "x \<in> set [-128..127]" unfolding set_upto atLeastAtMost_iff by simp
  moreover have "list_all (\<lambda>x. (x XOR 128) mod 256 = (x + 128 :: int)) [-128..127]" by code_simp
  ultimately show ?thesis unfolding list_all_iff by blast
qed

lemma CopySample_S16_U8:
  assumes "in_sample_range U8 x" shows "CopySample S16 U8 x = (x - 128) * 256"
proof -
  have x: "0 \<le> x" "x < 256" using assms by (simp_all add: in_sample_range_def)
  have "x XOR 128 = (if x < 128 then x + 128 else x - 128)" by (rule flip_unsigned [OF x])
  then show ?thesis using x by (cases "x < 128") (simp_all add: CopySample_def to_type_def to_signed_def)
qed

lemma CopySample_U8_S16:
  assumes "in_sample_range S16 y" shows "CopySample U8 S16 y = y div 256 + 128"
proof -
  have "- 128 \<le> y div 256" "y div 256 < 128" using assms zdiv_mono1 [of "- 32768" y 256] zdiv_mono1 [of y 32767 256]
    by (simp_all add: in_sample_range_def)
  then show ?thesis using flip_signed [of "y div 256"] by (simp add: CopySample_def to_type_def)
qed

lemma CopySample_S32_S16: "in_sample_range S16 y \<Longrightarrow> CopySample S32 S16 y = y * 256"
  by (simp add: CopySample_def to_type_def to_signed_def in_sample_range_def)

lemma CopySample_S32_U8:
  assumes "in_sample_range U8 x"
  shows "CopySample S32 U8 x = (x - 128) * 2 ^ 16 + (if x < 128 then 2 ^ 24 else 0)"
proof -
  have x: "0 \<le> x" "x < 256" using assms by (simp_all add: in_sample_range_def)
  have "x XOR 128 = (if x < 128 then x + 128 else x - 128)" by (rule flip_unsigned [OF x])
  then show ?thesis using x by (cases "x < 128") (simp_all add: CopySample_def to_type_def to_signed_def)
qed

text \<open>The swapped bounds of the clamp leave nothing of a 24-bit sample.\<close>

lemma Clamp_int32_value: "Clamp_int32 x = (if x > - (2 ^ 23) then - (2 ^ 23) else 2 ^ 23)"
  by (simp add: Clamp_int32_def Clamp_def)

lemma CopySample_from_S32: "CopySample S16 S32 x = - 32768" "CopySample U8 S32 x = 0"
proof -
  have "((- 128) XOR 128 :: int) mod 256 = 0" "(128 XOR 128 :: int) mod 256 = 0" by code_simp+
  then show "CopySample S16 S32 x = - 32768" "CopySample U8 S32 x = 0"
    by (simp_all add: CopySample_def Clamp_int32_value to_type_def to_signed_def)
qed

lemma CopySample_type: "in_type_range TIn x \<Longrightarrow> in_type_range TOut (CopySample TOut TIn x)"
proof (cases "TOut = S32 \<and> TIn = U8")
  case True
  assume x: "in_type_range TIn x"
  then have "in_sample_range U8 x" using True by (simp add: in_type_range_def in_sample_range_def)
  then have "CopySample S32 U8 x = (x - 128) * 2 ^ 16 + (if x < 128 then 2 ^ 24 else 0)" by (rule CopySample_S32_U8)
  then show ?thesis using x True by (simp add: in_type_range_def)
next
  case False
  then show ?thesis by (cases TOut; cases TIn) (simp_all add: CopySample_def to_type_range)
qed

text \<open>
  A sample of the input format becomes a sample of the output format, but for the 8-bit samples
  below the zero point that are widened to 24 bits.
\<close>

lemma CopySample_range:
  assumes "in_sample_range TIn x"
  shows "in_sample_range TOut (CopySample TOut TIn x) \<longleftrightarrow> \<not> (TIn = U8 \<and> TOut = S32 \<and> x < 128)"
proof (cases "TOut = S32")
  case True
  then show ?thesis using assms CopySample_S32_U8 [of x] CopySample_S32_S16 [of x]
    by (cases TIn) (simp_all add: in_sample_range_def CopySample_def to_type_def to_signed_def)
next
  case False
  have "in_type_range TOut (CopySample TOut TIn x)" by (rule CopySample_type [OF in_sample_type_range [OF assms]])
  then show ?thesis using False by (cases TOut) (simp_all add: in_sample_range_def in_type_range_def)
qed

lemma samples_in_range: "x \<in> set (samples_of T n bs) \<Longrightarrow> in_type_range T x"
  by (induction n arbitrary: bs) (auto simp: to_type_range)

section \<open>The transform\<close>

lemma type_bytes_size: "sample_type_of f = Some T \<Longrightarrow> SampleSizeFromFormat f = Inr n \<Longrightarrow> unat n = type_bytes T"
  by (cases f) (auto simp: sample_type_of_def SampleSizeFromFormat_def type_bytes_def)

lemma new_LpcmReformatter_types:
  assumes "new_LpcmReformatter it os = Inr r" "type_ok it"
  shows "rf_in_type r = it" "ast_channels (rf_out_type r) = ast_channels it"
    "SampleSizeFromFormat (ast_sample_format (rf_out_type r)) = Inr (ast_sample_size (rf_out_type r))"
    "ast_sample_format (rf_out_type r) = (if set_sample_format os = kAny then ast_sample_format it else set_sample_format os)"
    "ast_encoding (rf_out_type r) = kAudioEncodingLpcm" "ast_frames_per_second (rf_out_type r) = ast_frames_per_second it"
  using assms
  by (auto simp: new_LpcmReformatter_def AudioStreamType_Clone_def new_AudioStreamType_def rbind_eq_Inr_iff type_ok_def)

lemma frame_count_nat:
  assumes t: "type_ok t" and n: "n < 2 ^ 64" "unat (bytes_per_frame t) dvd n"
  shows "\<exists>m. frame_count t (of_nat n) = Inr m \<and> unat m = n div unat (bytes_per_frame t)"
proof -
  let ?b = "ucast (bytes_per_frame t) :: u64"
  have b: "unat ?b = unat (bytes_per_frame t)" by (rule unat_ucast_frame)
  have u: "unat (of_nat n :: u64) = n" using n(1) by (simp add: unsigned_of_nat take_bit_nat_eq_self)
  have "unat ((of_nat n :: u64) mod ?b) = 0" using n(2) by (simp add: unat_mod b u)
  then have "(of_nat n :: u64) mod ?b = 0" by (simp only: unat_eq_0)
  moreover have "bytes_per_frame t \<noteq> 0" using bytes_per_frame_pos [OF t] by auto
  ultimately show ?thesis by (simp add: frame_count_def unat_div b u)
qed

lemma LpcmReformatter_TransformPacket_spec:
  assumes r: "new_LpcmReformatter it os = Inr r" and t: "type_ok it" "type_ok (rf_out_type r)"
    and T: "sample_type_of (ast_sample_format it) = Some TIn" "sample_type_of (ast_sample_format (rf_out_type r)) = Some TOut"
    and p: "packet_size p = n * unat (bytes_per_frame it)" "0 < n" "length (payload_bytes p) = packet_size p"
    and sz: "n * unat (bytes_per_frame it) < 2 ^ 64" "n * unat (bytes_per_frame (rf_out_type r)) < 2 ^ 64"
    and alloc: "AllocatePayloadBuffer ops a (n * unat (bytes_per_frame (rf_out_type r))) w = Inr (Some b, w1)"
  defines "ch \<equiv> unat (ast_channels it)"
  shows "\<exists>q. LpcmReformatter_TransformPacket TIn TOut r ops p a w = Inr ((True, Some q), w1) \<and> packet_ok q \<and>
    pts q = pts p \<and> end_of_stream q = end_of_stream p \<and> packet_size q = n * unat (bytes_per_frame (rf_out_type r)) \<and>
    length (payload_bytes q) = packet_size q \<and>
    samples_of TOut (n * ch) (payload_bytes q) = map (CopySample TOut TIn) (samples_of TIn (n * ch) (payload_bytes p))"
proof -
  note rt = new_LpcmReformatter_types [OF r t(1)]
  let ?ot = "rf_out_type r"
  have bi: "unat (bytes_per_frame it) = type_bytes TIn * ch"
    using bytes_per_frame_nat [OF t(1)] type_bytes_size [OF T(1)] t(1) by (simp add: type_ok_def ch_def)
  have bo: "unat (bytes_per_frame ?ot) = type_bytes TOut * ch"
    using bytes_per_frame_nat [OF t(2)] type_bytes_size [OF T(2) rt(3)] rt(2) by (simp add: ch_def)
  have pos: "0 < type_bytes T" for T by (cases T) (simp_all add: type_bytes_def)
  have ch: "0 < ch" using t(1) by (simp add: ch_def type_ok_def unat_gt_0 word_gt_0)
  obtain m where m: "frame_count it (of_nat (packet_size p)) = Inr m" "unat m = n"
    using frame_count_nat [OF t(1), of "packet_size p"] p(1) sz(1) bytes_per_frame_pos [OF t(1)] by auto
  have out: "unat (min_buffer_size ?ot m) = n * unat (bytes_per_frame ?ot)" using min_buffer_size_nat [of m ?ot] m(2) sz(2) by simp
  have ne: "packet_size p \<noteq> 0" "n * unat (bytes_per_frame ?ot) \<noteq> 0" using p(1,2) bi bo ch pos by simp_all
  let ?src = "samples_of TIn (n * ch) (payload_bytes p)"
  let ?res = "map (CopySample TOut TIn) ?src"
  have ls: "length (payload_bytes p) div type_bytes TIn = n * ch" using p(1,3) bi pos [of TIn] by (simp add: mult.left_commute)
  have ld: "n * unat (bytes_per_frame ?ot) div type_bytes TOut = n * ch" using bo pos [of TOut] by (simp add: mult.left_commute)
  have rd: "i * 1 + k * ch < n * ch" if "i < ch" "k < n" for i k
  proof -
    have "i + k * ch < Suc k * ch" using that(1) by simp
    also have "\<dots> \<le> n * ch" using that(2) by (intro mult_right_mono) auto
    finally show ?thesis by simp
  qed
  have "copy_channels (CopySample TOut TIn) ch n ch 1 ch 0 0 ?src (replicate (n * ch) 0) =
    Inr (map (\<lambda>x. CopySample TOut TIn (?src ! (x mod ch * 1 + x div ch * ch))) [0..<n * ch])"
    by (rule copy_channels_positions [OF ch]) (use rd in auto)
  also have "map (\<lambda>x. CopySample TOut TIn (?src ! (x mod ch * 1 + x div ch * ch))) [0..<n * ch] = ?res"
    by (rule nth_equalityI) (simp_all add: mod_div_mult_eq)
  finally have copy: "copy_channels (CopySample TOut TIn) ch n ch 1 ch 0 0 ?src (replicate (n * ch) 0) = Inr ?res" .
  let ?q = "\<lparr>pts = pts p, end_of_stream = end_of_stream p, packet_size = n * unat (bytes_per_frame ?ot), payload = Some b,
    payload_bytes = bytes_of TOut ?res, packet_allocator = Some a\<rparr>"
  have "LpcmReformatter_TransformPacket TIn TOut r ops p a w = Inr ((True, Some ?q), w1)"
    using ne m out alloc copy rt(1,2)
    by (simp add: LpcmReformatter_TransformPacket_def Let_def ls ld Packet_Create_def new_Packet_def flip: ch_def)
  moreover have "length (bytes_of TOut ?res) = n * unat (bytes_per_frame ?ot)" using bo by (simp add: length_bytes_of)
  moreover have "samples_of TOut (length ?res) (bytes_of TOut ?res) = ?res"
    by (rule samples_of_bytes_of) (auto dest: samples_in_range intro: CopySample_type)
  then have "samples_of TOut (n * ch) (bytes_of TOut ?res) = ?res" by simp
  ultimately show ?thesis using ne by (intro exI [of _ ?q]) (simp add: packet_ok_def)
qed


text \<open>The other two ways out: an empty packet is passed on, and without memory nothing happens.\<close>

lemma LpcmReformatter_TransformPacket_empty:
  "packet_size p = 0 \<Longrightarrow> LpcmReformatter_TransformPacket TIn TOut r ops p a w =
     Inr ((True, Some \<lparr>pts = pts p, end_of_stream = end_of_stream p, packet_size = 0, payload = None, payload_bytes = [],
        packet_allocator = None\<rparr>), w)"
  by (simp add: LpcmReformatter_TransformPacket_def Packet_Create_def new_Packet_def)

lemma LpcmReformatter_TransformPacket_starved:
  "packet_size p \<noteq> 0 \<Longrightarrow> frame_count (rf_in_type r) (of_nat (packet_size p)) = Inr n \<Longrightarrow>
     AllocatePayloadBuffer ops a (unat (min_buffer_size (rf_out_type r) n)) w = Inr (None, w1) \<Longrightarrow>
     LpcmReformatter_TransformPacket TIn TOut r ops p a w = Inr ((False, None), w1)"
  by (simp add: LpcmReformatter_TransformPacket_def Let_def)

end
