(* ===== verification/Conversion.thy ===== *)
theory Conversion
  imports Lpcm Framework_Stages
begin

text \<open>
  Building a conversion pipeline (services/media/framework/util/conversion_pipeline_builder.cc):
  decoders and reformatters are added to a graph and connected to an output until the
  stream has a type that one of the given sets accepts.

  \<open>decoder\<close> stands for the ffmpeg library, which is not in the repository: the context it has
  for an audio stream type after the decoder has been found and opened, or \<open>None\<close> when that
  fails. What \<^verbatim>\<open>Decoder::Create\<close> and the decoder make of such a context
  (services/media/framework_ffmpeg) is modelled. A part that is added has the number of its stage.
\<close>

section \<open>Decoders\<close>

text \<open>The sample formats of ffmpeg; those that end in P keep the channels apart.\<close>

datatype AVSampleFormat =
    AV_SAMPLE_FMT_NONE | AV_SAMPLE_FMT_U8 | AV_SAMPLE_FMT_S16 | AV_SAMPLE_FMT_S32 | AV_SAMPLE_FMT_FLT | AV_SAMPLE_FMT_DBL
  | AV_SAMPLE_FMT_U8P | AV_SAMPLE_FMT_S16P | AV_SAMPLE_FMT_S32P | AV_SAMPLE_FMT_FLTP | AV_SAMPLE_FMT_DBLP

definition is_planar :: "AVSampleFormat \<Rightarrow> bool" where
  "is_planar f \<longleftrightarrow> f \<in> {AV_SAMPLE_FMT_U8P, AV_SAMPLE_FMT_S16P, AV_SAMPLE_FMT_S32P, AV_SAMPLE_FMT_FLTP, AV_SAMPLE_FMT_DBLP}"

record AVCodecContext =
  av_sample_fmt :: AVSampleFormat
  av_channels :: int
  av_sample_rate :: int

text \<open>An \<^verbatim>\<open>abort\<close> ends the program like a failed check.\<close>

definition Convert_format :: "AVSampleFormat \<Rightarrow> SampleFormat res" where
  "Convert_format f =
     (case f of
        AV_SAMPLE_FMT_U8 \<Rightarrow> Inr kUnsigned8 | AV_SAMPLE_FMT_U8P \<Rightarrow> Inr kUnsigned8
      | AV_SAMPLE_FMT_S16 \<Rightarrow> Inr kSigned16 | AV_SAMPLE_FMT_S16P \<Rightarrow> Inr kSigned16
      | AV_SAMPLE_FMT_S32 \<Rightarrow> Inr kSigned24In32 | AV_SAMPLE_FMT_S32P \<Rightarrow> Inr kSigned24In32
      | AV_SAMPLE_FMT_FLT \<Rightarrow> Inr kFloat | AV_SAMPLE_FMT_FLTP \<Rightarrow> Inr kFloat
      | _ \<Rightarrow> Inl Dcheck_failed)"

definition StreamTypeFromLpcmCodecContext :: "AVCodecContext \<Rightarrow> AudioStreamType res" where
  "StreamTypeFromLpcmCodecContext from_ctx =
     rbind (Convert_format (av_sample_fmt from_ctx)) (\<lambda>f.
       new_AudioStreamType kAudioEncodingLpcm None f (word_of_int (av_channels from_ctx)) (word_of_int (av_sample_rate from_ctx)))"

text \<open>
  An open context has a codec, so \<^verbatim>\<open>GetStreamType\<close> gives an LPCM type whatever the codec is. The
  constructor of the audio decoder asks for it already when it has to interleave channels.
\<close>

definition FfmpegAudioDecoder :: "AVCodecContext \<Rightarrow> Sample_type option res" where
  "FfmpegAudioDecoder ctx =
     dcheck (av_channels ctx > 0)
      (if is_planar (av_sample_fmt ctx) then rbind (StreamTypeFromLpcmCodecContext ctx) LpcmUtil_Create else Inr None)"

definition Decoder_Create :: "(AudioStreamType \<Rightarrow> AVCodecContext option) \<Rightarrow> AudioStreamType \<Rightarrow> AVCodecContext option res" where
  "Decoder_Create decoder in_type =
     (case decoder in_type of None \<Rightarrow> Inr None | Some ctx \<Rightarrow> rbind (FfmpegAudioDecoder ctx) (\<lambda>_. Inr (Some ctx)))"

definition output_stream_type :: "AVCodecContext \<Rightarrow> StreamType res" where
  "output_stream_type ctx = rbind (StreamTypeFromLpcmCodecContext ctx) (\<lambda>t. Inr (AudioStream t))"

lemma output_stream_type_Lpcm:
  assumes "output_stream_type ctx = Inr t"
  obtains d where "t = AudioStream d" "ast_encoding d = kAudioEncodingLpcm" "ast_encoding_parameters d = None"
  using assms by (auto simp: output_stream_type_def StreamTypeFromLpcmCodecContext_def new_AudioStreamType_def rbind_eq_Inr_iff)

section \<open>Choosing a type set\<close>

datatype AddResult = kFailed | kProgressed | kFinished

definition Score :: "AudioStreamType \<Rightarrow> AudioStreamTypeSet \<Rightarrow> int" where
  "Score in_type out_type_set =
     (let score = 1 +
        (if ast_sample_format in_type = set_sample_format out_type_set \<or> set_sample_format out_type_set = kAny then 10
         else (case set_sample_format out_type_set of
                 kUnsigned8 \<Rightarrow> 0 | kSigned16 \<Rightarrow> 1 | kSigned24In32 \<Rightarrow> 2 | kFloat \<Rightarrow> 3 | kAny \<Rightarrow> 0))
      in if Range_contains (set_channels out_type_set) (ast_channels in_type) then
           (if Range_contains (set_frames_per_second out_type_set) (ast_frames_per_second in_type) then score + 10 + 50 else 0)
         else 0)"

fun FindBestLpcm_from :: "AudioStreamType \<Rightarrow> StreamTypeSet list \<Rightarrow> AudioStreamTypeSet option \<Rightarrow> int \<Rightarrow> AudioStreamTypeSet option res" where
  "FindBestLpcm_from in_type [] best best_score = Inr best"
| "FindBestLpcm_from in_type (s # ss) best best_score =
     (if set_medium s = kAudio \<and> IncludesEncoding s kAudioEncodingLpcm then
        (case StreamTypeSet_audio s of None \<Rightarrow> Inl Null_deref
         | Some a \<Rightarrow>
             if best_score < Score in_type a then FindBestLpcm_from in_type ss (Some a) (Score in_type a)
             else FindBestLpcm_from in_type ss best best_score)
      else FindBestLpcm_from in_type ss best best_score)"

definition FindBestLpcm :: "AudioStreamType \<Rightarrow> StreamTypeSet list \<Rightarrow> AudioStreamTypeSet option res" where
  "FindBestLpcm in_type out_type_sets = FindBestLpcm_from in_type out_type_sets None 0"

section \<open>Adding transforms\<close>

text \<open>An address that no stage of the graph has.\<close>

definition new_address :: "'w Graph \<Rightarrow> nat" where
  "new_address g = Suc (fold max (stages g) 0)"

definition add_transform :: "ref \<Rightarrow> 'w Graph \<Rightarrow> (ref \<times> 'w Graph) res" where
  "add_transform output g =
     (let s = new_address g
      in rbind (ConnectOutputToPart output s (Graph_Add s (new_TransformStage s) g)) (\<lambda>(part, g1).
           rbind (PartRef_output part g1) (\<lambda>out. Inr (out, g1))))"

fun matching_audio :: "AudioStreamType \<Rightarrow> StreamTypeSet list \<Rightarrow> bool res" where
  "matching_audio in_type [] = Inr False"
| "matching_audio in_type (s # ss) =
     (if set_medium s = kAudio then
        (case StreamTypeSet_audio s of None \<Rightarrow> Inl Null_deref
         | Some a \<Rightarrow> if AudioStreamTypeSet_contains a in_type then Inr True else matching_audio in_type ss)
      else matching_audio in_type ss)"

type_synonym 'w added = "AddResult \<times> StreamType option \<times> ref \<times> 'w Graph"

definition AddTransformsForCompressedAudio ::
  "(AudioStreamType \<Rightarrow> AVCodecContext option) \<Rightarrow> AudioStreamType \<Rightarrow> StreamTypeSet list \<Rightarrow> ref \<Rightarrow> 'w Graph \<Rightarrow> ('w added) res" where
  "AddTransformsForCompressedAudio decoder in_type out_type_sets output g =
     rbind (matching_audio in_type out_type_sets) (\<lambda>found.
       if found then rbind (AudioStreamType_Clone in_type) (\<lambda>t. Inr (kFinished, Some (AudioStream t), output, g))
       else rbind (FindBestLpcm in_type out_type_sets) (\<lambda>best.
         if best = None then Inr (kFailed, None, output, g)
         else rbind (Decoder_Create decoder in_type) (\<lambda>created.
           (case created of None \<Rightarrow> Inr (kFailed, None, output, g)
            | Some ctx \<Rightarrow>
                rbind (add_transform output g) (\<lambda>(out, g1).
                rbind (output_stream_type ctx) (\<lambda>t. Inr (kProgressed, Some t, out, g1)))))))"

definition AddTransformsForLpcm_to ::
  "AudioStreamType \<Rightarrow> AudioStreamTypeSet \<Rightarrow> ref \<Rightarrow> 'w Graph \<Rightarrow> ('w added) res" where
  "AddTransformsForLpcm_to in_type s output g =
     rbind
      (if ast_sample_format in_type \<noteq> set_sample_format s \<and> set_sample_format s \<noteq> kAny then
         rbind (LpcmReformatter_Create in_type s) (\<lambda>_. add_transform output g)
       else Inr (output, g))
      (\<lambda>(out, g1).
        dcheck (Range_contains (set_channels s) (ast_channels in_type))
         (dcheck (Range_contains (set_frames_per_second s) (ast_frames_per_second in_type))
           (rbind (new_AudioStreamType kAudioEncodingLpcm None
                     (if set_sample_format s = kAny then ast_sample_format in_type else set_sample_format s)
                     (ast_channels in_type) (ast_frames_per_second in_type))
             (\<lambda>t. Inr (kFinished, Some (AudioStream t), out, g1)))))"

definition AddTransformsForLpcm ::
  "AudioStreamType \<Rightarrow> StreamTypeSet list \<Rightarrow> ref \<Rightarrow> 'w Graph \<Rightarrow> ('w added) res" where
  "AddTransformsForLpcm in_type out_type_sets output g =
     rbind (FindBestLpcm in_type out_type_sets) (\<lambda>best.
       (case best of None \<Rightarrow> Inl Dcheck_failed | Some s \<Rightarrow> AddTransformsForLpcm_to in_type s output g))"

definition AddTransforms ::
  "(AudioStreamType \<Rightarrow> AVCodecContext option) \<Rightarrow> StreamType \<Rightarrow> StreamTypeSet list \<Rightarrow> ref \<Rightarrow> 'w Graph \<Rightarrow> ('w added) res" where
  "AddTransforms decoder in_type out_type_sets output g =
     (if medium in_type = kAudio then
        (case StreamType_audio in_type of None \<Rightarrow> Inl Null_deref
         | Some a \<Rightarrow>
             if encoding in_type = kAudioEncodingLpcm then AddTransformsForLpcm a out_type_sets output g
             else AddTransformsForCompressedAudio decoder a out_type_sets output g)
      else Inl Dcheck_failed)"

text \<open>
  The loop of \<^verbatim>\<open>BuildConversionPipeline\<close>: the type to convert, the output reached so far and the
  graph change from round to round; \<open>output0\<close> is the output that was passed in.
\<close>

partial_function (option) conversion_loop ::
  "'w Part_ops \<Rightarrow> (AudioStreamType \<Rightarrow> AVCodecContext option) \<Rightarrow> StreamTypeSet list \<Rightarrow> ref \<Rightarrow> StreamType \<Rightarrow> ref \<Rightarrow> 'w Graph \<Rightarrow>
     ((bool \<times> StreamType option \<times> ref \<times> 'w Graph) res) option" where
  "conversion_loop ops decoder out_type_sets output0 in_type out g =
     (case AddTransforms decoder in_type out_type_sets out g of Inl e \<Rightarrow> Some (Inl e)
      | Inr (r, t, out1, g1) \<Rightarrow>
          (case r of
             kFailed \<Rightarrow> Some (rbind (RemovePartsConnectedToOutput ops output0 g1) (\<lambda>g2. Inr (False, None, output0, g2)))
           | kFinished \<Rightarrow> Some (Inr (True, t, out1, g1))
           | kProgressed \<Rightarrow>
               (case t of None \<Rightarrow> Some (Inl Null_deref)
                | Some t1 \<Rightarrow> conversion_loop ops decoder out_type_sets output0 t1 out1 g1)))"

definition BuildConversionPipeline ::
  "'w Part_ops \<Rightarrow> (AudioStreamType \<Rightarrow> AVCodecContext option) \<Rightarrow> StreamType \<Rightarrow> StreamTypeSet list \<Rightarrow> ref \<Rightarrow> 'w Graph \<Rightarrow>
     (bool \<times> StreamType option \<times> ref \<times> 'w Graph) res" where
  "BuildConversionPipeline ops decoder in_type out_type_sets output g =
     rbind (of_loop (conversion_loop ops decoder out_type_sets output in_type output g)) (\<lambda>r. r)"

section \<open>The best type set\<close>

text \<open>A type can be converted to a set when its channels and its frame rate are in the ranges.\<close>

definition convertible :: "AudioStreamType \<Rightarrow> AudioStreamTypeSet \<Rightarrow> bool" where
  "convertible t s \<longleftrightarrow> Range_contains (set_channels s) (ast_channels t) \<and> Range_contains (set_frames_per_second s) (ast_frames_per_second t)"

lemma Score_bounds: "if convertible t s then 61 \<le> Score t s \<and> Score t s \<le> 71 else Score t s = 0"
  by (auto simp: Score_def convertible_def Let_def split: SampleFormat.splits)

lemma Score_format:
  "convertible t s \<Longrightarrow> Score t s = 71 \<longleftrightarrow> set_sample_format s = ast_sample_format t \<or> set_sample_format s = kAny"
  by (auto simp: Score_def convertible_def Let_def split: SampleFormat.splits)

text \<open>The sets the choice is made among: the audio sets that include LPCM.\<close>

definition candidates :: "StreamTypeSet list \<Rightarrow> AudioStreamTypeSet list" where
  "candidates ss = List.map_filter StreamTypeSet_audio (filter (\<lambda>s. IncludesEncoding s kAudioEncodingLpcm) ss)"

definition sets_ok :: "StreamTypeSet list \<Rightarrow> bool" where
  "sets_ok ss \<longleftrightarrow> (\<forall>es. PlainSet kAudio es \<notin> set ss)"

lemma candidates_Cons:
  "candidates (AudioSet a # ss) = (if IncludesEncoding (AudioSet a) kAudioEncodingLpcm then a # candidates ss else candidates ss)"
  "candidates (PlainSet m es # ss) = candidates ss"
  by (simp_all add: candidates_def map_filter_def StreamTypeSet_audio_def)

text \<open>What the loop does on the candidates alone.\<close>

fun pick :: "AudioStreamType \<Rightarrow> AudioStreamTypeSet list \<Rightarrow> AudioStreamTypeSet option \<Rightarrow> int \<Rightarrow> AudioStreamTypeSet option" where
  "pick t [] best b = best"
| "pick t (a # as) best b = (if b < Score t a then pick t as (Some a) (Score t a) else pick t as best b)"

lemma FindBestLpcm_from_pick: "sets_ok ss \<Longrightarrow> FindBestLpcm_from t ss best b = Inr (pick t (candidates ss) best b)"
proof (induction ss arbitrary: best b)
  case (Cons s ss)
  then have ok: "sets_ok ss" by (simp add: sets_ok_def)
  show ?case
  proof (cases s)
    case (PlainSet m es)
    then have "m \<noteq> kAudio" using Cons.prems by (auto simp: sets_ok_def)
    then show ?thesis using Cons.IH [OF ok] PlainSet by (simp add: set_medium_def candidates_Cons)
  next
    case (AudioSet a)
    then show ?thesis using Cons.IH [OF ok] by (simp add: set_medium_def StreamTypeSet_audio_def candidates_Cons)
  qed
qed (simp add: candidates_def map_filter_def)

text \<open>The first of those with the highest score is kept, if that is higher than what there was.\<close>

definition first_best :: "AudioStreamType \<Rightarrow> AudioStreamTypeSet list \<Rightarrow> int \<Rightarrow> AudioStreamTypeSet \<Rightarrow> bool" where
  "first_best t cs b a \<longleftrightarrow> b < Score t a \<and> (\<exists>pre post. cs = pre @ a # post \<and>
     (\<forall>x \<in> set pre. Score t x < Score t a) \<and> (\<forall>x \<in> set post. Score t x \<le> Score t a))"

lemma first_best_Cons:
  "first_best t cs b' a \<Longrightarrow> Score t x < Score t a \<Longrightarrow> b < Score t a \<Longrightarrow> first_best t (x # cs) b a"
  unfolding first_best_def by (metis append_Cons set_ConsD)

lemma first_best_bound: "first_best t cs b a \<Longrightarrow> b < Score t a"
  by (simp add: first_best_def)

lemma first_best_here: "b < Score t a \<Longrightarrow> \<forall>x \<in> set cs. Score t x \<le> Score t a \<Longrightarrow> first_best t (a # cs) b a"
  unfolding first_best_def by (intro conjI exI [of _ "[]"] exI [of _ cs]) auto

lemma pick_spec:
  "(pick t cs best b = best \<and> (\<forall>a \<in> set cs. Score t a \<le> b)) \<or> (\<exists>a. pick t cs best b = Some a \<and> first_best t cs b a)"
proof (induction cs arbitrary: best b)
  case (Cons x cs)
  show ?case
  proof (cases "b < Score t x")
    case True
    from Cons.IH [of "Some x" "Score t x"] show ?thesis
    proof
      assume "pick t cs (Some x) (Score t x) = Some x \<and> (\<forall>a \<in> set cs. Score t a \<le> Score t x)"
      then show ?thesis using True first_best_here by simp
    next
      assume "\<exists>a. pick t cs (Some x) (Score t x) = Some a \<and> first_best t cs (Score t x) a"
      then obtain a where a: "pick t cs (Some x) (Score t x) = Some a" "first_best t cs (Score t x) a" by blast
      have "first_best t (x # cs) b a" using first_best_Cons [OF a(2)] first_best_bound [OF a(2)] True by simp
      then show ?thesis using a(1) True by simp
    qed
  next
    case False
    from Cons.IH [of best b] show ?thesis
    proof
      assume "pick t cs best b = best \<and> (\<forall>a \<in> set cs. Score t a \<le> b)"
      then show ?thesis using False by simp
    next
      assume "\<exists>a. pick t cs best b = Some a \<and> first_best t cs b a"
      then obtain a where a: "pick t cs best b = Some a" "first_best t cs b a" by blast
      have "first_best t (x # cs) b a" using first_best_Cons [OF a(2)] first_best_bound [OF a(2)] False by simp
      then show ?thesis using a(1) False by simp
    qed
  qed
qed simp

lemma FindBestLpcm_spec:
  assumes "sets_ok ss"
  shows "FindBestLpcm t ss = Inr None \<and> (\<forall>a \<in> set (candidates ss). \<not> convertible t a) \<or>
    (\<exists>a. FindBestLpcm t ss = Inr (Some a) \<and> convertible t a \<and> first_best t (candidates ss) 0 a)"
proof -
  have s: "0 < Score t a \<longleftrightarrow> convertible t a" for a using Score_bounds [of t a] by (auto split: if_splits)
  have f: "FindBestLpcm t ss = Inr (pick t (candidates ss) None 0)" unfolding FindBestLpcm_def by (rule FindBestLpcm_from_pick [OF assms])
  show ?thesis using pick_spec [of t "candidates ss" None 0] 
  proof
    assume "pick t (candidates ss) None 0 = None \<and> (\<forall>a \<in> set (candidates ss). Score t a \<le> 0)"
    then show ?thesis using s f by (auto simp: not_less [symmetric])
  next
    assume "\<exists>a. pick t (candidates ss) None 0 = Some a \<and> first_best t (candidates ss) 0 a"
    then obtain a where a: "pick t (candidates ss) None 0 = Some a" "first_best t (candidates ss) 0 a" by blast
    have "convertible t a" using s first_best_bound [OF a(2)] by blast
    then show ?thesis using f a by auto
  qed
qed


section \<open>What is built\<close>

lemma fold_max: "s \<in> set xs \<Longrightarrow> s \<le> fold max xs m" "m \<le> fold max xs (m :: nat)"
  by (induction xs arbitrary: m) (auto intro: order_trans [OF max.cobounded2] order_trans [OF max.cobounded1])

lemma new_address_fresh: "graph_inv g \<Longrightarrow> \<not> live g (new_address g)"
proof
  assume inv: "graph_inv g" and lv: "live g (new_address g)"
  then have "new_address g \<in> set (stages g)" by (simp add: graph_inv_def lists_ok_def)
  then show False using fold_max(1) [of "new_address g" "stages g" 0] by (simp add: new_address_def)
qed

lemma fresh_TransformStage: "fresh_stage (new_TransformStage s)"
  by (simp add: fresh_stage_def new_TransformStage_def new_Stage_def)

text \<open>A transform is added behind an output that is not connected.\<close>

definition appended :: "ref \<Rightarrow> ref \<Rightarrow> 'w Graph \<Rightarrow> 'w Graph \<Rightarrow> bool" where
  "appended r r' g g' \<longleftrightarrow> \<not> live g (fst r') \<and> snd r' = 0 \<and> live g' = (live g)(fst r' := True) \<and>
     omate g' = (omate g)(r \<mapsto> (fst r', 0)) \<and> omate g r' = None \<and>
     counts_of g' (fst r') = Some (1, 1) \<and> (\<exists>y. output_at r' g' = Inr y)"

lemma add_transform_spec:
  assumes inv: "graph_inv g" and y: "output_at r g = Inr y" "out_mate y = None"
  shows "\<exists>r' g'. add_transform r g = Inr (r', g') \<and> graph_inv g' \<and> appended r r' g g'"
proof -
  let ?s = "new_address g" and ?g = "Graph_Add (new_address g) (new_TransformStage (new_address g)) g"
  have nl: "\<not> live g ?s" by (rule new_address_fresh [OF inv])
  have ga: "graph_inv ?g" "live ?g = (live g)(?s := True)" "imate ?g = imate g" "omate ?g = omate g"
    using Graph_Add_inv [OF inv nl fresh_TransformStage] by blast+
  have rs: "fst r \<noteq> ?s" using output_at_live [OF y(1)] nl by auto
  have yr: "output_at r ?g = Inr y" using y(1) rs by (simp add: Graph_Add_def output_at_def stage_at_def)
  obtain x where x: "input_at (?s, 0) ?g = Inr x"
    by (simp add: Graph_Add_def input_at_def stage_at_def new_TransformStage_def new_Stage_def)
  have "imate g (?s, 0) = None" using imate_live [of g "(?s, 0)"] nl by (cases "imate g (?s, 0)") auto
  then have none: "omate ?g r = None" "imate ?g (?s, 0) = None" using y yr ga(3) by (simp_all add: omate_def)
  then obtain g' where c: "Graph_Connect r (?s, 0) ?g = Inr (?s, g')" using Graph_Connect_total [OF ga(1) yr x] by auto
  note gc = Graph_Connect_inv [OF ga(1) c]
  have cnt: "counts_of ?g ?s = Some (1, 1)" by (simp add: counts_of_def Graph_Add_def new_TransformStage_def new_Stage_def)
  obtain st where st: "stage_at ?s g' = Inr st" using gc ga(2) live_iff_stage_at by (metis fun_upd_same)
  have len: "length (stg_outputs st) = 1" using stage_at_counts [OF st] gc cnt by simp
  have "PartRef_input ?s ?g = Inr (?s, 0)"
    by (simp add: PartRef_input_def Graph_Add_def stage_at_def new_TransformStage_def new_Stage_def)
  then have a: "add_transform r g = Inr ((?s, 0), g')"
    using yr c st len by (simp add: add_transform_def Let_def ConnectOutputToPart_def PartRef_output_def)
  have "omate g (?s, 0) = None" using omate_live [of g "(?s, 0)"] nl by (cases "omate g (?s, 0)") auto
  moreover have "connected_mates r (?s, 0) (omate g) = (omate g)(r \<mapsto> (?s, 0))"
  proof -
    have "omate g r' \<noteq> Some (?s, 0)" for r'
      using links_iff [of g r' "(?s, 0)"] inv none(2) ga(3) by (auto simp: graph_inv_def)
    then show ?thesis by (auto simp: connected_mates_def fun_eq_iff)
  qed
  moreover have "\<exists>y. output_at (?s, 0) g' = Inr y" using st len by (auto simp: output_at_def)
  ultimately show ?thesis using a gc ga nl cnt by (intro exI [of _ "(?s, 0)"] exI [of _ g']) (simp add: appended_def)
qed


lemma AddTransformsForLpcm_to_spec:
  assumes inv: "graph_inv g" and y: "output_at r g = Inr y" "out_mate y = None"
    and t: "type_ok a" "ast_encoding a = kAudioEncodingLpcm" "ast_encoding_parameters a = None" and c: "convertible a s"
  shows "\<exists>t' r' g'. AddTransformsForLpcm_to a s r g = Inr (kFinished, Some (AudioStream t'), r', g') \<and> graph_inv g' \<and>
    ast_encoding t' = kAudioEncodingLpcm \<and> ast_encoding_parameters t' = None \<and>
    ast_sample_format t' = (if set_sample_format s = kAny then ast_sample_format a else set_sample_format s) \<and>
    ast_channels t' = ast_channels a \<and> ast_frames_per_second t' = ast_frames_per_second a \<and>
    (if ast_sample_format t' = ast_sample_format a then r' = r \<and> g' = g else appended r r' g g')"
proof -
  let ?f = "if set_sample_format s = kAny then ast_sample_format a else set_sample_format s"
  have fa: "ast_sample_format a \<noteq> kAny" using t(1) by (auto simp: type_ok_def SampleSizeFromFormat_def)
  then have "?f \<noteq> kAny" by simp
  then obtain n where n: "SampleSizeFromFormat ?f = Inr n" by (cases ?f) (auto simp: SampleSizeFromFormat_def)
  then obtain t' where t': "new_AudioStreamType kAudioEncodingLpcm None ?f (ast_channels a) (ast_frames_per_second a) = Inr t'"
    "ast_encoding t' = kAudioEncodingLpcm" "ast_encoding_parameters t' = None" "ast_sample_format t' = ?f"
    "ast_channels t' = ast_channels a" "ast_frames_per_second t' = ast_frames_per_second a"
    by (simp add: new_AudioStreamType_def)
  have rng: "Range_contains (set_channels s) (ast_channels a)" "Range_contains (set_frames_per_second s) (ast_frames_per_second a)"
    using c by (simp_all add: convertible_def)
  show ?thesis
  proof (cases "ast_sample_format a \<noteq> set_sample_format s \<and> set_sample_format s \<noteq> kAny")
    case True
    obtain rf where rf: "LpcmReformatter_Create a s = Inr rf"
      using t n True fa by (auto simp: LpcmReformatter_Create_def new_LpcmReformatter_def AudioStreamType_Clone_def new_AudioStreamType_def type_ok_def)
    obtain r' g' where ap: "add_transform r g = Inr (r', g')" "graph_inv g'" "appended r r' g g'"
      using add_transform_spec [OF inv y] by blast
    have "AddTransformsForLpcm_to a s r g = Inr (kFinished, Some (AudioStream t'), r', g')"
      unfolding AddTransformsForLpcm_to_def if_P [OF True] using rf ap(1) rng t'(1) by simp
    then show ?thesis using ap t' True by (intro exI [of _ t'] exI [of _ r'] exI [of _ g']) auto
  next
    case False
    have "AddTransformsForLpcm_to a s r g = Inr (kFinished, Some (AudioStream t'), r, g)"
      unfolding AddTransformsForLpcm_to_def if_not_P [OF False] using rng t'(1) by simp
    then show ?thesis using inv t' False by (intro exI [of _ t'] exI [of _ r] exI [of _ g]) auto
  qed
qed

text \<open>An LPCM stream: one round, with a reformatter exactly when the format has to change.\<close>

lemma AddTransforms_Lpcm:
  assumes inv: "graph_inv g" and y: "output_at r g = Inr y" "out_mate y = None"
    and t: "type_ok a" "ast_encoding a = kAudioEncodingLpcm" "ast_encoding_parameters a = None"
    and best: "FindBestLpcm a ss = Inr (Some s)" "convertible a s"
  shows "\<exists>t' r' g'. AddTransforms decoder (AudioStream a) ss r g = Inr (kFinished, Some (AudioStream t'), r', g') \<and>
    graph_inv g' \<and> ast_encoding t' = kAudioEncodingLpcm \<and>
    ast_sample_format t' = (if set_sample_format s = kAny then ast_sample_format a else set_sample_format s) \<and>
    ast_channels t' = ast_channels a \<and> ast_frames_per_second t' = ast_frames_per_second a \<and>
    (if ast_sample_format t' = ast_sample_format a then r' = r \<and> g' = g else appended r r' g g')"
proof -
  have "AddTransforms decoder (AudioStream a) ss r g = AddTransformsForLpcm_to a s r g"
    using best(1) t(2) by (simp add: AddTransforms_def medium_def encoding_def StreamType_audio_def AddTransformsForLpcm_def)
  then show ?thesis using AddTransformsForLpcm_to_spec [OF inv y t best(2)] by metis
qed

lemma BuildConversionPipeline_Lpcm:
  assumes inv: "graph_inv g" and y: "output_at r g = Inr y" "out_mate y = None"
    and t: "type_ok a" "ast_encoding a = kAudioEncodingLpcm" "ast_encoding_parameters a = None"
    and best: "FindBestLpcm a ss = Inr (Some s)" "convertible a s"
  shows "\<exists>t' r' g'. BuildConversionPipeline ops decoder (AudioStream a) ss r g = Inr (True, Some (AudioStream t'), r', g') \<and>
    graph_inv g' \<and> ast_encoding t' = kAudioEncodingLpcm \<and>
    ast_sample_format t' = (if set_sample_format s = kAny then ast_sample_format a else set_sample_format s) \<and>
    ast_channels t' = ast_channels a \<and> ast_frames_per_second t' = ast_frames_per_second a \<and>
    (if ast_sample_format t' = ast_sample_format a then r' = r \<and> g' = g else appended r r' g g')"
proof -
  obtain t' r' g' where r: "AddTransforms decoder (AudioStream a) ss r g = Inr (kFinished, Some (AudioStream t'), r', g')"
    "graph_inv g'" "ast_encoding t' = kAudioEncodingLpcm"
    "ast_sample_format t' = (if set_sample_format s = kAny then ast_sample_format a else set_sample_format s)"
    "ast_channels t' = ast_channels a" "ast_frames_per_second t' = ast_frames_per_second a"
    "if ast_sample_format t' = ast_sample_format a then r' = r \<and> g' = g else appended r r' g g'"
    using AddTransforms_Lpcm [OF inv y t best, of decoder] by blast
  then have "BuildConversionPipeline ops decoder (AudioStream a) ss r g = Inr (True, Some (AudioStream t'), r', g')"
    by (simp add: BuildConversionPipeline_def conversion_loop.simps)
  then show ?thesis using r(2-7) by blast
qed

text \<open>A compressed stream that cannot be decoded: the graph is as it was.\<close>

lemma BuildConversionPipeline_no_decoder:
  assumes y: "output_at r g = Inr y" "out_mate y = None" and e: "ast_encoding a \<noteq> kAudioEncodingLpcm"
    and ss: "matching_audio a ss = Inr False" "FindBestLpcm a ss = Inr b" "b = None \<or> decoder a = None"
  shows "BuildConversionPipeline ops decoder (AudioStream a) ss r g = Inr (False, None, r, g)"
proof -
  have "AddTransforms decoder (AudioStream a) ss r g = Inr (kFailed, None, r, g)"
    using e ss by (auto simp: AddTransforms_def medium_def encoding_def StreamType_audio_def AddTransformsForCompressedAudio_def
        Decoder_Create_def)
  then show ?thesis using y by (simp add: BuildConversionPipeline_def conversion_loop.simps RemovePartsConnectedToOutput_def)
qed

lemma prepared_put:
  "is_prepared (put_input q (\<lambda>x. x\<lparr>in_mate := m\<rparr>) g) = is_prepared g" "is_prepared (put_output r h g) = is_prepared g"
  by (auto simp: is_prepared_def store_simps fun_eq_iff sum.map_comp comp_def)

lemma Disconnect_prepared:
  "DisconnectOutput r g = Inr g' \<Longrightarrow> is_prepared g' = is_prepared g"
  "DisconnectInput q g = Inr g' \<Longrightarrow> is_prepared g' = is_prepared g"
proof -
  assume d: "DisconnectOutput r g = Inr g'"
  then obtain y where y: "output_at r g = Inr y" by (auto simp: DisconnectOutput_def rbind_eq_Inr_iff)
  show "is_prepared g' = is_prepared g" using d y
    by (cases "out_mate y") (auto simp: DisconnectOutput_def Input_Disconnect_def Output_Disconnect_def rbind_eq_Inr_iff prepared_put
        split: if_splits)
next
  assume d: "DisconnectInput q g = Inr g'"
  then obtain x where x: "input_at q g = Inr x" by (auto simp: DisconnectInput_def rbind_eq_Inr_iff)
  show "is_prepared g' = is_prepared g" using d x
    by (cases "in_mate x") (auto simp: DisconnectInput_def Input_Disconnect_def Output_Disconnect_def rbind_eq_Inr_iff prepared_put
        split: if_splits)
qed

lemma Graph_Connect_prepared: "Graph_Connect r q g = Inr (d, g') \<Longrightarrow> is_prepared g' = is_prepared g"
  by (auto simp: Graph_Connect_def Output_Connect_def Input_Connect_def rbind_eq_Inr_iff prepared_put
      dest!: Disconnect_prepared split: if_splits)

text \<open>The input of the transform that was added is not prepared.\<close>

lemma add_transform_unprepared:
  assumes inv: "graph_inv g" and y: "output_at r g = Inr y" and a: "add_transform r g = Inr (r', g')" and ap: "appended r r' g g'"
  shows "unprepared g' (fst r')"
proof -
  let ?s = "new_address g" and ?g = "Graph_Add (new_address g) (new_TransformStage (new_address g)) g"
  obtain i d where c: "Graph_Connect r i ?g = Inr (d, g')" and i: "i = (?s, 0)" and r': "fst r' = ?s"
    using a by (auto simp: add_transform_def Let_def ConnectOutputToPart_def PartRef_input_def PartRef_output_def rbind_eq_Inr_iff)
  have "\<not> is_prepared ?g (?s, j)" for j
    by (cases j) (auto simp: is_prepared_def input_at_def stage_at_def Graph_Add_def new_TransformStage_def new_Stage_def new_Input_def)
  then have "\<not> is_prepared g' (?s, j)" for j using Graph_Connect_prepared [OF c] by simp
  moreover have "omate g' (?s, j) = None" for j
  proof -
    have nl: "\<not> live g ?s" by (rule new_address_fresh [OF inv])
    then have "omate g (?s, j) = None" using omate_live [of g "(?s, j)"] by (cases "omate g (?s, j)") auto
    moreover have "r \<noteq> (?s, j)" using output_at_live [OF y] nl by auto
    ultimately show ?thesis using ap by (simp add: appended_def)
  qed
  ultimately show ?thesis using r' by (simp add: unprepared_def)
qed


lemma appended_output:
  assumes ap: "appended r r' g g'" and lv: "live g (fst r)"
  shows "\<exists>y. output_at r' g' = Inr y \<and> out_mate y = None"
proof -
  obtain y where y: "output_at r' g' = Inr y" using ap by (auto simp: appended_def)
  have "r' \<noteq> r" using ap lv by (auto simp: appended_def)
  then have "omate g' r' = None" using ap by (simp add: appended_def)
  then show ?thesis using y by (simp add: omate_def)
qed

text \<open>A compressed stream: a decoder is added first, then what its output still needs.\<close>

lemma conversion_loop_decoder:
  assumes inv: "graph_inv g" and y: "output_at r g = Inr y" "out_mate y = None" and e: "ast_encoding a \<noteq> kAudioEncodingLpcm"
    and ss: "matching_audio a ss = Inr False" "FindBestLpcm a ss = Inr (Some b)" "Decoder_Create decoder a = Inr (Some ctx)" "output_stream_type ctx = Inr t"
  shows "\<exists>r1 g1. graph_inv g1 \<and> appended r r1 g g1 \<and> unprepared g1 (fst r1) \<and>
    conversion_loop ops decoder ss r0 (AudioStream a) r g = conversion_loop ops decoder ss r0 t r1 g1"
proof -
  obtain r1 g1 where a1: "add_transform r g = Inr (r1, g1)" "graph_inv g1" "appended r r1 g g1"
    using add_transform_spec [OF inv y] by blast
  have "AddTransforms decoder (AudioStream a) ss r g = Inr (kProgressed, Some t, r1, g1)"
    using e ss a1(1) by (simp add: AddTransforms_def medium_def encoding_def StreamType_audio_def AddTransformsForCompressedAudio_def)
  then have "conversion_loop ops decoder ss r0 (AudioStream a) r g = conversion_loop ops decoder ss r0 t r1 g1"
    by (simp add: conversion_loop.simps [of ops decoder ss r0 "AudioStream a"])
  then show ?thesis using a1 add_transform_unprepared [OF inv y(1) a1(1,3)] by blast
qed

lemma BuildConversionPipeline_decoded:
  assumes inv: "graph_inv g" and y: "output_at r g = Inr y" "out_mate y = None" and e: "ast_encoding a \<noteq> kAudioEncodingLpcm"
    and ss: "matching_audio a ss = Inr False" "FindBestLpcm a ss = Inr (Some b)" "Decoder_Create decoder a = Inr (Some ctx)" "output_stream_type ctx = Inr (AudioStream d)"
    and t: "type_ok d"
    and best: "FindBestLpcm d ss = Inr (Some s)" "convertible d s"
  shows "\<exists>t' r1 g1 r' g'. BuildConversionPipeline ops decoder (AudioStream a) ss r g = Inr (True, Some (AudioStream t'), r', g') \<and>
    graph_inv g' \<and> appended r r1 g g1 \<and> ast_encoding t' = kAudioEncodingLpcm \<and>
    ast_sample_format t' = (if set_sample_format s = kAny then ast_sample_format d else set_sample_format s) \<and>
    ast_channels t' = ast_channels d \<and> ast_frames_per_second t' = ast_frames_per_second d \<and>
    (if ast_sample_format t' = ast_sample_format d then r' = r1 \<and> g' = g1 else appended r1 r' g1 g')"
proof -
  obtain r1 g1 where 1: "graph_inv g1" "appended r r1 g g1"
    "conversion_loop ops decoder ss r (AudioStream a) r g = conversion_loop ops decoder ss r (AudioStream d) r1 g1"
    using conversion_loop_decoder [where decoder = decoder, OF inv y e ss] by blast
  obtain y1 where y1: "output_at r1 g1 = Inr y1" "out_mate y1 = None"
    using appended_output [OF 1(2) output_at_live [OF y(1)]] by blast
  have lp: "ast_encoding d = kAudioEncodingLpcm" "ast_encoding_parameters d = None" using output_stream_type_Lpcm [OF ss(4)] by blast+
  obtain t' r' g' where b: "AddTransforms decoder (AudioStream d) ss r1 g1 = Inr (kFinished, Some (AudioStream t'), r', g')"
    "graph_inv g'" "ast_encoding t' = kAudioEncodingLpcm"
    "ast_sample_format t' = (if set_sample_format s = kAny then ast_sample_format d else set_sample_format s)"
    "ast_channels t' = ast_channels d" "ast_frames_per_second t' = ast_frames_per_second d"
    "if ast_sample_format t' = ast_sample_format d then r' = r1 \<and> g' = g1 else appended r1 r' g1 g'"
    using AddTransforms_Lpcm [OF 1(1) y1 t lp best, of decoder] by blast
  then have "BuildConversionPipeline ops decoder (AudioStream a) ss r g = Inr (True, Some (AudioStream t'), r', g')"
    using 1(3) by (simp add: BuildConversionPipeline_def conversion_loop.simps [of ops decoder ss r "AudioStream d"])
  then show ?thesis using 1(2) b(2-7) by blast
qed

text \<open>
  When no type set takes what the decoder puts out, the loop ends in the check that there is
  one: the choice made for the compressed type says nothing about the decoder's output.
\<close>

lemma BuildConversionPipeline_decoded_stuck:
  assumes inv: "graph_inv g" and y: "output_at r g = Inr y" "out_mate y = None" and e: "ast_encoding a \<noteq> kAudioEncodingLpcm"
    and ss: "matching_audio a ss = Inr False" "FindBestLpcm a ss = Inr (Some b)"
    and c: "Decoder_Create decoder a = Inr (Some ctx)" "output_stream_type ctx = Inr (AudioStream d)"
    and d: "FindBestLpcm d ss = Inr None"
  shows "BuildConversionPipeline ops decoder (AudioStream a) ss r g = Inl Dcheck_failed"
proof -
  obtain r1 g1 where 1:
    "conversion_loop ops decoder ss r (AudioStream a) r g = conversion_loop ops decoder ss r (AudioStream d) r1 g1"
    using conversion_loop_decoder [where decoder = decoder, OF inv y e ss c] by blast
  have "ast_encoding d = kAudioEncodingLpcm" using output_stream_type_Lpcm [OF c(2)] by blast
  then have "AddTransforms decoder (AudioStream d) ss r1 g1 = Inl Dcheck_failed"
    using d by (simp add: AddTransforms_def medium_def encoding_def StreamType_audio_def AddTransformsForLpcm_def)
  then show ?thesis using 1 by (simp add: BuildConversionPipeline_def conversion_loop.simps [of ops decoder ss r "AudioStream d"])
qed

text \<open>The loop ends on every input, after two rounds at most: what a decoder puts out is LPCM.\<close>

lemma AddTransforms_progress:
  assumes "AddTransforms decoder t ss out g = Inr (kProgressed, t', out', g')"
  obtains d where "t' = Some (AudioStream d)" "ast_encoding d = kAudioEncodingLpcm"
proof -
  obtain ctx t1 where "output_stream_type ctx = Inr t1" "t' = Some t1"
    using assms
    by (auto simp: AddTransforms_def AddTransformsForLpcm_def AddTransformsForLpcm_to_def AddTransformsForCompressedAudio_def
        rbind_eq_Inr_iff dcheck_def split: if_splits option.splits)
  then show ?thesis using that output_stream_type_Lpcm by metis
qed

lemma AddTransforms_Lpcm_decided:
  "ast_encoding d = kAudioEncodingLpcm \<Longrightarrow> AddTransforms decoder (AudioStream d) ss out g = Inr (res, t', out', g') \<Longrightarrow> res = kFinished"
  by (auto simp: AddTransforms_def AddTransformsForLpcm_def AddTransformsForLpcm_to_def medium_def encoding_def StreamType_audio_def
      rbind_eq_Inr_iff dcheck_def split: if_splits option.splits)

lemma conversion_loop_ends: "\<exists>res. conversion_loop ops decoder ss r0 t out g = Some res"
proof -
  have fin: "\<exists>res. conversion_loop ops decoder ss r0 (AudioStream d) out g = Some res" if "ast_encoding d = kAudioEncodingLpcm" for d out g
    using AddTransforms_Lpcm_decided [where decoder = decoder and ss = ss and out = out and g = g, OF that]
    by (subst conversion_loop.simps) (auto split: sum.splits AddResult.splits)
  show ?thesis
  proof (cases "AddTransforms decoder t ss out g")
    case (Inr v)
    then obtain res t' out' g' where v: "AddTransforms decoder t ss out g = Inr (res, t', out', g')" by (cases v) auto
    then show ?thesis
    proof (cases res)
      case kProgressed
      then obtain d where d: "t' = Some (AudioStream d)" "ast_encoding d = kAudioEncodingLpcm" using AddTransforms_progress v by metis
      then show ?thesis using v kProgressed fin by (subst conversion_loop.simps) simp
    qed (subst conversion_loop.simps, simp)+
  qed (subst conversion_loop.simps, simp)
qed

end
