(* ===== verification/Framework_Properties.thy ===== *)
theory Framework_Properties
  imports Sample_Pipeline Engine_Delivery Conversion
begin

text \<open>
  The properties of the media framework (services/media/framework): what a running pipeline
  delivers, that updates, flushes and preparations fail no check and end, that graphs stay
  well formed, and what LPCM conversions and conversion pipelines produce. Each is
  followed by an instance on the pipeline of Sample\<open>_\<close>Pipeline or on a concrete stream type.
\<close>

section \<open>Running a pipeline\<close>

definition sample_packet :: "int \<Rightarrow> Packet" where
  "sample_packet t = \<lparr>pts = t, end_of_stream = False, packet_size = 0, payload = None, payload_bytes = [], packet_allocator = None\<rparr>"

lemma relay_records: "records relay_ops (\<lambda>w. w) 4 (\<lambda>_. Some)"
  by (simp add: records_def relay_ops_def)

lemma relay_stage_map: "stage_map (\<lambda>_. Some) relay_graph = (\<lambda>_. Some)"
  by (simp add: stage_map_def fun_eq_iff split: option.splits)

lemma relay_line: "line relay_ops relay_rank 4 [4, 3, 2] relay_graph"
  using relay_running by (auto simp: line_def running_def chain_def relay_at relay_views split: if_splits)

text \<open>
  C11. What a running line of stages delivers, for parts that \<open>records\<close> admits: every transform
  finishes with a packet in the call it is given it in, makes of it at most one packet that
  depends on nothing but the packet (in particular, its allocator is never starved), and no
  output of the graph copies packets. Then everything is delivered, once and in order: after a
  source has supplied a sequence of packets, what the sink has received followed by what is
  still on its way is what it was before, followed by what the transforms on the way make of
  the new packets. Each supply returns, leaves the pipeline settled, and leaves nothing on the
  way when the sink has demand. The contract of transforms also admits parts that ask to be
  called again with the same packet; of those nothing is claimed here.
\<close>

theorem pipeline_delivers_in_order:
  assumes "records ops log part f" "running ops rank g" "line ops rank part cs g" "\<forall>p \<in> set ps. packet_ok p"
  shows "\<exists>g'. supply_all ops (last cs) ps g = Inr g' \<and> running ops rank g' \<and>
    log (world g') @ coming f g' cs = log (world g) @ coming f g cs @ concat (map (route f g cs) ps) \<and>
    (\<forall>d. impl_of g' (hd cs) = Some (ActiveSinkStage d) \<and> d \<noteq> kNegative \<longrightarrow> coming f g' cs = [])"
proof -
  obtain g' where g': "supply_all ops (last cs) ps g = Inr g'" "running ops rank g'" "line ops rank part cs g'"
    "total log f cs g' = total log f cs g @ concat (map (route f g cs) ps)"
    using supply_all_delivers [OF assms] by blast
  then show ?thesis using willing_sink_drained [OF g'(2,3)] by (auto simp: total_def)
qed

theorem pipeline_delivers_in_order_witness:
  "\<exists>g'. supply_all relay_ops 2 [sample_packet 1, sample_packet 5] relay_graph = Inr g' \<and> running relay_ops relay_rank g' \<and>
     world g' @ coming (\<lambda>_. Some) g' [4, 3, 2] = [sample_packet 1, sample_packet 5]"
proof -
  have "coming (\<lambda>_. Some) relay_graph [4, 3, 2] = []"
    by (simp add: coming_def held_def queue_def relay_at relay_views through_def)
  moreover have "route (\<lambda>_. Some) relay_graph [4, 3, 2] p = [p]" for p by (simp add: route_def stage_map_def through_def relay_views)
  moreover have "world relay_graph = []" by (simp add: relay_graph_eq)
  ultimately show ?thesis
    using pipeline_delivers_in_order [OF relay_records relay_running relay_line, of "[sample_packet 1, sample_packet 5]"]
    by (auto simp: packet_ok_def sample_packet_def)
qed

text \<open>
  C13. On a pipeline (no cycle, parts that finish with a packet when they are given it) every
  update returns. It leaves the stages and connections as they are, empties both backlogs
  and keeps the graph a pipeline.
\<close>

theorem RequestUpdate_returns:
  assumes "pipeline ops rank g" "live g s"
  shows "\<exists>g'. RequestUpdate ops s g = Inr g' \<and> pipeline ops rank g' \<and> supply_backlog g' = [] \<and> demand_backlog g' = []"
proof -
  obtain g1 where g1: "Engine_UpdateStage ops s g = Inr g1" "pipeline ops rank g1"
    using Engine_UpdateStage_effect [OF assms] by blast
  obtain g2 where "Engine_Update ops g1 = Some (Inr g2)" "pipeline ops rank g2" "supply_backlog g2 = []" "demand_backlog g2 = []"
    using Engine_Update_terminates [OF g1(2)] by blast
  then show ?thesis using g1 by (simp add: RequestUpdate_def run_loop_def)
qed

theorem RequestUpdate_returns_witness:
  "\<exists>g'. RequestUpdate relay_ops 4 relay_graph = Inr g' \<and> pipeline relay_ops relay_rank g' \<and> supply_backlog g' = [] \<and> demand_backlog g' = []"
proof (rule RequestUpdate_returns)
  show "pipeline relay_ops relay_rank relay_graph" using relay_running by (simp add: running_def)
  show "live relay_graph 4" by (simp add: relay_at)
qed

text \<open>
  C14. Flushing the output of a source in a running, prepared pipeline returns: the source has no
  packet queued, every connection downstream of it holds no packet and no demand, no
  other connection gains any, and the pipeline is running as before.
\<close>

theorem flush_drains_pipeline:
  assumes "running ops rank g" "impl_of g s = Some (ActiveSourceStage b ps)"
    "\<And>r q. omate g r = Some q \<Longrightarrow> is_prepared g q"
  shows "\<exists>g'. Engine_FlushOutput ops (s, 0) g = Inr g' \<and> running ops rank g' \<and>
    impl_of g' s = Some (ActiveSourceStage b []) \<and>
    (\<forall>r' q. downstream g (s, 0) r' \<and> omate g r' = Some q \<longrightarrow> dem g' r' = kNegative \<and> pkt g' q = None) \<and>
    (\<forall>r'. dem g' r' = dem g r' \<or> dem g' r' = kNegative) \<and> (\<forall>q. pkt g' q = pkt g q \<or> pkt g' q = None)"
proof -
  obtain g' where "Engine_FlushOutput ops (s, 0) g = Inr g'" "running ops rank g'"
    "impl_of g' s = Some (ActiveSourceStage b [])" "drained (s, 0) g g'"
    using Engine_FlushOutput_running [OF assms(1,2)] assms(3) by blast
  then show ?thesis unfolding drained_def by blast
qed

theorem flush_drains_pipeline_witness:
  "\<exists>g'. Engine_FlushOutput relay_ops (2, 0) relay_graph = Inr g' \<and> running relay_ops relay_rank g' \<and>
     pkt g' (3, 0) = None \<and> pkt g' (4, 0) = None"
proof -
  have k: "impl_of relay_graph 2 = Some (ActiveSourceStage True [])" by (simp add: relay_views)
  obtain g' where g': "Engine_FlushOutput relay_ops (2, 0) relay_graph = Inr g'" "running relay_ops relay_rank g'"
    "\<forall>q. pkt g' q = pkt relay_graph q \<or> pkt g' q = None"
    using flush_drains_pipeline [OF relay_running k] relay_prepared by blast
  have "pkt g' q = None" for q using g'(3) [rule_format, of q] by (simp add: relay_at)
  then show ?thesis using g' by blast
qed

section \<open>Building a graph\<close>

text \<open>
  C15. Every operation that builds a graph keeps it well formed: mates point at each other, the
  lists of sources and sinks are the stages without inputs and without outputs, every
  stage has the private members its kind needs, and the backlogs are empty. \<^verbatim>\<open>Connect\<close>
  replaces the old connections of both ends, and \<^verbatim>\<open>RemovePart\<close> takes away exactly the stage
  and the connections at it; both succeed unless a connection to be cut has been prepared.
\<close>

theorem graph_operations_keep_invariant:
  assumes "graph_inv g"
  shows "(\<forall>s st. \<not> live g s \<and> fresh_stage st \<longrightarrow> graph_inv (Graph_Add s st g)) \<and>
    (\<forall>r q d g'. Graph_Connect r q g = Inr (d, g') \<longrightarrow> graph_inv g' \<and>
       omate g' = connected_mates r q (omate g) \<and> imate g' = connected_mates q r (imate g)) \<and>
    (\<forall>r q y x. output_at r g = Inr y \<and> input_at q g = Inr x \<and> (\<forall>q'. omate g r = Some q' \<longrightarrow> \<not> is_prepared g q') \<and>
       (imate g q \<noteq> None \<longrightarrow> \<not> is_prepared g q) \<longrightarrow> (\<exists>g'. Graph_Connect r q g = Inr (fst q, g'))) \<and>
    (\<forall>s g'. RemovePart ops s g = Inr g' \<longrightarrow> graph_inv g' \<and> live g' = (live g)(s := False) \<and>
       imate g' = cut (\<lambda>r. fst r = s) (drop_at (\<lambda>q. fst q = s) (imate g))) \<and>
    (\<forall>s. live g s \<and> unprepared g s \<longrightarrow> (\<exists>g'. RemovePart ops s g = Inr g'))"
proof (intro conjI allI impI)
  fix s st assume "\<not> live g s \<and> fresh_stage st"
  then show "graph_inv (Graph_Add s st g)" using Graph_Add_inv [OF assms] by blast
next
  fix r q d g' assume c: "Graph_Connect r q g = Inr (d, g')"
  from Graph_Connect_inv [OF assms c]
  show "graph_inv g'" "omate g' = connected_mates r q (omate g)" "imate g' = connected_mates q r (imate g)" by blast+
next
  fix r q y x
  assume "output_at r g = Inr y \<and> input_at q g = Inr x \<and> (\<forall>q'. omate g r = Some q' \<longrightarrow> \<not> is_prepared g q') \<and>
    (imate g q \<noteq> None \<longrightarrow> \<not> is_prepared g q)"
  then show "\<exists>g'. Graph_Connect r q g = Inr (fst q, g')" using Graph_Connect_total [OF assms] by blast
next
  fix s g' assume "RemovePart ops s g = Inr g'"
  from RemovePart_inv [OF assms this]
  show "graph_inv g'" "live g' = (live g)(s := False)" "imate g' = cut (\<lambda>r. fst r = s) (drop_at (\<lambda>q. fst q = s) (imate g))" by blast+
next
  fix s assume "live g s \<and> unprepared g s"
  then show "\<exists>g'. RemovePart ops s g = Inr g'" using RemovePart_total [OF assms] by blast
qed

theorem graph_operations_keep_invariant_witness:
  "graph_inv (Graph_Add 5 (new_TransformStage 5) relay_graph)"
proof -
  have "\<not> live relay_graph 5" "fresh_stage (new_TransformStage 5)" by (simp_all add: relay_at fresh_TransformStage)
  then show ?thesis using graph_operations_keep_invariant [OF relay_inv, of relay_ops] by blast
qed

text \<open>
  C20. \<^verbatim>\<open>RemovePartsConnectedToPart\<close> queues the part itself in the place of the parts connected to
  it. On every part that has an input or an output it deletes the part and then uses it;
  only a part without inputs and outputs is removed correctly.
\<close>

theorem RemovePartsConnectedToPart_uses_deleted_stage:
  assumes "graph_inv g" "unprepared g s" "counts_of g s = Some (m, n)"
  shows "RemovePartsConnectedToPart ops s g = (if 0 < m + n then Inl Null_deref else RemovePart ops s g)"
  using RemovePartsConnectedToPart_spec [OF assms, of ops] by (auto split: if_splits)

theorem RemovePartsConnectedToPart_uses_deleted_stage_witness:
  "RemovePartsConnectedToPart relay_ops 5 (Graph_Add 5 (new_TransformStage 5) relay_graph) = Inl Null_deref"
proof -
  let ?g = "Graph_Add 5 (new_TransformStage 5) relay_graph"
  have inv: "graph_inv ?g" using Graph_Add_inv [OF relay_inv, of 5] by (simp add: relay_at fresh_TransformStage)
  have "counts_of ?g 5 = Some (1, 1)" by (simp add: counts_of_def Graph_Add_def new_TransformStage_def new_Stage_def)
  moreover have "unprepared ?g 5"
    by (auto simp: unprepared_def is_prepared_def omate_def input_at_def output_at_def stage_at_def Graph_Add_def
        new_TransformStage_def new_Stage_def new_Input_def new_Output_def dcheck_def)
  ultimately show ?thesis using RemovePartsConnectedToPart_uses_deleted_stage [OF inv, of 5 1 1 relay_ops] by simp
qed

text \<open>
  C21. Preparing an input ends on every well-formed graph, cyclic ones included: it either runs
  into one of its checks (an input that is not there or is prepared already), or the graph is
  well formed afterwards and the input is prepared.
\<close>

theorem PrepareInput_terminates:
  assumes "graph_inv g"
  shows "\<exists>res. visit_loop (VisitUpstream (prepare_visitor ops)) [q] g = Some res \<and> Engine_PrepareInput ops q g = res \<and>
    (\<forall>g'. res = Inr g' \<longrightarrow> graph_inv g' \<and> q \<notin> unprepared_inputs g')"
proof -
  obtain res where "visit_loop (VisitUpstream (prepare_visitor ops)) [q] g = Some res"
    using Engine_PrepareInput_ends(1) [OF assms] by blast
  moreover from this have "Engine_PrepareInput ops q g = res" by (simp add: Engine_PrepareInput_def run_loop_def)
  ultimately show ?thesis using Engine_PrepareInput_ends(2) [OF assms] by blast
qed

theorem PrepareInput_terminates_witness:
  "\<exists>g'. (4, 0) \<in> unprepared_inputs chained_graph \<and> (3, 0) \<in> unprepared_inputs chained_graph \<and>
     Engine_PrepareInput relay_ops (4, 0) chained_graph = Inr g' \<and> graph_inv g' \<and> (4, 0) \<notin> unprepared_inputs g'"
  using PrepareInput_terminates [OF chained_inv, of relay_ops "(4, 0)"] chained_unprepared chained_prepares by auto

text \<open>
  C19. The inputs of a multistream sink, allocated and released in any order, are a pool of
  indices. An allocation never fails and hands out the lowest index that is free; a
  release of an unconnected input frees exactly that index; and an index that is released
  with all lower ones in use is the next one handed out.
\<close>

theorem sink_inputs_are_a_pool:
  assumes "inputs_ok st"
  shows "(\<exists>i st'. take_input st = Inr (i, st') \<and> inputs_ok st' \<and> i \<notin> allocated st \<and> {..<i} \<subseteq> allocated st \<and>
       allocated st' = insert i (allocated st)) \<and>
    (\<forall>i. i \<in> allocated st \<and> in_mate (fst st ! i) = None \<longrightarrow>
       (\<exists>st'. give_input i st = Inr st' \<and> inputs_ok st' \<and> allocated st' = allocated st - {i} \<and>
          ({..<i} \<subseteq> allocated st \<longrightarrow> (\<exists>st''. take_input st' = Inr (i, st'') \<and> allocated st'' = allocated st))))"
proof (intro conjI allI impI)
  show "\<exists>i st'. take_input st = Inr (i, st') \<and> inputs_ok st' \<and> i \<notin> allocated st \<and> {..<i} \<subseteq> allocated st \<and>
    allocated st' = insert i (allocated st)" by (rule inputs.take [OF assms])
next
  fix i assume i: "i \<in> allocated st \<and> in_mate (fst st ! i) = None"
  then obtain st' where "give_input i st = Inr st'" "inputs_ok st'" "allocated st' = allocated st - {i}"
    using inputs.give [OF assms] by blast
  then show "\<exists>st'. give_input i st = Inr st' \<and> inputs_ok st' \<and> allocated st' = allocated st - {i} \<and>
    ({..<i} \<subseteq> allocated st \<longrightarrow> (\<exists>st''. take_input st' = Inr (i, st'') \<and> allocated st'' = allocated st))"
    using inputs.take_again [OF assms] i by metis
qed

theorem sink_inputs_are_a_pool_witness:
  "\<exists>st'. take_input ([new_Input], \<lparr>ams_inputs = [new_StageInput 0], ams_unallocated_inputs = {0}, ams_pending_inputs = []\<rparr>) = Inr (0, st') \<and>
     allocated st' = {0}"
proof -
  let ?st = "([new_Input], \<lparr>ams_inputs = [new_StageInput 0], ams_unallocated_inputs = {0}, ams_pending_inputs = []\<rparr>)"
  obtain i st' where i: "take_input ?st = Inr (i, st')" "{..<i} \<subseteq> allocated ?st" "allocated st' = insert i (allocated ?st)"
    using sink_inputs_are_a_pool [OF new_sink_ok(1)] by blast
  then have "i = 0" using new_sink_ok(2) by (cases i) auto
  then show ?thesis using i new_sink_ok(2) by simp
qed

section \<open>LPCM\<close>

text \<open>
  C33. \<^verbatim>\<open>LpcmReformatter\<close> turns a packet of whole frames into one packet with the same time stamp and
  end-of-stream mark that holds the same number of frames of the output type, every
  sample the conversion of the sample at its place.
\<close>

theorem reformatter_converts_packets:
  assumes "LpcmReformatter_Create it os = Inr (Some TIn, Some TOut, r)" "type_ok it" "type_ok (rf_out_type r)"
    "packet_size p = n * unat (bytes_per_frame it)" "0 < n" "length (payload_bytes p) = packet_size p"
    "n * unat (bytes_per_frame it) < 2 ^ 64" "n * unat (bytes_per_frame (rf_out_type r)) < 2 ^ 64"
    "AllocatePayloadBuffer ops a (n * unat (bytes_per_frame (rf_out_type r))) w = Inr (Some b, w1)"
  shows "\<exists>q. LpcmReformatter_TransformPacket TIn TOut r ops p a w = Inr ((True, Some q), w1) \<and>
    pts q = pts p \<and> end_of_stream q = end_of_stream p \<and> packet_size q = n * unat (bytes_per_frame (rf_out_type r)) \<and>
    length (payload_bytes q) = packet_size q \<and>
    samples_of TOut (n * unat (ast_channels it)) (payload_bytes q) =
      map (CopySample TOut TIn) (samples_of TIn (n * unat (ast_channels it)) (payload_bytes p))"
proof -
  have r: "new_LpcmReformatter it os = Inr r"
    and T: "sample_type_of (ast_sample_format it) = Some TIn" "sample_type_of (ast_sample_format (rf_out_type r)) = Some TOut"
    using assms(1,2) new_LpcmReformatter_types(4) [of it os r]
    by (auto simp: LpcmReformatter_Create_def rbind_eq_Inr_iff split: if_splits)
  show ?thesis using LpcmReformatter_TransformPacket_spec [OF r assms(2,3) T assms(4-9)] by blast
qed

definition sample_type16 :: AudioStreamType where
  "sample_type16 = \<lparr>ast_encoding = kAudioEncodingLpcm, ast_encoding_parameters = None, ast_sample_format = kSigned16,
     ast_channels = 2, ast_frames_per_second = 44100, ast_sample_size = 2\<rparr>"

definition sample_set :: "SampleFormat \<Rightarrow> AudioStreamTypeSet" where
  "sample_set f = \<lparr>set_encodings = [kAudioEncodingLpcm], set_sample_format = f,
     set_channels = \<lparr>range_min = 1, range_max = 2\<rparr>, set_frames_per_second = \<lparr>range_min = 8000, range_max = 48000\<rparr>\<rparr>"

theorem reformatter_converts_packets_witness:
  "\<exists>q. LpcmReformatter_TransformPacket S16 U8
      \<lparr>rf_in_type = sample_type16, rf_out_type = sample_type16\<lparr>ast_sample_format := kUnsigned8, ast_sample_size := 1\<rparr>\<rparr>
      relay_ops ((sample_packet 7)\<lparr>packet_size := 4, payload := Some 9, payload_bytes := [0, 0x80, 0xFF, 0x7F]\<rparr>) 0 [] =
        Inr ((True, Some q), []) \<and> pts q = 7 \<and> packet_size q = 2 \<and> samples_of U8 2 (payload_bytes q) = [0, 255]"
proof -
  let ?r = "\<lparr>rf_in_type = sample_type16, rf_out_type = sample_type16\<lparr>ast_sample_format := kUnsigned8, ast_sample_size := 1\<rparr>\<rparr>"
  let ?p = "(sample_packet 7)\<lparr>packet_size := 4, payload := Some 9, payload_bytes := [0, 0x80, 0xFF, 0x7F]\<rparr>"
  have r: "LpcmReformatter_Create sample_type16 (sample_set kUnsigned8) = Inr (Some S16, Some U8, ?r)"
    by (simp add: LpcmReformatter_Create_def sample_type_of_def new_LpcmReformatter_def AudioStreamType_Clone_def new_AudioStreamType_def SampleSizeFromFormat_def
        sample_type16_def sample_set_def)
  have t: "type_ok sample_type16" "type_ok (rf_out_type ?r)" by (simp_all add: type_ok_def sample_type16_def SampleSizeFromFormat_def)
  have a: "AllocatePayloadBuffer relay_ops 0 (1 * unat (bytes_per_frame (rf_out_type ?r))) [] = Inr (Some 0, [])"
    by (simp add: AllocatePayloadBuffer_def relay_ops_def bytes_per_frame_def sample_type16_def)
  have s: "map (CopySample U8 S16) (samples_of S16 2 (payload_bytes ?p)) = [0, 255]" by code_simp
  show ?thesis
    using reformatter_converts_packets [OF r t, of ?p 1 relay_ops 0 "[]" 0 "[]"] a s
    by (auto simp: bytes_per_frame_def sample_type16_def sample_packet_def)
qed

text \<open>
  C34. A sample of one integer format is converted to a sample of the other (8 bits unsigned,
  16 bits, 24 bits in 32) in every case but one: the 8-bit samples below the zero point leave
  the 24-bit range. With equal formats nothing changes; between 8 and 16 bits the zero point
  is moved and the value scaled by 256, so that widening and narrowing again is the identity;
  16-bit samples are scaled by 256 to 24 bits, and 8-bit samples at or above the zero point by
  2^16. What becomes of samples that are narrowed from 24 bits is a claim of its own.
\<close>

theorem CopySample_in_range:
  assumes "in_sample_range TIn x"
  shows "(in_sample_range TOut (CopySample TOut TIn x) \<longleftrightarrow> \<not> (TIn = U8 \<and> TOut = S32 \<and> x < 128)) \<and>
    (TIn = TOut \<longrightarrow> CopySample TOut TIn x = x) \<and>
    (TIn = U8 \<and> TOut = S16 \<longrightarrow> CopySample TOut TIn x = (x - 128) * 256 \<and> CopySample U8 S16 (CopySample S16 U8 x) = x) \<and>
    (TIn = S16 \<and> TOut = U8 \<longrightarrow> CopySample TOut TIn x = x div 256 + 128) \<and>
    (TIn = S16 \<and> TOut = S32 \<longrightarrow> CopySample TOut TIn x = x * 256) \<and>
    (TIn = U8 \<and> TOut = S32 \<and> 128 \<le> x \<longrightarrow> CopySample TOut TIn x = (x - 128) * 2 ^ 16)"
proof (intro conjI impI)
  show range: "in_sample_range TOut (CopySample TOut TIn x) \<longleftrightarrow> \<not> (TIn = U8 \<and> TOut = S32 \<and> x < 128)"
    by (rule CopySample_range [OF assms])
  show "CopySample TOut TIn x = x" if "TIn = TOut"
    using that assms by (cases TOut) (simp_all add: CopySample_def to_type_id in_sample_type_range)
  show u: "CopySample TOut TIn x = (x - 128) * 256" if "TIn = U8 \<and> TOut = S16" using that assms CopySample_S16_U8 by simp
  show "CopySample U8 S16 (CopySample S16 U8 x) = x" if c: "TIn = U8 \<and> TOut = S16"
  proof -
    have "in_sample_range S16 (CopySample S16 U8 x)" using range c by simp
    moreover have "CopySample S16 U8 x = (x - 128) * 256" using u c by simp
    ultimately show ?thesis using CopySample_U8_S16 [of "(x - 128) * 256"] by simp
  qed
  show "CopySample TOut TIn x = x div 256 + 128" if "TIn = S16 \<and> TOut = U8" using that assms CopySample_U8_S16 by simp
  show "CopySample TOut TIn x = x * 256" if "TIn = S16 \<and> TOut = S32" using that assms CopySample_S32_S16 by simp
  show "CopySample TOut TIn x = (x - 128) * 2 ^ 16" if "TIn = U8 \<and> TOut = S32 \<and> 128 \<le> x"
    using that assms CopySample_S32_U8 by simp
qed

theorem CopySample_in_range_witness:
  "in_sample_range S16 (CopySample S16 U8 200) \<and> CopySample U8 S16 (CopySample S16 U8 200) = 200 \<and>
   in_sample_range S32 (CopySample S32 U8 200) \<and> \<not> in_sample_range S32 (CopySample S32 U8 100)"
proof -
  have u: "in_sample_range U8 200" "in_sample_range U8 100" by (simp_all add: in_sample_range_def)
  show ?thesis
    using CopySample_in_range [OF u(1), of S16, THEN conjunct1] CopySample_in_range [OF u(1), of S16, THEN conjunct2]
      CopySample_in_range [OF u(1), of S32, THEN conjunct1] CopySample_in_range [OF u(2), of S32, THEN conjunct1]
    by auto
qed

text \<open>
  C39. Conversions that lose the signal: the bounds of \<^verbatim>\<open>Clamp(int32_t)\<close> are exchanged, so every 24-bit
  sample becomes the most negative value of the narrower format, and an 8-bit sample below
  the zero point becomes a 24-bit sample that is too large by the full range.
\<close>

theorem CopySample_24_bit_broken:
  "CopySample S16 S32 x = - 32768 \<and> CopySample U8 S32 x = 0 \<and>
   CopySample S32 U8 (int k mod 128) = (int k mod 128 - 128) * 2 ^ 16 + 2 ^ 24"
proof -
  have "in_sample_range U8 (int k mod 128)" "int k mod 128 < 128" by (auto simp: in_sample_range_def intro: order_less_trans [of _ 128])
  then show ?thesis using CopySample_S32_U8 [of "int k mod 128"] CopySample_from_S32 by simp
qed

text \<open>
  \<^verbatim>\<open>Interleave\<close> is the transposition of the channels: given the channels one after the other,
  each of \<open>in_byte_count / bytes_per_frame\<close> samples, sample \<open>k\<close> of channel \<open>c\<close> goes to place
  \<open>c\<close> of frame \<open>k\<close>, for as many frames as are asked for.
\<close>

lemma Interleave_transposes:
  assumes "type_ok t" "0 < frames" "unat frames * unat (bytes_per_frame t) \<le> unat in_byte_count"
    "unat (bytes_per_frame t) dvd unat in_byte_count" "length src * unat (ast_sample_size t) = unat in_byte_count"
    "length dst = unat frames * unat (ast_channels t)"
  shows "\<exists>dst'. LpcmUtil_Interleave t src in_byte_count dst frames = Inr dst' \<and> length dst' = length dst \<and>
    (\<forall>k < unat frames. \<forall>c < unat (ast_channels t).
       dst' ! (k * unat (ast_channels t) + c) = src ! (c * (unat in_byte_count div unat (bytes_per_frame t)) + k))"
proof -
  let ?ch = "unat (ast_channels t)" and ?stride = "unat in_byte_count div unat (bytes_per_frame t)"
  let ?d = "map (\<lambda>x. src ! (x mod ?ch * ?stride + x div ?ch)) [0..<unat frames * ?ch]"
  have "?d ! (k * ?ch + c) = src ! (c * ?stride + k)" if "k < unat frames" "c < ?ch" for k c
  proof -
    have "k * ?ch + c < Suc k * ?ch" using that(2) by simp
    also have "\<dots> \<le> unat frames * ?ch" using that(1) by (intro mult_right_mono) auto
    finally have "k * ?ch + c < unat frames * ?ch" .
    then show ?thesis using that(2) by simp
  qed
  then show ?thesis using LpcmUtil_Interleave_spec [OF assms] assms(6) by (intro exI [of _ ?d]) simp
qed

section \<open>Conversion pipelines\<close>

text \<open>
  C35. For an LPCM stream and any list of type sets, the first of the LPCM sets with the highest
  score is chosen. If there is one that accepts the channels and the frame rate, the conversion
  succeeds in a well-formed graph: the stream keeps its channels and frame rate, has
  the sample format of the set, and exactly one transform has been connected to the
  output if the format changes and none otherwise.
\<close>

theorem BuildConversionPipeline_converts_Lpcm:
  assumes "graph_inv g" "output_at r g = Inr y" "out_mate y = None" "sets_ok ss"
    "type_ok a" "ast_encoding a = kAudioEncodingLpcm" "ast_encoding_parameters a = None"
    "\<exists>s \<in> set (candidates ss). convertible a s"
  shows "\<exists>s t' r' g'. first_best a (candidates ss) 0 s \<and> convertible a s \<and>
    BuildConversionPipeline ops decoder (AudioStream a) ss r g = Inr (True, Some (AudioStream t'), r', g') \<and>
    graph_inv g' \<and> ast_encoding t' = kAudioEncodingLpcm \<and>
    ast_sample_format t' = (if set_sample_format s = kAny then ast_sample_format a else set_sample_format s) \<and>
    ast_channels t' = ast_channels a \<and> ast_frames_per_second t' = ast_frames_per_second a \<and>
    (if ast_sample_format t' = ast_sample_format a then r' = r \<and> g' = g else appended r r' g g')"
proof -
  obtain s where s: "FindBestLpcm a ss = Inr (Some s)" "convertible a s" "first_best a (candidates ss) 0 s"
    using FindBestLpcm_spec [OF assms(4), of a] assms(8) by blast
  show ?thesis using BuildConversionPipeline_Lpcm [OF assms(1-3,5-7) s(1,2), of ops decoder] s(2,3) by blast
qed

definition source_graph :: "Packet list Graph" where
  "source_graph = Graph_Add 2 (new_ActiveSourceStage 2) (new_Graph [])"

lemma source_graph_output: "graph_inv source_graph" "output_at (2, 0) source_graph = Inr new_Output" "out_mate new_Output = None"
proof -
  have "fresh_stage (new_ActiveSourceStage 2)" by (simp add: fresh_stage_def new_ActiveSourceStage_def new_Stage_def)
  moreover have "\<not> live (new_Graph [] :: Packet list Graph) 2" by (simp add: live_def new_Graph_def)
  ultimately show "graph_inv source_graph"
    using Graph_Add_inv [OF graph_inv_new, of "[] :: Packet list" 2 "new_ActiveSourceStage 2"] unfolding source_graph_def by simp
qed (simp_all add: source_graph_def output_at_def stage_at_def Graph_Add_def new_ActiveSourceStage_def new_Stage_def new_Output_def)

theorem BuildConversionPipeline_converts_Lpcm_witness:
  "\<exists>t' r' g'. BuildConversionPipeline relay_ops (\<lambda>_. None) (AudioStream sample_type16) [AudioSet (sample_set kUnsigned8)] (2, 0) source_graph =
     Inr (True, Some (AudioStream t'), r', g') \<and> ast_sample_format t' = kUnsigned8 \<and> appended (2, 0) r' source_graph g'"
proof -
  let ?ss = "[AudioSet (sample_set kUnsigned8)]"
  have c: "candidates ?ss = [sample_set kUnsigned8]"
    by (simp add: candidates_Cons IncludesEncoding_def sample_set_def candidates_def map_filter_def StreamTypeSet_audio_def)
  have ok: "sets_ok ?ss" "type_ok sample_type16" "ast_encoding sample_type16 = kAudioEncodingLpcm"
    "ast_encoding_parameters sample_type16 = None" "ast_sample_format sample_type16 = kSigned16"
    by (simp_all add: sets_ok_def type_ok_def sample_type16_def SampleSizeFromFormat_def)
  have "convertible sample_type16 (sample_set kUnsigned8)"
    by (simp add: convertible_def Range_contains_def sample_set_def sample_type16_def)
  then have "\<exists>s \<in> set (candidates ?ss). convertible sample_type16 s" using c by simp
  from BuildConversionPipeline_converts_Lpcm [OF source_graph_output ok(1-4) this, of relay_ops "\<lambda>_. None"]
  obtain s t' r' g' where b: "first_best sample_type16 (candidates ?ss) 0 s"
    "BuildConversionPipeline relay_ops (\<lambda>_. None) (AudioStream sample_type16) ?ss (2, 0) source_graph = Inr (True, Some (AudioStream t'), r', g')"
    "ast_sample_format t' = (if set_sample_format s = kAny then ast_sample_format sample_type16 else set_sample_format s)"
    "if ast_sample_format t' = ast_sample_format sample_type16 then r' = (2, 0) \<and> g' = source_graph else appended (2, 0) r' source_graph g'"
    by blast
  have "s = sample_set kUnsigned8" using b(1) unfolding c first_best_def by (auto simp: Cons_eq_append_conv)
  then show ?thesis using b(2-4) ok(5) by (simp add: sample_set_def)
qed

end
