(* ===== verification/Message_Pump.thy ===== *)
theory Message_Pump
  imports Std_Map "HOL-Library.Sublist"
begin

text \<open>
  The message pump that waits for Mojo handles, mojo/message_pump/message_pump_mojo.h and
  message_pump_mojo.cc.

  Handles are natural numbers, of which 0 is the invalid one; times are microseconds, and
  0 is the null time. A handler is called with the state \<open>'c\<close> of whoever registers handlers and with
  the pump, as it may add and remove handlers. \<^verbatim>\<open>WaitMany\<close> is an argument: what it returns
  for the handles, the signals and the deadline it is given. The messages in the control pipe are
  counted. \<open>pm_log\<close> only records what observers and handlers have been told. The
  vectors that are kept to save allocations are not modelled.
\<close>

section \<open>State\<close>

type_synonym handle = nat

datatype MojoResult = MOJO_RESULT_OK | MOJO_RESULT_CANCELLED | MOJO_RESULT_INVALID_ARGUMENT | MOJO_RESULT_DEADLINE_EXCEEDED
  | MOJO_RESULT_FAILED_PRECONDITION | MOJO_RESULT_BUSY | MOJO_RESULT_ABORTED | MOJO_RESULT_OTHER

record 'h Handler =
  hnd_handler :: 'h
  hnd_signals :: u32
  hnd_deadline :: int
  hnd_id :: int

datatype 'h pump_event = Will nat | Did nat | Handle_ready handle 'h | Handle_error handle 'h MojoResult

record RunState =
  rs_delayed_work_time :: int
  rs_read_handle :: handle
  rs_messages :: nat
  rs_should_quit :: bool

record 'h Pump =
  pm_run_state :: "RunState option"
  pm_handlers :: "'h Handler omap"
  pm_next_handler_id :: int
  pm_observers :: "nat list"
  pm_log :: "'h pump_event list"

definition MessagePumpMojo_new :: "'h Pump" where
  "MessagePumpMojo_new = \<lparr>pm_run_state = None, pm_handlers = [], pm_next_handler_id = 0, pm_observers = [], pm_log = []\<rparr>"

text \<open>What handlers do when they are called.\<close>

record ('c, 'h) client =
  OnHandleReady :: "handle \<Rightarrow> 'h \<Rightarrow> 'c \<times> 'h Pump \<Rightarrow> ('c \<times> 'h Pump) res"
  OnHandleError :: "handle \<Rightarrow> 'h \<Rightarrow> MojoResult \<Rightarrow> 'c \<times> 'h Pump \<Rightarrow> ('c \<times> 'h Pump) res"

section \<open>Handlers and observers\<close>

definition AddHandler :: "'h \<Rightarrow> handle \<Rightarrow> u32 \<Rightarrow> int \<Rightarrow> 'h Pump \<Rightarrow> 'h Pump res" where
  "AddHandler handler handle wait_signals deadline p =
     dcheck (handle \<noteq> 0) (dcheck (handle \<notin> om_keys (pm_handlers p))
      (if in_int32 (pm_next_handler_id p + 1)
       then Inr (p\<lparr>pm_handlers := om_insert handle \<lparr>hnd_handler = handler, hnd_signals = wait_signals, hnd_deadline = deadline,
                     hnd_id = pm_next_handler_id p\<rparr> (pm_handlers p),
                   pm_next_handler_id := pm_next_handler_id p + 1\<rparr>)
       else Inl Signed_overflow))"

definition RemoveHandler :: "handle \<Rightarrow> 'h Pump \<Rightarrow> 'h Pump" where
  "RemoveHandler handle p = p\<lparr>pm_handlers := om_erase handle (pm_handlers p)\<rparr>"

definition AddObserver :: "nat \<Rightarrow> 'h Pump \<Rightarrow> 'h Pump" where
  "AddObserver obs p = p\<lparr>pm_observers := pm_observers p @ [obs]\<rparr>"

definition RemoveObserver :: "nat \<Rightarrow> 'h Pump \<Rightarrow> 'h Pump" where
  "RemoveObserver obs p = p\<lparr>pm_observers := remove1 obs (pm_observers p)\<rparr>"

definition WillSignalHandler :: "'h Pump \<Rightarrow> 'h Pump" where
  "WillSignalHandler p = p\<lparr>pm_log := pm_log p @ map Will (pm_observers p)\<rparr>"

definition DidSignalHandler :: "'h Pump \<Rightarrow> 'h Pump" where
  "DidSignalHandler p = p\<lparr>pm_log := pm_log p @ map Did (pm_observers p)\<rparr>"

text \<open>A handler is called between the two notifications.\<close>

definition signal_ready :: "('c, 'h) client \<Rightarrow> handle \<Rightarrow> 'h \<Rightarrow> 'c \<times> 'h Pump \<Rightarrow> ('c \<times> 'h Pump) res" where
  "signal_ready cl handle h s = (case s of (c, p) \<Rightarrow>
     let p1 = WillSignalHandler p
     in rbind (OnHandleReady cl handle h (c, p1\<lparr>pm_log := pm_log p1 @ [Handle_ready handle h]\<rparr>)) (\<lambda>(c, p). Inr (c, DidSignalHandler p)))"

definition signal_error :: "('c, 'h) client \<Rightarrow> handle \<Rightarrow> 'h \<Rightarrow> MojoResult \<Rightarrow> 'c \<times> 'h Pump \<Rightarrow> ('c \<times> 'h Pump) res" where
  "signal_error cl handle h result s = (case s of (c, p) \<Rightarrow>
     let p1 = WillSignalHandler p
     in rbind (OnHandleError cl handle h result (c, p1\<lparr>pm_log := pm_log p1 @ [Handle_error handle h result]\<rparr>)) (\<lambda>(c, p). Inr (c, DidSignalHandler p)))"

section \<open>One round of waiting\<close>

definition MOJO_DEADLINE_INDEFINITE :: u64 where
  "MOJO_DEADLINE_INDEFINITE = - 1"

definition TimeTicksToMojoDeadline :: "int \<Rightarrow> int \<Rightarrow> u64" where
  "TimeTicksToMojoDeadline time_ticks now =
     (if time_ticks = 0 then MOJO_DEADLINE_INDEFINITE
      else let delta = time_ticks - now in if delta < 0 then 0 else word_of_int delta)"

fun min_deadline :: "int \<Rightarrow> u64 \<Rightarrow> 'h Handler omap \<Rightarrow> u64" where
  "min_deadline now deadline [] = deadline"
| "min_deadline now deadline ((_, d) # hs) = min_deadline now (min (TimeTicksToMojoDeadline (hnd_deadline d) now) deadline) hs"

definition GetDeadlineForWait :: "int \<Rightarrow> RunState \<Rightarrow> 'h Pump \<Rightarrow> u64" where
  "GetDeadlineForWait now rs p = min_deadline now (TimeTicksToMojoDeadline (rs_delayed_work_time rs) now) (pm_handlers p)"

definition MOJO_HANDLE_SIGNAL_READABLE :: u32 where
  "MOJO_HANDLE_SIGNAL_READABLE = 1"

definition GetWaitState :: "RunState \<Rightarrow> 'h Pump \<Rightarrow> handle list \<times> u32 list" where
  "GetWaitState rs p = (rs_read_handle rs # map fst (pm_handlers p),
     MOJO_HANDLE_SIGNAL_READABLE # map (\<lambda>(_, d). hnd_signals d) (pm_handlers p))"

definition RemoveInvalidHandle :: "('c, 'h) client \<Rightarrow> handle list \<Rightarrow> MojoResult \<Rightarrow> nat \<Rightarrow> 'c \<times> 'h Pump \<Rightarrow> ('c \<times> 'h Pump) res" where
  "RemoveInvalidHandle cl handles result index s = (case s of (c, p) \<Rightarrow>
     dcheck (result = MOJO_RESULT_FAILED_PRECONDITION \<or> result = MOJO_RESULT_CANCELLED) (dcheck (index \<noteq> 0)
      (if index < length handles
       then (case map_of (pm_handlers p) (handles ! index) of None \<Rightarrow> Inl Dcheck_failed
             | Some d \<Rightarrow> signal_error cl (handles ! index) (hnd_handler d) result (c, RemoveHandler (handles ! index) p))
       else Inl Out_of_range)))"

text \<open>The loop over the copy of the handlers.\<close>

fun expire_handlers :: "('c, 'h) client \<Rightarrow> int \<Rightarrow> (handle \<times> 'h Handler) list \<Rightarrow> bool \<Rightarrow> 'c \<times> 'h Pump \<Rightarrow> (bool \<times> 'c \<times> 'h Pump) res" where
  "expire_handlers cl now [] did_work s = Inr (did_work, s)"
| "expire_handlers cl now ((h, d) # hs) did_work s =
     (if hnd_deadline d \<noteq> 0 \<and> hnd_deadline d < now \<and> map_option hnd_id (map_of (pm_handlers (snd s)) h) = Some (hnd_id d)
      then rbind (signal_error cl h (hnd_handler d) MOJO_RESULT_DEADLINE_EXCEEDED s) (\<lambda>(c, p). expire_handlers cl now hs True (c, RemoveHandler h p))
      else expire_handlers cl now hs did_work s)"

definition handle_wait_result :: "('c, 'h) client \<Rightarrow> RunState \<Rightarrow> handle list \<Rightarrow> MojoResult \<times> nat \<Rightarrow> 'c \<times> 'h Pump \<Rightarrow> (bool \<times> 'c \<times> 'h Pump) res" where
  "handle_wait_result cl rs handles r s = (case (r, s) of ((result, index), (c, p)) \<Rightarrow>
     (case result of
        MOJO_RESULT_OK \<Rightarrow>
          if index = 0 then Inr (True, c, p\<lparr>pm_run_state := Some (rs\<lparr>rs_messages := rs_messages rs - 1\<rparr>)\<rparr>)
          else if index < length handles
          then (case map_of (pm_handlers p) (handles ! index) of None \<Rightarrow> Inl Dcheck_failed
                | Some d \<Rightarrow> rbind (signal_ready cl (handles ! index) (hnd_handler d) (c, p)) (\<lambda>s. Inr (True, s)))
          else Inl Out_of_range
      | MOJO_RESULT_FAILED_PRECONDITION \<Rightarrow> rbind (RemoveInvalidHandle cl handles result index (c, p)) (\<lambda>s. Inr (True, s))
      | MOJO_RESULT_DEADLINE_EXCEEDED \<Rightarrow> Inr (False, c, p)
      | _ \<Rightarrow> Inl Dcheck_failed))"

definition DoInternalWork :: "('c, 'h) client \<Rightarrow> (handle list \<Rightarrow> u32 list \<Rightarrow> u64 \<Rightarrow> MojoResult \<times> nat) \<Rightarrow> int \<Rightarrow> int \<Rightarrow> bool \<Rightarrow>
    'c \<times> 'h Pump \<Rightarrow> (bool \<times> 'c \<times> 'h Pump) res" where
  "DoInternalWork cl WaitMany wait_now now block s = (case pm_run_state (snd s) of
     None \<Rightarrow> Inl Null_deref
   | Some rs \<Rightarrow>
       let deadline = (if block then GetDeadlineForWait wait_now rs (snd s) else 0);
           (handles, signals) = GetWaitState rs (snd s)
       in rbind (handle_wait_result cl rs handles (WaitMany handles signals deadline) s) (\<lambda>(did_work, c, p).
            expire_handlers cl now (pm_handlers p) did_work (c, p)))"

section \<open>The run loop\<close>

text \<open>What the delegate and the system do in one round of the loop.\<close>

record ('c, 'h) round =
  rd_wait :: "handle list \<Rightarrow> u32 list \<Rightarrow> u64 \<Rightarrow> MojoResult \<times> nat"
  rd_wait_now :: int
  rd_now :: int
  DoWork :: "'c \<times> 'h Pump \<Rightarrow> (bool \<times> 'c \<times> 'h Pump) res"
  DoDelayedWork :: "'c \<times> 'h Pump \<Rightarrow> (bool \<times> int \<times> 'c \<times> 'h Pump) res"
  DoIdleWork :: "'c \<times> 'h Pump \<Rightarrow> (bool \<times> 'c \<times> 'h Pump) res"

definition should_quit :: "'h Pump \<Rightarrow> bool res" where
  "should_quit p = (case pm_run_state p of None \<Rightarrow> Inl Null_deref | Some rs \<Rightarrow> Inr (rs_should_quit rs))"

definition with_run_state :: "(RunState \<Rightarrow> RunState) \<Rightarrow> 'h Pump \<Rightarrow> 'h Pump" where
  "with_run_state f p = p\<lparr>pm_run_state := map_option f (pm_run_state p)\<rparr>"

definition Quit :: "'h Pump \<Rightarrow> 'h Pump" where
  "Quit = with_run_state (\<lambda>rs. rs\<lparr>rs_should_quit := True\<rparr>)"

definition ScheduleWork :: "'h Pump \<Rightarrow> 'h Pump" where
  "ScheduleWork = with_run_state (\<lambda>rs. rs\<lparr>rs_messages := rs_messages rs + 1\<rparr>)"

definition ScheduleDelayedWork :: "int \<Rightarrow> 'h Pump \<Rightarrow> 'h Pump" where
  "ScheduleDelayedWork t = with_run_state (\<lambda>rs. rs\<lparr>rs_delayed_work_time := t\<rparr>)"

text \<open>The loop; \<open>None\<close> when it has not ended after the rounds.\<close>

fun DoRunLoop :: "('c, 'h) client \<Rightarrow> ('c, 'h) round list \<Rightarrow> bool \<Rightarrow> 'c \<times> 'h Pump \<Rightarrow> ('c \<times> 'h Pump) option res" where
  "DoRunLoop cl [] more_work_is_plausible s = Inr None"
| "DoRunLoop cl (rd # rds) more_work_is_plausible s =
     rbind (DoInternalWork cl (rd_wait rd) (rd_wait_now rd) (rd_now rd) (\<not> more_work_is_plausible) s) (\<lambda>(more, s1).
     rbind (should_quit (snd s1)) (\<lambda>q. if q then Inr (Some s1) else
     rbind (DoWork rd s1) (\<lambda>(w, s2).
     rbind (should_quit (snd s2)) (\<lambda>q. if q then Inr (Some s2) else
     rbind (DoDelayedWork rd s2) (\<lambda>(d, t, c3, p3). let s3 = (c3, ScheduleDelayedWork t p3) in
     rbind (should_quit (snd s3)) (\<lambda>q. if q then Inr (Some s3) else
       if more \<or> w \<or> d then DoRunLoop cl rds True s3
       else rbind (DoIdleWork rd s3) (\<lambda>(i, s4).
            rbind (should_quit (snd s4)) (\<lambda>q. if q then Inr (Some s4) else DoRunLoop cl rds i s4))))))))"

definition Run :: "('c, 'h) client \<Rightarrow> handle \<Rightarrow> ('c, 'h) round list \<Rightarrow> 'c \<times> 'h Pump \<Rightarrow> ('c \<times> 'h Pump) option res" where
  "Run cl read_handle rds s = (case s of (c, p) \<Rightarrow>
     dcheck (read_handle \<noteq> 0)
      (rbind (DoRunLoop cl rds True (c, p\<lparr>pm_run_state := Some \<lparr>rs_delayed_work_time = 0, rs_read_handle = read_handle,
         rs_messages = 0, rs_should_quit = False\<rparr>\<rparr>)) (\<lambda>r.
        Inr (map_option (\<lambda>(c, p'). (c, p'\<lparr>pm_run_state := pm_run_state p\<rparr>)) r))))"

section \<open>How long the pump waits\<close>

definition remaining :: "int \<Rightarrow> int \<Rightarrow> nat" where
  "remaining t now = nat (t - now)"

text \<open>Times that are at most half the range of a deadline away.\<close>

definition near :: "int \<Rightarrow> int \<Rightarrow> bool" where
  "near now t \<longleftrightarrow> t - now < 2 ^ 63"

lemma unat_word_of_int_u64: "0 \<le> x \<Longrightarrow> x < 2 ^ 63 \<Longrightarrow> unat (word_of_int x :: u64) = nat x"
  by (simp add: unsigned_of_int take_bit_int_eq_self)

lemma unat_TimeTicksToMojoDeadline:
  "near now t \<Longrightarrow> unat (TimeTicksToMojoDeadline t now) = (if t = 0 then 2 ^ 64 - 1 else remaining t now)"
  using unat_word_of_int_u64 [of "t - now"]
  by (auto simp: TimeTicksToMojoDeadline_def MOJO_DEADLINE_INDEFINITE_def near_def remaining_def unsigned_minus_1_eq_mask mask_eq_exp_minus_1 Let_def)

lemma unat_min_deadline:
  "unat (min_deadline now deadline hs) = Min (insert (unat deadline) ((\<lambda>(_, d). unat (TimeTicksToMojoDeadline (hnd_deadline d) now)) ` set hs))"
proof (induction now deadline hs rule: min_deadline.induct)
  case (2 now deadline h d hs)
  have "unat (min a b) = min (unat a) (unat b)" for a b :: u64 by (simp add: min_def word_le_nat_alt)
  with 2 show ?case by (cases "set hs = {}") (simp_all add: Min_insert min.assoc insert_commute min.left_commute)
qed simp

lemma Min_limits:
  assumes "finite T" "T \<noteq> {}" "\<And>t. t \<in> T \<Longrightarrow> r t \<le> M"
  shows "Min ((\<lambda>t :: int. if t = 0 then M else r t) ` T) = (if {t \<in> T. t \<noteq> 0} = {} then M else Min (r ` {t \<in> T. t \<noteq> 0}))"
proof (cases "{t \<in> T. t \<noteq> 0} = {}")
  case True
  then have "T = {0}" using assms(2) by auto
  then show ?thesis by simp
next
  case False
  define f where "f t = (if t = 0 then M else r t)" for t
  let ?T = "{t \<in> T. t \<noteq> 0}"
  obtain t0 where t0: "t0 \<in> ?T" using False by blast
  have le: "Min (r ` ?T) \<le> r t" if "t \<in> ?T" for t using that assms(1) by (intro Min_le) auto
  have "Min (r ` ?T) \<le> f t" if "t \<in> T" for t
    using that le [of t] le [OF t0] assms(3) [of t0] t0 by (cases "t = 0") (auto simp: f_def)
  then have "Min (r ` ?T) \<le> Min (f ` T)" using assms(1,2) by (simp add: Min_ge_iff)
  moreover have "Min (f ` T) \<le> r t" if "t \<in> ?T" for t
    using that assms(1) by (intro Min_le) (auto simp: f_def intro: rev_image_eqI)
  then have "Min (f ` T) \<le> Min (r ` ?T)" using assms(1) False by (simp add: Min_ge_iff)
  ultimately show ?thesis using False by (simp only: f_def [symmetric] if_False)
qed

section \<open>What the pump relies on\<close>

definition pump_ok :: "'h Pump \<Rightarrow> bool" where
  "pump_ok p \<longleftrightarrow> om_wf (pm_handlers p) \<and> (\<forall>h d. map_of (pm_handlers p) h = Some d \<longrightarrow> h \<noteq> 0 \<and> hnd_id d < pm_next_handler_id p)"

text \<open>What may happen to the pump while a handler runs: handlers are removed and new ones are added.\<close>

definition pump_ext :: "'h Pump \<Rightarrow> 'h Pump \<Rightarrow> bool" where
  "pump_ext p p' \<longleftrightarrow> pm_next_handler_id p \<le> pm_next_handler_id p' \<and>
     (\<forall>h d. map_of (pm_handlers p') h = Some d \<longrightarrow> map_of (pm_handlers p) h = Some d \<or> pm_next_handler_id p \<le> hnd_id d) \<and>
     (pm_run_state p \<noteq> None \<longrightarrow> pm_run_state p' \<noteq> None)"

lemma pump_extD: "pump_ext p p' \<Longrightarrow> map_of (pm_handlers p') h = Some d \<Longrightarrow> hnd_id d < pm_next_handler_id p \<Longrightarrow> map_of (pm_handlers p) h = Some d"
  unfolding pump_ext_def by (meson linorder_not_le)

lemma pump_ext_next: "pump_ext p p' \<Longrightarrow> pm_next_handler_id p \<le> pm_next_handler_id p'"
  by (simp add: pump_ext_def)

lemma pump_ext_refl: "pump_ext p p"
  by (simp add: pump_ext_def)

lemma pump_ext_trans: "pump_ext p p1 \<Longrightarrow> pump_ext p1 p2 \<Longrightarrow> pump_ext p p2"
  unfolding pump_ext_def by (meson order_trans)

lemma pump_ext_RemoveHandler: "pump_ext p (RemoveHandler h p)"
  by (simp add: pump_ext_def RemoveHandler_def map_of_om_erase)

lemma remove_gone: "map_of (pm_handlers p) h = None \<Longrightarrow> RemoveHandler h p = p"
  by (simp add: RemoveHandler_def om_erase_absent)

definition expired :: "int \<Rightarrow> 'h Handler \<Rightarrow> bool" where
  "expired now d \<longleftrightarrow> hnd_deadline d \<noteq> 0 \<and> hnd_deadline d < now"

text \<open>The handles whose handlers have been told of an error.\<close>

fun errors_of :: "'h pump_event list \<Rightarrow> handle list" where
  "errors_of [] = []"
| "errors_of (Handle_error h x r # es) = h # errors_of es"
| "errors_of (_ # es) = errors_of es"

lemma errors_of_append [simp]: "errors_of (xs @ ys) = errors_of xs @ errors_of ys"
  by (induction xs rule: errors_of.induct) simp_all

lemma errors_of_observers [simp]: "errors_of (map Will os) = []" "errors_of (map Did os) = []"
  by (induction os) simp_all

text \<open>
  The contract of those who register handlers: a call of a handler succeeds and keeps their invariant,
  and when a handler is told of an error, it leaves no handler for the handle behind, as
  the pump removes whatever is registered for the handle after the call.
\<close>

text \<open>
  What \<^verbatim>\<open>WaitMany\<close> may return for \<open>n\<close> handles, of which the first is the control pipe: that a
  handle is ready, that a handle will never be, or that the deadline has passed. The
  control pipe stays usable while its other end is open.
\<close>

definition wait_ok :: "nat \<Rightarrow> MojoResult \<times> nat \<Rightarrow> bool" where
  "wait_ok n r = (case r of (result, i) \<Rightarrow> (case result of MOJO_RESULT_OK \<Rightarrow> i < n
     | MOJO_RESULT_FAILED_PRECONDITION \<Rightarrow> 0 < i \<and> i < n | MOJO_RESULT_DEADLINE_EXCEEDED \<Rightarrow> True | _ \<Rightarrow> False))"

text \<open>What the delegate of the loop promises, and that it quits in its first part.\<close>

definition delegate_ok :: "('c \<times> 'h Pump \<Rightarrow> bool) \<Rightarrow> ('c, 'h) round \<Rightarrow> bool" where
  "delegate_ok good rd \<longleftrightarrow> (\<forall>handles signals deadline. handles \<noteq> [] \<longrightarrow> wait_ok (length handles) (rd_wait rd handles signals deadline)) \<and>
     (\<forall>c p. good (c, p) \<longrightarrow> pm_run_state p \<noteq> None \<longrightarrow>
       (\<exists>w c' p'. DoWork rd (c, p) = Inr (w, c', p') \<and> good (c', p') \<and> pm_run_state p' \<noteq> None) \<and>
       (\<exists>w t c' p'. DoDelayedWork rd (c, p) = Inr (w, t, c', p') \<and> good (c', p') \<and> pm_run_state p' \<noteq> None) \<and>
       (\<exists>w c' p'. DoIdleWork rd (c, p) = Inr (w, c', p') \<and> good (c', p') \<and> pm_run_state p' \<noteq> None))"

definition quits :: "('c, 'h) round \<Rightarrow> bool" where
  "quits rd \<longleftrightarrow> (\<forall>c p w c' p'. pm_run_state p \<noteq> None \<longrightarrow> DoWork rd (c, p) = Inr (w, c', p') \<longrightarrow> should_quit p' = Inr True)"

lemma delegate_ok_wait: "delegate_ok good rd \<Longrightarrow> handles \<noteq> [] \<Longrightarrow> wait_ok (length handles) (rd_wait rd handles signals deadline)"
  by (simp add: delegate_ok_def)

lemma should_quit_running: "pm_run_state p \<noteq> None \<Longrightarrow> \<exists>q. should_quit p = Inr q"
  by (auto simp: should_quit_def)

locale pump_client =
  fixes cl :: "('c, 'h) client" and client_inv :: "'c \<times> 'h Pump \<Rightarrow> bool"
  assumes pump: "client_inv (c, p) \<Longrightarrow> pump_ok p"
    and log: "client_inv (c, p) \<Longrightarrow> client_inv (c, p\<lparr>pm_log := es\<rparr>)"
    and run_state: "client_inv (c, p) \<Longrightarrow> client_inv (c, p\<lparr>pm_run_state := rs\<rparr>)"
    and ready: "client_inv (c, p) \<Longrightarrow> map_of (pm_handlers p) h = Some d \<Longrightarrow>
      \<exists>c' p'. OnHandleReady cl h (hnd_handler d) (c, p) = Inr (c', p') \<and> client_inv (c', p') \<and> pump_ext p p' \<and> pm_log p' = pm_log p"
    and error: "client_inv (c, p) \<Longrightarrow> map_of (pm_handlers p) h = Some d \<Longrightarrow> p0 = p \<or> p0 = RemoveHandler h p \<Longrightarrow>
      \<exists>c' p'. OnHandleError cl h (hnd_handler d) r (c, p0) = Inr (c', p') \<and> client_inv (c', p') \<and> pump_ext p p' \<and> pm_log p' = pm_log p \<and>
        map_of (pm_handlers p') h = None"
begin

lemma signal_ready_ok:
  assumes "client_inv (c, p)" "map_of (pm_handlers p) h = Some d"
  obtains c' p' where "signal_ready cl h (hnd_handler d) (c, p) = Inr (c', p')" "client_inv (c', p')" "pump_ext p p'"
    "\<exists>es. pm_log p' = pm_log p @ es \<and> errors_of es = []"
proof -
  let ?p = "p\<lparr>pm_log := pm_log p @ map Will (pm_observers p) @ [Handle_ready h (hnd_handler d)]\<rparr>"
  obtain c' p' where p': "OnHandleReady cl h (hnd_handler d) (c, ?p) = Inr (c', p')" "client_inv (c', p')" "pump_ext ?p p'" "pm_log p' = pm_log ?p"
    using ready [OF log [OF assms(1), of "pm_log ?p"], of h d] assms(2) by auto
  show thesis
  proof (rule that)
    show "signal_ready cl h (hnd_handler d) (c, p) = Inr (c', DidSignalHandler p')"
      using p'(1) by (simp add: signal_ready_def WillSignalHandler_def Let_def)
    show "client_inv (c', DidSignalHandler p')" using log [OF p'(2)] by (simp add: DidSignalHandler_def)
  qed (use p'(3,4) in \<open>simp_all add: pump_ext_def DidSignalHandler_def\<close>)
qed

lemma signal_error_ok:
  assumes "client_inv (c, p)" "map_of (pm_handlers p) h = Some d" "p0 = p \<or> p0 = RemoveHandler h p"
  obtains c' p' where "signal_error cl h (hnd_handler d) r (c, p0) = Inr (c', p')" "client_inv (c', p')" "pump_ext p p'"
    "map_of (pm_handlers p') h = None" "\<exists>es. pm_log p' = pm_log p @ es \<and> errors_of es = [h]"
proof -
  let ?l = "pm_log p @ map Will (pm_observers p) @ [Handle_error h (hnd_handler d) r]"
  have "p0\<lparr>pm_log := ?l\<rparr> = p\<lparr>pm_log := ?l\<rparr> \<or> p0\<lparr>pm_log := ?l\<rparr> = RemoveHandler h (p\<lparr>pm_log := ?l\<rparr>)"
    using assms(3) by (auto simp: RemoveHandler_def)
  then obtain c' p' where p': "OnHandleError cl h (hnd_handler d) r (c, p0\<lparr>pm_log := ?l\<rparr>) = Inr (c', p')" "client_inv (c', p')"
    "pump_ext (p\<lparr>pm_log := ?l\<rparr>) p'" "pm_log p' = ?l" "map_of (pm_handlers p') h = None"
    using error [OF log [OF assms(1), of ?l], of h d "p0\<lparr>pm_log := ?l\<rparr>" r] assms(2) by auto
  have l0: "pm_log p0 = pm_log p" "pm_observers p0 = pm_observers p" using assms(3) by (auto simp: RemoveHandler_def)
  show thesis
  proof (rule that)
    show "signal_error cl h (hnd_handler d) r (c, p0) = Inr (c', DidSignalHandler p')"
      using p'(1) l0 by (simp add: signal_error_def WillSignalHandler_def Let_def)
    show "client_inv (c', DidSignalHandler p')" using log [OF p'(2)] by (simp add: DidSignalHandler_def)
  qed (use p'(3,4,5) in \<open>simp_all add: pump_ext_def DidSignalHandler_def\<close>)
qed

lemma expire_handlers_ok:
  assumes "client_inv (c, p)" "pump_ok p0" "pump_ext p0 p" "\<forall>(h, d) \<in> set hs. map_of (pm_handlers p0) h = Some d"
  shows "\<exists>did' c' p'. expire_handlers cl now hs did (c, p) = Inr (did', c', p') \<and> client_inv (c', p') \<and> pump_ext p p' \<and>
    (\<exists>es. pm_log p' = pm_log p @ es \<and> subseq (errors_of es) (map fst (filter (\<lambda>(_, d). expired now d) hs))) \<and>
    (\<forall>h d. (h, d) \<in> set hs \<longrightarrow> map_of (pm_handlers p') h = Some d \<longrightarrow> \<not> expired now d)"
  using assms
proof (induction hs arbitrary: c p did)
  case Nil
  then show ?case by (auto simp: pump_ext_refl)
next
  case (Cons x hs)
  obtain h d where x: "x = (h, d)" by (cases x)
  have d: "map_of (pm_handlers p0) h = Some d" "hnd_id d < pm_next_handler_id p0" using Cons.prems(2,4) by (auto simp: x pump_ok_def)
  have hs: "\<forall>(h, d) \<in> set hs. map_of (pm_handlers p0) h = Some d" using Cons.prems(4) by auto
  show ?case
  proof (cases "expired now d \<and> map_option hnd_id (map_of (pm_handlers p) h) = Some (hnd_id d)")
    case True
    then obtain e where e: "map_of (pm_handlers p) h = Some e" "hnd_id e = hnd_id d" by auto
    have pd: "map_of (pm_handlers p) h = Some d" using pump_extD [OF Cons.prems(3) e(1)] e d by simp
    obtain c1 p1 where p1: "signal_error cl h (hnd_handler d) MOJO_RESULT_DEADLINE_EXCEEDED (c, p) = Inr (c1, p1)" "client_inv (c1, p1)" "pump_ext p p1"
      "map_of (pm_handlers p1) h = None" "\<exists>es. pm_log p1 = pm_log p @ es \<and> errors_of es = [h]"
      using signal_error_ok [OF Cons.prems(1) pd disjI1 [OF refl]] .
    have r: "RemoveHandler h p1 = p1" using p1(4) by (rule remove_gone)
    obtain did' c' p' where p': "expire_handlers cl now hs True (c1, p1) = Inr (did', c', p')" "client_inv (c', p')" "pump_ext p1 p'"
      "\<exists>es. pm_log p' = pm_log p1 @ es \<and> subseq (errors_of es) (map fst (filter (\<lambda>(_, d). expired now d) hs))"
      "\<forall>h d. (h, d) \<in> set hs \<longrightarrow> map_of (pm_handlers p') h = Some d \<longrightarrow> \<not> expired now d"
      using Cons.IH [OF p1(2) Cons.prems(2) pump_ext_trans [OF Cons.prems(3) p1(3)] hs] by blast
    have "map_of (pm_handlers p') h \<noteq> Some d"
    proof
      assume "map_of (pm_handlers p') h = Some d"
      from pump_extD [OF p'(3) this] pump_ext_next [OF p1(3)] pump_ext_next [OF Cons.prems(3)] d(2) p1(4) show False by simp
    qed
    moreover have "\<exists>es. pm_log p' = pm_log p @ es \<and> subseq (errors_of es) (h # map fst (filter (\<lambda>(_, d). expired now d) hs))"
      using p1(5) p'(4) by (metis append.assoc append_Cons append_Nil errors_of_append subseq_Cons2)
    moreover have "expire_handlers cl now (x # hs) did (c, p) = Inr (did', c', p')"
      using True p1(1) p'(1) by (simp add: x expired_def r)
    ultimately show ?thesis using p'(2,5) pump_ext_trans [OF p1(3) p'(3)] True by (auto simp: x)
  next
    case False
    obtain did' c' p' where p': "expire_handlers cl now hs did (c, p) = Inr (did', c', p')" "client_inv (c', p')" "pump_ext p p'"
      "\<exists>es. pm_log p' = pm_log p @ es \<and> subseq (errors_of es) (map fst (filter (\<lambda>(_, d). expired now d) hs))"
      "\<forall>h d. (h, d) \<in> set hs \<longrightarrow> map_of (pm_handlers p') h = Some d \<longrightarrow> \<not> expired now d"
      using Cons.IH [OF Cons.prems(1-3) hs] by blast
    have "\<not> expired now d" if "map_of (pm_handlers p') h = Some d"
    proof -
      have "map_of (pm_handlers p) h = Some d" using pump_extD [OF p'(3) that] pump_ext_next [OF Cons.prems(3)] d(2) by simp
      with False show ?thesis by simp
    qed
    moreover have "expire_handlers cl now (x # hs) did (c, p) = Inr (did', c', p')"
      using False p'(1) by (auto simp: x expired_def)
    ultimately show ?thesis using p'(2-5) by (auto simp: x intro: list_emb_Cons)
  qed
qed

lemma handle_wait_result_ok:
  assumes inv: "client_inv (c, p)" and w: "wait_ok (length (pm_handlers p) + 1) r"
  shows "\<exists>did c' p'. handle_wait_result cl rs (rh # map fst (pm_handlers p)) r (c, p) = Inr (did, c', p') \<and> client_inv (c', p') \<and> pump_ext p p' \<and>
    (\<exists>es. pm_log p' = pm_log p @ es \<and> errors_of es = (if fst r = MOJO_RESULT_FAILED_PRECONDITION then [fst (pm_handlers p ! (snd r - 1))] else []))"
proof -
  obtain result i where r: "r = (result, i)" by (cases r)
  have h: "\<exists>d. map_of (pm_handlers p) ((rh # map fst (pm_handlers p)) ! i) = Some d" if "0 < i" "i < length (pm_handlers p) + 1"
  proof -
    have "(rh # map fst (pm_handlers p)) ! i \<in> om_keys (pm_handlers p)" using that by (cases i) auto
    then show ?thesis by (simp add: om_keys_dom)
  qed
  consider (control) "result = MOJO_RESULT_OK" "i = 0" | (ready) "result = MOJO_RESULT_OK" "0 < i" "i < length (pm_handlers p) + 1"
    | (failed) "result = MOJO_RESULT_FAILED_PRECONDITION" "0 < i" "i < length (pm_handlers p) + 1" | (timeout) "result = MOJO_RESULT_DEADLINE_EXCEEDED"
    using w by (cases result) (auto simp: r wait_ok_def)
  then show ?thesis
  proof cases
    case control
    then show ?thesis using run_state [OF inv] by (auto simp: r handle_wait_result_def pump_ext_def)
  next
    case ready
    with h obtain d where d: "map_of (pm_handlers p) ((rh # map fst (pm_handlers p)) ! i) = Some d" by blast
    obtain c' p' where "signal_ready cl ((rh # map fst (pm_handlers p)) ! i) (hnd_handler d) (c, p) = Inr (c', p')" "client_inv (c', p')" "pump_ext p p'"
      "\<exists>es. pm_log p' = pm_log p @ es \<and> errors_of es = []" using signal_ready_ok [OF inv d] .
    with ready d show ?thesis by (auto simp: r handle_wait_result_def)
  next
    case failed
    with h obtain d where d: "map_of (pm_handlers p) ((rh # map fst (pm_handlers p)) ! i) = Some d" by blast
    let ?h = "(rh # map fst (pm_handlers p)) ! i"
    obtain c' p' where "signal_error cl ?h (hnd_handler d) result (c, RemoveHandler ?h p) = Inr (c', p')" "client_inv (c', p')" "pump_ext p p'"
      "map_of (pm_handlers p') ?h = None" "\<exists>es. pm_log p' = pm_log p @ es \<and> errors_of es = [?h]" using signal_error_ok [OF inv d disjI2 [OF refl]] .
    moreover have "?h = fst (pm_handlers p ! (i - 1))" using failed by (cases i) auto
    ultimately show ?thesis using failed d by (auto simp: r handle_wait_result_def RemoveInvalidHandle_def)
  next
    case timeout
    then show ?thesis using inv by (auto simp: r handle_wait_result_def pump_ext_refl)
  qed
qed

lemma DoInternalWork_ok:
  assumes inv: "client_inv (c, p)" and rs: "pm_run_state p = Some rs"
    and w: "\<And>signals deadline. wait_ok (length (pm_handlers p) + 1) (WaitMany (rs_read_handle rs # map fst (pm_handlers p)) signals deadline)"
  shows "\<exists>did c' p'. DoInternalWork cl WaitMany wait_now now block (c, p) = Inr (did, c', p') \<and> client_inv (c', p') \<and> pump_ext p p' \<and>
    (\<forall>h d. map_of (pm_handlers p') h = Some d \<longrightarrow> hnd_id d < pm_next_handler_id p \<longrightarrow> map_of (pm_handlers p) h = Some d \<and> \<not> expired now d)"
proof -
  let ?handles = "rs_read_handle rs # map fst (pm_handlers p)"
  let ?r = "WaitMany ?handles (snd (GetWaitState rs p)) (if block then GetDeadlineForWait wait_now rs p else 0)"
  obtain did c1 p1 where p1: "handle_wait_result cl rs ?handles ?r (c, p) = Inr (did, c1, p1)" "client_inv (c1, p1)" "pump_ext p p1"
    using handle_wait_result_ok [OF inv w] by blast
  have ok: "pump_ok p1" using p1(2) by (rule pump)
  have "\<forall>(h, d) \<in> set (pm_handlers p1). map_of (pm_handlers p1) h = Some d" using ok by (auto simp: pump_ok_def om_mem_iff)
  from expire_handlers_ok [OF p1(2) ok pump_ext_refl this, of now did]
  obtain did' c' p' where p': "expire_handlers cl now (pm_handlers p1) did (c1, p1) = Inr (did', c', p')" "client_inv (c', p')" "pump_ext p1 p'"
    "\<forall>h d. (h, d) \<in> set (pm_handlers p1) \<longrightarrow> map_of (pm_handlers p') h = Some d \<longrightarrow> \<not> expired now d" by blast
  have "map_of (pm_handlers p) h = Some d \<and> \<not> expired now d"
    if hd: "map_of (pm_handlers p') h = Some d" "hnd_id d < pm_next_handler_id p" for h d
  proof -
    have "hnd_id d < pm_next_handler_id p1" using pump_ext_next [OF p1(3)] hd(2) by simp
    with pump_extD [OF p'(3) hd(1)] have "map_of (pm_handlers p1) h = Some d" by simp
    with pump_extD [OF p1(3) this hd(2)] p'(4) hd(1) show ?thesis by (auto dest: map_of_SomeD)
  qed
  moreover have "DoInternalWork cl WaitMany wait_now now block (c, p) = Inr (did', c', p')"
    using p1(1) p'(1) rs by (cases block) (simp_all add: DoInternalWork_def GetWaitState_def Let_def)
  ultimately show ?thesis using p'(2) pump_ext_trans [OF p1(3) p'(3)] by blast
qed

lemma DoRunLoop_ok:
  assumes "client_inv (c, p)" "pm_run_state p \<noteq> None" "list_all (delegate_ok client_inv) rds"
  shows "\<exists>r. DoRunLoop cl rds plausible (c, p) = Inr r \<and> (\<forall>c' p'. r = Some (c', p') \<longrightarrow> client_inv (c', p') \<and> should_quit p' = Inr True) \<and>
    (list_ex quits rds \<longrightarrow> r \<noteq> None)"
  using assms
proof (induction rds arbitrary: c p plausible)
  case (Cons rd rds)
  obtain rs where rs: "pm_run_state p = Some rs" using Cons.prems(2) by blast
  have rd: "delegate_ok client_inv rd" "list_all (delegate_ok client_inv) rds" using Cons.prems(3) by simp_all
  then have "wait_ok (length (pm_handlers p) + 1) (rd_wait rd (rs_read_handle rs # map fst (pm_handlers p)) sg dl)" for sg dl
    using delegate_ok_wait [OF rd(1), of "rs_read_handle rs # map fst (pm_handlers p)" sg dl] by simp
  with DoInternalWork_ok [OF Cons.prems(1) rs, of "rd_wait rd" "rd_wait_now rd" "rd_now rd" "\<not> plausible"] obtain m1 c1 p1 where
    w1: "DoInternalWork cl (rd_wait rd) (rd_wait_now rd) (rd_now rd) (\<not> plausible) (c, p) = Inr (m1, c1, p1)" "client_inv (c1, p1)" and "pump_ext p p1" by blast
  then have r1: "pm_run_state p1 \<noteq> None" using rs by (simp add: pump_ext_def)
  obtain w c2 p2 where w2: "DoWork rd (c1, p1) = Inr (w, c2, p2)" "client_inv (c2, p2)" "pm_run_state p2 \<noteq> None"
    using rd(1) w1(2) r1 unfolding delegate_ok_def by blast
  obtain d t c3 p3 where w3: "DoDelayedWork rd (c2, p2) = Inr (d, t, c3, p3)" "client_inv (c3, p3)" "pm_run_state p3 \<noteq> None"
    using rd(1) w2(2,3) unfolding delegate_ok_def by blast
  let ?p = "ScheduleDelayedWork t p3"
  have i3: "client_inv (c3, ?p)" "pm_run_state ?p \<noteq> None" using run_state [OF w3(2)] w3(3) by (auto simp: ScheduleDelayedWork_def with_run_state_def)
  obtain i c4 p4 where w4: "DoIdleWork rd (c3, ?p) = Inr (i, c4, p4)" "client_inv (c4, p4)" "pm_run_state p4 \<noteq> None"
    using rd(1) i3 unfolding delegate_ok_def by blast
  obtain q1 q2 q3 q4 where q: "should_quit p1 = Inr q1" "should_quit p2 = Inr q2" "should_quit ?p = Inr q3" "should_quit p4 = Inr q4"
    using should_quit_running r1 w2(3) i3(2) w4(3) by metis
  have quit: "q2" if "quits rd" using that w2(1) r1 q(2) unfolding quits_def by fastforce
  note IH = Cons.IH [OF i3(1,2) rd(2), of True] Cons.IH [OF w4(2,3) rd(2), of i]
  show ?case using IH w1 w2 i3 w4 q quit by (auto simp: w3(1) Let_def)
qed simp

end

text \<open>
  A blocking wait never sleeps past a deadline: it ends no later than the deadline of any handler
  that has one and than the time of the next delayed work, it does not wait at all when one
  of them has passed, and it waits without a limit only if there is none.
\<close>

lemma GetDeadlineForWait_exact:
  assumes "near now (rs_delayed_work_time rs)" "\<forall>(h, d) \<in> set (pm_handlers p). near now (hnd_deadline d)"
  shows "let times = {t \<in> insert (rs_delayed_work_time rs) ((\<lambda>(_, d). hnd_deadline d) ` set (pm_handlers p)). t \<noteq> 0}
    in unat (GetDeadlineForWait now rs p) = (if times = {} then 2 ^ 64 - 1 else Min ((\<lambda>t. remaining t now) ` times))"
proof -
  let ?ts = "insert (rs_delayed_work_time rs) ((\<lambda>(_, d). hnd_deadline d) ` set (pm_handlers p))"
  let ?f = "\<lambda>t. if t = 0 then 2 ^ 64 - 1 else remaining t now"
  have near: "near now t" if "t \<in> ?ts" for t using assms that by auto
  have "unat (GetDeadlineForWait now rs p) = Min ((\<lambda>t. unat (TimeTicksToMojoDeadline t now)) ` ?ts)"
    by (simp add: GetDeadlineForWait_def unat_min_deadline image_image case_prod_beta')
  also have "(\<lambda>t. unat (TimeTicksToMojoDeadline t now)) ` ?ts = ?f ` ?ts"
    by (rule image_cong [OF refl]) (rule unat_TimeTicksToMojoDeadline [OF near])
  finally have m: "unat (GetDeadlineForWait now rs p) = Min (?f ` ?ts)" .
  have "remaining t now \<le> 2 ^ 64 - 1" if "t \<in> ?ts" for t using near [OF that] by (simp add: near_def remaining_def)
  from Min_limits [of ?ts, OF _ _ this] m show ?thesis by (simp only: Let_def) simp
qed

lemma GetDeadlineForWait_exact_example:
  "let p = MessagePumpMojo_new\<lparr>pm_handlers := [(5, \<lparr>hnd_handler = (), hnd_signals = 1, hnd_deadline = 30, hnd_id = 0\<rparr>),
       (6, \<lparr>hnd_handler = (), hnd_signals = 1, hnd_deadline = 0, hnd_id = 1\<rparr>)]\<rparr>;
     rs = \<lparr>rs_delayed_work_time = 25, rs_read_handle = 1, rs_messages = 0, rs_should_quit = False\<rparr>
   in unat (GetDeadlineForWait 20 rs p) = 5"
proof -
  let ?p = "MessagePumpMojo_new\<lparr>pm_handlers := [(5, \<lparr>hnd_handler = (), hnd_signals = 1, hnd_deadline = 30, hnd_id = 0\<rparr>),
       (6, \<lparr>hnd_handler = (), hnd_signals = 1, hnd_deadline = 0, hnd_id = 1\<rparr>)]\<rparr>"
  let ?rs = "\<lparr>rs_delayed_work_time = 25, rs_read_handle = 1, rs_messages = 0, rs_should_quit = False\<rparr>"
  have times: "{t \<in> insert (rs_delayed_work_time ?rs) ((\<lambda>(_, d). hnd_deadline d) ` set (pm_handlers ?p)). t \<noteq> 0} = {25, 30}" by auto
  show ?thesis using GetDeadlineForWait_exact [of 20 ?rs ?p, unfolded Let_def times] by (simp add: near_def remaining_def)
qed

end
