(* ===== verification/Handle_Watcher.thy ===== *)
theory Handle_Watcher
  imports Message_Pump "HOL-Library.Multiset"
begin

text \<open>
  Watching handles, mojo/message_pump/handle_watcher.cc: \<^verbatim>\<open>WatcherBackend\<close>, which registers
  handlers with the pump of its thread, \<^verbatim>\<open>WatcherThreadManager\<close>, through which other threads reach
  it, and the watcher for a thread that runs the pump itself.

  A callback is known by the number of its watch. \<open>be_posted\<close> are the callbacks that have been posted to
  their threads, with the results they get. \<open>mg_tasks\<close> counts the posted calls of
  \<^verbatim>\<open>ProcessRequestsOnBackendThread\<close>; \<open>mg_signalled\<close> are the watches whose stop event has been
  signalled, and \<open>mg_removed\<close> only records the watches that a stop has taken away.
\<close>

section \<open>The backend\<close>

text \<open>The number of microseconds becomes signed.\<close>

definition MojoDeadlineToTimeTicks :: "int \<Rightarrow> u64 \<Rightarrow> int" where
  "MojoDeadlineToTimeTicks now deadline = (if deadline = MOJO_DEADLINE_INDEFINITE then 0 else now + sint deadline)"

record WatchData =
  wd_id :: nat
  wd_handle :: handle
  wd_handle_signals :: u32
  wd_deadline :: int

record Backend =
  be_data :: "WatchData omap"
  be_posted :: "(nat \<times> MojoResult) list"

definition RemoveAndNotify :: "handle \<Rightarrow> MojoResult \<Rightarrow> Backend \<times> unit Pump \<Rightarrow> Backend \<times> unit Pump" where
  "RemoveAndNotify handle result s = (case s of (b, p) \<Rightarrow>
     (case map_of (be_data b) handle of None \<Rightarrow> (b, p)
      | Some data \<Rightarrow> (b\<lparr>be_data := om_erase handle (be_data b), be_posted := be_posted b @ [(wd_id data, result)]\<rparr>, RemoveHandler handle p)))"

definition Backend_StartWatching :: "WatchData \<Rightarrow> Backend \<times> unit Pump \<Rightarrow> (Backend \<times> unit Pump) res" where
  "Backend_StartWatching data s = (case RemoveAndNotify (wd_handle data) MOJO_RESULT_CANCELLED s of (b, p) \<Rightarrow>
     dcheck (wd_handle data \<notin> om_keys (be_data b))
      (rbind (AddHandler () (wd_handle data) (wd_handle_signals data) (wd_deadline data) p) (\<lambda>p.
         Inr (b\<lparr>be_data := om_insert (wd_handle data) data (be_data b)\<rparr>, p))))"

definition GetMojoHandleByWatcherID :: "nat \<Rightarrow> Backend \<Rightarrow> handle option" where
  "GetMojoHandleByWatcherID watcher_id b =
     map_option (\<lambda>(_, data). wd_handle data) (List.find (\<lambda>(_, data). wd_id data = watcher_id) (be_data b))"

definition Backend_StopWatching :: "nat \<Rightarrow> Backend \<times> unit Pump \<Rightarrow> Backend \<times> unit Pump" where
  "Backend_StopWatching watcher_id s = (case s of (b, p) \<Rightarrow>
     (case GetMojoHandleByWatcherID watcher_id b of None \<Rightarrow> (b, p)
      | Some handle \<Rightarrow> (b\<lparr>be_data := om_erase handle (be_data b)\<rparr>, RemoveHandler handle p)))"

definition backend_client :: "(Backend, unit) client" where
  "backend_client = \<lparr>OnHandleReady = (\<lambda>handle _ s. Inr (RemoveAndNotify handle MOJO_RESULT_OK s)),
     OnHandleError = (\<lambda>handle _ result s. Inr (RemoveAndNotify handle result s))\<rparr>"

section \<open>The manager\<close>

datatype RequestData = REQUEST_START WatchData | REQUEST_STOP nat

record Manager =
  mg_requests :: "RequestData list"
  mg_next_id :: nat
  mg_tasks :: nat
  mg_backend :: Backend
  mg_pump :: "unit Pump"
  mg_signalled :: "nat list"
  mg_removed :: "nat list"

text \<open>The thread of the manager runs its pump.\<close>

definition WatcherThreadManager_new :: "handle \<Rightarrow> Manager" where
  "WatcherThreadManager_new read_handle = \<lparr>mg_requests = [], mg_next_id = 0, mg_tasks = 0, mg_backend = \<lparr>be_data = [], be_posted = []\<rparr>,
     mg_pump = MessagePumpMojo_new\<lparr>pm_run_state := Some \<lparr>rs_delayed_work_time = 0, rs_read_handle = read_handle, rs_messages = 0,
       rs_should_quit = False\<rparr>\<rparr>, mg_signalled = [], mg_removed = []\<rparr>"

definition AddRequest :: "RequestData \<Rightarrow> Manager \<Rightarrow> Manager" where
  "AddRequest data m = m\<lparr>mg_requests := mg_requests m @ [data], mg_tasks := (if mg_requests m = [] then mg_tasks m + 1 else mg_tasks m)\<rparr>"

definition StartWatching :: "handle \<Rightarrow> u32 \<Rightarrow> int \<Rightarrow> Manager \<Rightarrow> nat \<times> Manager" where
  "StartWatching handle handle_signals deadline m =
     (mg_next_id m, AddRequest (REQUEST_START \<lparr>wd_id = mg_next_id m, wd_handle = handle, wd_handle_signals = handle_signals,
        wd_deadline = deadline\<rparr>) (m\<lparr>mg_next_id := mg_next_id m + 1\<rparr>))"

definition is_start :: "nat \<Rightarrow> RequestData \<Rightarrow> bool" where
  "is_start watcher_id r = (case r of REQUEST_START data \<Rightarrow> wd_id data = watcher_id | REQUEST_STOP _ \<Rightarrow> False)"

fun erase_start :: "nat \<Rightarrow> RequestData list \<Rightarrow> RequestData list" where
  "erase_start watcher_id [] = []"
| "erase_start watcher_id (r # rs) = (if is_start watcher_id r then rs else r # erase_start watcher_id rs)"

text \<open>If no request is erased, the caller waits for the stop event.\<close>

definition StopWatching :: "nat \<Rightarrow> Manager \<Rightarrow> Manager" where
  "StopWatching watcher_id m =
     (if list_ex (is_start watcher_id) (mg_requests m)
      then m\<lparr>mg_requests := erase_start watcher_id (mg_requests m), mg_removed := mg_removed m @ [watcher_id]\<rparr>
      else AddRequest (REQUEST_STOP watcher_id) m)"

fun process_requests :: "RequestData list \<Rightarrow> Manager \<Rightarrow> Manager res" where
  "process_requests [] m = Inr m"
| "process_requests (REQUEST_START data # rs) m =
     rbind (Backend_StartWatching data (mg_backend m, mg_pump m)) (\<lambda>(b, p). process_requests rs (m\<lparr>mg_backend := b, mg_pump := p\<rparr>))"
| "process_requests (REQUEST_STOP watcher_id # rs) m =
     (case Backend_StopWatching watcher_id (mg_backend m, mg_pump m) of (b, p) \<Rightarrow>
        process_requests rs (m\<lparr>mg_backend := b, mg_pump := p, mg_signalled := mg_signalled m @ [watcher_id],
          mg_removed := mg_removed m @ (if GetMojoHandleByWatcherID watcher_id (mg_backend m) = None then [] else [watcher_id])\<rparr>))"

definition ProcessRequestsOnBackendThread :: "Manager \<Rightarrow> Manager res" where
  "ProcessRequestsOnBackendThread m = process_requests (mg_requests m) (m\<lparr>mg_requests := []\<rparr>)"

section \<open>Watching on the thread of the pump\<close>

text \<open>
  \<open>sw_watching\<close> is the handle of the watching state there is. \<open>restart\<close> is the callback of the user, which is
  run when the state has been destroyed.
\<close>

record Watcher =
  sw_watching :: "handle option"
  sw_results :: "MojoResult list"

definition Watcher_Stop :: "Watcher \<times> unit Pump \<Rightarrow> Watcher \<times> unit Pump" where
  "Watcher_Stop s = (case s of (w, p) \<Rightarrow> (w\<lparr>sw_watching := None\<rparr>, case sw_watching w of None \<Rightarrow> p | Some h \<Rightarrow> RemoveHandler h p))"

definition Watcher_Start :: "int \<Rightarrow> handle \<Rightarrow> u32 \<Rightarrow> u64 \<Rightarrow> Watcher \<times> unit Pump \<Rightarrow> (Watcher \<times> unit Pump) res" where
  "Watcher_Start now handle handle_signals deadline s =
     dcheck (handle \<noteq> 0) (dcheck (handle_signals \<noteq> 0)
      (case Watcher_Stop s of (w, p) \<Rightarrow>
        rbind (AddHandler () handle handle_signals (MojoDeadlineToTimeTicks now deadline) p) (\<lambda>p. Inr (w\<lparr>sw_watching := Some handle\<rparr>, p))))"

definition StopWatchingAndNotifyReady ::
  "(Watcher \<times> unit Pump \<Rightarrow> (Watcher \<times> unit Pump) res) \<Rightarrow> handle \<Rightarrow> MojoResult \<Rightarrow> Watcher \<times> unit Pump \<Rightarrow> (Watcher \<times> unit Pump) res" where
  "StopWatchingAndNotifyReady callback handle result s = (case s of (w, p) \<Rightarrow>
     dcheck (sw_watching w = Some handle)
      (callback (w\<lparr>sw_watching := None, sw_results := sw_results w @ [result]\<rparr>, RemoveHandler handle p)))"

definition same_thread_client :: "(Watcher \<times> unit Pump \<Rightarrow> (Watcher \<times> unit Pump) res) \<Rightarrow> (Watcher, unit) client" where
  "same_thread_client callback = \<lparr>OnHandleReady = (\<lambda>handle _. StopWatchingAndNotifyReady callback handle MOJO_RESULT_OK),
     OnHandleError = (\<lambda>handle _. StopWatchingAndNotifyReady callback handle)\<rparr>"

section \<open>The backend keeps the contract of the pump\<close>

definition backend_inv :: "Backend \<times> unit Pump \<Rightarrow> bool" where
  "backend_inv s \<longleftrightarrow> (case s of (b, p) \<Rightarrow> pump_ok p \<and> om_wf (be_data b) \<and>
     (\<forall>h. map_option hnd_deadline (map_of (pm_handlers p) h) = map_option wd_deadline (map_of (be_data b) h)) \<and>
     (\<forall>h d. map_of (be_data b) h = Some d \<longrightarrow> wd_handle d = h))"

lemma backend_inv_dom: "backend_inv (b, p) \<Longrightarrow> map_of (pm_handlers p) h = None \<longleftrightarrow> map_of (be_data b) h = None"
  unfolding backend_inv_def by (metis (mono_tags, lifting) case_prod_conv option.map_disc_iff)

lemma pump_ok_RemoveHandler: "pump_ok p \<Longrightarrow> pump_ok (RemoveHandler h p)"
  by (auto simp: pump_ok_def RemoveHandler_def om_erase_wf map_of_om_erase split: if_splits)

lemma RemoveAndNotify_ok:
  assumes inv: "backend_inv (b, p)" and "p0 = p \<or> p0 = RemoveHandler h p"
  obtains b' where "RemoveAndNotify h r (b, p0) = (b', RemoveHandler h p)" "backend_inv (b', RemoveHandler h p)"
    "be_data b' = om_erase h (be_data b)"
    "be_posted b' = be_posted b @ (case map_of (be_data b) h of None \<Rightarrow> [] | Some d \<Rightarrow> [(wd_id d, r)])"
proof -
  have ok: "pump_ok p" "om_wf (be_data b)" using inv by (simp_all add: backend_inv_def)
  have r: "RemoveHandler h p0 = RemoveHandler h p" using assms(2) by (auto simp: RemoveHandler_def om_erase_def)
  let ?b = "b\<lparr>be_data := om_erase h (be_data b), be_posted := be_posted b @ (case map_of (be_data b) h of None \<Rightarrow> [] | Some d \<Rightarrow> [(wd_id d, r)])\<rparr>"
  have "backend_inv (?b, RemoveHandler h p)"
    using inv pump_ok_RemoveHandler [OF ok(1), of h]
    by (auto simp: backend_inv_def RemoveHandler_def om_erase_wf map_of_om_erase split: if_splits)
  moreover have "RemoveAndNotify h r (b, p0) = (?b, RemoveHandler h p)"
  proof (cases "map_of (be_data b) h")
    case None
    then have "map_of (pm_handlers p) h = None" using backend_inv_dom [OF inv] by simp
    then have "RemoveHandler h p = p" "om_erase h (be_data b) = be_data b" using None by (simp_all add: remove_gone om_erase_absent)
    with None assms(2) show ?thesis by (auto simp: RemoveAndNotify_def)
  qed (simp add: RemoveAndNotify_def r)
  ultimately show thesis using that [of ?b] by simp
qed

text \<open>A watch that is notified moves from the watched ones to the posted ones.\<close>

definition watched_ids :: "Backend \<Rightarrow> nat list" where
  "watched_ids b = map (\<lambda>(_, d). wd_id d) (be_data b)"

definition backend_keeps :: "Backend \<Rightarrow> int \<Rightarrow> Backend \<times> unit Pump \<Rightarrow> bool" where
  "backend_keeps a n s \<longleftrightarrow> backend_inv s \<and> pm_next_handler_id (snd s) = n \<and> set (be_data (fst s)) \<subseteq> set (be_data a) \<and> prefix (be_posted a) (be_posted (fst s)) \<and>
     mset (watched_ids (fst s)) + mset (map fst (be_posted (fst s))) = mset (watched_ids a) + mset (map fst (be_posted a))"

lemma mset_om_erase:
  "om_wf m \<Longrightarrow> map_of m k = Some v \<Longrightarrow> mset (map f m) = add_mset (f (k, v)) (mset (map f (om_erase k m)))"
proof (induction m)
  case (Cons x m)
  obtain a w where x: "x = (a, w)" by (cases x)
  show ?case
  proof (cases "a = k")
    case True
    with Cons.prems(1) have "om_erase k m = m" by (intro om_erase_absent) (auto simp: x map_of_eq_None_iff)
    with True Cons.prems(2) show ?thesis by (simp add: x om_erase_def)
  qed (use Cons in \<open>simp add: x om_erase_def\<close>)
qed simp

lemma mset_om_insert:
  "om_wf m \<Longrightarrow> k \<notin> om_keys m \<Longrightarrow> mset (map f (om_insert k v m)) = add_mset (f (k, v)) (mset (map f m))"
  by (induction k v m rule: om_insert.induct) auto

lemma RemoveAndNotify_keeps:
  assumes "backend_keeps a n (b, p)" "p0 = p \<or> p0 = RemoveHandler h p"
  obtains b' where "RemoveAndNotify h r (b, p0) = (b', RemoveHandler h p)" "backend_keeps a n (b', RemoveHandler h p)"
    "be_data b' = om_erase h (be_data b)"
proof -
  have inv: "backend_inv (b, p)" using assms(1) by (simp add: backend_keeps_def)
  obtain b' where b': "RemoveAndNotify h r (b, p0) = (b', RemoveHandler h p)" "backend_inv (b', RemoveHandler h p)" "be_data b' = om_erase h (be_data b)"
    "be_posted b' = be_posted b @ (case map_of (be_data b) h of None \<Rightarrow> [] | Some d \<Rightarrow> [(wd_id d, r)])"
    using RemoveAndNotify_ok [OF inv assms(2)] .
  have wf: "om_wf (be_data b)" using inv by (simp add: backend_inv_def)
  have "mset (watched_ids b') + mset (map fst (be_posted b')) = mset (watched_ids a) + mset (map fst (be_posted a))"
  proof (cases "map_of (be_data b) h")
    case None
    with assms(1) b'(3,4) show ?thesis by (simp add: om_erase_absent watched_ids_def backend_keeps_def)
  next
    case (Some d)
    with mset_om_erase [OF wf Some, of "\<lambda>(_, d). wd_id d"] assms(1) b'(3,4) show ?thesis by (simp add: watched_ids_def backend_keeps_def)
  qed
  moreover have "set (be_data b') \<subseteq> set (be_data a)" using assms(1) b'(3) by (auto simp: backend_keeps_def om_erase_def)
  moreover have "prefix (be_posted a) (be_posted b')" using assms(1) b'(4) by (auto simp: backend_keeps_def prefix_def)
  ultimately show thesis using b'(1-3) assms(1) by (intro that) (simp_all add: backend_keeps_def RemoveHandler_def)
qed

interpretation wb: pump_client backend_client "backend_keeps a n" for a n
proof (unfold_locales, goal_cases)
  case (1 c p)
  then show ?case by (simp add: backend_keeps_def backend_inv_def)
next
  case (2 c p es)
  then show ?case by (auto simp: backend_keeps_def backend_inv_def pump_ok_def)
next
  case (3 c p rs)
  then show ?case by (auto simp: backend_keeps_def backend_inv_def pump_ok_def)
next
  case (4 c p h d)
  obtain b' where "RemoveAndNotify h MOJO_RESULT_OK (c, p) = (b', RemoveHandler h p)" "backend_keeps a n (b', RemoveHandler h p)"
    using RemoveAndNotify_keeps [OF 4(1) disjI1 [OF refl]] by blast
  then show ?case by (simp add: backend_client_def pump_ext_RemoveHandler) (simp add: RemoveHandler_def)
next
  case (5 c p h d p0 r)
  obtain b' where "RemoveAndNotify h r (c, p0) = (b', RemoveHandler h p)" "backend_keeps a n (b', RemoveHandler h p)"
    using RemoveAndNotify_keeps [OF 5(1,3)] by blast
  then show ?case by (simp add: backend_client_def pump_ext_RemoveHandler) (simp add: RemoveHandler_def map_of_om_erase)
qed

lemma backend_inv_keeps: "backend_inv (b, p) \<longleftrightarrow> backend_keeps b (pm_next_handler_id p) (b, p)"
  by (simp add: backend_keeps_def)

interpretation bi: pump_client backend_client backend_inv
proof (unfold_locales, goal_cases)
  case (4 c p h d)
  with wb.ready [of c "pm_next_handler_id p" c p h d] show ?case by (auto simp: backend_inv_keeps) (auto simp: backend_keeps_def)
next
  case (5 c p h d p0 r)
  with wb.error [of c "pm_next_handler_id p" c p h d p0 r] show ?case by (auto simp: backend_inv_keeps) (auto simp: backend_keeps_def)
qed (auto simp: backend_inv_def pump_ok_def)

section \<open>The manager\<close>

fun start_ids :: "RequestData list \<Rightarrow> nat list" where
  "start_ids [] = []"
| "start_ids (REQUEST_START d # rs) = wd_id d # start_ids rs"
| "start_ids (REQUEST_STOP i # rs) = start_ids rs"

lemma start_ids_append [simp]: "start_ids (xs @ ys) = start_ids xs @ start_ids ys"
  by (induction xs rule: start_ids.induct) simp_all

lemma is_start_iff: "list_ex (is_start i) rs \<longleftrightarrow> i \<in> set (start_ids rs)"
  by (induction rs rule: start_ids.induct) (auto simp: is_start_def)

lemma erase_start_ids: "i \<in> set (start_ids rs) \<Longrightarrow> mset (start_ids rs) = add_mset i (mset (start_ids (erase_start i rs)))"
  by (induction rs rule: start_ids.induct) (auto simp: is_start_def)

lemma erase_start_subset: "set (erase_start i rs) \<subseteq> set rs"
  by (induction i rs rule: erase_start.induct) auto

text \<open>
  \<open>rs\<close> are the requests that have not been processed. Every watch is in one place: in a request, with the
  backend, posted or taken away.
\<close>

definition manager_with :: "RequestData list \<Rightarrow> Manager \<Rightarrow> bool" where
  "manager_with rs m \<longleftrightarrow> backend_inv (mg_backend m, mg_pump m) \<and> pm_run_state (mg_pump m) \<noteq> None \<and>
     mset [0..<mg_next_id m] = mset (start_ids rs) + (mset (watched_ids (mg_backend m)) + mset (map fst (be_posted (mg_backend m)))) + mset (mg_removed m) \<and>
     (\<forall>d. REQUEST_START d \<in> set rs \<longrightarrow> wd_handle d \<noteq> 0) \<and>
     (\<forall>i. REQUEST_STOP i \<in> set rs \<or> i \<in> set (mg_signalled m) \<longrightarrow> i < mg_next_id m \<and> i \<notin> set (start_ids rs)) \<and>
     (\<forall>i \<in> set (mg_signalled m). i \<notin> set (watched_ids (mg_backend m))) \<and>
     pm_next_handler_id (mg_pump m) + int (length (start_ids rs)) \<le> int (mg_next_id m) \<and> 0 \<le> pm_next_handler_id (mg_pump m) \<and>
     int (mg_next_id m) < 2 ^ 31"

definition manager_inv :: "Manager \<Rightarrow> bool" where
  "manager_inv m \<longleftrightarrow> manager_with (mg_requests m) m \<and> (mg_requests m \<noteq> [] \<longrightarrow> 0 < mg_tasks m)"

lemma manager_with_distinct:
  assumes "manager_with rs m"
  shows "distinct (start_ids rs @ watched_ids (mg_backend m) @ map fst (be_posted (mg_backend m)) @ mg_removed m)"
proof -
  have "mset (start_ids rs @ watched_ids (mg_backend m) @ map fst (be_posted (mg_backend m)) @ mg_removed m) = mset [0..<mg_next_id m]"
    using assms by (simp add: manager_with_def add.assoc)
  then show ?thesis by (metis distinct_upt mset_eq_imp_distinct_iff)
qed

lemma manager_with_lt:
  assumes "manager_with rs m" "i \<in> set (start_ids rs @ watched_ids (mg_backend m) @ map fst (be_posted (mg_backend m)) @ mg_removed m)"
  shows "i < mg_next_id m"
proof -
  have "mset [0..<mg_next_id m] = mset (start_ids rs @ watched_ids (mg_backend m) @ map fst (be_posted (mg_backend m)) @ mg_removed m)"
    using assms(1) by (simp add: manager_with_def add.assoc)
  from mset_eq_setD [OF this] assms(2) show ?thesis by (metis atLeastLessThan_iff set_upt)
qed

lemma watched_idsI: "map_of (be_data b) h = Some d \<Longrightarrow> wd_id d \<in> set (watched_ids b)"
  by (auto simp: watched_ids_def dest: map_of_SomeD)

lemma RemoveHandler_run_state: "pm_run_state (RemoveHandler h p) = pm_run_state p"
  by (simp add: RemoveHandler_def)

lemma AddHandler_ok:
  assumes inv: "backend_inv (b, p)" and "map_of (be_data b) (wd_handle d) = None" "wd_handle d \<noteq> 0"
    "0 \<le> pm_next_handler_id p" "pm_next_handler_id p + 1 < 2 ^ 31"
  obtains p' where "AddHandler () (wd_handle d) (wd_handle_signals d) (wd_deadline d) p = Inr p'"
    "backend_inv (b\<lparr>be_data := om_insert (wd_handle d) d (be_data b)\<rparr>, p')" "pm_next_handler_id p' = pm_next_handler_id p + 1"
    "pm_run_state p' = pm_run_state p"
proof -
  let ?h = "wd_handle d"
  let ?e = "\<lparr>hnd_handler = (), hnd_signals = wd_handle_signals d, hnd_deadline = wd_deadline d, hnd_id = pm_next_handler_id p\<rparr>"
  let ?q = "p\<lparr>pm_handlers := om_insert ?h ?e (pm_handlers p), pm_next_handler_id := pm_next_handler_id p + 1\<rparr>"
  have new: "?h \<notin> om_keys (pm_handlers p)" "?h \<notin> om_keys (be_data b)"
    using backend_inv_dom [OF inv, of ?h] assms(2) by (simp_all add: om_keys_dom)
  have wf: "om_wf (pm_handlers p)" "om_wf (be_data b)" using inv by (simp_all add: backend_inv_def pump_ok_def)
  have "hnd_id x < pm_next_handler_id p + 1" if "map_of (pm_handlers p) k = Some x" for k x
    using inv that by (fastforce simp: backend_inv_def pump_ok_def)
  then have "pump_ok ?q" using inv new wf assms(3) by (auto simp: backend_inv_def pump_ok_def om_insert_wf map_of_om_insert)
  then have "backend_inv (b\<lparr>be_data := om_insert ?h d (be_data b)\<rparr>, ?q)"
    using inv new wf by (auto simp: backend_inv_def om_insert_wf map_of_om_insert)
  moreover have "AddHandler () ?h (wd_handle_signals d) (wd_deadline d) p = Inr ?q"
    using new(1) assms(3-5) by (simp add: AddHandler_def in_int32_def)
  ultimately show thesis by (intro that [of ?q]) simp_all
qed

lemma start_request_ok:
  assumes m: "manager_with (REQUEST_START d # rs) m"
  obtains b p where "Backend_StartWatching d (mg_backend m, mg_pump m) = Inr (b, p)" "manager_with rs (m\<lparr>mg_backend := b, mg_pump := p\<rparr>)"
    "prefix (be_posted (mg_backend m)) (be_posted b)"
proof -
  let ?h = "wd_handle d" and ?bk = "mg_backend m" and ?pm = "mg_pump m"
  let ?ids = "mset (watched_ids ?bk) + mset (map fst (be_posted ?bk))" and ?n = "pm_next_handler_id ?pm"
  have k: "backend_keeps ?bk ?n (?bk, ?pm)" using m by (simp add: manager_with_def backend_keeps_def)
  obtain b1 where b1: "RemoveAndNotify ?h MOJO_RESULT_CANCELLED (?bk, ?pm) = (b1, RemoveHandler ?h ?pm)"
    "backend_keeps ?bk ?n (b1, RemoveHandler ?h ?pm)" "be_data b1 = om_erase ?h (be_data ?bk)"
    using RemoveAndNotify_keeps [OF k disjI1 [OF refl]] .
  let ?pr = "RemoveHandler ?h ?pm" and ?b = "b1\<lparr>be_data := om_insert ?h d (be_data b1)\<rparr>"
  have inv1: "backend_inv (b1, ?pr)" and n1: "pm_next_handler_id ?pr = ?n" using b1(2) by (simp_all add: backend_keeps_def)
  have new: "map_of (be_data b1) ?h = None" by (simp add: b1(3) map_of_om_erase)
  have h0: "?h \<noteq> 0" "?n + 1 < 2 ^ 31" "0 \<le> ?n" using m by (simp_all add: manager_with_def)
  obtain p where p: "AddHandler () ?h (wd_handle_signals d) (wd_deadline d) ?pr = Inr p" "backend_inv (?b, p)"
    "pm_next_handler_id p = ?n + 1" "pm_run_state p = pm_run_state ?pm"
    using AddHandler_ok [OF inv1 new h0(1)] h0(2,3) n1 by (metis RemoveHandler_run_state)
  have nk: "?h \<notin> om_keys (be_data b1)" using new by (simp add: om_keys_dom)
  have run: "Backend_StartWatching d (?bk, ?pm) = Inr (?b, p)" using nk b1(1) p(1) by (simp add: Backend_StartWatching_def)
  have wf: "om_wf (be_data b1)" using inv1 by (simp add: backend_inv_def)
  have ids: "mset (watched_ids ?b) + mset (map fst (be_posted ?b)) = add_mset (wd_id d) ?ids"
    using mset_om_insert [OF wf nk, of "\<lambda>(_, d). wd_id d" d] b1(2) by (simp add: watched_ids_def backend_keeps_def)
  have "set (watched_ids ?b) \<subseteq> insert (wd_id d) (set (watched_ids ?bk))"
    using om_insert_set [OF wf nk, of d] by (auto simp: watched_ids_def b1(3) om_erase_def)
  moreover have "wd_id d \<notin> set (start_ids rs)" using manager_with_distinct [OF m] by simp
  ultimately have "manager_with rs (m\<lparr>mg_backend := ?b, mg_pump := p\<rparr>)"
    using m p(2-4) ids unfolding manager_with_def by auto
  moreover have "prefix (be_posted ?bk) (be_posted ?b)" using b1(2) by (simp add: backend_keeps_def)
  ultimately show thesis using run that by blast
qed

lemma GetMojoHandle_None: "GetMojoHandleByWatcherID i b = None \<longleftrightarrow> i \<notin> set (watched_ids b)"
  by (auto simp: GetMojoHandleByWatcherID_def find_None_iff watched_ids_def)

lemma GetMojoHandle_Some:
  assumes "GetMojoHandleByWatcherID i b = Some h" "backend_inv (b, p)"
  obtains d where "map_of (be_data b) h = Some d" "wd_id d = i"
proof -
  obtain h' d where f: "List.find (\<lambda>(_, data). wd_id data = i) (be_data b) = Some (h', d)" "wd_handle d = h"
    using assms(1) by (auto simp: GetMojoHandleByWatcherID_def)
  then have "(h', d) \<in> set (be_data b)" "wd_id d = i" by (auto simp: find_Some_iff) (metis nth_mem)
  moreover have "map_of (be_data b) h' = Some d" using calculation(1) assms(2) by (simp add: backend_inv_def om_mem_iff)
  moreover have "h' = h" using assms(2) calculation(3) f(2) by (auto simp: backend_inv_def)
  ultimately show thesis using that by simp
qed

lemma stop_request_ok:
  assumes m: "manager_with (REQUEST_STOP i # rs) m"
  obtains b p where "Backend_StopWatching i (mg_backend m, mg_pump m) = (b, p)" "be_posted b = be_posted (mg_backend m)"
    "manager_with rs (m\<lparr>mg_backend := b, mg_pump := p, mg_signalled := mg_signalled m @ [i],
       mg_removed := mg_removed m @ (if GetMojoHandleByWatcherID i (mg_backend m) = None then [] else [i])\<rparr>)"
proof (cases "GetMojoHandleByWatcherID i (mg_backend m)")
  case None
  then have "i \<notin> set (watched_ids (mg_backend m))" by (simp add: GetMojoHandle_None)
  with None m show thesis
    by (intro that [of "mg_backend m" "mg_pump m"]) (auto simp: Backend_StopWatching_def manager_with_def)
next
  case (Some h)
  let ?bk = "mg_backend m" and ?pm = "mg_pump m"
  have inv: "backend_inv (?bk, ?pm)" using m by (simp add: manager_with_def)
  obtain d where d: "map_of (be_data ?bk) h = Some d" "wd_id d = i" using GetMojoHandle_Some [OF Some inv] .
  let ?b = "?bk\<lparr>be_data := om_erase h (be_data ?bk)\<rparr>" and ?p = "RemoveHandler h ?pm"
  have wf: "om_wf (be_data ?bk)" "pump_ok ?pm" using inv by (simp_all add: backend_inv_def)
  have ids: "mset (watched_ids ?bk) = add_mset i (mset (watched_ids ?b))"
    using mset_om_erase [OF wf(1) d(1), of "\<lambda>(_, d). wd_id d"] d(2) by (simp add: watched_ids_def)
  have "distinct (watched_ids ?bk)" using manager_with_distinct [OF m] by simp
  then have "i \<notin> set (watched_ids ?b)" "set (watched_ids ?b) \<subseteq> set (watched_ids ?bk)"
    using ids by (metis distinct.simps(2) mset.simps(2) mset_eq_imp_distinct_iff, auto simp: watched_ids_def om_erase_def)
  moreover have "backend_inv (?b, ?p)"
    using inv pump_ok_RemoveHandler [OF wf(2), of h]
    by (auto simp: backend_inv_def RemoveHandler_def om_erase_wf map_of_om_erase split: if_splits)
  ultimately have "manager_with rs (m\<lparr>mg_backend := ?b, mg_pump := ?p, mg_signalled := mg_signalled m @ [i], mg_removed := mg_removed m @ [i]\<rparr>)"
    using m ids unfolding manager_with_def by (auto simp: RemoveHandler_def)
  with Some show thesis by (intro that [of ?b ?p]) (simp_all add: Backend_StopWatching_def)
qed

text \<open>What has been posted or taken away stays so.\<close>

definition went_on :: "Manager \<Rightarrow> Manager \<Rightarrow> bool" where
  "went_on m m' \<longleftrightarrow> prefix (be_posted (mg_backend m)) (be_posted (mg_backend m')) \<and> prefix (mg_removed m) (mg_removed m')"

lemma process_requests_ok:
  assumes "manager_with rs m"
  shows "\<exists>m'. process_requests rs m = Inr m' \<and> manager_with [] m' \<and> mg_requests m' = mg_requests m \<and> mg_tasks m' = mg_tasks m \<and> went_on m m'"
  using assms
proof (induction rs m rule: process_requests.induct)
  case (2 d rs m)
  obtain b p where "Backend_StartWatching d (mg_backend m, mg_pump m) = Inr (b, p)" "manager_with rs (m\<lparr>mg_backend := b, mg_pump := p\<rparr>)"
    "prefix (be_posted (mg_backend m)) (be_posted b)" using start_request_ok [OF 2(2)] .
  with 2(1) [of "(b, p)" b p] show ?case by (auto simp: went_on_def intro: prefix_order.trans)
next
  case (3 i rs m)
  obtain b p where "Backend_StopWatching i (mg_backend m, mg_pump m) = (b, p)"
    "manager_with rs (m\<lparr>mg_backend := b, mg_pump := p, mg_signalled := mg_signalled m @ [i],
       mg_removed := mg_removed m @ (if GetMojoHandleByWatcherID i (mg_backend m) = None then [] else [i])\<rparr>)"
    and b: "be_posted b = be_posted (mg_backend m)" using stop_request_ok [OF 3(2)] by metis
  with 3(1) [of b p] show ?case by (auto simp: went_on_def dest: append_prefixD)
qed (simp add: went_on_def)

section \<open>Runs\<close>

text \<open>
  What other threads and the thread of the manager do: a watch is started or stopped, the next posted task runs, and the pump
  waits and handles what it is told. The requests are only reached under the lock, and the backend only on its thread, so what
  a task does after it has taken the requests commutes with what other threads do meanwhile. A stop that finds no request to erase
  would find none later, so its two sections are one step; the posting of a task counts with the locked section before it.
  The numbers of watches and handlers are 32-bit integers, which is why at most 2^31 - 1 watches may be started, and the control
  pipe of the pump is taken to stay intact.
\<close>

datatype watch_op = Start handle u32 int | Stop nat | Task | Wait "MojoResult \<times> nat" int int bool

fun watch_allowed :: "watch_op \<Rightarrow> Manager \<Rightarrow> bool" where
  "watch_allowed (Start h signals deadline) m \<longleftrightarrow> h \<noteq> 0 \<and> int (mg_next_id m) + 1 < 2 ^ 31"
| "watch_allowed (Stop i) m \<longleftrightarrow> i < mg_next_id m"
| "watch_allowed Task m \<longleftrightarrow> 0 < mg_tasks m"
| "watch_allowed (Wait r wait_now now block) m \<longleftrightarrow> wait_ok (length (pm_handlers (mg_pump m)) + 1) r"

fun watch_do :: "watch_op \<Rightarrow> Manager \<Rightarrow> Manager res" where
  "watch_do (Start h signals deadline) m = Inr (snd (StartWatching h signals deadline m))"
| "watch_do (Stop i) m = Inr (StopWatching i m)"
| "watch_do Task m = ProcessRequestsOnBackendThread (m\<lparr>mg_tasks := mg_tasks m - 1\<rparr>)"
| "watch_do (Wait r wait_now now block) m =
     rbind (DoInternalWork backend_client (\<lambda>_ _ _. r) wait_now now block (mg_backend m, mg_pump m)) (\<lambda>(_, b, p).
       Inr (m\<lparr>mg_backend := b, mg_pump := p\<rparr>))"

lemma manager_with_new: "manager_inv (WatcherThreadManager_new rh)"
  by (simp add: manager_inv_def manager_with_def WatcherThreadManager_new_def backend_inv_def pump_ok_def MessagePumpMojo_new_def watched_ids_def)

lemma manager_with_cong:
  "manager_with rs (m\<lparr>mg_requests := x, mg_tasks := t\<rparr>) = manager_with rs m" "manager_with rs (m\<lparr>mg_requests := x\<rparr>) = manager_with rs m"
  by (simp_all add: manager_with_def)

lemma Start_ok:
  assumes m: "manager_inv m" and h: "h \<noteq> 0" "int (mg_next_id m) + 1 < 2 ^ 31"
  shows "manager_inv (snd (StartWatching h signals deadline m))"
proof -
  let ?d = "\<lparr>wd_id = mg_next_id m, wd_handle = h, wd_handle_signals = signals, wd_deadline = deadline\<rparr>"
  have "manager_with (mg_requests m @ [REQUEST_START ?d]) (m\<lparr>mg_next_id := mg_next_id m + 1\<rparr>)"
    using m h by (auto simp: manager_inv_def manager_with_def)
  then show ?thesis using m
    by (auto simp: manager_inv_def StartWatching_def AddRequest_def manager_with_def)
qed

lemma Stop_ok:
  assumes m: "manager_inv m" and i: "i < mg_next_id m"
  shows "manager_inv (StopWatching i m)"
proof (cases "i \<in> set (start_ids (mg_requests m))")
  case True
  let ?rs = "erase_start i (mg_requests m)"
  have w: "manager_with (mg_requests m) m" using m by (simp add: manager_inv_def)
  have ids: "mset (start_ids (mg_requests m)) = add_mset i (mset (start_ids ?rs))" using True by (rule erase_start_ids)
  then have sub: "set (start_ids ?rs) \<subseteq> set (start_ids (mg_requests m))" and len: "length (start_ids (mg_requests m)) = Suc (length (start_ids ?rs))"
    by (metis insert_iff set_mset_add_mset_insert set_mset_mset subsetI, metis size_add_mset size_mset)
  have "manager_with ?rs (m\<lparr>mg_requests := ?rs, mg_removed := mg_removed m @ [i]\<rparr>)"
    using w ids sub len erase_start_subset [of i "mg_requests m"] unfolding manager_with_def by auto
  moreover have "0 < mg_tasks m" using m True by (auto simp: manager_inv_def)
  ultimately show ?thesis using True by (simp add: StopWatching_def is_start_iff manager_inv_def)
next
  case False
  with m i show ?thesis by (auto simp: StopWatching_def is_start_iff manager_inv_def manager_with_def AddRequest_def)
qed

lemma went_on_Start: "went_on m (snd (StartWatching h signals deadline m))"
  by (simp add: went_on_def StartWatching_def AddRequest_def)

lemma went_on_Stop: "went_on m (StopWatching i m)"
  by (simp add: went_on_def StopWatching_def AddRequest_def)

lemma Task_ok:
  assumes "manager_inv m"
  obtains m' where "watch_do Task m = Inr m'" "manager_inv m'" "mg_requests m' = []" "went_on m m'"
proof -
  have "manager_with (mg_requests m) (m\<lparr>mg_tasks := mg_tasks m - 1, mg_requests := []\<rparr>)" using assms by (simp add: manager_inv_def manager_with_def)
  from process_requests_ok [OF this] that show thesis by (auto simp: ProcessRequestsOnBackendThread_def manager_inv_def went_on_def)
qed

lemma Wait_ok:
  assumes m: "manager_inv m" and w: "wait_ok (length (pm_handlers (mg_pump m)) + 1) r"
  obtains b p where "watch_do (Wait r wait_now now block) m = Inr (m\<lparr>mg_backend := b, mg_pump := p\<rparr>)"
    "manager_inv (m\<lparr>mg_backend := b, mg_pump := p\<rparr>)" "backend_keeps (mg_backend m) (pm_next_handler_id (mg_pump m)) (b, p)"
    "\<And>h d. map_of (be_data b) h = Some d \<Longrightarrow> \<not> (wd_deadline d \<noteq> 0 \<and> wd_deadline d < now)"
proof -
  let ?n = "pm_next_handler_id (mg_pump m)"
  have mw: "manager_with (mg_requests m) m" using m by (simp add: manager_inv_def)
  have k: "backend_keeps (mg_backend m) ?n (mg_backend m, mg_pump m)" using mw by (simp add: manager_with_def backend_keeps_def)
  obtain rs where rs: "pm_run_state (mg_pump m) = Some rs" using mw by (auto simp: manager_with_def)
  from wb.DoInternalWork_ok [OF k rs, of "\<lambda>_ _ _. r" wait_now now block] w obtain did b p where
    run: "DoInternalWork backend_client (\<lambda>_ _ _. r) wait_now now block (mg_backend m, mg_pump m) = Inr (did, b, p)"
    and keeps: "backend_keeps (mg_backend m) ?n (b, p)" and ext: "pump_ext (mg_pump m) p"
    and old: "\<forall>h d. map_of (pm_handlers p) h = Some d \<longrightarrow> hnd_id d < ?n \<longrightarrow> map_of (pm_handlers (mg_pump m)) h = Some d \<and> \<not> expired now d"
    by blast
  have inv: "backend_inv (b, p)" and n: "pm_next_handler_id p = ?n" using keeps by (simp_all add: backend_keeps_def)
  have "pm_run_state p \<noteq> None" using ext rs by (simp add: pump_ext_def)
  moreover have "set (watched_ids b) \<subseteq> set (watched_ids (mg_backend m))" using keeps by (auto simp: backend_keeps_def watched_ids_def)
  ultimately have "manager_inv (m\<lparr>mg_backend := b, mg_pump := p\<rparr>)"
    using m keeps by (auto simp: manager_inv_def manager_with_def backend_keeps_def)
  moreover have "\<not> (wd_deadline d \<noteq> 0 \<and> wd_deadline d < now)" if d: "map_of (be_data b) h = Some d" for h d
  proof -
    have "map_option hnd_deadline (map_of (pm_handlers p) h) = Some (wd_deadline d)" using inv d by (simp add: backend_inv_def)
    then obtain e where e: "map_of (pm_handlers p) h = Some e" "hnd_deadline e = wd_deadline d" by auto
    have "hnd_id e < ?n" using inv e(1) n by (auto simp: backend_inv_def pump_ok_def)
    with old e(1) have "\<not> expired now e" by blast
    with e(2) show ?thesis by (simp add: expired_def)
  qed
  ultimately show thesis using that [of p b] run keeps by simp
qed

lemma watch_step_ok:
  assumes "manager_inv m" "watch_allowed x m"
  obtains m' where "watch_do x m = Inr m'" "manager_inv m'" "went_on m m'"
proof (cases x)
  case (Start h signals deadline)
  with assms that show thesis by (simp add: Start_ok went_on_Start)
next
  case (Stop i)
  with assms that show thesis by (simp add: Stop_ok went_on_Stop)
next
  case Task
  with that Task_ok [OF assms(1)] show thesis by metis
next
  case (Wait r wait_now now block)
  with assms(2) have "wait_ok (length (pm_handlers (mg_pump m)) + 1) r" by simp
  from Wait_ok [OF assms(1) this, of wait_now now block] obtain b p where
    "watch_do x m = Inr (m\<lparr>mg_backend := b, mg_pump := p\<rparr>)" "manager_inv (m\<lparr>mg_backend := b, mg_pump := p\<rparr>)"
    "backend_keeps (mg_backend m) (pm_next_handler_id (mg_pump m)) (b, p)" using Wait by metis
  with that show thesis by (auto simp: went_on_def backend_keeps_def)
qed

section \<open>Properties\<close>

text \<open>Operations that are not allowed do not happen.\<close>

fun watch_run :: "watch_op list \<Rightarrow> Manager \<Rightarrow> Manager res" where
  "watch_run [] m = Inr m"
| "watch_run (x # xs) m = (if watch_allowed x m then rbind (watch_do x m) (watch_run xs) else watch_run xs m)"

lemma went_on_trans: "went_on m m1 \<Longrightarrow> went_on m1 m2 \<Longrightarrow> went_on m m2"
  by (auto simp: went_on_def intro: prefix_order.trans)

lemma watch_run_ok:
  assumes "manager_inv m"
  shows "\<exists>m'. watch_run xs m = Inr m' \<and> manager_inv m' \<and> went_on m m'"
  using assms
proof (induction xs arbitrary: m)
  case Nil
  then show ?case by (simp add: went_on_def)
next
  case (Cons x xs)
  show ?case
  proof (cases "watch_allowed x m")
    case True
    obtain m1 where m1: "watch_do x m = Inr m1" "manager_inv m1" "went_on m m1" using watch_step_ok [OF Cons.prems True] .
    from Cons.IH [OF m1(2)] m1 True show ?thesis by (auto intro: went_on_trans)
  qed (use Cons in simp)
qed

lemma manager_with_set:
  assumes "manager_with rs m"
  shows "set (start_ids rs @ watched_ids (mg_backend m) @ map fst (be_posted (mg_backend m)) @ mg_removed m) = {0..<mg_next_id m}"
proof -
  have "mset (start_ids rs @ watched_ids (mg_backend m) @ map fst (be_posted (mg_backend m)) @ mg_removed m) = mset [0..<mg_next_id m]"
    using assms by (simp add: manager_with_def add.assoc)
  from mset_eq_setD [OF this] show ?thesis by (simp only: set_upt)
qed

lemma posted_or_removed:
  assumes "manager_inv m" "i \<in> set (mg_signalled m)"
  shows "i \<in> set (map fst (be_posted (mg_backend m))) \<or> i \<in> set (mg_removed m)"
proof -
  have "i < mg_next_id m" "i \<notin> set (start_ids (mg_requests m))" "i \<notin> set (watched_ids (mg_backend m))"
    using assms by (auto simp: manager_inv_def manager_with_def)
  with manager_with_set [of "mg_requests m" m] assms(1) show ?thesis by (auto simp: manager_inv_def)
qed

text \<open>A run for the examples: three watches of two handles, of which one is stopped.\<close>

definition example_ops :: "watch_op list" where
  "example_ops = [Start 5 1 10, Start 6 1 20, Task, Start 5 2 0, Stop 1, Task]"

definition example_manager :: "watch_op list \<Rightarrow> Manager" where
  "example_manager xs = (case watch_run xs (WatcherThreadManager_new 1) of Inr m \<Rightarrow> m | Inl _ \<Rightarrow> WatcherThreadManager_new 1)"

lemma example_run: "watch_run xs (WatcherThreadManager_new 1) = Inr (example_manager xs)"
proof -
  obtain m where "watch_run xs (WatcherThreadManager_new 1) = Inr m" using watch_run_ok [OF manager_with_new] by blast
  then show ?thesis by (simp only: example_manager_def sum.case)
qed

lemma example_inv: "manager_inv (example_manager xs)"
  using watch_run_ok [OF manager_with_new, of xs 1] by (auto simp only: example_run sum.inject)


text \<open>
  C40. Once a stop has been carried out, that is when its event has been signalled or when it has erased the
  request, the callback of the watch is not posted any more, whatever is done afterwards.
\<close>

theorem stopped_watch_is_never_notified:
  assumes "watch_run xs (WatcherThreadManager_new read_handle) = Inr m" "i \<in> set (mg_signalled m) \<union> set (mg_removed m)" "watch_run ys m = Inr m'"
  shows "filter (\<lambda>(j, _). j = i) (be_posted (mg_backend m')) = filter (\<lambda>(j, _). j = i) (be_posted (mg_backend m))"
proof -
  have m: "manager_inv m" using watch_run_ok [OF manager_with_new, of xs read_handle] assms(1) by auto
  have m': "manager_inv m'" "went_on m m'" using watch_run_ok [OF m, of ys] assms(3) by auto
  obtain es where es: "be_posted (mg_backend m') = be_posted (mg_backend m) @ es" using m'(2) by (auto simp: went_on_def prefix_def)
  have d: "distinct (map fst (be_posted (mg_backend m')) @ mg_removed m')"
    using manager_with_distinct [of "mg_requests m'" m'] m'(1) by (simp add: manager_inv_def)
  have "i \<in> set (map fst (be_posted (mg_backend m))) \<or> i \<in> set (mg_removed m')"
    using posted_or_removed [OF m, of i] assms(2) m'(2) by (auto simp: went_on_def dest: set_mono_prefix)
  then have "i \<notin> set (map fst es)" using d unfolding es by auto
  then have "filter (\<lambda>(j, _). j = i) es = []" by (force simp: filter_empty_conv)
  then show ?thesis by (simp add: es)
qed

theorem stopped_watch_is_never_notified_witness:
  "\<exists>m'. watch_run [Start 6 1 0, Stop 1, Task, Wait (MOJO_RESULT_OK, 2) 0 0 True] (example_manager example_ops) = Inr m' \<and>
     filter (\<lambda>(j, _). j = 1) (be_posted (mg_backend m')) = []"
proof -
  let ?ops = "[Start 6 1 0, Stop 1, Task, Wait (MOJO_RESULT_OK, 2) 0 0 True]"
  obtain m' where m': "watch_run ?ops (example_manager example_ops) = Inr m'" using watch_run_ok [OF example_inv] by blast
  have "1 \<in> set (mg_signalled (example_manager example_ops)) \<union> set (mg_removed (example_manager example_ops))" by code_simp
  note stopped_watch_is_never_notified [OF example_run this m']
  moreover have "filter (\<lambda>(j, _). j = 1) (be_posted (mg_backend (example_manager example_ops))) = []" by code_simp
  ultimately show ?thesis using m' by simp
qed

text \<open>
  A wait of the pump after the deadline of a watch, whatever it returns, takes the watch from the backend and posts its callback.
\<close>

lemma expired_watch_is_notified:
  assumes "watch_run xs (WatcherThreadManager_new read_handle) = Inr m" "map_of (be_data (mg_backend m)) h = Some d"
    "wd_deadline d \<noteq> 0" "wd_deadline d < now" "watch_allowed (Wait r wait_now now block) m"
  shows "\<exists>m'. watch_do (Wait r wait_now now block) m = Inr m' \<and> wd_id d \<in> fst ` set (be_posted (mg_backend m')) \<and> wd_id d \<notin> set (watched_ids (mg_backend m'))"
proof -
  have m: "manager_inv m" using watch_run_ok [OF manager_with_new, of xs read_handle] assms(1) by auto
  have w: "wait_ok (length (pm_handlers (mg_pump m)) + 1) r" using assms(5) by simp
  obtain b p where b: "watch_do (Wait r wait_now now block) m = Inr (m\<lparr>mg_backend := b, mg_pump := p\<rparr>)"
    "manager_inv (m\<lparr>mg_backend := b, mg_pump := p\<rparr>)" "backend_keeps (mg_backend m) (pm_next_handler_id (mg_pump m)) (b, p)"
    "\<And>h d. map_of (be_data b) h = Some d \<Longrightarrow> \<not> (wd_deadline d \<noteq> 0 \<and> wd_deadline d < now)"
    using Wait_ok [OF m w] by metis
  have inv: "backend_inv (mg_backend m, mg_pump m)" "backend_inv (b, p)" using m b(3) by (simp_all add: manager_inv_def manager_with_def backend_keeps_def)
  have wd: "wd_id d \<in> set (watched_ids (mg_backend m))" using assms(2) by (rule watched_idsI)
  have un: "wd_id d \<notin> set (watched_ids b)"
  proof
    assume "wd_id d \<in> set (watched_ids b)"
    then obtain h' d' where d': "(h', d') \<in> set (be_data b)" "wd_id d' = wd_id d" by (auto simp: watched_ids_def)
    have "(h', d') \<in> set (be_data (mg_backend m))" "(h, d) \<in> set (be_data (mg_backend m))"
      using d'(1) b(3) assms(2) by (auto simp: backend_keeps_def dest: map_of_SomeD)
    moreover have "distinct (watched_ids (mg_backend m))" using manager_with_distinct [of "mg_requests m" m] m by (simp add: manager_inv_def)
    then have "inj_on (\<lambda>(_, d). wd_id d) (set (be_data (mg_backend m)))" by (simp add: watched_ids_def distinct_map)
    ultimately have "d' = d" using d'(2) inj_onD [of "\<lambda>(_, d). wd_id d" _ "(h', d')" "(h, d)"] by simp
    with d'(1) b(4) [of h' d'] inv(2) assms(3,4) show False by (simp add: backend_inv_def om_mem_iff)
  qed
  have "mset (watched_ids b @ map fst (be_posted b)) = mset (watched_ids (mg_backend m) @ map fst (be_posted (mg_backend m)))"
    using b(3) by (simp add: backend_keeps_def)
  from mset_eq_setD [OF this] have "set (watched_ids b) \<union> set (map fst (be_posted b)) = set (watched_ids (mg_backend m)) \<union> set (map fst (be_posted (mg_backend m)))"
    by (simp only: set_append)
  then have "wd_id d \<in> set (map fst (be_posted b))" using un wd by blast
  then have "wd_id d \<in> fst ` set (be_posted b)" by simp
  with b(1) un show ?thesis by simp
qed

lemma expired_watch_is_notified_example:
  "\<exists>m'. watch_do (Wait (MOJO_RESULT_OK, 1) 19 21 True) (example_manager (take 3 example_ops)) = Inr m' \<and> 1 \<in> fst ` set (be_posted (mg_backend m'))"
proof -
  let ?m = "example_manager (take 3 example_ops)" and ?d = "\<lparr>wd_id = 1, wd_handle = 6, wd_handle_signals = 1, wd_deadline = 20\<rparr>"
  have "map_of (be_data (mg_backend ?m)) 6 = Some ?d" by code_simp
  moreover have "watch_allowed (Wait (MOJO_RESULT_OK, 1) 19 21 True) ?m" by code_simp
  ultimately show ?thesis using expired_watch_is_notified [OF example_run, of "take 3 example_ops" 6 ?d 21 "(MOJO_RESULT_OK, 1)" 19 True] by auto
qed

text \<open>
  A watch that the callback starts again when the deadline has passed is lost: the pump erases the handler
  of the handle after the callback, also when the callback has registered a new one. The watcher then believes
  that it watches, but nothing is registered.
\<close>

lemma restarted_watch_is_lost:
  assumes "pm_run_state p = Some rs" "pm_handlers p = [(h, d)]" "expired now d" "sw_watching w = Some h" "h \<noteq> 0" "signals \<noteq> 0"
    "in_int32 (pm_next_handler_id p + 1)"
  shows "\<exists>w' p'. DoInternalWork (same_thread_client (Watcher_Start now h signals deadline)) (\<lambda>_ _ _. (MOJO_RESULT_DEADLINE_EXCEEDED, 0)) wait_now now block (w, p)
      = Inr (True, w', p') \<and> sw_watching w' = Some h \<and> pm_handlers p' = [] \<and> sw_results w' = sw_results w @ [MOJO_RESULT_DEADLINE_EXCEEDED]"
proof -
  have e: "om_erase h [(h, x)] = []" for x :: "unit Handler" by (simp add: om_erase_def)
  show ?thesis
    using assms by (simp add: DoInternalWork_def GetWaitState_def handle_wait_result_def expired_def signal_error_def same_thread_client_def e
      StopWatchingAndNotifyReady_def Watcher_Start_def Watcher_Stop_def AddHandler_def RemoveHandler_def WillSignalHandler_def DidSignalHandler_def Let_def)
qed

lemma restarted_watch_is_lost_example:
  "\<exists>w' p'. DoInternalWork (same_thread_client (Watcher_Start 11 5 1 100)) (\<lambda>_ _ _. (MOJO_RESULT_DEADLINE_EXCEEDED, 0)) 9 11 True
      (\<lparr>sw_watching = Some 5, sw_results = []\<rparr>, \<lparr>pm_run_state = Some \<lparr>rs_delayed_work_time = 0, rs_read_handle = 1, rs_messages = 0, rs_should_quit = False\<rparr>,
         pm_handlers = [(5, \<lparr>hnd_handler = (), hnd_signals = 1, hnd_deadline = 10, hnd_id = 0\<rparr>)], pm_next_handler_id = 1, pm_observers = [], pm_log = []\<rparr>)
      = Inr (True, w', p') \<and> sw_watching w' = Some 5 \<and> pm_handlers p' = [] \<and> sw_results w' = [MOJO_RESULT_DEADLINE_EXCEEDED]"
proof -
  let ?p = "\<lparr>pm_run_state = Some \<lparr>rs_delayed_work_time = 0, rs_read_handle = 1, rs_messages = 0, rs_should_quit = False\<rparr>,
    pm_handlers = [(5, \<lparr>hnd_handler = (), hnd_signals = 1, hnd_deadline = 10, hnd_id = 0\<rparr>)], pm_next_handler_id = 1, pm_observers = [], pm_log = []\<rparr>"
  show ?thesis
    using restarted_watch_is_lost [of ?p _ 5 _ 11 "\<lparr>sw_watching = Some 5, sw_results = []\<rparr>" 1 100 9 True] by (simp add: expired_def in_int32_def)
qed

text \<open>
  The loop of a thread that serves watches returns when its delegate quits, as long as the delegate itself fails
  nowhere and \<^verbatim>\<open>WaitMany\<close> returns what it may: no round fails, the watches stay consistent with the handlers, and
  the state of an outer loop is restored.
\<close>

lemma Run_returns:
  assumes "read_handle \<noteq> 0" "backend_inv (b, p)" "list_all (delegate_ok backend_inv) rds" "list_ex quits rds"
  shows "\<exists>b' p'. Run backend_client read_handle rds (b, p) = Inr (Some (b', p')) \<and> backend_inv (b', p') \<and> pm_run_state p' = pm_run_state p"
proof -
  let ?p = "p\<lparr>pm_run_state := Some \<lparr>rs_delayed_work_time = 0, rs_read_handle = read_handle, rs_messages = 0, rs_should_quit = False\<rparr>\<rparr>"
  have "backend_inv (b, ?p)" by (rule bi.run_state [OF assms(2)])
  from bi.DoRunLoop_ok [OF this _ assms(3), of True] assms(4)
  obtain r where r: "DoRunLoop backend_client rds True (b, ?p) = Inr r" "\<forall>b' p'. r = Some (b', p') \<longrightarrow> backend_inv (b', p')" "r \<noteq> None" by auto
  then obtain b' p' where s: "r = Some (b', p')" "backend_inv (b', p')" by auto
  show ?thesis using assms(1) r(1) s(1) bi.run_state [OF s(2)] by (simp add: Run_def)
qed

lemma Run_returns_example:
  "\<exists>b' p'. Run backend_client 1 [\<lparr>rd_wait = \<lambda>_ _ _. (MOJO_RESULT_DEADLINE_EXCEEDED, 0), rd_wait_now = 0, rd_now = 0,
      DoWork = \<lambda>(c, p). Inr (True, c, Quit p), DoDelayedWork = \<lambda>s. Inr (False, 0, s), DoIdleWork = \<lambda>s. Inr (False, s)\<rparr>]
     (\<lparr>be_data = [], be_posted = []\<rparr>, MessagePumpMojo_new) = Inr (Some (b', p')) \<and> backend_inv (b', p') \<and> pm_run_state p' = None"
proof -
  let ?rd = "\<lparr>rd_wait = \<lambda>_ _ _. (MOJO_RESULT_DEADLINE_EXCEEDED, 0), rd_wait_now = 0, rd_now = 0,
      DoWork = \<lambda>(c, p). Inr (True, c, Quit p), DoDelayedWork = \<lambda>s. Inr (False, 0, s), DoIdleWork = \<lambda>s. Inr (False, s)\<rparr> :: (Backend, unit) round"
  have "delegate_ok backend_inv ?rd"
    using bi.run_state by (auto simp: delegate_ok_def wait_ok_def Quit_def with_run_state_def)
  moreover have "quits ?rd" by (auto simp: quits_def Quit_def with_run_state_def should_quit_def split: option.splits)
  moreover have "backend_inv (\<lparr>be_data = [], be_posted = []\<rparr>, MessagePumpMojo_new)" by (simp add: backend_inv_def pump_ok_def MessagePumpMojo_new_def)
  ultimately show ?thesis
    using Run_returns [of 1 "\<lparr>be_data = [], be_posted = []\<rparr>" MessagePumpMojo_new "[?rd]"] by (simp add: MessagePumpMojo_new_def)
qed

end
