(* ===== verification/Spec2Isabelle.thy ===== *)
theory Spec2Isabelle
  imports Timeline_Function Rate_Control Circular_Buffer Media_Pipe Reader_Cache_Live Mix_Pass Server_Run Framework_Properties
    Handle_Watcher
begin

text \<open>
  A verification development for the media subsystem of this repository: the classes
  under src/mojo/services/media/common/cpp that clients and services share, the
  classes of src/services/media, and the message pump of src/mojo/message_pump on which the
  services wait for their handles.

  \<^bold>\<open>How the parts work together.\<close> Media flows through pipes. A producer places the payload
  of packets in a shared buffer, whose regions it manages either with
  \<^verbatim>\<open>SharedMediaBufferAllocator\<close> (a \<^verbatim>\<open>FifoAllocator\<close> over a \<^verbatim>\<open>MappedSharedBuffer\<close>) or as a ring
  with \<^verbatim>\<open>CircularBufferMediaPipeAdapter\<close>; it sends packet descriptions to a
  \<^verbatim>\<open>MediaPipeBase\<close>, which validates them against the buffer. When the media is presented is
  decided by timelines: a \<^verbatim>\<open>TimelineFunction\<close> with its \<^verbatim>\<open>TimelineRate\<close>, or a \<^verbatim>\<open>LinearTransform\<close>
  under the control of a \<^verbatim>\<open>RateControlBase\<close>. The media framework reads assets through a
  \<^verbatim>\<open>ReaderCache\<close>, which keeps what it has read in a \<^verbatim>\<open>SparseByteBuffer\<close>, and moves packets from
  sources through transforms to sinks: these parts are hosted by the stages of a \<^verbatim>\<open>Graph\<close>,
  whose \<^verbatim>\<open>Engine\<close> updates a stage when packets or demand have reached it. A conversion
  pipeline of decoders and of \<^verbatim>\<open>LpcmReformatter\<close> is added to a graph when a sink does not
  take the type of a stream. In the audio server, an
  \<^verbatim>\<open>AudioTrackImpl\<close> receives packets through an \<^verbatim>\<open>AudioPipe\<close>, a \<^verbatim>\<open>MediaPipeBase\<close>, and queues them
  in an \<^verbatim>\<open>AudioTrackToOutputLink\<close> per output; each output, a \<^verbatim>\<open>StandardOutputBase\<close>, mixes the
  packets at the front of its queues with a \<^verbatim>\<open>Mixer\<close> per track into an intermediate buffer,
  from which an \<^verbatim>\<open>OutputFormatter\<close> produces the samples of the device. The server owns the
  tracks and, through its \<^verbatim>\<open>AudioOutputManager\<close>, the outputs; a packet that no queue refers to
  any more goes back to its sender through the clean-up queue of the server. A thread that
  waits for Mojo handles runs a \<^verbatim>\<open>MessagePumpMojo\<close>; a \<^verbatim>\<open>HandleWatcher\<close> registers with it directly
  or, from another thread, through the \<^verbatim>\<open>WatcherThreadManager\<close> and its backend.

  \<^bold>\<open>Theories.\<close>
  \<^item> \<^verbatim>\<open>Media_Prelude\<close>: fixed-width integers, faults and results, facts on words, long
    division of a 96-bit product.
  \<^item> \<^verbatim>\<open>Timeline_Rate\<close> (timeline_rate.h, timeline_rate.cc): reduction by a binary gcd, scaling
    of an int64 by a ratio, products of ratios.
  \<^item> \<^verbatim>\<open>Timeline_Function\<close> (timeline_function.h, timeline_function.cc): application, inverse and
    composition of timeline functions.
  \<^item> \<^verbatim>\<open>Linear_Transform\<close> (linear_transform.h, linear_transform.cc): forward and reverse
    transformation, composition of ratios.
  \<^item> \<^verbatim>\<open>Fifo_Allocator\<close> (fifo_allocator.h, fifo_allocator.cc): the allocator on an explicit
    heap of list nodes; locale \<^verbatim>\<open>region_allocator\<close> states its contract.
  \<^item> \<^verbatim>\<open>Shared_Buffer\<close> (mapped_shared_buffer.h/.cc, shared_media_buffer_allocator.h/.cc): locale
    \<^verbatim>\<open>pointer_allocator\<close> states the contract in terms of addresses.
  \<^item> \<^verbatim>\<open>Media_Transport\<close> (media_common.mojom, media_transport.mojom): packets and result codes.
  \<^item> \<^verbatim>\<open>Circular_Buffer\<close> (circular_buffer_media_pipe_adapter.h/.cc): the ring of packets, the
    signal, faults and flushes; when a packet is refused, and a step relation for
    producers and consumers in which a create is any that the code decides rightly.
  \<^item> \<^verbatim>\<open>Media_Pipe\<close> (services/media/common/media_pipe_base.h/.cc): validation of packets; a
    step relation for arbitrary clients.
  \<^item> \<^verbatim>\<open>Rate_Control\<close> (services/media/common/rate_control_base.h/.cc): rate changes and their
    scheduling; runs of arbitrary operations, which may end in the overflow of a difference
    of target times.
  \<^item> \<^verbatim>\<open>Std_Map\<close>: \<^verbatim>\<open>std::map\<close> as a sorted association list, iterators as keys.
  \<^item> \<^verbatim>\<open>Sparse_Buffer\<close> (services/media/framework/parts/sparse_byte_buffer.h/.cc): regions and
    holes tile the buffer; finding, splitting and filling.
  \<^item> \<^verbatim>\<open>Reader_Cache\<close>, \<^verbatim>\<open>Reader_Cache_Live\<close> (services/media/framework/parts/reader_cache.h/.cc,
    util/incident.h/.cc): the operations and callbacks with a safety invariant over all
    runs, then progress under the rules for clients.
  \<^item> \<^verbatim>\<open>Mixer_Utils\<close> (services/media/audio/gain.h, platform/generic/mixers/mixer_utils.h):
    reading, scaling and accumulating samples.
  \<^item> \<^verbatim>\<open>Samplers\<close>, \<^verbatim>\<open>Linear_Sampling\<close> (platform/generic/mixer.h/.cc, mixers/point_sampler.cc,
    mixers/linear_sampler.cc, mixers/no_op.cc): the mixers, and that they compute a closed
    formula of the position.
  \<^item> \<^verbatim>\<open>Mixer_Interface\<close>: locale \<^verbatim>\<open>mixer_contract\<close>, what an output relies on of any mixer,
    interpreted on the mixers of the sources.
  \<^item> \<^verbatim>\<open>Output_Formatter\<close> (platform/generic/output_formatter.h/.cc): clipping and conversion.
  \<^item> \<^verbatim>\<open>Audio_Link\<close> (services/media/audio/audio_track_to_output_link.h/.cc): the queue between a
    track and an output; a step relation for its two threads, and locale \<^verbatim>\<open>packet_queue\<close>,
    what the mixing thread relies on.
  \<^item> \<^verbatim>\<open>Audio_Track\<close> (audio_pipe.h/.cc, audio_track_impl.h/.cc): packets in fractional frames,
    configuration of a track.
  \<^item> \<^verbatim>\<open>Standard_Output\<close>, \<^verbatim>\<open>Mix_Pass\<close> (platform/generic/standard_output_base.h/.cc,
    throttle_output.cc): the transformations between timelines, the passes over the tracks
    and the processing loop; what mixing and trimming a packet do.
  \<^item> \<^verbatim>\<open>Audio_Server\<close> (audio_server_impl.h/.cc, audio_output_manager.h/.cc, audio_output.h/.cc): the
    server, the output manager and the base class of outputs, with what connects tracks and
    outputs. \<^verbatim>\<open>Server_Packets\<close>, \<^verbatim>\<open>Server_Connections\<close>, \<^verbatim>\<open>Server_Run\<close>: the order in which packets go
    back, the references between tracks, links and outputs, and what holds in every run of the
    server, up to its shutdown. A track that is closed can still be reached while a mixing
    thread holds it (\<open>sv_held\<close>); the shutdown of another output then fails a check, and the
    theorems say exactly when.
  \<^item> \<^verbatim>\<open>Stage_Store\<close>, \<^verbatim>\<open>Graph_Build\<close>, \<^verbatim>\<open>Framework_Stages\<close>, \<^verbatim>\<open>Stage_Engine\<close> (services/media/framework:
    packet.cc, payload_allocator.cc, refs.cc, graph.cc, engine.cc, stages): packets, stages
    in a store, the operations that build a graph with their invariant, the six classes
    of stages, and the engine.
  \<^item> \<^verbatim>\<open>Engine_Invariant\<close>, \<^verbatim>\<open>Engine_Run\<close>, \<^verbatim>\<open>Engine_Walk\<close>, \<^verbatim>\<open>Engine_Delivery\<close>: no update fails a check;
    updates of a pipeline end with nothing left to do; preparing, flushing and unpreparing;
    what a running pipeline delivers.
  \<^item> \<^verbatim>\<open>Sink_Inputs\<close> (stages/active_multistream_sink_stage.cc): locale \<^verbatim>\<open>index_pool\<close>, interpreted on the
    inputs of a multistream sink.
  \<^item> \<^verbatim>\<open>Stream_Types\<close>, \<^verbatim>\<open>Lpcm\<close>, \<^verbatim>\<open>Conversion\<close> (types, util/lpcm_util.cc, parts/lpcm_reformatter.cc,
    util/conversion_pipeline_builder.cc, and of framework_ffmpeg what makes an opened codec a
    decoder with an output type): stream types, sample conversion, and the choice and
    construction of a conversion pipeline.
  \<^item> \<^verbatim>\<open>Sample_Pipeline\<close>, \<^verbatim>\<open>Framework_Properties\<close>: a concrete pipeline, and the properties of the
    framework with their instances on it.
  \<^item> \<^verbatim>\<open>Message_Pump\<close>, \<^verbatim>\<open>Handle_Watcher\<close> (src/mojo/message_pump: message_pump_mojo.h/.cc,
    handle_watcher.cc): the handlers of a pump, its waits and its loop; locale \<^verbatim>\<open>pump_client\<close>, what
    the pump relies on of those it calls, interpreted on the backend; the requests of
    other threads and where each watch is.

  \<^bold>\<open>Conventions.\<close> A class is a record, an operation a function from the state to a result
  and the next state. A failed DCHECK, a signed overflow, a division by zero, a null
  dereference or an endless loop is a value of the type \<^verbatim>\<open>fault\<close> on the left of the sum; the
  build with DCHECKs enabled is modelled. Unsigned integers are words and wrap. An
  \<^verbatim>\<open>int64_t\<close> is an \<^verbatim>\<open>int\<close> whose arithmetic faults out of range (\<^verbatim>\<open>TimelineRate\<close>,
  \<^verbatim>\<open>TimelineFunction\<close>) or, in the code that relies on two's complement, a 64-bit word
  (\<^verbatim>\<open>LinearTransform\<close>, and the transformations of \<^verbatim>\<open>RateControlBase\<close>, whose differences of
  target times fault all the same). Loops that follow pointers or strip factors are
  \<^theory_text>\<open>partial_function (option)\<close>, and the theorems show that they return; the other loops
  terminate by a measure. Operations that hold a mutex for their whole body are single
  steps. There is no fuel; the loops of \<^verbatim>\<open>Standard_Output\<close> and \<^verbatim>\<open>Message_Pump\<close> that others can
  prolong take the list of what happens in each round, and say so when it is used up.

  \<^bold>\<open>What is shown.\<close> Each operation's value on every branch, the invariants of the stateful
  classes over all sequences of operations, the absence of faults under the stated
  conditions, and the places where the code departs from its documentation; the
  properties are numbered C1, C2 and so on in the texts that precede them.

  \<^bold>\<open>What is not modelled.\<close> The Mojo system calls, the parts a graph hosts and the codecs of ffmpeg
  (parameters, with their documented behaviour as hypotheses), logging, the stream output
  operators, the reference counts of mapped buffers, and what is computed in floating
  point: the gains in decibels and the float sample format. In the audio server, an operation of a
  link and a flush of a track are single steps, and a processing callback is any sequence of
  the actions that others can see. In the message pump, observers are only told and do nothing,
  and the destruction of a message loop is left out. Not modelled are the video types. The factory service, whose classes forward requests to
  generated Mojo interfaces, bindings to FFmpeg and ALSA, build files, tools, tests and
  third-party code are left out.
\<close>

section \<open>From the producer to the consumer\<close>

lemma packet_regions_of:
  "mp_packet p = Some m \<Longrightarrow>
   packet_regions p = map (\<lambda>r. (unat (rgn_offset r), unat (rgn_length r))) (regions_of m)"
  by (simp add: packet_regions_def regions_of_def)

lemma created_packet_in:
  assumes "cb_open s" "unat sz < cb_n s"
  shows "\<exists>m. mp_packet (created sz no_wrap s packet) = Some m \<and> packet_in (cb_buffer_size s) m"
proof -
  let ?p = "created sz no_wrap s packet"
  obtain m where m: "mp_packet ?p = Some m" "pkt_payload m \<noteq> None"
    by (simp add: created_def Let_def)
  have "region_in (cb_buffer_size s) r" if "r \<in> set (regions_of m)" for r
  proof -
    have "(unat (rgn_offset r), unat (rgn_length r)) \<in> set (packet_regions ?p)"
      using that by (auto simp: packet_regions_of [OF m(1)])
    then show ?thesis
      using cb_open_bounds [OF assms(1)] assms(2)
      by (auto simp: created_regions [OF assms] region_in_def cb_n_def cb_start_def split: if_splits)
  qed
  with m show ?thesis by (auto simp: packet_in_def)
qed

text \<open>
  C16. Every packet that the adapter creates in its ring, whether there was room for it or not, is accepted by a pipe that has the
  same buffer: the pipe hands it to its implementation and stays open.
\<close>

theorem adapter_packets_are_accepted:
  assumes "cb_open s" "CreateMediaPacket sz no_wrap packet s = Inr (OK, p, s')" "pb_buffer pipe = Some b" "bf_size b = cb_buffer_size s"
  shows "\<exists>m. mp_packet p = Some m \<and>
    SendPacket m cbk pipe = Inr (pipe\<lparr>pb_calls := pb_calls pipe @ [OnPacketReceived
      \<lparr>ms_packet = m, ms_buffer = b, ms_cbk = cbk, ms_result = SR_CONSUMED\<rparr>]\<rparr>)"
proof -
  have sz: "unat sz < cb_n s" using assms(2) CreateMediaPacket_too_large [OF assms(1), of sz no_wrap packet] by (cases "unat sz < cb_n s") auto
  have p: "p = created sz no_wrap s packet" using assms(2) CreateMediaPacket_eq [OF assms(1) sz, of no_wrap packet] by (auto split: if_splits)
  obtain m where m: "mp_packet p = Some m" "packet_in (cb_buffer_size s) m"
    using created_packet_in [OF assms(1) sz] unfolding p by blast
  have "bf_size b \<noteq> 0" using assms(1,4) by (auto simp: cb_open_def)
  from SendPacket_iff [OF assms(3) this] m assms(4) show ?thesis
    by (simp add: pb_call_def)
qed

theorem adapter_packets_are_accepted_witness:
  "\<exists>p s' m. CreateMediaPacket 20 False blank_packet (cb100 60 90) = Inr (OK, p, s') \<and> mp_packet p = Some m \<and>
     (\<exists>pipe'. SendPacket m 3 (page_pipe\<lparr>pb_buffer := Some \<lparr>bf_handle = Some (), bf_size = 100,
        bf_base = Some 1000\<rparr>\<rparr>) = Inr pipe')"
proof -
  have op: "cb_open (cb100 60 90)" by (simp add: cb100_open)
  have "cb_room 20 False (cb100 60 90)"
    by (simp add: cb_room_def cb_taken_def cb_padded_def cb_pending_def ring_dist_def cb_n_def cb100_def)
  then obtain p s' where c: "CreateMediaPacket 20 False blank_packet (cb100 60 90) = Inr (OK, p, s')"
    using CreateMediaPacket_room [OF op] by blast
  from adapter_packets_are_accepted [OF op c, of "page_pipe\<lparr>pb_buffer := Some \<lparr>bf_handle = Some (),
      bf_size = 100, bf_base = Some 1000\<rparr>\<rparr>" "\<lparr>bf_handle = Some (), bf_size = 100, bf_base = Some 1000\<rparr>" 3]
  show ?thesis using c by (auto simp: cb100_def)
qed

end
